(* ===== verification/Prelude.thy ===== *)
theory Prelude
  imports Main "HOL-Library.Word" "HOL-Library.AList"
begin

unbundle bit_operations_syntax

text \<open>
  Generic material the components share. It models what the program takes from
  Python: exceptions as values of one datatype, results and stateful commands
  that may raise, \<open>list\<close>/\<open>bytes\<close> slicing with Python's clipping and negative
  indices, and the big-endian integer codings of \<open>int.to_bytes\<close> and
  \<open>struct.pack\<close>. The lemmas on them are declared as simp rules or collected in
  \<open>byte_simps\<close> so that the component proofs are short.
\<close>

named_theorems byte_simps \<open>lengths and contents of byte sequences\<close>

section \<open>Exceptions and results\<close>

text \<open>
  The exception classes the program raises or catches (\<open>errors.py\<close>,
  \<open>type_system.py\<close>, \<open>wal.py\<close>, \<open>transaction.py\<close> and the built-in ones). Message
  texts are dropped; the attributes a caller dispatches on are kept. \<open>FuelOut\<close> is
  not an exception: it marks a loop that the fuel of a model cut short.
\<close>

datatype py_error =
    ValueError
  | TypeErr
  | KeyError
  | IndexError
  | AttributeErr
  | OverflowErr
  | StructError
  | AssertionErr
  | RuntimeErr
  | UnicodeError
  | CodecError
  | PageFull
  | CatalogFull
  | CatalogCorrupt
  | InvalidDatabaseFile
  | UnsupportedSchemaVersion
  | SchemaMismatch
  | WalCorruption nat
  | InvalidWalFile
  | InvalidTxnState
  | ExecutionError
  | ConstraintViolation string "nat list list"
  | ParseError nat nat
  | TokenError nat nat
  | UnknownSource "nat list"
  | UnknownQualifiedColumn "nat list" "nat list"
  | AmbiguousColumn "nat list" "nat list list"
  | DuplicateAlias "nat list"
  | MissingUsingKey "nat list" "nat list"
  | IncompatibleKeyTypes string string
  | DatabaseLocked
  | NotImplementedErr
  | FuelOut

text \<open>
  \<open>except ValueError\<close> also catches the subclasses: \<open>CodecError\<close> inherits from
  \<open>TypeError\<close>, \<open>ValueError\<close> and \<open>OverflowError\<close>, and the decoding error of
  \<open>bytes.decode\<close> is a \<open>ValueError\<close>. \<open>struct.error\<close> is not.
\<close>

definition is_value_error :: "py_error \<Rightarrow> bool" where
  "is_value_error e \<longleftrightarrow> e = ValueError \<or> e = CodecError \<or> e = UnicodeError"

definition is_type_error :: "py_error \<Rightarrow> bool" where
  "is_type_error e \<longleftrightarrow> e = TypeErr \<or> e = CodecError"

type_synonym 'a res = "py_error + 'a"

definition bindE :: "'e + 'a \<Rightarrow> ('a \<Rightarrow> 'e + 'b) \<Rightarrow> 'e + 'b" where
  "bindE r f = (case r of Inl e \<Rightarrow> Inl e | Inr a \<Rightarrow> f a)"

lemma bindE_Inl [simp]: "bindE (Inl e) f = Inl e"
  by (simp add: bindE_def)

lemma bindE_Inr [simp]: "bindE (Inr a) f = f a"
  by (simp add: bindE_def)

lemma bindE_eq_Inr [simp]: "bindE r f = Inr b \<longleftrightarrow> (\<exists>a. r = Inr a \<and> f a = Inr b)"
  by (cases r) auto

lemma bindE_eq_Inl: "bindE r f = Inl e \<longleftrightarrow> r = Inl e \<or> (\<exists>a. r = Inr a \<and> f a = Inl e)"
  by (cases r) auto

lemma bindE_assoc: "bindE (bindE r f) g = bindE r (\<lambda>a. bindE (f a) g)"
  by (cases r) auto

lemma bindE_cong [fundef_cong]:
  "r = r' \<Longrightarrow> (\<And>a. r' = Inr a \<Longrightarrow> f a = f' a) \<Longrightarrow> bindE r f = bindE r' f'"
  by (cases r') auto

text \<open>A guard \<open>if not c: raise e\<close>, and loops over a list that may raise.\<close>

definition guardE :: "bool \<Rightarrow> 'e \<Rightarrow> 'e + unit" where
  "guardE c e = (if c then Inr () else Inl e)"

lemma guardE_simps [simp]:
  "guardE True e = Inr ()" "guardE False e = Inl e"
  "guardE c e = Inr u \<longleftrightarrow> c" "guardE c e = Inl e' \<longleftrightarrow> \<not> c \<and> e = e'"
  by (auto simp: guardE_def)

fun mapE :: "('a \<Rightarrow> 'e + 'b) \<Rightarrow> 'a list \<Rightarrow> 'e + 'b list" where
  "mapE f [] = Inr []"
| "mapE f (x # xs) = bindE (f x) (\<lambda>y. bindE (mapE f xs) (\<lambda>ys. Inr (y # ys)))"

fun foldE :: "('s \<Rightarrow> 'a \<Rightarrow> 'e + 's) \<Rightarrow> 's \<Rightarrow> 'a list \<Rightarrow> 'e + 's" where
  "foldE f s [] = Inr s"
| "foldE f s (x # xs) = bindE (f s x) (\<lambda>s'. foldE f s' xs)"

lemma mapE_Inr_length: "mapE f xs = Inr ys \<Longrightarrow> length ys = length xs"
  by (induction xs arbitrary: ys) auto

lemma mapE_Inr_nth: "mapE f xs = Inr ys \<Longrightarrow> i < length xs \<Longrightarrow> f (xs ! i) = Inr (ys ! i)"
  by (induction xs arbitrary: ys i) (auto simp: nth_Cons split: nat.splits)

lemma mapE_all_Inr: "(\<And>x. x \<in> set xs \<Longrightarrow> f x = Inr (g x)) \<Longrightarrow> mapE f xs = Inr (map g xs)"
  by (induction xs) auto

lemma mapE_cong [fundef_cong]:
  "xs = ys \<Longrightarrow> (\<And>x. x \<in> set ys \<Longrightarrow> f x = g x) \<Longrightarrow> mapE f xs = mapE g ys"
  by (induction ys arbitrary: xs) auto

lemma foldE_append: "foldE f s (xs @ ys) = bindE (foldE f s xs) (\<lambda>s'. foldE f s' ys)"
  by (induction xs arbitrary: s) (auto simp: bindE_assoc)

lemma foldE_invariant:
  assumes "foldE f s xs = Inr s'" and "P s"
    and "\<And>s x t. x \<in> set xs \<Longrightarrow> P s \<Longrightarrow> f s x = Inr t \<Longrightarrow> P t"
  shows "P s'"
  using assms by (induction xs arbitrary: s) auto

lemma list_all_update: "list_all P xs \<Longrightarrow> P y \<Longrightarrow> list_all P (xs[i := y])"
  by (auto simp: list_all_iff dest: set_update_subset_insert [THEN subsetD])

section \<open>Dictionaries\<close>

text \<open>
  A Python \<open>dict\<close> keeps the order in which keys were first inserted, and
  assignment to a present key keeps its place: \<open>AList.update\<close>. Lookup is
  \<open>map_of\<close>, \<open>dict.setdefault\<close> inserts only an absent key.
\<close>

type_synonym ('k, 'v) dict = "('k \<times> 'v) list"

definition dict_setdefault :: "'k \<Rightarrow> 'v \<Rightarrow> ('k, 'v) dict \<Rightarrow> ('k, 'v) dict" where
  "dict_setdefault k v d = (if map_of d k = None then AList.update k v d else d)"

lemma map_of_setdefault [simp]:
  "map_of (dict_setdefault k v d) = (if map_of d k = None then (map_of d)(k \<mapsto> v) else map_of d)"
  by (simp add: dict_setdefault_def update_conv')

lemma map_of_update [simp]: "map_of (AList.update k v d) = (map_of d)(k \<mapsto> v)"
  by (simp add: update_conv')

section \<open>Stateful commands that may raise\<close>

text \<open>
  A method that mutates shared state returns its result or the exception
  together with the state reached: the effects of the statements before a
  raise remain, as they do in the program.
\<close>

type_synonym ('s, 'a) cmd = "'s \<Rightarrow> (py_error + 'a) \<times> 's"

definition returnS :: "'a \<Rightarrow> ('s, 'a) cmd" where
  "returnS a = (\<lambda>s. (Inr a, s))"

definition raiseS :: "py_error \<Rightarrow> ('s, 'a) cmd" where
  "raiseS e = (\<lambda>s. (Inl e, s))"

definition bindS :: "('s, 'a) cmd \<Rightarrow> ('a \<Rightarrow> ('s, 'b) cmd) \<Rightarrow> ('s, 'b) cmd" where
  "bindS m f = (\<lambda>s. case m s of (Inl e, s') \<Rightarrow> (Inl e, s') | (Inr a, s') \<Rightarrow> f a s')"

definition getS :: "('s \<Rightarrow> 'a) \<Rightarrow> ('s, 'a) cmd" where
  "getS f = (\<lambda>s. (Inr (f s), s))"

definition modifyS :: "('s \<Rightarrow> 's) \<Rightarrow> ('s, unit) cmd" where
  "modifyS f = (\<lambda>s. (Inr (), f s))"

definition liftE :: "py_error + 'a \<Rightarrow> ('s, 'a) cmd" where
  "liftE r = (\<lambda>s. (r, s))"

definition catchS :: "('s, 'a) cmd \<Rightarrow> (py_error \<Rightarrow> ('s, 'a) cmd) \<Rightarrow> ('s, 'a) cmd" where
  "catchS m h = (\<lambda>s. case m s of (Inl e, s') \<Rightarrow> h e s' | (Inr a, s') \<Rightarrow> (Inr a, s'))"

fun forS :: "'a list \<Rightarrow> ('a \<Rightarrow> ('s, unit) cmd) \<Rightarrow> ('s, unit) cmd" where
  "forS [] f = returnS ()"
| "forS (x # xs) f = bindS (f x) (\<lambda>_. forS xs f)"

lemma cmd_simps [simp]:
  "returnS a s = (Inr a, s)"
  "raiseS e s = (Inl e, s)"
  "getS f s = (Inr (f s), s)"
  "modifyS g s = (Inr (), g s)"
  "liftE r s = (r, s)"
  by (simp_all add: returnS_def raiseS_def getS_def modifyS_def liftE_def)

lemma bindS_Inr: "m s = (Inr a, s') \<Longrightarrow> bindS m f s = f a s'"
  by (simp add: bindS_def)

lemma bindS_Inl: "m s = (Inl e, s') \<Longrightarrow> bindS m f s = (Inl e, s')"
  by (simp add: bindS_def)

lemma bindS_steps [simp]:
  "bindS (returnS a) f s = f a s"
  "bindS (raiseS e) f s = (Inl e, s)"
  "bindS (getS g) f s = f (g s) s"
  "bindS (modifyS h) f' s = f' () (h s)"
  by (simp_all add: bindS_def)

lemma bindS_liftE [simp]:
  "bindS (liftE (Inr a)) f s = f a s"
  "bindS (liftE (Inl e)) f s = (Inl e, s)"
  by (simp_all add: bindS_def)

lemma bindS_eq_Inr:
  "bindS m f s = (Inr b, t) \<longleftrightarrow> (\<exists>a s'. m s = (Inr a, s') \<and> f a s' = (Inr b, t))"
  by (auto simp: bindS_def split: prod.splits sum.splits)

lemma bindS_eq_Inl:
  "bindS m f s = (Inl e, t) \<longleftrightarrow>
     m s = (Inl e, t) \<or> (\<exists>a s'. m s = (Inr a, s') \<and> f a s' = (Inl e, t))"
  by (auto simp: bindS_def split: prod.splits sum.splits)

lemma bindS_cong [fundef_cong]:
  "m = m' \<Longrightarrow> s = s' \<Longrightarrow> (\<And>a t. m' s' = (Inr a, t) \<Longrightarrow> f a t = f' a t) \<Longrightarrow>
   bindS m f s = bindS m' f' s'"
  by (auto simp: bindS_def split: prod.splits sum.splits)

lemma bindS_assoc: "bindS (bindS m f) g = bindS m (\<lambda>a. bindS (f a) g)"
  by (rule ext) (auto simp: bindS_def split: prod.splits sum.splits)

lemma catchS_Inr: "m s = (Inr a, s') \<Longrightarrow> catchS m h s = (Inr a, s')"
  by (simp add: catchS_def)

lemma catchS_Inl: "m s = (Inl e, s') \<Longrightarrow> catchS m h s = h e s'"
  by (simp add: catchS_def)

lemma forS_invariant:
  assumes "forS xs f s = (r, t)" and "P s"
    and "\<And>x s r' t. x \<in> set xs \<Longrightarrow> P s \<Longrightarrow> f x s = (r', t) \<Longrightarrow> P t"
  shows "P t"
  using assms
proof (induction xs arbitrary: s)
  case Nil
  then show ?case by simp
next
  case (Cons x xs)
  obtain r' s' where step: "f x s = (r', s')" by force
  then have "P s'" using Cons.prems(2,3) by auto
  show ?case
  proof (cases r')
    case (Inl e)
    then show ?thesis using Cons.prems(1) step \<open>P s'\<close> by (simp add: bindS_Inl)
  next
    case (Inr u)
    then have "forS xs f s' = (r, t)" using Cons.prems(1) step by (simp add: bindS_Inr)
    then show ?thesis using \<open>P s'\<close>
      by (rule Cons.IH) (use Cons.prems(3) in auto)
  qed
qed

end
