(* ===== verification/Py_Bytes.thy ===== *)
theory Py_Bytes
  imports Prelude
begin

text \<open>
  Python's byte sequences: slicing with clipping and negative indices, slice
  assignment (which changes the length of a \<open>bytearray\<close> when the lengths
  differ), item access, and the big-endian codings of \<open>int.to_bytes\<close>,
  \<open>int.from_bytes\<close> and \<open>struct.pack\<close>/\<open>unpack\<close>. Every storage component uses them.
\<close>

type_synonym byte = "8 word"

section \<open>Slices\<close>

definition py_len :: "'a list \<Rightarrow> int" where [simp]: "py_len xs = int (length xs)"

definition py_norm :: "nat \<Rightarrow> int \<Rightarrow> nat" where
  "py_norm n i = nat (if i < 0 then max 0 (int n + i) else min (int n) i)"

definition slice :: "'a list \<Rightarrow> int \<Rightarrow> int \<Rightarrow> 'a list" where
  "slice xs a b =
     (let i = py_norm (length xs) a; j = py_norm (length xs) b in take (j - i) (drop i xs))"

definition slice_from :: "'a list \<Rightarrow> int \<Rightarrow> 'a list" where
  "slice_from xs a = drop (py_norm (length xs) a) xs"

definition slice_to :: "'a list \<Rightarrow> int \<Rightarrow> 'a list" where
  "slice_to xs b = take (py_norm (length xs) b) xs"

definition set_slice :: "'a list \<Rightarrow> int \<Rightarrow> int \<Rightarrow> 'a list \<Rightarrow> 'a list" where
  "set_slice xs a b ys =
     (let i = py_norm (length xs) a; j = max i (py_norm (length xs) b)
      in take i xs @ ys @ drop j xs)"

definition get_item :: "'a list \<Rightarrow> int \<Rightarrow> 'a res" where
  "get_item xs i =
     (let k = (if i < 0 then int (length xs) + i else i)
      in if 0 \<le> k \<and> k < int (length xs) then Inr (xs ! nat k) else Inl IndexError)"

definition set_item :: "'a list \<Rightarrow> int \<Rightarrow> 'a \<Rightarrow> 'a list res" where
  "set_item xs i x =
     (let k = (if i < 0 then int (length xs) + i else i)
      in if 0 \<le> k \<and> k < int (length xs) then Inr (xs[nat k := x]) else Inl IndexError)"

lemma py_norm_nonneg: "0 \<le> i \<Longrightarrow> py_norm n i = min n (nat i)"
  by (auto simp: py_norm_def min_def)

lemma slice_nonneg: "0 \<le> a \<Longrightarrow> 0 \<le> b \<Longrightarrow> slice xs a b = take (nat b - nat a) (drop (nat a) xs)"
  by (auto simp: slice_def py_norm_nonneg min_def Let_def)

lemma slice_from_nonneg: "0 \<le> a \<Longrightarrow> slice_from xs a = drop (nat a) xs"
  by (auto simp: slice_from_def py_norm_nonneg min_def)

lemma slice_to_nonneg: "0 \<le> b \<Longrightarrow> slice_to xs b = take (nat b) xs"
  by (auto simp: slice_to_def py_norm_nonneg min_def)

lemma set_slice_nonneg:
  "0 \<le> a \<Longrightarrow> a \<le> b \<Longrightarrow> b \<le> int (length xs) \<Longrightarrow>
   set_slice xs a b ys = take (nat a) xs @ ys @ drop (nat b) xs"
  by (auto simp: set_slice_def py_norm_nonneg min_def max_def Let_def)

lemma length_set_slice:
  "0 \<le> a \<Longrightarrow> a \<le> b \<Longrightarrow> b \<le> int (length xs) \<Longrightarrow> length ys = nat (b - a) \<Longrightarrow>
   length (set_slice xs a b ys) = length xs"
  by (simp add: set_slice_nonneg nat_diff_distrib)

lemma length_slice_le: "length (slice xs a b) \<le> length xs"
  by (simp add: slice_def Let_def)

text \<open>Overwriting the middle part of a sequence cut into three.\<close>

lemma set_slice_mid:
  "a = int (length xs) \<Longrightarrow> b = int (length xs + length ys) \<Longrightarrow>
   set_slice (xs @ ys @ zs) a b ws = xs @ ws @ zs"
  by (simp add: set_slice_nonneg nat_add_distrib)

lemma slice_mid:
  "a = int (length xs) \<Longrightarrow> b = int (length xs + length ys) \<Longrightarrow> slice (xs @ ys @ zs) a b = ys"
  by (simp add: slice_nonneg nat_add_distrib)

text \<open>Filling a zeroed buffer from the left.\<close>

lemma set_slice_zeros:
  assumes "a = int (length pre)" and "b = a + int (length d)" and "length d \<le> m"
  shows "set_slice (pre @ replicate m 0) a b d = pre @ d @ replicate (m - length d) 0"
proof -
  have "m = length d + (m - length d)" using assms(3) by simp
  then have eq: "replicate m 0 = replicate (length d) 0 @ replicate (m - length d) 0"
    by (metis replicate_add)
  show ?thesis unfolding eq by (rule set_slice_mid) (use assms in simp_all)
qed

lemma set_item_zeros:
  assumes "a = int (length pre)" and "0 < m"
  shows "set_item (pre @ replicate m 0) a x = Inr (pre @ [x] @ replicate (m - 1) 0)"
proof -
  obtain k where "m = Suc k" using assms(2) by (cases m) auto
  then show ?thesis using assms(1) by (simp add: set_item_def nat_int_add list_update_append)
qed

lemma get_item_nonneg:
  "0 \<le> i \<Longrightarrow> get_item xs i = (if i < int (length xs) then Inr (xs ! nat i) else Inl IndexError)"
  by (simp add: get_item_def)

lemma set_item_nonneg:
  "0 \<le> i \<Longrightarrow> set_item xs i x = (if i < int (length xs) then Inr (xs[nat i := x]) else Inl IndexError)"
  by (simp add: set_item_def)

section \<open>Big-endian integers\<close>

primrec be_bytes :: "nat \<Rightarrow> int \<Rightarrow> byte list" where
  "be_bytes 0 v = []"
| "be_bytes (Suc n) v = be_bytes n (v div 256) @ [word_of_int v]"

definition be_int :: "byte list \<Rightarrow> int" where
  "be_int bs = foldl (\<lambda>acc b. acc * 256 + uint b) 0 bs"

lemma be_int_Nil [simp]: "be_int [] = 0"
  by (simp add: be_int_def)

lemma be_int_snoc [simp]: "be_int (bs @ [b]) = be_int bs * 256 + uint b"
  by (simp add: be_int_def)

lemma length_be_bytes [simp, byte_simps]: "length (be_bytes n v) = n"
  by (induction n arbitrary: v) auto

lemma uint_byte: "uint (b :: byte) < 256" "0 \<le> uint b"
  using uint_lt2p [of b] by simp_all

lemma uint_of_int_byte: "uint (word_of_int v :: byte) = v mod 256"
  by (simp add: uint_word_of_int)

lemma be_int_be_bytes_mod: "be_int (be_bytes n v) = v mod 256 ^ n"
proof (induction n arbitrary: v)
  case 0
  then show ?case by simp
next
  case (Suc n)
  have "be_int (be_bytes (Suc n) v) = (v div 256 mod 256 ^ n) * 256 + v mod 256"
    by (simp add: Suc uint_of_int_byte)
  also have "\<dots> = v mod (256 * 256 ^ n)"
    using zmod_zmult2_eq [of "256 ^ n" v 256] by (simp add: mult.commute)
  finally show ?case by simp
qed

lemma be_int_be_bytes: "0 \<le> v \<Longrightarrow> v < 256 ^ n \<Longrightarrow> be_int (be_bytes n v) = v"
  by (simp add: be_int_be_bytes_mod)

lemma be_int_nonneg [simp]: "0 \<le> be_int bs"
  by (induction bs rule: rev_induct) (auto simp: uint_byte(2))

lemma be_int_bound: "be_int bs < 256 ^ length bs"
proof (induction bs rule: rev_induct)
  case Nil
  then show ?case by simp
next
  case (snoc b bs)
  then have "be_int bs \<le> 256 ^ length bs - 1" by simp
  then have "be_int bs * 256 + uint b \<le> (256 ^ length bs - 1) * 256 + 255"
    using uint_byte(1) [of b] by (intro add_mono mult_right_mono) auto
  then show ?case by (simp add: algebra_simps)
qed

lemma be_bytes_be_int: "n = length bs \<Longrightarrow> be_bytes n (be_int bs) = bs"
proof (induction bs arbitrary: n rule: rev_induct)
  case Nil
  then show ?case by simp
next
  case (snoc b bs)
  have "(be_int bs * 256 + uint b) div 256 = be_int bs"
    using uint_byte [of b] by simp
  moreover have "uint (word_of_int (be_int bs * 256 + uint b) :: byte) = uint b"
    using uint_byte [of b] by (simp only: uint_of_int_byte) simp
  then have "(word_of_int (be_int bs * 256 + uint b) :: byte) = b"
    by (rule word_uint_eqI)
  ultimately show ?case using snoc by simp
qed

lemma be_bytes_inj:
  "be_bytes n v = be_bytes n w \<Longrightarrow> 0 \<le> v \<Longrightarrow> v < 256 ^ n \<Longrightarrow> 0 \<le> w \<Longrightarrow> w < 256 ^ n \<Longrightarrow> v = w"
  by (metis be_int_be_bytes)

text \<open>
  \<open>int.to_bytes(n, "big")\<close> raises \<open>OverflowError\<close> out of range, \<open>struct.pack\<close>
  with an unsigned or signed format raises \<open>struct.error\<close>; assigning an item of a
  \<open>bytearray\<close> a value outside \<open>range(256)\<close> raises \<open>ValueError\<close>.
\<close>

definition to_bytes_be :: "nat \<Rightarrow> int \<Rightarrow> byte list res" where
  "to_bytes_be n v = (if 0 \<le> v \<and> v < 256 ^ n then Inr (be_bytes n v) else Inl OverflowErr)"

definition pack_u :: "nat \<Rightarrow> int \<Rightarrow> byte list res" where
  "pack_u n v = (if 0 \<le> v \<and> v < 256 ^ n then Inr (be_bytes n v) else Inl StructError)"

definition pack_s :: "nat \<Rightarrow> int \<Rightarrow> byte list res" where
  "pack_s n v =
     (if - (256 ^ n div 2) \<le> v \<and> v < 256 ^ n div 2
      then Inr (be_bytes n (v mod 256 ^ n)) else Inl StructError)"

definition unpack_s :: "byte list \<Rightarrow> int" where
  "unpack_s bs =
     (let v = be_int bs; m = 256 ^ length bs in if m div 2 \<le> v then v - m else v)"

text \<open>\<open>struct.unpack\<close> of a fixed size raises when the buffer has another size.\<close>

definition unpack_u :: "nat \<Rightarrow> byte list \<Rightarrow> int res" where
  "unpack_u n bs = (if length bs = n then Inr (be_int bs) else Inl StructError)"

definition byte_of :: "int \<Rightarrow> byte res" where
  "byte_of v = (if 0 \<le> v \<and> v < 256 then Inr (word_of_int v) else Inl ValueError)"

lemma to_bytes_be_ok: "0 \<le> v \<Longrightarrow> v < 256 ^ n \<Longrightarrow> to_bytes_be n v = Inr (be_bytes n v)"
  by (simp add: to_bytes_be_def)

lemma pack_u_ok: "0 \<le> v \<Longrightarrow> v < 256 ^ n \<Longrightarrow> pack_u n v = Inr (be_bytes n v)"
  by (simp add: pack_u_def)

lemma pack_u_eq_Inr: "pack_u n v = Inr bs \<longleftrightarrow> 0 \<le> v \<and> v < 256 ^ n \<and> bs = be_bytes n v"
  by (auto simp: pack_u_def)

lemma pack_s_eq_Inr:
  "pack_s n v = Inr bs \<longleftrightarrow>
     - (256 ^ n div 2) \<le> v \<and> v < 256 ^ n div 2 \<and> bs = be_bytes n (v mod 256 ^ n)"
  by (auto simp: pack_s_def)

lemma unpack_s_pack_s:
  assumes "pack_s n v = Inr bs" and "0 < n"
  shows "unpack_s bs = v" and "length bs = n"
proof -
  from assms have lo: "- (256 ^ n div 2) \<le> v" and hi: "v < 256 ^ n div 2"
    and bs: "bs = be_bytes n (v mod 256 ^ n)" by (auto simp: pack_s_eq_Inr)
  obtain k where n: "n = Suc k" using assms(2) by (cases n) auto
  have even: "(256::int) ^ n = 2 * (256 ^ n div 2)" by (simp add: n)
  have v: "be_int bs = v mod 256 ^ n" by (simp add: bs be_int_be_bytes_mod)
  show "length bs = n" by (simp add: bs)
  show "unpack_s bs = v"
  proof (cases "0 \<le> v")
    case True
    then have "v mod 256 ^ n = v" using hi even by (intro mod_pos_pos_trivial) linarith+
    then show ?thesis using v hi by (simp add: unpack_s_def bs Let_def)
  next
    case False
    have "v mod 256 ^ n = (v + 256 ^ n) mod 256 ^ n" by simp
    also have "\<dots> = v + 256 ^ n" using False lo even by (intro mod_pos_pos_trivial) linarith+
    finally show ?thesis using v lo even by (simp add: unpack_s_def bs Let_def)
  qed
qed

lemma be_bytes_1: "be_bytes (Suc 0) v = [word_of_int v]"
  by simp

lemma be_int_single [simp]: "be_int [b] = uint b"
  using be_int_snoc [of "[]" b] by simp

end
