(* ===== verification/Py_Values.thy ===== *)
theory Py_Values
  imports Py_Bytes
begin

text \<open>
  The Python values a column can hold, the part of IEEE 754 the program uses
  (a float is its 64-bit pattern; every operation rounds the exact result to
  nearest, ties to even), and UTF-8. Strings are lists of code points. A date
  is the number of days from 1970-01-01, a datetime the number of microseconds
  from that midnight, both in the range of Python's \<open>datetime\<close> module.
\<close>

section \<open>Rounding\<close>

fun bitlen :: "nat \<Rightarrow> nat" where
  "bitlen n = (if n = 0 then 0 else Suc (bitlen (n div 2)))"

declare bitlen.simps [simp del]

definition round_div :: "nat \<Rightarrow> nat \<Rightarrow> nat" where
  "round_div n d =
     (let q = n div d; r = n mod d in if 2 * r > d \<or> 2 * r = d \<and> odd q then q + 1 else q)"

text \<open>\<open>n / d\<close> divided by \<open>2 ^ e\<close>, rounded to an integer.\<close>

definition round_scaled :: "nat \<Rightarrow> nat \<Rightarrow> int \<Rightarrow> nat" where
  "round_scaled n d e =
     (if 0 \<le> e then round_div n (d * 2 ^ nat e) else round_div (n * 2 ^ nat (- e)) d)"

definition ge_pow2 :: "nat \<Rightarrow> nat \<Rightarrow> int \<Rightarrow> bool" where
  "ge_pow2 n d k = (if 0 \<le> k then d * 2 ^ nat k \<le> n else d \<le> n * 2 ^ nat (- k))"

definition floor_log2 :: "nat \<Rightarrow> nat \<Rightarrow> int" where
  "floor_log2 n d = (let k = int (bitlen n) - int (bitlen d) in if ge_pow2 n d k then k else k - 1)"

text \<open>
  Bits of the binary float with \<open>p\<close> bits of precision and least exponent
  \<open>emin\<close> nearest to \<open>n / d\<close>; the carry of a mantissa that rounds up to a power
  of two runs into the exponent field.
\<close>

definition round_float :: "nat \<Rightarrow> int \<Rightarrow> nat \<Rightarrow> nat \<Rightarrow> int" where
  "round_float p emin n d =
     (if n = 0 then 0
      else let e = max emin (floor_log2 n d - int (p - 1)) in
        (e - emin) * 2 ^ (p - 1) + int (round_scaled n d e))"

definition f64_inf :: int where "f64_inf = 0x7FF0000000000000"
definition f32_inf :: int where "f32_inf = 0x7F800000"

definition f64_of_frac :: "bool \<Rightarrow> nat \<Rightarrow> nat \<Rightarrow> 64 word" where
  "f64_of_frac neg n d =
     word_of_int ((if neg then 2 ^ 63 else 0) + min f64_inf (round_float 53 (- 1074) n d))"

definition f_neg :: "64 word \<Rightarrow> bool" where
  "f_neg w = bit w 63"

definition f_expo :: "64 word \<Rightarrow> int" where
  "f_expo w = uint w div 2 ^ 52 mod 2 ^ 11"

definition f_frac :: "64 word \<Rightarrow> nat" where
  "f_frac w = nat (uint w mod 2 ^ 52)"

definition f_finite :: "64 word \<Rightarrow> bool" where
  "f_finite w \<longleftrightarrow> f_expo w \<noteq> 2047"

text \<open>A finite float is \<open>f_mant w * 2 ^ f_scale w\<close> with its sign; as a fraction:\<close>

definition f_mant :: "64 word \<Rightarrow> nat" where
  "f_mant w = (if f_expo w = 0 then f_frac w else 2 ^ 52 + f_frac w)"

definition f_scale :: "64 word \<Rightarrow> int" where
  "f_scale w = (if f_expo w = 0 then - 1074 else f_expo w - 1075)"

definition f_num :: "64 word \<Rightarrow> nat" where
  "f_num w = (if 0 \<le> f_scale w then f_mant w * 2 ^ nat (f_scale w) else f_mant w)"

definition f_den :: "64 word \<Rightarrow> nat" where
  "f_den w = (if 0 \<le> f_scale w then 1 else 2 ^ nat (- f_scale w))"

definition signed :: "bool \<Rightarrow> nat \<Rightarrow> int" where
  "signed neg n = (if neg then - int n else int n)"

text \<open>\<open>float(i)\<close>, true division of integers, \<open>int(f)\<close>, \<open>round(f)\<close>, \<open>f * g\<close>.\<close>

definition float_of_int :: "int \<Rightarrow> 64 word res" where
  "float_of_int i =
     (let w = f64_of_frac (i < 0) (nat \<bar>i\<bar>) 1 in if f_finite w then Inr w else Inl OverflowErr)"

definition int_truediv :: "int \<Rightarrow> int \<Rightarrow> 64 word res" where
  "int_truediv a b =
     (if b = 0 then Inl ValueError
      else let w = f64_of_frac ((a < 0) \<noteq> (b < 0) \<and> a \<noteq> 0) (nat \<bar>a\<bar>) (nat \<bar>b\<bar>) in
        if f_finite w then Inr w else Inl OverflowErr)"

definition float_trunc :: "64 word \<Rightarrow> int" where
  "float_trunc w = signed (f_neg w) (f_num w div f_den w)"

definition float_round :: "64 word \<Rightarrow> int" where
  "float_round w = signed (f_neg w) (round_div (f_num w) (f_den w))"

definition float_mul :: "64 word \<Rightarrow> 64 word \<Rightarrow> 64 word" where
  "float_mul a b = f64_of_frac (f_neg a \<noteq> f_neg b) (f_num a * f_num b) (f_den a * f_den b)"

text \<open>\<open>struct.pack(">f")\<close> of a finite double, and the exact widening back.\<close>

definition f32_bits :: "64 word \<Rightarrow> int res" where
  "f32_bits w =
     (let m = round_float 24 (- 149) (f_num w) (f_den w) in
      if m \<ge> f32_inf then Inl OverflowErr else Inr ((if f_neg w then 2 ^ 31 else 0) + m))"

definition f64_of_f32 :: "int \<Rightarrow> 64 word" where
  "f64_of_f32 b =
     (let neg = b div 2 ^ 31 mod 2 = 1; e = b div 2 ^ 23 mod 2 ^ 8; m = nat (b mod 2 ^ 23) in
      if e = 255 then word_of_int ((if neg then 2 ^ 63 else 0) + f64_inf + int m * 2 ^ 29)
      else let mant = (if e = 0 then m else 2 ^ 23 + m); s = (if e = 0 then - 149 else e - 150) in
        if 0 \<le> s then f64_of_frac neg (mant * 2 ^ nat s) 1 else f64_of_frac neg mant (2 ^ nat (- s)))"

section \<open>Values\<close>

type_synonym pystr = "nat list"

text \<open>The Python string of a literal of the program text.\<close>

definition ustr :: "string \<Rightarrow> pystr" where
  "ustr = map of_char"

lemma ustr_eq_iff [simp]: "ustr a = ustr b \<longleftrightarrow> a = b"
  unfolding ustr_def by (rule inj_map_eq_map) (rule inj_of_char)

text \<open>
  Dates count days and datetimes microseconds from 1970; a time has its four fields. The last two are a
  time and a datetime with a time zone: the same, and the microseconds of its offset from UTC.
\<close>

datatype pyval =
    PNone
  | PBool bool
  | PInt int
  | PFloat "64 word"
  | PStr pystr
  | PDate int
  | PTime int int int int
  | PDateTime int
  | PTimeZ int int int int int
  | PDateTimeZ int int

definition DATE_MIN :: int where [simp]: "DATE_MIN = - 719162"
definition DATE_MAX :: int where [simp]: "DATE_MAX = 2932896"

definition DAY_US :: int where [simp]: "DAY_US = 86400000000"

text \<open>Every object of these classes is in range.\<close>

fun py_valid :: "pyval \<Rightarrow> bool" where
  "py_valid (PStr s) \<longleftrightarrow> list_all (\<lambda>c. c < 0x110000) s"
| "py_valid (PDate d) \<longleftrightarrow> DATE_MIN \<le> d \<and> d \<le> DATE_MAX"
| "py_valid (PTime h m s us) \<longleftrightarrow>
     0 \<le> h \<and> h < 24 \<and> 0 \<le> m \<and> m < 60 \<and> 0 \<le> s \<and> s < 60 \<and> 0 \<le> us \<and> us < 1000000"
| "py_valid (PDateTime us) \<longleftrightarrow> DATE_MIN * DAY_US \<le> us \<and> us < (DATE_MAX + 1) * DAY_US"
| "py_valid (PTimeZ h m s us z) \<longleftrightarrow>
     0 \<le> h \<and> h < 24 \<and> 0 \<le> m \<and> m < 60 \<and> 0 \<le> s \<and> s < 60 \<and> 0 \<le> us \<and> us < 1000000 \<and> \<bar>z\<bar> < DAY_US"
| "py_valid (PDateTimeZ us z) \<longleftrightarrow> DATE_MIN * DAY_US \<le> us \<and> us < (DATE_MAX + 1) * DAY_US \<and> \<bar>z\<bar> < DAY_US"
| "py_valid _ \<longleftrightarrow> True"

section \<open>UTF-8\<close>

definition utf8_char :: "nat \<Rightarrow> byte list res" where
  "utf8_char c =
     (if c < 0x80 then Inr [of_nat c]
      else if c < 0x800 then Inr [of_nat (0xC0 + c div 64), of_nat (0x80 + c mod 64)]
      else if 0xD800 \<le> c \<and> c < 0xE000 then Inl UnicodeError
      else if c < 0x10000 then
        Inr [of_nat (0xE0 + c div 4096), of_nat (0x80 + c div 64 mod 64), of_nat (0x80 + c mod 64)]
      else
        Inr [of_nat (0xF0 + c div 262144), of_nat (0x80 + c div 4096 mod 64),
             of_nat (0x80 + c div 64 mod 64), of_nat (0x80 + c mod 64)])"

definition utf8_encode :: "pystr \<Rightarrow> byte list res" where
  "utf8_encode s = bindE (mapE utf8_char s) (\<lambda>bs. Inr (concat bs))"

definition is_cont :: "byte \<Rightarrow> bool" where
  "is_cont b \<longleftrightarrow> 0x80 \<le> unat b \<and> unat b < 0xC0"

definition cont :: "byte \<Rightarrow> nat" where
  "cont b = unat b - 0x80"

text \<open>One character: strict decoding rejects overlong forms, surrogates and values past 0x10FFFF.\<close>

fun utf8_step :: "byte list \<Rightarrow> (nat \<times> byte list) option" where
  "utf8_step [] = None"
| "utf8_step (b # bs) =
     (let n = unat b in
      if n < 0x80 then Some (n, bs)
      else if 0xC2 \<le> n \<and> n < 0xE0 then
        (case bs of
           c1 # r \<Rightarrow> if is_cont c1 then Some ((n - 0xC0) * 64 + cont c1, r) else None
         | _ \<Rightarrow> None)
      else if 0xE0 \<le> n \<and> n < 0xF0 then
        (case bs of
           c1 # c2 # r \<Rightarrow>
             let v = (n - 0xE0) * 4096 + cont c1 * 64 + cont c2 in
             if is_cont c1 \<and> is_cont c2 \<and> 0x800 \<le> v \<and> \<not> (0xD800 \<le> v \<and> v < 0xE000)
             then Some (v, r) else None
         | _ \<Rightarrow> None)
      else if 0xF0 \<le> n \<and> n < 0xF5 then
        (case bs of
           c1 # c2 # c3 # r \<Rightarrow>
             let v = (n - 0xF0) * 262144 + cont c1 * 4096 + cont c2 * 64 + cont c3 in
             if is_cont c1 \<and> is_cont c2 \<and> is_cont c3 \<and> 0x10000 \<le> v \<and> v < 0x110000
             then Some (v, r) else None
         | _ \<Rightarrow> None)
      else None)"

lemma utf8_step_shorter: "utf8_step bs = Some (c, r) \<Longrightarrow> length r < length bs"
  by (cases bs) (auto simp: Let_def split: if_splits list.splits)

function utf8_decode :: "byte list \<Rightarrow> pystr res" where
  "utf8_decode bs =
     (if bs = [] then Inr []
      else case utf8_step bs of
        None \<Rightarrow> Inl UnicodeError
      | Some (c, r) \<Rightarrow> bindE (utf8_decode r) (\<lambda>s. Inr (c # s)))"
  by pat_completeness auto
termination
  by (relation "measure length") (auto dest: utf8_step_shorter)

declare utf8_decode.simps [simp del]

lemma unat_byte: "n < 256 \<Longrightarrow> unat (of_nat n :: byte) = n"
  by (simp add: unat_of_nat)

lemma cont_of_nat: "n < 64 \<Longrightarrow> is_cont (of_nat (0x80 + n)) \<and> cont (of_nat (0x80 + n)) = n"
  by (simp only: is_cont_def cont_def unat_byte) (simp add: unat_byte)

lemma utf8_step_char:
  assumes "utf8_char c = Inr bs" and "c < 0x110000"
  shows "utf8_step (bs @ r) = Some (c, r)"
proof -
  have m: "x mod 64 < 64" for x :: nat by simp
  have d2: "c div 4096 = c div 64 div 64" using div_mult2_eq [of c 64 64] by simp
  have d3: "c div 262144 = c div 4096 div 64" using div_mult2_eq [of c 4096 64] by simp
  consider "c < 0x80" | "0x80 \<le> c" "c < 0x800"
    | "0x800 \<le> c" "\<not> (0xD800 \<le> c \<and> c < 0xE000)" "c < 0x10000" | "0x10000 \<le> c"
    using assms by (auto simp: utf8_char_def split: if_splits)
  then show ?thesis
  proof cases
    case 1
    then have "unat (of_nat c :: byte) = c" by (simp add: unat_byte)
    moreover have "bs = [of_nat c]" using 1 assms(1) by (simp add: utf8_char_def)
    ultimately show ?thesis using 1 by (simp add: Let_def)
  next
    case 2
    have u: "unat (of_nat (0xC0 + c div 64) :: byte) = 0xC0 + c div 64" using 2 by (intro unat_byte) auto
    have "bs = [of_nat (0xC0 + c div 64), of_nat (0x80 + c mod 64)]" using assms(1) 2 by (simp add: utf8_char_def)
    moreover have "2 \<le> c div 64" "c div 64 < 32" using 2 by auto
    ultimately show ?thesis using cont_of_nat [OF m, of c] u
      by (simp only: append.simps utf8_step.simps Let_def u) simp
  next
    case 3
    have u: "unat (of_nat (0xE0 + c div 4096) :: byte) = 0xE0 + c div 4096" using 3 by (intro unat_byte) auto
    have bs: "bs = [of_nat (0xE0 + c div 4096), of_nat (0x80 + c div 64 mod 64), of_nat (0x80 + c mod 64)]"
      using assms(1) 3 by (auto simp: utf8_char_def)
    have v: "c div 4096 * 4096 + c div 64 mod 64 * 64 + c mod 64 = c"
      using div_mult_mod_eq [of c 64] div_mult_mod_eq [of "c div 64" 64] d2 by linarith
    have "c div 4096 < 16" using 3 by auto
    then show ?thesis using 3 cont_of_nat [OF m, of c] cont_of_nat [OF m, of "c div 64"] v
      by (simp only: bs append.simps utf8_step.simps Let_def u) simp
  next
    case 4
    have u: "unat (of_nat (0xF0 + c div 262144) :: byte) = 0xF0 + c div 262144"
      using 4 assms(2) by (intro unat_byte) auto
    have bs: "bs = [of_nat (0xF0 + c div 262144), of_nat (0x80 + c div 4096 mod 64),
             of_nat (0x80 + c div 64 mod 64), of_nat (0x80 + c mod 64)]"
      using assms(1) 4 by (auto simp: utf8_char_def)
    have v: "c div 262144 * 262144 + c div 4096 mod 64 * 4096 + c div 64 mod 64 * 64 + c mod 64 = c"
      using div_mult_mod_eq [of c 64] div_mult_mod_eq [of "c div 64" 64] div_mult_mod_eq [of "c div 4096" 64]
        d2 d3 by linarith
    have "c div 262144 < 5" using assms(2) by auto
    then show ?thesis using 4 assms(2) cont_of_nat [OF m, of c] cont_of_nat [OF m, of "c div 64"]
        cont_of_nat [OF m, of "c div 4096"] v
      by (simp only: bs append.simps utf8_step.simps Let_def u) simp
  qed
qed

lemma utf8_char_nonempty: "utf8_char c = Inr bs \<Longrightarrow> bs \<noteq> []"
  by (auto simp: utf8_char_def split: if_splits)

lemma utf8_decode_Nil [simp]: "utf8_decode [] = Inr []"
  by (simp add: utf8_decode.simps)

lemma utf8_decode_encode:
  "utf8_encode s = Inr bs \<Longrightarrow> list_all (\<lambda>c. c < 0x110000) s \<Longrightarrow> utf8_decode bs = Inr s"
proof (induction s arbitrary: bs)
  case Nil
  then show ?case by (simp add: utf8_encode_def)
next
  case (Cons c s)
  then obtain b bs' where b: "utf8_char c = Inr b" "utf8_encode s = Inr bs'" "bs = b @ bs'"
    by (auto simp: utf8_encode_def)
  then show ?case using Cons utf8_step_char [OF b(1)] utf8_char_nonempty [OF b(1)]
    by (simp add: utf8_decode.simps [of "b @ bs'"])
qed

section \<open>Exact results\<close>

text \<open>An integer below \<open>2 ^ 53\<close> in magnitude survives the division that gives a float and \<open>int\<close>.\<close>

lemma bitlen_bounds: "0 < n \<Longrightarrow> 0 < bitlen n \<and> 2 ^ (bitlen n - 1) \<le> n \<and> n < 2 ^ bitlen n"
proof (induction n rule: bitlen.induct)
  case (1 n)
  show ?case
  proof (cases "n div 2 = 0")
    case True
    then have "n = 1" using 1 by auto
    then show ?thesis by (simp add: bitlen.simps)
  next
    case False
    then have IH: "0 < bitlen (n div 2)" "2 ^ (bitlen (n div 2) - 1) \<le> n div 2" "n div 2 < 2 ^ bitlen (n div 2)"
      using 1 by auto
    have step: "bitlen n = Suc (bitlen (n div 2))" using "1.prems" by (simp add: bitlen.simps [of n])
    obtain k where k: "bitlen (n div 2) = Suc k" using IH(1) by (cases "bitlen (n div 2)") auto
    have "2 * (n div 2) \<le> n" "n < 2 * (n div 2) + 2" by simp_all
    moreover have "2 ^ k \<le> n div 2" "n div 2 + 1 \<le> 2 * 2 ^ k" using IH(2,3) by (simp_all add: k)
    ultimately have "2 * 2 ^ k \<le> n" "n < 2 * (2 * 2 ^ k)" by linarith+
    then show ?thesis by (simp add: step k)
  qed
qed

lemma ge_pow2_mult: "0 < d \<Longrightarrow> ge_pow2 (s * d) d (int k) \<longleftrightarrow> 2 ^ k \<le> s"
  by (simp add: ge_pow2_def)

lemma floor_log2_mult:
  assumes "0 < s" and "0 < d"
  shows "floor_log2 (s * d) d = int (bitlen s - 1)"
proof -
  let ?a = "bitlen (s * d)" and ?b = "bitlen d" and ?L = "bitlen s - 1"
  note sb = bitlen_bounds [OF assms(1)] and db = bitlen_bounds [OF assms(2)]
    and nb = bitlen_bounds [of "s * d"]
  have pos: "0 < s * d" using assms by simp
  have "(2::nat) ^ ?L * 2 ^ (?b - 1) \<le> s * d" using sb db by (intro mult_le_mono) auto
  then have "(2::nat) ^ (?L + (?b - 1)) < 2 ^ ?a"
    using nb [OF pos] unfolding power_add by (meson le_less_trans)
  then have lo: "?L + ?b \<le> ?a" using db by simp
  have "s * d < 2 ^ bitlen s * 2 ^ ?b" using sb db by (intro mult_strict_mono) auto
  then have "(2::nat) ^ (?a - 1) < 2 ^ (bitlen s + ?b)"
    using nb [OF pos] unfolding power_add by (meson le_less_trans)
  then have hi: "?a \<le> ?L + ?b + 1" using sb by simp
  consider "?a = ?L + ?b" | "?a = ?L + ?b + 1" using lo hi by linarith
  then show ?thesis
  proof cases
    case 1
    then have "int ?a - int ?b = int ?L" by simp
    then show ?thesis using sb ge_pow2_mult [OF assms(2), of s ?L] by (simp add: floor_log2_def Let_def)
  next
    case 2
    then have k: "int ?a - int ?b = int (bitlen s)" using sb by simp
    then show ?thesis using sb ge_pow2_mult [OF assms(2), of s "bitlen s"]
      by (simp add: floor_log2_def Let_def of_nat_diff)
  qed
qed

lemma round_div_exact: "0 < d \<Longrightarrow> round_div (q * d) d = q"
  by (simp add: round_div_def Let_def)

lemma round_float_exact:
  assumes "0 < s" and "s < 2 ^ 53" and "0 < d"
  shows "round_float 53 (- 1074) (s * d) d = (int (bitlen s) + 1021) * 2 ^ 52 + int (s * 2 ^ (53 - bitlen s))"
proof -
  let ?L = "bitlen s - 1"
  note sb = bitlen_bounds [OF assms(1)]
  have "(2::nat) ^ ?L < 2 ^ 53" using sb assms(2) by (meson le_less_trans)
  then have L: "?L < 53" by (rule power_less_imp_less_exp [rotated]) simp
  have e: "max (- 1074) (int ?L - 52) = int ?L - 52" using L by simp
  have k: "52 - ?L = 53 - bitlen s" using sb by linarith
  have "round_scaled (s * d) d (int ?L - 52) = s * 2 ^ (53 - bitlen s)"
  proof (cases "?L = 52")
    case True
    then show ?thesis using round_div_exact [OF assms(3), of s] k by (simp add: round_scaled_def)
  next
    case False
    then have neg: "\<not> 0 \<le> int ?L - 52" and nn: "nat (- (int ?L - 52)) = 53 - bitlen s"
      using L k by linarith+
    have "s * d * 2 ^ (53 - bitlen s) = s * 2 ^ (53 - bitlen s) * d" by simp
    then show ?thesis using neg nn round_div_exact [OF assms(3), of "s * 2 ^ (53 - bitlen s)"]
      by (simp only: round_scaled_def if_False)
  qed
  moreover have "s * d \<noteq> 0" using assms by simp
  ultimately show ?thesis
    using floor_log2_mult [OF assms(1,3)] e sb
    by (simp add: round_float_def Let_def of_nat_diff) 
qed

lemma round_float_nonneg: "0 \<le> round_float p emin n d"
proof -
  have "0 \<le> (max emin (floor_log2 n d - int (p - 1)) - emin) * 2 ^ (p - 1)" by simp
  then show ?thesis by (simp only: round_float_def Let_def) simp
qed

lemma mant_range:
  assumes "0 < s" and "s < 2 ^ 53"
  shows "2 ^ 52 \<le> s * 2 ^ (53 - bitlen s)" and "s * 2 ^ (53 - bitlen s) < 2 ^ 53"
    and "0 < bitlen s" and "bitlen s \<le> 53"
proof -
  note sb = bitlen_bounds [OF assms(1)]
  have "(2::nat) ^ (bitlen s - 1) < 2 ^ 53" using sb assms(2) by (meson le_less_trans)
  then have "bitlen s - 1 < 53" by (rule power_less_imp_less_exp [rotated]) simp
  then show B: "bitlen s \<le> 53" and P: "0 < bitlen s" using sb by simp_all
  have "(2::nat) ^ 52 = 2 ^ (bitlen s - 1) * 2 ^ (53 - bitlen s)"
    using B P by (simp flip: power_add)
  also have "\<dots> \<le> s * 2 ^ (53 - bitlen s)" using sb by (intro mult_le_mono1) simp
  finally show "2 ^ 52 \<le> s * 2 ^ (53 - bitlen s)" .
  have "s * 2 ^ (53 - bitlen s) < 2 ^ bitlen s * 2 ^ (53 - bitlen s)"
    using sb by (intro mult_strict_right_mono) simp_all
  also have "\<dots> = 2 ^ 53" using B by (simp flip: power_add)
  finally show "s * 2 ^ (53 - bitlen s) < 2 ^ 53" .
qed

lemma f64_of_frac_exact:
  assumes "0 < s" and "s < 2 ^ 53" and "0 < d"
  shows "f_finite (f64_of_frac neg (s * d) d)" and "f_neg (f64_of_frac neg (s * d) d) = neg"
    and "f_num (f64_of_frac neg (s * d) d) div f_den (f64_of_frac neg (s * d) d) = s"
proof -
  note mr = mant_range [OF assms(1,2)]
  define b where "b = bitlen s"
  define m where "m = s * 2 ^ (53 - b)"
  have m: "2 ^ 52 \<le> m" "m < 2 ^ 53" and b: "0 < b" "b \<le> 53" using mr by (simp_all add: b_def m_def)
  define r where "r = (int b + 1021) * 2 ^ 52 + int m"
  define w where "w = f64_of_frac neg (s * d) d"
  have r: "round_float 53 (- 1074) (s * d) d = r"
    using round_float_exact [OF assms] by (simp add: r_def m_def b_def)
  have r0: "0 \<le> r" and rlt: "r < f64_inf" using m b by (simp_all add: r_def f64_inf_def)
  have hi: "r < 2 ^ 63" using rlt by (simp add: f64_inf_def)
  have "w = word_of_int ((if neg then 2 ^ 63 else 0) + r)"
    using r rlt by (simp add: w_def f64_of_frac_def)
  then have u: "uint w = (if neg then 2 ^ 63 else 0) + r"
  proof -
    let ?x = "(if neg then 2 ^ 63 else 0) + r"
    have "0 \<le> ?x" "?x < 2 ^ LENGTH(64)" using r0 hi by simp_all
    then have "?x mod 2 ^ LENGTH(64) = ?x" by (rule mod_pos_pos_trivial)
    then show ?thesis
      unfolding \<open>w = word_of_int ((if neg then 2 ^ 63 else 0) + r)\<close> by (simp only: uint_word_of_int)
  qed
  have d52: "r div 2 ^ 52 = int b + 1022" "r mod 2 ^ 52 = int m - 2 ^ 52"
  proof -
    have "r = (int b + 1022) * 2 ^ 52 + (int m - 2 ^ 52)" by (simp add: r_def)
    moreover have "0 \<le> int m - 2 ^ 52" "int m - 2 ^ 52 < 2 ^ 52" using m by simp_all
    ultimately show "r div 2 ^ 52 = int b + 1022" "r mod 2 ^ 52 = int m - 2 ^ 52"
      by (metis div_mult_self3 div_pos_pos_trivial add_0_right mult.commute zero_neq_numeral power_not_zero,
          metis mod_mult_self3 mod_pos_pos_trivial)
  qed
  have top: "((if neg then 2 ^ 63 else 0) + r) div 2 ^ 52 mod 2 ^ 11 = int b + 1022"
    "((if neg then 2 ^ 63 else 0) + r) mod 2 ^ 52 = int m - 2 ^ 52"
  proof -
    have sp: "(2::int) ^ 63 = 2 ^ 11 * 2 ^ 52" by simp
    have "(2 ^ 63 + r) div 2 ^ 52 = 2 ^ 11 + r div 2 ^ 52" unfolding sp by (subst div_mult_self3) simp_all
    moreover have "(2 ^ 11 + (int b + 1022)) mod 2 ^ 11 = (int b + 1022) mod 2 ^ 11" by (rule mod_add_self1)
    moreover have "(int b + 1022) mod 2 ^ 11 = int b + 1022" using b by (intro mod_pos_pos_trivial) simp_all
    ultimately show "((if neg then 2 ^ 63 else 0) + r) div 2 ^ 52 mod 2 ^ 11 = int b + 1022"
      using d52(1) by (cases neg) simp_all
    have "(2 ^ 63 + r) mod 2 ^ 52 = r mod 2 ^ 52" unfolding sp by (rule mod_mult_self3)
    then show "((if neg then 2 ^ 63 else 0) + r) mod 2 ^ 52 = int m - 2 ^ 52"
      using d52(2) by simp
  qed
  have expo: "f_expo w = int b + 1022" and frac: "int (f_frac w) = int m - 2 ^ 52"
    using u top m by (simp_all add: f_expo_def f_frac_def)
  have mant: "f_mant w = m" and scale: "f_scale w = int b - 53"
    using expo frac b by (simp_all add: f_mant_def f_scale_def)
  show "f_finite (f64_of_frac neg (s * d) d)" using expo b by (simp add: f_finite_def flip: w_def)
  have "bit (uint w) 63 = neg"
    using u hi r0 by (auto simp: bit_iff_odd div_add1_eq)
  then show "f_neg (f64_of_frac neg (s * d) d) = neg"
    by (simp add: f_neg_def bit_uint_iff flip: w_def)
  show "f_num (f64_of_frac neg (s * d) d) div f_den (f64_of_frac neg (s * d) d) = s"
  proof (cases "b = 53")
    case True
    then show ?thesis using mant scale by (simp add: f_num_def f_den_def m_def flip: w_def)
  next
    case False
    then have neg_s: "\<not> 0 \<le> f_scale w" "nat (- f_scale w) = 53 - b" using scale b by simp_all
    then show ?thesis using mant by (simp add: f_num_def f_den_def m_def flip: w_def)
  qed
qed

lemma int_truediv_exact:
  assumes "\<bar>s\<bar> < 2 ^ 53" and "0 < d"
  shows "\<exists>w. int_truediv (s * d) d = Inr w \<and> float_trunc w = s"
proof (cases "s = 0")
  case True
  have "f64_of_frac False 0 n = 0" for n
    by (simp add: f64_of_frac_def round_float_def f64_inf_def)
  moreover have "f_finite 0" "float_trunc 0 = 0"
    by (simp_all add: f_finite_def f_expo_def float_trunc_def f_num_def f_mant_def f_scale_def
        f_frac_def f_den_def signed_def)
  ultimately show ?thesis using True assms(2) by (simp add: int_truediv_def Let_def)
next
  case False
  let ?n = "nat \<bar>s\<bar>" and ?d = "nat d"
  have n: "0 < ?n" "?n < 2 ^ 53" "0 < ?d" using False assms by (simp_all add: nat_less_iff)
  have prod: "nat \<bar>s * d\<bar> = ?n * ?d" "nat \<bar>d\<bar> = ?d" using assms(2) by (simp_all add: abs_mult nat_mult_distrib)
  have neg: "((s * d < 0) \<noteq> (d < 0) \<and> s * d \<noteq> 0) = (s < 0)"
    using assms(2) False by (auto simp: mult_less_0_iff)
  let ?w = "f64_of_frac (s < 0) (?n * ?d) ?d"
  note ex = f64_of_frac_exact [OF n, of "s < 0"]
  have "int_truediv (s * d) d = Inr ?w"
    using ex(1) assms(2) by (simp only: int_truediv_def prod neg Let_def) simp
  moreover have "float_trunc ?w = s"
    unfolding float_trunc_def ex(2,3) by (simp add: signed_def)
  ultimately show ?thesis by blast
qed

end
