(* ===== verification/Type_System.thy ===== *)
theory Type_System
  imports Py_Values
begin

text \<open>
  \<open>src/tinydb/type_system.py\<close>: the codecs of the column types. A codec object is
  a value of \<open>codec\<close>; \<open>validate\<close>, \<open>encode_py\<close> and \<open>decode_bytes\<close> are the methods
  of the codec classes, \<open>codec_for\<close> and \<open>lookup\<close> the registry. Lemmas: what each
  codec reads back is the value it stored, after the conversions the type
  makes (padding of CHAR, dropped microseconds of TIME and TIMESTAMP, single
  precision of FLOAT, the scale of DECIMAL).
\<close>

datatype codec =
    IntC string nat
  | TextC
  | BoolC
  | FloatC string nat
  | VarcharC int
  | CharC int
  | DecimalC int int
  | DateC
  | TimeC
  | TimestampC

section \<open>The registry\<close>

definition registry :: "string \<Rightarrow> codec option" where
  "registry = map_of
     [(''INT'', IntC ''INT'' 4), (''TEXT'', TextC), (''BOOL'', BoolC), (''FLOAT'', FloatC ''FLOAT'' 4),
      (''SMALLINT'', IntC ''SMALLINT'' 2), (''BIGINT'', IntC ''BIGINT'' 8), (''DOUBLE'', FloatC ''DOUBLE'' 8),
      (''DATE'', DateC), (''TIME'', TimeC), (''TIMESTAMP'', TimestampC), (''BOOLEAN'', BoolC),
      (''REAL'', FloatC ''FLOAT'' 4)]"

text \<open>The aliases the registration loop collects from the codec objects.\<close>

definition alias_map :: "string \<Rightarrow> codec option" where
  "alias_map = map_of
     [(''INTEGER'', IntC ''INT'' 4), (''BOOLEAN'', BoolC), (''REAL'', FloatC ''FLOAT'' 4),
      (''DOUBLE PRECISION'', FloatC ''DOUBLE'' 8)]"

definition parametric_types :: "string list" where
  "parametric_types = [''VARCHAR'', ''CHAR'', ''DECIMAL'']"

definition is_type_name :: "string \<Rightarrow> bool" where
  "is_type_name t \<longleftrightarrow> registry t \<noteq> None \<or> t \<in> set parametric_types \<or> alias_map t \<noteq> None"

definition lookup :: "string \<Rightarrow> codec res" where
  "lookup t =
     (case registry t of
        Some c \<Rightarrow> Inr c
      | None \<Rightarrow> (case alias_map t of Some c \<Rightarrow> Inr c | None \<Rightarrow> Inl KeyError))"

definition new_varchar :: "int \<Rightarrow> codec res" where
  "new_varchar n = (if n < 1 then Inl ValueError else Inr (VarcharC n))"

definition new_char :: "int \<Rightarrow> codec res" where
  "new_char n = (if n < 1 then Inl ValueError else Inr (CharC n))"

definition new_decimal :: "int \<Rightarrow> int \<Rightarrow> codec res" where
  "new_decimal p s =
     (if \<not> (1 \<le> p \<and> p \<le> 18) then Inl ValueError
      else if \<not> (0 \<le> s \<and> s < p) then Inl ValueError
      else Inr (DecimalC p s))"

definition codec_for :: "string \<Rightarrow> int list \<Rightarrow> codec res" where
  "codec_for t params =
     (if \<not> is_type_name t then Inl KeyError
      else if t = ''VARCHAR'' \<or> t = ''CHAR'' then
        (case params of
           [n] \<Rightarrow> if n < 1 then Inl ValueError
                 else if t = ''CHAR'' then new_char n else new_varchar n
         | _ \<Rightarrow> Inl ValueError)
      else if t = ''DECIMAL'' then
        (case params of [p, s] \<Rightarrow> new_decimal p s | _ \<Rightarrow> Inl ValueError)
      else lookup t)"

section \<open>Literals\<close>

definition type_compat :: "string \<Rightarrow> int list \<Rightarrow> string \<Rightarrow> int list \<Rightarrow> unit res" where
  "type_compat col_type col_params lit_type lit_params =
     (if col_type \<noteq> lit_type \<or> col_params \<noteq> lit_params then Inl TypeErr else Inr ())"

fun infer_literal_type :: "pyval \<Rightarrow> (string \<times> int list) res" where
  "infer_literal_type (PBool b) = Inr (''BOOL'', [])"
| "infer_literal_type (PInt i) = Inr (''INT'', [])"
| "infer_literal_type (PFloat f) = Inr (''DOUBLE'', [])"
| "infer_literal_type (PStr s) = Inr (''TEXT'', [])"
| "infer_literal_type (PDateTime t) = Inr (''TIMESTAMP'', [])"
| "infer_literal_type (PDate d) = Inr (''DATE'', [])"
| "infer_literal_type (PTime h m s us) = Inr (''TIME'', [])"
| "infer_literal_type (PDateTimeZ t z) = Inr (''TIMESTAMP'', [])"
| "infer_literal_type (PTimeZ h m s us z) = Inr (''TIME'', [])"
| "infer_literal_type PNone = Inl TypeErr"

text \<open>\<open>s[1:-1].replace("''", "'")\<close> of a quoted literal; 39 is the quote.\<close>

fun unquote :: "pystr \<Rightarrow> pystr" where
  "unquote (a # b # s) = (if a = 39 \<and> b = 39 then 39 # unquote s else a # unquote (b # s))"
| "unquote s = s"

definition parse_text_literal :: "pystr \<Rightarrow> pystr res" where
  "parse_text_literal s =
     (if length s < 2 \<or> hd s \<noteq> 39 \<or> last s \<noteq> 39 then Inl ValueError
      else Inr (unquote (butlast (tl s))))"

section \<open>Validation\<close>

definition int_bound :: "nat \<Rightarrow> int" where
  "int_bound w = 2 ^ (8 * w - 1)"

definition check_bounds :: "nat \<Rightarrow> int \<Rightarrow> unit res" where
  "check_bounds w v = (if - int_bound w \<le> v \<and> v < int_bound w then Inr () else Inl CodecError)"

definition check_len :: "int \<Rightarrow> int \<Rightarrow> unit res" where
  "check_len max_len n = (if n > max_len then Inl CodecError else Inr ())"

text \<open>\<open>_to_scaled\<close> on an int and on a float; \<open>round\<close> of a product that overflowed raises.\<close>

definition to_scaled :: "int \<Rightarrow> int \<Rightarrow> pyval \<Rightarrow> int res" where
  "to_scaled p s v =
     (let factor = 10 ^ nat s; max_abs = (10 ^ nat (p - s) :: int) in
      case v of
        PInt i \<Rightarrow>
          let scaled = i * factor in
          if \<bar>scaled\<bar> \<ge> 2 ^ 63 then Inl CodecError
          else if \<bar>i\<bar> \<ge> max_abs then Inl CodecError
          else Inr scaled
      | PFloat f \<Rightarrow>
          if \<not> f_finite f then (if f_frac f = 0 then Inl OverflowErr else Inl ValueError)
          else
            bindE (float_of_int factor) (\<lambda>ff.
            let prod = float_mul f ff in
            if \<not> f_finite prod then Inl OverflowErr
            else
              let scaled = float_round prod in
              if \<bar>scaled\<bar> \<ge> 2 ^ 63 then Inl CodecError
              else if f_num f \<ge> nat max_abs * f_den f then Inl CodecError
              else Inr scaled)
      | _ \<Rightarrow> Inl TypeErr)"

definition int_validate :: "nat \<Rightarrow> pyval \<Rightarrow> unit res" where
  [simp]: "int_validate w v =
     (case v of PInt i \<Rightarrow> check_bounds w i | _ \<Rightarrow> Inl CodecError)"

definition text_validate :: "pyval \<Rightarrow> unit res" where
  [simp]: "text_validate v =
     (case v of PStr s \<Rightarrow> Inr () | _ \<Rightarrow> Inl CodecError)"

definition bool_validate :: "pyval \<Rightarrow> unit res" where
  [simp]: "bool_validate v =
     (case v of PBool b \<Rightarrow> Inr () | _ \<Rightarrow> Inl CodecError)"

definition float_validate :: "nat \<Rightarrow> pyval \<Rightarrow> unit res" where
  [simp]: "float_validate w v =
     (case v of PFloat f \<Rightarrow> if f_finite f then Inr () else Inl CodecError | _ \<Rightarrow> Inl CodecError)"

definition varchar_validate :: "int \<Rightarrow> pyval \<Rightarrow> unit res" where
  [simp]: "varchar_validate n v =
     (case v of PStr s \<Rightarrow> bindE (utf8_encode s) (\<lambda>d. check_len n (py_len d)) | _ \<Rightarrow> Inl CodecError)"

definition char_validate :: "int \<Rightarrow> pyval \<Rightarrow> unit res" where
  [simp]: "char_validate n v =
     (case v of PStr s \<Rightarrow> bindE (utf8_encode s) (\<lambda>d. check_len n (py_len d)) | _ \<Rightarrow> Inl CodecError)"

definition decimal_validate :: "int \<Rightarrow> int \<Rightarrow> pyval \<Rightarrow> unit res" where
  [simp]: "decimal_validate p s v =
     (case v of
        PInt i \<Rightarrow> bindE (to_scaled p s v) (\<lambda>_. Inr ())
      | PFloat f \<Rightarrow> bindE (to_scaled p s v) (\<lambda>_. Inr ())
      | _ \<Rightarrow> Inl CodecError)"

definition date_validate :: "pyval \<Rightarrow> unit res" where
  [simp]: "date_validate v =
     (case v of PDate d \<Rightarrow> Inr () | PDateTime t \<Rightarrow> Inr () | PDateTimeZ t z \<Rightarrow> Inr () | _ \<Rightarrow> Inl CodecError)"

definition time_validate :: "pyval \<Rightarrow> unit res" where
  [simp]: "time_validate v =
     (case v of PTime h m s us \<Rightarrow> Inr () | PTimeZ h m s us z \<Rightarrow> Inr () | _ \<Rightarrow> Inl CodecError)"

definition timestamp_validate :: "pyval \<Rightarrow> unit res" where
  [simp]: "timestamp_validate v =
     (case v of PDateTime t \<Rightarrow> Inr () | PDateTimeZ t z \<Rightarrow> Inr () | _ \<Rightarrow> Inl CodecError)"

fun validate :: "codec \<Rightarrow> pyval \<Rightarrow> unit res" where
  "validate (IntC name w) v = int_validate w v"
| "validate TextC v = text_validate v"
| "validate BoolC v = bool_validate v"
| "validate (FloatC name w) v = float_validate w v"
| "validate (VarcharC n) v = varchar_validate n v"
| "validate (CharC n) v = char_validate n v"
| "validate (DecimalC p s) v = decimal_validate p s v"
| "validate DateC v = date_validate v"
| "validate TimeC v = time_validate v"
| "validate TimestampC v = timestamp_validate v"

section \<open>Encoding and decoding\<close>

definition pack_text :: "byte list \<Rightarrow> byte list res" where
  "pack_text d = bindE (pack_u 2 (py_len d)) (\<lambda>n. Inr (n @ d))"

text \<open>\<open>datetime - datetime\<close> as \<open>total_seconds()\<close>, truncated by \<open>int\<close>.\<close>

definition total_seconds_int :: "int \<Rightarrow> int res" where
  "total_seconds_int us = bindE (int_truediv us 1000000) (\<lambda>f. Inr (float_trunc f))"

definition space :: nat where [simp]: "space = 32"

text \<open>What \<open>encode_py\<close> of each codec class does after its \<open>self.validate(value)\<close>.\<close>

definition int_encode :: "nat \<Rightarrow> pyval \<Rightarrow> byte list res" where
  [simp]: "int_encode w v =
     (case v of PInt i \<Rightarrow> bindE (check_bounds w i) (\<lambda>_. pack_s w i) | _ \<Rightarrow> Inl CodecError)"

definition text_encode :: "pyval \<Rightarrow> byte list res" where
  [simp]: "text_encode v =
     (case v of PStr s \<Rightarrow> bindE (utf8_encode s) pack_text | _ \<Rightarrow> Inl CodecError)"

definition bool_encode :: "pyval \<Rightarrow> byte list res" where
  [simp]: "bool_encode v =
     (case v of PBool b \<Rightarrow> Inr [if b then 1 else 0] | _ \<Rightarrow> Inl CodecError)"

definition float_encode :: "nat \<Rightarrow> pyval \<Rightarrow> byte list res" where
  [simp]: "float_encode w v =
     (case v of
        PFloat f \<Rightarrow>
          if w = 4 then bindE (f32_bits f) (\<lambda>b. Inr (be_bytes 4 b)) else Inr (be_bytes 8 (uint f))
      | _ \<Rightarrow> Inl CodecError)"

definition varchar_encode :: "int \<Rightarrow> pyval \<Rightarrow> byte list res" where
  [simp]: "varchar_encode n v =
     (case v of PStr s \<Rightarrow> bindE (utf8_encode s) pack_text | _ \<Rightarrow> Inl CodecError)"

definition char_encode :: "int \<Rightarrow> pyval \<Rightarrow> byte list res" where
  [simp]: "char_encode n v =
     (case v of
        PStr s \<Rightarrow>
          bindE (utf8_encode s) (\<lambda>d.
          bindE (pack_u 2 n) (\<lambda>l.
          bindE (utf8_encode (s @ replicate (nat (n - py_len d)) space)) (\<lambda>e. Inr (l @ e))))
      | _ \<Rightarrow> Inl CodecError)"

definition decimal_encode :: "int \<Rightarrow> int \<Rightarrow> pyval \<Rightarrow> byte list res" where
  [simp]: "decimal_encode p s v =
     bindE (to_scaled p s v) (pack_s 8)"

definition date_encode :: "pyval \<Rightarrow> byte list res" where
  [simp]: "date_encode v =
     (case v of PDate d \<Rightarrow> pack_s 4 d | PDateTime t \<Rightarrow> Inl TypeErr | PDateTimeZ t z \<Rightarrow> Inl TypeErr | _ \<Rightarrow> Inl CodecError)"

text \<open>The seconds since midnight; a time zone is not looked at.\<close>

definition pack_time :: "int \<Rightarrow> int \<Rightarrow> int \<Rightarrow> byte list res" where
  [simp]: "pack_time h m s =
     (let t = h * 3600 + m * 60 + s in
      if \<not> (0 \<le> t \<and> t \<le> 86399) then Inl CodecError else pack_u 4 t)"

definition time_encode :: "pyval \<Rightarrow> byte list res" where
  [simp]: "time_encode v =
     (case v of
        PTime h m s us \<Rightarrow> pack_time h m s
      | PTimeZ h m s us z \<Rightarrow> pack_time h m s
      | _ \<Rightarrow> Inl CodecError)"

definition timestamp_encode :: "pyval \<Rightarrow> byte list res" where
  [simp]: "timestamp_encode v =
     (case v of PDateTime t \<Rightarrow> bindE (total_seconds_int t) (pack_s 8) | PDateTimeZ t z \<Rightarrow> Inl TypeErr | _ \<Rightarrow> Inl CodecError)"

fun encode_value :: "codec \<Rightarrow> pyval \<Rightarrow> byte list res" where
  "encode_value (IntC name w) v = int_encode w v"
| "encode_value TextC v = text_encode v"
| "encode_value BoolC v = bool_encode v"
| "encode_value (FloatC name w) v = float_encode w v"
| "encode_value (VarcharC n) v = varchar_encode n v"
| "encode_value (CharC n) v = char_encode n v"
| "encode_value (DecimalC p s) v = decimal_encode p s v"
| "encode_value DateC v = date_encode v"
| "encode_value TimeC v = time_encode v"
| "encode_value TimestampC v = timestamp_encode v"

definition encode_py :: "codec \<Rightarrow> pyval \<Rightarrow> byte list res" where
  "encode_py c v = bindE (validate c v) (\<lambda>_. encode_value c v)"

text \<open>\<open>struct.unpack_from\<close> raises when the buffer is too short.\<close>

definition unpack_from_s :: "nat \<Rightarrow> byte list \<Rightarrow> int \<Rightarrow> int res" where
  "unpack_from_s w buf off =
     (if off + int w > py_len buf then Inl StructError else Inr (unpack_s (slice buf off (off + int w))))"

definition unpack_from_u :: "nat \<Rightarrow> byte list \<Rightarrow> int \<Rightarrow> int res" where
  "unpack_from_u w buf off =
     (if off + int w > py_len buf then Inl StructError else Inr (be_int (slice buf off (off + int w))))"

definition decode_text :: "(int \<Rightarrow> unit res) \<Rightarrow> byte list \<Rightarrow> int \<Rightarrow> (pyval \<times> int) res" where
  "decode_text check buf off =
     (if off + 2 > py_len buf then Inl ValueError
      else bindE (unpack_from_u 2 buf off) (\<lambda>n.
        if off + 2 + n > py_len buf then Inl ValueError
        else bindE (check n) (\<lambda>_.
          bindE (utf8_decode (slice buf (off + 2) (off + 2 + n))) (\<lambda>s.
          Inr (PStr s, off + 2 + n)))))"

definition time_of_seconds :: "int \<Rightarrow> pyval res" where
  "time_of_seconds s =
     (let h = s div 3600; rem = s mod 3600; m = rem div 60; sec = rem mod 60 in
      if 0 \<le> h \<and> h < 24 then Inr (PTime h m sec 0) else Inl ValueError)"

definition int_decode :: "nat \<Rightarrow> byte list \<Rightarrow> int \<Rightarrow> (pyval \<times> int) res" where
  [simp]: "int_decode w buf off =
     (if off + int w > py_len buf then Inl ValueError
      else bindE (unpack_from_s w buf off) (\<lambda>v.
        bindE (check_bounds w v) (\<lambda>_. Inr (PInt v, off + int w))))"

definition text_decode :: "byte list \<Rightarrow> int \<Rightarrow> (pyval \<times> int) res" where
  [simp]: "text_decode buf off =
     decode_text (\<lambda>_. Inr ()) buf off"

definition bool_decode :: "byte list \<Rightarrow> int \<Rightarrow> (pyval \<times> int) res" where
  [simp]: "bool_decode buf off =
     (if off + 1 > py_len buf then Inl ValueError
      else bindE (get_item buf off) (\<lambda>b. Inr (PBool (b \<noteq> 0), off + 1)))"

definition float_decode :: "nat \<Rightarrow> byte list \<Rightarrow> int \<Rightarrow> (pyval \<times> int) res" where
  [simp]: "float_decode w buf off =
     (if w = 4 then
        if off + 4 > py_len buf then Inl ValueError
        else bindE (unpack_from_u 4 buf off) (\<lambda>b. Inr (PFloat (f64_of_f32 b), off + 4))
      else
        if off + 8 > py_len buf then Inl ValueError
        else bindE (unpack_from_u 8 buf off) (\<lambda>b. Inr (PFloat (word_of_int b), off + 8)))"

definition varchar_decode :: "int \<Rightarrow> byte list \<Rightarrow> int \<Rightarrow> (pyval \<times> int) res" where
  [simp]: "varchar_decode n buf off =
     decode_text (check_len n) buf off"

definition decimal_decode :: "int \<Rightarrow> int \<Rightarrow> byte list \<Rightarrow> int \<Rightarrow> (pyval \<times> int) res" where
  [simp]: "decimal_decode p s buf off =
     (if off + 8 > py_len buf then Inl ValueError
      else bindE (unpack_from_s 8 buf off) (\<lambda>scaled.
        bindE (int_truediv scaled (10 ^ nat s)) (\<lambda>f. Inr (PFloat f, off + 8))))"

definition date_decode :: "byte list \<Rightarrow> int \<Rightarrow> (pyval \<times> int) res" where
  [simp]: "date_decode buf off =
     bindE (unpack_from_s 4 buf off) (\<lambda>days.
       if DATE_MIN \<le> days \<and> days \<le> DATE_MAX then Inr (PDate days, off + 4) else Inl OverflowErr)"

definition time_decode :: "byte list \<Rightarrow> int \<Rightarrow> (pyval \<times> int) res" where
  [simp]: "time_decode buf off =
     bindE (unpack_from_u 4 buf off) (\<lambda>s. bindE (time_of_seconds s) (\<lambda>t. Inr (t, off + 4)))"

definition timestamp_decode :: "byte list \<Rightarrow> int \<Rightarrow> (pyval \<times> int) res" where
  [simp]: "timestamp_decode buf off =
     bindE (unpack_from_s 8 buf off) (\<lambda>s.
       if DATE_MIN * 86400 \<le> s \<and> s < (DATE_MAX + 1) * 86400
       then Inr (PDateTime (s * 1000000), off + 8) else Inl OverflowErr)"

fun decode_bytes :: "codec \<Rightarrow> byte list \<Rightarrow> int \<Rightarrow> (pyval \<times> int) res" where
  "decode_bytes (IntC name w) buf off = int_decode w buf off"
| "decode_bytes TextC buf off = text_decode buf off"
| "decode_bytes BoolC buf off = bool_decode buf off"
| "decode_bytes (FloatC name w) buf off = float_decode w buf off"
| "decode_bytes (VarcharC n) buf off = varchar_decode n buf off"
| "decode_bytes (CharC n) buf off = varchar_decode n buf off"
| "decode_bytes (DecimalC p s) buf off = decimal_decode p s buf off"
| "decode_bytes DateC buf off = date_decode buf off"
| "decode_bytes TimeC buf off = time_decode buf off"
| "decode_bytes TimestampC buf off = timestamp_decode buf off"

section \<open>What a codec reads back\<close>

text \<open>The value a stored value comes back as, and when it can come back at all.\<close>

fun stored :: "codec \<Rightarrow> pyval \<Rightarrow> pyval" where
  "stored (FloatC name w) v =
     (case v of
        PFloat f \<Rightarrow> (case f32_bits f of Inr b \<Rightarrow> if w = 4 then PFloat (f64_of_f32 b) else v | Inl e \<Rightarrow> v)
      | _ \<Rightarrow> v)"
| "stored (CharC n) v =
     (case v of
        PStr s \<Rightarrow> (case utf8_encode s of Inr d \<Rightarrow> PStr (s @ replicate (nat (n - py_len d)) space) | Inl e \<Rightarrow> v)
      | _ \<Rightarrow> v)"
| "stored (DecimalC p s) v =
     (case to_scaled p s v of
        Inr k \<Rightarrow> (case int_truediv k (10 ^ nat s) of Inr f \<Rightarrow> PFloat f | Inl e \<Rightarrow> v)
      | Inl e \<Rightarrow> v)"
| "stored TimeC v = (case v of PTime h m s us \<Rightarrow> PTime h m s 0 | PTimeZ h m s us z \<Rightarrow> PTime h m s 0 | _ \<Rightarrow> v)"
| "stored TimestampC v =
     (case v of
        PDateTime t \<Rightarrow> (case total_seconds_int t of Inr s \<Rightarrow> PDateTime (s * 1000000) | Inl e \<Rightarrow> v)
      | _ \<Rightarrow> v)"
| "stored _ v = v"

fun readable :: "codec \<Rightarrow> pyval \<Rightarrow> bool" where
  "readable (DecimalC p s) v =
     (case to_scaled p s v of
        Inr k \<Rightarrow> (case int_truediv k (10 ^ nat s) of Inr f \<Rightarrow> True | Inl e \<Rightarrow> False)
      | Inl e \<Rightarrow> False)"
| "readable TimestampC v =
     (case v of
        PDateTime t \<Rightarrow>
          (case total_seconds_int t of
             Inr s \<Rightarrow> DATE_MIN * 86400 \<le> s \<and> s < (DATE_MAX + 1) * 86400
           | Inl e \<Rightarrow> False)
      | _ \<Rightarrow> False)"
| "readable _ v = True"

fun codec_wf :: "codec \<Rightarrow> bool" where
  "codec_wf (IntC name w) \<longleftrightarrow> w \<in> {2, 4, 8}"
| "codec_wf (FloatC name w) \<longleftrightarrow> w \<in> {4, 8}"
| "codec_wf (VarcharC n) \<longleftrightarrow> 1 \<le> n"
| "codec_wf (CharC n) \<longleftrightarrow> 1 \<le> n"
| "codec_wf (DecimalC p s) \<longleftrightarrow> 1 \<le> p \<and> p \<le> 18 \<and> 0 \<le> s \<and> s < p"
| "codec_wf _ \<longleftrightarrow> True"

lemma registry_wf: "registry t = Some c \<Longrightarrow> codec_wf c" "alias_map t = Some c \<Longrightarrow> codec_wf c"
  by (auto simp: registry_def alias_map_def split: if_splits)

lemma codec_for_wf: "codec_for t params = Inr c \<Longrightarrow> codec_wf c"
  by (auto simp: codec_for_def new_char_def new_varchar_def new_decimal_def lookup_def
      split: if_splits list.splits option.splits dest: registry_wf)

lemma unpack_from_u_mid:
  "length b = w \<Longrightarrow> off = int (length pre) \<Longrightarrow> unpack_from_u w (pre @ b @ post) off = Inr (be_int b)"
  using slice_mid [of off pre "off + int w" b post] by (simp add: unpack_from_u_def)

lemma unpack_from_s_mid:
  "length b = w \<Longrightarrow> off = int (length pre) \<Longrightarrow> unpack_from_s w (pre @ b @ post) off = Inr (unpack_s b)"
  using slice_mid [of off pre "off + int w" b post] by (simp add: unpack_from_s_def)

lemma decode_text_mid:
  assumes "pack_text d = Inr b" and "utf8_decode d = Inr s" and "check (py_len d) = Inr ()"
  shows "decode_text check (pre @ b @ post) (int (length pre)) = Inr (PStr s, int (length (pre @ b)))"
proof -
  let ?off = "int (length pre)"
  obtain n where b: "b = n @ d" and n: "n = be_bytes 2 (int (length d))" "int (length d) < 256 ^ 2"
    using assms(1) by (auto simp: pack_text_def pack_u_eq_Inr)
  have u: "unpack_from_u 2 (pre @ n @ (d @ post)) ?off = Inr (int (length d))"
    using n by (subst unpack_from_u_mid) (simp_all add: be_int_be_bytes)
  have s: "slice ((pre @ n) @ d @ post) (?off + 2) (?off + 2 + int (length d)) = d"
    by (rule slice_mid) (simp_all add: n)
  show ?thesis
    using u s assms(2,3) by (simp add: decode_text_def b n)
qed

lemma utf8_encode_append:
  "utf8_encode (s @ t) = bindE (utf8_encode s) (\<lambda>a. bindE (utf8_encode t) (\<lambda>b. Inr (a @ b)))"
proof (induction s)
  case Nil
  then show ?case by (cases "mapE utf8_char t") (simp_all add: utf8_encode_def)
next
  case (Cons c s)
  then show ?case
    by (cases "utf8_char c"; cases "mapE utf8_char (s @ t)"; cases "mapE utf8_char s"; cases "mapE utf8_char t")
      (simp_all add: utf8_encode_def)
qed

lemma unpack_s_ok:
  "pack_s w i = Inr b \<Longrightarrow> 0 < w \<Longrightarrow> unpack_from_s w (pre @ b @ post) (int (length pre)) = Inr i \<and> length b = w"
  using unpack_s_pack_s [of w i b] by (simp add: unpack_from_s_mid)

lemma unpack_u_ok:
  "pack_u w i = Inr b \<Longrightarrow> unpack_from_u w (pre @ b @ post) (int (length pre)) = Inr i \<and> length b = w"
  by (auto simp: pack_u_eq_Inr unpack_from_u_mid be_int_be_bytes)

lemma time_of_seconds_ok:
  assumes "0 \<le> h" "h < 24" "0 \<le> m" "m < 60" "0 \<le> s" "s < 60"
  shows "time_of_seconds (h * 3600 + m * 60 + s) = Inr (PTime h m s 0)"
proof -
  have "(h * 3600 + (m * 60 + s)) div 3600 = h" "(h * 3600 + (m * 60 + s)) mod 3600 = m * 60 + s"
    using assms by simp_all
  moreover have "(m * 60 + s) div 60 = m" "(m * 60 + s) mod 60 = s" using assms by simp_all
  ultimately show ?thesis using assms by (simp add: time_of_seconds_def Let_def add.assoc)
qed

lemma codec_roundtrip:
  assumes "encode_py c v = Inr b" and "py_valid v" and "codec_wf c" and "readable c v"
  shows "decode_bytes c (pre @ b @ post) (int (length pre)) = Inr (stored c v, int (length (pre @ b)))"
proof -
  have val: "validate c v = Inr ()" and enc: "encode_value c v = Inr b"
    using assms(1) by (auto simp: encode_py_def)
  show ?thesis
  proof (cases c)
    case (IntC name w)
    then obtain i where i: "v = PInt i" "check_bounds w i = Inr ()" "pack_s w i = Inr b"
      using enc by (auto split: pyval.splits)
    have "0 < w" using assms(3) IntC by auto
    with unpack_s_ok [OF i(3) this, of pre post] show ?thesis using i(1,2) by (simp add: IntC)
  next
    case TextC
    then obtain s d where "v = PStr s" "utf8_encode s = Inr d" "pack_text d = Inr b"
      using enc by (auto split: pyval.splits)
    then show ?thesis using assms(2) decode_text_mid [of d b s] utf8_decode_encode [of s d]
      by (simp add: TextC)
  next
    case BoolC
    then obtain x where "v = PBool x" "b = [if x then 1 else 0]"
      using enc by (auto split: pyval.splits)
    then show ?thesis by (auto simp: BoolC get_item_nonneg nth_append)
  next
    case (FloatC name w)
    then obtain f where f: "v = PFloat f" using enc by (auto split: pyval.splits)
    show ?thesis
    proof (cases "w = 4")
      case True
      then obtain k where k: "f32_bits f = Inr k" "b = be_bytes 4 k"
        using enc FloatC f by auto
      have "0 \<le> k" "k < 256 ^ 4"
      proof -
        have "0 \<le> round_float 24 (- 149) (f_num f) (f_den f)"
          by (rule round_float_nonneg)
        then show "0 \<le> k" "k < 256 ^ 4"
          using k(1) by (auto simp: f32_bits_def f32_inf_def Let_def split: if_splits)
      qed
      then have "unpack_from_u 4 (pre @ b @ post) (int (length pre)) = Inr k"
        by (simp add: k(2) unpack_from_u_mid be_int_be_bytes)
      then show ?thesis using True f k by (simp add: FloatC)
    next
      case False
      then have b: "b = be_bytes 8 (uint f)" using enc FloatC f by simp
      have "uint f < 256 ^ 8" using uint_lt2p [of f] by simp
      then have "unpack_from_u 8 (pre @ b @ post) (int (length pre)) = Inr (uint f)"
        by (simp add: b unpack_from_u_mid be_int_be_bytes)
      then show ?thesis using False f b by (auto simp: FloatC split: sum.splits)
    qed
  next
    case (VarcharC n)
    then obtain s d where "v = PStr s" "utf8_encode s = Inr d" "pack_text d = Inr b"
      using enc by (auto split: pyval.splits)
    then show ?thesis using assms(2) val decode_text_mid [of d b s "check_len n"] utf8_decode_encode [of s d]
      by (simp add: VarcharC)
  next
    case (CharC n)
    then obtain s d l e where c: "v = PStr s" "utf8_encode s = Inr d" "pack_u 2 n = Inr l"
        "utf8_encode (s @ replicate (nat (n - py_len d)) space) = Inr e" "b = l @ e"
      using enc by (auto split: pyval.splits)
    have "int (length d) \<le> n" using val c(1,2) by (auto simp: CharC check_len_def split: if_splits)
    moreover have "utf8_encode (replicate k space) = Inr (replicate k 32)" for k
      by (induction k) (auto simp: utf8_encode_def utf8_char_def)
    then have e: "e = d @ replicate (nat (n - py_len d)) 32"
      using c(2,4) by (auto simp: utf8_encode_append)
    ultimately have "int (length e) = n" by simp
    then have "pack_text e = Inr b" "check_len n (py_len e) = Inr ()"
      using c(3,5) by (simp_all add: pack_text_def check_len_def)
    moreover have "utf8_decode e = Inr (s @ replicate (nat (n - py_len d)) space)"
      using c(1,4) assms(2) by (intro utf8_decode_encode) (auto simp: list_all_iff)
    ultimately show ?thesis using c(1,2) decode_text_mid [of e b _ "check_len n"]
      by (simp add: CharC)
  next
    case (DecimalC p s)
    then obtain k f where k: "to_scaled p s v = Inr k" "pack_s 8 k = Inr b" "int_truediv k (10 ^ nat s) = Inr f"
      using enc assms(4) by (auto split: sum.splits)
    with unpack_s_ok [OF k(2), of pre post] show ?thesis by (simp add: DecimalC)
  next
    case DateC
    then obtain d where d: "v = PDate d" "pack_s 4 d = Inr b"
      using enc by (auto split: pyval.splits)
    with unpack_s_ok [OF d(2), of pre post] show ?thesis using assms(2) by (simp add: DateC)
  next
    case TimeC
    then obtain h m s us z where t: "v = PTime h m s us \<or> v = PTimeZ h m s us z" "pack_u 4 (h * 3600 + m * 60 + s) = Inr b"
      using enc by (auto simp: Let_def split: pyval.splits if_splits)
    have "time_of_seconds (h * 3600 + m * 60 + s) = Inr (PTime h m s 0)"
      using t(1) assms(2) by (intro time_of_seconds_ok) auto
    with unpack_u_ok [OF t(2), of pre post] show ?thesis using t(1) by (auto simp: TimeC)
  next
    case TimestampC
    then obtain t s where t: "v = PDateTime t" "total_seconds_int t = Inr s" "pack_s 8 s = Inr b"
      using enc by (auto split: pyval.splits)
    with unpack_s_ok [OF t(3), of pre post] show ?thesis using assms(4) by (simp add: TimestampC)
  qed
qed

lemmas codec_roundtrip_any = codec_roundtrip [OF _ _ codec_for_wf]

section \<open>Properties\<close>

text \<open>
  C25. Whatever a codec of the registry encodes, it decodes again from any buffer that holds those
  bytes at the offset, consuming exactly them: integers, text, booleans, doubles, VARCHAR and
  dates come back unchanged, CHAR padded with spaces, TIME and TIMESTAMP without microseconds,
  FLOAT rounded to single precision and DECIMAL as its scaled integer divided by the factor.
\<close>

theorem codec_roundtrip_registry:
  assumes "codec_for t params = Inr c" and "encode_py c v = Inr b" and "py_valid v" and "readable c v"
  shows "decode_bytes c (pre @ b @ post) (int (length pre)) = Inr (stored c v, int (length (pre @ b)))"
  using codec_roundtrip [OF assms(2,3) codec_for_wf [OF assms(1)] assms(4)] .

lemma codec_roundtrip_registry_witness:
  "decode_bytes (CharC 3) [0, 3, 65, 32, 32] 0 = Inr (PStr [65, 32, 32], 5)"
  using codec_roundtrip_registry [of "''CHAR''" "[3]" "CharC 3" "PStr [65]" "[0, 3, 65, 32, 32]" "[]" "[]"]
  by (simp add: codec_for_def is_type_name_def parametric_types_def registry_def alias_map_def new_char_def
      encode_py_def utf8_encode_def utf8_char_def check_len_def pack_u_def numeral_2_eq_2 numeral_3_eq_3)

text \<open>
  A TIMESTAMP on a whole second comes back unchanged, although the seconds pass through a
  float on the way: for every second that a datetime can name the division is exact.
\<close>

theorem timestamp_whole_second:
  assumes "DATE_MIN * 86400 \<le> s" and "s < (DATE_MAX + 1) * 86400"
  shows "\<exists>b. encode_py TimestampC (PDateTime (s * 1000000)) = Inr b \<and>
    decode_bytes TimestampC (pre @ b @ post) (int (length pre)) = Inr (PDateTime (s * 1000000), int (length pre) + 8)"
proof -
  have "\<bar>s\<bar> < 2 ^ 53" using assms by simp
  then obtain w where "int_truediv (s * 1000000) 1000000 = Inr w" "float_trunc w = s"
    using int_truediv_exact [of s 1000000] by auto
  then have ts: "total_seconds_int (s * 1000000) = Inr s" by (simp add: total_seconds_int_def)
  have "pack_s 8 s = Inr (be_bytes 8 (s mod 256 ^ 8))" using assms by (simp add: pack_s_def)
  then have enc: "encode_py TimestampC (PDateTime (s * 1000000)) = Inr (be_bytes 8 (s mod 256 ^ 8))"
    using ts by (simp add: encode_py_def)
  moreover have "py_valid (PDateTime (s * 1000000))" using assms by simp
  moreover have "readable TimestampC (PDateTime (s * 1000000))" using assms ts by simp
  ultimately show ?thesis
    using codec_roundtrip [OF enc, of pre post] ts by simp
qed

lemma timestamp_whole_second_witness:
  "\<exists>b. encode_py TimestampC (PDateTime (1700000000 * 1000000)) = Inr b \<and>
     decode_bytes TimestampC b 0 = Inr (PDateTime (1700000000 * 1000000), 8)"
  using timestamp_whole_second [of 1700000000 "[]" "[]"] by simp

end
