(* ===== verification/Py_Text.thy ===== *)
theory Py_Text
  imports Py_Values
begin

text \<open>
  The part of Python's \<open>str\<close> the program uses: character classes, case
  conversion, and the number syntax of \<open>int\<close> and \<open>float\<close>. Code points below 256
  are written out. Above, the answers are those of the Unicode database the
  interpreter was built with: the record \<open>uni\<close>, a parameter of everything that
  classifies or converts characters. The ISO 8601 readers of \<open>datetime\<close>, whose
  accepted syntax depends on the interpreter version, are parameters of the same
  record.
\<close>

record uni =
  u_alpha :: "nat \<Rightarrow> bool"
  u_alnum :: "nat \<Rightarrow> bool"
  u_digit :: "nat \<Rightarrow> bool"
  u_decimal :: "nat \<Rightarrow> nat option"
  u_space :: "nat \<Rightarrow> bool"
  u_upper :: "nat \<Rightarrow> pystr"
  u_lower :: "pystr \<Rightarrow> pystr"
  iso_date :: "pystr \<Rightarrow> pyval option"
  iso_time :: "pystr \<Rightarrow> pyval option"
  iso_datetime :: "pystr \<Rightarrow> pyval option"

text \<open>A database without code points above 255, for examples.\<close>

definition latin1 :: uni where
  "latin1 = \<lparr>u_alpha = (\<lambda>_. False), u_alnum = (\<lambda>_. False), u_digit = (\<lambda>_. False),
     u_decimal = (\<lambda>_. None), u_space = (\<lambda>_. False), u_upper = (\<lambda>c. [c]), u_lower = (\<lambda>s. s),
     iso_date = (\<lambda>_. None), iso_time = (\<lambda>_. None), iso_datetime = (\<lambda>_. None)\<rparr>"

section \<open>Character classes\<close>

definition ascii_digit :: "nat \<Rightarrow> bool" where
  "ascii_digit c \<longleftrightarrow> 48 \<le> c \<and> c \<le> 57"

definition py_isalpha :: "uni \<Rightarrow> nat \<Rightarrow> bool" where
  "py_isalpha u c =
     (if c < 128 then 65 \<le> c \<and> c \<le> 90 \<or> 97 \<le> c \<and> c \<le> 122
      else if c < 256 then c = 170 \<or> c = 181 \<or> c = 186 \<or> 192 \<le> c \<and> c \<noteq> 215 \<and> c \<noteq> 247
      else u_alpha u c)"

definition py_isdigit :: "uni \<Rightarrow> nat \<Rightarrow> bool" where
  "py_isdigit u c =
     (if c < 128 then ascii_digit c
      else if c < 256 then c = 178 \<or> c = 179 \<or> c = 185
      else u_digit u c)"

definition py_isalnum :: "uni \<Rightarrow> nat \<Rightarrow> bool" where
  "py_isalnum u c =
     (py_isalpha u c \<or> py_isdigit u c \<or>
      (if c < 256 then c = 188 \<or> c = 189 \<or> c = 190 else u_alnum u c))"

definition py_isspace :: "uni \<Rightarrow> nat \<Rightarrow> bool" where
  "py_isspace u c =
     (if c < 256 then 9 \<le> c \<and> c \<le> 13 \<or> 28 \<le> c \<and> c \<le> 32 \<or> c = 133 \<or> c = 160 else u_space u c)"

section \<open>Case\<close>

definition upper_char :: "uni \<Rightarrow> nat \<Rightarrow> pystr" where
  "upper_char u c =
     (if c < 128 then (if 97 \<le> c \<and> c \<le> 122 then [c - 32] else [c])
      else if c < 256 then
        (if c = 181 then [924] else if c = 223 then [83, 83] else if c = 255 then [376]
         else if 224 \<le> c \<and> c \<noteq> 247 then [c - 32] else [c])
      else u_upper u c)"

definition py_upper :: "uni \<Rightarrow> pystr \<Rightarrow> pystr" where
  "py_upper u s = concat (map (upper_char u) s)"

definition lower_char :: "nat \<Rightarrow> nat" where
  "lower_char c =
     (if 65 \<le> c \<and> c \<le> 90 \<or> 192 \<le> c \<and> c \<le> 222 \<and> c \<noteq> 215 then c + 32 else c)"

definition py_lower :: "uni \<Rightarrow> pystr \<Rightarrow> pystr" where
  "py_lower u s = (if list_all (\<lambda>c. c < 256) s then map lower_char s else u_lower u s)"

section \<open>Number syntax\<close>

text \<open>
  \<open>int\<close> and \<open>float\<close> first turn decimal digits of any script into ASCII digits and
  white space into blanks, then strip blanks. Underscores may separate digits.
\<close>

definition to_ascii :: "uni \<Rightarrow> nat \<Rightarrow> nat" where
  "to_ascii u c =
     (if c < 128 then (if py_isspace u c then 32 else c)
      else if c < 256 then (if py_isspace u c then 32 else 63)
      else case u_decimal u c of
        Some d \<Rightarrow> 48 + d
      | None \<Rightarrow> if u_space u c then 32 else 63)"

definition py_strip :: "uni \<Rightarrow> pystr \<Rightarrow> pystr" where
  "py_strip u s =
     (let blank = (\<lambda>c. c = 32) in
      rev (dropWhile blank (rev (dropWhile blank (map (to_ascii u) s)))))"

fun digit_run :: "bool \<Rightarrow> nat list \<Rightarrow> nat list \<times> nat list" where
  "digit_run after_digit [] = ([], [])"
| "digit_run after_digit (c # cs) =
     (if ascii_digit c then let (ds, r) = digit_run True cs in ((c - 48) # ds, r)
      else if c = 95 \<and> after_digit \<and> cs \<noteq> [] \<and> ascii_digit (hd cs) then digit_run False cs
      else ([], c # cs))"

definition digits_value :: "nat list \<Rightarrow> nat" where
  "digits_value ds = foldl (\<lambda>n d. n * 10 + d) 0 ds"

definition take_sign :: "nat list \<Rightarrow> bool \<times> nat list" where
  "take_sign s =
     (case s of
        c # cs \<Rightarrow> if c = 45 then (True, cs) else if c = 43 then (False, cs) else (False, s)
      | [] \<Rightarrow> (False, []))"

text \<open>\<open>int(s)\<close>; more than 4300 digits are refused.\<close>

definition py_int :: "uni \<Rightarrow> pystr \<Rightarrow> int res" where
  "py_int u s =
     (let (neg, r) = take_sign (py_strip u s); (ds, rest) = digit_run False r in
      if ds = [] \<or> rest \<noteq> [] \<or> 4300 < length ds then Inl ValueError
      else Inr (signed neg (digits_value ds)))"

definition f64_nan :: "64 word" where "f64_nan = 0x7FF8000000000000"

definition float_word :: "bool \<Rightarrow> nat list \<Rightarrow> 64 word option" where
  "float_word neg r =
     (let w = map lower_char r in
      if w = ustr ''inf'' \<or> w = ustr ''infinity''
      then Some (word_of_int ((if neg then 2 ^ 63 else 0) + f64_inf))
      else if w = ustr ''nan'' then Some (if neg then f64_nan OR 0x8000000000000000 else f64_nan)
      else None)"

definition take_exponent :: "nat list \<Rightarrow> (int \<times> nat list) option" where
  "take_exponent r =
     (case r of
        c # cs \<Rightarrow>
          if c = 101 \<or> c = 69 then
            let (neg, r') = take_sign cs; (ds, rest) = digit_run False r' in
            if ds = [] then None else Some (signed neg (digits_value ds), rest)
          else Some (0, r)
      | [] \<Rightarrow> Some (0, []))"

definition float_decimal :: "bool \<Rightarrow> nat list \<Rightarrow> 64 word option" where
  "float_decimal neg r =
     (let (ip, r1) = digit_run False r;
          (fp, r2) = (case r1 of c # cs \<Rightarrow> if c = 46 then digit_run False cs else ([], r1) | [] \<Rightarrow> ([], [])) in
      if ip = [] \<and> fp = [] then None
      else case take_exponent r2 of
        None \<Rightarrow> None
      | Some (e, rest) \<Rightarrow>
          if rest \<noteq> [] then None
          else
            let m = digits_value (ip @ fp); x = e - int (length fp) in
            Some (if 0 \<le> x then f64_of_frac neg (m * 10 ^ nat x) 1 else f64_of_frac neg m (10 ^ nat (- x))))"

text \<open>\<open>float(s)\<close>, rounding the decimal to nearest; too large a number is infinite.\<close>

definition py_float :: "uni \<Rightarrow> pystr \<Rightarrow> 64 word res" where
  "py_float u s =
     (let (neg, r) = take_sign (py_strip u s) in
      case float_word neg r of
        Some w \<Rightarrow> Inr w
      | None \<Rightarrow> (case float_decimal neg r of Some w \<Rightarrow> Inr w | None \<Rightarrow> Inl ValueError))"

end
