(* ===== verification/Type_Literal.thy ===== *)
theory Type_Literal
  imports Type_System Py_Text
begin

text \<open>
  The \<open>parse_literal\<close> methods of the codecs in \<open>src/tinydb/type_system.py\<close>: reading a value from its
  text. A value read is one the codec itself accepts, but for \<open>DECIMAL\<close>, which may round it out of
  its range.
\<close>

section \<open>Reading\<close>

definition int_parse :: "uni \<Rightarrow> nat \<Rightarrow> pystr \<Rightarrow> pyval res" where
  "int_parse u w s = bindE (py_int u s) (\<lambda>v. bindE (int_validate w (PInt v)) (\<lambda>_. Inr (PInt v)))"

definition text_parse :: "pystr \<Rightarrow> pyval res" where
  "text_parse s =
     (if length s < 2 \<or> hd s \<noteq> 39 \<or> last s \<noteq> 39 then Inl ValueError
      else Inr (PStr (unquote (butlast (tl s)))))"

definition bool_parse :: "uni \<Rightarrow> pystr \<Rightarrow> pyval res" where
  "bool_parse u s =
     (let up = py_upper u s in
      if up = ustr ''TRUE'' then Inr (PBool True)
      else if up = ustr ''FALSE'' then Inr (PBool False)
      else Inl ValueError)"

definition float_parse :: "uni \<Rightarrow> pystr \<Rightarrow> pyval res" where
  "float_parse u s = bindE (py_float u s) (\<lambda>v. if f_finite v then Inr (PFloat v) else Inl ValueError)"

text \<open>The slice \<open>text[1:-1]\<close> is taken without looking at the quotes.\<close>

definition varchar_parse :: "int \<Rightarrow> pystr \<Rightarrow> pyval res" where
  "varchar_parse n s =
     (let v = unquote (butlast (tl s)) in
      bindE (utf8_encode v) (\<lambda>d. bindE (check_len n (py_len d)) (\<lambda>_. Inr (PStr v))))"

definition decimal_parse :: "uni \<Rightarrow> int \<Rightarrow> int \<Rightarrow> pystr \<Rightarrow> pyval res" where
  "decimal_parse u p s text =
     bindE (py_float u text) (\<lambda>f.
     bindE (to_scaled p s (PFloat f)) (\<lambda>scaled.
     bindE (int_truediv scaled (10 ^ nat s)) (\<lambda>v. Inr (PFloat v))))"

definition iso_result :: "pyval option \<Rightarrow> pyval res" where
  "iso_result r = (case r of Some v \<Rightarrow> Inr v | None \<Rightarrow> Inl ValueError)"

definition date_parse :: "uni \<Rightarrow> pystr \<Rightarrow> pyval res" where
  "date_parse u s = iso_result (iso_date u s)"

definition time_parse :: "uni \<Rightarrow> pystr \<Rightarrow> pyval res" where
  "time_parse u s = iso_result (iso_time u s)"

definition timestamp_parse :: "uni \<Rightarrow> pystr \<Rightarrow> pyval res" where
  "timestamp_parse u s = iso_result (iso_datetime u s)"

fun parse_literal :: "uni \<Rightarrow> codec \<Rightarrow> pystr \<Rightarrow> pyval res" where
  "parse_literal u (IntC name w) s = int_parse u w s"
| "parse_literal u TextC s = text_parse s"
| "parse_literal u BoolC s = bool_parse u s"
| "parse_literal u (FloatC name w) s = float_parse u s"
| "parse_literal u (VarcharC n) s = varchar_parse n s"
| "parse_literal u (CharC n) s = varchar_parse n s"
| "parse_literal u (DecimalC p q) s = decimal_parse u p q s"
| "parse_literal u DateC s = date_parse u s"
| "parse_literal u TimeC s = time_parse u s"
| "parse_literal u TimestampC s = timestamp_parse u s"

lemma iso_result_Inr [simp]: "iso_result r = Inr v \<longleftrightarrow> r = Some v"
  by (simp add: iso_result_def split: option.splits)

section \<open>Properties\<close>

text \<open>The readers of the standard library return the kind of value they are named after.\<close>

definition iso_readers :: "uni \<Rightarrow> bool" where
  "iso_readers u \<longleftrightarrow>
     (\<forall>s v. iso_date u s = Some v \<longrightarrow> date_validate v = Inr ()) \<and> (\<forall>s v. iso_time u s = Some v \<longrightarrow> time_validate v = Inr ()) \<and>
     (\<forall>s v. iso_datetime u s = Some v \<longrightarrow> timestamp_validate v = Inr ())"

text \<open>
  Reading a literal gives a value that the codec accepts, for every codec but \<open>DECIMAL\<close>.
\<close>

theorem parsed_literal_accepted:
  assumes "iso_readers u" and "parse_literal u c s = Inr v" and "\<forall>p q. c \<noteq> DecimalC p q"
  shows "validate c v = Inr ()"
  using assms(1,2)
proof (cases c)
  case (DecimalC p q)
  then show ?thesis using assms(3) by simp
qed (auto simp: iso_readers_def int_parse_def text_parse_def bool_parse_def float_parse_def varchar_parse_def
    date_parse_def time_parse_def timestamp_parse_def Let_def split: if_splits)

lemma parsed_literal_accepted_witness:
  "parse_literal latin1 (IntC ''SMALLINT'' 2) (ustr ''-12'') = Inr (PInt (- 12)) \<and> validate (IntC ''SMALLINT'' 2) (PInt (- 12)) = Inr ()"
proof -
  have p: "parse_literal latin1 (IntC ''SMALLINT'' 2) (ustr ''-12'') = Inr (PInt (- 12))" by code_simp
  moreover have "iso_readers latin1" by (simp add: iso_readers_def latin1_def)
  ultimately show ?thesis using parsed_literal_accepted [OF _ p] by simp
qed

text \<open>Arithmetic on concrete floats.\<close>

lemmas float_eval = f64_of_frac_def round_float_def floor_log2_def ge_pow2_def round_scaled_def round_div_def bitlen.simps
  f_neg_def f_expo_def f_frac_def f_finite_def f_mant_def f_scale_def f_num_def f_den_def f64_inf_def Let_def
  float_of_int_def float_mul_def float_round_def signed_def int_truediv_def bit_iff_odd

lemma float_99_996:
  "f64_of_frac False 99996 1000 = 0x4058FFBE76C8B439" "f_finite 0x4058FFBE76C8B439" "f_num 0x4058FFBE76C8B439 = 7036592942789689"
  "f_den 0x4058FFBE76C8B439 = 2 ^ 46" "\<not> f_neg 0x4058FFBE76C8B439"
  by (simp_all add: float_eval)

lemma float_100:
  "float_of_int 100 = Inr 0x4059000000000000" "f_finite 0x4059000000000000" "f_num 0x4059000000000000 = 7036874417766400"
  "f_den 0x4059000000000000 = 2 ^ 46" "\<not> f_neg 0x4059000000000000" "int_truediv 10000 100 = Inr 0x4059000000000000"
  by (simp_all add: float_eval)

lemma float_products:
  "float_mul 0x4058FFBE76C8B439 0x4059000000000000 = 0x40C387CCCCCCCCCD" "float_mul 0x4059000000000000 0x4059000000000000 = 0x40C3880000000000"
  by (simp_all add: float_mul_def float_99_996 float_100) (simp_all add: float_eval)

lemma float_rounds:
  "f_finite 0x40C387CCCCCCCCCD" "float_round 0x40C387CCCCCCCCCD = 10000" "f_finite 0x40C3880000000000" "float_round 0x40C3880000000000 = 10000"
  by (simp_all add: float_eval)

lemma read_99_996: "py_float latin1 (ustr ''99.996'') = Inr 0x4058FFBE76C8B439"
  by (simp add: py_float_def ustr_def py_strip_def to_ascii_def py_isspace_def latin1_def take_sign_def float_word_def float_decimal_def
      take_exponent_def digits_value_def Let_def float_99_996 lower_char_def ascii_digit_def)

text \<open>
  \<open>DECIMAL\<close> tests the range before it rounds: \<open>99.996\<close> in a column \<open>DECIMAL(4, 2)\<close> is stored as
  \<open>100.0\<close>, and read from its text as \<open>100.0\<close>, which the same codec rejects.
\<close>

theorem decimal_rounds_out_of_range:
  "bindE (encode_py (DecimalC 4 2) (PFloat 0x4058FFBE76C8B439)) (\<lambda>d. decode_bytes (DecimalC 4 2) d 0) = Inr (PFloat 0x4059000000000000, 8) \<and>
   parse_literal latin1 (DecimalC 4 2) (ustr ''99.996'') = Inr (PFloat 0x4059000000000000) \<and>
   validate (DecimalC 4 2) (PFloat 0x4059000000000000) = Inl CodecError"
proof -
  have stored: "to_scaled 4 2 (PFloat 0x4058FFBE76C8B439) = Inr 10000"
    by (simp add: to_scaled_def Let_def float_99_996 float_100 float_products float_rounds)
  have "bindE (encode_py (DecimalC 4 2) (PFloat 0x4058FFBE76C8B439)) (\<lambda>d. decode_bytes (DecimalC 4 2) d 0) = Inr (PFloat 0x4059000000000000, 8)"
    by (simp add: encode_py_def stored float_100 pack_s_def unpack_from_s_def unpack_s_def slice_nonneg be_int_be_bytes Let_def)
  moreover have "validate (DecimalC 4 2) (PFloat 0x4059000000000000) = Inl CodecError"
    by (simp add: to_scaled_def Let_def float_100 float_products float_rounds)
  ultimately show ?thesis by (simp add: decimal_parse_def read_99_996 stored float_100)
qed

end
