(* ===== verification/Slotted_Page.thy ===== *)
theory Slotted_Page
  imports Py_Bytes
begin

text \<open>
  \<open>src/tinydb/slotted_page.py\<close>: the 4 KB slotted page. The record is the
  dataclass \<open>SlottedPage\<close>; \<open>to_bytes\<close>/\<open>from_bytes\<close> are its page image, the
  operations \<open>insert_row\<close>, \<open>delete_row\<close>, \<open>update_row\<close>, \<open>get_row\<close> the methods
  \<open>insert\<close>, \<open>delete\<close>, \<open>update\<close>, \<open>get\<close>. Lemmas: the page image round trip for
  every page whose directory and data area do not overlap, and a refinement of
  the operations to a finite map from slot ids to row bytes.
\<close>

definition PAGE_SIZE :: int where [simp]: "PAGE_SIZE = 4096"
definition HEADER_SIZE :: int where [simp]: "HEADER_SIZE = 16"
definition SLOT_SIZE :: int where [simp]: "SLOT_SIZE = 6"
definition NULL_PAGE_ID :: int where [simp]: "NULL_PAGE_ID = 4294967295"
definition FLAG_TOMBSTONE :: int where [simp]: "FLAG_TOMBSTONE = 1"
definition FLAG_SPILL_START :: int where [simp]: "FLAG_SPILL_START = 2"
definition TOMBSTONE_OFFSET :: int where [simp]: "TOMBSTONE_OFFSET = 65535"
definition MAX_SLOTS :: int where [simp]: "MAX_SLOTS = 32"
definition MAX_INLINE_PAYLOAD :: int where
  [simp]: "MAX_INLINE_PAYLOAD = PAGE_SIZE - HEADER_SIZE - 2"

record slot =
  s_offset :: int
  s_length :: int
  s_flags :: int

record slotted_page =
  page_id :: int
  num_slots :: int
  free_offset :: int
  overflow_next :: int
  slots :: "slot list"
  data :: "byte list"
  data_offset :: int

definition empty_page :: "int \<Rightarrow> slotted_page" where
  "empty_page pid =
     \<lparr>page_id = pid, num_slots = 0, free_offset = HEADER_SIZE, overflow_next = NULL_PAGE_ID,
      slots = [], data = [], data_offset = PAGE_SIZE - 2\<rparr>"

definition free_space :: "slotted_page \<Rightarrow> int" where
  "free_space p =
     (let slot_dir_end = HEADER_SIZE + num_slots p * SLOT_SIZE in data_offset p - slot_dir_end)"

definition tombstoned :: "slot \<Rightarrow> bool" where
  "tombstoned s \<longleftrightarrow> s_flags s AND FLAG_TOMBSTONE \<noteq> 0"

section \<open>Page image\<close>

definition range_int :: "int \<Rightarrow> int list" where
  "range_int n = map int [0..<nat n]"

definition write_slot :: "byte list \<Rightarrow> int \<Rightarrow> slot \<Rightarrow> byte list res" where
  "write_slot buf i s =
     (let base = HEADER_SIZE + i * SLOT_SIZE in
      bindE (to_bytes_be 2 (s_offset s)) (\<lambda>b.
      let buf = set_slice buf base (base + 2) b in
      bindE (to_bytes_be 2 (s_length s)) (\<lambda>b.
      let buf = set_slice buf (base + 2) (base + 4) b in
      bindE (to_bytes_be 2 (s_flags s)) (\<lambda>b.
      Inr (set_slice buf (base + 4) (base + 6) b)))))"

definition to_bytes :: "slotted_page \<Rightarrow> byte list res" where
  "to_bytes p =
     bindE (set_item (replicate (nat PAGE_SIZE) 0) 0 1) (\<lambda>buf.
     bindE (byte_of (num_slots p)) (\<lambda>n.
     bindE (set_item buf 1 n) (\<lambda>buf.
     bindE (to_bytes_be 2 (free_offset p)) (\<lambda>b.
     let buf = set_slice buf 2 4 b in
     bindE (to_bytes_be 4 (overflow_next p)) (\<lambda>b.
     let buf = set_slice buf 4 8 b in
     bindE (foldE (\<lambda>buf i. bindE (get_item (slots p) i) (write_slot buf i))
                  buf (range_int (num_slots p))) (\<lambda>buf.
     let data_len = py_len (data p);
         buf = (if data_len > 0
                then set_slice buf (PAGE_SIZE - 2 - data_len) (PAGE_SIZE - 2) (data p) else buf) in
     bindE (to_bytes_be 2 data_len) (\<lambda>b.
     Inr (set_slice buf (PAGE_SIZE - 2) PAGE_SIZE b))))))))"

definition read_slot :: "byte list \<Rightarrow> int \<Rightarrow> slot" where
  "read_slot raw i =
     (let base = HEADER_SIZE + i * SLOT_SIZE in
      \<lparr>s_offset = be_int (slice raw base (base + 2)),
       s_length = be_int (slice raw (base + 2) (base + 4)),
       s_flags = be_int (slice raw (base + 4) (base + 6))\<rparr>)"

definition from_bytes :: "int \<Rightarrow> byte list \<Rightarrow> slotted_page res" where
  "from_bytes pid raw =
     (if py_len raw \<noteq> PAGE_SIZE then Inl ValueError
      else
        bindE (get_item raw 1) (\<lambda>n.
        let n = uint n;
            data_len = be_int (slice raw (PAGE_SIZE - 2) PAGE_SIZE);
            d = slice raw (PAGE_SIZE - 2 - data_len) (PAGE_SIZE - 2) in
        Inr \<lparr>page_id = pid, num_slots = n,
             free_offset = be_int (slice raw 2 4),
             overflow_next = be_int (slice raw 4 8),
             slots = map (read_slot raw) (range_int n),
             data = d, data_offset = PAGE_SIZE - 2 - py_len d\<rparr>))"

section \<open>Operations\<close>

text \<open>
  \<open>_append_into_data\<close> repoints the slot it is given to the new tail of the data
  area. The slot is returned, and the caller stores it where the method's
  argument lives: in the directory at the reused index, or at its end.
\<close>

definition append_into_data :: "byte list \<Rightarrow> slotted_page \<Rightarrow> slot \<Rightarrow> slotted_page \<times> slot" where
  "append_into_data row p s =
     (p\<lparr>data := data p @ row, data_offset := data_offset p - py_len row\<rparr>,
      s\<lparr>s_offset := py_len (data p), s_length := py_len row, s_flags := 0\<rparr>)"

fun find_reuse :: "int \<Rightarrow> int \<Rightarrow> slot list \<Rightarrow> int option" where
  "find_reuse n i [] = None"
| "find_reuse n i (s # ss) =
     (if tombstoned s \<and> n \<le> s_length s then Some i else find_reuse n (i + 1) ss)"

definition insert_row :: "slotted_page \<Rightarrow> byte list \<Rightarrow> (int \<times> slotted_page) res" where
  "insert_row p row =
     (if py_len row > MAX_INLINE_PAYLOAD then Inl PageFull
      else case find_reuse (py_len row) 0 (slice_to (slots p) (num_slots p)) of
        Some i \<Rightarrow>
          let (p', s') = append_into_data row p (slots p ! nat i) in
          Inr (i, p'\<lparr>slots := (slots p)[nat i := s']\<rparr>)
      | None \<Rightarrow>
          if num_slots p \<ge> MAX_SLOTS \<or> free_space p < py_len row then Inl PageFull
          else
            let (p', s') = append_into_data row p
                  \<lparr>s_offset = py_len (data p), s_length = py_len row, s_flags = 0\<rparr>;
                n = num_slots p + 1 in
            Inr (n - 1, p'\<lparr>slots := slots p @ [s'], num_slots := n,
                           free_offset := HEADER_SIZE + n * SLOT_SIZE\<rparr>))"

definition delete_row :: "slotted_page \<Rightarrow> int \<Rightarrow> slotted_page res" where
  "delete_row p sid =
     (if sid < 0 \<or> sid \<ge> num_slots p then Inl ValueError
      else bindE (get_item (slots p) sid) (\<lambda>s.
        Inr (p\<lparr>slots := (slots p)[nat sid :=
                 s\<lparr>s_offset := TOMBSTONE_OFFSET, s_flags := FLAG_TOMBSTONE\<rparr>]\<rparr>)))"

definition update_row :: "slotted_page \<Rightarrow> int \<Rightarrow> byte list \<Rightarrow> slotted_page res" where
  "update_row p sid row =
     (if sid < 0 \<or> sid \<ge> num_slots p then Inl ValueError
      else bindE (get_item (slots p) sid) (\<lambda>s.
        if tombstoned s then Inl ValueError
        else if py_len row > s_length s then Inl PageFull
        else let (p', s') = append_into_data row p s in
          Inr (p'\<lparr>slots := (slots p)[nat sid := s']\<rparr>)))"

definition get_row :: "slotted_page \<Rightarrow> int \<Rightarrow> byte list option res" where
  "get_row p sid =
     (if sid < 0 \<or> sid \<ge> num_slots p then Inr None
      else bindE (get_item (slots p) sid) (\<lambda>s.
        if tombstoned s then Inr None
        else if s_offset s < 0 \<or> s_offset s + s_length s > py_len (data p) then Inl ValueError
        else Inr (Some (slice (data p) (s_offset s) (s_offset s + s_length s)))))"


section \<open>The page image of a well-formed page\<close>

text \<open>
  A page is well formed when its header fields fit their widths and the slot
  directory ends at or before the data area. The image is then the
  concatenation of its parts.
\<close>

definition slot_fits :: "slot \<Rightarrow> bool" where
  "slot_fits s \<longleftrightarrow>
     0 \<le> s_offset s \<and> s_offset s < 65536 \<and> 0 \<le> s_length s \<and> s_length s < 65536 \<and>
     0 \<le> s_flags s \<and> s_flags s < 65536"

definition page_wf :: "slotted_page \<Rightarrow> bool" where
  "page_wf p \<longleftrightarrow>
     num_slots p = py_len (slots p) \<and> num_slots p < 256 \<and>
     free_offset p = HEADER_SIZE + num_slots p * SLOT_SIZE \<and>
     0 \<le> overflow_next p \<and> overflow_next p < 2 ^ 32 \<and>
     list_all slot_fits (slots p) \<and>
     data_offset p = PAGE_SIZE - 2 - py_len (data p) \<and> 0 \<le> free_space p"

definition slot_image :: "slot \<Rightarrow> byte list" where
  "slot_image s = be_bytes 2 (s_offset s) @ be_bytes 2 (s_length s) @ be_bytes 2 (s_flags s)"

definition header_image :: "slotted_page \<Rightarrow> byte list" where
  "header_image p =
     [1, word_of_int (num_slots p)] @ be_bytes 2 (free_offset p) @
     be_bytes 4 (overflow_next p) @ replicate 8 0"

definition page_image :: "slotted_page \<Rightarrow> byte list" where
  "page_image p =
     header_image p @ concat (map slot_image (slots p)) @
     replicate (nat (free_space p)) 0 @ data p @ be_bytes 2 (py_len (data p))"

lemma length_slot_image [simp, byte_simps]: "length (slot_image s) = 6"
  by (simp add: slot_image_def)

lemma length_slot_images [simp, byte_simps]: "length (concat (map slot_image ss)) = 6 * length ss"
  by (induction ss) auto

lemma length_header_image [simp, byte_simps]: "length (header_image p) = 16"
  by (simp add: header_image_def)

lemma page_wf_space:
  assumes "page_wf p"
  shows "nat (free_space p) + 6 * length (slots p) + length (data p) = 4078"
  using assms by (simp add: page_wf_def free_space_def Let_def) arith

lemma length_page_image: "page_wf p \<Longrightarrow> length (page_image p) = 4096"
  using page_wf_space [of p] by (simp add: page_image_def)

lemma range_int_simps [simp]:
  "range_int (int n) = map int [0..<n]" "length (range_int i) = nat i" "range_int 0 = []"
  by (simp_all add: range_int_def)

lemma replicate_split: "k \<le> n \<Longrightarrow> replicate n x = replicate k x @ replicate (n - k) x"
  by (simp flip: replicate_add)

lemma write_slot_image:
  assumes "slot_fits s" and "length pre = nat (16 + i * 6)" and "0 \<le> i" and "6 \<le> m"
  shows "write_slot (pre @ replicate m 0) i s = Inr (pre @ slot_image s @ replicate (m - 6) 0)"
proof -
  let ?o = "be_bytes 2 (s_offset s)" and ?l = "be_bytes 2 (s_length s)" and ?f = "be_bytes 2 (s_flags s)"
  let ?r = "replicate (m - 6) (0 :: byte)"
  have pre: "int (length pre) = 16 + i * 6" using assms(2,3) by simp
  have "m = 2 + (2 + (2 + (m - 6)))" using assms(4) by simp
  then have buf: "pre @ replicate m 0 = pre @ replicate 2 0 @ replicate 2 0 @ replicate 2 0 @ ?r"
    by (metis replicate_add)
  have a: "set_slice (pre @ replicate 2 0 @ replicate 2 0 @ replicate 2 0 @ ?r)
      (16 + i * 6) (16 + i * 6 + 2) ?o = pre @ ?o @ replicate 2 0 @ replicate 2 0 @ ?r"
    by (rule set_slice_mid) (use pre in simp_all)
  have b: "set_slice (pre @ ?o @ replicate 2 0 @ replicate 2 0 @ ?r)
      (16 + i * 6 + 2) (16 + i * 6 + 4) ?l = pre @ ?o @ ?l @ replicate 2 0 @ ?r"
    using set_slice_mid [of _ "pre @ ?o" _ "replicate 2 0" "replicate 2 0 @ ?r" ?l] pre by simp
  have c: "set_slice (pre @ ?o @ ?l @ replicate 2 0 @ ?r)
      (16 + i * 6 + 4) (16 + i * 6 + 6) ?f = pre @ ?o @ ?l @ ?f @ ?r"
    using set_slice_mid [of _ "pre @ ?o @ ?l" _ "replicate 2 0" ?r ?f] pre by simp
  have "to_bytes_be 2 (s_offset s) = Inr ?o" "to_bytes_be 2 (s_length s) = Inr ?l"
    "to_bytes_be 2 (s_flags s) = Inr ?f"
    using assms(1) by (simp_all add: slot_fits_def to_bytes_be_def)
  then show ?thesis
    by (simp only: buf write_slot_def Let_def HEADER_SIZE_def SLOT_SIZE_def a b c bindE_Inr
        slot_image_def append_assoc)
qed

lemma write_slots_image:
  assumes "list_all slot_fits ss" and "length hdr = 16" and "6 * length ss \<le> m" and "k \<le> length ss"
  shows "foldE (\<lambda>buf i. bindE (get_item ss i) (write_slot buf i)) (hdr @ replicate m 0)
           (map int [0..<k])
         = Inr (hdr @ concat (map slot_image (take k ss)) @ replicate (m - 6 * k) 0)"
  using assms(4)
proof (induction k)
  case 0
  then show ?case by simp
next
  case (Suc k)
  have fits: "slot_fits (ss ! k)" using assms(1) Suc.prems by (simp add: list_all_length)
  have "write_slot ((hdr @ concat (map slot_image (take k ss))) @ replicate (m - 6 * k) 0)
          (int k) (ss ! k)
      = Inr ((hdr @ concat (map slot_image (take k ss))) @ slot_image (ss ! k) @
             replicate (m - 6 * k - 6) 0)"
    using assms(2,3) Suc.prems fits by (intro write_slot_image) auto
  moreover have "take (Suc k) ss = take k ss @ [ss ! k]"
    using Suc.prems by (simp add: take_Suc_conv_app_nth)
  ultimately show ?case
    using Suc by (simp add: foldE_append get_item_nonneg)
qed


lemma page_wf_simps:
  assumes "page_wf p"
  shows "num_slots p = int (length (slots p))" "length (slots p) < 256"
    "free_offset p = 16 + num_slots p * 6" "0 \<le> overflow_next p" "overflow_next p < 4294967296"
    "list_all slot_fits (slots p)" "data_offset p = 4094 - int (length (data p))"
    "6 * length (slots p) + length (data p) \<le> 4078"
    "nat (free_space p) = 4078 - 6 * length (slots p) - length (data p)"
  using assms by (simp_all add: page_wf_def free_space_def Let_def)

text \<open>The statements of \<open>to_bytes\<close> up to the directory loop, and those after it.\<close>

lemma to_bytes_steps:
  assumes "0 \<le> num_slots p" "num_slots p < 256" "0 \<le> free_offset p" "free_offset p < 65536"
    and "0 \<le> overflow_next p" "overflow_next p < 4294967296" and "int (length (data p)) < 65536"
    and dir: "foldE (\<lambda>buf i. bindE (get_item (slots p) i) (write_slot buf i))
      (header_image p @ replicate 4080 0) (range_int (num_slots p)) = Inr buf"
  shows "to_bytes p = Inr (set_slice
      (if 0 < int (length (data p))
       then set_slice buf (4094 - int (length (data p))) 4094 (data p) else buf)
      4094 4096 (be_bytes 2 (int (length (data p)))))"
proof -
  let ?len = "length (data p)"
  let ?hdr = "header_image p"
  let ?b0 = "[1, word_of_int (num_slots p)] :: byte list"
  let ?fo = "be_bytes 2 (free_offset p)" and ?on = "be_bytes 4 (overflow_next p)"
  have items: "set_item (replicate (nat 4096) 0) 0 1 = Inr ((1::byte) # replicate 4095 0)"
    "set_item ((1::byte) # replicate 4095 0) 1 x = Inr ([1, x] @ replicate 4094 0)" for x
    using replicate_Suc [of 4095 "0::byte"] replicate_Suc [of 4094 "0::byte"]
    by (simp_all add: set_item_nonneg)
  have n: "byte_of (num_slots p) = Inr (word_of_int (num_slots p))"
    using assms by (simp add: byte_of_def)
  have fo: "to_bytes_be 2 (free_offset p) = Inr ?fo" using assms by (simp add: to_bytes_be_def)
  have on: "to_bytes_be 4 (overflow_next p) = Inr ?on" using assms by (simp add: to_bytes_be_def)
  have ln: "to_bytes_be 2 (int ?len) = Inr (be_bytes 2 (int ?len))"
    using assms by (simp add: to_bytes_be_def)
  have s1: "set_slice (?b0 @ replicate 4094 0) 2 4 ?fo = ?b0 @ ?fo @ replicate 4092 0"
    using set_slice_mid [of 2 ?b0 4 "replicate 2 0" "replicate 4092 0" ?fo]
    by (simp flip: replicate_add)
  have s2: "set_slice (?b0 @ ?fo @ replicate 4092 0) 4 8 ?on = ?hdr @ replicate 4080 0"
    using set_slice_mid [of 4 "?b0 @ ?fo" 8 "replicate 4 0" "replicate 4088 0" ?on]
    by (simp flip: replicate_add add: header_image_def)
  show ?thesis
    by (simp only: to_bytes_def PAGE_SIZE_def items n fo on s1 s2 dir ln Let_def bindE_Inr
        py_len_def diff_numeral_special arith_simps)
qed

lemma to_bytes_image:
  assumes "page_wf p"
  shows "to_bytes p = Inr (page_image p)"
proof -
  note wf = page_wf_simps [OF assms]
  let ?n = "length (slots p)" and ?len = "length (data p)"
  let ?hdr = "header_image p" and ?dir = "concat (map slot_image (slots p))"
  let ?m = "4078 - 6 * ?n - ?len"
  have sl: "foldE (\<lambda>buf i. bindE (get_item (slots p) i) (write_slot buf i))
      (?hdr @ replicate 4080 0) (range_int (num_slots p))
      = Inr (?hdr @ ?dir @ replicate (4080 - 6 * ?n) 0)"
    using write_slots_image [OF wf(6) length_header_image, of 4080 ?n p] wf(1,8) by simp
  have "4080 - 6 * ?n = ?m + (?len + 2)" using wf(8) by simp
  then have split: "replicate (4080 - 6 * ?n) (0::byte)
      = replicate ?m 0 @ replicate ?len 0 @ replicate 2 0"
    by (metis replicate_add)
  let ?pre = "?hdr @ ?dir @ replicate ?m 0"
  have pre: "int (length ?pre) = 4094 - int ?len" using wf(8) by simp
  have s3: "set_slice (?pre @ replicate ?len 0 @ replicate 2 0) (4094 - int ?len) 4094 (data p)
      = ?pre @ data p @ replicate 2 0"
    by (rule set_slice_mid) (use pre in simp_all)
  have s4: "set_slice ((?pre @ data p) @ replicate 2 0 @ []) 4094 4096 (be_bytes 2 (int ?len))
      = (?pre @ data p) @ be_bytes 2 (int ?len) @ []"
    by (rule set_slice_mid) (use pre in simp_all)
  have s4': "set_slice (?hdr @ ?dir @ replicate ?m 0 @ data p @ replicate 2 0) 4094 4096
      (be_bytes 2 (int ?len)) = page_image p"
    using s4 by (simp only: append_assoc append_Nil2 page_image_def wf(9) py_len_def)
  have cond: "(if 0 < int ?len
       then set_slice (?hdr @ ?dir @ replicate ?m 0 @ replicate ?len 0 @ replicate 2 0)
              (4094 - int ?len) 4094 (data p)
       else ?hdr @ ?dir @ replicate ?m 0 @ replicate ?len 0 @ replicate 2 0)
      = ?hdr @ ?dir @ replicate ?m 0 @ data p @ replicate 2 0"
    using s3 [unfolded append_assoc] by (cases "data p") simp_all
  show ?thesis
    using wf to_bytes_steps [OF _ _ _ _ _ _ _ sl]
    by (simp only: split cond s4')
qed

lemma read_slot_image:
  assumes "slot_fits s" and "int (length pre) = 16 + i * 6"
  shows "read_slot (pre @ slot_image s @ post) i = s"
proof -
  let ?o = "be_bytes 2 (s_offset s)" and ?l = "be_bytes 2 (s_length s)" and ?f = "be_bytes 2 (s_flags s)"
  have "slice (pre @ ?o @ (?l @ ?f @ post)) (16 + i * 6) (16 + i * 6 + 2) = ?o"
    by (rule slice_mid) (use assms in simp_all)
  moreover have "slice ((pre @ ?o) @ ?l @ (?f @ post)) (16 + i * 6 + 2) (16 + i * 6 + 4) = ?l"
    by (rule slice_mid) (use assms in simp_all)
  moreover have "slice ((pre @ ?o @ ?l) @ ?f @ post) (16 + i * 6 + 4) (16 + i * 6 + 6) = ?f"
    by (rule slice_mid) (use assms in simp_all)
  ultimately show ?thesis
    using assms(1) by (simp add: read_slot_def Let_def slot_image_def slot_fits_def be_int_be_bytes)
qed

lemma read_slots_image:
  assumes "list_all slot_fits ss" and "length hdr = 16"
  shows "map (read_slot (hdr @ concat (map slot_image ss) @ post)) (range_int (int (length ss))) = ss"
proof (rule nth_equalityI)
  show "length (map (read_slot (hdr @ concat (map slot_image ss) @ post)) (range_int (int (length ss))))
      = length ss" by simp
next
  fix k assume "k < length (map (read_slot (hdr @ concat (map slot_image ss) @ post))
      (range_int (int (length ss))))"
  then have k: "k < length ss" by simp
  have "hdr @ concat (map slot_image ss) @ post
      = (hdr @ concat (map slot_image (take k ss))) @ slot_image (ss ! k) @
        (concat (map slot_image (drop (Suc k) ss)) @ post)"
    by (subst id_take_nth_drop [OF k]) simp
  moreover have "slot_fits (ss ! k)" using assms(1) k by (simp add: list_all_length)
  ultimately have "read_slot (hdr @ concat (map slot_image ss) @ post) (int k) = ss ! k"
    using k assms(2) read_slot_image [of "ss ! k" "hdr @ concat (map slot_image (take k ss))" "int k"]
    by simp
  then show "map (read_slot (hdr @ concat (map slot_image ss) @ post)) (range_int (int (length ss))) ! k
      = ss ! k" using k by simp
qed

lemma from_bytes_image:
  assumes "page_wf p"
  shows "from_bytes (page_id p) (page_image p) = Inr p"
proof -
  note wf = page_wf_simps [OF assms]
  let ?n = "length (slots p)" and ?len = "length (data p)"
  let ?b0 = "[1, word_of_int (num_slots p)] :: byte list"
  let ?fo = "be_bytes 2 (free_offset p)" and ?on = "be_bytes 4 (overflow_next p)"
  let ?rest = "concat (map slot_image (slots p)) @ replicate (nat (free_space p)) 0 @ data p @
    be_bytes 2 (py_len (data p))"
  let ?pre = "header_image p @ concat (map slot_image (slots p)) @ replicate (nat (free_space p)) 0"
  have hdr: "page_image p = ?b0 @ ?fo @ (?on @ replicate 8 0 @ ?rest)"
    by (simp add: page_image_def header_image_def)
  have pre: "int (length ?pre) = 4094 - int ?len" using wf(8,9) by simp
  have n: "get_item (page_image p) 1 = Inr (word_of_int (num_slots p))"
    unfolding hdr by (simp add: get_item_nonneg)
  have un: "uint (word_of_int (num_slots p) :: byte) = num_slots p"
    using wf(1,2) by (simp only: uint_of_int_byte) simp
  have fo: "slice (page_image p) 2 4 = ?fo"
    unfolding hdr by (rule slice_mid) simp_all
  have on: "slice (page_image p) 4 8 = ?on"
    using slice_mid [of 4 "?b0 @ ?fo" 8 ?on "replicate 8 0 @ ?rest"] unfolding hdr by simp
  have dl: "slice (page_image p) 4094 4096 = be_bytes 2 (int ?len)"
  proof -
    have "slice ((?pre @ data p) @ be_bytes 2 (int ?len) @ []) 4094 4096 = be_bytes 2 (int ?len)"
      by (rule slice_mid) (use pre in simp_all)
    then show ?thesis by (simp add: page_image_def)
  qed
  have d: "slice (page_image p) (4094 - int ?len) 4094 = data p"
  proof -
    have "slice (?pre @ data p @ be_bytes 2 (int ?len)) (4094 - int ?len) 4094 = data p"
      by (rule slice_mid) (use pre in simp_all)
    then show ?thesis by (simp add: page_image_def)
  qed
  have sl: "map (read_slot (page_image p)) (range_int (num_slots p)) = slots p"
    unfolding page_image_def wf(1) by (rule read_slots_image) (use wf(6) in simp_all)
  have vals: "be_int ?fo = free_offset p" "be_int ?on = overflow_next p"
    "be_int (be_bytes 2 (int ?len)) = int ?len"
    using wf(1-5,8) by (simp_all add: be_int_be_bytes)
  show ?thesis
    using assms n un fo on dl d sl vals wf(7) by (simp add: from_bytes_def Let_def length_page_image)
qed

section \<open>Refinement to a finite map of rows\<close>

text \<open>
  Abstractly a page is a map from slot ids to row bytes. The invariant says that
  every live slot lies inside the data area; it does not ask that the page still
  fits 4096 bytes, which the operations do not guarantee.
\<close>

definition slot_ok :: "int \<Rightarrow> slot \<Rightarrow> bool" where
  "slot_ok d s \<longleftrightarrow>
     tombstoned s \<or> 0 \<le> s_offset s \<and> 0 \<le> s_length s \<and> s_offset s + s_length s \<le> d"

definition page_ok :: "slotted_page \<Rightarrow> bool" where
  "page_ok p \<longleftrightarrow> num_slots p = py_len (slots p) \<and> list_all (slot_ok (py_len (data p))) (slots p)"

definition page_rows :: "slotted_page \<Rightarrow> int \<Rightarrow> byte list option" where
  "page_rows p sid = (case get_row p sid of Inl e \<Rightarrow> None | Inr r \<Rightarrow> r)"

definition slot_row :: "byte list \<Rightarrow> slot \<Rightarrow> byte list option" where
  "slot_row d s =
     (if tombstoned s then None else Some (slice d (s_offset s) (s_offset s + s_length s)))"

lemma get_row_ok:
  assumes "page_ok p"
  shows "get_row p sid =
    Inr (if 0 \<le> sid \<and> sid < num_slots p then slot_row (data p) (slots p ! nat sid) else None)"
  using assms
  by (auto simp: get_row_def page_ok_def slot_row_def get_item_nonneg slot_ok_def list_all_length
      dest!: spec [of _ "nat sid"])

lemma page_rows_ok:
  assumes "page_ok p"
  shows "page_rows p sid =
    (if 0 \<le> sid \<and> sid < num_slots p then slot_row (data p) (slots p ! nat sid) else None)"
  by (simp add: page_rows_def get_row_ok [OF assms])

lemma get_row_page_rows: "page_ok p \<Longrightarrow> get_row p sid = Inr (page_rows p sid)"
  by (simp add: get_row_ok page_rows_ok)

lemma slot_row_append:
  "slot_ok (py_len d) s \<Longrightarrow> slot_row (d @ r) s = slot_row d s"
  by (auto simp: slot_row_def slot_ok_def slice_nonneg nat_add_distrib)

lemma slot_ok_mono: "slot_ok d s \<Longrightarrow> d \<le> d' \<Longrightarrow> slot_ok d' s"
  by (auto simp: slot_ok_def)

definition tail_slot :: "byte list \<Rightarrow> byte list \<Rightarrow> slot" where
  "tail_slot d r = \<lparr>s_offset = py_len d, s_length = py_len r, s_flags = 0\<rparr>"

lemma slot_eta: "s\<lparr>s_offset := a, s_length := b, s_flags := c\<rparr> = \<lparr>s_offset = a, s_length = b, s_flags = c\<rparr>"
  by (cases s) simp

lemma append_into_data_simps:
  "append_into_data row p s =
     (p\<lparr>data := data p @ row, data_offset := data_offset p - py_len row\<rparr>, tail_slot (data p) row)"
  by (simp add: append_into_data_def tail_slot_def slot_eta)

lemma tail_slot_row [simp]:
  "slot_row (d @ r) (tail_slot d r) = Some r" "slot_ok (py_len (d @ r)) (tail_slot d r)"
  "\<not> tombstoned (tail_slot d r)"
  by (simp_all add: slot_row_def tail_slot_def tombstoned_def slot_ok_def slice_nonneg nat_add_distrib)

lemma find_reuse_Some:
  "find_reuse n i ss = Some j \<Longrightarrow>
   \<exists>k < length ss. j = i + int k \<and> tombstoned (ss ! k) \<and> n \<le> s_length (ss ! k)"
proof (induction n i ss rule: find_reuse.induct)
  case (1 n i)
  then show ?case by simp
next
  case (2 n i s ss)
  show ?case
  proof (cases "tombstoned s \<and> n \<le> s_length s")
    case True
    then show ?thesis using 2 by (auto intro: exI [of _ 0])
  next
    case False
    then obtain k where "k < length ss" "j = i + 1 + int k" "tombstoned (ss ! k)" "n \<le> s_length (ss ! k)"
      using 2 by auto
    then show ?thesis by (intro exI [of _ "Suc k"]) simp
  qed
qed

text \<open>A row is stored either in a reused slot or in a new one at the end of the directory.\<close>

lemma insert_row_cases:
  assumes "page_ok p" and "insert_row p row = Inr (i, p')"
  obtains (reuse) k where "i = int k" "k < length (slots p)" "tombstoned (slots p ! k)"
      "p' = p\<lparr>data := data p @ row, data_offset := data_offset p - py_len row,
              slots := (slots p)[k := tail_slot (data p) row]\<rparr>"
      "py_len row \<le> s_length (slots p ! k)" "py_len row \<le> MAX_INLINE_PAYLOAD"
    | (fresh) "i = num_slots p" "num_slots p < MAX_SLOTS" "py_len row \<le> free_space p"
      "p' = p\<lparr>data := data p @ row, data_offset := data_offset p - py_len row,
              slots := slots p @ [tail_slot (data p) row], num_slots := num_slots p + 1,
              free_offset := HEADER_SIZE + (num_slots p + 1) * SLOT_SIZE\<rparr>"
      "py_len row \<le> MAX_INLINE_PAYLOAD"
proof -
  have all: "slice_to (slots p) (num_slots p) = slots p"
    using assms(1) by (simp add: page_ok_def slice_to_nonneg)
  have small: "py_len row \<le> MAX_INLINE_PAYLOAD"
    using assms(2) by (auto simp: insert_row_def split: if_splits)
  show thesis
  proof (cases "find_reuse (py_len row) 0 (slots p)")
    case (Some j)
    then obtain k where "k < length (slots p)" "j = int k" "tombstoned (slots p ! k)"
        "py_len row \<le> s_length (slots p ! k)"
      using find_reuse_Some by fastforce
    then show thesis using reuse assms(2) Some small all
      by (auto simp: insert_row_def append_into_data_simps split: if_splits)
  next
    case None
    then show thesis using fresh assms(2) small all
      by (auto simp: insert_row_def append_into_data_simps split: if_splits)
  qed
qed

lemma insert_row_refines:
  assumes "page_ok p" and "insert_row p row = Inr (i, p')"
  shows "page_ok p'" and "page_rows p i = None" and "page_rows p' = (page_rows p)(i \<mapsto> row)"
proof -
  have n: "num_slots p = int (length (slots p))" using assms(1) by (simp add: page_ok_def)
  have oks: "slot_ok (int (length (data p))) (slots p ! k)" if "k < length (slots p)" for k
    using assms(1) that by (simp add: page_ok_def list_all_length)
  have oks': "slot_ok (int (length (data p @ row))) (slots p ! k)" if "k < length (slots p)" for k
    using slot_ok_mono [OF oks [OF that]] by simp
  have old: "slot_row (data p @ row) (slots p ! k) = slot_row (data p) (slots p ! k)"
    if "k < length (slots p)" for k
    using oks [OF that] by (simp add: slot_row_append)
  have "page_ok p' \<and> page_rows p i = None \<and> page_rows p' = (page_rows p)(i \<mapsto> row)"
    using assms
  proof (cases rule: insert_row_cases)
    case (reuse k)
    have ok': "page_ok p'"
      using n oks' tail_slot_row(2) [of "data p" row] reuse
      by (auto simp: page_ok_def list_all_length nth_list_update)
    moreover have "page_rows p i = None"
      using reuse assms(1) n by (simp add: page_rows_ok slot_row_def)
    moreover have "page_rows p' j = ((page_rows p)(i \<mapsto> row)) j" for j
      unfolding page_rows_ok [OF ok'] fun_upd_apply page_rows_ok [OF assms(1)]
      using reuse(1,2,4) n old by (auto simp: nth_list_update nat_eq_iff)
    ultimately show ?thesis by auto
  next
    case fresh
    have ok': "page_ok p'"
      using n oks' tail_slot_row(2) [of "data p" row] fresh
      by (auto simp: page_ok_def list_all_length nth_append less_Suc_eq)
    moreover have "page_rows p i = None"
      using fresh assms(1) n by (simp add: page_rows_ok)
    moreover have "page_rows p' j = ((page_rows p)(i \<mapsto> row)) j" for j
      unfolding page_rows_ok [OF ok'] fun_upd_apply page_rows_ok [OF assms(1)]
      using fresh(1,4) n old by (auto simp: nth_append)
    ultimately show ?thesis by auto
  qed
  then show "page_ok p'" "page_rows p i = None" "page_rows p' = (page_rows p)(i \<mapsto> row)"
    by auto
qed

lemma delete_row_refines:
  assumes "page_ok p" and "delete_row p sid = Inr p'"
  shows "page_ok p'" and "page_rows p' = (page_rows p)(sid := None)"
proof -
  have n: "num_slots p = int (length (slots p))" using assms(1) by (simp add: page_ok_def)
  have sid: "0 \<le> sid" "sid < num_slots p"
    using assms(2) by (auto simp: delete_row_def split: if_splits)
  let ?t = "(slots p ! nat sid)\<lparr>s_offset := TOMBSTONE_OFFSET, s_flags := FLAG_TOMBSTONE\<rparr>"
  have p': "p' = p\<lparr>slots := (slots p)[nat sid := ?t]\<rparr>"
    using assms(2) sid n by (auto simp: delete_row_def get_item_nonneg)
  have dead: "tombstoned ?t" by (simp add: tombstoned_def)
  have ok': "page_ok p'"
    using assms(1) dead by (auto simp: p' page_ok_def slot_ok_def intro: list_all_update)
  show "page_ok p'" by (rule ok')
  have "page_rows p' j = ((page_rows p)(sid := None)) j" for j
    unfolding page_rows_ok [OF ok'] fun_upd_apply page_rows_ok [OF assms(1)]
    using sid n dead by (auto simp: p' nth_list_update nat_eq_iff slot_row_def)
  then show "page_rows p' = (page_rows p)(sid := None)" by auto
qed

lemma update_row_refines:
  assumes "page_ok p" and "update_row p sid row = Inr p'"
  shows "page_ok p'" and "page_rows p sid \<noteq> None" and "page_rows p' = (page_rows p)(sid \<mapsto> row)"
proof -
  have n: "num_slots p = int (length (slots p))" using assms(1) by (simp add: page_ok_def)
  have sid: "0 \<le> sid" "sid < num_slots p"
    using assms(2) by (auto simp: update_row_def split: if_splits)
  have live: "\<not> tombstoned (slots p ! nat sid)"
    using assms(2) sid n by (auto simp: update_row_def get_item_nonneg split: if_splits)
  have p': "p' = p\<lparr>data := data p @ row, data_offset := data_offset p - py_len row,
      slots := (slots p)[nat sid := tail_slot (data p) row]\<rparr>"
    using assms(2) sid n
    by (auto simp: update_row_def get_item_nonneg append_into_data_simps split: if_splits)
  have oks: "slot_ok (int (length (data p))) (slots p ! k)" if "k < length (slots p)" for k
    using assms(1) that by (simp add: page_ok_def list_all_length)
  have oks': "slot_ok (int (length (data p @ row))) (slots p ! k)" if "k < length (slots p)" for k
    using slot_ok_mono [OF oks [OF that]] by simp
  have old: "slot_row (data p @ row) (slots p ! k) = slot_row (data p) (slots p ! k)"
    if "k < length (slots p)" for k
    using oks [OF that] by (simp add: slot_row_append)
  have "list_all (slot_ok (int (length (data p @ row)))) (slots p)"
    using oks' by (simp add: list_all_length)
  then have ok': "page_ok p'"
    using n tail_slot_row(2) [of "data p" row] by (simp add: p' page_ok_def list_all_update)
  show "page_ok p'" by (rule ok')
  show "page_rows p sid \<noteq> None"
    using sid live by (simp add: page_rows_ok [OF assms(1)] slot_row_def)
  have "page_rows p' j = ((page_rows p)(sid \<mapsto> row)) j" for j
    unfolding page_rows_ok [OF ok'] fun_upd_apply page_rows_ok [OF assms(1)]
    using sid n old by (auto simp: p' nth_list_update nat_eq_iff)
  then show "page_rows p' = (page_rows p)(sid \<mapsto> row)" by auto
qed

section \<open>The row store interface\<close>

text \<open>
  What the executor relies on when it calls a page: a store of rows under slot
  ids the store chooses. A failing operation leaves the store as it was (every
  \<open>raise\<close> of the four methods precedes the first assignment), so a run of
  operations is a run of the successful ones, and its effect is their log.
\<close>

datatype 'v row_op = InsertOp 'v | UpdateOp int 'v | DeleteOp int

definition row_step ::
  "('s \<Rightarrow> 'v \<Rightarrow> (int \<times> 's) res) \<Rightarrow> ('s \<Rightarrow> int \<Rightarrow> 'v \<Rightarrow> 's res) \<Rightarrow> ('s \<Rightarrow> int \<Rightarrow> 's res) \<Rightarrow>
   's \<Rightarrow> 'v row_op \<Rightarrow> (int \<times> 'v option) list \<times> 's" where
  "row_step ins upd del s op =
     (case op of
        InsertOp v \<Rightarrow> (case ins s v of Inl e \<Rightarrow> ([], s) | Inr (i, s') \<Rightarrow> ([(i, Some v)], s'))
      | UpdateOp i v \<Rightarrow> (case upd s i v of Inl e \<Rightarrow> ([], s) | Inr s' \<Rightarrow> ([(i, Some v)], s'))
      | DeleteOp i \<Rightarrow> (case del s i of Inl e \<Rightarrow> ([], s) | Inr s' \<Rightarrow> ([(i, None)], s')))"

fun row_run ::
  "('s \<Rightarrow> 'v \<Rightarrow> (int \<times> 's) res) \<Rightarrow> ('s \<Rightarrow> int \<Rightarrow> 'v \<Rightarrow> 's res) \<Rightarrow> ('s \<Rightarrow> int \<Rightarrow> 's res) \<Rightarrow>
   's \<Rightarrow> 'v row_op list \<Rightarrow> (int \<times> 'v option) list \<times> 's" where
  "row_run ins upd del s [] = ([], s)"
| "row_run ins upd del s (op # ops) =
     (let (l, s') = row_step ins upd del s op; (l', s'') = row_run ins upd del s' ops in (l @ l', s''))"

definition apply_log :: "(int \<times> 'v option) list \<Rightarrow> (int \<Rightarrow> 'v option) \<Rightarrow> int \<Rightarrow> 'v option" where
  "apply_log l m = fold (\<lambda>(i, v) m. m(i := v)) l m"

lemma apply_log_simps [simp]:
  "apply_log [] m = m" "apply_log ((i, v) # l) m = apply_log l (m(i := v))"
  "apply_log (l @ l') m = apply_log l' (apply_log l m)"
  by (simp_all add: apply_log_def)

locale row_store =
  fixes ins :: "'s \<Rightarrow> 'v \<Rightarrow> (int \<times> 's) res"
    and upd :: "'s \<Rightarrow> int \<Rightarrow> 'v \<Rightarrow> 's res"
    and del :: "'s \<Rightarrow> int \<Rightarrow> 's res"
    and get :: "'s \<Rightarrow> int \<Rightarrow> 'v option res"
    and inv :: "'s \<Rightarrow> bool"
    and abs :: "'s \<Rightarrow> int \<Rightarrow> 'v option"
  assumes get_abs: "inv s \<Longrightarrow> get s i = Inr (abs s i)"
    and ins_law: "inv s \<Longrightarrow> ins s v = Inr (i, s') \<Longrightarrow> inv s' \<and> abs s i = None \<and> abs s' = (abs s)(i \<mapsto> v)"
    and upd_law: "inv s \<Longrightarrow> upd s i v = Inr s' \<Longrightarrow> inv s' \<and> abs s i \<noteq> None \<and> abs s' = (abs s)(i \<mapsto> v)"
    and del_law: "inv s \<Longrightarrow> del s i = Inr s' \<Longrightarrow> inv s' \<and> abs s' = (abs s)(i := None)"
begin

lemma step_abs:
  assumes "inv s" and "row_step ins upd del s op = (l, s')"
  shows "inv s'" and "abs s' = apply_log l (abs s)"
proof -
  have "inv s' \<and> abs s' = apply_log l (abs s)"
  proof (cases op)
    case (InsertOp v)
    then show ?thesis using assms ins_law [OF assms(1), of v]
      by (cases "ins s v") (auto simp: row_step_def)
  next
    case (UpdateOp i v)
    then show ?thesis using assms upd_law [OF assms(1), of i v]
      by (cases "upd s i v") (auto simp: row_step_def)
  next
    case (DeleteOp i)
    then show ?thesis using assms del_law [OF assms(1), of i]
      by (cases "del s i") (auto simp: row_step_def)
  qed
  then show "inv s'" and "abs s' = apply_log l (abs s)" by simp_all
qed

lemma run_abs:
  "inv s \<Longrightarrow> row_run ins upd del s ops = (l, s') \<Longrightarrow> inv s' \<and> abs s' = apply_log l (abs s)"
proof (induction ops arbitrary: s l s')
  case Nil
  then show ?case by simp
next
  case (Cons op ops)
  obtain l1 s1 where 1: "row_step ins upd del s op = (l1, s1)" by force
  obtain l2 s2 where 2: "row_run ins upd del s1 ops = (l2, s2)" by force
  have eq: "l = l1 @ l2" "s' = s2" using Cons.prems(2) 1 2 by simp_all
  show ?case using Cons.IH [OF step_abs(1) [OF Cons.prems(1) 1] 2] step_abs(2) [OF Cons.prems(1) 1]
    by (simp add: eq)
qed

lemma run_get:
  assumes "inv s" and "row_run ins upd del s ops = (l, s')"
  shows "get s' i = Inr (apply_log l (abs s) i)"
  using run_abs [OF assms] get_abs by simp

end

interpretation page_store: row_store insert_row update_row delete_row get_row page_ok page_rows
proof unfold_locales
  fix s :: slotted_page and s' i v
  show "page_ok s \<Longrightarrow> get_row s i = Inr (page_rows s i)"
    by (rule get_row_page_rows)
  show "page_ok s \<Longrightarrow> insert_row s v = Inr (i, s') \<Longrightarrow>
      page_ok s' \<and> page_rows s i = None \<and> page_rows s' = (page_rows s)(i \<mapsto> v)"
    using insert_row_refines [of s v i s'] by simp
  show "page_ok s \<Longrightarrow> update_row s i v = Inr s' \<Longrightarrow>
      page_ok s' \<and> page_rows s i \<noteq> None \<and> page_rows s' = (page_rows s)(i \<mapsto> v)"
    using update_row_refines [of s i v s'] by simp
  show "page_ok s \<Longrightarrow> delete_row s i = Inr s' \<Longrightarrow>
      page_ok s' \<and> page_rows s' = (page_rows s)(i := None)"
    using delete_row_refines [of s i s'] by simp
qed

lemma page_ok_empty: "page_ok (empty_page pid)" "page_rows (empty_page pid) = (\<lambda>_. None)"
  by (simp add: page_ok_def empty_page_def)
    (rule ext, auto simp: page_rows_ok page_ok_def empty_page_def)

section \<open>When a stored row survives the page image\<close>

lemma insert_row_wf:
  assumes "page_wf p" and "page_ok p" and "insert_row p row = Inr (i, p')"
    and "py_len row + (if i = num_slots p then SLOT_SIZE else 0) \<le> free_space p"
  shows "page_wf p'"
proof -
  note wf = page_wf_simps [OF assms(1)]
  have fit: "slot_fits (tail_slot (data p) row)" if "py_len row \<le> MAX_INLINE_PAYLOAD"
    using that wf(8) by (simp add: tail_slot_def slot_fits_def)
  from assms(2,3) show ?thesis
  proof (cases rule: insert_row_cases)
    case (reuse k)
    then show ?thesis using assms(1,4) fit
      by (simp add: page_wf_def free_space_def Let_def list_all_update)
  next
    case fresh
    then show ?thesis using assms(1,4) fit
      by (simp add: page_wf_def free_space_def Let_def)
  qed
qed

text \<open>
  The check of \<open>insert\<close> compares the row with the free space alone, and the six
  bytes of a fresh directory entry are not in it. On an empty page a row of 4078
  bytes passes the check; its data area then starts where the directory entry
  was written, and the image keeps the row's first six bytes as the entry.
\<close>

definition full_page :: "int \<Rightarrow> byte list \<Rightarrow> slotted_page" where
  "full_page pid row =
     \<lparr>page_id = pid, num_slots = 1, free_offset = 22, overflow_next = NULL_PAGE_ID,
      slots = [\<lparr>s_offset = 0, s_length = 4078, s_flags = 0\<rparr>], data = row, data_offset = 16\<rparr>"

lemma insert_full_row:
  "length row = 4078 \<Longrightarrow> insert_row (empty_page pid) row = Inr (0, full_page pid row)"
  by (simp add: insert_row_def empty_page_def slice_to_nonneg free_space_def append_into_data_def
      full_page_def Let_def)

lemma to_bytes_full_page:
  assumes "length row = 4078"
  shows "to_bytes (full_page pid row)
    = Inr (header_image (full_page pid row) @ row @ be_bytes 2 4078)"
proof -
  let ?p = "full_page pid row" and ?hdr = "header_image (full_page pid row)"
  let ?s = "\<lparr>s_offset = 0, s_length = 4078, s_flags = 0\<rparr>"
  have "write_slot (?hdr @ replicate 4080 0) 0 ?s = Inr (?hdr @ slot_image ?s @ replicate (4080 - 6) 0)"
    by (rule write_slot_image) (simp_all add: slot_fits_def)
  then have dir: "foldE (\<lambda>buf i. bindE (get_item (slots ?p) i) (write_slot buf i))
      (?hdr @ replicate 4080 0) (range_int (num_slots ?p)) = Inr (?hdr @ slot_image ?s @ replicate 4074 0)"
    by (simp add: full_page_def range_int_def get_item_nonneg)
  have "replicate 4074 (0::byte) = replicate 4072 0 @ replicate 2 0"
    by (simp flip: replicate_add)
  then have mid: "?hdr @ slot_image ?s @ replicate 4074 0
      = ?hdr @ (slot_image ?s @ replicate 4072 0) @ replicate 2 0" by simp
  have "set_slice (?hdr @ (slot_image ?s @ replicate 4072 0) @ replicate 2 0) 16 4094 row
      = ?hdr @ row @ replicate 2 0"
    by (rule set_slice_mid) simp_all
  moreover have "set_slice ((?hdr @ row) @ replicate 2 0 @ []) 4094 4096 (be_bytes 2 4078)
      = (?hdr @ row) @ be_bytes 2 4078 @ []"
    by (rule set_slice_mid) (use assms in simp_all)
  moreover have "data ?p = row" by (simp add: full_page_def)
  ultimately show ?thesis
    using to_bytes_steps [OF _ _ _ _ _ _ _ dir] assms mid by (simp add: full_page_def)
qed

lemma from_bytes_full_page:
  assumes "length row = 4078"
  shows "from_bytes pid (header_image (full_page pid row) @ row @ be_bytes 2 4078)
    = Inr ((full_page pid row)\<lparr>slots := [\<lparr>s_offset = be_int (take 2 row),
        s_length = be_int (take 2 (drop 2 row)), s_flags = be_int (take 2 (drop 4 row))\<rparr>]\<rparr>)"
proof -
  let ?p = "full_page pid row" and ?hdr = "header_image (full_page pid row)"
  let ?fo = "be_bytes 2 22" and ?on = "be_bytes 4 4294967295"
  have hdr: "?hdr = [1, 1] @ ?fo @ ?on @ replicate 8 0"
    by (simp add: header_image_def full_page_def)
  let ?rest = "row @ be_bytes 2 4078"
  have fo: "slice (?hdr @ ?rest) 2 4 = ?fo"
    using slice_mid [of 2 "[1, 1]" 4 ?fo "?on @ replicate 8 0 @ ?rest"] by (simp add: hdr)
  have on: "slice (?hdr @ ?rest) 4 8 = ?on"
    using slice_mid [of 4 "[1, 1] @ ?fo" 8 ?on "replicate 8 0 @ ?rest"] by (simp add: hdr)
  have dl: "slice (?hdr @ ?rest) 4094 4096 = be_bytes 2 4078"
    using slice_mid [of 4094 "?hdr @ row" 4096 "be_bytes 2 4078" "[]"] assms by simp
  have d: "slice (?hdr @ ?rest) 16 4094 = row"
    by (rule slice_mid) (use assms in simp_all)
  have n: "get_item (?hdr @ ?rest) 1 = Inr 1" by (simp add: hdr get_item_nonneg)
  have sl: "read_slot (?hdr @ ?rest) 0 = \<lparr>s_offset = be_int (take 2 row),
        s_length = be_int (take 2 (drop 2 row)), s_flags = be_int (take 2 (drop 4 row))\<rparr>"
    using assms by (simp add: read_slot_def slice_nonneg Let_def)
  show ?thesis
    using assms fo on dl d n sl
    by (simp add: from_bytes_def Let_def be_int_be_bytes range_int_def full_page_def)
qed

section \<open>Properties\<close>

text \<open>
  C17. A well-formed page serialises to exactly 4096 bytes, and reading that image back
  under the same page id gives the same page.
\<close>

theorem page_image_roundtrip:
  assumes "page_wf p"
  shows "\<exists>raw. to_bytes p = Inr raw \<and> length raw = 4096 \<and> from_bytes (page_id p) raw = Inr p"
  using assms to_bytes_image from_bytes_image length_page_image by blast

lemma page_image_roundtrip_witness:
  "\<exists>raw. to_bytes (empty_page 7) = Inr raw \<and> length raw = 4096 \<and> from_bytes 7 raw = Inr (empty_page 7)"
  using page_image_roundtrip [of "empty_page 7"]
  by (simp add: page_wf_def empty_page_def free_space_def)

text \<open>
  C16. Any run of insert, update and delete calls on a fresh page, whatever slots are reused and
  whichever calls fail, leaves \<open>get\<close> answering for every slot id exactly what the log of the
  successful calls says: the last row written there, or nothing.
\<close>

theorem page_run_get:
  assumes "row_run insert_row update_row delete_row (empty_page pid) ops = (log, p')"
  shows "get_row p' sid = Inr (apply_log log (\<lambda>_. None) sid)"
  using page_store.run_get [OF page_ok_empty(1) assms] page_ok_empty(2) by simp

lemma page_run_get_witness:
  "get_row (snd (row_run insert_row update_row delete_row (empty_page 3)
     [InsertOp [1, 2], DeleteOp 0, InsertOp [9]])) 0 = Inr (Some [9])"
proof -
  have "row_run insert_row update_row delete_row (empty_page 3) [InsertOp [1, 2], DeleteOp 0, InsertOp [9]]
    = ([(0, Some [1, 2]), (0, None), (0, Some [9])], snd (row_run insert_row update_row delete_row
        (empty_page 3) [InsertOp [1, 2], DeleteOp 0, InsertOp [9]]))"
    by (simp add: row_step_def insert_row_def delete_row_def empty_page_def slice_to_nonneg
      free_space_def append_into_data_def tombstoned_def get_item_nonneg Let_def)
  from page_run_get [OF this, of 0] show ?thesis by simp
qed

text \<open>
  C28. An insert that leaves room for the row and, when it takes a fresh slot, for the six bytes of
  the directory entry keeps the page well formed, and the stored row is still there after the
  page has been written out and read back.
\<close>

theorem insert_row_durable:
  assumes "page_wf p" and "page_ok p" and "insert_row p row = Inr (i, p')"
    and "py_len row + (if i = num_slots p then SLOT_SIZE else 0) \<le> free_space p"
  shows "page_wf p' \<and> (\<exists>raw. to_bytes p' = Inr raw \<and>
    (\<exists>q. from_bytes (page_id p') raw = Inr q \<and> get_row q i = Inr (Some row)))"
proof -
  have wf: "page_wf p'" using insert_row_wf [OF assms] .
  have "get_row p' i = Inr (Some row)"
    using insert_row_refines [OF assms(2,3)] get_row_page_rows by simp
  then show ?thesis using wf to_bytes_image [OF wf] from_bytes_image [OF wf] by blast
qed

lemma insert_row_durable_witness:
  "\<exists>p' raw q. to_bytes p' = Inr raw \<and> from_bytes 4 raw = Inr q \<and> get_row q 0 = Inr (Some [5, 6])"
proof -
  obtain p' where ins: "insert_row (empty_page 4) [5, 6] = Inr (0, p')" and pid: "page_id p' = 4"
    by (simp add: insert_row_def empty_page_def slice_to_nonneg free_space_def append_into_data_def Let_def)
  have "page_wf (empty_page 4)" "page_ok (empty_page 4)"
    by (simp_all add: page_wf_def empty_page_def free_space_def page_ok_def)
  from insert_row_durable [OF this ins] pid show ?thesis
    by (auto simp: empty_page_def free_space_def)
qed

text \<open>
  The room for the directory entry is not checked: on an empty page \<open>insert\<close> accepts a row of
  4078 bytes and \<open>get\<close> returns it, but the page image puts the row over the directory entry, so
  after the page is written out and read back a row with an odd sixth byte is gone.
\<close>

theorem insert_full_row_lost:
  assumes "length row = 4078" and "odd (uint (row ! 5))"
  shows "\<exists>p' raw q. insert_row (empty_page pid) row = Inr (0, p') \<and> get_row p' 0 = Inr (Some row) \<and>
    to_bytes p' = Inr raw \<and> length raw = 4096 \<and> from_bytes pid raw = Inr q \<and> get_row q 0 = Inr None"
proof -
  let ?p = "full_page pid row"
  let ?raw = "header_image ?p @ row @ be_bytes 2 4078"
  let ?s = "\<lparr>s_offset = be_int (take 2 row), s_length = be_int (take 2 (drop 2 row)),
    s_flags = be_int (take 2 (drop 4 row))\<rparr>"
  have "take 2 (drop 4 row) = [row ! 4] @ [row ! 5]"
    using assms(1) by (simp add: take_Suc_conv_app_nth numeral_2_eq_2)
  then have "odd (s_flags ?s)"
    using assms(2) by (simp only: be_int_snoc slot.simps) simp
  then have dead: "tombstoned ?s"
    by (simp add: tombstoned_def and_one_eq odd_iff_mod_2_eq_one)
  have "get_row (?p\<lparr>slots := [?s]\<rparr>) 0 = Inr None"
    using dead by (simp add: get_row_def get_item_nonneg full_page_def)
  moreover have "get_row ?p 0 = Inr (Some row)"
    using assms(1)
    by (simp add: get_row_def get_item_nonneg full_page_def tombstoned_def slice_nonneg)
  ultimately show ?thesis
    using insert_full_row [OF assms(1)] to_bytes_full_page [OF assms(1)]
      from_bytes_full_page [OF assms(1)] assms(1) by auto
qed

lemma insert_full_row_lost_witness:
  "\<exists>p' raw q. insert_row (empty_page 2) (replicate 4078 7) = Inr (0, p') \<and>
    to_bytes p' = Inr raw \<and> from_bytes 2 raw = Inr q \<and> get_row q 0 = Inr None"
proof -
  have "odd (uint (replicate 4078 (7::byte) ! 5))"
    by (subst nth_replicate) simp_all
  then show ?thesis using insert_full_row_lost [of "replicate 4078 7" 2] by auto
qed

end
