(* ===== verification/Wal.thy ===== *)
theory Wal
  imports Py_Bytes
begin

text \<open>
  \<open>src/tinydb/wal.py\<close>: the write-ahead log. The state of the class \<open>Wal\<close> is its
  byte buffer (the contents of the file, or the \<open>bytearray\<close> of the in-memory
  mode); \<open>wal_open\<close> is the constructor, \<open>wal_append\<close>, \<open>iter_records\<close> and
  \<open>truncate_before\<close> the methods. The generator \<open>iter_records\<close> is the list it
  yields together with the exception that ends it. \<open>crc32\<close> is \<open>zlib.crc32\<close>,
  computed bit by bit. Lemmas: the buffer represents a list of records, appends
  and truncation act on that list, a torn append is reported at its offset
  with every earlier record intact, and a change of one byte is detected.
\<close>

definition WAL_HEADER_SIZE :: int where [simp]: "WAL_HEADER_SIZE = 16"
definition HEADER_MAGIC :: "byte list" where "HEADER_MAGIC = [84, 73, 78, 89, 87, 65, 76, 0]"
definition HEADER_SCHEMA :: byte where "HEADER_SCHEMA = 1"
definition K_BEGIN :: int where [simp]: "K_BEGIN = 0"
definition K_PAGE_WRITE :: int where [simp]: "K_PAGE_WRITE = 1"
definition K_COMMIT :: int where [simp]: "K_COMMIT = 2"
definition K_ROLLBACK :: int where [simp]: "K_ROLLBACK = 3"
definition K_CHECKPOINT :: int where [simp]: "K_CHECKPOINT = 4"
definition RECORD_HDR_SIZE :: int where [simp]: "RECORD_HDR_SIZE = 17"
definition CRC_SIZE :: int where [simp]: "CRC_SIZE = 4"

section \<open>CRC32\<close>

definition crc_shift :: "32 word \<Rightarrow> 32 word" where
  "crc_shift c = (if bit c 0 then drop_bit 1 c XOR 0xEDB88320 else drop_bit 1 c)"

definition crc_byte :: "32 word \<Rightarrow> byte \<Rightarrow> 32 word" where
  "crc_byte c b = (crc_shift ^^ 8) (c XOR ucast b)"

definition crc32 :: "byte list \<Rightarrow> int" where
  "crc32 bs = uint (NOT (foldl crc_byte (NOT 0) bs))"

section \<open>The log\<close>

record wal_rec =
  r_txn :: int
  r_kind :: int
  r_page :: int
  r_data :: "byte list"

definition make_header :: "byte list" where
  "make_header = HEADER_MAGIC @ [HEADER_SCHEMA] @ replicate 7 0"

text \<open>
  The constructor: a new or empty file gets a header, an existing one must start
  with it. The message of \<open>InvalidWalFile\<close> reads \<open>hdr[8]\<close>, which raises
  \<open>IndexError\<close> when one to eight bytes are there.
\<close>

definition wal_open :: "byte list option \<Rightarrow> byte list res" where
  "wal_open f =
     (case f of
        None \<Rightarrow> Inr make_header
      | Some buf \<Rightarrow>
          if buf = [] then Inr make_header
          else
            let hdr = take 16 buf in
            if py_len hdr \<noteq> WAL_HEADER_SIZE \<or> take 8 hdr \<noteq> HEADER_MAGIC \<or> hdr ! 8 \<noteq> HEADER_SCHEMA
            then (if length hdr \<le> 8 then Inl IndexError else Inl InvalidWalFile)
            else Inr buf)"

definition encode_record :: "int \<Rightarrow> int \<Rightarrow> int \<Rightarrow> byte list \<Rightarrow> byte list res" where
  "encode_record txn_id kind pid d =
     bindE (pack_u 8 txn_id) (\<lambda>t. bindE (pack_u 1 kind) (\<lambda>k.
     bindE (pack_u 4 pid) (\<lambda>p. bindE (pack_u 4 (py_len d)) (\<lambda>n.
     let body = t @ k @ p @ n @ d in
     bindE (pack_u 4 (crc32 body)) (\<lambda>c. Inr (body @ c))))))"

definition wal_append :: "byte list \<Rightarrow> int \<Rightarrow> int \<Rightarrow> int \<Rightarrow> byte list \<Rightarrow> byte list res" where
  "wal_append buf txn_id kind pid d =
     bindE (encode_record txn_id kind pid d) (\<lambda>rec. Inr (buf @ rec))"

function iter_from :: "byte list \<Rightarrow> int \<Rightarrow> wal_rec list \<times> py_error option" where
  "iter_from buf pos =
     (if pos < py_len buf then
        if py_len buf - pos < RECORD_HDR_SIZE + CRC_SIZE then ([], Some (WalCorruption (nat pos)))
        else
          let header = slice buf pos (pos + RECORD_HDR_SIZE);
              data_len = be_int (slice header 13 17);
              payload_end = pos + RECORD_HDR_SIZE + data_len in
          if payload_end + CRC_SIZE > py_len buf then ([], Some (WalCorruption (nat pos)))
          else
            let body = slice buf pos payload_end;
                crc_stored = be_int (slice buf payload_end (payload_end + CRC_SIZE)) in
            if crc_stored \<noteq> crc32 body then ([], Some (WalCorruption (nat pos)))
            else
              let (rs, e) = iter_from buf (payload_end + CRC_SIZE) in
              (\<lparr>r_txn = be_int (slice header 0 8), r_kind = be_int (slice header 8 9),
                r_page = be_int (slice header 9 13), r_data = slice_from body RECORD_HDR_SIZE\<rparr> # rs, e)
      else ([], None))"
  by pat_completeness auto
termination
proof (relation "measure (\<lambda>(buf, pos). nat (int (length buf) - pos))", goal_cases)
  case (2 buf pos header data_len payload_end body crc_stored)
  then show ?case using be_int_nonneg [of "slice header 13 17"]
    by (simp only: in_measure prod.case RECORD_HDR_SIZE_def CRC_SIZE_def py_len_def)
qed simp

declare iter_from.simps [simp del]

definition iter_records :: "byte list \<Rightarrow> wal_rec list \<times> py_error option" where
  "iter_records buf = iter_from buf WAL_HEADER_SIZE"

definition truncate_before :: "byte list \<Rightarrow> int \<Rightarrow> byte list res" where
  "truncate_before buf txn_id =
     (case iter_records buf of
        (_, Some e) \<Rightarrow> Inl e
      | (rs, None) \<Rightarrow>
          foldE (\<lambda>new r. bindE (encode_record (r_txn r) (r_kind r) (r_page r) (r_data r))
                   (\<lambda>b. Inr (new @ b)))
                make_header (filter (\<lambda>r. txn_id \<le> r_txn r) rs))"

section \<open>The buffer as a list of records\<close>

definition rec_ok :: "wal_rec \<Rightarrow> bool" where
  "rec_ok r \<longleftrightarrow> 0 \<le> r_txn r \<and> r_txn r < 256 ^ 8 \<and> 0 \<le> r_kind r \<and> r_kind r < 256 \<and>
     0 \<le> r_page r \<and> r_page r < 256 ^ 4 \<and> py_len (r_data r) < 256 ^ 4"

definition rec_head :: "wal_rec \<Rightarrow> byte list" where
  "rec_head r = be_bytes 8 (r_txn r) @ be_bytes 1 (r_kind r) @ be_bytes 4 (r_page r) @
     be_bytes 4 (py_len (r_data r))"

definition rec_bytes :: "wal_rec \<Rightarrow> byte list" where
  "rec_bytes r = rec_head r @ r_data r @ be_bytes 4 (crc32 (rec_head r @ r_data r))"

definition wal_image :: "wal_rec list \<Rightarrow> byte list" where
  "wal_image rs = make_header @ concat (map rec_bytes rs)"

lemma length_rec [simp, byte_simps]:
  "length (rec_head r) = 17" "length (rec_bytes r) = length (r_data r) + 21"
  by (simp_all add: rec_head_def rec_bytes_def)

lemma length_make_header [simp, byte_simps]: "length make_header = 16"
  by (simp add: make_header_def HEADER_MAGIC_def)

lemma crc32_bounds: "0 \<le> crc32 bs" "crc32 bs < 256 ^ 4"
  using uint_lt2p [of "NOT (foldl crc_byte (NOT 0) bs)"] by (simp_all add: crc32_def)

lemma encode_record_ok:
  "encode_record (r_txn r) (r_kind r) (r_page r) (r_data r) = Inr (rec_bytes r)" if "rec_ok r"
  using that crc32_bounds [of "rec_head r @ r_data r"]
  by (simp add: encode_record_def rec_ok_def pack_u_def rec_bytes_def rec_head_def)

lemma encode_record_Inr:
  assumes "encode_record t k p d = Inr bs"
  shows "rec_ok \<lparr>r_txn = t, r_kind = k, r_page = p, r_data = d\<rparr>"
    and "bs = rec_bytes \<lparr>r_txn = t, r_kind = k, r_page = p, r_data = d\<rparr>"
  using assms
  by (auto simp: encode_record_def rec_ok_def pack_u_def rec_bytes_def rec_head_def Let_def
      split: if_splits)

text \<open>The header of a record inside a buffer, and the two cuts of its body.\<close>

lemma rec_header_fields:
  assumes "rec_ok r"
  shows "be_int (slice (rec_head r) 0 8) = r_txn r" "be_int (slice (rec_head r) 8 9) = r_kind r"
    "be_int (slice (rec_head r) 9 13) = r_page r"
    "be_int (slice (rec_head r) 13 17) = int (length (r_data r))"
proof -
  let ?t = "be_bytes 8 (r_txn r)" and ?k = "be_bytes 1 (r_kind r)" and ?p = "be_bytes 4 (r_page r)"
    and ?n = "be_bytes 4 (int (length (r_data r)))"
  have "slice ([] @ ?t @ (?k @ ?p @ ?n)) 0 8 = ?t" by (rule slice_mid) simp_all
  moreover have "slice (?t @ ?k @ (?p @ ?n)) 8 9 = ?k" by (rule slice_mid) simp_all
  moreover have "slice ((?t @ ?k) @ ?p @ ?n) 9 13 = ?p" by (rule slice_mid) simp_all
  moreover have "slice ((?t @ ?k @ ?p) @ ?n @ []) 13 17 = ?n" by (rule slice_mid) simp_all
  ultimately show "be_int (slice (rec_head r) 0 8) = r_txn r" "be_int (slice (rec_head r) 8 9) = r_kind r"
    "be_int (slice (rec_head r) 9 13) = r_page r"
    "be_int (slice (rec_head r) 13 17) = int (length (r_data r))"
    using assms by (simp_all add: rec_head_def rec_ok_def be_int_be_bytes del: One_nat_def be_bytes.simps)
qed

lemma iter_from_step:
  assumes "pos + 21 \<le> py_len buf" and "slice buf pos (pos + 17) = h"
    and "be_int (slice h 13 17) = n" and "pos + 17 + n + 4 \<le> py_len buf"
    and "slice buf pos (pos + 17 + n) = body"
    and "be_int (slice buf (pos + 17 + n) (pos + 17 + n + 4)) = c"
  shows "iter_from buf pos =
    (if c \<noteq> crc32 body then ([], Some (WalCorruption (nat pos)))
     else let (rs, e) = iter_from buf (pos + 17 + n + 4) in
       (\<lparr>r_txn = be_int (slice h 0 8), r_kind = be_int (slice h 8 9),
         r_page = be_int (slice h 9 13), r_data = slice_from body 17\<rparr> # rs, e))"
  unfolding iter_from.simps [of buf pos] Let_def RECORD_HDR_SIZE_def CRC_SIZE_def assms(2,3,5,6)
  using assms(1,4) by simp

lemma iter_from_rec:
  assumes "rec_ok r" and "pos = int (length pre)"
  shows "iter_from (pre @ rec_bytes r @ post) pos =
    (let (rs, e) = iter_from (pre @ rec_bytes r @ post) (pos + int (length (rec_bytes r)))
     in (r # rs, e))"
proof -
  let ?buf = "pre @ rec_bytes r @ post" and ?body = "rec_head r @ r_data r"
  let ?c = "be_bytes 4 (crc32 ?body)" and ?fin = "pos + 17 + int (length (r_data r))"
  have h: "slice ?buf pos (pos + 17) = rec_head r"
    using slice_mid [of pos pre "pos + 17" "rec_head r" "r_data r @ ?c @ post"] assms(2)
    by (simp add: rec_bytes_def)
  have b: "slice ?buf pos ?fin = ?body"
    using slice_mid [of pos pre ?fin ?body "?c @ post"] assms(2) by (simp add: rec_bytes_def)
  have c: "slice ?buf ?fin (?fin + 4) = ?c"
    using slice_mid [of ?fin "pre @ ?body" "?fin + 4" ?c post] assms(2) by (simp add: rec_bytes_def)
  have len: "int (length ?buf) = ?fin + 4 + int (length post)"
    using assms(2) by simp
  have crc: "be_int (slice ?buf ?fin (?fin + 4)) = crc32 ?body"
    unfolding c using crc32_bounds by (simp add: be_int_be_bytes)
  have d: "slice_from ?body 17 = r_data r" by (simp add: slice_from_nonneg)
  have "\<lparr>r_txn = be_int (slice (rec_head r) 0 8), r_kind = be_int (slice (rec_head r) 8 9),
    r_page = be_int (slice (rec_head r) 9 13), r_data = slice_from ?body 17\<rparr> = r"
    unfolding rec_header_fields [OF assms(1)] d by simp
  moreover have "pos + 17 + int (length (r_data r)) + 4 = pos + int (length (rec_bytes r))" by simp
  moreover have "iter_from ?buf pos =
    (if crc32 ?body \<noteq> crc32 ?body then ([], Some (WalCorruption (nat pos)))
     else let (rs, e) = iter_from ?buf (?fin + 4) in
       (\<lparr>r_txn = be_int (slice (rec_head r) 0 8), r_kind = be_int (slice (rec_head r) 8 9),
         r_page = be_int (slice (rec_head r) 9 13), r_data = slice_from ?body 17\<rparr> # rs, e))"
    by (rule iter_from_step [OF _ h rec_header_fields(4) [OF assms(1)] _ b crc])
      (use len in simp_all)
  ultimately show ?thesis by (simp only: refl simp_thms if_False)
qed

lemma iter_from_recs:
  assumes "list_all rec_ok rs"
  shows "iter_from (pre @ concat (map rec_bytes rs) @ post) (int (length pre)) =
    (let (rs', e) = iter_from (pre @ concat (map rec_bytes rs) @ post)
                      (int (length (pre @ concat (map rec_bytes rs))))
     in (rs @ rs', e))"
  using assms
proof (induction rs arbitrary: pre)
  case Nil
  then show ?case by (simp add: case_prod_beta)
next
  case (Cons r rs)
  have "iter_from (pre @ rec_bytes r @ (concat (map rec_bytes rs) @ post)) (int (length pre)) =
    (let (rs', e) = iter_from (pre @ rec_bytes r @ (concat (map rec_bytes rs) @ post))
        (int (length pre) + int (length (rec_bytes r))) in (r # rs', e))"
    by (rule iter_from_rec) (use Cons.prems in simp_all)
  then show ?case using Cons.IH [of "pre @ rec_bytes r"] Cons.prems
    by (simp add: case_prod_beta Let_def)
qed

lemma iter_from_end [simp]: "iter_from buf (int (length buf)) = ([], None)"
  by (simp add: iter_from.simps)

lemma iter_records_image: "list_all rec_ok rs \<Longrightarrow> iter_records (wal_image rs) = (rs, None)"
  using iter_from_recs [of rs make_header "[]"]
  by (simp only: iter_records_def wal_image_def append_Nil2 iter_from_end prod.case Let_def
      length_make_header WAL_HEADER_SIZE_def) simp

text \<open>Conversely, a buffer the scan accepts is the encoding of the records it yields.\<close>

lemma be_int_field:
  assumes "0 \<le> a" "a \<le> b" "b \<le> int (length xs)"
  shows "be_bytes (nat (b - a)) (be_int (slice xs a b)) = slice xs a b"
    and "be_int (slice xs a b) < 256 ^ nat (b - a)"
proof -
  have len: "length (slice xs a b) = nat (b - a)"
    using assms by (simp add: slice_nonneg nat_diff_distrib)
  show "be_bytes (nat (b - a)) (be_int (slice xs a b)) = slice xs a b"
    using be_bytes_be_int [OF len [symmetric]] .
  show "be_int (slice xs a b) < 256 ^ nat (b - a)"
    using be_int_bound [of "slice xs a b"] by (simp add: len)
qed

lemma slice_join:
  "0 \<le> a \<Longrightarrow> a \<le> b \<Longrightarrow> b \<le> c \<Longrightarrow> slice xs a b @ slice xs b c = slice xs a c"
proof -
  assume le: "0 \<le> a" "a \<le> b" "b \<le> c"
  then have 1: "nat c - nat a = (nat b - nat a) + (nat c - nat b)"
    and 2: "drop (nat b) xs = drop (nat b - nat a) (drop (nat a) xs)" by simp_all
  show ?thesis
    using le by (simp add: slice_nonneg) (simp only: 1 2 take_add)
qed

lemma slice_drop: "0 \<le> a \<Longrightarrow> a \<le> b \<Longrightarrow> slice xs a b @ drop (nat b) xs = drop (nat a) xs"
proof -
  assume le: "0 \<le> a" "a \<le> b"
  then have "drop (nat b) xs = drop (nat b - nat a) (drop (nat a) xs)" by simp
  then show ?thesis using le by (simp only: slice_nonneg append_take_drop_id)
qed

lemma iter_from_ok:
  "iter_from buf pos = (rs, None) \<Longrightarrow> 0 \<le> pos \<Longrightarrow> pos \<le> int (length buf) \<Longrightarrow>
   list_all rec_ok rs \<and> drop (nat pos) buf = concat (map rec_bytes rs)"
proof (induction buf pos arbitrary: rs rule: iter_from.induct)
  case (1 buf pos)
  show ?case
  proof (cases "pos < int (length buf)")
    case False
    then show ?thesis using "1.prems" by (simp add: iter_from.simps [of buf pos])
  next
    case True
    define h where "h = slice buf pos (pos + 17)"
    define n where "n = be_int (slice h 13 17)"
    define body where "body = slice buf pos (pos + 17 + n)"
    define c where "c = be_int (slice buf (pos + 17 + n) (pos + 17 + n + 4))"
    note step = iter_from.simps [of buf pos, unfolded Let_def RECORD_HDR_SIZE_def CRC_SIZE_def,
      folded h_def n_def, folded body_def c_def]
    have n0: "0 \<le> n" by (simp add: n_def)
    have room: "pos + 21 \<le> int (length buf)" "pos + 17 + n + 4 \<le> int (length buf)" and crc: "c = crc32 body"
      using True "1.prems"(1) unfolding step by (auto split: if_splits)
    obtain rs' e where rec: "iter_from buf (pos + 17 + n + 4) = (rs', e)" by force
    let ?r = "\<lparr>r_txn = be_int (slice h 0 8), r_kind = be_int (slice h 8 9),
      r_page = be_int (slice h 9 13), r_data = slice_from body 17\<rparr>"
    have eq: "rs = ?r # rs'" "e = None"
      using True "1.prems"(1) room crc rec unfolding step by simp_all
    have IH: "list_all rec_ok rs'" "drop (nat (pos + 17 + n + 4)) buf = concat (map rec_bytes rs')"
      using "1.IH" [of h n "pos + 17 + n" body c rs'] True room crc rec eq "1.prems"(2)
      by (simp_all add: h_def n_def body_def c_def)
    have hlen: "int (length h) = 17" using room "1.prems"(2) by (simp add: h_def slice_nonneg)
    have blen: "int (length body) = 17 + n"
      using room "1.prems"(2) n0 by (simp add: body_def slice_nonneg)
    have dlen: "int (length (r_data ?r)) = n" using blen n0 by (simp add: slice_from_nonneg)
    have body: "body = h @ r_data ?r"
    proof -
      have "h = take 17 body"
        using "1.prems"(2) n0 by (simp add: h_def body_def slice_nonneg min_def nat_add_distrib)
      then show ?thesis by (simp add: slice_from_nonneg)
    qed
    have cut: "slice h 0 8 @ slice h 8 9 @ slice h 9 13 @ slice h 13 17 = h"
      using hlen by (simp add: slice_join) (simp add: slice_nonneg)
    have fields: "be_bytes 8 (be_int (slice h 0 8)) = slice h 0 8"
      "be_bytes 1 (be_int (slice h 8 9)) = slice h 8 9"
      "be_bytes 4 (be_int (slice h 9 13)) = slice h 9 13"
      "be_bytes 4 (be_int (slice h 13 17)) = slice h 13 17"
      by (rule be_bytes_be_int, use hlen in \<open>simp add: slice_nonneg\<close>)+
    have head: "h = rec_head ?r"
      using dlen by (simp only: rec_head_def wal_rec.simps py_len_def n_def fields cut)
    have ok: "rec_ok ?r"
      using hlen dlen be_int_field [of 0 8 h] be_int_field [of 8 9 h] be_int_field [of 9 13 h]
        be_int_field [of 13 17 h]
      by (simp add: rec_ok_def n_def)
    have "slice buf (pos + 17 + n) (pos + 17 + n + 4) = be_bytes 4 c"
      using be_int_field(1) [of "pos + 17 + n" "pos + 17 + n + 4" buf] "1.prems"(2) n0 room
      by (simp add: c_def)
    moreover have "slice buf pos (pos + 17 + n) @ slice buf (pos + 17 + n) (pos + 17 + n + 4)
        = slice buf pos (pos + 17 + n + 4)"
      by (rule slice_join) (use "1.prems"(2) n0 in simp_all)
    ultimately have "slice buf pos (pos + 17 + n + 4) = body @ be_bytes 4 (crc32 body)"
      by (simp only: body_def crc)
    also have "\<dots> = rec_bytes ?r"
      by (simp only: rec_bytes_def head [symmetric] body [symmetric] append_assoc [symmetric])
    finally have "slice buf pos (pos + 17 + n + 4) = rec_bytes ?r" .
    moreover have "drop (nat pos) buf = slice buf pos (pos + 17 + n + 4) @ drop (nat (pos + 17 + n + 4)) buf"
      by (rule slice_drop [symmetric]) (use "1.prems"(2) n0 in simp_all)
    ultimately have "drop (nat pos) buf = rec_bytes ?r @ concat (map rec_bytes rs')"
      by (simp only: IH(2))
    then show ?thesis using IH(1) ok by (simp add: eq)
  qed
qed

definition wal_repr :: "byte list \<Rightarrow> wal_rec list \<Rightarrow> bool" where
  "wal_repr buf rs \<longleftrightarrow>
     16 \<le> length buf \<and> list_all rec_ok rs \<and> drop 16 buf = concat (map rec_bytes rs)"

lemma wal_repr_split: "wal_repr buf rs \<Longrightarrow> buf = take 16 buf @ concat (map rec_bytes rs)"
  by (metis append_take_drop_id wal_repr_def)

lemma iter_records_repr: "16 \<le> length buf \<Longrightarrow> iter_records buf = (rs, None) \<longleftrightarrow> wal_repr buf rs"
proof
  assume "16 \<le> length buf" "iter_records buf = (rs, None)"
  then show "wal_repr buf rs"
    using iter_from_ok [of buf 16 rs] by (simp add: iter_records_def wal_repr_def)
next
  assume r: "16 \<le> length buf" "wal_repr buf rs"
  have "iter_from (take 16 buf @ concat (map rec_bytes rs) @ []) (int (length (take 16 buf)))
    = (rs, None)"
    using iter_from_recs [of rs "take 16 buf" "[]"] r(2)
    by (simp only: wal_repr_def append_Nil2 iter_from_end prod.case Let_def)
  then show "iter_records buf = (rs, None)"
    using r wal_repr_split [OF r(2)] by (simp add: iter_records_def min_absorb2)
qed

lemma wal_repr_image: "list_all rec_ok rs \<Longrightarrow> wal_repr (wal_image rs) rs"
  by (simp add: wal_repr_def wal_image_def)

lemma wal_append_repr:
  assumes "wal_repr buf rs" and "wal_append buf t k p d = Inr buf'"
  shows "wal_repr buf' (rs @ [\<lparr>r_txn = t, r_kind = k, r_page = p, r_data = d\<rparr>])"
  using assms encode_record_Inr by (auto simp: wal_append_def wal_repr_def)

lemma wal_append_ok:
  "rec_ok \<lparr>r_txn = t, r_kind = k, r_page = p, r_data = d\<rparr> \<Longrightarrow>
   wal_append buf t k p d = Inr (buf @ rec_bytes \<lparr>r_txn = t, r_kind = k, r_page = p, r_data = d\<rparr>)"
  using encode_record_ok [of "\<lparr>r_txn = t, r_kind = k, r_page = p, r_data = d\<rparr>"]
  by (simp add: wal_append_def)

lemma encode_records:
  "list_all rec_ok rs \<Longrightarrow>
   foldE (\<lambda>new r. bindE (encode_record (r_txn r) (r_kind r) (r_page r) (r_data r))
      (\<lambda>b. Inr (new @ b))) pre rs = Inr (pre @ concat (map rec_bytes rs))"
  by (induction rs arbitrary: pre) (auto simp: encode_record_ok)

lemma truncate_before_repr:
  assumes "wal_repr buf rs"
  shows "truncate_before buf k = Inr (wal_image (filter (\<lambda>r. k \<le> r_txn r) rs))"
proof -
  have "16 \<le> length buf" and ok: "list_all rec_ok rs" using assms by (simp_all add: wal_repr_def)
  then have "iter_records buf = (rs, None)" using iter_records_repr assms by simp
  moreover have "list_all rec_ok (filter (\<lambda>r. k \<le> r_txn r) rs)" using ok by (simp add: list_all_iff)
  ultimately show ?thesis by (simp add: truncate_before_def encode_records wal_image_def)
qed

lemma wal_open_length: "wal_open f = Inr buf \<Longrightarrow> 16 \<le> length buf"
  by (auto simp: wal_open_def Let_def split: option.splits if_splits)

lemma wal_open_image [simp]: "wal_open (Some (wal_image rs)) = Inr (wal_image rs)"
  by (simp add: wal_open_def wal_image_def make_header_def HEADER_MAGIC_def Let_def)

lemma wal_open_new: "wal_open None = Inr (wal_image [])" "wal_open (Some []) = Inr (wal_image [])"
  by (simp_all add: wal_open_def wal_image_def)

section \<open>Torn appends and corrupted bytes\<close>

lemma iter_from_short:
  "pos < py_len buf \<Longrightarrow> py_len buf - pos < 21 \<Longrightarrow> iter_from buf pos = ([], Some (WalCorruption (nat pos)))"
  by (subst iter_from.simps) simp

lemma iter_from_cut:
  assumes "pos + 21 \<le> py_len buf" and "slice buf pos (pos + 17) = h"
    and "be_int (slice h 13 17) = n" and "pos + 17 + n + 4 > py_len buf"
  shows "iter_from buf pos = ([], Some (WalCorruption (nat pos)))"
  unfolding iter_from.simps [of buf pos] Let_def RECORD_HDR_SIZE_def CRC_SIZE_def assms(2,3)
  using assms(1,4) by simp

lemma iter_from_torn:
  assumes "rec_ok r" and "0 < k" and "k < length (rec_bytes r)"
  shows "iter_from (pre @ take k (rec_bytes r)) (int (length pre)) = ([], Some (WalCorruption (length pre)))"
proof (cases "k < 21")
  case True
  then show ?thesis using assms(2,3)
    iter_from_short [of "int (length pre)" "pre @ take k (rec_bytes r)"] by simp
next
  case False
  have "take k (rec_bytes r) = rec_head r @ take (k - 17) (r_data r @ be_bytes 4 (crc32 (rec_head r @ r_data r)))"
    using False by (simp add: rec_bytes_def)
  then have "slice (pre @ take k (rec_bytes r)) (int (length pre)) (int (length pre) + 17) = rec_head r"
    using slice_mid [of "int (length pre)" pre "int (length pre) + 17" "rec_head r"] by simp
  from iter_from_cut [OF _ this rec_header_fields(4) [OF assms(1)]] show ?thesis
    using False assms(3) by simp
qed

lemma iter_records_then:
  assumes "wal_repr buf rs"
  shows "iter_records (buf @ post) =
    (let (rs', e) = iter_from (buf @ post) (int (length buf)) in (rs @ rs', e))"
proof -
  have ok: "list_all rec_ok rs" using assms by (simp add: wal_repr_def)
  have b: "take 16 buf @ concat (map rec_bytes rs) = buf" "length (take 16 buf) = 16"
    using wal_repr_split [OF assms] assms by (simp_all add: wal_repr_def)
  show ?thesis using iter_from_recs [OF ok, of "take 16 buf" post]
    by (simp only: append_assoc [symmetric] b iter_records_def WAL_HEADER_SIZE_def) simp
qed

lemma crc_shift_top: "bit (crc_shift c) 31 = bit c 0"
  using bit_imp_le_length [of c 32] by (auto simp: crc_shift_def bit_simps)

lemma crc_shift_bit: "n < 31 \<Longrightarrow> bit (crc_shift c) n = (bit c (Suc n) \<noteq> (bit c 0 \<and> bit (0xEDB88320 :: 32 word) n))"
  by (auto simp: crc_shift_def bit_simps)

lemma crc_shift_inj: "crc_shift c = crc_shift d \<Longrightarrow> c = d"
proof (rule bit_word_eqI)
  fix n assume eq: "crc_shift c = crc_shift d" and n: "n < LENGTH(32)"
  have z: "bit c 0 = bit d 0" using crc_shift_top [of c] crc_shift_top [of d] eq by simp
  show "bit c n = bit d n"
  proof (cases n)
    case 0
    then show ?thesis using z by simp
  next
    case (Suc m)
    then have "m < 31" using n by simp
    then show ?thesis using crc_shift_bit [of m c] crc_shift_bit [of m d] eq z Suc by auto
  qed
qed

lemma crc_shifts_inj: "(crc_shift ^^ k) c = (crc_shift ^^ k) d \<Longrightarrow> c = d"
  by (induction k) (auto dest: crc_shift_inj)

lemma xor_cancel: "c XOR u = d XOR u \<Longrightarrow> c = (d :: 32 word)"
proof -
  assume "c XOR u = d XOR u"
  then have "(c XOR u) XOR u = (d XOR u) XOR u" by simp
  then show "c = d" by (simp only: xor.assoc xor_self_eq xor.right_neutral)
qed

lemma crc_byte_inj_state: "crc_byte c b = crc_byte d b \<Longrightarrow> c = d"
  unfolding crc_byte_def by (rule xor_cancel, erule crc_shifts_inj)

lemma crc_byte_inj_byte: "crc_byte c b = crc_byte c b' \<Longrightarrow> b = b'"
proof (rule bit_word_eqI)
  fix n assume eq: "crc_byte c b = crc_byte c b'" and n: "n < LENGTH(8)"
  have "c XOR ucast b = c XOR (ucast b' :: 32 word)"
    using eq unfolding crc_byte_def by (rule crc_shifts_inj)
  then have "ucast b XOR c = ucast b' XOR (c :: 32 word)" by (simp only: xor.commute)
  then have "(ucast b :: 32 word) = ucast b'" by (rule xor_cancel)
  then have "bit (ucast b :: 32 word) n = bit (ucast b' :: 32 word) n" by (rule arg_cong)
  then show "bit b n = bit b' n" using n by (simp add: bit_simps)
qed

lemma crc_fold_inj_state: "foldl crc_byte c bs = foldl crc_byte d bs \<Longrightarrow> c = d"
proof (induction bs arbitrary: c d)
  case (Cons b bs)
  then have "crc_byte c b = crc_byte d b" by simp
  then show ?case by (rule crc_byte_inj_state)
qed simp

text \<open>Two byte sequences that differ in exactly one byte have different checksums.\<close>

lemma crc32_one_byte: "crc32 (xs @ b # ys) = crc32 (xs @ b' # ys) \<longleftrightarrow> b = b'"
proof
  assume "crc32 (xs @ b # ys) = crc32 (xs @ b' # ys)"
  then have "NOT (foldl crc_byte (NOT 0) (xs @ b # ys)) = NOT (foldl crc_byte (NOT 0) (xs @ b' # ys))"
    unfolding crc32_def by (rule word_uint_eqI)
  then have "NOT (NOT (foldl crc_byte (NOT 0) (xs @ b # ys))) = NOT (NOT (foldl crc_byte (NOT 0) (xs @ b' # ys)))"
    by (rule arg_cong)
  then have "foldl crc_byte (crc_byte (foldl crc_byte (NOT 0) xs) b) ys
    = foldl crc_byte (crc_byte (foldl crc_byte (NOT 0) xs) b') ys"
    by (simp only: bit.double_compl foldl_append foldl.simps)
  then have "crc_byte (foldl crc_byte (NOT 0) xs) b = crc_byte (foldl crc_byte (NOT 0) xs) b'"
    by (rule crc_fold_inj_state)
  then show "b = b'" by (rule crc_byte_inj_byte)
qed simp

section \<open>The log interface\<close>

text \<open>
  What transactions and recovery rely on: a log of records that can be extended,
  scanned and cut by transaction id. Operations are run one after the other; an
  append that raises leaves the log as it is.
\<close>

datatype log_op = Append wal_rec | TruncateBefore int

definition log_spec :: "wal_rec list \<Rightarrow> log_op \<Rightarrow> wal_rec list" where
  "log_spec rs op =
     (case op of
        Append r \<Rightarrow> if rec_ok r then rs @ [r] else rs
      | TruncateBefore k \<Rightarrow> filter (\<lambda>r. k \<le> r_txn r) rs)"

definition log_step ::
  "('b \<Rightarrow> int \<Rightarrow> int \<Rightarrow> int \<Rightarrow> byte list \<Rightarrow> 'b res) \<Rightarrow> ('b \<Rightarrow> int \<Rightarrow> 'b res) \<Rightarrow> 'b \<Rightarrow> log_op \<Rightarrow> 'b" where
  "log_step app trunc b op =
     (case (case op of
              Append r \<Rightarrow> app b (r_txn r) (r_kind r) (r_page r) (r_data r)
            | TruncateBefore k \<Rightarrow> trunc b k) of
        Inl e \<Rightarrow> b | Inr b' \<Rightarrow> b')"

locale record_log =
  fixes app :: "'b \<Rightarrow> int \<Rightarrow> int \<Rightarrow> int \<Rightarrow> byte list \<Rightarrow> 'b res"
    and trunc :: "'b \<Rightarrow> int \<Rightarrow> 'b res"
    and scan :: "'b \<Rightarrow> wal_rec list \<times> py_error option"
    and repr :: "'b \<Rightarrow> wal_rec list \<Rightarrow> bool"
  assumes scan_law: "repr b rs \<Longrightarrow> scan b = (rs, None)"
    and app_law: "repr b rs \<Longrightarrow> rec_ok r \<Longrightarrow>
      \<exists>b'. app b (r_txn r) (r_kind r) (r_page r) (r_data r) = Inr b' \<and> repr b' (rs @ [r])"
    and app_fail: "\<not> rec_ok r \<Longrightarrow> \<exists>e. app b (r_txn r) (r_kind r) (r_page r) (r_data r) = Inl e"
    and trunc_law: "repr b rs \<Longrightarrow>
      \<exists>b'. trunc b k = Inr b' \<and> repr b' (filter (\<lambda>r. k \<le> r_txn r) rs)"
begin

lemma step_repr: "repr b rs \<Longrightarrow> repr (log_step app trunc b op) (log_spec rs op)"
proof (cases op)
  case (Append r)
  assume "repr b rs"
  then show ?thesis using Append app_law [of b rs r] app_fail [of r b]
    by (cases "rec_ok r") (auto simp: log_step_def log_spec_def)
next
  case (TruncateBefore k)
  assume "repr b rs"
  then show ?thesis using TruncateBefore trunc_law [of b rs k] by (auto simp: log_step_def log_spec_def)
qed

lemma run_repr: "repr b rs \<Longrightarrow> repr (foldl (log_step app trunc) b ops) (foldl log_spec rs ops)"
  by (induction ops arbitrary: b rs) (auto intro: step_repr)

lemma run_scan: "repr b rs \<Longrightarrow> scan (foldl (log_step app trunc) b ops) = (foldl log_spec rs ops, None)"
  by (intro scan_law run_repr)

end

interpretation wal_log: record_log wal_append truncate_before iter_records wal_repr
proof unfold_locales
  fix b rs and r :: wal_rec and k
  show "wal_repr b rs \<Longrightarrow> iter_records b = (rs, None)"
    using iter_records_repr wal_repr_def by blast
  show "wal_repr b rs \<Longrightarrow> rec_ok r \<Longrightarrow>
      \<exists>b'. wal_append b (r_txn r) (r_kind r) (r_page r) (r_data r) = Inr b' \<and> wal_repr b' (rs @ [r])"
    by (auto simp: wal_append_def encode_record_ok wal_repr_def)
  show "wal_repr b rs \<Longrightarrow>
      \<exists>b'. truncate_before b k = Inr b' \<and> wal_repr b' (filter (\<lambda>r. k \<le> r_txn r) rs)"
    using wal_repr_image by (auto simp: truncate_before_repr wal_repr_def list_all_iff)
next
  fix b and r :: wal_rec
  show "\<not> rec_ok r \<Longrightarrow> \<exists>e. wal_append b (r_txn r) (r_kind r) (r_page r) (r_data r) = Inl e"
    using encode_record_Inr(1) [of "r_txn r" "r_kind r" "r_page r" "r_data r"]
    by (cases r; cases "encode_record (r_txn r) (r_kind r) (r_page r) (r_data r)") (auto simp: wal_append_def)
qed

section \<open>Properties\<close>

text \<open>
  C18. However appends and truncations follow each other on a new log file, a scan yields exactly
  the records that were appended and not truncated, in order and unchanged, and raises nothing.
\<close>

theorem wal_history:
  assumes "wal_open None = Inr buf"
  shows "iter_records (foldl (log_step wal_append truncate_before) buf ops) = (foldl log_spec [] ops, None)"
  using assms wal_log.run_scan [of "wal_image []" "[]" ops] wal_repr_image [of "[]"]
  by (simp add: wal_open_new)

lemma wal_history_witness:
  "iter_records (foldl (log_step wal_append truncate_before) make_header
     [Append \<lparr>r_txn = 1, r_kind = 2, r_page = 0, r_data = []\<rparr>,
      Append \<lparr>r_txn = 2, r_kind = 1, r_page = 3, r_data = [7, 8]\<rparr>, TruncateBefore 2])
   = ([\<lparr>r_txn = 2, r_kind = 1, r_page = 3, r_data = [7, 8]\<rparr>], None)"
  using wal_history [of make_header
    "[Append \<lparr>r_txn = 1, r_kind = 2, r_page = 0, r_data = []\<rparr>,
      Append \<lparr>r_txn = 2, r_kind = 1, r_page = 3, r_data = [7, 8]\<rparr>, TruncateBefore 2]"]
  by (simp add: wal_open_def log_spec_def rec_ok_def)

text \<open>
  C27. When a crash tears the last append, so that only the first \<open>k\<close> bytes of its record reached
  the file, the scan yields every earlier record and then raises \<open>WalCorruption\<close> with the
  offset at which the torn record begins.
\<close>

theorem wal_torn_append:
  assumes "wal_repr buf rs" and "encode_record t k p d = Inr rec" and "0 < n" and "n < length rec"
  shows "iter_records (buf @ take n rec) = (rs, Some (WalCorruption (length buf)))"
  using assms(3,4) encode_record_Inr [OF assms(2)] iter_records_then [OF assms(1)] iter_from_torn
  by simp

lemma wal_torn_append_witness:
  "iter_records (make_header @ take 5 (rec_bytes \<lparr>r_txn = 1, r_kind = 2, r_page = 0, r_data = []\<rparr>))
   = ([], Some (WalCorruption 16))"
  using wal_torn_append [of make_header "[]" 1 2 0 "[]"
      "rec_bytes \<lparr>r_txn = 1, r_kind = 2, r_page = 0, r_data = []\<rparr>" 5]
    encode_record_ok [of "\<lparr>r_txn = 1, r_kind = 2, r_page = 0, r_data = []\<rparr>"]
  by (simp add: wal_repr_def rec_ok_def)

text \<open>
  C29. A record whose payload was changed in exactly one byte after it was written is never
  delivered: the scan yields the records before it and raises \<open>WalCorruption\<close> at its offset.
\<close>

theorem wal_payload_byte_detected:
  assumes "wal_repr buf rs" and "rec_ok r" and "r_data r = xs @ b # ys" and "b' \<noteq> b"
  shows "iter_records (buf @ rec_head r @ (xs @ b' # ys) @ be_bytes 4 (crc32 (rec_head r @ r_data r)) @ rest)
    = (rs, Some (WalCorruption (length buf)))"
proof -
  let ?pos = "int (length buf)" and ?d = "xs @ b' # ys"
  let ?c = "be_bytes 4 (crc32 (rec_head r @ r_data r))"
  let ?buf = "buf @ rec_head r @ ?d @ ?c @ rest"
  let ?fin = "?pos + 17 + int (length (r_data r))"
  have len: "length ?d = length (r_data r)" by (simp add: assms(3))
  have h: "slice ?buf ?pos (?pos + 17) = rec_head r"
    by (rule slice_mid) simp_all
  have body: "slice ?buf ?pos ?fin = rec_head r @ ?d"
  proof -
    have "slice (buf @ (rec_head r @ ?d) @ (?c @ rest)) ?pos ?fin = rec_head r @ ?d"
      by (rule slice_mid) (simp_all add: assms(3))
    then show ?thesis by (simp only: append_assoc)
  qed
  have crc: "be_int (slice ?buf ?fin (?fin + 4)) = crc32 (rec_head r @ r_data r)"
  proof -
    have "slice ((buf @ rec_head r @ ?d) @ ?c @ rest) ?fin (?fin + 4) = ?c"
      by (rule slice_mid) (simp_all add: assms(3))
    then show ?thesis using crc32_bounds [of "rec_head r @ r_data r"]
      by (simp only: append_assoc) (simp add: be_int_be_bytes)
  qed
  have "crc32 (rec_head r @ r_data r) \<noteq> crc32 (rec_head r @ ?d)"
    using crc32_one_byte [of "rec_head r @ xs" b ys b'] assms(3,4) by simp
  then have "iter_from ?buf ?pos = ([], Some (WalCorruption (length buf)))"
    using iter_from_step [OF _ h rec_header_fields(4) [OF assms(2)] _ body crc] len by simp
  then show ?thesis using iter_records_then [OF assms(1)] by simp
qed

lemma wal_payload_byte_detected_witness:
  "iter_records (make_header @ rec_head \<lparr>r_txn = 1, r_kind = 1, r_page = 2, r_data = [5, 6]\<rparr> @ [5, 7] @
     be_bytes 4 (crc32 (rec_head \<lparr>r_txn = 1, r_kind = 1, r_page = 2, r_data = [5, 6]\<rparr> @ [5, 6])))
   = ([], Some (WalCorruption 16))"
  using wal_payload_byte_detected [of make_header "[]"
      "\<lparr>r_txn = 1, r_kind = 1, r_page = 2, r_data = [5, 6]\<rparr>" "[5]" 6 "[]" 7 "[]"]
  by (simp add: wal_repr_def rec_ok_def)

text \<open>
  Opening a log file whose header was torn to between one and eight bytes raises
  \<open>IndexError\<close> out of the message of the intended \<open>InvalidWalFile\<close>; from nine bytes on it is
  \<open>InvalidWalFile\<close>.
\<close>

theorem wal_open_torn_header:
  assumes "0 < n" and "n < 16"
  shows "wal_open (Some (take n make_header)) = Inl (if n \<le> 8 then IndexError else InvalidWalFile)"
proof -
  have "take n make_header \<noteq> []" using assms by (simp add: make_header_def HEADER_MAGIC_def)
  then show ?thesis using assms by (simp add: wal_open_def Let_def)
qed

lemma wal_open_torn_header_witness: "wal_open (Some (take 5 make_header)) = Inl IndexError"
  using wal_open_torn_header [of 5] by simp

end
