(* ===== verification/Pager.thy ===== *)
theory Pager
  imports Slotted_Page Wal
begin

text \<open>
  \<open>src/tinydb/pager.py\<close>: the page file with its write-ahead log. The record
  \<open>pager\<close> has the attributes of the class \<open>Pager\<close>: \<open>mem_pages\<close> is the dictionary
  of the \<open>:memory:\<close> mode, \<open>main_file\<close> the bytes of the main file, of which the first
  \<open>mmap_size\<close> are mapped, \<open>wal_bytes\<close> the log and \<open>wal_is_open\<close> whether a handle
  was opened. Every method is a command on that record. Lemmas: both storage
  modes implement one array of pages, the free list never hands out a page in
  use, and the header check accepts exactly the supported versions.
\<close>

definition MAGIC :: "byte list" where "MAGIC = [84, 73, 78, 89, 68, 66, 0, 3]"
definition MAGIC_PREFIX :: "byte list" where "MAGIC_PREFIX = [84, 73, 78, 89, 68, 66, 0]"
definition SCHEMA_VERSION :: byte where [simp]: "SCHEMA_VERSION = 3"
definition CHAIN_HEAD_PAGE :: int where [simp]: "CHAIN_HEAD_PAGE = 1"

record pager =
  is_memory :: bool
  mem_pages :: "(int, byte list) dict"
  main_file :: "byte list"
  mmap_size :: int
  next_page_id :: int
  wal_is_open :: bool
  wal_bytes :: "byte list option"

definition zero_page :: "byte list" where "zero_page = replicate 4096 0"

definition mapped :: "pager \<Rightarrow> byte list" where
  "mapped p = take (nat (mmap_size p)) (main_file p)"

text \<open>Slice assignment to an \<open>mmap\<close> object, which cannot change its size.\<close>

definition mmap_set :: "int \<Rightarrow> int \<Rightarrow> byte list \<Rightarrow> (pager, unit) cmd" where
  "mmap_set a b d = (\<lambda>p.
     if py_len (slice (mapped p) a b) \<noteq> py_len d then (Inl IndexError, p)
     else (Inr (), p\<lparr>main_file := set_slice (mapped p) a b d @ drop (nat (mmap_size p)) (main_file p)\<rparr>))"

definition mem_page :: "pager \<Rightarrow> int \<Rightarrow> byte list res" where
  "mem_page p pid = (case map_of (mem_pages p) pid of None \<Rightarrow> Inl KeyError | Some b \<Rightarrow> Inr b)"

text \<open>\<open>if page_id not in self._mem_pages: self._mem_pages[page_id] = bytearray(PAGE_SIZE)\<close>\<close>

definition mem_ensure :: "int \<Rightarrow> (pager, unit) cmd" where
  "mem_ensure pid = modifyS (\<lambda>p. p\<lparr>mem_pages := dict_setdefault pid zero_page (mem_pages p)\<rparr>)"

definition mem_set :: "int \<Rightarrow> (byte list \<Rightarrow> byte list) \<Rightarrow> (pager, unit) cmd" where
  "mem_set pid f = bindS (getS (\<lambda>p. mem_page p pid)) (\<lambda>r. bindS (liftE r) (\<lambda>b.
     modifyS (\<lambda>p. p\<lparr>mem_pages := AList.update pid (f b) (mem_pages p)\<rparr>)))"

section \<open>Pages\<close>

definition read_page :: "int \<Rightarrow> pager \<Rightarrow> byte list res" where
  "read_page pid p =
     (if pid < 0 then Inl ValueError
      else if is_memory p then
        Inr (case map_of (mem_pages p) pid of None \<Rightarrow> zero_page | Some b \<Rightarrow> b)
      else Inr (slice (mapped p) (pid * PAGE_SIZE) (pid * PAGE_SIZE + PAGE_SIZE)))"

definition write_page :: "int \<Rightarrow> byte list \<Rightarrow> (pager, unit) cmd" where
  "write_page pid d =
     (if pid < 0 then raiseS ValueError
      else if py_len d \<noteq> PAGE_SIZE then raiseS ValueError
      else bindS (getS is_memory) (\<lambda>m.
        if m then bindS (mem_ensure pid) (\<lambda>_. mem_set pid (\<lambda>_. d))
        else mmap_set (pid * PAGE_SIZE) (pid * PAGE_SIZE + PAGE_SIZE) d))"

definition read_free_list_head :: "pager \<Rightarrow> int res" where
  "read_free_list_head p =
     (if is_memory p then bindE (mem_page p 0) (\<lambda>b. Inr (be_int (slice b 9 13)))
      else Inr (be_int (slice (mapped p) 9 13)))"

definition write_free_list_head :: "int \<Rightarrow> (pager, unit) cmd" where
  "write_free_list_head head =
     bindS (liftE (to_bytes_be 4 head)) (\<lambda>d.
     bindS (getS is_memory) (\<lambda>m.
       if m then mem_set 0 (\<lambda>b. set_slice b 9 13 d) else mmap_set 9 13 d))"

definition page_count :: "pager \<Rightarrow> int" where
  "page_count p =
     (if is_memory p then max (py_len (mem_pages p)) 1 else max (mmap_size p div PAGE_SIZE) 1)"

text \<open>The first four bytes of a page hold a page id: the free list and the catalog chain.\<close>

definition set_next :: "int \<Rightarrow> int \<Rightarrow> (pager, unit) cmd" where
  "set_next pid nxt =
     bindS (liftE (to_bytes_be 4 nxt)) (\<lambda>d.
     bindS (getS is_memory) (\<lambda>m.
       if m then bindS (mem_ensure pid) (\<lambda>_. mem_set pid (\<lambda>b. set_slice b 0 4 d))
       else mmap_set (pid * PAGE_SIZE) (pid * PAGE_SIZE + 4) d))"

definition alloc_page :: "(pager, int) cmd" where
  "alloc_page =
     bindS (getS read_free_list_head) (\<lambda>r. bindS (liftE r) (\<lambda>head.
     if head \<noteq> 0 then
       bindS (getS (read_page head)) (\<lambda>r. bindS (liftE r) (\<lambda>page.
       bindS (write_free_list_head (be_int (slice page 0 4))) (\<lambda>_.
       bindS (getS is_memory) (\<lambda>m.
       bindS (if m then mem_set head (\<lambda>_. zero_page)
              else mmap_set (head * PAGE_SIZE) (head * PAGE_SIZE + PAGE_SIZE) zero_page) (\<lambda>_.
       returnS head)))))
     else
       bindS (getS next_page_id) (\<lambda>pid.
       bindS (modifyS (\<lambda>p. p\<lparr>next_page_id := next_page_id p + 1\<rparr>)) (\<lambda>_.
       bindS (getS is_memory) (\<lambda>m.
       bindS (if m then mem_ensure pid
              else modifyS (\<lambda>p.
                let needed = (pid + 1) * PAGE_SIZE in
                if needed > py_len (main_file p)
                then p\<lparr>main_file := main_file p @ replicate (nat needed - length (main_file p)) 0, mmap_size := needed\<rparr>
                else p)) (\<lambda>_.
       returnS pid))))))"

definition free_page :: "int \<Rightarrow> (pager, unit) cmd" where
  "free_page pid =
     (if pid < 1 then raiseS ValueError
      else bindS (getS read_free_list_head) (\<lambda>r. bindS (liftE r) (\<lambda>head.
        bindS (set_next pid head) (\<lambda>_. write_free_list_head pid))))"

section \<open>Opening\<close>

text \<open>
  Page 0: magic, schema version, free list head, zeros. \<open>open_file\<close> is
  \<open>_open_file\<close> on the bytes of the file, if it exists: the bytes afterwards
  and the size that is mapped (the size found at the start).
\<close>

definition file_header :: "byte list" where
  "file_header = MAGIC @ [SCHEMA_VERSION] @ [0, 0, 0, 0] @ replicate 4083 0"

definition file_write :: "byte list \<Rightarrow> int \<Rightarrow> byte list \<Rightarrow> byte list" where
  "file_write f off d =
     take (nat off) (f @ replicate (nat off - length f) 0) @ d @ drop (nat off + length d) f"

definition open_file :: "byte list option \<Rightarrow> bool \<Rightarrow> (byte list \<times> int) res" where
  "open_file f wal_exists =
     (case f of
        None \<Rightarrow> Inr (file_header @ zero_page, PAGE_SIZE * 2)
      | Some b \<Rightarrow>
          if b = [] then Inr (file_header @ zero_page, PAGE_SIZE * 2)
          else
            let header = slice_to b 9; size = py_len b in
            if slice_to header 7 \<noteq> MAGIC_PREFIX then Inl InvalidDatabaseFile
            else bindE (get_item header 7) (\<lambda>version.
              if version = 1 then Inr (file_write b 7 [3, SCHEMA_VERSION, 0, 0, 0, 0], size)
              else if version = 2 then
                bindE (get_item header 8) (\<lambda>schema.
                  if schema = SCHEMA_VERSION then Inr (b, size)
                  else if schema = 2 then
                    if wal_exists then Inl SchemaMismatch
                    else Inr (file_write b 8 [SCHEMA_VERSION], size)
                  else Inl UnsupportedSchemaVersion)
              else if version = 3 then
                bindE (get_item header 8) (\<lambda>schema.
                  if schema \<noteq> SCHEMA_VERSION then Inl UnsupportedSchemaVersion else Inr (b, size))
              else Inl UnsupportedSchemaVersion))"

definition new_memory_pager :: pager where
  "new_memory_pager =
     \<lparr>is_memory = True, mem_pages = [(0, file_header)], main_file = [], mmap_size = 0,
      next_page_id = 2, wal_is_open = False, wal_bytes = None\<rparr>"

text \<open>The file mode up to \<open>_init_wal\<close>, with the bytes of the log file, if it exists.\<close>

definition open_main :: "byte list option \<Rightarrow> byte list option \<Rightarrow> pager res" where
  "open_main f wal_file =
     bindE (open_file f (wal_file \<noteq> None)) (\<lambda>(b, size).
       Inr \<lparr>is_memory = False, mem_pages = [], main_file = b, mmap_size = size,
            next_page_id = max 2 (size div PAGE_SIZE), wal_is_open = False, wal_bytes = wal_file\<rparr>)"

section \<open>The log of the pager\<close>

definition get_or_open_wal :: "(pager, byte list) cmd" where
  "get_or_open_wal = (\<lambda>p.
     case (wal_is_open p, wal_bytes p) of
       (True, Some b) \<Rightarrow> (Inr b, p)
     | _ \<Rightarrow> (case wal_open (wal_bytes p) of
              Inl e \<Rightarrow> (Inl e, p)
            | Inr b \<Rightarrow> (Inr b, p\<lparr>wal_is_open := True, wal_bytes := Some b\<rparr>)))"

definition wal_record :: "int \<Rightarrow> int \<Rightarrow> int \<Rightarrow> byte list \<Rightarrow> (pager, unit) cmd" where
  "wal_record txn_id kind pid d =
     bindS get_or_open_wal (\<lambda>b. bindS (liftE (wal_append b txn_id kind pid d)) (\<lambda>b'.
       modifyS (\<lambda>p. p\<lparr>wal_bytes := Some b'\<rparr>)))"

definition wal_append_page :: "int \<Rightarrow> int \<Rightarrow> byte list \<Rightarrow> (pager, unit) cmd" where
  "wal_append_page txn_id pid d = wal_record txn_id 1 pid d"

definition wal_append_commit :: "int \<Rightarrow> (pager, unit) cmd" where
  "wal_append_commit txn_id = wal_record txn_id 2 0 []"

definition wal_append_rollback :: "int \<Rightarrow> (pager, unit) cmd" where
  "wal_append_rollback txn_id = wal_record txn_id 3 0 []"

definition wal_truncate_before :: "int \<Rightarrow> (pager, unit) cmd" where
  "wal_truncate_before txn_id =
     bindS get_or_open_wal (\<lambda>b. bindS (liftE (truncate_before b txn_id)) (\<lambda>b'.
       modifyS (\<lambda>p. p\<lparr>wal_bytes := Some b'\<rparr>)))"

definition write_main_page :: "int \<Rightarrow> byte list \<Rightarrow> (pager, unit) cmd" where
  "write_main_page pid d =
     bindS (getS is_memory) (\<lambda>m.
       if m then
         if py_len d \<noteq> PAGE_SIZE then raiseS ValueError
         else bindS (mem_ensure pid) (\<lambda>_. mem_set pid (\<lambda>_. d))
       else if pid < 0 then raiseS ValueError
       else modifyS (\<lambda>p. p\<lparr>main_file := file_write (main_file p) (pid * PAGE_SIZE) d\<rparr>))"

section \<open>The catalog chain\<close>

text \<open>
  \<open>write_catalog_chain\<close> takes the packed pages. The reclaiming loop raises when
  it has visited more pages than the cap, so its fuel is the cap plus one.
\<close>

fun reclaim :: "nat \<Rightarrow> int \<Rightarrow> (pager, unit) cmd" where
  "reclaim 0 nxt = (if nxt = 0 then returnS () else raiseS InvalidDatabaseFile)"
| "reclaim (Suc n) nxt =
     (if nxt = 0 then returnS ()
      else bindS (getS (read_page nxt)) (\<lambda>r. bindS (liftE r) (\<lambda>page.
        bindS (free_page nxt) (\<lambda>_. reclaim n (be_int (slice page 0 4))))))"

fun write_segments :: "bool \<Rightarrow> byte list list \<Rightarrow> (pager, int list) cmd" where
  "write_segments is_first [] = returnS []"
| "write_segments is_first (payload # ps) =
     bindS (if is_first then returnS CHAIN_HEAD_PAGE else alloc_page) (\<lambda>target.
     bindS (write_page target payload) (\<lambda>_.
     bindS (write_segments False ps) (\<lambda>ids. returnS (target # ids))))"

fun patch_chain :: "int list \<Rightarrow> (pager, unit) cmd" where
  "patch_chain [] = returnS ()"
| "patch_chain [t] = set_next t 0"
| "patch_chain (t # u # ts) = bindS (set_next t u) (\<lambda>_. patch_chain (u # ts))"

definition write_catalog_chain :: "byte list list \<Rightarrow> (pager, unit) cmd" where
  "write_catalog_chain pages =
     bindS (getS (read_page CHAIN_HEAD_PAGE)) (\<lambda>r. bindS (liftE r) (\<lambda>head.
     bindS (getS page_count) (\<lambda>n.
     bindS (reclaim (nat (n + 1) + 1) (be_int (slice head 0 4))) (\<lambda>_.
     bindS (set_next CHAIN_HEAD_PAGE 0) (\<lambda>_.
     bindS (write_segments True pages) patch_chain)))))"

section \<open>Both modes are one array of pages\<close>

definition img :: "pager \<Rightarrow> int \<Rightarrow> byte list" where
  "img p pid =
     (if pid < 0 then []
      else if is_memory p then (case map_of (mem_pages p) pid of None \<Rightarrow> zero_page | Some b \<Rightarrow> b)
      else take 4096 (drop (nat (pid * 4096)) (main_file p)))"

definition pager_wf :: "pager \<Rightarrow> bool" where
  "pager_wf p \<longleftrightarrow>
     2 \<le> next_page_id p \<and>
     (if is_memory p
      then map_of (mem_pages p) 0 \<noteq> None \<and>
        (\<forall>k. 2 \<le> k \<and> k < next_page_id p \<longrightarrow> map_of (mem_pages p) k \<noteq> None) \<and>
        (\<forall>k b. map_of (mem_pages p) k = Some b \<longrightarrow> 0 \<le> k \<and> k < next_page_id p \<and> length b = 4096)
      else py_len (main_file p) = mmap_size p \<and> mmap_size p = next_page_id p * 4096)"

definition same_rest :: "pager \<Rightarrow> pager \<Rightarrow> bool" where
  "same_rest p p' \<longleftrightarrow>
     is_memory p' = is_memory p \<and> next_page_id p' = next_page_id p \<and>
     wal_is_open p' = wal_is_open p \<and> wal_bytes p' = wal_bytes p"

text \<open>\<open>eff p I r\<close>: the command succeeded from \<open>p\<close>, kept the rest and left the pages \<open>I\<close>.\<close>

definition eff :: "pager \<Rightarrow> (int \<Rightarrow> byte list) \<Rightarrow> (py_error + unit) \<times> pager \<Rightarrow> bool" where
  "eff p I r \<longleftrightarrow> fst r = Inr () \<and> pager_wf (snd r) \<and> same_rest p (snd r) \<and> img (snd r) = I"

lemma length_zero_page [simp, byte_simps]: "length zero_page = 4096"
  by (simp add: zero_page_def)

lemma length_img [byte_simps]:
  assumes "pager_wf p" and "0 \<le> pid" and "pid < next_page_id p"
  shows "length (img p pid) = 4096"
proof (cases "is_memory p")
  case True
  then show ?thesis using assms by (auto simp: img_def pager_wf_def split: option.splits)
next
  case False
  have "int (length (main_file p)) = next_page_id p * 4096"
    using False assms(1) by (simp add: pager_wf_def)
  then have "nat (pid * 4096) + 4096 \<le> length (main_file p)" using assms(2,3) by linarith
  then show ?thesis using False assms(2) by (simp add: img_def)
qed

lemma length_img_le: "pager_wf p \<Longrightarrow> length (img p pid) \<le> 4096"
  by (auto simp: img_def pager_wf_def split: option.splits)

lemma mapped_wf: "pager_wf p \<Longrightarrow> \<not> is_memory p \<Longrightarrow> mapped p = main_file p"
proof -
  assume "pager_wf p" "\<not> is_memory p"
  then have "mmap_size p = int (length (main_file p))" by (simp add: pager_wf_def)
  then show ?thesis by (simp add: mapped_def)
qed

lemma read_page_img:
  assumes "pager_wf p" and "0 \<le> pid"
  shows "read_page pid p = Inr (img p pid)"
  using assms mapped_wf [OF assms(1)] by (simp add: read_page_def img_def slice_nonneg nat_add_distrib)

lemma slice_overwrite:
  assumes "A \<le> B" "B \<le> length xs" "length d = B - A"
  shows "k + m \<le> A \<Longrightarrow> take m (drop k (take A xs @ d @ drop B xs)) = take m (drop k xs)"
    and "B \<le> k \<Longrightarrow> drop k (take A xs @ d @ drop B xs) = drop k xs"
    and "k \<le> A \<Longrightarrow> B \<le> k + m \<Longrightarrow> take m (drop k (take A xs @ d @ drop B xs))
      = take (A - k) (take m (drop k xs)) @ d @ drop (B - k) (take m (drop k xs))"
proof -
  have A: "A \<le> length xs" using assms by simp
  show "k + m \<le> A \<Longrightarrow> take m (drop k (take A xs @ d @ drop B xs)) = take m (drop k xs)"
    using A by (simp add: drop_take min_absorb2 le_diff_conv2)
  show "B \<le> k \<Longrightarrow> drop k (take A xs @ d @ drop B xs) = drop k xs"
    using assms by simp
  show "k \<le> A \<Longrightarrow> B \<le> k + m \<Longrightarrow> take m (drop k (take A xs @ d @ drop B xs))
      = take (A - k) (take m (drop k xs)) @ d @ drop (B - k) (take m (drop k xs))"
    using assms A by (simp add: drop_take min_def) linarith
qed

lemma mmap_set_eff:
  assumes "pager_wf p" and "\<not> is_memory p" and "0 \<le> pid" and "pid < next_page_id p"
    and "0 \<le> a" and "a \<le> b" and "b \<le> 4096" and "py_len d = b - a"
    and "A = pid * 4096 + a" and "B = pid * 4096 + b"
  shows "eff p ((img p)(pid := set_slice (img p pid) a b d)) (mmap_set A B d p)"
proof -
  let ?f = "main_file p" and ?A = "nat A" and ?B = "nat B"
  have size: "int (length ?f) = next_page_id p * 4096" "mmap_size p = int (length ?f)"
    using assms(1,2) by (simp_all add: pager_wf_def)
  have room: "B \<le> int (length ?f)" using assms(4,7,10) size by simp
  have ab: "0 \<le> A" "A \<le> B" using assms by simp_all
  have AB: "?A \<le> ?B" "?B \<le> length ?f" using ab room by simp_all
  have d: "length d = ?B - ?A" using assms(5-10) ab by (simp add: nat_diff_distrib)
  let ?p' = "p\<lparr>main_file := take ?A ?f @ d @ drop ?B ?f\<rparr>"
  have run: "mmap_set A B d p = (Inr (), ?p')"
    using ab room d size mapped_wf [OF assms(1,2)] assms(8,9,10)
    by (simp add: mmap_set_def slice_nonneg set_slice_nonneg)
  have len: "length (take ?A ?f @ d @ drop ?B ?f) = length ?f" using AB d by simp
  have wf: "pager_wf ?p'" using assms(1,2) len by (simp add: pager_wf_def)
  have "img ?p' q = ((img p)(pid := set_slice (img p pid) a b d)) q" for q
  proof (cases "q < 0")
    case True
    then show ?thesis using assms(3) by (simp add: img_def)
  next
    case False
    let ?k = "nat (q * 4096)"
    consider "q < pid" | "q = pid" | "pid < q" by linarith
    then show ?thesis
    proof cases
      case 1
      then have "?k + 4096 \<le> ?A" using False assms(5,9) by linarith
      then show ?thesis using 1 False assms(2) slice_overwrite(1) [OF AB d]
        by (simp add: img_def)
    next
      case 2
      have k: "?k \<le> ?A" "?B \<le> ?k + 4096" using 2 assms(3,5,7,9,10) by simp_all
      have sub: "?A - ?k = nat a" "?B - ?k = nat b"
        using 2 assms(3,5,6,9,10) by (simp_all add: nat_diff_distrib [symmetric] algebra_simps)
      have old: "img p pid = take 4096 (drop ?k ?f)" and new: "img ?p' q = take 4096 (drop ?k (main_file ?p'))"
        using 2 False assms(2) by (simp_all add: img_def)
      have mf: "main_file ?p' = take ?A ?f @ d @ drop ?B ?f" by simp
      have "set_slice (img p pid) a b d = take (nat a) (img p pid) @ d @ drop (nat b) (img p pid)"
        using assms(5-7) length_img [OF assms(1,3,4)] by (simp add: set_slice_nonneg)
      then have "img ?p' q = set_slice (img p pid) a b d"
        using slice_overwrite(3) [OF AB d k] by (simp only: old new mf sub)
      then show ?thesis using 2 by simp
    next
      case 3
      then have "?B \<le> ?k" using assms(3,7,10) by linarith
      then show ?thesis using 3 False assms(2) slice_overwrite(2) [OF AB d]
        by (simp add: img_def)
    qed
  qed
  then show ?thesis using run wf by (auto simp: eff_def same_rest_def)
qed

lemma mem_set_eff:
  assumes "pager_wf p" and "is_memory p" and "0 \<le> pid" and "pid < next_page_id p"
    and "length (f (img p pid)) = 4096"
  shows "eff p ((img p)(pid := f (img p pid))) (bindS (mem_ensure pid) (\<lambda>_. mem_set pid f) p)"
    and "map_of (mem_pages p) pid \<noteq> None \<Longrightarrow> eff p ((img p)(pid := f (img p pid))) (mem_set pid f p)"
proof -
  show "eff p ((img p)(pid := f (img p pid))) (bindS (mem_ensure pid) (\<lambda>_. mem_set pid f) p)"
    using assms
    by (auto simp: eff_def same_rest_def mem_ensure_def mem_set_def mem_page_def img_def pager_wf_def
        fun_eq_iff split: option.splits if_splits)
  show "map_of (mem_pages p) pid \<noteq> None \<Longrightarrow> eff p ((img p)(pid := f (img p pid))) (mem_set pid f p)"
    using assms
    by (auto simp: eff_def same_rest_def mem_set_def mem_page_def img_def pager_wf_def
        fun_eq_iff split: option.splits if_splits)
qed

section \<open>The operations on the array of pages\<close>

lemma effD:
  "eff p I (c p) \<Longrightarrow> \<exists>p'. c p = (Inr (), p') \<and> pager_wf p' \<and> same_rest p p' \<and> img p' = I"
  by (cases "c p") (auto simp: eff_def)

lemma same_rest_refl [simp]: "same_rest p p"
  by (simp add: same_rest_def)

lemma same_rest_trans: "same_rest p q \<Longrightarrow> same_rest q r \<Longrightarrow> same_rest p r"
  by (simp add: same_rest_def)

lemma eff_bind:
  assumes "eff p I (c p)" and "\<And>q. pager_wf q \<Longrightarrow> same_rest p q \<Longrightarrow> img q = I \<Longrightarrow> eff q J (d q)"
  shows "eff p J (bindS c (\<lambda>_. d) p)"
  using effD [of p I c, OF assms(1)] assms(2) by (fastforce simp: bindS_Inr eff_def intro: same_rest_trans)

lemma in_range_next: "pager_wf p \<Longrightarrow> 0 < next_page_id p"
  by (simp add: pager_wf_def)

definition head_of :: "(int \<Rightarrow> byte list) \<Rightarrow> int" where
  "head_of I = be_int (slice (I 0) 9 13)"

definition next_of :: "(int \<Rightarrow> byte list) \<Rightarrow> int \<Rightarrow> int" where
  "next_of I pid = be_int (slice (I pid) 0 4)"

definition put_head :: "int \<Rightarrow> (int \<Rightarrow> byte list) \<Rightarrow> int \<Rightarrow> byte list" where
  "put_head h I = I(0 := set_slice (I 0) 9 13 (be_bytes 4 h))"

definition put_next :: "int \<Rightarrow> int \<Rightarrow> (int \<Rightarrow> byte list) \<Rightarrow> int \<Rightarrow> byte list" where
  "put_next pid n I = I(pid := set_slice (I pid) 0 4 (be_bytes 4 n))"

lemma slice_set_slice:
  assumes "0 \<le> a" "a \<le> b" "b \<le> int (length xs)" "int (length d) = b - a"
  shows "slice (set_slice xs a b d) a b = d"
proof -
  have "nat b - nat a = length d" "nat a \<le> length xs" using assms by simp_all
  then show ?thesis using assms by (simp add: slice_nonneg set_slice_nonneg)
qed

lemma head_of_put_head [simp]:
  "length (I 0) = 4096 \<Longrightarrow> 0 \<le> h \<Longrightarrow> h < 2 ^ 32 \<Longrightarrow> head_of (put_head h I) = h"
  by (simp add: head_of_def put_head_def slice_set_slice be_int_be_bytes)

lemma next_of_put_next [simp]:
  "length (I pid) = 4096 \<Longrightarrow> 0 \<le> n \<Longrightarrow> n < 2 ^ 32 \<Longrightarrow> next_of (put_next pid n I) pid = n"
  by (simp add: next_of_def put_next_def slice_set_slice be_int_be_bytes)

lemma put_other [simp]:
  "q \<noteq> 0 \<Longrightarrow> put_head h I q = I q" "q \<noteq> pid \<Longrightarrow> put_next pid n I q = I q"
  by (simp_all add: put_head_def put_next_def)

lemma read_free_list_head_img:
  assumes "pager_wf p"
  shows "read_free_list_head p = Inr (head_of (img p))"
  using assms mapped_wf [OF assms] length_img [OF assms, of 0]
  by (auto simp: read_free_list_head_def head_of_def mem_page_def img_def pager_wf_def slice_nonneg
      drop_take split: option.splits)

lemma write_free_list_head_eff:
  assumes "pager_wf p" and "0 \<le> h" and "h < 2 ^ 32"
  shows "eff p (put_head h (img p)) (write_free_list_head h p)"
proof (cases "is_memory p")
  case True
  have "map_of (mem_pages p) 0 \<noteq> None" using True assms(1) by (simp add: pager_wf_def)
  from mem_set_eff(2) [OF assms(1) True _ _ _ this, of "\<lambda>b. set_slice b 9 13 (be_bytes 4 h)"]
  show ?thesis using True assms in_range_next [OF assms(1)] length_img [OF assms(1), of 0]
    by (simp add: write_free_list_head_def to_bytes_be_def length_set_slice put_head_def)
next
  case False
  from mmap_set_eff [OF assms(1) False, of 0 9 13 "be_bytes 4 h" 9 13]
  show ?thesis using False assms in_range_next [OF assms(1)]
    by (simp add: write_free_list_head_def to_bytes_be_def put_head_def)
qed

lemma set_next_eff:
  assumes "pager_wf p" and "0 \<le> n" and "n < 2 ^ 32" and "0 \<le> pid" and "pid < next_page_id p"
  shows "eff p (put_next pid n (img p)) (set_next pid n p)"
proof (cases "is_memory p")
  case True
  from mem_set_eff(1) [OF assms(1) True assms(4,5), of "\<lambda>b. set_slice b 0 4 (be_bytes 4 n)"]
  show ?thesis using True assms length_img [OF assms(1,4,5)]
    by (simp add: set_next_def to_bytes_be_def length_set_slice put_next_def)
next
  case False
  from mmap_set_eff [OF assms(1) False assms(4,5), of 0 4 "be_bytes 4 n" "pid * 4096" "pid * 4096 + 4"]
  show ?thesis using False assms
    by (simp add: set_next_def to_bytes_be_def put_next_def)
qed

lemma write_page_eff:
  assumes "pager_wf p" and "length d = 4096" and "0 \<le> pid" and "pid < next_page_id p"
  shows "eff p ((img p)(pid := d)) (write_page pid d p)"
proof (cases "is_memory p")
  case True
  from mem_set_eff(1) [OF assms(1) True assms(3,4), of "\<lambda>_. d"]
  show ?thesis using True assms by (simp add: write_page_def)
next
  case False
  have "set_slice (img p pid) 0 4096 d = d"
    using length_img [OF assms(1,3,4)] by (simp add: set_slice_nonneg)
  with mmap_set_eff [OF assms(1) False assms(3,4), of 0 4096 d "pid * 4096" "pid * 4096 + 4096"]
  show ?thesis using False assms by (simp add: write_page_def)
qed

lemma zero_fill_eff:
  assumes "pager_wf p" and "0 \<le> pid" and "pid < next_page_id p"
    and "2 \<le> pid"
  shows "eff p ((img p)(pid := zero_page))
    ((if is_memory p then mem_set pid (\<lambda>_. zero_page)
      else mmap_set (pid * PAGE_SIZE) (pid * PAGE_SIZE + PAGE_SIZE) zero_page) p)"
proof (cases "is_memory p")
  case True
  then have "map_of (mem_pages p) pid \<noteq> None" using assms by (simp add: pager_wf_def)
  then show ?thesis using mem_set_eff(2) [OF assms(1) True assms(2,3), of "\<lambda>_. zero_page"] True
    by simp
next
  case False
  have "set_slice (img p pid) 0 4096 zero_page = zero_page"
    using length_img [OF assms(1-3)] by (simp add: set_slice_nonneg)
  with mmap_set_eff [OF assms(1) False assms(2,3), of 0 4096 zero_page "pid * 4096" "pid * 4096 + 4096"]
  show ?thesis using False by simp
qed

section \<open>The free list\<close>

text \<open>
  The free list is the chain of page ids from bytes 9 to 13 of page 0 through the
  first four bytes of each free page; 0 ends it. \<open>free_ids\<close> follows it, and the
  invariant says that it consists of distinct allocated pages other than the
  header and the catalog head.
\<close>

fun chain :: "(int \<Rightarrow> byte list) \<Rightarrow> int \<Rightarrow> int list \<Rightarrow> bool" where
  "chain I h [] \<longleftrightarrow> h = 0"
| "chain I h (x # xs) \<longleftrightarrow> h = x \<and> chain I (next_of I x) xs"

fun walk :: "nat \<Rightarrow> (int \<Rightarrow> byte list) \<Rightarrow> int \<Rightarrow> int list" where
  "walk 0 I h = []"
| "walk (Suc n) I h = (if h = 0 then [] else h # walk n I (next_of I h))"

definition free_ids :: "pager \<Rightarrow> int list" where
  "free_ids p = walk (nat (next_page_id p)) (img p) (head_of (img p))"

definition free_inv :: "pager \<Rightarrow> int list \<Rightarrow> bool" where
  "free_inv p fl \<longleftrightarrow>
     pager_wf p \<and> next_page_id p \<le> 2 ^ 32 \<and> chain (img p) (head_of (img p)) fl \<and>
     distinct fl \<and> set fl \<subseteq> {2..<next_page_id p}"

lemma chain_cong: "(\<And>x. x \<in> set xs \<Longrightarrow> I x = J x) \<Longrightarrow> chain I h xs = chain J h xs"
  by (induction xs arbitrary: h) (simp_all add: next_of_def)

lemma walk_chain: "chain I h xs \<Longrightarrow> 0 \<notin> set xs \<Longrightarrow> length xs \<le> n \<Longrightarrow> walk n I h = xs"
proof (induction xs arbitrary: h n)
  case Nil
  then show ?case by (cases n) simp_all
next
  case (Cons x xs)
  then obtain m where "n = Suc m" by (cases n) auto
  then show ?case using Cons by simp
qed

lemma free_ids_inv:
  assumes "free_inv p fl"
  shows "free_ids p = fl"
proof -
  have "card (set fl) \<le> card {2..<next_page_id p}"
    using assms by (intro card_mono) (auto simp: free_inv_def)
  then have "length fl \<le> nat (next_page_id p)"
    using assms by (simp add: free_inv_def distinct_card)
  then show ?thesis using assms by (auto simp: free_inv_def free_ids_def intro!: walk_chain)
qed

lemma be_int_next: "next_of (img p) pid < 2 ^ 32" "0 \<le> next_of (img p) pid"
proof -
  have "length (slice (img p pid) 0 4) \<le> 4" by (simp add: slice_nonneg)
  then have "(256::int) ^ length (slice (img p pid) 0 4) \<le> 256 ^ 4" by (intro power_increasing) simp_all
  then show "next_of (img p) pid < 2 ^ 32"
    using be_int_bound [of "slice (img p pid) 0 4"] by (simp add: next_of_def)
qed (simp add: next_of_def)

lemma be_int_head: "0 \<le> head_of (img p)" "head_of (img p) < 2 ^ 32"
proof -
  have "length (slice (img p 0) 9 13) \<le> 4" by (simp add: slice_nonneg)
  then have "(256::int) ^ length (slice (img p 0) 9 13) \<le> 256 ^ 4" by (intro power_increasing) simp_all
  then show "head_of (img p) < 2 ^ 32"
    using be_int_bound [of "slice (img p 0) 9 13"] by (simp add: head_of_def)
qed (simp add: head_of_def)

lemma free_page_eff:
  assumes "free_inv p fl" and "2 \<le> pid" and "pid < next_page_id p" and "pid \<notin> set fl"
  shows "\<exists>p'. free_page pid p = (Inr (), p') \<and> same_rest p p' \<and> free_inv p' (pid # fl) \<and>
    img p' = put_head pid (put_next pid (head_of (img p)) (img p))"
proof -
  have wf: "pager_wf p" and small: "next_page_id p \<le> 2 ^ 32" and ch: "chain (img p) (head_of (img p)) fl"
    using assms(1) by (simp_all add: free_inv_def)
  let ?J = "put_next pid (head_of (img p)) (img p)"
  have 1: "eff p ?J (set_next pid (head_of (img p)) p)"
    using assms wf be_int_head by (intro set_next_eff) simp_all
  have "eff p (put_head pid ?J) (bindS (set_next pid (head_of (img p))) (\<lambda>_. write_free_list_head pid) p)"
  proof (rule eff_bind)
    show "eff p ?J (set_next pid (head_of (img p)) p)" by (rule 1)
    show "eff q (put_head pid ?J) (write_free_list_head pid q)"
      if "pager_wf q" "same_rest p q" "img q = ?J" for q
      using write_free_list_head_eff [of q pid] that assms small by simp
  qed
  then have "eff p (put_head pid ?J) (free_page pid p)"
    using assms(2) read_free_list_head_img [OF wf] by (simp add: free_page_def)
  from effD [of p _ "free_page pid", OF this] obtain p' where p': "free_page pid p = (Inr (), p')"
    "pager_wf p'" "same_rest p p'" "img p' = put_head pid ?J" by auto
  have len: "length (img p 0) = 4096" "length (img p pid) = 4096"
    using length_img [OF wf, of 0] length_img [OF wf, of pid] in_range_next [OF wf] assms by simp_all
  have "head_of (img p') = pid" using assms len small by (simp add: p'(4))
  moreover have "next_of (img p') pid = head_of (img p)"
    using assms len be_int_head [of p] next_of_put_next [of "img p" pid "head_of (img p)"]
    by (simp add: p'(4) next_of_def)
  moreover have "chain (img p') (head_of (img p)) fl"
  proof -
    have "img p x = img p' x" if "x \<in> set fl" for x
    proof -
      have "2 \<le> x" "x \<noteq> pid" using that assms by (auto simp: free_inv_def)
      then show ?thesis by (simp add: p'(4))
    qed
    then show ?thesis using ch chain_cong [of fl "img p" "img p'"] by simp
  qed
  ultimately have "free_inv p' (pid # fl)"
    using assms p' by (auto simp: free_inv_def same_rest_def)
  then show ?thesis using p' by blast
qed

lemma alloc_page_reuse:
  assumes "free_inv p (x # fl)"
  shows "\<exists>p'. alloc_page p = (Inr x, p') \<and> same_rest p p' \<and> free_inv p' fl \<and>
    img p' = (put_head (next_of (img p) x) (img p))(x := zero_page)"
proof -
  have wf: "pager_wf p" and small: "next_page_id p \<le> 2 ^ 32"
    and ch: "head_of (img p) = x" "chain (img p) (next_of (img p) x) fl"
    and x: "2 \<le> x" "x < next_page_id p" "x \<notin> set fl"
    using assms by (simp_all add: free_inv_def)
  let ?n = "next_of (img p) x"
  let ?I = "(put_head ?n (img p))(x := zero_page)"
  have rd: "read_page x p = Inr (img p x)" using read_page_img [OF wf] x by simp
  let ?zero = "\<lambda>m. if m then mem_set x (\<lambda>_. zero_page)
    else mmap_set (x * PAGE_SIZE) (x * PAGE_SIZE + PAGE_SIZE) zero_page"
  have 1: "eff p (put_head ?n (img p)) (write_free_list_head ?n p)"
    using wf be_int_next by (intro write_free_list_head_eff) simp_all
  obtain q where q: "write_free_list_head ?n p = (Inr (), q)" "pager_wf q" "same_rest p q"
    "img q = put_head ?n (img p)" using effD [of p _ "write_free_list_head ?n", OF 1] by auto
  have "eff q ?I (?zero (is_memory q) q)"
    using zero_fill_eff [OF q(2), of x] x q by (simp add: same_rest_def)
  from effD [of q ?I "?zero (is_memory q)", OF this]
  obtain p' where p': "?zero (is_memory q) q = (Inr (), p')" "pager_wf p'" "same_rest q p'" "img p' = ?I"
    by auto
  have run: "alloc_page p = (Inr x, p')"
    using q(1) p'(1) rd x read_free_list_head_img [OF wf] ch
    by (simp add: alloc_page_def bindS_Inr next_of_def)
  have len: "length (img p 0) = 4096" using length_img [OF wf, of 0] in_range_next [OF wf] by simp
  have "head_of (img p') = ?n"
    using x len be_int_next [of p x] head_of_put_head [of "img p" ?n] by (simp add: p'(4) head_of_def)
  moreover have "chain (img p') ?n fl"
  proof -
    have "img p y = img p' y" if "y \<in> set fl" for y
    proof -
      have "2 \<le> y" "y \<noteq> x" using that assms by (auto simp: free_inv_def)
      then show ?thesis by (simp add: p'(4))
    qed
    then show ?thesis using ch(2) chain_cong [of fl "img p" "img p'"] by simp
  qed
  ultimately have "free_inv p' fl"
    using assms p' q by (auto simp: free_inv_def same_rest_def)
  then show ?thesis using run p' q same_rest_trans by blast
qed

lemma alloc_page_fresh:
  assumes "free_inv p []" and "next_page_id p < 2 ^ 32"
  shows "\<exists>p'. alloc_page p = (Inr (next_page_id p), p') \<and> is_memory p' = is_memory p \<and>
    wal_bytes p' = wal_bytes p \<and> next_page_id p' = next_page_id p + 1 \<and> free_inv p' [] \<and>
    img p' = (img p)(next_page_id p := zero_page)"
proof -
  let ?n = "next_page_id p"
  have wf: "pager_wf p" and head: "head_of (img p) = 0" using assms by (simp_all add: free_inv_def)
  have n2: "2 \<le> ?n" using wf by (simp add: pager_wf_def)
  show ?thesis
  proof (cases "is_memory p")
    case True
    let ?p' = "p\<lparr>next_page_id := ?n + 1, mem_pages := dict_setdefault ?n zero_page (mem_pages p)\<rparr>"
    have absent: "map_of (mem_pages p) ?n = None"
    proof (rule ccontr)
      assume "map_of (mem_pages p) ?n \<noteq> None"
      then obtain b where "map_of (mem_pages p) ?n = Some b" by auto
      then have "?n < ?n" using wf True unfolding pager_wf_def by auto
      then show False by simp
    qed
    have run: "alloc_page p = (Inr ?n, ?p')"
      using True head read_free_list_head_img [OF wf] by (simp add: alloc_page_def mem_ensure_def)
    have I: "img ?p' = (img p)(?n := zero_page)"
      using True absent n2 by (auto simp: img_def fun_eq_iff)
    have bound: "0 \<le> k \<and> k < ?n \<and> length b = 4096" if "map_of (mem_pages p) k = Some b" for k b
      using wf True that by (simp add: pager_wf_def)
    have "pager_wf ?p'" using wf True absent bound n2 by (force simp: pager_wf_def)
    moreover have "head_of (img ?p') = 0" using head n2 by (simp only: I head_of_def fun_upd_apply) simp
    ultimately have "free_inv ?p' []" using assms by (simp add: free_inv_def)
    then show ?thesis using run I by auto
  next
    case False
    have size: "int (length (main_file p)) = ?n * 4096" "mmap_size p = ?n * 4096"
      using wf False by (simp_all add: pager_wf_def)
    let ?f = "main_file p @ replicate 4096 0"
    let ?p' = "p\<lparr>next_page_id := ?n + 1, main_file := ?f, mmap_size := (?n + 1) * 4096\<rparr>"
    have more: "nat ((?n + 1) * 4096) - length (main_file p) = 4096"
    proof -
      have "(?n + 1) * 4096 = int (length (main_file p) + 4096)" using size(1) by simp
      then show ?thesis by (simp only: nat_int diff_add_inverse)
    qed
    have run: "alloc_page p = (Inr ?n, ?p')"
      using False head read_free_list_head_img [OF wf] size more
      by (simp add: alloc_page_def Let_def)
    have "img ?p' q = ((img p)(?n := zero_page)) q" for q
    proof -
      consider "q < 0" | "0 \<le> q" "q < ?n" | "q = ?n" | "?n < q" by linarith
      then show ?thesis
      proof cases
        case 2
        then have "nat (q * 4096) + 4096 \<le> length (main_file p)" using size(1) by linarith
        then show ?thesis using False 2 by (simp add: img_def)
      next
        case 3
        then have "nat (q * 4096) = length (main_file p)" using size(1) by linarith
        then show ?thesis using False 3 n2 by (simp add: img_def zero_page_def)
      next
        case 4
        then have "length (main_file p) + 4096 \<le> nat (q * 4096)" using size(1) by linarith
        then show ?thesis using False 4 n2 by (simp add: img_def)
      qed (use n2 in \<open>simp add: img_def\<close>)
    qed
    then have I: "img ?p' = (img p)(?n := zero_page)" by auto
    have "pager_wf ?p'" using wf False size by (simp add: pager_wf_def)
    moreover have "head_of (img ?p') = 0" using head n2 by (simp only: I head_of_def fun_upd_apply) simp
    ultimately have "free_inv ?p' []" using assms by (simp add: free_inv_def)
    then show ?thesis using run I by auto
  qed
qed

section \<open>The allocator interface\<close>

text \<open>
  What the index, the catalog and the executor rely on: \<open>alloc\<close> hands out a page
  that is not in use, zeroed; \<open>put\<close> and \<open>free\<close> touch the given page alone. The
  abstraction maps each page in use to its contents. \<open>page_use\<close> is the relation
  of disciplined use: a client writes and frees only pages it holds.
\<close>

inductive page_use ::
  "('s, int) cmd \<Rightarrow> (int \<Rightarrow> ('s, unit) cmd) \<Rightarrow> (int \<Rightarrow> byte list \<Rightarrow> ('s, unit) cmd) \<Rightarrow>
   ('s \<Rightarrow> bool) \<Rightarrow> ('s \<Rightarrow> bool) \<Rightarrow> 's \<Rightarrow> (int \<Rightarrow> byte list option) \<Rightarrow> bool"
  for alloc :: "('s, int) cmd" and free :: "int \<Rightarrow> ('s, unit) cmd"
    and put :: "int \<Rightarrow> byte list \<Rightarrow> ('s, unit) cmd" and room :: "'s \<Rightarrow> bool" and start :: "'s \<Rightarrow> bool"
  where
  use_start: "start s \<Longrightarrow> page_use alloc free put room start s (\<lambda>_. None)"
| use_alloc: "page_use alloc free put room start s m \<Longrightarrow> room s \<Longrightarrow> alloc s = (Inr i, s') \<Longrightarrow>
    page_use alloc free put room start s' (m(i \<mapsto> zero_page))"
| use_write: "page_use alloc free put room start s m \<Longrightarrow> m i \<noteq> None \<Longrightarrow> length d = 4096 \<Longrightarrow>
    put i d s = (r, s') \<Longrightarrow> page_use alloc free put room start s' (m(i \<mapsto> d))"
| use_free: "page_use alloc free put room start s m \<Longrightarrow> m i \<noteq> None \<Longrightarrow> free i s = (r, s') \<Longrightarrow>
    page_use alloc free put room start s' (m(i := None))"

locale page_allocator =
  fixes alloc :: "('s, int) cmd"
    and free :: "int \<Rightarrow> ('s, unit) cmd"
    and put :: "int \<Rightarrow> byte list \<Rightarrow> ('s, unit) cmd"
    and read :: "int \<Rightarrow> 's \<Rightarrow> byte list res"
    and room :: "'s \<Rightarrow> bool"
    and inv :: "'s \<Rightarrow> bool"
    and abs :: "'s \<Rightarrow> int \<Rightarrow> byte list option"
  assumes read_law: "inv s \<Longrightarrow> abs s i = Some d \<Longrightarrow> read i s = Inr d"
    and alloc_law: "inv s \<Longrightarrow> room s \<Longrightarrow>
      \<exists>i s'. alloc s = (Inr i, s') \<and> inv s' \<and> abs s i = None \<and> abs s' = (abs s)(i \<mapsto> zero_page)"
    and write_law: "inv s \<Longrightarrow> abs s i \<noteq> None \<Longrightarrow> length d = 4096 \<Longrightarrow>
      \<exists>s'. put i d s = (Inr (), s') \<and> inv s' \<and> abs s' = (abs s)(i \<mapsto> d)"
    and free_law: "inv s \<Longrightarrow> abs s i \<noteq> None \<Longrightarrow>
      \<exists>s'. free i s = (Inr (), s') \<and> inv s' \<and> abs s' = (abs s)(i := None)"
begin

lemma use_abs:
  assumes "page_use alloc free put room start s m"
    and "\<And>s. start s \<Longrightarrow> inv s \<and> abs s = (\<lambda>_. None)"
  shows "inv s \<and> abs s = m"
  using assms
proof (induction rule: page_use.induct)
  case (use_alloc s m i s')
  then show ?case using alloc_law [of s] by auto
next
  case (use_write s m i d r s')
  then show ?case using write_law [of s i d] by auto
next
  case (use_free s m i r s')
  then show ?case using free_law [of s i] by auto
qed simp

lemma use_read:
  assumes "page_use alloc free put room start s m"
    and "\<And>s. start s \<Longrightarrow> inv s \<and> abs s = (\<lambda>_. None)" and "m i = Some d"
  shows "read i s = Inr d"
  using use_abs [OF assms(1,2)] read_law assms(3) by auto

lemma use_alloc_fresh:
  assumes "page_use alloc free put room start s m"
    and "\<And>s. start s \<Longrightarrow> inv s \<and> abs s = (\<lambda>_. None)" and "room s"
  shows "\<exists>i s'. alloc s = (Inr i, s') \<and> m i = None"
  using use_abs [OF assms(1,2)] alloc_law assms(3) by fastforce

end

definition pages_in_use :: "pager \<Rightarrow> int \<Rightarrow> byte list option" where
  "pages_in_use p i =
     (if 2 \<le> i \<and> i < next_page_id p \<and> i \<notin> set (free_ids p) then Some (img p i) else None)"

definition pager_inv :: "pager \<Rightarrow> bool" where
  "pager_inv p \<longleftrightarrow> free_inv p (free_ids p)"

definition has_room :: "pager \<Rightarrow> bool" where
  "has_room p \<longleftrightarrow> next_page_id p < 2 ^ 32"

lemma pager_invI: "free_inv p fl \<Longrightarrow> pager_inv p \<and> free_ids p = fl"
  using free_ids_inv [of p fl] by (simp add: pager_inv_def)

lemma alloc_page_law:
  assumes "pager_inv p" and "has_room p"
  shows "\<exists>i p'. alloc_page p = (Inr i, p') \<and> pager_inv p' \<and> pages_in_use p i = None \<and>
    pages_in_use p' = (pages_in_use p)(i \<mapsto> zero_page)"
proof (cases "free_ids p")
  case Nil
  then obtain p' where a: "alloc_page p = (Inr (next_page_id p), p')" "free_inv p' []"
      "next_page_id p' = next_page_id p + 1" "img p' = (img p)(next_page_id p := zero_page)"
    using alloc_page_fresh [of p] assms by (auto simp: pager_inv_def has_room_def)
  have "2 \<le> next_page_id p" using assms(1) by (simp add: pager_inv_def free_inv_def pager_wf_def)
  then have "pages_in_use p' = (pages_in_use p)(next_page_id p \<mapsto> zero_page)"
    using a pager_invI [OF a(2)] Nil by (auto simp: pages_in_use_def fun_eq_iff)
  then show ?thesis using a(1) pager_invI [OF a(2)] by (auto simp: pages_in_use_def)
next
  case (Cons x fl)
  then have inv: "free_inv p (x # fl)" using assms(1) by (simp add: pager_inv_def)
  then obtain p' where a: "alloc_page p = (Inr x, p')" "free_inv p' fl" "same_rest p p'"
      "img p' = (put_head (next_of (img p) x) (img p))(x := zero_page)"
    using alloc_page_reuse by blast
  have x: "2 \<le> x" "x < next_page_id p" "x \<notin> set fl" using inv by (auto simp: free_inv_def)
  then have "pages_in_use p' = (pages_in_use p)(x \<mapsto> zero_page)"
    using a pager_invI [OF a(2)] Cons by (auto simp: pages_in_use_def fun_eq_iff same_rest_def)
  then show ?thesis using a(1) pager_invI [OF a(2)] Cons by (auto simp: pages_in_use_def)
qed

lemma write_page_law:
  assumes "pager_inv p" and "pages_in_use p i \<noteq> None" and "length d = 4096"
  shows "\<exists>p'. write_page i d p = (Inr (), p') \<and> pager_inv p' \<and>
    pages_in_use p' = (pages_in_use p)(i \<mapsto> d)"
proof -
  have i: "2 \<le> i" "i < next_page_id p" "i \<notin> set (free_ids p)"
    using assms(2) by (auto simp: pages_in_use_def split: if_splits)
  have inv: "free_inv p (free_ids p)" using assms(1) by (simp add: pager_inv_def)
  then have wf: "pager_wf p" by (simp add: free_inv_def)
  have "eff p ((img p)(i := d)) (write_page i d p)"
    using i by (intro write_page_eff [OF wf assms(3)]) simp_all
  from effD [of p _ "write_page i d", OF this] obtain p' where p': "write_page i d p = (Inr (), p')"
    "pager_wf p'" "same_rest p p'" "img p' = (img p)(i := d)" by auto
  have "chain (img p') (head_of (img p)) (free_ids p)"
    using inv i(3) chain_cong [of "free_ids p" "img p" "img p'"] by (simp add: p'(4) free_inv_def)
      (metis fun_upd_other p'(4))
  moreover have "head_of (img p') = head_of (img p)" using i by (simp add: p'(4) head_of_def)
  ultimately have "free_inv p' (free_ids p)"
    using inv p' by (auto simp: free_inv_def same_rest_def)
  with pager_invI [OF this] show ?thesis using p' i
    by (auto simp: pages_in_use_def same_rest_def fun_eq_iff)
qed

lemma free_page_law:
  assumes "pager_inv p" and "pages_in_use p i \<noteq> None"
  shows "\<exists>p'. free_page i p = (Inr (), p') \<and> pager_inv p' \<and>
    pages_in_use p' = (pages_in_use p)(i := None)"
proof -
  have i: "2 \<le> i" "i < next_page_id p" "i \<notin> set (free_ids p)"
    using assms(2) by (auto simp: pages_in_use_def split: if_splits)
  then obtain p' where p': "free_page i p = (Inr (), p')" "same_rest p p'"
      "free_inv p' (i # free_ids p)" "img p' = put_head i (put_next i (head_of (img p)) (img p))"
    using free_page_eff assms(1) unfolding pager_inv_def by blast
  from pager_invI [OF p'(3)] show ?thesis using p' i
    by (auto simp: pages_in_use_def same_rest_def fun_eq_iff)
qed

interpretation pager_pages: page_allocator alloc_page free_page write_page read_page has_room
  pager_inv pages_in_use
proof unfold_locales
  fix p i d
  show "pager_inv p \<Longrightarrow> pages_in_use p i = Some d \<Longrightarrow> read_page i p = Inr d"
    using read_page_img [of p i]
    by (auto simp: pager_inv_def free_inv_def pages_in_use_def split: if_splits)
qed (rule alloc_page_law write_page_law free_page_law; assumption)+

section \<open>Opening establishes the invariant\<close>

lemma length_file_header [simp, byte_simps]: "length file_header = 4096"
  by (simp add: file_header_def MAGIC_def)

lemma file_header_free: "slice file_header 9 13 = [0, 0, 0, 0]"
  unfolding file_header_def by (simp add: slice_nonneg MAGIC_def)

lemma new_memory_pager_inv: "pager_inv new_memory_pager \<and> pages_in_use new_memory_pager = (\<lambda>_. None)"
proof -
  have "head_of (img new_memory_pager) = 0"
    by (simp add: head_of_def img_def new_memory_pager_def file_header_free be_int_def)
  then have "free_inv new_memory_pager []"
    by (simp add: free_inv_def) (auto simp: new_memory_pager_def pager_wf_def)
  then show ?thesis using pager_invI by (auto simp: pages_in_use_def new_memory_pager_def)
qed

lemma new_file_pager_inv:
  assumes "open_main None w = Inr p"
  shows "pager_inv p \<and> pages_in_use p = (\<lambda>_. None)"
proof -
  have p: "p = \<lparr>is_memory = False, mem_pages = [], main_file = file_header @ zero_page,
      mmap_size = 8192, next_page_id = 2, wal_is_open = False, wal_bytes = w\<rparr>"
    using assms by (simp add: open_main_def open_file_def)
  have "head_of (img p) = 0"
    by (simp add: p head_of_def img_def file_header_free be_int_def)
  then have "free_inv p []" by (simp add: free_inv_def) (simp add: p pager_wf_def)
  then show ?thesis using pager_invI by (auto simp: pages_in_use_def p)
qed

definition new_pager :: "pager \<Rightarrow> bool" where
  "new_pager p \<longleftrightarrow> p = new_memory_pager \<or> (\<exists>w. open_main None w = Inr p)"

lemma new_pager_inv: "new_pager p \<Longrightarrow> pager_inv p \<and> pages_in_use p = (\<lambda>_. None)"
  unfolding new_pager_def using new_memory_pager_inv new_file_pager_inv by blast

section \<open>Properties\<close>

text \<open>
  C2. In a client's disciplined use of a new pager, in memory or on a new file, whatever pages
  are allocated, written, freed and reused in whatever order, reading a page the client holds
  returns exactly what was last written to it, or zeros when it was only allocated.
\<close>

theorem pager_use_read:
  assumes "page_use alloc_page free_page write_page has_room new_pager p m" and "m i = Some d"
  shows "read_page i p = Inr d"
  using assms(1) new_pager_inv assms(2) by (rule pager_pages.use_read)

lemma pager_use_read_witness:
  "\<exists>p. page_use alloc_page free_page write_page has_room new_pager p [2 \<mapsto> zero_page] \<and>
     read_page 2 p = Inr zero_page"
proof -
  have "free_inv new_memory_pager []"
    using new_memory_pager_inv free_ids_inv
    by (simp add: pager_inv_def) (simp add: free_ids_def head_of_def img_def new_memory_pager_def
      file_header_free be_int_def numeral_2_eq_2)
  then obtain p where "alloc_page new_memory_pager = (Inr 2, p)"
    using alloc_page_fresh [of new_memory_pager] by (auto simp: new_memory_pager_def)
  then have "page_use alloc_page free_page write_page has_room new_pager p [2 \<mapsto> zero_page]"
    by (intro use_alloc [OF use_start]) (auto simp: new_pager_def has_room_def new_memory_pager_def)
  then show ?thesis using pager_use_read [of p _ 2 zero_page] by auto
qed

text \<open>
  As long as the page count fits 32 bits, \<open>alloc_page\<close> succeeds and never hands out a page
  that is in use.
\<close>

theorem pager_alloc_fresh:
  assumes "page_use alloc_page free_page write_page has_room new_pager p m" and "has_room p"
  shows "\<exists>i p'. alloc_page p = (Inr i, p') \<and> m i = None"
  using assms(1) new_pager_inv assms(2) by (rule pager_pages.use_alloc_fresh)

lemma pager_alloc_fresh_witness: "\<exists>i p'. alloc_page new_memory_pager = (Inr i, p')"
  using pager_alloc_fresh [OF use_start, of new_memory_pager]
  by (auto simp: new_pager_def has_room_def new_memory_pager_def)

text \<open>
  A file of at least nine bytes opens exactly when it carries the magic prefix and is of
  version 1, or of version 3 with schema 3, or of version 2 with schema 3, or with schema 2 and
  no log beside it; the opened file then has schema byte 3, and nothing after its free list head
  has changed.
\<close>

theorem open_file_accepts:
  assumes "9 \<le> length b"
  shows "((\<exists>r. open_file (Some b) w = Inr r) \<longleftrightarrow>
      take 7 b = MAGIC_PREFIX \<and>
      (b ! 7 = 1 \<or> b ! 7 = 3 \<and> b ! 8 = 3 \<or> b ! 7 = 2 \<and> (b ! 8 = 3 \<or> b ! 8 = 2 \<and> \<not> w))) \<and>
    (open_file (Some b) w = Inr (b', n) \<longrightarrow>
      n = int (length b) \<and> take 7 b' = take 7 b \<and> b' ! 8 = 3 \<and> drop 13 b' = drop 13 b)"
proof (intro conjI impI)
  have ne: "b \<noteq> []" using assms by auto
  have items: "get_item (take 9 b) 7 = Inr (b ! 7)" "get_item (take 9 b) 8 = Inr (b ! 8)"
    using assms by (simp_all add: get_item_nonneg)
  note defs = open_file_def Let_def slice_to_nonneg items
  show "(\<exists>r. open_file (Some b) w = Inr r) \<longleftrightarrow>
      take 7 b = MAGIC_PREFIX \<and>
      (b ! 7 = 1 \<or> b ! 7 = 3 \<and> b ! 8 = 3 \<or> b ! 7 = 2 \<and> (b ! 8 = 3 \<or> b ! 8 = 2 \<and> \<not> w))"
    using ne by (auto simp: defs)
  assume opened: "open_file (Some b) w = Inr (b', n)"
  show "n = int (length b)" using opened ne by (auto simp: defs split: if_splits)
  have "b' = b \<and> b ! 8 = 3 \<or> b' = file_write b 8 [3] \<or> b' = file_write b 7 [3, 3, 0, 0, 0, 0]"
    using opened ne by (auto simp: defs split: if_splits)
  moreover have "drop 13 (file_write b 8 [3]) = drop 13 b" "drop 13 (file_write b 7 [3, 3, 0, 0, 0, 0]) = drop 13 b"
    "file_write b 8 [3] ! 8 = 3" "file_write b 7 [3, 3, 0, 0, 0, 0] ! 8 = 3"
    "take 7 (file_write b 8 [3]) = take 7 b" "take 7 (file_write b 7 [3, 3, 0, 0, 0, 0]) = take 7 b"
    using assms by (simp_all add: file_write_def nth_append min_absorb2)
  ultimately show "take 7 b' = take 7 b" "b' ! 8 = 3" "drop 13 b' = drop 13 b" by auto
qed

lemma open_file_accepts_witness:
  "\<exists>b n. open_file (Some (MAGIC_PREFIX @ [1, 1])) True = Inr (b, n) \<and> n = 9"
proof -
  note A = open_file_accepts [of "MAGIC_PREFIX @ [1, 1]" True]
  have len: "9 \<le> length (MAGIC_PREFIX @ [1, 1])" by (simp add: MAGIC_PREFIX_def)
  obtain b n where o: "open_file (Some (MAGIC_PREFIX @ [1, 1])) True = Inr (b, n)"
    using A [OF len, of undefined undefined, THEN conjunct1] by (auto simp: MAGIC_PREFIX_def)
  then show ?thesis using A [OF len, of b n] by (simp add: MAGIC_PREFIX_def)
qed

end
