(* ===== verification/Transaction.thy ===== *)
theory Transaction
  imports Pager
begin

text \<open>
  \<open>src/tinydb/transaction.py\<close>: the state machine of a transaction over the pager.
  Methods are commands on the pair of transaction and pager. The pager is an object of which the
  transaction calls five methods (\<open>txn_pager\<close>), so that the same code also runs on files
  that stop in the middle of a write (\<open>Recovery\<close>). Lemmas: a
  transaction that left \<open>ACTIVE\<close> never acts again, a commit installs the pending
  pages in the main file and empties the log of the transaction, and a rollback
  leaves the pages as they were.
\<close>

datatype txn_state = ACTIVE | COMMITTED | ROLLED_BACK

record txn =
  t_id :: int
  t_state :: txn_state
  pending_writes :: "(int, byte list) dict"

definition new_txn :: "int \<Rightarrow> txn" where
  "new_txn i = \<lparr>t_id = i, t_state = ACTIVE, pending_writes = []\<rparr>"

text \<open>
  The methods of its pager that a transaction calls. The operations are defined over any such
  object; those of \<open>Pager\<close> are \<open>pager_methods\<close>, and \<open>Recovery\<close> runs the same code on files
  that stop changing after a number of bytes.
\<close>

record 'p txn_pager =
  m_append_page :: "int \<Rightarrow> int \<Rightarrow> byte list \<Rightarrow> ('p, unit) cmd"
  m_append_commit :: "int \<Rightarrow> ('p, unit) cmd"
  m_append_rollback :: "int \<Rightarrow> ('p, unit) cmd"
  m_write_main :: "int \<Rightarrow> byte list \<Rightarrow> ('p, unit) cmd"
  m_truncate_before :: "int \<Rightarrow> ('p, unit) cmd"

definition pager_methods :: "pager txn_pager" where
  "pager_methods =
     \<lparr>m_append_page = wal_append_page, m_append_commit = wal_append_commit, m_append_rollback = wal_append_rollback,
      m_write_main = write_main_page, m_truncate_before = wal_truncate_before\<rparr>"

definition on_pager :: "('p, 'a) cmd \<Rightarrow> (txn \<times> 'p, 'a) cmd" where
  "on_pager c = (\<lambda>(t, p). let (r, p') = c p in (r, (t, p')))"

definition set_state :: "txn_state \<Rightarrow> (txn \<times> 'p, unit) cmd" where
  "set_state st = modifyS (\<lambda>(t, p). (t\<lparr>t_state := st\<rparr>, p))"

definition require_active :: "(txn \<times> 'p, unit) cmd" where
  "require_active = bindS (getS (\<lambda>(t, p). t_state t)) (\<lambda>st.
     if st \<noteq> ACTIVE then raiseS InvalidTxnState else returnS ())"

definition txn_write_on :: "'p txn_pager \<Rightarrow> int \<Rightarrow> byte list \<Rightarrow> (txn \<times> 'p, unit) cmd" where
  "txn_write_on io pid d =
     bindS require_active (\<lambda>_.
     bindS (getS (\<lambda>(t, p). t_id t)) (\<lambda>i.
     bindS (on_pager (m_append_page io i pid d)) (\<lambda>_.
     modifyS (\<lambda>(t, p). (t\<lparr>pending_writes := AList.update pid d (pending_writes t)\<rparr>, p)))))"

text \<open>The two \<open>fsync\<close> calls of \<open>commit\<close> do not change what the files hold.\<close>

definition commit_body_on :: "'p txn_pager \<Rightarrow> (txn \<times> 'p, unit) cmd" where
  "commit_body_on io =
     bindS (getS (\<lambda>(t, p). t_id t)) (\<lambda>i.
     bindS (on_pager (m_append_commit io i)) (\<lambda>_.
     bindS (getS (\<lambda>(t, p). pending_writes t)) (\<lambda>pending.
     bindS (forS pending (\<lambda>(pid, d). on_pager (m_write_main io pid d))) (\<lambda>_.
     bindS (on_pager (m_truncate_before io (i + 1))) (\<lambda>_.
     set_state COMMITTED)))))"

definition commit_on :: "'p txn_pager \<Rightarrow> (txn \<times> 'p, unit) cmd" where
  "commit_on io =
     bindS require_active (\<lambda>_.
     catchS (commit_body_on io) (\<lambda>e. bindS (set_state ROLLED_BACK) (\<lambda>_. raiseS e)))"

definition rollback_on :: "'p txn_pager \<Rightarrow> (txn \<times> 'p, unit) cmd" where
  "rollback_on io =
     bindS require_active (\<lambda>_.
     bindS (getS (\<lambda>(t, p). t_id t)) (\<lambda>i.
     bindS (on_pager (m_append_rollback io i)) (\<lambda>_.
     bindS (on_pager (m_truncate_before io (i + 1))) (\<lambda>_.
     set_state ROLLED_BACK))))"

definition txn_write_page :: "int \<Rightarrow> byte list \<Rightarrow> (txn \<times> pager, unit) cmd" where
  "txn_write_page = txn_write_on pager_methods"

definition commit :: "(txn \<times> pager, unit) cmd" where
  "commit = commit_on pager_methods"

definition rollback :: "(txn \<times> pager, unit) cmd" where
  "rollback = rollback_on pager_methods"

lemma pager_methods_simps:
  "m_append_page pager_methods = wal_append_page" "m_append_commit pager_methods = wal_append_commit"
  "m_append_rollback pager_methods = wal_append_rollback" "m_write_main pager_methods = write_main_page"
  "m_truncate_before pager_methods = wal_truncate_before"
  by (simp_all add: pager_methods_def)

lemmas txn_write_page_eq = txn_write_page_def [unfolded txn_write_on_def [abs_def] pager_methods_simps]
lemmas commit_body_eq = commit_body_on_def [of pager_methods, unfolded pager_methods_simps]
lemmas commit_eq = commit_def [unfolded commit_on_def]
lemmas rollback_eq = rollback_def [unfolded rollback_on_def pager_methods_simps]

section \<open>The state machine\<close>

inductive txn_step :: "txn \<times> pager \<Rightarrow> txn \<times> pager \<Rightarrow> bool" where
  step_write: "txn_write_page pid d s = (r, s') \<Longrightarrow> txn_step s s'"
| step_commit: "commit s = (r, s') \<Longrightarrow> txn_step s s'"
| step_rollback: "rollback s = (r, s') \<Longrightarrow> txn_step s s'"

inductive_cases txn_stepE: "txn_step s s'"

lemma require_active_simps:
  "t_state t = ACTIVE \<Longrightarrow> require_active (t, p) = (Inr (), (t, p))"
  "t_state t \<noteq> ACTIVE \<Longrightarrow> require_active (t, p) = (Inl InvalidTxnState, (t, p))"
  by (simp_all add: require_active_def)

lemma finished_simps:
  assumes "t_state t \<noteq> ACTIVE"
  shows "txn_write_page pid d (t, p) = (Inl InvalidTxnState, (t, p))"
    "commit (t, p) = (Inl InvalidTxnState, (t, p))"
    "rollback (t, p) = (Inl InvalidTxnState, (t, p))"
  by (simp_all add: txn_write_page_eq commit_eq rollback_eq bindS_def require_active_simps(2) [OF assms])

lemma on_pager_txn: "on_pager c (t, p) = (r, (t', p')) \<Longrightarrow> t' = t"
  by (simp add: on_pager_def case_prod_beta)

lemma on_pager_run: "c p = (r, p') \<Longrightarrow> on_pager c (t, p) = (r, (t, p'))"
  by (simp add: on_pager_def)

lemma commit_finishes:
  assumes "t_state t = ACTIVE" and "commit (t, p) = (r, (t', p'))"
  shows "t_state t' = (if r = Inr () then COMMITTED else ROLLED_BACK)"
proof -
  obtain rb tb pb where b: "commit_body_on pager_methods (t, p) = (rb, (tb, pb))"
    by (cases "commit_body_on pager_methods (t, p)") auto
  show ?thesis
  proof (cases rb)
    case (Inl e)
    then show ?thesis using assms b require_active_simps(1) [OF assms(1), of p]
      by (auto simp: commit_eq bindS_Inr catchS_def set_state_def)
  next
    case (Inr u)
    then have "t_state tb = COMMITTED"
      using b by (auto simp: commit_body_eq bindS_eq_Inr set_state_def)
    then show ?thesis using Inr assms b require_active_simps(1) [OF assms(1), of p]
      by (auto simp: commit_eq bindS_Inr catchS_def)
  qed
qed

section \<open>The log seen by the pager\<close>

definition wal_has :: "pager \<Rightarrow> wal_rec list \<Rightarrow> bool" where
  "wal_has p rs \<longleftrightarrow>
     (if wal_is_open p then \<exists>b. wal_bytes p = Some b \<and> wal_repr b rs
      else \<exists>b. wal_open (wal_bytes p) = Inr b \<and> wal_repr b rs)"

lemma get_or_open_wal_has:
  assumes "wal_has p rs"
  shows "\<exists>b. get_or_open_wal p = (Inr b, p\<lparr>wal_is_open := True, wal_bytes := Some b\<rparr>) \<and> wal_repr b rs"
  using assms
  by (auto simp: wal_has_def get_or_open_wal_def split: if_splits bool.splits option.splits)

lemma wal_record_has:
  assumes "wal_has p rs" and "rec_ok \<lparr>r_txn = t, r_kind = k, r_page = i, r_data = d\<rparr>"
  shows "\<exists>b. wal_record t k i d p = (Inr (), p\<lparr>wal_is_open := True, wal_bytes := Some b\<rparr>) \<and>
    wal_repr b (rs @ [\<lparr>r_txn = t, r_kind = k, r_page = i, r_data = d\<rparr>])"
proof -
  obtain b where b: "get_or_open_wal p = (Inr b, p\<lparr>wal_is_open := True, wal_bytes := Some b\<rparr>)" "wal_repr b rs"
    using get_or_open_wal_has [OF assms(1)] by blast
  with wal_log.app_law [OF b(2) assms(2)] show ?thesis
    by (auto simp: wal_record_def bindS_Inr)
qed

lemma wal_truncate_has:
  assumes "wal_has p rs"
  shows "\<exists>b. wal_truncate_before k p = (Inr (), p\<lparr>wal_is_open := True, wal_bytes := Some b\<rparr>) \<and>
    wal_repr b (filter (\<lambda>r. k \<le> r_txn r) rs)"
proof -
  obtain b where b: "get_or_open_wal p = (Inr b, p\<lparr>wal_is_open := True, wal_bytes := Some b\<rparr>)" "wal_repr b rs"
    using get_or_open_wal_has [OF assms] by blast
  with wal_log.trunc_law [OF b(2), of k] show ?thesis
    by (auto simp: wal_truncate_before_def bindS_Inr)
qed

section \<open>What commit and rollback do to the pages\<close>

definition page_write_ok :: "pager \<Rightarrow> int \<times> byte list \<Rightarrow> bool" where
  "page_write_ok p w \<longleftrightarrow> 0 \<le> fst w \<and> fst w < next_page_id p \<and> fst w < 256 ^ 4 \<and> length (snd w) = 4096"

definition put_page :: "(int \<Rightarrow> byte list) \<Rightarrow> int \<times> byte list \<Rightarrow> int \<Rightarrow> byte list" where
  "put_page I w = I(fst w := snd w)"

definition put_pages :: "(int \<Rightarrow> byte list) \<Rightarrow> (int \<times> byte list) list \<Rightarrow> int \<Rightarrow> byte list" where
  "put_pages I ws = foldl put_page I ws"

definition pending_of :: "(int \<times> byte list) list \<Rightarrow> (int, byte list) dict" where
  "pending_of ws = foldl (\<lambda>m w. AList.update (fst w) (snd w) m) [] ws"

lemma put_pages_simps [simp]:
  "put_pages I [] = I" "put_pages I (w # ws) = put_pages (put_page I w) ws"
  "put_pages I (ws @ vs) = put_pages (put_pages I ws) vs"
  by (simp_all add: put_pages_def)

lemma put_pages_map_of:
  "distinct (map fst ws) \<Longrightarrow> put_pages I ws q = (case map_of ws q of None \<Rightarrow> I q | Some d \<Rightarrow> d)"
proof (induction ws arbitrary: I)
  case (Cons w ws)
  obtain a b where w: "w = (a, b)" by force
  have "map_of ws a = None" using Cons.prems by (auto simp: w map_of_eq_None_iff)
  then show ?case using Cons by (auto simp: w put_page_def split: option.splits)
qed simp

lemma pending_of_snoc: "pending_of (ws @ [w]) = AList.update (fst w) (snd w) (pending_of ws)"
  by (simp add: pending_of_def)

lemma distinct_pending: "distinct (map fst (pending_of ws))"
  by (induction ws rule: rev_induct) (simp_all add: pending_of_def distinct_update)

lemma put_pending: "put_pages I (pending_of ws) = put_pages I ws"
proof (induction ws rule: rev_induct)
  case Nil
  then show ?case by (simp add: pending_of_def)
next
  case (snoc w ws)
  have "put_pages I (pending_of (ws @ [w])) q = put_page (put_pages I (pending_of ws)) w q" for q
    by (simp add: put_pages_map_of [OF distinct_pending] put_page_def)
      (simp add: pending_of_snoc)
  then show ?case using snoc by auto
qed

lemma set_update_subset: "set (AList.update k v l) \<subseteq> insert (k, v) (set l)"
  by (induction l) auto

lemma set_pending: "set (pending_of ws) \<subseteq> set ws"
proof (induction ws rule: rev_induct)
  case (snoc w ws)
  then show ?case
    using set_update_subset [of "fst w" "snd w" "pending_of ws"] by (auto simp: pending_of_snoc)
qed (simp add: pending_of_def)

lemma write_main_page_eff:
  assumes "pager_wf p" and "length d = 4096" and "0 \<le> pid" and "pid < next_page_id p"
  shows "eff p ((img p)(pid := d)) (write_main_page pid d p)"
proof -
  have "write_main_page pid d p = write_page pid d p"
  proof (cases "is_memory p")
    case True
    then show ?thesis using assms by (simp add: write_main_page_def write_page_def)
  next
    case False
    then have size: "int (length (main_file p)) = next_page_id p * 4096" and m: "mapped p = main_file p"
      "drop (nat (mmap_size p)) (main_file p) = []"
    proof -
      show "int (length (main_file p)) = next_page_id p * 4096" using False assms(1) by (simp add: pager_wf_def)
      have "mmap_size p = int (length (main_file p))" using False assms(1) by (simp add: pager_wf_def)
      then show "drop (nat (mmap_size p)) (main_file p) = []" by simp
    qed (rule mapped_wf [OF assms(1) False])
    have room: "nat (pid * 4096) + 4096 \<le> length (main_file p)" using size assms(3,4) by linarith
    then have "file_write (main_file p) (pid * 4096) d = set_slice (main_file p) (pid * 4096) (pid * 4096 + 4096) d"
      using assms(2,3) by (simp add: file_write_def set_slice_nonneg nat_add_distrib)
    moreover have "length (slice (main_file p) (pid * 4096) (pid * 4096 + 4096)) = 4096"
      using room assms(3) by (simp add: slice_nonneg nat_add_distrib)
    ultimately show ?thesis using False assms(2,3) m
      by (simp add: write_main_page_def write_page_def mmap_set_def)
  qed
  then show ?thesis using write_page_eff [OF assms] by simp
qed

lemma main_writes_eff:
  assumes "pager_wf p" and "list_all (page_write_ok p) ws"
  shows "eff p (put_pages (img p) ws) (forS ws (\<lambda>(pid, d). write_main_page pid d) p)"
  using assms
proof (induction ws arbitrary: p)
  case Nil
  then show ?case by (simp add: eff_def)
next
  case (Cons w ws)
  obtain pid d where w: "w = (pid, d)" by force
  have ok: "0 \<le> pid" "pid < next_page_id p" "length d = 4096"
    using Cons.prems(2) by (simp_all add: w page_write_ok_def)
  have one: "eff p (put_page (img p) w) (write_main_page pid d p)"
    using write_main_page_eff [OF Cons.prems(1)] ok by (simp add: w put_page_def)
  have "eff q (put_pages (img p) (w # ws)) (forS ws (\<lambda>(pid, d). write_main_page pid d) q)"
    if "pager_wf q" "same_rest p q" "img q = put_page (img p) w" for q
    using Cons.IH [of q] Cons.prems(2) that by (auto simp: page_write_ok_def same_rest_def list_all_iff)
  with one have "eff p (put_pages (img p) (w # ws))
      (bindS (write_main_page pid d) (\<lambda>_. forS ws (\<lambda>(pid, d). write_main_page pid d)) p)"
    by (rule eff_bind)
  then show ?case by (simp add: w)
qed

lemma forS_on_pager: "forS ws (\<lambda>(i, d). on_pager (c i d)) (t, p) = on_pager (forS ws (\<lambda>(i, d). c i d)) (t, p)"
proof (induction ws arbitrary: p)
  case (Cons w ws)
  obtain i d where w: "w = (i, d)" by force
  obtain r q where c: "c i d p = (r, q)" by force
  show ?case
  proof (cases r)
    case (Inl e)
    then show ?thesis using c by (simp add: w bindS_def on_pager_def)
  next
    case (Inr u)
    then show ?thesis using c Cons by (simp add: w bindS_def on_pager_def)
  qed
qed (simp add: on_pager_def)

text \<open>
  A transaction in progress: its log holds one record per write, and nothing has
  reached the pages.
\<close>

definition page_rec :: "int \<Rightarrow> int \<times> byte list \<Rightarrow> wal_rec" where
  "page_rec i w = \<lparr>r_txn = i, r_kind = 1, r_page = fst w, r_data = snd w\<rparr>"

definition end_rec :: "int \<Rightarrow> int \<Rightarrow> wal_rec" where
  "end_rec i k = \<lparr>r_txn = i, r_kind = k, r_page = 0, r_data = []\<rparr>"

definition in_txn :: "int \<Rightarrow> pager \<Rightarrow> (int \<times> byte list) list \<Rightarrow> txn \<times> pager \<Rightarrow> bool" where
  "in_txn i p0 ws s \<longleftrightarrow>
     (case s of (t, p) \<Rightarrow>
        t = \<lparr>t_id = i, t_state = ACTIVE, pending_writes = pending_of ws\<rparr> \<and>
        wal_has p (map (page_rec i) ws) \<and> img p = img p0 \<and> pager_wf p \<and>
        next_page_id p = next_page_id p0)"

lemma wal_fields [simp]:
  "img (p\<lparr>wal_is_open := a, wal_bytes := b\<rparr>) = img p"
  "pager_wf (p\<lparr>wal_is_open := a, wal_bytes := b\<rparr>) = pager_wf p"
  by (auto simp: img_def pager_wf_def)

lemma wal_has_open [simp]:
  "wal_has (p\<lparr>wal_is_open := True, wal_bytes := Some b\<rparr>) rs \<longleftrightarrow> wal_repr b rs"
  by (simp add: wal_has_def)

lemma txn_write_page_in_txn:
  assumes "in_txn i p0 ws s" and "0 \<le> i" and "i < 256 ^ 8" and "page_write_ok p0 w"
  shows "\<exists>s'. txn_write_page (fst w) (snd w) s = (Inr (), s') \<and> in_txn i p0 (ws @ [w]) s'"
proof -
  obtain t p where s: "s = (t, p)" by force
  have t: "t = \<lparr>t_id = i, t_state = ACTIVE, pending_writes = pending_of ws\<rparr>"
    and w: "wal_has p (map (page_rec i) ws)" using assms(1) by (simp_all add: s in_txn_def)
  have "rec_ok (page_rec i w)" using assms by (simp add: rec_ok_def page_rec_def page_write_ok_def)
  then obtain b where "wal_append_page i (fst w) (snd w) p = (Inr (), p\<lparr>wal_is_open := True, wal_bytes := Some b\<rparr>)"
      "wal_repr b (map (page_rec i) ws @ [page_rec i w])"
    using wal_record_has [OF w, of i 1 "fst w" "snd w"] by (auto simp: page_rec_def wal_append_page_def)
  then show ?thesis
    using assms(1) require_active_simps(1) [of t p]
    by (auto simp: s t txn_write_page_eq bindS_Inr on_pager_def in_txn_def pending_of_snoc)
qed

definition settled :: "int \<Rightarrow> pager \<Rightarrow> pager \<Rightarrow> bool" where
  "settled i p0 p \<longleftrightarrow> pager_wf p \<and> next_page_id p = next_page_id p0 \<and> wal_has p []"

lemma commit_in_txn:
  assumes "in_txn i p0 ws s" and "0 \<le> i" and "i < 256 ^ 8" and "list_all (page_write_ok p0) ws"
  shows "\<exists>t' p'. commit s = (Inr (), (t', p')) \<and> t_state t' = COMMITTED \<and> settled i p0 p' \<and>
    img p' = put_pages (img p0) ws"
proof -
  obtain t p where s: "s = (t, p)" by force
  have t: "t = \<lparr>t_id = i, t_state = ACTIVE, pending_writes = pending_of ws\<rparr>"
    and w: "wal_has p (map (page_rec i) ws)" and p: "img p = img p0" "pager_wf p" "next_page_id p = next_page_id p0"
    using assms(1) by (simp_all add: s in_txn_def)
  have "rec_ok (end_rec i 2)" using assms by (simp add: rec_ok_def end_rec_def)
  then obtain b where c: "wal_append_commit i p = (Inr (), p\<lparr>wal_is_open := True, wal_bytes := Some b\<rparr>)"
      "wal_repr b (map (page_rec i) ws @ [end_rec i 2])"
    using wal_record_has [OF w, of i 2 0 "[]"] by (auto simp: end_rec_def wal_append_commit_def)
  define p1 where "p1 = p\<lparr>wal_is_open := True, wal_bytes := Some b\<rparr>"
  let ?apply = "forS (pending_of ws) (\<lambda>(pid, d). write_main_page pid d)"
  have "list_all (page_write_ok p1) (pending_of ws)"
    using assms(4) set_pending [of ws] p by (auto simp: list_all_iff page_write_ok_def p1_def)
  then have "eff p1 (put_pages (img p1) (pending_of ws)) (?apply p1)"
    using p by (intro main_writes_eff) (simp_all add: p1_def)
  from effD [of p1 _ ?apply, OF this] obtain p2 where a: "?apply p1 = (Inr (), p2)" "pager_wf p2"
      "same_rest p1 p2" "img p2 = put_pages (img p0) ws"
    using p by (auto simp: put_pending p1_def)
  have "wal_has p2 (map (page_rec i) ws @ [end_rec i 2])"
    using a(3) c(2) by (simp add: wal_has_def same_rest_def p1_def)
  from wal_truncate_has [OF this, of "i + 1"] obtain b' where
    tr: "wal_truncate_before (i + 1) p2 = (Inr (), p2\<lparr>wal_is_open := True, wal_bytes := Some b'\<rparr>)"
      "wal_repr b' []"
    by (auto simp: page_rec_def end_rec_def comp_def)
  let ?p3 = "p2\<lparr>wal_is_open := True, wal_bytes := Some b'\<rparr>"
  have "commit_body_on pager_methods (t, p) = (Inr (), (t\<lparr>t_state := COMMITTED\<rparr>, ?p3))"
    using c(1) a(1) tr(1) forS_on_pager [of "pending_of ws" write_main_page t p1]
    by (simp add: commit_body_eq bindS_Inr on_pager_run t p1_def set_state_def)
  then have "commit s = (Inr (), (t\<lparr>t_state := COMMITTED\<rparr>, ?p3))"
    using require_active_simps(1) [of t p] by (simp add: s commit_eq bindS_Inr catchS_Inr t)
  moreover have "settled i p0 ?p3"
    using a p tr(2) by (simp add: settled_def same_rest_def p1_def)
  ultimately show ?thesis using a(4) by auto
qed

lemma rollback_in_txn:
  assumes "in_txn i p0 ws s" and "0 \<le> i" and "i < 256 ^ 8"
  shows "\<exists>t' p'. rollback s = (Inr (), (t', p')) \<and> t_state t' = ROLLED_BACK \<and> settled i p0 p' \<and>
    img p' = img p0"
proof -
  obtain t p where s: "s = (t, p)" by force
  have t: "t = \<lparr>t_id = i, t_state = ACTIVE, pending_writes = pending_of ws\<rparr>"
    and w: "wal_has p (map (page_rec i) ws)" and p: "img p = img p0" "pager_wf p" "next_page_id p = next_page_id p0"
    using assms(1) by (simp_all add: s in_txn_def)
  have "rec_ok (end_rec i 3)" using assms by (simp add: rec_ok_def end_rec_def)
  then obtain b where c: "wal_append_rollback i p = (Inr (), p\<lparr>wal_is_open := True, wal_bytes := Some b\<rparr>)"
      "wal_repr b (map (page_rec i) ws @ [end_rec i 3])"
    unfolding end_rec_def wal_append_rollback_def using wal_record_has [OF w, of i 3 0 "[]"] by blast
  define p1 where "p1 = p\<lparr>wal_is_open := True, wal_bytes := Some b\<rparr>"
  have "wal_has p1 (map (page_rec i) ws @ [end_rec i 3])" using c(2) by (simp add: p1_def)
  from wal_truncate_has [OF this, of "i + 1"] obtain b' where
    tr: "wal_truncate_before (i + 1) p1 = (Inr (), p1\<lparr>wal_is_open := True, wal_bytes := Some b'\<rparr>)"
      "wal_repr b' []"
    by (auto simp: page_rec_def end_rec_def comp_def)
  define p3 where "p3 = p1\<lparr>wal_is_open := True, wal_bytes := Some b'\<rparr>"
  have "on_pager (wal_append_rollback i) (t, p) = (Inr (), (t, p1))"
    "on_pager (wal_truncate_before (i + 1)) (t, p1) = (Inr (), (t, p3))"
    using c(1) tr(1) by (simp_all only: on_pager_run p1_def p3_def)
  moreover have "require_active (t, p) = (Inr (), (t, p))" by (rule require_active_simps) (simp add: t)
  ultimately have "rollback (t, p) = (Inr (), (t\<lparr>t_state := ROLLED_BACK\<rparr>, p3))"
    by (simp add: rollback_eq bindS_Inr set_state_def t)
  moreover have "settled i p0 p3" "img p3 = img p0"
    using p tr(2) by (simp_all add: settled_def p1_def p3_def)
  ultimately show ?thesis
    unfolding s by (intro exI [of _ "t\<lparr>t_state := ROLLED_BACK\<rparr>"] exI [of _ p3]) simp
qed

section \<open>Properties\<close>

text \<open>The calls of one transaction: its writes in order, then commit or rollback.\<close>

definition txn_writes_on :: "'p txn_pager \<Rightarrow> (int \<times> byte list) list \<Rightarrow> (txn \<times> 'p, unit) cmd" where
  "txn_writes_on io ws = forS ws (\<lambda>w. txn_write_on io (fst w) (snd w))"

definition txn_writes :: "(int \<times> byte list) list \<Rightarrow> (txn \<times> pager, unit) cmd" where
  "txn_writes = txn_writes_on pager_methods"

lemma txn_writes_simps [simp]:
  "txn_writes [] = returnS ()"
  "txn_writes (w # ws) = bindS (txn_write_page (fst w) (snd w)) (\<lambda>_. txn_writes ws)"
  by (simp_all add: txn_writes_def txn_writes_on_def txn_write_page_def)

lemma txn_writes_in_txn:
  assumes "in_txn i p0 vs s" and "0 \<le> i" and "i < 256 ^ 8" and "list_all (page_write_ok p0) ws"
  shows "\<exists>s'. txn_writes ws s = (Inr (), s') \<and> in_txn i p0 (vs @ ws) s'"
  using assms(1,4)
proof (induction ws arbitrary: vs s)
  case (Cons w ws)
  then have "page_write_ok p0 w" by simp
  then obtain s1 where "txn_write_page (fst w) (snd w) s = (Inr (), s1)" "in_txn i p0 (vs @ [w]) s1"
    using txn_write_page_in_txn [OF Cons.prems(1) assms(2,3)] by blast
  then show ?case using Cons.IH [of "vs @ [w]" s1] Cons.prems(2) by (auto simp: bindS_Inr)
qed auto

lemma in_txn_start: "pager_wf p \<Longrightarrow> wal_has p [] \<Longrightarrow> in_txn i p [] (new_txn i, p)"
  by (simp add: in_txn_def new_txn_def pending_of_def)

text \<open>
  C3. While a transaction only writes, nothing reaches the pages; its commit succeeds and
  installs exactly the last data written to each page, leaving every other page alone; its
  rollback succeeds and leaves every page alone. Either way the log is empty afterwards and the
  transaction has left the active state.
\<close>

theorem txn_atomic:
  assumes "pager_wf p" and "wal_has p []" and "0 \<le> i" and "i < 256 ^ 8"
    and "list_all (page_write_ok p) ws"
  shows "\<exists>t1 p1. txn_writes ws (new_txn i, p) = (Inr (), (t1, p1)) \<and> img p1 = img p \<and>
    (\<exists>t2 p2. commit (t1, p1) = (Inr (), (t2, p2)) \<and> t_state t2 = COMMITTED \<and> wal_has p2 [] \<and>
       img p2 = put_pages (img p) ws) \<and>
    (\<exists>t2 p2. rollback (t1, p1) = (Inr (), (t2, p2)) \<and> t_state t2 = ROLLED_BACK \<and> wal_has p2 [] \<and>
       img p2 = img p)"
proof -
  obtain t1 p1 where w: "txn_writes ws (new_txn i, p) = (Inr (), (t1, p1))" "in_txn i p ws (t1, p1)"
    using txn_writes_in_txn [OF in_txn_start [OF assms(1,2)] assms(3-5)] by auto
  then show ?thesis
    using commit_in_txn [OF w(2) assms(3-5)] rollback_in_txn [OF w(2) assms(3,4)]
    by (auto simp: in_txn_def settled_def)
qed

lemma txn_atomic_witness:
  "\<exists>t1 p1 t2 p2. txn_writes [(1, zero_page)] (new_txn 7, new_memory_pager) = (Inr (), (t1, p1)) \<and>
     commit (t1, p1) = (Inr (), (t2, p2)) \<and> img p2 1 = zero_page"
proof -
  have "pager_wf new_memory_pager" using new_memory_pager_inv by (simp add: pager_inv_def free_inv_def)
  moreover have "wal_has new_memory_pager []"
    using wal_repr_image [of "[]"] by (simp add: wal_has_def new_memory_pager_def wal_open_new)
  moreover have "list_all (page_write_ok new_memory_pager) [(1, zero_page)]"
    by (simp add: page_write_ok_def new_memory_pager_def)
  ultimately show ?thesis
    using txn_atomic [of new_memory_pager 7 "[(1, zero_page)]"] by (fastforce simp: put_page_def)
qed

text \<open>
  A transaction that has been committed or rolled back stays finished: every further write,
  commit or rollback raises \<open>InvalidTxnState\<close> and changes nothing, and an attempted commit
  always finishes the transaction, as rolled back when it raised.
\<close>

theorem txn_finished:
  assumes "t_state t = ACTIVE" and "commit (t, p) = (r, (t', p'))" and "rtranclp txn_step (t', p') (t2, p2)"
  shows "t_state t' = (if r = Inr () then COMMITTED else ROLLED_BACK) \<and> t2 = t' \<and> p2 = p' \<and>
    commit (t2, p2) = (Inl InvalidTxnState, (t2, p2)) \<and>
    txn_write_page pid d (t2, p2) = (Inl InvalidTxnState, (t2, p2)) \<and>
    rollback (t2, p2) = (Inl InvalidTxnState, (t2, p2))"
proof -
  have st: "t_state t' = (if r = Inr () then COMMITTED else ROLLED_BACK)"
    by (rule commit_finishes [OF assms(1,2)])
  then have fin: "t_state t' \<noteq> ACTIVE" by simp
  have "(t2, p2) = (t', p')"
    using assms(3)
  proof (induction rule: rtranclp_induct)
    case (step s1 s2)
    then show ?case using finished_simps [OF fin] by (auto elim!: txn_stepE)
  qed simp
  then show ?thesis using st finished_simps [OF fin] by simp
qed

lemma txn_finished_witness:
  "\<exists>r t p. commit (new_txn 7, new_memory_pager) = (r, (t, p)) \<and> rollback (t, p) = (Inl InvalidTxnState, (t, p))"
proof -
  obtain r t p where c: "commit (new_txn 7, new_memory_pager) = (r, (t, p))"
    by (cases "commit (new_txn 7, new_memory_pager)") auto
  then show ?thesis
    using txn_finished [of "new_txn 7" new_memory_pager r t p t p] by (auto simp: new_txn_def)
qed

end
