(* ===== verification/Btree.thy ===== *)
theory Btree
  imports Pager "HOL-Library.List_Lexorder"
begin

text \<open>
  \<open>src/tinydb/btree.py\<close>: the B+ tree of an index. \<open>leaf\<close> and \<open>inode\<close> are the
  dataclasses of the two node kinds with their page images; the operations of
  \<open>BTree\<close> are commands on the pages and the root, over any page store given by
  its read, write and allocate functions (the pager, or the index pager of the
  executor). Keys are byte strings in lexicographic order. Descents carry fuel,
  which stands for the height of the tree. Lemmas: the binary searches, the
  page images, and the map a tree of any height implements while no node splits.
\<close>

definition NODE_TYPE_LEAF :: byte where [simp]: "NODE_TYPE_LEAF = 1"
definition NODE_TYPE_INTERNAL :: byte where [simp]: "NODE_TYPE_INTERNAL = 2"
definition BT_HEADER_SIZE :: int where [simp]: "BT_HEADER_SIZE = 10"
definition TOMBSTONE_FLAG :: byte where [simp]: "TOMBSTONE_FLAG = 0x80"

type_synonym key = "byte list"

record leaf =
  l_keys :: "key list"
  l_values :: "(int \<times> int) list"
  next_leaf_id :: int
  l_tombstones :: "bool list"

record inode =
  n_keys :: "key list"
  n_children :: "int list"

section \<open>Page images of the nodes\<close>

definition leaf_entry :: "leaf \<Rightarrow> byte list \<times> int \<Rightarrow> nat \<Rightarrow> (byte list \<times> int) res" where
  "leaf_entry lf s i =
     (let (page, off) = s; key = l_keys lf ! i;
          tomb = (if i < length (l_tombstones lf) \<and> l_tombstones lf ! i then TOMBSTONE_FLAG else 0);
          key_len = py_len key in
      if off + 1 + 2 + key_len + 8 > PAGE_SIZE then Inl ValueError
      else
        bindE (set_item page off tomb) (\<lambda>page.
        bindE (pack_u 2 key_len) (\<lambda>n.
        let page = set_slice page (off + 1) (off + 3) n;
            page = set_slice page (off + 3) (off + 3 + key_len) key in
        bindE (get_item (l_values lf) (int i)) (\<lambda>(pid, sid).
        bindE (pack_u 4 pid) (\<lambda>p. bindE (pack_u 4 sid) (\<lambda>q.
        Inr (set_slice page (off + 3 + key_len) (off + 3 + key_len + 8) (p @ q),
             off + (3 + key_len + 8))))))))"

definition leaf_serialize :: "leaf \<Rightarrow> byte list res" where
  "leaf_serialize lf =
     (let page = replicate 4096 0 in
      bindE (set_item page 0 NODE_TYPE_LEAF) (\<lambda>page.
      bindE (set_item page 1 0) (\<lambda>page.
      bindE (pack_u 2 (py_len (l_keys lf))) (\<lambda>n.
      let page = set_slice page 2 4 n; page = set_slice page 4 6 [0, 0] in
      bindE (pack_u 4 (next_leaf_id lf)) (\<lambda>nx.
      let page = set_slice page 6 10 nx in
      bindE (foldE (leaf_entry lf) (page, BT_HEADER_SIZE) [0..<length (l_keys lf)]) (\<lambda>(page, off).
      Inr page))))))"

fun read_leaf_entries :: "nat \<Rightarrow> byte list \<Rightarrow> int \<Rightarrow> (key \<times> (int \<times> int) \<times> bool) list res" where
  "read_leaf_entries 0 page off = Inr []"
| "read_leaf_entries (Suc n) page off =
     bindE (get_item page off) (\<lambda>tomb.
     bindE (unpack_u 2 (slice page (off + 1) (off + 3))) (\<lambda>key_len.
     let key = slice page (off + 3) (off + 3 + key_len);
         ref = slice page (off + 3 + key_len) (off + 3 + key_len + 8) in
     bindE (if length ref = 8 then Inr (be_int (take 4 ref), be_int (drop 4 ref)) else Inl StructError)
       (\<lambda>v.
     bindE (read_leaf_entries n page (off + (3 + key_len + 8))) (\<lambda>es.
     Inr ((key, v, tomb AND TOMBSTONE_FLAG \<noteq> 0) # es)))))"

definition leaf_deserialize :: "byte list \<Rightarrow> leaf res" where
  "leaf_deserialize page =
     bindE (get_item page 0) (\<lambda>ty.
     if ty \<noteq> NODE_TYPE_LEAF then Inl AssertionErr
     else
       bindE (unpack_u 2 (slice page 2 4)) (\<lambda>n.
       bindE (unpack_u 4 (slice page 6 10)) (\<lambda>nx.
       bindE (read_leaf_entries (nat n) page BT_HEADER_SIZE) (\<lambda>es.
       Inr \<lparr>l_keys = map fst es, l_values = map (fst \<circ> snd) es, next_leaf_id = nx,
            l_tombstones = map (snd \<circ> snd) es\<rparr>))))"

definition inode_entry :: "inode \<Rightarrow> byte list \<times> int \<Rightarrow> nat \<Rightarrow> (byte list \<times> int) res" where
  "inode_entry nd s i =
     (let (page, off) = s; key = n_keys nd ! i; key_len = py_len key in
      if off + 4 + 2 + key_len > PAGE_SIZE then Inl ValueError
      else
        bindE (get_item (n_children nd) (int i)) (\<lambda>child.
        bindE (pack_u 4 child) (\<lambda>c.
        let page = set_slice page off (off + 4) c in
        bindE (pack_u 2 key_len) (\<lambda>n.
        let page = set_slice page (off + 4) (off + 6) n in
        Inr (set_slice page (off + 6) (off + 6 + key_len) key, off + (6 + key_len))))))"

definition inode_serialize :: "inode \<Rightarrow> byte list res" where
  "inode_serialize nd =
     (let page = replicate 4096 0 in
      bindE (set_item page 0 NODE_TYPE_INTERNAL) (\<lambda>page.
      bindE (set_item page 1 0) (\<lambda>page.
      bindE (pack_u 2 (py_len (n_keys nd))) (\<lambda>n.
      let page = set_slice page 2 4 n; page = set_slice page 4 10 (replicate 6 0) in
      bindE (foldE (inode_entry nd) (page, BT_HEADER_SIZE) [0..<length (n_keys nd)]) (\<lambda>(page, off).
      bindE (get_item (n_children nd) (- 1)) (\<lambda>last_child.
      bindE (pack_u 4 last_child) (\<lambda>c.
      Inr (set_slice page off (off + 4) c))))))))"

fun read_inode_entries :: "nat \<Rightarrow> byte list \<Rightarrow> int \<Rightarrow> ((int \<times> key) list \<times> int) res" where
  "read_inode_entries 0 page off = Inr ([], off)"
| "read_inode_entries (Suc n) page off =
     bindE (unpack_u 4 (slice page off (off + 4))) (\<lambda>child.
     bindE (unpack_u 2 (slice page (off + 4) (off + 6))) (\<lambda>key_len.
     let key = slice page (off + 6) (off + 6 + key_len) in
     bindE (read_inode_entries n page (off + (6 + key_len))) (\<lambda>(es, off').
     Inr ((child, key) # es, off'))))"

definition inode_deserialize :: "byte list \<Rightarrow> inode res" where
  "inode_deserialize page =
     bindE (get_item page 0) (\<lambda>ty.
     if ty \<noteq> NODE_TYPE_INTERNAL then Inl AssertionErr
     else
       bindE (unpack_u 2 (slice page 2 4)) (\<lambda>n.
       bindE (read_inode_entries (nat n) page BT_HEADER_SIZE) (\<lambda>(es, off).
       bindE (unpack_u 4 (slice page off (off + 4))) (\<lambda>c.
       Inr \<lparr>n_keys = map snd es, n_children = map fst es @ [c]\<rparr>))))"

section \<open>Binary search\<close>

function bisect :: "(key \<Rightarrow> bool) \<Rightarrow> key list \<Rightarrow> nat \<Rightarrow> nat \<Rightarrow> nat" where
  "bisect before keys lo hi =
     (if lo < hi then
        let mid = (lo + hi) div 2 in
        if before (keys ! mid) then bisect before keys (mid + 1) hi else bisect before keys lo mid
      else lo)"
  by pat_completeness auto
termination
  by (relation "measure (\<lambda>(before, keys, lo, hi). hi - lo)") auto

declare bisect.simps [simp del]

definition bisect_left :: "key list \<Rightarrow> key \<Rightarrow> nat" where
  "bisect_left keys key = bisect (\<lambda>k. k < key) keys 0 (length keys)"

definition bisect_right :: "key list \<Rightarrow> key \<Rightarrow> nat" where
  "bisect_right keys key = bisect (\<lambda>k. k \<le> key) keys 0 (length keys)"

section \<open>The tree\<close>

record 's page_io =
  io_read :: "int \<Rightarrow> 's \<Rightarrow> byte list res"
  io_write :: "int \<Rightarrow> byte list \<Rightarrow> ('s, unit) cmd"
  io_alloc :: "('s, int) cmd"

definition pager_io :: "pager page_io" where
  "pager_io = \<lparr>io_read = read_page, io_write = write_page, io_alloc = alloc_page\<rparr>"

definition insert_at :: "nat \<Rightarrow> 'a \<Rightarrow> 'a list \<Rightarrow> 'a list" where
  "insert_at i x xs = take i xs @ x # drop i xs"

text \<open>The page under which the key belongs, and its leaf.\<close>

fun descend :: "'s page_io \<Rightarrow> nat \<Rightarrow> int \<Rightarrow> key \<Rightarrow> 's \<Rightarrow> (int \<times> byte list) res" where
  "descend io fuel pid key s =
     bindE (io_read io pid s) (\<lambda>page.
     bindE (get_item page 0) (\<lambda>ty.
     if ty = NODE_TYPE_INTERNAL then
       (case fuel of
          0 \<Rightarrow> Inl FuelOut
        | Suc fuel' \<Rightarrow>
            bindE (inode_deserialize page) (\<lambda>node.
            bindE (get_item (n_children node) (int (bisect_right (n_keys node) key))) (\<lambda>child.
            descend io fuel' child key s)))
     else Inr (pid, page)))"

definition descend_to_leaf :: "'s page_io \<Rightarrow> nat \<Rightarrow> int \<Rightarrow> key \<Rightarrow> 's \<Rightarrow> (int \<times> leaf) res" where
  "descend_to_leaf io fuel root key s =
     bindE (descend io fuel root key s) (\<lambda>(pid, page).
     bindE (leaf_deserialize page) (\<lambda>lf. Inr (pid, lf)))"

fun find_parent :: "'s page_io \<Rightarrow> nat \<Rightarrow> int \<Rightarrow> int \<Rightarrow> key \<Rightarrow> 's \<Rightarrow> int res" where
  "find_parent io fuel pid target key s =
     bindE (io_read io pid s) (\<lambda>page.
     bindE (get_item page 0) (\<lambda>ty.
     if ty = NODE_TYPE_INTERNAL then
       (case fuel of
          0 \<Rightarrow> Inl FuelOut
        | Suc fuel' \<Rightarrow>
            bindE (inode_deserialize page) (\<lambda>node.
            bindE (get_item (n_children node) (int (bisect_right (n_keys node) key))) (\<lambda>child.
            if child = target then Inr pid else find_parent io fuel' child target key s)))
     else Inl RuntimeErr))"

declare descend.simps [simp del] find_parent.simps [simp del]

definition on_pages :: "('s, 'a) cmd \<Rightarrow> ('s \<times> int option, 'a) cmd" where
  "on_pages c = (\<lambda>(s, root). let (r, s') = c s in (r, (s', root)))"

definition set_root :: "int \<Rightarrow> ('s \<times> int option, unit) cmd" where
  "set_root pid = modifyS (\<lambda>(s, root). (s, Some pid))"

fun insert_into_parent :: "'s page_io \<Rightarrow> nat \<Rightarrow> nat \<Rightarrow> int \<Rightarrow> key \<Rightarrow> int \<Rightarrow> ('s \<times> int option, unit) cmd" where
  "insert_into_parent io fuel depth left_pid key right_pid =
     bindS (getS snd) (\<lambda>root.
     case root of
       None \<Rightarrow> raiseS RuntimeErr
     | Some root_pid \<Rightarrow>
         if root_pid = left_pid then
           bindS (on_pages (io_alloc io)) (\<lambda>new_root.
           bindS (liftE (inode_serialize \<lparr>n_keys = [key], n_children = [left_pid, right_pid]\<rparr>)) (\<lambda>page.
           bindS (on_pages (io_write io new_root page)) (\<lambda>_.
           set_root new_root)))
         else
           bindS (getS (\<lambda>(s, _). find_parent io fuel root_pid left_pid key s)) (\<lambda>r.
           bindS (liftE r) (\<lambda>parent_pid.
           bindS (getS (\<lambda>(s, _). bindE (io_read io parent_pid s) inode_deserialize)) (\<lambda>r.
           bindS (liftE r) (\<lambda>parent.
           let i = bisect_left (n_keys parent) key;
               keys = insert_at i key (n_keys parent);
               children = insert_at (i + 1) right_pid (n_children parent) in
           case inode_serialize \<lparr>n_keys = keys, n_children = children\<rparr> of
             Inr payload \<Rightarrow> on_pages (io_write io parent_pid payload)
           | Inl e \<Rightarrow>
               if \<not> is_value_error e then raiseS e
               else
                 let mid = length keys div 2 in
                 bindS (liftE (inode_serialize \<lparr>n_keys = take mid keys, n_children = take (mid + 1) children\<rparr>))
                   (\<lambda>left_page.
                 bindS (on_pages (io_write io parent_pid left_page)) (\<lambda>_.
                 bindS (on_pages (io_alloc io)) (\<lambda>right_int.
                 bindS (liftE (inode_serialize
                     \<lparr>n_keys = drop (mid + 1) keys, n_children = drop (mid + 1) children\<rparr>)) (\<lambda>right_page.
                 bindS (on_pages (io_write io right_int right_page)) (\<lambda>_.
                 case depth of
                   0 \<Rightarrow> raiseS FuelOut
                 | Suc depth' \<Rightarrow>
                     insert_into_parent io fuel depth' parent_pid (keys ! mid) right_int))))))))))"

declare insert_into_parent.simps [simp del]

text \<open>The leaf with the entry inserted or replaced, and its two halves when it overflows.\<close>

definition leaf_put :: "leaf \<Rightarrow> key \<Rightarrow> int \<times> int \<Rightarrow> leaf" where
  "leaf_put lf key v =
     (let i = bisect_left (l_keys lf) key in
      if i < length (l_keys lf) \<and> l_keys lf ! i = key then
        lf\<lparr>l_values := (l_values lf)[i := v],
           l_tombstones := (if i < length (l_tombstones lf) then (l_tombstones lf)[i := False]
                            else l_tombstones lf @ [False])\<rparr>
      else
        lf\<lparr>l_keys := insert_at i key (l_keys lf), l_values := insert_at i v (l_values lf),
           l_tombstones := insert_at i False (l_tombstones lf)\<rparr>)"

definition leaf_left :: "leaf \<Rightarrow> int \<Rightarrow> leaf" where
  "leaf_left lf right_pid =
     (let mid = length (l_keys lf) div 2 in
      \<lparr>l_keys = take mid (l_keys lf), l_values = take mid (l_values lf), next_leaf_id = right_pid,
       l_tombstones = take mid (l_tombstones lf)\<rparr>)"

definition leaf_right :: "leaf \<Rightarrow> leaf" where
  "leaf_right lf =
     (let mid = length (l_keys lf) div 2 in
      \<lparr>l_keys = drop mid (l_keys lf), l_values = drop mid (l_values lf), next_leaf_id = next_leaf_id lf,
       l_tombstones = drop mid (l_tombstones lf)\<rparr>)"

definition bt_insert :: "'s page_io \<Rightarrow> nat \<Rightarrow> key \<Rightarrow> int \<times> int \<Rightarrow> ('s \<times> int option, unit) cmd" where
  "bt_insert io fuel key v =
     bindS (getS snd) (\<lambda>root.
     case root of
       None \<Rightarrow>
         bindS (on_pages (io_alloc io)) (\<lambda>pid.
         bindS (liftE (leaf_serialize
            \<lparr>l_keys = [key], l_values = [v], next_leaf_id = 0, l_tombstones = [False]\<rparr>)) (\<lambda>page.
         bindS (on_pages (io_write io pid page)) (\<lambda>_. set_root pid)))
     | Some root_pid \<Rightarrow>
         bindS (getS (\<lambda>(s, _). descend_to_leaf io fuel root_pid key s)) (\<lambda>r.
         bindS (liftE r) (\<lambda>(leaf_pid, lf).
         let lf' = leaf_put lf key v in
         case leaf_serialize lf' of
           Inr payload \<Rightarrow> on_pages (io_write io leaf_pid payload)
         | Inl e \<Rightarrow>
             if \<not> is_value_error e then raiseS e
             else
               bindS (on_pages (io_alloc io)) (\<lambda>right_pid.
               bindS (liftE (leaf_serialize (leaf_left lf' right_pid))) (\<lambda>left_page.
               bindS (on_pages (io_write io leaf_pid left_page)) (\<lambda>_.
               bindS (liftE (leaf_serialize (leaf_right lf'))) (\<lambda>right_page.
               bindS (on_pages (io_write io right_pid right_page)) (\<lambda>_.
               insert_into_parent io fuel fuel leaf_pid (hd (l_keys (leaf_right lf'))) right_pid))))))))"

definition leaf_get :: "leaf \<Rightarrow> key \<Rightarrow> (int \<times> int) option" where
  "leaf_get lf key =
     (let i = bisect_left (l_keys lf) key in
      if i < length (l_keys lf) \<and> l_keys lf ! i = key \<and> \<not> l_tombstones lf ! i then Some (l_values lf ! i)
      else None)"

definition bt_search :: "'s page_io \<Rightarrow> nat \<Rightarrow> key \<Rightarrow> 's \<times> int option \<Rightarrow> (int \<times> int) option res" where
  "bt_search io fuel key st =
     (case snd st of
        None \<Rightarrow> Inr None
      | Some root \<Rightarrow>
          bindE (descend_to_leaf io fuel root key (fst st)) (\<lambda>(pid, lf). Inr (leaf_get lf key)))"

definition bt_delete :: "'s page_io \<Rightarrow> nat \<Rightarrow> key \<Rightarrow> ('s \<times> int option, unit) cmd" where
  "bt_delete io fuel key =
     bindS (getS snd) (\<lambda>root.
     case root of
       None \<Rightarrow> returnS ()
     | Some root_pid \<Rightarrow>
         bindS (getS (\<lambda>(s, _). descend_to_leaf io fuel root_pid key s)) (\<lambda>r.
         bindS (liftE r) (\<lambda>(leaf_pid, lf).
         let i = bisect_left (l_keys lf) key in
         if i < length (l_keys lf) \<and> l_keys lf ! i = key then
           bindS (liftE (leaf_serialize (lf\<lparr>l_tombstones := (l_tombstones lf)[i := True]\<rparr>))) (\<lambda>page.
           on_pages (io_write io leaf_pid page))
         else returnS ())))"

text \<open>The entries of one leaf inside \<open>[start, end)\<close>, and whether the end was reached.\<close>

fun scan_leaf :: "key \<Rightarrow> key \<Rightarrow> (key \<times> (int \<times> int) \<times> bool) list \<Rightarrow> (int \<times> int) list \<times> bool" where
  "scan_leaf start stop [] = ([], False)"
| "scan_leaf start stop ((k, v, t) # es) =
     (if stop \<le> k then ([], True)
      else let (vs, fin) = scan_leaf start stop es in
        (if start \<le> k \<and> \<not> t then v # vs else vs, fin))"

fun walk_leaves :: "'s page_io \<Rightarrow> nat \<Rightarrow> key \<Rightarrow> key \<Rightarrow> int \<Rightarrow> 's \<Rightarrow> (int \<times> int) list res" where
  "walk_leaves io n start stop pid s =
     (if pid = 0 then Inr []
      else case n of
        0 \<Rightarrow> Inl FuelOut
      | Suc n' \<Rightarrow>
          bindE (io_read io pid s) (\<lambda>page.
          bindE (leaf_deserialize page) (\<lambda>lf.
          let (vs, fin) = scan_leaf start stop (zip (l_keys lf) (zip (l_values lf) (l_tombstones lf))) in
          if fin then Inr vs
          else bindE (walk_leaves io n' start stop (next_leaf_id lf) s) (\<lambda>ws. Inr (vs @ ws)))))"

declare walk_leaves.simps [simp del]

definition bt_range :: "'s page_io \<Rightarrow> nat \<Rightarrow> nat \<Rightarrow> key \<Rightarrow> key \<Rightarrow> 's \<times> int option \<Rightarrow> (int \<times> int) list res" where
  "bt_range io fuel n start stop st =
     (case snd st of
        None \<Rightarrow> Inr []
      | Some root \<Rightarrow>
          bindE (descend io fuel root start (fst st)) (\<lambda>(pid, page).
          walk_leaves io n start stop pid (fst st)))"

section \<open>Binary search is correct\<close>

lemma bisect_spec:
  assumes "lo \<le> hi" and "hi \<le> length keys"
    and "\<And>i j. i \<le> j \<Longrightarrow> j < length keys \<Longrightarrow> before (keys ! j) \<Longrightarrow> before (keys ! i)"
    and "\<And>i. i < lo \<Longrightarrow> before (keys ! i)"
    and "\<And>i. hi \<le> i \<Longrightarrow> i < length keys \<Longrightarrow> \<not> before (keys ! i)"
  shows "bisect before keys lo hi \<le> length keys \<and>
    (\<forall>i < length keys. before (keys ! i) \<longleftrightarrow> i < bisect before keys lo hi)"
  using assms
proof (induction before keys lo hi rule: bisect.induct)
  case (1 before keys lo hi)
  show ?case
  proof (cases "lo < hi")
    case False
    then have "bisect before keys lo hi = lo" by (simp add: bisect.simps)
    moreover have "before (keys ! i) \<longleftrightarrow> i < lo" if "i < length keys" for i
      using "1.prems"(4) [of i] "1.prems"(5) [of i] "1.prems"(1) False that by (cases "i < lo") auto
    ultimately show ?thesis using "1.prems"(1,2) by simp
  next
    case True
    let ?mid = "(lo + hi) div 2"
    have mid: "lo \<le> ?mid" "?mid < hi" "?mid < length keys" using True "1.prems"(2) by auto
    show ?thesis
    proof (cases "before (keys ! ?mid)")
      case b: True
      have eq: "bisect before keys lo hi = bisect before keys (?mid + 1) hi"
        using True b by (simp add: bisect.simps [of before keys lo hi] Let_def)
      have pre: "before (keys ! i)" if "i < ?mid + 1" for i
        by (rule "1.prems"(3) [of i ?mid]) (use b mid that in simp_all)
      show ?thesis unfolding eq
        by (rule "1.IH"(1) [OF True refl b])
          (use mid "1.prems"(2) in linarith, rule "1.prems"(2), erule (2) "1.prems"(3),
            erule pre, erule (1) "1.prems"(5))
    next
      case b: False
      have eq: "bisect before keys lo hi = bisect before keys lo ?mid"
        using True b by (simp add: bisect.simps [of before keys lo hi] Let_def)
      have post: "\<not> before (keys ! i)" if "?mid \<le> i" "i < length keys" for i
        using "1.prems"(3) [of ?mid i] b that by blast
      show ?thesis unfolding eq
        by (rule "1.IH"(2) [OF True refl b])
          (use mid in linarith, use mid in linarith, erule (2) "1.prems"(3),
            erule "1.prems"(4), erule (1) post)
    qed
  qed
qed

lemma bisect_left_spec:
  assumes "sorted keys"
  shows "bisect_left keys key \<le> length keys"
    and "i < length keys \<Longrightarrow> keys ! i < key \<longleftrightarrow> i < bisect_left keys key"
proof -
  have "bisect_left keys key \<le> length keys \<and>
    (\<forall>i < length keys. keys ! i < key \<longleftrightarrow> i < bisect_left keys key)"
    unfolding bisect_left_def
    by (rule bisect_spec) (use assms in \<open>auto simp: sorted_iff_nth_mono intro: le_less_trans\<close>)
  then show "bisect_left keys key \<le> length keys"
    and "i < length keys \<Longrightarrow> keys ! i < key \<longleftrightarrow> i < bisect_left keys key" by blast+
qed

lemma bisect_right_spec:
  assumes "sorted keys"
  shows "bisect_right keys key \<le> length keys"
    and "i < length keys \<Longrightarrow> keys ! i \<le> key \<longleftrightarrow> i < bisect_right keys key"
proof -
  have "bisect_right keys key \<le> length keys \<and>
    (\<forall>i < length keys. keys ! i \<le> key \<longleftrightarrow> i < bisect_right keys key)"
    unfolding bisect_right_def
    by (rule bisect_spec) (use assms in \<open>auto simp: sorted_iff_nth_mono intro: order_trans\<close>)
  then show "bisect_right keys key \<le> length keys"
    and "i < length keys \<Longrightarrow> keys ! i \<le> key \<longleftrightarrow> i < bisect_right keys key" by blast+
qed

section \<open>Page images\<close>

definition entry_image :: "key \<times> (int \<times> int) \<times> bool \<Rightarrow> byte list" where
  "entry_image e =
     (case e of (k, (p, q), t) \<Rightarrow>
        [if t then TOMBSTONE_FLAG else 0] @ be_bytes 2 (py_len k) @ k @ be_bytes 4 p @ be_bytes 4 q)"

definition leaf_entries :: "leaf \<Rightarrow> (key \<times> (int \<times> int) \<times> bool) list" where
  "leaf_entries lf = zip (l_keys lf) (zip (l_values lf) (l_tombstones lf))"

definition leaf_size :: "leaf \<Rightarrow> nat" where
  "leaf_size lf = 10 + sum_list (map (\<lambda>k. length k + 11) (l_keys lf))"

definition u32 :: "int \<Rightarrow> bool" where
  "u32 v \<longleftrightarrow> 0 \<le> v \<and> v < 4294967296"

definition leaf_wf :: "leaf \<Rightarrow> bool" where
  "leaf_wf lf \<longleftrightarrow>
     length (l_values lf) = length (l_keys lf) \<and> length (l_tombstones lf) = length (l_keys lf) \<and>
     list_all (\<lambda>(p, q). u32 p \<and> u32 q) (l_values lf) \<and> u32 (next_leaf_id lf)"

definition leaf_head :: "leaf \<Rightarrow> byte list" where
  "leaf_head lf = [1, 0] @ be_bytes 2 (py_len (l_keys lf)) @ [0, 0] @ be_bytes 4 (next_leaf_id lf)"

definition leaf_image :: "leaf \<Rightarrow> byte list" where
  "leaf_image lf = leaf_head lf @ concat (map entry_image (leaf_entries lf)) @
     replicate (4096 - leaf_size lf) 0"

lemma length_entry_image [simp, byte_simps]: "length (entry_image (k, v, t)) = length k + 11"
  by (simp add: entry_image_def split: prod.splits)

lemma length_leaf_head [simp, byte_simps]: "length (leaf_head lf) = 10"
  by (simp add: leaf_head_def)

lemma entry_sizes:
  "length ks = length vs \<Longrightarrow> length vs = length ts \<Longrightarrow>
   length (concat (map entry_image (zip ks (zip vs ts)))) = sum_list (map (\<lambda>k. length k + 11) ks)"
  by (induction ks vs ts rule: list_induct3) auto

lemma leaf_entry_image:
  assumes "leaf_wf lf" and "i < length (l_keys lf)" and "off = int (length pre)"
    and "length (l_keys lf ! i) + 11 \<le> m" and "length pre + m = 4096"
  shows "leaf_entry lf (pre @ replicate m 0, off) i =
    Inr (pre @ entry_image (leaf_entries lf ! i) @ replicate (m - (length (l_keys lf ! i) + 11)) 0,
         off + int (length (l_keys lf ! i)) + 11)"
proof -
  let ?k = "l_keys lf ! i" and ?t = "l_tombstones lf ! i"
  obtain p q where v: "l_values lf ! i = (p, q)" by force
  have lens: "length (l_values lf) = length (l_keys lf)" "length (l_tombstones lf) = length (l_keys lf)"
    using assms(1) by (simp_all add: leaf_wf_def)
  have pq: "0 \<le> p" "p < 256 ^ 4" "0 \<le> q" "q < 256 ^ 4"
    using assms(1,2) v lens by (auto simp: leaf_wf_def u32_def list_all_length)
  have klen: "int (length ?k) < 256 ^ 2" using assms(4,5) by simp
  let ?T = "[if ?t then TOMBSTONE_FLAG else 0]" and ?n = "be_bytes 2 (int (length ?k))"
  have s1: "set_item (pre @ replicate m 0) off (if ?t then TOMBSTONE_FLAG else 0)
      = Inr ((pre @ ?T) @ replicate (m - 1) 0)"
    using set_item_zeros [of off pre m] assms(3,4) by simp
  have s2: "set_slice ((pre @ ?T) @ replicate (m - 1) 0) (off + 1) (off + 3) ?n
      = (pre @ ?T @ ?n) @ replicate (m - 1 - 2) 0"
    using set_slice_zeros [of "off + 1" "pre @ ?T" "off + 3" ?n "m - 1"] assms(3,4) by simp
  have s3: "set_slice ((pre @ ?T @ ?n) @ replicate (m - 1 - 2) 0) (off + 3) (off + 3 + int (length ?k)) ?k
      = (pre @ ?T @ ?n @ ?k) @ replicate (m - 1 - 2 - length ?k) 0"
    using set_slice_zeros [of "off + 3" "pre @ ?T @ ?n" "off + 3 + int (length ?k)" ?k "m - 1 - 2"] assms(3,4)
    by simp
  have s4: "set_slice ((pre @ ?T @ ?n @ ?k) @ replicate (m - 1 - 2 - length ?k) 0)
      (off + 3 + int (length ?k)) (off + 3 + int (length ?k) + 8) (be_bytes 4 p @ be_bytes 4 q)
      = (pre @ ?T @ ?n @ ?k @ be_bytes 4 p @ be_bytes 4 q) @ replicate (m - 1 - 2 - length ?k - 8) 0"
    using set_slice_zeros [of "off + 3 + int (length ?k)" "pre @ ?T @ ?n @ ?k"
        "off + 3 + int (length ?k) + 8" "be_bytes 4 p @ be_bytes 4 q" "m - 1 - 2 - length ?k"] assms(3,4)
    by simp
  have room: "\<not> off + 1 + 2 + int (length ?k) + 8 > 4096" using assms(3-5) by simp
  have t: "(if i < length (l_tombstones lf) \<and> ?t then TOMBSTONE_FLAG else 0) = (if ?t then TOMBSTONE_FLAG else 0)"
    using assms(2) lens by simp
  have e: "leaf_entries lf ! i = (?k, (p, q), ?t)" using assms(2) lens v by (simp add: leaf_entries_def)
  have gi: "get_item (l_values lf) (int i) = Inr (p, q)" using assms(2) lens v by (simp add: get_item_nonneg)
  have packs: "pack_u 2 (int (length ?k)) = Inr ?n" "pack_u 4 p = Inr (be_bytes 4 p)" "pack_u 4 q = Inr (be_bytes 4 q)"
    using pq klen by (simp_all add: pack_u_def)
  have "leaf_entry lf (pre @ replicate m 0, off) i =
    Inr ((pre @ ?T @ ?n @ ?k @ be_bytes 4 p @ be_bytes 4 q) @ replicate (m - 1 - 2 - length ?k - 8) 0,
      off + (3 + int (length ?k) + 8))"
    by (simp only: leaf_entry_def Let_def prod.case t py_len_def PAGE_SIZE_def room if_False packs gi
        bindE_Inr s1 s2 s3 s4)
  moreover have "m - 1 - 2 - length ?k - 8 = m - (length ?k + 11)" by simp
  ultimately show ?thesis by (simp add: e entry_image_def)
qed

text \<open>The bytes the first \<open>n\<close> entries of a leaf end at.\<close>

definition entries_end :: "key list \<Rightarrow> nat \<Rightarrow> nat" where
  "entries_end ks n = 10 + sum_list (map (\<lambda>k. length k + 11) (take n ks))"

lemma entries_end_0 [simp]: "entries_end ks 0 = 10"
  by (simp add: entries_end_def)

lemma entries_end_Suc: "n < length ks \<Longrightarrow> entries_end ks (Suc n) = entries_end ks n + length (ks ! n) + 11"
  by (simp add: entries_end_def take_Suc_conv_app_nth)

lemma entries_end_all: "entries_end (l_keys lf) (length (l_keys lf)) = leaf_size lf"
  by (simp add: entries_end_def leaf_size_def)

lemma leaf_entry_overflow:
  assumes "off = int (entries_end (l_keys lf) i)" and "i < length (l_keys lf)"
    and "\<not> entries_end (l_keys lf) (Suc i) \<le> 4096"
  shows "leaf_entry lf (page, off) i = Inl ValueError"
  using assms by (simp add: leaf_entry_def Let_def py_len_def entries_end_Suc)

lemma leaf_entries_fold:
  assumes "leaf_wf lf" and "n \<le> length (l_keys lf)"
  shows "foldE (leaf_entry lf) (leaf_head lf @ replicate 4086 0, 10) [0..<n] =
    (if entries_end (l_keys lf) n \<le> 4096
     then Inr (leaf_head lf @ concat (map entry_image (take n (leaf_entries lf))) @
               replicate (4096 - entries_end (l_keys lf) n) 0, int (entries_end (l_keys lf) n))
     else Inl ValueError)"
  using assms(2)
proof (induction n)
  case 0
  then show ?case by simp
next
  case (Suc n)
  let ?E = "entries_end (l_keys lf)" and ?pre = "leaf_head lf @ concat (map entry_image (take n (leaf_entries lf)))"
  have n: "n < length (l_keys lf)" using Suc.prems by simp
  have lens: "length (l_values lf) = length (l_keys lf)" "length (l_tombstones lf) = length (l_keys lf)"
    using assms(1) by (simp_all add: leaf_wf_def)
  have E: "?E (Suc n) = ?E n + length (l_keys lf ! n) + 11" by (rule entries_end_Suc [OF n])
  have pre: "length ?pre = ?E n"
    using lens n by (simp add: entries_end_def leaf_entries_def take_zip entry_sizes)
  have snoc: "foldE (leaf_entry lf) s [0..<Suc n] =
      bindE (foldE (leaf_entry lf) s [0..<n]) (\<lambda>s'. bindE (leaf_entry lf s' n) Inr)" for s
    by (simp add: foldE_append)
  show ?case
  proof (cases "?E n \<le> 4096")
    case False
    then show ?thesis unfolding snoc using Suc E by simp
  next
    case True
    note IH = Suc.IH [OF less_imp_le [OF n], unfolded if_P [OF True]]
    show ?thesis
    proof (cases "?E (Suc n) \<le> 4096")
      case False
      show ?thesis unfolding snoc IH bindE_Inr
        using leaf_entry_overflow [OF refl n False] False by simp
    next
      case fits: True
      have tk: "take (Suc n) (leaf_entries lf) = take n (leaf_entries lf) @ [leaf_entries lf ! n]"
        using n lens by (simp add: take_Suc_conv_app_nth leaf_entries_def)
      have "leaf_entry lf (?pre @ replicate (4096 - ?E n) 0, int (?E n)) n =
          Inr (?pre @ entry_image (leaf_entries lf ! n) @
               replicate (4096 - ?E n - (length (l_keys lf ! n) + 11)) 0,
               int (?E n) + int (length (l_keys lf ! n)) + 11)"
        by (rule leaf_entry_image [OF assms(1) n]) (use pre fits E in simp_all)
      moreover have "4096 - ?E n - (length (l_keys lf ! n) + 11) = 4096 - ?E (Suc n)" using E by simp
      ultimately show ?thesis unfolding snoc IH bindE_Inr using fits E tk by simp
    qed
  qed
qed

text \<open>The ten header bytes of a node page.\<close>

lemma page_head:
  "set_item (replicate 4096 0) 0 b = Inr ([b] @ replicate 4095 0)"
  "set_item ([b] @ replicate 4095 0) 1 c = Inr ([b, c] @ replicate 4094 0)"
  "length n = 2 \<Longrightarrow> set_slice ([b, c] @ replicate 4094 0) 2 4 n = ([b, c] @ n) @ replicate 4092 0"
  using set_item_zeros [of 0 "[]" 4096 b] set_item_zeros [of 1 "[b]" 4095 c]
    set_slice_zeros [of 2 "[b, c]" 4 n 4094] by simp_all

lemma leaf_serialize_image:
  assumes "leaf_wf lf" and "length (l_keys lf) < 65536"
  shows "leaf_serialize lf = (if leaf_size lf \<le> 4096 then Inr (leaf_image lf) else Inl ValueError)"
proof -
  let ?n = "be_bytes 2 (int (length (l_keys lf)))" and ?x = "be_bytes 4 (next_leaf_id lf)"
  have lens: "length (l_values lf) = length (l_keys lf)" "length (l_tombstones lf) = length (l_keys lf)"
    using assms(1) by (simp_all add: leaf_wf_def)
  have s3: "set_slice (([1, 0] @ ?n) @ replicate 4092 0) 4 6 [0, 0] = ([1, 0] @ ?n @ [0, 0]) @ replicate 4090 0"
    using set_slice_zeros [of 4 "[1, 0] @ ?n" 6 "[0, 0]" 4092] by simp
  have s4: "set_slice (([1, 0] @ ?n @ [0, 0]) @ replicate 4090 0) 6 10 ?x = leaf_head lf @ replicate 4086 0"
    using set_slice_zeros [of 6 "[1, 0] @ ?n @ [0, 0]" 10 ?x 4090] by (simp add: leaf_head_def py_len_def)
  have p: "pack_u 2 (int (length (l_keys lf))) = Inr ?n" "pack_u 4 (next_leaf_id lf) = Inr ?x"
    using assms by (auto simp: leaf_wf_def u32_def intro!: pack_u_ok)
  have "leaf_serialize lf = bindE (foldE (leaf_entry lf) (leaf_head lf @ replicate 4086 0, 10)
      [0..<length (l_keys lf)]) (\<lambda>(page, off). Inr page)"
    by (simp only: leaf_serialize_def Let_def page_head NODE_TYPE_LEAF_def bindE_Inr p py_len_def
        length_be_bytes s3 s4 BT_HEADER_SIZE_def)
  then show ?thesis
    unfolding leaf_entries_fold [OF assms(1) order_refl] entries_end_all
    using lens by (simp add: leaf_image_def leaf_entries_def)
qed

section \<open>Reading the images back\<close>

lemma entry_image_slices:
  fixes pre k post :: "byte list" and n p q :: int
  assumes "off = int (length pre)" and "length bn = 2" and "length bv = 8"
    and "page = pre @ [t] @ bn @ k @ bv @ post"
  shows "get_item page off = Inr t"
    and "slice page (off + 1) (off + 3) = bn"
    and "slice page (off + 3) (off + 3 + int (length k)) = k"
    and "slice page (off + 3 + int (length k)) (off + 3 + int (length k) + 8) = bv"
proof -
  show "get_item page off = Inr t" using assms by (simp add: get_item_nonneg nth_append)
  show "slice page (off + 1) (off + 3) = bn"
    using slice_mid [of "off + 1" "pre @ [t]" "off + 3" bn "k @ bv @ post"] assms by simp
  show "slice page (off + 3) (off + 3 + int (length k)) = k"
    using slice_mid [of "off + 3" "pre @ [t] @ bn" "off + 3 + int (length k)" k "bv @ post"] assms by simp
  show "slice page (off + 3 + int (length k)) (off + 3 + int (length k) + 8) = bv"
    using slice_mid [of "off + 3 + int (length k)" "pre @ [t] @ bn @ k"
        "off + 3 + int (length k) + 8" bv post] assms by simp
qed

definition entry_wf :: "key \<times> (int \<times> int) \<times> bool \<Rightarrow> bool" where
  "entry_wf e = (case e of (k, (p, q), t) \<Rightarrow> length k < 65536 \<and> u32 p \<and> u32 q)"

lemma read_entries_image:
  assumes "list_all entry_wf es" and "off = int (length pre)"
  shows "read_leaf_entries (length es) (pre @ concat (map entry_image es) @ post) off = Inr es"
  using assms
proof (induction es arbitrary: pre off)
  case Nil
  then show ?case by simp
next
  case (Cons e es)
  obtain k p q t where e: "e = (k, (p, q), t)" by (metis surj_pair)
  have wf: "length k < 65536" "u32 p" "u32 q" using Cons.prems(1) by (simp_all add: e entry_wf_def)
  let ?t = "if t then TOMBSTONE_FLAG else 0" and ?bv = "be_bytes 4 p @ be_bytes 4 q"
  let ?page = "pre @ concat (map entry_image (e # es)) @ post"
  have page: "?page = pre @ [?t] @ be_bytes 2 (int (length k)) @ k @ ?bv @ (concat (map entry_image es) @ post)"
    by (simp add: e entry_image_def py_len_def)
  note sl = entry_image_slices [OF Cons.prems(2) _ _ page]
  have pq: "be_int (be_bytes 4 p) = p" "be_int (be_bytes 4 q) = q"
    using wf by (simp_all add: be_int_be_bytes u32_def)
  have n: "be_int (be_bytes 2 (int (length k))) = int (length k)"
    using wf by (simp add: be_int_be_bytes)
  have rest: "read_leaf_entries (length es) ?page (off + (3 + int (length k) + 8)) = Inr es"
    using Cons.IH [of "off + (3 + int (length k) + 8)" "pre @ entry_image e"] Cons.prems by (simp add: e)
  have t: "(?t AND TOMBSTONE_FLAG \<noteq> 0) = t" by simp
  have un: "unpack_u 2 (be_bytes 2 (int (length k))) = Inr (int (length k))"
    by (simp only: unpack_u_def length_be_bytes n if_True simp_thms)
  have v: "length ?bv = 8" "take 4 ?bv = be_bytes 4 p" "drop 4 ?bv = be_bytes 4 q"
    by simp_all
  have "read_leaf_entries (Suc (length es)) ?page off = Inr ((k, (p, q), t) # es)"
    unfolding read_leaf_entries.simps(2)
    by (simp only: sl v length_be_bytes bindE_Inr un Let_def if_True pq rest t simp_thms)
  then show ?case by (simp only: list.size add_0_right add_Suc_right flip: e)
qed

lemma leaf_entries_parts:
  assumes "leaf_wf lf"
  shows "map fst (leaf_entries lf) = l_keys lf" and "map (fst \<circ> snd) (leaf_entries lf) = l_values lf"
    and "map (snd \<circ> snd) (leaf_entries lf) = l_tombstones lf"
    and "length (leaf_entries lf) = length (l_keys lf)"
  using assms by (simp_all add: leaf_wf_def leaf_entries_def flip: map_map)

lemma leaf_deserialize_image:
  assumes "leaf_wf lf" and "length (l_keys lf) < 65536" and "list_all (\<lambda>k. length k < 65536) (l_keys lf)"
  shows "leaf_deserialize (leaf_image lf) = Inr lf"
proof -
  let ?n = "be_bytes 2 (int (length (l_keys lf)))" and ?x = "be_bytes 4 (next_leaf_id lf)"
  let ?body = "concat (map entry_image (leaf_entries lf)) @ replicate (4096 - leaf_size lf) 0"
  have page: "leaf_image lf = [1, 0] @ ?n @ [0, 0] @ ?x @ ?body"
    by (simp add: leaf_image_def leaf_head_def py_len_def)
  have ty: "get_item (leaf_image lf) 0 = Inr 1" by (simp add: page get_item_def)
  have n: "slice (leaf_image lf) 2 4 = ?n"
    unfolding page using slice_mid [of 2 "[1, 0]" 4 ?n "[0, 0] @ ?x @ ?body"] by simp
  have x: "slice (leaf_image lf) 6 10 = ?x"
    unfolding page using slice_mid [of 6 "[1, 0] @ ?n @ [0, 0]" 10 ?x ?body] by simp
  have un: "unpack_u 2 ?n = Inr (int (length (l_keys lf)))" "unpack_u 4 ?x = Inr (next_leaf_id lf)"
    using assms by (auto simp: unpack_u_def be_int_be_bytes leaf_wf_def u32_def)
  have "list_all entry_wf (leaf_entries lf)"
    using assms by (simp add: list_all_length leaf_entries_def entry_wf_def leaf_wf_def split: prod.splits)
  then have rd: "read_leaf_entries (length (l_keys lf)) (leaf_image lf) 10 = Inr (leaf_entries lf)"
    using read_entries_image [of "leaf_entries lf" 10 "leaf_head lf"] leaf_entries_parts [OF assms(1)]
    by (simp add: leaf_image_def)
  show ?thesis
    unfolding leaf_deserialize_def NODE_TYPE_LEAF_def BT_HEADER_SIZE_def
    by (simp add: ty n x un rd leaf_entries_parts [OF assms(1)] del: be_bytes.simps)
qed

text \<open>A leaf read from a page is well formed, and its keys are short.\<close>

lemma be_int_u32: "length bs = 4 \<Longrightarrow> u32 (be_int bs)"
  using be_int_bound [of bs] by (simp add: u32_def)

lemma read_entries_wf:
  "read_leaf_entries n page off = Inr es \<Longrightarrow> length es = n \<and> list_all (\<lambda>(k, (p, q), t). u32 p \<and> u32 q) es"
  by (induction n arbitrary: off es) (auto simp: Let_def be_int_u32 split: if_splits)

lemma leaf_deserialize_wf:
  assumes "leaf_deserialize page = Inr lf"
  shows "leaf_wf lf"
proof -
  obtain nx n es where lf: "lf = \<lparr>l_keys = map fst es, l_values = map (fst \<circ> snd) es, next_leaf_id = nx,
      l_tombstones = map (snd \<circ> snd) es\<rparr>" and nx: "unpack_u 4 (slice page 6 10) = Inr nx"
    and es: "read_leaf_entries n page BT_HEADER_SIZE = Inr es"
    using assms unfolding leaf_deserialize_def by (auto split: if_splits)
  have "u32 nx" using nx by (auto simp: unpack_u_def be_int_u32 split: if_splits)
  then show ?thesis using read_entries_wf [OF es] by (auto simp: lf leaf_wf_def list_all_iff)
qed

lemma leaf_size_bounds:
  assumes "leaf_size lf \<le> 4096"
  shows "length (l_keys lf) < 65536" and "list_all (\<lambda>k. length k < 65536) (l_keys lf)"
proof -
  have "sum_list (map (\<lambda>k. length k + 11) ks) \<ge> length ks" for ks :: "key list"
    by (induction ks) auto
  from this [of "l_keys lf"] show "length (l_keys lf) < 65536" using assms by (simp add: leaf_size_def)
  show "list_all (\<lambda>k. length k < 65536) (l_keys lf)" unfolding list_all_iff
  proof
    fix k assume "k \<in> set (l_keys lf)"
    then have "length k + 11 \<le> sum_list (map (\<lambda>k. length k + 11) (l_keys lf))"
      by (intro member_le_sum_list) auto
    then show "length k < 65536" using assms by (simp add: leaf_size_def)
  qed
qed

lemma leaf_roundtrip:
  assumes "leaf_wf lf" and "leaf_size lf \<le> 4096"
  shows "leaf_serialize lf = Inr (leaf_image lf)" and "leaf_deserialize (leaf_image lf) = Inr lf"
  using leaf_serialize_image leaf_deserialize_image leaf_size_bounds assms by simp_all

lemma leaf_image_type: "leaf_image lf = 1 # tl (leaf_image lf)" "get_item (leaf_image lf) 0 = Inr 1"
  by (simp_all add: leaf_image_def leaf_head_def get_item_def)

lemma length_leaf_image:
  assumes "leaf_wf lf" and "leaf_size lf \<le> 4096"
  shows "length (leaf_image lf) = 4096"
proof -
  have "length (concat (map entry_image (leaf_entries lf))) = sum_list (map (\<lambda>k. length k + 11) (l_keys lf))"
    unfolding leaf_entries_def by (rule entry_sizes) (use assms(1) in \<open>auto simp: leaf_wf_def\<close>)
  then show ?thesis using assms(2) by (simp add: leaf_image_def leaf_size_def)
qed

section \<open>A leaf is a map\<close>

definition leaf_ok :: "leaf \<Rightarrow> bool" where
  "leaf_ok lf \<longleftrightarrow> leaf_wf lf \<and> sorted (l_keys lf) \<and> distinct (l_keys lf)"

lemma bisect_left_nth:
  assumes "sorted keys" and "distinct keys" and "i < length keys"
  shows "bisect_left keys (keys ! i) = i"
proof (rule antisym)
  let ?b = "bisect_left keys (keys ! i)"
  show "i \<le> ?b"
  proof (rule ccontr)
    assume "\<not> i \<le> ?b"
    then have b: "?b < i" "?b < length keys" using assms(3) by auto
    then have "keys ! ?b \<le> keys ! i" "keys ! ?b \<noteq> keys ! i"
      using assms by (simp_all add: sorted_nth_mono nth_eq_iff_index_eq)
    then show False using bisect_left_spec(2) [OF assms(1) b(2), of "keys ! i"] by auto
  qed
  show "?b \<le> i" using bisect_left_spec(2) [OF assms(1,3), of "keys ! i"] by auto
qed

lemma bisect_left_mem:
  assumes "sorted keys" and "distinct keys"
  shows "bisect_left keys key < length keys \<and> keys ! bisect_left keys key = key \<longleftrightarrow> key \<in> set keys"
  using bisect_left_nth [OF assms] by (metis in_set_conv_nth)

lemma leaf_get_nth:
  assumes "leaf_ok lf" and "i < length (l_keys lf)"
  shows "leaf_get lf (l_keys lf ! i) = (if l_tombstones lf ! i then None else Some (l_values lf ! i))"
  using assms bisect_left_nth [of "l_keys lf" i] by (simp add: leaf_ok_def leaf_get_def)

lemma leaf_get_absent:
  assumes "leaf_ok lf" and "key \<notin> set (l_keys lf)"
  shows "leaf_get lf key = None"
proof -
  have "\<not> (bisect_left (l_keys lf) key < length (l_keys lf) \<and> l_keys lf ! bisect_left (l_keys lf) key = key)"
    using assms bisect_left_mem [of "l_keys lf" key] by (simp add: leaf_ok_def)
  then show ?thesis unfolding leaf_get_def Let_def by (intro if_not_P) blast
qed

text \<open>What a leaf answers, from its entries.\<close>

lemma leaf_get_map:
  assumes "leaf_ok lf"
  shows "leaf_get lf key =
    (case map_of (leaf_entries lf) key of Some (v, False) \<Rightarrow> Some v | _ \<Rightarrow> None)"
proof (cases "key \<in> set (l_keys lf)")
  case True
  then obtain i where i: "i < length (l_keys lf)" "key = l_keys lf ! i" by (auto simp: in_set_conv_nth)
  have "map_of (leaf_entries lf) key = Some (l_values lf ! i, l_tombstones lf ! i)"
    unfolding i(2) leaf_entries_def using assms i(1)
    by (subst map_of_zip_nth) (simp_all add: leaf_ok_def leaf_wf_def)
  then show ?thesis using leaf_get_nth [OF assms i(1)] by (simp add: i(2))
next
  case False
  have "map_of (leaf_entries lf) key = None"
    using False leaf_entries_parts(1) [of lf] assms by (simp add: map_of_eq_None_iff leaf_ok_def flip: set_map)
  then show ?thesis using leaf_get_absent [OF assms False] by simp
qed

lemma insert_at_sorted:
  assumes "sorted keys" and "distinct keys" and "key \<notin> set keys"
  shows "sorted (insert_at (bisect_left keys key) key keys)" and "distinct (insert_at (bisect_left keys key) key keys)"
proof -
  let ?b = "bisect_left keys key"
  have lo: "k < key" if "k \<in> set (take ?b keys)" for k
    using that bisect_left_spec(2) [OF assms(1), of _ key] by (auto simp: in_set_conv_nth)
  have hi: "key < k" if mem: "k \<in> set (drop ?b keys)" for k
  proof -
    obtain j where j: "j < length (drop ?b keys)" "drop ?b keys ! j = k"
      using mem unfolding in_set_conv_nth by blast
    then have "?b + j < length keys" "k = keys ! (?b + j)"
      using bisect_left_spec(1) [OF assms(1), of key] by auto
    then have "\<not> k < key" using bisect_left_spec(2) [OF assms(1), of "?b + j" key] by simp
    moreover have "k \<noteq> key" using mem assms(3) by (auto dest: in_set_dropD)
    ultimately show ?thesis by simp
  qed
  have parts: "sorted (take ?b keys @ drop ?b keys)" "distinct (take ?b keys @ drop ?b keys)"
    using assms by simp_all
  show "sorted (insert_at ?b key keys)"
    using parts(1) lo hi by (auto simp: insert_at_def sorted_append simp del: append_take_drop_id dest: less_imp_le)
  show "distinct (insert_at ?b key keys)"
    using parts(2) assms(3) by (auto simp: insert_at_def simp del: append_take_drop_id dest: in_set_takeD in_set_dropD)
qed

text \<open>Putting an entry updates the map; a tombstone removes a key.\<close>

lemma length_insert_at: "i \<le> length xs \<Longrightarrow> length (insert_at i x xs) = Suc (length xs)"
  by (simp add: insert_at_def)

lemma zip_insert_at:
  "length ys = length xs \<Longrightarrow> i \<le> length xs \<Longrightarrow>
   zip (insert_at i x xs) (insert_at i y ys) = insert_at i (x, y) (zip xs ys)"
  by (simp add: insert_at_def take_zip drop_zip zip_append)

lemma map_of_insert_at:
  "x \<notin> fst ` set es \<Longrightarrow> map_of (insert_at i (x, y) es) = (map_of es)(x \<mapsto> y)"
proof -
  assume x: "x \<notin> fst ` set es"
  have es: "map_of es = map_of (take i es @ drop i es)" by simp
  have "map_of (take i es) x = None"
    using x by (auto simp: map_of_eq_None_iff dest: in_set_takeD)
  then show ?thesis unfolding es insert_at_def map_of_append
    by (auto simp: map_add_def fun_eq_iff split: option.splits)
qed

lemma map_of_zip_update:
  "distinct xs \<Longrightarrow> length ys = length xs \<Longrightarrow> i < length xs \<Longrightarrow>
   map_of (zip xs (ys[i := y])) = (map_of (zip xs ys))(xs ! i \<mapsto> y)"
proof (induction xs arbitrary: ys i)
  case (Cons x xs)
  then obtain z zs where "ys = z # zs" by (cases ys) auto
  then show ?case using Cons by (cases i) (auto simp: fun_eq_iff)
qed simp

lemma leaf_put_entries:
  assumes "leaf_ok lf"
  shows "map_of (leaf_entries (leaf_put lf key v)) = (map_of (leaf_entries lf))(key \<mapsto> (v, False))"
proof -
  let ?b = "bisect_left (l_keys lf) key"
  have lens: "length (l_values lf) = length (l_keys lf)" "length (l_tombstones lf) = length (l_keys lf)"
    and srt: "sorted (l_keys lf)" "distinct (l_keys lf)"
    using assms by (simp_all add: leaf_ok_def leaf_wf_def)
  show ?thesis
  proof (cases "?b < length (l_keys lf) \<and> l_keys lf ! ?b = key")
    case True
    have "zip ((l_values lf)[?b := v]) ((l_tombstones lf)[?b := False]) =
        (zip (l_values lf) (l_tombstones lf))[?b := (v, False)]"
      by (simp add: update_zip)
    then show ?thesis
      using map_of_zip_update [OF srt(2), of "zip (l_values lf) (l_tombstones lf)" ?b "(v, False)"] True lens
      by (simp add: leaf_put_def Let_def leaf_entries_def)
  next
    case False
    then have key: "key \<notin> set (l_keys lf)" using bisect_left_mem [OF srt] by blast
    have b: "?b \<le> length (l_keys lf)" by (rule bisect_left_spec(1) [OF srt(1)])
    have "leaf_entries (leaf_put lf key v) = insert_at ?b (key, (v, False)) (leaf_entries lf)"
      unfolding leaf_put_def Let_def if_not_P [OF False] leaf_entries_def
      using lens b by (simp add: zip_insert_at length_insert_at)
    moreover have "key \<notin> fst ` set (leaf_entries lf)"
      using key leaf_entries_parts(1) [of lf] assms by (simp add: leaf_ok_def flip: set_map)
    ultimately show ?thesis by (simp add: map_of_insert_at)
  qed
qed

lemma list_all_insert_at: "list_all P xs \<Longrightarrow> P x \<Longrightarrow> list_all P (insert_at i x xs)"
  by (auto simp: list_all_iff insert_at_def dest: in_set_takeD in_set_dropD)

lemma leaf_put_ok:
  assumes "leaf_ok lf" and "u32 (fst v)" and "u32 (snd v)"
  shows "leaf_ok (leaf_put lf key v)"
proof -
  have srt: "sorted (l_keys lf)" "distinct (l_keys lf)" and wf: "leaf_wf lf"
    using assms(1) by (simp_all add: leaf_ok_def)
  have b: "bisect_left (l_keys lf) key \<le> length (l_keys lf)" by (rule bisect_left_spec(1) [OF srt(1)])
  have v: "(\<lambda>(p, q). u32 p \<and> u32 q) v" using assms(2,3) by (cases v) simp
  show ?thesis
  proof (cases "bisect_left (l_keys lf) key < length (l_keys lf) \<and> l_keys lf ! bisect_left (l_keys lf) key = key")
    case True
    then show ?thesis using wf srt v by (simp add: leaf_put_def Let_def leaf_ok_def leaf_wf_def list_all_update)
  next
    case False
    then have "key \<notin> set (l_keys lf)" using bisect_left_mem [OF srt] by blast
    from insert_at_sorted [OF srt this] show ?thesis
      unfolding leaf_put_def Let_def if_not_P [OF False]
      using wf v b by (simp add: leaf_ok_def leaf_wf_def list_all_insert_at length_insert_at)
  qed
qed

lemma leaf_put_get:
  assumes "leaf_ok lf" and "u32 (fst v)" and "u32 (snd v)"
  shows "leaf_get (leaf_put lf key v) k = (if k = key then Some v else leaf_get lf k)"
  unfolding leaf_get_map [OF leaf_put_ok [OF assms]] leaf_put_entries [OF assms(1)] leaf_get_map [OF assms(1)]
  by simp

definition leaf_kill :: "leaf \<Rightarrow> nat \<Rightarrow> leaf" where
  "leaf_kill lf i = lf\<lparr>l_tombstones := (l_tombstones lf)[i := True]\<rparr>"

lemma leaf_kill_ok: "leaf_ok lf \<Longrightarrow> leaf_ok (leaf_kill lf i)"
  by (simp add: leaf_ok_def leaf_wf_def leaf_kill_def)

lemma leaf_kill_get:
  assumes "leaf_ok lf" and "i < length (l_keys lf)"
  shows "leaf_get (leaf_kill lf i) k = (if k = l_keys lf ! i then None else leaf_get lf k)"
proof (cases "k \<in> set (l_keys lf)")
  case True
  then obtain j where j: "j < length (l_keys lf)" "k = l_keys lf ! j" by (auto simp: in_set_conv_nth)
  have "l_tombstones (leaf_kill lf i) ! j = (if j = i then True else l_tombstones lf ! j)"
    using assms j(1) by (simp add: leaf_kill_def leaf_ok_def leaf_wf_def)
  moreover have "l_keys lf ! j = l_keys lf ! i \<longleftrightarrow> j = i"
    using assms j(1) by (simp add: leaf_ok_def nth_eq_iff_index_eq)
  ultimately show ?thesis
    using leaf_get_nth [OF leaf_kill_ok [OF assms(1)], of j i] leaf_get_nth [OF assms(1) j(1)] j
    by (simp add: leaf_kill_def)
next
  case False
  then show ?thesis
    using leaf_get_absent [OF assms(1)] leaf_get_absent [OF leaf_kill_ok [OF assms(1)], of k i] assms(2)
    by (auto simp: leaf_kill_def)
qed

section \<open>Trees of any height\<close>

text \<open>
  A descent ends at a page that is not an inner node, and rewriting one such
  page changes no descent, whatever the shape of the tree.
\<close>

lemma descend_found:
  "descend io fuel pid key s = Inr (lp, page) \<Longrightarrow>
   io_read io lp s = Inr page \<and> (\<exists>ty. get_item page 0 = Inr ty \<and> ty \<noteq> 2)"
proof (induction fuel arbitrary: pid)
  case (Suc fuel)
  from Suc.prems show ?case
    by (subst (asm) descend.simps) (auto split: if_splits dest: Suc.IH)
qed (subst (asm) descend.simps, auto split: if_splits)

lemma descend_update:
  assumes reads: "\<And>p. io_read io p s' = (if p = lp then Inr new else io_read io p s)"
    and old: "io_read io lp s = Inr old" "get_item old 0 = Inr t" "t \<noteq> 2"
    and new: "get_item new 0 = Inr u" "u \<noteq> 2"
  shows "descend io fuel pid key s' =
    bindE (descend io fuel pid key s) (\<lambda>(i, page). Inr (i, if i = lp then new else page))"
proof (induction fuel arbitrary: pid)
  case 0
  show ?case
    by (cases "pid = lp"; cases "io_read io pid s"; subst (1 2) descend.simps)
      (auto simp: reads old new bindE_def split: sum.splits)
next
  case (Suc fuel)
  show ?case
    by (cases "pid = lp"; cases "io_read io pid s"; subst (1 2) descend.simps)
      (auto simp: reads old new Suc bindE_def split: sum.splits)
qed

text \<open>The interface the tree needs of its page store: rewriting a page that holds a node.\<close>

locale node_store =
  fixes io :: "'s page_io" and inv :: "'s \<Rightarrow> bool"
  assumes update_law: "inv s \<Longrightarrow> io_read io pid s = Inr old \<Longrightarrow> get_item old 0 = Inr ty \<Longrightarrow> ty \<noteq> 0 \<Longrightarrow>
    length page = 4096 \<Longrightarrow>
    \<exists>s'. io_write io pid page s = (Inr (), s') \<and> inv s' \<and>
      (\<forall>p. io_read io p s' = (if p = pid then Inr page else io_read io p s))"
begin

text \<open>Rewriting the leaf a key belongs to, and what the searches answer then.\<close>

lemma rewrite_leaf:
  assumes "inv s" and "descend_to_leaf io fuel root key s = Inr (lp, lf)"
    and "leaf_wf lf'" and "leaf_size lf' \<le> 4096"
  shows "\<exists>s'. io_write io lp (leaf_image lf') s = (Inr (), s') \<and> inv s' \<and>
    (\<forall>k f. descend_to_leaf io f root k s' =
      bindE (descend_to_leaf io f root k s) (\<lambda>(i, l). Inr (i, if i = lp then lf' else l)))"
proof -
  obtain page where d: "descend io fuel root key s = Inr (lp, page)" and lf: "leaf_deserialize page = Inr lf"
    using assms(2) by (auto simp: descend_to_leaf_def)
  have ty: "get_item page 0 = Inr 1" using lf by (auto simp: leaf_deserialize_def split: if_splits)
  have rd: "io_read io lp s = Inr page" using descend_found [OF d] by blast
  from update_law [OF assms(1) rd ty _ length_leaf_image [OF assms(3,4)]]
  obtain s' where w: "io_write io lp (leaf_image lf') s = (Inr (), s')" "inv s'"
    and reads: "\<And>p. io_read io p s' = (if p = lp then Inr (leaf_image lf') else io_read io p s)" by auto
  have step: "descend_to_leaf io f root k s' =
      bindE (descend_to_leaf io f root k s) (\<lambda>(i, l). Inr (i, if i = lp then lf' else l))" for k f
  proof (cases "descend io f root k s")
    case (Inl e)
    then show ?thesis
      using descend_update [of io s' lp "leaf_image lf'" s page 1 1 f root k, OF reads rd ty _ leaf_image_type(2)]
      by (simp add: descend_to_leaf_def)
  next
    case (Inr r)
    obtain i pg where r: "r = (i, pg)" by force
    have "i = lp \<Longrightarrow> pg = page" using descend_found [of io f root k s i pg] Inr r rd by auto
    then show ?thesis
      using descend_update [of io s' lp "leaf_image lf'" s page 1 1 f root k, OF reads rd ty _ leaf_image_type(2)]
        Inr r lf leaf_roundtrip(2) [OF assms(3,4)]
      by (simp add: descend_to_leaf_def bindE_assoc bindE_def split: sum.splits)
  qed
  show ?thesis using w step by blast
qed

lemma search_rewritten:
  assumes d: "descend_to_leaf io fuel root key s = Inr (lp, lf)"
    and upd: "\<forall>k f. descend_to_leaf io f root k s' =
      bindE (descend_to_leaf io f root k s) (\<lambda>(i, l). Inr (i, if i = lp then lf' else l))"
    and get: "\<And>k. leaf_get lf' k = (if k = key then r else leaf_get lf k)"
  shows "bt_search io fuel k (s', Some root) =
    (if k = key then Inr r else bt_search io fuel k (s, Some root))"
proof (cases "descend_to_leaf io fuel root k s")
  case (Inl e)
  then show ?thesis using upd d by (auto simp: bt_search_def)
next
  case (Inr x)
  obtain i l where x: "x = (i, l)" by force
  have "i = lp \<Longrightarrow> l = lf"
    using Inr x d by (auto simp: descend_to_leaf_def dest!: descend_found)
  then show ?thesis using upd d get Inr x by (auto simp: bt_search_def)
qed

lemma insert_search:
  assumes "inv s" and d: "descend_to_leaf io fuel root key s = Inr (lp, lf)" and "leaf_ok lf"
    and "u32 (fst v)" and "u32 (snd v)" and "leaf_size (leaf_put lf key v) \<le> 4096"
  shows "\<exists>s'. bt_insert io fuel key v (s, Some root) = (Inr (), (s', Some root)) \<and> inv s' \<and>
    (\<forall>k. bt_search io fuel k (s', Some root) =
      (if k = key then Inr (Some v) else bt_search io fuel k (s, Some root)))"
proof -
  have wf: "leaf_wf (leaf_put lf key v)" using leaf_put_ok [OF assms(3-5)] by (simp add: leaf_ok_def)
  obtain s' where w: "io_write io lp (leaf_image (leaf_put lf key v)) s = (Inr (), s')" "inv s'"
    and upd: "\<forall>k f. descend_to_leaf io f root k s' =
      bindE (descend_to_leaf io f root k s) (\<lambda>(i, l). Inr (i, if i = lp then leaf_put lf key v else l))"
    using rewrite_leaf [OF assms(1) d wf assms(6)] by blast
  have "bt_insert io fuel key v (s, Some root) = (Inr (), (s', Some root))"
    using d w(1) leaf_roundtrip(1) [OF wf assms(6)] by (simp add: bt_insert_def on_pages_def Let_def)
  then show ?thesis
    using w(2) search_rewritten [OF d upd leaf_put_get [OF assms(3-5)]] by blast
qed

lemma delete_search:
  assumes "inv s" and d: "descend_to_leaf io fuel root key s = Inr (lp, lf)" and "leaf_ok lf"
    and "leaf_size lf \<le> 4096"
  shows "\<exists>s'. bt_delete io fuel key (s, Some root) = (Inr (), (s', Some root)) \<and> inv s' \<and>
    (\<forall>k. bt_search io fuel k (s', Some root) =
      (if k = key then Inr None else bt_search io fuel k (s, Some root)))"
proof (cases "bisect_left (l_keys lf) key < length (l_keys lf) \<and> l_keys lf ! bisect_left (l_keys lf) key = key")
  case True
  let ?i = "bisect_left (l_keys lf) key"
  have wf: "leaf_wf (leaf_kill lf ?i)" using leaf_kill_ok [OF assms(3)] by (simp add: leaf_ok_def)
  have sz: "leaf_size (leaf_kill lf ?i) \<le> 4096" using assms(4) by (simp add: leaf_size_def leaf_kill_def)
  obtain s' where w: "io_write io lp (leaf_image (leaf_kill lf ?i)) s = (Inr (), s')" "inv s'"
    and upd: "\<forall>k f. descend_to_leaf io f root k s' =
      bindE (descend_to_leaf io f root k s) (\<lambda>(i, l). Inr (i, if i = lp then leaf_kill lf ?i else l))"
    using rewrite_leaf [OF assms(1) d wf sz] by blast
  have "bt_delete io fuel key (s, Some root) = (Inr (), (s', Some root))"
    using d w(1) leaf_roundtrip(1) [OF wf sz] True
    by (simp add: bt_delete_def on_pages_def Let_def leaf_kill_def)
  moreover have "leaf_get (leaf_kill lf ?i) k = (if k = key then None else leaf_get lf k)" for k
    using leaf_kill_get [OF assms(3), of ?i k] True by simp
  ultimately show ?thesis using w(2) search_rewritten [OF d upd] by blast
next
  case False
  then have "bt_delete io fuel key (s, Some root) = (Inr (), (s, Some root))"
    unfolding bt_delete_def Let_def using d by (simp add: if_not_P [OF False])
  moreover have "key \<notin> set (l_keys lf)"
    using False bisect_left_mem [of "l_keys lf" key] assms(3) by (auto simp: leaf_ok_def)
  then have "bt_search io fuel key (s, Some root) = Inr None"
    using d leaf_get_absent [OF assms(3)] by (simp add: bt_search_def)
  ultimately show ?thesis using assms(1) by auto
qed

end

text \<open>The pager is such a store.\<close>

lemma write_node_law:
  assumes "pager_wf p" and "read_page pid p = Inr old" and "get_item old 0 = Inr ty" and "ty \<noteq> 0"
    and "length page = 4096"
  shows "\<exists>p'. write_page pid page p = (Inr (), p') \<and> pager_wf p' \<and>
    (\<forall>q. read_page q p' = (if q = pid then Inr page else read_page q p))"
proof -
  have pid: "0 \<le> pid" using assms(2) by (simp add: read_page_def split: if_splits)
  then have old: "old = img p pid" using assms(2) read_page_img [OF assms(1)] by simp
  have "pid < next_page_id p"
  proof (rule ccontr)
    assume out: "\<not> pid < next_page_id p"
    show False
    proof (cases "is_memory p")
      case True
      then have "map_of (mem_pages p) pid = None"
        using assms(1) out by (cases "map_of (mem_pages p) pid") (auto simp: pager_wf_def)
      then have "old = zero_page" using True pid by (simp add: old img_def)
      then show False using assms(3,4) by (simp add: get_item_def zero_page_def split: if_splits)
    next
      case False
      then have "int (length (main_file p)) \<le> pid * 4096" using assms(1) out by (simp add: pager_wf_def)
      then have "old = []" using False pid by (simp add: old img_def)
      then show False using assms(3) by (simp add: get_item_def)
    qed
  qed
  then have "eff p ((img p)(pid := page)) (write_page pid page p)"
    by (rule write_page_eff [OF assms(1,5) pid])
  from effD [of p _ "write_page pid page", OF this]
  obtain p' where p': "write_page pid page p = (Inr (), p')" "pager_wf p'" "same_rest p p'"
    "img p' = (img p)(pid := page)" by auto
  have "read_page q p' = (if q = pid then Inr page else read_page q p)" for q
  proof (cases "0 \<le> q")
    case True
    then show ?thesis using read_page_img [OF p'(2) True] read_page_img [OF assms(1) True] by (simp add: p'(4))
  qed (use pid in \<open>simp add: read_page_def\<close>)
  then show ?thesis using p' by blast
qed

interpretation pager_nodes: node_store pager_io pager_wf
  by unfold_locales (unfold pager_io_def page_io.simps, rule write_node_law)

section \<open>Splitting a leaf\<close>

text \<open>
  The halves are cut by entry count. When the right half does not fit a page
  the left half has already replaced the leaf.
\<close>

lemma descend_leaf_root:
  assumes "read_page lp p = Inr (leaf_image lf)" and "leaf_wf lf" and "leaf_size lf \<le> 4096"
  shows "descend_to_leaf pager_io fuel lp key p = Inr (lp, lf)"
  using assms leaf_image_type(2) [of lf] leaf_roundtrip(2) [OF assms(2,3)]
  by (simp add: descend_to_leaf_def descend.simps pager_io_def)

lemma search_leaf_root:
  assumes "read_page lp p = Inr (leaf_image lf)" and "leaf_wf lf" and "leaf_size lf \<le> 4096"
  shows "bt_search pager_io fuel key (p, Some lp) = Inr (leaf_get lf key)"
  using descend_leaf_root [OF assms] by (simp add: bt_search_def)

lemma leaf_halves:
  assumes "leaf_ok lf" and "u32 r"
  shows "leaf_ok (leaf_left lf r)" and "leaf_wf (leaf_right lf)"
    and "k \<in> set (l_keys (leaf_right lf)) \<Longrightarrow> leaf_get (leaf_left lf r) k = None"
proof -
  let ?mid = "length (l_keys lf) div 2"
  have part: "list_all P (take ?mid vs) \<and> list_all P (drop ?mid vs)" if "list_all P vs" for P and vs :: "(int \<times> int) list"
    using that by (auto simp: list_all_iff dest: in_set_takeD in_set_dropD)
  show ok: "leaf_ok (leaf_left lf r)" and "leaf_wf (leaf_right lf)"
    using assms part by (auto simp: leaf_ok_def leaf_wf_def leaf_left_def leaf_right_def Let_def sorted_wrt_take)
  assume k: "k \<in> set (l_keys (leaf_right lf))"
  have "distinct (take ?mid (l_keys lf) @ drop ?mid (l_keys lf))" using assms(1) by (simp add: leaf_ok_def)
  then have "k \<notin> set (l_keys (leaf_left lf r))"
    using k by (auto simp: leaf_left_def leaf_right_def Let_def simp del: append_take_drop_id)
  then show "leaf_get (leaf_left lf r) k = None" by (rule leaf_get_absent [OF ok])
qed

lemma split_overflow:
  assumes "pager_inv p" and "has_room p" and "pages_in_use p lp = Some (leaf_image lf)"
    and "leaf_ok lf" and "leaf_size lf \<le> 4096" and "u32 (fst v)" and "u32 (snd v)"
    and big: "\<not> leaf_size (leaf_put lf key v) \<le> 4096" "length (l_keys (leaf_put lf key v)) < 65536"
    and left: "leaf_size (leaf_left (leaf_put lf key v) 0) \<le> 4096"
    and right: "\<not> leaf_size (leaf_right (leaf_put lf key v)) \<le> 4096"
  shows "\<exists>p' r. bt_insert pager_io fuel key v (p, Some lp) = (Inl ValueError, (p', Some lp)) \<and>
    read_page lp p' = Inr (leaf_image (leaf_left (leaf_put lf key v) r)) \<and> u32 r"
proof -
  let ?lf = "leaf_put lf key v"
  have ok: "leaf_ok ?lf" by (rule leaf_put_ok [OF assms(4,6,7)])
  then have wf: "leaf_wf ?lf" "leaf_wf lf" using assms(4) by (simp_all add: leaf_ok_def)
  have d: "descend_to_leaf pager_io fuel lp key p = Inr (lp, lf)"
    by (rule descend_leaf_root [OF pager_pages.read_law [OF assms(1,3)] wf(2) assms(5)])
  obtain r p1 where a: "alloc_page p = (Inr r, p1)" "pager_inv p1" "pages_in_use p r = None"
      "pages_in_use p1 = (pages_in_use p)(r \<mapsto> zero_page)"
    using alloc_page_law [OF assms(1,2)] by blast
  have "pages_in_use p1 r = Some zero_page" by (simp only: a(4) fun_upd_same)
  then have "2 \<le> r \<and> r < next_page_id p1" by (auto simp only: pages_in_use_def split: if_splits)
  moreover have "next_page_id p1 \<le> 2 ^ 32" using a(2) by (simp only: pager_inv_def free_inv_def)
  ultimately have r: "u32 r" by (simp add: u32_def)
  have lsz: "leaf_size (leaf_left ?lf r) \<le> 4096" using left by (simp add: leaf_size_def leaf_left_def Let_def)
  have lw: "leaf_wf (leaf_left ?lf r)" using leaf_halves(1) [OF ok r] by (simp add: leaf_ok_def)
  have "pages_in_use p1 lp \<noteq> None" using a(3,4) assms(3) by (auto split: if_splits)
  from write_page_law [OF a(2) this length_leaf_image [OF lw lsz]]
  obtain p2 where w: "write_page lp (leaf_image (leaf_left ?lf r)) p1 = (Inr (), p2)" "pager_inv p2"
      "pages_in_use p2 = (pages_in_use p1)(lp \<mapsto> leaf_image (leaf_left ?lf r))" by blast
  have s1: "leaf_serialize ?lf = Inl ValueError" using leaf_serialize_image [OF wf(1) big(2)] big(1) by simp
  have s2: "leaf_serialize (leaf_left ?lf r) = Inr (leaf_image (leaf_left ?lf r))" by (rule leaf_roundtrip(1) [OF lw lsz])
  have s3: "leaf_serialize (leaf_right ?lf) = Inl ValueError"
    using leaf_serialize_image [OF leaf_halves(2) [OF ok r]] right big(2) by (simp add: leaf_right_def Let_def)
  have "bt_insert pager_io fuel key v (p, Some lp) = (Inl ValueError, (p2, Some lp))"
    using d a(1) w(1) s1 s2 s3
    by (simp add: bt_insert_def Let_def pager_io_def on_pages_def bindS_def is_value_error_def)
  moreover have "read_page lp p2 = Inr (leaf_image (leaf_left ?lf r))"
    using pager_pages.read_law [OF w(2)] w(3) by simp
  ultimately show ?thesis using r by blast
qed

section \<open>Properties\<close>

text \<open>
  The two binary searches: on sorted keys \<open>_bisect_left\<close> is the number of keys below the given
  one and \<open>_bisect_right\<close> the number of keys not above it.
\<close>

theorem bisect_counts:
  assumes "sorted keys"
  shows "bisect_left keys key = length (filter (\<lambda>k. k < key) keys) \<and>
    bisect_right keys key = length (filter (\<lambda>k. k \<le> key) keys)"
proof -
  have count: "length (filter P keys) = b"
    if "b \<le> length keys" and "\<And>i. i < length keys \<Longrightarrow> P (keys ! i) \<longleftrightarrow> i < b" for P b
  proof -
    have "{i. i < length keys \<and> P (keys ! i)} = {..<b}" using that by auto
    then show ?thesis by (simp add: length_filter_conv_card)
  qed
  show ?thesis
    using count [OF bisect_left_spec(1) [OF assms, of key] bisect_left_spec(2) [OF assms]]
      count [OF bisect_right_spec(1) [OF assms, of key] bisect_right_spec(2) [OF assms]] by simp
qed

lemma bisect_counts_witness: "bisect_left [[1], [3]] [3] = 1 \<and> bisect_right [[1], [3]] [3] = 2"
  using bisect_counts [of "[[1], [3]]" "[3]"] by simp

text \<open>
  The page image of a leaf: a leaf whose entries fit serialises to a page of 4096 bytes that
  reads back as the same leaf, one whose entries do not fit raises \<open>ValueError\<close>.
\<close>

theorem leaf_page_roundtrip:
  assumes "leaf_wf lf" and "length (l_keys lf) < 65536"
  shows "case leaf_serialize lf of
      Inr page \<Rightarrow> leaf_size lf \<le> 4096 \<and> length page = 4096 \<and> leaf_deserialize page = Inr lf
    | Inl e \<Rightarrow> leaf_size lf > 4096 \<and> e = ValueError"
proof (cases "leaf_size lf \<le> 4096")
  case True
  then show ?thesis using leaf_roundtrip [OF assms(1) True] length_leaf_image [OF assms(1) True] by simp
next
  case False
  then show ?thesis using leaf_serialize_image [OF assms] by simp
qed

definition sample_leaf :: leaf where
  "sample_leaf = \<lparr>l_keys = [[1], [2]], l_values = [(5, 0), (5, 1)], next_leaf_id = 0, l_tombstones = [False, True]\<rparr>"

lemma leaf_page_roundtrip_witness:
  "\<exists>page. leaf_serialize sample_leaf = Inr page \<and> leaf_deserialize page = Inr sample_leaf"
  using leaf_page_roundtrip [of sample_leaf]
  by (auto simp: sample_leaf_def leaf_wf_def u32_def leaf_size_def split: sum.splits)

text \<open>
  Insertion and deletion in a tree of any height on the pager: when the leaf the key belongs to
  keeps within its page, \<open>insert\<close> makes \<open>search\<close> answer the new value for that key, \<open>delete\<close>
  makes it answer nothing, and every other search answers as before.
\<close>

theorem btree_update_search:
  assumes "pager_wf p" and "descend_to_leaf pager_io fuel root key p = Inr (lp, lf)" and "leaf_ok lf"
    and "leaf_size lf \<le> 4096" and "u32 (fst v)" and "u32 (snd v)" and "leaf_size (leaf_put lf key v) \<le> 4096"
  shows "(\<exists>p'. bt_insert pager_io fuel key v (p, Some root) = (Inr (), (p', Some root)) \<and> pager_wf p' \<and>
      (\<forall>k. bt_search pager_io fuel k (p', Some root) =
        (if k = key then Inr (Some v) else bt_search pager_io fuel k (p, Some root)))) \<and>
    (\<exists>p'. bt_delete pager_io fuel key (p, Some root) = (Inr (), (p', Some root)) \<and> pager_wf p' \<and>
      (\<forall>k. bt_search pager_io fuel k (p', Some root) =
        (if k = key then Inr None else bt_search pager_io fuel k (p, Some root))))"
  using pager_nodes.insert_search [OF assms(1-3,5-7)] pager_nodes.delete_search [OF assms(1-4)] by blast

definition one_leaf_pager :: "leaf \<Rightarrow> pager" where
  "one_leaf_pager lf =
     \<lparr>is_memory = True, mem_pages = [(0, file_header), (1, zero_page), (2, leaf_image lf)], main_file = [],
      mmap_size = 0, next_page_id = 3, wal_is_open = False, wal_bytes = None\<rparr>"

lemma one_leaf_pager:
  assumes "leaf_wf lf" and "leaf_size lf \<le> 4096"
  shows "pager_inv (one_leaf_pager lf)" and "pages_in_use (one_leaf_pager lf) 2 = Some (leaf_image lf)"
    and "has_room (one_leaf_pager lf)" and "read_page 2 (one_leaf_pager lf) = Inr (leaf_image lf)"
proof -
  have "head_of (img (one_leaf_pager lf)) = 0"
    by (simp add: head_of_def img_def one_leaf_pager_def file_header_free be_int_def)
  moreover have "pager_wf (one_leaf_pager lf)"
    using length_leaf_image [OF assms] by (auto simp: pager_wf_def one_leaf_pager_def)
  ultimately have "free_inv (one_leaf_pager lf) []"
    by (simp add: free_inv_def) (simp add: one_leaf_pager_def)
  from pager_invI [OF this] show "pager_inv (one_leaf_pager lf)"
    "pages_in_use (one_leaf_pager lf) 2 = Some (leaf_image lf)"
    by (auto simp: pages_in_use_def) (simp_all add: one_leaf_pager_def img_def)
qed (simp_all add: one_leaf_pager_def has_room_def read_page_def)

lemma btree_update_search_witness:
  "\<exists>p'. bt_insert pager_io 9 [2] (7, 7) (one_leaf_pager sample_leaf, Some 2) = (Inr (), (p', Some 2)) \<and>
     bt_search pager_io 9 [2] (p', Some 2) = Inr (Some (7, 7))"
proof -
  have ok: "leaf_ok sample_leaf" "leaf_wf sample_leaf" "leaf_size sample_leaf \<le> 4096"
    by (auto simp: leaf_ok_def sample_leaf_def leaf_wf_def u32_def leaf_size_def)
  have b: "bisect_left [[1], [2]] [2::byte] = 1" using bisect_counts [of "[[1], [2]]" "[2]"] by simp
  note P = one_leaf_pager [OF ok(2,3)]
  have "leaf_size (leaf_put sample_leaf [2] (7, 7)) \<le> 4096"
    using b by (simp add: leaf_put_def sample_leaf_def leaf_size_def)
  then show ?thesis
    using btree_update_search [of "one_leaf_pager sample_leaf" 9 2 "[2]" 2 sample_leaf "(7, 7)"] P ok
      descend_leaf_root [OF P(4) ok(2,3)]
    by (auto simp: u32_def pager_inv_def free_inv_def)
qed

text \<open>
  C30. A split that loses data: when the right half of an overflowing leaf does not fit a page
  itself, \<open>insert\<close> raises \<open>ValueError\<close> after the left half has replaced the leaf, and every key of
  the right half that the tree held can no longer be found.
\<close>

theorem split_loses_keys:
  assumes "pager_inv p" and "has_room p" and "pages_in_use p lp = Some (leaf_image lf)"
    and "leaf_ok lf" and "leaf_size lf \<le> 4096" and "u32 (fst v)" and "u32 (snd v)"
    and "\<not> leaf_size (leaf_put lf key v) \<le> 4096" and "length (l_keys (leaf_put lf key v)) < 65536"
    and "leaf_size (leaf_left (leaf_put lf key v) 0) \<le> 4096"
    and "\<not> leaf_size (leaf_right (leaf_put lf key v)) \<le> 4096"
  shows "\<exists>p'. bt_insert pager_io fuel key v (p, Some lp) = (Inl ValueError, (p', Some lp)) \<and>
    (\<forall>k \<in> set (l_keys (leaf_right (leaf_put lf key v))).
      bt_search pager_io fuel k (p, Some lp) = Inr (leaf_get lf k) \<and>
      bt_search pager_io fuel k (p', Some lp) = Inr None)"
proof -
  let ?lf = "leaf_put lf key v"
  have ok: "leaf_ok ?lf" by (rule leaf_put_ok [OF assms(4,6,7)])
  obtain p' r where p': "bt_insert pager_io fuel key v (p, Some lp) = (Inl ValueError, (p', Some lp))"
      "read_page lp p' = Inr (leaf_image (leaf_left ?lf r))" "u32 r"
    using split_overflow [OF assms] by blast
  have lw: "leaf_wf (leaf_left ?lf r)" using leaf_halves(1) [OF ok p'(3)] by (simp add: leaf_ok_def)
  have lsz: "leaf_size (leaf_left ?lf r) \<le> 4096" using assms(10) by (simp add: leaf_size_def leaf_left_def Let_def)
  have "bt_search pager_io fuel k (p, Some lp) = Inr (leaf_get lf k)" for k
    using search_leaf_root [OF pager_pages.read_law [OF assms(1,3)] _ assms(5)] assms(4) by (simp add: leaf_ok_def)
  moreover have "bt_search pager_io fuel k (p', Some lp) = Inr None" if "k \<in> set (l_keys (leaf_right ?lf))" for k
    using search_leaf_root [OF p'(2) lw lsz] leaf_halves(3) [OF ok p'(3) that] by simp
  ultimately show ?thesis using p'(1) by blast
qed

definition lopsided_leaf :: leaf where
  "lopsided_leaf =
     \<lparr>l_keys = [[1], [2], replicate 2000 3, replicate 2000 4], l_values = [(5, 0), (5, 1), (5, 2), (5, 3)],
      next_leaf_id = 0, l_tombstones = [False, False, False, False]\<rparr>"

lemma replicate_2000: "replicate 2000 x = x # replicate 1999 x"
  using replicate_Suc [of 1999 x] by simp

lemma lopsided_leaf:
  "leaf_ok lopsided_leaf" "leaf_size lopsided_leaf = 4056"
  "leaf_put lopsided_leaf (replicate 100 5) (6, 0) =
     \<lparr>l_keys = [[1], [2], replicate 2000 3, replicate 2000 4, replicate 100 5],
      l_values = [(5, 0), (5, 1), (5, 2), (5, 3), (6, 0)],
      next_leaf_id = 0, l_tombstones = [False, False, False, False, False]\<rparr>"
proof -
  let ?K = "[[1], [2], replicate 2000 3, replicate 2000 4] :: key list"
  have r100: "replicate 100 (5::byte) = 5 # replicate 99 5" using replicate_Suc [of 99 "5::byte"] by simp
  have srt: "sorted ?K" "distinct ?K" unfolding replicate_2000 by simp_all
  then show "leaf_ok lopsided_leaf" "leaf_size lopsided_leaf = 4056"
    by (simp_all add: leaf_ok_def lopsided_leaf_def leaf_wf_def u32_def leaf_size_def)
  have "filter (\<lambda>k. k < replicate 100 5) ?K = ?K" unfolding replicate_2000 r100 by simp
  then have b: "bisect_left ?K (replicate 100 5) = 4" using bisect_counts [OF srt(1), of "replicate 100 5"] by simp
  show "leaf_put lopsided_leaf (replicate 100 5) (6, 0) =
     \<lparr>l_keys = [[1], [2], replicate 2000 3, replicate 2000 4, replicate 100 5],
      l_values = [(5, 0), (5, 1), (5, 2), (5, 3), (6, 0)],
      next_leaf_id = 0, l_tombstones = [False, False, False, False, False]\<rparr>"
    by (simp add: leaf_put_def Let_def lopsided_leaf_def b insert_at_def)
qed

lemma split_loses_keys_witness:
  "\<exists>p p'. bt_search pager_io 9 (replicate 2000 3) (p, Some 2) = Inr (Some (5, 2)) \<and>
     bt_insert pager_io 9 (replicate 100 5) (6, 0) (p, Some 2) = (Inl ValueError, (p', Some 2)) \<and>
     bt_search pager_io 9 (replicate 2000 3) (p', Some 2) = Inr None"
proof -
  have wf: "leaf_wf lopsided_leaf" "leaf_size lopsided_leaf \<le> 4096"
    using lopsided_leaf by (simp_all add: leaf_ok_def)
  note P = one_leaf_pager [OF wf]
  have k: "replicate 2000 3 \<in> set (l_keys (leaf_right (leaf_put lopsided_leaf (replicate 100 5) (6, 0))))"
    by (simp add: lopsided_leaf(3) leaf_right_def)
  have g: "leaf_get lopsided_leaf (replicate 2000 3) = Some (5, 2)"
    using leaf_get_nth [OF lopsided_leaf(1), of 2] by (simp add: lopsided_leaf_def)
  show ?thesis
    using split_loses_keys [OF P(1,3,2) lopsided_leaf(1) wf(2), of "(6, 0)" "replicate 100 5" 9] k g
    by (auto simp: lopsided_leaf(3) u32_def leaf_size_def leaf_left_def leaf_right_def)
qed

end
