(* ===== verification/Json.thy ===== *)
theory Json
  imports Py_Text
begin

text \<open>
  The part of Python's \<open>json\<close> the catalog uses: \<open>dumps\<close> with the separators
  "," and ":" and \<open>loads\<close>, on the values \<open>json\<close> knows. Text is a list of code
  points; \<open>dumps\<close> escapes everything outside printable ASCII. The parser carries
  fuel, the length of the text: every call consumes a character. Main lemma:
  \<open>loads\<close> reads back what \<open>dumps\<close> wrote.
\<close>

datatype json =
    J_null
  | J_bool bool
  | J_int int
  | J_float "64 word"
  | J_str pystr
  | J_list "json list"
  | J_obj "(pystr \<times> json) list"

section \<open>dumps\<close>

fun dec_digits :: "nat \<Rightarrow> pystr" where
  "dec_digits n = (if n < 10 then [48 + n] else dec_digits (n div 10) @ [48 + n mod 10])"

declare dec_digits.simps [simp del]

text \<open>\<open>str(i)\<close>.\<close>

definition int_str :: "int \<Rightarrow> pystr" where
  "int_str i = (if i < 0 then [45] else []) @ dec_digits (nat \<bar>i\<bar>)"

definition hex_digit :: "nat \<Rightarrow> nat" where
  "hex_digit d = (if d < 10 then 48 + d else 87 + d)"

definition u_escape :: "nat \<Rightarrow> pystr" where
  "u_escape n =
     [92, 117, hex_digit (n div 4096 mod 16), hex_digit (n div 256 mod 16), hex_digit (n div 16 mod 16),
      hex_digit (n mod 16)]"

definition simple_escapes :: "(nat \<times> nat) list" where
  "simple_escapes = [(34, 34), (92, 92), (98, 8), (102, 12), (110, 10), (114, 13), (116, 9)]"

definition json_char :: "nat \<Rightarrow> pystr" where
  "json_char c =
     (if c = 34 then [92, 34] else if c = 92 then [92, 92] else if c = 8 then [92, 98]
      else if c = 12 then [92, 102] else if c = 10 then [92, 110] else if c = 13 then [92, 114]
      else if c = 9 then [92, 116]
      else if 32 \<le> c \<and> c < 127 then [c]
      else if c < 0x10000 then u_escape c
      else u_escape (0xD800 + (c - 0x10000) div 1024) @ u_escape (0xDC00 + (c - 0x10000) mod 1024))"

definition json_str :: "pystr \<Rightarrow> pystr" where
  "json_str s = 34 # concat (map json_char s) @ [34]"

fun intersperse_comma :: "pystr list \<Rightarrow> pystr" where
  "intersperse_comma [] = []"
| "intersperse_comma [x] = x"
| "intersperse_comma (x # xs) = x @ 44 # intersperse_comma xs"

text \<open>A float is written by \<open>repr\<close>, which the catalog never needs: its text is a parameter.\<close>

fun dumps :: "(64 word \<Rightarrow> pystr) \<Rightarrow> json \<Rightarrow> pystr" where
  "dumps fr J_null = ustr ''null''"
| "dumps fr (J_bool b) = (if b then ustr ''true'' else ustr ''false'')"
| "dumps fr (J_int i) = int_str i"
| "dumps fr (J_float f) = fr f"
| "dumps fr (J_str s) = json_str s"
| "dumps fr (J_list vs) = 91 # intersperse_comma (map (dumps fr) vs) @ [93]"
| "dumps fr (J_obj kvs) = 123 # intersperse_comma (map (\<lambda>(k, v). json_str k @ 58 # dumps fr v) kvs) @ [125]"

section \<open>loads\<close>

definition skip_ws :: "pystr \<Rightarrow> pystr" where
  "skip_ws = dropWhile (\<lambda>c. c \<in> {32, 9, 10, 13})"

definition hex_value :: "nat \<Rightarrow> nat option" where
  "hex_value c =
     (if 48 \<le> c \<and> c \<le> 57 then Some (c - 48)
      else if 97 \<le> c \<and> c \<le> 102 then Some (c - 87)
      else if 65 \<le> c \<and> c \<le> 70 then Some (c - 55) else None)"

fun hex4 :: "pystr \<Rightarrow> (nat \<times> pystr) option" where
  "hex4 (a # b # c # d # r) =
     (case (hex_value a, hex_value b, hex_value c, hex_value d) of
        (Some a, Some b, Some c, Some d) \<Rightarrow> Some (((a * 16 + b) * 16 + c) * 16 + d, r)
      | _ \<Rightarrow> None)"
| "hex4 _ = None"

text \<open>The character after a backslash; a pair of surrogate escapes is one character.\<close>

definition scan_escape :: "pystr \<Rightarrow> (nat \<times> pystr) option" where
  "scan_escape s =
     (case s of
        [] \<Rightarrow> None
      | c # r \<Rightarrow>
          if c = 117 then
            (case hex4 r of
               None \<Rightarrow> None
             | Some (n, r1) \<Rightarrow>
                 if 0xD800 \<le> n \<and> n < 0xDC00 \<and> take 2 r1 = [92, 117] then
                   (case hex4 (drop 2 r1) of
                      None \<Rightarrow> None
                    | Some (m, r2) \<Rightarrow>
                        if 0xDC00 \<le> m \<and> m < 0xE000
                        then Some (0x10000 + (n - 0xD800) * 1024 + (m - 0xDC00), r2)
                        else Some (n, r1))
                 else Some (n, r1))
          else if c = 47 then Some (47, r)
          else map_option (\<lambda>d. (d, r)) (map_of simple_escapes c))"

lemma hex4_length: "hex4 s = Some (n, r) \<Longrightarrow> length s = length r + 4"
  by (cases s rule: hex4.cases) (auto split: option.splits)

lemma scan_escape_shorter: "scan_escape s = Some (c, r) \<Longrightarrow> length r < length s"
  unfolding scan_escape_def
  by (auto split: list.splits if_splits option.splits dest!: hex4_length)

function scan_string :: "pystr \<Rightarrow> (pystr \<times> pystr) res" where
  "scan_string [] = Inl ValueError"
| "scan_string (c # cs) =
     (if c = 34 then Inr ([], cs)
      else if c = 92 then
        (case scan_escape cs of
           None \<Rightarrow> Inl ValueError
         | Some (d, r) \<Rightarrow> bindE (scan_string r) (\<lambda>(s, rest). Inr (d # s, rest)))
      else if c < 32 then Inl ValueError
      else bindE (scan_string cs) (\<lambda>(s, rest). Inr (c # s, rest)))"
  by pat_completeness auto
termination
  by (relation "measure length") (auto dest: scan_escape_shorter)

definition strip_prefix :: "string \<Rightarrow> pystr \<Rightarrow> pystr option" where
  "strip_prefix p s = (if take (length p) s = ustr p then Some (drop (length p) s) else None)"

text \<open>\<open>(-?(?:0|[1-9]\d*))(\.\d+)?([eE][-+]?\d+)?\<close>: integer part, fraction, exponent.\<close>

definition int_part :: "pystr \<Rightarrow> (pystr \<times> pystr) option" where
  "int_part s =
     (let (sign, r) = (if s \<noteq> [] \<and> hd s = 45 then ([45], tl s) else ([], s)) in
      case r of
        [] \<Rightarrow> None
      | c # r' \<Rightarrow>
          if c = 48 then Some (sign @ [48], r')
          else if ascii_digit c then Some (sign @ c # takeWhile ascii_digit r', dropWhile ascii_digit r')
          else None)"

definition frac_part :: "pystr \<Rightarrow> pystr \<times> pystr" where
  "frac_part s =
     (if s \<noteq> [] \<and> hd s = 46 \<and> takeWhile ascii_digit (tl s) \<noteq> []
      then (46 # takeWhile ascii_digit (tl s), dropWhile ascii_digit (tl s)) else ([], s))"

definition exp_part :: "pystr \<Rightarrow> pystr \<times> pystr" where
  "exp_part s =
     (if s \<noteq> [] \<and> hd s \<in> {101, 69} then
        let r = tl s; (sign, r') = (if r \<noteq> [] \<and> hd r \<in> {45, 43} then ([hd r], tl r) else ([], r)) in
        if takeWhile ascii_digit r' \<noteq> []
        then (hd s # sign @ takeWhile ascii_digit r', dropWhile ascii_digit r') else ([], s)
      else ([], s))"

definition scan_number :: "uni \<Rightarrow> pystr \<Rightarrow> (json \<times> pystr) res" where
  "scan_number u s =
     (case int_part s of
        None \<Rightarrow> Inl ValueError
      | Some (i, r) \<Rightarrow>
          let (f, r1) = frac_part r; (e, r2) = exp_part r1 in
          if f = [] \<and> e = [] then bindE (py_int u i) (\<lambda>n. Inr (J_int n, r2))
          else bindE (py_float u (i @ f @ e)) (\<lambda>x. Inr (J_float x, r2)))"

definition json_words :: "(string \<times> json) list" where
  "json_words =
     [(''null'', J_null), (''true'', J_bool True), (''false'', J_bool False), (''NaN'', J_float f64_nan),
      (''Infinity'', J_float (word_of_int f64_inf)), (''-Infinity'', J_float (word_of_int (2 ^ 63 + f64_inf)))]"

definition scan_word :: "pystr \<Rightarrow> (json \<times> pystr) option" where
  "scan_word s =
     map_option (\<lambda>(w, v). (v, drop (length w) s)) (find (\<lambda>(w, v). strip_prefix w s \<noteq> None) json_words)"

fun scan_value :: "nat \<Rightarrow> uni \<Rightarrow> pystr \<Rightarrow> (json \<times> pystr) res"
and scan_items :: "nat \<Rightarrow> uni \<Rightarrow> pystr \<Rightarrow> (json list \<times> pystr) res"
and scan_members :: "nat \<Rightarrow> uni \<Rightarrow> pystr \<Rightarrow> ((pystr \<times> json) list \<times> pystr) res" where
  "scan_value 0 u s = Inl FuelOut"
| "scan_value (Suc n) u s =
     (case s of
        [] \<Rightarrow> Inl ValueError
      | c # r \<Rightarrow>
          if c = 34 then bindE (scan_string r) (\<lambda>(t, rest). Inr (J_str t, rest))
          else if c = 123 then
            (case skip_ws r of
               [] \<Rightarrow> Inl ValueError
             | d # r' \<Rightarrow>
                 if d = 125 then Inr (J_obj [], r')
                 else bindE (scan_members n u (d # r')) (\<lambda>(kvs, rest).
                   Inr (J_obj (foldl (\<lambda>m (k, v). AList.update k v m) [] kvs), rest)))
          else if c = 91 then
            (case skip_ws r of
               [] \<Rightarrow> Inl ValueError
             | d # r' \<Rightarrow>
                 if d = 93 then Inr (J_list [], r')
                 else bindE (scan_items n u (d # r')) (\<lambda>(vs, rest). Inr (J_list vs, rest)))
          else (case scan_word s of Some vr \<Rightarrow> Inr vr | None \<Rightarrow> scan_number u s))"
| "scan_items 0 u s = Inl FuelOut"
| "scan_items (Suc n) u s =
     bindE (scan_value n u s) (\<lambda>(v, r).
     case skip_ws r of
       [] \<Rightarrow> Inl ValueError
     | c # r' \<Rightarrow>
         if c = 93 then Inr ([v], r')
         else if c = 44 then bindE (scan_items n u (skip_ws r')) (\<lambda>(vs, rest). Inr (v # vs, rest))
         else Inl ValueError)"
| "scan_members 0 u s = Inl FuelOut"
| "scan_members (Suc n) u s =
     (case s of
        [] \<Rightarrow> Inl ValueError
      | c # r \<Rightarrow>
          if c \<noteq> 34 then Inl ValueError
          else bindE (scan_string r) (\<lambda>(k, r1).
            case skip_ws r1 of
              [] \<Rightarrow> Inl ValueError
            | c1 # r2 \<Rightarrow>
                if c1 \<noteq> 58 then Inl ValueError
                else bindE (scan_value n u (skip_ws r2)) (\<lambda>(v, r3).
                  case skip_ws r3 of
                    [] \<Rightarrow> Inl ValueError
                  | c2 # r4 \<Rightarrow>
                      if c2 = 125 then Inr ([(k, v)], r4)
                      else if c2 = 44 then
                        bindE (scan_members n u (skip_ws r4)) (\<lambda>(kvs, rest). Inr ((k, v) # kvs, rest))
                      else Inl ValueError)))"

definition json_fuel :: "pystr \<Rightarrow> nat" where
  "json_fuel s = 2 * length s + 2"

definition loads :: "uni \<Rightarrow> pystr \<Rightarrow> json res" where
  "loads u s =
     bindE (scan_value (json_fuel s) u (skip_ws s)) (\<lambda>(v, r). if skip_ws r = [] then Inr v else Inl ValueError)"

section \<open>Reading back\<close>

text \<open>The values \<open>dumps\<close> writes exactly: no floats, no surrogate code points, distinct keys.\<close>

definition text_ok :: "pystr \<Rightarrow> bool" where
  "text_ok s \<longleftrightarrow> list_all (\<lambda>c. c < 0x110000 \<and> \<not> (0xD800 \<le> c \<and> c < 0xE000)) s"

fun json_ok :: "json \<Rightarrow> bool" where
  "json_ok (J_int i) \<longleftrightarrow> \<bar>i\<bar> < 2 ^ 64"
| "json_ok (J_float f) \<longleftrightarrow> False"
| "json_ok (J_str s) \<longleftrightarrow> text_ok s"
| "json_ok (J_list vs) \<longleftrightarrow> (\<forall>v \<in> set vs. json_ok v)"
| "json_ok (J_obj kvs) \<longleftrightarrow> distinct (map fst kvs) \<and> (\<forall>kv \<in> set kvs. text_ok (fst kv) \<and> json_ok (snd kv))"
| "json_ok _ \<longleftrightarrow> True"

lemma hex_digit_value: "d < 16 \<Longrightarrow> hex_value (hex_digit d) = Some d"
  by (auto simp: hex_value_def hex_digit_def)

lemma hex4_escape:
  assumes "n < 0x10000"
  shows "hex4 (drop 2 (u_escape n) @ r) = Some (n, r)"
proof -
  have d: "n div 256 = n div 16 div 16" "n div 4096 = n div 16 div 16 div 16" by (simp_all add: div_mult2_eq [symmetric])
  have less: "n div 16 div 16 div 16 < 16"
    using assms by (simp add: div_mult2_eq [symmetric] less_mult_imp_div_less)
  then have top: "n div 16 div 16 div 16 mod 16 = n div 16 div 16 div 16" by (rule mod_less)
  have "((n div 16 div 16 div 16 * 16 + n div 16 div 16 mod 16) * 16 + n div 16 mod 16) * 16 + n mod 16 = n"
    by (simp only: div_mult_mod_eq)
  moreover have "hex4 (drop 2 (u_escape n) @ r) =
      Some (((n div 16 div 16 div 16 * 16 + n div 16 div 16 mod 16) * 16 + n div 16 mod 16) * 16 + n mod 16, r)"
    unfolding u_escape_def d top using less by (simp add: hex_digit_value)
  ultimately show ?thesis by simp
qed

lemma u_escape_Cons: "u_escape n @ r = 92 # 117 # drop 2 (u_escape n) @ r"
  by (simp add: u_escape_def)

lemma scan_char:
  assumes "c < 0x110000" and "\<not> (0xD800 \<le> c \<and> c < 0xE000)"
  shows "scan_string (json_char c @ t) = bindE (scan_string t) (\<lambda>(s, rest). Inr (c # s, rest))"
proof -
  consider "c \<in> {34, 92, 8, 12, 10, 13, 9}" | "32 \<le> c" "c < 127" "c \<noteq> 34" "c \<noteq> 92"
    | "c \<notin> {34, 92, 8, 12, 10, 13, 9}" "\<not> (32 \<le> c \<and> c < 127)" "c < 0x10000" | "0x10000 \<le> c"
    by fastforce
  then show ?thesis
  proof cases
    case 1
    then show ?thesis by (auto simp: json_char_def scan_escape_def simple_escapes_def)
  next
    case 2
    then show ?thesis by (simp add: json_char_def)
  next
    case 3
    have "json_char c = u_escape c" using 3 by (auto simp: json_char_def)
    moreover have "\<not> (0xD800 \<le> c \<and> c < 0xDC00)" using assms(2) by linarith
    ultimately show ?thesis
      using hex4_escape [OF 3(3), of t] by (auto simp add: u_escape_Cons scan_escape_def)
  next
    case 4
    let ?h = "0xD800 + (c - 0x10000) div 1024" and ?l = "0xDC00 + (c - 0x10000) mod 1024"
    have h: "(c - 0x10000) div 1024 < 1024" using assms(1) 4 by (intro less_mult_imp_div_less) simp
    have l: "(c - 0x10000) mod 1024 < 1024" by simp
    have c: "c = 0x10000 + (c - 0x10000) div 1024 * 1024 + (c - 0x10000) mod 1024"
      using 4 div_mult_mod_eq [of "c - 0x10000" 1024] by linarith
    have "json_char c = u_escape ?h @ u_escape ?l" using 4 by (simp add: json_char_def)
    moreover have "hex4 (drop 2 (u_escape ?h) @ u_escape ?l @ t) = Some (?h, u_escape ?l @ t)"
      by (rule hex4_escape) (use h in linarith)
    moreover have "hex4 (drop 2 (u_escape ?l @ t)) = Some (?l, t)"
      using hex4_escape [of ?l t] l by (simp add: u_escape_def)
    moreover have "take 2 (u_escape ?l @ t) = [92, 117]" by (simp add: u_escape_def)
    moreover have "?h < 0xDC00" "?l < 0xE000" using h l by linarith+
    ultimately have "scan_escape (117 # drop 2 (u_escape ?h) @ u_escape ?l @ t) = Some (c, t)"
      using c by (simp add: scan_escape_def)
    then show ?thesis using \<open>json_char c = _\<close> by (simp add: u_escape_Cons [of ?h])
  qed
qed

lemma scan_string_json:
  "text_ok s \<Longrightarrow> scan_string (concat (map json_char s) @ 34 # r) = Inr (s, r)"
  by (induction s) (simp_all add: text_ok_def scan_char)

text \<open>Decimal numbers.\<close>

lemma dec_digits_ascii: "list_all ascii_digit (dec_digits n) \<and> dec_digits n \<noteq> []"
proof (induction n rule: dec_digits.induct)
  case (1 n)
  moreover have "n mod 10 < 10" by simp
  ultimately show ?case
    by (cases "n < 10") (auto simp: dec_digits.simps [of n] ascii_digit_def)
qed

lemma digits_value_snoc: "digits_value (ds @ [d]) = digits_value ds * 10 + d"
  by (simp add: digits_value_def)

lemma dec_digits_value: "digits_value (map (\<lambda>c. c - 48) (dec_digits n)) = n"
proof (induction n rule: dec_digits.induct)
  case (1 n)
  show ?case
  proof (cases "n < 10")
    case True
    then show ?thesis by (subst dec_digits.simps) (simp add: digits_value_def)
  next
    case False
    then show ?thesis using 1 by (subst dec_digits.simps) (simp add: digits_value_snoc)
  qed
qed

lemma dec_digits_length: "n < 10 ^ k \<Longrightarrow> 0 < k \<Longrightarrow> length (dec_digits n) \<le> k"
proof (induction n arbitrary: k rule: dec_digits.induct)
  case (1 n)
  show ?case
  proof (cases "n < 10")
    case True
    then show ?thesis using 1 by (subst dec_digits.simps) simp
  next
    case False
    then obtain j where j: "k = Suc j" "0 < j" using "1.prems" by (cases k; cases "k - 1") auto
    then have "n div 10 < 10 ^ j" using "1.prems" by (simp add: less_mult_imp_div_less mult.commute)
    then show ?thesis using "1.IH" [OF False, of j] j False by (subst dec_digits.simps) simp
  qed
qed

lemma dec_digits_no_zero: "hd (dec_digits n) = 48 \<Longrightarrow> dec_digits n = [48]"
proof (induction n rule: dec_digits.induct)
  case (1 n)
  show ?case
  proof (cases "n < 10")
    case True
    then show ?thesis using 1 by (simp add: dec_digits.simps [of n] dec_digits.simps [of 0])
  next
    case False
    have "hd (dec_digits n) = hd (dec_digits (n div 10))"
      using False dec_digits_ascii [of "n div 10"] by (simp add: dec_digits.simps [of n])
    then have "dec_digits (n div 10) = [48]" using 1 False by simp
    then have "n div 10 = 0" using dec_digits_value [of "n div 10"] by (simp add: digits_value_def)
    then have "n < 10" by (simp only: div_eq_0_iff) simp
    then show ?thesis using False by contradiction
  qed
qed

lemma digit_run_digits: "list_all ascii_digit s \<Longrightarrow> digit_run b s = (map (\<lambda>c. c - 48) s, [])"
  by (induction s arbitrary: b) simp_all

lemma strip_plain:
  assumes "list_all (\<lambda>c. 33 \<le> c \<and> c < 128) s"
  shows "py_strip u s = s"
proof -
  have "map (to_ascii u) s = s" using assms by (induction s) (auto simp: to_ascii_def py_isspace_def)
  moreover have "dropWhile (\<lambda>c. c = 32) t = t" if "list_all (\<lambda>c. 33 \<le> c \<and> c < 128) t" for t :: "nat list"
    using that by (cases t) auto
  moreover have "list_all (\<lambda>c. 33 \<le> c \<and> c < 128) (rev s)" using assms by (simp add: list_all_iff)
  ultimately show ?thesis using assms by (simp add: py_strip_def)
qed

lemma int_str_plain: "list_all (\<lambda>c. 33 \<le> c \<and> c < 128) (int_str i)"
  using dec_digits_ascii [of "nat \<bar>i\<bar>"] by (auto simp: int_str_def list_all_iff ascii_digit_def)

lemma take_sign_int_str: "take_sign (int_str i) = (i < 0, dec_digits (nat \<bar>i\<bar>))"
  using dec_digits_ascii [of "nat \<bar>i\<bar>"]
  by (cases "dec_digits (nat \<bar>i\<bar>)") (auto simp: int_str_def take_sign_def ascii_digit_def)

lemma py_int_str:
  assumes "\<bar>i\<bar> < 2 ^ 64"
  shows "py_int u (int_str i) = Inr i"
proof -
  have "nat \<bar>i\<bar> < 10 ^ 20" using assms by simp
  then have "length (dec_digits (nat \<bar>i\<bar>)) \<le> 20" by (rule dec_digits_length) simp
  then show ?thesis
    using digit_run_digits [of "dec_digits (nat \<bar>i\<bar>)" False] dec_digits_ascii [of "nat \<bar>i\<bar>"] dec_digits_value [of "nat \<bar>i\<bar>"]
    by (simp add: py_int_def strip_plain [OF int_str_plain] take_sign_int_str signed_def)
qed

lemma takeWhile_digits:
  "list_all ascii_digit s \<Longrightarrow> r = [] \<or> \<not> ascii_digit (hd r) \<Longrightarrow>
     takeWhile ascii_digit (s @ r) = s \<and> dropWhile ascii_digit (s @ r) = r"
  by (induction s) (cases r; auto)+

text \<open>What may follow a value.\<close>

definition stops :: "pystr \<Rightarrow> bool" where
  "stops r \<longleftrightarrow> r = [] \<or> hd r \<in> {44, 93, 125}"

lemma stops_props: "stops r \<Longrightarrow> (r = [] \<or> \<not> ascii_digit (hd r)) \<and> frac_part r = ([], r) \<and> exp_part r = ([], r)"
  by (auto simp: stops_def ascii_digit_def frac_part_def exp_part_def)

lemma int_part_int_str:
  assumes "stops r"
  shows "int_part (int_str i @ r) = Some (int_str i, r)"
proof -
  obtain c cs where c: "dec_digits (nat \<bar>i\<bar>) = c # cs" "ascii_digit c" "list_all ascii_digit cs"
    using dec_digits_ascii [of "nat \<bar>i\<bar>"] by (cases "dec_digits (nat \<bar>i\<bar>)") auto
  have "c = 48 \<Longrightarrow> cs = []" using dec_digits_no_zero [of "nat \<bar>i\<bar>"] c(1) by simp
  moreover have "c \<noteq> 45" using c(2) by (auto simp: ascii_digit_def)
  ultimately show ?thesis
    using c takeWhile_digits [OF c(3), of r] stops_props [OF assms]
    by (auto simp: int_part_def int_str_def ascii_digit_def [of c] c(2) [unfolded ascii_digit_def])
qed

lemma scan_number_int:
  "\<bar>i\<bar> < 2 ^ 64 \<Longrightarrow> stops r \<Longrightarrow> scan_number u (int_str i @ r) = Inr (J_int i, r)"
  using int_part_int_str [of r i] stops_props [of r] py_int_str [of i u]
  by (simp add: scan_number_def)

lemma int_str_head:
  obtains c cs where "int_str i = c # cs" and "c = 45 \<and> cs \<noteq> [] \<and> ascii_digit (hd cs) \<or> ascii_digit c"
proof -
  obtain d ds where d: "dec_digits (nat \<bar>i\<bar>) = d # ds" "ascii_digit d"
    using dec_digits_ascii [of "nat \<bar>i\<bar>"] by (cases "dec_digits (nat \<bar>i\<bar>)") auto
  show thesis
  proof (cases "i < 0")
    case True
    then show ?thesis using that [of 45 "d # ds"] d by (simp add: int_str_def)
  next
    case False
    then show ?thesis using that [of d ds] d by (simp add: int_str_def)
  qed
qed

lemma scan_word_int: "scan_word (int_str i @ r) = None"
proof -
  obtain c cs where c: "int_str i = c # cs" "c = 45 \<and> cs \<noteq> [] \<and> ascii_digit (hd cs) \<or> ascii_digit c"
    by (rule int_str_head)
  then have "c \<notin> {110, 116, 102, 78, 73} \<and> (c = 45 \<longrightarrow> cs \<noteq> [] \<and> hd cs \<noteq> 73)" by (auto simp: ascii_digit_def)
  then show ?thesis using c(1) by (cases cs) (auto simp: scan_word_def json_words_def strip_prefix_def ustr_def)
qed

text \<open>Fuel: one step for a value, one for each element.\<close>

fun need :: "json \<Rightarrow> nat" where
  "need (J_list vs) = Suc (sum_list (map (\<lambda>v. Suc (need v)) vs))"
| "need (J_obj kvs) = Suc (sum_list (map (\<lambda>kv. Suc (need (snd kv))) kvs))"
| "need _ = 1"

lemma dumps_head:
  assumes "json_ok v"
  obtains c cs where "dumps fr v = c # cs" and "c \<notin> {32, 9, 10, 13, 93, 125}"
proof (cases v)
  case (J_int i)
  obtain c cs where "int_str i = c # cs" "c = 45 \<and> cs \<noteq> [] \<and> ascii_digit (hd cs) \<or> ascii_digit c"
    by (rule int_str_head)
  then show ?thesis using that J_int by (auto simp: ascii_digit_def)
next
  case (J_bool b)
  then show ?thesis using that by (cases b) (simp_all add: ustr_def)
qed (use assms that in \<open>auto simp: json_str_def ustr_def\<close>)

lemma skip_ws_head: "s = c # cs \<Longrightarrow> c \<notin> {32, 9, 10, 13} \<Longrightarrow> skip_ws (s @ r) = s @ r"
  by (auto simp: skip_ws_def)

lemma skip_ws_Cons: "c \<notin> {32, 9, 10, 13} \<Longrightarrow> skip_ws (c # r) = c # r"
  by (simp add: skip_ws_def)

lemma intersperse_Cons: "xs \<noteq> [] \<Longrightarrow> intersperse_comma (x # xs) = x @ 44 # intersperse_comma xs"
  by (cases xs) simp_all

lemma skip_ws_item:
  assumes "vs \<noteq> []" and "json_ok (hd vs)"
  shows "skip_ws (intersperse_comma (map (dumps fr) vs) @ r) = intersperse_comma (map (dumps fr) vs) @ r \<and>
    (\<exists>c cs. intersperse_comma (map (dumps fr) vs) = c # cs \<and> c \<noteq> 93)"
proof -
  obtain v ws where vs: "vs = v # ws" using assms(1) by (cases vs) auto
  obtain c cs where "dumps fr v = c # cs" "c \<notin> {32, 9, 10, 13, 93, 125}" using dumps_head [of v fr] assms(2) vs by auto
  then show ?thesis using vs by (cases ws) (auto simp: skip_ws_def)
qed

lemma scan_items_dumps:
  assumes "\<And>v n r. v \<in> set vs \<Longrightarrow> need v \<le> n \<Longrightarrow> stops r \<Longrightarrow> scan_value n u (dumps fr v @ r) = Inr (v, r)"
    and "\<And>v. v \<in> set vs \<Longrightarrow> json_ok v" and "vs \<noteq> []" and "sum_list (map (\<lambda>v. Suc (need v)) vs) \<le> n"
  shows "scan_items n u (intersperse_comma (map (dumps fr) vs) @ 93 # r) = Inr (vs, r)"
  using assms
proof (induction vs arbitrary: n)
  case Nil
  then show ?case by simp
next
  case (Cons v vs)
  obtain m where n: "n = Suc m" "need v \<le> m" using Cons.prems(4) by (cases n) auto
  have val: "scan_value m u (dumps fr v @ r') = Inr (v, r')" if "stops r'" for r'
    using Cons.prems(1) n(2) that by simp
  show ?case
  proof (cases "vs = []")
    case True
    then show ?thesis using val [of "93 # r"] by (simp add: n stops_def skip_ws_Cons)
  next
    case False
    have "scan_items m u (intersperse_comma (map (dumps fr) vs) @ 93 # r) = Inr (vs, r)"
      by (rule Cons.IH) (use Cons.prems False n in auto)
    moreover have "skip_ws (intersperse_comma (map (dumps fr) vs) @ 93 # r) = intersperse_comma (map (dumps fr) vs) @ 93 # r"
      using skip_ws_item [OF False, of fr "93 # r"] Cons.prems(2) False by simp
    ultimately show ?thesis
      using val [of "44 # intersperse_comma (map (dumps fr) vs) @ 93 # r"] False
      by (simp add: n intersperse_Cons stops_def skip_ws_Cons)
  qed
qed

definition member_text :: "(64 word \<Rightarrow> pystr) \<Rightarrow> pystr \<times> json \<Rightarrow> pystr" where
  "member_text fr = (\<lambda>(k, v). json_str k @ 58 # dumps fr v)"

lemma member_head: "\<exists>cs. intersperse_comma (member_text fr kv # kvs) = 34 # cs"
  by (cases kvs) (simp_all add: member_text_def case_prod_beta json_str_def)

lemma skip_ws_value: "json_ok v \<Longrightarrow> skip_ws (dumps fr v @ r) = dumps fr v @ r"
  using dumps_head [of v fr] by (metis append_Cons insert_iff skip_ws_Cons)

lemma scan_members_dumps:
  assumes "\<And>v n r. v \<in> snd ` set kvs \<Longrightarrow> need v \<le> n \<Longrightarrow> stops r \<Longrightarrow> scan_value n u (dumps fr v @ r) = Inr (v, r)"
    and "\<And>kv. kv \<in> set kvs \<Longrightarrow> text_ok (fst kv) \<and> json_ok (snd kv)" and "kvs \<noteq> []"
    and "sum_list (map (\<lambda>kv. Suc (need (snd kv))) kvs) \<le> n"
  shows "scan_members n u (intersperse_comma (map (member_text fr) kvs) @ 125 # r) = Inr (kvs, r)"
  using assms
proof (induction kvs arbitrary: n)
  case Nil
  then show ?case by simp
next
  case (Cons kv kvs)
  obtain k v where kv: "kv = (k, v)" by force
  obtain m where n: "n = Suc m" "need v \<le> m" using Cons.prems(4) kv by (cases n) auto
  have ok: "text_ok k" "json_ok v" using Cons.prems(2) [of kv] kv by auto
  have val: "scan_value m u (dumps fr v @ r') = Inr (v, r')" if "stops r'" for r'
    using Cons.prems(1) [of v] n(2) that kv by simp
  note key = scan_string_json [OF ok(1)]
  show ?case
  proof (cases "kvs = []")
    case True
    then show ?thesis using val [of "125 # r"] key [of "58 # dumps fr v @ 125 # r"]
      by (simp add: n kv member_text_def json_str_def stops_def skip_ws_Cons skip_ws_value [OF ok(2)])
  next
    case False
    let ?rest = "intersperse_comma (map (member_text fr) kvs) @ 125 # r"
    have "scan_members m u ?rest = Inr (kvs, r)"
      by (rule Cons.IH) (use Cons.prems False n kv in auto)
    moreover have "skip_ws ?rest = ?rest"
      using member_head [of fr "hd kvs" "map (member_text fr) (tl kvs)"] False by (cases kvs) (auto simp: skip_ws_def)
    ultimately show ?thesis
      using val [of "44 # ?rest"] key [of "58 # dumps fr v @ 44 # ?rest"] False
      by (simp add: n kv intersperse_Cons member_text_def json_str_def stops_def skip_ws_Cons skip_ws_value [OF ok(2)])
  qed
qed

lemma dict_of_distinct: "distinct (map fst kvs) \<Longrightarrow> foldl (\<lambda>m (k, v). AList.update k v m) [] kvs = kvs"
proof (induction kvs rule: rev_induct)
  case (snoc kv kvs)
  obtain k v where kv: "kv = (k, v)" by force
  have "AList.update k v m = m @ [(k, v)]" if "k \<notin> fst ` set m" for m :: "('a \<times> 'b) list"
    using that by (induction m) auto
  then show ?case using snoc kv by auto
qed simp

lemma scan_dumps:
  "json_ok v \<Longrightarrow> need v \<le> n \<Longrightarrow> stops r \<Longrightarrow> scan_value n u (dumps fr v @ r) = Inr (v, r)"
proof (induction v arbitrary: n r)
  case J_null
  then show ?case by (cases n) (auto simp: scan_word_def json_words_def strip_prefix_def ustr_def)
next
  case (J_bool b)
  then show ?case by (cases n; cases b) (auto simp: scan_word_def json_words_def strip_prefix_def ustr_def)
next
  case (J_int i)
  obtain c cs where c: "int_str i = c # cs" "c = 45 \<and> cs \<noteq> [] \<and> ascii_digit (hd cs) \<or> ascii_digit c"
    by (rule int_str_head)
  then have "c \<notin> {34, 123, 91}" by (auto simp: ascii_digit_def)
  then show ?case
    using J_int scan_number_int [of i r u] scan_word_int [of i r] c(1) by (cases n) auto
next
  case (J_float f)
  then show ?case by simp
next
  case (J_str s)
  then show ?case using scan_string_json [of s r] by (cases n) (auto simp: json_str_def)
next
  case (J_list vs)
  obtain m where n: "n = Suc m" "sum_list (map (\<lambda>v. Suc (need v)) vs) \<le> m" using J_list.prems(2) by (cases n) auto
  show ?case
  proof (cases "vs = []")
    case True
    then show ?thesis by (simp add: n skip_ws_Cons)
  next
    case False
    have "scan_items m u (intersperse_comma (map (dumps fr) vs) @ 93 # r) = Inr (vs, r)"
      by (rule scan_items_dumps [OF _ _ False n(2)]) (use J_list in auto)
    then show ?thesis
      using skip_ws_item [OF False, of fr "93 # r"] J_list.prems(1) False by (auto simp: n)
  qed
next
  case (J_obj kvs)
  obtain m where n: "n = Suc m" "sum_list (map (\<lambda>kv. Suc (need (snd kv))) kvs) \<le> m" using J_obj.prems(2) by (cases n) auto
  have obj_text: "dumps fr (J_obj kvs) = 123 # intersperse_comma (map (member_text fr) kvs) @ [125]"
    by (simp add: member_text_def)
  show ?case
  proof (cases "kvs = []")
    case True
    then show ?thesis by (simp add: n skip_ws_Cons)
  next
    case False
    have "scan_members m u (intersperse_comma (map (member_text fr) kvs) @ 125 # r) = Inr (kvs, r)"
      by (rule scan_members_dumps [OF _ _ False n(2)]) (use J_obj in auto)
    moreover obtain cs where "intersperse_comma (map (member_text fr) kvs) = 34 # cs"
      using member_head [of fr "hd kvs" "map (member_text fr) (tl kvs)"] False by (cases kvs) auto
    ultimately show ?thesis
      using J_obj.prems(1) unfolding obj_text by (simp add: n skip_ws_Cons dict_of_distinct)
  qed
qed

lemma intersperse_length: "length (intersperse_comma xs) + 1 \<ge> sum_list (map length xs) + length xs"
  by (induction xs rule: intersperse_comma.induct) auto

lemma need_length: "need v \<le> 2 * length (dumps fr v) + 1"
proof (induction v)
  case (J_list vs)
  have "sum_list (map (\<lambda>v. Suc (need v)) vs) \<le> sum_list (map (\<lambda>v. 2 * length (dumps fr v) + 2) vs)"
    by (rule sum_list_mono) (use J_list in auto)
  also have "\<dots> = 2 * (sum_list (map length (map (dumps fr) vs)) + length (map (dumps fr) vs))"
    by (induction vs) auto
  finally show ?case using intersperse_length [of "map (dumps fr) vs"] by simp
next
  case (J_obj kvs)
  let ?t = "map (\<lambda>(k, v). json_str k @ 58 # dumps fr v) kvs"
  have "sum_list (map (\<lambda>kv. Suc (need (snd kv))) kvs) \<le> sum_list (map (\<lambda>kv. 2 * length (dumps fr (snd kv)) + 2) kvs)"
    by (rule sum_list_mono) (use J_obj in fastforce)
  also have "\<dots> \<le> 2 * (sum_list (map length ?t) + length ?t)"
    by (induction kvs) auto
  finally show ?case using intersperse_length [of ?t] by simp
qed auto

lemma loads_dumps:
  assumes "json_ok v"
  shows "loads u (dumps fr v) = Inr v"
proof -
  have "skip_ws (dumps fr v) = dumps fr v" using skip_ws_value [OF assms, of fr "[]"] by simp
  moreover have "scan_value (json_fuel (dumps fr v)) u (dumps fr v @ []) = Inr (v, [])"
    by (rule scan_dumps [OF assms]) (use need_length [of v fr] in \<open>auto simp: json_fuel_def stops_def\<close>)
  ultimately show ?thesis by (simp add: loads_def skip_ws_def)
qed

text \<open>The text is ASCII without NUL.\<close>

definition ascii :: "pystr \<Rightarrow> bool" where
  "ascii s \<longleftrightarrow> list_all (\<lambda>c. 0 < c \<and> c < 128) s"

lemma ascii_simps [simp]:
  "ascii []" "ascii (c # s) \<longleftrightarrow> 0 < c \<and> c < 128 \<and> ascii s" "ascii (s @ t) \<longleftrightarrow> ascii s \<and> ascii t"
  by (simp_all add: ascii_def)

lemma hex_digit_ascii: "d < 16 \<Longrightarrow> 0 < hex_digit d \<and> hex_digit d < 128"
  by (simp add: hex_digit_def)

lemma json_char_ascii: "ascii (json_char c)"
  by (simp add: json_char_def u_escape_def hex_digit_ascii)

lemma json_str_ascii: "ascii (json_str s)"
  by (induction s) (simp_all add: json_str_def json_char_ascii)

lemma intersperse_ascii: "(\<And>x. x \<in> set xs \<Longrightarrow> ascii x) \<Longrightarrow> ascii (intersperse_comma xs)"
  by (induction xs rule: intersperse_comma.induct) auto

lemma int_str_ascii: "ascii (int_str i)"
  using int_str_plain [of i] by (auto simp: ascii_def list_all_iff)

lemma dumps_ascii: "json_ok v \<Longrightarrow> ascii (dumps fr v)"
proof (induction v)
  case (J_obj kvs)
  then show ?case by (fastforce intro!: intersperse_ascii simp: json_str_ascii)
qed (auto intro!: intersperse_ascii simp: json_str_ascii int_str_ascii ustr_def)

end
