(* ===== verification/Row_Codec.thy ===== *)
theory Row_Codec
  imports Type_System
begin

text \<open>
  \<open>src/tinydb/row_codec.py\<close> and the column access of \<open>_schema.py\<close>: a row is a
  bitmap of its NULL columns, least significant bit first, followed by the
  encoded values. Lemmas: decoding an encoded row gives every value back as its
  codec stores it and every NULL as NULL, from exactly the bytes of the row.
\<close>

datatype schema_col = Col2 pystr string | Col3 pystr string "int list"

fun col_name :: "schema_col \<Rightarrow> pystr" where
  "col_name (Col2 n t) = n"
| "col_name (Col3 n t ps) = n"

fun col_type_and_params :: "schema_col \<Rightarrow> string \<times> int list" where
  "col_type_and_params (Col2 n t) = (t, [])"
| "col_type_and_params (Col3 n t ps) = (t, ps)"

text \<open>\<open>{name: index}\<close>: the last column of a name wins.\<close>

definition schema_name_index :: "schema_col list \<Rightarrow> (pystr, nat) dict" where
  "schema_name_index schema =
     foldl (\<lambda>d (i, c). AList.update (col_name c) i d) [] (zip [0..<length schema] schema)"

definition bitmap_len :: "nat \<Rightarrow> nat" where
  "bitmap_len n = (n + 7) div 8"

definition set_null :: "byte list \<Rightarrow> nat \<Rightarrow> byte list" where
  "set_null bm i = bm[i div 8 := (bm ! (i div 8)) OR push_bit (i mod 8) 1]"

definition null_bit :: "byte list \<Rightarrow> nat \<Rightarrow> bool" where
  "null_bit bm i \<longleftrightarrow> drop_bit (i mod 8) (bm ! (i div 8)) AND 1 \<noteq> 0"

fun encode_cols :: "nat \<Rightarrow> (pyval \<times> schema_col) list \<Rightarrow> byte list \<Rightarrow> (byte list \<times> byte list) res" where
  "encode_cols i [] bm = Inr (bm, [])"
| "encode_cols i ((v, col) # rest) bm =
     (if v = PNone then encode_cols (i + 1) rest (set_null bm i)
      else
        let (t, params) = col_type_and_params col in
        bindE (codec_for t params) (\<lambda>c.
        bindE (encode_py c v) (\<lambda>b.
        bindE (encode_cols (i + 1) rest bm) (\<lambda>(bm', parts). Inr (bm', b @ parts)))))"

definition encode_row :: "pyval list \<Rightarrow> schema_col list \<Rightarrow> byte list res" where
  "encode_row values schema =
     (if length values \<noteq> length schema then Inl ValueError
      else bindE (encode_cols 0 (zip values schema) (replicate (bitmap_len (length schema)) 0))
             (\<lambda>(bm, parts). Inr (bm @ parts)))"

fun decode_cols :: "nat \<Rightarrow> schema_col list \<Rightarrow> byte list \<Rightarrow> byte list \<Rightarrow> int \<Rightarrow> pyval list res" where
  "decode_cols i [] bm buf off = Inr []"
| "decode_cols i (col # cols) bm buf off =
     (if null_bit bm i then bindE (decode_cols (i + 1) cols bm buf off) (\<lambda>vs. Inr (PNone # vs))
      else
        let (t, params) = col_type_and_params col in
        bindE (codec_for t params) (\<lambda>c.
        bindE (decode_bytes c buf off) (\<lambda>(v, off').
        bindE (decode_cols (i + 1) cols bm buf off') (\<lambda>vs. Inr (v # vs)))))"

definition decode_row :: "byte list \<Rightarrow> schema_col list \<Rightarrow> pyval list res" where
  "decode_row buf schema =
     (let blen = bitmap_len (length schema) in
      if length buf < blen then Inl ValueError
      else decode_cols 0 schema (take blen buf) buf (int blen))"

section \<open>The bitmap\<close>

lemma null_bit_iff: "null_bit bm i \<longleftrightarrow> bit (bm ! (i div 8)) (i mod 8)"
  by (simp add: null_bit_def and_one_eq bit_iff_odd_drop_bit odd_iff_mod_2_eq_one)

lemma null_bit_set:
  assumes "i div 8 < length bm"
  shows "null_bit (set_null bm i) j \<longleftrightarrow> null_bit bm j \<or> j = i"
proof (cases "j div 8 = i div 8")
  case True
  then have "j = i \<longleftrightarrow> j mod 8 = i mod 8" by (metis div_mult_mod_eq)
  moreover have "j mod 8 < 8" by simp
  ultimately show ?thesis using assms True
    by (auto simp: null_bit_iff set_null_def bit_simps)
next
  case False
  then show ?thesis by (auto simp: null_bit_iff set_null_def)
qed

lemma length_set_null [simp]: "length (set_null bm i) = length bm"
  by (simp add: set_null_def)

lemma null_bit_zeros: "i div 8 < n \<Longrightarrow> \<not> null_bit (replicate n 0) i"
  by (simp add: null_bit_iff)

lemma encode_cols_bitmap:
  assumes "encode_cols i rows bm = Inr (bm', parts)" and "(i + length rows + 7) div 8 \<le> length bm"
  shows "length bm' = length bm \<and> (\<forall>j. null_bit bm' j \<longleftrightarrow>
    null_bit bm j \<or> i \<le> j \<and> j < i + length rows \<and> fst (rows ! (j - i)) = PNone)"
  using assms
proof (induction i rows bm arbitrary: bm' parts rule: encode_cols.induct)
  case (1 i bm)
  then show ?case by auto
next
  case (2 i v col rest bm)
  have room: "i div 8 < length bm" "(i + 1 + length rest + 7) div 8 \<le> length bm"
    using "2.prems"(2) by simp_all
  have split: "i \<le> j \<and> j < i + length ((v, col) # rest) \<and> fst (((v, col) # rest) ! (j - i)) = PNone
    \<longleftrightarrow> j = i \<and> v = PNone \<or> i + 1 \<le> j \<and> j < i + 1 + length rest \<and> fst (rest ! (j - (i + 1))) = PNone" for j
  proof (cases "i + 1 \<le> j")
    case True
    then have "j - i = Suc (j - (i + 1))" by simp
    then show ?thesis using True by auto
  next
    case False
    then have "j = i \<or> j < i" by linarith
    then show ?thesis by auto
  qed
  show ?case
  proof (cases "v = PNone")
    case True
    then have "encode_cols (i + 1) rest (set_null bm i) = Inr (bm', parts)" using "2.prems"(1) by simp
    from "2.IH"(1) [OF True this] room show ?thesis
      unfolding split by (auto simp: True null_bit_set)
  next
    case False
    obtain t ps where tp: "col_type_and_params col = (t, ps)" by force
    then obtain c b parts' where c: "codec_for t ps = Inr c" "encode_py c v = Inr b"
        "encode_cols (i + 1) rest bm = Inr (bm', parts')"
      using False "2.prems"(1) by auto
    from "2.IH"(2) [OF False tp [symmetric] refl c(1,2,3)] room show ?thesis
      unfolding split by (auto simp: False)
  qed
qed

section \<open>Round trip\<close>

definition stored_col :: "pyval \<Rightarrow> schema_col \<Rightarrow> pyval" where
  "stored_col v col =
     (case col_type_and_params col of (t, ps) \<Rightarrow>
        if v = PNone then PNone
        else case codec_for t ps of Inl e \<Rightarrow> v | Inr c \<Rightarrow> stored c v)"

definition readable_col :: "pyval \<Rightarrow> schema_col \<Rightarrow> bool" where
  "readable_col v col \<longleftrightarrow>
     (case col_type_and_params col of (t, ps) \<Rightarrow>
        v = PNone \<or> py_valid v \<and> (case codec_for t ps of Inl e \<Rightarrow> True | Inr c \<Rightarrow> readable c v))"

lemma decode_encode_cols:
  assumes "encode_cols i rows bm = Inr (bm', parts)"
    and "list_all (\<lambda>(v, col). readable_col v col) rows"
    and "\<And>j. j < length rows \<Longrightarrow> null_bit nb (i + j) \<longleftrightarrow> fst (rows ! j) = PNone"
  shows "decode_cols i (map snd rows) nb (pre @ parts @ post) (int (length pre))
    = Inr (map (\<lambda>(v, col). stored_col v col) rows)"
  using assms
proof (induction i rows bm arbitrary: bm' parts pre rule: encode_cols.induct)
  case (1 i bm)
  then show ?case by simp
next
  case (2 i v col rest bm)
  have nb0: "null_bit nb i \<longleftrightarrow> v = PNone" using "2.prems"(3) [of 0] by simp
  have nb: "null_bit nb (i + 1 + j) \<longleftrightarrow> fst (rest ! j) = PNone" if "j < length rest" for j
    using "2.prems"(3) [of "Suc j"] that by simp
  have ok: "list_all (\<lambda>(v, col). readable_col v col) rest" using "2.prems"(2) by simp
  obtain t ps where tp: "col_type_and_params col = (t, ps)" by force
  show ?case
  proof (cases "v = PNone")
    case True
    then have "encode_cols (i + 1) rest (set_null bm i) = Inr (bm', parts)" using "2.prems"(1) by simp
    from "2.IH"(1) [OF True this ok nb] nb0 show ?thesis
      by (simp add: True stored_col_def tp)
  next
    case False
    then obtain c b parts' where c: "codec_for t ps = Inr c" "encode_py c v = Inr b"
        "encode_cols (i + 1) rest bm = Inr (bm', parts')" "parts = b @ parts'"
      using "2.prems"(1) tp by auto
    have rd: "py_valid v" "readable c v" using "2.prems"(2) False tp c(1) by (simp_all add: readable_col_def)
    from codec_roundtrip_any [OF c(2) rd(1) c(1) rd(2), of pre "parts' @ post"]
    have "decode_bytes c (pre @ parts @ post) (int (length pre)) = Inr (stored c v, int (length (pre @ b)))"
      by (simp add: c(4))
    moreover have "decode_cols (i + 1) (map snd rest) nb ((pre @ b) @ parts' @ post) (int (length (pre @ b)))
      = Inr (map (\<lambda>(v, col). stored_col v col) rest)"
      by (rule "2.IH"(2) [OF False tp [symmetric] refl c(1,2,3) ok nb])
    ultimately show ?thesis using nb0 False tp c(1,4) by (simp add: stored_col_def)
  qed
qed

lemma decode_encode_row:
  assumes "encode_row values schema = Inr buf" and "list_all2 readable_col values schema"
  shows "decode_row buf schema = Inr (map2 stored_col values schema)"
proof -
  let ?n = "length schema" and ?zeros = "replicate (bitmap_len (length schema)) 0"
  let ?rows = "zip values schema"
  have len: "length values = ?n" using assms(2) by (rule list_all2_lengthD)
  obtain bm parts where e: "encode_cols 0 ?rows ?zeros = Inr (bm, parts)" "buf = bm @ parts"
    using assms(1) len by (auto simp: encode_row_def)
  have bits: "length bm = bitmap_len ?n" "\<And>j. null_bit bm j \<longleftrightarrow>
      null_bit ?zeros j \<or> j < ?n \<and> fst (?rows ! j) = PNone"
    using encode_cols_bitmap [OF e(1)] len by (simp_all add: bitmap_len_def)
  have "null_bit bm j \<longleftrightarrow> fst (?rows ! j) = PNone" if "j < ?n" for j
  proof -
    have "j div 8 < bitmap_len ?n" using that by (auto simp: bitmap_len_def)
    then show ?thesis using bits(2) [of j] null_bit_zeros that by simp
  qed
  moreover have "list_all (\<lambda>(v, col). readable_col v col) ?rows"
    using assms(2) by (auto simp: list_all_iff list_all2_iff)
  ultimately have "decode_cols 0 (map snd ?rows) bm (bm @ parts @ []) (int (length bm))
      = Inr (map (\<lambda>(v, col). stored_col v col) ?rows)"
    using len by (intro decode_encode_cols [OF e(1)]) simp_all
  then show ?thesis using bits(1) len e(2) by (simp add: decode_row_def map_snd_zip)
qed

section \<open>Properties\<close>

text \<open>
  C19. Decoding an encoded row under the same schema returns NULL exactly for the NULL columns and
  every other value as the codec of its column stores it.
\<close>

theorem row_roundtrip:
  assumes "encode_row values schema = Inr buf" and "list_all2 readable_col values schema"
  shows "decode_row buf schema = Inr (map2 stored_col values schema)"
  using assms by (rule decode_encode_row)

lemma row_roundtrip_witness:
  "decode_row [2, 0, 0, 0, 7, 1] [Col2 (ustr ''id'') ''INT'', Col2 (ustr ''note'') ''TEXT'', Col2 (ustr ''ok'') ''BOOL'']
   = Inr [PInt 7, PNone, PBool True]"
proof -
  let ?vs = "[PInt 7, PNone, PBool True]"
  let ?cols = "[Col2 (ustr ''id'') ''INT'', Col2 (ustr ''note'') ''TEXT'', Col2 (ustr ''ok'') ''BOOL'']"
  have "encode_row ?vs ?cols = Inr [2, 0, 0, 0, 7, 1]" by code_simp
  moreover have "list_all2 readable_col ?vs ?cols" by code_simp
  ultimately have "decode_row [2, 0, 0, 0, 7, 1] ?cols = Inr (map2 stored_col ?vs ?cols)"
    by (rule row_roundtrip)
  moreover have "map2 stored_col ?vs ?cols = ?vs" by code_simp
  ultimately show ?thesis by simp
qed

end
