(* ===== verification/Catalog.thy ===== *)
theory Catalog
  imports Json Pager Row_Codec
begin

text \<open>
  \<open>src/tinydb/catalog.py\<close>: tables and their columns, the catalog page (JSON padded
  to a page) and the overflow chain of catalog pages. A field that holds a JSON
  value of a type \<open>to_dict\<close> never writes raises \<open>TypeError\<close> here; Python would
  carry such a value on. Lemmas: the catalog page reads back, and the segments of
  the chain, however tables and columns are split over them, merge to the catalog.
\<close>

section \<open>Tables\<close>

record column =
  c_name :: pystr
  c_type :: string
  c_params :: "int list"
  c_nullable :: bool
  c_unique :: bool
  c_pk :: bool

record table_info =
  ti_columns :: "column list"
  ti_root :: int
  ti_next :: int
  ti_name :: pystr

type_synonym catalog = "(pystr, table_info) dict"

definition schema_v2 :: "table_info \<Rightarrow> schema_col list" where
  "schema_v2 ti = map (\<lambda>c. Col3 (c_name c) (c_type c) (c_params c)) (ti_columns ti)"

definition ti_schema :: "table_info \<Rightarrow> (pystr \<times> string) list" where
  "ti_schema ti = map (\<lambda>c. (c_name c, c_type c)) (ti_columns ti)"

definition catalog_create_table :: "catalog \<Rightarrow> pystr \<Rightarrow> column list \<Rightarrow> int \<Rightarrow> int \<Rightarrow> catalog res" where
  "catalog_create_table c name schema root next =
     (if map_of c name \<noteq> None then Inl ValueError
      else Inr (AList.update name \<lparr>ti_columns = schema, ti_root = root, ti_next = next, ti_name = name\<rparr> c))"

definition catalog_drop_table :: "catalog \<Rightarrow> pystr \<Rightarrow> catalog res" where
  "catalog_drop_table c name = (if map_of c name = None then Inl KeyError else Inr (AList.delete name c))"

definition catalog_get_table :: "catalog \<Rightarrow> pystr \<Rightarrow> table_info option" where
  "catalog_get_table c name = map_of c name"

section \<open>JSON forms\<close>

definition jkey :: "string \<Rightarrow> json \<Rightarrow> pystr \<times> json" where
  "jkey k v = (ustr k, v)"

definition column_to_dict :: "column \<Rightarrow> json" where
  "column_to_dict c =
     J_obj [jkey ''name'' (J_str (c_name c)), jkey ''type'' (J_str (ustr (c_type c))),
            jkey ''type_params'' (J_list (map J_int (c_params c))), jkey ''nullable'' (J_bool (c_nullable c)),
            jkey ''unique'' (J_bool (c_unique c)), jkey ''primary_key'' (J_bool (c_pk c))]"

definition obj_items :: "json \<Rightarrow> (pystr \<times> json) list res" where
  "obj_items v = (case v of J_obj kvs \<Rightarrow> Inr kvs | _ \<Rightarrow> Inl AttributeErr)"

text \<open>\<open>d[k]\<close> and \<open>d.get(k, default)\<close>.\<close>

definition obj_get :: "json \<Rightarrow> string \<Rightarrow> json res" where
  "obj_get v k =
     (case v of
        J_obj kvs \<Rightarrow> (case map_of kvs (ustr k) of Some x \<Rightarrow> Inr x | None \<Rightarrow> Inl KeyError)
      | _ \<Rightarrow> Inl TypeErr)"

definition obj_get_or :: "json \<Rightarrow> string \<Rightarrow> json \<Rightarrow> json res" where
  "obj_get_or v k d =
     bindE (obj_items v) (\<lambda>kvs. Inr (case map_of kvs (ustr k) of Some x \<Rightarrow> x | None \<Rightarrow> d))"

fun as_str :: "json \<Rightarrow> pystr res" where
  "as_str (J_str s) = Inr s"
| "as_str _ = Inl TypeErr"

fun as_bool :: "json \<Rightarrow> bool res" where
  "as_bool (J_bool b) = Inr b"
| "as_bool _ = Inl TypeErr"

fun as_int :: "json \<Rightarrow> int res" where
  "as_int (J_int i) = Inr i"
| "as_int _ = Inl TypeErr"

fun as_list :: "json \<Rightarrow> json list res" where
  "as_list (J_list vs) = Inr vs"
| "as_list _ = Inl TypeErr"

text \<open>A type name with characters past Latin-1 is no registered name whatever they are.\<close>

definition type_name :: "pystr \<Rightarrow> string" where
  "type_name s = (if list_all (\<lambda>c. c < 256) s then map char_of s else ''?'')"

definition column_from_dict :: "json \<Rightarrow> column res" where
  "column_from_dict d =
     bindE (bindE (obj_get d ''name'') as_str) (\<lambda>name.
     bindE (bindE (obj_get d ''type'') as_str) (\<lambda>ty.
     bindE (bindE (obj_get_or d ''type_params'' (J_list [])) as_list) (\<lambda>ps.
     bindE (mapE as_int ps) (\<lambda>params.
     bindE (bindE (obj_get_or d ''nullable'' (J_bool True)) as_bool) (\<lambda>nullable.
     bindE (bindE (obj_get_or d ''unique'' (J_bool False)) as_bool) (\<lambda>unique.
     bindE (bindE (obj_get_or d ''primary_key'' (J_bool False)) as_bool) (\<lambda>pk.
     Inr \<lparr>c_name = name, c_type = type_name ty, c_params = params, c_nullable = nullable, c_unique = unique,
          c_pk = pk\<rparr>)))))))"

definition load_column :: "json \<Rightarrow> column res" where
  "load_column item = (case item of J_obj kvs \<Rightarrow> column_from_dict item | _ \<Rightarrow> Inl InvalidDatabaseFile)"

definition enc_int :: "int \<Rightarrow> json" where
  "enc_int v = J_str (int_str v)"

definition dec_int :: "uni \<Rightarrow> json \<Rightarrow> int res" where
  "dec_int u v =
     (case v of
        J_str s \<Rightarrow> py_int u s
      | J_int i \<Rightarrow> Inr i
      | J_bool b \<Rightarrow> Inr (of_bool b)
      | J_float f \<Rightarrow> if f_finite f then Inr (float_trunc f) else if f_frac f = 0 then Inl OverflowErr else Inl ValueError
      | _ \<Rightarrow> Inl TypeErr)"

definition table_entry_dict :: "table_info \<Rightarrow> json" where
  "table_entry_dict ti =
     J_obj [jkey ''schema'' (J_list (map column_to_dict (ti_columns ti))), jkey ''root_page_id'' (enc_int (ti_root ti)),
            jkey ''next_page_id'' (enc_int (ti_next ti))]"

section \<open>The catalog page\<close>

text \<open>\<open>json.dumps(\<dots>).encode("utf-8")\<close>; no value of the catalog is a float.\<close>

definition json_bytes :: "json \<Rightarrow> byte list res" where
  "json_bytes v = utf8_encode (dumps (\<lambda>_. []) v)"

definition tables_json :: "(pystr \<times> json) list \<Rightarrow> json" where
  "tables_json entries = J_obj [jkey ''tables'' (J_obj entries)]"

definition rstrip0 :: "byte list \<Rightarrow> byte list" where
  "rstrip0 bs = rev (dropWhile (\<lambda>b. b = 0) (rev bs))"

definition catalog_entries :: "catalog \<Rightarrow> (pystr \<times> json) list" where
  "catalog_entries c = map (\<lambda>(n, ti). (n, table_entry_dict ti)) c"

definition catalog_to_bytes :: "catalog \<Rightarrow> byte list res" where
  "catalog_to_bytes c =
     bindE (json_bytes (tables_json (catalog_entries c))) (\<lambda>t.
     if length t > nat PAGE_SIZE then Inl ValueError
     else Inr (t @ replicate (nat PAGE_SIZE - length t) 0))"

definition table_from_json :: "uni \<Rightarrow> pystr \<Rightarrow> json \<Rightarrow> table_info res" where
  "table_from_json u name info =
     bindE (bindE (obj_get info ''schema'') as_list) (\<lambda>entries.
     bindE (mapE load_column entries) (\<lambda>cols.
     bindE (bindE (obj_get info ''root_page_id'') (dec_int u)) (\<lambda>root.
     bindE (bindE (obj_get info ''next_page_id'') (dec_int u)) (\<lambda>next.
     Inr \<lparr>ti_columns = cols, ti_root = root, ti_next = next, ti_name = name\<rparr>))))"

definition catalog_from_bytes :: "uni \<Rightarrow> byte list \<Rightarrow> catalog res" where
  "catalog_from_bytes u raw =
     bindE (utf8_decode (rstrip0 raw)) (\<lambda>t.
     if t = [] then Inr []
     else
       bindE (loads u t) (\<lambda>data.
       bindE (bindE (obj_get_or data ''tables'' (J_obj [])) obj_items) (\<lambda>items.
       foldE (\<lambda>c (name, info). bindE (table_from_json u name info) (\<lambda>ti. Inr (AList.update name ti c))) [] items)))"

section \<open>Segments of the chain\<close>

definition CHAIN_SEG_HEADER :: nat where [simp]: "CHAIN_SEG_HEADER = 16"
definition CHAIN_BODY_SIZE :: nat where [simp]: "CHAIN_BODY_SIZE = 4080"
definition CHAIN_THRESHOLD :: nat where [simp]: "CHAIN_THRESHOLD = 4016"

type_synonym seg_state = "byte list list \<times> (pystr \<times> json) list"

definition flush_cur :: "seg_state \<Rightarrow> seg_state res" where
  "flush_cur = (\<lambda>(segs, cur).
     if cur = [] then Inr (segs, cur)
     else bindE (json_bytes (tables_json cur)) (\<lambda>seg.
       if length seg > CHAIN_BODY_SIZE then Inl CatalogCorrupt else Inr (segs @ [seg], [])))"

text \<open>One entry of a table in a segment: the first carries the page ids.\<close>

definition sub_entry :: "bool \<Rightarrow> json list \<Rightarrow> json \<Rightarrow> json \<Rightarrow> json" where
  "sub_entry is_first cols root next =
     J_obj (jkey ''schema'' (J_list cols) #
       (if is_first then [jkey ''root_page_id'' root, jkey ''next_page_id'' next] else []))"

definition emit_chunk :: "pystr \<Rightarrow> json \<Rightarrow> json \<Rightarrow> byte list list \<times> json list \<Rightarrow> (byte list list \<times> json list) res" where
  "emit_chunk name root next = (\<lambda>(segs, chunk).
     if chunk = [] then Inr (segs, chunk)
     else bindE (json_bytes (tables_json [(name, sub_entry (segs = []) chunk root next)])) (\<lambda>seg.
       Inr (segs @ [seg], [])))"

definition split_step ::
    "pystr \<Rightarrow> json \<Rightarrow> json \<Rightarrow> byte list list \<times> json list \<Rightarrow> json \<Rightarrow> (byte list list \<times> json list) res" where
  "split_step name root next = (\<lambda>(segs, chunk) col.
     bindE (json_bytes (tables_json [(name, sub_entry (segs = []) (chunk @ [col]) root next)])) (\<lambda>trial.
     if length trial \<le> CHAIN_BODY_SIZE then Inr (segs, chunk @ [col])
     else bindE (emit_chunk name root next (segs, chunk)) (\<lambda>(segs, chunk). Inr (segs, chunk @ [col]))))"

definition split_single_table :: "pystr \<Rightarrow> json list \<Rightarrow> json \<Rightarrow> json \<Rightarrow> byte list list res" where
  "split_single_table name columns root next =
     (case columns of
        [] \<Rightarrow> Inl CatalogCorrupt
      | c # _ \<Rightarrow>
          bindE (json_bytes (tables_json [(name, sub_entry True [c] root next)])) (\<lambda>sample.
          if length sample > CHAIN_BODY_SIZE then Inl CatalogCorrupt
          else
            bindE (foldE (split_step name root next) ([], []) columns) (\<lambda>st.
            bindE (emit_chunk name root next st) (\<lambda>(segs, chunk). Inr segs))))"

definition segment_step :: "seg_state \<Rightarrow> pystr \<times> table_info \<Rightarrow> seg_state res" where
  "segment_step = (\<lambda>(segs, cur) (name, ti).
     let entry = table_entry_dict ti in
     bindE (json_bytes (tables_json [(name, entry)])) (\<lambda>single.
     if length single > CHAIN_BODY_SIZE then
       bindE (flush_cur (segs, cur)) (\<lambda>(segs, cur).
       bindE (split_single_table name (map column_to_dict (ti_columns ti)) (enc_int (ti_root ti)) (enc_int (ti_next ti))) (\<lambda>subs.
       if list_ex (\<lambda>s. length s > CHAIN_BODY_SIZE) subs then Inl CatalogCorrupt else Inr (segs @ subs, cur)))
     else
       bindE (json_bytes (tables_json (AList.update name entry cur))) (\<lambda>candidate.
       if length candidate \<le> CHAIN_THRESHOLD then Inr (segs, AList.update name entry cur)
       else bindE (flush_cur (segs, cur)) (\<lambda>(segs, cur). Inr (segs, AList.update name entry cur)))))"

definition serialize_segments :: "catalog \<Rightarrow> byte list list res" where
  "serialize_segments c =
     (if c = [] then Inr [[123, 125]]
      else
        bindE (json_bytes (tables_json (catalog_entries c))) (\<lambda>full.
        if length full \<le> CHAIN_THRESHOLD then Inr [full]
        else
          bindE (foldE segment_step ([], []) c) (\<lambda>st.
          bindE (flush_cur st) (\<lambda>(segs, cur). Inr segs))))"

definition pack_page :: "byte list \<Rightarrow> byte list res" where
  "pack_page seg =
     (if length seg > CHAIN_BODY_SIZE then Inl CatalogCorrupt
      else let payload = replicate CHAIN_SEG_HEADER 0 @ seg in
        Inr (payload @ replicate (nat PAGE_SIZE - length payload) 0))"

definition pack_chain :: "catalog \<Rightarrow> byte list list res" where
  "pack_chain c = bindE (serialize_segments c) (mapE pack_page)"

section \<open>Reading the chain\<close>

type_synonym partial_entry = "json list \<times> json option \<times> json option"

text \<open>\<open>info.get(k)\<close>, which answers \<open>None\<close> for an absent key and for a null.\<close>

definition non_null :: "(pystr \<times> json) list \<Rightarrow> string \<Rightarrow> json option" where
  "non_null kvs k = (case map_of kvs (ustr k) of Some J_null \<Rightarrow> None | r \<Rightarrow> r)"

definition merge_table_entry ::
    "(pystr, partial_entry) dict \<Rightarrow> pystr \<times> json \<Rightarrow> (pystr, partial_entry) dict res" where
  "merge_table_entry tables = (\<lambda>(name, info).
     bindE (obj_items info) (\<lambda>kvs.
     bindE (case map_of kvs (ustr ''schema'') of None \<Rightarrow> Inr [] | Some s \<Rightarrow> as_list s) (\<lambda>schema.
     Inr (case map_of tables name of
            None \<Rightarrow> AList.update name (schema, non_null kvs ''root_page_id'', non_null kvs ''next_page_id'') tables
          | Some (s, root, next) \<Rightarrow>
              AList.update name
                (s @ schema,
                 case non_null kvs ''root_page_id'' of None \<Rightarrow> root | r \<Rightarrow> r,
                 case non_null kvs ''next_page_id'' of None \<Rightarrow> next | r \<Rightarrow> r) tables))))"

definition merge_body :: "uni \<Rightarrow> (pystr, partial_entry) dict \<Rightarrow> byte list \<Rightarrow> (pystr, partial_entry) dict res" where
  "merge_body u tables body =
     bindE (utf8_decode (rstrip0 body)) (\<lambda>t.
     if t = [] then Inr tables
     else
       bindE (loads u t) (\<lambda>data.
       bindE (bindE (obj_get_or data ''tables'' (J_obj [])) obj_items) (\<lambda>items.
       foldE merge_table_entry tables items)))"

definition materialize :: "uni \<Rightarrow> (pystr, partial_entry) dict \<Rightarrow> catalog res" where
  "materialize u tables =
     mapE (\<lambda>(name, (schema, root, next)).
       bindE (mapE load_column schema) (\<lambda>cols.
       bindE (case root of None \<Rightarrow> Inl TypeErr | Some v \<Rightarrow> dec_int u v) (\<lambda>root.
       bindE (case next of None \<Rightarrow> Inl TypeErr | Some v \<Rightarrow> dec_int u v) (\<lambda>next.
       Inr (name, \<lparr>ti_columns = cols, ti_root = root, ti_next = next, ti_name = name\<rparr>))))) tables"

text \<open>
  The walk from page 1: the guard on \<open>visited\<close> stops it after \<open>page_count() + 2\<close> pages,
  so that many rounds are enough fuel.
\<close>

fun walk_chain :: "nat \<Rightarrow> uni \<Rightarrow> pager \<Rightarrow> int \<Rightarrow> int \<Rightarrow> (pystr, partial_entry) dict \<Rightarrow> (pystr, partial_entry) dict res" where
  "walk_chain 0 u p pid visited tables = Inl FuelOut"
| "walk_chain (Suc n) u p pid visited tables =
     (if pid = 0 then Inr tables
      else if visited > page_count p + 1 then Inl InvalidDatabaseFile
      else
        bindE (read_page pid p) (\<lambda>page.
        bindE (merge_body u tables (drop CHAIN_SEG_HEADER page)) (\<lambda>tables.
        walk_chain n u p (be_int (take 4 page)) (visited + 1) tables)))"

definition unpack_chain :: "uni \<Rightarrow> pager \<Rightarrow> catalog res" where
  "unpack_chain u p =
     bindE (walk_chain (nat (page_count p) + 4) u p CHAIN_HEAD_PAGE 0 []) (materialize u)"

section \<open>Reading a document back\<close>

lemma utf8_ascii: "ascii s \<Longrightarrow> utf8_encode s = Inr (map of_nat s)"
proof (induction s)
  case Nil
  then show ?case by (simp add: utf8_encode_def)
next
  case (Cons c s)
  then obtain bs where "mapE utf8_char s = Inr bs" "concat bs = map of_nat s" by (auto simp: utf8_encode_def)
  then show ?case using Cons.prems by (simp add: utf8_encode_def utf8_char_def)
qed

lemma utf8_decode_ascii: "ascii s \<Longrightarrow> utf8_decode (map of_nat s) = Inr s"
  by (rule utf8_decode_encode [OF utf8_ascii]) (auto simp: ascii_def list_all_iff)

lemma rstrip0_pad: "0 \<notin> set bs \<Longrightarrow> rstrip0 (bs @ replicate n 0) = bs"
proof -
  assume "0 \<notin> set bs"
  then have "dropWhile (\<lambda>b. b = 0) (rev bs) = rev bs" by (cases "rev bs") (auto simp: rev_swap [symmetric])
  moreover have "dropWhile (\<lambda>b. b = 0) (replicate n 0 @ rev bs) = dropWhile (\<lambda>b. b = 0) (rev bs)" by (induction n) auto
  ultimately show ?thesis by (simp add: rstrip0_def)
qed

lemma json_document:
  assumes "json_ok v" and "json_bytes v = Inr t"
  shows "utf8_decode (rstrip0 (t @ replicate n 0)) = Inr (dumps (\<lambda>_. []) v)" and "dumps (\<lambda>_. []) v \<noteq> []"
    and "loads u (dumps (\<lambda>_. []) v) = Inr v"
proof -
  let ?s = "dumps (\<lambda>_. []) v"
  have ascii: "ascii ?s" by (rule dumps_ascii [OF assms(1)])
  have t: "t = map of_nat ?s" using assms(2) utf8_ascii [OF ascii] by (simp add: json_bytes_def)
  have "(of_nat c :: byte) \<noteq> 0" if "c \<in> set ?s" for c
    using ascii that unat_byte [of c] by (auto simp: ascii_def list_all_iff)
  then have "0 \<notin> set t" unfolding t by auto
  then show "utf8_decode (rstrip0 (t @ replicate n 0)) = Inr ?s"
    using utf8_decode_ascii [OF ascii] by (simp add: rstrip0_pad t)
  show "?s \<noteq> []" using dumps_head [OF assms(1)] by (metis list.distinct(1))
  show "loads u ?s = Inr v" by (rule loads_dumps [OF assms(1)])
qed

section \<open>Columns and tables\<close>

definition column_ok :: "column \<Rightarrow> bool" where
  "column_ok c \<longleftrightarrow> text_ok (c_name c) \<and> list_all (\<lambda>i. \<bar>i\<bar> < 2 ^ 64) (c_params c)"

definition table_ok :: "table_info \<Rightarrow> bool" where
  "table_ok ti \<longleftrightarrow> list_all column_ok (ti_columns ti) \<and> \<bar>ti_root ti\<bar> < 2 ^ 64 \<and> \<bar>ti_next ti\<bar> < 2 ^ 64"

definition catalog_ok :: "catalog \<Rightarrow> bool" where
  "catalog_ok c \<longleftrightarrow> distinct (map fst c) \<and> list_all (\<lambda>(n, ti). text_ok n \<and> table_ok ti \<and> ti_name ti = n) c"

lemma ustr_text_ok: "text_ok (ustr s)"
proof -
  have "c < 256" if "c \<in> set (ustr s)" for c using that by (auto simp: ustr_def)
  then show ?thesis by (fastforce simp: text_ok_def list_all_iff)
qed

lemma type_name_ustr: "type_name (ustr s) = s"
  by (simp add: type_name_def ustr_def list_all_iff comp_def)

lemma plain_text_ok: "ascii s \<Longrightarrow> text_ok s"
  by (auto simp: ascii_def text_ok_def list_all_iff)

lemma column_json_ok: "column_ok c \<Longrightarrow> json_ok (column_to_dict c)"
  by (auto simp: column_to_dict_def jkey_def column_ok_def ustr_text_ok list_all_iff)

lemma as_ints: "mapE as_int (map J_int is) = Inr is"
  by (induction "is") simp_all

lemma load_column_dict: "column_ok c \<Longrightarrow> load_column (column_to_dict c) = Inr c"
  by (simp add: load_column_def column_to_dict_def column_from_dict_def obj_get_def obj_get_or_def obj_items_def jkey_def
      type_name_ustr as_ints)

lemma mapE_map: "mapE f (map g xs) = mapE (\<lambda>x. f (g x)) xs"
  by (induction xs) simp_all

lemma load_columns: "list_all column_ok cols \<Longrightarrow> mapE load_column (map column_to_dict cols) = Inr cols"
  using mapE_all_Inr [of cols "\<lambda>c. load_column (column_to_dict c)" "\<lambda>c. c"]
  by (simp add: mapE_map list_all_iff load_column_dict)

lemma dec_enc: "\<bar>i\<bar> < 2 ^ 64 \<Longrightarrow> dec_int u (enc_int i) = Inr i"
  by (simp add: dec_int_def enc_int_def py_int_str)

lemma enc_json_ok: "json_ok (enc_int i)"
  by (simp add: enc_int_def int_str_ascii plain_text_ok)

lemma entry_json_ok: "table_ok ti \<Longrightarrow> json_ok (table_entry_dict ti)"
  by (auto simp: table_entry_dict_def jkey_def table_ok_def ustr_text_ok enc_json_ok list_all_iff intro: column_json_ok)

lemma table_from_entry:
  "table_ok ti \<Longrightarrow> ti_name ti = n \<Longrightarrow> table_from_json u n (table_entry_dict ti) = Inr ti"
  by (auto simp: table_from_json_def table_entry_dict_def obj_get_def jkey_def table_ok_def load_columns dec_enc)

lemma tables_json_ok:
  "distinct (map fst es) \<Longrightarrow> (\<And>n v. (n, v) \<in> set es \<Longrightarrow> text_ok n \<and> json_ok v) \<Longrightarrow> json_ok (tables_json es)"
  by (fastforce simp: tables_json_def jkey_def ustr_text_ok)

lemma catalog_entries_ok:
  assumes "catalog_ok c"
  shows "distinct (map fst (catalog_entries c))" and "(n, v) \<in> set (catalog_entries c) \<Longrightarrow> text_ok n \<and> json_ok v"
proof -
  have "map fst (catalog_entries c) = map fst c" by (simp add: catalog_entries_def comp_def case_prod_beta)
  then show "distinct (map fst (catalog_entries c))" using assms by (simp add: catalog_ok_def)
  show "(n, v) \<in> set (catalog_entries c) \<Longrightarrow> text_ok n \<and> json_ok v"
    using assms by (auto simp: catalog_entries_def catalog_ok_def list_all_iff entry_json_ok)
qed

lemma tables_of: "obj_get_or (tables_json es) ''tables'' d = Inr (J_obj es)" "obj_items (J_obj es) = Inr es"
  by (simp_all add: tables_json_def obj_get_or_def obj_items_def jkey_def)

lemma update_new: "k \<notin> fst ` set m \<Longrightarrow> AList.update k v m = m @ [(k, v)]"
  by (induction m) auto

lemma catalog_fold:
  assumes "catalog_ok (done1 @ c)"
  shows "foldE (\<lambda>c (name, info). bindE (table_from_json u name info) (\<lambda>ti. Inr (AList.update name ti c))) done1 (catalog_entries c)
    = Inr (done1 @ c)"
  using assms
proof (induction c arbitrary: done1)
  case Nil
  then show ?case by (simp add: catalog_entries_def)
next
  case (Cons x c)
  obtain n ti where x: "x = (n, ti)" by force
  have "table_ok ti" "ti_name ti = n" "n \<notin> fst ` set done1" using Cons.prems x by (auto simp: catalog_ok_def)
  then show ?case using Cons.IH [of "done1 @ [x]"] Cons.prems x
    by (simp add: catalog_entries_def table_from_entry update_new)
qed

section \<open>Merging the segments\<close>

definition partial_of :: "table_info \<Rightarrow> partial_entry" where
  "partial_of ti = (map column_to_dict (ti_columns ti), Some (enc_int (ti_root ti)), Some (enc_int (ti_next ti)))"

definition partials :: "catalog \<Rightarrow> (pystr, partial_entry) dict" where
  "partials c = map (\<lambda>(n, ti). (n, partial_of ti)) c"

abbreviation merge_all :: "uni \<Rightarrow> (pystr, partial_entry) dict \<Rightarrow> byte list list \<Rightarrow> (pystr, partial_entry) dict res" where
  "merge_all u \<equiv> foldE (merge_body u)"

lemma merge_document:
  "json_ok (tables_json es) \<Longrightarrow> json_bytes (tables_json es) = Inr t \<Longrightarrow>
     merge_body u tables (t @ replicate n 0) = foldE merge_table_entry tables es"
  by (simp add: merge_body_def json_document tables_of)

lemma merge_segment:
  "json_ok (tables_json es) \<Longrightarrow> json_bytes (tables_json es) = Inr t \<Longrightarrow>
     merge_body u tables t = foldE merge_table_entry tables es"
  using merge_document [of es t u tables 0] by simp

lemma partials_keys: "fst ` set (partials c) = fst ` set c"
  by (force simp: partials_def)

lemma map_of_absent: "n \<notin> fst ` set m \<Longrightarrow> map_of m n = None"
  by (simp add: map_of_eq_None_iff)

lemma merge_whole_entry:
  "n \<notin> fst ` set tables \<Longrightarrow> merge_table_entry tables (n, table_entry_dict ti) = Inr (tables @ [(n, partial_of ti)])"
  by (simp add: merge_table_entry_def table_entry_dict_def obj_items_def jkey_def non_null_def enc_int_def partial_of_def
      map_of_absent update_new)

lemma merge_entries:
  assumes "catalog_ok (d1 @ d2)"
  shows "foldE merge_table_entry (partials d1) (catalog_entries d2) = Inr (partials (d1 @ d2))"
  using assms
proof (induction d2 arbitrary: d1)
  case Nil
  then show ?case by (simp add: catalog_entries_def)
next
  case (Cons x d2)
  obtain n ti where x: "x = (n, ti)" by force
  have new: "n \<notin> fst ` set (partials d1)" using Cons.prems x by (auto simp: catalog_ok_def partials_keys)
  have "partials d1 @ [(n, partial_of ti)] = partials (d1 @ [x])" by (simp add: partials_def x)
  then show ?case using Cons.IH [of "d1 @ [x]"] Cons.prems merge_whole_entry [OF new, of ti] x
    by (simp add: catalog_entries_def)
qed

lemma catalog_ok_part: "catalog_ok (d1 @ d2) \<Longrightarrow> catalog_ok d1 \<and> catalog_ok d2"
  by (auto simp: catalog_ok_def)

lemma entries_json_ok: "catalog_ok d \<Longrightarrow> json_ok (tables_json (catalog_entries d))"
  by (rule tables_json_ok) (use catalog_entries_ok in auto)

lemma flush_merge:
  assumes "catalog_ok (d1 @ d2)" and "merge_all u [] segs = Inr (partials d1)"
    and "flush_cur (segs, catalog_entries d2) = Inr (segs', cur)"
  shows "cur = [] \<and> merge_all u [] segs' = Inr (partials (d1 @ d2))"
proof (cases "d2 = []")
  case True
  then show ?thesis using assms by (simp add: flush_cur_def catalog_entries_def)
next
  case False
  then have "catalog_entries d2 \<noteq> []" by (simp add: catalog_entries_def)
  then obtain seg where seg: "json_bytes (tables_json (catalog_entries d2)) = Inr seg" "segs' = segs @ [seg]" "cur = []"
    using assms(3) by (auto simp: flush_cur_def split: if_splits)
  have "merge_body u (partials d1) seg = Inr (partials (d1 @ d2))"
    using merge_segment [OF entries_json_ok seg(1)] merge_entries [OF assms(1)] catalog_ok_part [OF assms(1)] by simp
  then show ?thesis using assms(2) seg by (simp add: foldE_append)
qed

text \<open>One table cut by its columns.\<close>

lemma sub_entry_ok:
  "(\<And>c. c \<in> set cols \<Longrightarrow> json_ok c) \<Longrightarrow> json_ok root \<Longrightarrow> json_ok next \<Longrightarrow> text_ok n \<Longrightarrow>
     json_ok (tables_json [(n, sub_entry b cols root next)])"
  by (rule tables_json_ok) (auto simp: sub_entry_def jkey_def ustr_text_ok)

lemma merge_first_part:
  "n \<notin> fst ` set tables \<Longrightarrow>
     merge_table_entry tables (n, sub_entry True cols (enc_int i) (enc_int j)) =
       Inr (tables @ [(n, (cols, Some (enc_int i), Some (enc_int j)))])"
  by (simp add: merge_table_entry_def sub_entry_def obj_items_def jkey_def non_null_def enc_int_def map_of_absent update_new)

lemma update_last: "n \<notin> fst ` set m \<Longrightarrow> AList.update n v (m @ [(n, w)]) = m @ [(n, v)]"
  by (induction m) auto

lemma map_of_last: "n \<notin> fst ` set m \<Longrightarrow> map_of (m @ [(n, w)]) n = Some w"
  by (simp add: map_add_def map_of_absent)

lemma merge_next_part:
  "n \<notin> fst ` set tables \<Longrightarrow>
     merge_table_entry (tables @ [(n, (cs, Some i, Some j))]) (n, sub_entry False cols r x) =
       Inr (tables @ [(n, (cs @ cols, Some i, Some j))])"
  by (simp add: merge_table_entry_def sub_entry_def obj_items_def jkey_def non_null_def map_of_last update_last del: map_of_append)

definition split_inv ::
    "uni \<Rightarrow> (pystr, partial_entry) dict \<Rightarrow> pystr \<Rightarrow> json \<Rightarrow> json \<Rightarrow> json list \<Rightarrow> byte list list \<times> json list \<Rightarrow> bool" where
  "split_inv u tables n root next seen = (\<lambda>(segs, chunk).
     (if segs = [] then chunk = seen
      else \<exists>emitted. seen = emitted @ chunk \<and>
        merge_all u tables segs = Inr (tables @ [(n, (emitted, Some root, Some next))])))"

lemma emit_chunk_inv:
  assumes new: "n \<notin> fst ` set tables" "text_ok n" and cols: "\<And>c. c \<in> set seen \<Longrightarrow> json_ok c"
    and inv: "split_inv u tables n (enc_int i) (enc_int j) seen (segs, chunk)"
    and run: "emit_chunk n (enc_int i) (enc_int j) (segs, chunk) = Inr (segs', chunk')"
  shows "chunk' = [] \<and> split_inv u tables n (enc_int i) (enc_int j) seen (segs', []) \<and> (chunk \<noteq> [] \<longrightarrow> segs' \<noteq> [])"
proof (cases "chunk = []")
  case True
  then show ?thesis using inv run by (simp add: emit_chunk_def)
next
  case False
  then obtain seg where seg: "json_bytes (tables_json [(n, sub_entry (segs = []) chunk (enc_int i) (enc_int j))]) = Inr seg"
      "segs' = segs @ [seg]" "chunk' = []"
    using run by (auto simp: emit_chunk_def)
  have "json_ok c" if "c \<in> set chunk" for c using that cols inv by (auto simp: split_inv_def split: if_splits)
  then have "merge_body u ts seg = foldE merge_table_entry ts [(n, sub_entry (segs = []) chunk (enc_int i) (enc_int j))]" for ts
    by (intro merge_segment [OF sub_entry_ok seg(1)]) (auto simp: enc_json_ok new)
  then show ?thesis using inv seg merge_first_part [OF new(1)] merge_next_part [OF new(1)]
    by (cases "segs = []") (auto simp: split_inv_def foldE_append)
qed

lemma split_step_inv:
  assumes new: "n \<notin> fst ` set tables" "text_ok n" and cols: "\<And>c. c \<in> set seen \<Longrightarrow> json_ok c"
    and inv: "split_inv u tables n (enc_int i) (enc_int j) seen st"
    and run: "split_step n (enc_int i) (enc_int j) st col = Inr st'"
  shows "split_inv u tables n (enc_int i) (enc_int j) (seen @ [col]) st' \<and> snd st' \<noteq> []"
proof -
  obtain segs chunk where st: "st = (segs, chunk)" by force
  consider "st' = (segs, chunk @ [col])"
    | segs' chunk' where "emit_chunk n (enc_int i) (enc_int j) (segs, chunk) = Inr (segs', chunk')" "st' = (segs', chunk' @ [col])"
    using run by (auto simp: split_step_def st split: if_splits)
  then show ?thesis
  proof cases
    case 1
    then show ?thesis using inv by (auto simp: split_inv_def st split: if_splits)
  next
    case 2
    then show ?thesis using emit_chunk_inv [OF new cols inv [unfolded st] 2(1)]
      by (auto simp: split_inv_def split: if_splits)
  qed
qed

lemma split_single_merge:
  assumes new: "n \<notin> fst ` set tables" "text_ok n" and cols: "\<And>c. c \<in> set columns \<Longrightarrow> json_ok c"
    and run: "split_single_table n columns (enc_int i) (enc_int j) = Inr segs"
  shows "merge_all u tables segs = Inr (tables @ [(n, (columns, Some (enc_int i), Some (enc_int j)))])"
proof -
  obtain st chunk where st: "foldE (split_step n (enc_int i) (enc_int j)) ([], []) columns = Inr st"
      "emit_chunk n (enc_int i) (enc_int j) st = Inr (segs, chunk)" and "columns \<noteq> []"
    using run by (auto simp: split_single_table_def split: list.splits if_splits)
  have "foldE (split_step n (enc_int i) (enc_int j)) ([], []) cs = Inr st \<Longrightarrow> set cs \<subseteq> set columns \<Longrightarrow>
      split_inv u tables n (enc_int i) (enc_int j) cs st \<and> (cs \<noteq> [] \<longrightarrow> snd st \<noteq> [])" for cs st
  proof (induction cs arbitrary: st rule: rev_induct)
    case Nil
    then show ?case by (auto simp: split_inv_def)
  next
    case (snoc c cs)
    then obtain st0 where "foldE (split_step n (enc_int i) (enc_int j)) ([], []) cs = Inr st0"
        "split_step n (enc_int i) (enc_int j) st0 c = Inr st" by (auto simp: foldE_append)
    then show ?case using split_step_inv [OF new, of cs u i j st0 c st] snoc cols by auto
  qed
  from this [OF st(1)] obtain segs0 chunk0 where inv: "split_inv u tables n (enc_int i) (enc_int j) columns (segs0, chunk0)"
      "chunk0 \<noteq> []" "st = (segs0, chunk0)" using \<open>columns \<noteq> []\<close> by (cases st) auto
  from emit_chunk_inv [OF new cols inv(1) st(2) [unfolded inv(3)]] inv(2) show ?thesis
    by (auto simp: split_inv_def split: if_splits)
qed

definition seg_inv :: "uni \<Rightarrow> catalog \<Rightarrow> seg_state \<Rightarrow> bool" where
  "seg_inv u seen = (\<lambda>(segs, cur).
     \<exists>d1 d2. seen = d1 @ d2 \<and> cur = catalog_entries d2 \<and> merge_all u [] segs = Inr (partials d1))"

lemma catalog_entries_snoc:
  "catalog_ok (d @ [(n, ti)]) \<Longrightarrow> AList.update n (table_entry_dict ti) (catalog_entries d) = catalog_entries (d @ [(n, ti)])"
  by (subst update_new) (force simp: catalog_entries_def catalog_ok_def)+

lemma segment_step_inv:
  assumes ok: "catalog_ok (seen @ [x])" and inv: "seg_inv u seen st" and run: "segment_step st x = Inr st'"
  shows "seg_inv u (seen @ [x]) st'"
proof -
  obtain n ti where x: "x = (n, ti)" by force
  obtain segs cur where st: "st = (segs, cur)" by force
  obtain d1 d2 where d: "seen = d1 @ d2" "cur = catalog_entries d2" "merge_all u [] segs = Inr (partials d1)"
    using inv by (auto simp: seg_inv_def st)
  have okd: "catalog_ok (d1 @ d2)" "catalog_ok (d2 @ [(n, ti)])" "table_ok ti" "text_ok n" "n \<notin> fst ` set seen"
    using ok d(1) x by (auto simp: catalog_ok_def)
  note flush = flush_merge [OF okd(1) d(3)]
  consider (split) segs' subs where "flush_cur (segs, cur) = Inr (segs', [])"
      "split_single_table n (map column_to_dict (ti_columns ti)) (enc_int (ti_root ti)) (enc_int (ti_next ti)) = Inr subs"
      "st' = (segs' @ subs, [])"
    | (add) "st' = (segs, catalog_entries (d2 @ [(n, ti)]))"
    | (restart) segs' where "flush_cur (segs, cur) = Inr (segs', [])" "st' = (segs', catalog_entries [(n, ti)])"
    using run flush catalog_entries_snoc [OF okd(2)] catalog_entries_snoc [of "[]" n ti] okd
    by (auto simp: segment_step_def x st d(2) Let_def catalog_entries_def split: if_splits)
  then show ?thesis
  proof cases
    case split
    have new: "n \<notin> fst ` set (partials seen)" using okd(5) by (simp add: partials_keys)
    have "merge_all u (partials seen) subs = Inr (partials seen @ [(n, partial_of ti)])"
      using split_single_merge [OF new okd(4) _ split(2), of u] okd(3) column_json_ok
      by (auto simp: partial_of_def table_ok_def list_all_iff)
    then have "merge_all u [] (segs' @ subs) = Inr (partials (seen @ [x]))"
      using flush [of segs' "[]"] split(1) d by (simp add: foldE_append x partials_def)
    then show ?thesis unfolding split(3) seg_inv_def
      by (auto intro!: exI [of _ "seen @ [x]"] exI [of _ "[]"] simp: catalog_entries_def)
  next
    case add
    then show ?thesis using d x by (auto simp: seg_inv_def)
  next
    case restart
    then have "merge_all u [] segs' = Inr (partials seen)" using flush [of segs' "[]"] d by simp
    then show ?thesis unfolding restart(2) seg_inv_def x
      by (intro case_prodI exI [of _ seen] exI [of _ "[(n, ti)]"]) simp
  qed
qed

lemma serialize_merge:
  assumes ok: "catalog_ok c" and run: "serialize_segments c = Inr segs"
  shows "merge_all u [] segs = Inr (partials c)"
proof (cases "c = []")
  case True
  have j: "json_ok (J_obj [])" "json_bytes (J_obj []) = Inr [123, 125]"
    by (simp_all add: json_bytes_def utf8_ascii)
  then show ?thesis using run True json_document(1) [OF j, of 0] json_document(2,3) [OF j]
    by (auto simp add: serialize_segments_def merge_body_def obj_get_or_def obj_items_def partials_def)
next
  case False
  obtain full where full: "json_bytes (tables_json (catalog_entries c)) = Inr full"
    using run False by (auto simp: serialize_segments_def)
  show ?thesis
  proof (cases "length full \<le> CHAIN_THRESHOLD")
    case True
    then have "segs = [full]" using run False full by (simp add: serialize_segments_def)
    then show ?thesis using merge_segment [OF entries_json_ok [OF ok] full, of u] merge_entries [of "[]" c] ok
      by (simp add: partials_def)
  next
    case less: False
    then obtain st cur where st: "foldE segment_step ([], []) c = Inr st" "flush_cur st = Inr (segs, cur)"
      using run False full by (auto simp: serialize_segments_def)
    have "foldE segment_step ([], []) seen = Inr st \<Longrightarrow> catalog_ok seen \<Longrightarrow> seg_inv u seen st" for seen st
    proof (induction seen arbitrary: st rule: rev_induct)
      case Nil
      then show ?case by (auto simp: seg_inv_def catalog_entries_def partials_def)
    next
      case (snoc x seen)
      then obtain st0 where "foldE segment_step ([], []) seen = Inr st0" "segment_step st0 x = Inr st"
        by (auto simp: foldE_append)
      then show ?case using segment_step_inv [OF snoc.prems(2)] snoc catalog_ok_part by blast
    qed
    from this [OF st(1) ok] obtain segs0 d1 d2 where "c = d1 @ d2" "st = (segs0, catalog_entries d2)"
        "merge_all u [] segs0 = Inr (partials d1)" by (cases st) (auto simp: seg_inv_def)
    then show ?thesis using flush_merge [of d1 d2 u segs0 segs cur] ok st(2) by simp
  qed
qed

lemma materialize_partials:
  assumes "catalog_ok c"
  shows "materialize u (partials c) = Inr c"
proof -
  have all: "mapE f (map g c) = Inr c" if "\<And>x. x \<in> set c \<Longrightarrow> f (g x) = Inr x" for f :: "_ \<Rightarrow> _ res" and g
    using mapE_all_Inr [of c "\<lambda>x. f (g x)" "\<lambda>x. x"] that by (simp add: mapE_map)
  show ?thesis
    unfolding materialize_def partials_def
    by (rule all) (use assms in \<open>auto simp: catalog_ok_def list_all_iff partial_of_def table_ok_def load_columns [unfolded list_all_iff] dec_enc\<close>)
qed

section \<open>The chain of pages\<close>

text \<open>
  A pager holds the pages at the listed ids when the body of each is that of the page and
  its first four bytes name the next one, 0 after the last.
\<close>

fun chain_at :: "pager \<Rightarrow> int list \<Rightarrow> byte list list \<Rightarrow> bool" where
  "chain_at p [] [] = True"
| "chain_at p (pid # pids) (pg # pgs) =
     (pid \<noteq> 0 \<and> (\<exists>page. read_page pid p = Inr page \<and> drop CHAIN_SEG_HEADER page = drop CHAIN_SEG_HEADER pg \<and>
        be_int (take 4 page) = (case pids of [] \<Rightarrow> 0 | q # _ \<Rightarrow> q)) \<and> chain_at p pids pgs)"
| "chain_at p _ _ = False"

lemma walk_chain_at:
  assumes "chain_at p pids pgs" and "visited + int (length pids) \<le> page_count p + 2" and "length pids < n"
    and "foldE (\<lambda>t pg. merge_body u t (drop CHAIN_SEG_HEADER pg)) tables pgs = Inr r"
  shows "walk_chain n u p (case pids of [] \<Rightarrow> 0 | q # _ \<Rightarrow> q) visited tables = Inr r"
  using assms
proof (induction pids pgs arbitrary: n visited tables rule: list_induct2')
  case 1
  then show ?case by (cases n) auto
next
  case (4 pid pids pg pgs)
  obtain m where n: "n = Suc m" using "4.prems"(3) by (cases n) auto
  obtain t where t: "merge_body u tables (drop CHAIN_SEG_HEADER pg) = Inr t"
      "foldE (\<lambda>t pg. merge_body u t (drop CHAIN_SEG_HEADER pg)) t pgs = Inr r"
    using "4.prems"(4) by auto
  from "4.IH" [OF _ _ _ t(2), of "visited + 1" m] "4.prems" t(1) n show ?case by auto
qed auto

lemma foldE_map: "foldE f s (map g xs) = foldE (\<lambda>s x. f s (g x)) s xs"
  by (induction xs arbitrary: s) simp_all

lemma pack_pages:
  assumes "mapE pack_page segs = Inr pages"
  shows "list_all2 (\<lambda>seg pg. length pg = 4096 \<and> drop CHAIN_SEG_HEADER pg = seg @ replicate (4080 - length seg) 0) segs pages"
  using assms by (induction segs arbitrary: pages) (auto simp: pack_page_def split: if_splits)

lemma merge_padded: "merge_body u t (seg @ replicate n 0) = merge_body u t seg"
proof -
  have "dropWhile (\<lambda>b. b = 0) (replicate n 0 @ r) = dropWhile (\<lambda>b. b = 0) r" for r :: "byte list"
    by (induction n) auto
  then show ?thesis by (simp add: merge_body_def rstrip0_def)
qed

lemma merge_pages:
  assumes "list_all2 (\<lambda>seg pg. length pg = 4096 \<and> drop CHAIN_SEG_HEADER pg = seg @ replicate (4080 - length seg) 0) segs pages"
  shows "foldE (\<lambda>t pg. merge_body u t (drop CHAIN_SEG_HEADER pg)) t pages = merge_all u t segs"
  using assms
proof (induction segs pages arbitrary: t rule: list_all2_induct)
  case (Cons seg segs pg pgs)
  then show ?case by (cases "merge_body u t seg") (simp_all add: merge_padded del: CHAIN_SEG_HEADER_def)
qed simp

section \<open>Properties\<close>

text \<open>
  C33. The overflow chain: whenever the catalog can be packed, into segments that hold whole tables or
  columns of one table, every page has the size of a page, and loading the chain from a pager that holds those
  pages, linked from page 1, gives back the catalog.
\<close>

theorem catalog_chain_roundtrip:
  assumes "catalog_ok c" and "pack_chain c = Inr pages"
    and "chain_at p pids pages" and "hd pids = CHAIN_HEAD_PAGE" and "int (length pids) \<le> page_count p + 2"
  shows "list_all (\<lambda>pg. length pg = 4096) pages \<and> unpack_chain u p = Inr c"
proof -
  obtain segs where segs: "serialize_segments c = Inr segs" "mapE pack_page segs = Inr pages"
    using assms(2) by (auto simp: pack_chain_def)
  note pages = pack_pages [OF segs(2)]
  have len: "list_all (\<lambda>pg. length pg = 4096) pages" using pages by (induction rule: list_all2_induct) auto
  have nonempty: "pids \<noteq> []"
  proof
    assume "pids = []"
    then have "segs = []" using assms(3) pages by (cases pages) auto
    then have "partials c = []" using serialize_merge [OF assms(1) segs(1), of u] by simp
    then show False using segs(1) \<open>segs = []\<close> by (simp add: partials_def serialize_segments_def)
  qed
  then have "(case pids of [] \<Rightarrow> 0 | q # _ \<Rightarrow> q) = CHAIN_HEAD_PAGE" using assms(4) by (cases pids) auto
  moreover have "walk_chain (nat (page_count p) + 4) u p (case pids of [] \<Rightarrow> 0 | q # _ \<Rightarrow> q) 0 [] = Inr (partials c)"
    by (rule walk_chain_at [OF assms(3)])
      (use assms(5) serialize_merge [OF assms(1) segs(1), of u] in \<open>auto simp: merge_pages [OF pages] simp del: CHAIN_SEG_HEADER_def\<close>)
  ultimately show ?thesis using len materialize_partials [OF assms(1)] by (simp add: unpack_chain_def)
qed

text \<open>A catalog whose JSON fits the page.\<close>

lemma catalog_fits:
  assumes "catalog_ok c" and "length (dumps (\<lambda>_. []) (tables_json (catalog_entries c))) \<le> 4096"
  shows "\<exists>raw. catalog_to_bytes c = Inr raw \<and> length raw = 4096 \<and> catalog_from_bytes u raw = Inr c"
proof -
  let ?v = "tables_json (catalog_entries c)"
  let ?t = "map of_nat (dumps (\<lambda>_. []) ?v) :: byte list"
  let ?raw = "?t @ replicate (4096 - length ?t) 0"
  have ok: "json_ok ?v" by (rule tables_json_ok) (use catalog_entries_ok [OF assms(1)] in auto)
  have t: "json_bytes ?v = Inr ?t" using utf8_ascii [OF dumps_ascii [OF ok]] by (simp add: json_bytes_def)
  then have "catalog_to_bytes c = Inr ?raw" using assms(2) by (simp add: catalog_to_bytes_def)
  moreover have "catalog_from_bytes u ?raw = Inr c"
    using json_document [OF ok t] tables_of catalog_fold [of "[]" c u] assms(1)
    by (simp add: catalog_from_bytes_def)
  ultimately show ?thesis using assms(2) by auto
qed

text \<open>
  The catalog page: a catalog whose JSON fits a page is written as exactly one page, which reads
  back as the same tables, columns and page ids in the same order; a longer one raises \<open>ValueError\<close>.
\<close>

theorem catalog_page_roundtrip:
  assumes "catalog_ok c"
  shows "(\<exists>raw. catalog_to_bytes c = Inr raw \<and> length raw = 4096 \<and> catalog_from_bytes u raw = Inr c) \<or>
    catalog_to_bytes c = Inl ValueError \<and> 4096 < length (dumps (\<lambda>_. []) (tables_json (catalog_entries c)))"
proof (cases "4096 < length (dumps (\<lambda>_. []) (tables_json (catalog_entries c)))")
  case True
  have "json_ok (tables_json (catalog_entries c))" by (rule tables_json_ok) (use catalog_entries_ok [OF assms] in auto)
  then have "json_bytes (tables_json (catalog_entries c)) = Inr (map of_nat (dumps (\<lambda>_. []) (tables_json (catalog_entries c))))"
    using utf8_ascii [OF dumps_ascii] by (simp add: json_bytes_def)
  then show ?thesis using True by (simp add: catalog_to_bytes_def)
next
  case False
  then show ?thesis using catalog_fits [OF assms, of u] by simp
qed

definition example_catalog :: catalog where
  "example_catalog =
     [(ustr ''t'', \<lparr>ti_columns = [\<lparr>c_name = ustr ''id'', c_type = ''INT'', c_params = [], c_nullable = False,
         c_unique = False, c_pk = True\<rparr>], ti_root = 2, ti_next = 3, ti_name = ustr ''t''\<rparr>)]"

lemma example_catalog_ok: "catalog_ok example_catalog"
  by (simp add: example_catalog_def catalog_ok_def table_ok_def column_ok_def ustr_text_ok)

lemma example_catalog_small: "length (dumps (\<lambda>_. []) (tables_json (catalog_entries example_catalog))) < 1000"
  by code_simp

lemma catalog_page_roundtrip_witness:
  "\<exists>raw. catalog_to_bytes example_catalog = Inr raw \<and> length raw = 4096 \<and>
     catalog_from_bytes latin1 raw = Inr example_catalog"
  using catalog_page_roundtrip [OF example_catalog_ok, of latin1] example_catalog_small by simp

lemma catalog_chain_roundtrip_witness:
  "\<exists>pages p. pack_chain example_catalog = Inr pages \<and> unpack_chain latin1 p = Inr example_catalog"
proof -
  define full where "full = (map of_nat (dumps (\<lambda>_. []) (tables_json (catalog_entries example_catalog))) :: byte list)"
  define pg where "pg = replicate 16 0 @ full @ replicate (4096 - (16 + length full)) 0"
  have len: "length full < 1000" by (simp add: full_def example_catalog_small)
  have "json_bytes (tables_json (catalog_entries example_catalog)) = Inr full"
    using utf8_ascii [OF dumps_ascii [OF entries_json_ok [OF example_catalog_ok]]] by (simp add: json_bytes_def full_def)
  then have pack: "pack_chain example_catalog = Inr [pg]"
    using len by (simp add: pack_chain_def serialize_segments_def pack_page_def pg_def Let_def example_catalog_def)
  define p where "p = new_memory_pager\<lparr>mem_pages := [(0, file_header), (1, pg)]\<rparr>"
  have "read_page 1 p = Inr pg" by (simp add: p_def new_memory_pager_def read_page_def)
  moreover have "replicate 4 0 = ([0, 0, 0, 0] :: byte list)" by (simp add: numeral_eq_Suc)
  then have "be_int (take 4 pg) = 0" by (simp add: pg_def be_int_def)
  ultimately have "chain_at p [1] [pg]" by simp
  from catalog_chain_roundtrip [OF example_catalog_ok pack this, of latin1]
  show ?thesis using pack by (auto simp: p_def new_memory_pager_def page_count_def)
qed

end
