(* ===== verification/Exec_State.thy ===== *)
theory Exec_State
  imports Transaction Btree Catalog
begin

text \<open>
  The state of the class \<open>Executor\<close> (\<open>src/tinydb/executor.py\<close>) with the objects it
  owns: pager, catalog, data page lists, transaction and page buffer; the index
  manager (\<open>index_manager.py\<close>) and its page wrappers (\<open>_index_pager.py\<close>); the snapshot of
  \<open>_executor_snapshot.py\<close>. Here are the transaction routing of pages, BEGIN, COMMIT
  and ROLLBACK, and the wrapper \<open>_exec_in_txn\<close> around a statement. \<open>flush\<close> changes no
  contents. The lemmas are in \<open>Exec_Atomic\<close> and \<open>Exec_Pages\<close>.
\<close>

section \<open>State\<close>

text \<open>
  A B+ tree: its root and the object \<open>bt.pager\<close>. That is the bare \<open>Pager\<close> (\<open>None\<close>) or one
  of the \<open>IndexPager\<close> wrappers the executor has registered, which trees share by
  reference: a number is its place in \<open>x_wrappers\<close>. The tree is keyed by its table and column.
\<close>

record index =
  ix_root :: "int option"
  ix_pager :: "nat option"

type_synonym index_key = "pystr \<times> pystr"

record snapshot =
  sn_catalog :: catalog
  sn_data_pages :: "(pystr, int list) dict"
  sn_indexes :: "(index_key, index) dict"

text \<open>
  \<open>x_wrappers\<close> is \<open>Executor._index_pagers\<close>: for each registered wrapper its set
  \<open>_allocated\<close>, as a list. A wrapper stays in it when no tree uses it any more.
\<close>

record exec =
  x_pager :: pager
  x_catalog :: catalog
  x_indexes :: "(index_key, index) dict"
  x_wrappers :: "int list list"
  x_data_pages :: "(pystr, int list) dict"
  x_txn :: "txn option"
  x_next_txn :: int
  x_buffer :: "(int, byte list) dict"
  x_snapshot :: "snapshot option"

definition new_executor :: "pager \<Rightarrow> catalog \<Rightarrow> exec" where
  "new_executor p cat =
     \<lparr>x_pager = p, x_catalog = cat, x_indexes = [], x_wrappers = [], x_data_pages = [], x_txn = None, x_next_txn = 1,
      x_buffer = [], x_snapshot = None\<rparr>"

definition index_pages :: "exec \<Rightarrow> int list" where
  "index_pages s = concat (x_wrappers s)"

section \<open>Pages through the transaction\<close>

definition on_exec_pager :: "(pager, 'a) cmd \<Rightarrow> (exec, 'a) cmd" where
  "on_exec_pager c = (\<lambda>s. let (r, p) = c (x_pager s) in (r, s\<lparr>x_pager := p\<rparr>))"

text \<open>A method of \<open>self._current_txn\<close>; on \<open>None\<close> there is no such attribute.\<close>

definition on_txn :: "(txn \<times> pager, 'a) cmd \<Rightarrow> (exec, 'a) cmd" where
  "on_txn c = (\<lambda>s. case x_txn s of
       None \<Rightarrow> (Inl AttributeErr, s)
     | Some t \<Rightarrow> (case c (t, x_pager s) of (r, (t', p')) \<Rightarrow> (r, s\<lparr>x_txn := Some t', x_pager := p'\<rparr>)))"

definition exec_write_page :: "int \<Rightarrow> byte list \<Rightarrow> (exec, unit) cmd" where
  "exec_write_page pid d =
     bindS (getS x_txn) (\<lambda>t.
     if t \<noteq> None then
       bindS (on_txn (txn_write_page pid d)) (\<lambda>_.
       modifyS (\<lambda>s. s\<lparr>x_buffer := AList.update pid d (x_buffer s)\<rparr>))
     else on_exec_pager (write_page pid d))"

definition exec_read_page :: "int \<Rightarrow> exec \<Rightarrow> byte list res" where
  "exec_read_page pid s =
     (case map_of (x_buffer s) pid of Some d \<Rightarrow> Inr d | None \<Rightarrow> read_page pid (x_pager s))"

definition read_pageS :: "int \<Rightarrow> (exec, byte list) cmd" where
  "read_pageS pid = (\<lambda>s. (exec_read_page pid s, s))"

definition exec_free_page :: "int \<Rightarrow> (exec, unit) cmd" where
  "exec_free_page pid =
     bindS (getS x_txn) (\<lambda>t.
     if t = None then on_exec_pager (free_page pid)
     else
       bindS (read_pageS 0) (\<lambda>page0.
       bindS (read_pageS pid) (\<lambda>freed.
       bindS (liftE (to_bytes_be 4 (be_int (slice page0 9 13)))) (\<lambda>old_head.
       bindS (liftE (to_bytes_be 4 pid)) (\<lambda>new_head.
       bindS (exec_write_page 0 (set_slice page0 9 13 new_head)) (\<lambda>_.
       exec_write_page pid (set_slice freed 0 4 old_head)))))))"

section \<open>Index pagers and the index manager\<close>

definition set_index :: "index_key \<Rightarrow> index \<Rightarrow> (exec, unit) cmd" where
  "set_index k ix = modifyS (\<lambda>s. s\<lparr>x_indexes := AList.update k ix (x_indexes s)\<rparr>)"

definition get_btree :: "index_key \<Rightarrow> exec \<Rightarrow> index option" where
  "get_btree k s = map_of (x_indexes s) k"

text \<open>
  A change of the set \<open>_allocated\<close> of the wrapper of one tree, then \<open>IndexPager.alloc_page\<close> and
  \<open>free_page\<close>. The pages of a tree are read and written through the transaction. A tree
  on the bare pager is there only between \<open>rebuild_for_table\<close> and
  \<open>_install_index_pagers\<close>, where no operation of a tree runs.
\<close>

definition on_wrapper :: "index_key \<Rightarrow> (int list \<Rightarrow> int list) \<Rightarrow> exec \<Rightarrow> exec" where
  "on_wrapper k f s =
     (case Option.bind (get_btree k s) ix_pager of
        None \<Rightarrow> s
      | Some w \<Rightarrow> s\<lparr>x_wrappers := (x_wrappers s)[w := f (x_wrappers s ! w)]\<rparr>)"

definition index_alloc :: "index_key \<Rightarrow> (exec, int) cmd" where
  "index_alloc k =
     bindS (on_exec_pager alloc_page) (\<lambda>pid.
     bindS (modifyS (on_wrapper k (List.insert pid))) (\<lambda>_.
     returnS pid))"

definition index_free :: "index_key \<Rightarrow> int \<Rightarrow> (exec, unit) cmd" where
  "index_free k pid = bindS (exec_free_page pid) (\<lambda>_. modifyS (on_wrapper k (removeAll pid)))"

definition index_io :: "index_key \<Rightarrow> exec page_io" where
  "index_io k = \<lparr>io_read = exec_read_page, io_write = exec_write_page, io_alloc = index_alloc k\<rparr>"

text \<open>
  An operation of the B+ tree on its root. A path from the root visits a page once, so
  the number of pages is enough fuel for a descent.
\<close>

definition tree_fuel :: "exec \<Rightarrow> nat" where
  "tree_fuel s = nat (next_page_id (x_pager s)) + 2"

definition on_tree :: "index_key \<Rightarrow> (nat \<Rightarrow> (exec \<times> int option, 'a) cmd) \<Rightarrow> (exec, 'a) cmd" where
  "on_tree k c = (\<lambda>s. case get_btree k s of
       None \<Rightarrow> (Inl KeyError, s)
     | Some ix \<Rightarrow>
         (case c (tree_fuel s) (s, ix_root ix) of (r, (s', root)) \<Rightarrow>
            (r, case get_btree k s' of
                  None \<Rightarrow> s'
                | Some ix' \<Rightarrow> s'\<lparr>x_indexes := AList.update k (ix'\<lparr>ix_root := root\<rparr>) (x_indexes s')\<rparr>)))"

definition indexed_columns :: "table_info \<Rightarrow> column list" where
  "indexed_columns ti = filter (\<lambda>c. c_pk c \<or> c_unique c) (ti_columns ti)"

definition key_for :: "column \<Rightarrow> pyval \<Rightarrow> byte list res" where
  "key_for col v = bindE (codec_for (c_type col) (c_params col)) (\<lambda>c. encode_py c v)"

definition index_insert :: "index_key \<Rightarrow> byte list \<Rightarrow> int \<times> int \<Rightarrow> (exec, unit) cmd" where
  "index_insert k key ref = on_tree k (\<lambda>fuel. bt_insert (index_io k) fuel key ref)"

definition index_delete :: "index_key \<Rightarrow> byte list \<Rightarrow> (exec, unit) cmd" where
  "index_delete k key =
     bindS (getS (get_btree k)) (\<lambda>bt.
     if bt = None then returnS () else on_tree k (\<lambda>fuel. bt_delete (index_io k) fuel key))"

definition lookup_key :: "index_key \<Rightarrow> byte list \<Rightarrow> exec \<Rightarrow> (int \<times> int) option res" where
  "lookup_key k key s =
     (case get_btree k s of
        None \<Rightarrow> Inr None
      | Some ix \<Rightarrow> bt_search (index_io k) (tree_fuel s) key (s, ix_root ix))"

text \<open>\<open>rebuild_for_table(ti)\<close> without rows, the only way the program calls it.\<close>

definition rebuild_for_table :: "table_info \<Rightarrow> (exec, unit) cmd" where
  "rebuild_for_table ti =
     forS (indexed_columns ti) (\<lambda>col.
       set_index (ti_name ti, c_name col) \<lparr>ix_root = None, ix_pager = None\<rparr>)"

text \<open>
  \<open>Database._install_index_pagers\<close>: the test on the class name never holds (the class is
  \<open>IndexPager\<close>), so every tree of the table gets a new registered wrapper, also one that
  has a wrapper already. \<open>new_wrapper\<close> is \<open>_make_index_pager\<close> with the assignment of \<open>bt.pager\<close>.
\<close>

definition new_wrapper :: "index_key \<Rightarrow> index \<Rightarrow> (exec, unit) cmd" where
  "new_wrapper k ix = modifyS (\<lambda>s. s\<lparr>
     x_wrappers := x_wrappers s @ [case ix_root ix of Some r \<Rightarrow> [r] | None \<Rightarrow> []],
     x_indexes := AList.update k (ix\<lparr>ix_pager := Some (length (x_wrappers s))\<rparr>) (x_indexes s)\<rparr>)"

definition install_index_pagers :: "pystr \<Rightarrow> (exec, unit) cmd" where
  "install_index_pagers table =
     bindS (getS x_indexes) (\<lambda>ixs.
     forS ixs (\<lambda>(k, ix). if fst k \<noteq> table then returnS () else new_wrapper k ix))"

text \<open>The wrappers of a forgotten table stay in the executor's list.\<close>

definition forget_table :: "pystr \<Rightarrow> (exec, unit) cmd" where
  "forget_table table = modifyS (\<lambda>s. s\<lparr>x_indexes := filter (\<lambda>(k, ix). fst k \<noteq> table) (x_indexes s)\<rparr>)"

section \<open>Snapshots\<close>

text \<open>
  \<open>BTree.__deepcopy__\<close> copies the root and shares the pager, so a tree of a snapshot is on
  the same wrapper as the live one; what the wrappers have allocated is not copied and
  not set back.
\<close>

definition snapshot_state :: "exec \<Rightarrow> snapshot" where
  "snapshot_state s = \<lparr>sn_catalog = x_catalog s, sn_data_pages = x_data_pages s, sn_indexes = x_indexes s\<rparr>"

definition restore_state :: "snapshot \<Rightarrow> (exec, unit) cmd" where
  "restore_state snap = modifyS (\<lambda>s. s\<lparr>
     x_catalog := sn_catalog snap, x_data_pages := sn_data_pages snap, x_indexes := sn_indexes snap\<rparr>)"

section \<open>BEGIN, COMMIT, ROLLBACK and autocommit\<close>

definition open_txn :: "(exec, unit) cmd" where
  "open_txn = modifyS (\<lambda>s. s\<lparr>x_txn := Some (new_txn (x_next_txn s)), x_next_txn := x_next_txn s + 1,
     x_snapshot := Some (snapshot_state s)\<rparr>)"

definition exec_begin :: "(exec, unit) cmd" where
  "exec_begin = bindS (getS x_txn) (\<lambda>t. if t \<noteq> None then raiseS ExecutionError else open_txn)"

text \<open>The end of a committed transaction, and the reset after a rollback.\<close>

definition close_txn :: "(exec, unit) cmd" where
  "close_txn = modifyS (\<lambda>s. s\<lparr>x_txn := None, x_buffer := [], x_snapshot := None\<rparr>)"

definition reset_txn :: "(exec, unit) cmd" where
  "reset_txn =
     bindS (modifyS (\<lambda>s. s\<lparr>x_txn := None, x_buffer := []\<rparr>)) (\<lambda>_.
     bindS (getS x_snapshot) (\<lambda>snap.
     case snap of
       None \<Rightarrow> returnS ()
     | Some sn \<Rightarrow> bindS (restore_state sn) (\<lambda>_. modifyS (\<lambda>s. s\<lparr>x_snapshot := None\<rparr>))))"

definition exec_commit :: "(exec, unit) cmd" where
  "exec_commit =
     bindS (getS x_txn) (\<lambda>t. if t = None then raiseS ExecutionError
       else bindS (on_txn commit) (\<lambda>_. close_txn))"

definition exec_rollback :: "(exec, unit) cmd" where
  "exec_rollback =
     bindS (getS x_txn) (\<lambda>t. if t = None then raiseS ExecutionError
       else bindS (on_txn rollback) (\<lambda>_. reset_txn))"

text \<open>
  A statement inside the open transaction, or inside one of its own. When it raises,
  the transaction is rolled back, an explicit one too; an exception of the rollback
  itself takes the place of the first.
\<close>

definition exec_in_txn :: "(exec, 'a) cmd \<Rightarrow> (exec, 'a) cmd" where
  "exec_in_txn stmt = (\<lambda>s.
     let auto = (x_txn s = None);
         s0 = (if auto then snd (open_txn s) else s) in
     case stmt s0 of
       (Inl e, s1) \<Rightarrow>
         (case on_txn rollback s1 of (r, s2) \<Rightarrow>
            (Inl (case r of Inl e' \<Rightarrow> e' | Inr _ \<Rightarrow> e), snd (reset_txn s2)))
     | (Inr v, s1) \<Rightarrow>
         if auto then bindS (on_txn commit) (\<lambda>_. bindS close_txn (\<lambda>_. returnS v)) s1 else (Inr v, s1))"

end
