(* ===== verification/Tokenizer.thy ===== *)
theory Tokenizer
  imports Py_Text Type_System
begin

text \<open>
  \<open>src/tinydb/tokenizer.py\<close>: the lexer. A token carries its kind, its Python value
  and the position of its first character; \<open>tokenize\<close> walks over the code points
  of the statement with the line and column of the next one. Lemmas: the result
  ends in the only EOF token, positions increase, and a quoted text is opaque.
\<close>

datatype tok_type = T_KEYWORD | T_IDENT | T_INT | T_FLOAT | T_TEXT | T_BOOL | T_PUNCT | T_EOF

record token =
  t_type :: tok_type
  t_val :: pyval
  t_line :: nat
  t_col :: nat

definition token :: "tok_type \<Rightarrow> pyval \<Rightarrow> nat \<Rightarrow> nat \<Rightarrow> token" where
  "token ty v l c = \<lparr>t_type = ty, t_val = v, t_line = l, t_col = c\<rparr>"

definition KEYWORDS :: "pystr list" where
  "KEYWORDS = map ustr
     [''CREATE'', ''TABLE'', ''DROP'', ''INSERT'', ''INTO'', ''VALUES'', ''SELECT'',
      ''FROM'', ''WHERE'', ''DELETE'', ''INT'', ''TEXT'', ''FLOAT'', ''BOOL'',
      ''NOT'', ''NULL'', ''PRIMARY'', ''KEY'', ''UNIQUE'', ''UPDATE'', ''SET'', ''AND'', ''OR'',
      ''ORDER'', ''BY'', ''ASC'', ''DESC'', ''LIMIT'', ''OFFSET'', ''DATE'', ''TIME'', ''TIMESTAMP'',
      ''DECIMAL'', ''BEGIN'', ''COMMIT'', ''ROLLBACK'', ''COUNT'', ''SUM'', ''AVG'', ''MIN'', ''MAX'',
      ''GROUP'', ''HAVING'', ''JOIN'', ''INNER'', ''LEFT'', ''RIGHT'', ''FULL'', ''OUTER'', ''CROSS'',
      ''ON'', ''USING'', ''NATURAL'', ''AS'']"

definition is_ident_start :: "uni \<Rightarrow> nat \<Rightarrow> bool" where
  "is_ident_start u c \<longleftrightarrow> py_isalpha u c \<or> c = 95"

definition is_ident_cont :: "uni \<Rightarrow> nat \<Rightarrow> bool" where
  "is_ident_cont u c \<longleftrightarrow> py_isalnum u c \<or> c = 95"

text \<open>Position of the next character after \<open>c\<close>; 10 is the line feed.\<close>

definition advance_pos :: "nat \<times> nat \<Rightarrow> nat \<Rightarrow> nat \<times> nat" where
  "advance_pos p c = (if c = 10 then (fst p + 1, 1) else (fst p, snd p + 1))"

definition advance_over :: "nat \<times> nat \<Rightarrow> pystr \<Rightarrow> nat \<times> nat" where
  "advance_over p s = foldl advance_pos p s"

definition is_blank :: "nat \<Rightarrow> bool" where
  "is_blank c \<longleftrightarrow> c = 32 \<or> c = 9 \<or> c = 13 \<or> c = 10"

definition punct_chars :: pystr where
  "punct_chars = ustr ''(),;=*<>!.''"

definition parse_float_literal :: "uni \<Rightarrow> pystr \<Rightarrow> 64 word res" where
  "parse_float_literal u s =
     bindE (py_float u s) (\<lambda>v. if f_finite v then Inr v else Inl ValueError)"

text \<open>\<open>except ValueError as e: raise TokenError(line, col, ...)\<close>\<close>

definition as_token_error :: "nat \<times> nat \<Rightarrow> 'a res \<Rightarrow> 'a res" where
  "as_token_error p r =
     (case r of Inl e \<Rightarrow> if is_value_error e then Inl (TokenError (fst p) (snd p)) else Inl e | Inr a \<Rightarrow> Inr a)"

definition word_token :: "uni \<Rightarrow> nat \<times> nat \<Rightarrow> pystr \<Rightarrow> token res" where
  "word_token u p text =
     (let up = py_upper u text in
      if up \<in> {ustr ''NAN'', ustr ''INF'', ustr ''INFINITY''} then
        as_token_error p (bindE (parse_float_literal u text) (\<lambda>v. Inr (token T_FLOAT (PFloat v) (fst p) (snd p))))
      else if up = ustr ''TRUE'' then Inr (token T_BOOL (PBool True) (fst p) (snd p))
      else if up = ustr ''FALSE'' then Inr (token T_BOOL (PBool False) (fst p) (snd p))
      else if up \<in> set KEYWORDS then Inr (token T_KEYWORD (PStr up) (fst p) (snd p))
      else Inr (token T_IDENT (PStr text) (fst p) (snd p)))"

definition number_token :: "uni \<Rightarrow> nat \<times> nat \<Rightarrow> pystr \<Rightarrow> token res" where
  "number_token u p text =
     as_token_error p
       (if 46 \<in> set text
        then bindE (parse_float_literal u text) (\<lambda>v. Inr (token T_FLOAT (PFloat v) (fst p) (snd p)))
        else bindE (py_int u text) (\<lambda>v. Inr (token T_INT (PInt v) (fst p) (snd p))))"

text \<open>The body of a quoted literal, doubled quotes kept, and what follows the closing quote.\<close>

fun scan_quoted :: "pystr \<Rightarrow> (pystr \<times> pystr) option" where
  "scan_quoted [] = None"
| "scan_quoted (c # cs) =
     (if c = 39 then
        (case cs of
           d # ds \<Rightarrow>
             if d = 39 then map_option (\<lambda>(b, r). (39 # 39 # b, r)) (scan_quoted ds) else Some ([], cs)
         | [] \<Rightarrow> Some ([], []))
      else map_option (\<lambda>(b, r). (c # b, r)) (scan_quoted cs))"

definition is_number_start :: "uni \<Rightarrow> nat \<Rightarrow> pystr \<Rightarrow> bool" where
  "is_number_start u c rest \<longleftrightarrow> py_isdigit u c \<or> c = 45 \<and> rest \<noteq> [] \<and> py_isdigit u (hd rest)"

definition is_number_cont :: "uni \<Rightarrow> nat \<Rightarrow> bool" where
  "is_number_cont u c \<longleftrightarrow> py_isdigit u c \<or> c = 46"

lemma scan_quoted_shorter: "scan_quoted s = Some (b, r) \<Longrightarrow> length r < length s"
  by (induction s arbitrary: b r rule: scan_quoted.induct) (fastforce split: if_splits list.splits)+

text \<open>The next token (none for white space) and the characters it spans.\<close>

definition next_token :: "uni \<Rightarrow> nat \<times> nat \<Rightarrow> nat \<Rightarrow> pystr \<Rightarrow> (token option \<times> pystr \<times> pystr) res" where
  "next_token u p c rest =
     (if is_blank c then Inr (None, [c], rest)
      else if is_ident_start u c then
        let text = c # takeWhile (is_ident_cont u) rest in
        bindE (word_token u p text) (\<lambda>t. Inr (Some t, text, dropWhile (is_ident_cont u) rest))
      else if is_number_start u c rest then
        let text = c # takeWhile (is_number_cont u) rest in
        bindE (number_token u p text) (\<lambda>t. Inr (Some t, text, dropWhile (is_number_cont u) rest))
      else if c = 39 then
        (case scan_quoted rest of
           None \<Rightarrow> Inl (TokenError (fst p) (snd p))
         | Some (body, rest') \<Rightarrow>
             let raw = 39 # body @ [39] in
             bindE (parse_text_literal raw) (\<lambda>v.
             Inr (Some (token T_TEXT (PStr v) (fst p) (snd p)), raw, rest')))
      else if c \<in> set punct_chars then Inr (Some (token T_PUNCT (PStr [c]) (fst p) (snd p)), [c], rest)
      else Inl (TokenError (fst p) (snd p)))"

lemma next_token_shorter: "next_token u p c rest = Inr (t, text, rest') \<Longrightarrow> length rest' \<le> length rest"
  unfolding next_token_def
  by (auto simp: Let_def length_dropWhile_le split: if_splits option.splits
      dest!: scan_quoted_shorter)

function tokenize_from :: "uni \<Rightarrow> nat \<times> nat \<Rightarrow> pystr \<Rightarrow> token list res" where
  "tokenize_from u p [] = Inr [token T_EOF PNone (fst p) (snd p)]"
| "tokenize_from u p (c # rest) =
     (case next_token u p c rest of
        Inl e \<Rightarrow> Inl e
      | Inr (t, text, rest') \<Rightarrow>
          bindE (tokenize_from u (advance_over p text) rest') (\<lambda>ts.
          Inr (case t of None \<Rightarrow> ts | Some t \<Rightarrow> t # ts)))"
  by pat_completeness auto
termination
  by (relation "measure (\<lambda>(u, p, s). length s)") (auto dest: next_token_shorter)

definition tokenize :: "uni \<Rightarrow> pystr \<Rightarrow> token list res" where
  "tokenize u sql = tokenize_from u (1, 1) sql"

section \<open>Positions increase\<close>

definition pos_less :: "nat \<times> nat \<Rightarrow> nat \<times> nat \<Rightarrow> bool" where
  "pos_less p q \<longleftrightarrow> fst p < fst q \<or> fst p = fst q \<and> snd p < snd q"

definition pos_le :: "nat \<times> nat \<Rightarrow> nat \<times> nat \<Rightarrow> bool" where
  "pos_le p q \<longleftrightarrow> p = q \<or> pos_less p q"

definition t_pos :: "token \<Rightarrow> nat \<times> nat" where
  "t_pos t = (t_line t, t_col t)"

lemma pos_le_less_trans: "pos_le p q \<Longrightarrow> pos_less q r \<Longrightarrow> pos_less p r"
  by (auto simp: pos_le_def pos_less_def)

lemma pos_less_le_trans: "pos_less p q \<Longrightarrow> pos_le q r \<Longrightarrow> pos_less p r"
  by (auto simp: pos_le_def pos_less_def)

lemma pos_le_trans: "pos_le p q \<Longrightarrow> pos_le q r \<Longrightarrow> pos_le p r"
  by (auto simp: pos_le_def pos_less_def)

lemma advance_pos_less: "pos_less p (advance_pos p c)"
  by (simp add: pos_less_def advance_pos_def)

lemma advance_over_le: "pos_le p (advance_over p s)"
proof (induction s arbitrary: p)
  case Nil
  then show ?case by (simp add: advance_over_def pos_le_def)
next
  case (Cons c s)
  have "pos_le p (advance_pos p c)" using advance_pos_less by (simp add: pos_le_def)
  then show ?case using Cons [of "advance_pos p c"] pos_le_trans by (simp add: advance_over_def)
qed

lemma advance_over_less: "s \<noteq> [] \<Longrightarrow> pos_less p (advance_over p s)"
  using advance_over_le [of "advance_pos p (hd s)" "tl s"] advance_pos_less [of p "hd s"]
  by (cases s) (auto simp: advance_over_def intro: pos_less_le_trans)

text \<open>A token that is not EOF; punctuation is a single character.\<close>

definition plain_token :: "token \<Rightarrow> bool" where
  "plain_token t \<longleftrightarrow> t_type t \<noteq> T_EOF \<and> (t_type t = T_PUNCT \<longrightarrow> (\<exists>c \<in> set punct_chars. t_val t = PStr [c]))"

lemma as_token_error_Inr [simp]: "as_token_error p r = Inr a \<longleftrightarrow> r = Inr a"
  by (auto simp: as_token_error_def split: sum.splits)

lemma token_sel [simp]:
  "t_type (token ty v l c) = ty" "t_val (token ty v l c) = v" "t_line (token ty v l c) = l"
  "t_col (token ty v l c) = c" "t_pos (token ty v l c) = (l, c)"
  by (simp_all add: token_def t_pos_def)

lemma word_token_plain: "word_token u p s = Inr t \<Longrightarrow> t_pos t = p \<and> plain_token t"
  by (auto simp: word_token_def Let_def plain_token_def split: if_splits)

lemma number_token_plain: "number_token u p s = Inr t \<Longrightarrow> t_pos t = p \<and> plain_token t"
  by (auto simp: number_token_def plain_token_def split: if_splits)

lemma next_token_cases:
  assumes "next_token u p c rest = Inr (t, span, rest')"
  obtains (blank) "t = None" "span = [c]"
    | (word) k tok where "t = Some tok" "span = c # k" "word_token u p (c # k) = Inr tok"
    | (number) k tok where "t = Some tok" "span = c # k" "number_token u p (c # k) = Inr tok"
    | (quoted) v body where "t = Some (token T_TEXT (PStr v) (fst p) (snd p))" "span = 39 # body @ [39]"
    | (punct) "t = Some (token T_PUNCT (PStr [c]) (fst p) (snd p))" "span = [c]" "c \<in> set punct_chars"
proof -
  note n = assms [unfolded next_token_def Let_def]
  consider (b) "is_blank c" | (w) "\<not> is_blank c" "is_ident_start u c"
    | (n) "\<not> is_blank c" "\<not> is_ident_start u c" "is_number_start u c rest"
    | (q) "\<not> is_blank c" "\<not> is_ident_start u c" "\<not> is_number_start u c rest" "c = 39"
    | (p) "\<not> is_blank c" "\<not> is_ident_start u c" "\<not> is_number_start u c rest" "c \<noteq> 39" by blast
  then show thesis
  proof cases
    case b
    then show ?thesis using n blank by simp
  next
    case w
    then show ?thesis using n word by auto
  next
    case n
    then show ?thesis using assms number by (auto simp: next_token_def Let_def)
  next
    case q
    then obtain body r where "scan_quoted rest = Some (body, r)" using n by (auto split: option.splits)
    then show ?thesis using q n quoted by auto
  next
    case p
    then have "next_token u p c rest =
        (if c \<in> set punct_chars then Inr (Some (token T_PUNCT (PStr [c]) (fst p) (snd p)), [c], rest)
         else Inl (TokenError (fst p) (snd p)))"
      by (simp add: next_token_def)
    then show ?thesis using assms punct by (cases "c \<in> set punct_chars") simp_all
  qed
qed

lemma next_token_plain:
  assumes "next_token u p c rest = Inr (t, span, rest')"
  shows "span \<noteq> [] \<and> (\<forall>t'. t = Some t' \<longrightarrow> t_pos t' = p \<and> plain_token t')"
  using assms
  by (cases rule: next_token_cases) (auto dest: word_token_plain number_token_plain simp: plain_token_def)

definition tokens_ok :: "token list \<Rightarrow> bool" where
  "tokens_ok ts \<longleftrightarrow>
     ts \<noteq> [] \<and> t_type (last ts) = T_EOF \<and> list_all plain_token (butlast ts) \<and>
     sorted_wrt (\<lambda>a b. pos_less (t_pos a) (t_pos b)) ts"

lemma tokenize_from_ok:
  "tokenize_from u p s = Inr ts \<Longrightarrow> tokens_ok ts \<and> (\<forall>t \<in> set ts. pos_le p (t_pos t))"
proof (induction u p s arbitrary: ts rule: tokenize_from.induct)
  case (1 u p)
  then show ?case by (auto simp: tokens_ok_def token_def t_pos_def pos_le_def)
next
  case (2 u p c rest)
  obtain t span rest' where n: "next_token u p c rest = Inr (t, span, rest')"
    using "2.prems" by (auto split: sum.splits)
  obtain ts' where ts': "tokenize_from u (advance_over p span) rest' = Inr ts'"
      "ts = (case t of None \<Rightarrow> ts' | Some t \<Rightarrow> t # ts')"
    using "2.prems" n by auto
  have IH: "tokens_ok ts'" "\<And>x. x \<in> set ts' \<Longrightarrow> pos_le (advance_over p span) (t_pos x)"
    using "2.IH" [OF n refl refl ts'(1)] by auto
  note pl = next_token_plain [OF n]
  have lt: "pos_less p (t_pos x)" if "x \<in> set ts'" for x
    using advance_over_less [of span p] pl IH(2) [OF that] by (auto intro: pos_less_le_trans)
  show ?case
  proof (cases t)
    case None
    then show ?thesis using ts'(2) IH(1) lt by (auto simp: pos_le_def)
  next
    case (Some t')
    then show ?thesis using ts'(2) IH(1) lt pl by (auto simp: tokens_ok_def pos_le_def)
  qed
qed

section \<open>Quoting\<close>

fun escape :: "pystr \<Rightarrow> pystr" where
  "escape [] = []"
| "escape (c # s) = (if c = 39 then 39 # 39 # escape s else c # escape s)"

definition quote :: "pystr \<Rightarrow> pystr" where
  "quote s = 39 # escape s @ [39]"

lemma scan_escape:
  "rest = [] \<or> hd rest \<noteq> 39 \<Longrightarrow> scan_quoted (escape s @ 39 # rest) = Some (escape s, rest)"
  by (induction s) (auto split: list.splits)

lemma unquote_escape: "unquote (escape s) = s"
proof (induction s)
  case Nil
  then show ?case by simp
next
  case (Cons c s)
  show ?case
  proof (cases "c = 39")
    case True
    then show ?thesis using Cons by simp
  next
    case False
    then have "unquote (c # escape s) = c # unquote (escape s)" by (cases "escape s") simp_all
    then show ?thesis using Cons False by simp
  qed
qed

lemma parse_quote: "parse_text_literal (quote s) = Inr s"
  by (simp add: parse_text_literal_def quote_def unquote_escape)

lemma quote_token:
  assumes "rest = [] \<or> hd rest \<noteq> 39"
  shows "tokenize_from u p (quote s @ rest) =
    bindE (tokenize_from u (advance_over p (quote s)) rest) (\<lambda>ts.
      Inr (token T_TEXT (PStr s) (fst p) (snd p) # ts))"
proof -
  have "next_token u p 39 (escape s @ 39 # rest) =
      Inr (Some (token T_TEXT (PStr s) (fst p) (snd p)), quote s, rest)"
    using scan_escape [OF assms, of s] parse_quote [of s]
    by (simp add: next_token_def is_blank_def is_ident_start_def is_number_start_def py_isalpha_def
        py_isdigit_def ascii_digit_def quote_def)
  then show ?thesis by (simp add: quote_def)
qed

section \<open>Properties\<close>

text \<open>
  Whatever the statement, the tokens it is cut into end in the only EOF token, each punctuation
  token is one of the ten characters, and the tokens stand at strictly increasing positions.
\<close>

theorem tokenize_shape:
  assumes "tokenize u sql = Inr ts"
  shows "\<exists>front e. ts = front @ [e] \<and> t_type e = T_EOF \<and>
    (\<forall>t \<in> set front. t_type t \<noteq> T_EOF \<and> (t_type t = T_PUNCT \<longrightarrow> (\<exists>c \<in> set punct_chars. t_val t = PStr [c]))) \<and>
    sorted_wrt (\<lambda>a b. t_line a < t_line b \<or> t_line a = t_line b \<and> t_col a < t_col b) ts"
proof -
  have ok: "tokens_ok ts" using tokenize_from_ok [of u "(1, 1)" sql ts] assms by (simp add: tokenize_def)
  then have "ts = butlast ts @ [last ts]" by (simp add: tokens_ok_def)
  then show ?thesis using ok
    by (intro exI [of _ "butlast ts"] exI [of _ "last ts"])
      (auto simp: tokens_ok_def plain_token_def list_all_iff pos_less_def t_pos_def)
qed

lemma tokenize_shape_witness:
  "\<exists>ts. tokenize latin1 (ustr ''a = -1'') = Inr ts \<and> (\<exists>front e. ts = front @ [e] \<and> t_type e = T_EOF)"
proof -
  have "tokenize latin1 (ustr ''a = -1'') =
      Inr [token T_IDENT (PStr [97]) 1 1, token T_PUNCT (PStr [61]) 1 3, token T_INT (PInt (- 1)) 1 5,
           token T_EOF PNone 1 7]" by code_simp
  from this tokenize_shape [OF this] show ?thesis by blast
qed

text \<open>
  A quoted text is opaque: whatever characters it holds, quotes and line feeds included, writing
  it between quotes with every quote doubled gives exactly one TEXT token of that value, and the
  rest of the statement is read from the position after it.
\<close>

theorem quoted_text_opaque:
  assumes "rest = [] \<or> hd rest \<noteq> 39"
  shows "tokenize_from u p (39 # concat (map (\<lambda>c. if c = 39 then [39, 39] else [c]) s) @ [39] @ rest) =
    bindE (tokenize_from u (advance_over p (quote s)) rest) (\<lambda>ts.
      Inr (token T_TEXT (PStr s) (fst p) (snd p) # ts))"
proof -
  have "escape s = concat (map (\<lambda>c. if c = 39 then [39, 39] else [c]) s)" by (induction s) simp_all
  then show ?thesis using quote_token [OF assms, of u p s] by (simp add: quote_def)
qed

lemma quoted_text_opaque_witness:
  "tokenize_from latin1 (1, 1) [39, 97, 39, 39, 59, 39] =
     Inr [token T_TEXT (PStr [97, 39, 59]) 1 1, token T_EOF PNone 1 7]"
  using quoted_text_opaque [of "[]" latin1 "(1, 1)" "[97, 39, 59]"]
  by (simp add: quote_def advance_over_def advance_pos_def)

end
