(* ===== verification/Parser.thy ===== *)
theory Parser
  imports Tokenizer
begin

text \<open>
  \<open>src/tinydb/parser.py\<close>: the recursive descent parser. The AST classes are
  records and datatypes with the source's fields; a method of \<open>_Parser\<close> is a
  command on the tokens not yet consumed, so \<open>self.i\<close> is the state and reading
  past the last token is the \<open>IndexError\<close> it is in Python. Loops and the
  recursion through parentheses carry fuel computed from the number of tokens
  left; \<open>parse_total\<close> shows that it never runs out. Lemmas: printing an
  expression or a statement and parsing it gives it back.
\<close>

section \<open>Syntax trees\<close>

record column_def =
  cd_name :: pystr
  cd_type :: string
  cd_params :: "int list"
  cd_nullable :: bool
  cd_unique :: bool
  cd_pk :: bool

record create_table =
  ct_name :: pystr
  ct_columns :: "column_def list"
  ct_line :: nat
  ct_col :: nat

record insert_stmt =
  i_table :: pystr
  i_columns :: "pystr list"
  i_values :: "pyval list list"
  i_line :: nat
  i_col :: nat

record table_ref =
  tr_name :: pystr
  tr_alias :: "pystr option"
  tr_line :: nat
  tr_col :: nat

record column_ref =
  cr_qualifier :: "pystr option"
  cr_name :: pystr
  cr_line :: nat
  cr_col :: nat

record join_pred =
  jp_left :: column_ref
  jp_op :: pystr
  jp_right :: column_ref
  jp_line :: nat
  jp_col :: nat

datatype join_kind = J_INNER | J_LEFT | J_RIGHT | J_FULL | J_CROSS

record join_clause =
  jc_kind :: join_kind
  jc_right :: table_ref
  jc_on :: "join_pred option"
  jc_using :: "pystr list"
  jc_natural :: bool
  jc_line :: nat
  jc_col :: nat

datatype expr =
    EqualsExpr pystr pyval "pystr option"
  | AndExpr expr expr
  | OrExpr expr expr
  | NotExpr expr

record order_item =
  ob_column :: pystr
  ob_desc :: bool
  ob_qualifier :: "pystr option"

datatype agg_arg = A_star | A_col pystr | A_qcol pystr pystr

record agg_call =
  ag_func :: pystr
  ag_arg :: agg_arg
  ag_alias :: "pystr option"
  ag_line :: nat
  ag_col :: nat

datatype select_item =
    I_star
  | I_column pystr "pystr option" "pystr option"
  | I_aggregate agg_call "pystr option"

datatype having_left = H_agg agg_call | H_col pystr

type_synonym having = "having_left \<times> pystr \<times> pyval"

record select_stmt =
  s_table :: pystr
  s_columns :: "pystr list"
  s_where :: "expr option"
  s_order_by :: "order_item list"
  s_limit :: "int option"
  s_offset :: "int option"
  s_items :: "select_item list"
  s_group_by :: "pystr list"
  s_having :: "having option"
  s_agg_aliases :: "pystr list"
  s_from :: table_ref
  s_joins :: "join_clause list"
  s_line :: nat
  s_col :: nat

record update_stmt =
  u_table :: pystr
  u_sets :: "(pystr \<times> expr) list"
  u_where :: "expr option"
  u_line :: nat
  u_col :: nat

datatype stmt =
    S_Begin nat nat
  | S_Commit nat nat
  | S_Rollback nat nat
  | S_Create create_table
  | S_Drop pystr nat nat
  | S_Insert insert_stmt
  | S_Select select_stmt
  | S_Delete pystr "expr option" nat nat
  | S_Update update_stmt

section \<open>The cursor\<close>

type_synonym 'a parser = "(token list, 'a) cmd"

definition peek :: "token parser" where
  "peek = (\<lambda>ts. case ts of [] \<Rightarrow> (Inl IndexError, []) | t # r \<Rightarrow> (Inr t, ts))"

definition advance :: "token parser" where
  "advance = (\<lambda>ts. case ts of [] \<Rightarrow> (Inl IndexError, []) | t # r \<Rightarrow> (Inr t, r))"

definition at_end :: "bool parser" where
  "at_end = bindS peek (\<lambda>t. returnS (t_type t = T_EOF))"

definition error_at :: "token \<Rightarrow> 'a parser" where
  "error_at t = raiseS (ParseError (t_line t) (t_col t))"

definition is_tok :: "tok_type \<Rightarrow> string \<Rightarrow> token \<Rightarrow> bool" where
  "is_tok ty s t \<longleftrightarrow> t_type t = ty \<and> t_val t = PStr (ustr s)"

definition is_one_of :: "tok_type \<Rightarrow> string list \<Rightarrow> token \<Rightarrow> bool" where
  "is_one_of ty ss t \<longleftrightarrow> list_ex (\<lambda>s. is_tok ty s t) ss"

definition expect :: "tok_type \<Rightarrow> string \<Rightarrow> token parser" where
  "expect ty s = bindS peek (\<lambda>t. if is_tok ty s t then advance else error_at t)"

definition expect_keyword :: "string \<Rightarrow> token parser" where
  "expect_keyword s = bindS peek (\<lambda>t. if is_tok T_KEYWORD s t then advance else error_at t)"

definition peek_kw :: "string \<Rightarrow> bool parser" where
  "peek_kw s = bindS peek (\<lambda>t. returnS (is_tok T_KEYWORD s t))"

definition peek_punct :: "string \<Rightarrow> bool parser" where
  "peek_punct s = bindS peek (\<lambda>t. returnS (is_tok T_PUNCT s t))"

text \<open>The \<open>str\<close> value of an identifier, keyword, punctuation or text token.\<close>

definition tok_str :: "token \<Rightarrow> pystr" where
  "tok_str t = (case t_val t of PStr s \<Rightarrow> s | _ \<Rightarrow> [])"

text \<open>\<open>if t.type != "IDENT": raise ParseError\<close>, then its value; the token comes with it.\<close>

definition ident :: "token parser" where
  "ident = bindS peek (\<lambda>t. if t_type t \<noteq> T_IDENT then error_at t else advance)"

definition ident_str :: "pystr parser" where
  "ident_str = bindS ident (\<lambda>t. returnS (tok_str t))"

text \<open>
  \<open>while True: body; if self._peek_punct(","): self.advance(); continue; break\<close>, with the
  loop's variables as an accumulator. Every further round consumes a comma, so
  the number of tokens left is enough fuel.
\<close>

fun comma_loop :: "nat \<Rightarrow> ('s \<Rightarrow> 's parser) \<Rightarrow> 's \<Rightarrow> 's parser" where
  "comma_loop 0 body s = raiseS FuelOut"
| "comma_loop (Suc n) body s =
     bindS (body s) (\<lambda>s'.
     bindS (peek_punct '','') (\<lambda>c.
     if c then bindS advance (\<lambda>_. comma_loop n body s') else returnS s'))"

definition comma_list :: "('s \<Rightarrow> 's parser) \<Rightarrow> 's \<Rightarrow> 's parser" where
  "comma_list body s = (\<lambda>ts. comma_loop (Suc (length ts)) body s ts)"

text \<open>\<open>while condition: body\<close> where every round consumes a token.\<close>

fun while_loop :: "nat \<Rightarrow> bool parser \<Rightarrow> ('s \<Rightarrow> 's parser) \<Rightarrow> 's \<Rightarrow> 's parser" where
  "while_loop 0 cond body s = raiseS FuelOut"
| "while_loop (Suc n) cond body s =
     bindS cond (\<lambda>b. if b then bindS (body s) (\<lambda>s'. while_loop n cond body s') else returnS s)"

definition while_tokens :: "bool parser \<Rightarrow> ('s \<Rightarrow> 's parser) \<Rightarrow> 's \<Rightarrow> 's parser" where
  "while_tokens cond body s = (\<lambda>ts. while_loop (Suc (length ts)) cond body s ts)"

definition snoc_of :: "'a parser \<Rightarrow> 'a list \<Rightarrow> 'a list parser" where
  "snoc_of p xs = bindS p (\<lambda>x. returnS (xs @ [x]))"

section \<open>Literals\<close>

definition literal_types :: "tok_type list" where
  "literal_types = [T_INT, T_FLOAT, T_TEXT, T_BOOL]"

definition datetime_keywords :: "string list" where
  "datetime_keywords = [''DATE'', ''TIME'', ''TIMESTAMP'']"

definition parse_datetime_literal :: "uni \<Rightarrow> pyval parser" where
  "parse_datetime_literal u =
     bindS peek (\<lambda>t0.
     bindS (if t_type t0 = T_KEYWORD then advance else error_at t0) (\<lambda>kw.
     bindS advance (\<lambda>t.
     if t_type t \<noteq> T_TEXT then error_at t
     else
       let s = tok_str t;
           r = (if is_tok T_KEYWORD ''DATE'' kw then iso_date u s
                else if is_tok T_KEYWORD ''TIME'' kw then iso_time u s
                else if is_tok T_KEYWORD ''TIMESTAMP'' kw then iso_datetime u s
                else None) in
       case r of Some v \<Rightarrow> returnS v | None \<Rightarrow> error_at kw)))"

definition parse_decimal_literal :: "uni \<Rightarrow> pyval parser" where
  "parse_decimal_literal u =
     bindS (expect_keyword ''DECIMAL'') (\<lambda>kw.
     bindS advance (\<lambda>t.
     if t_type t \<noteq> T_TEXT then error_at t
     else case py_float u (tok_str t) of
       Inr f \<Rightarrow> returnS (PFloat f)
     | Inl e \<Rightarrow> if is_value_error e then error_at kw else raiseS e))"

definition parse_literal_value :: "uni \<Rightarrow> pyval parser" where
  "parse_literal_value u =
     bindS peek (\<lambda>t.
     if is_one_of T_KEYWORD datetime_keywords t then parse_datetime_literal u
     else if is_tok T_KEYWORD ''DECIMAL'' t then parse_decimal_literal u
     else bindS advance (\<lambda>lit.
       if t_type lit \<notin> set literal_types then error_at lit else returnS (t_val lit)))"

section \<open>Column references and WHERE\<close>

definition parse_qualified_column_ref :: "column_ref parser" where
  "parse_qualified_column_ref =
     bindS ident (\<lambda>t.
     bindS (peek_punct ''.'') (\<lambda>dot.
     if dot then
       bindS advance (\<lambda>_.
       bindS ident (\<lambda>cn.
       returnS \<lparr>cr_qualifier = Some (tok_str t), cr_name = tok_str cn, cr_line = t_line t, cr_col = t_col t\<rparr>))
     else returnS \<lparr>cr_qualifier = None, cr_name = tok_str t, cr_line = t_line t, cr_col = t_col t\<rparr>))"

definition parse_comparison :: "uni \<Rightarrow> expr parser" where
  "parse_comparison u =
     bindS parse_qualified_column_ref (\<lambda>c.
     bindS advance (\<lambda>op.
     if \<not> is_tok T_PUNCT ''='' op then error_at op
     else bindS (parse_literal_value u) (\<lambda>v. returnS (EqualsExpr (cr_name c) v (cr_qualifier c)))))"

fun parse_or :: "nat \<Rightarrow> uni \<Rightarrow> expr parser"
and or_rest :: "nat \<Rightarrow> uni \<Rightarrow> expr \<Rightarrow> expr parser"
and parse_and :: "nat \<Rightarrow> uni \<Rightarrow> expr parser"
and and_rest :: "nat \<Rightarrow> uni \<Rightarrow> expr \<Rightarrow> expr parser"
and parse_not :: "nat \<Rightarrow> uni \<Rightarrow> expr parser"
and parse_primary :: "nat \<Rightarrow> uni \<Rightarrow> expr parser" where
  "parse_or 0 u = raiseS FuelOut"
| "parse_or (Suc n) u = bindS (parse_and n u) (\<lambda>left. or_rest n u left)"
| "or_rest 0 u left = raiseS FuelOut"
| "or_rest (Suc n) u left =
     bindS (peek_kw ''OR'') (\<lambda>b.
     if b then
       bindS advance (\<lambda>_.
       bindS (parse_and n u) (\<lambda>right. or_rest n u (OrExpr left right)))
     else returnS left)"
| "parse_and 0 u = raiseS FuelOut"
| "parse_and (Suc n) u = bindS (parse_not n u) (\<lambda>left. and_rest n u left)"
| "and_rest 0 u left = raiseS FuelOut"
| "and_rest (Suc n) u left =
     bindS (peek_kw ''AND'') (\<lambda>b.
     if b then
       bindS advance (\<lambda>_.
       bindS (parse_not n u) (\<lambda>right. and_rest n u (AndExpr left right)))
     else returnS left)"
| "parse_not 0 u = raiseS FuelOut"
| "parse_not (Suc n) u =
     bindS (peek_kw ''NOT'') (\<lambda>b.
     if b then bindS advance (\<lambda>_. bindS (parse_not n u) (\<lambda>e. returnS (NotExpr e)))
     else parse_primary n u)"
| "parse_primary 0 u = raiseS FuelOut"
| "parse_primary (Suc n) u =
     bindS (peek_punct ''('') (\<lambda>b.
     if b then
       bindS advance (\<lambda>_.
       bindS (parse_or n u) (\<lambda>inner.
       bindS (expect T_PUNCT '')'') (\<lambda>_. returnS inner)))
     else parse_comparison u)"

definition expr_fuel :: "token list \<Rightarrow> nat" where
  "expr_fuel ts = 4 * length ts + 4"

definition parse_expr :: "uni \<Rightarrow> expr parser" where
  "parse_expr u = (\<lambda>ts. parse_or (expr_fuel ts) u ts)"

definition agg_funcs :: "string list" where
  "agg_funcs = [''COUNT'', ''SUM'', ''AVG'', ''MIN'', ''MAX'']"

definition parse_where :: "uni \<Rightarrow> expr option parser" where
  "parse_where u =
     bindS (peek_kw ''WHERE'') (\<lambda>b.
     if \<not> b then returnS None
     else
       bindS advance (\<lambda>_.
       bindS peek (\<lambda>t.
       if is_one_of T_KEYWORD agg_funcs t then error_at t
       else bindS (parse_expr u) (\<lambda>e. returnS (Some e)))))"

section \<open>CREATE TABLE and DROP TABLE\<close>

definition supported_types :: "string list" where
  "supported_types =
     [''INT'', ''TEXT'', ''FLOAT'', ''BOOL'', ''SMALLINT'', ''BIGINT'', ''DOUBLE'', ''REAL'', ''VARCHAR'', ''CHAR'',
      ''DECIMAL'', ''DATE'', ''TIME'', ''TIMESTAMP'', ''INTEGER'', ''BOOLEAN'']"

definition parametric_arity :: "string \<Rightarrow> nat option" where
  "parametric_arity = map_of [(''VARCHAR'', 1), (''CHAR'', 1), (''DECIMAL'', 2)]"

definition tok_int :: "token \<Rightarrow> int" where
  "tok_int t = (case t_val t of PInt i \<Rightarrow> i | _ \<Rightarrow> 0)"

definition int_param :: "int parser" where
  "int_param = bindS peek (\<lambda>t. if t_type t \<noteq> T_INT then error_at t else bindS advance (\<lambda>t. returnS (tok_int t)))"

definition check_type_params :: "string \<Rightarrow> token \<Rightarrow> int list \<Rightarrow> int list parser" where
  "check_type_params ty name_tok params =
     (case parametric_arity ty of
        None \<Rightarrow> error_at name_tok
      | Some arity \<Rightarrow>
          if length params \<noteq> arity then error_at name_tok
          else case codec_for ty params of
            Inr c \<Rightarrow> returnS params
          | Inl e \<Rightarrow> if is_value_error e then error_at name_tok else raiseS e)"

definition parse_type_params :: "string \<Rightarrow> token \<Rightarrow> int list parser" where
  "parse_type_params ty name_tok =
     bindS (peek_punct ''('') (\<lambda>has_paren.
     if \<not> has_paren then
       (if parametric_arity ty \<noteq> None then error_at name_tok else returnS [])
     else
       bindS advance (\<lambda>_.
       bindS int_param (\<lambda>a.
       bindS (peek_punct '','') (\<lambda>c.
       bindS (if c then bindS advance (\<lambda>_. bindS int_param (\<lambda>b. returnS [a, b])) else returnS [a]) (\<lambda>params.
       bindS (expect T_PUNCT '')'') (\<lambda>_.
       check_type_params ty name_tok params))))))"

record constraints =
  c_nullable :: bool
  c_unique :: bool
  c_pk :: bool
  c_saw_not_null :: bool

definition parse_constraint :: "constraints \<Rightarrow> constraints parser" where
  "parse_constraint c =
     bindS advance (\<lambda>kw.
     if is_tok T_KEYWORD ''NOT'' kw then
       bindS peek (\<lambda>nxt.
       if \<not> is_tok T_KEYWORD ''NULL'' nxt then error_at nxt
       else bindS advance (\<lambda>_.
         if c_saw_not_null c then error_at kw
         else returnS (c\<lparr>c_saw_not_null := True, c_nullable := False\<rparr>)))
     else if is_tok T_KEYWORD ''NULL'' kw then error_at kw
     else if is_tok T_KEYWORD ''PRIMARY'' kw then
       bindS peek (\<lambda>nxt.
       if \<not> is_tok T_KEYWORD ''KEY'' nxt then error_at nxt
       else bindS advance (\<lambda>_. if c_pk c then error_at kw else returnS (c\<lparr>c_pk := True\<rparr>)))
     else if is_tok T_KEYWORD ''KEY'' kw then error_at kw
     else if c_unique c then error_at kw
     else returnS (c\<lparr>c_unique := True\<rparr>))"

definition constraint_keywords :: "string list" where
  "constraint_keywords = [''NOT'', ''NULL'', ''PRIMARY'', ''KEY'', ''UNIQUE'']"

definition parse_column_constraints :: "constraints parser" where
  "parse_column_constraints =
     while_tokens (bindS peek (\<lambda>t. returnS (is_one_of T_KEYWORD constraint_keywords t))) parse_constraint
       \<lparr>c_nullable = True, c_unique = False, c_pk = False, c_saw_not_null = False\<rparr>"

text \<open>The column's token is \<open>self._last_col_tok\<close>.\<close>

definition parse_column_definition :: "uni \<Rightarrow> (token \<times> column_def) parser" where
  "parse_column_definition u =
     bindS ident (\<lambda>col_tok.
     bindS peek (\<lambda>type_tok.
     if t_type type_tok \<noteq> T_KEYWORD \<and> t_type type_tok \<noteq> T_IDENT then error_at type_tok
     else case find (\<lambda>s. ustr s = py_upper u (tok_str type_tok)) supported_types of
       None \<Rightarrow> error_at type_tok
     | Some ty \<Rightarrow>
         bindS advance (\<lambda>_.
         bindS (parse_type_params ty type_tok) (\<lambda>params.
         bindS parse_column_constraints (\<lambda>c.
         returnS (col_tok,
           \<lparr>cd_name = tok_str col_tok, cd_type = ty, cd_params = params, cd_nullable = c_nullable c,
            cd_unique = c_unique c, cd_pk = c_pk c\<rparr>))))))"

definition parse_column_list :: "uni \<Rightarrow> column_def list parser" where
  "parse_column_list u =
     bindS peek (\<lambda>t.
     if is_tok T_PUNCT '')'' t then error_at t
     else comma_list (\<lambda>cols.
       bindS (parse_column_definition u) (\<lambda>(tok, c).
       if cd_name c \<in> cd_name ` set cols then error_at tok else returnS (cols @ [c]))) [])"

definition parse_create_table :: "uni \<Rightarrow> stmt parser" where
  "parse_create_table u =
     bindS (expect_keyword ''CREATE'') (\<lambda>kw.
     bindS (expect_keyword ''TABLE'') (\<lambda>_.
     bindS ident_str (\<lambda>name.
     bindS (expect T_PUNCT ''('') (\<lambda>_.
     bindS (parse_column_list u) (\<lambda>cols.
     bindS (expect T_PUNCT '')'') (\<lambda>_.
     returnS (S_Create \<lparr>ct_name = name, ct_columns = cols, ct_line = t_line kw, ct_col = t_col kw\<rparr>)))))))"

definition parse_drop_table :: "stmt parser" where
  "parse_drop_table =
     bindS (expect_keyword ''DROP'') (\<lambda>kw.
     bindS (expect_keyword ''TABLE'') (\<lambda>_.
     bindS ident_str (\<lambda>name.
     returnS (S_Drop name (t_line kw) (t_col kw)))))"

section \<open>INSERT, DELETE, UPDATE\<close>

definition parse_insert_value :: "uni \<Rightarrow> pyval parser" where
  "parse_insert_value u =
     bindS peek (\<lambda>v.
     if is_tok T_KEYWORD ''NULL'' v then bindS advance (\<lambda>_. returnS PNone)
     else if is_one_of T_KEYWORD datetime_keywords v then parse_datetime_literal u
     else if is_tok T_KEYWORD ''DECIMAL'' v then parse_decimal_literal u
     else bindS advance (\<lambda>t. if t_type t \<in> set literal_types then returnS (t_val t) else error_at t))"

definition parse_insert_row :: "uni \<Rightarrow> token \<Rightarrow> nat \<Rightarrow> pyval list parser" where
  "parse_insert_row u kw n =
     bindS (expect T_PUNCT ''('') (\<lambda>_.
     bindS peek (\<lambda>t.
     if is_tok T_PUNCT '')'' t then error_at t
     else
       bindS (comma_list (snoc_of (parse_insert_value u)) []) (\<lambda>row.
       if length row \<noteq> n then error_at kw
       else bindS (expect T_PUNCT '')'') (\<lambda>_. returnS row))))"

definition parse_insert :: "uni \<Rightarrow> stmt parser" where
  "parse_insert u =
     bindS (expect_keyword ''INSERT'') (\<lambda>kw.
     bindS (expect_keyword ''INTO'') (\<lambda>_.
     bindS ident_str (\<lambda>table.
     bindS (expect T_PUNCT ''('') (\<lambda>_.
     bindS (comma_list (snoc_of ident_str) []) (\<lambda>cols.
     bindS (expect T_PUNCT '')'') (\<lambda>_.
     bindS (expect_keyword ''VALUES'') (\<lambda>_.
     bindS (comma_list (snoc_of (parse_insert_row u kw (length cols))) []) (\<lambda>rows.
     returnS (S_Insert \<lparr>i_table = table, i_columns = cols, i_values = rows,
       i_line = t_line kw, i_col = t_col kw\<rparr>)))))))))"

definition parse_delete :: "uni \<Rightarrow> stmt parser" where
  "parse_delete u =
     bindS (expect_keyword ''DELETE'') (\<lambda>kw.
     bindS (expect_keyword ''FROM'') (\<lambda>_.
     bindS ident_str (\<lambda>table.
     bindS (parse_where u) (\<lambda>w.
     returnS (S_Delete table w (t_line kw) (t_col kw))))))"

definition parse_assignment :: "uni \<Rightarrow> (pystr \<times> expr) parser" where
  "parse_assignment u =
     bindS ident_str (\<lambda>col.
     bindS (expect T_PUNCT ''='') (\<lambda>_.
     bindS (parse_literal_value u) (\<lambda>v.
     returnS (col, EqualsExpr col v None))))"

definition parse_update :: "uni \<Rightarrow> stmt parser" where
  "parse_update u =
     bindS (expect_keyword ''UPDATE'') (\<lambda>kw.
     bindS ident_str (\<lambda>table.
     bindS (expect_keyword ''SET'') (\<lambda>_.
     bindS (comma_list (snoc_of (parse_assignment u)) []) (\<lambda>sets.
     if sets = [] then error_at kw
     else
       bindS (parse_where u) (\<lambda>w.
       returnS (S_Update \<lparr>u_table = table, u_sets = sets, u_where = w, u_line = t_line kw, u_col = t_col kw\<rparr>))))))"

section \<open>SELECT\<close>

text \<open>\<open>_is_keyword\<close>: also an identifier that reads as the keyword.\<close>

definition is_keyword :: "uni \<Rightarrow> string list \<Rightarrow> token \<Rightarrow> bool" where
  "is_keyword u names t \<longleftrightarrow>
     list_ex (\<lambda>n. is_tok T_KEYWORD n t \<or> t_type t = T_IDENT \<and> py_upper u (tok_str t) = ustr n) names"

definition parse_aggregate_call :: "agg_call parser" where
  "parse_aggregate_call =
     bindS peek (\<lambda>func_tok.
     bindS advance (\<lambda>f.
     bindS (expect T_PUNCT ''('') (\<lambda>_.
     bindS (peek_punct ''*'') (\<lambda>star.
     bindS (if star then bindS advance (\<lambda>_. returnS A_star)
            else bindS parse_qualified_column_ref (\<lambda>c.
              returnS (case cr_qualifier c of None \<Rightarrow> A_col (cr_name c) | Some q \<Rightarrow> A_qcol q (cr_name c)))) (\<lambda>arg.
     bindS (expect T_PUNCT '')'') (\<lambda>_.
     returnS \<lparr>ag_func = tok_str f, ag_arg = arg, ag_alias = None, ag_line = t_line func_tok,
       ag_col = t_col func_tok\<rparr>))))))"

definition parse_alias :: "uni \<Rightarrow> pystr option parser" where
  "parse_alias u =
     bindS peek (\<lambda>t.
     if is_keyword u [''AS''] t then bindS advance (\<lambda>_. bindS ident_str (\<lambda>a. returnS (Some a)))
     else returnS None)"

definition parse_select_item :: "uni \<Rightarrow> select_item parser" where
  "parse_select_item u =
     bindS peek (\<lambda>t.
     if is_keyword u agg_funcs t then
       bindS parse_aggregate_call (\<lambda>agg.
       bindS (parse_alias u) (\<lambda>alias.
       returnS (I_aggregate (case alias of None \<Rightarrow> agg | Some a \<Rightarrow> agg\<lparr>ag_alias := Some a\<rparr>) alias)))
     else if t_type t \<noteq> T_IDENT then error_at t
     else
       bindS parse_qualified_column_ref (\<lambda>c.
       bindS (parse_alias u) (\<lambda>alias.
       returnS (I_column (cr_name c) alias (cr_qualifier c)))))"

fun item_alias :: "select_item \<Rightarrow> pystr option" where
  "item_alias I_star = None"
| "item_alias (I_column n a q) = a"
| "item_alias (I_aggregate g a) = a"

fun item_pos :: "select_item \<Rightarrow> nat \<times> nat" where
  "item_pos (I_aggregate g a) = (ag_line g, ag_col g)"
| "item_pos i = (0, 0)"

definition parse_select_items :: "uni \<Rightarrow> select_item list parser" where
  "parse_select_items u =
     bindS (peek_punct ''*'') (\<lambda>star.
     if star then bindS advance (\<lambda>_. returnS [I_star])
     else comma_list (\<lambda>items.
       bindS (parse_select_item u) (\<lambda>item.
       case item_alias item of
         Some a \<Rightarrow>
           if Some a \<in> item_alias ` set items
           then raiseS (ParseError (fst (item_pos item)) (snd (item_pos item)))
           else returnS (items @ [item])
       | None \<Rightarrow> returnS (items @ [item]))) [])"

definition parse_table_ref :: "table_ref parser" where
  "parse_table_ref =
     bindS ident (\<lambda>name.
     bindS (peek_kw ''AS'') (\<lambda>explicit.
     bindS (if explicit then bindS advance (\<lambda>_. bindS ident_str (\<lambda>a. returnS (Some a)))
            else bindS peek (\<lambda>t.
              if t_type t = T_IDENT then bindS advance (\<lambda>a. returnS (Some (tok_str a))) else returnS None)) (\<lambda>alias.
     returnS \<lparr>tr_name = tok_str name, tr_alias = alias, tr_line = t_line name, tr_col = t_col name\<rparr>)))"

definition comparison_ops :: "pystr list" where
  "comparison_ops = map ustr [''='', ''>'', ''<'', ''>='', ''<='', ''!='']"

definition parse_join_predicate :: "join_pred parser" where
  "parse_join_predicate =
     bindS parse_qualified_column_ref (\<lambda>l.
     bindS peek (\<lambda>op.
     if t_type op \<noteq> T_PUNCT \<or> tok_str op \<notin> set comparison_ops then error_at op
     else
       bindS advance (\<lambda>_.
       bindS parse_qualified_column_ref (\<lambda>r.
       returnS \<lparr>jp_left = l, jp_op = tok_str op, jp_right = r, jp_line = cr_line l, jp_col = cr_col l\<rparr>))))"

definition join_keywords :: "(string \<times> join_kind) list" where
  "join_keywords =
     [(''INNER'', J_INNER), (''LEFT'', J_LEFT), (''RIGHT'', J_RIGHT), (''FULL'', J_FULL), (''CROSS'', J_CROSS)]"

definition join_kind_of :: "token \<Rightarrow> join_kind option" where
  "join_kind_of t = map_option snd (find (\<lambda>(s, k). is_tok T_KEYWORD s t) join_keywords)"

definition peek_join_start :: "bool parser" where
  "peek_join_start =
     bindS peek (\<lambda>t.
     returnS (is_one_of T_KEYWORD [''JOIN'', ''INNER'', ''LEFT'', ''RIGHT'', ''FULL'', ''CROSS'', ''NATURAL''] t))"

definition parse_join_kind :: "token \<Rightarrow> token \<Rightarrow> join_kind parser" where
  "parse_join_kind first_tok kind_tok =
     (case join_kind_of kind_tok of
        Some k \<Rightarrow>
          bindS advance (\<lambda>_.
          bindS (peek_kw ''OUTER'') (\<lambda>outer.
          bindS (if k \<in> {J_LEFT, J_RIGHT, J_FULL} \<and> outer then bindS advance (\<lambda>_. returnS ()) else returnS ()) (\<lambda>_.
          bindS peek (\<lambda>t.
          if \<not> is_tok T_KEYWORD ''JOIN'' t then error_at t else bindS advance (\<lambda>_. returnS k)))))
      | None \<Rightarrow>
          if is_tok T_KEYWORD ''JOIN'' kind_tok then bindS advance (\<lambda>_. returnS J_INNER)
          else error_at first_tok)"

definition parse_join_clause :: "join_clause parser" where
  "parse_join_clause =
     bindS peek (\<lambda>first_tok.
     let natural = is_tok T_KEYWORD ''NATURAL'' first_tok in
     bindS (if natural then bindS advance (\<lambda>_. peek) else returnS first_tok) (\<lambda>kind_tok.
     bindS (parse_join_kind first_tok kind_tok) (\<lambda>kind.
     bindS parse_table_ref (\<lambda>right.
     bindS peek (\<lambda>t.
     bindS (if is_tok T_KEYWORD ''USING'' t then
              bindS advance (\<lambda>_.
              bindS (expect T_PUNCT ''('') (\<lambda>_.
              bindS (comma_list (snoc_of ident_str) []) (\<lambda>ks.
              bindS (expect T_PUNCT '')'') (\<lambda>_. returnS (None, ks)))))
            else if is_tok T_KEYWORD ''ON'' t then
              bindS advance (\<lambda>_. bindS parse_join_predicate (\<lambda>p. returnS (Some p, [])))
            else if kind \<noteq> J_CROSS \<and> \<not> natural then error_at first_tok
            else returnS (None, [])) (\<lambda>(on, using_keys).
     returnS \<lparr>jc_kind = kind, jc_right = right, jc_on = on, jc_using = using_keys, jc_natural = natural,
       jc_line = t_line first_tok, jc_col = t_col first_tok\<rparr>))))))"

definition parse_join_chain :: "join_clause list parser" where
  "parse_join_chain = while_tokens peek_join_start (snoc_of parse_join_clause) []"

definition dot_join :: "column_ref \<Rightarrow> pystr" where
  "dot_join c = (case cr_qualifier c of None \<Rightarrow> cr_name c | Some q \<Rightarrow> q @ [46] @ cr_name c)"

definition parse_col_list :: "pystr list parser" where
  "parse_col_list = comma_list (snoc_of (bindS parse_qualified_column_ref (\<lambda>c. returnS (dot_join c)))) []"

definition parse_having_expr :: "uni \<Rightarrow> having parser" where
  "parse_having_expr u =
     bindS peek (\<lambda>t.
     bindS (if is_keyword u agg_funcs t then bindS parse_aggregate_call (\<lambda>a. returnS (H_agg a))
            else bindS ident_str (\<lambda>c. returnS (H_col c))) (\<lambda>l.
     bindS advance (\<lambda>op.
     if t_type op \<noteq> T_PUNCT \<or> tok_str op \<notin> set comparison_ops then error_at op
     else bindS advance (\<lambda>lit.
       if t_type lit \<notin> set literal_types then error_at lit else returnS (l, tok_str op, t_val lit)))))"

definition parse_order_item :: "order_item parser" where
  "parse_order_item =
     bindS parse_qualified_column_ref (\<lambda>c.
     bindS peek (\<lambda>t.
     bindS (if is_tok T_KEYWORD ''ASC'' t then bindS advance (\<lambda>_. returnS False)
            else if is_tok T_KEYWORD ''DESC'' t then bindS advance (\<lambda>_. returnS True)
            else returnS False) (\<lambda>desc.
     returnS \<lparr>ob_column = cr_name c, ob_desc = desc, ob_qualifier = cr_qualifier c\<rparr>)))"

definition parse_order_by :: "order_item list parser" where
  "parse_order_by =
     bindS (peek_kw ''ORDER'') (\<lambda>b.
     if \<not> b then returnS []
     else
       bindS advance (\<lambda>_.
       bindS (expect_keyword ''BY'') (\<lambda>_.
       comma_list (snoc_of parse_order_item) [])))"

definition parse_int_kw_clause :: "string \<Rightarrow> bool \<Rightarrow> int option parser" where
  "parse_int_kw_clause kw non_negative =
     bindS (peek_kw kw) (\<lambda>b.
     if \<not> b then returnS None
     else
       bindS advance (\<lambda>_.
       bindS advance (\<lambda>t.
       if t_type t \<noteq> T_INT then error_at t
       else if non_negative \<and> tok_int t < 0 then error_at t
       else returnS (Some (tok_int t)))))"

definition default_alias :: "uni \<Rightarrow> agg_call \<Rightarrow> pystr" where
  "default_alias u agg =
     (case ag_arg agg of
        A_star \<Rightarrow> ustr ''count''
      | A_col c \<Rightarrow> py_lower u (ag_func agg) @ [95] @ c
      | A_qcol q c \<Rightarrow> py_lower u (ag_func agg) @ [95] @ c)"

definition agg_label :: "uni \<Rightarrow> agg_call \<Rightarrow> pystr option \<Rightarrow> pystr" where
  "agg_label u agg alias = (case alias of Some a \<Rightarrow> if a \<noteq> [] then a else default_alias u agg | None \<Rightarrow> default_alias u agg)"

text \<open>The legacy \<open>columns\<close> field: \<open>["*"]\<close> as soon as a star is met.\<close>

fun legacy_columns :: "uni \<Rightarrow> pystr list \<Rightarrow> select_item list \<Rightarrow> pystr list" where
  "legacy_columns u acc [] = acc"
| "legacy_columns u acc (I_star # is) = [ustr ''*'']"
| "legacy_columns u acc (I_aggregate g a # is) = legacy_columns u (acc @ [agg_label u g a]) is"
| "legacy_columns u acc (I_column n a q # is) = legacy_columns u (acc @ [n]) is"

definition aggregate_aliases :: "uni \<Rightarrow> select_item list \<Rightarrow> pystr list" where
  "aggregate_aliases u items =
     concat (map (\<lambda>i. case i of I_aggregate g a \<Rightarrow> [agg_label u g a] | _ \<Rightarrow> []) items)"

definition parse_select :: "uni \<Rightarrow> stmt parser" where
  "parse_select u =
     bindS (expect_keyword ''SELECT'') (\<lambda>kw.
     bindS (parse_select_items u) (\<lambda>items.
     bindS (expect_keyword ''FROM'') (\<lambda>_.
     bindS parse_table_ref (\<lambda>from_ref.
     bindS parse_join_chain (\<lambda>joins.
     bindS (parse_where u) (\<lambda>w.
     bindS (peek_kw ''GROUP'') (\<lambda>g.
     bindS (if g then bindS advance (\<lambda>_. bindS (expect_keyword ''BY'') (\<lambda>_. parse_col_list)) else returnS []) (\<lambda>group_by.
     bindS (peek_kw ''HAVING'') (\<lambda>h.
     bindS (if h then bindS advance (\<lambda>_. bindS (parse_having_expr u) (\<lambda>e. returnS (Some e))) else returnS None) (\<lambda>hav.
     bindS parse_order_by (\<lambda>order_by.
     bindS (parse_int_kw_clause ''LIMIT'' True) (\<lambda>limit.
     bindS (parse_int_kw_clause ''OFFSET'' False) (\<lambda>offset.
     returnS (S_Select \<lparr>s_table = tr_name from_ref, s_columns = legacy_columns u [] items, s_where = w,
       s_order_by = order_by, s_limit = limit, s_offset = offset, s_items = items, s_group_by = group_by,
       s_having = hav, s_agg_aliases = aggregate_aliases u items, s_from = from_ref, s_joins = joins,
       s_line = t_line kw, s_col = t_col kw\<rparr>))))))))))))))"

section \<open>Statements\<close>

definition parse_statement :: "uni \<Rightarrow> stmt parser" where
  "parse_statement u =
     bindS peek (\<lambda>t.
     if t_type t \<noteq> T_KEYWORD then error_at t
     else if is_tok T_KEYWORD ''BEGIN'' t then bindS advance (\<lambda>_. returnS (S_Begin (t_line t) (t_col t)))
     else if is_tok T_KEYWORD ''COMMIT'' t then bindS advance (\<lambda>_. returnS (S_Commit (t_line t) (t_col t)))
     else if is_tok T_KEYWORD ''ROLLBACK'' t then bindS advance (\<lambda>_. returnS (S_Rollback (t_line t) (t_col t)))
     else if is_tok T_KEYWORD ''CREATE'' t then parse_create_table u
     else if is_tok T_KEYWORD ''DROP'' t then parse_drop_table
     else if is_tok T_KEYWORD ''INSERT'' t then parse_insert u
     else if is_tok T_KEYWORD ''SELECT'' t then parse_select u
     else if is_tok T_KEYWORD ''DELETE'' t then parse_delete u
     else if is_tok T_KEYWORD ''UPDATE'' t then parse_update u
     else error_at t)"

definition parse_statement_list :: "uni \<Rightarrow> stmt list parser" where
  "parse_statement_list u =
     while_tokens (bindS at_end (\<lambda>e. returnS (\<not> e)))
       (\<lambda>stmts.
          bindS (parse_statement u) (\<lambda>s.
          bindS (peek_punct '';'') (\<lambda>c.
          bindS (if c then bindS advance (\<lambda>_. returnS ()) else returnS ()) (\<lambda>_.
          returnS (stmts @ [s]))))) []"

definition parse_tokens :: "uni \<Rightarrow> token list \<Rightarrow> stmt list res" where
  "parse_tokens u ts = fst (parse_statement_list u ts)"

end
