(* ===== verification/Py_Ops.thy ===== *)
theory Py_Ops
  imports Py_Text "HOL-Library.List_Lexorder" "HOL-Library.Multiset" Complex_Main
begin

text \<open>
  Python's operators on column values: \<open>==\<close>, \<open><\<close> and the other comparisons,
  \<open>+\<close>, \<open>float()\<close>, division, and \<open>sorted\<close>. Numbers of different types compare by
  their exact value; values of different kinds are unequal, and comparing them
  raises \<open>TypeError\<close>. A NaN that arithmetic produces is the quiet one. Lemmas: on
  values of one kind \<open><\<close> is a strict weak order, and \<open>sorted\<close> over such an order is
  the stable sort.
\<close>

section \<open>Comparison\<close>

text \<open>A number: NaN, an infinity with its sign, or a fraction.\<close>

datatype num_val = N_nan | N_inf bool | N_frac int nat

definition num_of_float :: "64 word \<Rightarrow> num_val" where
  "num_of_float w =
     (if f_finite w then N_frac (signed (f_neg w) (f_num w)) (f_den w)
      else if f_frac w = 0 then N_inf (f_neg w) else N_nan)"

fun num_of :: "pyval \<Rightarrow> num_val option" where
  "num_of (PBool b) = Some (N_frac (of_bool b) 1)"
| "num_of (PInt i) = Some (N_frac i 1)"
| "num_of (PFloat w) = Some (num_of_float w)"
| "num_of _ = None"

fun num_eq :: "num_val \<Rightarrow> num_val \<Rightarrow> bool" where
  "num_eq (N_frac a b) (N_frac c d) = (a * int d = c * int b)"
| "num_eq (N_inf s) (N_inf t) = (s = t)"
| "num_eq _ _ = False"

fun num_lt :: "num_val \<Rightarrow> num_val \<Rightarrow> bool" where
  "num_lt (N_frac a b) (N_frac c d) = (a * int d < c * int b)"
| "num_lt (N_inf s) (N_inf t) = (s \<and> \<not> t)"
| "num_lt (N_inf s) (N_frac c d) = s"
| "num_lt (N_frac a b) (N_inf t) = (\<not> t)"
| "num_lt _ _ = False"

text \<open>Times and datetimes with a time zone are equal when they name the same instant.\<close>

fun in_utc :: "pyval \<Rightarrow> pyval" where
  "in_utc (PTimeZ h m s us z) = PTimeZ 0 0 (h * 3600 + m * 60 + s - z div 1000000) us 0"
| "in_utc (PDateTimeZ us z) = PDateTimeZ (us - z) 0"
| "in_utc v = v"

definition py_eq :: "pyval \<Rightarrow> pyval \<Rightarrow> bool" where
  "py_eq a b =
     (case (num_of a, num_of b) of
        (Some x, Some y) \<Rightarrow> num_eq x y
      | _ \<Rightarrow> in_utc a = in_utc b)"

fun order_key :: "pyval \<Rightarrow> (nat \<times> int list) option" where
  "order_key (PStr s) = Some (1, map int s)"
| "order_key (PDate d) = Some (2, [d])"
| "order_key (PTime h m s us) = Some (3, [h, m, s, us])"
| "order_key (PDateTime t) = Some (4, [t])"
| "order_key (PTimeZ h m s us z) = Some (5, [h * 3600 + m * 60 + s - z div 1000000, us])"
| "order_key (PDateTimeZ t z) = Some (6, [t - z])"
| "order_key _ = None"

text \<open>
  \<open>a < b\<close>: texts by code points, times by their fields, dates and datetimes each among
  themselves, times and datetimes with a time zone each by the instant; any other pair, a
  zoned and a plain one among them, raises \<open>TypeError\<close>.
\<close>

definition py_lt :: "pyval \<Rightarrow> pyval \<Rightarrow> bool res" where
  "py_lt a b =
     (case (num_of a, num_of b) of
        (Some x, Some y) \<Rightarrow> Inr (num_lt x y)
      | _ \<Rightarrow>
        (case (order_key a, order_key b) of
           (Some (k, x), Some (l, y)) \<Rightarrow> if k = l then Inr (x < y) else Inl TypeErr
         | _ \<Rightarrow> Inl TypeErr))"

definition py_gt :: "pyval \<Rightarrow> pyval \<Rightarrow> bool res" where
  "py_gt a b = py_lt b a"

text \<open>\<open>a <= b\<close> is not the negation of \<open>b < a\<close> when a NaN is involved.\<close>

definition py_le :: "pyval \<Rightarrow> pyval \<Rightarrow> bool res" where
  "py_le a b = bindE (py_lt a b) (\<lambda>l. Inr (l \<or> py_eq a b))"

definition py_ge :: "pyval \<Rightarrow> pyval \<Rightarrow> bool res" where
  "py_ge a b = py_le b a"

section \<open>Arithmetic\<close>

definition f_inf :: "bool \<Rightarrow> 64 word" where
  "f_inf neg = word_of_int ((if neg then 2 ^ 63 else 0) + f64_inf)"

definition f_zero :: "bool \<Rightarrow> 64 word" where
  "f_zero neg = (if neg then 0x8000000000000000 else 0)"

text \<open>The sum is rounded once; an exact zero is negative only when both operands are.\<close>

definition float_add :: "64 word \<Rightarrow> 64 word \<Rightarrow> 64 word" where
  "float_add a b =
     (case (num_of_float a, num_of_float b) of
        (N_frac x d, N_frac y e) \<Rightarrow>
          let n = x * int e + y * int d in
          if n = 0 then f_zero (f_neg a \<and> f_neg b) else f64_of_frac (n < 0) (nat \<bar>n\<bar>) (d * e)
      | (N_inf s, N_inf t) \<Rightarrow> if s = t then f_inf s else f64_nan
      | (N_inf s, N_frac y e) \<Rightarrow> f_inf s
      | (N_frac x d, N_inf t) \<Rightarrow> f_inf t
      | _ \<Rightarrow> f64_nan)"

text \<open>\<open>float(v)\<close>; a text is read as a number.\<close>

fun to_float :: "uni \<Rightarrow> pyval \<Rightarrow> 64 word res" where
  "to_float u (PBool b) = float_of_int (of_bool b)"
| "to_float u (PInt i) = float_of_int i"
| "to_float u (PFloat w) = Inr w"
| "to_float u (PStr s) = py_float u s"
| "to_float u _ = Inl TypeErr"

fun int_value :: "pyval \<Rightarrow> int option" where
  "int_value (PBool b) = Some (of_bool b)"
| "int_value (PInt i) = Some i"
| "int_value _ = None"

text \<open>\<open>a + b\<close>: integers exactly, a float with a number in floating point, texts joined.\<close>

definition py_add :: "pyval \<Rightarrow> pyval \<Rightarrow> pyval res" where
  "py_add a b =
     (case (int_value a, int_value b) of
        (Some i, Some j) \<Rightarrow> Inr (PInt (i + j))
      | (Some i, None) \<Rightarrow>
          (case b of PFloat w \<Rightarrow> bindE (float_of_int i) (\<lambda>v. Inr (PFloat (float_add v w))) | _ \<Rightarrow> Inl TypeErr)
      | (None, Some j) \<Rightarrow>
          (case a of PFloat v \<Rightarrow> bindE (float_of_int j) (\<lambda>w. Inr (PFloat (float_add v w))) | _ \<Rightarrow> Inl TypeErr)
      | (None, None) \<Rightarrow>
          (case (a, b) of
             (PFloat v, PFloat w) \<Rightarrow> Inr (PFloat (float_add v w))
           | (PStr s, PStr t) \<Rightarrow> Inr (PStr (s @ t))
           | _ \<Rightarrow> Inl TypeErr))"

text \<open>\<open>x / n\<close> for a float and the float of a positive integer.\<close>

definition float_div_nat :: "64 word \<Rightarrow> nat \<Rightarrow> 64 word res" where
  "float_div_nat x n =
     bindE (float_of_int (int n)) (\<lambda>y.
     case num_of_float x of
       N_frac a d \<Rightarrow> Inr (f64_of_frac (f_neg x) (nat \<bar>a\<bar> * f_den y) (d * f_num y))
     | N_inf s \<Rightarrow> Inr (f_inf s)
     | N_nan \<Rightarrow> Inr f64_nan)"

text \<open>\<open>-v\<close> of a number.\<close>

fun py_neg :: "pyval \<Rightarrow> pyval" where
  "py_neg (PInt i) = PInt (- i)"
| "py_neg (PFloat w) = PFloat (w XOR 0x8000000000000000)"
| "py_neg v = v"

section \<open>Sorting\<close>

text \<open>
  \<open>sorted\<close>, stable, from a \<open><\<close> that may raise. The comparisons are those of an insertion
  sort; over a strict weak order that does not raise the result does not depend
  on which comparisons are made.
\<close>

fun insort_res :: "('a \<Rightarrow> 'a \<Rightarrow> bool res) \<Rightarrow> 'a \<Rightarrow> 'a list \<Rightarrow> 'a list res" where
  "insort_res lt x [] = Inr [x]"
| "insort_res lt x (y # ys) =
     bindE (lt x y) (\<lambda>b. if b then Inr (x # y # ys) else bindE (insort_res lt x ys) (\<lambda>r. Inr (y # r)))"

definition py_sorted :: "('a \<Rightarrow> 'a \<Rightarrow> bool res) \<Rightarrow> 'a list \<Rightarrow> 'a list res" where
  "py_sorted lt xs = foldE (\<lambda>acc x. insort_res lt x acc) [] xs"

section \<open>Strict weak orders\<close>

lemma bindE_return [simp]: "bindE r Inr = r"
  by (cases r) auto

locale weak_order =
  fixes A :: "'a set" and lt :: "'a \<Rightarrow> 'a \<Rightarrow> bool"
  assumes asym: "x \<in> A \<Longrightarrow> y \<in> A \<Longrightarrow> lt x y \<Longrightarrow> \<not> lt y x"
    and neg_trans: "x \<in> A \<Longrightarrow> y \<in> A \<Longrightarrow> z \<in> A \<Longrightarrow> \<not> lt x y \<Longrightarrow> \<not> lt y z \<Longrightarrow> \<not> lt x z"
begin

lemma less_le_trans: "x \<in> A \<Longrightarrow> y \<in> A \<Longrightarrow> z \<in> A \<Longrightarrow> lt x y \<Longrightarrow> \<not> lt z y \<Longrightarrow> lt x z"
  using neg_trans by blast

lemma insort_result:
  assumes "x \<in> A" and "set ys \<subseteq> A" and "\<And>a b. a \<in> A \<Longrightarrow> b \<in> A \<Longrightarrow> r a b = Inr (lt a b)"
    and "sorted_wrt (\<lambda>a b. \<not> lt b a) ys"
  shows "\<exists>zs. insort_res r x ys = Inr zs \<and> mset zs = add_mset x (mset ys) \<and> sorted_wrt (\<lambda>a b. \<not> lt b a) zs \<and>
    (\<forall>p \<in> A. filter (\<lambda>a. \<not> lt p a \<and> \<not> lt a p) zs =
       filter (\<lambda>a. \<not> lt p a \<and> \<not> lt a p) ys @ filter (\<lambda>a. \<not> lt p a \<and> \<not> lt a p) [x])"
  using assms(2,4)
proof (induction ys)
  case Nil
  then show ?case by simp
next
  case (Cons y ys)
  have y: "y \<in> A" "set ys \<subseteq> A" using Cons.prems by auto
  show ?case
  proof (cases "lt x y")
    case True
    have above: "\<not> lt b x" if "b \<in> set (y # ys)" for b
    proof -
      have "\<not> lt b y" using that Cons.prems asym [OF y(1) y(1)] by auto
      then have "lt x b" using less_le_trans [OF assms(1) y(1)] that y True by auto
      then show ?thesis using asym [OF assms(1)] that y by auto
    qed
    have "filter (\<lambda>a. \<not> lt p a \<and> \<not> lt a p) (y # ys) = []" if "p \<in> A" "\<not> lt p x" "\<not> lt x p" for p
    proof -
      have "lt p b" if b: "b \<in> set (y # ys)" for b
      proof -
        have bA: "b \<in> A" using b y by auto
        have "\<not> lt b y" using b Cons.prems asym [OF y(1) y(1)] by auto
        then have "lt x b" using less_le_trans [OF assms(1) y(1) bA True] by simp
        then show ?thesis using neg_trans [OF assms(1) \<open>p \<in> A\<close> bA] \<open>\<not> lt x p\<close> by blast
      qed
      then show ?thesis by (auto simp: filter_empty_conv)
    qed
    then show ?thesis using True Cons.prems assms(1,3) y above by (auto simp: filter_empty_conv)
  next
    case False
    obtain zs where zs: "insort_res r x ys = Inr zs" "mset zs = add_mset x (mset ys)"
        "sorted_wrt (\<lambda>a b. \<not> lt b a) zs"
        "\<And>p. p \<in> A \<Longrightarrow> filter (\<lambda>a. \<not> lt p a \<and> \<not> lt a p) zs =
           filter (\<lambda>a. \<not> lt p a \<and> \<not> lt a p) ys @ filter (\<lambda>a. \<not> lt p a \<and> \<not> lt a p) [x]"
      using Cons.IH [OF y(2)] Cons.prems(2) by auto
    have "set zs = insert x (set ys)" using zs(2) by (metis set_mset_add_mset_insert set_mset_mset)
    then have "sorted_wrt (\<lambda>a b. \<not> lt b a) (y # zs)" using zs(3) False Cons.prems(2) by auto
    then show ?thesis using zs False assms(1,3) y by auto
  qed
qed

lemma sorted_result:
  assumes "set xs \<subseteq> A" and "\<And>a b. a \<in> A \<Longrightarrow> b \<in> A \<Longrightarrow> r a b = Inr (lt a b)"
  shows "\<exists>zs. py_sorted r xs = Inr zs \<and> mset zs = mset xs \<and> sorted_wrt (\<lambda>a b. \<not> lt b a) zs \<and>
    (\<forall>p \<in> A. filter (\<lambda>a. \<not> lt p a \<and> \<not> lt a p) zs = filter (\<lambda>a. \<not> lt p a \<and> \<not> lt a p) xs)"
  using assms(1)
proof (induction xs rule: rev_induct)
  case Nil
  then show ?case by (simp add: py_sorted_def)
next
  case (snoc x xs)
  then obtain zs where zs: "py_sorted r xs = Inr zs" "mset zs = mset xs" "sorted_wrt (\<lambda>a b. \<not> lt b a) zs"
      "\<And>p. p \<in> A \<Longrightarrow> filter (\<lambda>a. \<not> lt p a \<and> \<not> lt a p) zs = filter (\<lambda>a. \<not> lt p a \<and> \<not> lt a p) xs"
    by auto
  have A: "x \<in> A" "set zs \<subseteq> A" using snoc.prems zs(2) by (auto dest: mset_eq_setD)
  have step: "py_sorted r (xs @ [x]) = insort_res r x zs" using zs(1) by (simp add: py_sorted_def foldE_append)
  show ?case using insort_result [OF A assms(2) zs(3)] zs(2,4) unfolding step by fastforce
qed

end

section \<open>Orders on values\<close>

definition frac_ok :: "num_val \<Rightarrow> bool" where
  "frac_ok x \<longleftrightarrow> (case x of N_frac a b \<Rightarrow> 0 < b | N_inf s \<Rightarrow> True | N_nan \<Rightarrow> False)"

text \<open>The place of a number in an order of pairs.\<close>

definition num_key :: "num_val \<Rightarrow> int \<times> rat" where
  "num_key x = (case x of N_frac a b \<Rightarrow> (0, of_int a / of_nat b) | N_inf s \<Rightarrow> (if s then - 1 else 1, 0) | N_nan \<Rightarrow> (2, 0))"

lemma frac_less: "0 < b \<Longrightarrow> 0 < d \<Longrightarrow> a * int d < c * int b \<longleftrightarrow> of_int a / of_nat b < (of_int c / of_nat d :: rat)"
proof -
  assume "0 < b" "0 < d"
  then have "of_int a / of_nat b < (of_int c / of_nat d :: rat) \<longleftrightarrow>
      (of_int a * of_int (int d) :: rat) < of_int c * of_int (int b)"
    by (simp add: field_simps)
  then show ?thesis by (metis of_int_less_iff of_int_mult)
qed

lemma frac_eq: "0 < b \<Longrightarrow> 0 < d \<Longrightarrow> a * int d = c * int b \<longleftrightarrow> of_int a / of_nat b = (of_int c / of_nat d :: rat)"
proof -
  assume "0 < b" "0 < d"
  then have "of_int a / of_nat b = (of_int c / of_nat d :: rat) \<longleftrightarrow>
      (of_int a * of_int (int d) :: rat) = of_int c * of_int (int b)"
    by (simp add: field_simps)
  then show ?thesis by (metis of_int_eq_iff of_int_mult)
qed

lemma num_lt_key:
  "frac_ok x \<Longrightarrow> frac_ok y \<Longrightarrow>
     num_lt x y \<longleftrightarrow> fst (num_key x) < fst (num_key y) \<or> fst (num_key x) = fst (num_key y) \<and> snd (num_key x) < snd (num_key y)"
  by (cases x; cases y) (simp_all add: frac_ok_def num_key_def frac_less)

lemma num_eq_key: "frac_ok x \<Longrightarrow> frac_ok y \<Longrightarrow> num_eq x y \<longleftrightarrow> num_key x = num_key y"
  by (cases x; cases y) (auto simp add: frac_ok_def num_key_def frac_eq)

text \<open>Values of one kind, NaN left out; each column holds values of one kind besides None.\<close>

definition same_kind :: "nat \<Rightarrow> pyval set" where
  "same_kind k =
     {v. (case num_of v of Some x \<Rightarrow> k = 0 \<and> frac_ok x
          | None \<Rightarrow> (case order_key v of Some (l, s) \<Rightarrow> k = l | None \<Rightarrow> False))}"

definition val_less :: "pyval \<Rightarrow> pyval \<Rightarrow> bool" where
  "val_less a b \<longleftrightarrow> py_lt a b = Inr True"

lemma same_kind_cases:
  assumes "a \<in> same_kind k" and "b \<in> same_kind k"
  obtains x y where "num_of a = Some x" "num_of b = Some y" "frac_ok x" "frac_ok y"
  | s t where "num_of a = None" "num_of b = None" "order_key a = Some (k, s)" "order_key b = Some (k, t)"
proof -
  have none: "order_key v = Some (l, s) \<Longrightarrow> l \<noteq> 0" for v l s by (cases v) auto
  have split: "(\<exists>x. num_of v = Some x \<and> k = 0 \<and> frac_ok x) \<or> (\<exists>s. num_of v = None \<and> order_key v = Some (k, s) \<and> k \<noteq> 0)"
    if "v \<in> same_kind k" for v
    using that none [of v] by (auto simp: same_kind_def split: option.splits)
  show thesis
  proof (cases "k = 0")
    case True
    then show ?thesis using split [OF assms(1)] split [OF assms(2)] that(1) by blast
  next
    case False
    then show ?thesis using split [OF assms(1)] split [OF assms(2)] that(2) by blast
  qed
qed

lemma py_lt_same_kind: "a \<in> same_kind k \<Longrightarrow> b \<in> same_kind k \<Longrightarrow> py_lt a b = Inr (val_less a b)"
  by (erule (1) same_kind_cases) (simp_all add: py_lt_def val_less_def)

lemma num_less_weak:
  assumes "frac_ok x" "frac_ok y" "frac_ok z"
  shows "num_lt x y \<Longrightarrow> \<not> num_lt y x" and "\<not> num_lt x y \<Longrightarrow> \<not> num_lt y z \<Longrightarrow> \<not> num_lt x z"
  using assms by (auto simp: num_lt_key)

interpretation value_order: weak_order "same_kind k" val_less for k
proof unfold_locales
  fix x y assume k: "x \<in> same_kind k" "y \<in> same_kind k" and less: "val_less x y"
  show "\<not> val_less y x"
    using k
  proof (cases rule: same_kind_cases)
    case (1 a b)
    then show ?thesis using less num_less_weak(1) [of a b b] by (simp add: val_less_def py_lt_def)
  next
    case (2 s t)
    then show ?thesis using less by (simp add: val_less_def py_lt_def)
  qed
next
  fix x y z assume k: "x \<in> same_kind k" "y \<in> same_kind k" "z \<in> same_kind k" and n: "\<not> val_less x y" "\<not> val_less y z"
  show "\<not> val_less x z"
    using k(1,2)
  proof (cases rule: same_kind_cases)
    case (1 a b)
    then obtain c where "num_of z = Some c" "frac_ok c" by (cases rule: same_kind_cases [OF k(1,3)]) auto
    then show ?thesis using 1 n num_less_weak(2) [of a b c] by (simp add: val_less_def py_lt_def)
  next
    case (2 s t)
    then obtain w where "num_of z = None" "order_key z = Some (k, w)" by (cases rule: same_kind_cases [OF k(1,3)]) auto
    then show ?thesis using 2 n by (simp add: val_less_def py_lt_def)
  qed
qed

text \<open>Comparing by a list of keys, the first that decides.\<close>

fun lex_less :: "('a \<Rightarrow> 'a \<Rightarrow> bool) list \<Rightarrow> 'a \<Rightarrow> 'a \<Rightarrow> bool" where
  "lex_less [] x y = False"
| "lex_less (l # ls) x y = (l x y \<or> \<not> l y x \<and> lex_less ls x y)"

lemma weak_order_lex:
  assumes "\<And>l. l \<in> set ls \<Longrightarrow> weak_order A l"
  shows "weak_order A (lex_less ls)"
  using assms
proof (induction ls)
  case Nil
  then show ?case by unfold_locales simp_all
next
  case (Cons l ls)
  have l: "weak_order A l" and ls: "weak_order A (lex_less ls)" using Cons by auto
  show ?case
  proof unfold_locales
    fix x y assume "x \<in> A" "y \<in> A" "lex_less (l # ls) x y"
    then show "\<not> lex_less (l # ls) y x"
      using weak_order.asym [OF l, of x y] weak_order.asym [OF ls, of x y] by auto
  next
    fix x y z assume A: "x \<in> A" "y \<in> A" "z \<in> A" and n: "\<not> lex_less (l # ls) x y" "\<not> lex_less (l # ls) y z"
    have "\<not> l x z" using n weak_order.neg_trans [OF l A] by simp
    moreover have "\<not> lex_less ls x z" if "\<not> l z x"
    proof (rule weak_order.neg_trans [OF ls A])
      show "\<not> lex_less ls x y" using n that weak_order.neg_trans [OF l A(2,3,1)] by simp
      show "\<not> lex_less ls y z" using n that weak_order.neg_trans [OF l A(3,1,2)] by simp
    qed
    ultimately show "\<not> lex_less (l # ls) x z" by auto
  qed
qed

lemma weak_order_dual: "weak_order A l \<Longrightarrow> weak_order A (\<lambda>x y. l y x)"
  unfolding weak_order_def by blast

lemma weak_order_image: "weak_order B l \<Longrightarrow> f ` A \<subseteq> B \<Longrightarrow> weak_order A (\<lambda>x y. l (f x) (f y))"
  unfolding weak_order_def by (simp add: image_subset_iff) blast

end
