(* ===== verification/Query.thy ===== *)
theory Query
  imports Parser Py_Ops Row_Codec
begin

text \<open>
  The part of \<open>src/tinydb/executor.py\<close> that computes on rows already read
  (\<open>eval_expr\<close>, the aggregates, GROUP BY, HAVING, ORDER BY, LIMIT, projection) and
  \<open>_executor_sort.py\<close>. A row of a table is the list of its values; a result row
  pairs its values with their column names. Lemmas: ORDER BY gives the
  stable sort, GROUP BY partitions, the aggregates of a column are those of its values.
\<close>

section \<open>WHERE\<close>

text \<open>The first column of the name.\<close>

definition find_col :: "pystr \<Rightarrow> schema_col list \<Rightarrow> nat option" where
  "find_col name schema = map_option fst (find (\<lambda>(i, c). col_name c = name) (zip [0..<length schema] schema))"

definition row_at :: "pyval list \<Rightarrow> nat \<Rightarrow> pyval res" where
  "row_at row i = (if i < length row then Inr (row ! i) else Inl IndexError)"

text \<open>\<open>except CodecError as e: raise exc(...) from e\<close>.\<close>

definition on_codec_error :: "py_error \<Rightarrow> 'a res \<Rightarrow> 'a res" where
  "on_codec_error e' r = (case r of Inl e \<Rightarrow> Inl (if e = CodecError then e' else e) | Inr a \<Rightarrow> Inr a)"

definition check_value :: "string \<Rightarrow> int list \<Rightarrow> pyval \<Rightarrow> unit res" where
  "check_value ty ps v = bindE (codec_for ty ps) (\<lambda>c. validate c v)"

definition eval_equals :: "pystr \<Rightarrow> pyval \<Rightarrow> pyval list \<Rightarrow> schema_col list \<Rightarrow> bool res" where
  "eval_equals column value row schema =
     (case find_col column schema of
        None \<Rightarrow> Inl ExecutionError
      | Some i \<Rightarrow>
          let (col_type, col_params) = col_type_and_params (schema ! i) in
          bindE (infer_literal_type value) (\<lambda>(lit_type, lit_params).
          bindE (type_compat col_type col_params lit_type lit_params) (\<lambda>_.
          bindE (on_codec_error TypeErr (check_value col_type col_params value)) (\<lambda>_.
          bindE (row_at row i) (\<lambda>v. Inr (py_eq v value))))))"

fun eval_expr :: "expr \<Rightarrow> pyval list \<Rightarrow> schema_col list \<Rightarrow> bool res" where
  "eval_expr (EqualsExpr column value q) row schema = eval_equals column value row schema"
| "eval_expr (AndExpr l r) row schema =
     bindE (eval_expr l row schema) (\<lambda>b. if b then eval_expr r row schema else Inr False)"
| "eval_expr (OrExpr l r) row schema =
     bindE (eval_expr l row schema) (\<lambda>b. if b then Inr True else eval_expr r row schema)"
| "eval_expr (NotExpr e) row schema = bindE (eval_expr e row schema) (\<lambda>b. Inr (\<not> b))"

section \<open>Aggregates\<close>

text \<open>\<open>r[col_idx]\<close>; the index of \<open>SUM(*)\<close> and its like is \<open>None\<close>.\<close>

definition cell :: "pyval list \<Rightarrow> nat option \<Rightarrow> pyval res" where
  "cell r i = (case i of None \<Rightarrow> Inl TypeErr | Some i \<Rightarrow> row_at r i)"

definition agg_count_star :: "pyval list list \<Rightarrow> nat option \<Rightarrow> pyval res" where
  "agg_count_star rows i = Inr (PInt (int (length rows)))"

definition agg_count_expr :: "pyval list list \<Rightarrow> nat option \<Rightarrow> pyval res" where
  "agg_count_expr rows i =
     bindE (foldE (\<lambda>n r. bindE (cell r i) (\<lambda>v. Inr (if v = PNone then n else n + 1))) 0 rows) (\<lambda>n. Inr (PInt n))"

definition agg_sum :: "pyval list list \<Rightarrow> nat option \<Rightarrow> pyval res" where
  "agg_sum rows i =
     foldE (\<lambda>total r.
       bindE (cell r i) (\<lambda>v.
       if v = PNone then Inr total
       else if total = PNone then Inr v
       else py_add total v)) PNone rows"

definition agg_avg :: "uni \<Rightarrow> pyval list list \<Rightarrow> nat option \<Rightarrow> pyval res" where
  "agg_avg u rows i =
     bindE (foldE (\<lambda>(s, n) r.
       bindE (cell r i) (\<lambda>v.
       if v = PNone then Inr (s, n)
       else bindE (to_float u v) (\<lambda>f. Inr (float_add s f, n + 1)))) (0, 0) rows) (\<lambda>(s, n).
     if n = 0 then Inr PNone else bindE (float_div_nat s n) (\<lambda>q. Inr (PFloat q)))"

definition agg_min :: "pyval list list \<Rightarrow> nat option \<Rightarrow> pyval res" where
  "agg_min rows i =
     foldE (\<lambda>best r.
       bindE (cell r i) (\<lambda>v.
       if v = PNone then Inr best
       else if best = PNone then Inr v
       else bindE (py_lt v best) (\<lambda>b. Inr (if b then v else best)))) PNone rows"

definition agg_max :: "pyval list list \<Rightarrow> nat option \<Rightarrow> pyval res" where
  "agg_max rows i =
     foldE (\<lambda>best r.
       bindE (cell r i) (\<lambda>v.
       if v = PNone then Inr best
       else if best = PNone then Inr v
       else bindE (py_gt v best) (\<lambda>b. Inr (if b then v else best)))) PNone rows"

definition agg_func :: "uni \<Rightarrow> pystr \<Rightarrow> pyval list list \<Rightarrow> nat option \<Rightarrow> pyval res" where
  "agg_func u f rows i =
     (if f = ustr ''COUNT'' then agg_count_star rows i
      else if f = ustr ''SUM'' then agg_sum rows i
      else if f = ustr ''AVG'' then agg_avg u rows i
      else if f = ustr ''MIN'' then agg_min rows i
      else if f = ustr ''MAX'' then agg_max rows i
      else Inl KeyError)"

text \<open>The column an aggregate reads, none for \<open>*\<close>; a qualified column is refused here.\<close>

definition resolve_aggregate_arg :: "agg_call \<Rightarrow> pystr option res" where
  "resolve_aggregate_arg agg =
     (case ag_arg agg of
        A_star \<Rightarrow> Inr None
      | A_col c \<Rightarrow> Inr (Some c)
      | A_qcol q c \<Rightarrow> Inl ExecutionError)"

section \<open>GROUP BY\<close>

record result_row =
  rr_values :: "pyval list"
  rr_columns :: "pystr list"

text \<open>\<open>Row(values, columns)\<close> with the length test of \<open>__post_init__\<close>.\<close>

definition new_row :: "pyval list \<Rightarrow> pystr list \<Rightarrow> result_row res" where
  "new_row values columns =
     (if length values \<noteq> length columns then Inl ValueError
      else Inr \<lparr>rr_values = values, rr_columns = columns\<rparr>)"

text \<open>\<open>groups.setdefault(key, []).append(row)\<close>; keys are equal by \<open>==\<close>.\<close>

definition key_eq :: "pyval list \<Rightarrow> pyval list \<Rightarrow> bool" where
  "key_eq = list_all2 py_eq"

fun group_add :: "pyval list \<Rightarrow> 'r \<Rightarrow> (pyval list \<times> 'r list) list \<Rightarrow> (pyval list \<times> 'r list) list" where
  "group_add k r [] = [(k, [r])]"
| "group_add k r ((k', rs) # gs) =
     (if key_eq k' k then (k', rs @ [r]) # gs else (k', rs) # group_add k r gs)"

definition group_rows :: "nat list \<Rightarrow> pyval list list \<Rightarrow> (pyval list \<times> pyval list list) list res" where
  "group_rows idxs rows =
     foldE (\<lambda>gs row. bindE (mapE (row_at row) idxs) (\<lambda>k. Inr (group_add k row gs))) [] rows"

definition aggregates_of :: "select_stmt \<Rightarrow> (agg_call \<times> pystr option) list" where
  "aggregates_of stmt =
     List.map_filter (\<lambda>si. case si of I_aggregate agg alias \<Rightarrow> Some (agg, alias) | _ \<Rightarrow> None) (s_items stmt)"

definition aggregate_value :: "uni \<Rightarrow> (pystr, nat) dict \<Rightarrow> pyval list list \<Rightarrow> agg_call \<Rightarrow> pyval res" where
  "aggregate_value u name_to_idx rows agg =
     bindE (resolve_aggregate_arg agg) (\<lambda>col_name.
     bindE (case col_name of
              None \<Rightarrow> Inr None
            | Some c \<Rightarrow>
                (case map_of name_to_idx c of None \<Rightarrow> Inl ExecutionError | Some i \<Rightarrow> Inr (Some i))) (\<lambda>col_idx.
     if ag_func agg = ustr ''COUNT'' \<and> ag_arg agg = A_star then agg_count_star rows col_idx
     else if ag_func agg = ustr ''COUNT'' then agg_count_expr rows col_idx
     else agg_func u (ag_func agg) rows col_idx))"

definition aggregate_group ::
    "uni \<Rightarrow> select_stmt \<Rightarrow> (pystr, nat) dict \<Rightarrow> pyval list \<times> pyval list list \<Rightarrow> result_row res" where
  "aggregate_group u stmt name_to_idx = (\<lambda>(key, rows).
     bindE (mapE (\<lambda>(agg, alias). aggregate_value u name_to_idx rows agg) (aggregates_of stmt)) (\<lambda>vals.
     Inr \<lparr>rr_values = key @ vals,
          rr_columns = s_group_by stmt @ map (\<lambda>(agg, alias). agg_label u agg alias) (aggregates_of stmt)\<rparr>))"

definition apply_aggregation :: "uni \<Rightarrow> pyval list list \<Rightarrow> select_stmt \<Rightarrow> schema_col list \<Rightarrow> result_row list res" where
  "apply_aggregation u raw_rows stmt schema =
     (let key_cols = s_group_by stmt; name_to_idx = schema_name_index schema in
      bindE (mapE (\<lambda>c. case map_of name_to_idx c of None \<Rightarrow> Inl ExecutionError | Some i \<Rightarrow> Inr i) key_cols) (\<lambda>idxs.
      bindE (if key_cols \<noteq> [] then group_rows idxs raw_rows else Inr [([], raw_rows)]) (\<lambda>groups.
      mapE (aggregate_group u stmt name_to_idx) groups)))"

section \<open>HAVING\<close>

text \<open>\<open>_COMPARE_OPS\<close>.\<close>

definition compare_ops :: "(pystr \<times> (pyval \<Rightarrow> pyval \<Rightarrow> bool res)) list" where
  "compare_ops =
     [(ustr ''='', \<lambda>a b. Inr (py_eq a b)), (ustr ''!='', \<lambda>a b. Inr (\<not> py_eq a b)),
      (ustr ''>'', py_gt), (ustr ''<'', py_lt), (ustr ''>='', py_ge), (ustr ''<='', py_le)]"

definition compare_vals :: "pyval \<Rightarrow> pystr \<Rightarrow> pyval \<Rightarrow> bool res" where
  "compare_vals val op lit =
     (if val = PNone then Inr False
      else case map_of compare_ops op of None \<Rightarrow> Inl ExecutionError | Some f \<Rightarrow> f val lit)"

definition row_name_index :: "result_row \<Rightarrow> (pystr, nat) dict" where
  "row_name_index r =
     foldl (\<lambda>d (i, c). AList.update c i d) [] (zip [0..<length (rr_columns r)] (rr_columns r))"

definition normalize_having :: "uni \<Rightarrow> select_stmt \<Rightarrow> (pystr \<times> pystr \<times> pyval) option res" where
  "normalize_having u stmt =
     (case s_having stmt of
        None \<Rightarrow> Inr None
      | Some (H_col c, op, lit) \<Rightarrow> Inr (Some (c, op, lit))
      | Some (H_agg left, op, lit) \<Rightarrow>
          (case find (\<lambda>(agg, alias). ag_func agg = ag_func left \<and> ag_arg agg = ag_arg left) (aggregates_of stmt) of
             Some (agg, alias) \<Rightarrow> Inr (Some (agg_label u agg alias, op, lit))
           | None \<Rightarrow> Inl ExecutionError))"

fun filterE :: "('a \<Rightarrow> bool res) \<Rightarrow> 'a list \<Rightarrow> 'a list res" where
  "filterE p [] = Inr []"
| "filterE p (x # xs) = bindE (p x) (\<lambda>b. bindE (filterE p xs) (\<lambda>ys. Inr (if b then x # ys else ys)))"

definition apply_having ::
    "result_row list \<Rightarrow> (pystr \<times> pystr \<times> pyval) option \<Rightarrow> pystr list \<Rightarrow> pystr list \<Rightarrow> result_row list res" where
  "apply_having rows having agg_aliases group_cols =
     (case (having, rows) of
        (None, _) \<Rightarrow> Inr rows
      | (_, []) \<Rightarrow> Inr rows
      | (Some (col, op, lit), r # _) \<Rightarrow>
          (case map_of (row_name_index r) col of
             Some i \<Rightarrow>
               if col \<in> set agg_aliases \<or> col \<in> set group_cols
               then filterE (\<lambda>row. bindE (row_at (rr_values row) i) (\<lambda>v. compare_vals v op lit)) rows
               else Inl ExecutionError
           | None \<Rightarrow> Inl ExecutionError))"

section \<open>ORDER BY, LIMIT and projection of result rows\<close>

definition neg_for_sort :: "pyval \<Rightarrow> pyval" where
  "neg_for_sort v = py_neg v"

text \<open>Comparing the key tuples: the first parts that differ decide.\<close>

definition sort_part :: "bool \<Rightarrow> pyval \<Rightarrow> int \<times> pyval" where
  "sort_part desc v =
     (if v = PNone then (if desc then (1, PInt 0) else (0, PInt 0))
      else (if \<not> desc then (0, v) else (0, neg_for_sort v)))"

fun parts_less :: "(int \<times> pyval) list \<Rightarrow> (int \<times> pyval) list \<Rightarrow> bool res" where
  "parts_less ((a, v) # p) ((b, w) # q) =
     (if a = b \<and> py_eq v w then parts_less p q
      else if a \<noteq> b then Inr (a < b) else py_lt v w)"
| "parts_less [] (y # q) = Inr True"
| "parts_less _ [] = Inr False"

definition sort_key_of :: "(nat \<times> bool) list \<Rightarrow> result_row \<Rightarrow> (int \<times> pyval) list res" where
  "sort_key_of keys row = mapE (\<lambda>(i, desc). bindE (row_at (rr_values row) i) (\<lambda>v. Inr (sort_part desc v))) keys"

definition order_keys :: "(pystr, nat) dict \<Rightarrow> order_item list \<Rightarrow> pystr list \<Rightarrow> pystr list \<Rightarrow> (nat \<times> bool) list res" where
  "order_keys name_to_idx order_by agg_aliases group_cols =
     mapE (\<lambda>ob.
       if ob_column ob \<in> set agg_aliases \<or> ob_column ob \<in> set group_cols then
         (case map_of name_to_idx (ob_column ob) of
            None \<Rightarrow> Inl ExecutionError | Some i \<Rightarrow> Inr (i, ob_desc ob))
       else Inl ExecutionError) order_by"

definition apply_order_limit_phase1 ::
    "result_row list \<Rightarrow> order_item list \<Rightarrow> pystr list \<Rightarrow> pystr list \<Rightarrow> result_row list res" where
  "apply_order_limit_phase1 rows order_by agg_aliases group_cols =
     (if rows = [] \<or> order_by = [] then Inr rows
      else
        bindE (order_keys (row_name_index (hd rows)) order_by agg_aliases group_cols) (\<lambda>keys.
        bindE (mapE (\<lambda>row. bindE (sort_key_of keys row) (\<lambda>k. Inr (k, row))) rows) (\<lambda>keyed.
        bindE (py_sorted (\<lambda>x y. parts_less (fst x) (fst y)) keyed) (\<lambda>sorted. Inr (map snd sorted)))))"

definition apply_limit_offset :: "select_stmt \<Rightarrow> 'r list \<Rightarrow> 'r list" where
  "apply_limit_offset stmt rows =
     (let rows = (case s_offset stmt of Some n \<Rightarrow> if n \<noteq> 0 then slice_from rows n else rows | None \<Rightarrow> rows) in
      case s_limit stmt of None \<Rightarrow> rows | Some n \<Rightarrow> slice_to rows n)"

definition project_item :: "uni \<Rightarrow> result_row \<Rightarrow> select_item \<Rightarrow> (pystr \<times> pyval) res" where
  "project_item u row si =
     (case si of
        I_aggregate agg alias \<Rightarrow>
          let name = agg_label u agg alias in
          (case map_of (row_name_index row) name of
             None \<Rightarrow> Inl ExecutionError
           | Some i \<Rightarrow> bindE (row_at (rr_values row) i) (\<lambda>v. Inr (name, v)))
      | I_column name alias q \<Rightarrow>
          (case map_of (row_name_index row) name of
             None \<Rightarrow> Inl ExecutionError
           | Some i \<Rightarrow>
               bindE (row_at (rr_values row) i) (\<lambda>v.
               Inr (case alias of Some a \<Rightarrow> if a \<noteq> [] then a else name | None \<Rightarrow> name, v)))
      | I_star \<Rightarrow> Inl AssertionErr)"

definition project_aggregate_row :: "uni \<Rightarrow> result_row \<Rightarrow> select_stmt \<Rightarrow> result_row res" where
  "project_aggregate_row u row stmt =
     (if I_star \<in> set (s_items stmt) then Inr row
      else bindE (mapE (project_item u row) (s_items stmt)) (\<lambda>cvs.
        Inr \<lparr>rr_values = map snd cvs, rr_columns = map fst cvs\<rparr>))"

definition project_legacy_row :: "select_stmt \<Rightarrow> pyval list \<Rightarrow> nat list \<Rightarrow> pyval list res" where
  "project_legacy_row stmt vals proj_idx =
     (if s_columns stmt = [ustr ''*''] then Inr vals else mapE (row_at vals) proj_idx)"

section \<open>ORDER BY of table rows\<close>

type_synonym scan_row = "int \<times> pyval list \<times> int"

definition row_vals :: "scan_row \<Rightarrow> pyval list" where
  "row_vals r = fst (snd r)"

text \<open>One key of \<open>cmp\<close>: both values are validated before they are compared.\<close>

definition cmp_item :: "schema_col list \<Rightarrow> nat \<Rightarrow> bool \<Rightarrow> pyval \<Rightarrow> pyval \<Rightarrow> int res" where
  "cmp_item schema i desc v1 v2 =
     (let (col_type, col_params) = col_type_and_params (schema ! i) in
      bindE (on_codec_error ExecutionError (bindE (check_value col_type col_params v1) (\<lambda>_.
        check_value col_type col_params v2))) (\<lambda>_.
      bindE (py_lt v1 v2) (\<lambda>less.
      if less then Inr (if \<not> desc then - 1 else 1)
      else bindE (py_gt v1 v2) (\<lambda>greater.
        if greater then Inr (if \<not> desc then 1 else - 1) else Inr 0))))"

fun cmp_rows :: "schema_col list \<Rightarrow> order_item list \<Rightarrow> scan_row \<Rightarrow> scan_row \<Rightarrow> int res" where
  "cmp_rows schema [] r1 r2 = Inr 0"
| "cmp_rows schema (it # items) r1 r2 =
     (case map_of (schema_name_index schema) (ob_column it) of
        None \<Rightarrow> Inl ExecutionError
      | Some i \<Rightarrow>
          bindE (row_at (row_vals r1) i) (\<lambda>v1.
          bindE (row_at (row_vals r2) i) (\<lambda>v2.
          bindE (cmp_item schema i (ob_desc it) v1 v2) (\<lambda>c.
          if c \<noteq> 0 then Inr c else cmp_rows schema items r1 r2))))"

text \<open>\<open>sorted(rows, key=cmp_to_key(cmp))\<close>.\<close>

definition stable_sort :: "scan_row list \<Rightarrow> order_item list \<Rightarrow> schema_col list \<Rightarrow> scan_row list res" where
  "stable_sort rows items schema =
     py_sorted (\<lambda>r1 r2. bindE (cmp_rows schema items r1 r2) (\<lambda>c. Inr (c < 0))) rows"

section \<open>SELECT on the rows of a scan\<close>

definition validate_select :: "select_stmt \<Rightarrow> schema_col list \<Rightarrow> (nat list \<times> bool) res" where
  "validate_select stmt schema =
     (let aggregate_path = s_agg_aliases stmt \<noteq> [] \<or> s_group_by stmt \<noteq> [];
          name_to_idx = schema_name_index schema in
      if (case s_offset stmt of Some n \<Rightarrow> n < 0 | None \<Rightarrow> False) then Inl ExecutionError
      else if (case s_limit stmt of Some n \<Rightarrow> n < 0 | None \<Rightarrow> False) then Inl ExecutionError
      else if \<not> aggregate_path \<and> list_ex (\<lambda>it. map_of name_to_idx (ob_column it) = None) (s_order_by stmt)
      then Inl ExecutionError
      else
        bindE (if s_columns stmt \<noteq> [ustr ''*''] \<and> \<not> aggregate_path
               then mapE (\<lambda>c. case map_of name_to_idx c of None \<Rightarrow> Inl ExecutionError | Some i \<Rightarrow> Inr i) (s_columns stmt)
               else Inr []) (\<lambda>proj_idx.
        Inr (proj_idx, aggregate_path)))"

definition where_matches :: "expr option \<Rightarrow> schema_col list \<Rightarrow> scan_row \<Rightarrow> bool res" where
  "where_matches w schema r = (case w of None \<Rightarrow> Inr True | Some e \<Rightarrow> eval_expr e (row_vals r) schema)"

definition slice_and_project :: "select_stmt \<Rightarrow> scan_row list \<Rightarrow> nat list \<Rightarrow> pyval list list res" where
  "slice_and_project stmt rows proj_idx =
     mapE (\<lambda>r. project_legacy_row stmt (row_vals r) proj_idx) (apply_limit_offset stmt rows)"

definition exec_scan_select :: "select_stmt \<Rightarrow> schema_col list \<Rightarrow> nat list \<Rightarrow> scan_row list \<Rightarrow> pyval list list res" where
  "exec_scan_select stmt schema proj_idx scanned =
     bindE (filterE (where_matches (s_where stmt) schema) scanned) (\<lambda>rows.
     bindE (if s_order_by stmt \<noteq> [] then stable_sort rows (s_order_by stmt) schema else Inr rows) (\<lambda>rows.
     slice_and_project stmt rows proj_idx))"

definition exec_aggregate_select :: "uni \<Rightarrow> select_stmt \<Rightarrow> schema_col list \<Rightarrow> scan_row list \<Rightarrow> result_row list res" where
  "exec_aggregate_select u stmt schema scanned =
     (if s_items stmt = [] then Inl ExecutionError
      else
        bindE (filterE (where_matches (s_where stmt) schema) scanned) (\<lambda>rows.
        bindE (apply_aggregation u (map row_vals rows) stmt schema) (\<lambda>agg_rows.
        bindE (normalize_having u stmt) (\<lambda>having.
        bindE (apply_having agg_rows having (s_agg_aliases stmt) (s_group_by stmt)) (\<lambda>agg_rows.
        bindE (if s_order_by stmt \<noteq> []
               then apply_order_limit_phase1 agg_rows (s_order_by stmt) (s_agg_aliases stmt) (s_group_by stmt)
               else Inr agg_rows) (\<lambda>agg_rows.
        mapE (\<lambda>r. project_aggregate_row u r stmt) (apply_limit_offset stmt agg_rows)))))))"

section \<open>Values a codec accepts are of one kind\<close>

lemma f_den_pos: "0 < f_den w"
  by (simp add: f_den_def)

lemma finite_frac_ok: "f_finite w \<Longrightarrow> frac_ok (num_of_float w)"
  by (simp add: num_of_float_def frac_ok_def f_den_pos)

definition codec_kind :: "codec \<Rightarrow> nat" where
  "codec_kind c =
     (case c of
        TextC \<Rightarrow> 1 | VarcharC n \<Rightarrow> 1 | CharC n \<Rightarrow> 1 | DateC \<Rightarrow> 2 | TimeC \<Rightarrow> 3 | TimestampC \<Rightarrow> 4 | _ \<Rightarrow> 0)"

lemma to_scaled_finite: "to_scaled p s (PFloat f) = Inr i \<Longrightarrow> f_finite f"
  by (auto simp: to_scaled_def split: if_splits)

fun zoned :: "pyval \<Rightarrow> bool" where
  "zoned (PTimeZ h m s us z) = True"
| "zoned (PDateTimeZ t z) = True"
| "zoned _ = False"

lemma validate_kind:
  assumes "validate c v = Inr ()" and "\<And>t. v = PDateTime t \<Longrightarrow> c = TimestampC" and "\<not> zoned v"
  shows "v \<in> same_kind (codec_kind c)"
  using assms
  by (cases c; cases v)
    (auto simp: same_kind_def codec_kind_def frac_ok_def [of "N_frac _ _"] finite_frac_ok split: if_splits dest!: to_scaled_finite)

text \<open>What a column decodes to: valid for its codec, without a time zone, and a plain date in a DATE column.\<close>

definition sortable :: "schema_col \<Rightarrow> pyval \<Rightarrow> bool" where
  "sortable col v \<longleftrightarrow>
     (case col_type_and_params col of (ty, ps) \<Rightarrow>
        (\<exists>c. codec_for ty ps = Inr c \<and> validate c v = Inr () \<and> \<not> zoned v \<and> ((\<exists>t. v = PDateTime t) \<longrightarrow> c = TimestampC)))"

definition item_less :: "schema_col list \<Rightarrow> order_item \<Rightarrow> scan_row \<Rightarrow> scan_row \<Rightarrow> bool" where
  "item_less schema it r1 r2 =
     (case map_of (schema_name_index schema) (ob_column it) of
        None \<Rightarrow> False
      | Some i \<Rightarrow>
          if ob_desc it then val_less (row_vals r2 ! i) (row_vals r1 ! i)
          else val_less (row_vals r1 ! i) (row_vals r2 ! i))"

definition order_ok :: "schema_col list \<Rightarrow> order_item list \<Rightarrow> scan_row \<Rightarrow> bool" where
  "order_ok schema items r \<longleftrightarrow>
     list_all (\<lambda>it. case map_of (schema_name_index schema) (ob_column it) of
        None \<Rightarrow> False
      | Some i \<Rightarrow> i < length (row_vals r) \<and> sortable (schema ! i) (row_vals r ! i)) items"

lemma sortable_kind:
  assumes "col_type_and_params col = (ty, ps)" and "sortable col v"
  obtains c where "codec_for ty ps = Inr c" and "v \<in> same_kind (codec_kind c)" and "check_value ty ps v = Inr ()"
  using assms validate_kind by (fastforce simp: sortable_def check_value_def)

lemma item_weak_order:
  assumes "it \<in> set items"
  shows "weak_order {r. order_ok schema items r} (item_less schema it)"
proof (cases "map_of (schema_name_index schema) (ob_column it)")
  case None
  then show ?thesis by unfold_locales (simp_all add: item_less_def)
next
  case (Some i)
  obtain ty ps where tp: "col_type_and_params (schema ! i) = (ty, ps)" by force
  have sortable: "sortable (schema ! i) (row_vals r ! i)" if "order_ok schema items r" for r
    using that assms Some by (auto simp: order_ok_def list_all_iff)
  show ?thesis
  proof (cases "codec_for ty ps")
    case (Inl e)
    then have "\<not> order_ok schema items r" for r
      using sortable [of r] sortable_kind [OF tp, of "row_vals r ! i"] by auto
    then show ?thesis by unfold_locales simp_all
  next
    case (Inr c)
    have "(\<lambda>r. row_vals r ! i) ` {r. order_ok schema items r} \<subseteq> same_kind (codec_kind c)"
    proof clarify
      fix r assume "order_ok schema items r"
      from sortable_kind [OF tp sortable [OF this]] Inr show "row_vals r ! i \<in> same_kind (codec_kind c)" by auto
    qed
    from weak_order_image [OF value_order.weak_order_axioms this]
    have w: "weak_order {r. order_ok schema items r} (\<lambda>a b. val_less (row_vals a ! i) (row_vals b ! i))" .
    show ?thesis
    proof (cases "ob_desc it")
      case True
      then have "item_less schema it = (\<lambda>a b. val_less (row_vals b ! i) (row_vals a ! i))"
        using Some by (simp add: item_less_def fun_eq_iff)
      then show ?thesis using weak_order_dual [OF w] by simp
    next
      case False
      then have "item_less schema it = (\<lambda>a b. val_less (row_vals a ! i) (row_vals b ! i))"
        using Some by (simp add: item_less_def fun_eq_iff)
      then show ?thesis using w by simp
    qed
  qed
qed

interpretation order_by: weak_order "{r. order_ok schema items r}" "lex_less (map (item_less schema) items)"
  for schema items
  by (rule weak_order_lex) (auto intro: item_weak_order)

lemma cmp_item_ok:
  assumes "sortable (schema ! i) v1" and "sortable (schema ! i) v2"
  shows "cmp_item schema i desc v1 v2 =
    Inr (if val_less v1 v2 then (if desc then 1 else - 1) else if val_less v2 v1 then (if desc then - 1 else 1) else 0)"
proof -
  obtain ty ps where tp: "col_type_and_params (schema ! i) = (ty, ps)" by force
  obtain c where c: "codec_for ty ps = Inr c" "v1 \<in> same_kind (codec_kind c)" "check_value ty ps v1 = Inr ()"
    using sortable_kind [OF tp assms(1)] .
  obtain c' where c': "codec_for ty ps = Inr c'" "v2 \<in> same_kind (codec_kind c')" "check_value ty ps v2 = Inr ()"
    using sortable_kind [OF tp assms(2)] .
  have k: "v2 \<in> same_kind (codec_kind c)" using c(1) c'(1,2) by simp
  show ?thesis
    by (simp add: cmp_item_def tp c(3) c'(3) on_codec_error_def py_gt_def
        py_lt_same_kind [OF c(2) k] py_lt_same_kind [OF k c(2)])
qed

lemma cmp_rows_ok:
  assumes "order_ok schema items r1" and "order_ok schema items r2"
  shows "\<exists>c. cmp_rows schema items r1 r2 = Inr c \<and> (c < 0 \<longleftrightarrow> lex_less (map (item_less schema) items) r1 r2)"
  using assms
proof (induction items)
  case Nil
  then show ?case by simp
next
  case (Cons it items)
  obtain i where i: "map_of (schema_name_index schema) (ob_column it) = Some i"
      "i < length (row_vals r1)" "i < length (row_vals r2)"
      "sortable (schema ! i) (row_vals r1 ! i)" "sortable (schema ! i) (row_vals r2 ! i)"
    using Cons.prems by (auto simp: order_ok_def split: option.splits)
  have IH: "\<exists>c. cmp_rows schema items r1 r2 = Inr c \<and> (c < 0 \<longleftrightarrow> lex_less (map (item_less schema) items) r1 r2)"
    by (rule Cons.IH) (use Cons.prems in \<open>simp_all add: order_ok_def\<close>)
  have asym: "\<not> (item_less schema it r1 r2 \<and> item_less schema it r2 r1)"
    using weak_order.asym [OF item_weak_order [of it "it # items" schema]] Cons.prems by auto
  have less: "item_less schema it a b = (if ob_desc it then val_less (row_vals b ! i) (row_vals a ! i)
      else val_less (row_vals a ! i) (row_vals b ! i))" for a b
    using i(1) by (simp add: item_less_def)
  show ?case using IH asym i
    by (cases "ob_desc it") (auto simp: row_at_def cmp_item_ok less)
qed

section \<open>Grouping\<close>

definition eq_class :: "pyval \<Rightarrow> (int \<times> rat) + pyval" where
  "eq_class v = (case num_of v of Some x \<Rightarrow> Inl (num_key x) | None \<Rightarrow> Inr (in_utc v))"

lemma num_of_utc: "num_of (in_utc v) = num_of v"
  by (cases v) simp_all

lemma num_eq_refl: "num_eq x x \<Longrightarrow> num_of v = Some x \<Longrightarrow> frac_ok x"
  using f_den_pos by (cases v; cases x) (auto simp: frac_ok_def num_of_float_def split: if_splits)

lemma py_eq_class: "py_eq a a \<Longrightarrow> py_eq b b \<Longrightarrow> py_eq a b \<longleftrightarrow> eq_class a = eq_class b"
  using num_of_utc [of a] num_of_utc [of b]
  by (cases "num_of a"; cases "num_of b") (auto simp: py_eq_def eq_class_def num_eq_refl num_eq_key)

definition key_ok :: "pyval list \<Rightarrow> bool" where
  "key_ok k \<longleftrightarrow> list_all (\<lambda>v. py_eq v v) k"

lemma key_eq_class: "key_ok k \<Longrightarrow> key_ok l \<Longrightarrow> key_eq k l \<longleftrightarrow> map eq_class k = map eq_class l"
  unfolding key_eq_def key_ok_def
  by (induction k arbitrary: l) (auto simp: list_all2_Cons1 Cons_eq_map_conv py_eq_class)

definition key_of :: "nat list \<Rightarrow> pyval list \<Rightarrow> pyval list" where
  "key_of idxs r = map (\<lambda>i. r ! i) idxs"

definition grouped :: "(pyval list \<Rightarrow> pyval list) \<Rightarrow> pyval list list \<Rightarrow> pyval list list \<Rightarrow> (pyval list \<times> pyval list list) list" where
  "grouped f rows ks = map (\<lambda>k. (k, filter (\<lambda>r. key_eq k (f r)) rows)) ks"

lemma group_add_absent:
  assumes "\<And>k. k \<in> set ks \<Longrightarrow> \<not> key_eq k (f r)"
  shows "group_add (f r) r (grouped f rows ks) = grouped f (rows @ [r]) ks @ [(f r, [r])]"
  using assms by (induction ks) (auto simp: grouped_def)

lemma group_add_present:
  assumes "\<exists>k \<in> set ks. key_eq k (f r)" and "sorted_wrt (\<lambda>a b. \<not> key_eq a b) ks"
    and "list_all key_ok ks" and "key_ok (f r)"
  shows "group_add (f r) r (grouped f rows ks) = grouped f (rows @ [r]) ks"
  using assms
proof (induction ks)
  case Nil
  then show ?case by simp
next
  case (Cons k ks)
  show ?case
  proof (cases "key_eq k (f r)")
    case True
    have "\<not> key_eq l (f r)" if "l \<in> set ks" for l
      using that True Cons.prems by (auto simp: key_eq_class list_all_iff)
    then show ?thesis using True by (auto simp: grouped_def)
  next
    case False
    then show ?thesis using Cons by (auto simp: grouped_def)
  qed
qed

lemma group_rows_grouped:
  assumes "\<And>r. r \<in> set rows \<Longrightarrow> (\<forall>i \<in> set idxs. i < length r) \<and> key_ok (key_of idxs r)"
  shows "\<exists>ks. group_rows idxs rows = Inr (grouped (key_of idxs) rows ks) \<and> sorted_wrt (\<lambda>a b. \<not> key_eq a b) ks \<and>
    (\<forall>r \<in> set rows. \<exists>k \<in> set ks. key_eq k (key_of idxs r)) \<and> set ks \<subseteq> key_of idxs ` set rows"
  using assms
proof (induction rows rule: rev_induct)
  case Nil
  show ?case by (rule exI [of _ "[]"]) (simp add: group_rows_def grouped_def)
next
  case (snoc r rows)
  then obtain ks where ks: "group_rows idxs rows = Inr (grouped (key_of idxs) rows ks)"
      "sorted_wrt (\<lambda>a b. \<not> key_eq a b) ks" "\<forall>r \<in> set rows. \<exists>k \<in> set ks. key_eq k (key_of idxs r)"
      "set ks \<subseteq> key_of idxs ` set rows" by auto
  have ok: "list_all key_ok ks" "key_ok (key_of idxs r)" using ks(4) snoc.prems by (auto simp: list_all_iff)
  have key: "mapE (row_at r) idxs = Inr (key_of idxs r)"
    unfolding key_of_def using snoc.prems [of r] by (intro mapE_all_Inr) (simp add: row_at_def)
  have run: "group_rows idxs (rows @ [r]) = Inr (group_add (key_of idxs r) r (grouped (key_of idxs) rows ks))"
    using ks(1) key by (simp add: group_rows_def foldE_append)
  show ?case
  proof (cases "\<exists>k \<in> set ks. key_eq k (key_of idxs r)")
    case True
    then show ?thesis using run group_add_present [of ks "key_of idxs" r rows, OF True ks(2) ok] ks by (intro exI [of _ ks]) auto
  next
    case False
    have refl: "key_eq (key_of idxs r) (key_of idxs r)" using ok(2) by (simp add: key_eq_class)
    have "filter (\<lambda>x. key_eq (key_of idxs r) (key_of idxs x)) rows = []"
    proof (rule ccontr)
      assume "filter (\<lambda>x. key_eq (key_of idxs r) (key_of idxs x)) rows \<noteq> []"
      then obtain x where x: "x \<in> set rows" "key_eq (key_of idxs r) (key_of idxs x)" by (auto simp: filter_empty_conv)
      then obtain k where "k \<in> set ks" "key_eq k (key_of idxs x)" using ks(3) by blast
      then have "key_eq k (key_of idxs r)" using x snoc.prems ok by (auto simp: key_eq_class list_all_iff)
      then show False using False \<open>k \<in> set ks\<close> by blast
    qed
    then have "group_rows idxs (rows @ [r]) = Inr (grouped (key_of idxs) (rows @ [r]) (ks @ [key_of idxs r]))"
      using run group_add_absent [of ks "key_of idxs" r rows] False refl by (auto simp: grouped_def)
    then show ?thesis using ks False refl by (intro exI [of _ "ks @ [key_of idxs r]"]) (auto simp: sorted_wrt_append)
  qed
qed

section \<open>Aggregates of a column\<close>

lemma foldE_rows:
  assumes "\<And>r. r \<in> set rows \<Longrightarrow> i < length r"
  shows "foldE (\<lambda>s r. bindE (cell r (Some i)) (\<lambda>v. if v = PNone then Inr s else f s v)) s rows =
    foldE f s (filter (\<lambda>v. v \<noteq> PNone) (map (\<lambda>r. r ! i) rows))"
  using assms by (induction rows arbitrary: s) (auto simp: cell_def row_at_def)

lemma foldE_count: "foldE (\<lambda>n v. Inr (n + 1)) n vs = Inr (n + int (length vs))"
  by (induction vs arbitrary: n) auto

text \<open>The loop of MIN and, with the order reversed, of MAX.\<close>

context weak_order begin

lemma best_of:
  assumes "set vs \<subseteq> A" and "b \<in> A" and "n \<notin> A" and "\<And>a b. a \<in> A \<Longrightarrow> b \<in> A \<Longrightarrow> r a b = Inr (lt a b)"
  shows "\<exists>m \<in> insert b (set vs).
    foldE (\<lambda>best v. if best = n then Inr v else bindE (r v best) (\<lambda>l. Inr (if l then v else best))) b vs = Inr m \<and>
    \<not> lt b m \<and> (\<forall>v \<in> set vs. \<not> lt v m)"
  using assms(1,2)
proof (induction vs arbitrary: b)
  case Nil
  then show ?case using asym [of b b] by auto
next
  case (Cons v vs)
  then have A: "v \<in> A" "b \<in> A" "set vs \<subseteq> A" by auto
  let ?b = "if lt v b then v else b"
  have bA: "?b \<in> A" using A by auto
  obtain m where m: "m \<in> insert ?b (set vs)" "\<not> lt ?b m" "\<forall>v \<in> set vs. \<not> lt v m"
      "foldE (\<lambda>best v. if best = n then Inr v else bindE (r v best) (\<lambda>l. Inr (if l then v else best))) ?b vs = Inr m"
    using Cons.IH [OF A(3) bA] by blast
  have mA: "m \<in> A" using m(1) A by (auto split: if_splits)
  have best: "\<not> lt b m" "\<not> lt v m"
    using m(2) neg_trans [OF A(2,1) mA] neg_trans [OF A(1,2) mA] asym [OF A(1,2)] by (simp_all split: if_splits)
  have "b \<noteq> n" using A(2) assms(3) by blast
  then have "foldE (\<lambda>best v. if best = n then Inr v else bindE (r v best) (\<lambda>l. Inr (if l then v else best))) b (v # vs) = Inr m"
    using m(4) assms(4) [OF A(1,2)] by simp
  moreover have "m \<in> insert b (set (v # vs))" using m(1) by (cases "lt v b") auto
  moreover have "\<forall>w \<in> set (v # vs). \<not> lt w m" using best(2) m(3) by simp
  ultimately show ?case using best(1) by blast
qed

end

lemma not_None_kind: "PNone \<notin> same_kind k"
  by (simp add: same_kind_def)

lemma column_aggregates_parts:
  assumes "\<And>r. r \<in> set rows \<Longrightarrow> i < length r"
    and "vs = filter (\<lambda>v. v \<noteq> PNone) (map (\<lambda>r. r ! i) rows)" and "set vs \<subseteq> same_kind k"
  shows "agg_count_expr rows (Some i) = Inr (PInt (int (length vs)))"
    and "vs = [] \<Longrightarrow> agg_min rows (Some i) = Inr PNone \<and> agg_max rows (Some i) = Inr PNone \<and>
      agg_sum rows (Some i) = Inr PNone \<and> agg_avg u rows (Some i) = Inr PNone"
    and "vs \<noteq> [] \<Longrightarrow> \<exists>m \<in> set vs. agg_min rows (Some i) = Inr m \<and> (\<forall>v \<in> set vs. \<not> val_less v m)"
    and "vs \<noteq> [] \<Longrightarrow> \<exists>m \<in> set vs. agg_max rows (Some i) = Inr m \<and> (\<forall>v \<in> set vs. \<not> val_less m v)"
    and "vs = map PInt ns \<Longrightarrow> ns \<noteq> [] \<Longrightarrow> agg_sum rows (Some i) = Inr (PInt (sum_list ns))"
proof -
  note loop = foldE_rows [of rows i, OF assms(1), folded assms(2)]
  have kind: "a \<in> same_kind k" if "a \<in> set vs" for a using that assms(3) by blast
  have "(\<lambda>n r. bindE (cell r (Some i)) (\<lambda>v. Inr (if v = PNone then n else n + 1)) :: int res) =
      (\<lambda>n r. bindE (cell r (Some i)) (\<lambda>v. if v = PNone then Inr n else Inr (n + 1)))"
    by (intro ext arg_cong [of _ _ "bindE _"]) simp
  then show "agg_count_expr rows (Some i) = Inr (PInt (int (length vs)))"
    using loop [of "\<lambda>n v. Inr (n + 1)" "0 :: int"] by (simp add: agg_count_expr_def foldE_count)
  have sum: "agg_sum rows (Some i) = foldE (\<lambda>t v. if t = PNone then Inr v else py_add t v) PNone vs"
    unfolding agg_sum_def by (rule loop)
  have min: "agg_min rows (Some i) =
      foldE (\<lambda>b v. if b = PNone then Inr v else bindE (py_lt v b) (\<lambda>l. Inr (if l then v else b))) PNone vs"
    unfolding agg_min_def by (rule loop)
  have max: "agg_max rows (Some i) =
      foldE (\<lambda>b v. if b = PNone then Inr v else bindE (py_gt v b) (\<lambda>l. Inr (if l then v else b))) PNone vs"
    unfolding agg_max_def by (rule loop)
  show "agg_min rows (Some i) = Inr PNone \<and> agg_max rows (Some i) = Inr PNone \<and>
      agg_sum rows (Some i) = Inr PNone \<and> agg_avg u rows (Some i) = Inr PNone" if "vs = []"
  proof -
    have "(\<lambda>(s, n) r. bindE (cell r (Some i)) (\<lambda>v. if v = PNone then Inr (s, n)
          else bindE (to_float u v) (\<lambda>f. Inr (float_add s f, n + 1)))) =
        (\<lambda>p r. bindE (cell r (Some i)) (\<lambda>v. if v = PNone then Inr p
          else case p of (s, n) \<Rightarrow> bindE (to_float u v) (\<lambda>f. Inr (float_add s f, n + 1 :: nat))))"
      by (intro ext) (auto split: prod.splits)
    then have "agg_avg u rows (Some i) = bindE (foldE (\<lambda>p v. case p of (s, n) \<Rightarrow>
        bindE (to_float u v) (\<lambda>f. Inr (float_add s f, n + 1 :: nat))) (0, 0) vs) (\<lambda>(s, n).
        if n = 0 then Inr PNone else bindE (float_div_nat s n) (\<lambda>q. Inr (PFloat q)))"
      unfolding agg_avg_def by (simp only: loop)
    then show ?thesis using that sum min max by simp
  qed
  show "\<exists>m \<in> set vs. agg_min rows (Some i) = Inr m \<and> (\<forall>v \<in> set vs. \<not> val_less v m)" if "vs \<noteq> []"
  proof -
    obtain w ws where vs: "vs = w # ws" using \<open>vs \<noteq> []\<close> by (cases vs) auto
    show ?thesis
      using value_order.best_of [of ws k w PNone py_lt] kind not_None_kind [of k] unfolding min vs
      by (auto simp: py_lt_same_kind)
  qed
  show "\<exists>m \<in> set vs. agg_max rows (Some i) = Inr m \<and> (\<forall>v \<in> set vs. \<not> val_less m v)" if "vs \<noteq> []"
  proof -
    obtain w ws where vs: "vs = w # ws" using \<open>vs \<noteq> []\<close> by (cases vs) auto
    show ?thesis
      using weak_order.best_of [OF weak_order_dual [OF value_order.weak_order_axioms], of ws k w PNone py_gt]
        kind not_None_kind [of k] unfolding max vs
      by (auto simp: py_lt_same_kind py_gt_def)
  qed
  show "agg_sum rows (Some i) = Inr (PInt (sum_list ns))" if "vs = map PInt ns" "ns \<noteq> []"
  proof -
    have "foldE (\<lambda>t v. if t = PNone then Inr v else py_add t v) (PInt a) (map PInt ms) = Inr (PInt (a + sum_list ms))" for a ms
      by (induction ms arbitrary: a) (simp_all add: py_add_def add.assoc)
    then show ?thesis using that unfolding sum by (cases ns) simp_all
  qed
qed

section \<open>Properties\<close>

definition example_schema :: "schema_col list" where
  "example_schema = [Col3 (ustr ''n'') ''INT'' [], Col3 (ustr ''s'') ''TEXT'' []]"

definition by_col :: "string \<Rightarrow> bool \<Rightarrow> order_item" where
  "by_col c desc = \<lparr>ob_column = ustr c, ob_desc = desc, ob_qualifier = None\<rparr>"

text \<open>
  C34. ORDER BY on columns that hold no NULL returns a permutation of the rows in the order of the listed
  columns, each ascending or descending as asked, the first that differs deciding, and rows that agree on all
  of them stay in the order of the scan.
\<close>

theorem order_by_stable:
  assumes "\<And>r. r \<in> set rows \<Longrightarrow> order_ok schema items r"
  shows "\<exists>zs. stable_sort rows items schema = Inr zs \<and> mset zs = mset rows \<and>
    sorted_wrt (\<lambda>a b. \<not> lex_less (map (item_less schema) items) b a) zs \<and>
    (\<forall>p \<in> set rows.
       filter (\<lambda>a. \<not> lex_less (map (item_less schema) items) p a \<and> \<not> lex_less (map (item_less schema) items) a p) zs =
       filter (\<lambda>a. \<not> lex_less (map (item_less schema) items) p a \<and> \<not> lex_less (map (item_less schema) items) a p) rows)"
proof -
  have "bindE (cmp_rows schema items a b) (\<lambda>c. Inr (c < 0)) = Inr (lex_less (map (item_less schema) items) a b)"
    if "a \<in> {r. order_ok schema items r}" "b \<in> {r. order_ok schema items r}" for a b
    using cmp_rows_ok [of schema items a b] that by auto
  from order_by.sorted_result [of rows schema items, OF _ this] assms show ?thesis
    unfolding stable_sort_def by (auto simp: subset_iff)
qed

lemma order_by_stable_witness:
  "\<exists>zs. stable_sort [(0, [PInt 1, PStr [98]], 2), (1, [PInt 2, PStr [97]], 2), (2, [PInt 1, PStr [97]], 2)]
      [by_col ''n'' True] example_schema = Inr zs \<and>
    zs = [(1, [PInt 2, PStr [97]], 2), (0, [PInt 1, PStr [98]], 2), (2, [PInt 1, PStr [97]], 2)] \<and>
    sorted_wrt (\<lambda>a b. \<not> lex_less (map (item_less example_schema) [by_col ''n'' True]) b a) zs"
proof -
  let ?rows = "[(0, [PInt 1, PStr [98]], 2), (1, [PInt 2, PStr [97]], 2), (2, [PInt 1, PStr [97]], 2)] :: scan_row list"
  have "order_ok example_schema [by_col ''n'' True] r" if "r \<in> set ?rows" for r
    using that by (auto simp: order_ok_def example_schema_def by_col_def schema_name_index_def row_vals_def
        sortable_def codec_for_def is_type_name_def lookup_def registry_def check_bounds_def int_bound_def)
  from order_by_stable [of ?rows example_schema "[by_col ''n'' True]", OF this]
  obtain zs where zs: "stable_sort ?rows [by_col ''n'' True] example_schema = Inr zs"
      "sorted_wrt (\<lambda>a b. \<not> lex_less (map (item_less example_schema) [by_col ''n'' True]) b a) zs" by blast
  have "stable_sort ?rows [by_col ''n'' True] example_schema =
      Inr [(1, [PInt 2, PStr [97]], 2), (0, [PInt 1, PStr [98]], 2), (2, [PInt 1, PStr [97]], 2)]"
    by code_simp
  then show ?thesis using zs by auto
qed

text \<open>
  Over a column whose values other than NULL are of one kind, COUNT counts them, MIN and MAX
  return one of them that none is below or above, SUM of integers is their exact sum, and all but COUNT give
  NULL when there is none.
\<close>

theorem column_aggregates:
  assumes "\<And>r. r \<in> set rows \<Longrightarrow> i < length r"
    and "vs = filter (\<lambda>v. v \<noteq> PNone) (map (\<lambda>r. r ! i) rows)" and "set vs \<subseteq> same_kind k"
  shows "agg_count_expr rows (Some i) = Inr (PInt (int (length vs))) \<and>
    (vs = [] \<longrightarrow> agg_min rows (Some i) = Inr PNone \<and> agg_max rows (Some i) = Inr PNone \<and>
       agg_sum rows (Some i) = Inr PNone \<and> agg_avg u rows (Some i) = Inr PNone) \<and>
    (vs \<noteq> [] \<longrightarrow> (\<exists>m \<in> set vs. agg_min rows (Some i) = Inr m \<and> (\<forall>v \<in> set vs. \<not> val_less v m))) \<and>
    (vs \<noteq> [] \<longrightarrow> (\<exists>m \<in> set vs. agg_max rows (Some i) = Inr m \<and> (\<forall>v \<in> set vs. \<not> val_less m v))) \<and>
    (\<forall>ns. vs = map PInt ns \<and> ns \<noteq> [] \<longrightarrow> agg_sum rows (Some i) = Inr (PInt (sum_list ns)))"
  using column_aggregates_parts [OF assms] by blast


text \<open>
  C35. GROUP BY partitions the rows: when no key holds a NaN, each group is exactly the rows whose key
  equals its key, in scan order, no two groups have equal keys, and every row is in a group.
\<close>

theorem group_by_partition:
  assumes "\<And>r. r \<in> set rows \<Longrightarrow> (\<forall>i \<in> set idxs. i < length r) \<and> list_all (\<lambda>v. py_eq v v) (key_of idxs r)"
  shows "\<exists>ks. group_rows idxs rows = Inr (map (\<lambda>k. (k, filter (\<lambda>r. list_all2 py_eq k (key_of idxs r)) rows)) ks) \<and>
    sorted_wrt (\<lambda>a b. \<not> list_all2 py_eq a b) ks \<and>
    (\<forall>r \<in> set rows. \<exists>k \<in> set ks. list_all2 py_eq k (key_of idxs r)) \<and> set ks \<subseteq> key_of idxs ` set rows"
  using group_rows_grouped [of rows idxs] assms unfolding grouped_def key_eq_def key_ok_def by blast

text \<open>
  In the aggregate path DESC has no effect on texts: sorting result rows whose values are all texts
  gives the same order for any choice of ASC and DESC.
\<close>

theorem agg_order_desc_text_ignored:
  assumes "\<And>r v. r \<in> set rows \<Longrightarrow> v \<in> set (rr_values r) \<Longrightarrow> \<exists>s. v = PStr s"
  shows "apply_order_limit_phase1 rows (map (\<lambda>ob. ob\<lparr>ob_desc := d ob\<rparr>) order_by) aliases group_cols =
    apply_order_limit_phase1 rows order_by aliases group_cols"
proof -
  have keys: "order_keys idx (map (\<lambda>ob. ob\<lparr>ob_desc := d ob\<rparr>) order_by) aliases group_cols =
      bindE (order_keys idx order_by aliases group_cols) (\<lambda>ks. Inr (map2 (\<lambda>(i, _) ob. (i, d ob)) ks order_by))" for idx
    unfolding order_keys_def by (induction order_by) (auto simp: bindE_assoc bindE_def split: option.splits sum.splits)
  have part: "sort_key_of (map2 (\<lambda>(i, _) ob. (i, d ob)) ks obs) r = sort_key_of ks r"
    if row: "r \<in> set rows" and len: "length ks = length obs" for ks r and obs :: "order_item list"
    using len
  proof (induction ks obs rule: list_induct2)
    case (Cons k ks ob obs)
    obtain i b where k: "k = (i, b)" by force
    have "bindE (row_at (rr_values r) i) (\<lambda>v. Inr (sort_part (d ob) v)) = bindE (row_at (rr_values r) i) (\<lambda>v. Inr (sort_part b v))"
    proof (cases "i < length (rr_values r)")
      case True
      then obtain s where "rr_values r ! i = PStr s" using assms [OF row nth_mem [of i "rr_values r"]] by blast
      then show ?thesis by (simp add: row_at_def sort_part_def neg_for_sort_def)
    qed (simp add: row_at_def)
    then show ?case using Cons k by (simp add: sort_key_of_def)
  qed simp
  have len: "order_keys idx order_by aliases group_cols = Inr ks \<Longrightarrow> length ks = length order_by" for idx ks
    unfolding order_keys_def by (rule mapE_Inr_length)
  have "mapE (\<lambda>row. bindE (sort_key_of (map2 (\<lambda>(i, _) ob. (i, d ob)) ks order_by) row) (\<lambda>k. Inr (k, row))) rows =
      mapE (\<lambda>row. bindE (sort_key_of ks row) (\<lambda>k. Inr (k, row))) rows" if "length ks = length order_by" for ks
    by (rule mapE_cong) (simp_all add: part that)
  then show ?thesis
    by (auto simp: apply_order_limit_phase1_def keys bindE_assoc bindE_def dest: len split: sum.splits)
qed


lemma group_by_partition_witness:
  "\<exists>ks. group_rows [0] [[PInt 1, PInt 10], [PNone, PInt 11], [PInt 1, PInt 12]] =
      Inr (map (\<lambda>k. (k, filter (\<lambda>r. list_all2 py_eq k (key_of [0] r)) [[PInt 1, PInt 10], [PNone, PInt 11], [PInt 1, PInt 12]])) ks) \<and>
    sorted_wrt (\<lambda>a b. \<not> list_all2 py_eq a b) ks"
proof -
  let ?rows = "[[PInt 1, PInt 10], [PNone, PInt 11], [PInt 1, PInt 12]]"
  have "(\<forall>i \<in> set [0]. i < length r) \<and> list_all (\<lambda>v. py_eq v v) (key_of [0] r)" if "r \<in> set ?rows" for r
    using that by (auto simp: key_of_def py_eq_def)
  from group_by_partition [of ?rows "[0]", OF this] show ?thesis by blast
qed

lemma column_aggregates_witness:
  "agg_count_expr [[PInt 4], [PNone], [PInt 9]] (Some 0) = Inr (PInt 2) \<and>
   agg_sum [[PInt 4], [PNone], [PInt 9]] (Some 0) = Inr (PInt 13) \<and>
   (\<exists>m \<in> {PInt 4, PInt 9}. agg_min [[PInt 4], [PNone], [PInt 9]] (Some 0) = Inr m \<and> \<not> val_less (PInt 4) m)"
proof -
  have vs: "[PInt 4, PInt 9] = filter (\<lambda>v. v \<noteq> PNone) (map (\<lambda>r. r ! 0) [[PInt 4], [PNone], [PInt 9]])" by simp
  have kind: "set [PInt 4, PInt 9] \<subseteq> same_kind 0" by (simp add: same_kind_def frac_ok_def)
  have width: "r \<in> set [[PInt 4], [PNone], [PInt 9]] \<Longrightarrow> 0 < length r" for r by auto
  note all = column_aggregates [of "[[PInt 4], [PNone], [PInt 9]]" 0 _ 0, OF width vs kind]
  have "agg_sum [[PInt 4], [PNone], [PInt 9]] (Some 0) = Inr (PInt (sum_list [4, 9]))"
    using all [THEN conjunct2, THEN conjunct2, THEN conjunct2, THEN conjunct2, rule_format, of "[4, 9]"] by simp
  then show ?thesis using all [THEN conjunct1] all [THEN conjunct2, THEN conjunct2, THEN conjunct1] by auto
qed

lemma agg_order_desc_text_ignored_witness:
  "apply_order_limit_phase1
     [\<lparr>rr_values = [PStr [98]], rr_columns = [[115]]\<rparr>, \<lparr>rr_values = [PStr [97]], rr_columns = [[115]]\<rparr>]
     [by_col ''s'' True] [] [[115]] =
   Inr [\<lparr>rr_values = [PStr [97]], rr_columns = [[115]]\<rparr>, \<lparr>rr_values = [PStr [98]], rr_columns = [[115]]\<rparr>]"
proof -
  let ?rows = "[\<lparr>rr_values = [PStr [98]], rr_columns = [[115]]\<rparr>, \<lparr>rr_values = [PStr [97]], rr_columns = [[115]]\<rparr>]"
  have "apply_order_limit_phase1 ?rows (map (\<lambda>ob. ob\<lparr>ob_desc := True\<rparr>) [by_col ''s'' False]) [] [[115]] =
      apply_order_limit_phase1 ?rows [by_col ''s'' False] [] [[115]]"
    by (rule agg_order_desc_text_ignored) auto
  moreover have "apply_order_limit_phase1 ?rows [by_col ''s'' False] [] [[115]] =
      Inr [\<lparr>rr_values = [PStr [97]], rr_columns = [[115]]\<rparr>, \<lparr>rr_values = [PStr [98]], rr_columns = [[115]]\<rparr>]"
    unfolding by_col_def by code_simp
  ultimately show ?thesis by (simp add: by_col_def)
qed

text \<open>In the aggregate path NULL sorts with the number 0 when ascending, and cannot be compared with a text.\<close>

lemma agg_order_null_as_zero:
  "apply_order_limit_phase1
     [\<lparr>rr_values = [PInt 1], rr_columns = [[110]]\<rparr>, \<lparr>rr_values = [PNone], rr_columns = [[110]]\<rparr>, \<lparr>rr_values = [PInt (- 1)], rr_columns = [[110]]\<rparr>]
     [by_col ''n'' False] [] [[110]] =
   Inr [\<lparr>rr_values = [PInt (- 1)], rr_columns = [[110]]\<rparr>, \<lparr>rr_values = [PNone], rr_columns = [[110]]\<rparr>, \<lparr>rr_values = [PInt 1], rr_columns = [[110]]\<rparr>]"
  "apply_order_limit_phase1
     [\<lparr>rr_values = [PStr [97]], rr_columns = [[110]]\<rparr>, \<lparr>rr_values = [PNone], rr_columns = [[110]]\<rparr>]
     [by_col ''n'' False] [] [[110]] = Inl TypeErr"
  unfolding by_col_def by code_simp+

end
