(* ===== verification/Table_Store.thy ===== *)
theory Table_Store
  imports Exec_State Query
begin

text \<open>
  The storage of table rows in \<open>src/tinydb/executor.py\<close>: data pages, the overflow chain of
  long rows, the scan of a table, and the maintenance of its indexes. The lemmas are in
  \<open>Table_Scan\<close> and \<open>Overflow_Chain\<close>.
\<close>

definition ti_name_index :: "table_info \<Rightarrow> (pystr, nat) dict" where
  "ti_name_index ti = foldl (\<lambda>d (i, c). AList.update (c_name c) i d) [] (zip [0..<length (ti_columns ti)] (ti_columns ti))"

definition CHUNK_SIZE :: int where [simp]: "CHUNK_SIZE = 4072"

definition write_catalog :: "(exec, unit) cmd" where
  "write_catalog = bindS (getS (\<lambda>s. catalog_to_bytes (x_catalog s))) (\<lambda>r. bindS (liftE r) (exec_write_page 1))"

definition load_page :: "int \<Rightarrow> (exec, slotted_page) cmd" where
  "load_page pid = bindS (read_pageS pid) (\<lambda>raw. liftE (from_bytes pid raw))"

definition store_page :: "int \<Rightarrow> slotted_page \<Rightarrow> (exec, unit) cmd" where
  "store_page pid p = bindS (liftE (to_bytes p)) (exec_write_page pid)"

section \<open>Data pages\<close>

text \<open>
  \<open>_alloc_data_page\<close>. A page of an index goes back to the head of the free list, from
  which the next turn takes it again: the loop ends in its first turn or never, and the
  fuel only cuts it short.
\<close>

fun alloc_data_page :: "nat \<Rightarrow> int list \<Rightarrow> (exec, int) cmd" where
  "alloc_data_page 0 reserved = raiseS FuelOut"
| "alloc_data_page (Suc n) reserved =
     bindS (on_exec_pager alloc_page) (\<lambda>pid.
     if pid \<notin> set reserved then returnS pid
     else bindS (on_exec_pager (free_page pid)) (\<lambda>_. alloc_data_page n (pid # reserved)))"

text \<open>The first page of the list that takes the row; \<open>PageFull\<close> moves on to the next.\<close>

fun try_pages :: "int list \<Rightarrow> int list \<Rightarrow> byte list \<Rightarrow> (exec, (int \<times> int) option) cmd" where
  "try_pages index [] row = returnS None"
| "try_pages index (pid # pids) row =
     (if pid \<in> set index then try_pages index pids row
      else
        bindS (load_page pid) (\<lambda>page.
        case insert_row page row of
          Inl e \<Rightarrow> if e = PageFull then try_pages index pids row else raiseS e
        | Inr (sid, page') \<Rightarrow> bindS (store_page pid page') (\<lambda>_. returnS (Some (pid, sid)))))"

definition alloc_fuel :: "exec \<Rightarrow> nat" where
  "alloc_fuel s = length (index_pages s) + 1"

definition insert_inline_only :: "table_info \<Rightarrow> byte list \<Rightarrow> (exec, int \<times> int) cmd" where
  "insert_inline_only ti row =
     bindS (getS index_pages) (\<lambda>index.
     bindS (modifyS (\<lambda>s. s\<lparr>x_data_pages := dict_setdefault (ti_name ti) [ti_root ti] (x_data_pages s)\<rparr>)) (\<lambda>_.
     bindS (getS (\<lambda>s. the (map_of (x_data_pages s) (ti_name ti)))) (\<lambda>data_pages.
     bindS (try_pages index data_pages row) (\<lambda>hit.
     case hit of
       Some ref \<Rightarrow> returnS ref
     | None \<Rightarrow>
         bindS (getS alloc_fuel) (\<lambda>fuel.
         bindS (alloc_data_page fuel index) (\<lambda>new_pid.
         bindS (modifyS (\<lambda>s. s\<lparr>x_data_pages := AList.update (ti_name ti) (data_pages @ [new_pid]) (x_data_pages s),
            x_catalog := map (\<lambda>(n, t). (n, if n = ti_name ti then t\<lparr>ti_next := new_pid\<rparr> else t)) (x_catalog s)\<rparr>)) (\<lambda>_.
         bindS write_catalog (\<lambda>_.
         bindS (load_page new_pid) (\<lambda>page.
         bindS (liftE (insert_row page row)) (\<lambda>(sid, page').
         bindS (store_page new_pid page') (\<lambda>_.
         returnS (new_pid, sid))))))))))))"

section \<open>Overflow chains\<close>

definition overflow_page :: "byte list \<Rightarrow> int \<Rightarrow> byte list res" where
  "overflow_page chunk nxt =
     bindE (to_bytes_be 2 (PAGE_SIZE - py_len chunk)) (\<lambda>free.
     bindE (to_bytes_be 4 nxt) (\<lambda>n.
     let buf = (replicate (nat PAGE_SIZE) 0)[0 := 2];
         buf = set_slice buf 2 4 free; buf = set_slice buf 4 8 n in
     Inr (set_slice buf HEADER_SIZE (HEADER_SIZE + py_len chunk) chunk)))"

text \<open>The loop over the rest of the row: each page is written and linked from the one before.\<close>

function write_overflow :: "byte list \<Rightarrow> int \<Rightarrow> byte list \<Rightarrow> (exec, unit) cmd" where
  "write_overflow rest prev_pid prev_buf =
     (if rest = [] then returnS ()
      else
        let chunk = slice_to rest CHUNK_SIZE; rest' = slice_from rest CHUNK_SIZE in
        bindS (on_exec_pager alloc_page) (\<lambda>ov_pid.
        bindS (liftE (overflow_page chunk (if rest' = [] then NULL_PAGE_ID else 0))) (\<lambda>ov_buf.
        bindS (exec_write_page ov_pid ov_buf) (\<lambda>_.
        bindS (liftE (to_bytes_be 4 ov_pid)) (\<lambda>n.
        bindS (exec_write_page prev_pid (set_slice prev_buf 4 8 n)) (\<lambda>_.
        write_overflow rest' ov_pid ov_buf))))))"
  by pat_completeness auto
termination
  by (relation "measure (\<lambda>(rest, a, b). length rest)") (auto simp: slice_from_def py_norm_def)

declare write_overflow.simps [simp del]

definition insert_with_overflow :: "table_info \<Rightarrow> byte list \<Rightarrow> (exec, int \<times> int) cmd" where
  "insert_with_overflow ti row =
     bindS (insert_inline_only ti (slice_to row CHUNK_SIZE)) (\<lambda>(pid, sid).
     bindS (load_page pid) (\<lambda>page.
     bindS (liftE (get_item (slots page) sid)) (\<lambda>slot.
     bindS (store_page pid (page\<lparr>slots := (slots page)[nat sid := slot\<lparr>s_flags := s_flags slot OR FLAG_SPILL_START\<rparr>]\<rparr>)) (\<lambda>_.
     bindS (read_pageS pid) (\<lambda>prev_buf.
     bindS (write_overflow (slice_from row CHUNK_SIZE) pid prev_buf) (\<lambda>_.
     returnS (pid, sid)))))))"

definition insert_row_into_chain :: "table_info \<Rightarrow> byte list \<Rightarrow> (exec, int \<times> int) cmd" where
  "insert_row_into_chain ti row =
     (if py_len row > MAX_INLINE_PAYLOAD then insert_with_overflow ti row else insert_inline_only ti row)"

text \<open>A chain without a cycle is no longer than the number of pages.\<close>

definition next_overflow :: "byte list \<Rightarrow> int" where
  "next_overflow raw = be_int (slice raw 4 8)"

fun overflow_chunks :: "nat \<Rightarrow> int \<Rightarrow> exec \<Rightarrow> byte list res" where
  "overflow_chunks n pid s =
     (if pid = NULL_PAGE_ID then Inr []
      else case n of
        0 \<Rightarrow> Inl FuelOut
      | Suc n' \<Rightarrow>
          bindE (exec_read_page pid s) (\<lambda>raw.
          bindE (overflow_chunks n' (next_overflow raw) s) (\<lambda>more. Inr (slice_from raw HEADER_SIZE @ more))))"

declare overflow_chunks.simps [simp del]

definition read_overflow_chain :: "int \<Rightarrow> exec \<Rightarrow> byte list res" where
  "read_overflow_chain start s =
     bindE (exec_read_page start s) (\<lambda>raw. overflow_chunks (tree_fuel s) (next_overflow raw) s)"

fun free_overflow :: "nat \<Rightarrow> int \<Rightarrow> (exec, unit) cmd" where
  "free_overflow n pid =
     (if pid = NULL_PAGE_ID then returnS ()
      else case n of
        0 \<Rightarrow> raiseS FuelOut
      | Suc n' \<Rightarrow>
          bindS (read_pageS pid) (\<lambda>ov.
          bindS (liftE (get_item ov 0)) (\<lambda>ty.
          if ty \<noteq> 2 then raiseS RuntimeErr
          else bindS (exec_write_page pid (ov[0 := 0])) (\<lambda>_. free_overflow n' (next_overflow ov)))))"

declare free_overflow.simps [simp del]

definition free_overflow_chain :: "int \<Rightarrow> (exec, unit) cmd" where
  "free_overflow_chain start =
     bindS (read_pageS start) (\<lambda>raw. bindS (getS tree_fuel) (\<lambda>n. free_overflow n (next_overflow raw)))"

section \<open>Scans\<close>

definition spilled :: "slot \<Rightarrow> bool" where
  "spilled s \<longleftrightarrow> s_flags s AND FLAG_SPILL_START \<noteq> 0"

definition read_slot_row_bytes :: "slotted_page \<Rightarrow> int \<Rightarrow> int \<Rightarrow> exec \<Rightarrow> byte list option res" where
  "read_slot_row_bytes page sid pid s =
     bindE (get_item (slots page) sid) (\<lambda>slot.
     if tombstoned slot then Inr None
     else bindE (get_row page sid) (\<lambda>row.
       case row of
         None \<Rightarrow> Inr None
       | Some b \<Rightarrow>
           if spilled slot then bindE (read_overflow_chain pid s) (\<lambda>more. Inr (Some (b @ more)))
           else Inr (Some b)))"

text \<open>The loop over the slots of a page, and the loop over the pages.\<close>

fun scan_slots :: "table_info \<Rightarrow> slotted_page \<Rightarrow> int \<Rightarrow> int list \<Rightarrow> exec \<Rightarrow> scan_row list res" where
  "scan_slots ti page pid [] s = Inr []"
| "scan_slots ti page pid (sid # sids) s =
     bindE (read_slot_row_bytes page sid pid s) (\<lambda>row.
     bindE (case row of
         None \<Rightarrow> Inr []
       | Some b \<Rightarrow> bindE (decode_row b (schema_v2 ti)) (\<lambda>vals. Inr [(sid, vals, pid)])) (\<lambda>hit.
     bindE (scan_slots ti page pid sids s) (\<lambda>rest. Inr (hit @ rest))))"

definition scan_page :: "table_info \<Rightarrow> exec \<Rightarrow> int \<Rightarrow> scan_row list res" where
  "scan_page ti s pid =
     (if pid \<in> set (index_pages s) then Inr []
      else
        bindE (exec_read_page pid s) (\<lambda>raw.
        bindE (from_bytes pid raw) (\<lambda>page.
        scan_slots ti page pid (range_int (num_slots page)) s)))"

definition table_pages :: "table_info \<Rightarrow> exec \<Rightarrow> int list" where
  "table_pages ti s =
     (case map_of (x_data_pages s) (ti_name ti) of
        Some pids \<Rightarrow> pids
      | None \<Rightarrow> map (\<lambda>i. ti_root ti + int i) [0..<nat (ti_next ti + 1 - ti_root ti)])"

definition scan_table :: "table_info \<Rightarrow> exec \<Rightarrow> scan_row list res" where
  "scan_table ti s = bindE (mapE (scan_page ti s) (table_pages ti s)) (\<lambda>parts. Inr (concat parts))"

definition read_row_by_slot :: "table_info \<Rightarrow> int \<times> int \<Rightarrow> exec \<Rightarrow> scan_row list res" where
  "read_row_by_slot ti = (\<lambda>(pid, sid) s.
     bindE (exec_read_page pid s) (\<lambda>raw.
     bindE (from_bytes pid raw) (\<lambda>page.
     bindE (read_slot_row_bytes page sid pid s) (\<lambda>row.
     case row of
       None \<Rightarrow> Inr []
     | Some b \<Rightarrow> bindE (decode_row b (schema_v2 ti)) (\<lambda>vals. Inr [(sid, vals, pid)])))))"

text \<open>\<open>_rebuild_data_pages_from_chain\<close>: the range of ids from root to last page.\<close>

definition rebuild_data_pages :: "table_info \<Rightarrow> exec \<Rightarrow> int list" where
  "rebuild_data_pages ti s =
     (if ti_root ti = 0 \<or> ti_next ti < ti_root ti then []
      else filter (\<lambda>pid. pid \<notin> set (index_pages s))
        (map (\<lambda>i. ti_root ti + int i) [0..<nat (ti_next ti + 1 - ti_root ti)]))"

section \<open>Index maintenance\<close>

definition row_cell :: "table_info \<Rightarrow> pyval list \<Rightarrow> column \<Rightarrow> pyval res" where
  "row_cell ti vals col =
     (case map_of (ti_name_index ti) (c_name col) of None \<Rightarrow> Inl KeyError | Some i \<Rightarrow> row_at vals i)"

definition index_row :: "table_info \<Rightarrow> pyval list \<Rightarrow> int \<times> int \<Rightarrow> (exec, unit) cmd" where
  "index_row ti vals ref =
     forS (indexed_columns ti) (\<lambda>col.
       bindS (liftE (row_cell ti vals col)) (\<lambda>v.
       if v = PNone then returnS ()
       else bindS (liftE (key_for col v)) (\<lambda>key. index_insert (ti_name ti, c_name col) key ref)))"

definition unindex_row :: "table_info \<Rightarrow> pyval list \<Rightarrow> (exec, unit) cmd" where
  "unindex_row ti vals =
     forS (indexed_columns ti) (\<lambda>col.
       bindS (liftE (row_cell ti vals col)) (\<lambda>v.
       if v = PNone then returnS ()
       else bindS (liftE (key_for col v)) (\<lambda>key. index_delete (ti_name ti, c_name col) key)))"

definition update_index_for_row :: "table_info \<Rightarrow> pyval list \<Rightarrow> pyval list \<Rightarrow> int \<times> int \<Rightarrow> (exec, unit) cmd" where
  "update_index_for_row ti old_vals new_vals ref =
     forS (indexed_columns ti) (\<lambda>col.
       bindS (liftE (row_cell ti old_vals col)) (\<lambda>old_v.
       bindS (liftE (row_cell ti new_vals col)) (\<lambda>new_v.
       if py_eq old_v new_v then returnS ()
       else
         bindS (if old_v = PNone then returnS ()
           else bindS (liftE (key_for col old_v)) (\<lambda>key. index_delete (ti_name ti, c_name col) key)) (\<lambda>_.
         if new_v = PNone then returnS ()
         else bindS (liftE (key_for col new_v)) (\<lambda>key. index_insert (ti_name ti, c_name col) key ref)))))"

end
