(* ===== verification/Plan.thy ===== *)
theory Plan
  imports Resolver
begin

text \<open>
  \<open>src/tinydb/plan.py\<close>: the plan tree of a SELECT and \<open>build_plan\<close>, scans joined
  left-deep, then filter, aggregate, sort, limit and project.
\<close>

section \<open>The plan\<close>

datatype proj_expr = Pj_star | Pj_col "pystr option" pystr | Pj_agg agg_call

datatype plan =
    Scan pystr "pystr option" "pystr list" pystr
  | Join join_kind plan plan "join_key list" "folded list" bool
  | Filter plan "folded option"
  | Aggregate plan "nat list" "agg_pos list" "(nat \<times> pystr \<times> pyval) option"
  | Sort plan "(nat \<times> bool) list"
  | Project plan "(pystr \<times> proj_expr) list" bool
  | Limit plan "int option" "int option"

definition scan_of :: "source \<Rightarrow> plan" where
  "scan_of s = Scan (so_table s) (so_alias s) (so_schema s) (so_id s)"

definition plan_join :: "resolved \<Rightarrow> plan \<Rightarrow> nat \<times> join_clause \<times> plan \<Rightarrow> plan" where
  "plan_join rp current = (\<lambda>(i, join, scan).
     let per_keys = (if i < length (rp_join_keys rp) then rp_join_keys rp ! i else []);
         per_on = (if i < length (rp_join_on rp) then rp_join_on rp ! i else None);
         on_expr = (case per_on of Some p \<Rightarrow> [p] | None \<Rightarrow> []) in
     Join (jc_kind join) current scan per_keys on_expr (jc_natural join))"

definition plan_item :: "uni \<Rightarrow> resolved \<Rightarrow> select_item \<Rightarrow> pystr \<times> proj_expr" where
  "plan_item u rp si =
     (case si of
        I_star \<Rightarrow> ([], Pj_star)
      | I_column name alias q \<Rightarrow>
          let duplicate = length (filter (\<lambda>s. name \<in> set (so_schema s)) (rp_sources rp)) > 1;
              plain = (case q of Some q \<Rightarrow> if q \<noteq> [] \<and> duplicate then dotted q name else name | None \<Rightarrow> name);
              label = (case alias of Some a \<Rightarrow> if a \<noteq> [] then a else plain | None \<Rightarrow> plain) in
          (label, Pj_col q name)
      | I_aggregate agg alias \<Rightarrow> (agg_label u agg alias, Pj_agg agg))"

definition join_tree :: "resolved \<Rightarrow> join_clause list \<Rightarrow> plan" where
  "join_tree rp joins =
     (let scans = map scan_of (rp_sources rp) in
      foldl (plan_join rp) (hd scans) (zip [0..<length joins] (zip joins (tl scans))))"

definition build_plan :: "uni \<Rightarrow> select_stmt \<Rightarrow> catalog \<Rightarrow> plan res" where
  "build_plan u ast cat =
     bindE (resolve u ast cat) (\<lambda>rp.
     let current = join_tree rp (s_joins ast);
         current = (case rp_where rp of None \<Rightarrow> current | Some w \<Rightarrow> Filter current (Some w));
         current = (if rp_group rp \<noteq> [] \<or> rp_aggregates rp \<noteq> []
           then Aggregate current (rp_group rp) (rp_aggregates rp) (rp_having rp) else current);
         current = (if rp_order rp \<noteq> [] then Sort current (rp_order rp) else current);
         current = (if s_limit ast \<noteq> None \<or> select_stmt.s_offset ast \<noteq> None
           then Limit current (s_limit ast) (select_stmt.s_offset ast) else current);
         items = (if s_items ast \<noteq> [] then map (plan_item u rp) (s_items ast)
           else map (\<lambda>c. (c, Pj_col None c)) (s_columns ast)) in
     Inr (Project current items (I_star \<in> set (s_items ast))))"

end
