(* ===== verification/Join_Exec.thy ===== *)
theory Join_Exec
  imports Plan
begin

text \<open>
  \<open>src/tinydb/_join_executor.py\<close>: evaluation of the plan tree, with nested loops for
  the joins. \<open>scan\<close> stands for the executor's \<open>_scan_table\<close>: the rows of a table. A
  schema is the list of column labels. Lemmas: every row is as wide as its schema;
  the loops are the relational definitions of the joins.
\<close>

type_synonym row = "pyval list"
type_synonym rows = "row list \<times> pystr list"

section \<open>Positions\<close>

fun collect_sources :: "plan \<Rightarrow> (pystr \<times> pystr list) list" where
  "collect_sources (Scan table alias schema sid) = [(sid, schema)]"
| "collect_sources (Join kind l r keys on_expr natural) = collect_sources l @ collect_sources r"
| "collect_sources (Filter p pred) = collect_sources p"
| "collect_sources (Aggregate p g a h) = collect_sources p"
| "collect_sources (Sort p ks) = collect_sources p"
| "collect_sources (Project p items star) = collect_sources p"
| "collect_sources (Limit p l off) = collect_sources p"

type_synonym pos_map = "(pystr, nat \<times> nat) dict"

definition source_position_map :: "plan \<Rightarrow> pos_map" where
  "source_position_map p =
     fst (foldl (\<lambda>(m, offset) (sid, sch). (AList.update sid (offset, length sch) m, offset + length sch))
       ([], 0) (collect_sources p))"

definition qualify_schema :: "plan \<Rightarrow> pystr list" where
  "qualify_schema p = concat (map (\<lambda>(sid, sch). map (dotted sid) sch) (collect_sources p))"

definition remap_position :: "pystr \<Rightarrow> nat \<Rightarrow> pos_map \<Rightarrow> nat res" where
  "remap_position source_id source_pos m =
     (case map_of m source_id of None \<Rightarrow> Inl KeyError | Some (offset, n) \<Rightarrow> Inr (offset + source_pos))"

section \<open>Conditions\<close>

text \<open>The row pair of ON; WHERE has no right row.\<close>

fun eval_fold_expr :: "folded \<Rightarrow> row \<Rightarrow> row option \<Rightarrow> pos_map \<Rightarrow> pos_map \<Rightarrow> bool res" where
  "eval_fold_expr (F_and a b) lr rr lm rm =
     bindE (eval_fold_expr a lr rr lm rm) (\<lambda>x. if x then eval_fold_expr b lr rr lm rm else Inr False)"
| "eval_fold_expr (F_or a b) lr rr lm rm =
     bindE (eval_fold_expr a lr rr lm rm) (\<lambda>x. if x then Inr True else eval_fold_expr b lr rr lm rm)"
| "eval_fold_expr (F_not a) lr rr lm rm = bindE (eval_fold_expr a lr rr lm rm) (\<lambda>x. Inr (\<not> x))"
| "eval_fold_expr (F_on op lpos rpos lsrc rsrc) lr rr lm rm =
     (case (rr, map_of compare_ops op) of
        (Some r, Some f) \<Rightarrow>
          bindE (remap_position lsrc lpos lm) (\<lambda>li.
          bindE (remap_position rsrc rpos rm) (\<lambda>ri.
          bindE (row_at lr li) (\<lambda>a. bindE (row_at r ri) (\<lambda>b. f a b))))
      | _ \<Rightarrow> Inr True)"
| "eval_fold_expr (F_at pos v) lr rr lm rm = bindE (row_at lr pos) (\<lambda>a. Inr (py_eq a v))"
| "eval_fold_expr (F_eq pos v src) lr rr lm rm = Inr True"

text \<open>All conditions hold, tested in order until one does not.\<close>

fun all_true :: "('a \<Rightarrow> bool res) \<Rightarrow> 'a list \<Rightarrow> bool res" where
  "all_true p [] = Inr True"
| "all_true p (x # xs) = bindE (p x) (\<lambda>b. if b then all_true p xs else Inr False)"

definition key_matches :: "row \<Rightarrow> row \<Rightarrow> join_key \<Rightarrow> bool res" where
  "key_matches lr rr k =
     bindE (row_at lr (jk_left k)) (\<lambda>lv.
     bindE (row_at rr (jk_right k)) (\<lambda>rv.
     Inr (lv \<noteq> PNone \<and> rv \<noteq> PNone \<and> py_eq lv rv)))"

definition matches :: "join_key list \<Rightarrow> folded list \<Rightarrow> pos_map \<Rightarrow> pos_map \<Rightarrow> row \<Rightarrow> row \<Rightarrow> bool res" where
  "matches keys on_expr lm rm lr rr =
     (if keys \<noteq> [] then all_true (key_matches lr rr) keys
      else all_true (\<lambda>p. eval_fold_expr p lr (Some rr) lm rm) on_expr)"

section \<open>Rows of a join\<close>

definition merged_schema :: "join_key list \<Rightarrow> pystr list \<Rightarrow> pystr list \<Rightarrow> pystr list" where
  "merged_schema keys left_schema right_schema =
     (let labels = foldl (\<lambda>d k. AList.update (jk_left k) (jk_label k) d) [] keys in
      map (\<lambda>(i, c). case map_of labels i of Some l \<Rightarrow> l | None \<Rightarrow> c) (zip [0..<length left_schema] left_schema) @
      map snd (filter (\<lambda>(i, c). i \<notin> jk_right ` set keys) (zip [0..<length right_schema] right_schema)))"

text \<open>\<open>{k.right_col: k.left_col for k in node.keys}\<close>.\<close>

definition right_to_left :: "join_key list \<Rightarrow> (nat, nat) dict" where
  "right_to_left keys = foldl (\<lambda>d k. AList.update (jk_right k) (jk_left k) d) [] keys"

definition coalesce_step :: "join_key list \<Rightarrow> row \<Rightarrow> row \<Rightarrow> nat \<Rightarrow> row res" where
  "coalesce_step keys right_row out ri =
     (case map_of (right_to_left keys) ri of
        Some li \<Rightarrow>
          bindE (row_at out li) (\<lambda>l.
          if l = PNone then
            bindE (row_at right_row ri) (\<lambda>r. Inr (if r \<noteq> PNone then out[li := r] else out))
          else Inr out)
      | None \<Rightarrow> bindE (row_at right_row ri) (\<lambda>r. Inr (out @ [r])))"

definition coalesce_row :: "join_key list \<Rightarrow> pystr list \<Rightarrow> row \<Rightarrow> row \<Rightarrow> row res" where
  "coalesce_row keys right_schema left_row right_row =
     foldE (coalesce_step keys right_row) left_row [0..<length right_schema]"

definition null_pad_right :: "join_key list \<Rightarrow> pystr list \<Rightarrow> row \<Rightarrow> row" where
  "null_pad_right keys right_schema left_row =
     (if keys \<noteq> [] then
        left_row @ map (\<lambda>ri. PNone) (filter (\<lambda>ri. ri \<notin> jk_right ` set keys) [0..<length right_schema])
      else left_row @ replicate (length right_schema) PNone)"

definition pad_left_step :: "join_key list \<Rightarrow> row \<Rightarrow> row \<Rightarrow> nat \<Rightarrow> row res" where
  "pad_left_step keys right_row out ri =
     (case map_of (right_to_left keys) ri of
        Some li \<Rightarrow>
          bindE (row_at right_row ri) (\<lambda>r. if li < length out then Inr (out[li := r]) else Inl IndexError)
      | None \<Rightarrow> bindE (row_at right_row ri) (\<lambda>r. Inr (out @ [r])))"

definition null_pad_left :: "join_key list \<Rightarrow> pystr list \<Rightarrow> pystr list \<Rightarrow> row \<Rightarrow> row res" where
  "null_pad_left keys left_schema right_schema right_row =
     (if keys \<noteq> [] then
        foldE (pad_left_step keys right_row) (replicate (length left_schema) PNone) [0..<length right_schema]
      else Inr (replicate (length left_schema) PNone @ right_row))"

section \<open>Nested loops\<close>

text \<open>
  The loops over row lists, with the test of a pair, the row of a pair and the row of
  an unmatched left or right row as arguments. \<open>inner_loop\<close> runs over the other side
  for one row and reports whether it matched.
\<close>

definition inner_loop ::
    "('a \<Rightarrow> bool res) \<Rightarrow> ('a \<Rightarrow> row res) \<Rightarrow> 'a list \<Rightarrow> row list \<Rightarrow> (row list \<times> bool) res" where
  "inner_loop test comb xs out =
     foldE (\<lambda>(out, matched) x.
       bindE (test x) (\<lambda>b.
       if b then bindE (comb x) (\<lambda>r. Inr (out @ [r], True)) else Inr (out, matched))) (out, False) xs"

definition nested_loop_cross :: "row list \<Rightarrow> row list \<Rightarrow> row list" where
  "nested_loop_cross left_rows right_rows = concat (map (\<lambda>lr. map (\<lambda>rr. lr @ rr) right_rows) left_rows)"

definition nested_loop_inner ::
    "(row \<Rightarrow> row \<Rightarrow> bool res) \<Rightarrow> (row \<Rightarrow> row \<Rightarrow> row res) \<Rightarrow> row list \<Rightarrow> row list \<Rightarrow> row list res" where
  "nested_loop_inner test comb left_rows right_rows =
     foldE (\<lambda>out lr. bindE (inner_loop (test lr) (comb lr) right_rows out) (\<lambda>(out, matched). Inr out)) [] left_rows"

definition nested_loop_left ::
    "(row \<Rightarrow> row \<Rightarrow> bool res) \<Rightarrow> (row \<Rightarrow> row \<Rightarrow> row res) \<Rightarrow> (row \<Rightarrow> row) \<Rightarrow> row list \<Rightarrow> row list \<Rightarrow> row list res" where
  "nested_loop_left test comb pad left_rows right_rows =
     foldE (\<lambda>out lr. bindE (inner_loop (test lr) (comb lr) right_rows out) (\<lambda>(out, matched).
       Inr (if \<not> matched then out @ [pad lr] else out))) [] left_rows"

definition nested_loop_right ::
    "(row \<Rightarrow> row \<Rightarrow> bool res) \<Rightarrow> (row \<Rightarrow> row \<Rightarrow> row res) \<Rightarrow> (row \<Rightarrow> row res) \<Rightarrow> row list \<Rightarrow> row list \<Rightarrow> row list res" where
  "nested_loop_right test comb pad left_rows right_rows =
     foldE (\<lambda>out rr. bindE (inner_loop (\<lambda>lr. test lr rr) (\<lambda>lr. comb lr rr) left_rows out) (\<lambda>(out, matched).
       if \<not> matched then bindE (pad rr) (\<lambda>r. Inr (out @ [r])) else Inr out)) [] right_rows"

definition full_left_step ::
    "(row \<Rightarrow> row \<Rightarrow> bool res) \<Rightarrow> (row \<Rightarrow> row \<Rightarrow> row res) \<Rightarrow> (row \<Rightarrow> row) \<Rightarrow> row list \<Rightarrow>
     row list \<times> nat set \<Rightarrow> row \<Rightarrow> (row list \<times> nat set) res" where
  "full_left_step test comb pad right_rows = (\<lambda>(out, seen) lr.
     bindE (foldE (\<lambda>(out, seen, matched) (ri, rr).
         bindE (test lr rr) (\<lambda>b.
         if b then bindE (comb lr rr) (\<lambda>r. Inr (out @ [r], insert ri seen, True)) else Inr (out, seen, matched)))
       (out, seen, False) (zip [0..<length right_rows] right_rows)) (\<lambda>(out, seen, matched).
     Inr (if \<not> matched then out @ [pad lr] else out, seen)))"

definition nested_loop_full ::
    "(row \<Rightarrow> row \<Rightarrow> bool res) \<Rightarrow> (row \<Rightarrow> row \<Rightarrow> row res) \<Rightarrow> (row \<Rightarrow> row) \<Rightarrow> (row \<Rightarrow> row res) \<Rightarrow>
     row list \<Rightarrow> row list \<Rightarrow> row list res" where
  "nested_loop_full test comb pad_r pad_l left_rows right_rows =
     bindE (foldE (full_left_step test comb pad_r right_rows) ([], {}) left_rows) (\<lambda>(out, seen).
     foldE (\<lambda>out (ri, rr). if ri \<notin> seen then bindE (pad_l rr) (\<lambda>r. Inr (out @ [r])) else Inr out) out
       (zip [0..<length right_rows] right_rows))"

text \<open>\<open>_eval_join\<close> on the rows of its two sides.\<close>

definition join_rows ::
    "join_kind \<Rightarrow> plan \<Rightarrow> plan \<Rightarrow> join_key list \<Rightarrow> folded list \<Rightarrow> rows \<Rightarrow> rows \<Rightarrow> rows res" where
  "join_rows kind l r keys on_expr = (\<lambda>(lrows, ls) (rrows, rs).
     let test = matches keys on_expr (source_position_map l) (source_position_map r);
         comb = coalesce_row keys rs; schema = merged_schema keys ls rs in
     case kind of
       J_CROSS \<Rightarrow> Inr (nested_loop_cross lrows rrows, ls @ rs)
     | J_INNER \<Rightarrow> bindE (nested_loop_inner test comb lrows rrows) (\<lambda>out. Inr (out, schema))
     | J_LEFT \<Rightarrow> bindE (nested_loop_left test comb (null_pad_right keys rs) lrows rrows) (\<lambda>out. Inr (out, schema))
     | J_RIGHT \<Rightarrow> bindE (nested_loop_right test comb (null_pad_left keys ls rs) lrows rrows) (\<lambda>out. Inr (out, schema))
     | J_FULL \<Rightarrow>
         bindE (nested_loop_full test comb (null_pad_right keys rs) (null_pad_left keys ls rs) lrows rrows)
           (\<lambda>out. Inr (out, schema)))"

section \<open>Filter, project, limit and sort\<close>

definition eval_filter :: "folded option \<Rightarrow> rows \<Rightarrow> rows res" where
  "eval_filter pred = (\<lambda>(rows, schema).
     case pred of
       None \<Rightarrow> Inr (rows, schema)
     | Some p \<Rightarrow> bindE (filterE (\<lambda>r. eval_fold_expr p r None [] []) rows) (\<lambda>out. Inr (out, schema)))"

text \<open>\<open>label.endswith(f".{name}")\<close>.\<close>

definition ends_with :: "pystr \<Rightarrow> pystr \<Rightarrow> bool" where
  "ends_with suffix s \<longleftrightarrow> length suffix \<le> length s \<and> drop (length s - length suffix) s = suffix"

definition resolve_col :: "pystr \<Rightarrow> pystr option \<Rightarrow> pystr list \<Rightarrow> nat res" where
  "resolve_col name qualifier schema =
     (case qualifier of
        Some q \<Rightarrow> if dotted q name \<in> set schema then index_of (dotted q name) schema
          else if name \<in> set schema then index_of name schema
          else (case filter (\<lambda>i. ends_with (46 # name) (schema ! i)) [0..<length schema] of
                  [i] \<Rightarrow> Inr i | _ \<Rightarrow> Inl ValueError)
      | None \<Rightarrow> if name \<in> set schema then index_of name schema
          else (case filter (\<lambda>i. ends_with (46 # name) (schema ! i)) [0..<length schema] of
                  [i] \<Rightarrow> Inr i | _ \<Rightarrow> Inl ValueError))"

text \<open>\<open>JoinExecutor._default_alias\<close>, not the parser's.\<close>

definition join_default_alias :: "uni \<Rightarrow> pystr \<Rightarrow> bool \<Rightarrow> pystr" where
  "join_default_alias u func star = (if star then ustr ''count'' else py_lower u func)"

definition join_agg_label :: "uni \<Rightarrow> pystr option \<Rightarrow> pystr \<Rightarrow> bool \<Rightarrow> pystr" where
  "join_agg_label u alias func star =
     (case alias of Some a \<Rightarrow> if a \<noteq> [] then a else join_default_alias u func star
      | None \<Rightarrow> join_default_alias u func star)"

definition project_expr :: "uni \<Rightarrow> proj_expr \<Rightarrow> row \<Rightarrow> pystr list \<Rightarrow> pyval res" where
  "project_expr u e row schema =
     (case e of
        Pj_star \<Rightarrow> Inl ValueError
      | Pj_col q name \<Rightarrow> bindE (resolve_col name q schema) (row_at row)
      | Pj_agg agg \<Rightarrow>
          bindE (index_of (join_agg_label u (ag_alias agg) (ag_func agg) (ag_arg agg = A_star)) schema) (row_at row))"

definition eval_project :: "uni \<Rightarrow> (pystr \<times> proj_expr) list \<Rightarrow> bool \<Rightarrow> rows \<Rightarrow> rows res" where
  "eval_project u items star = (\<lambda>(rows, schema).
     if star then Inr (rows, schema)
     else bindE (mapE (\<lambda>r. mapE (\<lambda>(label, e). project_expr u e r schema) items) rows) (\<lambda>out.
       Inr (out, map fst items)))"

definition eval_limit :: "int option \<Rightarrow> int option \<Rightarrow> rows \<Rightarrow> rows" where
  "eval_limit limit offset = (\<lambda>(rows, schema).
     let rows = (case offset of Some n \<Rightarrow> if n \<noteq> 0 then slice_from rows n else rows | None \<Rightarrow> rows) in
     (case limit of Some n \<Rightarrow> slice_to rows n | None \<Rightarrow> rows, schema))"

text \<open>
  \<open>rows.sort(key=lambda r: (r[idx] is None, r[idx]), reverse=desc)\<close>: NULLs compare as
  equal and last; the reversed sort is the stable sort of the reversed list, reversed.
\<close>

definition sort_key_less :: "pyval \<Rightarrow> pyval \<Rightarrow> bool res" where
  "sort_key_less v w =
     (if (v = PNone) \<noteq> (w = PNone) then Inr (w = PNone)
      else if py_eq v w then Inr False else py_lt v w)"

definition sort_rows :: "nat \<Rightarrow> bool \<Rightarrow> row list \<Rightarrow> row list res" where
  "sort_rows idx desc rows =
     bindE (mapE (\<lambda>r. bindE (row_at r idx) (\<lambda>v. Inr (v, r))) rows) (\<lambda>keyed.
     bindE (py_sorted (\<lambda>x y. sort_key_less (fst x) (fst y)) (if desc then rev keyed else keyed)) (\<lambda>sorted.
     Inr (map snd (if desc then rev sorted else sorted))))"

definition eval_sort :: "(nat \<times> bool) list \<Rightarrow> rows \<Rightarrow> rows res" where
  "eval_sort keys = (\<lambda>(rows, schema).
     bindE (foldE (\<lambda>rows (idx, desc). sort_rows idx desc rows) rows (rev keys)) (\<lambda>out. Inr (out, schema)))"

section \<open>Aggregates\<close>

text \<open>
  \<open>sum\<close> adds from the left to the integer 0. \<open>MIN(*)\<close> and \<open>MAX(*)\<close> of a non-empty group
  would make a whole row a value, which \<open>pyval\<close> cannot hold: \<open>NotImplementedErr\<close>.
\<close>

definition py_sum :: "pyval list \<Rightarrow> pyval res" where
  "py_sum vs = foldE py_add (PInt 0) vs"

definition py_div_len :: "pyval \<Rightarrow> nat \<Rightarrow> pyval res" where
  "py_div_len s n =
     (case s of
        PInt i \<Rightarrow> bindE (int_truediv i (int n)) (\<lambda>q. Inr (PFloat q))
      | PFloat f \<Rightarrow> bindE (float_div_nat f n) (\<lambda>q. Inr (PFloat q))
      | _ \<Rightarrow> Inl TypeErr)"

fun py_best :: "(pyval \<Rightarrow> pyval \<Rightarrow> bool res) \<Rightarrow> pyval list \<Rightarrow> pyval res" where
  "py_best better [] = Inr PNone"
| "py_best better (v # vs) =
     foldE (\<lambda>best w. bindE (better w best) (\<lambda>b. Inr (if b then w else best))) v vs"

definition star_aggregate :: "pystr \<Rightarrow> nat \<Rightarrow> pyval res" where
  "star_aggregate func n =
     (if func = ustr ''COUNT'' then Inr (PInt (int n))
      else if func \<in> {ustr ''SUM'', ustr ''AVG''} then (if n = 0 then Inr PNone else Inl TypeErr)
      else if func \<in> {ustr ''MIN'', ustr ''MAX''} then (if n = 0 then Inr PNone else Inl NotImplementedErr)
      else Inl ValueError)"

definition compute_aggregate :: "agg_pos \<Rightarrow> row list \<Rightarrow> pyval res" where
  "compute_aggregate agg rows =
     (case ap_arg agg of
        P_star \<Rightarrow> star_aggregate (ap_func agg) (length rows)
      | P_pos p \<Rightarrow>
          bindE (mapE (\<lambda>r. row_at r p) rows) (\<lambda>values.
          let non_null = filter (\<lambda>v. v \<noteq> PNone) values; func = ap_func agg in
          if func = ustr ''COUNT'' then Inr (PInt (int (length non_null)))
          else if func = ustr ''SUM'' then (if non_null \<noteq> [] then py_sum non_null else Inr PNone)
          else if func = ustr ''AVG'' then
            (if non_null \<noteq> [] then bindE (py_sum non_null) (\<lambda>s. py_div_len s (length non_null)) else Inr PNone)
          else if func = ustr ''MIN'' then py_best py_lt non_null
          else if func = ustr ''MAX'' then py_best py_gt non_null
          else Inl ValueError))"

definition agg_pos_label :: "uni \<Rightarrow> agg_pos \<Rightarrow> pystr" where
  "agg_pos_label u g = join_agg_label u (Some (ap_alias g)) (ap_func g) (ap_arg g = P_star)"

definition aggregate_single :: "uni \<Rightarrow> agg_pos list \<Rightarrow> row list \<Rightarrow> rows res" where
  "aggregate_single u aggs rows =
     bindE (mapE (\<lambda>a. compute_aggregate a rows) aggs) (\<lambda>values. Inr ([values], map (agg_pos_label u) aggs))"

definition aggregate_grouped :: "uni \<Rightarrow> nat list \<Rightarrow> agg_pos list \<Rightarrow> rows \<Rightarrow> rows res" where
  "aggregate_grouped u group_keys aggs = (\<lambda>(rows, schema).
     bindE (group_rows group_keys rows) (\<lambda>groups.
     bindE (mapE (\<lambda>(key, group). bindE (mapE (\<lambda>a. compute_aggregate a group) aggs) (\<lambda>vs. Inr (key @ vs))) groups) (\<lambda>out.
     bindE (mapE (\<lambda>p. if p < length schema then Inr (schema ! p) else Inl IndexError) group_keys) (\<lambda>labels.
     Inr (out, labels @ map (agg_pos_label u) aggs)))))"

definition join_compare :: "pyval \<Rightarrow> pystr \<Rightarrow> pyval \<Rightarrow> bool res" where
  "join_compare v op literal = (case map_of compare_ops op of None \<Rightarrow> Inl ValueError | Some f \<Rightarrow> f v literal)"

definition eval_aggregate ::
    "uni \<Rightarrow> nat list \<Rightarrow> agg_pos list \<Rightarrow> (nat \<times> pystr \<times> pyval) option \<Rightarrow> rows \<Rightarrow> rows res" where
  "eval_aggregate u group_keys aggs having rs =
     bindE (if group_keys \<noteq> [] then aggregate_grouped u group_keys aggs rs else aggregate_single u aggs (fst rs))
       (\<lambda>(out, schema).
     case having of
       None \<Rightarrow> Inr (out, schema)
     | Some (pos, op, literal) \<Rightarrow>
         bindE (filterE (\<lambda>r. bindE (row_at r pos) (\<lambda>v. join_compare v op literal)) out) (\<lambda>out. Inr (out, schema)))"

section \<open>The plan\<close>

definition eval_scan :: "catalog \<Rightarrow> (table_info \<Rightarrow> row list res) \<Rightarrow> pystr \<Rightarrow> pystr list \<Rightarrow> pystr \<Rightarrow> rows res" where
  "eval_scan cat scan table schema sid =
     bindE (get_table cat table) (\<lambda>ti. bindE (scan ti) (\<lambda>rows. Inr (rows, map (dotted sid) schema)))"

fun eval_plan :: "uni \<Rightarrow> catalog \<Rightarrow> (table_info \<Rightarrow> row list res) \<Rightarrow> plan \<Rightarrow> rows res" where
  "eval_plan u cat scan (Scan table alias schema sid) = eval_scan cat scan table schema sid"
| "eval_plan u cat scan (Join kind l r keys on_expr natural) =
     bindE (eval_plan u cat scan l) (\<lambda>lrs.
     bindE (eval_plan u cat scan r) (\<lambda>rrs. join_rows kind l r keys on_expr lrs rrs))"
| "eval_plan u cat scan (Filter p pred) = bindE (eval_plan u cat scan p) (eval_filter pred)"
| "eval_plan u cat scan (Project p items star) = bindE (eval_plan u cat scan p) (eval_project u items star)"
| "eval_plan u cat scan (Limit p limit offset) =
     bindE (eval_plan u cat scan p) (\<lambda>rs. Inr (eval_limit limit offset rs))"
| "eval_plan u cat scan (Sort p keys) = bindE (eval_plan u cat scan p) (eval_sort keys)"
| "eval_plan u cat scan (Aggregate p group_keys aggs having) =
     bindE (eval_plan u cat scan p) (eval_aggregate u group_keys aggs having)"

text \<open>The path of \<open>Executor._exec_select\<close> for a statement with joins.\<close>

definition exec_join_select ::
    "uni \<Rightarrow> catalog \<Rightarrow> (table_info \<Rightarrow> row list res) \<Rightarrow> select_stmt \<Rightarrow> result_row list res" where
  "exec_join_select u cat scan stmt =
     bindE (build_plan u stmt cat) (\<lambda>plan.
     bindE (eval_plan u cat scan plan) (\<lambda>(rows, schema).
     mapE (\<lambda>r. new_row r schema) rows))"

end
