(* ===== verification/Executor.thy ===== *)
theory Executor
  imports Table_Store Join_Exec
begin

text \<open>
  The statements of the class \<open>Executor\<close> (\<open>src/tinydb/executor.py\<close>) with
  \<open>_executor_drop.py\<close>: CREATE TABLE, DROP TABLE, INSERT, SELECT, DELETE and UPDATE, and
  the dispatch of \<open>execute\<close>. Every statement is a command on the state of
  \<open>Exec_State\<close>. The executor is the one of a \<open>Database\<close>, which installs the page
  wrappers of new indexes.
\<close>

definition readS :: "(exec \<Rightarrow> 'a res) \<Rightarrow> (exec, 'a) cmd" where
  "readS f = (\<lambda>s. (f s, s))"

text \<open>What \<open>execute\<close> returns: lists of values, or \<open>Row\<close> objects of an aggregate or a join.\<close>

datatype outcome = Lists "pyval list list" | Rows "result_row list"

definition need_table :: "pystr \<Rightarrow> exec \<Rightarrow> table_info res" where
  "need_table name s =
     (case catalog_get_table (x_catalog s) name of None \<Rightarrow> Inl ExecutionError | Some ti \<Rightarrow> Inr ti)"

text \<open>Whether a name occurs again after its first occurrence: the loops with a set \<open>seen\<close>.\<close>

fun has_dup :: "pystr list \<Rightarrow> bool" where
  "has_dup [] = False"
| "has_dup (x # xs) = (x \<in> set xs \<or> has_dup xs)"

section \<open>CREATE TABLE\<close>

definition column_of :: "column_def \<Rightarrow> column" where
  "column_of cd = \<lparr>c_name = cd_name cd, c_type = cd_type cd, c_params = cd_params cd,
     c_nullable = cd_nullable cd, c_unique = cd_unique cd, c_pk = cd_pk cd\<rparr>"

definition catalog_add :: "pystr \<Rightarrow> column list \<Rightarrow> int \<Rightarrow> (exec, unit) cmd" where
  "catalog_add name cols pid = (\<lambda>s.
     case catalog_create_table (x_catalog s) name cols pid pid of
       Inl e \<Rightarrow> (Inl e, s)
     | Inr c \<Rightarrow> (Inr (), s\<lparr>x_catalog := c\<rparr>))"

definition exec_create_table :: "create_table \<Rightarrow> (exec, outcome) cmd" where
  "exec_create_table stmt =
     bindS (getS (\<lambda>s. catalog_get_table (x_catalog s) (ct_name stmt))) (\<lambda>t.
     if t \<noteq> None then raiseS ExecutionError
     else if has_dup (map cd_name (ct_columns stmt)) then raiseS ExecutionError
     else
       bindS (on_exec_pager alloc_page) (\<lambda>root.
       bindS (store_page root (empty_page root)) (\<lambda>_.
       bindS (catalog_add (ct_name stmt) (map column_of (ct_columns stmt)) root) (\<lambda>_.
       bindS (modifyS (\<lambda>s. s\<lparr>x_data_pages := AList.update (ct_name stmt) [root] (x_data_pages s)\<rparr>)) (\<lambda>_.
       bindS (readS (need_table (ct_name stmt))) (\<lambda>ti.
       bindS (rebuild_for_table ti) (\<lambda>_.
       bindS (install_index_pagers (ct_name stmt)) (\<lambda>_.
       bindS write_catalog (\<lambda>_.
       returnS (Lists []))))))))))"

section \<open>UNIQUE and PRIMARY KEY\<close>

type_synonym unique_group = "pystr list \<times> string"
type_synonym session = "(unique_group, pyval list list) dict"

definition unique_groups :: "table_info \<Rightarrow> unique_group list" where
  "unique_groups ti =
     (let pk_cols = map c_name (filter column.c_pk (ti_columns ti)) in
      (if pk_cols \<noteq> [] then [(pk_cols, ''duplicate_pk'')] else []) @
      map (\<lambda>c. ([c_name c], ''unique'')) (filter (\<lambda>c. column.c_unique c \<and> c_name c \<notin> set pk_cols) (ti_columns ti)))"

definition col_idx :: "table_info \<Rightarrow> pystr \<Rightarrow> nat res" where
  "col_idx ti c = (case map_of (ti_name_index ti) c of None \<Rightarrow> Inl KeyError | Some i \<Rightarrow> Inr i)"

definition key_in :: "pyval list \<Rightarrow> pyval list list \<Rightarrow> bool" where
  "key_in k ks = list_ex (\<lambda>k'. key_eq k' k) ks"

definition scan_unique_keys :: "table_info \<Rightarrow> pystr list \<Rightarrow> exec \<Rightarrow> pyval list list res" where
  "scan_unique_keys ti columns s =
     bindE (mapE (col_idx ti) columns) (\<lambda>idxs.
     bindE (scan_table ti s) (\<lambda>rows.
     bindE (mapE (\<lambda>r. mapE (row_at (row_vals r)) idxs) rows) (\<lambda>keys.
     Inr (filter (\<lambda>k. PNone \<notin> set k) keys))))"

definition session_keys :: "session \<Rightarrow> unique_group \<Rightarrow> pyval list list" where
  "session_keys sess g = (case map_of sess g of None \<Rightarrow> [] | Some ks \<Rightarrow> ks)"

definition check_group :: "pyval list \<Rightarrow> table_info \<Rightarrow> exec \<Rightarrow> session \<Rightarrow> unique_group \<Rightarrow> session res" where
  "check_group row ti s sess g =
     (let (columns, kind) = g in
      bindE (mapE (\<lambda>c. bindE (col_idx ti c) (row_at row)) columns) (\<lambda>key.
      if PNone \<in> set key then Inr sess
      else
        bindE (scan_unique_keys ti columns s) (\<lambda>seen.
        if key_in key (session_keys sess g) \<or> key_in key seen then Inl (ConstraintViolation kind columns)
        else Inr (AList.update g (session_keys sess g @ [key]) sess))))"

definition validate_unique_keys :: "pyval list \<Rightarrow> table_info \<Rightarrow> exec \<Rightarrow> session \<Rightarrow> session res" where
  "validate_unique_keys row ti s sess = foldE (check_group row ti s) sess (unique_groups ti)"

section \<open>INSERT\<close>

definition normalize_row :: "table_info \<Rightarrow> pystr list \<Rightarrow> pyval list \<Rightarrow> pyval list" where
  "normalize_row ti columns vals =
     foldl (\<lambda>row (c, v). case map_of (ti_name_index ti) c of None \<Rightarrow> row | Some i \<Rightarrow> row[i := v])
       (replicate (length (ti_columns ti)) PNone) (zip columns vals)"

definition check_null :: "column \<Rightarrow> pyval \<Rightarrow> unit res" where
  "check_null c v =
     guardE (\<not> (v = PNone \<and> (\<not> column.c_nullable c \<or> column.c_pk c))) (ConstraintViolation ''null'' [c_name c])"

definition check_cell :: "column \<Rightarrow> pyval \<Rightarrow> unit res" where
  "check_cell c v = (if v = PNone then Inr () else check_value (c_type c) (c_params c) v)"

definition check_row :: "table_info \<Rightarrow> pyval list \<Rightarrow> unit res" where
  "check_row ti row =
     bindE (mapE (\<lambda>(c, v). check_null c v) (zip (ti_columns ti) row)) (\<lambda>_.
     bindE (mapE (\<lambda>(c, v). check_cell c v) (zip (ti_columns ti) row)) (\<lambda>_. Inr ()))"

text \<open>One row of the statement; the accepted keys of the statement are passed on.\<close>

definition insert_one :: "table_info \<Rightarrow> pystr list \<Rightarrow> session \<Rightarrow> pyval list \<Rightarrow> (exec, session) cmd" where
  "insert_one ti columns sess vals =
     (if length vals \<noteq> length columns then raiseS ExecutionError
      else
        let row = normalize_row ti columns vals in
        bindS (liftE (check_row ti row)) (\<lambda>_.
        bindS (readS (\<lambda>s. validate_unique_keys row ti s sess)) (\<lambda>sess'.
        bindS (liftE (encode_row row (schema_v2 ti))) (\<lambda>row_bytes.
        bindS (insert_row_into_chain ti row_bytes) (\<lambda>slot_ref.
        bindS (index_row ti row slot_ref) (\<lambda>_.
        returnS sess'))))))"

fun insert_rows :: "table_info \<Rightarrow> pystr list \<Rightarrow> session \<Rightarrow> pyval list list \<Rightarrow> (exec, unit) cmd" where
  "insert_rows ti columns sess [] = returnS ()"
| "insert_rows ti columns sess (vals # rest) =
     bindS (insert_one ti columns sess vals) (\<lambda>sess'. insert_rows ti columns sess' rest)"

definition exec_insert :: "insert_stmt \<Rightarrow> (exec, outcome) cmd" where
  "exec_insert stmt =
     bindS (readS (need_table (i_table stmt))) (\<lambda>ti.
     if i_columns stmt = [] then raiseS ExecutionError
     else if list_ex (\<lambda>c. map_of (ti_name_index ti) c = None) (i_columns stmt) \<or> has_dup (i_columns stmt)
     then raiseS ExecutionError
     else bindS (insert_rows ti (i_columns stmt) [] (i_values stmt)) (\<lambda>_. returnS (Lists [])))"

section \<open>SELECT\<close>

text \<open>\<open>None\<close> when the WHERE clause is not one equality on an indexed column.\<close>

definition exec_indexed_select :: "select_stmt \<Rightarrow> table_info \<Rightarrow> nat list \<Rightarrow> exec \<Rightarrow> pyval list list option res" where
  "exec_indexed_select stmt ti proj_idx s =
     (case s_where stmt of
        Some (EqualsExpr column value q) \<Rightarrow>
          (case (get_btree (ti_name ti, column) s, find (\<lambda>c. c_name c = column) (ti_columns ti)) of
             (Some bt, Some col) \<Rightarrow>
               bindE (key_for col value) (\<lambda>key.
               bindE (lookup_key (ti_name ti, column) key s) (\<lambda>ref.
               case ref of
                 None \<Rightarrow> Inr (Some [])
               | Some r \<Rightarrow>
                   bindE (read_row_by_slot ti r s) (\<lambda>rows.
                   bindE (slice_and_project stmt rows proj_idx) (\<lambda>out. Inr (Some out)))))
           | _ \<Rightarrow> Inr None)
      | _ \<Rightarrow> Inr None)"

definition exec_table_select :: "uni \<Rightarrow> select_stmt \<Rightarrow> exec \<Rightarrow> outcome res" where
  "exec_table_select u stmt s =
     bindE (need_table (s_table stmt) s) (\<lambda>ti.
     bindE (validate_select stmt (schema_v2 ti)) (\<lambda>(proj_idx, aggregate_path).
     if aggregate_path then
       if s_items stmt = [] then Inl ExecutionError
       else bindE (scan_table ti s) (\<lambda>rows.
         bindE (exec_aggregate_select u stmt (schema_v2 ti) rows) (\<lambda>out. Inr (Rows out)))
     else
       bindE (exec_indexed_select stmt ti proj_idx s) (\<lambda>fast.
       case fast of
         Some out \<Rightarrow> Inr (Lists out)
       | None \<Rightarrow>
           bindE (scan_table ti s) (\<lambda>rows.
           bindE (exec_scan_select stmt (schema_v2 ti) proj_idx rows) (\<lambda>out. Inr (Lists out))))))"

definition scan_vals :: "exec \<Rightarrow> table_info \<Rightarrow> pyval list list res" where
  "scan_vals s ti = bindE (scan_table ti s) (\<lambda>rows. Inr (map row_vals rows))"

definition exec_select :: "uni \<Rightarrow> select_stmt \<Rightarrow> exec \<Rightarrow> outcome res" where
  "exec_select u stmt s =
     (if s_joins stmt \<noteq> []
      then bindE (exec_join_select u (x_catalog s) (scan_vals s) stmt) (\<lambda>out. Inr (Rows out))
      else exec_table_select u stmt s)"

section \<open>DELETE\<close>

definition matching_rows :: "expr option \<Rightarrow> table_info \<Rightarrow> exec \<Rightarrow> scan_row list res" where
  "matching_rows w ti s = bindE (scan_table ti s) (filterE (where_matches w (schema_v2 ti)))"

definition delete_one :: "table_info \<Rightarrow> scan_row \<Rightarrow> (exec, unit) cmd" where
  "delete_one ti = (\<lambda>(sid, vals, pid).
     bindS (load_page pid) (\<lambda>page.
     bindS (liftE (get_item (slots page) sid)) (\<lambda>slot.
     bindS (if spilled slot then free_overflow_chain pid else returnS ()) (\<lambda>_.
     bindS (liftE (delete_row page sid)) (\<lambda>page'.
     bindS (store_page pid page') (\<lambda>_.
     unindex_row ti vals))))))"

definition exec_delete :: "pystr \<Rightarrow> expr option \<Rightarrow> (exec, outcome) cmd" where
  "exec_delete table w =
     bindS (readS (need_table table)) (\<lambda>ti.
     bindS (readS (matching_rows w ti)) (\<lambda>to_delete.
     bindS (forS to_delete (delete_one ti)) (\<lambda>_.
     returnS (Lists []))))"

section \<open>UPDATE\<close>

definition validate_update_sets :: "update_stmt \<Rightarrow> schema_col list \<Rightarrow> (pystr, nat) dict res" where
  "validate_update_sets stmt schema =
     bindE (mapE (\<lambda>(col, e).
       case map_of (schema_name_index schema) col of
         None \<Rightarrow> Inl ExecutionError
       | Some i \<Rightarrow>
           (case e of
              EqualsExpr c v q \<Rightarrow>
                let (col_type, col_params) = col_type_and_params (schema ! i) in
                on_codec_error TypeErr (check_value col_type col_params v)
            | _ \<Rightarrow> Inl ExecutionError)) (u_sets stmt)) (\<lambda>_.
     Inr (schema_name_index schema))"

definition group_matches_by_page :: "scan_row list \<Rightarrow> (int, (int \<times> pyval list) list) dict" where
  "group_matches_by_page ms =
     foldl (\<lambda>d (sid, vals, pid).
       AList.update pid ((case map_of d pid of None \<Rightarrow> [] | Some l \<Rightarrow> l) @ [(sid, vals)]) d) [] ms"

text \<open>\<open>new_vals[col_name_to_idx[col_name]] = expr.value\<close>; the right-hand sides are literals here.\<close>

definition apply_sets :: "(pystr, nat) dict \<Rightarrow> (pystr \<times> expr) list \<Rightarrow> pyval list \<Rightarrow> pyval list" where
  "apply_sets idx sets vals =
     foldl (\<lambda>row (col, e). case (map_of idx col, e) of
       (Some i, EqualsExpr c v q) \<Rightarrow> row[i := v] | _ \<Rightarrow> row) vals sets"

text \<open>A command inside \<open>try: ... except PageFull\<close>: whether it got through.\<close>

definition unless_full :: "(exec, unit) cmd \<Rightarrow> (exec, bool) cmd" where
  "unless_full c =
     catchS (bindS c (\<lambda>_. returnS True)) (\<lambda>e. if e = PageFull then returnS False else raiseS e)"

type_synonym pending = "(pyval list \<times> pyval list \<times> byte list) list"

text \<open>
  Moving a row: its chain is freed, its slot deleted, and the new row inserted in the
  same page, or left for another page.
\<close>

definition move_in_page ::
    "table_info \<Rightarrow> int \<Rightarrow> slotted_page \<Rightarrow> int \<Rightarrow> pyval list \<Rightarrow> pyval list \<Rightarrow> byte list \<Rightarrow>
     (exec, slotted_page \<times> pending) cmd" where
  "move_in_page ti pid page sid old_vals new_vals new_bytes =
     bindS (liftE (get_item (slots page) sid)) (\<lambda>old_slot.
     bindS (if spilled old_slot then free_overflow_chain pid else returnS ()) (\<lambda>_.
     bindS (liftE (delete_row page sid)) (\<lambda>page.
     case insert_row page new_bytes of
       Inl e \<Rightarrow> if e = PageFull then returnS (page, [(old_vals, new_vals, new_bytes)]) else raiseS e
     | Inr (new_sid, page) \<Rightarrow>
         bindS (unless_full (update_index_for_row ti old_vals new_vals (pid, new_sid))) (\<lambda>ok.
         returnS (page, if ok then [] else [(old_vals, new_vals, new_bytes)])))))"

definition update_in_page ::
    "table_info \<Rightarrow> int \<Rightarrow> (pystr, nat) dict \<Rightarrow> (pystr \<times> expr) list \<Rightarrow> slotted_page \<Rightarrow> int \<times> pyval list \<Rightarrow>
     (exec, slotted_page \<times> pending) cmd" where
  "update_in_page ti pid idx sets page = (\<lambda>(sid, old_vals).
     let new_vals = apply_sets idx sets old_vals in
     bindS (liftE (encode_row new_vals (schema_v2 ti))) (\<lambda>new_bytes.
     bindS (liftE (get_item (slots page) sid)) (\<lambda>old_slot.
     if py_len new_bytes > s_length old_slot then move_in_page ti pid page sid old_vals new_vals new_bytes
     else
       case update_row page sid new_bytes of
         Inl e \<Rightarrow> if e = PageFull then move_in_page ti pid page sid old_vals new_vals new_bytes else raiseS e
       | Inr page' \<Rightarrow>
           bindS (unless_full (update_index_for_row ti old_vals new_vals (pid, sid))) (\<lambda>ok.
           if ok then returnS (page', []) else move_in_page ti pid page' sid old_vals new_vals new_bytes))))"

fun apply_page_updates ::
    "table_info \<Rightarrow> int \<Rightarrow> (pystr, nat) dict \<Rightarrow> (pystr \<times> expr) list \<Rightarrow> slotted_page \<Rightarrow> (int \<times> pyval list) list \<Rightarrow>
     (exec, slotted_page \<times> pending) cmd" where
  "apply_page_updates ti pid idx sets page [] = returnS (page, [])"
| "apply_page_updates ti pid idx sets page (m # ms) =
     bindS (update_in_page ti pid idx sets page m) (\<lambda>(page', p).
     bindS (apply_page_updates ti pid idx sets page' ms) (\<lambda>(page'', ps).
     returnS (page'', p @ ps)))"

definition insert_pending :: "table_info \<Rightarrow> pyval list \<times> pyval list \<times> byte list \<Rightarrow> (exec, unit) cmd" where
  "insert_pending ti = (\<lambda>(old_vals, new_vals, new_bytes).
     bindS (insert_row_into_chain ti new_bytes) (update_index_for_row ti old_vals new_vals))"

definition update_page ::
    "table_info \<Rightarrow> (pystr, nat) dict \<Rightarrow> (pystr \<times> expr) list \<Rightarrow> int \<times> (int \<times> pyval list) list \<Rightarrow> (exec, unit) cmd" where
  "update_page ti idx sets = (\<lambda>(pid, ms).
     bindS (load_page pid) (\<lambda>page.
     bindS (apply_page_updates ti pid idx sets page ms) (\<lambda>(page', pending).
     bindS (store_page pid page') (\<lambda>_.
     forS pending (insert_pending ti)))))"

definition exec_update :: "update_stmt \<Rightarrow> (exec, outcome) cmd" where
  "exec_update stmt =
     bindS (readS (need_table (u_table stmt))) (\<lambda>ti.
     bindS (liftE (validate_update_sets stmt (schema_v2 ti))) (\<lambda>idx.
     bindS (readS (matching_rows (u_where stmt) ti)) (\<lambda>matches.
     bindS (forS (group_matches_by_page matches) (update_page ti idx (u_sets stmt))) (\<lambda>_.
     returnS (Lists [])))))"

section \<open>DROP TABLE\<close>

text \<open>
  The overflow pages of one data page. A page is followed once, so the number of pages
  is enough fuel.
\<close>

fun collect_chain :: "nat \<Rightarrow> int \<Rightarrow> int list \<Rightarrow> exec \<Rightarrow> int list res" where
  "collect_chain n nxt pids s =
     (if nxt > 0 \<and> nxt \<noteq> NULL_PAGE_ID \<and> nxt \<notin> set pids then
        (case n of
           0 \<Rightarrow> Inl FuelOut
         | Suc n' \<Rightarrow>
             bindE (exec_read_page nxt s) (\<lambda>raw.
             bindE (get_item raw 0) (\<lambda>ty.
             if ty \<noteq> 2 then Inr pids else collect_chain n' (next_overflow raw) (pids @ [nxt]) s)))
      else Inr pids)"

declare collect_chain.simps [simp del]

definition collect_step :: "exec \<Rightarrow> int list \<Rightarrow> int \<Rightarrow> int list res" where
  "collect_step s pids pid =
     (if pid \<in> set (index_pages s) \<or> pid \<in> set pids then Inr pids
      else bindE (exec_read_page pid s) (\<lambda>raw.
        collect_chain (tree_fuel s) (next_overflow raw) (pids @ [pid]) s))"

definition page_range :: "table_info \<Rightarrow> int list" where
  "page_range ti = map (\<lambda>i. ti_root ti + int i) [0..<nat (ti_next ti + 1 - ti_root ti)]"

definition collect_table_data_pages :: "table_info \<Rightarrow> exec \<Rightarrow> int list res" where
  "collect_table_data_pages ti s =
     (if ti_root ti = 0 \<or> ti_next ti < ti_root ti then Inr []
      else foldE (collect_step s) [] (page_range ti))"

text \<open>The nodes of one tree; the fuel bounds the number of pages visited.\<close>

fun walk_tree :: "nat \<Rightarrow> int list \<Rightarrow> int list \<Rightarrow> exec \<Rightarrow> int list res" where
  "walk_tree n [] pids s = Inr pids"
| "walk_tree 0 (pid # stack) pids s = (if pid \<in> set pids then walk_tree 0 stack pids s else Inl FuelOut)"
| "walk_tree (Suc n) (pid # stack) pids s =
     (if pid \<in> set pids then walk_tree (Suc n) stack pids s
      else
        bindE (exec_read_page pid s) (\<lambda>raw.
        bindE (get_item raw 0) (\<lambda>ty.
        bindE (if ty = NODE_TYPE_INTERNAL then bindE (inode_deserialize raw) (\<lambda>nd. Inr (n_children nd)) else Inr [])
          (\<lambda>children. walk_tree n (rev children @ stack) (pids @ [pid]) s))))"

definition collect_index_pages :: "table_info \<Rightarrow> exec \<Rightarrow> int list res" where
  "collect_index_pages ti s =
     foldE (\<lambda>pids col.
       case get_btree (ti_name ti, c_name col) s of
         None \<Rightarrow> Inr pids
       | Some ix \<Rightarrow>
           (case ix_root ix of None \<Rightarrow> Inr pids | Some r \<Rightarrow> walk_tree (tree_fuel s) [r] pids s))
       [] (indexed_columns ti)"

text \<open>
  A tree of a \<open>Database\<close> always has a wrapper. \<open>list(wrapper._allocated)\<close> is read before
  its pages are freed, here in the order of the list that stands for the set.
\<close>

definition free_index :: "index_key \<Rightarrow> (exec, unit) cmd" where
  "free_index k =
     bindS (getS (get_btree k)) (\<lambda>bt.
     case Option.bind bt ix_pager of
       None \<Rightarrow> returnS ()
     | Some w \<Rightarrow> bindS (getS (\<lambda>s. x_wrappers s ! w)) (\<lambda>allocated. forS allocated (index_free k)))"

definition drop_entry :: "pystr \<Rightarrow> (exec, unit) cmd" where
  "drop_entry name = (\<lambda>s.
     case catalog_drop_table (x_catalog s) name of
       Inl e \<Rightarrow> (Inl e, s)
     | Inr c \<Rightarrow> (Inr (), s\<lparr>x_catalog := c, x_data_pages := AList.delete name (x_data_pages s)\<rparr>))"

definition exec_drop_table :: "pystr \<Rightarrow> (exec, outcome) cmd" where
  "exec_drop_table name =
     bindS (readS (need_table name)) (\<lambda>ti.
     bindS (readS (collect_table_data_pages ti)) (\<lambda>data_pids.
     bindS (readS (collect_index_pages ti)) (\<lambda>_.
     bindS (drop_entry name) (\<lambda>_.
     bindS (forS data_pids exec_free_page) (\<lambda>_.
     bindS (forS (indexed_columns ti) (\<lambda>col. free_index (name, c_name col))) (\<lambda>_.
     bindS (forget_table name) (\<lambda>_.
     bindS write_catalog (\<lambda>_.
     returnS (Lists [])))))))))"

section \<open>Dispatch\<close>

definition exec_stmt :: "uni \<Rightarrow> stmt \<Rightarrow> (exec, outcome) cmd" where
  "exec_stmt u st =
     (case st of
        S_Create c \<Rightarrow> exec_create_table c
      | S_Drop name l c \<Rightarrow> exec_drop_table name
      | S_Insert i \<Rightarrow> exec_insert i
      | S_Select q \<Rightarrow> readS (exec_select u q)
      | S_Delete table w l c \<Rightarrow> exec_delete table w
      | S_Update up \<Rightarrow> exec_update up
      | _ \<Rightarrow> raiseS ExecutionError)"

definition execute :: "uni \<Rightarrow> stmt \<Rightarrow> (exec, outcome) cmd" where
  "execute u st =
     (case st of
        S_Begin l c \<Rightarrow> bindS exec_begin (\<lambda>_. returnS (Lists []))
      | S_Commit l c \<Rightarrow> bindS exec_commit (\<lambda>_. returnS (Lists []))
      | S_Rollback l c \<Rightarrow> bindS exec_rollback (\<lambda>_. returnS (Lists []))
      | _ \<Rightarrow> exec_in_txn (exec_stmt u st))"

end
