(* ===== verification/Recovery.thy ===== *)
theory Recovery
  imports Transaction
begin

text \<open>
  \<open>src/tinydb/recovery.py\<close> and the end of \<open>Pager.__init__\<close>: replay of the log
  on open. The state is the contents of the two files. \<open>note_record\<close> is the loop
  body of \<open>Recovery.replay\<close>, \<open>apply_committed\<close> and \<open>replay\<close> the functions,
  \<open>open_pager\<close> the constructor of the file mode. The crash model runs the code of the
  transaction itself on files that stop changing after a number of bytes; a run that is
  not cut is that of the pager (\<open>uncut_run\<close>). Lemmas: for every number of bytes, what
  opening the database finds.
\<close>

record disk =
  d_main :: "byte list"
  d_wal :: "byte list"

datatype rec_status = S_active | S_committed | S_rolled_back

type_synonym replay_state = "(int, (int, byte list) dict) dict \<times> (int, rec_status) dict"

fun note_record :: "replay_state \<Rightarrow> wal_rec \<Rightarrow> replay_state" where
  "note_record (pending, status) r =
     (let i = r_txn r; kind = r_kind r in
      if kind = K_BEGIN then (dict_setdefault i [] pending, AList.update i S_active status)
      else if kind = K_PAGE_WRITE then
        let pending = dict_setdefault i [] pending in
        (AList.update i (AList.update (r_page r) (r_data r) (the (map_of pending i))) pending, status)
      else if kind = K_COMMIT then (pending, AList.update i S_committed status)
      else if kind = K_ROLLBACK then (pending, AList.update i S_rolled_back status)
      else (pending, status))"

definition max_txn_id :: "(int, (int, byte list) dict) dict \<Rightarrow> int" where
  "max_txn_id pending = (case map fst pending of [] \<Rightarrow> 0 | k # ks \<Rightarrow> fold max ks k)"

definition truncate_wal_to :: "nat \<Rightarrow> disk \<Rightarrow> disk" where
  "truncate_wal_to off d = d\<lparr>d_wal := take (max 16 off) (d_wal d)\<rparr>"

text \<open>
  \<open>_apply_committed\<close> opens a second pager on the same files; the re-entry guard
  makes its own replay return at once, after the log handle was opened.
\<close>

definition write_committed :: "replay_state \<Rightarrow> (pager, unit) cmd" where
  "write_committed st =
     forS (sort (map fst (fst st))) (\<lambda>i.
       if map_of (snd st) i \<noteq> Some S_committed then returnS ()
       else forS (the (map_of (fst st) i)) (\<lambda>(pid, d). write_main_page pid d))"

definition apply_committed :: "replay_state \<Rightarrow> (disk, unit) cmd" where
  "apply_committed st = (\<lambda>d.
     case open_main (Some (d_main d)) (Some (d_wal d)) of
       Inl e \<Rightarrow> (Inl e, d)
     | Inr p \<Rightarrow>
         (case wal_open (Some (d_wal d)) of
            Inl e \<Rightarrow> (Inl e, d\<lparr>d_main := main_file p\<rparr>)
          | Inr b \<Rightarrow>
              let (r, p') = write_committed st p in
              (r, \<lparr>d_main = main_file p', d_wal = b\<rparr>)))"

definition replay :: "(disk, unit) cmd" where
  "replay = (\<lambda>d.
     case iter_records (d_wal d) of
       (rs, Some e) \<Rightarrow>
         bindS (apply_committed (foldl note_record ([], []) rs)) (\<lambda>_. raiseS e)
           (truncate_wal_to (case e of WalCorruption off \<Rightarrow> off | _ \<Rightarrow> 0) d)
     | (rs, None) \<Rightarrow>
         (let st = foldl note_record ([], []) rs in
          bindS (apply_committed st) (\<lambda>_.
          bindS (getS (\<lambda>d. truncate_before (d_wal d)
                   (if fst st \<noteq> [] then max_txn_id (fst st) + 1 else 1))) (\<lambda>r.
          bindS (liftE r) (\<lambda>b. modifyS (\<lambda>d. d\<lparr>d_wal := b\<rparr>)))) d))"

text \<open>
  The constructor of a file-mode pager, with the files it leaves. The mapping
  and \<open>next_page_id\<close> are those of the file before recovery.
\<close>

definition open_pager :: "byte list option \<Rightarrow> byte list option \<Rightarrow>
    pager res \<times> byte list option \<times> byte list option" where
  "open_pager f w =
     (case open_main f w of
        Inl e \<Rightarrow> (Inl e, f, w)
      | Inr p \<Rightarrow>
          (case w of
             None \<Rightarrow> (Inr p, Some (main_file p), None)
           | Some b \<Rightarrow>
               (case wal_open (Some b) of
                  Inl e \<Rightarrow> (Inl e, Some (main_file p), w)
                | Inr b' \<Rightarrow>
                    let (r, d) = replay \<lparr>d_main = main_file p, d_wal = b'\<rparr> in
                    ((case r of
                        Inl e \<Rightarrow> Inl e
                      | Inr _ \<Rightarrow> Inr (p\<lparr>main_file := d_main d, wal_is_open := True,
                                       wal_bytes := Some (d_wal d)\<rparr>)),
                     Some (d_main d), Some (d_wal d)))))"

section \<open>The files as an array of pages\<close>

definition page :: "byte list \<Rightarrow> int \<Rightarrow> byte list" where
  "page f q = (if q < 0 then [] else take 4096 (drop (nat (q * 4096)) f))"

definition header_ok :: "byte list \<Rightarrow> bool" where
  "header_ok f \<longleftrightarrow> take 7 f = MAGIC_PREFIX \<and> (f ! 7 = 2 \<or> f ! 7 = 3) \<and> f ! 8 = 3"

definition db_ok :: "byte list \<Rightarrow> bool" where
  "db_ok f \<longleftrightarrow> (\<exists>N\<ge>2. length f = N * 4096) \<and> header_ok f"

definition file_pager :: "byte list \<Rightarrow> byte list option \<Rightarrow> pager" where
  "file_pager f w =
     \<lparr>is_memory = False, mem_pages = [], main_file = f, mmap_size = int (length f),
      next_page_id = int (length f) div 4096, wal_is_open = False, wal_bytes = w\<rparr>"

lemma img_file_pager [simp]: "img (file_pager f w) = page f"
  by (auto simp: img_def page_def file_pager_def)

lemma file_pager_wf: "db_ok f \<Longrightarrow> pager_wf (file_pager f w)"
  by (auto simp: db_ok_def file_pager_def pager_wf_def)

lemma open_main_ok: "db_ok f \<Longrightarrow> open_main (Some f) w = Inr (file_pager f w)"
proof -
  assume ok: "db_ok f"
  then obtain N where N: "2 \<le> N" "length f = N * 4096" by (auto simp: db_ok_def)
  then have "f \<noteq> []" "9 \<le> length f" by auto
  then have "open_file (Some f) (w \<noteq> None) = Inr (f, int (length f))"
    using ok by (auto simp: open_file_def db_ok_def header_ok_def Let_def slice_to_nonneg get_item_nonneg)
  then show ?thesis using N by (simp add: open_main_def file_pager_def max_def)
qed

lemma header_ok_take: "take 9 f = take 9 g \<Longrightarrow> 9 \<le> length f \<Longrightarrow> 9 \<le> length g \<Longrightarrow> header_ok f = header_ok g"
proof -
  assume eq: "take 9 f = take 9 g" and len: "9 \<le> length f" "9 \<le> length g"
  have "take 7 (take 9 f) = take 7 (take 9 g)" "take 9 f ! 7 = take 9 g ! 7" "take 9 f ! 8 = take 9 g ! 8"
    by (simp_all only: eq)
  then show ?thesis using len by (simp add: header_ok_def)
qed

lemma pages_eqI:
  assumes "length f = length g" and "length f = N * 4096" and "\<And>q. page f q = page g q"
  shows "f = g"
proof (rule nth_equalityI [OF assms(1)])
  fix k assume k: "k < length f"
  let ?q = "int (k div 4096)"
  have "page f ?q ! (k mod 4096) = page g ?q ! (k mod 4096)" by (simp add: assms(3))
  moreover have "nat (?q * 4096) = k div 4096 * 4096" by (simp add: nat_mult_distrib)
  moreover have "k div 4096 * 4096 \<le> length f" "k div 4096 * 4096 \<le> length g"
    using k assms(1) by (simp_all add: le_trans [OF div_times_less_eq_dividend less_imp_le])
  ultimately show "f ! k = g ! k" by (simp add: page_def)
qed

lemma file_write_page:
  assumes "length f = N * 4096" and "0 \<le> pid" and "pid < int N" and "length d \<le> 4096"
  shows "length (file_write f (pid * 4096) d) = length f"
    and "q \<noteq> pid \<Longrightarrow> page (file_write f (pid * 4096) d) q = page f q"
    and "length d = 4096 \<Longrightarrow> page (file_write f (pid * 4096) d) pid = d"
    and "n \<le> 4096 \<Longrightarrow>
      take n (file_write f (pid * 4096) d) = take n (if pid = 0 then d @ drop (length d) f else f)"
proof -
  obtain k where k: "pid = int k" "k < N" using assms(2,3) by (metis nonneg_int_cases of_nat_less_iff)
  have off: "nat (pid * 4096) = k * 4096" by (simp add: k)
  have room: "k * 4096 + 4096 \<le> length f" using k(2) assms(1) by simp
  then have w: "file_write f (pid * 4096) d = take (k * 4096) f @ d @ drop (k * 4096 + length d) f"
    by (simp add: file_write_def off)
  have B: "k * 4096 \<le> k * 4096 + length d" "k * 4096 + length d \<le> length f"
      "length d = k * 4096 + length d - k * 4096" using room assms(4) by simp_all
  show "length (file_write f (pid * 4096) d) = length f" using room assms(4) by (simp add: w)
  show "page (file_write f (pid * 4096) d) q = page f q" if "q \<noteq> pid"
  proof (cases "q < 0")
    case False
    then obtain m where m: "q = int m" by (metis nonneg_int_cases not_less)
    then have "nat (q * 4096) = m * 4096" by (simp add: nat_mult_distrib)
    then have P: "page g q = take 4096 (drop (m * 4096) g)" for g using m by (simp add: page_def)
    show ?thesis
    proof (cases "m < k")
      case True
      then have "m * 4096 + 4096 \<le> k * 4096" by simp
      from slice_overwrite(1) [OF B this] show ?thesis by (simp only: P w)
    next
      case ge: False
      then have "k * 4096 + length d \<le> m * 4096" using that assms(4) by (simp add: m k)
      from slice_overwrite(2) [OF B this] show ?thesis by (simp only: P w)
    qed
  qed (simp add: page_def)
  show "page (file_write f (pid * 4096) d) pid = d" if "length d = 4096"
    using room that assms(2) by (simp add: page_def w off)
  show "take n (file_write f (pid * 4096) d) = take n (if pid = 0 then d @ drop (length d) f else f)"
    if "n \<le> 4096"
  proof (cases k)
    case 0
    then have "pid = 0" "file_write f (pid * 4096) d = d @ drop (length d) f"
      using k(1) by (simp, subst w, simp)
    then show ?thesis by simp
  next
    case (Suc m)
    then have "n \<le> k * 4096" using that by simp
    moreover have "pid \<noteq> 0" using Suc k(1) by simp
    ultimately show ?thesis using room by (subst w) (simp add: min_absorb1)
  qed
qed

section \<open>A crash\<close>

text \<open>
  Files that take so many bytes more and then no longer change: the write in which the bytes
  run out is cut, and the process ends there. \<open>FuelOut\<close> stands for its end; the handler of
  \<open>commit\<close> writes no file. Replacing the log empties the file, which counts as one, and then
  writes. The writes reach the disk in program order. The transaction runs as it is over these
  methods in place of the pager's.
\<close>

type_synonym dying = "nat \<times> disk"

definition dying_append :: "int \<Rightarrow> int \<Rightarrow> int \<Rightarrow> byte list \<Rightarrow> (dying, unit) cmd" where
  "dying_append i k pid b = (\<lambda>(n, d).
     case encode_record i k pid b of
       Inl e \<Rightarrow> (Inl e, (n, d))
     | Inr r \<Rightarrow> (if length r \<le> n then Inr () else Inl FuelOut, (n - length r, d\<lparr>d_wal := d_wal d @ take n r\<rparr>)))"

definition dying_write :: "int \<Rightarrow> byte list \<Rightarrow> (dying, unit) cmd" where
  "dying_write pid b = (\<lambda>(n, d).
     if pid < 0 then (Inl ValueError, (n, d))
     else (if length b \<le> n then Inr () else Inl FuelOut,
           (n - length b, d\<lparr>d_main := file_write (d_main d) (pid * 4096) (take n b)\<rparr>)))"

definition dying_truncate :: "int \<Rightarrow> (dying, unit) cmd" where
  "dying_truncate i = (\<lambda>(n, d).
     case truncate_before (d_wal d) i of
       Inl e \<Rightarrow> (Inl e, (n, d))
     | Inr b \<Rightarrow>
         if n = 0 then (Inl FuelOut, (n, d))
         else (if length b < n then Inr () else Inl FuelOut, (n - 1 - length b, d\<lparr>d_wal := take (n - 1) b\<rparr>)))"

definition dying_methods :: "dying txn_pager" where
  "dying_methods =
     \<lparr>m_append_page = (\<lambda>i. dying_append i 1), m_append_commit = (\<lambda>i. dying_append i 2 0 []),
      m_append_rollback = (\<lambda>i. dying_append i 3 0 []), m_write_main = dying_write, m_truncate_before = dying_truncate\<rparr>"

text \<open>The writes of a transaction and its commit on a file with an empty log, ended after \<open>n\<close> bytes.\<close>

definition dying_run :: "nat \<Rightarrow> byte list \<Rightarrow> int \<Rightarrow> (int \<times> byte list) list \<Rightarrow> unit res \<times> txn \<times> dying" where
  "dying_run n f i ws =
     bindS (txn_writes_on dying_methods ws) (\<lambda>_. commit_on dying_methods) (new_txn i, (n, \<lparr>d_main = f, d_wal = make_header\<rparr>))"

definition crashed :: "nat \<Rightarrow> byte list \<Rightarrow> int \<Rightarrow> (int \<times> byte list) list \<Rightarrow> disk" where
  "crashed n f i ws = snd (snd (snd (dying_run n f i ws)))"

lemma dying_simps:
  "m_append_page dying_methods i = dying_append i 1" "m_append_commit dying_methods i = dying_append i 2 0 []"
  "m_write_main dying_methods = dying_write" "m_truncate_before dying_methods = dying_truncate"
  by (simp_all add: dying_methods_def)

lemma dying_append_rec:
  assumes "rec_ok r"
  shows "dying_append (r_txn r) (r_kind r) (r_page r) (r_data r) (n, d) =
    (if length (rec_bytes r) \<le> n then Inr () else Inl FuelOut,
     (n - length (rec_bytes r), d\<lparr>d_wal := d_wal d @ take n (rec_bytes r)\<rparr>))"
  using encode_record_ok [OF assms] by (simp add: dying_append_def)

text \<open>The files differ at most in the pages \<open>K\<close>, and both are databases.\<close>

definition same_off :: "int set \<Rightarrow> byte list \<Rightarrow> byte list \<Rightarrow> bool" where
  "same_off K f g \<longleftrightarrow> length f = length g \<and> (\<forall>q. q \<notin> K \<longrightarrow> page f q = page g q) \<and> take 9 f = take 9 g"

definition good_write :: "byte list \<Rightarrow> int \<times> byte list \<Rightarrow> bool" where
  "good_write f w \<longleftrightarrow>
     0 \<le> fst w \<and> fst w < int (length f) div 4096 \<and> fst w < 256 ^ 4 \<and> length (snd w) = 4096 \<and>
     (fst w = 0 \<longrightarrow> take 9 (snd w) = take 9 f)"

lemma same_off_write:
  assumes "db_ok f" and "same_off K g f" and "good_write f (pid, d)" and "pid \<in> K"
  shows "same_off K (file_write g (pid * 4096) (take n d)) f"
proof -
  obtain N where N: "length f = N * 4096" using assms(1) by (auto simp: db_ok_def)
  have g: "length g = N * 4096" using N assms(2) by (simp add: same_off_def)
  have pid: "0 \<le> pid" "pid < int N" using assms(3) N by (simp_all add: good_write_def)
  note fw = file_write_page [OF g pid, of "take n d"]
  have "take 9 (file_write g (pid * 4096) (take n d)) = take 9 f"
  proof (cases "pid = 0")
    case False
    then show ?thesis using fw(4) [of 9] assms(2,3) by (simp add: same_off_def good_write_def)
  next
    case True
    then have d: "take 9 d = take 9 f" "take 9 g = take 9 f" "length d = 4096"
      using assms(2,3) by (simp_all add: same_off_def good_write_def)
    have "take 9 (take n d @ drop (length (take n d)) g) = take 9 f"
    proof (cases "n < 9")
      case True
      then have "take 9 (take n d @ drop n g) = take n (take 9 d) @ drop n (take 9 g)"
        using d(3) by (simp add: min_def drop_take)
      then show ?thesis using True d append_take_drop_id [of n "take 9 f"] by (simp add: min_absorb1)
    next
      case False
      then show ?thesis using d by (simp add: min_def)
    qed
    then show ?thesis using fw(4) [of 9] True d by simp
  qed
  moreover have "page (file_write g (pid * 4096) (take n d)) q = page f q" if "q \<notin> K" for q
  proof -
    have "q \<noteq> pid" using that assms(4) by auto
    then show ?thesis using fw(2) [of q] assms(2,3) that by (simp add: same_off_def good_write_def)
  qed
  ultimately show ?thesis using fw(1) assms(2,3) by (simp add: same_off_def good_write_def)
qed

text \<open>Pages written one after the other until the bytes run out.\<close>

lemma dying_writes_pages:
  assumes "db_ok f" and "list_all (good_write f) ws" and "same_off K (d_main d) f" and "fst ` set ws \<subseteq> K"
  shows "\<exists>r m g. forS ws (\<lambda>(pid, b). on_pager (dying_write pid b)) (t, (n, d)) = (r, (t, (m, d\<lparr>d_main := g\<rparr>))) \<and>
    same_off K g f \<and>
    (if 4096 * length ws \<le> n then r = Inr () \<and> m = n - 4096 * length ws \<and> page g = put_pages (page (d_main d)) ws
     else r = Inl FuelOut)"
  using assms(2-4)
proof (induction ws arbitrary: n d)
  case Nil
  then show ?case by (auto intro!: exI [of _ "d_main d"])
next
  case (Cons w ws)
  obtain pid b where w: "w = (pid, b)" by force
  obtain N where N: "length f = N * 4096" using assms(1) by (auto simp: db_ok_def)
  let ?g = "file_write (d_main d) (pid * 4096) (take n b)"
  have pid: "0 \<le> pid" "pid < int N" "length b = 4096" "pid \<in> K" "good_write f (pid, b)"
    using Cons.prems N by (simp_all add: good_write_def w)
  have off: "same_off K ?g f" by (rule same_off_write [OF assms(1) Cons.prems(2) pid(5,4)])
  have one: "on_pager (dying_write pid b) (t, (n, d)) =
      (if 4096 \<le> n then Inr () else Inl FuelOut, (t, (n - 4096, d\<lparr>d_main := ?g\<rparr>)))"
    using pid by (simp add: on_pager_def dying_write_def)
  show ?case
  proof (cases "4096 \<le> n")
    case False
    then have "forS (w # ws) (\<lambda>(pid, b). on_pager (dying_write pid b)) (t, (n, d)) = (Inl FuelOut, (t, (n - 4096, d\<lparr>d_main := ?g\<rparr>)))"
      using one by (simp add: w bindS_Inl)
    then show ?thesis using off False by auto
  next
    case True
    have g: "length (d_main d) = N * 4096" using Cons.prems(2) N by (simp add: same_off_def)
    have page: "page ?g = put_page (page (d_main d)) w"
      using file_write_page [OF g pid(1,2), of b] pid(3) True by (auto simp: put_page_def w)
    obtain r m h where "forS ws (\<lambda>(pid, b). on_pager (dying_write pid b)) (t, (n - 4096, d\<lparr>d_main := ?g\<rparr>))
        = (r, (t, (m, d\<lparr>d_main := h\<rparr>)))" "same_off K h f"
      "if 4096 * length ws \<le> n - 4096 then r = Inr () \<and> m = n - 4096 - 4096 * length ws \<and> page h = put_pages (page ?g) ws
       else r = Inl FuelOut"
      using Cons.IH [of "d\<lparr>d_main := ?g\<rparr>" "n - 4096"] Cons.prems off by auto
    moreover have "forS (w # ws) (\<lambda>(pid, b). on_pager (dying_write pid b)) (t, (n, d)) =
        forS ws (\<lambda>(pid, b). on_pager (dying_write pid b)) (t, (n - 4096, d\<lparr>d_main := ?g\<rparr>))"
      using one True by (simp add: w bindS_Inr)
    ultimately show ?thesis using True page by (intro exI [of _ r] exI [of _ m] exI [of _ h]) (auto split: if_splits)
  qed
qed

lemma same_off_db_ok: "db_ok f \<Longrightarrow> same_off K g f \<Longrightarrow> db_ok g"
  using header_ok_take [of g f] by (auto simp: db_ok_def same_off_def)

lemma same_off_none:
  assumes "db_ok f" and "same_off {} g f"
  shows "g = f"
  using assms pages_eqI [of g f] by (auto simp: same_off_def db_ok_def)

section \<open>Replaying the log of one transaction\<close>

definition pend1 :: "int \<Rightarrow> (int \<times> byte list) list \<Rightarrow> (int, (int, byte list) dict) dict" where
  "pend1 i ws = (if ws = [] then [] else [(i, pending_of ws)])"

lemma note_page_recs: "foldl note_record ([], st) (map (page_rec i) ws) = (pend1 i ws, st)"
proof (induction ws rule: rev_induct)
  case (snoc w ws)
  then show ?case
    by (auto simp: pend1_def page_rec_def dict_setdefault_def pending_of_snoc Let_def)
      (simp_all add: pending_of_def)
qed (simp add: pend1_def)

lemma note_end_rec: "note_record (p, st) (end_rec i 2) = (p, AList.update i S_committed st)"
  by (simp add: end_rec_def Let_def)

lemma write_committed_none: "write_committed (pend1 i ws, []) p = (Inr (), p)"
  by (simp add: write_committed_def pend1_def)

lemma write_committed_one:
  "write_committed (pend1 i ws, [(i, S_committed)]) p =
    forS (pending_of ws) (\<lambda>(pid, d). write_main_page pid d) p"
proof (cases "ws = []")
  case False
  then show ?thesis
    by (cases "forS (pending_of ws) (\<lambda>(pid, d). write_main_page pid d) p"; cases "fst (forS (pending_of ws) (\<lambda>(pid, d). write_main_page pid d) p)")
      (auto simp: write_committed_def pend1_def bindS_def)
qed (simp add: write_committed_def pend1_def pending_of_def)

lemma apply_committed_ok:
  assumes "db_ok (d_main d)" and "wal_open (Some (d_wal d)) = Inr b"
  shows "apply_committed st d =
    (let (r, p') = write_committed st (file_pager (d_main d) (Some (d_wal d))) in
     (r, \<lparr>d_main = main_file p', d_wal = b\<rparr>))"
  using open_main_ok [OF assms(1)] assms(2) by (simp add: apply_committed_def)

text \<open>The pages after replaying a committed transaction, whatever of it was already there.\<close>

lemma replay_pages:
  assumes "db_ok f" and "same_off (fst ` set (pending_of ws)) g f" and "list_all (good_write f) ws"
  shows "\<exists>p'. forS (pending_of ws) (\<lambda>(pid, d). write_main_page pid d) (file_pager g w) = (Inr (), p') \<and>
    length (main_file p') = length f \<and> page (main_file p') = put_pages (page f) ws"
proof -
  let ?p = "file_pager g w"
  have ok: "db_ok g" by (rule same_off_db_ok [OF assms(1,2)])
  have len: "length g = length f" using assms(2) by (simp add: same_off_def)
  have "list_all (page_write_ok ?p) (pending_of ws)"
    using assms(3) set_pending [of ws] len
    by (auto simp: list_all_iff page_write_ok_def good_write_def file_pager_def)
  from main_writes_eff [OF file_pager_wf [OF ok] this]
  have "eff ?p (put_pages (page g) (pending_of ws)) (forS (pending_of ws) (\<lambda>(pid, d). write_main_page pid d) ?p)"
    by simp
  from effD [of ?p _ "forS (pending_of ws) (\<lambda>(pid, d). write_main_page pid d)", OF this]
  obtain p' where p': "forS (pending_of ws) (\<lambda>(pid, d). write_main_page pid d) ?p = (Inr (), p')"
    "pager_wf p'" "same_rest ?p p'" "img p' = put_pages (page g) (pending_of ws)" by auto
  have mode: "\<not> is_memory p'" "next_page_id p' = int (length g) div 4096"
    using p'(3) by (simp_all add: same_rest_def file_pager_def)
  obtain N where "length f = N * 4096" using assms(1) by (auto simp: db_ok_def)
  then have "length (main_file p') = length f"
    using p'(2) mode len by (simp add: pager_wf_def)
  moreover have "page (main_file p') = img p'" using mode(1) by (auto simp: img_def page_def)
  moreover have "put_pages (page g) (pending_of ws) q = put_pages (page f) (pending_of ws) q" for q
  proof (cases "map_of (pending_of ws) q")
    case None
    then have "q \<notin> fst ` set (pending_of ws)" by (simp add: map_of_eq_None_iff)
    then show ?thesis using assms(2) None
      by (simp add: put_pages_map_of [OF distinct_pending] same_off_def)
  qed (simp add: put_pages_map_of [OF distinct_pending])
  ultimately show ?thesis using p'(1,4) by (auto simp: put_pending fun_eq_iff)
qed

section \<open>The log after a crash\<close>

definition txn_recs :: "int \<Rightarrow> (int \<times> byte list) list \<Rightarrow> wal_rec list" where
  "txn_recs i ws = map (page_rec i) ws @ [end_rec i 2]"

lemma txn_recs_ok:
  "0 \<le> i \<Longrightarrow> i < 256 ^ 8 \<Longrightarrow> list_all (good_write f) ws \<Longrightarrow> list_all rec_ok (txn_recs i ws)"
  by (auto simp: txn_recs_def list_all_iff page_rec_def end_rec_def rec_ok_def good_write_def)

text \<open>Replay of a log of complete records with or without a torn tail.\<close>

lemma replay_torn:
  assumes "iter_records (d_wal d) = (rs, Some (WalCorruption off))" and "16 \<le> off"
    and "db_ok (d_main d)" and "wal_open (Some (take off (d_wal d))) = Inr b"
  shows "\<exists>r. fst (replay d) = Inl r" and "d_wal (snd (replay d)) = b"
    and "d_main (snd (replay d)) = main_file (snd (write_committed (foldl note_record ([], []) rs)
      (file_pager (d_main d) (Some (take off (d_wal d))))))"
proof -
  let ?st = "foldl note_record ([], []) rs"
  let ?p = "file_pager (d_main d) (Some (take off (d_wal d)))"
  have t: "truncate_wal_to off d = d\<lparr>d_wal := take off (d_wal d)\<rparr>"
    using assms(2) by (simp add: truncate_wal_to_def max_absorb2)
  obtain r p' where w: "write_committed ?st ?p = (r, p')" by force
  have a: "apply_committed ?st (truncate_wal_to off d) = (r, \<lparr>d_main = main_file p', d_wal = b\<rparr>)"
    using apply_committed_ok [of "truncate_wal_to off d" b ?st] assms(3,4) w by (simp add: t)
  show "\<exists>r. fst (replay d) = Inl r"
    using a assms(1) by (cases r) (simp_all add: replay_def bindS_def)
  show "d_wal (snd (replay d)) = b"
    using a assms(1) by (cases r) (simp_all add: replay_def bindS_def)
  show "d_main (snd (replay d)) = main_file (snd (write_committed ?st ?p))"
    using a w assms(1) by (cases r) (simp_all add: replay_def bindS_def)
qed

lemma replay_complete:
  assumes "wal_repr (d_wal d) rs" and "db_ok (d_main d)" and "wal_open (Some (d_wal d)) = Inr (d_wal d)"
    and "write_committed (foldl note_record ([], []) rs) (file_pager (d_main d) (Some (d_wal d))) = (Inr (), p')"
  shows "fst (replay d) = Inr ()" and "d_main (snd (replay d)) = main_file p'"
proof -
  let ?st = "foldl note_record ([], []) rs"
  let ?k = "if fst ?st \<noteq> [] then max_txn_id (fst ?st) + 1 else 1"
  have s: "iter_records (d_wal d) = (rs, None)" using wal_log.scan_law [OF assms(1)] .
  have a: "apply_committed ?st d = (Inr (), \<lparr>d_main = main_file p', d_wal = d_wal d\<rparr>)"
    using apply_committed_ok [OF assms(2,3)] assms(4) by simp
  obtain b where "truncate_before (d_wal d) ?k = Inr b" using wal_log.trunc_law [OF assms(1)] by blast
  then have "replay d = (Inr (), \<lparr>d_main = main_file p', d_wal = b\<rparr>)"
    using s a by (simp add: replay_def bindS_Inr Let_def)
  then show "fst (replay d) = Inr ()" "d_main (snd (replay d)) = main_file p'" by simp_all
qed

lemma wal_open_prefix:
  assumes "b = make_header @ x"
  shows "wal_open (Some b) = Inr b"
  using assms by (simp add: wal_open_def make_header_def HEADER_MAGIC_def Let_def)

section \<open>Recovery after a crash\<close>

lemma length_txn_recs [simp]: "length (txn_recs i ws) = length ws + 1"
  by (simp add: txn_recs_def)

definition log_bytes :: "int \<Rightarrow> (int \<times> byte list) list \<Rightarrow> byte list" where
  "log_bytes i ws = concat (map rec_bytes (map (page_rec i) ws))"

lemma log_bytes_simps [simp]:
  "log_bytes i [] = []" "log_bytes i (w # ws) = rec_bytes (page_rec i w) @ log_bytes i ws"
  by (simp_all add: log_bytes_def)

lemma txn_recs_bytes: "concat (map rec_bytes (txn_recs i ws)) = log_bytes i ws @ rec_bytes (end_rec i 2)"
  by (simp add: txn_recs_def log_bytes_def)

text \<open>The writes of the transaction reach the log only, as far as the bytes last.\<close>

lemma dying_txn_writes:
  assumes "0 \<le> i" and "i < 256 ^ 8" and "list_all (good_write f) ws"
  shows "\<exists>t. txn_writes_on dying_methods ws (\<lparr>t_id = i, t_state = ACTIVE, pending_writes = pending_of vs\<rparr>, (n, d)) =
    (if length (log_bytes i ws) \<le> n then Inr () else Inl FuelOut,
     (t, (n - length (log_bytes i ws), d\<lparr>d_wal := d_wal d @ take n (log_bytes i ws)\<rparr>))) \<and>
    (length (log_bytes i ws) \<le> n \<longrightarrow> t = \<lparr>t_id = i, t_state = ACTIVE, pending_writes = pending_of (vs @ ws)\<rparr>)"
  using assms(3)
proof (induction ws arbitrary: vs n d)
  case Nil
  then show ?case by (simp add: txn_writes_on_def)
next
  case (Cons w ws)
  let ?t = "\<lparr>t_id = i, t_state = ACTIVE, pending_writes = pending_of vs\<rparr>" and ?b = "rec_bytes (page_rec i w)"
  let ?d = "d\<lparr>d_wal := d_wal d @ take n ?b\<rparr>"
  have ok: "rec_ok (page_rec i w)" using Cons.prems assms(1,2) by (simp add: rec_ok_def page_rec_def good_write_def)
  have app: "dying_append i 1 (fst w) (snd w) (n, d) = (if length ?b \<le> n then Inr () else Inl FuelOut, (n - length ?b, ?d))"
    using dying_append_rec [OF ok, of n d] by (simp add: page_rec_def)
  show ?case
  proof (cases "length ?b \<le> n")
    case False
    then have "txn_writes_on dying_methods (w # ws) (?t, (n, d)) = (Inl FuelOut, (?t, (n - length ?b, ?d)))"
      using app by (simp add: txn_writes_on_def txn_write_on_def require_active_def dying_simps on_pager_def bindS_def)
    then show ?thesis using False by simp
  next
    case True
    then have "txn_writes_on dying_methods (w # ws) (?t, (n, d)) =
        txn_writes_on dying_methods ws (\<lparr>t_id = i, t_state = ACTIVE, pending_writes = pending_of (vs @ [w])\<rparr>, (n - length ?b, ?d))"
      using app by (simp add: txn_writes_on_def txn_write_on_def require_active_def dying_simps on_pager_def bindS_def pending_of_snoc)
    moreover obtain t where "txn_writes_on dying_methods ws (\<lparr>t_id = i, t_state = ACTIVE, pending_writes = pending_of (vs @ [w])\<rparr>, (n - length ?b, ?d)) =
        (if length (log_bytes i ws) \<le> n - length ?b then Inr () else Inl FuelOut,
         (t, (n - length ?b - length (log_bytes i ws), ?d\<lparr>d_wal := d_wal ?d @ take (n - length ?b) (log_bytes i ws)\<rparr>)))"
      "length (log_bytes i ws) \<le> n - length ?b \<longrightarrow> t = \<lparr>t_id = i, t_state = ACTIVE, pending_writes = pending_of ((vs @ [w]) @ ws)\<rparr>"
      using Cons.IH [of "vs @ [w]" "n - length ?b" ?d] Cons.prems by auto
    ultimately show ?thesis using True by (intro exI [of _ t]) auto
  qed
qed

lemma catch_files: "snd (snd (catchS c (\<lambda>e. bindS (set_state st) (\<lambda>_. raiseS e)) s)) = snd (snd (c s))"
  by (cases "c s"; cases "fst (c s)") (auto simp: catchS_def bindS_def set_state_def)

lemma catch_ok: "c s = (Inr v, s') \<Longrightarrow> catchS c h s = (Inr v, s')"
  by (simp add: catchS_def)

text \<open>The commit, by the number of bytes that are left.\<close>

lemma dying_commit:
  assumes "db_ok f" and "0 \<le> i" and "i < 256 ^ 8" and "list_all (good_write f) ws"
    and "t = \<lparr>t_id = i, t_state = ACTIVE, pending_writes = pending_of ws\<rparr>"
    and "d = \<lparr>d_main = f, d_wal = make_header @ log_bytes i ws\<rparr>"
    and "C = length (rec_bytes (end_rec i 2))" and "M = 4096 * length (pending_of ws)"
    and "d' = snd (snd (snd (commit_on dying_methods (t, (n, d)))))" and "all = wal_image (txn_recs i ws)"
  shows "n < C \<Longrightarrow> d' = \<lparr>d_main = f, d_wal = make_header @ log_bytes i ws @ take n (rec_bytes (end_rec i 2))\<rparr>"
    and "C \<le> n \<Longrightarrow> same_off (fst ` set (pending_of ws)) (d_main d') f \<and> (n \<le> C + M \<longrightarrow> d_wal d' = all)"
    and "C + M \<le> n \<Longrightarrow> page (d_main d') = put_pages (page f) ws \<and> (C + M < n \<longrightarrow> d_wal d' = take (n - C - M - 1) make_header)"
    and "C + M + 17 \<le> n \<Longrightarrow> commit_on dying_methods (t, (n, d)) = (Inr (), (t\<lparr>t_state := COMMITTED\<rparr>, (n - C - M - 17, d')))"
proof -
  let ?K = "fst ` set (pending_of ws)"
  let ?P = "forS (pending_of ws) (\<lambda>(pid, b). on_pager (dying_write pid b))"
  have act: "require_active (t, x) = (Inr (), (t, x))" for x :: dying by (simp add: require_active_def assms(5))
  have step: "bindS require_active g (t, x) = g () (t, x)" for g :: "unit \<Rightarrow> (txn \<times> dying, unit) cmd" and x
    by (simp add: bindS_def act)
  have d': "d' = snd (snd (snd (commit_body_on dying_methods (t, (n, d)))))"
    by (simp add: assms(9) commit_on_def step catch_files)
  have ok: "rec_ok (end_rec i 2)" using assms(2,3) by (simp add: rec_ok_def end_rec_def)
  let ?w = "make_header @ log_bytes i ws @ take n (rec_bytes (end_rec i 2))"
  have app: "dying_append i 2 0 [] (n, d) = (if C \<le> n then Inr () else Inl FuelOut, (n - C, \<lparr>d_main = f, d_wal = ?w\<rparr>))"
    using dying_append_rec [OF ok, of n d] by (simp add: end_rec_def assms(6,7))
  show "d' = \<lparr>d_main = f, d_wal = ?w\<rparr>" if "n < C"
    using that app by (simp add: d' commit_body_on_def dying_simps on_pager_def bindS_def assms(5))
  let ?d = "\<lparr>d_main = f, d_wal = all\<rparr>"
  have "take n (rec_bytes (end_rec i 2)) = rec_bytes (end_rec i 2)" if "C \<le> n" using that by (simp add: assms(7))
  then have app': "dying_append i 2 0 [] (n, d) = (Inr (), (n - C, ?d))" if "C \<le> n"
    using app that by (simp add: assms(10) wal_image_def txn_recs_bytes)
  have good: "list_all (good_write f) (pending_of ws)" using assms(4) set_pending [of ws] by (auto simp: list_all_iff)
  obtain r m g where p: "?P (t, (n - C, ?d)) = (r, (t, (m, ?d\<lparr>d_main := g\<rparr>)))" "same_off ?K g f"
    "if M \<le> n - C then r = Inr () \<and> m = n - C - M \<and> page g = put_pages (page f) (pending_of ws) else r = Inl FuelOut"
    using dying_writes_pages [OF assms(1) good, of ?K ?d t "n - C"] by (auto simp: same_off_def assms(8))
  have "wal_repr all (txn_recs i ws)" unfolding assms(10) by (intro wal_repr_image txn_recs_ok [OF assms(2-4)])
  from truncate_before_repr [OF this, of "i + 1"] have tr: "truncate_before all (i + 1) = Inr make_header"
    by (simp add: txn_recs_def page_rec_def end_rec_def comp_def wal_image_def)
  have body: "commit_body_on dying_methods (t, (n, d)) =
      bindS ?P (\<lambda>_. bindS (on_pager (dying_truncate (i + 1))) (\<lambda>_. set_state COMMITTED)) (t, (n - C, ?d))" if "C \<le> n"
  proof -
    have head: "on_pager (dying_append i 2 0 []) (t, (n, d)) = (Inr (), (t, (n - C, ?d)))"
      using app' [OF that] by (rule on_pager_run)
    then show ?thesis by (simp add: commit_body_on_def dying_simps assms(5) bindS_Inr)
  qed
  have cut: "commit_body_on dying_methods (t, (n, d)) = (Inl FuelOut, (t, (m, ?d\<lparr>d_main := g\<rparr>)))" if "C \<le> n" "n < C + M"
  proof -
    have "r = Inl FuelOut" using p(3) that by (auto split: if_splits)
    then show ?thesis using body [OF that(1)] p(1) by (simp add: bindS_Inl)
  qed
  have full: "commit_body_on dying_methods (t, (n, d)) =
      bindS (on_pager (dying_truncate (i + 1))) (\<lambda>_. set_state COMMITTED) (t, (n - C - M, ?d\<lparr>d_main := g\<rparr>))"
    "page g = put_pages (page f) ws" if "C + M \<le> n"
  proof -
    have r: "r = Inr ()" "m = n - C - M" and pg: "page g = put_pages (page f) (pending_of ws)"
      using p(3) that by (auto split: if_splits)
    have "C \<le> n" using that by simp
    from body [OF this] show "commit_body_on dying_methods (t, (n, d)) =
      bindS (on_pager (dying_truncate (i + 1))) (\<lambda>_. set_state COMMITTED) (t, (n - C - M, ?d\<lparr>d_main := g\<rparr>))"
      using p(1) r by (simp add: bindS_Inr)
    show "page g = put_pages (page f) ws" using pg by (simp add: put_pending)
  qed
  have d'_full: "d' = (if n = C + M then ?d\<lparr>d_main := g\<rparr> else \<lparr>d_main = g, d_wal = take (n - C - M - 1) make_header\<rparr>)"
    if "C + M \<le> n"
    using that tr by (auto simp: d' full [OF that] dying_truncate_def on_pager_def bindS_def set_state_def split: if_splits)
  show "same_off ?K (d_main d') f \<and> (n \<le> C + M \<longrightarrow> d_wal d' = all)" if "C \<le> n"
  proof (cases "n < C + M")
    case True
    then show ?thesis using cut [OF that True] p(2) by (simp add: d')
  next
    case False
    then show ?thesis using d'_full p(2) by auto
  qed
  show "page (d_main d') = put_pages (page f) ws \<and> (C + M < n \<longrightarrow> d_wal d' = take (n - C - M - 1) make_header)" if "C + M \<le> n"
    using d'_full [OF that] full(2) [OF that] by auto
  show "commit_on dying_methods (t, (n, d)) = (Inr (), (t\<lparr>t_state := COMMITTED\<rparr>, (n - C - M - 17, d')))" if n: "C + M + 17 \<le> n"
  proof -
    have le: "C + M \<le> n" using n by simp
    have ar: "16 < n - (C + M)" "n - (17 + (C + M)) = n - (C + M + 17)" using n by linarith+
    have "commit_body_on dying_methods (t, (n, d)) = (Inr (), (t\<lparr>t_state := COMMITTED\<rparr>, (n - C - M - 17, d')))"
      using n tr ar by (simp add: full(1) [OF le] d'_full [OF le] dying_truncate_def on_pager_def bindS_def set_state_def)
    then show ?thesis by (simp add: commit_on_def step catch_ok)
  qed
qed

section \<open>A run that is not cut is that of the pager\<close>

text \<open>A pager that is open on two files; the attributes that change are given.\<close>

definition with_files :: "pager \<Rightarrow> disk \<Rightarrow> pager" where
  "with_files p d = p\<lparr>main_file := d_main d, wal_is_open := True, wal_bytes := Some (d_wal d)\<rparr>"

text \<open>Where a command on the dying files returns, the one on the pager returns the same and leaves the same files.\<close>

definition same_run :: "pager \<Rightarrow> (txn \<times> pager, 'a) cmd \<Rightarrow> (txn \<times> dying, 'a) cmd \<Rightarrow> bool" where
  "same_run p c c' \<longleftrightarrow> (\<forall>t n d v t' m d'. c' (t, (n, d)) = (Inr v, (t', (m, d'))) \<longrightarrow>
     c (t, with_files p d) = (Inr v, (t', with_files p d')))"

lemma same_runD: "same_run p c c' \<Longrightarrow> c' (t, (n, d)) = (Inr v, (t', (m, d'))) \<Longrightarrow> c (t, with_files p d) = (Inr v, (t', with_files p d'))"
  unfolding same_run_def by blast

lemma same_run_bind:
  assumes "same_run p c c'" and "\<And>v. same_run p (f v) (f' v)"
  shows "same_run p (bindS c f) (bindS c' f')"
  unfolding same_run_def
proof (intro allI impI)
  fix t n d v t' m d' assume "bindS c' f' (t, (n, d)) = (Inr v, (t', (m, d')))"
  then obtain a t1 n1 d1 where 1: "c' (t, (n, d)) = (Inr a, (t1, (n1, d1)))" and 2: "f' a (t1, (n1, d1)) = (Inr v, (t', (m, d')))"
    by (auto simp: bindS_eq_Inr)
  have "c (t, with_files p d) = (Inr a, (t1, with_files p d1))" by (rule same_runD [OF assms(1) 1])
  moreover have "f a (t1, with_files p d1) = (Inr v, (t', with_files p d'))" by (rule same_runD [OF assms(2) 2])
  ultimately show "bindS c f (t, with_files p d) = (Inr v, (t', with_files p d'))" by (simp add: bindS_def)
qed

lemma same_run_basic:
  "same_run p (returnS v) (returnS v)" "same_run p (raiseS e) (raiseS e)"
  "same_run p (getS (\<lambda>(t, x). f t)) (getS (\<lambda>(t, x). f t))"
  "same_run p (modifyS (\<lambda>(t, x). (g t, x))) (modifyS (\<lambda>(t, x). (g t, x)))"
  by (auto simp: same_run_def)

lemma same_run_for: "(\<And>x. same_run p (f x) (f' x)) \<Longrightarrow> same_run p (forS xs f) (forS xs f')"
  by (induction xs) (simp_all del: cmd_simps add: same_run_basic same_run_bind)

lemma same_run_pager:
  assumes "\<And>n d m d'. c' (n, d) = (Inr (), (m, d')) \<Longrightarrow> c (with_files p d) = (Inr (), with_files p d')"
  shows "same_run p (on_pager c) (on_pager c')"
  using assms by (fastforce simp: same_run_def on_pager_def split: prod.splits)

lemma same_run_methods:
  assumes "\<not> is_memory p"
  shows "same_run p (on_pager (wal_record i k pid b)) (on_pager (dying_append i k pid b))"
    and "same_run p (on_pager (write_main_page pid b)) (on_pager (dying_write pid b))"
    and "same_run p (on_pager (wal_truncate_before j)) (on_pager (dying_truncate j))"
  using assms
  by (auto intro!: same_run_pager simp: dying_append_def dying_write_def dying_truncate_def wal_record_def wal_append_def
      wal_truncate_before_def write_main_page_def get_or_open_wal_def with_files_def bindS_def split: sum.splits if_splits)

lemma same_run_txn:
  assumes "\<not> is_memory p"
  shows "same_run p (txn_write_page pid b) (txn_write_on dying_methods pid b)" and "same_run p commit (commit_on dying_methods)"
proof -
  have act: "same_run p require_active require_active"
    unfolding require_active_def by (intro same_run_bind same_run_basic) (simp add: same_run_basic)
  show "same_run p (txn_write_page pid b) (txn_write_on dying_methods pid b)"
    unfolding txn_write_page_def txn_write_on_def pager_methods_simps dying_simps wal_append_page_def
    by (intro same_run_bind act same_run_basic same_run_methods assms)
  have "same_run p (commit_body_on pager_methods) (commit_body_on dying_methods)"
    unfolding commit_body_on_def pager_methods_simps dying_simps wal_append_commit_def set_state_def
    by (intro same_run_bind same_run_basic same_run_for same_run_methods assms) (auto intro: same_run_methods(2) [OF assms])
  then have "same_run p (catchS (commit_body_on pager_methods) (\<lambda>e. bindS (set_state ROLLED_BACK) (\<lambda>_. raiseS e)))
      (catchS (commit_body_on dying_methods) (\<lambda>e. bindS (set_state ROLLED_BACK) (\<lambda>_. raiseS e)))"
    by (fastforce simp: same_run_def catchS_def bindS_def set_state_def split: prod.splits sum.splits)
  then show "same_run p commit (commit_on dying_methods)"
    unfolding commit_def commit_on_def by (intro same_run_bind act)
qed

lemma uncut_run:
  assumes "\<not> is_memory p" and "dying_run n f i ws = (Inr (), (t, (m, d)))"
  shows "bindS (txn_writes ws) (\<lambda>_. commit) (new_txn i, with_files p \<lparr>d_main = f, d_wal = make_header\<rparr>) = (Inr (), (t, with_files p d))"
proof -
  have "same_run p (bindS (txn_writes ws) (\<lambda>_. commit)) (bindS (txn_writes_on dying_methods ws) (\<lambda>_. commit_on dying_methods))"
    using same_run_txn [OF assms(1)] unfolding txn_writes_def txn_writes_on_def txn_write_page_def
    by (intro same_run_bind same_run_for) 
  from same_runD [OF this] show ?thesis using assms(2) by (simp add: dying_run_def)
qed

section \<open>Opening the database after a crash\<close>

definition open_disk :: "disk \<Rightarrow> pager res \<times> disk" where
  "open_disk d = (case open_pager (Some (d_main d)) (Some (d_wal d)) of (r, f, w) \<Rightarrow> (r, \<lparr>d_main = the f, d_wal = the w\<rparr>))"

text \<open>Opening succeeds, and the pager has the pages \<open>I\<close>.\<close>

definition opens_with :: "disk \<Rightarrow> (int \<Rightarrow> byte list) \<Rightarrow> bool" where
  "opens_with d I \<longleftrightarrow> (\<exists>p. fst (open_disk d) = Inr p \<and> \<not> is_memory p \<and> pager_wf p \<and> img p = I)"

lemma open_disk_replay:
  assumes "db_ok (d_main d)" and "wal_open (Some (d_wal d)) = Inr b"
  shows "open_disk d = (case replay (d\<lparr>d_wal := b\<rparr>) of
      (Inl e, d') \<Rightarrow> (Inl e, d')
    | (Inr _, d') \<Rightarrow> (Inr ((file_pager (d_main d) (Some (d_wal d)))
        \<lparr>main_file := d_main d', wal_is_open := True, wal_bytes := Some (d_wal d')\<rparr>), d'))"
  using open_main_ok [OF assms(1), of "Some (d_wal d)"] assms(2)
  by (cases d) (simp add: open_disk_def open_pager_def file_pager_def split: prod.split sum.split)

lemma opens_withI:
  assumes "db_ok (d_main d)" and "wal_open (Some (d_wal d)) = Inr b" and "replay (d\<lparr>d_wal := b\<rparr>) = (Inr (), d')"
    and "length (d_main d') = length (d_main d)"
  shows "opens_with d (page (d_main d'))"
proof -
  let ?p = "(file_pager (d_main d) (Some (d_wal d)))\<lparr>main_file := d_main d', wal_is_open := True, wal_bytes := Some (d_wal d')\<rparr>"
  have "fst (open_disk d) = Inr ?p" using open_disk_replay [OF assms(1,2)] assms(3) by simp
  moreover have "pager_wf ?p" using file_pager_wf [OF assms(1), of "Some (d_wal d)"] assms(4) by (simp add: pager_wf_def file_pager_def)
  moreover have "img ?p = page (d_main d')" by (auto simp: img_def page_def file_pager_def)
  ultimately show ?thesis by (auto simp: opens_with_def file_pager_def)
qed

text \<open>A log of complete records of which none ends the transaction.\<close>

lemma replay_unfinished:
  assumes "db_ok f" and "list_all rec_ok (map (page_rec i) ws)"
  shows "opens_with \<lparr>d_main = f, d_wal = wal_image (map (page_rec i) ws)\<rparr> (page f)"
proof -
  let ?d = "\<lparr>d_main = f, d_wal = wal_image (map (page_rec i) ws)\<rparr>"
  have "fst (replay ?d) = Inr () \<and> d_main (snd (replay ?d)) = f"
    using replay_complete [of ?d "map (page_rec i) ws" "file_pager f (Some (d_wal ?d))"] wal_repr_image [OF assms(2)] assms(1)
    by (simp add: note_page_recs write_committed_none) (simp add: file_pager_def)
  then show ?thesis using opens_withI [of ?d "d_wal ?d" "snd (replay ?d)"] assms(1) by (cases "replay ?d") simp
qed

lemma replay_cut:
  assumes "db_ok f" and "list_all rec_ok (map (page_rec i) ws)" and "rec_ok r" and "0 < n" and "n < length (rec_bytes r)"
  shows "open_disk \<lparr>d_main = f, d_wal = wal_image (map (page_rec i) ws) @ take n (rec_bytes r)\<rparr> =
    (Inl (WalCorruption (length (wal_image (map (page_rec i) ws)))), \<lparr>d_main = f, d_wal = wal_image (map (page_rec i) ws)\<rparr>)"
proof -
  let ?b = "wal_image (map (page_rec i) ws)" and ?d = "\<lparr>d_main = f, d_wal = wal_image (map (page_rec i) ws) @ take n (rec_bytes r)\<rparr>"
  have torn: "iter_records (?b @ take n (rec_bytes r)) = (map (page_rec i) ws, Some (WalCorruption (length ?b)))"
    using iter_records_then [OF wal_repr_image [OF assms(2)]] iter_from_torn [OF assms(3-5)] by simp
  have t: "truncate_wal_to (length ?b) ?d = \<lparr>d_main = f, d_wal = ?b\<rparr>" by (simp add: truncate_wal_to_def wal_image_def)
  have "apply_committed (pend1 i ws, []) \<lparr>d_main = f, d_wal = ?b\<rparr> = (Inr (), \<lparr>d_main = f, d_wal = ?b\<rparr>)"
    using apply_committed_ok [of "\<lparr>d_main = f, d_wal = ?b\<rparr>" ?b] assms(1) by (simp add: write_committed_none) (simp add: file_pager_def)
  then have "replay ?d = (Inl (WalCorruption (length ?b)), \<lparr>d_main = f, d_wal = ?b\<rparr>)"
    using torn t by (simp add: replay_def note_page_recs bindS_Inr)
  moreover have "wal_open (Some (d_wal ?d)) = Inr (d_wal ?d)" by (rule wal_open_prefix) (simp add: wal_image_def)
  ultimately show ?thesis using open_disk_replay [of ?d "d_wal ?d"] assms(1) by simp
qed

text \<open>A prefix of the log of the transaction: complete records, then a part of one.\<close>

lemma log_prefix:
  assumes "n < length (concat (map rec_bytes rs))"
  shows "\<exists>k m. k < length rs \<and> m < length (rec_bytes (rs ! k)) \<and>
    take n (concat (map rec_bytes rs)) = concat (map rec_bytes (take k rs)) @ take m (rec_bytes (rs ! k))"
  using assms
proof (induction rs arbitrary: n)
  case (Cons r rs)
  show ?case
  proof (cases "n < length (rec_bytes r)")
    case True
    then show ?thesis by (intro exI [of _ 0] exI [of _ n]) simp
  next
    case False
    then have "n - length (rec_bytes r) < length (concat (map rec_bytes rs))" using Cons.prems by simp
    from Cons.IH [OF this] obtain k m where "k < length rs" "m < length (rec_bytes (rs ! k))"
      "take (n - length (rec_bytes r)) (concat (map rec_bytes rs)) = concat (map rec_bytes (take k rs)) @ take m (rec_bytes (rs ! k))"
      by blast
    then show ?thesis using False by (intro exI [of _ "Suc k"] exI [of _ m]) simp
  qed
qed simp

lemma log_cut_opens:
  assumes "db_ok f" and "0 \<le> i" and "i < 256 ^ 8" and "list_all (good_write f) ws"
    and "n < length (concat (map rec_bytes (txn_recs i ws)))"
    and "d = \<lparr>d_main = f, d_wal = make_header @ take n (concat (map rec_bytes (txn_recs i ws)))\<rparr>"
  shows "opens_with d (page f) \<or> (\<exists>off d'. open_disk d = (Inl (WalCorruption off), d') \<and> opens_with d' (page f))"
proof -
  obtain k m where k: "k < length (txn_recs i ws)" "m < length (rec_bytes (txn_recs i ws ! k))"
    "take n (concat (map rec_bytes (txn_recs i ws))) = concat (map rec_bytes (take k (txn_recs i ws))) @ take m (rec_bytes (txn_recs i ws ! k))"
    using log_prefix [OF assms(5)] by blast
  have ok: "list_all rec_ok (txn_recs i ws)" by (rule txn_recs_ok [OF assms(2-4)])
  then have r: "rec_ok (txn_recs i ws ! k)" using k(1) by (simp add: list_all_length)
  have pre: "take k (txn_recs i ws) = map (page_rec i) (take k ws)" using k(1) by (simp add: txn_recs_def take_map)
  then have oks: "list_all rec_ok (map (page_rec i) (take k ws))" using ok by (metis list_all_iff in_set_takeD)
  have d: "d = \<lparr>d_main = f, d_wal = wal_image (map (page_rec i) (take k ws)) @ take m (rec_bytes (txn_recs i ws ! k))\<rparr>"
    by (simp only: assms(6) k(3) pre wal_image_def append_assoc)
  have whole: "opens_with \<lparr>d_main = f, d_wal = wal_image (map (page_rec i) (take k ws))\<rparr> (page f)"
    by (rule replay_unfinished [OF assms(1) oks])
  show ?thesis
  proof (cases "m = 0")
    case True
    then show ?thesis using whole d by simp
  next
    case False
    then show ?thesis using replay_cut [OF assms(1) oks r _ k(2)] whole d by blast
  qed
qed

lemma committed_opens:
  assumes "db_ok f" and "0 \<le> i" and "i < 256 ^ 8" and "list_all (good_write f) ws"
    and "same_off (fst ` set (pending_of ws)) g f"
  shows "opens_with \<lparr>d_main = g, d_wal = wal_image (txn_recs i ws)\<rparr> (put_pages (page f) ws)"
proof -
  let ?b = "wal_image (txn_recs i ws)" and ?d = "\<lparr>d_main = g, d_wal = wal_image (txn_recs i ws)\<rparr>"
  have ok: "db_ok g" by (rule same_off_db_ok [OF assms(1,5)])
  obtain p' where p': "forS (pending_of ws) (\<lambda>(pid, d). write_main_page pid d) (file_pager g (Some ?b)) = (Inr (), p')"
    "length (main_file p') = length f" "page (main_file p') = put_pages (page f) ws"
    using replay_pages [OF assms(1,5,4)] by blast
  have "foldl note_record ([], []) (txn_recs i ws) = (pend1 i ws, [(i, S_committed)])"
    by (simp add: txn_recs_def note_page_recs note_end_rec del: note_record.simps)
  then have "fst (replay ?d) = Inr ()" "d_main (snd (replay ?d)) = main_file p'"
    using replay_complete [of ?d "txn_recs i ws" p'] wal_repr_image [OF txn_recs_ok [OF assms(2-4)]] ok p'(1)
    by (simp_all add: write_committed_one)
  then show ?thesis
    using opens_withI [of ?d ?b "snd (replay ?d)"] ok p'(2,3) assms(5) by (cases "replay ?d") (simp add: same_off_def)
qed

lemma empty_log_opens:
  assumes "db_ok g" and "w = [] \<or> w = make_header"
  shows "opens_with \<lparr>d_main = g, d_wal = w\<rparr> (page g)"
proof -
  let ?d = "\<lparr>d_main = g, d_wal = make_header\<rparr>"
  have h: "make_header = wal_image []" by (simp add: wal_image_def)
  have "fst (replay ?d) = Inr () \<and> d_main (snd (replay ?d)) = g"
    using replay_complete [of ?d "[]" "file_pager g (Some make_header)"] wal_repr_image [of "[]"] assms(1)
    by (simp add: h write_committed_def) (simp add: file_pager_def)
  moreover have "wal_open (Some w) = Inr make_header"
    using assms(2)
  proof
    show ?thesis if "w = []" by (simp add: that wal_open_def)
    show ?thesis if "w = make_header" unfolding that using wal_open_image [of "[]"] by (simp only: h)
  qed
  ultimately show ?thesis
    using opens_withI [of "\<lparr>d_main = g, d_wal = w\<rparr>" make_header "snd (replay ?d)"] assms(1) by (cases "replay ?d") simp
qed

lemma torn_header_stays:
  assumes "db_ok g" and "0 < n" and "n < 16"
  shows "open_disk \<lparr>d_main = g, d_wal = take n make_header\<rparr> =
    (Inl (if n \<le> 8 then IndexError else InvalidWalFile), \<lparr>d_main = g, d_wal = take n make_header\<rparr>)"
proof -
  have "take n make_header \<noteq> []" using assms(2) by (simp add: make_header_def HEADER_MAGIC_def)
  then have "wal_open (Some (take n make_header)) = Inl (if n \<le> 8 then IndexError else InvalidWalFile)"
    using assms(2,3) by (simp add: wal_open_def Let_def)
  then show ?thesis using open_main_ok [OF assms(1)] by (simp add: open_disk_def open_pager_def file_pager_def)
qed

text \<open>The files at the end of a run that is cut after \<open>n\<close> bytes.\<close>

lemma crashed_files:
  assumes "db_ok f" and "0 \<le> i" and "i < 256 ^ 8" and "list_all (good_write f) ws" and "d = crashed n f i ws"
    and "L = length (concat (map rec_bytes (txn_recs i ws)))" and "M = 4096 * length (pending_of ws)"
  shows "n < L \<Longrightarrow> d = \<lparr>d_main = f, d_wal = make_header @ take n (concat (map rec_bytes (txn_recs i ws)))\<rparr>"
    and "L \<le> n \<Longrightarrow> same_off (fst ` set (pending_of ws)) (d_main d) f \<and> (n \<le> L + M \<longrightarrow> d_wal d = wal_image (txn_recs i ws))"
    and "L + M \<le> n \<Longrightarrow> page (d_main d) = put_pages (page f) ws \<and> (L + M < n \<longrightarrow> d_wal d = take (n - L - M - 1) make_header)"
    and "L + M + 17 \<le> n \<Longrightarrow> fst (dying_run n f i ws) = Inr ()"
proof -
  let ?B = "log_bytes i ws" and ?e = "rec_bytes (end_rec i 2)"
  let ?t = "\<lparr>t_id = i, t_state = ACTIVE, pending_writes = pending_of ws\<rparr>" and ?d0 = "\<lparr>d_main = f, d_wal = make_header\<rparr>"
  have L: "L = length ?B + length ?e" by (simp only: assms(6) txn_recs_bytes length_append)
  have start: "new_txn i = \<lparr>t_id = i, t_state = ACTIVE, pending_writes = pending_of []\<rparr>" by (simp add: new_txn_def pending_of_def)
  obtain t where w: "txn_writes_on dying_methods ws (new_txn i, (n, ?d0)) =
    (if length ?B \<le> n then Inr () else Inl FuelOut, (t, (n - length ?B, ?d0\<lparr>d_wal := make_header @ take n ?B\<rparr>)))"
    and t: "length ?B \<le> n \<Longrightarrow> t = ?t"
    using dying_txn_writes [OF assms(2-4), of "[]" n ?d0] by (auto simp: start)
  let ?d = "\<lparr>d_main = f, d_wal = make_header @ ?B\<rparr>"
  have run: "dying_run n f i ws = commit_on dying_methods (?t, (n - length ?B, ?d))" if "length ?B \<le> n"
    using w that t by (simp add: dying_run_def bindS_def)
  note c = dying_commit [OF assms(1-4) refl refl refl assms(7) refl refl, of "n - length ?B"]
  have d: "d = snd (snd (snd (commit_on dying_methods (?t, (n - length ?B, ?d)))))" if "length ?B \<le> n"
    using run [OF that] by (simp add: assms(5) crashed_def)
  show "d = \<lparr>d_main = f, d_wal = make_header @ take n (concat (map rec_bytes (txn_recs i ws)))\<rparr>" if n: "n < L"
  proof (cases "length ?B \<le> n")
    case False
    then have "d = ?d0\<lparr>d_wal := make_header @ take n ?B\<rparr>" using w by (simp add: assms(5) crashed_def dying_run_def bindS_def)
    then show ?thesis using False by (simp add: txn_recs_bytes)
  next
    case True
    then show ?thesis using c(1) n d [OF True] by (simp add: L txn_recs_bytes)
  qed
  show "same_off (fst ` set (pending_of ws)) (d_main d) f \<and> (n \<le> L + M \<longrightarrow> d_wal d = wal_image (txn_recs i ws))" if n: "L \<le> n"
    using c(2) n d by (auto simp: L)
  show "page (d_main d) = put_pages (page f) ws \<and> (L + M < n \<longrightarrow> d_wal d = take (n - L - M - 1) make_header)" if n: "L + M \<le> n"
    using c(3) n d by (auto simp: L)
  show "fst (dying_run n f i ws) = Inr ()" if n: "L + M + 17 \<le> n"
  proof -
    have le: "length ?B \<le> n" "length ?e + M + 17 \<le> n - length ?B" using n unfolding L by linarith+
    show ?thesis unfolding run [OF le(1)] by (subst c(4) [OF le(2)]) simp
  qed
qed

section \<open>Properties\<close>

definition demo_file :: "byte list" where
  "demo_file = file_header @ zero_page"

lemma demo_file_ok: "db_ok demo_file"
  by (auto simp: db_ok_def demo_file_def header_ok_def file_header_def MAGIC_def MAGIC_PREFIX_def
      zero_page_def nth_append intro!: exI [of _ 2])

lemma demo_write_ok: "list_all (good_write demo_file) [(1, zero_page)]"
  by (simp add: good_write_def demo_file_def)

text \<open>
  C1. Crash atomicity. Let a transaction write pages of a database file with an empty log and
  commit, and let the process end after any number of bytes of its file writes. If the
  commit record was not complete, opening the database finds every page as before the
  transaction, when a record was cut after one open that raises \<open>WalCorruption\<close>; if it was, opening
  finds all pages written, also when the page writes were cut. One window remains: when the
  header of the emptied log was cut, the pages are all in the main file, but opening raises and
  changes nothing, so that every later open raises too.
\<close>

theorem crash_atomic:
  assumes "db_ok f" and "0 \<le> i" and "i < 256 ^ 8" and "list_all (good_write f) ws" and "d = crashed n f i ws"
    and "L = length (concat (map rec_bytes (txn_recs i ws)))" and "M = 4096 * length (pending_of ws)"
  shows "if n < L then opens_with d (page f) \<or>
      (\<exists>off d'. open_disk d = (Inl (WalCorruption off), d') \<and> opens_with d' (page f))
    else if L + M + 1 < n \<and> n < L + M + 17 then page (d_main d) = put_pages (page f) ws \<and>
      open_disk d = (Inl (if n < L + M + 10 then IndexError else InvalidWalFile), d)
    else opens_with d (put_pages (page f) ws)"
proof -
  note c = crashed_files [OF assms]
  consider (log) "n < L" | (all) "L \<le> n" "n \<le> L + M" | (cut) "L + M + 1 < n" "n < L + M + 17"
    | (emptied) "L + M < n" "n = L + M + 1 \<or> L + M + 17 \<le> n" by linarith
  then show ?thesis
  proof cases
    case log
    then show ?thesis using log_cut_opens [OF assms(1-4) _ c(1)] by (simp add: assms(6))
  next
    case all
    then have "d = \<lparr>d_main = d_main d, d_wal = wal_image (txn_recs i ws)\<rparr>" using c(2) by simp
    moreover have "opens_with \<lparr>d_main = d_main d, d_wal = wal_image (txn_recs i ws)\<rparr> (put_pages (page f) ws)"
      using committed_opens [OF assms(1-4)] c(2) all(1) by blast
    ultimately have "opens_with d (put_pages (page f) ws)" by simp
    then show ?thesis using all by simp
  next
    case cut
    then have "db_ok (d_main d)" using c(2) same_off_db_ok [OF assms(1)] by simp
    moreover have "d = \<lparr>d_main = d_main d, d_wal = take (n - L - M - 1) make_header\<rparr>" using c(3) cut by simp
    ultimately have "open_disk d = (Inl (if n - L - M - 1 \<le> 8 then IndexError else InvalidWalFile), d)"
      using torn_header_stays [of "d_main d" "n - L - M - 1"] cut by simp
    moreover have "n - L - M - 1 \<le> 8 \<longleftrightarrow> n < L + M + 10" using cut by linarith
    ultimately show ?thesis using c(3) cut by simp
  next
    case emptied
    then have "db_ok (d_main d)" using c(2) same_off_db_ok [OF assms(1)] by simp
    moreover have "d_wal d = [] \<or> d_wal d = make_header" using c(3) emptied by auto
    ultimately have "opens_with \<lparr>d_main = d_main d, d_wal = d_wal d\<rparr> (page (d_main d))" by (rule empty_log_opens)
    then have "opens_with d (page (d_main d))" by (cases d) simp
    then show ?thesis using c(3) emptied by auto
  qed
qed

lemma crash_atomic_witness:
  "opens_with (crashed 5000 demo_file 7 [(1, zero_page)]) (put_pages (page demo_file) [(1, zero_page)])"
  using crash_atomic [OF demo_file_ok _ _ demo_write_ok refl refl refl, of 7 5000]
  by (simp add: txn_recs_def pending_of_def page_rec_def end_rec_def)

text \<open>
  A torn log does not stay in the way: when the crash tore a log record, opening raises
  \<open>WalCorruption\<close>, but it has cut the log back to its complete records, and replaying once more
  succeeds with the main file as before the transaction.
\<close>

theorem torn_log_reopens:
  assumes "db_ok f" and "list_all rec_ok rs" and "rec_ok r" and "0 < n" and "n < length (rec_bytes r)"
    and "list_all (\<lambda>r. r_kind r = 1) rs" and "d = \<lparr>d_main = f, d_wal = wal_image rs @ take n (rec_bytes r)\<rparr>"
  shows "(\<exists>e. fst (replay d) = Inl e) \<and>
    fst (replay (snd (replay d))) = Inr () \<and> d_main (snd (replay (snd (replay d)))) = f"
proof -
  let ?buf = "wal_image rs"
  have repr: "wal_repr ?buf rs" by (rule wal_repr_image [OF assms(2)])
  have torn: "iter_records (?buf @ take n (rec_bytes r)) = (rs, Some (WalCorruption (length ?buf)))"
    using iter_records_then [OF repr] iter_from_torn [OF assms(3,4,5)] by simp
  have len: "16 \<le> length ?buf" by (simp add: wal_image_def)
  have st: "snd (foldl note_record (x, []) rs) = []" for x
    using assms(6) by (induction rs arbitrary: x) (simp_all add: Let_def)
  then have none: "write_committed (foldl note_record ([], []) rs) p = (Inr (), p)" for p
  proof -
    have "forS xs (\<lambda>_. returnS ()) p = (Inr (), p)" for xs :: "int list"
      by (induction xs) (simp_all add: bindS_def)
    then show ?thesis using st [of "[]"] by (simp add: write_committed_def)
  qed
  note r1 = replay_torn [of d rs "length ?buf" ?buf, unfolded assms(7)]
  have "fst (replay d) = Inl (case fst (replay d) of Inl e \<Rightarrow> e)" "d_wal (snd (replay d)) = ?buf"
    "d_main (snd (replay d)) = f"
    using r1 torn len assms(1) none by (auto simp: assms(7) file_pager_def)
  then show ?thesis
    using replay_complete [of "snd (replay d)" rs "file_pager f (Some ?buf)"] repr assms(1) none
    by (metis file_pager_def pager.select_convs(3) wal_open_image)
qed

lemma torn_log_reopens_witness:
  "fst (replay (snd (replay \<lparr>d_main = demo_file,
     d_wal = make_header @ take 3 (rec_bytes (page_rec 7 (1, zero_page)))\<rparr>))) = Inr ()"
  using torn_log_reopens [OF demo_file_ok, of "[]" "page_rec 7 (1, zero_page)" 3]
  by (simp add: wal_image_def rec_ok_def page_rec_def)

text \<open>
  C26. A transaction without writes that crashed after its commit record leaves that record in the
  log for good: replay finds no pending pages and truncates before id 1 only. A later transaction
  that reuses the id, writes a page and crashes before its commit is then replayed as committed.
\<close>

theorem stale_commit_replayed:
  assumes "db_ok f" and "1 \<le> i" and "i < 256 ^ 8" and "good_write f (pid, b)"
    and "d = snd (replay \<lparr>d_main = f, d_wal = wal_image [end_rec i 2]\<rparr>)"
  shows "d = \<lparr>d_main = f, d_wal = wal_image [end_rec i 2]\<rparr> \<and>
    page (d_main (snd (replay (d\<lparr>d_wal := d_wal d @ rec_bytes (page_rec i (pid, b))\<rparr>)))) pid = b"
proof -
  let ?c = "end_rec i 2" and ?w = "page_rec i (pid, b)"
  have ok: "rec_ok ?c" "rec_ok ?w"
    using assms(2-4) by (simp_all add: rec_ok_def end_rec_def page_rec_def good_write_def)
  have repr: "wal_repr (wal_image [?c]) [?c]" "wal_repr (wal_image [?c, ?w]) [?c, ?w]"
    using ok by (simp_all add: wal_repr_image)
  have "foldl note_record ([], []) [?c] = ([], [(i, S_committed)])"
    using note_end_rec [of "[]" "[]" i] by (simp del: note_record.simps)
  then have 1: "replay \<lparr>d_main = f, d_wal = wal_image [?c]\<rparr> = (Inr (), \<lparr>d_main = f, d_wal = wal_image [?c]\<rparr>)"
    using wal_log.scan_law [OF repr(1)] apply_committed_ok [of "\<lparr>d_main = f, d_wal = wal_image [?c]\<rparr>"]
      assms(1,2) truncate_before_repr [OF repr(1), of 1]
    by (simp add: replay_def Let_def write_committed_def bindS_Inr file_pager_def end_rec_def)
  have d: "d = \<lparr>d_main = f, d_wal = wal_image [?c]\<rparr>" using 1 assms(5) by simp
  have "foldl note_record ([], []) [?c, ?w] = (pend1 i [(pid, b)], [(i, S_committed)])"
    using note_end_rec [of "[]" "[]" i]
    by (simp del: note_record.simps) (simp add: page_rec_def pend1_def pending_of_def dict_setdefault_def Let_def)
  moreover obtain p' where p': "forS (pending_of [(pid, b)]) (\<lambda>(pid, d). write_main_page pid d)
      (file_pager f (Some (wal_image [?c, ?w]))) = (Inr (), p')"
      "page (main_file p') = put_pages (page f) [(pid, b)]"
    using replay_pages [OF assms(1), of "[(pid, b)]" f] assms(4) by (auto simp: same_off_def)
  ultimately have "d_main (snd (replay \<lparr>d_main = f, d_wal = wal_image [?c, ?w]\<rparr>)) = main_file p'"
    using replay_complete(2) [of "\<lparr>d_main = f, d_wal = wal_image [?c, ?w]\<rparr>" "[?c, ?w]" p'] repr(2) assms(1)
    by (simp add: write_committed_one del: note_record.simps)
  then show ?thesis using d p'(2) by (simp add: wal_image_def put_page_def)
qed

lemma stale_commit_replayed_witness:
  "page (d_main (snd (replay \<lparr>d_main = demo_file, d_wal = wal_image [end_rec 1 2] @
     rec_bytes (page_rec 1 (1, replicate 4096 9))\<rparr>))) 1 = replicate 4096 9"
proof -
  have "good_write demo_file (1, replicate 4096 9)" by (simp add: good_write_def demo_file_def)
  then have stale: "snd (replay \<lparr>d_main = demo_file, d_wal = wal_image [end_rec 1 2]\<rparr>)
      = \<lparr>d_main = demo_file, d_wal = wal_image [end_rec 1 2]\<rparr> \<and>
    page (d_main (snd (replay (snd (replay \<lparr>d_main = demo_file, d_wal = wal_image [end_rec 1 2]\<rparr>)
      \<lparr>d_wal := d_wal (snd (replay \<lparr>d_main = demo_file, d_wal = wal_image [end_rec 1 2]\<rparr>)) @
        rec_bytes (page_rec 1 (1, replicate 4096 9))\<rparr>)))) 1 = replicate 4096 9"
    by (intro stale_commit_replayed [OF demo_file_ok _ _ _ refl]) simp_all
  show ?thesis using stale [THEN conjunct2] unfolding stale [THEN conjunct1] by simp
qed

end
