(* ===== verification/Database.thy ===== *)
theory Database
  imports Executor Tokenizer Recovery
begin

text \<open>
  The class \<open>Database\<close> (\<open>src/tinydb/database.py\<close>): opening, \<open>execute\<close> of a script,
  \<open>explain_plan\<close> and \<open>close\<close>. The lock only serialises calls. The lemmas about sessions
  and reopened databases are in \<open>Reopen\<close>.
\<close>

record db =
  d_exec :: exec
  d_closed :: bool

section \<open>Opening\<close>

definition register_table :: "table_info \<Rightarrow> (exec, unit) cmd" where
  "register_table ti =
     bindS (rebuild_for_table ti) (\<lambda>_.
     bindS (install_index_pagers (ti_name ti)) (\<lambda>_.
     modifyS (\<lambda>s. s\<lparr>x_data_pages := AList.update (ti_name ti) (rebuild_data_pages ti s) (x_data_pages s)\<rparr>)))"

text \<open>\<open>Database.__init__\<close> after the pager was opened.\<close>

definition db_open :: "uni \<Rightarrow> pager \<Rightarrow> db res" where
  "db_open u p =
     bindE (read_page 1 p) (\<lambda>raw.
     bindE (catalog_from_bytes u raw) (\<lambda>cat.
     case forS (map snd cat) register_table (new_executor p cat) of
       (Inl e, s) \<Rightarrow> Inl e
     | (Inr _, s) \<Rightarrow> Inr \<lparr>d_exec = s, d_closed = False\<rparr>))"

definition db_open_memory :: "uni \<Rightarrow> db res" where
  "db_open_memory u = db_open u new_memory_pager"

definition db_open_file :: "uni \<Rightarrow> byte list option \<Rightarrow> byte list option \<Rightarrow> db res" where
  "db_open_file u f w = (case open_pager f w of (r, f', w') \<Rightarrow> bindE r (db_open u))"

section \<open>Running a script\<close>

definition on_executor :: "(exec, 'a) cmd \<Rightarrow> (db, 'a) cmd" where
  "on_executor c = (\<lambda>d. let (r, s) = c (d_exec d) in (r, d\<lparr>d_exec := s\<rparr>))"

fun execute_all :: "uni \<Rightarrow> stmt list \<Rightarrow> outcome \<Rightarrow> (exec, outcome) cmd" where
  "execute_all u [] results = returnS results"
| "execute_all u (st # sts) results = bindS (execute u st) (\<lambda>out. execute_all u sts out)"

text \<open>What a caller reads from a \<open>Row\<close>: an attribute, an item by name or by position, equality.\<close>

datatype row_key = By_name pystr | By_position int

definition first_index :: "pystr \<Rightarrow> pystr list \<Rightarrow> int" where
  "first_index name cols = int (length (takeWhile (\<lambda>c. c \<noteq> name) cols))"

definition row_getattr :: "pystr \<Rightarrow> result_row \<Rightarrow> pyval res" where
  "row_getattr name r =
     (if name \<noteq> [] \<and> hd name = 95 \<or> name \<notin> set (rr_columns r) then Inl AttributeErr
      else get_item (rr_values r) (first_index name (rr_columns r)))"

fun row_getitem :: "row_key \<Rightarrow> result_row \<Rightarrow> pyval res" where
  "row_getitem (By_name key) r =
     (if key \<notin> set (rr_columns r) then Inl KeyError
      else get_item (rr_values r) (first_index key (rr_columns r)))"
| "row_getitem (By_position i) r = get_item (rr_values r) i"

definition row_eq :: "result_row \<Rightarrow> result_row \<Rightarrow> bool" where
  "row_eq a b \<longleftrightarrow> rr_columns a = rr_columns b \<and> list_all2 py_eq (rr_values a) (rr_values b)"

lemma first_index_nth: "distinct cols \<Longrightarrow> i < length cols \<Longrightarrow> first_index (cols ! i) cols = int i"
proof (induction cols arbitrary: i)
  case (Cons c cols)
  then show ?case by (cases i) (auto simp: first_index_def)
qed simp

text \<open>A value of a row is found by the name of its column and by its position.\<close>

theorem row_access:
  assumes "new_row vs cols = Inr r" and "distinct cols" and "i < length cols"
  shows "row_getitem (By_name (cols ! i)) r = Inr (vs ! i)" and "row_getitem (By_position (int i)) r = Inr (vs ! i)"
    and "row_getitem (By_position (int i - int (length cols))) r = Inr (vs ! i)"
  using assms by (auto simp: new_row_def first_index_nth get_item_nonneg get_item_def split: if_splits)

text \<open>\<open>tuple(r)\<close> of every result.\<close>

definition tuples_of :: "outcome \<Rightarrow> pyval list list" where
  "tuples_of out = (case out of Lists ls \<Rightarrow> ls | Rows rs \<Rightarrow> map rr_values rs)"

definition wrap_results :: "stmt list \<Rightarrow> outcome \<Rightarrow> exec \<Rightarrow> outcome res" where
  "wrap_results sts out s =
     (if sts = [] \<or> tuples_of out = [] then Inr out
      else
        case last sts of
          S_Select q \<Rightarrow>
            if s_joins q \<noteq> [] then Inr out
            else
              (case catalog_get_table (x_catalog s) (s_table q) of
                 None \<Rightarrow> Inr out
               | Some ti \<Rightarrow>
                   let cols = (if s_columns q = [ustr ''*''] then map fst (ti_schema ti) else s_columns q) in
                   bindE (mapE (\<lambda>r. new_row r cols) (tuples_of out)) (\<lambda>rows. Inr (Rows rows)))
        | _ \<Rightarrow> Inr out)"

definition db_execute :: "uni \<Rightarrow> pystr \<Rightarrow> (db, outcome) cmd" where
  "db_execute u sql =
     bindS (getS d_closed) (\<lambda>closed.
     if closed then raiseS RuntimeErr
     else
       bindS (liftE (tokenize u sql)) (\<lambda>tokens.
       bindS (liftE (parse_tokens u tokens)) (\<lambda>sts.
       bindS (on_executor (execute_all u sts (Lists []))) (\<lambda>out.
       on_executor (readS (wrap_results sts out))))))"

definition explain_plan :: "uni \<Rightarrow> pystr \<Rightarrow> db \<Rightarrow> plan res" where
  "explain_plan u sql d =
     (if d_closed d then Inl RuntimeErr
      else
        bindE (tokenize u sql) (\<lambda>tokens.
        bindE (parse_tokens u tokens) (\<lambda>sts.
        if sts = [] then Inl ExecutionError
        else
          case last sts of
            S_Select q \<Rightarrow> build_plan u q (x_catalog (d_exec d))
          | _ \<Rightarrow> Inl ExecutionError)))"

definition db_close :: "(db, unit) cmd" where
  "db_close =
     bindS (getS d_closed) (\<lambda>closed.
     if closed then returnS ()
     else modifyS (\<lambda>d. d\<lparr>d_closed := True, d_exec := (d_exec d)\<lparr>x_pager := (x_pager (d_exec d))\<lparr>wal_is_open := False\<rparr>\<rparr>\<rparr>))"

end
