(* ===== verification/Frame.thy ===== *)
theory Frame
  imports Btree
begin

text \<open>
  What a command leaves alone. \<open>keeps R c\<close> says that \<open>c\<close>, whether it returns or raises,
  takes every state to one related by \<open>R\<close>; for a preorder the commands that do are
  closed under the program's constructs. The operations of the B+ tree keep what the
  writes and allocations of their page store keep.
\<close>

definition keeps :: "('s \<Rightarrow> 's \<Rightarrow> bool) \<Rightarrow> ('s, 'a) cmd \<Rightarrow> bool" where
  "keeps R c \<longleftrightarrow> (\<forall>s. R s (snd (c s)))"

lemma keepsD: "keeps R c \<Longrightarrow> c s = (r, t) \<Longrightarrow> R s t"
  by (metis keeps_def snd_conv)

lemma keepsI: "(\<And>s r t. c s = (r, t) \<Longrightarrow> R s t) \<Longrightarrow> keeps R c"
  by (metis keeps_def prod.collapse)

locale frame =
  fixes R :: "'s \<Rightarrow> 's \<Rightarrow> bool"
  assumes refl: "R s s"
    and trans: "R s t \<Longrightarrow> R t u \<Longrightarrow> R s u"
begin

lemma pure: "(\<And>s. snd (c s) = s) \<Longrightarrow> keeps R c"
  by (simp add: keeps_def refl)

lemma steps: "keeps R (returnS a)" "keeps R (raiseS e)" "keeps R (getS g)" "keeps R (liftE r)"
  by (auto intro: pure)

lemma modify: "(\<And>s. R s (f s)) \<Longrightarrow> keeps R (modifyS f)"
  by (simp add: keeps_def)

lemma bind: "keeps R c \<Longrightarrow> (\<And>a. keeps R (f a)) \<Longrightarrow> keeps R (bindS c f)"
  by (rule keepsI) (auto simp: bindS_def split: prod.splits sum.splits dest: keepsD intro: trans)

lemma catch: "keeps R c \<Longrightarrow> (\<And>e. keeps R (h e)) \<Longrightarrow> keeps R (catchS c h)"
  by (rule keepsI) (auto simp: catchS_def split: prod.splits sum.splits dest: keepsD intro: trans)

lemma loop: "(\<And>x. x \<in> set xs \<Longrightarrow> keeps R (f x)) \<Longrightarrow> keeps R (forS xs f)"
  by (induction xs) (auto intro: bind steps)

lemma cond: "(b \<Longrightarrow> keeps R c) \<Longrightarrow> (\<not> b \<Longrightarrow> keeps R d) \<Longrightarrow> keeps R (if b then c else d)"
  by simp

lemma pair: "(\<And>a b. p = (a, b) \<Longrightarrow> keeps R (f a b)) \<Longrightarrow> keeps R (case p of (a, b) \<Rightarrow> f a b)"
  by (cases p) simp

lemma opt: "(x = None \<Longrightarrow> keeps R c) \<Longrightarrow> (\<And>a. x = Some a \<Longrightarrow> keeps R (f a)) \<Longrightarrow>
    keeps R (case x of None \<Rightarrow> c | Some a \<Rightarrow> f a)"
  by (cases x) simp_all

lemma res: "(\<And>e. x = Inl e \<Longrightarrow> keeps R (c e)) \<Longrightarrow> (\<And>a. x = Inr a \<Longrightarrow> keeps R (f a)) \<Longrightarrow>
    keeps R (case x of Inl e \<Rightarrow> c e | Inr a \<Rightarrow> f a)"
  by (cases x) simp_all

lemmas rules = steps modify bind catch loop cond pair opt res

end

text \<open>The same relation on the pages of a tree with its root.\<close>

definition paged :: "('s \<Rightarrow> 's \<Rightarrow> bool) \<Rightarrow> 's \<times> int option \<Rightarrow> 's \<times> int option \<Rightarrow> bool" where
  "paged R a b \<longleftrightarrow> R (fst a) (fst b)"

locale tree_frame = frame R + with_root: frame "paged R" for R :: "'s \<Rightarrow> 's \<Rightarrow> bool"
begin

lemma on_pages: "keeps R c \<Longrightarrow> keeps (paged R) (on_pages c)"
  by (rule keepsI) (auto simp: on_pages_def paged_def split: prod.splits dest: keepsD)

lemma set_root: "keeps (paged R) (set_root pid)"
  by (auto simp: set_root_def keeps_def paged_def refl)

lemma into_parent:
  assumes "\<And>pid d. keeps R (io_write io pid d)" and "keeps R (io_alloc io)"
  shows "keeps (paged R) (insert_into_parent io fuel depth left_pid key right_pid)"
proof (induction depth arbitrary: left_pid key right_pid)
  case 0
  show ?case unfolding insert_into_parent.simps [of io fuel 0] Let_def
    by (intro with_root.rules on_pages set_root assms) (simp_all add: with_root.steps)
next
  case (Suc d)
  show ?case unfolding insert_into_parent.simps [of io fuel "Suc d"] Let_def
    by (intro with_root.rules on_pages set_root assms) (simp_all add: Suc)
qed

lemma tree_insert:
  assumes "\<And>pid d. keeps R (io_write io pid d)" and "keeps R (io_alloc io)"
  shows "keeps (paged R) (bt_insert io fuel key v)"
  unfolding bt_insert_def Let_def
  by (intro with_root.rules on_pages set_root into_parent assms)

lemma tree_delete:
  assumes "\<And>pid d. keeps R (io_write io pid d)"
  shows "keeps (paged R) (bt_delete io fuel key)"
  unfolding bt_delete_def Let_def
  by (intro with_root.rules on_pages assms)

end

end

