(* ===== verification/Exec_Frame.thy ===== *)
theory Exec_Frame
  imports Database Frame
begin

text \<open>
  A relation on executor states that the page operations and the updates of the catalog,
  the indexes and the page lists keep is kept by every statement, whether it returns
  or raises. The relations it is used for are in \<open>Exec_Atomic\<close>.
\<close>

section \<open>What every statement keeps\<close>

text \<open>A relation that the writes of a transaction, page allocation and the updates of the executor's attributes keep.\<close>

locale exec_frame = tree_frame R for R :: "exec \<Rightarrow> exec \<Rightarrow> bool" +
  assumes alloc: "keeps R (on_exec_pager alloc_page)"
    and data_alloc: "keeps R (alloc_data_page n reserved)"
    and put: "keeps R (exec_write_page pid d)"
    and free: "keeps R (exec_free_page pid)"
    and set_catalog: "R s (s\<lparr>x_catalog := c\<rparr>)"
    and set_indexes: "R s (s\<lparr>x_indexes := ix\<rparr>)"
    and set_pages: "R s (s\<lparr>x_data_pages := l\<rparr>)"
    and set_wrappers: "R s (s\<lparr>x_wrappers := ws\<rparr>)"
begin

lemma updates [simp]:
  "R s s" "R s (s\<lparr>x_catalog := c\<rparr>)" "R s (s\<lparr>x_indexes := ix\<rparr>)" "R s (s\<lparr>x_data_pages := l\<rparr>)"
  "R s (s\<lparr>x_wrappers := ws\<rparr>)" "R s (s\<lparr>x_data_pages := l, x_catalog := c\<rparr>)"
  "R s (s\<lparr>x_catalog := c, x_data_pages := l\<rparr>)" "R s (s\<lparr>x_wrappers := ws, x_indexes := ix\<rparr>)"
  using refl set_catalog set_indexes set_pages set_wrappers trans [OF set_pages set_catalog] trans [OF set_catalog set_pages]
    trans [OF set_wrappers set_indexes] by auto

lemma reads: "keeps R (readS f)" "keeps R (read_pageS pid)"
  by (simp_all add: keeps_def readS_def read_pageS_def)

lemmas io = alloc put reads

lemma set_index_keeps: "keeps R (set_index k ix)"
  by (auto simp: set_index_def intro!: rules)

lemma index_alloc_keeps: "keeps R (index_alloc k)"
  unfolding index_alloc_def on_wrapper_def by (intro rules io) (auto split: option.splits)

lemma index_free_keeps: "keeps R (index_free k pid)"
  unfolding index_free_def on_wrapper_def by (intro rules free) (auto split: option.splits)

lemma tree_op:
  assumes "\<And>n. keeps (paged R) (c n)"
  shows "keeps R (on_tree k c)"
proof (rule keepsI)
  fix s r t assume run: "on_tree k c s = (r, t)"
  show "R s t"
  proof (cases "get_btree k s")
    case None
    then show ?thesis using run by (simp add: on_tree_def)
  next
    case (Some ix)
    obtain r' s' q where c: "c (tree_fuel s) (s, ix_root ix) = (r', (s', q))" by (metis prod.collapse)
    have "R s s'" using keepsD [OF assms c] by (simp add: paged_def)
    moreover have "R s' t" using run Some c by (auto simp: on_tree_def split: option.splits)
    ultimately show ?thesis by (rule trans)
  qed
qed

lemma index_insert_keeps: "keeps R (index_insert k key ref)"
  unfolding index_insert_def
  by (intro tree_op tree_insert) (simp_all add: index_io_def put index_alloc_keeps)

lemma index_delete_keeps: "keeps R (index_delete k key)"
  unfolding index_delete_def
  by (intro rules tree_op tree_delete) (simp_all add: index_io_def put)

lemmas index = free set_index_keeps index_alloc_keeps index_free_keeps index_insert_keeps index_delete_keeps

section \<open>Storage\<close>

lemma load: "keeps R (load_page pid)" "keeps R (store_page pid p)" "keeps R write_catalog"
  unfolding load_page_def store_page_def write_catalog_def by (intro rules io)+

lemma attempt: "keeps R (try_pages ix pids row)"
  by (induction ix pids row rule: try_pages.induct) (auto simp del: cmd_simps intro!: rules load)

lemma inline: "keeps R (insert_inline_only ti row)"
  unfolding insert_inline_only_def
  by (intro rules load attempt data_alloc) simp_all

lemma write_overflow: "keeps R (write_overflow rest pid buf)"
proof (induction rest pid buf rule: write_overflow.induct)
  case (1 rest pid buf)
  show ?case unfolding write_overflow.simps [of rest] Let_def
    by (intro rules io) (use 1 in \<open>auto simp: Let_def\<close>)
qed

lemma chain: "keeps R (insert_row_into_chain ti row)"
  unfolding insert_row_into_chain_def insert_with_overflow_def
  by (intro rules load inline write_overflow io)

lemma free_overflow: "keeps R (free_overflow n pid)"
proof (induction n arbitrary: pid)
  case 0
  show ?case by (simp add: free_overflow.simps [of 0] steps)
next
  case (Suc n)
  show ?case unfolding free_overflow.simps [of "Suc n"] nat.case
    by (intro rules io Suc)
qed

lemma free_chain: "keeps R (free_overflow_chain pid)"
  unfolding free_overflow_chain_def by (intro rules io free_overflow)

lemma rows:
  "keeps R (index_row ti vals ref)" "keeps R (unindex_row ti vals)"
  "keeps R (update_index_for_row ti old new ref)"
  unfolding index_row_def unindex_row_def update_index_for_row_def by (intro rules index)+

lemmas store = load inline chain free_chain rows

section \<open>Statements\<close>

lemma create: "keeps R (exec_create_table stmt)"
  unfolding exec_create_table_def rebuild_for_table_def install_index_pagers_def new_wrapper_def
  by (intro rules store io index) (auto simp: catalog_add_def keeps_def split: sum.splits)

lemma one_row: "keeps R (insert_one ti cols sess vals)"
  unfolding insert_one_def Let_def by (intro rules store reads)

lemma some_rows: "keeps R (insert_rows ti cols sess vs)"
  by (induction ti cols sess vs rule: insert_rows.induct) (auto simp del: cmd_simps intro!: rules one_row)

lemma insert_stmt: "keeps R (exec_insert stmt)"
  unfolding exec_insert_def by (intro rules reads some_rows)

lemma delete_stmt: "keeps R (exec_delete tn w)"
  unfolding exec_delete_def delete_one_def by (intro rules store reads)

lemma full: "keeps R c \<Longrightarrow> keeps R (unless_full c)"
  unfolding unless_full_def by (intro rules)

lemma move: "keeps R (move_in_page ti pid p sid old new b)"
  unfolding move_in_page_def by (intro rules store full)

lemma in_page: "keeps R (update_in_page ti pid idx sets p m)"
  unfolding update_in_page_def Let_def by (intro rules store full move)

lemma page_updates: "keeps R (apply_page_updates ti pid idx sets p ms)"
  by (induction ti pid idx sets p ms rule: apply_page_updates.induct) (auto simp del: cmd_simps intro!: rules in_page)

lemma update_stmt: "keeps R (exec_update stmt)"
  unfolding exec_update_def update_page_def insert_pending_def by (intro rules store reads page_updates)

lemma drop_stmt: "keeps R (exec_drop_table tn)"
  unfolding exec_drop_table_def free_index_def forget_table_def
  by (intro rules store reads index) (auto simp: drop_entry_def keeps_def split: sum.splits)

lemma statement: "keeps R (exec_stmt u st)"
  by (cases st) (auto simp: exec_stmt_def intro!: rules reads create insert_stmt delete_stmt update_stmt drop_stmt)

end

end
