(* ===== verification/Exec_Atomic.thy ===== *)
theory Exec_Atomic
  imports Exec_Frame
begin

text \<open>
  Two relations that every statement keeps: the bookkeeping of the open transaction,
  and the main-file contents of the pages in use. Hence a statement that fails, and a
  ROLLBACK, leave tables, data page lists, index roots and pages as they were.
\<close>

section \<open>Bookkeeping\<close>

definition same_books :: "exec \<Rightarrow> exec \<Rightarrow> bool" where
  "same_books s t \<longleftrightarrow>
     x_snapshot t = x_snapshot s \<and> (x_txn t = None \<longleftrightarrow> x_txn s = None) \<and> (x_txn s = None \<longrightarrow> x_buffer t = x_buffer s)"

interpretation books: frame same_books
  by unfold_locales (auto simp: same_books_def)

lemma books_pager: "keeps same_books (on_exec_pager c)"
  by (auto simp: keeps_def on_exec_pager_def same_books_def split: prod.splits)

lemma books_put: "keeps same_books (exec_write_page pid d)"
  by (auto simp: keeps_def exec_write_page_def on_exec_pager_def on_txn_def same_books_def bindS_def
      split: prod.splits option.splits sum.splits)

lemma books_read: "keeps same_books (read_pageS pid)"
  by (simp add: keeps_def read_pageS_def same_books_def)

lemma books_free: "keeps same_books (exec_free_page pid)"
  unfolding exec_free_page_def by (intro books.rules books_pager books_put books_read)

lemma books_alloc: "keeps same_books (alloc_data_page n reserved)"
  by (induction n reserved rule: alloc_data_page.induct) (auto simp del: cmd_simps intro!: books.rules books_pager)

interpretation books: exec_frame same_books
  by unfold_locales
    (simp_all add: paged_def same_books_def books_pager books_put books_free books_alloc)

section \<open>Pages in use\<close>

definition only_log :: "pager \<Rightarrow> pager \<Rightarrow> bool" where
  "only_log p q \<longleftrightarrow>
     is_memory q = is_memory p \<and> mem_pages q = mem_pages p \<and> main_file q = main_file p \<and>
     mmap_size q = mmap_size p \<and> next_page_id q = next_page_id p"

interpretation log: frame only_log
  by unfold_locales (auto simp: only_log_def)

lemma log_open: "keeps only_log get_or_open_wal"
  by (auto simp: keeps_def get_or_open_wal_def only_log_def split: prod.splits sum.splits option.splits bool.splits)

lemma log_record: "keeps only_log (wal_record i k pid d)" "keeps only_log (wal_truncate_before i)"
  unfolding wal_record_def wal_truncate_before_def
  by (intro log.rules log_open; simp add: only_log_def)+

lemma only_log_img: "only_log p q \<Longrightarrow> img q = img p"
  by (auto simp: only_log_def img_def)

lemma only_log_use:
  assumes "only_log p q"
  shows "pages_in_use q = pages_in_use p" and "pager_inv q = pager_inv p" and "next_page_id q = next_page_id p"
proof -
  show n: "next_page_id q = next_page_id p" using assms by (simp add: only_log_def)
  have f: "free_ids q = free_ids p" using only_log_img [OF assms] n by (simp add: free_ids_def)
  then show "pages_in_use q = pages_in_use p" using only_log_img [OF assms] n by (auto simp: pages_in_use_def)
  have "pager_wf q = pager_wf p" using assms by (simp add: pager_wf_def only_log_def)
  then show "pager_inv q = pager_inv p"
    using f n only_log_img [OF assms] by (simp add: pager_inv_def free_inv_def)
qed

text \<open>The page operations of the pager leave the log alone, and page ids are never given back.\<close>

definition page_step :: "pager \<Rightarrow> pager \<Rightarrow> bool" where
  "page_step p q \<longleftrightarrow>
     next_page_id p \<le> next_page_id q \<and> wal_is_open q = wal_is_open p \<and> wal_bytes q = wal_bytes p"

interpretation step: frame page_step
  by unfold_locales (auto simp: page_step_def)

lemma step_prims: "keeps page_step (mmap_set a b d)" "keeps page_step (mem_ensure pid)" "keeps page_step (mem_set pid f)"
  "keeps page_step (write_free_list_head h)" "keeps page_step (set_next pid n)"
proof -
  show m: "keeps page_step (mmap_set a b d)" for a b d by (simp add: keeps_def mmap_set_def page_step_def)
  show e: "keeps page_step (mem_ensure pid)" for pid by (simp add: keeps_def mem_ensure_def page_step_def)
  show s: "keeps page_step (mem_set pid f)" for pid f
    unfolding mem_set_def by (intro step.rules) (simp add: page_step_def)
  show "keeps page_step (write_free_list_head h)"
    unfolding write_free_list_head_def by (intro step.rules m s)
  show "keeps page_step (set_next pid n)"
    unfolding set_next_def by (intro step.rules m s e)
qed

lemma step_pages: "keeps page_step alloc_page" "keeps page_step (free_page pid)" "keeps page_step (write_page pid d)"
  unfolding alloc_page_def free_page_def write_page_def
  by (intro step.rules step_prims; simp add: page_step_def Let_def)+

definition next_grows :: "pager \<Rightarrow> pager \<Rightarrow> bool" where
  "next_grows p q \<longleftrightarrow> next_page_id p \<le> next_page_id q"

lemma grows_pages: "keeps next_grows alloc_page" "keeps next_grows (free_page pid)" "keeps next_grows (write_page pid d)"
  using step_pages by (simp_all add: keeps_def page_step_def next_grows_def)

section \<open>Allocation and the pages in use\<close>

definition in_txn_use :: "exec \<Rightarrow> exec \<Rightarrow> bool" where
  "in_txn_use s t \<longleftrightarrow>
     next_grows (x_pager s) (x_pager t) \<and>
     (x_txn s \<noteq> None \<and> pager_inv (x_pager s) \<and> has_room (x_pager t) \<longrightarrow>
        x_txn t \<noteq> None \<and> pager_inv (x_pager t) \<and> img (x_pager t) 1 = img (x_pager s) 1 \<and>
        pages_in_use (x_pager s) \<subseteq>\<^sub>m pages_in_use (x_pager t))"

lemma in_txn_use_refl: "in_txn_use s s"
  by (simp add: in_txn_use_def next_grows_def)

lemma in_txn_use_trans: "in_txn_use s t \<Longrightarrow> in_txn_use t u \<Longrightarrow> in_txn_use s u"
  by (auto simp: in_txn_use_def next_grows_def has_room_def intro: map_le_trans)

interpretation used: frame in_txn_use
  by unfold_locales (auto intro: in_txn_use_refl in_txn_use_trans)

lemma alloc_page_one:
  assumes "pager_inv p" and "has_room p" and "alloc_page p = (r, q)"
  shows "img q 1 = img p 1"
proof (cases "free_ids p")
  case Nil
  have inv: "free_inv p []" using assms(1) Nil by (simp add: pager_inv_def)
  then have "next_page_id p \<noteq> 1" by (simp add: free_inv_def pager_wf_def)
  then show ?thesis using alloc_page_fresh [OF inv] assms(2,3) by (auto simp: has_room_def)
next
  case (Cons x fl)
  have inv: "free_inv p (x # fl)" using assms(1) Cons by (simp add: pager_inv_def)
  then have "x \<noteq> 1" by (auto simp: free_inv_def)
  then show ?thesis using alloc_page_reuse [OF inv] assms(3) by auto
qed

lemma alloc_use:
  assumes "pager_inv p" and "has_room p" and "alloc_page p = (r, q)"
  obtains i where "r = Inr i" and "pager_inv q" and "pages_in_use p i = None"
    and "pages_in_use q = (pages_in_use p)(i \<mapsto> zero_page)" and "img q 1 = img p 1"
  using alloc_page_law [OF assms(1,2)] alloc_page_one [OF assms] assms(3) by auto

lemma free_page_one:
  assumes "pager_inv p" and "pages_in_use p i \<noteq> None" and "free_page i p = (r, q)"
  shows "img q 1 = img p 1"
proof -
  have "2 \<le> i" "i < next_page_id p" "i \<notin> set (free_ids p)"
    using assms(2) by (auto simp: pages_in_use_def split: if_splits)
  then show ?thesis using free_page_eff [of p "free_ids p" i] assms(1,3) by (auto simp: pager_inv_def)
qed

lemma use_alloc: "keeps in_txn_use (on_exec_pager alloc_page)"
proof (rule keepsI)
  fix s r t assume run: "on_exec_pager alloc_page s = (r, t)"
  obtain q where a: "alloc_page (x_pager s) = (r, q)" and t: "t = s\<lparr>x_pager := q\<rparr>"
    using run by (auto simp: on_exec_pager_def split: prod.splits)
  have g: "next_grows (x_pager s) q" by (rule keepsD [OF grows_pages(1) a])
  have "pager_inv q \<and> img q 1 = img (x_pager s) 1 \<and> pages_in_use (x_pager s) \<subseteq>\<^sub>m pages_in_use q"
    if "pager_inv (x_pager s)" "has_room q"
  proof -
    have "has_room (x_pager s)" using g that(2) by (simp add: next_grows_def has_room_def)
    from alloc_use [OF that(1) this a] show ?thesis by (metis map_le_imp_upd_le map_le_upd map_le_refl fun_upd_None_if_notin_dom domIff)
  qed
  then show "in_txn_use s t" using g by (simp add: in_txn_use_def t)
qed

definition txn_log :: "txn \<times> pager \<Rightarrow> txn \<times> pager \<Rightarrow> bool" where
  "txn_log a b \<longleftrightarrow> only_log (snd a) (snd b)"

interpretation txn_log: frame txn_log
  by unfold_locales (auto simp: txn_log_def only_log_def)

lemma txn_log_pager: "keeps only_log c \<Longrightarrow> keeps txn_log (on_pager c)"
  by (rule keepsI) (auto simp: on_pager_def txn_log_def split: prod.splits dest: keepsD)

lemma txn_log_active: "keeps txn_log require_active"
  unfolding require_active_def by (intro txn_log.rules)

lemma txn_log_write: "keeps txn_log (txn_write_page pid d)"
  unfolding txn_write_page_eq wal_append_page_def
  by (intro txn_log.rules txn_log_pager log_record txn_log_active) (auto simp: txn_log_def only_log_def)

lemma txn_log_rollback: "keeps txn_log rollback"
  unfolding rollback_eq wal_append_rollback_def set_state_def
  by (intro txn_log.rules txn_log_pager log_record txn_log_active) (auto simp: txn_log_def only_log_def)

lemma use_log:
  assumes "keeps txn_log c"
  shows "on_txn c s = (r, t) \<Longrightarrow> only_log (x_pager s) (x_pager t) \<and> (x_txn t = None \<longleftrightarrow> x_txn s = None)"
proof (cases "x_txn s")
  case (Some t0)
  obtain r' t' p' where c: "c (t0, x_pager s) = (r', (t', p'))" by (metis prod.collapse)
  have "only_log (x_pager s) p'" using keepsD [OF assms c] by (simp add: txn_log_def)
  then show "on_txn c s = (r, t) \<Longrightarrow> only_log (x_pager s) (x_pager t) \<and> (x_txn t = None \<longleftrightarrow> x_txn s = None)"
    using c Some by (auto simp: on_txn_def)
qed (auto simp: on_txn_def only_log_def)

lemma only_log_in_txn_use:
  assumes "only_log (x_pager s) (x_pager t)" and "x_txn t = None \<longleftrightarrow> x_txn s = None"
  shows "in_txn_use s t"
  using assms only_log_use [OF assms(1)] only_log_img [OF assms(1)] by (simp add: in_txn_use_def next_grows_def)

lemma use_on_txn: "keeps txn_log c \<Longrightarrow> keeps in_txn_use (on_txn c)"
  by (rule keepsI) (metis use_log only_log_in_txn_use)

lemma use_outside: "x_txn s = None \<Longrightarrow> next_grows (x_pager s) (x_pager t) \<Longrightarrow> in_txn_use s t"
  by (simp add: in_txn_use_def)

lemma use_put: "keeps in_txn_use (exec_write_page pid d)"
proof (rule keepsI)
  fix s r t assume run: "exec_write_page pid d s = (r, t)"
  show "in_txn_use s t"
  proof (cases "x_txn s")
    case None
    then obtain q where "write_page pid d (x_pager s) = (r, q)" "t = s\<lparr>x_pager := q\<rparr>"
      using run by (auto simp: exec_write_page_def on_exec_pager_def split: prod.splits)
    with keepsD [OF grows_pages(3)] show ?thesis by (fastforce intro: use_outside [OF None])
  next
    case (Some t0)
    let ?c = "bindS (on_txn (txn_write_page pid d)) (\<lambda>_. modifyS (\<lambda>s. s\<lparr>x_buffer := AList.update pid d (x_buffer s)\<rparr>))"
    have "keeps in_txn_use ?c"
      by (intro used.rules use_on_txn txn_log_write) (simp add: in_txn_use_def next_grows_def)
    moreover have "?c s = (r, t)" using run Some by (simp add: exec_write_page_def)
    ultimately show ?thesis by (rule keepsD)
  qed
qed

lemma use_free: "keeps in_txn_use (exec_free_page pid)"
proof (rule keepsI)
  fix s r t assume run: "exec_free_page pid s = (r, t)"
  show "in_txn_use s t"
  proof (cases "x_txn s")
    case None
    then obtain q where "free_page pid (x_pager s) = (r, q)" "t = s\<lparr>x_pager := q\<rparr>"
      using run by (auto simp: exec_free_page_def on_exec_pager_def split: prod.splits)
    with keepsD [OF grows_pages(2)] show ?thesis by (fastforce intro: use_outside [OF None])
  next
    case (Some t0)
    let ?c = "bindS (read_pageS 0) (\<lambda>page0.
       bindS (read_pageS pid) (\<lambda>freed.
       bindS (liftE (to_bytes_be 4 (be_int (slice page0 9 13)))) (\<lambda>old_head.
       bindS (liftE (to_bytes_be 4 pid)) (\<lambda>new_head.
       bindS (exec_write_page 0 (set_slice page0 9 13 new_head)) (\<lambda>_.
       exec_write_page pid (set_slice freed 0 4 old_head))))))"
    have "keeps in_txn_use (read_pageS q)" for q by (simp add: keeps_def read_pageS_def in_txn_use_refl)
    then have "keeps in_txn_use ?c" by (intro used.rules use_put)
    moreover have "?c s = (r, t)" using run Some by (simp add: exec_free_page_def)
    ultimately show ?thesis by (rule keepsD)
  qed
qed

text \<open>A page of an index that goes straight back to the free list.\<close>

lemma use_back:
  assumes "on_exec_pager alloc_page s = (Inr pid, s')" and "on_exec_pager (free_page pid) s' = (r, t)"
  shows "in_txn_use s t"
proof -
  obtain p where a: "alloc_page (x_pager s) = (Inr pid, p)" and s': "s' = s\<lparr>x_pager := p\<rparr>"
    using assms(1) by (auto simp: on_exec_pager_def split: prod.splits)
  obtain q where f: "free_page pid p = (r, q)" and t: "t = s\<lparr>x_pager := q\<rparr>"
    using assms(2) by (auto simp: on_exec_pager_def s' split: prod.splits)
  have g: "next_grows (x_pager s) p" "next_grows p q"
    using keepsD [OF grows_pages(1) a] keepsD [OF grows_pages(2) f] by simp_all
  have "pager_inv q \<and> img q 1 = img (x_pager s) 1 \<and> pages_in_use (x_pager s) \<subseteq>\<^sub>m pages_in_use q"
    if inv: "pager_inv (x_pager s)" "has_room q"
  proof -
    have "has_room (x_pager s)" using g that(2) by (simp add: next_grows_def has_room_def)
    then obtain i where i: "Inr pid = (Inr i :: int res)" and p1: "pager_inv p"
      and new: "pages_in_use (x_pager s) i = None"
      and p2: "pages_in_use p = (pages_in_use (x_pager s))(i \<mapsto> zero_page)" and p3: "img p 1 = img (x_pager s) 1"
      by (rule alloc_use [OF inv(1) _ a])
    have used: "pages_in_use p pid \<noteq> None" using i by (simp add: p2)
    have "pager_inv q \<and> pages_in_use q = (pages_in_use p)(pid := None)"
      using free_page_law [OF p1 used] f by auto
    moreover have "img q 1 = img p 1" by (rule free_page_one [OF p1 used f])
    ultimately show ?thesis using i new p2 p3 by (auto simp: map_le_def)
  qed
  then show ?thesis using g by (auto simp: in_txn_use_def t next_grows_def)
qed

lemma use_data_alloc: "keeps in_txn_use (alloc_data_page n reserved)"
proof (induction n arbitrary: reserved)
  case 0
  show ?case by (simp add: used.steps del: cmd_simps)
next
  case (Suc n)
  show ?case
  proof (rule keepsI)
    fix s r t assume run: "alloc_data_page (Suc n) reserved s = (r, t)"
    obtain r1 s1 where a: "on_exec_pager alloc_page s = (r1, s1)" by force
    show "in_txn_use s t"
    proof (cases r1)
      case (Inl e)
      then show ?thesis using run a keepsD [OF use_alloc a] by (simp add: bindS_Inl)
    next
      case (Inr pid)
      show ?thesis
      proof (cases "pid \<in> set reserved")
        case False
        then show ?thesis using run a Inr keepsD [OF use_alloc a] by (simp add: bindS_Inr)
      next
        case True
        obtain r2 s2 where f: "on_exec_pager (free_page pid) s1 = (r2, s2)" by force
        have undone: "in_txn_use s s2" using use_back a f Inr by simp
        show ?thesis
        proof (cases r2)
          case (Inl e)
          then show ?thesis using run a f Inr True undone by (simp add: bindS_Inr bindS_Inl)
        next
          case (Inr v)
          then have "alloc_data_page n (pid # reserved) s2 = (r, t)" using run a f \<open>r1 = Inr pid\<close> True by (simp add: bindS_Inr)
          from keepsD [OF Suc this] undone show ?thesis by (rule used.trans [rotated])
        qed
      qed
    qed
  qed
qed

lemma in_txn_use_eq: "x_pager t = x_pager s \<Longrightarrow> x_txn t = x_txn s \<Longrightarrow> in_txn_use s t"
  by (simp add: in_txn_use_def next_grows_def)

interpretation used: exec_frame in_txn_use
proof unfold_locales
  show "paged in_txn_use s s" for s by (simp add: paged_def in_txn_use_refl)
  show "paged in_txn_use s t \<Longrightarrow> paged in_txn_use t v \<Longrightarrow> paged in_txn_use s v" for s t v
    unfolding paged_def by (rule in_txn_use_trans)
qed (simp_all add: use_alloc use_data_alloc use_put use_free in_txn_use_eq)

section \<open>A statement that fails\<close>

text \<open>
  Between statements: without a transaction the buffer is empty and there is no
  snapshot, inside one there is a snapshot. \<open>begun s\<close> is the state in which a statement
  starts, \<open>undo_point s\<close> the snapshot it would go back to.
\<close>

definition session_ok :: "exec \<Rightarrow> bool" where
  "session_ok s \<longleftrightarrow>
     (x_txn s = None \<longrightarrow> x_buffer s = [] \<and> x_snapshot s = None) \<and> (x_txn s \<noteq> None \<longrightarrow> x_snapshot s \<noteq> None)"

definition begun :: "exec \<Rightarrow> exec" where
  "begun s = (if x_txn s = None then snd (open_txn s) else s)"

definition undo_point :: "exec \<Rightarrow> snapshot" where
  "undo_point s = (case x_snapshot s of None \<Rightarrow> snapshot_state s | Some sn \<Rightarrow> sn)"

definition restored :: "snapshot \<Rightarrow> exec \<Rightarrow> bool" where
  "restored sn t \<longleftrightarrow>
     x_catalog t = sn_catalog sn \<and> x_data_pages t = sn_data_pages sn \<and> x_indexes t = sn_indexes sn \<and>
     x_txn t = None \<and> x_buffer t = [] \<and> x_snapshot t = None"

text \<open>What the executor reads of the pages in use, and of the catalog page.\<close>

definition same_contents :: "exec \<Rightarrow> exec \<Rightarrow> bool" where
  "same_contents s t \<longleftrightarrow>
     (\<forall>pid d. pages_in_use (x_pager s) pid = Some d \<longrightarrow> exec_read_page pid t = Inr d) \<and>
     exec_read_page 1 t = read_page 1 (x_pager s)"

fun data_stmt :: "stmt \<Rightarrow> bool" where
  "data_stmt (S_Begin l c) = False"
| "data_stmt (S_Commit l c) = False"
| "data_stmt (S_Rollback l c) = False"
| "data_stmt st = True"

lemma execute_data: "data_stmt st \<Longrightarrow> execute u st = exec_in_txn (exec_stmt u st)"
  by (cases st) (simp_all add: execute_def)

lemma begun_simps:
  "x_txn (begun s) \<noteq> None" "x_pager (begun s) = x_pager s"
  "session_ok s \<Longrightarrow> x_snapshot (begun s) = Some (undo_point s)"
  by (auto simp: begun_def open_txn_def undo_point_def session_ok_def)

lemma in_use_contents:
  assumes "pages_in_use (x_pager s) \<subseteq>\<^sub>m pages_in_use (x_pager t)" and "img (x_pager t) 1 = img (x_pager s) 1"
    and "pager_inv (x_pager s)" and "pager_inv (x_pager t)" and "x_buffer t = []"
  shows "same_contents s t"
proof -
  have "exec_read_page pid t = Inr d" if "pages_in_use (x_pager s) pid = Some d" for pid d
  proof -
    have "pages_in_use (x_pager t) pid = Some d" using assms(1) that by (auto simp: map_le_def dom_def)
    then show ?thesis using pager_pages.read_law [of "x_pager t" pid d] assms(4,5) by (simp add: exec_read_page_def)
  qed
  moreover have "pager_wf (x_pager s)" "pager_wf (x_pager t)"
    using assms(3,4) by (simp_all add: pager_inv_def free_inv_def)
  ultimately show ?thesis
    using assms(2,5) by (simp add: same_contents_def exec_read_page_def read_page_img)
qed

lemma reset_txn_result:
  assumes "x_snapshot s = Some sn"
  shows "restored sn (snd (reset_txn s)) \<and> x_pager (snd (reset_txn s)) = x_pager s"
  using assms by (simp add: reset_txn_def restored_def restore_state_def bindS_def)

lemma on_txn_books: "on_txn c s = (r, t) \<Longrightarrow> same_books s t"
  by (auto simp: on_txn_def same_books_def split: option.splits prod.splits)

text \<open>The end of a transaction that is given up: its log record, then the reset.\<close>

lemma undone:
  assumes "same_books (begun s) s1" and "in_txn_use (begun s) s1" and "session_ok s"
    and "on_txn rollback s1 = (r, s2)" and "t = snd (reset_txn s2)"
    and "pager_inv (x_pager s)" and "has_room (x_pager t)"
  shows "restored (undo_point s) t \<and> same_contents s t"
proof -
  have log: "only_log (x_pager s1) (x_pager s2)" using use_log [OF txn_log_rollback assms(4)] by simp
  have "x_snapshot s2 = Some (undo_point s)"
    using assms(1) on_txn_books [OF assms(4)] begun_simps(3) [OF assms(3)] by (simp add: same_books_def)
  from reset_txn_result [OF this] have res: "restored (undo_point s) t" and p: "x_pager t = x_pager s2"
    by (simp_all add: assms(5))
  have "has_room (x_pager s1)" using assms(7) only_log_use(3) [OF log] by (simp add: p has_room_def)
  then have "pager_inv (x_pager s1)" "img (x_pager s1) 1 = img (x_pager s) 1"
    "pages_in_use (x_pager s) \<subseteq>\<^sub>m pages_in_use (x_pager s1)"
    using assms(2,6) begun_simps(1,2) [of s] by (simp_all add: in_txn_use_def)
  then have "same_contents s t"
    using res assms(6) only_log_use [OF log] only_log_img [OF log]
    by (intro in_use_contents) (simp_all add: p restored_def)
  with res show ?thesis ..
qed

text \<open>
  C4. A statement that raises has no effect: whatever it had done before, in whatever
  statement and at whatever point the exception came, afterwards no transaction is open,
  the tables, the data page lists and the trees of the indexes are those of the start of the
  transaction (its own, or the explicit one it was part of), and every page in use and
  the catalog page read as before. A tree comes back with its root and on the page wrapper it
  had, which the snapshot shares; the pages that a wrapper has recorded since are not taken back.
\<close>

theorem failed_statement_atomic:
  assumes "session_ok s" and "data_stmt st" and "fst (exec_stmt u st (begun s)) = Inl e"
    and "execute u st s = (r, t)" and "pager_inv (x_pager s)" and "has_room (x_pager t)"
  shows "(\<exists>e'. r = Inl e') \<and> restored (undo_point s) t \<and> same_contents s t"
proof -
  obtain s1 where st: "exec_stmt u st (begun s) = (Inl e, s1)" using assms(3) by (metis prod.collapse)
  obtain r2 s2 where rb: "on_txn rollback s1 = (r2, s2)" by force
  have "execute u st s = (Inl (case r2 of Inl e' \<Rightarrow> e' | Inr _ \<Rightarrow> e), snd (reset_txn s2))"
    using st rb by (simp add: execute_data [OF assms(2)] exec_in_txn_def Let_def begun_def [symmetric])
  then have t: "t = snd (reset_txn s2)" "\<exists>e'. r = Inl e'" using assms(4) by auto
  show ?thesis
    using undone [OF keepsD [OF books.statement st] keepsD [OF used.statement st] assms(1) rb t(1) assms(5,6)] t(2) by simp
qed

section \<open>ROLLBACK\<close>

lemma data_in_txn:
  assumes "data_stmt st" and "x_txn s \<noteq> None" and "execute u st s = (Inr out, t)"
  shows "same_books s t \<and> in_txn_use s t"
proof -
  have "exec_stmt u st s = (Inr out, t)"
    using assms(2,3) by (auto simp: execute_data [OF assms(1)] exec_in_txn_def Let_def split: prod.splits sum.splits)
  then show ?thesis using keepsD [OF books.statement] keepsD [OF used.statement] by blast
qed

lemma script_in_txn:
  assumes "list_all data_stmt sts" and "x_txn s \<noteq> None" and "execute_all u sts out s = (Inr out', t)"
  shows "same_books s t \<and> in_txn_use s t"
  using assms
proof (induction sts arbitrary: out s)
  case Nil
  then show ?case by (simp add: books.refl in_txn_use_refl)
next
  case (Cons st sts)
  then obtain o1 s1 where 1: "execute u st s = (Inr o1, s1)" "execute_all u sts o1 s1 = (Inr out', t)"
    by (auto simp: bindS_eq_Inr)
  have k: "same_books s s1 \<and> in_txn_use s s1" using data_in_txn [OF _ Cons.prems(2) 1(1)] Cons.prems(1) by simp
  then have "x_txn s1 \<noteq> None" using Cons.prems(2) by (simp add: same_books_def)
  then have "same_books s1 t \<and> in_txn_use s1 t" using Cons.IH 1(2) Cons.prems(1) by simp
  with k show ?case using books.trans in_txn_use_trans by blast
qed

text \<open>
  C12. BEGIN, any statements that succeed, ROLLBACK: afterwards no transaction is open, the
  tables, the data page lists and the trees of the indexes (root and shared page wrapper) are
  those before BEGIN, and every page that was in use reads as before.
\<close>

theorem rollback_undoes:
  assumes "session_ok s" and "execute u (S_Begin l c) s = (Inr o1, s1)"
    and "list_all data_stmt sts" and "execute_all u sts o1 s1 = (Inr o2, s2)"
    and "execute u (S_Rollback l' c') s2 = (Inr o3, t)" and "pager_inv (x_pager s)" and "has_room (x_pager t)"
  shows "restored (snapshot_state s) t \<and> same_contents s t"
proof -
  have none: "x_txn s = None" and s1: "s1 = begun s"
    using assms(2) by (auto simp: execute_def exec_begin_def begun_def bindS_def open_txn_def split: if_splits)
  have k: "same_books s1 s2 \<and> in_txn_use s1 s2"
    using script_in_txn [OF assms(3) _ assms(4)] begun_simps(1) [of s] s1 by simp
  then have "x_txn s2 \<noteq> None" using begun_simps(1) [of s] s1 by (simp add: same_books_def)
  then obtain v s3 where rb: "on_txn rollback s2 = (Inr v, s3)" and t: "t = snd (reset_txn s3)"
    using assms(5) by (auto simp: execute_def exec_rollback_def bindS_eq_Inr)
  have "undo_point s = snapshot_state s" using assms(1) none by (simp add: undo_point_def session_ok_def)
  then show ?thesis using undone [OF _ _ assms(1) rb t assms(6,7)] k by (simp add: s1)
qed

section \<open>Sessions\<close>

lemma restored_session: "restored sn t \<Longrightarrow> session_ok t"
  by (simp add: restored_def session_ok_def)

lemma books_session: "same_books s t \<Longrightarrow> session_ok s \<Longrightarrow> session_ok t"
  by (auto simp: same_books_def session_ok_def)

lemma begun_session: "session_ok s \<Longrightarrow> session_ok (begun s)"
  by (auto simp: begun_def open_txn_def session_ok_def)

lemma close_session: "session_ok (snd (close_txn s))"
  by (simp add: close_txn_def session_ok_def)

lemma in_txn_session:
  assumes "keeps same_books c" and "session_ok s" and "exec_in_txn c s = (r, t)"
  shows "session_ok t"
proof -
  obtain r1 s1 where c: "c (begun s) = (r1, s1)" by force
  have k: "same_books (begun s) s1" by (rule keepsD [OF assms(1) c])
  have ok: "session_ok s1" by (rule books_session [OF k begun_session [OF assms(2)]])
  show ?thesis
  proof (cases r1)
    case (Inl e)
    obtain r2 s2 where rb: "on_txn rollback s1 = (r2, s2)" by force
    then have t: "t = snd (reset_txn s2)"
      using c Inl assms(3) by (simp add: exec_in_txn_def Let_def begun_def [symmetric])
    have "x_snapshot s2 = Some (undo_point s)"
      using k on_txn_books [OF rb] begun_simps(3) [OF assms(2)] by (simp add: same_books_def)
    then show ?thesis using reset_txn_result t restored_session by blast
  next
    case (Inr v)
    obtain r2 s2 where cm: "on_txn commit s1 = (r2, s2)" by force
    have "session_ok s2" by (rule books_session [OF on_txn_books [OF cm] ok])
    then have "session_ok t" if "x_txn s = None"
      using c Inr assms(3) cm that close_session
      by (cases r2) (auto simp: exec_in_txn_def Let_def begun_def [symmetric] bindS_Inl bindS_Inr close_txn_def session_ok_def)
    moreover have "t = s1" if "x_txn s \<noteq> None"
      using c Inr assms(3) that by (simp add: exec_in_txn_def Let_def begun_def [symmetric])
    ultimately show ?thesis using ok by blast
  qed
qed

lemma execute_session:
  assumes "session_ok s" and "execute u st s = (r, t)"
  shows "session_ok t"
proof (cases "data_stmt st")
  case True
  then show ?thesis using in_txn_session [OF books.statement assms(1)] assms(2) by (simp add: execute_data)
next
  case False
  obtain r1 s1 where cm: "on_txn commit s = (r1, s1)" by force
  obtain r2 s2 where rb: "on_txn rollback s = (r2, s2)" by force
  have ok: "session_ok s1" "session_ok s2" using books_session on_txn_books cm rb assms(1) by blast+
  consider (b) l c where "st = S_Begin l c" | (c) l c where "st = S_Commit l c" | (r) l c where "st = S_Rollback l c"
    using False by (cases st) auto
  then show ?thesis
  proof cases
    case b
    then show ?thesis using assms by (auto simp: execute_def exec_begin_def bindS_def open_txn_def session_ok_def split: if_splits)
  next
    case c
    then show ?thesis using assms cm ok close_session [of s1]
      by (cases r1) (auto simp: execute_def exec_commit_def bindS_def close_txn_def session_ok_def split: if_splits)
  next
    case r
    have "session_ok (snd (reset_txn s2))" if "x_txn s \<noteq> None"
      using that assms(1) on_txn_books [OF rb] reset_txn_result [of s2] restored_session
      by (fastforce simp: session_ok_def same_books_def)
    then show ?thesis using r assms rb ok
      by (cases r2) (auto simp: execute_def exec_rollback_def bindS_def split: if_splits prod.splits sum.splits)
  qed
qed

lemma script_session: "session_ok s \<Longrightarrow> execute_all u sts out s = (r, t) \<Longrightarrow> session_ok t"
proof (induction sts arbitrary: out s)
  case (Cons st sts)
  obtain r1 s1 where 1: "execute u st s = (r1, s1)" by force
  have "session_ok s1" by (rule execute_session [OF Cons.prems(1) 1])
  then show ?case using Cons 1 by (cases r1) (auto simp: bindS_Inl bindS_Inr)
qed simp

end
