(* ===== verification/Exec_Pages.thy ===== *)
theory Exec_Pages
  imports Exec_Atomic
begin

text \<open>
  How the executor allocates and frees pages inside a transaction: the loop that looks
  for a data page, and the free list of the page buffer against the one of the pager.
\<close>

section \<open>Looking for a data page\<close>

definition next_alloc :: "pager \<Rightarrow> int" where
  "next_alloc p = (case free_ids p of [] \<Rightarrow> next_page_id p | h # fl \<Rightarrow> h)"

lemma alloc_next:
  assumes "pager_inv p" and "has_room p"
  obtains q fl where "alloc_page p = (Inr (next_alloc p), q)" and "free_inv q fl" and "free_ids p = [] \<longrightarrow> fl = []"
    and "free_ids p \<noteq> [] \<longrightarrow> fl = tl (free_ids p)" and "next_alloc p < next_page_id q" and "next_alloc p \<notin> set fl"
    and "2 \<le> next_alloc p"
proof (cases "free_ids p")
  case Nil
  have inv: "free_inv p []" using assms(1) Nil by (simp add: pager_inv_def)
  then have "2 \<le> next_page_id p" by (simp add: free_inv_def pager_wf_def)
  then show ?thesis using alloc_page_fresh [OF inv] assms(2) that Nil by (auto simp: has_room_def next_alloc_def)
next
  case (Cons x fl)
  have inv: "free_inv p (x # fl)" using assms(1) Cons by (simp add: pager_inv_def)
  then have "2 \<le> x" "x < next_page_id p" "x \<notin> set fl" by (auto simp: free_inv_def)
  then show ?thesis using alloc_page_reuse [OF inv] that Cons by (auto simp: next_alloc_def same_rest_def)
qed

lemma alloc_again:
  assumes "pager_inv p" and "has_room p" and "alloc_page p = (Inr i, q)" and "free_page i q = (r, p')"
  shows "r = Inr () \<and> pager_inv p' \<and> free_ids p' \<noteq> [] \<and> next_alloc p' = i"
proof -
  obtain q' fl where a: "alloc_page p = (Inr (next_alloc p), q')" "free_inv q' fl" "next_alloc p < next_page_id q'"
      "next_alloc p \<notin> set fl" "2 \<le> next_alloc p"
    by (rule alloc_next [OF assms(1,2)])
  then have i: "q' = q" "next_alloc p = i" using assms(3) by simp_all
  then obtain p1 where "free_page i q = (Inr (), p1)" "free_inv p1 (i # fl)" using free_page_eff [OF a(2), of i] a by auto
  with assms(4) have r: "r = Inr ()" and f: "free_inv p' (i # fl)" by simp_all
  from pager_invI [OF f] r show ?thesis by (simp add: next_alloc_def)
qed

lemma stuck_at_head:
  assumes "pager_inv (x_pager s)" and "free_ids (x_pager s) \<noteq> []" and "next_alloc (x_pager s) \<in> set reserved"
  shows "fst (alloc_data_page n reserved s) = Inl FuelOut"
  using assms
proof (induction n arbitrary: s reserved)
  case (Suc n)
  obtain x fl where fl: "free_ids (x_pager s) = x # fl" using Suc.prems(2) by (cases "free_ids (x_pager s)") auto
  then have inv: "free_inv (x_pager s) (x # fl)" using Suc.prems(1) by (simp add: pager_inv_def)
  obtain p where a: "alloc_page (x_pager s) = (Inr x, p)" "same_rest (x_pager s) p" "free_inv p fl"
    using alloc_page_reuse [OF inv] by blast
  have x: "2 \<le> x" "x < next_page_id p" "x \<notin> set fl" using inv a(2) by (auto simp: free_inv_def same_rest_def)
  obtain q where f: "free_page x p = (Inr (), q)" "free_inv q (x # fl)" using free_page_eff [OF a(3) x] by blast
  have q: "pager_inv q" "free_ids q = x # fl" using pager_invI [OF f(2)] by simp_all
  have "x \<in> set reserved" using Suc.prems(3) fl by (simp add: next_alloc_def)
  then have "alloc_data_page (Suc n) reserved s = alloc_data_page n (x # reserved) (s\<lparr>x_pager := q\<rparr>)"
    using a(1) f(1) by (simp add: bindS_def on_exec_pager_def)
  moreover have "fst (alloc_data_page n (x # reserved) (s\<lparr>x_pager := q\<rparr>)) = Inl FuelOut"
    by (rule Suc.IH) (use q in \<open>simp_all add: next_alloc_def\<close>)
  ultimately show ?case by simp
qed simp

lemma first_turn_or_never:
  assumes "pager_inv (x_pager s)" and "has_room (x_pager s)"
  obtains q where "alloc_page (x_pager s) = (Inr (next_alloc (x_pager s)), q)"
    and "next_alloc (x_pager s) \<notin> set reserved \<Longrightarrow>
      alloc_data_page (Suc n) reserved s = (Inr (next_alloc (x_pager s)), s\<lparr>x_pager := q\<rparr>)"
    and "next_alloc (x_pager s) \<in> set reserved \<Longrightarrow> fst (alloc_data_page (Suc n) reserved s) = Inl FuelOut"
proof -
  let ?i = "next_alloc (x_pager s)"
  obtain q fl where a: "alloc_page (x_pager s) = (Inr ?i, q)" "free_inv q fl" "?i < next_page_id q" "?i \<notin> set fl" "2 \<le> ?i"
    by (rule alloc_next [OF assms])
  have "alloc_data_page (Suc n) reserved s = (Inr ?i, s\<lparr>x_pager := q\<rparr>)" if "?i \<notin> set reserved"
    using a(1) that by (simp add: on_exec_pager_def bindS_def)
  moreover have "fst (alloc_data_page (Suc n) reserved s) = Inl FuelOut" if "?i \<in> set reserved"
  proof -
    obtain p where f: "free_page ?i q = (Inr (), p)" using free_page_eff [OF a(2,5,3,4)] by blast
    have "alloc_data_page (Suc n) reserved s = alloc_data_page n (?i # reserved) (s\<lparr>x_pager := p\<rparr>)"
      using a(1) f that by (simp add: bindS_def on_exec_pager_def)
    moreover have "fst (alloc_data_page n (?i # reserved) (s\<lparr>x_pager := p\<rparr>)) = Inl FuelOut"
      by (rule stuck_at_head) (use alloc_again [OF assms a(1) f] in simp_all)
    ultimately show ?thesis by simp
  qed
  ultimately show ?thesis using a(1) that by blast
qed

lemma alloc_data_page_result:
  assumes "alloc_data_page n reserved s = (Inr pid, t)" and "pager_inv (x_pager s)" and "has_room (x_pager s)"
  shows "pid \<notin> set reserved \<and> (\<exists>q. alloc_page (x_pager s) = (Inr pid, q) \<and> t = s\<lparr>x_pager := q\<rparr>)"
proof (cases n)
  case (Suc m)
  show ?thesis
    by (rule first_turn_or_never [OF assms(2,3), where reserved = reserved and n = m]) (use assms(1) Suc in \<open>cases "next_alloc (x_pager s) \<in> set reserved"; auto\<close>)
qed (use assms(1) in simp)

text \<open>
  C15. Looking for a data page returns, in its first turn, exactly when the page the pager
  would hand out next is not reserved for an index. When it is reserved, it goes back to
  the head of the free list and the loop never ends, however many other free pages
  there are.
\<close>

theorem data_page_liveness:
  assumes "pager_inv (x_pager s)" and "has_room (x_pager s)"
  shows "fst (alloc_data_page (Suc n) reserved s) =
    (if next_alloc (x_pager s) \<in> set reserved then Inl FuelOut else Inr (next_alloc (x_pager s)))"
  by (rule first_turn_or_never [OF assms, where reserved = reserved and n = n]) auto

section \<open>Freeing inside a transaction\<close>

text \<open>
  A page freed inside a transaction is linked in the page buffer, while pages are
  allocated from the pager below it: the buffered page 0 keeps the old list.
\<close>

lemma write_in_txn:
  assumes "x_txn s = Some t" and "in_txn i p ws (t, x_pager s)" and "0 \<le> i" and "i < 256 ^ 8" and "page_write_ok p (pid, d)"
  shows "\<exists>t' q. exec_write_page pid d s = (Inr (), s\<lparr>x_txn := Some t', x_pager := q, x_buffer := AList.update pid d (x_buffer s)\<rparr>) \<and>
    in_txn i p (ws @ [(pid, d)]) (t', q)"
proof -
  obtain t' q where "txn_write_page pid d (t, x_pager s) = (Inr (), (t', q))" "in_txn i p (ws @ [(pid, d)]) (t', q)"
    using txn_write_page_in_txn [OF assms(2-5)] by auto
  then show ?thesis using assms(1) by (auto simp: exec_write_page_def bindS_def on_txn_def)
qed

lemma in_txn_free_inv: "in_txn i p ws (t, q) \<Longrightarrow> free_inv p fl \<Longrightarrow> free_inv q fl"
  by (simp add: in_txn_def free_inv_def)

lemma in_txn_rebase: "in_txn i p ws (t, q) \<Longrightarrow> same_rest q q' \<Longrightarrow> pager_wf q' \<Longrightarrow> in_txn i q' ws (t, q')"
  by (simp add: in_txn_def wal_has_def same_rest_def)

lemma head_range: "0 \<le> head_of I" "head_of I < 2 ^ 32"
proof -
  have "length (slice (I 0) 9 13) \<le> 4" by (simp add: slice_nonneg)
  then have "(256::int) ^ length (slice (I 0) 9 13) \<le> 256 ^ 4" by (intro power_increasing) simp_all
  then show "head_of I < 2 ^ 32" using be_int_bound [of "slice (I 0) 9 13"] by (simp add: head_of_def)
qed (simp add: head_of_def)

lemma free_page_in_txn:
  assumes "x_txn s = Some (new_txn i)" and "0 \<le> i" and "i < 256 ^ 8" and "x_buffer s = []" and "wal_has (x_pager s) []"
    and "free_inv (x_pager s) fl" and "2 \<le> pid" and "pid < next_page_id (x_pager s)" and "h = head_of (img (x_pager s))"
    and "b0 = put_head pid (img (x_pager s)) 0" and "b1 = put_next pid h (img (x_pager s)) pid"
  shows "\<exists>t q b. exec_free_page pid s = (Inr (), s\<lparr>x_txn := Some t, x_pager := q, x_buffer := b\<rparr>) \<and>
    in_txn i (x_pager s) [(0, b0), (pid, b1)] (t, q)"
proof -
  let ?p = "x_pager s"
  have wf: "pager_wf ?p" and small: "next_page_id ?p \<le> 2 ^ 32" using assms(6) by (simp_all add: free_inv_def)
  have h: "head_of (img ?p) = h" "0 \<le> h" "h < 2 ^ 32" using head_range [of "img ?p"] by (simp_all add: assms(9))
  have len: "length (img ?p 0) = 4096" "length (img ?p pid) = 4096"
    using length_img [OF wf] in_range_next [OF wf] assms(7,8) by simp_all
  have rd: "exec_read_page 0 s = Inr (img ?p 0)" "exec_read_page pid s = Inr (img ?p pid)"
    using assms(4,7) by (simp_all add: exec_read_page_def read_page_img [OF wf])
  have hb: "to_bytes_be 4 (be_int (slice (img ?p 0) 9 13)) = Inr (be_bytes 4 h)" "to_bytes_be 4 pid = Inr (be_bytes 4 pid)"
    using h assms(7,8) small by (simp_all add: to_bytes_be_def flip: head_of_def)
  have b: "length b0 = 4096" "length b1 = 4096"
    using len by (simp_all add: assms(10,11) put_head_def put_next_def length_set_slice)
  have ok: "page_write_ok ?p (0, b0)" "page_write_ok ?p (pid, b1)"
    using b assms(7,8) small in_range_next [OF wf] by (simp_all add: page_write_ok_def)
  from write_in_txn [OF assms(1) in_txn_start [OF wf assms(5)] assms(2,3) ok(1)]
  obtain t1 q1 where w0: "exec_write_page 0 b0 s = (Inr (), s\<lparr>x_txn := Some t1, x_pager := q1, x_buffer := AList.update 0 b0 (x_buffer s)\<rparr>)"
    (is "_ = (_, ?s1)") and i1: "in_txn i ?p [(0, b0)] (t1, q1)" by auto
  from write_in_txn [of ?s1 t1 i ?p "[(0, b0)]", OF _ _ assms(2,3) ok(2)] i1
  obtain t2 q2 where w1: "exec_write_page pid b1 ?s1 = (Inr (), s\<lparr>x_txn := Some t2, x_pager := q2,
      x_buffer := AList.update pid b1 (AList.update 0 b0 (x_buffer s))\<rparr>)" and i2: "in_txn i ?p [(0, b0), (pid, b1)] (t2, q2)" by auto
  have "exec_free_page pid s = exec_write_page pid b1 ?s1"
    using rd hb w0 assms(1) by (simp add: exec_free_page_def read_pageS_def bindS_def assms(10,11) put_head_def put_next_def)
  then show ?thesis unfolding w1 using i2 by auto
qed

text \<open>
  C23. In an explicit transaction, free a page in use (as DROP TABLE does), allocate one (as
  CREATE TABLE does) while the free list is not empty, and COMMIT: the committed free list
  holds the page that was just allocated, so the second allocation from now hands it
  out a second time.
\<close>

theorem allocated_twice:
  assumes "x_txn s = Some (new_txn i)" and "0 \<le> i" and "i < 256 ^ 8" and "x_buffer s = []" and "wal_has (x_pager s) []"
    and "pager_inv (x_pager s)" and "free_ids (x_pager s) = h # fl" and "pages_in_use (x_pager s) pid \<noteq> None"
  shows "\<exists>s1 s2 s3 s4 s5. exec_free_page pid s = (Inr (), s1) \<and> on_exec_pager alloc_page s1 = (Inr h, s2) \<and>
    exec_commit s2 = (Inr (), s3) \<and> on_exec_pager alloc_page s3 = (Inr pid, s4) \<and> on_exec_pager alloc_page s4 = (Inr h, s5)"
proof -
  let ?p = "x_pager s"
  have inv: "free_inv ?p (h # fl)" using assms(6,7) by (simp add: pager_inv_def)
  then have wf: "pager_wf ?p" and small: "next_page_id ?p \<le> 2 ^ 32" and h: "2 \<le> h" "h < next_page_id ?p"
    and hd: "h = head_of (img ?p)"
    by (simp_all add: free_inv_def)
  have pid: "2 \<le> pid" "pid < next_page_id ?p" "pid \<noteq> h" using assms(7,8) by (auto simp: pages_in_use_def split: if_splits)
  define b0 where "b0 = put_head pid (img ?p) 0"
  define b1 where "b1 = put_next pid h (img ?p) pid"
  have len: "length (img ?p 0) = 4096" "length (img ?p pid) = 4096"
    using length_img [OF wf] in_range_next [OF wf] pid by simp_all
  then have b: "length b0 = 4096" "length b1 = 4096"
    by (simp_all add: b0_def b1_def put_head_def put_next_def length_set_slice)
  obtain t q bf where f: "exec_free_page pid s = (Inr (), s\<lparr>x_txn := Some t, x_pager := q, x_buffer := bf\<rparr>)" (is "_ = (_, ?s1)")
    and i1: "in_txn i ?p [(0, b0), (pid, b1)] (t, q)"
    using free_page_in_txn [OF assms(1-5) inv pid(1,2) hd b0_def b1_def] by blast
  obtain q2 where a: "alloc_page q = (Inr h, q2)" "same_rest q q2" "free_inv q2 fl"
    and img2: "img q2 = (put_head (next_of (img q) h) (img q))(h := zero_page)"
    using alloc_page_reuse [OF in_txn_free_inv [OF i1 inv]] by blast
  have q2: "pager_wf q2" "next_page_id q2 = next_page_id ?p"
    using a i1 by (simp_all add: free_inv_def same_rest_def in_txn_def)
  have ok: "list_all (page_write_ok q2) [(0, b0), (pid, b1)]"
    using b pid q2 small in_range_next [OF q2(1)] by (simp add: page_write_ok_def)
  obtain t3 p3 where c: "commit (t, q2) = (Inr (), (t3, p3))" "settled i q2 p3" and img3: "img p3 = put_pages (img q2) [(0, b0), (pid, b1)]"
    using commit_in_txn [OF in_txn_rebase [OF i1 a(2) q2(1)] assms(2,3) ok] by blast
  have I: "img p3 0 = b0" "img p3 pid = b1" "img p3 h = zero_page"
    using pid h by (simp_all add: img3 put_page_def img2)
  have "head_of (img p3) = pid" using pid small len(1) head_of_put_head [of "img ?p" pid] by (simp add: head_of_def I b0_def)
  moreover have "next_of (img p3) pid = h" using h small len(2) next_of_put_next [of "img ?p" pid h] by (simp add: next_of_def I b1_def)
  moreover have "next_of (img p3) h = 0" by (simp add: next_of_def I zero_page_def slice_nonneg be_int_def eval_nat_numeral)
  ultimately have "free_inv p3 [pid, h]"
    using c(2) pid h q2 small by (simp add: free_inv_def settled_def)
  from alloc_page_reuse [OF this] obtain p4 where a4: "alloc_page p3 = (Inr pid, p4)" "free_inv p4 [h]" by blast
  from alloc_page_reuse [OF a4(2)] obtain p5 where a5: "alloc_page p4 = (Inr h, p5)" by blast
  have cm: "exec_commit (?s1\<lparr>x_pager := q2\<rparr>) = (Inr (), s\<lparr>x_txn := None, x_pager := p3, x_buffer := [], x_snapshot := None\<rparr>)" (is "_ = (_, ?s3)")
    using c(1) by (simp add: exec_commit_def on_txn_def bindS_def close_txn_def)
  have al: "on_exec_pager alloc_page ?s1 = (Inr h, ?s1\<lparr>x_pager := q2\<rparr>)"
    "on_exec_pager alloc_page ?s3 = (Inr pid, ?s3\<lparr>x_pager := p4\<rparr>)"
    "on_exec_pager alloc_page (?s3\<lparr>x_pager := p4\<rparr>) = (Inr h, ?s3\<lparr>x_pager := p4\<rparr>\<lparr>x_pager := p5\<rparr>)"
    using a(1) a4(1) a5 by (simp_all add: on_exec_pager_def)
  show ?thesis by (intro exI conjI) (rule f, rule al(1), rule cm, rule al(2), rule al(3))
qed

end
