(* ===== verification/Drop_Table.thy ===== *)
theory Drop_Table
  imports Exec_Pages
begin

text \<open>
  The pages as the executor sees them inside a transaction, the buffer over the main
  file, and what DROP TABLE does to the free list in that view.
\<close>

section \<open>The view of a transaction\<close>

definition view :: "exec \<Rightarrow> int \<Rightarrow> byte list" where
  "view s pid = (case exec_read_page pid s of Inl e \<Rightarrow> [] | Inr d \<Rightarrow> d)"

lemma only_log_read: "only_log p q \<Longrightarrow> read_page pid q = read_page pid p"
  by (simp add: only_log_def read_page_def mapped_def)

lemma write_in_view:
  assumes "x_txn s \<noteq> None" and "exec_write_page pid d s = (Inr (), t)"
  shows "x_txn t \<noteq> None" and "exec_read_page q t = (if q = pid then Inr d else exec_read_page q s)"
    and "view t = (view s)(pid := d)" and "only_log (x_pager s) (x_pager t)"
proof -
  obtain s1 where w: "on_txn (txn_write_page pid d) s = (Inr (), s1)"
    and t: "t = s1\<lparr>x_buffer := AList.update pid d (x_buffer s1)\<rparr>"
    using assms by (auto simp: exec_write_page_def bindS_eq_Inr)
  have b: "x_buffer s1 = x_buffer s" using w by (auto simp: on_txn_def split: option.splits prod.splits)
  have l: "only_log (x_pager s) (x_pager s1)" "x_txn s1 \<noteq> None"
    using use_log [OF txn_log_write w] assms(1) by simp_all
  show "x_txn t \<noteq> None" "only_log (x_pager s) (x_pager t)" using l by (simp_all add: t)
  show r: "exec_read_page q t = (if q = pid then Inr d else exec_read_page q s)" for q
    using only_log_read [OF l(1)] by (simp add: exec_read_page_def t b split: option.split)
  show "view t = (view s)(pid := d)" by (simp add: fun_eq_iff view_def r)
qed

lemma view_read: "exec_read_page pid s = Inr d \<Longrightarrow> view s pid = d"
  by (simp add: view_def)

lemma read_alloc:
  assumes "pager_inv p" and "pager_inv p'" and "pages_in_use p' q = pages_in_use p q" and "pages_in_use p q \<noteq> None"
  shows "read_page q p' = read_page q p"
  using pager_pages.read_law [OF assms(1), of q] pager_pages.read_law [OF assms(2), of q] assms(3,4) by auto

lemma to_bytes_range: "to_bytes_be n x = Inr d \<Longrightarrow> 0 \<le> x \<and> x < 256 ^ n \<and> d = be_bytes n x"
  by (auto simp: to_bytes_be_def split: if_splits)

lemma free_in_view:
  assumes "x_txn s \<noteq> None" and "exec_free_page pid s = (Inr (), t)" and "pid \<noteq> 0"
  shows "x_txn t \<noteq> None \<and> 0 \<le> pid \<and> pid < 2 ^ 32 \<and> view t = put_head pid (put_next pid (head_of (view s)) (view s))"
proof -
  obtain page0 freed oh nh s1 where r: "exec_read_page 0 s = Inr page0" "exec_read_page pid s = Inr freed"
    "to_bytes_be 4 (be_int (slice page0 9 13)) = Inr oh" "to_bytes_be 4 pid = Inr nh"
    and w0: "exec_write_page 0 (set_slice page0 9 13 nh) s = (Inr (), s1)"
    and w1: "exec_write_page pid (set_slice freed 0 4 oh) s1 = (Inr (), t)"
    using assms(1,2) by (auto simp: exec_free_page_def bindS_eq_Inr read_pageS_def liftE_def)
  note v0 = write_in_view [OF assms(1) w0]
  note v1 = write_in_view [OF v0(1) w1]
  have "view s 0 = page0" "view s pid = freed" using r by (simp_all add: view_read)
  then show ?thesis
    using v0(3) v1(1,3) assms(3) to_bytes_range [OF r(3)] to_bytes_range [OF r(4)]
    by (auto simp: put_head_def put_next_def fun_eq_iff head_of_def)
qed

lemma chain_push:
  assumes "chain I (head_of I) fl" and "length (I 0) = 4096" and "length (I pid) = 4096"
    and "0 < pid" and "pid < 2 ^ 32" and "pid \<notin> set fl" and "0 \<notin> set fl"
  shows "chain (put_head pid (put_next pid (head_of I) I)) pid (pid # fl)"
    and "head_of (put_head pid (put_next pid (head_of I) I)) = pid"
proof -
  let ?J = "put_head pid (put_next pid (head_of I) I)"
  have "next_of ?J pid = head_of I"
    using next_of_put_next [of I pid "head_of I"] assms(3,4) head_range [of I] by (simp add: next_of_def)
  moreover have "chain ?J (head_of I) fl"
  proof -
    have "?J x = I x" if "x \<in> set fl" for x
    proof -
      have "x \<noteq> 0" "x \<noteq> pid" using that assms(6,7) by auto
      then show ?thesis by simp
    qed
    then show ?thesis using assms(1) chain_cong [of fl ?J I "head_of I"] by simp
  qed
  ultimately show "chain ?J pid (pid # fl)" by simp
  show "head_of ?J = pid" using assms(2,4,5) by simp
qed

lemma frees_in_view:
  assumes "x_txn s \<noteq> None" and "forS pids exec_free_page s = (Inr (), t)"
    and "distinct pids" and "0 \<notin> set pids" and "set pids \<inter> set fl = {}" and "0 \<notin> set fl"
    and "\<forall>q \<in> insert 0 (set pids). length (view s q) = 4096" and "chain (view s) (head_of (view s)) fl"
  shows "chain (view t) (head_of (view t)) (rev pids @ fl)"
  using assms
proof (induction pids arbitrary: s fl)
  case (Cons pid pids)
  obtain s1 where f: "exec_free_page pid s = (Inr (), s1)" and rest: "forS pids exec_free_page s1 = (Inr (), t)"
    using Cons.prems(2) by (auto simp: bindS_eq_Inr)
  have pid: "pid \<noteq> 0" using Cons.prems(4) by auto
  from free_in_view [OF Cons.prems(1) f pid]
  have v: "x_txn s1 \<noteq> None" "0 < pid" "pid < 2 ^ 32" "view s1 = put_head pid (put_next pid (head_of (view s)) (view s))"
    using pid by simp_all
  have ch: "chain (view s1) (head_of (view s1)) (pid # fl)"
    using chain_push [of "view s" fl pid] Cons.prems v by (simp add: v(4))
  have len: "\<forall>q \<in> insert 0 (set pids). length (view s1 q) = 4096"
    using Cons.prems(7) by (simp add: v(4) put_head_def put_next_def length_set_slice)
  have "chain (view t) (head_of (view t)) (rev pids @ pid # fl)"
    by (rule Cons.IH [OF v(1) rest]) (use Cons.prems v(2) ch len in auto)
  then show ?case by simp
qed simp

section \<open>What DROP TABLE collects\<close>

lemma collect_chain_keeps:
  "collect_chain n nxt pids s = Inr out \<Longrightarrow> distinct pids \<Longrightarrow> distinct out \<and> set pids \<subseteq> set out"
proof (induction n arbitrary: nxt pids)
  case 0
  then show ?case by (auto simp: collect_chain.simps [of 0] split: if_splits)
next
  case (Suc n)
  show ?case
  proof (cases "nxt > 0 \<and> nxt \<noteq> NULL_PAGE_ID \<and> nxt \<notin> set pids")
    case False
    then show ?thesis using Suc.prems by (auto simp: collect_chain.simps [of "Suc n"])
  next
    case True
    then obtain raw and ty :: byte where r: "(if ty \<noteq> 2 then Inr pids else collect_chain n (next_overflow raw) (pids @ [nxt]) s) = Inr out"
      using Suc.prems(1) by (auto simp: collect_chain.simps [of "Suc n"])
    show ?thesis
    proof (cases "ty = 2")
      case False
      then show ?thesis using r Suc.prems(2) by simp
    next
      case ty: True
      then have "collect_chain n (next_overflow raw) (pids @ [nxt]) s = Inr out" using r by simp
      from Suc.IH [OF this] True Suc.prems(2) show ?thesis by simp
    qed
  qed
qed

lemma collect_step_keeps:
  "collect_step s pids pid = Inr out \<Longrightarrow> distinct pids \<Longrightarrow>
   distinct out \<and> set pids \<subseteq> set out \<and> (pid \<notin> set (index_pages s) \<longrightarrow> pid \<in> set out)"
  by (auto simp: collect_step_def split: if_splits dest!: collect_chain_keeps)

lemma collect_all:
  "foldE (collect_step s) pids ids = Inr out \<Longrightarrow> distinct pids \<Longrightarrow>
   distinct out \<and> set pids \<subseteq> set out \<and> (\<forall>pid \<in> set ids. pid \<notin> set (index_pages s) \<longrightarrow> pid \<in> set out)"
proof (induction ids arbitrary: pids)
  case (Cons pid ids)
  then obtain mid where 1: "collect_step s pids pid = Inr mid" "foldE (collect_step s) mid ids = Inr out" by auto
  from collect_step_keeps [OF 1(1) Cons.prems(2)] Cons.IH [OF 1(2)] show ?case by auto
qed simp

lemma page_range_set: "pid \<in> set (page_range ti) \<longleftrightarrow> ti_root ti \<le> pid \<and> pid \<le> ti_next ti"
proof
  assume "ti_root ti \<le> pid \<and> pid \<le> ti_next ti"
  then show "pid \<in> set (page_range ti)"
    by (auto simp: page_range_def image_iff intro!: bexI [of _ "nat (pid - ti_root ti)"])
qed (auto simp: page_range_def)

lemma view_updates:
  "view (s\<lparr>x_catalog := c, x_data_pages := d\<rparr>) = view s" "view (s\<lparr>x_indexes := ix\<rparr>) = view s"
  by (auto simp: fun_eq_iff view_def exec_read_page_def split: option.split)

text \<open>
  C22. DROP TABLE of a table without indexed columns puts exactly the pages it collects on the free
  list, in front of those already there, and it collects every page between the first and
  the last page of the table that no index holds, whichever table the page belongs to:
  with tables whose pages interleave it frees the rows of the others.
\<close>

theorem drop_frees_range:
  assumes "x_txn s \<noteq> None" and "catalog_get_table (x_catalog s) name = Some ti" and "indexed_columns ti = []"
    and "ti_root ti \<noteq> 0" and "collect_table_data_pages ti s = Inr pids"
    and "chain (view s) (head_of (view s)) fl" and "set pids \<inter> set fl = {}" and "set pids \<union> set fl \<subseteq> {2..}"
    and "\<forall>q \<in> insert 0 (set pids). length (view s q) = 4096"
    and "exec_drop_table name s = (Inr out, t)"
  shows "chain (view t) (head_of (view t)) (rev pids @ fl) \<and>
    (\<forall>pid. ti_root ti \<le> pid \<and> pid \<le> ti_next ti \<and> pid \<notin> set (index_pages s) \<longrightarrow> pid \<in> set pids)"
proof -
  have c: "distinct pids \<and> (\<forall>pid \<in> set (page_range ti). pid \<notin> set (index_pages s) \<longrightarrow> pid \<in> set pids)"
  proof (cases "ti_next ti < ti_root ti")
    case True
    then show ?thesis using assms(5) by (auto simp: collect_table_data_pages_def page_range_set)
  next
    case False
    then show ?thesis using assms(4,5) collect_all [of s "[]" "page_range ti" pids] by (simp add: collect_table_data_pages_def)
  qed
  obtain s1 s2 s3 where d: "drop_entry name s = (Inr (), s1)" and f: "forS pids exec_free_page s1 = (Inr (), s2)"
    and w: "forget_table name s2 = (Inr (), s3)" "write_catalog s3 = (Inr (), t)"
    using assms(2,3,5,10)
    by (auto simp: exec_drop_table_def need_table_def collect_index_pages_def readS_def bindS_eq_Inr)
  have v1: "view s1 = view s" "x_txn s1 \<noteq> None"
    using d assms(1) by (auto simp: drop_entry_def view_updates split: sum.splits)
  have ch: "chain (view s2) (head_of (view s2)) (rev pids @ fl)"
    by (rule frees_in_view [OF v1(2) f]) (use c assms(6-9) v1(1) in auto)
  have books: "same_books s1 s2" by (rule keepsD [OF books.loop f]) (rule books.free)
  have v3: "view s3 = view s2" "x_txn s3 \<noteq> None"
    using w(1) books v1(2) by (auto simp: forget_table_def view_updates same_books_def)
  obtain b where "exec_write_page 1 b s3 = (Inr (), t)" using w(2) by (auto simp: write_catalog_def bindS_eq_Inr liftE_def)
  from write_in_view(3) [OF v3(2) this] have vt: "view t = (view s2)(1 := b)" by (simp add: v3(1))
  have "chain (view t) (head_of (view t)) (rev pids @ fl)"
  proof -
    have "x \<noteq> 1" if "x \<in> set (rev pids @ fl)" for x using that assms(8) by auto
    then have "chain (view t) h (rev pids @ fl) = chain (view s2) h (rev pids @ fl)" for h
      by (intro chain_cong) (simp add: vt)
    then show ?thesis using ch by (simp add: vt head_of_def)
  qed
  then show ?thesis using c page_range_set by blast
qed

end
