(* ===== verification/Table_Scan.thy ===== *)
theory Table_Scan
  imports Drop_Table "HOL-Library.Multiset"
begin

text \<open>
  What a scan of a table finds, page by page: the rows of a page without long rows, the
  tables made of such pages, and how the scan changes when one page of a table is written anew.
\<close>

section \<open>The rows of one page\<close>

definition slot_hit :: "table_info \<Rightarrow> int \<Rightarrow> slotted_page \<Rightarrow> int \<Rightarrow> scan_row list res" where
  "slot_hit ti pid p sid =
     (case page_rows p sid of
        None \<Rightarrow> Inr []
      | Some b \<Rightarrow> bindE (decode_row b (schema_v2 ti)) (\<lambda>vals. Inr [(sid, vals, pid)]))"

definition page_scan :: "table_info \<Rightarrow> int \<Rightarrow> slotted_page \<Rightarrow> scan_row list res" where
  "page_scan ti pid p = bindE (mapE (slot_hit ti pid p) (range_int (num_slots p))) (\<lambda>parts. Inr (concat parts))"

definition plain_page :: "slotted_page \<Rightarrow> bool" where
  "plain_page p \<longleftrightarrow> page_wf p \<and> page_ok p \<and> list_all (\<lambda>s. \<not> spilled s) (slots p)"

lemma read_plain_slot:
  assumes "plain_page p" and "0 \<le> sid" and "sid < num_slots p"
  shows "read_slot_row_bytes p sid pid s = Inr (page_rows p sid)"
proof -
  have ok: "page_ok p" and n: "num_slots p = int (length (slots p))" using assms(1) by (simp_all add: plain_page_def page_ok_def)
  have k: "nat sid < length (slots p)" using assms(2,3) n by simp
  then have "\<not> spilled (slots p ! nat sid)" using assms(1) by (simp add: plain_page_def list_all_length)
  moreover have "get_item (slots p) sid = Inr (slots p ! nat sid)" using assms(2) k by (simp add: get_item_nonneg)
  moreover have "page_rows p sid = None" if "tombstoned (slots p ! nat sid)"
    using page_rows_ok [OF ok, of sid] that by (simp add: slot_row_def)
  ultimately show ?thesis
    using get_row_page_rows [OF ok, of sid] by (simp add: read_slot_row_bytes_def split: option.split)
qed

lemma scan_plain_slots:
  "plain_page p \<Longrightarrow> \<forall>sid \<in> set sids. 0 \<le> sid \<and> sid < num_slots p \<Longrightarrow>
   scan_slots ti p pid sids s = bindE (mapE (slot_hit ti pid p) sids) (\<lambda>parts. Inr (concat parts))"
proof (induction sids)
  case (Cons sid sids)
  have r: "read_slot_row_bytes p sid pid s = Inr (page_rows p sid)" by (rule read_plain_slot) (use Cons.prems in auto)
  have "scan_slots ti p pid (sid # sids) s = bindE (slot_hit ti pid p sid) (\<lambda>hit. bindE (scan_slots ti p pid sids s) (\<lambda>rest. Inr (hit @ rest)))"
    by (simp add: r slot_hit_def split: option.split)
  also have "scan_slots ti p pid sids s = bindE (mapE (slot_hit ti pid p) sids) (\<lambda>parts. Inr (concat parts))"
    using Cons by simp
  finally show ?case by (simp add: bindE_assoc)
qed simp

definition plain_at :: "exec \<Rightarrow> int \<Rightarrow> slotted_page \<Rightarrow> bool" where
  "plain_at s pid p \<longleftrightarrow>
     pid \<notin> set (index_pages s) \<and> (\<exists>raw. exec_read_page pid s = Inr raw \<and> from_bytes pid raw = Inr p) \<and> plain_page p"

lemma scan_plain_page: "plain_at s pid p \<Longrightarrow> scan_page ti s pid = page_scan ti pid p"
  using scan_plain_slots [of p "range_int (num_slots p)" ti pid s]
  by (auto simp: plain_at_def scan_page_def page_scan_def range_int_def zless_nat_eq_int_zless)

lemma from_bytes_id: "from_bytes pid raw = Inr p \<Longrightarrow> page_id p = pid"
  by (auto simp: from_bytes_def Let_def split: if_splits)

lemma mapE_append: "mapE f (xs @ ys) = bindE (mapE f xs) (\<lambda>a. bindE (mapE f ys) (\<lambda>b. Inr (a @ b)))"
  by (induction xs) (auto simp: bindE_assoc)

text \<open>The rows of a page: their page, and their slots, which are distinct.\<close>

lemma slot_hit_ref: "slot_hit ti pid p sid = Inr part \<Longrightarrow> r \<in> set part \<Longrightarrow> fst r = sid \<and> snd (snd r) = pid"
  by (auto simp: slot_hit_def bindE_eq_Inr split: option.splits)

lemma slot_hit_one: "slot_hit ti pid p sid = Inr part \<Longrightarrow> length part \<le> 1"
  by (auto simp: slot_hit_def bindE_eq_Inr split: option.splits)

lemma slot_hits_refs:
  assumes "mapE (slot_hit ti pid p) sids = Inr parts" and "distinct sids"
  shows "set (map fst (concat parts)) \<subseteq> set sids \<and> distinct (map fst (concat parts)) \<and> (\<forall>r \<in> set (concat parts). snd (snd r) = pid)"
  using assms
proof (induction sids arbitrary: parts)
  case (Cons sid sids)
  then obtain part parts' where p: "slot_hit ti pid p sid = Inr part" "mapE (slot_hit ti pid p) sids = Inr parts'" "parts = part # parts'"
    by auto
  have "distinct (map fst part)" using slot_hit_one [OF p(1)] by (cases part) auto
  moreover have s: "set (map fst part) \<subseteq> {sid}" "\<forall>r \<in> set part. snd (snd r) = pid" using slot_hit_ref [OF p(1)] by auto
  have ih: "set (map fst (concat parts')) \<subseteq> set sids" "distinct (map fst (concat parts'))" "\<forall>r \<in> set (concat parts'). snd (snd r) = pid"
    using Cons.IH [OF p(2)] Cons.prems(2) by simp_all
  moreover have "set (map fst part) \<inter> set (map fst (concat parts')) = {}" using s(1) ih(1) Cons.prems(2) by fastforce
  moreover have "map fst (concat parts) = map fst part @ map fst (concat parts')" by (simp add: p(3))
  moreover have "set (concat parts) = set part \<union> set (concat parts')" by (simp add: p(3))
  ultimately show ?case using s by (auto simp del: concat.simps set_concat set_map map_concat)
qed simp

lemma distinct_range: "distinct (range_int n)"
  by (simp add: range_int_def distinct_map)

lemma page_scan_refs:
  assumes "page_scan ti pid p = Inr xs"
  shows "distinct (map fst xs)" and "\<forall>r \<in> set xs. snd (snd r) = pid \<and> 0 \<le> fst r \<and> fst r < num_slots p"
proof -
  obtain parts where parts: "mapE (slot_hit ti pid p) (range_int (num_slots p)) = Inr parts" "xs = concat parts"
    using assms by (auto simp: page_scan_def)
  note h = slot_hits_refs [OF parts(1) distinct_range]
  then show "distinct (map fst xs)" by (simp add: parts(2))
  have "\<forall>i \<in> set (range_int (num_slots p)). 0 \<le> i \<and> i < num_slots p" by (auto simp: range_int_def)
  then show "\<forall>r \<in> set xs. snd (snd r) = pid \<and> 0 \<le> fst r \<and> fst r < num_slots p"
    using h unfolding parts(2) by force
qed

section \<open>The pages of the table\<close>

text \<open>
  A table whose pages are in use, well formed and without long rows, in a transaction whose
  buffer holds pages in use, the header and the catalog.
\<close>

definition plain_table :: "exec \<Rightarrow> table_info \<Rightarrow> int list \<Rightarrow> bool" where
  "plain_table s ti pids \<longleftrightarrow>
     map_of (x_data_pages s) (ti_name ti) = Some pids \<and> distinct pids \<and>
     (\<forall>pid \<in> set pids. pages_in_use (x_pager s) pid \<noteq> None \<and> (\<exists>p. plain_at s pid p))"

definition buffer_used :: "exec \<Rightarrow> bool" where
  "buffer_used s \<longleftrightarrow>
     (\<forall>q. map_of (x_buffer s) q \<noteq> None \<longrightarrow> q = 0 \<or> q = 1 \<or> pages_in_use (x_pager s) q \<noteq> None)"

definition same_tables :: "exec \<Rightarrow> exec \<Rightarrow> bool" where
  "same_tables s t \<longleftrightarrow>
     x_catalog t = x_catalog s \<and> x_indexes t = x_indexes s \<and> x_wrappers t = x_wrappers s \<and> x_data_pages t = x_data_pages s"

lemma write_tables: "exec_write_page pid d s = (r, t) \<Longrightarrow> same_tables s t"
  by (auto simp: exec_write_page_def on_exec_pager_def on_txn_def same_tables_def bindS_def
      split: if_splits prod.splits option.splits sum.splits)

lemma same_tables_pages: "same_tables s t \<Longrightarrow> index_pages t = index_pages s"
  by (simp add: same_tables_def index_pages_def)

lemma plain_at_cong:
  "plain_at s pid p \<Longrightarrow> exec_read_page pid t = exec_read_page pid s \<Longrightarrow> index_pages t = index_pages s \<Longrightarrow> plain_at t pid p"
  by (simp add: plain_at_def)

lemma plain_at_unique: "plain_at s pid p \<Longrightarrow> plain_at s pid p' \<Longrightarrow> p' = p"
  by (auto simp: plain_at_def)

lemma scan_table_pages:
  "map_of (x_data_pages s) (ti_name ti) = Some pids \<Longrightarrow>
   scan_table ti s = bindE (mapE (scan_page ti s) pids) (\<lambda>parts. Inr (concat parts))"
  by (simp add: scan_table_def table_pages_def)

text \<open>The page written is plain again, and holds one row more.\<close>

section \<open>One page written anew\<close>

lemma page_stored:
  assumes "plain_page p'" and "page_id p' = pid" and "to_bytes p' = Inr b" and "exec_write_page pid b s = (Inr (), t)"
    and "x_txn s \<noteq> None" and "pid \<notin> set (index_pages s)"
  shows "plain_at t pid p'"
proof -
  have "b = page_image p'" using assms(1,3) to_bytes_image [of p'] by (simp add: plain_page_def)
  then have "from_bytes pid b = Inr p'" using from_bytes_image [of p'] assms(1,2) by (simp add: plain_page_def)
  then show ?thesis
    using assms(1,6) write_in_view(2) [OF assms(5,4), of pid] same_tables_pages [OF write_tables [OF assms(4)]]
    by (simp add: plain_at_def)
qed

text \<open>
  The scan of a table, before and after one of its pages is written: the rows of the other pages
  stay, in their places.
\<close>

lemma parts_pages:
  assumes "plain_table s ti pids" and "mapE (scan_page ti s) qs = Inr cs" and "set qs \<subseteq> set pids"
  shows "\<forall>r \<in> set (concat cs). snd (snd r) \<in> set qs"
  using assms(2,3)
proof (induction qs arbitrary: cs)
  case (Cons q qs)
  obtain pq where "plain_at s q pq" using assms(1) Cons.prems(2) by (auto simp: plain_table_def)
  then obtain c cs' where c: "page_scan ti q pq = Inr c" "mapE (scan_page ti s) qs = Inr cs'" "cs = c # cs'"
    using Cons.prems(1) scan_plain_page by auto
  then show ?case using page_scan_refs(2) [OF c(1)] Cons.IH [OF c(2)] Cons.prems(2) by auto
qed simp

lemma scan_row_page:
  assumes "plain_table s ti pids" and "scan_table ti s = Inr rows" and "r \<in> set rows"
  shows "snd (snd r) \<in> set pids"
proof -
  have m: "map_of (x_data_pages s) (ti_name ti) = Some pids" using assms(1) by (simp add: plain_table_def)
  then show ?thesis using assms(2,3) parts_pages [OF assms(1), of pids] by (auto simp: scan_table_pages)
qed

lemma page_scanned:
  assumes "plain_table s ti pids" and "scan_table ti s = Inr rows" and "pid \<in> set pids" and "plain_at s pid p"
  shows "\<exists>xs. page_scan ti pid p = Inr xs \<and> (\<forall>r \<in> set rows. snd (snd r) = pid \<longrightarrow> r \<in> set xs)"
proof -
  have m: "map_of (x_data_pages s) (ti_name ti) = Some pids" "distinct pids" using assms(1) by (simp_all add: plain_table_def)
  obtain as bs where pids: "pids = as @ pid # bs" using assms(3) by (auto simp: in_set_conv_decomp)
  obtain A xs B where parts: "mapE (scan_page ti s) as = Inr A" "scan_page ti s pid = Inr xs" "mapE (scan_page ti s) bs = Inr B"
    and rows: "rows = concat A @ xs @ concat B"
    using assms(2) by (auto simp: scan_table_pages [OF m(1)] pids mapE_append)
  have "\<forall>r \<in> set (concat A) \<union> set (concat B). snd (snd r) \<noteq> pid"
    using parts_pages [OF assms(1) parts(1)] parts_pages [OF assms(1) parts(3)] m(2) pids by fastforce
  then show ?thesis using parts(2) scan_plain_page [OF assms(4)] rows by (intro exI [of _ xs]) fastforce
qed

lemma page_rewritten:
  assumes "plain_table s ti pids" and "scan_table ti s = Inr rows" and "pid \<in> set pids" and "plain_at s pid p"
    and "plain_page p'" and "page_id p' = pid" and "to_bytes p' = Inr b" and "exec_write_page pid b s = (Inr (), t)"
    and "x_txn s \<noteq> None" and "page_scan ti pid p' = Inr ys"
  obtains pre xs post where "page_scan ti pid p = Inr xs" and "rows = pre @ xs @ post" and "scan_table ti t = Inr (pre @ ys @ post)"
    and "\<forall>r \<in> set (pre @ post). snd (snd r) \<noteq> pid" and "plain_table t ti pids" and "plain_at t pid p'" and "x_txn t \<noteq> None"
    and "\<And>q pq. plain_at s q pq \<Longrightarrow> q \<noteq> pid \<Longrightarrow> plain_at t q pq"
proof -
  have out: "pid \<notin> set (index_pages s)" using assms(4) by (simp add: plain_at_def)
  have at: "plain_at t pid p'" by (rule page_stored [OF assms(5-9) out])
  have st: "same_tables s t" by (rule write_tables [OF assms(8)])
  note v = write_in_view [OF assms(9,8)]
  have other: "exec_read_page q t = exec_read_page q s" if "q \<noteq> pid" for q using v(2) [of q] that by simp
  have use: "pages_in_use (x_pager t) = pages_in_use (x_pager s)" using only_log_use(1) [OF v(4)] .
  have keep: "plain_at t q pq" if "plain_at s q pq" "q \<noteq> pid" for q pq
    by (rule plain_at_cong [OF that(1) other [OF that(2)] same_tables_pages [OF st]])
  have each: "\<exists>pq. plain_at s q pq" if "q \<in> set pids" for q using assms(1) that by (auto simp: plain_table_def)
  have "\<exists>pq. plain_at t q pq" if "q \<in> set pids" for q using each [OF that] keep at by blast
  then have tab: "plain_table t ti pids" using assms(1) st use by (simp add: plain_table_def same_tables_def)
  have maps: "map_of (x_data_pages s) (ti_name ti) = Some pids" "map_of (x_data_pages t) (ti_name ti) = Some pids" "distinct pids"
    using assms(1) tab by (simp_all add: plain_table_def)
  have same: "scan_page ti t q = scan_page ti s q" if q: "q \<in> set pids" "q \<noteq> pid" for q
    using each [OF q(1)] keep [OF _ q(2)] scan_plain_page by metis
  obtain as bs where pids: "pids = as @ pid # bs" using assms(3) by (auto simp: in_set_conv_decomp)
  have ne: "pid \<notin> set as" "pid \<notin> set bs" using maps(3) pids by auto
  have eqs: "mapE (scan_page ti t) as = mapE (scan_page ti s) as" "mapE (scan_page ti t) bs = mapE (scan_page ti s) bs"
    using same ne pids by (auto intro!: mapE_cong)
  obtain A xs B where parts: "mapE (scan_page ti s) as = Inr A" "scan_page ti s pid = Inr xs" "mapE (scan_page ti s) bs = Inr B"
    and rows: "rows = concat A @ xs @ concat B"
    using assms(2) by (auto simp: scan_table_pages [OF maps(1)] pids mapE_append)
  have "scan_table ti t = Inr (concat A @ ys @ concat B)"
    using parts eqs scan_plain_page [OF at] assms(10) by (simp add: scan_table_pages [OF maps(2)] pids mapE_append)
  moreover have "\<forall>r \<in> set (concat A @ concat B). snd (snd r) \<noteq> pid"
    using parts_pages [OF assms(1) parts(1)] parts_pages [OF assms(1) parts(3)] ne pids by fastforce
  moreover have "page_scan ti pid p = Inr xs" using parts(2) scan_plain_page [OF assms(4)] by simp
  ultimately show ?thesis using that rows tab at v(1) keep by blast
qed

end
