(* ===== verification/Insert_Scan.thy ===== *)
theory Insert_Scan
  imports Table_Scan
begin

text \<open>
  A row inserted is a row scanned: storing a row that fits one page adds exactly that
  row to what a scan of the table finds, on a page of the table or on a new one.
\<close>

section \<open>One more row\<close>

lemma range_int_snoc: "range_int (int n + 1) = range_int (int n) @ [int n]"
proof -
  have "int n + 1 = int (Suc n)" by simp
  then show ?thesis by (simp only: range_int_def nat_int) simp
qed

lemma mapE_update:
  "mapE f xs = Inr ys \<Longrightarrow> k < length xs \<Longrightarrow> (\<And>j. j < length xs \<Longrightarrow> j \<noteq> k \<Longrightarrow> g (xs ! j) = f (xs ! j)) \<Longrightarrow>
   g (xs ! k) = Inr z \<Longrightarrow> mapE g xs = Inr (ys[k := z])"
proof (induction xs arbitrary: ys k)
  case (Cons x xs)
  obtain y zs where y: "f x = Inr y" "mapE f xs = Inr zs" "ys = y # zs" using Cons.prems(1) by auto
  show ?case
  proof (cases k)
    case 0
    have "mapE g xs = mapE f xs"
    proof (rule mapE_cong [OF refl])
      fix a assume "a \<in> set xs"
      then obtain j where "j < length xs" "a = xs ! j" by (auto simp: in_set_conv_nth)
      then show "g a = f a" using Cons.prems(3) [of "Suc j"] 0 by simp
    qed
    then show ?thesis using y Cons.prems(4) 0 by simp
  next
    case (Suc j)
    have "g x = f x" using Cons.prems(3) [of 0] Suc by simp
    moreover have "mapE g xs = Inr (zs[j := z])"
      using Cons.IH [OF y(2), of j] Cons.prems(2,4) Cons.prems(3) [of "Suc _"] Suc by simp
    ultimately show ?thesis using y Suc by simp
  qed
qed simp

lemma mset_concat_update: "k < length ys \<Longrightarrow> mset (concat (ys[k := z])) + mset (ys ! k) = mset (concat ys) + mset z"
proof (induction ys arbitrary: k)
  case (Cons y ys)
  then show ?case by (cases k) (simp_all add: union_ac)
qed simp

lemma page_scan_insert:
  assumes "page_ok p" and "insert_row p row = Inr (sid, p')"
    and "page_scan ti pid p = Inr rows" and "decode_row row (schema_v2 ti) = Inr vals"
  shows "\<exists>rows'. page_scan ti pid p' = Inr rows' \<and> mset rows' = mset rows + {#(sid, vals, pid)#}"
proof -
  note r = insert_row_refines [OF assms(1,2)]
  obtain parts where parts: "mapE (slot_hit ti pid p) (range_int (num_slots p)) = Inr parts" "rows = concat parts"
    using assms(3) by (auto simp: page_scan_def)
  have n: "num_slots p = int (length (slots p))" using assms(1) by (simp add: page_ok_def)
  have other: "slot_hit ti pid p' j = slot_hit ti pid p j" if "j \<noteq> sid" for j
    using that by (simp add: slot_hit_def r(3))
  have hit: "slot_hit ti pid p' sid = Inr [(sid, vals, pid)]" using assms(4) by (simp add: slot_hit_def r(3))
  from assms(1,2) show ?thesis
  proof (cases rule: insert_row_cases)
    case (reuse k)
    have k: "k < length (range_int (num_slots p))" "range_int (num_slots p) ! k = sid"
      using reuse(1,2) n by (simp_all add: range_int_def)
    have "mapE (slot_hit ti pid p') (range_int (num_slots p)) = Inr (parts[k := [(sid, vals, pid)]])"
    proof (rule mapE_update [OF parts(1) k(1)])
      fix j assume "j < length (range_int (num_slots p))" "j \<noteq> k"
      then show "slot_hit ti pid p' (range_int (num_slots p) ! j) = slot_hit ti pid p (range_int (num_slots p) ! j)"
        using reuse(1) n by (intro other) (simp add: range_int_def)
    qed (simp add: k(2) hit)
    moreover have "parts ! k = []"
      using mapE_Inr_nth [OF parts(1) k(1)] r(2) by (simp add: k(2) slot_hit_def)
    moreover have "k < length parts" using k(1) mapE_Inr_length [OF parts(1)] by simp
    moreover have "num_slots p' = num_slots p" using reuse by simp
    ultimately show ?thesis
      using mset_concat_update [of k parts "[(sid, vals, pid)]"] parts(2) by (simp add: page_scan_def)
  next
    case fresh
    have "range_int (num_slots p') = range_int (num_slots p) @ [sid]"
      using fresh(1,4) n range_int_snoc [of "length (slots p)"] by simp
    moreover have "mapE (slot_hit ti pid p') (range_int (num_slots p)) = mapE (slot_hit ti pid p) (range_int (num_slots p))"
      by (rule mapE_cong [OF refl]) (use fresh(1) n in \<open>auto simp: range_int_def intro!: other\<close>)
    ultimately show ?thesis using parts hit by (simp add: page_scan_def mapE_append)
  qed
qed

section \<open>The page that takes the row\<close>

definition room_for :: "slotted_page \<Rightarrow> byte list \<Rightarrow> bool" where
  "room_for p row \<longleftrightarrow>
     (\<forall>i p'. insert_row p row = Inr (i, p') \<longrightarrow>
        py_len row + (if i = num_slots p then SLOT_SIZE else 0) \<le> free_space p)"

lemma plain_insert:
  assumes "plain_page p" and "insert_row p row = Inr (sid, p')" and "room_for p row"
  shows "plain_page p'" and "page_id p' = page_id p"
proof -
  have p: "page_wf p" "page_ok p" "list_all (\<lambda>s. \<not> spilled s) (slots p)" using assms(1) by (simp_all add: plain_page_def)
  have wf: "page_wf p'" using insert_row_wf [OF p(1,2) assms(2)] assms(2,3) by (simp add: room_for_def)
  have t: "\<not> spilled (tail_slot (data p) row)" by (simp add: tail_slot_def spilled_def)
  from p(2) assms(2) have "page_id p' = page_id p \<and> list_all (\<lambda>s. \<not> spilled s) (slots p')"
    by (cases rule: insert_row_cases) (use p(3) t in \<open>simp_all add: list_all_update\<close>)
  then show "plain_page p'" "page_id p' = page_id p"
    using wf insert_row_refines(1) [OF p(2) assms(2)] by (simp_all add: plain_page_def)
qed

lemma try_pages_result:
  assumes "try_pages ix pids row s = (Inr hit, t)"
  shows "(hit = None \<and> t = s) \<or>
    (\<exists>pid sid raw p p' b. hit = Some (pid, sid) \<and> pid \<in> set pids \<and> pid \<notin> set ix \<and> exec_read_page pid s = Inr raw \<and>
      from_bytes pid raw = Inr p \<and> insert_row p row = Inr (sid, p') \<and> to_bytes p' = Inr b \<and>
      exec_write_page pid b s = (Inr (), t))"
  using assms
proof (induction pids)
  case (Cons pid pids)
  show ?case
  proof (cases "pid \<in> set ix")
    case True
    then show ?thesis using Cons by auto
  next
    case False
    then obtain raw p where rd: "exec_read_page pid s = Inr raw" "from_bytes pid raw = Inr p"
      and step: "(case insert_row p row of
          Inl e \<Rightarrow> if e = PageFull then try_pages ix pids row else raiseS e
        | Inr (sid, page') \<Rightarrow> bindS (store_page pid page') (\<lambda>_. returnS (Some (pid, sid)))) s = (Inr hit, t)"
      using Cons.prems by (auto simp: load_page_def read_pageS_def liftE_def bindS_eq_Inr)
    show ?thesis
    proof (cases "insert_row p row")
      case (Inl e)
      then have "try_pages ix pids row s = (Inr hit, t)" using step by (simp split: if_splits)
      then show ?thesis using Cons.IH by auto
    next
      case (Inr r)
      obtain sid p' where r: "r = (sid, p')" by force
      then obtain b where "to_bytes p' = Inr b" "exec_write_page pid b s = (Inr (), t)" "hit = Some (pid, sid)"
        using step Inr by (auto simp: store_page_def liftE_def bindS_eq_Inr)
      then show ?thesis using rd Inr r False by fastforce
    qed
  qed
qed simp


text \<open>What the insertion of a row leaves: the row is where its reference says, and the scan has it.\<close>

definition row_added :: "table_info \<Rightarrow> pyval list \<Rightarrow> int \<times> int \<Rightarrow> scan_row list \<Rightarrow> exec \<Rightarrow> bool" where
  "row_added ti vals ref rows t \<longleftrightarrow>
     (\<exists>pids rows' p b. plain_table t ti pids \<and> scan_table ti t = Inr rows' \<and>
        mset rows' = mset rows + {#(snd ref, vals, fst ref)#} \<and>
        plain_at t (fst ref) p \<and> page_rows p (snd ref) = Some b \<and> decode_row b (schema_v2 ti) = Inr vals)"

lemma row_on_page:
  assumes "plain_table s ti pids" and "scan_table ti s = Inr rows" and "pid \<in> set pids" and "plain_at s pid p"
    and "insert_row p row = Inr (sid, p')" and "room_for p row" and "to_bytes p' = Inr b"
    and "exec_write_page pid b s = (Inr (), t)" and "x_txn s \<noteq> None" and "decode_row row (schema_v2 ti) = Inr vals"
  shows "row_added ti vals (pid, sid) rows t"
proof -
  have pl: "plain_page p" "page_id p = pid" using assms(4) from_bytes_id by (auto simp: plain_at_def)
  have ok: "page_ok p" using pl(1) by (simp add: plain_page_def)
  have p': "plain_page p'" "page_id p' = pid" using plain_insert [OF pl(1) assms(5,6)] pl(2) by simp_all
  obtain xs where xs: "page_scan ti pid p = Inr xs" using page_scanned [OF assms(1-4)] by blast
  obtain ys where ys: "page_scan ti pid p' = Inr ys" "mset ys = mset xs + {#(sid, vals, pid)#}"
    using page_scan_insert [OF ok assms(5) xs assms(10)] by blast
  obtain pre xs' post where "page_scan ti pid p = Inr xs'" "rows = pre @ xs' @ post" "scan_table ti t = Inr (pre @ ys @ post)"
    "plain_table t ti pids" "plain_at t pid p'"
    by (rule page_rewritten [OF assms(1-4) p' assms(7-9) ys(1)])
  moreover have "page_rows p' sid = Some row" using insert_row_refines(3) [OF ok assms(5)] by simp
  ultimately show ?thesis using xs ys(2) assms(10) by (force simp: row_added_def)
qed

section \<open>A new page\<close>

text \<open>A page just allocated reads as an empty page without a free offset, which insertion sets.\<close>

definition new_page :: "int \<Rightarrow> slotted_page" where
  "new_page pid = (empty_page pid)\<lparr>overflow_next := 0\<rparr>"

lemma new_page_plain: "plain_page (new_page pid)" "page_rows (new_page pid) = (\<lambda>_. None)" "num_slots (new_page pid) = 0"
  "page_id (new_page pid) = pid"
proof -
  have ok: "page_ok (new_page pid)" by (simp add: new_page_def page_ok_def empty_page_def)
  show "plain_page (new_page pid)"
    using ok by (simp add: plain_page_def new_page_def page_wf_def empty_page_def free_space_def)
  show n: "num_slots (new_page pid) = 0" by (simp add: new_page_def empty_page_def)
  show "page_rows (new_page pid) = (\<lambda>_. None)" by (rule ext) (auto simp: page_rows_ok [OF ok] n)
qed (simp add: new_page_def empty_page_def)

lemma from_bytes_zero: "from_bytes pid zero_page = Inr ((new_page pid)\<lparr>free_offset := 0\<rparr>)"
proof -
  have z: "be_int (replicate n (0 :: byte)) = 0" for n
    by (induction n) (simp_all add: be_int_def)
  have sl: "slice zero_page a b = replicate (min (nat b - nat a) (4096 - nat a)) 0" if "0 \<le> a" "0 \<le> b" for a b
    using that by (simp add: slice_nonneg zero_page_def min_def)
  have "get_item zero_page 1 = Inr 0" by (simp add: get_item_nonneg zero_page_def)
  then show ?thesis
    by (simp add: from_bytes_def sl z range_int_def new_page_def empty_page_def zero_page_def [symmetric] Let_def)
qed

lemma insert_new_page:
  assumes "insert_row ((new_page pid)\<lparr>free_offset := 0\<rparr>) row = Inr (sid, p')"
  shows "insert_row (new_page pid) row = Inr (sid, p')"
  using assms by (auto simp: insert_row_def new_page_def empty_page_def slice_to_nonneg free_space_def append_into_data_def Let_def split: if_splits)

lemma new_page_room: "py_len row \<le> CHUNK_SIZE \<Longrightarrow> room_for (new_page pid) row"
  by (simp add: room_for_def new_page_def empty_page_def free_space_def)

lemma row_on_new_page:
  assumes "plain_table s ti pids" and "scan_table ti s = Inr rows" and "buffer_used s" and "pager_inv (x_pager s)"
    and "has_room (x_pager s)" and "x_txn s \<noteq> None" and "py_len row \<le> CHUNK_SIZE"
    and "alloc_page (x_pager s) = (Inr pid, q)" and "pid \<notin> set (index_pages s)"
    and "s2 = s\<lparr>x_pager := q, x_data_pages := AList.update (ti_name ti) (pids @ [pid]) (x_data_pages s), x_catalog := c\<rparr>"
    and "exec_write_page 1 d s2 = (Inr (), s3)" and "exec_read_page pid s3 = Inr raw" and "from_bytes pid raw = Inr p"
    and "insert_row p row = Inr (sid, p')" and "to_bytes p' = Inr b" and "exec_write_page pid b s3 = (Inr (), t)"
    and "decode_row row (schema_v2 ti) = Inr vals"
  shows "row_added ti vals (pid, sid) rows t"
proof -
  obtain i where "Inr pid = (Inr i :: int res)" and inv: "pager_inv q" and "pages_in_use (x_pager s) i = None"
    and "pages_in_use q = (pages_in_use (x_pager s))(i \<mapsto> zero_page)"
    by (rule alloc_use [OF assms(4,5,8)])
  then have new: "pages_in_use (x_pager s) pid = None" and use: "pages_in_use q = (pages_in_use (x_pager s))(pid \<mapsto> zero_page)"
    by simp_all
  have "2 \<le> pid"
  proof -
    have "pages_in_use q pid \<noteq> None" by (simp add: use)
    then show ?thesis by (simp add: pages_in_use_def split: if_splits)
  qed
  then have nb: "map_of (x_buffer s) pid = None" using assms(3) new by (auto simp: buffer_used_def)
  have x2: "x_txn s2 \<noteq> None" using assms(6,10) by simp
  note v3 = write_in_view [OF x2 assms(11)]
  have rd2: "exec_read_page r s2 = exec_read_page r s" if "pages_in_use (x_pager s) r \<noteq> None" for r
  proof -
    have "r \<noteq> pid" using that new by auto
    then show ?thesis
      using read_alloc [OF assms(4) inv, of r] use that by (simp add: exec_read_page_def assms(10) split: option.split)
  qed
  have rd: "exec_read_page r t = exec_read_page r s" if "pages_in_use (x_pager s) r \<noteq> None" for r
  proof -
    have "r \<noteq> pid" "r \<noteq> 1" using that new by (auto simp: pages_in_use_def split: if_splits)
    then show ?thesis using write_in_view(2) [OF v3(1) assms(16), of r] v3(2) [of r] rd2 [OF that] by simp
  qed
  have "raw = zero_page"
  proof -
    have "exec_read_page pid s3 = exec_read_page pid s2" using v3(2) [of pid] \<open>2 \<le> pid\<close> by simp
    also have "\<dots> = Inr zero_page"
      using nb pager_pages.read_law [OF inv, of pid zero_page] use by (simp add: exec_read_page_def assms(10))
    finally show ?thesis using assms(12) by simp
  qed
  then have p: "p = (new_page pid)\<lparr>free_offset := 0\<rparr>" using assms(13) from_bytes_zero by simp
  then have ins: "insert_row (new_page pid) row = Inr (sid, p')" using assms(14) insert_new_page by simp
  have st: "same_tables s2 t"
    using write_tables [OF assms(11)] write_tables [OF assms(16)] by (simp add: same_tables_def)
  have ix: "index_pages t = index_pages s" using same_tables_pages [OF st] by (simp add: assms(10) index_pages_def)
  have ix3: "index_pages s3 = index_pages s"
    using same_tables_pages [OF write_tables [OF assms(11)]] by (simp add: assms(10) index_pages_def)
  have at: "plain_at t pid p'"
    by (rule page_stored [OF _ _ assms(15,16) v3(1)])
      (use plain_insert [OF new_page_plain(1) ins new_page_room [OF assms(7)]] in \<open>simp_all add: ix3 assms(9) new_page_plain(4)\<close>)
  have keep: "plain_at t r pr" if "plain_at s r pr" "pages_in_use (x_pager s) r \<noteq> None" for r pr
    by (rule plain_at_cong [OF that(1) rd [OF that(2)] ix])
  have log: "pages_in_use (x_pager t) = pages_in_use q"
    using only_log_use(1) [OF v3(4)] only_log_use(1) [OF write_in_view(4) [OF v3(1) assms(16)]] by (simp add: assms(10))
  have "pid \<notin> set pids" using assms(1) new by (auto simp: plain_table_def)
  then have tab: "plain_table t ti (pids @ [pid])"
    using assms(1) st at keep use by (fastforce simp: plain_table_def same_tables_def log assms(10))
  have maps: "map_of (x_data_pages s) (ti_name ti) = Some pids" "map_of (x_data_pages t) (ti_name ti) = Some (pids @ [pid])"
    using assms(1) tab by (simp_all add: plain_table_def)
  obtain parts where parts: "mapE (scan_page ti s) pids = Inr parts" "rows = concat parts"
    using assms(2) by (auto simp: scan_table_pages [OF maps(1)])
  have "mapE (scan_page ti t) pids = mapE (scan_page ti s) pids"
  proof (rule mapE_cong [OF refl])
    fix r assume "r \<in> set pids"
    then obtain pr where "plain_at s r pr" "pages_in_use (x_pager s) r \<noteq> None" using assms(1) by (auto simp: plain_table_def)
    then show "scan_page ti t r = scan_page ti s r" using scan_plain_page keep by metis
  qed
  moreover have "page_scan ti pid (new_page pid) = Inr []"
    by (simp add: page_scan_def new_page_plain(3) range_int_def)
  with page_scan_insert [OF _ ins this assms(17)] new_page_plain(1) obtain ys where
    "page_scan ti pid p' = Inr ys" "mset ys = {#(sid, vals, pid)#}" by (auto simp: plain_page_def)
  ultimately have "scan_table ti t = Inr (rows @ ys)" "mset ys = {#(sid, vals, pid)#}"
    using parts scan_plain_page [OF at] by (simp_all add: scan_table_pages [OF maps(2)] mapE_append)
  moreover have "page_rows p' sid = Some row" using insert_row_refines(3) [OF _ ins] new_page_plain(1) by (simp add: plain_page_def)
  ultimately show ?thesis using tab at assms(17) by (force simp: row_added_def)
qed

section \<open>INSERT\<close>

text \<open>Where the row goes: a page of the table that takes it, or a new page, entered in the catalog.\<close>

lemma inline_cases:
  assumes "insert_inline_only ti row s = (Inr ref, t)" and "map_of (x_data_pages s) (ti_name ti) = Some pids"
    and "pager_inv (x_pager s)" and "has_room (x_pager t)"
  obtains (old) pid sid raw p p' b where "ref = (pid, sid)" and "pid \<in> set pids" and "pid \<notin> set (index_pages s)"
      and "exec_read_page pid s = Inr raw" and "from_bytes pid raw = Inr p" and "insert_row p row = Inr (sid, p')"
      and "to_bytes p' = Inr b" and "exec_write_page pid b s = (Inr (), t)"
    | (new) pid sid q s2 d s3 raw p p' b where "ref = (pid, sid)" and "pid \<notin> set (index_pages s)" and "has_room (x_pager s)"
      and "alloc_page (x_pager s) = (Inr pid, q)"
      and "s2 = s\<lparr>x_pager := q, x_data_pages := AList.update (ti_name ti) (pids @ [pid]) (x_data_pages s),
         x_catalog := map (\<lambda>(n, t). (n, if n = ti_name ti then t\<lparr>ti_next := pid\<rparr> else t)) (x_catalog s)\<rparr>"
      and "catalog_to_bytes (x_catalog s2) = Inr d" and "exec_write_page 1 d s2 = (Inr (), s3)"
      and "exec_read_page pid s3 = Inr raw" and "from_bytes pid raw = Inr p"
      and "insert_row p row = Inr (sid, p')" and "to_bytes p' = Inr b" and "exec_write_page pid b s3 = (Inr (), t)"
proof -
  have same: "s\<lparr>x_data_pages := dict_setdefault (ti_name ti) [ti_root ti] (x_data_pages s)\<rparr> = s"
    using assms(2) by (simp add: dict_setdefault_def)
  obtain hit s1 where hit: "try_pages (index_pages s) pids row s = (Inr hit, s1)"
    and rest: "(case hit of Some ref \<Rightarrow> returnS ref
     | None \<Rightarrow>
         bindS (getS alloc_fuel) (\<lambda>fuel.
         bindS (alloc_data_page fuel (index_pages s)) (\<lambda>new_pid.
         bindS (modifyS (\<lambda>s. s\<lparr>x_data_pages := AList.update (ti_name ti) (pids @ [new_pid]) (x_data_pages s),
            x_catalog := map (\<lambda>(n, t). (n, if n = ti_name ti then t\<lparr>ti_next := new_pid\<rparr> else t)) (x_catalog s)\<rparr>)) (\<lambda>_.
         bindS write_catalog (\<lambda>_.
         bindS (load_page new_pid) (\<lambda>page.
         bindS (liftE (insert_row page row)) (\<lambda>(sid, page').
         bindS (store_page new_pid page') (\<lambda>_.
         returnS (new_pid, sid))))))))) s1 = (Inr ref, t)"
    using assms(1,2) by (auto simp: insert_inline_only_def same bindS_eq_Inr)
  have grow: "next_page_id (x_pager s) \<le> next_page_id (x_pager t)"
    using keepsD [OF used.inline assms(1)] by (simp add: in_txn_use_def next_grows_def)
  consider (no) "hit = None" "s1 = s"
    | (yes) pid sid raw p p' b where "hit = Some (pid, sid)" "pid \<in> set pids" "pid \<notin> set (index_pages s)"
      "exec_read_page pid s = Inr raw" "from_bytes pid raw = Inr p" "insert_row p row = Inr (sid, p')" "to_bytes p' = Inr b"
      "exec_write_page pid b s = (Inr (), s1)"
    using try_pages_result [OF hit] by blast
  then show ?thesis
  proof cases
    case yes
    have "t = s1" "ref = (pid, sid)" using rest yes(1) by simp_all
    then show ?thesis using yes by (intro old) simp_all
  next
    case no
    obtain pid sa where al: "alloc_data_page (alloc_fuel s) (index_pages s) s = (Inr pid, sa)"
      and rest2: "bindS write_catalog (\<lambda>_.
         bindS (load_page pid) (\<lambda>page.
         bindS (liftE (insert_row page row)) (\<lambda>(sid, page').
         bindS (store_page pid page') (\<lambda>_.
         returnS (pid, sid)))))
         (sa\<lparr>x_data_pages := AList.update (ti_name ti) (pids @ [pid]) (x_data_pages sa),
            x_catalog := map (\<lambda>(n, t). (n, if n = ti_name ti then t\<lparr>ti_next := pid\<rparr> else t)) (x_catalog sa)\<rparr>) = (Inr ref, t)"
      using rest no by (auto simp: bindS_eq_Inr)
    have room: "has_room (x_pager s)" using grow assms(4) by (simp add: has_room_def)
    from alloc_data_page_result [OF al assms(3) room] obtain q where
      new_pid: "pid \<notin> set (index_pages s)" and q: "alloc_page (x_pager s) = (Inr pid, q)" and sa: "sa = s\<lparr>x_pager := q\<rparr>" by blast
    define s2 where "s2 = s\<lparr>x_pager := q, x_data_pages := AList.update (ti_name ti) (pids @ [pid]) (x_data_pages s),
       x_catalog := map (\<lambda>(n, t). (n, if n = ti_name ti then t\<lparr>ti_next := pid\<rparr> else t)) (x_catalog s)\<rparr>"
    from rest2 obtain d s3 raw p sid p' b where
      w: "catalog_to_bytes (x_catalog s2) = Inr d" "exec_write_page 1 d s2 = (Inr (), s3)" "exec_read_page pid s3 = Inr raw" "from_bytes pid raw = Inr p"
        "insert_row p row = Inr (sid, p')" "to_bytes p' = Inr b" "exec_write_page pid b s3 = (Inr (), t)" and ref: "ref = (pid, sid)"
      unfolding sa s2_def by (auto simp: write_catalog_def load_page_def store_page_def read_pageS_def liftE_def bindS_eq_Inr)
    show ?thesis by (rule new [OF ref new_pid room q s2_def w])
  qed
qed

lemma inline_adds_row:
  assumes "insert_inline_only ti row s = (Inr ref, t)" and "plain_table s ti pids" and "scan_table ti s = Inr rows"
    and "buffer_used s" and "pager_inv (x_pager s)" and "has_room (x_pager t)" and "x_txn s \<noteq> None"
    and "py_len row \<le> CHUNK_SIZE" and "\<And>pid p. pid \<in> set pids \<Longrightarrow> plain_at s pid p \<Longrightarrow> room_for p row"
    and "decode_row row (schema_v2 ti) = Inr vals"
  shows "row_added ti vals ref rows t"
proof -
  have maps: "map_of (x_data_pages s) (ti_name ti) = Some pids" using assms(2) by (simp add: plain_table_def)
  from assms(1) maps assms(5,6) show ?thesis
  proof (cases rule: inline_cases)
    case (old pid sid raw p p' b)
    obtain p0 where p0: "plain_at s pid p0" using assms(2) old(2) by (auto simp: plain_table_def)
    then have "p0 = p" using old(4,5) by (auto simp: plain_at_def)
    then have at: "plain_at s pid p" using p0 by simp
    show ?thesis unfolding old(1)
      by (rule row_on_page [OF assms(2,3) old(2) at old(6) assms(9) [OF old(2) at] old(7,8) assms(7,10)])
  next
    case (new pid sid q s2 d s3 raw p p' b)
    show ?thesis unfolding new(1)
      by (rule row_on_new_page [OF assms(2-5) new(3) assms(7,8) new(4,2,5) new(7-12) assms(10)])
  qed
qed

lemma no_index_row: "indexed_columns ti = [] \<Longrightarrow> index_row ti vals ref = returnS ()"
  by (simp add: index_row_def)

lemma no_unique_groups: "indexed_columns ti = [] \<Longrightarrow> unique_groups ti = []"
  by (auto simp: indexed_columns_def unique_groups_def filter_empty_conv)

text \<open>
  An INSERT of one row into a table without indexed columns, inside a transaction,
  adds exactly that row to what a scan of the table finds, every value as the codec of its
  column stores it and NULL for the omitted columns, wherever the row went: a slot
  of a deleted row, a fresh slot or a new page. The row is on the page and slot of its
  reference. Rows are at most 4072 bytes, and a page that accepts the row has room for it.
\<close>

theorem insert_adds_row:
  assumes "exec_insert stmt s = (Inr out, t)" and "i_values stmt = [vals]" and "need_table (i_table stmt) s = Inr ti"
    and "indexed_columns ti = []" and "plain_table s ti pids" and "scan_table ti s = Inr rows" and "buffer_used s"
    and "pager_inv (x_pager s)" and "has_room (x_pager t)" and "x_txn s \<noteq> None"
    and "row = normalize_row ti (i_columns stmt) vals" and "list_all2 readable_col row (schema_v2 ti)"
    and "encode_row row (schema_v2 ti) = Inr b" and "py_len b \<le> CHUNK_SIZE"
    and "\<And>pid p. pid \<in> set pids \<Longrightarrow> plain_at s pid p \<Longrightarrow> room_for p b"
  shows "\<exists>ref. row_added ti (map2 stored_col row (schema_v2 ti)) ref rows t"
proof -
  have small: "\<not> py_len b > MAX_INLINE_PAYLOAD" using assms(14) by simp
  obtain ref where "insert_inline_only ti b s = (Inr ref, t)"
    using assms(1,2,3,11,13) small no_index_row [OF assms(4)] no_unique_groups [OF assms(4)]
    by (auto simp: exec_insert_def insert_one_def readS_def liftE_def bindS_eq_Inr validate_unique_keys_def insert_row_into_chain_def Let_def
        split: if_splits)
  from inline_adds_row [OF this assms(5-10,14) _ decode_encode_row [OF assms(13,12)]] assms(15) show ?thesis by blast
qed

end
