(* ===== verification/Btree_Node.thy ===== *)
theory Btree_Node
  imports Btree
begin

text \<open>
  Page images of the inner nodes of the B+ tree (\<open>InternalNode\<close> of \<open>src/tinydb/btree.py\<close>). The
  test in \<open>serialize\<close> covers the entries but not the last child behind them: an image can be
  up to four bytes longer than a page.
\<close>

definition child_image :: "int \<times> key \<Rightarrow> byte list" where
  "child_image e = (case e of (c, k) \<Rightarrow> be_bytes 4 c @ be_bytes 2 (py_len k) @ k)"

definition node_entries :: "inode \<Rightarrow> (int \<times> key) list" where
  "node_entries nd = zip (n_children nd) (n_keys nd)"

text \<open>Where the entries end, and with the last child.\<close>

definition node_end :: "key list \<Rightarrow> nat" where
  "node_end ks = 10 + sum_list (map (\<lambda>k. length k + 6) ks)"

definition node_size :: "key list \<Rightarrow> nat" where
  "node_size ks = node_end ks + 4"

definition node_wf :: "inode \<Rightarrow> bool" where
  "node_wf nd \<longleftrightarrow> length (n_children nd) = Suc (length (n_keys nd)) \<and> list_all u32 (n_children nd)"

definition node_head :: "inode \<Rightarrow> byte list" where
  "node_head nd = [2, 0] @ be_bytes 2 (py_len (n_keys nd)) @ replicate 6 0"

definition node_image :: "inode \<Rightarrow> byte list" where
  "node_image nd = node_head nd @ concat (map child_image (node_entries nd)) @ be_bytes 4 (last (n_children nd)) @
     replicate (4096 - node_size (n_keys nd)) 0"

lemma length_child_image [simp, byte_simps]: "length (child_image (c, k)) = length k + 6"
  by (simp add: child_image_def)

lemma length_node_head [simp, byte_simps]: "length (node_head nd) = 10"
  by (simp add: node_head_def)

lemma child_sizes: "length ks \<le> length cs \<Longrightarrow>
    length (concat (map child_image (zip cs ks))) = sum_list (map (\<lambda>k. length k + 6) ks)"
proof (induction ks arbitrary: cs)
  case (Cons k ks)
  then show ?case by (cases cs) auto
qed simp

lemma node_end_take_Suc: "n < length ks \<Longrightarrow> node_end (take (Suc n) ks) = node_end (take n ks) + length (ks ! n) + 6"
  by (simp add: node_end_def take_Suc_conv_app_nth)

lemma node_end_mono: "node_end (take n ks) \<le> node_end ks"
proof -
  have "node_end ks = node_end (take n ks @ drop n ks)" by simp
  then show ?thesis by (simp only: node_end_def map_append sum_list_append)
qed

section \<open>Writing\<close>

lemma inode_entry_image:
  assumes "node_wf nd" and "i < length (n_keys nd)" and "off = int (length pre)"
    and "length (n_keys nd ! i) + 6 \<le> m" and "length pre + m = 4096"
  shows "inode_entry nd (pre @ replicate m 0, off) i =
    Inr (pre @ child_image (node_entries nd ! i) @ replicate (m - (length (n_keys nd ! i) + 6)) 0,
         off + int (length (n_keys nd ! i)) + 6)"
proof -
  let ?k = "n_keys nd ! i" and ?c = "n_children nd ! i"
  have c: "0 \<le> ?c" "?c < 256 ^ 4"
    using assms(1,2) by (auto simp: node_wf_def u32_def list_all_length)
  let ?C = "be_bytes 4 ?c" and ?n = "be_bytes 2 (int (length ?k))"
  have s1: "set_slice (pre @ replicate m 0) off (off + 4) ?C = (pre @ ?C) @ replicate (m - 4) 0"
    using set_slice_zeros [of off pre "off + 4" ?C m] assms(3,4) by simp
  have s2: "set_slice ((pre @ ?C) @ replicate (m - 4) 0) (off + 4) (off + 6) ?n = (pre @ ?C @ ?n) @ replicate (m - 4 - 2) 0"
    using set_slice_zeros [of "off + 4" "pre @ ?C" "off + 6" ?n "m - 4"] assms(3,4) by simp
  have s3: "set_slice ((pre @ ?C @ ?n) @ replicate (m - 4 - 2) 0) (off + 6) (off + 6 + int (length ?k)) ?k
      = (pre @ ?C @ ?n @ ?k) @ replicate (m - 4 - 2 - length ?k) 0"
    using set_slice_zeros [of "off + 6" "pre @ ?C @ ?n" "off + 6 + int (length ?k)" ?k "m - 4 - 2"] assms(3,4) by simp
  have room: "\<not> off + 4 + 2 + int (length ?k) > 4096" using assms(3-5) by simp
  have e: "node_entries nd ! i = (?c, ?k)" using assms(1,2) by (simp add: node_entries_def node_wf_def)
  have gi: "get_item (n_children nd) (int i) = Inr ?c" using assms(1,2) by (simp add: get_item_nonneg node_wf_def)
  have packs: "pack_u 2 (int (length ?k)) = Inr ?n" "pack_u 4 ?c = Inr ?C"
    using c assms(4,5) by (simp_all add: pack_u_def)
  have "inode_entry nd (pre @ replicate m 0, off) i =
    Inr ((pre @ ?C @ ?n @ ?k) @ replicate (m - 4 - 2 - length ?k) 0, off + (6 + int (length ?k)))"
    by (simp only: inode_entry_def Let_def prod.case py_len_def PAGE_SIZE_def room if_False packs gi bindE_Inr s1 s2 s3)
  moreover have "m - 4 - 2 - length ?k = m - (length ?k + 6)" by simp
  ultimately show ?thesis by (simp add: e child_image_def py_len_def)
qed

lemma inode_entry_overflow:
  assumes "off = int (node_end (take i (n_keys nd)))" and "i < length (n_keys nd)"
    and "\<not> node_end (take (Suc i) (n_keys nd)) \<le> 4096"
  shows "inode_entry nd (page, off) i = Inl ValueError"
  using assms by (simp add: inode_entry_def Let_def py_len_def node_end_take_Suc)

lemma inode_entries_fold:
  assumes "node_wf nd" and "n \<le> length (n_keys nd)"
  shows "foldE (inode_entry nd) (node_head nd @ replicate 4086 0, 10) [0..<n] =
    (if node_end (take n (n_keys nd)) \<le> 4096
     then Inr (node_head nd @ concat (map child_image (take n (node_entries nd))) @
               replicate (4096 - node_end (take n (n_keys nd))) 0, int (node_end (take n (n_keys nd))))
     else Inl ValueError)"
  using assms(2)
proof (induction n)
  case 0
  then show ?case by (simp add: node_end_def)
next
  case (Suc n)
  let ?E = "\<lambda>n. node_end (take n (n_keys nd))"
  let ?pre = "node_head nd @ concat (map child_image (take n (node_entries nd)))"
  have n: "n < length (n_keys nd)" using Suc.prems by simp
  have E: "?E (Suc n) = ?E n + length (n_keys nd ! n) + 6" by (rule node_end_take_Suc [OF n])
  have pre: "length ?pre = ?E n"
    using assms(1) n child_sizes [of "take n (n_keys nd)" "take n (n_children nd)"]
    by (simp add: node_end_def node_entries_def take_zip node_wf_def)
  have snoc: "foldE (inode_entry nd) s [0..<Suc n] =
      bindE (foldE (inode_entry nd) s [0..<n]) (\<lambda>s'. bindE (inode_entry nd s' n) Inr)" for s
    by (simp add: foldE_append)
  show ?case
  proof (cases "?E n \<le> 4096")
    case False
    then show ?thesis unfolding snoc using Suc E by simp
  next
    case True
    note IH = Suc.IH [OF less_imp_le [OF n], unfolded if_P [OF True]]
    show ?thesis
    proof (cases "?E (Suc n) \<le> 4096")
      case False
      show ?thesis unfolding snoc IH bindE_Inr using inode_entry_overflow [OF refl n False] False by simp
    next
      case fits: True
      have tk: "take (Suc n) (node_entries nd) = take n (node_entries nd) @ [node_entries nd ! n]"
        using n assms(1) by (simp add: take_Suc_conv_app_nth node_entries_def node_wf_def)
      have "inode_entry nd (?pre @ replicate (4096 - ?E n) 0, int (?E n)) n =
          Inr (?pre @ child_image (node_entries nd ! n) @ replicate (4096 - ?E n - (length (n_keys nd ! n) + 6)) 0,
               int (?E n) + int (length (n_keys nd ! n)) + 6)"
        by (rule inode_entry_image [OF assms(1) n]) (use pre fits E in simp_all)
      moreover have "4096 - ?E n - (length (n_keys nd ! n) + 6) = 4096 - ?E (Suc n)" using E by simp
      ultimately show ?thesis unfolding snoc IH bindE_Inr using fits E tk by simp
    qed
  qed
qed

lemma inode_serialize_parts:
  assumes "node_wf nd" and "length (n_keys nd) < 65536"
  shows "inode_serialize nd =
    (if node_end (n_keys nd) \<le> 4096
     then Inr (set_slice (node_head nd @ concat (map child_image (node_entries nd)) @ replicate (4096 - node_end (n_keys nd)) 0)
       (int (node_end (n_keys nd))) (int (node_end (n_keys nd)) + 4) (be_bytes 4 (last (n_children nd))))
     else Inl ValueError)"
proof -
  let ?n = "be_bytes 2 (int (length (n_keys nd)))"
  have s3: "set_slice (([2, 0] @ ?n) @ replicate 4092 0) 4 10 (replicate 6 0) = node_head nd @ replicate 4086 0"
    using set_slice_zeros [of 4 "[2, 0] @ ?n" 10 "replicate 6 0" 4092] by (simp add: node_head_def py_len_def)
  have ne: "n_children nd \<noteq> []" and len: "length (n_children nd) = Suc (length (n_keys nd))" using assms(1) by (auto simp: node_wf_def)
  have lc: "get_item (n_children nd) (- 1) = Inr (last (n_children nd))"
    using ne len by (simp add: get_item_def last_conv_nth)
  have "u32 (last (n_children nd))" using assms(1) ne by (auto simp: node_wf_def list_all_iff)
  then have p: "pack_u 2 (int (length (n_keys nd))) = Inr ?n" "pack_u 4 (last (n_children nd)) = Inr (be_bytes 4 (last (n_children nd)))"
    using assms by (auto simp: u32_def intro!: pack_u_ok)
  have "inode_serialize nd = bindE (foldE (inode_entry nd) (node_head nd @ replicate 4086 0, 10) [0..<length (n_keys nd)])
      (\<lambda>(page, off). Inr (set_slice page off (off + 4) (be_bytes 4 (last (n_children nd)))))"
    by (simp only: inode_serialize_def Let_def page_head NODE_TYPE_INTERNAL_def bindE_Inr p py_len_def
        length_be_bytes s3 lc BT_HEADER_SIZE_def)
  then show ?thesis
    unfolding inode_entries_fold [OF assms(1) order_refl] using len by (simp add: node_entries_def)
qed

lemma node_end_image:
  "node_wf nd \<Longrightarrow> length (node_head nd @ concat (map child_image (node_entries nd))) = node_end (n_keys nd)"
  using child_sizes [of "n_keys nd" "n_children nd"] by (simp add: node_end_def node_entries_def node_wf_def)

lemma inode_serialize_image:
  assumes "node_wf nd" and "length (n_keys nd) < 65536" and "node_size (n_keys nd) \<le> 4096"
  shows "inode_serialize nd = Inr (node_image nd)"
proof -
  have "set_slice ((node_head nd @ concat (map child_image (node_entries nd))) @ replicate (4096 - node_end (n_keys nd)) 0)
      (int (node_end (n_keys nd))) (int (node_end (n_keys nd)) + 4) (be_bytes 4 (last (n_children nd))) = node_image nd"
    using assms(3) node_end_image [OF assms(1)]
    by (subst set_slice_zeros) (simp_all add: node_size_def node_image_def)
  then show ?thesis using assms by (simp add: inode_serialize_parts node_size_def)
qed

lemma inode_serialize_full: "node_wf nd \<Longrightarrow> length (n_keys nd) < 65536 \<Longrightarrow> \<not> node_end (n_keys nd) \<le> 4096 \<Longrightarrow>
    inode_serialize nd = Inl ValueError"
  by (simp add: inode_serialize_parts)

lemma length_node_image: "node_wf nd \<Longrightarrow> node_size (n_keys nd) \<le> 4096 \<Longrightarrow> length (node_image nd) = 4096"
  using node_end_image [of nd] by (simp add: node_image_def node_size_def)

text \<open>
  When the entries end in the last four bytes of the page, \<open>serialize\<close> returns an image longer
  than a page, which no page store accepts.
\<close>

lemma set_slice_past:
  "length xs = n \<Longrightarrow> length zs \<le> k \<Longrightarrow> set_slice (xs @ zs) (int n) (int n + int k) ys = xs @ ys"
  by (simp add: set_slice_def py_norm_nonneg Let_def)

lemma inode_serialize_overrun:
  assumes "node_wf nd" and "length (n_keys nd) < 65536" and "node_end (n_keys nd) \<le> 4096" and "4096 < node_size (n_keys nd)"
  shows "\<exists>page. inode_serialize nd = Inr page \<and> length page = node_size (n_keys nd)"
proof -
  let ?pre = "node_head nd @ concat (map child_image (node_entries nd))" and ?zeros = "replicate (4096 - node_end (n_keys nd)) 0"
  have "length ?zeros \<le> 4" using assms(4) by (simp add: node_size_def)
  from set_slice_past [OF node_end_image [OF assms(1)] this, of "be_bytes 4 (last (n_children nd))"]
  have "inode_serialize nd = Inr (?pre @ be_bytes 4 (last (n_children nd)))"
    using assms(3) by (simp add: inode_serialize_parts [OF assms(1,2)])
  then show ?thesis using node_end_image [OF assms(1)] by (simp add: node_size_def)
qed

section \<open>Reading back\<close>

lemma child_image_slices:
  fixes pre k post :: "byte list"
  assumes "off = int (length pre)" and "length bc = 4" and "length bn = 2" and "page = pre @ bc @ bn @ k @ post"
  shows "slice page off (off + 4) = bc" and "slice page (off + 4) (off + 6) = bn"
    and "slice page (off + 6) (off + 6 + int (length k)) = k"
proof -
  show "slice page off (off + 4) = bc"
    using slice_mid [of off pre "off + 4" bc "bn @ k @ post"] assms by simp
  show "slice page (off + 4) (off + 6) = bn"
    using slice_mid [of "off + 4" "pre @ bc" "off + 6" bn "k @ post"] assms by simp
  show "slice page (off + 6) (off + 6 + int (length k)) = k"
    using slice_mid [of "off + 6" "pre @ bc @ bn" "off + 6 + int (length k)" k post] assms by simp
qed

lemma read_children_image:
  assumes "list_all (\<lambda>(c, k). u32 c \<and> length k < 65536) es" and "off = int (length pre)"
  shows "read_inode_entries (length es) (pre @ concat (map child_image es) @ post) off =
    Inr (es, off + int (length (concat (map child_image es))))"
  using assms
proof (induction es arbitrary: pre off)
  case Nil
  then show ?case by simp
next
  case (Cons e es)
  obtain c k where e: "e = (c, k)" by force
  have wf: "u32 c" "length k < 65536" using Cons.prems(1) by (simp_all add: e)
  let ?page = "pre @ concat (map child_image (e # es)) @ post"
  have page: "?page = pre @ be_bytes 4 c @ be_bytes 2 (int (length k)) @ k @ (concat (map child_image es) @ post)"
    by (simp add: e child_image_def py_len_def)
  note sl = child_image_slices [OF Cons.prems(2) length_be_bytes length_be_bytes page]
  have rest: "read_inode_entries (length es) ?page (off + (6 + int (length k))) =
      Inr (es, off + (6 + int (length k)) + int (length (concat (map child_image es))))"
    using Cons.IH [of "off + (6 + int (length k))" "pre @ child_image e"] Cons.prems by (simp add: e)
  have un: "unpack_u 4 (be_bytes 4 c) = Inr c" "unpack_u 2 (be_bytes 2 (int (length k))) = Inr (int (length k))"
    using wf by (simp_all add: unpack_u_def be_int_be_bytes u32_def del: be_bytes.simps)
  have "read_inode_entries (Suc (length es)) ?page off =
      Inr ((c, k) # es, off + (6 + int (length k)) + int (length (concat (map child_image es))))"
    unfolding read_inode_entries.simps(2) by (simp only: sl un bindE_Inr Let_def rest prod.case)
  moreover have "off + (6 + int (length k)) + int (length (concat (map child_image es))) =
      off + int (length (concat (map child_image (e # es))))" by (simp add: e)
  ultimately show ?case by (simp only: list.size add_0_right add_Suc_right flip: e)
qed

lemma node_roundtrip:
  assumes "node_wf nd" and "node_size (n_keys nd) \<le> 4096"
  shows "inode_deserialize (node_image nd) = Inr nd"
proof -
  let ?n = "be_bytes 2 (int (length (n_keys nd)))" and ?c = "be_bytes 4 (last (n_children nd))"
  let ?es = "node_entries nd" and ?zeros = "replicate (4096 - node_size (n_keys nd)) (0 :: byte)"
  have len: "length (n_children nd) = Suc (length (n_keys nd))" and u: "list_all u32 (n_children nd)"
    using assms(1) by (simp_all add: node_wf_def)
  have sums: "sum_list (map (\<lambda>k. length k + 6) ks) \<ge> length ks" for ks :: "key list" by (induction ks) auto
  have keys: "length (n_keys nd) < 65536" using sums [of "n_keys nd"] assms(2) by (simp add: node_size_def node_end_def)
  have short: "length k < 65536" if "k \<in> set (n_keys nd)" for k
  proof -
    have "length k + 6 \<le> sum_list (map (\<lambda>k. length k + 6) (n_keys nd))" using that by (intro member_le_sum_list) auto
    then show ?thesis using assms(2) by (simp add: node_size_def node_end_def)
  qed
  have es: "list_all (\<lambda>(c, k). u32 c \<and> length k < 65536) ?es" "length ?es = length (n_keys nd)"
    using u short len by (auto simp: node_entries_def list_all_iff dest: set_zip_leftD set_zip_rightD)
  have parts: "map snd ?es = n_keys nd" "map fst ?es = butlast (n_children nd)"
    using len by (simp_all add: node_entries_def butlast_conv_take map_fst_zip_take map_snd_zip_take)
  have page: "node_image nd = [2, 0] @ ?n @ (replicate 6 0 @ concat (map child_image ?es) @ ?c @ ?zeros)"
    by (simp add: node_image_def node_head_def py_len_def)
  have ty: "get_item (node_image nd) 0 = Inr 2" by (simp add: page get_item_def)
  have n: "slice (node_image nd) 2 4 = ?n"
    unfolding page by (rule slice_mid) simp_all
  have rd: "read_inode_entries (length (n_keys nd)) (node_image nd) 10 = Inr (?es, int (node_end (n_keys nd)))"
    using read_children_image [OF es(1), of 10 "node_head nd" "?c @ ?zeros"] es(2) node_end_image [OF assms(1)]
    by (simp add: node_image_def)
  have "node_image nd = (node_head nd @ concat (map child_image ?es)) @ ?c @ ?zeros" by (simp add: node_image_def)
  then have c: "slice (node_image nd) (int (node_end (n_keys nd))) (int (node_end (n_keys nd)) + 4) = ?c"
    using node_end_image [OF assms(1)] by (simp only:) (rule slice_mid; simp)
  have "u32 (last (n_children nd))" using u len by (cases "n_children nd" rule: rev_cases) (auto simp: list_all_iff)
  then have un: "unpack_u 2 ?n = Inr (int (length (n_keys nd)))" "unpack_u 4 ?c = Inr (last (n_children nd))"
    using keys by (simp_all add: unpack_u_def be_int_be_bytes u32_def del: be_bytes.simps)
  have "butlast (n_children nd) @ [last (n_children nd)] = n_children nd" using len by (intro append_butlast_last_id) auto
  then show ?thesis
    unfolding inode_deserialize_def NODE_TYPE_INTERNAL_def BT_HEADER_SIZE_def
    by (simp add: ty n rd un c parts del: be_bytes.simps)
qed

lemma node_image_type: "get_item (node_image nd) 0 = Inr 2"
  by (simp add: node_image_def node_head_def get_item_def)

end
