(* ===== verification/Btree_Tree.thy ===== *)
theory Btree_Tree
  imports Btree_Node "HOL-Library.Multiset"
begin

text \<open>
  The abstract tree behind the pages of a B+ tree whose keys have one width: its order, its
  leaves, the pages it is stored in, and a subtree in its context, the inner nodes above it.
\<close>

datatype tree = Lf int leaf | Nd int "key list" "tree list"

fun pid_of :: "tree \<Rightarrow> int" where
  "pid_of (Lf pid lf) = pid"
| "pid_of (Nd pid ks ts) = pid"

fun pids :: "tree \<Rightarrow> int list" where
  "pids (Lf pid lf) = [pid]"
| "pids (Nd pid ks ts) = pid # concat (map pids ts)"

fun leaves :: "tree \<Rightarrow> (int \<times> leaf) list" where
  "leaves (Lf pid lf) = [(pid, lf)]"
| "leaves (Nd pid ks ts) = concat (map leaves ts)"

fun depth_le :: "nat \<Rightarrow> tree \<Rightarrow> bool" where
  "depth_le d (Lf pid lf) = True"
| "depth_le 0 (Nd pid ks ts) = False"
| "depth_le (Suc d) (Nd pid ks ts) = (\<forall>t \<in> set ts. depth_le d t)"

lemma pid_of_pids [simp]: "pid_of t \<in> set (pids t)"
  by (cases t) simp_all

lemma depth_le_mono: "depth_le d t \<Longrightarrow> d \<le> e \<Longrightarrow> depth_le e t"
proof (induction d t arbitrary: e rule: depth_le.induct)
  case (3 d pid ks ts)
  then show ?case by (cases e) auto
qed simp_all

section \<open>Order\<close>

text \<open>A range of keys; no bound is \<open>None\<close>.\<close>

definition at_least :: "key option \<Rightarrow> key \<Rightarrow> bool" where
  "at_least lo k = (case lo of None \<Rightarrow> True | Some l \<Rightarrow> l \<le> k)"

definition above :: "key option \<Rightarrow> key \<Rightarrow> bool" where
  "above lo k = (case lo of None \<Rightarrow> True | Some l \<Rightarrow> l < k)"

definition below :: "key \<Rightarrow> key option \<Rightarrow> bool" where
  "below k hi = (case hi of None \<Rightarrow> True | Some h \<Rightarrow> k < h)"

lemma bounds_simps [simp]:
  "at_least None k" "above None k" "below k None"
  "at_least (Some l) k = (l \<le> k)" "above (Some l) k = (l < k)" "below k (Some h) = (k < h)"
  by (simp_all add: at_least_def above_def below_def)

lemma above_at_least: "above lo k \<Longrightarrow> at_least lo k"
  by (cases lo) auto

lemma below_trans: "k \<le> l \<Longrightarrow> below l hi \<Longrightarrow> below k hi"
  by (cases hi) auto

lemma at_least_trans: "at_least lo k \<Longrightarrow> k \<le> l \<Longrightarrow> at_least lo l"
  by (cases lo) auto

lemma above_trans: "at_least lo k \<Longrightarrow> k < l \<Longrightarrow> above lo l"
  by (cases lo) auto

text \<open>The keys of a leaf, in a range; trees separated by keys of width \<open>w\<close>.\<close>

definition leaf_in :: "nat \<Rightarrow> key option \<Rightarrow> leaf \<Rightarrow> key option \<Rightarrow> bool" where
  "leaf_in w lo lf hi \<longleftrightarrow> leaf_ok lf \<and> leaf_size lf \<le> 4096 \<and>
     (\<forall>k \<in> set (l_keys lf). length k = w \<and> at_least lo k \<and> below k hi)"

fun tree_ok :: "nat \<Rightarrow> key option \<Rightarrow> tree \<Rightarrow> key option \<Rightarrow> bool"
  and trees_ok :: "nat \<Rightarrow> key option \<Rightarrow> key list \<Rightarrow> tree list \<Rightarrow> key option \<Rightarrow> bool" where
  "tree_ok w lo (Lf pid lf) hi = (u32 pid \<and> leaf_in w lo lf hi)"
| "tree_ok w lo (Nd pid ks ts) hi = (u32 pid \<and> node_size ks \<le> 4096 \<and> trees_ok w lo ks ts hi)"
| "trees_ok w lo [] [t] hi = tree_ok w lo t hi"
| "trees_ok w lo (k # ks) (t # ts) hi =
     (length k = w \<and> above lo k \<and> below k hi \<and> tree_ok w lo t (Some k) \<and> trees_ok w (Some k) ks ts hi)"
| "trees_ok w lo ks [] hi = False"
| "trees_ok w lo [] (t # u # ts) hi = False"

lemma tree_ok_u32: "tree_ok w lo t hi \<Longrightarrow> u32 (pid_of t)"
  by (cases t) simp_all

lemma trees_ok_length: "trees_ok w lo ks ts hi \<Longrightarrow> length ts = Suc (length ks)"
proof (induction ks arbitrary: lo ts)
  case Nil
  then show ?case by (cases ts; cases "tl ts") auto
next
  case (Cons k ks)
  then show ?case by (cases ts) auto
qed

lemma trees_ok_u32: "trees_ok w lo ks ts hi \<Longrightarrow> list_all u32 (map pid_of ts)"
proof (induction ks arbitrary: lo ts)
  case Nil
  then show ?case by (cases ts; cases "tl ts") (auto dest: tree_ok_u32)
next
  case (Cons k ks)
  then show ?case by (cases ts) (auto dest: tree_ok_u32)
qed

lemma trees_ok_keys:
  "trees_ok w lo ks ts hi \<Longrightarrow> sorted_wrt (<) ks \<and> (\<forall>k \<in> set ks. length k = w \<and> above lo k \<and> below k hi)"
proof (induction ks arbitrary: lo ts)
  case (Cons k ks)
  then obtain t us where ts: "ts = t # us" by (cases ts) auto
  have k: "length k = w" "above lo k" "below k hi" and "trees_ok w (Some k) ks us hi" using Cons.prems by (simp_all add: ts)
  with Cons.IH have ih: "sorted_wrt (<) ks" "\<forall>l \<in> set ks. length l = w \<and> k < l \<and> below l hi" by fastforce+
  have "above lo l" if "l \<in> set ks" for l using above_trans above_at_least k(2) ih(2) that by blast
  then show ?case using k ih by auto
qed simp

text \<open>The keys in the leaves are in the range.\<close>

lemma leaf_keys_in:
  "tree_ok w lo t hi \<Longrightarrow> (p, lf) \<in> set (leaves t) \<Longrightarrow> k \<in> set (l_keys lf) \<Longrightarrow> length k = w \<and> at_least lo k \<and> below k hi"
  "trees_ok w lo ks ts hi \<Longrightarrow> (p, lf) \<in> set (concat (map leaves ts)) \<Longrightarrow> k \<in> set (l_keys lf) \<Longrightarrow> length k = w \<and> at_least lo k \<and> below k hi"
proof (induction w lo t hi and w lo ks ts hi rule: tree_ok_trees_ok.induct)
  case (1 w lo pid lf' hi)
  then show ?case by (simp add: leaf_in_def)
next
  case (4 w lo l ks t ts hi)
  have b: "above lo l" "below l hi" "tree_ok w lo t (Some l)" "trees_ok w (Some l) ks ts hi" using 4(3) by simp_all
  consider "(p, lf) \<in> set (leaves t)" | "(p, lf) \<in> set (concat (map leaves ts))" using 4(4) by auto
  then show ?case
  proof cases
    case 1
    from 4(1) [OF b(3) this 4(5)] b(2) show ?thesis by (auto intro: below_trans less_imp_le)
  next
    case 2
    from 4(2) [OF b(4) this 4(5)] b(1) show ?thesis by (auto intro: at_least_trans above_at_least)
  qed
qed auto

section \<open>A place in a node\<close>

definition hole_lo :: "key option \<Rightarrow> key list \<Rightarrow> key option" where
  "hole_lo lo ks = (if ks = [] then lo else Some (last ks))"

definition hole_hi :: "key list \<Rightarrow> key option \<Rightarrow> key option" where
  "hole_hi ks hi = (if ks = [] then hi else Some (hd ks))"

lemma hole_lo_Cons [simp]: "hole_lo lo (k # ks) = hole_lo (Some k) ks"
  by (simp add: hole_lo_def)

lemma hole_Nil [simp]: "hole_lo lo [] = lo" "hole_hi [] hi = hi" "hole_hi (k # ks) hi = Some k"
  by (simp_all add: hole_lo_def hole_hi_def)

lemma trees_ok_tail: "trees_ok w lo ks (t # ts) hi \<longleftrightarrow>
    (case ks of [] \<Rightarrow> ts = [] \<and> tree_ok w lo t hi
     | k # ks' \<Rightarrow> length k = w \<and> above lo k \<and> below k hi \<and> tree_ok w lo t (Some k) \<and> trees_ok w (Some k) ks' ts hi)"
  by (cases ks; cases ts) simp_all

lemma trees_ok_hole:
  "length ls = length ks1 \<Longrightarrow> trees_ok w lo (ks1 @ ks2) (ls @ t # rs) hi \<Longrightarrow> tree_ok w (hole_lo lo ks1) t (hole_hi ks2 hi)"
  by (induction ls ks1 arbitrary: lo rule: list_induct2) (auto simp: trees_ok_tail split: list.splits)

lemma trees_ok_fill:
  "length ls = length ks1 \<Longrightarrow> trees_ok w lo (ks1 @ ks2) (ls @ t # rs) hi \<Longrightarrow> tree_ok w (hole_lo lo ks1) t' (hole_hi ks2 hi) \<Longrightarrow>
   trees_ok w lo (ks1 @ ks2) (ls @ t' # rs) hi"
  by (induction ls ks1 arbitrary: lo rule: list_induct2) (auto simp: trees_ok_tail split: list.splits)

lemma trees_ok_split:
  "length ls = length ks1 \<Longrightarrow> trees_ok w lo (ks1 @ ks2) (ls @ t # rs) hi \<Longrightarrow>
   length k = w \<Longrightarrow> above (hole_lo lo ks1) k \<Longrightarrow> below k (hole_hi ks2 hi) \<Longrightarrow>
   tree_ok w (hole_lo lo ks1) l (Some k) \<Longrightarrow> tree_ok w (Some k) r (hole_hi ks2 hi) \<Longrightarrow>
   trees_ok w lo (ks1 @ k # ks2) (ls @ l # r # rs) hi"
proof (induction ls ks1 arbitrary: lo rule: list_induct2)
  case Nil
  then show ?case by (cases ks2) (auto simp: trees_ok_tail intro: below_trans less_imp_le)
qed simp

text \<open>Cutting a node at a separator.\<close>

lemma trees_ok_cut:
  "length ts1 = Suc (length ks1) \<Longrightarrow> trees_ok w lo (ks1 @ k # ks2) (ts1 @ ts2) hi \<Longrightarrow>
   trees_ok w lo ks1 ts1 (Some k) \<and> trees_ok w (Some k) ks2 ts2 hi \<and> length k = w \<and> above lo k \<and> below k hi"
proof (induction ks1 arbitrary: lo ts1)
  case Nil
  then obtain t where "ts1 = [t]" by (cases ts1) auto
  then show ?case using Nil by simp
next
  case (Cons l ks1)
  then obtain t us where ts: "ts1 = t # us" by (cases ts1) auto
  have m: "length l = w" "above lo l" "below l hi" "tree_ok w lo t (Some l)" "trees_ok w (Some l) (ks1 @ k # ks2) (us @ ts2) hi"
    using Cons.prems(2) by (simp_all add: ts)
  have ih: "trees_ok w (Some l) ks1 us (Some k) \<and> trees_ok w (Some k) ks2 ts2 hi \<and> length k = w \<and> above (Some l) k \<and> below k hi"
    using Cons.IH [OF _ m(5)] Cons.prems(1) by (simp add: ts)
  then show ?case using m ts above_trans above_at_least by (simp, blast)
qed

section \<open>A subtree in its context\<close>

text \<open>
  A frame is an inner node with a hole for one child: its page, the keys and children
  before the hole and those behind it. A context lists the frames from the hole up.
\<close>

type_synonym frame = "int \<times> key list \<times> tree list \<times> key list \<times> tree list"

fun plug :: "frame list \<Rightarrow> tree \<Rightarrow> tree" where
  "plug [] t = t"
| "plug ((pid, ks1, ls, ks2, rs) # fs) t = plug fs (Nd pid (ks1 @ ks2) (ls @ t # rs))"

fun root_of :: "frame list \<Rightarrow> int \<Rightarrow> int" where
  "root_of [] c = c"
| "root_of ((pid, ks1, ls, ks2, rs) # fs) c = root_of fs pid"

fun left_of :: "frame list \<Rightarrow> (int \<times> leaf) list" where
  "left_of [] = []"
| "left_of ((pid, ks1, ls, ks2, rs) # fs) = left_of fs @ concat (map leaves ls)"

fun right_of :: "frame list \<Rightarrow> (int \<times> leaf) list" where
  "right_of [] = []"
| "right_of ((pid, ks1, ls, ks2, rs) # fs) = concat (map leaves rs) @ right_of fs"

fun frame_pids :: "frame list \<Rightarrow> int list" where
  "frame_pids [] = []"
| "frame_pids ((pid, ks1, ls, ks2, rs) # fs) = pid # concat (map pids ls) @ concat (map pids rs) @ frame_pids fs"

fun frames_depth :: "nat \<Rightarrow> frame list \<Rightarrow> bool" where
  "frames_depth d [] = True"
| "frames_depth d ((pid, ks1, ls, ks2, rs) # fs) = ((\<forall>t \<in> set ls \<union> set rs. depth_le d t) \<and> frames_depth (Suc d) fs)"

text \<open>The context leaves the hole a range of keys.\<close>

fun frames_ok :: "nat \<Rightarrow> key option \<Rightarrow> frame list \<Rightarrow> key option \<Rightarrow> bool" where
  "frames_ok w lo [] hi = (lo = None \<and> hi = None)"
| "frames_ok w lo ((pid, ks1, ls, ks2, rs) # fs) hi =
     (length ls = length ks1 \<and> (\<exists>lo' hi' t. lo = hole_lo lo' ks1 \<and> hi = hole_hi ks2 hi' \<and>
        tree_ok w lo' (Nd pid (ks1 @ ks2) (ls @ t # rs)) hi' \<and> frames_ok w lo' fs hi'))"

lemma leaves_plug: "leaves (plug fs t) = left_of fs @ leaves t @ right_of fs"
  by (induction fs t rule: plug.induct) simp_all

lemma pid_of_plug: "pid_of (plug fs t) = root_of fs (pid_of t)"
  by (induction fs t rule: plug.induct) simp_all

lemma mset_pids_plug: "mset (pids (plug fs t)) = mset (frame_pids fs @ pids t)"
  by (induction fs t rule: plug.induct) simp_all

lemma set_pids_plug: "set (pids (plug fs t)) = set (frame_pids fs) \<union> set (pids t)"
  using mset_eq_setD [OF mset_pids_plug] by simp

lemma distinct_pids_plug: "distinct (pids (plug fs t)) \<longleftrightarrow> distinct (frame_pids fs @ pids t)"
  by (rule mset_eq_imp_distinct_iff [OF mset_pids_plug])

lemma depth_le_plug: "frames_depth d fs \<Longrightarrow> depth_le d t \<Longrightarrow> depth_le (d + length fs) (plug fs t)"
proof (induction fs t arbitrary: d rule: plug.induct)
  case (2 pid ks1 ls ks2 rs fs t)
  then have "depth_le (Suc d) (Nd pid (ks1 @ ks2) (ls @ t # rs))" by auto
  then show ?case using 2 by fastforce
qed simp

lemma frames_fill: "frames_ok w lo fs hi \<Longrightarrow> tree_ok w lo t hi \<Longrightarrow> tree_ok w None (plug fs t) None"
proof (induction fs t arbitrary: lo hi rule: plug.induct)
  case (2 pid ks1 ls ks2 rs fs t)
  then obtain lo' hi' u where h: "length ls = length ks1" "lo = hole_lo lo' ks1" "hi = hole_hi ks2 hi'"
    "tree_ok w lo' (Nd pid (ks1 @ ks2) (ls @ u # rs)) hi'" "frames_ok w lo' fs hi'" by auto
  have "tree_ok w lo' (Nd pid (ks1 @ ks2) (ls @ t # rs)) hi'"
    using h 2(3) trees_ok_fill [of ls ks1 w lo' ks2 u rs hi' t] by simp
  then show ?case using 2(1) [OF h(5)] by simp
qed simp

text \<open>Where a key of the hole's range is looked for: in the hole, at every level.\<close>

lemma bisect_hole:
  assumes "sorted_wrt (<) (ks1 @ ks2)" and "at_least (hole_lo lo ks1) k" and "below k (hole_hi ks2 hi)"
  shows "bisect_right (ks1 @ ks2) k = length ks1"
proof -
  have srt: "sorted (ks1 @ ks2)" using assms(1) by (rule strict_sorted_imp_sorted)
  have lo: "x \<le> k" if "x \<in> set ks1" for x
  proof -
    have ne: "ks1 \<noteq> []" using that by auto
    then have "x \<le> last ks1" using srt that by (cases ks1 rule: rev_cases) (auto simp: sorted_append)
    then show ?thesis using assms(2) ne by (simp add: hole_lo_def)
  qed
  have hi: "k < x" if "x \<in> set ks2" for x
  proof -
    have ne: "ks2 \<noteq> []" using that by auto
    then have "hd ks2 \<le> x" using srt that by (cases ks2) (auto simp: sorted_append)
    then show ?thesis using assms(3) ne by (simp add: hole_hi_def)
  qed
  note spec = bisect_right_spec [OF srt, where key = k]
  show ?thesis
  proof (rule antisym)
    show "length ks1 \<le> bisect_right (ks1 @ ks2) k"
    proof (rule ccontr)
      assume n: "\<not> ?thesis"
      let ?b = "bisect_right (ks1 @ ks2) k"
      have "(ks1 @ ks2) ! ?b \<le> k" using n lo by (simp add: nth_append)
      then show False using spec(2) [of ?b] n by simp
    qed
    show "bisect_right (ks1 @ ks2) k \<le> length ks1"
    proof (rule ccontr)
      assume n: "\<not> ?thesis"
      have l: "length ks1 < length (ks1 @ ks2)" using n spec(1) by (cases ks2) simp_all
      have "k < (ks1 @ ks2) ! length ks1" using l hi by (simp add: nth_append)
      then show False using spec(2) [of "length ks1"] l n by (auto simp: not_le)
    qed
  qed
qed

lemma hole_range:
  assumes "trees_ok w lo (ks1 @ ks2) ts hi" and "at_least (hole_lo lo ks1) k" and "below k (hole_hi ks2 hi)"
  shows "at_least lo k \<and> below k hi"
proof -
  have ks: "\<forall>x \<in> set (ks1 @ ks2). above lo x \<and> below x hi" using trees_ok_keys [OF assms(1)] by blast
  have "at_least lo k"
  proof (cases ks1 rule: rev_cases)
    case (snoc xs x)
    then show ?thesis using assms(2) ks by (auto simp: hole_lo_def intro: at_least_trans above_at_least)
  qed (use assms(2) in simp)
  moreover have "below k hi"
    using assms(3) ks by (cases ks2) (auto intro: below_trans less_imp_le)
  ultimately show ?thesis ..
qed

text \<open>The leaves before the hole hold smaller keys than its range, those behind it greater ones.\<close>

definition leaf_keys :: "(int \<times> leaf) list \<Rightarrow> key list" where
  "leaf_keys ls = concat (map (\<lambda>(p, lf). l_keys lf) ls)"

lemma leaf_keys_simps [simp]:
  "leaf_keys [] = []" "leaf_keys ((p, lf) # ls) = l_keys lf @ leaf_keys ls" "leaf_keys (xs @ ys) = leaf_keys xs @ leaf_keys ys"
  by (simp_all add: leaf_keys_def)

lemma set_leaf_keys: "k \<in> set (leaf_keys ls) \<longleftrightarrow> (\<exists>p lf. (p, lf) \<in> set ls \<and> k \<in> set (l_keys lf))"
  by (auto simp: leaf_keys_def)

lemma sides_order:
  assumes "length ls = length ks1" and "trees_ok w lo (ks1 @ ks2) (ls @ t # rs) hi"
    and "at_least (hole_lo lo ks1) k" and "below k (hole_hi ks2 hi)"
  shows "x \<in> set (leaf_keys (concat (map leaves ls))) \<Longrightarrow> x < k" and "x \<in> set (leaf_keys (concat (map leaves rs))) \<Longrightarrow> k < x"
proof -
  assume "x \<in> set (leaf_keys (concat (map leaves ls)))"
  then obtain p lf where x: "(p, lf) \<in> set (concat (map leaves ls))" "x \<in> set (l_keys lf)" unfolding set_leaf_keys by blast
  then obtain xs y where ks1: "ks1 = xs @ [y]" using assms(1) by (cases ks1 rule: rev_cases) auto
  have "trees_ok w lo xs ls (Some y)"
    using trees_ok_cut [of ls xs w lo y ks2 "t # rs" hi] assms(1,2) ks1 by simp
  then have "x < y" using leaf_keys_in(2) x by fastforce
  then show "x < k" using assms(3) ks1 by (simp add: hole_lo_def)
next
  assume "x \<in> set (leaf_keys (concat (map leaves rs)))"
  then obtain p lf where x: "(p, lf) \<in> set (concat (map leaves rs))" "x \<in> set (l_keys lf)" unfolding set_leaf_keys by blast
  then obtain y ys where ks2: "ks2 = y # ys"
    using assms(1) trees_ok_length [OF assms(2)] by (cases ks2) auto
  have "trees_ok w (Some y) ys rs hi"
    using trees_ok_cut [of "ls @ [t]" ks1 w lo y ys rs hi] assms(1,2) ks2 by simp
  then have "y \<le> x" using leaf_keys_in(2) x by fastforce
  then show "k < x" using assms(4) ks2 by simp
qed

lemma frames_order:
  "frames_ok w lo fs hi \<Longrightarrow> at_least lo k \<Longrightarrow> below k hi \<Longrightarrow>
   (x \<in> set (leaf_keys (left_of fs)) \<longrightarrow> x < k) \<and> (x \<in> set (leaf_keys (right_of fs)) \<longrightarrow> k < x)"
proof (induction w lo fs hi rule: frames_ok.induct)
  case (2 w lo pid ks1 ls ks2 rs fs hi)
  then obtain lo' hi' t where h: "length ls = length ks1" "lo = hole_lo lo' ks1" "hi = hole_hi ks2 hi'"
    "trees_ok w lo' (ks1 @ ks2) (ls @ t # rs) hi'" "frames_ok w lo' fs hi'" by auto
  have r: "at_least lo' k \<and> below k hi'" using hole_range [OF h(4)] 2(3,4) h(2,3) by simp
  have "at_least (hole_lo lo' ks1) k" "below k (hole_hi ks2 hi')" using 2(3,4) h(2,3) by simp_all
  from sides_order [OF h(1,4) this] "2.IH" [OF h(5)] r show ?case by auto
qed simp

lemma frames_without:
  assumes "frames_ok w lo fs hi" and "at_least lo k" and "below k hi" and "(p, lf) \<in> set (left_of fs @ right_of fs)"
  shows "k \<notin> set (l_keys lf)"
  using frames_order [OF assms(1-3), of k] assms(4) by (auto simp: set_leaf_keys)

text \<open>The leaf of a key and its context.\<close>

lemma locate:
  "tree_ok w lo t hi \<Longrightarrow> frames_ok w lo fs hi \<Longrightarrow> at_least lo k \<Longrightarrow> below k hi \<Longrightarrow> depth_le d t \<Longrightarrow> frames_depth d fs \<Longrightarrow>
   \<exists>fs' pid lf lo' hi' d'. plug fs t = plug fs' (Lf pid lf) \<and> frames_ok w lo' fs' hi' \<and> at_least lo' k \<and> below k hi' \<and>
     tree_ok w lo' (Lf pid lf) hi' \<and> frames_depth d' fs' \<and> d' + length fs' = d + length fs"
proof (induction d t arbitrary: lo hi fs rule: depth_le.induct)
  case (1 d pid lf)
  then show ?case by blast
next
  case (3 d pid ks ts)
  let ?i = "bisect_right ks k"
  have ok: "trees_ok w lo ks ts hi" using 3(2) by simp
  have srt: "sorted ks" using trees_ok_keys [OF ok] strict_sorted_imp_sorted by blast
  have len: "length ts = Suc (length ks)" by (rule trees_ok_length [OF ok])
  have i: "?i \<le> length ks" by (rule bisect_right_spec(1) [OF srt])
  let ?ks1 = "take ?i ks" and ?ks2 = "drop ?i ks" and ?ls = "take ?i ts" and ?t = "ts ! ?i" and ?rs = "drop (Suc ?i) ts"
  have ts: "ts = ?ls @ ?t # ?rs" using i len by (simp add: id_take_nth_drop [symmetric])
  have ks: "ks = ?ks1 @ ?ks2" by simp
  have l: "length ?ls = length ?ks1" using i len by simp
  have ok': "trees_ok w lo (?ks1 @ ?ks2) (?ls @ ?t # ?rs) hi" using ok ts by simp
  have "at_least (hole_lo lo ?ks1) k"
  proof (cases "?i = 0")
    case False
    then have "last ?ks1 = ks ! (?i - 1)" using i by (cases ?i) (simp_all add: take_Suc_conv_app_nth)
    moreover have "ks ! (?i - 1) \<le> k" using bisect_right_spec(2) [OF srt, where i = "?i - 1" and key = k] False i by simp
    ultimately show ?thesis using False i by (auto simp: hole_lo_def)
  qed (use 3(4) in simp)
  moreover have "below k (hole_hi ?ks2 hi)"
  proof (cases "?i < length ks")
    case True
    then show ?thesis using bisect_right_spec(2) [OF srt True, of k] by (simp add: hole_hi_def hd_drop_conv_nth not_le)
  qed (use 3(5) in simp)
  moreover have "tree_ok w (hole_lo lo ?ks1) ?t (hole_hi ?ks2 hi)" by (rule trees_ok_hole [OF l ok'])
  moreover have "frames_ok w (hole_lo lo ?ks1) ((pid, ?ks1, ?ls, ?ks2, ?rs) # fs) (hole_hi ?ks2 hi)"
  proof -
    have "tree_ok w lo (Nd pid (?ks1 @ ?ks2) (?ls @ ?t # ?rs)) hi" using 3(2) ts by simp
    then show ?thesis using 3(3) l unfolding frames_ok.simps by blast
  qed
  moreover have d: "\<forall>u \<in> set ts. depth_le d u" using 3(6) by simp
  moreover have "frames_depth d ((pid, ?ks1, ?ls, ?ks2, ?rs) # fs)"
    using d 3(7) by (auto dest: in_set_takeD in_set_dropD)
  moreover have mem: "?t \<in> set ts" using i len by simp
  ultimately obtain fs' p lf lo' hi' d' where
    "plug ((pid, ?ks1, ?ls, ?ks2, ?rs) # fs) ?t = plug fs' (Lf p lf) \<and> frames_ok w lo' fs' hi' \<and> at_least lo' k \<and> below k hi' \<and>
     tree_ok w lo' (Lf p lf) hi' \<and> frames_depth d' fs' \<and> d' + length fs' = d + length ((pid, ?ks1, ?ls, ?ks2, ?rs) # fs)"
    using 3(1) [OF mem, of "hole_lo lo ?ks1" "hole_hi ?ks2 hi" "(pid, ?ks1, ?ls, ?ks2, ?rs) # fs"] by blast
  moreover have "plug ((pid, ?ks1, ?ls, ?ks2, ?rs) # fs) ?t = plug fs (Nd pid ks ts)" using ts by simp
  ultimately show ?case by force
qed simp

section \<open>Pages\<close>

text \<open>The pages of a tree, and of its context around a hole whose subtree starts at page \<open>c\<close>.\<close>

fun stored :: "(int \<Rightarrow> byte list option) \<Rightarrow> tree \<Rightarrow> bool" where
  "stored h (Lf pid lf) = (h pid = Some (leaf_image lf))"
| "stored h (Nd pid ks ts) =
     (h pid = Some (node_image \<lparr>n_keys = ks, n_children = map pid_of ts\<rparr>) \<and> (\<forall>t \<in> set ts. stored h t))"

fun frames_stored :: "(int \<Rightarrow> byte list option) \<Rightarrow> frame list \<Rightarrow> int \<Rightarrow> bool" where
  "frames_stored h [] c = True"
| "frames_stored h ((pid, ks1, ls, ks2, rs) # fs) c =
     (h pid = Some (node_image \<lparr>n_keys = ks1 @ ks2, n_children = map pid_of ls @ c # map pid_of rs\<rparr>) \<and>
      (\<forall>t \<in> set ls \<union> set rs. stored h t) \<and> frames_stored h fs pid)"

lemma stored_cong: "(\<And>p. p \<in> set (pids t) \<Longrightarrow> h' p = h p) \<Longrightarrow> stored h' t = stored h t"
  by (induction h t rule: stored.induct) auto

lemma frames_stored_cong: "(\<And>p. p \<in> set (frame_pids fs) \<Longrightarrow> h' p = h p) \<Longrightarrow> frames_stored h' fs c = frames_stored h fs c"
proof (induction h fs c rule: frames_stored.induct)
  case (2 h pid ks1 ls ks2 rs fs c)
  have "stored h' t = stored h t" if "t \<in> set ls \<union> set rs" for t
    using that 2(2) by (intro stored_cong) auto
  moreover have "frames_stored h' fs pid = frames_stored h fs pid" using 2 by simp
  ultimately show ?case using 2(2) by simp
qed simp

lemma stored_plug: "stored h (plug fs t) \<longleftrightarrow> frames_stored h fs (pid_of t) \<and> stored h t"
  by (induction fs t rule: plug.induct) auto

lemma stored_held: "stored h t \<Longrightarrow> p \<in> set (pids t) \<Longrightarrow> h p \<noteq> None"
  by (induction h t rule: stored.induct) auto

lemma frames_stored_held: "frames_stored h fs c \<Longrightarrow> p \<in> set (frame_pids fs) \<Longrightarrow> h p \<noteq> None"
  by (induction h fs c rule: frames_stored.induct) (auto dest: stored_held)

end
