(* ===== verification/Btree_Leaves.thy ===== *)
theory Btree_Leaves
  imports Btree_Tree
begin

text \<open>
  The leaves of a B+ tree as a map, and what inserting into a leaf and splitting it do to
  them, for keys of one width that inner nodes can hold without overrunning their page.
\<close>

section \<open>Widths of keys\<close>

text \<open>
  The last child of an inner node fits behind its entries whenever the entries fit: the entries
  of a full node leave at least its four bytes.
\<close>

definition safe_width :: "nat \<Rightarrow> bool" where
  "safe_width w \<longleftrightarrow> w \<le> 2000 \<and> 4 \<le> 4086 mod (w + 6)"

lemma safe_width_fits:
  assumes "safe_width w" and "10 + n * (w + 6) \<le> 4096"
  shows "14 + n * (w + 6) \<le> 4096"
proof -
  have "n \<le> 4086 div (w + 6)" using assms(2) by (simp add: less_eq_div_iff_mult_less_eq)
  then have "n * (w + 6) \<le> 4086 div (w + 6) * (w + 6)" by (rule mult_le_mono1)
  also have "\<dots> + 4 \<le> 4086" using assms(1) div_mult_mod_eq [of 4086 "w + 6"] unfolding safe_width_def by linarith
  finally show ?thesis by simp
qed

lemma fixed_widths_safe: "w \<in> {1, 2, 4, 8} \<Longrightarrow> safe_width w"
  by (auto simp: safe_width_def)

lemma width_sums:
  "\<forall>k \<in> set ks. length k = w \<Longrightarrow> sum_list (map (\<lambda>k. length k + c) ks) = length ks * (w + c)" for ks :: "key list"
  by (induction ks) simp_all

lemma node_size_width: "\<forall>k \<in> set ks. length k = w \<Longrightarrow> node_size ks = 14 + length ks * (w + 6)"
  by (simp add: node_size_def node_end_def width_sums)

lemma node_end_width: "\<forall>k \<in> set ks. length k = w \<Longrightarrow> node_end ks = 10 + length ks * (w + 6)"
  by (simp add: node_end_def width_sums)

lemma leaf_size_width: "\<forall>k \<in> set (l_keys lf). length k = w \<Longrightarrow> leaf_size lf = 10 + length (l_keys lf) * (w + 11)"
  by (simp add: leaf_size_def width_sums)

section \<open>The leaves as a map\<close>

fun leaves_get :: "(int \<times> leaf) list \<Rightarrow> key \<Rightarrow> (int \<times> int) option" where
  "leaves_get [] k = None"
| "leaves_get ((p, lf) # ls) k = (case leaf_get lf k of Some v \<Rightarrow> Some v | None \<Rightarrow> leaves_get ls k)"

definition tree_map :: "tree \<Rightarrow> key \<Rightarrow> (int \<times> int) option" where
  "tree_map t = leaves_get (leaves t)"

lemma leaves_get_append: "leaves_get (xs @ ys) k = (case leaves_get xs k of Some v \<Rightarrow> Some v | None \<Rightarrow> leaves_get ys k)"
  by (induction xs k rule: leaves_get.induct) (auto split: option.splits)

lemma leaf_get_none: "k \<notin> set (l_keys lf) \<Longrightarrow> leaf_get lf k = None"
  unfolding leaf_get_def Let_def by (metis nth_mem)

lemma leaves_get_none: "(\<And>p lf. (p, lf) \<in> set ls \<Longrightarrow> k \<notin> set (l_keys lf)) \<Longrightarrow> leaves_get ls k = None"
proof (induction ls)
  case (Cons x ls)
  obtain p lf where x: "x = (p, lf)" by force
  have "leaf_get lf k = None" using Cons.prems [of p lf] x by (intro leaf_get_none) simp
  then show ?case using Cons x by (metis leaves_get.simps(2) list.set_intros(2) option.simps(4))
qed simp

text \<open>The chain through the leaves.\<close>

fun linked :: "(int \<times> leaf) list \<Rightarrow> bool" where
  "linked [] = True"
| "linked [(p, lf)] = (next_leaf_id lf = 0)"
| "linked ((p, lf) # (q, lg) # ls) = (next_leaf_id lf = q \<and> linked ((q, lg) # ls))"

definition first_pid :: "(int \<times> leaf) list \<Rightarrow> int" where
  "first_pid ls = (case ls of [] \<Rightarrow> 0 | (q, lf) # ls' \<Rightarrow> q)"

lemma linked_Cons: "linked ((p, lf) # ls) \<longleftrightarrow> next_leaf_id lf = first_pid ls \<and> linked ls"
  by (cases ls) (auto simp: first_pid_def)

lemma first_pid_append: "first_pid (xs @ (p, lf) # ys) = first_pid (xs @ (p, lf') # ys')"
  by (cases xs) (auto simp: first_pid_def)

lemma linked_put: "linked (xs @ (p, lf) # ys) \<Longrightarrow> next_leaf_id lf' = next_leaf_id lf \<Longrightarrow> linked (xs @ (p, lf') # ys)"
  using first_pid_append [of _ p lf ys lf' ys] by (induction xs) (auto simp: linked_Cons)

lemma linked_split:
  "linked (xs @ (p, lf) # ys) \<Longrightarrow> next_leaf_id l = q \<Longrightarrow> next_leaf_id r = next_leaf_id lf \<Longrightarrow> linked (xs @ (p, l) # (q, r) # ys)"
  using first_pid_append [of _ p lf ys l "(q, r) # ys"] by (induction xs) (auto simp: linked_Cons first_pid_def)

section \<open>A leaf and its halves\<close>

lemma leaf_put_next [simp]: "next_leaf_id (leaf_put lf key v) = next_leaf_id lf"
  by (simp add: leaf_put_def Let_def)

lemma leaf_put_keys: "set (l_keys (leaf_put lf key v)) \<subseteq> insert key (set (l_keys lf))"
  by (auto simp: leaf_put_def Let_def insert_at_def dest: in_set_takeD in_set_dropD)

lemma leaf_put_length:
  assumes "leaf_ok lf"
  shows "length (l_keys (leaf_put lf key v)) \<le> Suc (length (l_keys lf))"
proof -
  have "bisect_left (l_keys lf) key \<le> length (l_keys lf)" using assms by (intro bisect_left_spec(1)) (simp add: leaf_ok_def)
  then show ?thesis by (simp add: leaf_put_def Let_def length_insert_at)
qed

lemma leaf_halves_get:
  assumes "leaf_ok lf" and "u32 r"
  shows "leaves_get [(p, leaf_left lf r), (q, leaf_right lf)] k = leaf_get lf k"
proof -
  let ?m = "length (l_keys lf) div 2"
  have ok: "leaf_ok (leaf_left lf r)" "leaf_ok (leaf_right lf)"
    using leaf_halves(1,2) [OF assms] assms(1)
    by (auto simp: leaf_ok_def leaf_right_def Let_def sorted_wrt_drop)
  have parts: "leaf_entries (leaf_left lf r) = take ?m (leaf_entries lf)" "leaf_entries (leaf_right lf) = drop ?m (leaf_entries lf)"
    by (simp_all add: leaf_entries_def leaf_left_def leaf_right_def Let_def take_zip drop_zip)
  have e: "map_of (leaf_entries lf) k = (case map_of (take ?m (leaf_entries lf)) k of
      Some x \<Rightarrow> Some x | None \<Rightarrow> map_of (drop ?m (leaf_entries lf)) k)"
    by (metis append_take_drop_id map_add_def map_of_append)
  show ?thesis
  proof (cases "k \<in> set (l_keys (leaf_right lf))")
    case True
    then have "leaf_get (leaf_left lf r) k = None" by (rule leaf_halves(3) [OF assms])
    moreover have "k \<notin> set (l_keys (leaf_left lf r))"
    proof -
      have "distinct (take ?m (l_keys lf) @ drop ?m (l_keys lf))" using assms(1) by (simp add: leaf_ok_def)
      then show ?thesis using True by (auto simp: leaf_left_def leaf_right_def Let_def simp del: append_take_drop_id)
    qed
    then have "map_of (take ?m (leaf_entries lf)) k = None"
      using leaf_entries_parts(1) [of "leaf_left lf r"] ok(1) unfolding parts [symmetric]
      by (simp add: map_of_eq_None_iff leaf_ok_def flip: set_map)
    ultimately show ?thesis using e by (simp add: leaf_get_map [OF ok(2)] leaf_get_map [OF assms(1)] parts split: option.splits)
  next
    case False
    then have "map_of (drop ?m (leaf_entries lf)) k = None"
      using leaf_entries_parts(1) [of "leaf_right lf"] ok(2) unfolding parts [symmetric]
      by (simp add: map_of_eq_None_iff leaf_ok_def flip: set_map)
    then show ?thesis
      using e leaf_get_none [OF False] by (auto simp: leaf_get_map [OF ok(1)] leaf_get_map [OF assms(1)] parts split: option.splits bool.splits)
  qed
qed

text \<open>A leaf that overflows splits into two that fit, around the first key of the right one.\<close>

lemma leaf_put_below:
  assumes "leaf_in w lo lf hi" and "u32 (fst v)" and "u32 (snd v)" and "length k = w" and "at_least lo k" and "below k hi"
  shows "leaf_ok (leaf_put lf k v)" and "\<forall>x \<in> set (l_keys (leaf_put lf k v)). length x = w \<and> at_least lo x \<and> below x hi"
  using assms leaf_put_ok [of lf v k] by (auto simp: leaf_in_def dest: subsetD [OF leaf_put_keys])

lemma leaf_split:
  assumes "safe_width w" and lf: "leaf_in w lo lf hi" and v: "u32 (fst v)" "u32 (snd v)" and k: "length k = w" "at_least lo k" "below k hi"
    and big: "\<not> leaf_size (leaf_put lf k v) \<le> 4096" and "u32 q" and key: "key = hd (l_keys (leaf_right (leaf_put lf k v)))"
  shows "leaf_in w lo (leaf_left (leaf_put lf k v) q) (Some key)" and "leaf_in w (Some key) (leaf_right (leaf_put lf k v)) hi"
    and "length key = w" and "above lo key" and "below key hi" and "leaf_serialize (leaf_put lf k v) = Inl ValueError"
proof -
  let ?lf = "leaf_put lf k v" and ?w = "w + 11"
  let ?n = "length (l_keys lf)" and ?m = "length (l_keys ?lf)"
  let ?i = "?m div 2" and ?ks = "l_keys ?lf"
  note ok = leaf_put_below [OF lf v k]
  have wd: "\<forall>x \<in> set (l_keys lf). length x = w" "\<forall>x \<in> set ?ks. length x = w" using lf ok(2) by (simp_all add: leaf_in_def)
  have n: "10 + ?n * ?w \<le> 4096" "\<not> 10 + ?m * ?w \<le> 4096"
    using lf big leaf_size_width [OF wd(1)] leaf_size_width [OF wd(2)] by (simp_all add: leaf_in_def)
  have m: "?m \<le> Suc ?n" using lf by (intro leaf_put_length) (simp add: leaf_in_def)
  have "10 + 1 * ?w \<le> 4096" using assms(1) by (simp add: safe_width_def)
  have two: "2 \<le> ?m"
  proof (rule ccontr)
    assume "\<not> 2 \<le> ?m"
    then have "?m * ?w \<le> 1 * ?w" by (intro mult_le_mono1) simp
    then show False using n(2) \<open>10 + 1 * ?w \<le> 4096\<close> by linarith
  qed
  have fits: "10 + j * ?w \<le> 4096" if "j \<le> ?n" for j using mult_le_mono1 [OF that, of ?w] n(1) by linarith
  have mn: "?i \<le> ?n" "?m - ?i \<le> ?n" "0 < ?i" "?i < ?m" using m two by linarith+
  have cut: "?ks = take ?i ?ks @ key # drop (Suc ?i) ?ks" "key = ?ks ! ?i"
    using mn(4) id_take_nth_drop [of ?i ?ks] by (simp_all add: key leaf_right_def Let_def hd_drop_conv_nth)
  have srt: "sorted_wrt (<) ?ks" using ok(1) by (simp add: leaf_ok_def strict_sorted_iff)
  then have lt: "\<forall>x \<in> set (take ?i ?ks). x < key" and gt: "\<forall>x \<in> set (drop (Suc ?i) ?ks). key < x"
    by (subst (asm) cut(1), simp add: sorted_wrt_append)+
  have mem: "key \<in> set ?ks" using cut(2) mn(4) by simp
  then show "length key = w" "below key hi" using ok(2) by simp_all
  have "?ks ! 0 \<in> set (take ?i ?ks)" using mn(3,4) by (auto simp: in_set_conv_nth intro!: exI [of _ 0])
  then have "at_least lo (?ks ! 0)" "?ks ! 0 < key" using ok(2) lt by (blast dest: in_set_takeD)+
  then show "above lo key" by (rule above_trans)
  have okl: "leaf_ok (leaf_left ?lf q)" "leaf_wf (leaf_right ?lf)" using leaf_halves(1,2) [OF ok(1) assms(9)] .
  have okr: "leaf_ok (leaf_right ?lf)" using okl(2) ok(1) by (simp add: leaf_ok_def leaf_right_def Let_def sorted_wrt_drop)
  have L: "l_keys (leaf_left ?lf q) = take ?i ?ks" and R: "l_keys (leaf_right ?lf) = drop ?i ?ks"
    by (simp_all add: leaf_left_def leaf_right_def Let_def)
  have dr: "drop ?i ?ks = key # drop (Suc ?i) ?ks" using Cons_nth_drop_Suc [OF mn(4)] cut(2) by simp
  have wl: "\<forall>x \<in> set (l_keys (leaf_left ?lf q)). length x = w" "\<forall>x \<in> set (l_keys (leaf_right ?lf)). length x = w"
    unfolding L R using wd(2) by (blast dest: in_set_takeD in_set_dropD)+
  have "leaf_size (leaf_left ?lf q) \<le> 4096" using leaf_size_width [OF wl(1)] fits [OF mn(1)] mn(4) by (simp add: L)
  then show "leaf_in w lo (leaf_left ?lf q) (Some key)" using okl(1) lt ok(2) by (auto simp: leaf_in_def L dest: in_set_takeD)
  have "leaf_size (leaf_right ?lf) \<le> 4096"
    using leaf_size_width [OF wl(2)] fits [OF mn(2)] by (simp add: R)
  then show "leaf_in w (Some key) (leaf_right ?lf) hi"
    using okr gt ok(2) mem by (auto simp: leaf_in_def R dr dest: in_set_dropD)
  have "?m < 65536" using m fits [of ?n] by (simp) (use n(1) mult_le_mono2 [of 11 ?w ?n] in linarith)
  then show "leaf_serialize ?lf = Inl ValueError" using leaf_serialize_image big ok(1) by (simp add: leaf_ok_def)
qed

text \<open>Replacing a leaf by leaves that answer the same but for one key.\<close>

lemma leaves_get_replace:
  assumes "\<And>x. leaves_get X x = (if x = k then r else leaves_get Y x)" and "\<And>p lf. (p, lf) \<in> set (ls @ rs) \<Longrightarrow> k \<notin> set (l_keys lf)"
  shows "leaves_get (ls @ X @ rs) = (leaves_get (ls @ Y @ rs))(k := r)"
proof
  fix x
  have "leaves_get ls k = None" "leaves_get rs k = None" using assms(2) by (intro leaves_get_none; fastforce)+
  then show "leaves_get (ls @ X @ rs) x = ((leaves_get (ls @ Y @ rs))(k := r)) x"
    by (simp add: leaves_get_append assms(1) split: option.splits)
qed

end
