(* ===== verification/Btree_Split.thy ===== *)
theory Btree_Split
  imports Btree_Leaves
begin

text \<open>
  \<open>_insert_into_parent\<close> of \<open>src/tinydb/btree.py\<close> on the tree behind the pages: on any page store
  with the laws of the locale \<open>tree_store\<close> the parent of a split node takes its new sibling,
  splitting in turn when it is full, up to a new root.
\<close>

section \<open>Page stores\<close>

text \<open>
  What a tree needs of its page store: reading a page held, writing one, and allocating a page
  not held, for as long as there is room.
\<close>

lemma frame_node:
  assumes "frames_ok w lo ((pid, ks1, ls, ks2, rs) # fs) hi" and "u32 c"
  shows "node_wf \<lparr>n_keys = ks1 @ ks2, n_children = map pid_of ls @ c # map pid_of rs\<rparr>"
    and "node_size (ks1 @ ks2) \<le> 4096" and "u32 pid"
proof -
  obtain lo' hi' t where h: "length ls = length ks1" "tree_ok w lo' (Nd pid (ks1 @ ks2) (ls @ t # rs)) hi'"
    using assms(1) by auto
  then have ok: "trees_ok w lo' (ks1 @ ks2) (ls @ t # rs) hi'" by simp
  show "node_wf \<lparr>n_keys = ks1 @ ks2, n_children = map pid_of ls @ c # map pid_of rs\<rparr>"
    using trees_ok_length [OF ok] trees_ok_u32 [OF ok] assms(2) by (simp add: node_wf_def)
  show "node_size (ks1 @ ks2) \<le> 4096" "u32 pid" using h(2) by simp_all
qed

lemma frame_bisect:
  assumes "frames_ok w lo ((pid, ks1, ls, ks2, rs) # fs) hi" and "at_least lo k" and "below k hi"
  shows "bisect_right (ks1 @ ks2) k = length ls"
proof -
  obtain lo' hi' t where h: "length ls = length ks1" "lo = hole_lo lo' ks1" "hi = hole_hi ks2 hi'"
    "trees_ok w lo' (ks1 @ ks2) (ls @ t # rs) hi'" using assms(1) by auto
  then show ?thesis using bisect_hole [of ks1 ks2 lo' k hi'] trees_ok_keys [OF h(4)] assms(2,3) by simp
qed

text \<open>The range of the hole lies in the range of the node around it.\<close>

lemma frames_up:
  assumes "frames_ok w lo ((pid, ks1, ls, ks2, rs) # fs) hi"
  obtains lo' hi' where "frames_ok w lo' fs hi'" and "\<And>k. at_least lo k \<Longrightarrow> below k hi \<Longrightarrow> at_least lo' k \<and> below k hi'"
proof -
  obtain lo' hi' t where h: "lo = hole_lo lo' ks1" "hi = hole_hi ks2 hi'"
    "trees_ok w lo' (ks1 @ ks2) (ls @ t # rs) hi'" "frames_ok w lo' fs hi'" using assms by auto
  show ?thesis using that [OF h(4)] hole_range [OF h(3)] h(1,2) by simp
qed

lemma bindS_on_pages: "c s = (Inr x, s') \<Longrightarrow> bindS (on_pages c) f (s, root) = f x (s', root)"
  by (simp add: bindS_def on_pages_def)

lemma bindS_lifted: "bindS (liftE (Inr x)) f = f x"
  by (simp add: bindS_def liftE_def fun_eq_iff)

lemma parent_splits:
  assumes "root \<noteq> left" and "find_parent io fuel root left k s = Inr parent" and "io_read io parent s = Inr page"
    and "inode_deserialize page = Inr nd" and "keys = insert_at (bisect_left (n_keys nd) k) k (n_keys nd)"
    and "children = insert_at (bisect_left (n_keys nd) k + 1) right (n_children nd)"
    and "inode_serialize \<lparr>n_keys = keys, n_children = children\<rparr> = Inl ValueError"
    and "inode_serialize \<lparr>n_keys = take (length keys div 2) keys, n_children = take (length keys div 2 + 1) children\<rparr> = Inr left_page"
    and "io_write io parent left_page s = (Inr (), s1)" and "io_alloc io s1 = (Inr p, s2)"
    and "inode_serialize \<lparr>n_keys = drop (length keys div 2 + 1) keys, n_children = drop (length keys div 2 + 1) children\<rparr> = Inr right_page"
    and "io_write io p right_page s2 = (Inr (), s3)"
  shows "insert_into_parent io fuel (Suc depth) left k right (s, Some root) =
    insert_into_parent io fuel depth parent (keys ! (length keys div 2)) p (s3, Some root)"
  unfolding insert_into_parent.simps [of io fuel "Suc depth"]
  using assms(1-4,7-) unfolding assms(5,6)
  by (simp add: bindS_on_pages bindS_lifted Let_def is_value_error_def)

locale tree_store =
  fixes io :: "'s page_io" and inv :: "'s \<Rightarrow> bool" and held :: "'s \<Rightarrow> int \<Rightarrow> byte list option" and room :: "nat \<Rightarrow> 's \<Rightarrow> bool"
  assumes read_law: "inv s \<Longrightarrow> held s p = Some d \<Longrightarrow> io_read io p s = Inr d"
    and write_law: "inv s \<Longrightarrow> held s p \<noteq> None \<Longrightarrow> length d = 4096 \<Longrightarrow>
      \<exists>s'. io_write io p d s = (Inr (), s') \<and> inv s' \<and> held s' = (held s)(p \<mapsto> d) \<and> (\<forall>m. room m s \<longrightarrow> room m s')"
    and alloc_law: "inv s \<Longrightarrow> room (Suc n) s \<Longrightarrow>
      \<exists>p d s'. io_alloc io s = (Inr p, s') \<and> inv s' \<and> held s p = None \<and> u32 p \<and> held s' = (held s)(p \<mapsto> d) \<and>
        (\<forall>m. room (Suc m) s \<longrightarrow> room m s')"
    and room_law: "room (Suc n) s \<Longrightarrow> room n s"
    and zero_law: "inv s \<Longrightarrow> held s 0 = None"
begin

lemma room_less: "room (m + n) s \<Longrightarrow> room m s"
  by (induction n) (auto dest: room_law)

lemma write_step:
  assumes "inv s" and "held s p \<noteq> None" and "length d = 4096"
  obtains s' where "io_write io p d s = (Inr (), s')" and "inv s'" and "held s' = (held s)(p \<mapsto> d)" and "\<forall>m. room m s \<longrightarrow> room m s'"
  using write_law [OF assms] by blast

lemma alloc_step:
  assumes "inv s" and "room (Suc n) s"
  obtains p d s' where "io_alloc io s = (Inr p, s')" and "inv s'" and "held s p = None" and "u32 p"
    and "held s' = (held s)(p \<mapsto> d)" and "\<forall>m. room (Suc m) s \<longrightarrow> room m s'"
  using alloc_law [OF assms] by blast

lemma read_node:
  assumes "inv s" and "held s p = Some (node_image nd)" and "node_wf nd" and "node_size (n_keys nd) \<le> 4096"
  shows "io_read io p s = Inr (node_image nd)" and "get_item (node_image nd) 0 = Inr 2"
    and "inode_deserialize (node_image nd) = Inr nd"
  using read_law [OF assms(1,2)] node_image_type node_roundtrip [OF assms(3,4)] by simp_all

text \<open>A descent through a context takes one turn per frame.\<close>

lemma descend_frames:
  assumes "inv s"
  shows "frames_stored (held s) fs c \<Longrightarrow> frames_ok w lo fs hi \<Longrightarrow> at_least lo k \<Longrightarrow> below k hi \<Longrightarrow> u32 c \<Longrightarrow>
    descend io (length fs + n) (root_of fs c) k s = descend io n c k s"
proof (induction fs arbitrary: c lo hi n)
  case (Cons f fs)
  obtain pid ks1 ls ks2 rs where f: "f = (pid, ks1, ls, ks2, rs)" by (metis surj_pair)
  let ?nd = "\<lparr>n_keys = ks1 @ ks2, n_children = map pid_of ls @ c # map pid_of rs\<rparr>"
  note ok = Cons.prems(2) [unfolded f]
  note node = frame_node [OF ok Cons.prems(5)]
  have st: "held s pid = Some (node_image ?nd)" "frames_stored (held s) fs pid" using Cons.prems(1) f by simp_all
  obtain lo' hi' where up: "frames_ok w lo' fs hi'" "at_least lo' k \<and> below k hi'"
    using frames_up [OF ok] Cons.prems(3,4) by metis
  have ih: "descend io (length fs + Suc n) (root_of fs pid) k s = descend io (Suc n) pid k s"
    using Cons.IH [OF st(2) up(1)] up(2) node(3) by blast
  note rd = read_node [OF assms st(1), simplified, OF node(1,2)]
  have "get_item (map pid_of ls @ c # map pid_of rs) (int (length ls)) = Inr c"
    by (simp add: get_item_nonneg nth_append)
  then have "descend io (Suc n) pid k s = descend io n c k s"
    by (subst descend.simps) (simp add: rd frame_bisect [OF ok Cons.prems(3,4)])
  then show ?case using ih f by simp
qed simp

lemma find_parent_frames:
  assumes "inv s"
  shows "frames_stored (held s) fs c \<Longrightarrow> frames_ok w lo fs hi \<Longrightarrow> at_least lo k \<Longrightarrow> below k hi \<Longrightarrow> u32 c \<Longrightarrow>
    target \<notin> insert c (set (frame_pids fs)) \<Longrightarrow>
    find_parent io (length fs + n) (root_of fs c) target k s = find_parent io n c target k s"
proof (induction fs arbitrary: c lo hi n)
  case (Cons f fs)
  obtain pid ks1 ls ks2 rs where f: "f = (pid, ks1, ls, ks2, rs)" by (metis surj_pair)
  let ?nd = "\<lparr>n_keys = ks1 @ ks2, n_children = map pid_of ls @ c # map pid_of rs\<rparr>"
  note ok = Cons.prems(2) [unfolded f]
  note node = frame_node [OF ok Cons.prems(5)]
  have st: "held s pid = Some (node_image ?nd)" "frames_stored (held s) fs pid" using Cons.prems(1) f by simp_all
  obtain lo' hi' where up: "frames_ok w lo' fs hi'" "at_least lo' k \<and> below k hi'"
    using frames_up [OF ok] Cons.prems(3,4) by metis
  have ih: "find_parent io (length fs + Suc n) (root_of fs pid) target k s = find_parent io (Suc n) pid target k s"
    using Cons.IH [where n = "Suc n", OF st(2) up(1)] up(2) node(3) Cons.prems(6) f by auto
  note rd = read_node [OF assms st(1), simplified, OF node(1,2)]
  have "get_item (map pid_of ls @ c # map pid_of rs) (int (length ls)) = Inr c"
    by (simp add: get_item_nonneg nth_append)
  then have "find_parent io (Suc n) pid target k s = find_parent io n c target k s"
    using Cons.prems(6) by (subst find_parent.simps) (simp add: rd frame_bisect [OF ok Cons.prems(3,4)])
  then show ?case using ih f by simp
qed simp

lemma find_parent_found:
  assumes "inv s" and "frames_stored (held s) ((pid, ks1, ls, ks2, rs) # fs) c"
    and ok: "frames_ok w lo ((pid, ks1, ls, ks2, rs) # fs) hi" and "at_least lo k" and "below k hi" and "u32 c"
    and "c \<notin> insert pid (set (frame_pids fs))" and "length fs < fuel"
  shows "find_parent io fuel (root_of fs pid) c k s = Inr pid"
proof -
  obtain n where n: "fuel = length fs + Suc n" using assms(8) less_imp_Suc_add by fastforce
  let ?nd = "\<lparr>n_keys = ks1 @ ks2, n_children = map pid_of ls @ c # map pid_of rs\<rparr>"
  note node = frame_node [OF ok assms(6)]
  have st: "held s pid = Some (node_image ?nd)" "frames_stored (held s) fs pid" using assms(2) by simp_all
  obtain lo' hi' where up: "frames_ok w lo' fs hi'" "at_least lo' k \<and> below k hi'"
    using frames_up [OF ok] assms(4,5) by metis
  note rd = read_node [OF assms(1) st(1), simplified, OF node(1,2)]
  have "get_item (map pid_of ls @ c # map pid_of rs) (int (length ls)) = Inr c"
    by (simp add: get_item_nonneg nth_append)
  then have "find_parent io (Suc n) pid c k s = Inr pid"
    by (subst find_parent.simps) (simp add: rd frame_bisect [OF ok assms(4,5)])
  then show ?thesis
    using find_parent_frames [OF assms(1) st(2) up(1), of k c "Suc n"] up(2) node(3) assms(7) n by simp
qed

text \<open>A split is carried up the context: a new root, a larger node, or a split of that node.\<close>

lemma root_of_pids: "fs \<noteq> [] \<Longrightarrow> root_of fs c \<in> set (frame_pids fs)"
proof (induction fs c rule: root_of.induct)
  case (2 pid ks1 ls ks2 rs fs c)
  then show ?case by (cases fs) auto
qed simp

lemma bisect_left_gap:
  assumes "sorted_wrt (<) (ks1 @ ks2)" and "above (hole_lo lo ks1) k" and "below k (hole_hi ks2 hi)"
  shows "bisect_left (ks1 @ ks2) k = length ks1"
proof -
  have srt: "sorted (ks1 @ ks2)" by (rule strict_sorted_imp_sorted [OF assms(1)])
  have "bisect_right (ks1 @ ks2) k = length ks1"
    by (rule bisect_hole [OF assms(1) above_at_least [OF assms(2)] assms(3)])
  then have r: "(ks1 @ ks2) ! i \<le> k \<longleftrightarrow> i < length ks1" if "i < length (ks1 @ ks2)" for i
    using bisect_right_spec(2) [OF srt that, of k] by simp
  have ne: "x \<noteq> k" if x: "x \<in> set ks1" for x
  proof -
    have "ks1 \<noteq> []" using x by auto
    then have "x \<le> last ks1" "last ks1 < k"
      using srt x assms(2) by (cases ks1 rule: rev_cases; auto simp: sorted_append hole_lo_def)+
    then show ?thesis by auto
  qed
  have l: "(ks1 @ ks2) ! i < k \<longleftrightarrow> i < length ks1" if i: "i < length (ks1 @ ks2)" for i
    using r [OF i] ne by (auto simp: nth_append order.order_iff_strict split: if_splits)
  show ?thesis
  proof (rule antisym)
    note spec = bisect_left_spec [OF srt, where key = k]
    show "length ks1 \<le> bisect_left (ks1 @ ks2) k"
      using spec(2) [of "bisect_left (ks1 @ ks2) k"] l [of "bisect_left (ks1 @ ks2) k"] by (cases "bisect_left (ks1 @ ks2) k < length ks1") auto
    show "bisect_left (ks1 @ ks2) k \<le> length ks1"
      using spec(1) spec(2) [of "length ks1"] l [of "length ks1"] by (cases ks2) (auto simp: not_less)
  qed
qed

lemma insert_at_append: "insert_at (length xs) x (xs @ ys) = xs @ x # ys"
  by (simp add: insert_at_def)

lemma frames_insert:
  assumes "frames_ok w lo ((pid, ks1, ls, ks2, rs) # fs) hi" and "length k = w" and "above lo k" and "below k hi"
    and "tree_ok w lo l (Some k)" and "tree_ok w (Some k) r hi"
  obtains lo' hi' where "frames_ok w lo' fs hi'" and "trees_ok w lo' (ks1 @ k # ks2) (ls @ l # r # rs) hi'"
    and "bisect_left (ks1 @ ks2) k = length ks1" and "length ls = length ks1" and "length rs = length ks2"
    and "\<forall>x \<in> set (ks1 @ ks2). length x = w"
proof -
  obtain lo' hi' t where h: "length ls = length ks1" "lo = hole_lo lo' ks1" "hi = hole_hi ks2 hi'"
    "trees_ok w lo' (ks1 @ ks2) (ls @ t # rs) hi'" "frames_ok w lo' fs hi'" using assms(1) by auto
  note keys = trees_ok_keys [OF h(4)]
  have "trees_ok w lo' (ks1 @ k # ks2) (ls @ l # r # rs) hi'"
    using trees_ok_split [OF h(1,4) assms(2)] assms(3-6) h(2,3) by simp
  moreover have "bisect_left (ks1 @ ks2) k = length ks1"
    using bisect_left_gap [of ks1 ks2 lo' k hi'] keys assms(3,4) h(2,3) by simp
  ultimately show ?thesis using that [OF h(5)] h(1) keys trees_ok_length [OF h(4)] by auto
qed

text \<open>The image of an inner node whose keys have a safe width.\<close>

lemma node_of_trees:
  assumes "safe_width w" and "trees_ok w lo ks ts hi" and "10 + length ks * (w + 6) \<le> 4096"
  shows "inode_serialize \<lparr>n_keys = ks, n_children = map pid_of ts\<rparr> = Inr (node_image \<lparr>n_keys = ks, n_children = map pid_of ts\<rparr>)"
    and "length (node_image \<lparr>n_keys = ks, n_children = map pid_of ts\<rparr>) = 4096" and "node_size ks \<le> 4096"
proof -
  have w: "\<forall>k \<in> set ks. length k = w" using trees_ok_keys [OF assms(2)] by blast
  have "length ks \<le> length ks * (w + 6)" by simp
  then have n: "length ks < 65536" using assms(3) by linarith
  show sz: "node_size ks \<le> 4096" using safe_width_fits [OF assms(1,3)] by (simp add: node_size_width [OF w])
  have wf: "node_wf \<lparr>n_keys = ks, n_children = map pid_of ts\<rparr>"
    using trees_ok_length [OF assms(2)] trees_ok_u32 [OF assms(2)] by (simp add: node_wf_def)
  show "inode_serialize \<lparr>n_keys = ks, n_children = map pid_of ts\<rparr> = Inr (node_image \<lparr>n_keys = ks, n_children = map pid_of ts\<rparr>)"
    using inode_serialize_image [OF wf] n sz by simp
  show "length (node_image \<lparr>n_keys = ks, n_children = map pid_of ts\<rparr>) = 4096"
    using length_node_image [OF wf] sz by simp
qed

lemma node_too_big:
  assumes "trees_ok w lo ks ts hi" and "\<not> 10 + length ks * (w + 6) \<le> 4096" and "length ks < 65536"
  shows "inode_serialize \<lparr>n_keys = ks, n_children = map pid_of ts\<rparr> = Inl ValueError"
proof -
  have w: "\<forall>k \<in> set ks. length k = w" using trees_ok_keys [OF assms(1)] by blast
  have wf: "node_wf \<lparr>n_keys = ks, n_children = map pid_of ts\<rparr>"
    using trees_ok_length [OF assms(1)] trees_ok_u32 [OF assms(1)] by (simp add: node_wf_def)
  show ?thesis using inode_serialize_full [OF wf] assms(2,3) by (simp add: node_end_width [OF w])
qed

text \<open>The tree after an insertion, with what the pages hold.\<close>

definition tree_at :: "nat \<Rightarrow> 's \<Rightarrow> tree \<Rightarrow> bool" where
  "tree_at w s t \<longleftrightarrow> inv s \<and> stored (held s) t \<and> distinct (pids t) \<and> tree_ok w None t None"

lemma new_root:
  assumes "inv s" and "room (Suc n) s" and "safe_width w" and "stored (held s) l" and "stored (held s) r"
    and "distinct (pids l @ pids r)" and "length k = w" and "tree_ok w None l (Some k)" and "tree_ok w (Some k) r None"
  shows "\<exists>s' p. insert_into_parent io fuel depth (pid_of l) k (pid_of r) (s, Some (pid_of l)) = (Inr (), (s', Some p)) \<and>
    tree_at w s' (Nd p [k] [l, r]) \<and> (\<forall>m. room (Suc m) s \<longrightarrow> room m s')"
proof -
  obtain p d s1 where a: "io_alloc io s = (Inr p, s1)" "inv s1" "held s p = None" "u32 p"
    "held s1 = (held s)(p \<mapsto> d)" "\<forall>m. room (Suc m) s \<longrightarrow> room m s1"
    by (rule alloc_step [OF assms(1,2)])
  have ok: "trees_ok w None [k] [l, r] None" using assms(7-9) by simp
  have "10 + length [k] * (w + 6) \<le> 4096" using assms(3) by (simp add: safe_width_def)
  note im = node_of_trees [OF assms(3) ok this]
  let ?d = "node_image \<lparr>n_keys = [k], n_children = map pid_of [l, r]\<rparr>"
  have "held s1 p \<noteq> None" by (simp add: a(5))
  then obtain s2 where b: "io_write io p ?d s1 = (Inr (), s2)" "inv s2" "held s2 = (held s1)(p \<mapsto> ?d)"
    "\<forall>m. room m s1 \<longrightarrow> room m s2" by (rule write_step [OF a(2) _ im(2)])
  have new: "p \<notin> set (pids l)" "p \<notin> set (pids r)" using stored_held assms(4,5) a(3) by blast+
  have "stored (held s2) l = stored (held s) l" "stored (held s2) r = stored (held s) r"
    using new by (auto intro!: stored_cong simp: b(3) a(5))
  then have "tree_at w s2 (Nd p [k] [l, r])"
    using b(2,3) new assms(4-6) ok im(3) a(4) by (simp add: tree_at_def)
  moreover have "insert_into_parent io fuel depth (pid_of l) k (pid_of r) (s, Some (pid_of l)) = (Inr (), (s2, Some p))"
    using a(1) b(1) im(1) by (subst insert_into_parent.simps) (simp add: on_pages_def set_root_def bindS_def modifyS_def)
  ultimately show ?thesis using a(6) b(4) by blast
qed

text \<open>The parent takes the new child.\<close>

lemma parent_grows:
  assumes "inv s" and "safe_width w" and st: "frames_stored (held s) ((pid, ks1, ls, ks2, rs) # fs) (pid_of l)"
    and "stored (held s) l" and "stored (held s) r" and "distinct (frame_pids ((pid, ks1, ls, ks2, rs) # fs) @ pids l @ pids r)"
    and up: "frames_ok w lo' fs hi'" and ts: "trees_ok w lo' (ks1 @ k # ks2) (ls @ l # r # rs) hi'" and "u32 pid"
    and fits: "10 + length (ks1 @ k # ks2) * (w + 6) \<le> 4096"
  shows "\<exists>s'. io_write io pid (node_image \<lparr>n_keys = ks1 @ k # ks2, n_children = map pid_of (ls @ l # r # rs)\<rparr>) s = (Inr (), s') \<and>
    tree_at w s' (plug fs (Nd pid (ks1 @ k # ks2) (ls @ l # r # rs))) \<and> (\<forall>m. room m s \<longrightarrow> room m s')"
proof -
  let ?t = "Nd pid (ks1 @ k # ks2) (ls @ l # r # rs)"
  let ?d = "node_image \<lparr>n_keys = ks1 @ k # ks2, n_children = map pid_of (ls @ l # r # rs)\<rparr>"
  note im = node_of_trees [OF assms(2) ts fits]
  have "held s pid \<noteq> None" using st by simp
  then obtain s' where b: "io_write io pid ?d s = (Inr (), s')" "inv s'" "held s' = (held s)(pid \<mapsto> ?d)"
    "\<forall>m. room m s \<longrightarrow> room m s'" by (rule write_step [OF assms(1) _ im(2)])
  have old: "stored (held s) u" if "u \<in> set (ls @ l # r # rs)" for u using that st assms(4,5) by auto
  have away: "pid \<notin> set (pids u)" if "u \<in> set (ls @ l # r # rs)" for u using that assms(6) by auto
  have "stored (held s') u" if u: "u \<in> set (ls @ l # r # rs)" for u
  proof -
    have "stored (held s') u = stored (held s) u" using away [OF u] by (intro stored_cong) (auto simp: b(3))
    then show ?thesis using old [OF u] by simp
  qed
  then have "stored (held s') ?t" by (simp add: b(3))
  moreover have "frames_stored (held s') fs pid"
  proof -
    have "frames_stored (held s') fs pid = frames_stored (held s) fs pid"
      using assms(6) by (intro frames_stored_cong) (auto simp: b(3))
    then show ?thesis using st by simp
  qed
  moreover have "distinct (pids (plug fs ?t))"
    using assms(6) unfolding distinct_pids_plug by auto
  moreover have "tree_ok w None (plug fs ?t) None" using frames_fill [OF up, of ?t] ts im(3) assms(9) by simp
  ultimately show ?thesis using b(1,2,4) by (auto simp: tree_at_def stored_plug)
qed

text \<open>The parent is split: its page keeps the left half, a new page takes the right one.\<close>

lemma stored_after:
  assumes "stored (held s) t" and "held s' = (held s)(p \<mapsto> d)" and "p \<notin> set (pids t)"
  shows "stored (held s') t"
proof -
  have "stored (held s') t = stored (held s) t" using assms(3) by (intro stored_cong) (auto simp: assms(2))
  then show ?thesis using assms(1) by simp
qed

lemma frames_stored_after:
  assumes "frames_stored (held s) fs c" and "held s' = (held s)(p \<mapsto> d)" and "p \<notin> set (frame_pids fs)"
  shows "frames_stored (held s') fs c"
proof -
  have "frames_stored (held s') fs c = frames_stored (held s) fs c"
    using assms(3) by (intro frames_stored_cong) (auto simp: assms(2))
  then show ?thesis using assms(1) by simp
qed

lemma node_halves:
  assumes "inv s" and "room (Suc n) s" and "safe_width w" and "\<forall>t \<in> set ts. stored (held s) t" and "held s pid \<noteq> None"
    and fst: "frames_stored (held s) fs pid" and dist: "distinct (frame_pids fs @ pid # concat (map pids ts))"
    and ok: "trees_ok w lo ks ts hi" and "u32 pid" and "ks \<noteq> []" and fits: "10 + (length ks - 1) * (w + 6) \<le> 4096"
    and mid: "m = length ks div 2"
  obtains s1 p s2 s3 where
    "io_write io pid (node_image \<lparr>n_keys = take m ks, n_children = map pid_of (take (m + 1) ts)\<rparr>) s = (Inr (), s1)"
    and "io_alloc io s1 = (Inr p, s2)"
    and "io_write io p (node_image \<lparr>n_keys = drop (m + 1) ks, n_children = map pid_of (drop (m + 1) ts)\<rparr>) s2 = (Inr (), s3)"
    and "inode_serialize \<lparr>n_keys = take m ks, n_children = map pid_of (take (m + 1) ts)\<rparr> =
      Inr (node_image \<lparr>n_keys = take m ks, n_children = map pid_of (take (m + 1) ts)\<rparr>)"
    and "inode_serialize \<lparr>n_keys = drop (m + 1) ks, n_children = map pid_of (drop (m + 1) ts)\<rparr> =
      Inr (node_image \<lparr>n_keys = drop (m + 1) ks, n_children = map pid_of (drop (m + 1) ts)\<rparr>)"
    and "inv s3" and "stored (held s3) (Nd pid (take m ks) (take (m + 1) ts))" and "stored (held s3) (Nd p (drop (m + 1) ks) (drop (m + 1) ts))"
    and "frames_stored (held s3) fs pid"
    and "distinct (frame_pids fs @ pids (Nd pid (take m ks) (take (m + 1) ts)) @ pids (Nd p (drop (m + 1) ks) (drop (m + 1) ts)))"
    and "tree_ok w lo (Nd pid (take m ks) (take (m + 1) ts)) (Some (ks ! m))" and "tree_ok w (Some (ks ! m)) (Nd p (drop (m + 1) ks) (drop (m + 1) ts)) hi"
    and "length (ks ! m) = w" and "above lo (ks ! m)" and "below (ks ! m) hi" and "\<forall>n. room (Suc n) s \<longrightarrow> room n s3"
proof -
  let ?kl = "take m ks" and ?tl = "take (m + 1) ts" and ?kr = "drop (m + 1) ks" and ?tr = "drop (m + 1) ts"
  let ?L = "node_image \<lparr>n_keys = ?kl, n_children = map pid_of ?tl\<rparr>" and ?R = "node_image \<lparr>n_keys = ?kr, n_children = map pid_of ?tr\<rparr>"
  have m: "m < length ks" using mid assms(10) by simp
  have len: "length ts = Suc (length ks)" by (rule trees_ok_length [OF ok])
  have ks: "ks = ?kl @ ks ! m # ?kr" using id_take_nth_drop [OF m] by simp
  have ok': "trees_ok w lo (?kl @ ks ! m # ?kr) (?tl @ ?tr) hi" unfolding ks [symmetric] append_take_drop_id by (rule ok)
  have cut: "trees_ok w lo ?kl ?tl (Some (ks ! m)) \<and> trees_ok w (Some (ks ! m)) ?kr ?tr hi \<and> length (ks ! m) = w \<and>
      above lo (ks ! m) \<and> below (ks ! m) hi"
    by (rule trees_ok_cut [OF _ ok']) (use m len in simp)
  have small: "10 + length xs * (w + 6) \<le> 4096" if "length xs \<le> length ks - 1" for xs :: "key list"
    using mult_le_mono1 [OF that, of "w + 6"] fits by linarith
  have L: "inode_serialize \<lparr>n_keys = ?kl, n_children = map pid_of ?tl\<rparr> = Inr ?L" "length ?L = 4096" "node_size ?kl \<le> 4096"
    using node_of_trees [OF assms(3) conjunct1 [OF cut] small] m by simp_all
  have R: "inode_serialize \<lparr>n_keys = ?kr, n_children = map pid_of ?tr\<rparr> = Inr ?R" "length ?R = 4096" "node_size ?kr \<le> 4096"
    using node_of_trees [OF assms(3) conjunct1 [OF conjunct2 [OF cut]] small] m by simp_all
  obtain s1 where w1: "io_write io pid ?L s = (Inr (), s1)" "inv s1" "held s1 = (held s)(pid \<mapsto> ?L)"
    "\<forall>n. room n s \<longrightarrow> room n s1" by (rule write_step [OF assms(1,5) L(2)])
  have "room (Suc n) s1" using w1(4) assms(2) by blast
  then obtain p d s2 where a: "io_alloc io s1 = (Inr p, s2)" "inv s2" "held s1 p = None" "u32 p"
    "held s2 = (held s1)(p \<mapsto> d)" "\<forall>n. room (Suc n) s1 \<longrightarrow> room n s2" by (rule alloc_step [OF w1(2)])
  have "held s2 p \<noteq> None" by (simp add: a(5))
  then obtain s3 where w2: "io_write io p ?R s2 = (Inr (), s3)" "inv s3" "held s3 = (held s2)(p \<mapsto> ?R)"
    "\<forall>n. room n s2 \<longrightarrow> room n s3" by (rule write_step [OF a(2) _ R(2)])
  have h3: "held s3 = (held s1)(p \<mapsto> ?R)" by (simp add: w2(3) a(5))
  have pnew: "held s p = None" "p \<noteq> pid" using a(3) by (auto simp: w1(3) split: if_splits)
  have new: "p \<notin> set (pids t)" "pid \<notin> set (pids t)" if "t \<in> set ts" for t
    using stored_held [of "held s" t p] assms(4) pnew dist that by auto
  have old: "stored (held s3) t" if t: "t \<in> set ts" for t
    using stored_after [OF stored_after [OF bspec [OF assms(4) t] w1(3) new(2) [OF t]] h3 new(1) [OF t]] .
  have st: "stored (held s3) (Nd pid ?kl ?tl)" "stored (held s3) (Nd p ?kr ?tr)"
    using old pnew(2) by (auto simp: h3 w1(3) dest: in_set_takeD in_set_dropD)
  have fnew: "p \<notin> set (frame_pids fs)" using frames_stored_held [OF fst] pnew(1) by blast
  have fr: "frames_stored (held s3) fs pid"
    using frames_stored_after [OF frames_stored_after [OF fst w1(3)] h3 fnew] dist by simp
  have "distinct (concat (map pids (?tl @ ?tr)))" using dist by simp
  then have d1: "distinct (concat (map pids ?tl))" "distinct (concat (map pids ?tr))"
      "set (concat (map pids ?tl)) \<inter> set (concat (map pids ?tr)) = {}"
    by (simp_all only: map_append concat_append distinct_append)
  have sub: "set (concat (map pids ?tl)) \<subseteq> set (concat (map pids ts))" "set (concat (map pids ?tr)) \<subseteq> set (concat (map pids ts))"
    by (auto dest: in_set_takeD in_set_dropD)
  have away: "p \<notin> set (concat (map pids ts))" using new(1) by auto
  have d2: "distinct (frame_pids fs @ pids (Nd pid ?kl ?tl) @ pids (Nd p ?kr ?tr))"
    using dist d1 sub away fnew pnew(2) unfolding pids.simps distinct_append distinct.simps set_append list.set by blast
  have t1: "tree_ok w lo (Nd pid ?kl ?tl) (Some (ks ! m))" "tree_ok w (Some (ks ! m)) (Nd p ?kr ?tr) hi"
    using cut assms(9) a(4) L(3) R(3) by simp_all
  have rm: "\<forall>n. room (Suc n) s \<longrightarrow> room n s3" using w1(4) a(6) w2(4) by blast
  show ?thesis by (rule that [OF w1(1) a(1) w2(1) L(1) R(1) w2(2) st fr d2 t1]) (use cut rm in blast)+
qed

lemma parent_insert:
  assumes "safe_width w"
  shows "inv s \<Longrightarrow> room (Suc (length fs)) s \<Longrightarrow> frames_stored (held s) fs (pid_of l) \<Longrightarrow> stored (held s) l \<Longrightarrow>
    stored (held s) r \<Longrightarrow> distinct (frame_pids fs @ pids l @ pids r) \<Longrightarrow> frames_ok w lo fs hi \<Longrightarrow> length k = w \<Longrightarrow>
    above lo k \<Longrightarrow> below k hi \<Longrightarrow> tree_ok w lo l (Some k) \<Longrightarrow> tree_ok w (Some k) r hi \<Longrightarrow> frames_depth d fs \<Longrightarrow>
    depth_le d l \<Longrightarrow> depth_le d r \<Longrightarrow> length fs < fuel \<Longrightarrow> length fs \<le> depth \<Longrightarrow>
    \<exists>s' t. insert_into_parent io fuel depth (pid_of l) k (pid_of r) (s, Some (root_of fs (pid_of l))) = (Inr (), (s', Some (pid_of t))) \<and>
      tree_at w s' t \<and> depth_le (Suc (d + length fs)) t \<and> leaves t = left_of fs @ leaves l @ leaves r @ right_of fs \<and>
      (\<forall>m. room (m + Suc (length fs)) s \<longrightarrow> room m s')"
proof (induction fs arbitrary: s l r k lo hi d depth)
  case Nil
  have lo: "lo = None" "hi = None" using Nil(7) by simp_all
  obtain s' p where "insert_into_parent io fuel depth (pid_of l) k (pid_of r) (s, Some (pid_of l)) = (Inr (), (s', Some p))"
    "tree_at w s' (Nd p [k] [l, r])" "\<forall>m. room (Suc m) s \<longrightarrow> room m s'"
    using new_root [OF Nil(1) _ assms Nil(4,5), of 0 k fuel depth] Nil lo by auto
  then show ?case using Nil(14,15) by (intro exI [of _ s'] exI [of _ "Nd p [k] [l, r]"]) simp
next
  case (Cons f fs)
  obtain pid ks1 ls ks2 rs where f: "f = (pid, ks1, ls, ks2, rs)" by (metis surj_pair)
  note ok = Cons.prems(7) [unfolded f]
  obtain lo' hi' where up: "frames_ok w lo' fs hi'" and ts: "trees_ok w lo' (ks1 @ k # ks2) (ls @ l # r # rs) hi'"
    and bl: "bisect_left (ks1 @ ks2) k = length ks1" and lens: "length ls = length ks1" "length rs = length ks2"
    and wd: "\<forall>x \<in> set (ks1 @ ks2). length x = w"
    by (rule frames_insert [OF ok Cons.prems(8-12)])
  let ?ks = "ks1 @ k # ks2" and ?ts = "ls @ l # r # rs"
  have ul: "u32 (pid_of l)" using tree_ok_u32 [OF Cons.prems(11)] .
  note node = frame_node [OF ok ul]
  note st = Cons.prems(3) [unfolded f]
  have held: "held s pid = Some (node_image \<lparr>n_keys = ks1 @ ks2, n_children = map pid_of ls @ pid_of l # map pid_of rs\<rparr>)"
    and fst: "frames_stored (held s) fs pid" and sides: "\<forall>t \<in> set ls \<union> set rs. stored (held s) t" using st by simp_all
  note dist = Cons.prems(6) [unfolded f]
  have pl: "pid_of l \<notin> insert pid (set (frame_pids fs))" using dist pid_of_pids [of l] by auto
  have root: "root_of fs pid \<noteq> pid_of l"
    using pl root_of_pids [of fs pid] by (cases fs) auto
  have fp: "find_parent io fuel (root_of fs pid) (pid_of l) k s = Inr pid"
    using find_parent_found [OF Cons.prems(1) st ok above_at_least [OF Cons.prems(9)] Cons.prems(10) ul pl] Cons.prems(16) by simp
  note rd = read_node [OF Cons.prems(1) held node(1), simplified, OF node(2)]
  have at: "insert_at (length ks1) k (ks1 @ ks2) = ?ks"
    "insert_at (length ks1 + 1) (pid_of r) (map pid_of ls @ pid_of l # map pid_of rs) = map pid_of ?ts"
    using insert_at_append [of "map pid_of ls @ [pid_of l]" "pid_of r" "map pid_of rs"] lens by (simp_all add: insert_at_append)
  have depth: "\<forall>t \<in> set ?ts. depth_le d t" using Cons.prems(13-15) f by auto
  have small: "10 + (length ?ks - 1) * (w + 6) \<le> 4096" using node(2) by (simp add: node_size_width [OF wd])
  show ?case
  proof (cases "10 + length ?ks * (w + 6) \<le> 4096")
    case True
    note im = node_of_trees [OF assms ts True]
    obtain s' where s': "io_write io pid (node_image \<lparr>n_keys = ?ks, n_children = map pid_of ?ts\<rparr>) s = (Inr (), s')"
      "tree_at w s' (plug fs (Nd pid ?ks ?ts))" "\<forall>m. room m s \<longrightarrow> room m s'"
      using parent_grows [OF Cons.prems(1) assms st Cons.prems(4,5) dist up ts node(3) True] by blast
    let ?t = "plug fs (Nd pid ?ks ?ts)"
    have "insert_into_parent io fuel depth (pid_of l) k (pid_of r) (s, Some (root_of fs pid)) = (Inr (), (s', Some (root_of fs pid)))"
      using root fp rd s'(1) im(1)
      by (subst insert_into_parent.simps) (simp add: bl at [simplified] on_pages_def Let_def)
    moreover have "depth_le (Suc d + length fs) ?t" using depth Cons.prems(13) f by (intro depth_le_plug) auto
    then have "depth_le (Suc (d + length (f # fs))) ?t" by (rule depth_le_mono) simp
    moreover have "room m s'" if "room (m + Suc (length (f # fs))) s" for m using s'(3) room_less [OF that] by blast
    ultimately show ?thesis using s'(2) f
      by (intro exI [of _ s'] exI [of _ ?t]) (simp add: pid_of_plug leaves_plug)
  next
    case False
    let ?m = "length ?ks div 2"
    have few: "length ?ks < 65536"
    proof -
      have "length ?ks - 1 \<le> (length ?ks - 1) * (w + 6)" by simp
      then show ?thesis using small by linarith
    qed
    obtain depth' where d': "depth = Suc depth'" "length fs \<le> depth'" using Cons.prems(17) by (cases depth) auto
    have rm: "room (Suc (Suc (length fs))) s" using Cons.prems(2) by simp
    have held': "held s pid \<noteq> None" and ne: "?ks \<noteq> []" by (simp_all add: held)
    have all: "\<forall>t \<in> set ?ts. stored (held s) t" using sides Cons.prems(4,5) by auto
    have dist': "distinct (frame_pids fs @ pid # concat (map pids ?ts))" using dist by auto
    obtain s1 p s2 s3 where
      w: "io_write io pid (node_image \<lparr>n_keys = take ?m ?ks, n_children = map pid_of (take (?m + 1) ?ts)\<rparr>) s = (Inr (), s1)"
        "io_alloc io s1 = (Inr p, s2)"
        "io_write io p (node_image \<lparr>n_keys = drop (?m + 1) ?ks, n_children = map pid_of (drop (?m + 1) ?ts)\<rparr>) s2 = (Inr (), s3)"
      and im: "inode_serialize \<lparr>n_keys = take ?m ?ks, n_children = map pid_of (take (?m + 1) ?ts)\<rparr> =
          Inr (node_image \<lparr>n_keys = take ?m ?ks, n_children = map pid_of (take (?m + 1) ?ts)\<rparr>)"
        "inode_serialize \<lparr>n_keys = drop (?m + 1) ?ks, n_children = map pid_of (drop (?m + 1) ?ts)\<rparr> =
          Inr (node_image \<lparr>n_keys = drop (?m + 1) ?ks, n_children = map pid_of (drop (?m + 1) ?ts)\<rparr>)"
      and h: "inv s3" "stored (held s3) (Nd pid (take ?m ?ks) (take (?m + 1) ?ts))" "stored (held s3) (Nd p (drop (?m + 1) ?ks) (drop (?m + 1) ?ts))"
        "frames_stored (held s3) fs pid"
        "distinct (frame_pids fs @ pids (Nd pid (take ?m ?ks) (take (?m + 1) ?ts)) @ pids (Nd p (drop (?m + 1) ?ks) (drop (?m + 1) ?ts)))"
        "tree_ok w lo' (Nd pid (take ?m ?ks) (take (?m + 1) ?ts)) (Some (?ks ! ?m))" "tree_ok w (Some (?ks ! ?m)) (Nd p (drop (?m + 1) ?ks) (drop (?m + 1) ?ts)) hi'"
        "length (?ks ! ?m) = w" "above lo' (?ks ! ?m)" "below (?ks ! ?m) hi'"
      and r3: "\<forall>n. room (Suc n) s \<longrightarrow> room n s3"
      by (rule node_halves [OF Cons.prems(1) rm assms all held' fst dist' ts node(3) ne small refl]) (rule that)
    let ?L = "Nd pid (take ?m ?ks) (take (?m + 1) ?ts)" and ?R = "Nd p (drop (?m + 1) ?ks) (drop (?m + 1) ?ts)"
    have dl: "depth_le (Suc d) ?L" "depth_le (Suc d) ?R" unfolding depth_le.simps using depth by (blast dest: in_set_takeD in_set_dropD)+
    have fd: "frames_depth (Suc d) fs" using Cons.prems(13) f by simp
    have room3: "room (Suc (length fs)) s3" using r3 rm by blast
    obtain s' t where t: "insert_into_parent io fuel depth' pid (?ks ! ?m) p (s3, Some (root_of fs pid)) = (Inr (), (s', Some (pid_of t)))"
      "tree_at w s' t" "depth_le (Suc (Suc d + length fs)) t" "leaves t = left_of fs @ leaves ?L @ leaves ?R @ right_of fs"
      "\<forall>m. room (m + Suc (length fs)) s3 \<longrightarrow> room m s'"
      using Cons.IH [of s3 ?L ?R lo' hi' "?ks ! ?m" "Suc d" depth', unfolded pid_of.simps,
        OF h(1) room3 h(4,2,3,5) up h(8-10,6,7) fd dl _ d'(2)] Cons.prems(16) by auto
    have big: "inode_serialize \<lparr>n_keys = ?ks, n_children = map pid_of ?ts\<rparr> = Inl ValueError"
      by (rule node_too_big [OF ts False few])
    note im' = im [folded take_map drop_map] and w' = w [folded take_map drop_map]
    have "insert_into_parent io fuel (Suc depth') (pid_of l) k (pid_of r) (s, Some (root_of fs pid)) =
        insert_into_parent io fuel depth' pid (?ks ! ?m) p (s3, Some (root_of fs pid))"
      by (rule parent_splits [OF root fp rd(1,3) _ _ big im'(1) w'(1,2) im'(2) w'(3)])
        (simp_all only: inode.simps bl at)
    then have "insert_into_parent io fuel depth (pid_of l) k (pid_of r) (s, Some (root_of fs pid)) = (Inr (), (s', Some (pid_of t)))"
      unfolding d'(1) t(1) .
    moreover have "concat (map leaves (take (?m + 1) ?ts)) @ concat (map leaves (drop (?m + 1) ?ts)) = concat (map leaves ?ts)"
      by (metis append_take_drop_id concat_append map_append)
    then have "leaves t = left_of (f # fs) @ leaves l @ leaves r @ right_of (f # fs)" using t(4) f by simp
    moreover have "room m s'" if "room (m + Suc (length (f # fs))) s" for m using that r3 t(5) by simp
    ultimately show ?thesis using t(2,3) f by (intro exI [of _ s'] exI [of _ t]) simp
  qed
qed

end

end
