(* ===== verification/Btree_Map.thy ===== *)
theory Btree_Map
  imports Btree_Split
begin

text \<open>
  A B+ tree of any height is a map, splits included: insertion, deletion, search and range
  scan of \<open>BTree\<close> do to the pages what updating, removing and reading do to a map.
\<close>

context tree_store
begin

section \<open>Finding the leaf of a key\<close>

text \<open>A leaf in its context, with the range of keys that belong to it.\<close>

definition at_leaf :: "nat \<Rightarrow> nat \<Rightarrow> 's \<Rightarrow> frame list \<Rightarrow> int \<Rightarrow> leaf \<Rightarrow> key option \<Rightarrow> key option \<Rightarrow> bool" where
  "at_leaf w d s fs pid lf lo hi \<longleftrightarrow> inv s \<and> frames_stored (held s) fs pid \<and> held s pid = Some (leaf_image lf) \<and>
     distinct (frame_pids fs @ [pid]) \<and> frames_ok w lo fs hi \<and> leaf_in w lo lf hi \<and> u32 pid \<and>
     (\<exists>d'. frames_depth d' fs \<and> d' + length fs = d)"

lemma find_leaf:
  assumes "tree_at w s t" and "depth_le d t"
  obtains fs pid lf lo hi where "t = plug fs (Lf pid lf)" and "at_leaf w d s fs pid lf lo hi" and "at_least lo k" and "below k hi"
proof -
  have t: "inv s" "stored (held s) t" "distinct (pids t)" "tree_ok w None t None" using assms(1) by (simp_all add: tree_at_def)
  obtain fs pid lf lo hi d' where l: "t = plug fs (Lf pid lf)" "frames_ok w lo fs hi" "at_least lo k" "below k hi"
    "tree_ok w lo (Lf pid lf) hi" "frames_depth d' fs" "d' + length fs = d"
    using locate [OF t(4), of "[]" k d] assms(2) by auto
  have "at_leaf w d s fs pid lf lo hi"
    using t l by (auto simp: at_leaf_def stored_plug distinct_pids_plug)
  then show ?thesis by (rule that [OF l(1) _ l(3,4)])
qed

lemma at_leaf_descend:
  assumes "at_leaf w d s fs pid lf lo hi" and "at_least lo k" and "below k hi" and "d \<le> fuel"
  shows "descend io fuel (root_of fs pid) k s = Inr (pid, leaf_image lf)"
    and "descend_to_leaf io fuel (root_of fs pid) k s = Inr (pid, lf)"
proof -
  have a: "inv s" "frames_stored (held s) fs pid" "held s pid = Some (leaf_image lf)" "frames_ok w lo fs hi"
    "leaf_wf lf" "leaf_size lf \<le> 4096" "u32 pid" "length fs \<le> d" using assms(1) by (auto simp: at_leaf_def leaf_in_def leaf_ok_def)
  obtain n where n: "fuel = length fs + n" using a(8) assms(4) le_Suc_ex order_trans by metis
  have "descend io n pid k s = Inr (pid, leaf_image lf)"
    using read_law [OF a(1,3)] by (subst descend.simps) (simp add: leaf_image_type(2))
  then show d: "descend io fuel (root_of fs pid) k s = Inr (pid, leaf_image lf)"
    unfolding n using descend_frames [OF a(1,2,4) assms(2,3) a(7)] by simp
  show "descend_to_leaf io fuel (root_of fs pid) k s = Inr (pid, lf)"
    using d leaf_roundtrip(2) [OF a(5,6)] by (simp add: descend_to_leaf_def)
qed

lemma at_leaf_tree:
  assumes "at_leaf w d s fs pid lf lo hi"
  shows "tree_at w s (plug fs (Lf pid lf))" and "depth_le d (plug fs (Lf pid lf))"
  using assms frames_fill [of w lo fs hi "Lf pid lf"] depth_le_plug [of _ fs "Lf pid lf"]
  by (auto simp: at_leaf_def tree_at_def stored_plug distinct_pids_plug)

lemma at_leaf_outside:
  assumes "at_leaf w d s fs pid lf lo hi" and "at_least lo k" and "below k hi" and "(p, lg) \<in> set (left_of fs @ right_of fs)"
  shows "k \<notin> set (l_keys lg)"
proof -
  have "frames_ok w lo fs hi" using assms(1) by (simp add: at_leaf_def)
  then show ?thesis by (rule frames_without) (rule assms(2-4))+
qed

lemma at_leaf_write:
  assumes "at_leaf w d s fs pid lf lo hi" and "leaf_in w lo lf' hi"
  obtains s' where "io_write io pid (leaf_image lf') s = (Inr (), s')" and "at_leaf w d s' fs pid lf' lo hi"
    and "held s' = (held s)(pid \<mapsto> leaf_image lf')" and "\<forall>m. room m s \<longrightarrow> room m s'"
proof -
  have len: "length (leaf_image lf') = 4096" using assms(2) by (intro length_leaf_image) (simp_all add: leaf_in_def leaf_ok_def)
  have a: "inv s" "held s pid \<noteq> None" "frames_stored (held s) fs pid" "pid \<notin> set (frame_pids fs)" using assms(1) by (auto simp: at_leaf_def)
  obtain s' where w: "io_write io pid (leaf_image lf') s = (Inr (), s')" "inv s'" "held s' = (held s)(pid \<mapsto> leaf_image lf')"
    "\<forall>m. room m s \<longrightarrow> room m s'" by (rule write_step [OF a(1,2) len])
  have "at_leaf w d s' fs pid lf' lo hi"
    using assms frames_stored_after [OF a(3) w(3) a(4)] w(2,3) by (simp add: at_leaf_def)
  then show ?thesis using that w by blast
qed

section \<open>The tree as a map\<close>

definition is_map :: "nat \<Rightarrow> nat \<Rightarrow> 's \<times> int option \<Rightarrow> (key \<Rightarrow> (int \<times> int) option) \<Rightarrow> bool" where
  "is_map w d st m \<longleftrightarrow> inv (fst st) \<and>
     (case snd st of
        None \<Rightarrow> m = Map.empty
      | Some root \<Rightarrow> \<exists>t. root = pid_of t \<and> tree_at w (fst st) t \<and> depth_le d t \<and> length (leaves t) \<le> Suc d \<and> linked (leaves t) \<and> tree_map t = m)"

lemma is_map_SomeE:
  assumes "is_map w d (s, Some root) m"
  obtains fs pid lf lo hi where "root = root_of fs pid" and "at_leaf w d s fs pid lf lo hi" and "at_least lo k" and "below k hi"
    and "linked (left_of fs @ (pid, lf) # right_of fs)" and "m = leaves_get (left_of fs @ [(pid, lf)] @ right_of fs)"
    and "length (left_of fs @ right_of fs) \<le> d"
proof -
  obtain t where t: "root = pid_of t" "tree_at w s t" "depth_le d t" "linked (leaves t)" "tree_map t = m" "length (leaves t) \<le> Suc d"
    using assms by (auto simp: is_map_def)
  obtain fs pid lf lo hi where l: "t = plug fs (Lf pid lf)" "at_leaf w d s fs pid lf lo hi" "at_least lo k" "below k hi"
    by (rule find_leaf [OF t(2,3)])
  show ?thesis using that [OF _ l(2-4)] t(1,4-6) l(1) by (simp add: pid_of_plug leaves_plug tree_map_def)
qed

lemma is_map_rewrite:
  assumes "at_leaf w d s fs pid lf' lo hi" and "at_least lo k" and "below k hi" and "next_leaf_id lf' = next_leaf_id lf"
    and "linked (left_of fs @ (pid, lf) # right_of fs)" and few: "length (left_of fs @ right_of fs) \<le> d" and "\<And>x. leaf_get lf' x = (if x = k then r else leaf_get lf x)"
  shows "is_map w d (s, Some (root_of fs pid)) ((leaves_get (left_of fs @ [(pid, lf)] @ right_of fs))(k := r))"
proof -
  have "leaves_get (left_of fs @ [(pid, lf')] @ right_of fs) = (leaves_get (left_of fs @ [(pid, lf)] @ right_of fs))(k := r)"
    by (rule leaves_get_replace)
      (use at_leaf_outside [OF assms(1-3)] assms(7) in \<open>auto split: option.splits\<close>)
  then have "tree_map (plug fs (Lf pid lf')) = (leaves_get (left_of fs @ [(pid, lf)] @ right_of fs))(k := r)"
    by (simp add: tree_map_def leaves_plug)
  moreover have "linked (leaves (plug fs (Lf pid lf')))" using linked_put [OF assms(5,4)] by (simp add: leaves_plug)
  moreover have "root_of fs pid = pid_of (plug fs (Lf pid lf'))" by (simp add: pid_of_plug)
  moreover have "length (leaves (plug fs (Lf pid lf'))) \<le> Suc d" using few by (simp add: leaves_plug)
  moreover have "inv s" using assms(1) by (simp add: at_leaf_def)
  ultimately show ?thesis unfolding is_map_def fst_conv snd_conv option.case using at_leaf_tree [OF assms(1)] by blast
qed

lemma search_map:
  assumes "is_map w d (s, root) m" and "d \<le> fuel"
  shows "bt_search io fuel k (s, root) = Inr (m k)"
proof (cases root)
  case None
  then show ?thesis using assms by (simp add: is_map_def bt_search_def)
next
  case (Some r)
  obtain fs pid lf lo hi where a: "r = root_of fs pid" "at_leaf w d s fs pid lf lo hi" "at_least lo k" "below k hi"
    "m = leaves_get (left_of fs @ [(pid, lf)] @ right_of fs)" using is_map_SomeE [OF assms(1) [unfolded Some]] by metis
  have "leaves_get (left_of fs) k = None" "leaves_get (right_of fs) k = None"
    using at_leaf_outside [OF a(2-4)] by (intro leaves_get_none; fastforce)+
  then have "m k = leaf_get lf k" by (simp add: a(5) leaves_get_append split: option.splits)
  then show ?thesis using at_leaf_descend(2) [OF a(2-4) assms(2)] Some a(1) by (simp add: bt_search_def)
qed

lemma delete_map:
  assumes "is_map w d (s, root) m" and "d \<le> fuel"
  shows "\<exists>s'. bt_delete io fuel k (s, root) = (Inr (), (s', root)) \<and> is_map w d (s', root) (m(k := None)) \<and> (\<forall>j. room j s \<longrightarrow> room j s')"
proof (cases root)
  case None
  then show ?thesis using assms by (auto simp: is_map_def bt_delete_def)
next
  case (Some r)
  obtain fs pid lf lo hi where a: "r = root_of fs pid" "at_leaf w d s fs pid lf lo hi" "at_least lo k" "below k hi"
    "linked (left_of fs @ (pid, lf) # right_of fs)" "m = leaves_get (left_of fs @ [(pid, lf)] @ right_of fs)"
    "length (left_of fs @ right_of fs) \<le> d"
    using is_map_SomeE [OF assms(1) [unfolded Some]] by metis
  note desc = at_leaf_descend(2) [OF a(2-4) assms(2)]
  have lf: "leaf_in w lo lf hi" "leaf_ok lf" using a(2) by (simp_all add: at_leaf_def leaf_in_def)
  let ?i = "bisect_left (l_keys lf) k"
  show ?thesis
  proof (cases "?i < length (l_keys lf) \<and> l_keys lf ! ?i = k")
    case True
    let ?lf = "leaf_kill lf ?i"
    have kin: "leaf_in w lo ?lf hi" using lf leaf_kill_ok [OF lf(2)] by (simp add: leaf_in_def leaf_kill_def leaf_size_def)
    obtain s' where w: "io_write io pid (leaf_image ?lf) s = (Inr (), s')" "at_leaf w d s' fs pid ?lf lo hi" "\<forall>j. room j s \<longrightarrow> room j s'"
      using at_leaf_write [OF a(2) kin] by metis
    have "leaf_serialize ?lf = Inr (leaf_image ?lf)" using kin by (intro leaf_roundtrip(1)) (simp_all add: leaf_in_def leaf_ok_def)
    then have "bt_delete io fuel k (s, root) = (Inr (), (s', root))"
      using desc Some a(1) True w(1) by (simp add: bt_delete_def on_pages_def Let_def leaf_kill_def)
    moreover have "is_map w d (s', root) (m(k := None))" unfolding Some a(1,6)
      by (rule is_map_rewrite [OF w(2) a(3,4) _ a(5,7)])
        (use leaf_kill_get [OF lf(2), of ?i] True in \<open>simp_all add: leaf_kill_def\<close>)
    ultimately show ?thesis using w(3) by blast
  next
    case False
    then have "k \<notin> set (l_keys lf)" using bisect_left_mem [of "l_keys lf" k] lf(2) by (auto simp: leaf_ok_def)
    then have none: "leaf_get lf x = (if x = k then None else leaf_get lf x)" for x using leaf_get_none by simp
    have "bt_delete io fuel k (s, root) = (Inr (), (s, root))"
      unfolding bt_delete_def Let_def using desc Some a(1) by (simp add: if_not_P [OF False])
    moreover have "is_map w d (s, root) (m(k := None))" unfolding Some a(1,6)
      by (rule is_map_rewrite [OF a(2-4) _ a(5,7) none]) simp
    ultimately show ?thesis by blast
  qed
qed

section \<open>Insertion\<close>

lemma is_map_mono: "is_map w d st m \<Longrightarrow> d \<le> e \<Longrightarrow> is_map w e st m"
  by (auto simp: is_map_def split: option.splits intro: depth_le_mono)

lemma insert_fits:
  assumes "at_leaf w d s fs pid lf lo hi" and "at_least lo k" and "below k hi" and "linked (left_of fs @ (pid, lf) # right_of fs)"
    and few: "length (left_of fs @ right_of fs) \<le> d" and "d \<le> fuel" and "length k = w" and "u32 (fst v)" and "u32 (snd v)" and "leaf_size (leaf_put lf k v) \<le> 4096"
  shows "\<exists>s'. bt_insert io fuel k v (s, Some (root_of fs pid)) = (Inr (), (s', Some (root_of fs pid))) \<and>
    is_map w d (s', Some (root_of fs pid)) ((leaves_get (left_of fs @ [(pid, lf)] @ right_of fs))(k \<mapsto> v)) \<and> (\<forall>j. room j s \<longrightarrow> room j s')"
proof -
  let ?lf = "leaf_put lf k v"
  have lf: "leaf_in w lo lf hi" "leaf_ok lf" using assms(1) by (simp_all add: at_leaf_def leaf_in_def)
  have lin: "leaf_in w lo ?lf hi" using leaf_put_below [OF lf(1) assms(8,9,7,2,3)] assms(10) by (simp add: leaf_in_def)
  obtain s' where w: "io_write io pid (leaf_image ?lf) s = (Inr (), s')" "at_leaf w d s' fs pid ?lf lo hi" "\<forall>j. room j s \<longrightarrow> room j s'"
    using at_leaf_write [OF assms(1) lin] by metis
  have "leaf_serialize ?lf = Inr (leaf_image ?lf)" using lin by (intro leaf_roundtrip(1)) (simp_all add: leaf_in_def leaf_ok_def)
  then have "bt_insert io fuel k v (s, Some (root_of fs pid)) = (Inr (), (s', Some (root_of fs pid)))"
    using at_leaf_descend(2) [OF assms(1-3,6)] w(1) by (simp add: bt_insert_def on_pages_def Let_def)
  moreover have "is_map w d (s', Some (root_of fs pid)) ((leaves_get (left_of fs @ [(pid, lf)] @ right_of fs))(k \<mapsto> v))"
    by (rule is_map_rewrite [OF w(2) assms(2,3) _ assms(4) few]) (simp_all add: leaf_put_get [OF lf(2) assms(8,9)])
  ultimately show ?thesis using w(3) by blast
qed

lemma insert_splits:
  assumes "safe_width w" and a: "at_leaf w d s fs pid lf lo hi" and k: "at_least lo k" "below k hi" and "linked (left_of fs @ (pid, lf) # right_of fs)"
    and few: "length (left_of fs @ right_of fs) \<le> d" and "d < fuel" and "length k = w" and v: "u32 (fst v)" "u32 (snd v)" and big: "\<not> leaf_size (leaf_put lf k v) \<le> 4096"
    and "room (Suc (Suc d)) s"
  shows "\<exists>s' root. bt_insert io fuel k v (s, Some (root_of fs pid)) = (Inr (), (s', Some root)) \<and>
    is_map w (Suc d) (s', Some root) ((leaves_get (left_of fs @ [(pid, lf)] @ right_of fs))(k \<mapsto> v)) \<and>
    (\<forall>j. room (j + Suc (Suc d)) s \<longrightarrow> room j s')"
proof -
  let ?lf = "leaf_put lf k v"
  let ?R = "leaf_right ?lf"
  let ?key = "hd (l_keys ?R)"
  have lf: "leaf_in w lo lf hi" "leaf_ok lf" and inv: "inv s" using a by (simp_all add: at_leaf_def leaf_in_def)
  have okp: "leaf_ok ?lf" by (rule leaf_put_ok [OF lf(2) v])
  obtain d' where d': "frames_depth d' fs" "d' + length fs = d" using a by (auto simp: at_leaf_def)
  obtain q dd s1 where q: "io_alloc io s = (Inr q, s1)" "inv s1" "held s q = None" "u32 q" "held s1 = (held s)(q \<mapsto> dd)"
    "\<forall>j. room (Suc j) s \<longrightarrow> room j s1" by (rule alloc_step [OF inv assms(12)])
  let ?L = "leaf_left ?lf q"
  note sp = leaf_split [OF assms(1) lf(1) v assms(8) k big q(4) refl]
  have images: "leaf_serialize ?L = Inr (leaf_image ?L)" "leaf_serialize ?R = Inr (leaf_image ?R)"
    "length (leaf_image ?L) = 4096" "length (leaf_image ?R) = 4096"
    using sp(1,2) by (simp_all add: leaf_in_def leaf_ok_def leaf_roundtrip(1) length_leaf_image)
  have hp: "held s pid \<noteq> None" "pid \<noteq> q" "pid \<notin> set (frame_pids fs)" using a q(3) by (auto simp: at_leaf_def)
  have fst: "frames_stored (held s) fs pid" "frames_ok w lo fs hi" "distinct (frame_pids fs)" using a by (simp_all add: at_leaf_def)
  have "held s1 pid \<noteq> None" using hp by (simp add: q(5))
  then obtain s2 where w2: "io_write io pid (leaf_image ?L) s1 = (Inr (), s2)" "inv s2" "held s2 = (held s1)(pid \<mapsto> leaf_image ?L)"
    "\<forall>j. room j s1 \<longrightarrow> room j s2" by (rule write_step [OF q(2) _ images(3)])
  have "held s2 q \<noteq> None" by (simp add: w2(3) q(5))
  then obtain s3 where w3: "io_write io q (leaf_image ?R) s2 = (Inr (), s3)" "inv s3" "held s3 = (held s2)(q \<mapsto> leaf_image ?R)"
    "\<forall>j. room j s2 \<longrightarrow> room j s3" by (rule write_step [OF w2(2) _ images(4)])
  have qf: "q \<notin> set (frame_pids fs)" using frames_stored_held [OF fst(1)] q(3) by blast
  have fr: "frames_stored (held s3) fs pid"
    by (rule frames_stored_after [OF frames_stored_after [OF frames_stored_after [OF fst(1) q(5) qf] w2(3) hp(3)] w3(3) qf])
  have rm: "room j s3" if "room (Suc j) s" for j using that q(6) w2(4) w3(4) by blast
  have "\<exists>s' t. insert_into_parent io fuel fuel (pid_of (Lf pid ?L)) ?key (pid_of (Lf q ?R)) (s3, Some (root_of fs (pid_of (Lf pid ?L)))) =
        (Inr (), (s', Some (pid_of t))) \<and>
      tree_at w s' t \<and> depth_le (Suc (d' + length fs)) t \<and>
      leaves t = left_of fs @ leaves (Lf pid ?L) @ leaves (Lf q ?R) @ right_of fs \<and>
      (\<forall>m. room (m + Suc (length fs)) s3 \<longrightarrow> room m s')"
    by (rule parent_insert [OF assms(1) w3(2) _ _ _ _ _ fst(2) sp(3-5)])
      (use rm room_less [of "Suc (Suc (length fs))" d' s] assms(7,12) d' fr hp qf fst(3) sp(1,2) q(4) a
        in \<open>auto simp: w3(3) w2(3) at_leaf_def add.commute\<close>)
  then obtain s' t where t: "insert_into_parent io fuel fuel pid ?key q (s3, Some (root_of fs pid)) = (Inr (), (s', Some (pid_of t)))"
      "tree_at w s' t" "depth_le (Suc d) t" "leaves t = left_of fs @ [(pid, ?L), (q, ?R)] @ right_of fs"
      "\<forall>m. room (m + Suc (length fs)) s3 \<longrightarrow> room m s'" using d'(2) by auto
  have get: "leaves_get [(pid, ?L), (q, ?R)] x = (if x = k then Some v else leaves_get [(pid, lf)] x)" for x
    unfolding leaf_halves_get [OF okp q(4)] leaf_put_get [OF lf(2) v] by (simp split: option.splits)
  have "bt_insert io fuel k v (s, Some (root_of fs pid)) = (Inr (), (s', Some (pid_of t)))"
    using at_leaf_descend(2) [OF a k less_imp_le [OF assms(7)]] sp(6) images(1,2) q(1) w2(1) w3(1) t(1)
    by (simp add: bt_insert_def bindS_on_pages Let_def is_value_error_def)
  moreover have "tree_map t = (leaves_get (left_of fs @ [(pid, lf)] @ right_of fs))(k \<mapsto> v)"
    unfolding tree_map_def t(4)
    by (rule leaves_get_replace [OF get at_leaf_outside [OF a k]])
  moreover have "linked (leaves t)"
    unfolding t(4) using linked_split [OF assms(5), of ?L q ?R] by (simp add: leaf_left_def leaf_right_def Let_def)
  moreover have "room j s'" if "room (j + Suc (Suc d)) s" for j
  proof -
    have "room ((j + Suc (Suc (length fs))) + d') s" using that unfolding d'(2) [symmetric] by (simp add: ac_simps)
    then have "room (Suc (j + Suc (length fs))) s" using room_less by fastforce
    then show ?thesis using rm t(5) by blast
  qed
  moreover have "inv s'" using t(2) by (simp add: tree_at_def)
  ultimately show ?thesis using t(2-4) few by (intro exI [of _ s'] exI [of _ "pid_of t"]) (auto simp: is_map_def)
qed

lemma insert_first:
  assumes "inv s" and "safe_width w" and "length k = w" and "u32 (fst v)" and "u32 (snd v)" and "room (Suc n) s"
  shows "\<exists>s' root. bt_insert io fuel k v (s, None) = (Inr (), (s', Some root)) \<and> is_map w d (s', Some root) [k \<mapsto> v] \<and>
    (\<forall>j. room (Suc j) s \<longrightarrow> room j s')"
proof -
  let ?lf = "\<lparr>l_keys = [k], l_values = [v], next_leaf_id = 0, l_tombstones = [False]\<rparr>"
  have wf: "leaf_ok ?lf" using assms(4,5) by (cases v) (simp add: leaf_ok_def leaf_wf_def u32_def)
  have lin: "leaf_in w None ?lf None" using assms(2,3) wf by (simp add: leaf_in_def leaf_size_def safe_width_def)
  have im: "leaf_serialize ?lf = Inr (leaf_image ?lf)" "length (leaf_image ?lf) = 4096"
    using lin by (simp_all add: leaf_in_def leaf_ok_def leaf_roundtrip(1) length_leaf_image)
  obtain p dd s1 where a: "io_alloc io s = (Inr p, s1)" "inv s1" "held s p = None" "u32 p" "held s1 = (held s)(p \<mapsto> dd)"
    "\<forall>j. room (Suc j) s \<longrightarrow> room j s1" by (rule alloc_step [OF assms(1,6)])
  have "held s1 p \<noteq> None" by (simp add: a(5))
  then obtain s2 where b: "io_write io p (leaf_image ?lf) s1 = (Inr (), s2)" "inv s2" "held s2 = (held s1)(p \<mapsto> leaf_image ?lf)"
    "\<forall>j. room j s1 \<longrightarrow> room j s2" by (rule write_step [OF a(2) _ im(2)])
  have "bt_insert io fuel k v (s, None) = (Inr (), (s2, Some p))"
    using a(1) b(1) im(1) by (simp add: bt_insert_def bindS_on_pages set_root_def modifyS_def)
  moreover have "leaf_get ?lf = [k \<mapsto> v]"
    using leaf_get_nth [OF wf, of 0] leaf_get_absent [OF wf] by (auto simp: fun_eq_iff)
  then have "is_map w d (s2, Some p) [k \<mapsto> v]"
    using b(2,3) a(4) lin by (auto simp: is_map_def tree_at_def tree_map_def fun_eq_iff split: option.splits intro!: exI [of _ "Lf p ?lf"])
  ultimately show ?thesis using a(6) b(4) by blast
qed

lemma insert_map:
  assumes "is_map w d (s, root) m" and "safe_width w" and "length k = w" and "u32 (fst v)" and "u32 (snd v)" and "d < fuel"
    and "room (d + 2) s"
  shows "\<exists>s' root'. bt_insert io fuel k v (s, root) = (Inr (), (s', root')) \<and> is_map w (Suc d) (s', root') (m(k \<mapsto> v)) \<and>
    (\<forall>j. room (j + (d + 2)) s \<longrightarrow> room j s')"
proof (cases root)
  case None
  have m: "m = Map.empty" "inv s" using assms(1) None by (simp_all add: is_map_def)
  have "room (Suc (Suc d)) s" using assms(7) by simp
  from insert_first [OF m(2) assms(2-5) this] obtain s' root' where i: "bt_insert io fuel k v (s, None) = (Inr (), (s', Some root'))"
    "is_map w (Suc d) (s', Some root') [k \<mapsto> v]" "\<forall>j. room (Suc j) s \<longrightarrow> room j s'" by blast
  have "room j s'" if "room (j + (d + 2)) s" for j
    using i(3) room_less [of "Suc j" "Suc d" s] that by (simp add: ac_simps)
  then show ?thesis using i m None by blast
next
  case (Some r)
  obtain fs pid lf lo hi where a: "r = root_of fs pid" "at_leaf w d s fs pid lf lo hi" "at_least lo k" "below k hi"
    "linked (left_of fs @ (pid, lf) # right_of fs)" "m = leaves_get (left_of fs @ [(pid, lf)] @ right_of fs)"
    "length (left_of fs @ right_of fs) \<le> d"
    using is_map_SomeE [OF assms(1) [unfolded Some]] by metis
  show ?thesis
  proof (cases "leaf_size (leaf_put lf k v) \<le> 4096")
    case True
    from insert_fits [OF a(2-5,7) less_imp_le [OF assms(6)] assms(3-5) True] show ?thesis
      unfolding Some a(1,6) using is_map_mono [OF _ le_SucI [OF order_refl]] room_less by blast
  next
    case False
    have "room (Suc (Suc d)) s" using assms(7) by simp
    from insert_splits [OF assms(2) a(2-5,7) assms(6,3-5) False this] show ?thesis unfolding Some a(1,6) by auto
  qed
qed

end

end
