(* ===== verification/Btree_Range.thy ===== *)
theory Btree_Range
  imports Btree_Map
begin

text \<open>
  The range scan of a B+ tree: the keys are sorted across the leaves, the chain runs through
  all of them, and a scan returns the values of the live keys of its range in key order.
\<close>

section \<open>Order across the leaves\<close>

definition all_entries :: "(int \<times> leaf) list \<Rightarrow> (key \<times> (int \<times> int) \<times> bool) list" where
  "all_entries ls = concat (map (\<lambda>(p, lf). leaf_entries lf) ls)"

lemma all_entries_simps [simp]:
  "all_entries [] = []" "all_entries ((p, lf) # ls) = leaf_entries lf @ all_entries ls" "all_entries (xs @ ys) = all_entries xs @ all_entries ys"
  by (simp_all add: all_entries_def)

lemma leaf_keys_sorted:
  "tree_ok w lo t hi \<Longrightarrow> sorted_wrt (<) (leaf_keys (leaves t))"
  "trees_ok w lo ks ts hi \<Longrightarrow> sorted_wrt (<) (leaf_keys (concat (map leaves ts)))"
proof (induction w lo t hi and w lo ks ts hi rule: tree_ok_trees_ok.induct)
  case (1 w lo pid lf hi)
  then show ?case by (simp add: leaf_in_def leaf_ok_def strict_sorted_iff)
next
  case (4 w lo l ks t ts hi)
  have t: "tree_ok w lo t (Some l)" and ts: "trees_ok w (Some l) ks ts hi" using 4(3) by simp_all
  have "x < y" if "x \<in> set (leaf_keys (leaves t))" and "y \<in> set (leaf_keys (concat (map leaves ts)))" for x y
  proof -
    have "x < l" using that(1) leaf_keys_in(1) [OF t] by (auto simp: set_leaf_keys)
    moreover have "l \<le> y" using that(2) leaf_keys_in(2) [OF ts] unfolding set_leaf_keys by fastforce
    ultimately show ?thesis by (rule less_le_trans)
  qed
  then show ?case using 4(1) [OF t] 4(2) [OF ts] by (simp add: sorted_wrt_append)
qed simp_all

lemma leaves_ok:
  "tree_ok w lo t hi \<Longrightarrow> (p, lf) \<in> set (leaves t) \<Longrightarrow> leaf_ok lf \<and> leaf_size lf \<le> 4096"
  "trees_ok w lo ks ts hi \<Longrightarrow> (p, lf) \<in> set (concat (map leaves ts)) \<Longrightarrow> leaf_ok lf \<and> leaf_size lf \<le> 4096"
proof (induction w lo t hi and w lo ks ts hi rule: tree_ok_trees_ok.induct)
  case (4 w lo l ks t ts hi)
  then show ?case by simp blast
qed (auto simp: leaf_in_def)

lemma leaves_stored: "stored h t \<Longrightarrow> (p, lf) \<in> set (leaves t) \<Longrightarrow> h p = Some (leaf_image lf)"
  by (induction h t rule: stored.induct) auto

lemma linked_suffix: "linked (xs @ ls) \<Longrightarrow> linked ls"
  by (induction xs) (auto simp: linked_Cons)

lemma map_fst_entries:
  "\<forall>(p, lf) \<in> set ls. leaf_wf lf \<Longrightarrow> map fst (all_entries ls) = leaf_keys ls"
  by (induction ls) (auto simp: leaf_entries_parts(1))

text \<open>What the leaves answer, from their entries.\<close>

lemma leaves_get_entries:
  assumes "\<forall>(p, lf) \<in> set ls. leaf_ok lf" and "distinct (leaf_keys ls)"
  shows "leaves_get ls k = Some v \<longleftrightarrow> (k, v, False) \<in> set (all_entries ls)"
  using assms
proof (induction ls)
  case (Cons x ls)
  obtain p lf where x: "x = (p, lf)" by force
  have ok: "leaf_ok lf" "leaf_wf lf" "\<forall>(p, lf) \<in> set ls. leaf_wf lf" using Cons.prems(1) x by (auto simp: leaf_ok_def)
  have ih: "leaves_get ls k = Some v \<longleftrightarrow> (k, v, False) \<in> set (all_entries ls)" using Cons x by simp
  have d: "distinct (map fst (leaf_entries lf))" using leaf_entries_parts(1) [OF ok(2)] ok(1) by (simp add: leaf_ok_def)
  have e: "map_of (leaf_entries lf) k = Some (u, b) \<longleftrightarrow> (k, u, b) \<in> set (leaf_entries lf)" for u b using d by simp
  have out: "(k, v, False) \<notin> set (all_entries ls)" if "k \<in> set (l_keys lf)"
  proof
    assume "(k, v, False) \<in> set (all_entries ls)"
    then have "k \<in> set (map fst (all_entries ls))" by force
    then show False using that Cons.prems(2) map_fst_entries [OF ok(3)] x by auto
  qed
  have key: "k \<in> set (l_keys lf)" if "(k, u, b) \<in> set (leaf_entries lf)" for u b
    using that leaf_entries_parts(1) [OF ok(2)] by (metis fst_conv image_eqI list.set_map)
  show ?case
  proof (cases "map_of (leaf_entries lf) k")
    case None
    then have "leaf_get lf k = None" by (simp add: leaf_get_map [OF ok(1)])
    moreover have "(k, v, False) \<notin> set (leaf_entries lf)" using None e by fastforce
    ultimately show ?thesis using ih x by simp
  next
    case (Some r)
    obtain u b where r: "r = (u, b)" by (cases r)
    have kin: "(k, u, b) \<in> set (leaf_entries lf)" using Some e r by simp
    note none = out [OF key [OF kin]]
    have "leaf_get lf k = (if b then None else Some u)" using Some r by (simp add: leaf_get_map [OF ok(1)])
    moreover have "(k, v, False) \<in> set (leaf_entries lf) \<longleftrightarrow> u = v \<and> \<not> b" using Some r e [of v False] by auto
    ultimately show ?thesis using ih none x by auto
  qed
qed simp

section \<open>Scanning\<close>

definition in_range :: "key \<Rightarrow> key \<Rightarrow> key \<times> (int \<times> int) \<times> bool \<Rightarrow> bool" where
  "in_range start stop e = (case e of (k, v, t) \<Rightarrow> start \<le> k \<and> k < stop \<and> \<not> t)"

lemma in_range_past: "\<forall>x \<in> set (map fst es). stop \<le> x \<Longrightarrow> filter (in_range start stop) es = []"
  by (auto simp: filter_empty_conv in_range_def not_less)

lemma scan_leaf_filter:
  "sorted_wrt (<) (map fst es) \<Longrightarrow>
   scan_leaf start stop es = (map (fst \<circ> snd) (filter (in_range start stop) es), \<exists>x \<in> set (map fst es). stop \<le> x)"
proof (induction es)
  case (Cons e es)
  obtain k v t where e: "e = (k, v, t)" by (metis surj_pair)
  show ?case
  proof (cases "stop \<le> k")
    case True
    then have "\<forall>x \<in> set (map fst (e # es)). stop \<le> x" using Cons.prems e by fastforce
    then have "filter (in_range start stop) (e # es) = []" by (rule in_range_past)
    then show ?thesis using True e by simp
  next
    case False
    then show ?thesis using Cons e by (auto simp: in_range_def not_le split: prod.splits)
  qed
qed simp

context tree_store
begin

lemma walk_leaf_chain:
  assumes "inv s" and "linked ls" and "\<forall>(p, lf) \<in> set ls. held s p = Some (leaf_image lf) \<and> leaf_wf lf \<and> leaf_size lf \<le> 4096"
    and "sorted_wrt (<) (leaf_keys ls)" and "length ls \<le> n"
  shows "walk_leaves io n start stop (first_pid ls) s = Inr (map (fst \<circ> snd) (filter (in_range start stop) (all_entries ls)))"
  using assms(2-5)
proof (induction ls arbitrary: n)
  case Nil
  then show ?case by (simp add: first_pid_def walk_leaves.simps)
next
  case (Cons x ls)
  obtain p lf where x: "x = (p, lf)" by force
  obtain n' where n: "n = Suc n'" using Cons.prems(4) by (cases n) auto
  have h: "held s p = Some (leaf_image lf)" "leaf_wf lf" "leaf_size lf \<le> 4096" using Cons.prems(2) x by auto
  then have p: "p \<noteq> 0" using zero_law [OF assms(1)] by auto
  have wf: "\<forall>(p, lf) \<in> set ls. leaf_wf lf" using Cons.prems(2) by auto
  have l: "next_leaf_id lf = first_pid ls" "linked ls" using Cons.prems(1) x by (simp_all add: linked_Cons)
  have srt: "sorted_wrt (<) (map fst (leaf_entries lf))" "\<forall>y \<in> set (l_keys lf). \<forall>z \<in> set (leaf_keys ls). y < z" "sorted_wrt (<) (leaf_keys ls)"
    using Cons.prems(3) x leaf_entries_parts(1) [OF h(2)] by (simp_all add: sorted_wrt_append)
  have ih: "walk_leaves io n' start stop (first_pid ls) s = Inr (map (fst \<circ> snd) (filter (in_range start stop) (all_entries ls)))"
    using Cons.IH [OF l(2) _ srt(3)] Cons.prems(2,4) n by simp
  have past: "filter (in_range start stop) (all_entries ls) = []" if "\<exists>y \<in> set (map fst (leaf_entries lf)). stop \<le> y"
  proof (rule in_range_past)
    show "\<forall>z \<in> set (map fst (all_entries ls)). stop \<le> z"
      using that srt(2) unfolding map_fst_entries [OF wf] leaf_entries_parts(1) [OF h(2)] by (meson le_less_trans less_imp_le)
  qed
  have "walk_leaves io n start stop p s =
      (if \<exists>y \<in> set (map fst (leaf_entries lf)). stop \<le> y then Inr (map (fst \<circ> snd) (filter (in_range start stop) (leaf_entries lf)))
       else bindE (walk_leaves io n' start stop (first_pid ls) s)
         (\<lambda>ws. Inr (map (fst \<circ> snd) (filter (in_range start stop) (leaf_entries lf)) @ ws)))"
    using p read_law [OF assms(1) h(1)] leaf_roundtrip(2) [OF h(2,3)] scan_leaf_filter [OF srt(1), of start stop]
    by (simp add: n l(1) walk_leaves.simps [of io "Suc n'"] flip: leaf_entries_def)
  moreover have "first_pid (x # ls) = p" by (simp add: x first_pid_def)
  ultimately show ?case using past unfolding x by (auto simp: ih)
qed

lemma range_map:
  assumes "is_map w d (s, root) m" and "d \<le> fuel" and "Suc d \<le> n"
  shows "bt_range io fuel n start stop (s, root) =
    Inr (map (the \<circ> m) (sorted_list_of_set {k \<in> dom m. start \<le> k \<and> k < stop}))"
proof (cases root)
  case None
  then show ?thesis using assms(1) by (simp add: is_map_def bt_range_def)
next
  case (Some r)
  obtain fs pid lf lo hi where a: "r = root_of fs pid" "at_leaf w d s fs pid lf lo hi" "at_least lo start" "below start hi"
    "linked (left_of fs @ (pid, lf) # right_of fs)" "m = leaves_get (left_of fs @ [(pid, lf)] @ right_of fs)"
    "length (left_of fs @ right_of fs) \<le> d"
    using is_map_SomeE [OF assms(1) [unfolded Some]] by metis
  let ?rest = "(pid, lf) # right_of fs" and ?all = "left_of fs @ (pid, lf) # right_of fs"
  have t: "tree_at w s (plug fs (Lf pid lf))" by (rule at_leaf_tree(1) [OF a(2)])
  have inv: "inv s" using t by (simp add: tree_at_def)
  have srt: "sorted_wrt (<) (leaf_keys ?all)"
    using t leaf_keys_sorted(1) [of w None "plug fs (Lf pid lf)" None] by (simp add: tree_at_def leaves_plug)
  have lv: "held s p = Some (leaf_image lg) \<and> leaf_ok lg \<and> leaf_wf lg \<and> leaf_size lg \<le> 4096" if "(p, lg) \<in> set ?all" for p lg
    using that t leaves_ok(1) [of w None "plug fs (Lf pid lf)" None p lg] leaves_stored [of "held s" "plug fs (Lf pid lf)" p lg]
    by (auto simp: tree_at_def leaves_plug leaf_ok_def)
  have wf: "\<forall>(p, lg) \<in> set ?all. leaf_wf lg" "\<forall>(p, lg) \<in> set ?all. leaf_ok lg" using lv by blast+
  have "descend io fuel r start s = Inr (pid, leaf_image lf)"
    unfolding a(1) by (rule at_leaf_descend(1) [OF a(2-4) assms(2)])
  moreover have "walk_leaves io n start stop (first_pid ?rest) s = Inr (map (fst \<circ> snd) (filter (in_range start stop) (all_entries ?rest)))"
    by (rule walk_leaf_chain [OF inv linked_suffix [OF a(5)]]) (use srt lv a(7) assms(3) in \<open>auto simp: sorted_wrt_append\<close>)
  moreover have "filter (in_range start stop) (all_entries (left_of fs)) = []"
  proof -
    have "x < start" if "x \<in> set (map fst (all_entries (left_of fs)))" for x
      using that map_fst_entries [of "left_of fs"] wf(1) frames_order [of w lo fs hi start x] a(2-4) by (simp add: at_leaf_def)
    then show ?thesis by (fastforce simp: filter_empty_conv in_range_def)
  qed
  ultimately have scan: "bt_range io fuel n start stop (s, root) = Inr (map (fst \<circ> snd) (filter (in_range start stop) (all_entries ?all)))"
    using Some by (simp add: bt_range_def first_pid_def)
  let ?live = "filter (in_range start stop) (all_entries ?all)"
  have m: "m k = Some v \<longleftrightarrow> (k, v, False) \<in> set (all_entries ?all)" for k v
    using leaves_get_entries [OF wf(2)] srt by (simp add: a(6) strict_sorted_iff)
  have keys: "sorted_wrt (<) (map fst ?live)"
    using srt unfolding map_fst_entries [OF wf(1), symmetric] sorted_wrt_map by (rule sorted_wrt_filter)
  have "set (map fst ?live) = {k \<in> dom m. start \<le> k \<and> k < stop}"
  proof (rule set_eqI)
    fix k
    have "k \<in> set (map fst ?live) \<longleftrightarrow> (\<exists>v. (k, v, False) \<in> set (all_entries ?all)) \<and> start \<le> k \<and> k < stop"
      unfolding set_map image_iff set_filter by (fastforce simp: in_range_def)
    then show "k \<in> set (map fst ?live) \<longleftrightarrow> k \<in> {k \<in> dom m. start \<le> k \<and> k < stop}" unfolding m [symmetric] by (simp add: dom_def)
  qed
  then have "sorted_list_of_set {k \<in> dom m. start \<le> k \<and> k < stop} = map fst ?live"
    using sorted_list_of_set.idem_if_sorted_distinct [of "map fst ?live"] keys by (simp only: strict_sorted_iff)
  moreover have "map (the \<circ> m) (map fst ?live) = map (fst \<circ> snd) ?live"
  proof -
    have "the (m (fst e)) = fst (snd e)" if e: "e \<in> set ?live" for e
    proof -
      obtain k v b where kv: "e = (k, v, b)" by (cases e)
      then have "(k, v, False) \<in> set (all_entries ?all)" using e unfolding set_filter by (auto simp: in_range_def)
      then show ?thesis unfolding m [symmetric] by (simp add: kv)
    qed
    then show ?thesis by (simp only: map_map o_def map_eq_conv ball_simps) blast
  qed
  ultimately show ?thesis using scan by simp
qed

end

end
