(* ===== verification/Btree_Refine.thy ===== *)
theory Btree_Refine
  imports Btree_Range
begin

text \<open>
  The B+ tree on the pager refines a map: any sequence of insertions and deletions from the
  empty tree, whatever it splits, leaves a tree that searches and range scans read as the map
  the same updates make. The exception are the key widths with which a full inner node has no
  room for its last child.
\<close>

section \<open>The pager is such a store\<close>

text \<open>Allocation takes at most one page number; writing takes none.\<close>

lemma alloc_page_grows:
  assumes "pager_inv p" and "has_room p" and "alloc_page p = (Inr i, p')"
  shows "next_page_id p' \<le> next_page_id p + 1"
proof (cases "free_ids p")
  case Nil
  then show ?thesis using alloc_page_fresh [of p] assms by (auto simp: pager_inv_def has_room_def)
next
  case (Cons x fl)
  then show ?thesis using alloc_page_reuse [of p x fl] assms by (auto simp: pager_inv_def same_rest_def)
qed

lemma write_page_grows:
  assumes "pager_inv p" and "pages_in_use p i \<noteq> None" and "write_page i d p = (Inr (), p')"
  shows "next_page_id p' = next_page_id p"
proof -
  have "pager_wf p" "0 \<le> i" "i < next_page_id p" "length d = 4096"
    using assms by (auto simp: pager_inv_def free_inv_def pages_in_use_def write_page_def py_len_def split: if_splits)
  then have "eff p ((img p)(i := d)) (write_page i d p)" by (intro write_page_eff)
  from effD [of p _ "write_page i d", OF this] show ?thesis using assms(3) by (auto simp: same_rest_def)
qed

definition page_room :: "nat \<Rightarrow> pager \<Rightarrow> bool" where
  "page_room n p \<longleftrightarrow> next_page_id p + int n \<le> 2 ^ 32"

lemma pager_write_law:
  assumes "pager_inv p" and "pages_in_use p i \<noteq> None" and "length d = 4096"
  shows "\<exists>p'. write_page i d p = (Inr (), p') \<and> pager_inv p' \<and> pages_in_use p' = (pages_in_use p)(i \<mapsto> d) \<and>
    (\<forall>m. page_room m p \<longrightarrow> page_room m p')"
  using write_page_law [OF assms] write_page_grows [OF assms(1,2)] by (metis page_room_def)

lemma pager_alloc_law:
  assumes "pager_inv p" and "page_room (Suc n) p"
  shows "\<exists>i d p'. alloc_page p = (Inr i, p') \<and> pager_inv p' \<and> pages_in_use p i = None \<and> u32 i \<and>
    pages_in_use p' = (pages_in_use p)(i \<mapsto> d) \<and> (\<forall>m. page_room (Suc m) p \<longrightarrow> page_room m p')"
proof -
  have room: "has_room p" using assms(2) by (simp add: page_room_def has_room_def)
  obtain i p' where a: "alloc_page p = (Inr i, p')" "pager_inv p'" "pages_in_use p i = None" "pages_in_use p' = (pages_in_use p)(i \<mapsto> zero_page)"
    using alloc_page_law [OF assms(1) room] by blast
  have "pages_in_use p' i = Some zero_page" by (simp only: a(4) fun_upd_same)
  then have "2 \<le> i \<and> i < next_page_id p'" by (auto simp only: pages_in_use_def split: if_splits)
  moreover have "next_page_id p' \<le> 2 ^ 32" using a(2) by (simp only: pager_inv_def free_inv_def)
  ultimately have "u32 i" by (simp add: u32_def)
  moreover have "\<forall>m. page_room (Suc m) p \<longrightarrow> page_room m p'"
    using alloc_page_grows [OF assms(1) room a(1)] by (simp add: page_room_def)
  ultimately show ?thesis using a by blast
qed

text \<open>The pages \<open>I\<close> that others hold stay as they are; the tree owns the rest of the pages \<open>h\<close>.\<close>

definition own_pages :: "(int \<Rightarrow> byte list option) \<Rightarrow> (int \<Rightarrow> byte list option) \<Rightarrow> int \<Rightarrow> byte list option" where
  "own_pages I h = h |` (- dom I)"

lemma own_pages_Some: "own_pages I h i = Some d \<Longrightarrow> h i = Some d \<and> I i = None"
  by (auto simp: own_pages_def restrict_map_def split: if_splits)

lemma own_pages_None: "h i = None \<Longrightarrow> own_pages I h i = None"
  by (simp add: own_pages_def restrict_map_def)

lemma own_pages_upd:
  assumes "I \<subseteq>\<^sub>m h" and "I i = None" and "h' = h(i \<mapsto> d)"
  shows "I \<subseteq>\<^sub>m h'" and "own_pages I h' = (own_pages I h)(i \<mapsto> d)"
  using assms by (auto simp: map_le_def own_pages_def restrict_map_def fun_eq_iff domIff)

lemma map_le_None: "I \<subseteq>\<^sub>m h \<Longrightarrow> h i = None \<Longrightarrow> I i = None"
  unfolding map_le_def by (metis domIff)

definition pages_kept :: "(int \<Rightarrow> byte list option) \<Rightarrow> pager \<Rightarrow> bool" where
  "pages_kept I p \<longleftrightarrow> pager_inv p \<and> I \<subseteq>\<^sub>m pages_in_use p"

lemma own_write_law:
  assumes "pages_kept I p" and "own_pages I (pages_in_use p) i \<noteq> None" and "length d = 4096"
  shows "\<exists>p'. write_page i d p = (Inr (), p') \<and> pages_kept I p' \<and>
    own_pages I (pages_in_use p') = (own_pages I (pages_in_use p))(i \<mapsto> d) \<and> (\<forall>m. page_room m p \<longrightarrow> page_room m p')"
proof -
  have i: "pages_in_use p i \<noteq> None" "I i = None" "pager_inv p" "I \<subseteq>\<^sub>m pages_in_use p"
    using assms(1,2) own_pages_Some by (fastforce simp: pages_kept_def)+
  obtain p' where w: "write_page i d p = (Inr (), p')" "pager_inv p'" "pages_in_use p' = (pages_in_use p)(i \<mapsto> d)"
    "\<forall>m. page_room m p \<longrightarrow> page_room m p'" using pager_write_law [OF i(3,1) assms(3)] by blast
  show ?thesis using w own_pages_upd [OF i(4,2) w(3)] by (auto simp: pages_kept_def)
qed

lemma own_alloc_law:
  assumes "pages_kept I p" and "page_room (Suc n) p"
  shows "\<exists>i d p'. alloc_page p = (Inr i, p') \<and> pages_kept I p' \<and> own_pages I (pages_in_use p) i = None \<and> u32 i \<and>
    own_pages I (pages_in_use p') = (own_pages I (pages_in_use p))(i \<mapsto> d) \<and> (\<forall>m. page_room (Suc m) p \<longrightarrow> page_room m p')"
proof -
  have inv: "pager_inv p" "I \<subseteq>\<^sub>m pages_in_use p" using assms(1) by (simp_all add: pages_kept_def)
  obtain i d p' where a: "alloc_page p = (Inr i, p')" "pager_inv p'" "pages_in_use p i = None" "u32 i"
    "pages_in_use p' = (pages_in_use p)(i \<mapsto> d)" "\<forall>m. page_room (Suc m) p \<longrightarrow> page_room m p'"
    using pager_alloc_law [OF inv(1) assms(2)] by blast
  note up = own_pages_upd [OF inv(2) map_le_None [OF inv(2) a(3)] a(5)]
  show ?thesis using a(1,2,4,6) up own_pages_None [where h = "pages_in_use p", OF a(3)] by (auto simp: pages_kept_def)
qed

interpretation pager_tree: tree_store pager_io "pages_kept I" "\<lambda>p. own_pages I (pages_in_use p)" page_room for I
proof
  show "io_read pager_io i p = Inr d" if "pages_kept I p" and "own_pages I (pages_in_use p) i = Some d" for p i d
    using that pager_pages.read_law own_pages_Some by (simp add: pager_io_def pages_kept_def)
  show "own_pages I (pages_in_use p) 0 = None" if "pages_kept I p" for p by (rule own_pages_None [where h = "pages_in_use p"]) (simp add: pages_in_use_def)
  show "page_room n p" if "page_room (Suc n) p" for n p using that by (simp add: page_room_def)
qed (unfold pager_io_def page_io.simps, rule own_write_law own_alloc_law; assumption)+

section \<open>Sequences of updates\<close>

datatype tree_op = Put key "int \<times> int" | Remove key

fun run_op :: "nat \<Rightarrow> tree_op \<Rightarrow> (pager \<times> int option, unit) cmd" where
  "run_op fuel (Put k v) = bt_insert pager_io fuel k v"
| "run_op fuel (Remove k) = bt_delete pager_io fuel k"

fun run_ops :: "nat \<Rightarrow> tree_op list \<Rightarrow> (pager \<times> int option, unit) cmd" where
  "run_ops fuel [] = returnS ()"
| "run_ops fuel (x # ops) = bindS (run_op fuel x) (\<lambda>_. run_ops fuel ops)"

fun map_op :: "tree_op \<Rightarrow> (key \<Rightarrow> (int \<times> int) option) \<Rightarrow> key \<Rightarrow> (int \<times> int) option" where
  "map_op (Put k v) m = m(k \<mapsto> v)"
| "map_op (Remove k) m = m(k := None)"

fun op_ok :: "nat \<Rightarrow> tree_op \<Rightarrow> bool" where
  "op_ok w (Put k v) = (length k = w \<and> u32 (fst v) \<and> u32 (snd v))"
| "op_ok w (Remove k) = True"

lemma run_op_map:
  assumes "pager_tree.is_map I w d (p, root) m" and "safe_width w" and "op_ok w x" and "d < fuel" and "page_room (d + 2) p"
  shows "\<exists>p' root'. run_op fuel x (p, root) = (Inr (), (p', root')) \<and> pager_tree.is_map I w (Suc d) (p', root') (map_op x m) \<and>
    (\<forall>j. page_room (j + (d + 2)) p \<longrightarrow> page_room j p')"
proof (cases x)
  case (Put k v)
  then show ?thesis using pager_tree.insert_map [OF assms(1,2) _ _ _ assms(4,5), of k v] assms(3) by simp
next
  case (Remove k)
  obtain p' where d: "bt_delete pager_io fuel k (p, root) = (Inr (), (p', root))" "pager_tree.is_map I w d (p', root) (m(k := None))"
    "\<forall>j. page_room j p \<longrightarrow> page_room j p'" using pager_tree.delete_map [OF assms(1) less_imp_le [OF assms(4)]] by blast
  have "page_room j p'" if "page_room (j + (d + 2)) p" for j using d(3) pager_tree.room_less [OF that] by blast
  then show ?thesis using d Remove pager_tree.is_map_mono [OF d(2), of "Suc d"] by simp
qed

lemma run_ops_map:
  assumes "pager_tree.is_map I w d (p, root) m" and "safe_width w" and "list_all (op_ok w) ops" and "d + length ops < fuel"
    and "page_room (length ops * (d + length ops + 2)) p"
  shows "\<exists>p' root'. run_ops fuel ops (p, root) = (Inr (), (p', root')) \<and>
    pager_tree.is_map I w (d + length ops) (p', root') (fold map_op ops m)"
  using assms
proof (induction ops arbitrary: d p root m)
  case Nil
  then show ?case by simp
next
  case (Cons x ops)
  let ?n = "length ops"
  have room: "page_room (?n * (Suc d + ?n + 2) + (d + 2)) p"
    by (rule pager_tree.room_less [where n = "Suc ?n"]) (use Cons.prems(5) in \<open>simp add: algebra_simps\<close>)
  then have "page_room (d + 2) p" using pager_tree.room_less [of "d + 2"] by (simp add: add.commute)
  then obtain p' root' where s: "run_op fuel x (p, root) = (Inr (), (p', root'))" "pager_tree.is_map I w (Suc d) (p', root') (map_op x m)"
    "\<forall>j. page_room (j + (d + 2)) p \<longrightarrow> page_room j p'"
    using run_op_map [OF Cons.prems(1,2), of x fuel] Cons.prems(3,4) by auto
  have "page_room (?n * (Suc d + ?n + 2)) p'" using s(3) room by blast
  from Cons.IH [OF s(2) assms(2) _ _ this] show ?case using Cons.prems(3,4) by (simp add: bindS_Inr [where m = "run_op fuel x", OF s(1)])
qed

section \<open>Properties\<close>

text \<open>
  C20. The B+ tree refines a map. From an empty tree on any pager in order, every sequence of
  insertions and deletions with keys of one width returns without error, splitting leaves, inner
  nodes and the root as it goes; then \<open>search\<close> answers every key, and \<open>range\<close> every interval in
  key order, as the map does that the same updates make.
\<close>

theorem btree_refines_map:
  assumes "pager_inv p" and "safe_width w" and "list_all (op_ok w) ops" and "length ops < fuel"
    and "next_page_id p + int (length ops * (length ops + 2)) \<le> 2 ^ 32"
  shows "\<exists>p' root. run_ops fuel ops (p, None) = (Inr (), (p', root)) \<and> pager_inv p' \<and> pages_in_use p \<subseteq>\<^sub>m pages_in_use p' \<and>
    (let m = fold map_op ops Map.empty in
      (\<forall>k. bt_search pager_io fuel k (p', root) = Inr (m k)) \<and>
      (\<forall>start stop. bt_range pager_io fuel fuel start stop (p', root) =
        Inr (map (the \<circ> m) (sorted_list_of_set {k \<in> dom m. start \<le> k \<and> k < stop}))))"
proof -
  let ?I = "pages_in_use p"
  have "pager_tree.is_map ?I w 0 (p, None) Map.empty" using assms(1) by (simp add: pager_tree.is_map_def pages_kept_def)
  from run_ops_map [OF this assms(2,3), of fuel] obtain p' root where
    r: "run_ops fuel ops (p, None) = (Inr (), (p', root))" "pager_tree.is_map ?I w (length ops) (p', root) (fold map_op ops Map.empty)"
    using assms(4,5) by (auto simp: page_room_def)
  have "pages_kept ?I p'" using r(2) by (simp add: pager_tree.is_map_def)
  then show ?thesis unfolding Let_def
    using r pager_tree.search_map [OF r(2) less_imp_le [OF assms(4)]]
      pager_tree.range_map [OF r(2) less_imp_le [OF assms(4)], of fuel] assms(4) by (auto simp: pages_kept_def)
qed

lemma btree_refines_map_witness:
  "\<exists>p' root. run_ops 2000 (map (\<lambda>i. Put (be_bytes 4 (int i)) (int i, 0)) [0..<1000] @ [Remove (be_bytes 4 7)]) (new_memory_pager, None) =
      (Inr (), (p', root)) \<and> bt_search pager_io 2000 (be_bytes 4 7) (p', root) = Inr None"
  using btree_refines_map [of new_memory_pager 4 "map (\<lambda>i. Put (be_bytes 4 (int i)) (int i, 0)) [0..<1000] @ [Remove (be_bytes 4 7)]" 2000]
    new_memory_pager_inv
  by (auto simp: fixed_widths_safe list_all_iff u32_def new_memory_pager_def Let_def simp del: be_bytes.simps upt_rec_numeral)

text \<open>
  An inner node that the code cannot write: when the entries of the parent of a split leaf come to
  end in the last four bytes of its page, there is no room left for the last child, \<open>serialize\<close>
  returns a longer image, and the insertion raises \<open>ValueError\<close> instead of splitting the parent,
  with the halves of the leaf already written.
\<close>

theorem parent_overrun:
  assumes "root \<noteq> left" and "find_parent pager_io fuel root left key p = Inr parent" and "read_page parent p = Inr (node_image nd)"
    and "node_wf nd" and "node_size (n_keys nd) \<le> 4096" and "u32 right"
    and "node_end (insert_at (bisect_left (n_keys nd) key) key (n_keys nd)) \<le> 4096"
    and "4096 < node_size (insert_at (bisect_left (n_keys nd) key) key (n_keys nd))"
  shows "insert_into_parent pager_io fuel depth left key right (p, Some root) = (Inl ValueError, (p, Some root))"
proof -
  let ?b = "bisect_left (n_keys nd) key"
  let ?ks = "insert_at ?b key (n_keys nd)" and ?cs = "insert_at (?b + 1) right (n_children nd)"
  have wf: "node_wf \<lparr>n_keys = ?ks, n_children = ?cs\<rparr>"
    using assms(4,6) list_all_insert_at [of u32 "n_children nd" right "?b + 1"] by (simp add: node_wf_def insert_at_def)
  have "length ks \<le> sum_list (map (\<lambda>k. length k + 6) ks)" for ks :: "key list" by (induction ks) auto
  from this [of ?ks] have "length ?ks < 65536" using assms(7) by (simp add: node_end_def)
  then obtain page where page: "inode_serialize \<lparr>n_keys = ?ks, n_children = ?cs\<rparr> = Inr page" "length page = node_size ?ks"
    using inode_serialize_overrun [OF wf] assms(7,8) by auto
  have "write_page parent page p = (Inl ValueError, p)" using page(2) assms(8) by (simp add: write_page_def py_len_def raiseS_def)
  then have "on_pages (write_page parent page) (p, Some root) = (Inl ValueError, (p, Some root))" by (simp add: on_pages_def)
  then show ?thesis
    using assms(1-3) node_roundtrip [OF assms(4,5)] page(1)
    by (subst insert_into_parent.simps) (simp add: pager_io_def Let_def)
qed

definition crowded_node :: inode where
  "crowded_node = \<lparr>n_keys = replicate 226 (replicate 12 0), n_children = replicate 226 3 @ [4]\<rparr>"

definition crowded_pager :: pager where
  "crowded_pager =
     \<lparr>is_memory = True, mem_pages = [(0, file_header), (1, zero_page), (2, node_image crowded_node)], main_file = [],
      mmap_size = 0, next_page_id = 5, wal_is_open = False, wal_bytes = None\<rparr>"

lemma parent_overrun_witness:
  "insert_into_parent pager_io 9 9 4 (replicate 12 1) 5 (crowded_pager, Some 2) = (Inl ValueError, (crowded_pager, Some 2))"
proof -
  have nd: "node_wf crowded_node" "node_size (n_keys crowded_node) \<le> 4096"
    by (simp_all add: crowded_node_def node_wf_def u32_def node_size_def node_end_def list_all_iff sum_list_replicate)
  have rd: "read_page 2 crowded_pager = Inr (node_image crowded_node)" by (simp add: crowded_pager_def read_page_def)
  have lt: "replicate 12 0 < (replicate 12 1 :: key)" by (simp add: numeral_eq_Suc)
  have srt: "sorted (n_keys crowded_node)" by (simp add: crowded_node_def)
  have "l = 226" if "l \<le> 226" and "\<forall>i < 226. i < l" for l :: nat using that by (cases "l < 226") auto
  then have b: "bisect_right (n_keys crowded_node) (replicate 12 1) = 226" "bisect_left (n_keys crowded_node) (replicate 12 1) = 226"
    using bisect_right_spec [OF srt, where key = "replicate 12 1"] bisect_left_spec [OF srt, where key = "replicate 12 1"] lt
    by (simp_all add: crowded_node_def less_imp_le)
  have "get_item (n_children crowded_node) 226 = Inr 4" by (simp add: crowded_node_def get_item_nonneg nth_append)
  then have "find_parent pager_io 9 2 4 (replicate 12 1) crowded_pager = Inr 2"
    using rd node_image_type node_roundtrip [OF nd] b(1) by (subst find_parent.simps) (simp add: pager_io_def numeral_eq_Suc)
  from parent_overrun [OF _ this rd nd, of 5 9] show ?thesis
    unfolding b(2) by (simp add: crowded_node_def u32_def node_size_def node_end_def insert_at_def sum_list_replicate)
qed

end
