(* ===== verification/Index_Map.thy ===== *)
theory Index_Map
  imports Insert_Scan Btree_Refine
begin

text \<open>
  The indexes of the executor inside a transaction: each is a map, kept by the B+ tree
  through the page wrapper, the log and the page buffer; updating one changes no page of
  anything else.
\<close>

section \<open>The pages of a transaction\<close>

text \<open>The pages in use, as read through the buffer; a transaction that can log page writes.\<close>

definition txn_pages :: "exec \<Rightarrow> int \<Rightarrow> byte list option" where
  "txn_pages s pid =
     (if pages_in_use (x_pager s) pid = None then None
      else case exec_read_page pid s of Inl e \<Rightarrow> None | Inr d \<Rightarrow> Some d)"

definition txn_ready :: "exec \<Rightarrow> bool" where
  "txn_ready s \<longleftrightarrow> pager_inv (x_pager s) \<and> buffer_used s \<and>
     (\<exists>i t ws. 0 \<le> i \<and> i < 256 ^ 8 \<and> x_txn s = Some t \<and> in_txn i (x_pager s) ws (t, x_pager s))"

text \<open>The pages \<open>I\<close> of others stay, and of them only \<open>X\<close> are registered as index pages.\<close>

definition txn_kept :: "(int \<Rightarrow> byte list option) \<Rightarrow> int set \<Rightarrow> exec \<Rightarrow> bool" where
  "txn_kept I X s \<longleftrightarrow> txn_ready s \<and> I \<subseteq>\<^sub>m txn_pages s \<and> set (index_pages s) \<inter> dom I \<subseteq> X"

definition txn_room :: "nat \<Rightarrow> exec \<Rightarrow> bool" where
  "txn_room n s \<longleftrightarrow> page_room n (x_pager s)"

lemma txn_pages_use:
  assumes "pager_inv (x_pager s)"
  shows "txn_pages s pid = None \<longleftrightarrow> pages_in_use (x_pager s) pid = None"
proof -
  have "exec_read_page pid s \<noteq> Inl e" if "pages_in_use (x_pager s) pid = Some d" for e d
    using pager_pages.read_law [OF assms that] by (simp add: exec_read_page_def split: option.split)
  then show ?thesis by (auto simp: txn_pages_def split: sum.splits)
qed

lemma txn_read_law: "txn_pages s pid = Some d \<Longrightarrow> exec_read_page pid s = Inr d"
  by (auto simp: txn_pages_def split: if_splits sum.splits)

lemma txn_write:
  assumes "txn_ready s" and "pid = 1 \<or> txn_pages s pid \<noteq> None" and "length d = 4096"
  shows "\<exists>t. exec_write_page pid d s = (Inr (), t) \<and> txn_ready t \<and>
    txn_pages t = (if pid = 1 then txn_pages s else (txn_pages s)(pid \<mapsto> d)) \<and>
    same_tables s t \<and> next_page_id (x_pager t) = next_page_id (x_pager s)"
proof -
  obtain i t ws where t: "0 \<le> i" "i < 256 ^ 8" "x_txn s = Some t" "in_txn i (x_pager s) ws (t, x_pager s)"
    and inv: "pager_inv (x_pager s)" "buffer_used s" using assms(1) by (auto simp: txn_ready_def)
  have use: "pages_in_use (x_pager s) pid \<noteq> None" if "pid \<noteq> 1" using that assms(2) txn_pages_use [OF inv(1)] by simp
  have n: "2 \<le> next_page_id (x_pager s)" "next_page_id (x_pager s) \<le> 2 ^ 32"
    using inv(1) by (simp_all add: pager_inv_def free_inv_def pager_wf_def)
  then have "0 \<le> pid \<and> pid < next_page_id (x_pager s)" using use by (cases "pid = 1") (auto simp: pages_in_use_def split: if_splits)
  then have "page_write_ok (x_pager s) (pid, d)" using n assms(3) by (simp add: page_write_ok_def)
  from write_in_txn [OF t(3,4,1,2) this] obtain t' q where
    w: "exec_write_page pid d s = (Inr (), s\<lparr>x_txn := Some t', x_pager := q, x_buffer := AList.update pid d (x_buffer s)\<rparr>)"
    and q: "in_txn i (x_pager s) (ws @ [(pid, d)]) (t', q)" by blast
  have x: "x_txn s \<noteq> None" using t(3) by simp
  note v = write_in_view [OF x w]
  have log: "only_log (x_pager s) q" using v(4) by simp
  note ol = only_log_use [OF log]
  have "in_txn i q (ws @ [(pid, d)]) (t', q)" using q by (simp add: in_txn_def)
  then have "txn_ready (s\<lparr>x_txn := Some t', x_pager := q, x_buffer := AList.update pid d (x_buffer s)\<rparr>)"
    using inv t(1,2) use by (auto simp: txn_ready_def ol buffer_used_def update_conv')
  moreover have "pages_in_use (x_pager s) 1 = None" by (simp add: pages_in_use_def)
  then have "txn_pages (s\<lparr>x_txn := Some t', x_pager := q, x_buffer := AList.update pid d (x_buffer s)\<rparr>) =
      (if pid = 1 then txn_pages s else (txn_pages s)(pid \<mapsto> d))"
    using v(2) use by (auto simp: txn_pages_def ol fun_eq_iff)
  ultimately show ?thesis using w write_tables [OF w] by (auto simp: ol)
qed

lemma txn_alloc_law:
  assumes "txn_ready s" and "txn_room (Suc n) s"
  shows "\<exists>i q. on_exec_pager alloc_page s = (Inr i, s\<lparr>x_pager := q\<rparr>) \<and> txn_ready (s\<lparr>x_pager := q\<rparr>) \<and> txn_pages s i = None \<and> u32 i \<and>
    txn_pages (s\<lparr>x_pager := q\<rparr>) = (txn_pages s)(i \<mapsto> zero_page) \<and> (\<forall>m. txn_room (Suc m) s \<longrightarrow> txn_room m (s\<lparr>x_pager := q\<rparr>))"
proof -
  obtain j t ws where t: "0 \<le> j" "j < 256 ^ 8" "x_txn s = Some t" "in_txn j (x_pager s) ws (t, x_pager s)"
    and inv: "pager_inv (x_pager s)" "buffer_used s" using assms(1) by (auto simp: txn_ready_def)
  have room: "has_room (x_pager s)" using assms(2) by (simp add: txn_room_def page_room_def has_room_def)
  obtain i q where a: "alloc_page (x_pager s) = (Inr i, q)" "pager_inv q" "pages_in_use (x_pager s) i = None"
    "pages_in_use q = (pages_in_use (x_pager s))(i \<mapsto> zero_page)" using alloc_page_law [OF inv(1) room] by blast
  have i: "2 \<le> i" "u32 i" 
  proof -
    have "pages_in_use q i = Some zero_page" by (simp only: a(4) fun_upd_same)
    then have "2 \<le> i \<and> i < next_page_id q" by (auto simp only: pages_in_use_def split: if_splits)
    moreover have "next_page_id q \<le> 2 ^ 32" using a(2) by (simp only: pager_inv_def free_inv_def)
    ultimately show "2 \<le> i" "u32 i" by (simp_all add: u32_def)
  qed
  let ?t = "s\<lparr>x_pager := q\<rparr>"
  have nb: "map_of (x_buffer s) i = None" using inv(2) a(3) i(1) by (auto simp: buffer_used_def)
  have "page_step (x_pager s) q" using keepsD [OF step_pages(1) a(1)] .
  then have "wal_has q (map (page_rec j) ws)" using t(4) by (simp add: in_txn_def page_step_def wal_has_def)
  then have "in_txn j q ws (t, q)" using t(4) a(2) by (simp add: in_txn_def pager_inv_def free_inv_def)
  moreover have "buffer_used ?t" using inv(2) by (auto simp: buffer_used_def a(4))
  ultimately have "txn_ready ?t" using a(2) t(1-3) by (auto simp: txn_ready_def)
  moreover have "txn_pages ?t p = ((txn_pages s)(i \<mapsto> zero_page)) p" for p
  proof (cases "p = i")
    case True
    have "read_page i q = Inr zero_page" by (rule pager_pages.read_law [OF a(2)]) (simp add: a(4))
    then show ?thesis using True nb by (simp add: txn_pages_def a(4) exec_read_page_def)
  next
    case False
    then have "pages_in_use q p = pages_in_use (x_pager s) p" by (simp add: a(4))
    then show ?thesis
      using False read_alloc [OF inv(1) a(2), of p] by (cases "pages_in_use (x_pager s) p") (simp_all add: txn_pages_def exec_read_page_def split: option.split)
  qed
  moreover have "\<forall>m. txn_room (Suc m) s \<longrightarrow> txn_room m ?t"
    using alloc_page_grows [OF inv(1) room a(1)] by (simp add: txn_room_def page_room_def)
  moreover have "on_exec_pager alloc_page s = (Inr i, ?t)" using a(1) by (simp add: on_exec_pager_def)
  ultimately show ?thesis using i(2) a(3) txn_pages_use [OF inv(1)] by blast
qed

lemma read_indexes [simp]: "exec_read_page pid (s\<lparr>x_indexes := ixs\<rparr>) = exec_read_page pid s"
  by (simp add: exec_read_page_def split: option.split)

lemma txn_indexes [simp]:
  "txn_pages (s\<lparr>x_indexes := ixs\<rparr>) = txn_pages s"
  "txn_ready (s\<lparr>x_indexes := ixs\<rparr>) = txn_ready s" "txn_room n (s\<lparr>x_indexes := ixs\<rparr>) = txn_room n s"
  by (simp_all add: txn_pages_def txn_ready_def buffer_used_def txn_room_def fun_eq_iff)

lemma read_wrappers [simp]: "exec_read_page pid (s\<lparr>x_wrappers := ws\<rparr>) = exec_read_page pid s"
  by (simp add: exec_read_page_def split: option.split)

lemma txn_wrappers [simp]:
  "txn_pages (s\<lparr>x_wrappers := ws\<rparr>) = txn_pages s"
  "txn_ready (s\<lparr>x_wrappers := ws\<rparr>) = txn_ready s" "txn_room n (s\<lparr>x_wrappers := ws\<rparr>) = txn_room n s"
  by (simp_all add: txn_pages_def txn_ready_def buffer_used_def txn_room_def fun_eq_iff)

text \<open>The index pages after a wrapper has recorded one page more.\<close>

lemma on_wrapper_is: obtains ws where "on_wrapper k f s = s\<lparr>x_wrappers := ws\<rparr>"
  using that [of "x_wrappers s"] that unfolding on_wrapper_def by (cases "Option.bind (get_btree k s) ix_pager") auto

lemma concat_insert_at: "set (concat (xss[i := List.insert x (xss ! i)])) \<subseteq> insert x (set (concat xss))"
proof (cases "i < length xss")
  case True
  then show ?thesis using set_update_subset_insert [of xss i "List.insert x (xss ! i)"] nth_mem [of i xss] by fastforce
qed (auto simp: list_update_beyond)

lemma wrapper_records: "set (index_pages (on_wrapper k (List.insert pid) s)) \<subseteq> insert pid (set (index_pages s))"
  using concat_insert_at [of "x_wrappers s" _ pid] by (auto simp: on_wrapper_def index_pages_def split: option.split)

lemma index_write_law:
  assumes "txn_kept I X s" and "own_pages I (txn_pages s) pid \<noteq> None" and "length d = 4096"
  shows "\<exists>t. exec_write_page pid d s = (Inr (), t) \<and> txn_kept I X t \<and>
    own_pages I (txn_pages t) = (own_pages I (txn_pages s))(pid \<mapsto> d) \<and> (\<forall>m. txn_room m s \<longrightarrow> txn_room m t)"
proof -
  have i: "txn_ready s" "I \<subseteq>\<^sub>m txn_pages s" "txn_pages s pid \<noteq> None" "I pid = None"
    using assms(1,2) own_pages_Some [of I "txn_pages s" pid] by (auto simp: txn_kept_def)
  have "pid \<noteq> 1" using i(3) by (auto simp: txn_pages_def pages_in_use_def)
  then obtain t where t: "exec_write_page pid d s = (Inr (), t)" "txn_ready t" "txn_pages t = (txn_pages s)(pid \<mapsto> d)"
    "same_tables s t" "\<forall>m. txn_room m s \<longrightarrow> txn_room m t"
    using txn_write [OF i(1) disjI2 [OF i(3)] assms(3)] by (auto simp: txn_room_def page_room_def)
  show ?thesis
    using t own_pages_upd [OF i(2,4) t(3)] same_tables_pages [OF t(4)] assms(1) by (auto simp: txn_kept_def)
qed

lemma index_alloc_law:
  assumes "txn_kept I X s" and "txn_room (Suc n) s"
  shows "\<exists>pid d t. index_alloc k s = (Inr pid, t) \<and> txn_kept I X t \<and> own_pages I (txn_pages s) pid = None \<and> u32 pid \<and>
    own_pages I (txn_pages t) = (own_pages I (txn_pages s))(pid \<mapsto> d) \<and> (\<forall>m. txn_room (Suc m) s \<longrightarrow> txn_room m t)"
proof -
  have i: "txn_ready s" "I \<subseteq>\<^sub>m txn_pages s" using assms(1) by (simp_all add: txn_kept_def)
  obtain pid q where a: "on_exec_pager alloc_page s = (Inr pid, s\<lparr>x_pager := q\<rparr>)" "txn_ready (s\<lparr>x_pager := q\<rparr>)" "txn_pages s pid = None" "u32 pid"
    "txn_pages (s\<lparr>x_pager := q\<rparr>) = (txn_pages s)(pid \<mapsto> zero_page)" "\<forall>m. txn_room (Suc m) s \<longrightarrow> txn_room m (s\<lparr>x_pager := q\<rparr>)"
    using txn_alloc_law [OF i(1) assms(2)] by blast
  let ?s = "s\<lparr>x_pager := q\<rparr>" and ?t = "on_wrapper k (List.insert pid) (s\<lparr>x_pager := q\<rparr>)"
  have r: "index_alloc k s = (Inr pid, ?t)" using a(1) by (simp add: index_alloc_def bindS_def)
  obtain ws where ws: "?t = ?s\<lparr>x_wrappers := ws\<rparr>" by (rule on_wrapper_is)
  then have st: "txn_pages ?t = txn_pages ?s" "txn_ready ?t" "txn_room m ?t = txn_room m ?s" for m using a(2) by (simp_all only: txn_wrappers)
  have none: "I pid = None" by (rule map_le_None [OF i(2) a(3)])
  note up = own_pages_upd [OF i(2) none a(5)]
  have "set (index_pages ?t) \<subseteq> insert pid (set (index_pages s))" using wrapper_records [of k pid ?s] by (simp add: index_pages_def)
  moreover have "pid \<notin> dom I" using none by auto
  ultimately have "set (index_pages ?t) \<inter> dom I \<subseteq> X" using assms(1) unfolding txn_kept_def by blast
  then have "txn_kept I X ?t" using st(1,2) up(1) by (simp add: txn_kept_def)
  then show ?thesis
    using r a(4,6) up(2) own_pages_None [where h = "txn_pages s" and I = I, OF a(3)] by (intro exI conjI) (assumption | simp only: st)+
qed

interpretation index_tree: tree_store "index_io k" "txn_kept I X" "\<lambda>s. own_pages I (txn_pages s)" txn_room for I X k
proof
  show "io_read (index_io k) pid s = Inr d" if "txn_kept I X s" and "own_pages I (txn_pages s) pid = Some d" for pid s d
    using that txn_read_law own_pages_Some by (simp add: index_io_def)
  show "own_pages I (txn_pages s) 0 = None" if "txn_kept I X s" for s
    by (rule own_pages_None [where h = "txn_pages s"]) (simp add: txn_pages_def pages_in_use_def)
  show "txn_room n s" if "txn_room (Suc n) s" for n s using that by (simp add: txn_room_def page_room_def)
qed (unfold index_io_def page_io.simps, rule index_write_law index_alloc_law; assumption)+

section \<open>The number of pages bounds the tree\<close>

lemma sum_list_member: "x \<in> set xs \<Longrightarrow> f x \<le> sum_list (map f xs)" for f :: "'a \<Rightarrow> nat"
  by (induction xs) auto

lemma pids_bound: "length (leaves t) \<le> length (pids t) \<and> depth_le (length (pids t)) t"
proof (induction t)
  case (Nd pid ks ts)
  have "depth_le (sum_list (map (length \<circ> pids) ts)) t" if "t \<in> set ts" for t
    using Nd [OF that] sum_list_member [OF that, of "length \<circ> pids"] depth_le_mono by auto
  moreover have "sum_list (map (length \<circ> leaves) ts) \<le> sum_list (map (length \<circ> pids) ts)"
    by (rule sum_list_mono) (simp add: Nd)
  ultimately show ?case by (auto simp: length_concat comp_def)
qed simp

context tree_store
begin

lemma is_map_bound:
  assumes "is_map w d (s, rt) m" and "dom (held s) \<subseteq> A" and "finite A"
  shows "is_map w (card A) (s, rt) m"
proof (cases rt)
  case None
  then show ?thesis using assms(1) by (simp add: is_map_def)
next
  case (Some r)
  then obtain t where t: "r = pid_of t" "tree_at w s t" "linked (leaves t)" "tree_map t = m" "inv s"
    using assms(1) by (auto simp: is_map_def)
  have "set (pids t) \<subseteq> A" using t(2) assms(2) stored_held [of "held s" t] by (auto simp: tree_at_def)
  from card_mono [OF assms(3) this] have "length (pids t) \<le> card A"
    using t(2) distinct_card [of "pids t"] by (simp add: tree_at_def)
  then have "depth_le (card A) t" "length (leaves t) \<le> Suc (card A)"
    using pids_bound [of t] depth_le_mono by auto
  then show ?thesis using t Some by (auto simp: is_map_def)
qed

lemma is_map_cong:
  "inv s' = inv s \<Longrightarrow> held s' = held s \<Longrightarrow> is_map w d (s', rt) m = is_map w d (s, rt) m"
  by (cases rt) (simp_all add: is_map_def tree_at_def)

end

section \<open>An index is a map\<close>

text \<open>What the operations of one index leave alone: everything but its root, the page lists of the wrappers, the pager and the buffer.\<close>

definition index_only :: "index_key \<Rightarrow> exec \<Rightarrow> exec \<Rightarrow> bool" where
  "index_only k s t \<longleftrightarrow> x_catalog t = x_catalog s \<and> x_data_pages t = x_data_pages s \<and>
     x_next_txn t = x_next_txn s \<and> x_snapshot t = x_snapshot s \<and>
     (get_btree k s \<noteq> None \<longrightarrow> get_btree k t \<noteq> None) \<and> (\<forall>j. j \<noteq> k \<longrightarrow> get_btree j t = get_btree j s)"

interpretation one_index: tree_frame "index_only k" for k
  by unfold_locales (auto simp: index_only_def paged_def)

lemma index_only_set: "get_btree k s \<noteq> None \<Longrightarrow> index_only k s (s\<lparr>x_indexes := AList.update k ix (x_indexes s)\<rparr>)"
  by (simp add: index_only_def get_btree_def update_conv')

lemma index_only_write: "keeps (index_only k) (exec_write_page pid d)"
  by (rule keepsI) (auto simp: index_only_def exec_write_page_def on_exec_pager_def on_txn_def bindS_def get_btree_def
      split: if_splits prod.splits option.splits sum.splits)

lemma index_only_alloc: "keeps (index_only k) (index_alloc k)"
  unfolding index_alloc_def
proof (intro one_index.rules)
  show "keeps (index_only k) (on_exec_pager alloc_page)"
    by (rule keepsI) (auto simp: index_only_def on_exec_pager_def get_btree_def split: prod.splits)
qed (auto simp: index_only_def on_wrapper_def get_btree_def split: option.split)

lemma on_tree_run:
  assumes "get_btree k s = Some ix" and "c (tree_fuel s) (s, ix_root ix) = (r, (s', rt))" and "keeps (paged (index_only k)) (c (tree_fuel s))"
  obtains ix' where "on_tree k c s = (r, s'\<lparr>x_indexes := AList.update k (ix'\<lparr>ix_root := rt\<rparr>) (x_indexes s')\<rparr>)"
    and "index_only k s (s'\<lparr>x_indexes := AList.update k (ix'\<lparr>ix_root := rt\<rparr>) (x_indexes s')\<rparr>)" and "get_btree k s' = Some ix'"
proof -
  have o: "index_only k s s'" using keepsD [OF assms(3,2)] by (simp add: paged_def)
  then obtain ix' where ix': "get_btree k s' = Some ix'" using assms(1) by (auto simp: index_only_def)
  have "on_tree k c s = (r, s'\<lparr>x_indexes := AList.update k (ix'\<lparr>ix_root := rt\<rparr>) (x_indexes s')\<rparr>)"
    using assms(1,2) ix' by (simp add: on_tree_def)
  then show ?thesis using that one_index.trans [OF o index_only_set] ix' by blast
qed

text \<open>Index \<open>k\<close> is the map \<open>m\<close>, in a tree whose keys have \<open>w\<close> bytes and that leaves the pages \<open>I\<close> alone.\<close>

definition index_is :: "(int \<Rightarrow> byte list option) \<Rightarrow> int set \<Rightarrow> nat \<Rightarrow> nat \<Rightarrow> index_key \<Rightarrow> exec \<Rightarrow> (key \<Rightarrow> (int \<times> int) option) \<Rightarrow> bool" where
  "index_is I X w d k s m \<longleftrightarrow> (\<exists>ix. get_btree k s = Some ix \<and> index_tree.is_map I X w d (s, ix_root ix) m)"

lemma index_is_bound:
  assumes "index_is I X w d k s m" and "dom (txn_pages s) - dom I \<subseteq> A" and "finite A"
  shows "index_is I X w (card A) k s m"
proof -
  have "dom (own_pages I (txn_pages s)) \<subseteq> A" using assms(2) by (auto dest!: own_pages_Some)
  from index_tree.is_map_bound [OF _ this assms(3)] show ?thesis using assms(1) by (auto simp: index_is_def)
qed

text \<open>The pages of a transaction are fewer than the fuel of a descent.\<close>

lemma txn_pages_below: "dom (txn_pages s) \<subseteq> {2..<next_page_id (x_pager s)}"
  by (auto simp: txn_pages_def pages_in_use_def split: if_splits)

lemma txn_pages_card: "A \<subseteq> dom (txn_pages s) \<Longrightarrow> finite A \<and> card A < tree_fuel s"
proof -
  let ?B = "{2..<next_page_id (x_pager s)}"
  assume "A \<subseteq> dom (txn_pages s)"
  with txn_pages_below have "A \<subseteq> ?B" by blast
  then have "finite A" "card A \<le> card ?B" using finite_subset [of A ?B] card_mono [of ?B A] by simp_all
  then show ?thesis by (simp add: tree_fuel_def)
qed

lemma index_is_root:
  assumes "index_tree.is_map I X w d (s, rt) m" and "get_btree k s = Some ix"
  shows "index_is I X w d k (s\<lparr>x_indexes := AList.update k (ix\<lparr>ix_root := rt\<rparr>) (x_indexes s)\<rparr>) m"
proof -
  let ?t = "s\<lparr>x_indexes := AList.update k (ix\<lparr>ix_root := rt\<rparr>) (x_indexes s)\<rparr>"
  have "txn_kept I X ?t" using assms(1) by (auto simp: index_tree.is_map_def txn_kept_def index_pages_def)
  then have "index_tree.is_map I X w d (?t, rt) m"
    using assms(1) index_tree.is_map_cong [of I X ?t s] by (simp add: index_tree.is_map_def)
  then show ?thesis by (simp add: index_is_def get_btree_def update_conv')
qed

lemma lookup_is: "index_is I X w d k s m \<Longrightarrow> d \<le> tree_fuel s \<Longrightarrow> lookup_key k key s = Inr (m key)"
  by (auto simp: index_is_def lookup_key_def index_tree.search_map)

lemma index_insert_is:
  assumes "index_is I X w d k s m" and "safe_width w" and "length key = w" and "u32 (fst ref)" and "u32 (snd ref)"
    and "d < tree_fuel s" and "txn_room (d + 2) s"
  shows "\<exists>t. index_insert k key ref s = (Inr (), t) \<and> index_is I X w (Suc d) k t (m(key \<mapsto> ref)) \<and> index_only k s t \<and>
    (\<forall>j. txn_room (j + (d + 2)) s \<longrightarrow> txn_room j t)"
proof -
  obtain ix where ix: "get_btree k s = Some ix" "index_tree.is_map I X w d (s, ix_root ix) m" using assms(1) by (auto simp: index_is_def)
  from index_tree.insert_map [OF ix(2) assms(2-7), of k] obtain s' rt where
    r: "bt_insert (index_io k) (tree_fuel s) key ref (s, ix_root ix) = (Inr (), (s', rt))"
      "index_tree.is_map I X w (Suc d) (s', rt) (m(key \<mapsto> ref))" "\<forall>j. txn_room (j + (d + 2)) s \<longrightarrow> txn_room j s'" by blast
  have "keeps (paged (index_only k)) (bt_insert (index_io k) fuel key ref)" for fuel
    by (rule one_index.tree_insert) (simp_all add: index_io_def index_only_write index_only_alloc)
  from on_tree_run [where c = "\<lambda>fuel. bt_insert (index_io k) fuel key ref", OF ix(1) r(1) this] obtain ix' where
    t: "index_insert k key ref s = (Inr (), s'\<lparr>x_indexes := AList.update k (ix'\<lparr>ix_root := rt\<rparr>) (x_indexes s')\<rparr>)"
      "index_only k s (s'\<lparr>x_indexes := AList.update k (ix'\<lparr>ix_root := rt\<rparr>) (x_indexes s')\<rparr>)" "get_btree k s' = Some ix'"
    by (metis index_insert_def)
  show ?thesis
    using t(1,2) index_is_root [OF r(2) t(3)] r(3) by (intro exI conjI) (assumption | simp)+
qed

lemma index_delete_is:
  assumes "index_is I X w d k s m" and "d \<le> tree_fuel s"
  shows "\<exists>t. index_delete k key s = (Inr (), t) \<and> index_is I X w d k t (m(key := None)) \<and> index_only k s t \<and>
    (\<forall>j. txn_room j s \<longrightarrow> txn_room j t)"
proof -
  obtain ix where ix: "get_btree k s = Some ix" "index_tree.is_map I X w d (s, ix_root ix) m" using assms(1) by (auto simp: index_is_def)
  obtain s' where r: "bt_delete (index_io k) (tree_fuel s) key (s, ix_root ix) = (Inr (), (s', ix_root ix))"
      "index_tree.is_map I X w d (s', ix_root ix) (m(key := None))" "\<forall>j. txn_room j s \<longrightarrow> txn_room j s'"
    using index_tree.delete_map [OF ix(2) assms(2), of k key] by blast
  have "keeps (paged (index_only k)) (bt_delete (index_io k) fuel key)" for fuel
    by (rule one_index.tree_delete) (simp add: index_io_def index_only_write)
  from on_tree_run [where c = "\<lambda>fuel. bt_delete (index_io k) fuel key", OF ix(1) r(1) this] obtain ix' where
    t: "on_tree k (\<lambda>fuel. bt_delete (index_io k) fuel key) s = (Inr (), s'\<lparr>x_indexes := AList.update k (ix'\<lparr>ix_root := ix_root ix\<rparr>) (x_indexes s')\<rparr>)"
      "index_only k s (s'\<lparr>x_indexes := AList.update k (ix'\<lparr>ix_root := ix_root ix\<rparr>) (x_indexes s')\<rparr>)" "get_btree k s' = Some ix'"
    by metis
  then have "index_delete k key s = (Inr (), s'\<lparr>x_indexes := AList.update k (ix'\<lparr>ix_root := ix_root ix\<rparr>) (x_indexes s')\<rparr>)"
    using ix(1) by (simp add: index_delete_def)
  then show ?thesis
    using t(2) index_is_root [OF r(2) t(3)] r(3) by (intro exI conjI) (assumption | simp)+
qed

section \<open>The pages of an index\<close>

text \<open>Index \<open>k\<close> is the map \<open>m\<close> and its tree lies in the pages \<open>P\<close>.\<close>

definition index_in :: "int set \<Rightarrow> nat \<Rightarrow> index_key \<Rightarrow> exec \<Rightarrow> (key \<Rightarrow> (int \<times> int) option) \<Rightarrow> bool" where
  "index_in P w k s m \<longleftrightarrow> P \<subseteq> dom (txn_pages s) \<and> index_is (txn_pages s |` (- P)) (set (index_pages s)) w (card P) k s m"

lemma own_rest: "own_pages (h |` (- P)) h = h |` P"
  by (rule ext) (auto simp: own_pages_def restrict_map_def domIff)

lemma index_is_ready: "index_is I X w d k s m \<Longrightarrow> txn_kept I X s"
  by (auto simp: index_is_def index_tree.is_map_def)

lemma index_in_ready: "index_in P w k s m \<Longrightarrow> txn_ready s"
  by (auto simp: index_in_def txn_kept_def dest: index_is_ready)

lemma index_map_cong:
  "index_tree.is_map I X w d (s, rt) m \<Longrightarrow> txn_kept J Y t \<Longrightarrow> own_pages J (txn_pages t) = own_pages I (txn_pages s) \<Longrightarrow>
   index_tree.is_map J Y w d (t, rt) m"
  by (cases rt) (auto simp: index_tree.is_map_def index_tree.tree_at_def)

lemma lookup_in: "index_in P w k s m \<Longrightarrow> lookup_key k key s = Inr (m key)"
  using txn_pages_card [of P s] by (auto simp: index_in_def intro: lookup_is)

lemma index_in_transfer:
  assumes "index_in P w k s m" and "txn_ready t" and "\<And>p. p \<in> P \<Longrightarrow> txn_pages t p = txn_pages s p"
    and "map_option ix_root (get_btree k t) = map_option ix_root (get_btree k s)"
  shows "index_in P w k t m"
proof -
  have P: "P \<subseteq> dom (txn_pages t)" using assms(1,3) by (auto simp: index_in_def domIff)
  obtain ix where ix: "get_btree k s = Some ix" "index_tree.is_map (txn_pages s |` (- P)) (set (index_pages s)) w (card P) (s, ix_root ix) m"
    using assms(1) by (auto simp: index_in_def index_is_def)
  obtain ix' where ix': "get_btree k t = Some ix'" "ix_root ix' = ix_root ix" using assms(4) ix(1) by auto
  have "txn_pages t |` P = txn_pages s |` P" using assms(3) by (auto simp: restrict_map_def fun_eq_iff)
  moreover have "txn_kept (txn_pages t |` (- P)) (set (index_pages t)) t" using assms(2) by (auto simp: txn_kept_def map_le_def)
  ultimately have "index_tree.is_map (txn_pages t |` (- P)) (set (index_pages t)) w (card P) (t, ix_root ix) m"
    by (intro index_map_cong [OF ix(2)]) (simp_all add: own_rest)
  then show ?thesis using P ix' by (simp add: index_in_def index_is_def)
qed

text \<open>An update of an index whose pages were \<open>P\<close> and are then \<open>Q\<close>.\<close>

definition tree_step :: "index_key \<Rightarrow> int set \<Rightarrow> int set \<Rightarrow> exec \<Rightarrow> exec \<Rightarrow> bool" where
  "tree_step k P Q s t \<longleftrightarrow> index_only k s t \<and> txn_ready t \<and> Q \<inter> dom (txn_pages s) \<subseteq> P \<and>
     (\<forall>p \<in> dom (txn_pages s) - P. txn_pages t p = txn_pages s p) \<and>
     set (index_pages t) \<inter> (dom (txn_pages s) - P) \<subseteq> set (index_pages s)"

lemma index_in_step:
  assumes "index_in P w k s m" and "index_is (txn_pages s |` (- P)) (set (index_pages s)) w d k t m'" and "index_only k s t"
  shows "\<exists>Q. index_in Q w k t m' \<and> tree_step k P Q s t"
proof -
  let ?I = "txn_pages s |` (- P)"
  define Q where "Q = dom (txn_pages t) - dom ?I"
  have kept: "txn_kept ?I (set (index_pages s)) t" by (rule index_is_ready [OF assms(2)])
  then have le: "?I \<subseteq>\<^sub>m txn_pages t" and r: "txn_ready t" by (simp_all add: txn_kept_def)
  have I: "?I = txn_pages t |` (- Q)"
  proof
    fix p
    show "?I p = (txn_pages t |` (- Q)) p"
    proof (cases "?I p")
      case None
      then show ?thesis by (cases "txn_pages t p") (simp_all add: Q_def restrict_map_def domIff)
    next
      case (Some d)
      then have "txn_pages t p = Some d" using le by (metis domI map_le_def)
      then show ?thesis using Some by (simp add: Q_def restrict_map_def domIff)
    qed
  qed
  have "index_is ?I (set (index_pages s)) w (card Q) k t m'"
    by (rule index_is_bound [OF assms(2)]) (use txn_pages_card [of Q t] in \<open>auto simp: Q_def\<close>)
  moreover have "index_tree.is_map ?I (set (index_pages t)) w d' (t, rt) m'" if "index_tree.is_map ?I (set (index_pages s)) w d' (t, rt) m'" for d' rt
    by (rule index_map_cong [OF that]) (use kept in \<open>auto simp: txn_kept_def\<close>)
  ultimately have "index_in Q w k t m'" unfolding index_in_def index_is_def I [symmetric] by (auto simp: Q_def)
  moreover have "tree_step k P Q s t"
    unfolding tree_step_def
  proof (intro conjI)
    show "\<forall>p \<in> dom (txn_pages s) - P. txn_pages t p = txn_pages s p"
    proof
      fix p assume p: "p \<in> dom (txn_pages s) - P"
      then have "p \<in> dom ?I" by simp
      then have "?I p = txn_pages t p" using le unfolding map_le_def by blast
      then show "txn_pages t p = txn_pages s p" using p by simp
    qed
    have "dom ?I = dom (txn_pages s) - P" by auto
    then show "set (index_pages t) \<inter> (dom (txn_pages s) - P) \<subseteq> set (index_pages s)" using kept by (simp add: txn_kept_def)
  qed (use assms(3) r in \<open>auto simp: Q_def\<close>)
  ultimately show ?thesis by blast
qed

lemma index_insert_in:
  assumes "index_in P w k s m" and "safe_width w" and "length key = w" and "u32 (fst ref)" and "u32 (snd ref)" and "txn_room (card P + 2) s"
  shows "\<exists>t Q. index_insert k key ref s = (Inr (), t) \<and> index_in Q w k t (m(key \<mapsto> ref)) \<and> tree_step k P Q s t \<and>
    (\<forall>j. txn_room (j + (card P + 2)) s \<longrightarrow> txn_room j t)"
proof -
  have "card P < tree_fuel s" using assms(1) txn_pages_card by (simp add: index_in_def)
  from index_insert_is [OF _ assms(2-5) this assms(6)] obtain t where t: "index_insert k key ref s = (Inr (), t)"
    "index_is (txn_pages s |` (- P)) (set (index_pages s)) w (Suc (card P)) k t (m(key \<mapsto> ref))" "index_only k s t"
    "\<forall>j. txn_room (j + (card P + 2)) s \<longrightarrow> txn_room j t" using assms(1) unfolding index_in_def by blast
  show ?thesis using index_in_step [OF assms(1) t(2,3)] t(1,4) by blast
qed

lemma index_delete_in:
  assumes "index_in P w k s m"
  shows "\<exists>t Q. index_delete k key s = (Inr (), t) \<and> index_in Q w k t (m(key := None)) \<and> tree_step k P Q s t \<and> (\<forall>j. txn_room j s \<longrightarrow> txn_room j t)"
proof -
  have "card P \<le> tree_fuel s" using assms(1) txn_pages_card [of P s] by (auto simp: index_in_def)
  from index_delete_is [OF _ this] obtain t where t: "index_delete k key s = (Inr (), t)"
    "index_is (txn_pages s |` (- P)) (set (index_pages s)) w (card P) k t (m(key := None))" "index_only k s t"
    "\<forall>j. txn_room j s \<longrightarrow> txn_room j t" using assms unfolding index_in_def by blast
  show ?thesis using index_in_step [OF assms(1) t(2,3)] t(1,4) by blast
qed

end
