(* ===== verification/Indexed_Rows.thy ===== *)
theory Indexed_Rows
  imports Index_Map
begin

text \<open>
  A table with its indexes: INSERT enters the row in every index of the table under the key
  of its column, and a SELECT by that key finds the row through the index.
\<close>

section \<open>Keys of one width\<close>

text \<open>The bytes of the keys of a column, for the types whose values all take the same number of bytes.\<close>

fun codec_width :: "codec \<Rightarrow> nat option" where
  "codec_width (IntC name w) = Some w"
| "codec_width BoolC = Some 1"
| "codec_width (FloatC name w) = Some (if w = 4 then 4 else 8)"
| "codec_width (CharC n) = Some (nat n + 2)"
| "codec_width (DecimalC p s) = Some 8"
| "codec_width DateC = Some 4"
| "codec_width TimeC = Some 4"
| "codec_width TimestampC = Some 8"
| "codec_width c = None"

definition key_width :: "column \<Rightarrow> nat option" where
  "key_width col = (case codec_for (c_type col) (c_params col) of Inl e \<Rightarrow> None | Inr c \<Rightarrow> codec_width c)"

lemma utf8_spaces: "utf8_encode (replicate n 32) = Inr (replicate n 32)"
  by (induction n) (auto simp: utf8_encode_def utf8_char_def)

lemma encode_width:
  assumes "encode_py c v = Inr b" and "codec_width c = Some w" and "codec_wf c"
  shows "length b = w"
proof (cases c)
  case (CharC n)
  obtain s d l e where c: "v = PStr s" "utf8_encode s = Inr d" "py_len d \<le> n" "pack_u 2 n = Inr l"
    "utf8_encode (s @ replicate (nat (n - py_len d)) space) = Inr e" "b = l @ e"
    using assms(1) CharC by (auto simp: encode_py_def check_len_def split: pyval.splits if_splits)
  have "length e = length d + nat (n - py_len d)" using c(2,5) by (auto simp: utf8_encode_append utf8_spaces)
  then have "length e = nat n" using c(3) by (simp add: py_len_def)
  then show ?thesis using c(4,6) assms(2) CharC by (auto simp: pack_u_def split: if_splits)
qed (use assms in \<open>auto simp: encode_py_def pack_s_eq_Inr pack_u_def Let_def split: pyval.splits if_splits\<close>)

lemma key_for_width: "key_for col v = Inr key \<Longrightarrow> key_width col = Some w \<Longrightarrow> length key = w"
  by (auto simp: key_for_def key_width_def dest: encode_width codec_for_wf)

section \<open>The indexes of a table\<close>

text \<open>The key of a row in the index of a column, none for NULL; the maps of the indexes with the row entered.\<close>

definition cell_key :: "table_info \<Rightarrow> pyval list \<Rightarrow> column \<Rightarrow> key option" where
  "cell_key ti vals col =
     (case bindE (row_cell ti vals col) (\<lambda>v. if v = PNone then Inr None else bindE (key_for col v) (\<lambda>key. Inr (Some key))) of
        Inl e \<Rightarrow> None
      | Inr k \<Rightarrow> k)"

definition put_row :: "table_info \<Rightarrow> pyval list \<Rightarrow> int \<times> int \<Rightarrow> (column \<Rightarrow> key \<Rightarrow> (int \<times> int) option) \<Rightarrow> column \<Rightarrow> key \<Rightarrow> (int \<times> int) option" where
  "put_row ti vals ref m col = (case cell_key ti vals col of None \<Rightarrow> m col | Some key \<Rightarrow> (m col)(key \<mapsto> ref))"

text \<open>
  The indexes of a table whose data lies in the pages \<open>D\<close>: each is its map, in pages of its own; no data
  page is registered as an index page.
\<close>

definition table_indexes :: "table_info \<Rightarrow> int set \<Rightarrow> (column \<Rightarrow> int set) \<Rightarrow> exec \<Rightarrow> (column \<Rightarrow> key \<Rightarrow> (int \<times> int) option) \<Rightarrow> bool" where
  "table_indexes ti D P s m \<longleftrightarrow> txn_ready s \<and> D \<subseteq> dom (txn_pages s) \<and> D \<inter> set (index_pages s) = {} \<and>
     (\<forall>c \<in> set (indexed_columns ti). P c \<inter> D = {} \<and>
        (\<exists>w. key_width c = Some w \<and> safe_width w \<and> index_in (P c) w (ti_name ti, c_name c) s (m c))) \<and>
     (\<forall>c \<in> set (indexed_columns ti). \<forall>c' \<in> set (indexed_columns ti). c \<noteq> c' \<longrightarrow> c_name c \<noteq> c_name c' \<and> P c \<inter> P c' = {})"

lemma table_indexes_step:
  assumes "table_indexes ti D P s m" and "c \<in> set (indexed_columns ti)" and "key_width c = Some w"
    and "index_in Q w (ti_name ti, c_name c) t m'" and "tree_step (ti_name ti, c_name c) (P c) Q s t"
  shows "table_indexes ti D (P(c := Q)) t (m(c := m'))" and "\<forall>p \<in> D. txn_pages t p = txn_pages s p"
proof -
  have st: "index_only (ti_name ti, c_name c) s t" "txn_ready t" "Q \<inter> dom (txn_pages s) \<subseteq> P c"
    "\<And>p. p \<in> dom (txn_pages s) \<Longrightarrow> p \<notin> P c \<Longrightarrow> txn_pages t p = txn_pages s p"
    "set (index_pages t) \<inter> (dom (txn_pages s) - P c) \<subseteq> set (index_pages s)" using assms(5) by (auto simp: tree_step_def)
  have D: "D \<subseteq> dom (txn_pages s)" "D \<inter> P c = {}" "D \<inter> set (index_pages s) = {}" using assms(1,2) by (auto simp: table_indexes_def)
  show kept: "\<forall>p \<in> D. txn_pages t p = txn_pages s p" using st(4) D by blast
  have old: "index_in (P c') w' (ti_name ti, c_name c') t (m c') \<and> P c' \<inter> Q = {}"
    if "c' \<in> set (indexed_columns ti)" "c' \<noteq> c" "index_in (P c') w' (ti_name ti, c_name c') s (m c')" for c' w'
  proof -
    have o: "P c' \<inter> P c = {}" "c_name c' \<noteq> c_name c" "P c' \<subseteq> dom (txn_pages s)"
      using that assms(1,2) by (auto simp: table_indexes_def index_in_def)
    then have "index_in (P c') w' (ti_name ti, c_name c') t (m c')"
      using st(1,4) by (intro index_in_transfer [OF that(3) st(2)]) (auto simp: index_only_def)
    then show ?thesis using o st(3) by blast
  qed
  have new: "safe_width w" "Q \<inter> D = {}" using assms(1-3) st(3) D by (fastforce simp: table_indexes_def)+
  show "table_indexes ti D (P(c := Q)) t (m(c := m'))"
    unfolding table_indexes_def
  proof (intro conjI ballI impI)
    show "D \<subseteq> dom (txn_pages t)" using kept D(1) by (auto simp: domIff)
    show "D \<inter> set (index_pages t) = {}" using st(5) D by blast
  next
    fix c' assume c': "c' \<in> set (indexed_columns ti)"
    then obtain w' where w': "key_width c' = Some w'" "safe_width w'" "index_in (P c') w' (ti_name ti, c_name c') s (m c')" "P c' \<inter> D = {}"
      using assms(1) by (auto simp: table_indexes_def)
    show "(P(c := Q)) c' \<inter> D = {}" using w'(4) new(2) by simp
    show "\<exists>w. key_width c' = Some w \<and> safe_width w \<and> index_in ((P(c := Q)) c') w (ti_name ti, c_name c') t ((m(c := m')) c')"
      using old [OF c' _ w'(3)] w'(1,2) assms(3,4) new(1) by auto
    fix c'' assume c'': "c'' \<in> set (indexed_columns ti)" "c' \<noteq> c''"
    then obtain w'' where w'': "index_in (P c'') w'' (ti_name ti, c_name c'') s (m c'')" using assms(1) by (auto simp: table_indexes_def)
    have d: "c_name c' \<noteq> c_name c''" "P c' \<inter> P c'' = {}" using assms(1) c' c'' by (simp_all add: table_indexes_def)
    then show "c_name c' \<noteq> c_name c''" by simp
    show "(P(c := Q)) c' \<inter> (P(c := Q)) c'' = {}" using d(2) old [OF c' _ w'(3)] old [OF c''(1) _ w''] c''(2) by auto
  qed (rule st(2))
qed

text \<open>Entering a row in the indexes, column by column.\<close>

definition index_cell :: "table_info \<Rightarrow> pyval list \<Rightarrow> int \<times> int \<Rightarrow> column \<Rightarrow> (exec, unit) cmd" where
  "index_cell ti vals ref col =
     bindS (liftE (row_cell ti vals col)) (\<lambda>v.
     if v = PNone then returnS ()
     else bindS (liftE (key_for col v)) (\<lambda>key. index_insert (ti_name ti, c_name col) key ref))"

lemma txn_room_less: "txn_room n s \<Longrightarrow> m \<le> n \<Longrightarrow> txn_room m s"
  by (simp add: txn_room_def page_room_def)

lemma index_cell_run:
  assumes "index_cell ti vals ref col s = (Inr (), t)"
  shows "(cell_key ti vals col = None \<and> t = s) \<or>
    (\<exists>key v. cell_key ti vals col = Some key \<and> key_for col v = Inr key \<and> index_insert (ti_name ti, c_name col) key ref s = (Inr (), t))"
  using assms by (auto simp: index_cell_def cell_key_def liftE_def bindS_eq_Inr split: if_splits)

lemma index_cell_enters:
  assumes "index_cell ti vals ref col s = (Inr (), t)" and "table_indexes ti D P s m" and "col \<in> set (indexed_columns ti)"
    and "u32 (fst ref)" and "u32 (snd ref)" and "txn_room (card (P col) + 2) s"
  shows "\<exists>Q. table_indexes ti D (P(col := Q)) t (m(col := put_row ti vals ref m col)) \<and> (\<forall>p \<in> D. txn_pages t p = txn_pages s p) \<and>
    x_data_pages t = x_data_pages s \<and> x_catalog t = x_catalog s \<and> (\<forall>j. txn_room (j + (card (P col) + 2)) s \<longrightarrow> txn_room j t)"
proof -
  obtain w where w: "key_width col = Some w" "safe_width w" "index_in (P col) w (ti_name ti, c_name col) s (m col)"
    using assms(2,3) by (auto simp: table_indexes_def)
  consider "cell_key ti vals col = None" "t = s"
    | key v where "cell_key ti vals col = Some key" "key_for col v = Inr key" "index_insert (ti_name ti, c_name col) key ref s = (Inr (), t)"
    using index_cell_run [OF assms(1)] by metis
  then show ?thesis
  proof cases
    case 1
    have "txn_room j s" if "txn_room (j + (card (P col) + 2)) s" for j using that by (rule txn_room_less) simp
    then show ?thesis using 1 assms(2) by (intro exI [of _ "P col"]) (simp add: put_row_def)
  next
    case 2
    from index_insert_in [OF w(3,2) key_for_width [OF 2(2) w(1)] assms(4-6)] 2(3) obtain Q where
      Q: "index_in Q w (ti_name ti, c_name col) t ((m col)(key \<mapsto> ref))" "tree_step (ti_name ti, c_name col) (P col) Q s t"
      "\<forall>j. txn_room (j + (card (P col) + 2)) s \<longrightarrow> txn_room j t" by auto
    from table_indexes_step [OF assms(2,3) w(1) Q(1,2)] Q(2,3) 2(1) show ?thesis
      by (auto simp: put_row_def tree_step_def index_only_def)
  qed
qed

lemma index_cells_enter:
  assumes "forS cs (index_cell ti vals ref) s = (Inr (), t)" and "table_indexes ti D P s m" and "set cs \<subseteq> set (indexed_columns ti)"
    and "distinct cs" and "u32 (fst ref)" and "u32 (snd ref)" and "\<forall>c \<in> set cs. card (P c) \<le> n" and "txn_room (length cs * (n + 2)) s"
  shows "\<exists>Q. table_indexes ti D Q t (\<lambda>c. if c \<in> set cs then put_row ti vals ref m c else m c) \<and>
    (\<forall>p \<in> D. txn_pages t p = txn_pages s p) \<and> x_data_pages t = x_data_pages s \<and> x_catalog t = x_catalog s"
  using assms
proof (induction cs arbitrary: s P m)
  case Nil
  then show ?case by auto
next
  case (Cons c cs)
  obtain s1 where s1: "index_cell ti vals ref c s = (Inr (), s1)" "forS cs (index_cell ti vals ref) s1 = (Inr (), t)"
    using Cons.prems(1) by (auto simp: bindS_eq_Inr)
  have room: "txn_room (length cs * (n + 2) + (card (P c) + 2)) s"
    using Cons.prems(7,8) by (auto simp: txn_room_def page_room_def intro: order_trans [rotated])
  then have "txn_room (card (P c) + 2) s" by (rule txn_room_less) simp
  from index_cell_enters [OF s1(1) Cons.prems(2) _ Cons.prems(5,6) this] Cons.prems(3) obtain Q where
    Q: "table_indexes ti D (P(c := Q)) s1 (m(c := put_row ti vals ref m c))" "\<forall>p \<in> D. txn_pages s1 p = txn_pages s p"
    "x_data_pages s1 = x_data_pages s" "x_catalog s1 = x_catalog s" "\<forall>j. txn_room (j + (card (P c) + 2)) s \<longrightarrow> txn_room j s1" by auto
  have "\<forall>c' \<in> set cs. card ((P(c := Q)) c') \<le> n" using Cons.prems(4,7) by auto
  from Cons.IH [OF s1(2) Q(1) _ _ Cons.prems(5,6) this] Cons.prems(3,4) Q(5) room obtain R where
    R: "table_indexes ti D R t (\<lambda>c'. if c' \<in> set cs then put_row ti vals ref (m(c := put_row ti vals ref m c)) c' else (m(c := put_row ti vals ref m c)) c')"
    "\<forall>p \<in> D. txn_pages t p = txn_pages s1 p" "x_data_pages t = x_data_pages s1" "x_catalog t = x_catalog s1" by auto
  have "(\<lambda>c'. if c' \<in> set cs then put_row ti vals ref (m(c := put_row ti vals ref m c)) c' else (m(c := put_row ti vals ref m c)) c') =
      (\<lambda>c'. if c' \<in> set (c # cs) then put_row ti vals ref m c' else m c')"
    using Cons.prems(4) by (auto simp: fun_eq_iff put_row_def split: option.split)
  then show ?case using R Q(2-4) by (intro exI [of _ R]) simp
qed

lemma index_row_cells: "index_row ti vals ref = forS (indexed_columns ti) (index_cell ti vals ref)"
  by (simp add: index_row_def index_cell_def [abs_def])

section \<open>Storing the row\<close>

lemma catalog_bytes_length: "catalog_to_bytes c = Inr d \<Longrightarrow> length d = 4096"
  by (auto simp: catalog_to_bytes_def split: if_splits)

lemma txn_other_fields [simp]:
  "txn_pages (s\<lparr>x_data_pages := dp, x_catalog := c\<rparr>) = txn_pages s" "txn_ready (s\<lparr>x_data_pages := dp, x_catalog := c\<rparr>) = txn_ready s"
  by (simp_all add: txn_pages_def txn_ready_def buffer_used_def exec_read_page_def fun_eq_iff cong: option.case_cong)

lemma txn_alloc_result:
  assumes "txn_ready s" and "has_room (x_pager s)" and "alloc_page (x_pager s) = (Inr pid, q)"
  shows "txn_ready (s\<lparr>x_pager := q\<rparr>) \<and> txn_pages s pid = None \<and> txn_pages (s\<lparr>x_pager := q\<rparr>) = (txn_pages s)(pid \<mapsto> zero_page) \<and>
    next_page_id q \<le> next_page_id (x_pager s) + 1"
proof -
  have "txn_room (Suc 0) s" using assms(2) by (simp add: txn_room_def page_room_def has_room_def)
  from txn_alloc_law [OF assms(1) this] obtain i r where r: "on_exec_pager alloc_page s = (Inr i, s\<lparr>x_pager := r\<rparr>)"
    "txn_ready (s\<lparr>x_pager := r\<rparr>)" "txn_pages s i = None" "txn_pages (s\<lparr>x_pager := r\<rparr>) = (txn_pages s)(i \<mapsto> zero_page)" by blast
  have "i = pid" "s\<lparr>x_pager := r\<rparr> = s\<lparr>x_pager := q\<rparr>" using r(1) assms(3) by (auto simp: on_exec_pager_def)
  moreover have "pager_inv (x_pager s)" using assms(1) by (simp add: txn_ready_def)
  ultimately show ?thesis using r alloc_page_grows [OF _ assms(2,3)] by simp
qed

lemma to_bytes_length: "plain_page p \<Longrightarrow> to_bytes p = Inr b \<Longrightarrow> length b = 4096"
  using to_bytes_image [of p] length_page_image [of p] by (simp add: plain_page_def)

text \<open>Storing a row touches the pages of the table only.\<close>

lemma inline_frame:
  assumes "insert_inline_only ti row s = (Inr ref, t)" and "plain_table s ti dps" and "txn_ready s" and "has_room (x_pager t)"
    and "py_len row \<le> CHUNK_SIZE" and "\<And>pid p. pid \<in> set dps \<Longrightarrow> plain_at s pid p \<Longrightarrow> room_for p row"
  shows "txn_ready t \<and> (\<forall>p \<in> dom (txn_pages s) - set dps. txn_pages t p = txn_pages s p) \<and>
    x_indexes t = x_indexes s \<and> x_wrappers t = x_wrappers s \<and> next_page_id (x_pager t) \<le> next_page_id (x_pager s) + 1 \<and>
    (\<exists>dps'. map_of (x_data_pages t) (ti_name ti) = Some dps' \<and> set dps' \<inter> dom (txn_pages s) \<subseteq> set dps)"
proof -
  have maps: "map_of (x_data_pages s) (ti_name ti) = Some dps" using assms(2) by (simp add: plain_table_def)
  have inv: "pager_inv (x_pager s)" using assms(3) by (simp add: txn_ready_def)
  from assms(1) maps inv assms(4) show ?thesis
  proof (cases rule: inline_cases)
    case (old pid sid raw p p' b)
    obtain p0 where p0: "plain_at s pid p0" "pages_in_use (x_pager s) pid \<noteq> None" using assms(2) old(2) by (auto simp: plain_table_def)
    then have at: "plain_at s pid p" using old(4,5) by (auto simp: plain_at_def)
    then have "plain_page p'" using plain_insert [OF _ old(6) assms(6) [OF old(2) at]] by (simp add: plain_at_def)
    then have len: "length b = 4096" by (rule to_bytes_length [OF _ old(7)])
    have use: "txn_pages s pid \<noteq> None" using p0(2) txn_pages_use [OF inv] by simp
    from txn_write [OF assms(3) disjI2 [OF this] len] old(8) maps old(2) show ?thesis
      by (auto simp: same_tables_def)
  next
    case (new pid sid q s2 d s3 raw p p' b)
    from txn_alloc_result [OF assms(3) new(3,4)] have a: "txn_ready (s\<lparr>x_pager := q\<rparr>)" "txn_pages s pid = None"
      "txn_pages (s\<lparr>x_pager := q\<rparr>) = (txn_pages s)(pid \<mapsto> zero_page)" "next_page_id q \<le> next_page_id (x_pager s) + 1" by simp_all
    have s2: "txn_ready s2" "txn_pages s2 = (txn_pages s)(pid \<mapsto> zero_page)" using a(1,3) by (simp_all add: new(5))
    from txn_write [OF s2(1), of 1 d] catalog_bytes_length [OF new(6)] new(7) have w1: "txn_ready s3" "txn_pages s3 = txn_pages s2"
      "same_tables s2 s3" "next_page_id (x_pager s3) = next_page_id (x_pager s2)" by auto
    have "exec_read_page pid s3 = Inr zero_page" by (rule txn_read_law) (simp add: w1(2) s2(2))
    then have "p = (new_page pid)\<lparr>free_offset := 0\<rparr>" using new(8,9) from_bytes_zero by simp
    then have ins: "insert_row (new_page pid) row = Inr (sid, p')" using new(10) insert_new_page by simp
    have "plain_page p'" by (rule plain_insert(1) [OF new_page_plain(1) ins new_page_room [OF assms(5)]])
    then have len: "length b = 4096" by (rule to_bytes_length [OF _ new(11)])
    have "txn_pages s3 pid \<noteq> None" by (simp add: w1(2) s2(2))
    from txn_write [OF w1(1) disjI2 [OF this] len] new(12) have w2: "txn_ready t" "txn_pages t = (if pid = 1 then txn_pages s3 else (txn_pages s3)(pid \<mapsto> b))"
      "same_tables s3 t" "next_page_id (x_pager t) = next_page_id (x_pager s3)" by auto
    have st: "x_indexes t = x_indexes s" "x_wrappers t = x_wrappers s" "map_of (x_data_pages t) (ti_name ti) = Some (dps @ [pid])"
      using w1(3) w2(3) by (simp_all add: same_tables_def new(5) update_conv')
    have "txn_pages t r = txn_pages s r" if "txn_pages s r \<noteq> None" for r using that a(2) w1(2) w2(2) s2(2) by auto
    moreover have "next_page_id (x_pager t) \<le> next_page_id (x_pager s) + 1" using a(4) w1(4) w2(4) by (simp add: new(5))
    ultimately show ?thesis using w2(1) st a(2) by (auto simp: domIff)
  qed
qed

section \<open>INSERT and the row found again\<close>

lemma find_named: "x \<in> set xs \<Longrightarrow> distinct (map f xs) \<Longrightarrow> find (\<lambda>y. f y = f x) xs = Some x"
  by (induction xs) (auto simp: image_iff)

text \<open>Index updates leave the rows of the table where they are.\<close>

lemma table_kept:
  assumes "plain_table s ti dps" and "scan_table ti s = Inr rows" and "\<forall>p \<in> set dps. txn_pages t p = txn_pages s p"
    and "set dps \<inter> set (index_pages t) = {}" and "x_data_pages t = x_data_pages s" and "txn_ready s" and "txn_ready t"
  shows "plain_table t ti dps" and "scan_table ti t = Inr rows" and "\<And>q pq. q \<in> set dps \<Longrightarrow> plain_at s q pq \<Longrightarrow> plain_at t q pq"
proof -
  have inv: "pager_inv (x_pager s)" "pager_inv (x_pager t)" using assms(6,7) by (simp_all add: txn_ready_def)
  have use: "\<exists>d. txn_pages s q = Some d" if "q \<in> set dps" for q
    using assms(1) that txn_pages_use [OF inv(1), of q] by (auto simp: plain_table_def)
  show keep: "plain_at t q pq" if q: "q \<in> set dps" "plain_at s q pq" for q pq
  proof -
    obtain d where d: "txn_pages s q = Some d" using use [OF q(1)] by blast
    then have "txn_pages t q = Some d" using assms(3) q(1) by simp
    then have "exec_read_page q t = exec_read_page q s" using d by (simp add: txn_read_law)
    then show ?thesis using q assms(4) by (auto simp: plain_at_def)
  qed
  have "pages_in_use (x_pager t) q \<noteq> None \<and> (\<exists>pq. plain_at t q pq)" if q: "q \<in> set dps" for q
  proof
    have "txn_pages t q \<noteq> None" using use [OF q] assms(3) q by auto
    then show "pages_in_use (x_pager t) q \<noteq> None" using txn_pages_use [OF inv(2)] by simp
    obtain pq where "plain_at s q pq" using assms(1) q by (auto simp: plain_table_def)
    then show "\<exists>pq. plain_at t q pq" using keep [OF q] by blast
  qed
  then show "plain_table t ti dps" using assms(1,5) by (simp add: plain_table_def)
  have m: "map_of (x_data_pages s) (ti_name ti) = Some dps" "map_of (x_data_pages t) (ti_name ti) = Some dps"
    using assms(1,5) by (simp_all add: plain_table_def)
  have "mapE (scan_page ti t) dps = mapE (scan_page ti s) dps"
  proof (rule mapE_cong [OF refl])
    fix q assume q: "q \<in> set dps"
    then obtain pq where "plain_at s q pq" using assms(1) by (auto simp: plain_table_def)
    then show "scan_page ti t q = scan_page ti s q" using scan_plain_page keep [OF q] by metis
  qed
  then show "scan_table ti t = Inr rows" using assms(2) by (simp add: scan_table_pages [OF m(1)] scan_table_pages [OF m(2)])
qed

lemma row_added_kept:
  assumes "row_added ti vals ref rows s" and "map_of (x_data_pages s) (ti_name ti) = Some dps"
    and "\<forall>p \<in> set dps. txn_pages t p = txn_pages s p" and "set dps \<inter> set (index_pages t) = {}" and "x_data_pages t = x_data_pages s"
    and "txn_ready s" and "txn_ready t"
  shows "row_added ti vals ref rows t" and "plain_table t ti dps" and "fst ref \<in> set dps"
proof -
  obtain dps' rows' p b where r: "plain_table s ti dps'" "scan_table ti s = Inr rows'" "mset rows' = mset rows + {#(snd ref, vals, fst ref)#}"
    "plain_at s (fst ref) p" "page_rows p (snd ref) = Some b" "decode_row b (schema_v2 ti) = Inr vals"
    using assms(1) by (auto simp: row_added_def)
  have tab: "plain_table s ti dps" using r(1) assms(2) by (simp add: plain_table_def)
  have "(snd ref, vals, fst ref) \<in># mset rows'" by (simp only: r(3)) simp
  then have "(snd ref, vals, fst ref) \<in> set rows'" by simp
  from scan_row_page [OF tab r(2) this] show here: "fst ref \<in> set dps" by simp
  note k = table_kept [OF tab r(2) assms(3-7)]
  show "plain_table t ti dps" by (rule k(1))
  then show "row_added ti vals ref rows t" using k(2,3) r(3-6) here unfolding row_added_def by blast
qed

lemma row_ref_u32:
  assumes "row_added ti vals ref rows s" and "map_of (x_data_pages s) (ti_name ti) = Some dps" and "pager_inv (x_pager s)" and "fst ref \<in> set dps"
  shows "u32 (fst ref)" and "u32 (snd ref)"
proof -
  obtain dps' p b where r: "plain_table s ti dps'" "plain_at s (fst ref) p" "page_rows p (snd ref) = Some b"
    using assms(1) by (auto simp: row_added_def)
  have "pages_in_use (x_pager s) (fst ref) \<noteq> None" using r(1) assms(2,4) by (auto simp: plain_table_def)
  then have "0 \<le> fst ref" "fst ref < next_page_id (x_pager s)" by (auto simp: pages_in_use_def split: if_splits)
  then show "u32 (fst ref)" using assms(3) by (simp add: u32_def pager_inv_def free_inv_def)
  have p: "page_ok p" "num_slots p < 256" using r(2) by (simp_all add: plain_at_def plain_page_def page_wf_def)
  have "0 \<le> snd ref \<and> snd ref < num_slots p" using r(3) page_rows_ok [OF p(1), of "snd ref"] by (auto split: if_splits)
  then show "u32 (snd ref)" using p(2) by (simp add: u32_def)
qed

lemma row_read_back:
  assumes "row_added ti vals ref rows s"
  shows "read_row_by_slot ti ref s = Inr [(snd ref, vals, fst ref)]"
proof -
  obtain p b where r: "plain_at s (fst ref) p" "page_rows p (snd ref) = Some b" "decode_row b (schema_v2 ti) = Inr vals"
    using assms by (auto simp: row_added_def)
  obtain raw where raw: "exec_read_page (fst ref) s = Inr raw" "from_bytes (fst ref) raw = Inr p" "plain_page p"
    using r(1) by (auto simp: plain_at_def)
  have "page_ok p" using raw(3) by (simp add: plain_page_def)
  then have "0 \<le> snd ref" "snd ref < num_slots p" using r(2) page_rows_ok [of p "snd ref"] by (auto split: if_splits)
  from read_plain_slot [OF raw(3) this] show ?thesis using raw r(2,3) by (simp add: read_row_by_slot_def case_prod_beta)
qed

lemma index_pages_card:
  assumes "table_indexes ti D P s m" and "c \<in> set (indexed_columns ti)"
  shows "card (P c) \<le> nat (next_page_id (x_pager s))"
proof -
  have "P c \<subseteq> {2..<next_page_id (x_pager s)}"
    using assms by (intro order_trans [OF _ txn_pages_below [of s]]) (auto simp: table_indexes_def index_in_def)
  from card_mono [OF _ this] show ?thesis by simp
qed

text \<open>The two steps of an INSERT, storing the row and entering it in the indexes.\<close>

lemma insert_row_indexed:
  assumes "insert_inline_only ti b s = (Inr ref, s1)" and "index_row ti row ref s1 = (Inr (), t)" and "plain_table s ti dps"
    and "scan_table ti s = Inr rows" and "table_indexes ti (set dps) P s m" and "has_room (x_pager t)"
    and "py_len b \<le> CHUNK_SIZE" and "\<And>pid p. pid \<in> set dps \<Longrightarrow> plain_at s pid p \<Longrightarrow> room_for p b"
    and "decode_row b (schema_v2 ti) = Inr vals" and "distinct (indexed_columns ti)"
    and "next_page_id (x_pager s) + 1 + int (length (indexed_columns ti)) * (next_page_id (x_pager s) + 2) \<le> 2 ^ 32"
  shows "row_added ti vals ref rows t \<and>
    (\<exists>dps' Q. plain_table t ti dps' \<and> table_indexes ti (set dps') Q t (put_row ti row ref m))"
proof -
  let ?C = "indexed_columns ti" and ?n = "nat (next_page_id (x_pager s))"
  have ready: "txn_ready s" using assms(5) by (simp add: table_indexes_def)
  then have r: "pager_inv (x_pager s)" "buffer_used s" "x_txn s \<noteq> None" by (auto simp: txn_ready_def)
  have "next_page_id (x_pager s1) \<le> next_page_id (x_pager t)"
    using keepsD [OF used.rows(1) assms(2)] by (simp add: in_txn_use_def next_grows_def)
  then have room: "has_room (x_pager s1)" using assms(6) by (simp add: has_room_def)
  from inline_frame [OF assms(1,3) ready room assms(7)] assms(8) obtain dps' where f: "txn_ready s1"
    "\<forall>p \<in> dom (txn_pages s) - set dps. txn_pages s1 p = txn_pages s p" "x_indexes s1 = x_indexes s" "x_wrappers s1 = x_wrappers s"
    "next_page_id (x_pager s1) \<le> next_page_id (x_pager s) + 1" "map_of (x_data_pages s1) (ti_name ti) = Some dps'"
    "set dps' \<inter> dom (txn_pages s) \<subseteq> set dps" by blast
  have added: "row_added ti vals ref rows s1" by (rule inline_adds_row [OF assms(1,3,4) r(2,1) room r(3) assms(7,8,9)])
  then have tab: "plain_table s1 ti dps'" using f(6) by (auto simp: row_added_def plain_table_def)
  have inv1: "pager_inv (x_pager s1)" using f(1) by (simp add: txn_ready_def)
  have "txn_pages s1 p \<noteq> None" if "p \<in> set dps'" for p
    unfolding txn_pages_use [OF inv1] using tab that by (simp add: plain_table_def)
  then have D: "set dps' \<subseteq> dom (txn_pages s1)" "set dps' \<inter> set (index_pages s1) = {}"
    using tab by (auto simp: plain_table_def plain_at_def)
  have each: "P c \<inter> set dps' = {} \<and> (\<exists>w. key_width c = Some w \<and> safe_width w \<and> index_in (P c) w (ti_name ti, c_name c) s1 (m c))"
    if "c \<in> set ?C" for c
  proof -
    obtain w where w: "key_width c = Some w" "safe_width w" "index_in (P c) w (ti_name ti, c_name c) s (m c)" "P c \<inter> set dps = {}"
      using assms(5) \<open>c \<in> set ?C\<close> by (auto simp: table_indexes_def)
    have sub: "P c \<subseteq> dom (txn_pages s)" using w(3) by (simp add: index_in_def)
    have "index_in (P c) w (ti_name ti, c_name c) s1 (m c)"
      by (rule index_in_transfer [OF w(3) f(1)]) (use sub w(4) f(2,3) in \<open>auto simp: get_btree_def\<close>)
    then show ?thesis using w(1,2,4) sub f(7) by blast
  qed
  have ix1: "table_indexes ti (set dps') P s1 m"
    using assms(5) f(1) D each unfolding table_indexes_def by blast
  have "row_added ti vals ref rows s1" "fst ref \<in> set dps'"
    using row_added_kept [OF added f(6) _ D(2) refl f(1,1)] by simp_all
  note u = row_ref_u32 [OF this(1) f(6) inv1 this(2)]
  have n: "2 \<le> next_page_id (x_pager s)" using r(1) by (simp add: pager_inv_def free_inv_def pager_wf_def)
  have "int (length ?C * (?n + 2)) = int (length ?C) * (next_page_id (x_pager s) + 2)" using n by (simp add: algebra_simps)
  then have "txn_room (length ?C * (?n + 2)) s1" using assms(11) f(5) by (simp only: txn_room_def page_room_def)
  moreover have "\<forall>c \<in> set ?C. card (P c) \<le> ?n" using index_pages_card [OF assms(5)] by blast
  ultimately obtain Q where Q: "table_indexes ti (set dps') Q t (\<lambda>c. if c \<in> set ?C then put_row ti row ref m c else m c)"
    "\<forall>p \<in> set dps'. txn_pages t p = txn_pages s1 p" "x_data_pages t = x_data_pages s1"
    using index_cells_enter [OF assms(2) [unfolded index_row_cells] ix1 subset_refl assms(10) u] by blast
  have ix: "table_indexes ti (set dps') Q t (put_row ti row ref m)" using Q(1) by (simp add: table_indexes_def)
  have "set dps' \<inter> set (index_pages t) = {}" "txn_ready t" using ix by (simp_all add: table_indexes_def)
  from row_added_kept [OF added f(6) Q(2) this(1) Q(3) f(1) this(2)] ix show ?thesis by blast
qed

text \<open>
  C5. INSERT of one row into a table with indexes. The row is stored, a scan finds exactly that row more, and
  every index of the table holds the reference of the row under the key of its column, nothing else
  changed in it, whatever nodes were split for it. A SELECT by equality on an indexed column, with a
  value of that key, then reads the row through the index and returns it, and only it. The row needs no
  overflow page, the table has no long rows, the keys of its indexes have a fixed width (no TEXT or VARCHAR),
  and there is room for the row on each page it may go to and page ids left for the splits.
\<close>

theorem insert_found_by_key:
  assumes "exec_insert stmt s = (Inr out, t)" and "i_values stmt = [vals]" and "need_table (i_table stmt) s = Inr ti"
    and "plain_table s ti dps" and "scan_table ti s = Inr rows" and "table_indexes ti (set dps) P s m" and "has_room (x_pager t)"
    and "row = normalize_row ti (i_columns stmt) vals" and "list_all2 readable_col row (schema_v2 ti)"
    and "encode_row row (schema_v2 ti) = Inr b" and "py_len b \<le> CHUNK_SIZE"
    and "\<And>pid p. pid \<in> set dps \<Longrightarrow> plain_at s pid p \<Longrightarrow> room_for p b"
    and "distinct (map c_name (ti_columns ti))"
    and "next_page_id (x_pager s) + 1 + int (length (indexed_columns ti)) * (next_page_id (x_pager s) + 2) \<le> 2 ^ 32"
  shows "\<exists>ref dps' Q. let row' = map2 stored_col row (schema_v2 ti) in
    row_added ti row' ref rows t \<and> plain_table t ti dps' \<and> table_indexes ti (set dps') Q t (put_row ti row ref m) \<and>
    (\<forall>c sel v q proj. c \<in> set (indexed_columns ti) \<and> s_where sel = Some (EqualsExpr (c_name c) v q) \<and> cell_key ti row c \<noteq> None \<and>
        key_for c v = Inr (the (cell_key ti row c)) \<longrightarrow>
      exec_indexed_select sel ti proj t = bindE (slice_and_project sel [(snd ref, row', fst ref)] proj) (\<lambda>out. Inr (Some out)))"
proof -
  let ?row' = "map2 stored_col row (schema_v2 ti)"
  have small: "\<not> py_len b > MAX_INLINE_PAYLOAD" using assms(11) by simp
  obtain ref s1 where ins: "insert_inline_only ti b s = (Inr ref, s1)" "index_row ti row ref s1 = (Inr (), t)"
    using assms(1,2,3,8,10) small
    by (auto simp: exec_insert_def insert_one_def readS_def liftE_def bindS_eq_Inr insert_row_into_chain_def Let_def split: if_splits)
  have dist: "distinct (indexed_columns ti)" using assms(13) by (simp add: indexed_columns_def distinct_map)
  from insert_row_indexed [OF ins assms(4-7,11) _ decode_encode_row [OF assms(10,9)] dist assms(14)] assms(12) obtain dps' Q where
    r: "row_added ti ?row' ref rows t" "plain_table t ti dps'" "table_indexes ti (set dps') Q t (put_row ti row ref m)" by blast
  have "exec_indexed_select sel ti proj t = bindE (slice_and_project sel [(snd ref, ?row', fst ref)] proj) (\<lambda>out. Inr (Some out))"
    if c: "c \<in> set (indexed_columns ti)" "s_where sel = Some (EqualsExpr (c_name c) v q)" "cell_key ti row c = Some key" "key_for c v = Inr key"
    for c sel v q proj key
  proof -
    obtain w where ix: "index_in (Q c) w (ti_name ti, c_name c) t (put_row ti row ref m c)" using r(3) c(1) by (auto simp: table_indexes_def)
    then obtain bt where bt: "get_btree (ti_name ti, c_name c) t = Some bt" by (auto simp: index_in_def index_is_def)
    have "c \<in> set (ti_columns ti)" using c(1) by (simp add: indexed_columns_def)
    then have "find (\<lambda>col. c_name col = c_name c) (ti_columns ti) = Some c" using assms(13) by (rule find_named)
    then show ?thesis
      using c bt lookup_in [OF ix] row_read_back [OF r(1)] by (simp add: exec_indexed_select_def put_row_def)
  qed
  then show ?thesis using r unfolding Let_def by (intro exI [of _ ref] exI [of _ dps'] exI [of _ Q]) auto
qed

end
