(* ===== verification/Delete_Scan.thy ===== *)
theory Delete_Scan
  imports Table_Scan
begin

text \<open>
  DELETE of one row against the scan of a table without long rows: the page is stored without it
  and the scan finds the others, in their order. The statement and the indexes are in \<open>Index_Delete\<close>.
\<close>

section \<open>One slot\<close>

lemma delete_plain:
  assumes "plain_page p" and "delete_row p sid = Inr p'"
  shows "plain_page p'" and "page_id p' = page_id p" and "num_slots p' = num_slots p"
    and "page_rows p' = (page_rows p)(sid := None)"
proof -
  have p: "page_wf p" "page_ok p" "list_all (\<lambda>s. \<not> spilled s) (slots p)" using assms(1) by (simp_all add: plain_page_def)
  let ?t = "(slots p ! nat sid)\<lparr>slot.s_offset := TOMBSTONE_OFFSET, s_flags := FLAG_TOMBSTONE\<rparr>"
  have "num_slots p = int (length (slots p))" using p(2) by (simp add: page_ok_def)
  then have p': "p' = p\<lparr>slots := (slots p)[nat sid := ?t]\<rparr>" and sid: "nat sid < length (slots p)"
    using assms(2) by (auto simp: delete_row_def get_item_nonneg split: if_splits)
  have t: "\<not> spilled ?t" by (simp add: spilled_def)
  have "slot_fits (slots p ! nat sid)" using p(1) sid by (simp add: page_wf_def list_all_length)
  then have "slot_fits ?t" by (simp add: slot_fits_def)
  then have "page_wf p'" using p(1) by (simp add: p' page_wf_def list_all_update free_space_def)
  then show "plain_page p'" using delete_row_refines(1) [OF p(2) assms(2)] p(3) t by (simp add: plain_page_def p' list_all_update)
  show "page_rows p' = (page_rows p)(sid := None)" by (rule delete_row_refines(2) [OF p(2) assms(2)])
qed (use assms(2) in \<open>auto simp: delete_row_def split: if_splits\<close>)

lemma slot_hits_delete:
  assumes "mapE (slot_hit ti pid p) sids = Inr parts" and "page_rows p' = (page_rows p)(sid := None)"
  shows "\<exists>parts'. mapE (slot_hit ti pid p') sids = Inr parts' \<and> concat parts' = filter (\<lambda>r. fst r \<noteq> sid) (concat parts)"
  using assms(1)
proof (induction sids arbitrary: parts)
  case (Cons j sids)
  then obtain part parts0 where p: "slot_hit ti pid p j = Inr part" "mapE (slot_hit ti pid p) sids = Inr parts0" "parts = part # parts0"
    by auto
  obtain parts' where ih: "mapE (slot_hit ti pid p') sids = Inr parts'" "concat parts' = filter (\<lambda>r. fst r \<noteq> sid) (concat parts0)"
    using Cons.IH [OF p(2)] by blast
  have "slot_hit ti pid p' j = Inr (if j = sid then [] else part)" using p(1) by (simp add: slot_hit_def assms(2))
  moreover have "filter (\<lambda>r. fst r \<noteq> sid) part = (if j = sid then [] else part)"
    using slot_hit_ref [OF p(1)] by (auto simp: filter_empty_conv intro: filter_True)
  ultimately show ?case using ih p(3) by simp
qed simp

lemma page_scan_delete:
  assumes "page_scan ti pid p = Inr xs" and "page_rows p' = (page_rows p)(sid := None)" and "num_slots p' = num_slots p"
  shows "page_scan ti pid p' = Inr (filter (\<lambda>r. fst r \<noteq> sid) xs)"
  using slot_hits_delete [OF _ assms(2), of ti pid "range_int (num_slots p)"] assms(1,3) by (auto simp: page_scan_def)

section \<open>One row\<close>

text \<open>Where a scanned row is.\<close>

definition row_ref :: "scan_row \<Rightarrow> int \<times> int" where
  "row_ref r = (snd (snd r), fst r)"

text \<open>The slot is deleted and the page stored; then the indexes are updated.\<close>

lemma delete_one_store:
  assumes "delete_one ti d s = (Inr (), t)" and "plain_table s ti pids" and "scan_table ti s = Inr rows"
    and "d \<in> set rows" and "x_txn s \<noteq> None"
  obtains s1 pid b where "unindex_row ti (row_vals d) s1 = (Inr (), t)" and "exec_write_page pid b s = (Inr (), s1)"
    and "pid \<in> set pids" and "length b = 4096" and "scan_table ti s1 = Inr (filter (\<lambda>r. row_ref r \<noteq> row_ref d) rows)"
    and "plain_table s1 ti pids" and "x_txn s1 \<noteq> None"
proof -
  obtain sid vals pid where d: "d = (sid, vals, pid)" by (metis prod.collapse)
  have pid: "pid \<in> set pids" using scan_row_page [OF assms(2-4)] by (simp add: d)
  then obtain p where at: "plain_at s pid p" using assms(2) by (auto simp: plain_table_def)
  have pl: "plain_page p" "page_id p = pid" using at from_bytes_id by (auto simp: plain_at_def)
  have n: "num_slots p = int (length (slots p))" using pl(1) by (simp add: plain_page_def page_ok_def)
  obtain slot where slot: "get_item (slots p) sid = Inr slot"
    and rest: "(bindS (if spilled slot then free_overflow_chain pid else returnS ()) (\<lambda>_.
      bindS (liftE (delete_row p sid)) (\<lambda>page'. bindS (store_page pid page') (\<lambda>_. unindex_row ti vals)))) s = (Inr (), t)"
    using assms(1) at by (auto simp: d delete_one_def load_page_def read_pageS_def liftE_def bindS_eq_Inr plain_at_def)
  have "slot \<in> set (slots p)" using slot by (auto simp: get_item_def Let_def split: if_splits)
  then have "\<not> spilled slot" using pl(1) by (simp add: plain_page_def list_all_iff)
  then obtain p' b s1 where del: "delete_row p sid = Inr p'" and b: "to_bytes p' = Inr b" and w: "exec_write_page pid b s = (Inr (), s1)"
    and un: "unindex_row ti vals s1 = (Inr (), t)"
    using rest by (auto simp: store_page_def liftE_def bindS_eq_Inr)
  note p' = delete_plain [OF pl(1) del]
  have len: "length b = 4096" using p'(1) b to_bytes_image length_page_image by (auto simp: plain_page_def)
  obtain xs where xs: "page_scan ti pid p = Inr xs" using page_scanned [OF assms(2,3) pid at] by blast
  have ys: "page_scan ti pid p' = Inr (filter (\<lambda>r. fst r \<noteq> sid) xs)" by (rule page_scan_delete [OF xs p'(4,3)])
  obtain pre xs' post where r: "page_scan ti pid p = Inr xs'" "rows = pre @ xs' @ post"
    "scan_table ti s1 = Inr (pre @ filter (\<lambda>r. fst r \<noteq> sid) xs @ post)"
    "\<forall>r \<in> set (pre @ post). snd (snd r) \<noteq> pid" "plain_table s1 ti pids" "x_txn s1 \<noteq> None"
    by (rule page_rewritten [OF assms(2,3) pid at p'(1) _ b w assms(5) ys]) (simp_all add: p'(2) pl(2))
  have "filter (\<lambda>r. row_ref r \<noteq> row_ref d) xs = filter (\<lambda>r. fst r \<noteq> sid) xs"
    using page_scan_refs(2) [OF xs] by (intro filter_cong) (auto simp: row_ref_def d)
  moreover have "filter (\<lambda>r. row_ref r \<noteq> row_ref d) pre = pre" "filter (\<lambda>r. row_ref r \<noteq> row_ref d) post = post"
    using r(4) by (auto simp: row_ref_def d intro!: filter_True)
  ultimately show ?thesis using that [OF _ w pid len] un r xs by (simp add: d row_vals_def)
qed

section \<open>DELETE\<close>

text \<open>The rows of a table have different references.\<close>

lemma scan_refs_distinct:
  assumes "plain_table s ti pids" and "scan_table ti s = Inr rows"
  shows "distinct (map row_ref rows)"
proof -
  have m: "map_of (x_data_pages s) (ti_name ti) = Some pids" "distinct pids" using assms(1) by (simp_all add: plain_table_def)
  have "distinct (map row_ref (concat cs))" if "mapE (scan_page ti s) qs = Inr cs" "set qs \<subseteq> set pids" "distinct qs" for qs cs
    using that
  proof (induction qs arbitrary: cs)
    case (Cons q qs)
    obtain pq where "plain_at s q pq" using assms(1) Cons.prems(2) by (auto simp: plain_table_def)
    then obtain c cs' where c: "page_scan ti q pq = Inr c" "mapE (scan_page ti s) qs = Inr cs'" "cs = c # cs'"
      using Cons.prems(1) scan_plain_page by auto
    note r = page_scan_refs [OF c(1)]
    have later: "\<forall>r \<in> set (concat cs'). snd (snd r) \<in> set qs" using parts_pages [OF assms(1) c(2)] Cons.prems(2) by simp
    have "distinct (map row_ref c)" using r by (auto simp: distinct_map inj_on_def row_ref_def)
    moreover have "set (map row_ref c) \<inter> set (map row_ref (concat cs')) = {}"
      using r(2) later Cons.prems(3) by (fastforce simp: row_ref_def)
    ultimately show ?case using Cons.IH [OF c(2)] Cons.prems(2,3) by (simp add: c(3) del: set_map)
  qed simp
  then show ?thesis using assms(2) m(2) by (auto simp: scan_table_pages [OF m(1)])
qed

lemma filterE_result:
  "filterE f xs = Inr ys \<Longrightarrow> ys = filter (\<lambda>x. f x = Inr True) xs \<and> (\<forall>x \<in> set xs. \<exists>b. f x = Inr b)"
  by (induction xs arbitrary: ys) (auto simp: bindE_eq_Inr)

end
