(* ===== verification/Constraints.thy ===== *)
theory Constraints
  imports Executor
begin

text \<open>
  The constraint pipeline of INSERT: what an accepted row satisfies, and the keys of one
  statement.
\<close>

section \<open>Keys\<close>

text \<open>The key of a row in a unique group, none when it has a NULL member.\<close>

definition key_of :: "table_info \<Rightarrow> pystr list \<Rightarrow> pyval list \<Rightarrow> pyval list option" where
  "key_of ti columns row =
     (case mapE (\<lambda>c. bindE (col_idx ti c) (row_at row)) columns of
        Inl e \<Rightarrow> None
      | Inr key \<Rightarrow> if PNone \<in> set key then None else Some key)"

definition keys_of :: "table_info \<Rightarrow> pystr list \<Rightarrow> pyval list list \<Rightarrow> pyval list list" where
  "keys_of ti columns rows = List.map_filter (key_of ti columns) rows"

lemma session_keys_update: "session_keys (AList.update g ks sess) g' = (if g' = g then ks else session_keys sess g')"
  by (simp add: session_keys_def)

lemma check_group_result:
  assumes "check_group row ti s sess (columns, kind) = Inr sess'"
  shows "set (session_keys sess g) \<subseteq> set (session_keys sess' g)"
    and "key_of ti columns row = Some key \<Longrightarrow> key \<in> set (session_keys sess' (columns, kind)) \<and>
      \<not> key_in key (session_keys sess (columns, kind)) \<and> (\<exists>keys. scan_unique_keys ti columns s = Inr keys \<and> \<not> key_in key keys)"
proof -
  obtain k where k: "mapE (\<lambda>c. bindE (col_idx ti c) (row_at row)) columns = Inr k"
    and rest: "(if PNone \<in> set k then Inr sess
      else bindE (scan_unique_keys ti columns s) (\<lambda>seen.
        if key_in k (session_keys sess (columns, kind)) \<or> key_in k seen then Inl (ConstraintViolation kind columns)
        else Inr (AList.update (columns, kind) (session_keys sess (columns, kind) @ [k]) sess))) = Inr sess'"
    using assms by (auto simp: check_group_def)
  show "set (session_keys sess g) \<subseteq> set (session_keys sess' g)"
    using rest by (auto simp: session_keys_update split: if_splits)
  show "key_of ti columns row = Some key \<Longrightarrow> key \<in> set (session_keys sess' (columns, kind)) \<and>
      \<not> key_in key (session_keys sess (columns, kind)) \<and> (\<exists>keys. scan_unique_keys ti columns s = Inr keys \<and> \<not> key_in key keys)"
    using k rest by (auto simp: key_of_def session_keys_update split: if_splits)
qed

lemma key_in_mono: "set ks \<subseteq> set ks' \<Longrightarrow> key_in k ks \<Longrightarrow> key_in k ks'"
  by (auto simp: key_in_def list_ex_iff)

lemma check_groups_mono:
  "foldE (check_group row ti s) sess gs = Inr sess' \<Longrightarrow> set (session_keys sess g) \<subseteq> set (session_keys sess' g)"
proof (induction gs arbitrary: sess)
  case (Cons h gs)
  then obtain mid where "check_group row ti s sess (fst h, snd h) = Inr mid" and "foldE (check_group row ti s) mid gs = Inr sess'"
    by auto
  then show ?case using check_group_result(1) Cons.IH by blast
qed simp

lemma check_groups_fresh:
  assumes "foldE (check_group row ti s) sess gs = Inr sess'" and "(columns, kind) \<in> set gs" and "key_of ti columns row = Some key"
  shows "key \<in> set (session_keys sess' (columns, kind)) \<and> \<not> key_in key (session_keys sess (columns, kind)) \<and>
      (\<exists>keys. scan_unique_keys ti columns s = Inr keys \<and> \<not> key_in key keys)"
  using assms
proof (induction gs arbitrary: sess)
  case (Cons h gs)
  obtain mid where m: "check_group row ti s sess (fst h, snd h) = Inr mid" and rest: "foldE (check_group row ti s) mid gs = Inr sess'"
    using Cons.prems(1) by auto
  show ?case
  proof (cases "h = (columns, kind)")
    case True
    then show ?thesis using check_group_result(2) [of row ti s sess columns kind mid key] m Cons.prems(3) check_groups_mono [OF rest] by auto
  next
    case False
    then have "(columns, kind) \<in> set gs" using Cons.prems(2) by auto
    from Cons.IH [OF rest this Cons.prems(3)] show ?thesis using key_in_mono [OF check_group_result(1) [OF m]] by blast
  qed
qed simp

section \<open>INSERT\<close>

text \<open>No NULL where the column refuses it.\<close>

definition nulls_ok :: "table_info \<Rightarrow> pyval list \<Rightarrow> bool" where
  "nulls_ok ti row \<longleftrightarrow>
     list_all (\<lambda>(c, v). v = PNone \<longrightarrow> column.c_nullable c \<and> \<not> column.c_pk c) (zip (ti_columns ti) row)"

lemma mapE_all: "mapE f xs = Inr ys \<Longrightarrow> x \<in> set xs \<Longrightarrow> \<exists>y. f x = Inr y"
  by (induction xs arbitrary: ys) auto

lemma check_row_nulls: "check_row ti row = Inr () \<Longrightarrow> nulls_ok ti row"
  by (auto simp: check_row_def nulls_ok_def list_all_iff check_null_def dest!: mapE_all)

lemma insert_one_checks:
  assumes "insert_one ti columns sess vals s = (Inr sess', t)"
  shows "nulls_ok ti (normalize_row ti columns vals)"
    and "foldE (check_group (normalize_row ti columns vals) ti s) sess (unique_groups ti) = Inr sess'"
  using assms check_row_nulls
  by (auto simp: insert_one_def Let_def liftE_def readS_def bindS_eq_Inr validate_unique_keys_def split: if_splits)

lemma insert_rows_nulls:
  "insert_rows ti columns sess vs s = (Inr (), t) \<Longrightarrow> \<forall>row \<in> set (map (normalize_row ti columns) vs). nulls_ok ti row"
proof (induction vs arbitrary: sess s)
  case (Cons vals vs)
  then obtain sess' s' where "insert_one ti columns sess vals s = (Inr sess', s')" and "insert_rows ti columns sess' vs s' = (Inr (), t)"
    by (auto simp: bindS_eq_Inr)
  then show ?case using insert_one_checks(1) Cons.IH by auto
qed simp

lemma insert_rows_keys:
  assumes "insert_rows ti columns sess vs s = (Inr (), t)" and "(cols, kind) \<in> set (unique_groups ti)"
    and "keys = keys_of ti cols (map (normalize_row ti columns) vs)"
  shows "(\<forall>key \<in> set keys. \<not> key_in key (session_keys sess (cols, kind))) \<and> sorted_wrt (\<lambda>k k'. \<not> key_eq k k') keys"
  using assms
proof (induction vs arbitrary: sess s keys)
  case (Cons vals vs)
  obtain sess' s' where one: "insert_one ti columns sess vals s = (Inr sess', s')"
    and rest: "insert_rows ti columns sess' vs s' = (Inr (), t)"
    using Cons.prems by (auto simp: bindS_eq_Inr)
  note fold = insert_one_checks(2) [OF one]
  let ?row = "normalize_row ti columns vals"
  define ks where "ks = keys_of ti cols (map (normalize_row ti columns) vs)"
  note ih = Cons.IH [OF rest Cons.prems(2) ks_def]
  have later: "\<forall>key \<in> set ks. \<not> key_in key (session_keys sess (cols, kind))"
    using ih key_in_mono [OF check_groups_mono [OF fold]] by blast
  show ?case
  proof (cases "key_of ti cols ?row")
    case None
    then show ?thesis using ih later Cons.prems(3) by (simp add: keys_of_def map_filter_simps ks_def)
  next
    case (Some key)
    have k: "key \<in> set (session_keys sess' (cols, kind))" "\<not> key_in key (session_keys sess (cols, kind))"
      using check_groups_fresh [OF fold Cons.prems(2) Some] by simp_all
    have "\<not> key_eq key k'" if "k' \<in> set ks" for k'
      using ih that k(1) by (auto simp: key_in_def list_ex_iff)
    moreover have "keys = key # ks" using Cons.prems(3) Some by (simp add: keys_of_def map_filter_simps ks_def)
    ultimately show ?thesis using ih later k(2) by auto
  qed
qed (simp add: keys_of_def map_filter_simps)

lemma insert_rows_prefix:
  assumes "insert_rows ti columns sess (pre @ vals # post) s = (Inr (), t)"
  shows "\<exists>sess' m sess'' m'. insert_rows ti columns sess pre s = (Inr (), m) \<and>
    insert_one ti columns sess' vals m = (Inr sess'', m')"
  using assms
proof (induction pre arbitrary: sess s)
  case Nil
  then show ?case by (auto simp: bindS_eq_Inr)
next
  case (Cons v pre)
  then obtain sess1 s1 where "insert_one ti columns sess v s = (Inr sess1, s1)"
    and "insert_rows ti columns sess1 (pre @ vals # post) s1 = (Inr (), t)" by (auto simp: bindS_eq_Inr)
  then show ?case using Cons.IH [of sess1 s1] by (auto simp: bindS_eq_Inr)
qed

text \<open>
  C11. What an accepted INSERT satisfies: no row has NULL in a NOT NULL or PRIMARY KEY
  column; in every PRIMARY KEY and UNIQUE group no two rows of the statement have equal
  keys; and no row's key is one that a scan finds in the table as the rows before it have left
  it. Keys with a NULL member are not compared, values are equal as Python compares them.
\<close>

theorem insert_respects_constraints:
  assumes "exec_insert stmt s = (Inr out, t)" and "need_table (i_table stmt) s = Inr ti"
    and "rows = map (normalize_row ti (i_columns stmt)) (i_values stmt)"
  shows "(\<forall>row \<in> set rows. nulls_ok ti row) \<and>
    (\<forall>(cols, kind) \<in> set (unique_groups ti).
       sorted_wrt (\<lambda>k k'. \<not> key_eq k k') (keys_of ti cols rows) \<and>
       (\<forall>pre vals post key.
          i_values stmt = pre @ vals # post \<and> key_of ti cols (normalize_row ti (i_columns stmt) vals) = Some key \<longrightarrow>
          (\<exists>m keys. insert_rows ti (i_columns stmt) [] pre s = (Inr (), m) \<and>
             scan_unique_keys ti cols m = Inr keys \<and> \<not> key_in key keys)))"
proof -
  have ins: "insert_rows ti (i_columns stmt) [] (i_values stmt) s = (Inr (), t)"
    using assms(1,2) by (auto simp: exec_insert_def readS_def bindS_eq_Inr split: if_splits)
  have turn: "\<exists>m keys. insert_rows ti (i_columns stmt) [] pre s = (Inr (), m) \<and>
      scan_unique_keys ti cols m = Inr keys \<and> \<not> key_in key keys"
    if g: "(cols, kind) \<in> set (unique_groups ti)" and v: "i_values stmt = pre @ vals # post"
      and k: "key_of ti cols (normalize_row ti (i_columns stmt) vals) = Some key" for cols kind pre vals post key
    using insert_rows_prefix [OF ins [unfolded v]] check_groups_fresh [OF insert_one_checks(2) g k] by blast
  then show ?thesis using insert_rows_nulls [OF ins] insert_rows_keys [OF ins] assms(3) by (fastforce simp: case_prod_beta)
qed

end
