(* ===== verification/Index_Scan.thy ===== *)
theory Index_Scan
  imports Indexed_Rows Delete_Scan Constraints
begin

text \<open>
  The indexes of a table agree with its rows: INSERT keeps every index exactly the map from the
  keys of the stored rows to their places, and then a SELECT by key through an index answers
  as the scan of the table does.
\<close>

section \<open>Columns by name\<close>

lemma name_index_other:
  "y \<notin> f ` set xs \<Longrightarrow> map_of (foldl (\<lambda>d (i, x). AList.update (f x) i d) d (enumerate n xs)) y = map_of d y"
  by (induction xs arbitrary: d n) (auto simp: update_conv')

lemma name_index_nth:
  "distinct (map f xs) \<Longrightarrow> k < length xs \<Longrightarrow>
   map_of (foldl (\<lambda>d (i, x). AList.update (f x) i d) d (enumerate n xs)) (f (xs ! k)) = Some (n + k)"
proof (induction xs arbitrary: d n k)
  case (Cons x xs)
  then show ?case
    using name_index_other [of "f x" f xs "AList.update (f x) n d" "Suc n"] by (cases k) (auto simp: update_conv')
qed simp

lemma column_place:
  assumes "c \<in> set (ti_columns ti)" and "distinct (map c_name (ti_columns ti))"
  obtains i where "i < length (ti_columns ti)" and "ti_columns ti ! i = c" and "map_of (ti_name_index ti) (c_name c) = Some i"
    and "find_col (c_name c) (schema_v2 ti) = Some i"
proof -
  obtain i where i: "i < length (ti_columns ti)" "ti_columns ti ! i = c" using assms(1) by (auto simp: in_set_conv_nth)
  have "map_of (ti_name_index ti) (c_name c) = Some i"
    using name_index_nth [OF assms(2) i(1), of "[]" 0] i(2) by (simp add: ti_name_index_def enumerate_eq_zip)
  moreover have "find_col (c_name c) (schema_v2 ti) = Some i"
  proof -
    let ?zs = "zip [0..<length (schema_v2 ti)] (schema_v2 ti)"
    have len: "length ?zs = length (ti_columns ti)" by (simp add: schema_v2_def)
    have nth: "?zs ! j = (j, Col3 (c_name (ti_columns ti ! j)) (c_type (ti_columns ti ! j)) (c_params (ti_columns ti ! j)))"
      if "j < length (ti_columns ti)" for j using that by (simp add: schema_v2_def)
    have "c_name (ti_columns ti ! j) \<noteq> c_name c" if "j < i" for j
      using nth_eq_iff_index_eq [OF assms(2), of j i] that i by simp
    then have "find (\<lambda>(i, x). col_name x = c_name c) ?zs = Some (?zs ! i)"
      unfolding find_Some_iff using i len nth by (intro exI [of _ i]) simp
    then show ?thesis using nth [OF i(1)] by (simp add: find_col_def)
  qed
  ultimately show ?thesis using that i by blast
qed

section \<open>Keys and values\<close>

text \<open>Types whose values are stored as they are, with one key for each value.\<close>

fun exact_codec :: "codec \<Rightarrow> bool" where
  "exact_codec (IntC name w) = True"
| "exact_codec BoolC = True"
| "exact_codec DateC = True"
| "exact_codec c = False"

definition exact_column :: "column \<Rightarrow> bool" where
  "exact_column col = (case codec_for (c_type col) (c_params col) of Inl e \<Rightarrow> False | Inr c \<Rightarrow> exact_codec c)"

lemma pack_s_inj: "pack_s n v = Inr b \<Longrightarrow> pack_s n v' = Inr b \<Longrightarrow> 0 < n \<Longrightarrow> v = v'"
  using unpack_s_pack_s by metis

lemma exact_encode:
  assumes "exact_codec c" and "codec_wf c" and "encode_py c v = Inr k" and "encode_py c v' = Inr k'"
  shows "k = k' \<longleftrightarrow> py_eq v' v"
proof (cases c)
  case (IntC nm w)
  then obtain i i' where i: "v = PInt i" "v' = PInt i'" "pack_s w i = Inr k" "pack_s w i' = Inr k'"
    using assms(3,4) by (auto simp: encode_py_def split: pyval.splits)
  have "0 < w" using assms(2) IntC by auto
  then show ?thesis using i pack_s_inj [of w i k i'] by (auto simp: py_eq_def)
next
  case BoolC
  then obtain a a' where "v = PBool a" "v' = PBool a'" "k = [if a then 1 else 0]" "k' = [if a' then 1 else 0]"
    using assms(3,4) by (auto simp: encode_py_def split: pyval.splits)
  then show ?thesis by (simp add: py_eq_def)
next
  case DateC
  then obtain d d' where d: "v = PDate d" "v' = PDate d'" "pack_s 4 d = Inr k" "pack_s 4 d' = Inr k'"
    using assms(3,4) by (auto simp: encode_py_def split: pyval.splits)
  then show ?thesis using pack_s_inj [of 4 d k d'] by (auto simp: py_eq_def)
qed (use assms(1) in simp_all)

lemma exact_stored_value: "exact_codec c \<Longrightarrow> Type_System.stored c v = v"
  by (cases c) simp_all

lemma exact_key:
  assumes "exact_column col" and "key_for col v = Inr k" and "key_for col v' = Inr k'"
  shows "k = k' \<longleftrightarrow> py_eq v' v"
  using assms exact_encode codec_for_wf by (auto simp: exact_column_def key_for_def split: sum.splits)

lemma key_for_value: "key_for col v = Inr k \<Longrightarrow> v \<noteq> PNone"
proof
  assume k: "key_for col v = Inr k" and v: "v = PNone"
  then obtain c where "encode_py c PNone = Inr k" by (auto simp: key_for_def)
  then show False by (cases c) (auto simp: encode_py_def)
qed

lemma exact_stored:
  assumes "exact_column col" and "key_for col v = Inr k"
  shows "stored_col v (Col3 n (c_type col) (c_params col)) = v"
  using assms exact_stored_value by (auto simp: exact_column_def key_for_def stored_col_def split: sum.splits)

section \<open>Indexes that agree with the rows\<close>

text \<open>
  Every index is exactly the map from the keys of the rows to their places; the columns have such
  types, and no PRIMARY KEY spans several columns.
\<close>

definition index_exact :: "table_info \<Rightarrow> scan_row list \<Rightarrow> (column \<Rightarrow> key \<Rightarrow> (int \<times> int) option) \<Rightarrow> bool" where
  "index_exact ti rows m \<longleftrightarrow> (\<forall>c \<in> set (indexed_columns ti).
     (\<forall>r \<in> set rows. \<exists>v. row_cell ti (row_vals r) c = Inr v \<and> (v = PNone \<or> (\<exists>key. key_for c v = Inr key))) \<and>
     (\<forall>key ref. m c key = Some ref \<longleftrightarrow> (\<exists>r \<in> set rows. row_ref r = ref \<and> cell_key ti (row_vals r) c = Some key)))"

definition simple_keys :: "table_info \<Rightarrow> bool" where
  "simple_keys ti \<longleftrightarrow> distinct (map c_name (ti_columns ti)) \<and> length (filter column.c_pk (ti_columns ti)) \<le> 1 \<and>
     (\<forall>c \<in> set (indexed_columns ti). exact_column c)"

lemma cell_key_value:
  "row_cell ti vals c = Inr v \<Longrightarrow> key_for c v = Inr key \<Longrightarrow> cell_key ti vals c = Some key"
  "row_cell ti vals c = Inr PNone \<Longrightarrow> cell_key ti vals c = None"
  using key_for_value by (auto simp: cell_key_def)

lemma cell_key_SomeE:
  assumes "cell_key ti vals c = Some key"
  obtains v where "row_cell ti vals c = Inr v" and "v \<noteq> PNone" and "key_for c v = Inr key"
  using assms by (auto simp: cell_key_def bindE_eq_Inr split: sum.splits if_splits)

lemma unique_group:
  assumes "c \<in> set (indexed_columns ti)" and "simple_keys ti"
  shows "\<exists>kind. ([c_name c], kind) \<in> set (unique_groups ti)"
proof (cases "column.c_pk c")
  case True
  let ?pk = "filter column.c_pk (ti_columns ti)"
  have "c \<in> set ?pk" using assms(1) True by (auto simp: indexed_columns_def)
  moreover have "length ?pk \<le> 1" using assms(2) by (simp add: simple_keys_def)
  ultimately have "?pk = [c]" by (cases ?pk) auto
  then show ?thesis by (auto simp: unique_groups_def)
next
  case False
  have c: "c \<in> set (ti_columns ti)" "column.c_unique c" using assms(1) False by (auto simp: indexed_columns_def)
  have "c_name c \<noteq> c_name c'" if "c' \<in> set (ti_columns ti)" "column.c_pk c'" for c'
    using assms(2) c(1) that False by (auto simp: simple_keys_def distinct_map dest: inj_onD)
  then have "c_name c \<notin> set (map c_name (filter column.c_pk (ti_columns ti)))" by auto
  then show ?thesis using c by (auto simp: unique_groups_def Let_def)
qed

lemma mapE_member: "mapE f xs = Inr ys \<Longrightarrow> x \<in> set xs \<Longrightarrow> f x = Inr y \<Longrightarrow> y \<in> set ys"
  by (induction xs arbitrary: ys) auto

lemma mapE_source: "mapE f xs = Inr ys \<Longrightarrow> y \<in> set ys \<Longrightarrow> \<exists>x \<in> set xs. f x = Inr y"
  by (induction xs arbitrary: ys) auto

text \<open>An accepted key is new to the index of its column.\<close>

lemma accepted_key_fresh:
  assumes "validate_unique_keys row ti s [] = Inr sess" and "scan_table ti s = Inr rows" and "simple_keys ti"
    and "c \<in> set (indexed_columns ti)" and "index_exact ti rows m" and "cell_key ti row c = Some key"
  shows "m c key = None"
proof (rule ccontr)
  assume "m c key \<noteq> None"
  then obtain r where r: "r \<in> set rows" "cell_key ti (row_vals r) c = Some key"
    using assms(4,5) by (fastforce simp: index_exact_def)
  obtain v where v: "row_cell ti row c = Inr v" "v \<noteq> PNone" "key_for c v = Inr key" by (rule cell_key_SomeE [OF assms(6)])
  obtain v' where v': "row_cell ti (row_vals r) c = Inr v'" "v' \<noteq> PNone" "key_for c v' = Inr key" by (rule cell_key_SomeE [OF r(2)])
  obtain kind where g: "([c_name c], kind) \<in> set (unique_groups ti)" using unique_group [OF assms(4,3)] by blast
  obtain i where i: "map_of (ti_name_index ti) (c_name c) = Some i" "row_at row i = Inr v" "row_at (row_vals r) i = Inr v'"
    using v(1) v'(1) by (auto simp: row_cell_def split: option.splits)
  have "key_of ti [c_name c] row = Some [v]" using i v(2) by (simp add: key_of_def col_idx_def)
  from check_groups_fresh [OF assms(1) [unfolded validate_unique_keys_def] g this] obtain keys where
    keys: "scan_unique_keys ti [c_name c] s = Inr keys" "\<not> key_in [v] keys" by blast
  then obtain all where all: "mapE (\<lambda>r. mapE (row_at (row_vals r)) [i]) rows = Inr all" "keys = filter (\<lambda>k. PNone \<notin> set k) all"
    using assms(2) i(1) by (auto simp: scan_unique_keys_def col_idx_def bindE_eq_Inr)
  have "[v'] \<in> set all" by (rule mapE_member [OF all(1) r(1)]) (simp add: i(3))
  then have "\<not> key_eq [v'] [v]" using keys(2) v'(2) by (auto simp: all(2) key_in_def list_ex_iff)
  then have "\<not> py_eq v' v" by (simp add: key_eq_def)
  then show False using exact_key [OF _ v(3) v'(3)] assms(3,4) by (simp add: simple_keys_def)
qed

text \<open>The row as stored has the same cells in the indexed columns.\<close>

lemma stored_cell:
  assumes "simple_keys ti" and "c \<in> set (indexed_columns ti)" and "length row = length (ti_columns ti)"
    and "row_cell ti row c = Inr v" and "v = PNone \<or> key_for c v = Inr key"
  shows "row_cell ti (map2 stored_col row (schema_v2 ti)) c = Inr v"
proof -
  have "c \<in> set (ti_columns ti)" using assms(2) by (simp add: indexed_columns_def)
  then obtain i where i: "i < length (ti_columns ti)" "ti_columns ti ! i = c" "map_of (ti_name_index ti) (c_name c) = Some i"
    using column_place assms(1) simple_keys_def by metis
  have v: "row ! i = v" using assms(3,4) i by (simp add: row_cell_def row_at_def)
  have "exact_column c" using assms(1,2) by (simp add: simple_keys_def)
  have "stored_col v (Col3 (c_name c) (c_type c) (c_params c)) = v"
  proof (cases "v = PNone")
    case False
    then show ?thesis using assms(5) exact_stored [OF \<open>exact_column c\<close>] by blast
  qed (simp add: stored_col_def)
  then show ?thesis using i v assms(3) by (simp add: row_cell_def row_at_def schema_v2_def)
qed

lemma index_exact_put:
  assumes "index_exact ti rows m" and "mset rows' = mset rows + {#(snd ref, row', fst ref)#}"
    and "\<And>c. c \<in> set (indexed_columns ti) \<Longrightarrow>
      \<exists>v. row_cell ti row c = Inr v \<and> row_cell ti row' c = Inr v \<and> (v = PNone \<or> (\<exists>key. key_for c v = Inr key \<and> m c key = None))"
  shows "index_exact ti rows' (put_row ti row ref m)"
  unfolding index_exact_def
proof (intro ballI conjI allI)
  fix c assume c: "c \<in> set (indexed_columns ti)"
  have "set_mset (mset rows') = insert (snd ref, row', fst ref) (set rows)" by (simp only: assms(2)) simp
  then have rows': "set rows' = insert (snd ref, row', fst ref) (set rows)" by simp
  obtain v where v: "row_cell ti row c = Inr v" "row_cell ti row' c = Inr v" "v = PNone \<or> (\<exists>key. key_for c v = Inr key \<and> m c key = None)"
    using assms(3) [OF c] by blast
  show "\<exists>v. row_cell ti (row_vals r) c = Inr v \<and> (v = PNone \<or> (\<exists>key. key_for c v = Inr key))" if "r \<in> set rows'" for r
  proof (cases "r = (snd ref, row', fst ref)")
    case True
    then show ?thesis using v by (auto simp: row_vals_def)
  next
    case False
    then have "r \<in> set rows" using that rows' by simp
    then show ?thesis using assms(1) c by (simp add: index_exact_def)
  qed
  fix key r
  have old: "m c key = Some r \<longleftrightarrow> (\<exists>x \<in> set rows. row_ref x = r \<and> cell_key ti (row_vals x) c = Some key)" for key r
    using assms(1) c unfolding index_exact_def by blast
  have new: "row_ref (snd ref, row', fst ref) = ref" "cell_key ti (row_vals (snd ref, row', fst ref)) c = cell_key ti row c"
    using v(1,2) by (simp_all add: row_ref_def row_vals_def cell_key_def)
  show "put_row ti row ref m c key = Some r \<longleftrightarrow> (\<exists>x \<in> set rows'. row_ref x = r \<and> cell_key ti (row_vals x) c = Some key)"
  proof (cases "cell_key ti row c")
    case None
    then show ?thesis using old new by (simp add: put_row_def rows')
  next
    case (Some k)
    then have "m c k = None" using v cell_key_value by (metis option.distinct(1) option.inject)
    then have "\<not> (\<exists>x \<in> set rows. row_ref x = r \<and> cell_key ti (row_vals x) c = Some k)" for r using old [of k r] by simp
    then show ?thesis using old [of key r] new Some by (auto simp: put_row_def rows')
  qed
qed

section \<open>INSERT keeps the indexes exact\<close>

text \<open>The cells of a row that was entered without error are NULL or have keys.\<close>

lemma index_cells_values:
  "forS cs (index_cell ti vals ref) s = (Inr (), t) \<Longrightarrow> c \<in> set cs \<Longrightarrow>
   \<exists>v. row_cell ti vals c = Inr v \<and> (v = PNone \<or> (\<exists>key. key_for c v = Inr key))"
proof (induction cs arbitrary: s)
  case (Cons d cs)
  obtain s1 where s1: "index_cell ti vals ref d s = (Inr (), s1)" "forS cs (index_cell ti vals ref) s1 = (Inr (), t)"
    using Cons.prems(1) by (auto simp: bindS_eq_Inr)
  have "\<exists>v. row_cell ti vals d = Inr v \<and> (v = PNone \<or> (\<exists>key. key_for d v = Inr key))"
    using s1(1) by (auto simp: index_cell_def liftE_def bindS_eq_Inr split: if_splits)
  then show ?case using Cons.IH [OF s1(2)] Cons.prems(2) by (cases "c = d") simp_all
qed simp

lemma insert_row_exact:
  assumes "insert_inline_only ti b s = (Inr ref, s1)" and "index_row ti row ref s1 = (Inr (), t)"
    and "validate_unique_keys row ti s [] = Inr sess" and "plain_table s ti dps" and "scan_table ti s = Inr rows"
    and "table_indexes ti (set dps) P s m" and "has_room (x_pager t)" and "py_len b \<le> CHUNK_SIZE"
    and "\<And>pid p. pid \<in> set dps \<Longrightarrow> plain_at s pid p \<Longrightarrow> room_for p b" and "decode_row b (schema_v2 ti) = Inr row'"
    and "row' = map2 stored_col row (schema_v2 ti)" and "length row = length (ti_columns ti)"
    and "next_page_id (x_pager s) + 1 + int (length (indexed_columns ti)) * (next_page_id (x_pager s) + 2) \<le> 2 ^ 32"
    and "simple_keys ti" and "index_exact ti rows m"
  shows "\<exists>dps' Q rows'. plain_table t ti dps' \<and> table_indexes ti (set dps') Q t (put_row ti row ref m) \<and> scan_table ti t = Inr rows' \<and>
    index_exact ti rows' (put_row ti row ref m) \<and> mset rows' = mset rows + {#(snd ref, row', fst ref)#}"
proof -
  have dist: "distinct (indexed_columns ti)" using assms(14) by (simp add: simple_keys_def indexed_columns_def distinct_map)
  from insert_row_indexed [OF assms(1,2,4-8) _ assms(10) dist assms(13)] assms(9) obtain dps' Q where
    r: "row_added ti row' ref rows t" "plain_table t ti dps'" "table_indexes ti (set dps') Q t (put_row ti row ref m)" by blast
  obtain rows' where rows': "scan_table ti t = Inr rows'" "mset rows' = mset rows + {#(snd ref, row', fst ref)#}"
    using r(1) by (auto simp: row_added_def)
  have "index_exact ti rows' (put_row ti row ref m)"
  proof (rule index_exact_put [OF assms(15) rows'(2)])
    fix c assume c: "c \<in> set (indexed_columns ti)"
    obtain v where v: "row_cell ti row c = Inr v" "v = PNone \<or> (\<exists>key. key_for c v = Inr key)"
      using index_cells_values [OF assms(2) [unfolded index_row_cells] c] by blast
    have "row_cell ti row' c = Inr v" using stored_cell [OF assms(14) c assms(12) v(1)] v(2) assms(11) by blast
    moreover have "m c key = None" if "key_for c v = Inr key" for key
      using accepted_key_fresh [OF assms(3,5,14) c assms(15)] cell_key_value(1) [OF v(1) that] by blast
    ultimately show "\<exists>v. row_cell ti row c = Inr v \<and> row_cell ti row' c = Inr v \<and> (v = PNone \<or> (\<exists>key. key_for c v = Inr key \<and> m c key = None))"
      using v by blast
  qed
  then show ?thesis using r(2,3) rows' by blast
qed

text \<open>
  C6. INSERT keeps the indexes of a table exact. When every index of the table is the map from the
  keys of the rows a scan finds to the places of those rows, it is so again after the INSERT, with the
  new row: the check of the constraints lets no key in that an index already has. This is for tables
  with at most one PRIMARY KEY column whose key columns are INT, SMALLINT, BIGINT, BOOL or DATE, where equal
  keys are equal values, and an INSERT of one row that needs no overflow page into a table without long rows,
  with room for it on each page it may go to and page ids left for the splits.
\<close>

theorem insert_keeps_indexes:
  assumes "exec_insert stmt s = (Inr out, t)" and "i_values stmt = [vals]" and "need_table (i_table stmt) s = Inr ti"
    and "plain_table s ti dps" and "scan_table ti s = Inr rows" and "table_indexes ti (set dps) P s m" and "has_room (x_pager t)"
    and "row = normalize_row ti (i_columns stmt) vals" and "list_all2 readable_col row (schema_v2 ti)"
    and "encode_row row (schema_v2 ti) = Inr b" and "py_len b \<le> CHUNK_SIZE"
    and "\<And>pid p. pid \<in> set dps \<Longrightarrow> plain_at s pid p \<Longrightarrow> room_for p b"
    and "next_page_id (x_pager s) + 1 + int (length (indexed_columns ti)) * (next_page_id (x_pager s) + 2) \<le> 2 ^ 32"
    and "simple_keys ti" and "index_exact ti rows m"
  shows "\<exists>dps' Q rows' m'. plain_table t ti dps' \<and> table_indexes ti (set dps') Q t m' \<and> scan_table ti t = Inr rows' \<and>
    index_exact ti rows' m' \<and> (\<exists>ref. mset rows' = mset rows + {#(snd ref, map2 stored_col row (schema_v2 ti), fst ref)#})"
proof -
  have small: "\<not> py_len b > MAX_INLINE_PAYLOAD" using assms(11) by simp
  obtain ref s1 sess where ins: "insert_inline_only ti b s = (Inr ref, s1)" "index_row ti row ref s1 = (Inr (), t)"
    "validate_unique_keys row ti s [] = Inr sess"
    using assms(1,2,3,8,10) small
    by (auto simp: exec_insert_def insert_one_def readS_def liftE_def bindS_eq_Inr insert_row_into_chain_def Let_def split: if_splits)
  have len: "length row = length (ti_columns ti)" using list_all2_lengthD [OF assms(9)] by (simp add: schema_v2_def)
  from insert_row_exact [OF ins assms(4-7,11) _ decode_encode_row [OF assms(10,9)] refl len assms(13-15)] assms(12) show ?thesis by blast
qed

section \<open>SELECT through the index and by scan\<close>

text \<open>A row of a scan is read back at its place.\<close>

lemma scanned_row_read:
  assumes "plain_table s ti dps" and "scan_table ti s = Inr rows" and "r \<in> set rows"
  shows "read_row_by_slot ti (row_ref r) s = Inr [r]"
proof -
  obtain sid vals pid where r: "r = (sid, vals, pid)" by (cases r)
  have "pid \<in> set dps" using scan_row_page [OF assms] by (simp add: r)
  then obtain p where p: "plain_at s pid p" using assms(1) by (auto simp: plain_table_def)
  obtain xs where xs: "page_scan ti pid p = Inr xs" "r \<in> set xs"
    using page_scanned [OF assms(1,2) \<open>pid \<in> set dps\<close> p] assms(3) by (auto simp: r)
  obtain raw where raw: "exec_read_page pid s = Inr raw" "from_bytes pid raw = Inr p" "plain_page p" using p by (auto simp: plain_at_def)
  obtain parts where parts: "mapE (slot_hit ti pid p) (range_int (num_slots p)) = Inr parts" "xs = concat parts"
    using xs(1) by (auto simp: page_scan_def)
  then obtain part where "part \<in> set parts" "r \<in> set part" using xs(2) by auto
  then obtain i where i: "i \<in> set (range_int (num_slots p))" "slot_hit ti pid p i = Inr part" using mapE_source [OF parts(1)] by blast
  then have "i = sid" using slot_hit_ref [OF i(2) \<open>r \<in> set part\<close>] by (simp add: r)
  then obtain b where b: "page_rows p sid = Some b" "decode_row b (schema_v2 ti) = Inr vals"
    using i(2) \<open>r \<in> set part\<close> by (auto simp: slot_hit_def r split: option.splits)
  have "0 \<le> sid" "sid < num_slots p" using i(1) \<open>i = sid\<close> by (auto simp: range_int_def)
  from read_plain_slot [OF raw(3) this] show ?thesis using raw(1,2) b by (simp add: read_row_by_slot_def row_ref_def r)
qed

lemma limit_empty: "apply_limit_offset sel [] = []"
  by (simp add: apply_limit_offset_def slice_from_def slice_to_def split: option.split)

lemma sorted_short: "length xs \<le> 1 \<Longrightarrow> py_sorted lt xs = Inr xs"
  by (cases xs) (simp_all add: py_sorted_def)

lemma select_short:
  assumes "exec_scan_select sel schema proj rows = Inr out" and "filterE (where_matches (s_where sel) schema) rows = Inr hits"
    and "length hits \<le> 1"
  shows "slice_and_project sel hits proj = Inr out"
  using assms by (simp add: exec_scan_select_def stable_sort_def sorted_short split: if_splits)

text \<open>The rows that a condition by equality selects are those with its key.\<close>

lemma equality_matches:
  assumes "index_exact ti rows m" and "simple_keys ti" and "c \<in> set (indexed_columns ti)" and "key_for c v = Inr key"
    and "r \<in> set rows" and "eval_equals (c_name c) v (row_vals r) (schema_v2 ti) = Inr b"
  shows "b \<longleftrightarrow> cell_key ti (row_vals r) c = Some key"
proof -
  have "c \<in> set (ti_columns ti)" using assms(3) by (simp add: indexed_columns_def)
  then obtain i where i: "map_of (ti_name_index ti) (c_name c) = Some i" "find_col (c_name c) (schema_v2 ti) = Some i"
    using column_place assms(2) simple_keys_def by metis
  obtain v' where v': "row_cell ti (row_vals r) c = Inr v'" "v' = PNone \<or> (\<exists>key. key_for c v' = Inr key)"
    using assms(1,3,5) unfolding index_exact_def by blast
  have "row_at (row_vals r) i = Inr v'" using v'(1) i(1) by (simp add: row_cell_def)
  then have b: "b = py_eq v' v" using assms(6) i(2) by (auto simp: eval_equals_def Let_def split: prod.splits)
  have ex: "exact_column c" using assms(2,3) by (simp add: simple_keys_def)
  show ?thesis
  proof (cases "v' = PNone")
    case True
    then have "cell_key ti (row_vals r) c = None" using cell_key_value(2) v'(1) by blast
    moreover have "\<not> py_eq PNone v" using key_for_value [OF assms(4)] by (cases v) (simp_all add: py_eq_def)
    ultimately show ?thesis using b True by simp
  next
    case False
    then obtain k where k: "key_for c v' = Inr k" using v'(2) by blast
    then have "cell_key ti (row_vals r) c = Some k" using cell_key_value(1) v'(1) by blast
    then show ?thesis using b exact_key [OF ex assms(4) k] by auto
  qed
qed

lemma filter_one:
  assumes "distinct (map f xs)" and "r \<in> set xs" and "P r" and "\<And>x. x \<in> set xs \<Longrightarrow> P x \<Longrightarrow> f x = f r"
  shows "filter P xs = [r]"
proof -
  obtain as bs where xs: "xs = as @ r # bs" using split_list [OF assms(2)] by blast
  have "f r \<notin> f ` set (as @ bs)" using assms(1) by (auto simp: xs)
  then have "f x \<noteq> f r" if "x \<in> set as \<union> set bs" for x
  proof -
    have "f x \<in> f ` set (as @ bs)" using that by (intro imageI) simp
    with \<open>f r \<notin> f ` set (as @ bs)\<close> show ?thesis by metis
  qed
  then have "filter P as = []" "filter P bs = []" using assms(4) by (fastforce simp: xs filter_empty_conv)+
  then show ?thesis using assms(3) by (simp add: xs)
qed

text \<open>
  C7. The index answers as the scan. For a table whose indexes are exact, a SELECT with an equality on
  an indexed column, which the program answers with one search of the B+ tree and one row read, gives
  the result that filtering all rows of a scan by the condition gives, LIMIT and OFFSET included. The
  key columns are INT, SMALLINT, BIGINT, BOOL or DATE, at most one of them PRIMARY KEY, and the table has no
  long rows.
\<close>

theorem indexed_select_scans:
  assumes "plain_table s ti dps" and "scan_table ti s = Inr rows" and "table_indexes ti (set dps) P s m"
    and "simple_keys ti" and "index_exact ti rows m" and "c \<in> set (indexed_columns ti)"
    and "s_where sel = Some (EqualsExpr (c_name c) v q)" and "key_for c v = Inr key"
    and "exec_scan_select sel (schema_v2 ti) proj rows = Inr out"
  shows "exec_indexed_select sel ti proj s = Inr (Some out)"
proof -
  obtain w where ix: "index_in (P c) w (ti_name ti, c_name c) s (m c)" using assms(3,6) by (auto simp: table_indexes_def)
  then obtain bt where bt: "get_btree (ti_name ti, c_name c) s = Some bt" by (auto simp: index_in_def index_is_def)
  have "c \<in> set (ti_columns ti)" using assms(6) by (simp add: indexed_columns_def)
  moreover have "distinct (map c_name (ti_columns ti))" using assms(4) by (simp add: simple_keys_def)
  ultimately have col: "find (\<lambda>col. c_name col = c_name c) (ti_columns ti) = Some c" by (rule find_named)
  have step: "exec_indexed_select sel ti proj s =
      (case m c key of None \<Rightarrow> Inr (Some []) | Some r \<Rightarrow>
         bindE (read_row_by_slot ti r s) (\<lambda>rows. bindE (slice_and_project sel rows proj) (\<lambda>out. Inr (Some out))))"
    using lookup_in [OF ix] by (simp add: exec_indexed_select_def assms(7,8) bt col)
  obtain hits where hits: "filterE (where_matches (s_where sel) (schema_v2 ti)) rows = Inr hits"
    using assms(9) by (auto simp: exec_scan_select_def)
  note f = filterE_result [OF hits]
  define has where "has r \<longleftrightarrow> cell_key ti (row_vals r) c = Some key" for r
  have "where_matches (s_where sel) (schema_v2 ti) r = Inr True \<longleftrightarrow> has r" if r: "r \<in> set rows" for r
  proof -
    obtain b where b: "eval_equals (c_name c) v (row_vals r) (schema_v2 ti) = Inr b"
      using f r by (auto simp: where_matches_def assms(7))
    then show ?thesis using equality_matches [OF assms(5,4,6,8) r b] by (simp add: where_matches_def assms(7) has_def)
  qed
  then have sel: "hits = filter has rows" using f by (auto intro!: filter_cong)
  have m: "m c key = Some ref \<longleftrightarrow> (\<exists>r \<in> set rows. row_ref r = ref \<and> has r)" for ref
    using assms(5,6) unfolding index_exact_def has_def by blast
  show ?thesis
  proof (cases "m c key")
    case None
    then have "hits = []" using m by (auto simp: sel filter_empty_conv)
    then show ?thesis using select_short [OF assms(9) hits] None 
      by (simp add: step slice_and_project_def limit_empty)
  next
    case (Some ref)
    then obtain r where r: "r \<in> set rows" "row_ref r = ref" "has r" using m by blast
    have "row_ref x = row_ref r" if "x \<in> set rows" "has x" for x using m [of "row_ref x"] that Some r(2) by auto
    from filter_one [where f = row_ref and P = has, OF scan_refs_distinct [OF assms(1,2)] r(1,3) this] have "hits = [r]" by (simp add: sel)
    then show ?thesis
      using select_short [OF assms(9) hits] scanned_row_read [OF assms(1,2) r(1)] Some r(2) by (simp add: step)
  qed
qed

section \<open>Keys that are stored in another form\<close>

text \<open>
  A key shorter than its CHAR column is compared as given with the rows as stored, which are padded: the
  check accepts it whatever the table holds, the same key included.
\<close>

theorem padded_key_accepted:
  assumes "scan_table ti s = Inr rows" and "row_cell ti row c = Inr (PStr y)" and "utf8_encode y = Inr e" and "py_len e < n"
    and "\<And>r. r \<in> set rows \<Longrightarrow> \<exists>x d. row_cell ti (row_vals r) c = Inr (PStr x) \<and> utf8_encode x = Inr d \<and> py_len d = n"
    and "session_keys sess ([c_name c], kind) = []"
  shows "\<exists>sess'. check_group row ti s sess ([c_name c], kind) = Inr sess'"
proof -
  obtain i where i: "map_of (ti_name_index ti) (c_name c) = Some i" "row_at row i = Inr (PStr y)"
    using assms(2) by (auto simp: row_cell_def split: option.splits)
  have cell: "\<exists>x d. row_at (row_vals r) i = Inr (PStr x) \<and> utf8_encode x = Inr d \<and> py_len d = n" if "r \<in> set rows" for r
    using assms(5) [OF that] i(1) by (simp add: row_cell_def)
  have "\<exists>all. mapE (\<lambda>r. mapE (row_at (row_vals r)) [i]) rows = Inr all \<and> (\<forall>k \<in> set all. \<exists>x. k = [PStr x] \<and> x \<noteq> y)"
    using cell
  proof (induction rows)
    case (Cons r rows)
    obtain x d where x: "row_at (row_vals r) i = Inr (PStr x)" "utf8_encode x = Inr d" "py_len d = n"
      using Cons.prems [of r] by auto
    obtain all where all: "mapE (\<lambda>r. mapE (row_at (row_vals r)) [i]) rows = Inr all" "\<forall>k \<in> set all. \<exists>x. k = [PStr x] \<and> x \<noteq> y"
      using Cons.IH Cons.prems by auto
    have "x \<noteq> y" using x(2,3) assms(3,4) by auto
    then show ?case using x(1) all by (intro exI [of _ "[PStr x] # all"]) simp
  qed simp
  then obtain all where all: "mapE (\<lambda>r. mapE (row_at (row_vals r)) [i]) rows = Inr all" "\<forall>k \<in> set all. \<exists>x. k = [PStr x] \<and> x \<noteq> y"
    by blast
  have "scan_unique_keys ti [c_name c] s = Inr (filter (\<lambda>k. PNone \<notin> set k) all)"
    using assms(1) i(1) all(1) by (simp add: scan_unique_keys_def col_idx_def)
  moreover have "\<not> key_in [PStr y] (filter (\<lambda>k. PNone \<notin> set k) all)"
    using all(2) by (auto simp: key_in_def list_ex_iff key_eq_def py_eq_def)
  ultimately show ?thesis using i assms(6) by (simp add: check_group_def col_idx_def key_in_def)
qed

end
