(* ===== verification/Index_Delete.thy ===== *)
theory Index_Delete
  imports Index_Scan
begin

text \<open>
  DELETE on a table with indexes: the rows that match are gone from the scan and from every
  index, the others stay in both.
\<close>

section \<open>Taking a row out of the indexes\<close>

definition drop_row :: "table_info \<Rightarrow> pyval list \<Rightarrow> (column \<Rightarrow> key \<Rightarrow> (int \<times> int) option) \<Rightarrow> column \<Rightarrow> key \<Rightarrow> (int \<times> int) option" where
  "drop_row ti vals m col = (case cell_key ti vals col of None \<Rightarrow> m col | Some key \<Rightarrow> (m col)(key := None))"

definition unindex_cell :: "table_info \<Rightarrow> pyval list \<Rightarrow> column \<Rightarrow> (exec, unit) cmd" where
  "unindex_cell ti vals col =
     bindS (liftE (row_cell ti vals col)) (\<lambda>v.
     if v = PNone then returnS ()
     else bindS (liftE (key_for col v)) (\<lambda>key. index_delete (ti_name ti, c_name col) key))"

lemma unindex_row_cells: "unindex_row ti vals = forS (indexed_columns ti) (unindex_cell ti vals)"
  by (simp add: unindex_row_def unindex_cell_def [abs_def])

lemma unindex_cell_run:
  assumes "unindex_cell ti vals col s = (Inr (), t)"
  shows "(cell_key ti vals col = None \<and> t = s) \<or>
    (\<exists>key. cell_key ti vals col = Some key \<and> index_delete (ti_name ti, c_name col) key s = (Inr (), t))"
  using assms by (auto simp: unindex_cell_def cell_key_def liftE_def bindS_eq_Inr split: if_splits)

lemma unindex_cell_drops:
  assumes "unindex_cell ti vals col s = (Inr (), t)" and "table_indexes ti D P s m" and "col \<in> set (indexed_columns ti)"
  shows "\<exists>Q. table_indexes ti D (P(col := Q)) t (m(col := drop_row ti vals m col)) \<and> (\<forall>p \<in> D. txn_pages t p = txn_pages s p) \<and>
    x_data_pages t = x_data_pages s"
proof -
  obtain w where w: "key_width col = Some w" "safe_width w" "index_in (P col) w (ti_name ti, c_name col) s (m col)"
    using assms(2,3) by (auto simp: table_indexes_def)
  consider "cell_key ti vals col = None" "t = s"
    | key where "cell_key ti vals col = Some key" "index_delete (ti_name ti, c_name col) key s = (Inr (), t)"
    using unindex_cell_run [OF assms(1)] by metis
  then show ?thesis
  proof cases
    case 1
    then show ?thesis using assms(2) by (intro exI [of _ "P col"]) (simp add: drop_row_def)
  next
    case 2
    from index_delete_in [OF w(3), of key] 2(2) obtain Q where
      Q: "index_in Q w (ti_name ti, c_name col) t ((m col)(key := None))" "tree_step (ti_name ti, c_name col) (P col) Q s t" by auto
    from table_indexes_step [OF assms(2,3) w(1) Q] Q(2) 2(1) show ?thesis
      by (auto simp: drop_row_def tree_step_def index_only_def)
  qed
qed

lemma unindex_cells_drop:
  assumes "forS cs (unindex_cell ti vals) s = (Inr (), t)" and "table_indexes ti D P s m" and "set cs \<subseteq> set (indexed_columns ti)"
  shows "\<exists>Q. table_indexes ti D Q t (\<lambda>c. if c \<in> set cs then drop_row ti vals m c else m c) \<and>
    (\<forall>p \<in> D. txn_pages t p = txn_pages s p) \<and> x_data_pages t = x_data_pages s"
  using assms
proof (induction cs arbitrary: s P m)
  case Nil
  then show ?case by auto
next
  case (Cons c cs)
  obtain s1 where s1: "unindex_cell ti vals c s = (Inr (), s1)" "forS cs (unindex_cell ti vals) s1 = (Inr (), t)"
    using Cons.prems(1) by (auto simp: bindS_eq_Inr)
  from unindex_cell_drops [OF s1(1) Cons.prems(2)] Cons.prems(3) obtain Q where
    Q: "table_indexes ti D (P(c := Q)) s1 (m(c := drop_row ti vals m c))" "\<forall>p \<in> D. txn_pages s1 p = txn_pages s p" "x_data_pages s1 = x_data_pages s"
    by auto
  from Cons.IH [OF s1(2) Q(1)] Cons.prems(3) obtain R where
    R: "table_indexes ti D R t (\<lambda>c'. if c' \<in> set cs then drop_row ti vals (m(c := drop_row ti vals m c)) c' else (m(c := drop_row ti vals m c)) c')"
    "\<forall>p \<in> D. txn_pages t p = txn_pages s1 p" "x_data_pages t = x_data_pages s1" by auto
  have "(\<lambda>c'. if c' \<in> set cs then drop_row ti vals (m(c := drop_row ti vals m c)) c' else (m(c := drop_row ti vals m c)) c') =
      (\<lambda>c'. if c' \<in> set (c # cs) then drop_row ti vals m c' else m c')"
    by (auto simp: fun_eq_iff drop_row_def split: option.split)
  then show ?case using R Q(2,3) by (intro exI [of _ R]) simp
qed

text \<open>Taking them out succeeds when the cells are keys.\<close>

definition cells_ok :: "table_info \<Rightarrow> pyval list \<Rightarrow> column list \<Rightarrow> bool" where
  "cells_ok ti vals cs \<longleftrightarrow> (\<forall>c \<in> set cs. \<exists>v. row_cell ti vals c = Inr v \<and> (v = PNone \<or> (\<exists>key. key_for c v = Inr key)))"

lemma unindex_cells_run:
  assumes "cells_ok ti vals cs" and "table_indexes ti D P s m" and "set cs \<subseteq> set (indexed_columns ti)"
  shows "\<exists>t. forS cs (unindex_cell ti vals) s = (Inr (), t)"
  using assms
proof (induction cs arbitrary: s P m)
  case (Cons c cs)
  obtain v where v: "row_cell ti vals c = Inr v" "v = PNone \<or> (\<exists>key. key_for c v = Inr key)"
    using Cons.prems(1) by (auto simp: cells_ok_def)
  obtain w where w: "index_in (P c) w (ti_name ti, c_name c) s (m c)" using Cons.prems(2,3) by (auto simp: table_indexes_def)
  have "\<exists>t. index_delete (ti_name ti, c_name c) key s = (Inr (), t)" for key using index_delete_in [OF w, of key] by blast
  then have "\<exists>s1. unindex_cell ti vals c s = (Inr (), s1)"
    using v by (auto simp: unindex_cell_def liftE_def bindS_def)
  then obtain s1 where s1: "unindex_cell ti vals c s = (Inr (), s1)" ..
  from unindex_cell_drops [OF s1 Cons.prems(2)] Cons.prems(3) obtain Q where
    "table_indexes ti D (P(c := Q)) s1 (m(c := drop_row ti vals m c))" by auto
  from Cons.IH [OF _ this] Cons.prems(1,3) show ?case by (simp add: cells_ok_def bindS_def s1)
qed simp

section \<open>One row\<close>

text \<open>Writing a data page leaves the indexes as they are.\<close>

lemma data_page_written:
  assumes "table_indexes ti D P s m" and "pid \<in> D" and "length b = 4096" and "exec_write_page pid b s = (Inr (), t)"
  shows "table_indexes ti D P t m"
proof -
  have s: "txn_ready s" "D \<subseteq> dom (txn_pages s)" "D \<inter> set (index_pages s) = {}" using assms(1) by (simp_all add: table_indexes_def)
  have use: "txn_pages s pid \<noteq> None" using s(2) assms(2) by auto
  then have "pid \<noteq> 1" by (auto simp: txn_pages_def pages_in_use_def)
  then have t: "txn_ready t" "txn_pages t = (txn_pages s)(pid \<mapsto> b)" "same_tables s t"
    using txn_write [OF s(1) disjI2 [OF use] assms(3)] assms(4) by auto
  have step: "index_in (P c) w (ti_name ti, c_name c) t (m c)"
    if "P c \<inter> D = {}" "index_in (P c) w (ti_name ti, c_name c) s (m c)" for c w
    by (rule index_in_transfer [OF that(2) t(1)]) (use that(1) assms(2) t(2,3) in \<open>auto simp: get_btree_def same_tables_def\<close>)
  have "D \<subseteq> dom (txn_pages t)" using s(2) t(2) by auto
  moreover have "D \<inter> set (index_pages t) = {}" using s(3) same_tables_pages [OF t(3)] by simp
  moreover have "\<forall>c \<in> set (indexed_columns ti). P c \<inter> D = {} \<and>
      (\<exists>w. key_width c = Some w \<and> safe_width w \<and> index_in (P c) w (ti_name ti, c_name c) t (m c))"
  proof
    fix c assume c: "c \<in> set (indexed_columns ti)"
    then obtain w where "P c \<inter> D = {}" "key_width c = Some w" "safe_width w" "index_in (P c) w (ti_name ti, c_name c) s (m c)"
      using assms(1) unfolding table_indexes_def by blast
    then show "P c \<inter> D = {} \<and> (\<exists>w. key_width c = Some w \<and> safe_width w \<and> index_in (P c) w (ti_name ti, c_name c) t (m c))"
      using step by blast
  qed
  moreover have "\<forall>c \<in> set (indexed_columns ti). \<forall>c' \<in> set (indexed_columns ti). c \<noteq> c' \<longrightarrow> c_name c \<noteq> c_name c' \<and> P c \<inter> P c' = {}"
    using assms(1) unfolding table_indexes_def by (elim conjE)
  ultimately show ?thesis using t(1) by (simp add: table_indexes_def)
qed

lemma index_exact_drop:
  assumes "index_exact ti rows m" and "d \<in> set rows" and "distinct (map row_ref rows)"
  shows "index_exact ti (filter (\<lambda>r. row_ref r \<noteq> row_ref d) rows) (drop_row ti (row_vals d) m)"
  unfolding index_exact_def
proof (intro ballI conjI allI)
  fix c assume c: "c \<in> set (indexed_columns ti)"
  show "\<exists>v. row_cell ti (row_vals r) c = Inr v \<and> (v = PNone \<or> (\<exists>key. key_for c v = Inr key))"
    if "r \<in> set (filter (\<lambda>r. row_ref r \<noteq> row_ref d) rows)" for r
    using assms(1) c that by (simp add: index_exact_def)
  have old: "m c key = Some ref \<longleftrightarrow> (\<exists>x \<in> set rows. row_ref x = ref \<and> cell_key ti (row_vals x) c = Some key)" for key ref
    using assms(1) c unfolding index_exact_def by blast
  have inj: "x = y" if "x \<in> set rows" "y \<in> set rows" "row_ref x = row_ref y" for x y
    using assms(3) that by (auto simp: distinct_map dest: inj_onD)
  fix key ref
  show "drop_row ti (row_vals d) m c key = Some ref \<longleftrightarrow>
      (\<exists>x \<in> set (filter (\<lambda>r. row_ref r \<noteq> row_ref d) rows). row_ref x = ref \<and> cell_key ti (row_vals x) c = Some key)"
  proof (cases "cell_key ti (row_vals d) c = Some key")
    case True
    then have "m c key = Some (row_ref d)" using old assms(2) by blast
    then have "x = d" if "x \<in> set rows" "cell_key ti (row_vals x) c = Some key" for x
      using old [of key "row_ref x"] that inj [OF that(1) assms(2)] by auto
    then show ?thesis using True by (auto simp: drop_row_def)
  next
    case False
    then have "drop_row ti (row_vals d) m c key = m c key" by (auto simp: drop_row_def split: option.split)
    moreover have "row_ref x \<noteq> row_ref d" if "x \<in> set rows" "cell_key ti (row_vals x) c = Some key" for x
      using that False inj [OF that(1) assms(2)] by auto
    then have "(\<exists>x \<in> set (filter (\<lambda>r. row_ref r \<noteq> row_ref d) rows). row_ref x = ref \<and> cell_key ti (row_vals x) c = Some key) \<longleftrightarrow>
        (\<exists>x \<in> set rows. row_ref x = ref \<and> cell_key ti (row_vals x) c = Some key)" by (simp only: set_filter) blast
    ultimately show ?thesis using old [of key ref] by simp
  qed
qed

lemma delete_one_runs:
  assumes "plain_table s ti dps" and "scan_table ti s = Inr rows" and "d \<in> set rows"
    and "table_indexes ti (set dps) P s m" and "index_exact ti rows m"
  shows "\<exists>t. delete_one ti d s = (Inr (), t)"
proof -
  obtain sid vals pid where d: "d = (sid, vals, pid)" by (metis prod.collapse)
  have pid: "pid \<in> set dps" using scan_row_page [OF assms(1-3)] by (simp add: d)
  then obtain p where at: "plain_at s pid p" using assms(1) by (auto simp: plain_table_def)
  have pl: "plain_page p" using at by (simp add: plain_at_def)
  have n: "num_slots p = int (length (slots p))" using pl by (simp add: plain_page_def page_ok_def)
  obtain xs where xs: "page_scan ti pid p = Inr xs" "d \<in> set xs"
    using page_scanned [OF assms(1,2) pid at] assms(3) by (auto simp: d)
  then have sid: "0 \<le> sid" "sid < num_slots p" using page_scan_refs(2) [OF xs(1)] xs(2) by (auto simp: d)
  then obtain slot where slot: "get_item (slots p) sid = Inr slot" "slot \<in> set (slots p)" by (auto simp: get_item_nonneg n)
  then have "\<not> spilled slot" using pl by (simp add: plain_page_def list_all_iff)
  obtain p' where del: "delete_row p sid = Inr p'" using sid slot by (simp add: delete_row_def)
  have p': "plain_page p'" by (rule delete_plain(1) [OF pl del])
  then have im: "to_bytes p' = Inr (page_image p')" "length (page_image p') = 4096"
    using to_bytes_image length_page_image by (simp_all add: plain_page_def)
  have "txn_ready s" "txn_pages s pid \<noteq> None" using assms(4) pid by (auto simp: table_indexes_def)
  from txn_write [OF this(1) disjI2 [OF this(2)] im(2)] obtain s1 where w: "exec_write_page pid (page_image p') s = (Inr (), s1)" by blast
  have "cells_ok ti vals (indexed_columns ti)"
    using assms(3,5) unfolding index_exact_def cells_ok_def d row_vals_def by fastforce
  from unindex_cells_run [OF this data_page_written [OF assms(4) pid im(2) w] subset_refl]
  obtain t where "unindex_row ti vals s1 = (Inr (), t)" by (auto simp: unindex_row_cells)
  moreover have "load_page pid s = (Inr p, s)" using at by (auto simp: load_page_def plain_at_def read_pageS_def liftE_def bindS_def)
  ultimately show ?thesis
    using slot(1) \<open>\<not> spilled slot\<close> del im(1) w by (simp add: d delete_one_def store_page_def liftE_def bindS_def)
qed

lemma delete_one_indexed:
  assumes "delete_one ti d s = (Inr (), t)" and "plain_table s ti dps" and "scan_table ti s = Inr rows" and "d \<in> set rows"
    and "table_indexes ti (set dps) P s m" and "index_exact ti rows m"
  shows "\<exists>Q m'. scan_table ti t = Inr (filter (\<lambda>r. row_ref r \<noteq> row_ref d) rows) \<and> plain_table t ti dps \<and>
    table_indexes ti (set dps) Q t m' \<and> index_exact ti (filter (\<lambda>r. row_ref r \<noteq> row_ref d) rows) m'"
proof -
  have ready: "txn_ready s" using assms(5) by (simp add: table_indexes_def)
  then have "x_txn s \<noteq> None" by (auto simp: txn_ready_def)
  then obtain s1 pid b where un: "unindex_row ti (row_vals d) s1 = (Inr (), t)" and w: "exec_write_page pid b s = (Inr (), s1)"
    and pid: "pid \<in> set dps" and len: "length b = 4096" and scan: "scan_table ti s1 = Inr (filter (\<lambda>r. row_ref r \<noteq> row_ref d) rows)"
    and tab: "plain_table s1 ti dps"
    by (rule delete_one_store [OF assms(1-4)])
  have ix1: "table_indexes ti (set dps) P s1 m" by (rule data_page_written [OF assms(5) pid len w])
  obtain Q where Q: "table_indexes ti (set dps) Q t (\<lambda>c. if c \<in> set (indexed_columns ti) then drop_row ti (row_vals d) m c else m c)"
    "\<forall>p \<in> set dps. txn_pages t p = txn_pages s1 p" "x_data_pages t = x_data_pages s1"
    using unindex_cells_drop [OF un [unfolded unindex_row_cells] ix1 subset_refl] by blast
  have ready': "txn_ready s1" "txn_ready t" "set dps \<inter> set (index_pages t) = {}" using ix1 Q(1) by (simp_all add: table_indexes_def)
  note k = table_kept [OF tab scan Q(2) ready'(3) Q(3) ready'(1,2)]
  have "table_indexes ti (set dps) Q t (drop_row ti (row_vals d) m)" using Q(1) by (simp add: table_indexes_def)
  moreover have "index_exact ti (filter (\<lambda>r. row_ref r \<noteq> row_ref d) rows) (drop_row ti (row_vals d) m)"
    by (rule index_exact_drop [OF assms(6,4) scan_refs_distinct [OF assms(2,3)]])
  ultimately show ?thesis using k(1,2) by blast
qed

section \<open>DELETE\<close>

lemma delete_rows_indexed:
  assumes "plain_table s ti dps" and "scan_table ti s = Inr rows"
    and "set ds \<subseteq> set rows" and "distinct (map row_ref ds)" and "table_indexes ti (set dps) P s m" and "index_exact ti rows m"
  shows "\<exists>t Q m'. forS ds (delete_one ti) s = (Inr (), t) \<and> scan_table ti t = Inr (filter (\<lambda>r. row_ref r \<notin> row_ref ` set ds) rows) \<and>
    plain_table t ti dps \<and> table_indexes ti (set dps) Q t m' \<and> index_exact ti (filter (\<lambda>r. row_ref r \<notin> row_ref ` set ds) rows) m'"
  using assms
proof (induction ds arbitrary: s rows P m)
  case Nil
  then show ?case by auto
next
  case (Cons d ds)
  have d: "d \<in> set rows" using Cons.prems(3) by simp
  obtain s1 where one: "delete_one ti d s = (Inr (), s1)"
    using delete_one_runs [OF Cons.prems(1,2) d Cons.prems(5,6)] by blast
  let ?rows = "filter (\<lambda>r. row_ref r \<noteq> row_ref d) rows"
  obtain Q m1 where o1: "scan_table ti s1 = Inr ?rows" "plain_table s1 ti dps" "table_indexes ti (set dps) Q s1 m1" "index_exact ti ?rows m1"
    using delete_one_indexed [OF one Cons.prems(1,2) d Cons.prems(5,6)] by blast
  have sub: "set ds \<subseteq> set ?rows"
  proof
    fix r assume "r \<in> set ds"
    then have "row_ref r \<in> row_ref ` set ds" "r \<in> set rows" using Cons.prems(3) by auto
    moreover have "row_ref d \<notin> row_ref ` set ds" using Cons.prems(4) by simp
    ultimately show "r \<in> set ?rows" by auto
  qed
  have "distinct (map row_ref ds)" using Cons.prems(4) by simp
  from Cons.IH [OF o1(2,1) sub this o1(3,4)] obtain t R m' where
    R: "forS ds (delete_one ti) s1 = (Inr (), t)" "scan_table ti t = Inr (filter (\<lambda>r. row_ref r \<notin> row_ref ` set ds) ?rows)" "plain_table t ti dps"
      "table_indexes ti (set dps) R t m'" "index_exact ti (filter (\<lambda>r. row_ref r \<notin> row_ref ` set ds) ?rows) m'" by blast
  have "filter (\<lambda>r. row_ref r \<notin> row_ref ` set ds) ?rows = filter (\<lambda>r. row_ref r \<notin> row_ref ` set (d # ds)) rows"
    by (simp add: filter_filter conj_commute)
  moreover have "forS (d # ds) (delete_one ti) s = (Inr (), t)" by (simp add: bindS_def one R(1))
  ultimately show ?case using R(2-5) by metis
qed

lemma filterE_total: "\<forall>x \<in> set xs. \<exists>b. f x = Inr b \<Longrightarrow> \<exists>ys. filterE f xs = Inr ys"
proof (induction xs)
  case (Cons a xs)
  then obtain b ys where "f a = Inr b" "filterE f xs = Inr ys" by auto
  then show ?case by (cases b) simp_all
qed simp

text \<open>
  C8. DELETE on a table without long rows whose indexes are exact (or that has none; their keys are of
  fixed width, so no TEXT or VARCHAR key), where the condition can be evaluated on every row: it succeeds, and exactly the
  rows for which the condition holds are gone; the others are still found by a scan, in the same order and
  in the same slots; and every index is exact again, so that no key leads to a row that is gone.
\<close>

theorem delete_removes_matching:
  assumes "need_table table s = Inr ti" and "plain_table s ti dps" and "scan_table ti s = Inr rows"
    and "table_indexes ti (set dps) P s m" and "index_exact ti rows m"
    and "\<forall>r \<in> set rows. \<exists>b. where_matches w (schema_v2 ti) r = Inr b"
  shows "\<exists>t rows' Q m'. exec_delete table w s = (Inr (Lists []), t) \<and>
    rows' = filter (\<lambda>r. where_matches w (schema_v2 ti) r = Inr False) rows \<and> scan_table ti t = Inr rows' \<and>
    plain_table t ti dps \<and> table_indexes ti (set dps) Q t m' \<and> index_exact ti rows' m'"
proof -
  obtain ds where m: "filterE (where_matches w (schema_v2 ti)) rows = Inr ds" using filterE_total [OF assms(6)] by blast
  note f = filterE_result [OF m]
  have inj: "inj_on row_ref (set rows)" "distinct (map row_ref ds)"
    using scan_refs_distinct [OF assms(2,3)] f by (simp_all add: distinct_map distinct_map_filter inj_on_def)
  have sub: "set ds \<subseteq> set rows" using f by auto
  have "filter (\<lambda>r. row_ref r \<notin> row_ref ` set ds) rows = filter (\<lambda>r. where_matches w (schema_v2 ti) r = Inr False) rows"
  proof (rule filter_cong [OF refl])
    fix r assume "r \<in> set rows"
    then have "row_ref r \<notin> row_ref ` set ds \<longleftrightarrow> r \<notin> set ds" using inj_on_image_mem_iff [OF inj(1)] sub by blast
    also have "\<dots> \<longleftrightarrow> where_matches w (schema_v2 ti) r = Inr False" using f \<open>r \<in> set rows\<close> by auto
    finally show "row_ref r \<notin> row_ref ` set ds \<longleftrightarrow> where_matches w (schema_v2 ti) r = Inr False" .
  qed
  with delete_rows_indexed [OF assms(2,3) sub inj(2) assms(4,5)] obtain t Q m' where
    t: "forS ds (delete_one ti) s = (Inr (), t)" "scan_table ti t = Inr (filter (\<lambda>r. where_matches w (schema_v2 ti) r = Inr False) rows)"
      "plain_table t ti dps" "table_indexes ti (set dps) Q t m'" "index_exact ti (filter (\<lambda>r. where_matches w (schema_v2 ti) r = Inr False) rows) m'"
    by auto
  have "exec_delete table w s = (Inr (Lists []), t)"
    using assms(1,3) m t(1) by (simp add: exec_delete_def matching_rows_def readS_def bindS_def)
  with t(2-5) show ?thesis by blast
qed

end
