(* ===== verification/Create_Table.thy ===== *)
theory Create_Table
  imports Insert_Scan
begin

text \<open>
  CREATE TABLE: the new table is there and a scan of it finds nothing; the other tables and
  their rows stay.
\<close>

section \<open>Index pages\<close>

text \<open>Rebuilding and installing the indexes of a table adds no page to those reserved for indexes.\<close>

definition no_roots :: "pystr \<Rightarrow> exec \<Rightarrow> bool" where
  "no_roots tn s \<longleftrightarrow> (\<forall>(k, ix) \<in> set (x_indexes s). fst k = tn \<longrightarrow> ix_root ix = None)"

definition same_but_indexes :: "pystr \<Rightarrow> exec \<Rightarrow> exec \<Rightarrow> bool" where
  "same_but_indexes tn s t \<longleftrightarrow>
     x_pager t = x_pager s \<and> x_catalog t = x_catalog s \<and> x_data_pages t = x_data_pages s \<and> x_txn t = x_txn s \<and>
     x_buffer t = x_buffer s \<and> set (index_pages t) \<subseteq> set (index_pages s) \<and> (no_roots tn s \<longrightarrow> no_roots tn t)"

interpretation indexes: frame "same_but_indexes tn" for tn
  by unfold_locales (auto simp: same_but_indexes_def)

lemma empty_index_kept:
  assumes "ix_root ix = None"
  shows "same_but_indexes tn s (s\<lparr>x_indexes := AList.update k ix (x_indexes s)\<rparr>)"
proof -
  have "set (AList.update k ix (x_indexes s)) \<subseteq> insert (k, ix) (set (x_indexes s))" by (rule set_update_subset)
  then have "no_roots tn s \<Longrightarrow> no_roots tn (s\<lparr>x_indexes := AList.update k ix (x_indexes s)\<rparr>)"
    using assms by (fastforce simp: no_roots_def)
  then show ?thesis by (auto simp: same_but_indexes_def index_pages_def)
qed

lemma rebuild_indexes: "keeps (same_but_indexes tn) (rebuild_for_table ti)"
  unfolding rebuild_for_table_def set_index_def by (intro indexes.rules empty_index_kept) simp_all

lemma new_wrapper_kept:
  assumes "ix_root ix = None"
  shows "new_wrapper k ix s = (Inr (), snd (new_wrapper k ix s)) \<and> same_but_indexes tn s (snd (new_wrapper k ix s))"
proof -
  let ?s = "s\<lparr>x_wrappers := x_wrappers s @ [[]]\<rparr>"
  have "same_but_indexes tn s ?s" by (auto simp: same_but_indexes_def index_pages_def no_roots_def)
  moreover have "same_but_indexes tn ?s (?s\<lparr>x_indexes := AList.update k (ix\<lparr>ix_pager := Some (length (x_wrappers s))\<rparr>) (x_indexes ?s)\<rparr>)"
    by (rule empty_index_kept) (simp add: assms)
  ultimately have "same_but_indexes tn s (?s\<lparr>x_indexes := AList.update k (ix\<lparr>ix_pager := Some (length (x_wrappers s))\<rparr>) (x_indexes ?s)\<rparr>)"
    by (rule indexes.trans)
  then show ?thesis using assms by (simp add: new_wrapper_def)
qed

lemma install_indexes:
  assumes "no_roots tn s"
  shows "same_but_indexes tn s (snd (install_index_pagers tn s)) \<and> fst (install_index_pagers tn s) = Inr ()"
proof -
  let ?f = "\<lambda>(k, ix). if fst k \<noteq> tn then returnS () else new_wrapper k ix"
  have "same_but_indexes tn s (snd (forS ixs ?f s)) \<and> fst (forS ixs ?f s) = Inr ()"
    if "\<forall>(k, ix) \<in> set ixs. fst k = tn \<longrightarrow> ix_root ix = None" for ixs
    using that
  proof (induction ixs arbitrary: s)
    case (Cons p ixs)
    obtain k ix where p: "p = (k, ix)" by (cases p)
    define s1 where "s1 = snd (?f p s)"
    have one: "?f p s = (Inr (), s1)" "same_but_indexes tn s s1"
      using new_wrapper_kept [of ix k s tn] Cons.prems by (auto simp: p s1_def indexes.refl)
    have rest: "same_but_indexes tn s1 (snd (forS ixs ?f s1)) \<and> fst (forS ixs ?f s1) = Inr ()"
      using Cons by simp
    have "forS (p # ixs) ?f s = forS ixs ?f s1" by (simp only: forS.simps bindS_def one(1) prod.case sum.case)
    then show ?case using rest indexes.trans [OF one(2)] by simp
  qed (simp add: indexes.refl)
  then show ?thesis using assms by (simp add: install_index_pagers_def bindS_def no_roots_def)
qed

section \<open>CREATE TABLE\<close>

lemma exec_read_same: "x_buffer t = x_buffer s \<Longrightarrow> x_pager t = x_pager s \<Longrightarrow> exec_read_page q t = exec_read_page q s"
  by (simp add: exec_read_page_def split: option.split)

lemma empty_page_plain: "plain_page (empty_page pid)" "page_id (empty_page pid) = pid" "page_scan ti pid (empty_page pid) = Inr []"
proof -
  have "page_ok (empty_page pid)" by (simp add: page_ok_def empty_page_def)
  then show "plain_page (empty_page pid)"
    by (simp add: plain_page_def) (simp add: page_wf_def empty_page_def free_space_def)
  show "page_scan ti pid (empty_page pid) = Inr []" by (simp add: page_scan_def range_int_def empty_page_def)
qed (simp add: empty_page_def)

text \<open>Tables on pages that were in use, when these read as before and no more pages are reserved for indexes.\<close>

lemma plain_table_kept:
  assumes "plain_table s ti pids" and "scan_table ti s = Inr rows" and "map_of (x_data_pages t) (ti_name ti) = Some pids"
    and "\<And>q. pages_in_use (x_pager s) q \<noteq> None \<Longrightarrow> exec_read_page q t = exec_read_page q s \<and> pages_in_use (x_pager t) q \<noteq> None"
    and "set (index_pages t) \<subseteq> set (index_pages s)"
  shows "plain_table t ti pids \<and> scan_table ti t = Inr rows"
proof -
  have use: "pages_in_use (x_pager s) q \<noteq> None" and each: "\<exists>p. plain_at s q p" if "q \<in> set pids" for q
    using assms(1) that by (auto simp: plain_table_def)
  have at: "plain_at t q p" if "q \<in> set pids" "plain_at s q p" for q p
    using that(2) assms(4) [OF use [OF that(1)]] assms(5) by (auto simp: plain_at_def)
  have tab: "plain_table t ti pids"
    using assms(1,3) use each at assms(4) unfolding plain_table_def by blast
  have "mapE (scan_page ti t) pids = mapE (scan_page ti s) pids"
  proof (rule mapE_cong [OF refl])
    fix q assume q: "q \<in> set pids"
    then show "scan_page ti t q = scan_page ti s q" using each at scan_plain_page by metis
  qed
  moreover have "map_of (x_data_pages s) (ti_name ti) = Some pids" using assms(1) by (simp add: plain_table_def)
  ultimately show ?thesis using tab assms(2,3) by (simp add: scan_table_pages)
qed

text \<open>
  C10. After CREATE TABLE the table is in the catalog with the columns of the statement, on one
  page that was not in use, and a scan of it finds nothing. Every other table keeps its entry, and
  every other table without long rows its pages and its rows. It is assumed that no tree with a root is
  left under the name, and that the next page to allocate is not reserved for an index.
\<close>

theorem create_table_empty:
  assumes "exec_create_table stmt s = (Inr out, t)" and "x_txn s \<noteq> None" and "pager_inv (x_pager s)" and "has_room (x_pager t)"
    and "next_alloc (x_pager s) \<notin> set (index_pages s)" and "no_roots (ct_name stmt) s"
  shows "(\<exists>ti pid. need_table (ct_name stmt) t = Inr ti \<and> ti_columns ti = map column_of (ct_columns stmt) \<and>
      plain_table t ti [pid] \<and> scan_table ti t = Inr [] \<and> pages_in_use (x_pager s) pid = None) \<and>
    (\<forall>n. n \<noteq> ct_name stmt \<longrightarrow> need_table n t = need_table n s) \<and>
    (\<forall>ti pids rows. ti_name ti \<noteq> ct_name stmt \<and> plain_table s ti pids \<and> scan_table ti s = Inr rows \<longrightarrow>
       plain_table t ti pids \<and> scan_table ti t = Inr rows)"
proof -
  let ?n = "ct_name stmt"
  define cols where "cols = map column_of (ct_columns stmt)"
  obtain pid s1 where a: "on_exec_pager alloc_page s = (Inr pid, s1)"
    and rest: "(bindS (store_page pid (empty_page pid)) (\<lambda>_.
       bindS (catalog_add ?n cols pid) (\<lambda>_.
       bindS (modifyS (\<lambda>s. s\<lparr>x_data_pages := AList.update ?n [pid] (x_data_pages s)\<rparr>)) (\<lambda>_.
       bindS (readS (need_table ?n)) (\<lambda>ti.
       bindS (rebuild_for_table ti) (\<lambda>_.
       bindS (install_index_pagers ?n) (\<lambda>_.
       bindS write_catalog (\<lambda>_. returnS (Lists []))))))))) s1 = (Inr out, t)"
    using assms(1) by (auto simp: exec_create_table_def bindS_eq_Inr cols_def split: if_splits)
  obtain q where q: "alloc_page (x_pager s) = (Inr pid, q)" "s1 = s\<lparr>x_pager := q\<rparr>"
    using a by (auto simp: on_exec_pager_def split: prod.splits)
  define ti where "ti = \<lparr>ti_columns = cols, ti_root = pid, ti_next = pid, ti_name = ?n\<rparr>"
  obtain b s2 where w1: "to_bytes (empty_page pid) = Inr b" "exec_write_page pid b s1 = (Inr (), s2)"
    and rest2: "(bindS (catalog_add ?n cols pid) (\<lambda>_.
       bindS (modifyS (\<lambda>s. s\<lparr>x_data_pages := AList.update ?n [pid] (x_data_pages s)\<rparr>)) (\<lambda>_.
       bindS (readS (need_table ?n)) (\<lambda>ti.
       bindS (rebuild_for_table ti) (\<lambda>_.
       bindS (install_index_pagers ?n) (\<lambda>_.
       bindS write_catalog (\<lambda>_. returnS (Lists [])))))))) s2 = (Inr out, t)"
    using rest by (auto simp: store_page_def liftE_def bindS_eq_Inr)
  define s4 where "s4 = s2\<lparr>x_catalog := AList.update ?n ti (x_catalog s2), x_data_pages := AList.update ?n [pid] (x_data_pages s2)\<rparr>"
  have need: "need_table ?n s4 = Inr ti" by (simp add: need_table_def catalog_get_table_def s4_def)
  obtain s5 where r5: "rebuild_for_table ti s4 = (Inr (), s5)"
    and rest3: "(bindS (install_index_pagers ?n) (\<lambda>_. bindS write_catalog (\<lambda>_. returnS (Lists [])))) s5 = (Inr out, t)"
    using rest2 need by (auto simp: catalog_add_def catalog_create_table_def readS_def bindS_eq_Inr s4_def ti_def
        split: if_splits sum.splits)
  define s6 where "s6 = snd (install_index_pagers ?n s5)"
  obtain d where w2: "exec_write_page 1 d s6 = (Inr (), t)"
    using rest3 by (auto simp: s6_def write_catalog_def liftE_def bindS_eq_Inr)
  have st1: "same_tables s1 s2" by (rule write_tables [OF w1(2)])
  have "x_txn s1 \<noteq> None" using assms(2) q(2) by simp
  note v1 = write_in_view [OF this w1(2)]
  have nr: "no_roots ?n s4" using assms(6) st1 by (simp add: no_roots_def s4_def same_tables_def q(2))
  have k5: "same_but_indexes ?n s4 s5" by (rule keepsD [OF rebuild_indexes r5])
  then have k6: "same_but_indexes ?n s4 s6"
    using install_indexes [of ?n s5] nr indexes.trans by (auto simp: s6_def same_but_indexes_def)
  have "x_txn s6 \<noteq> None" using k6 v1(1) by (simp add: same_but_indexes_def s4_def)
  note v2 = write_in_view [OF this w2]
  have st2: "same_tables s6 t" by (rule write_tables [OF w2])
  have "next_page_id (x_pager t) = next_page_id q"
    using only_log_use(3) [OF v1(4)] only_log_use(3) [OF v2(4)] k6 q(2) by (simp add: same_but_indexes_def s4_def)
  then have room: "has_room (x_pager s)"
    using keepsD [OF grows_pages(1) q(1)] assms(4) by (simp add: next_grows_def has_room_def)
  obtain i where "Inr pid = (Inr i :: int res)" and invq: "pager_inv q" and "pages_in_use (x_pager s) i = None"
    and "pages_in_use q = (pages_in_use (x_pager s))(i \<mapsto> zero_page)"
    by (rule alloc_use [OF assms(3) room q(1)])
  then have new: "pages_in_use (x_pager s) pid = None" and useq: "pages_in_use q = (pages_in_use (x_pager s))(pid \<mapsto> zero_page)"
    by simp_all
  have first: "pid = next_alloc (x_pager s)" using alloc_next [OF assms(3) room] q(1) by (metis Inr_inject prod.inject)
  have "pages_in_use q pid \<noteq> None" by (simp add: useq)
  then have pid: "2 \<le> pid" by (auto simp: pages_in_use_def split: if_splits)
  have use: "pages_in_use (x_pager t) = pages_in_use q"
    using only_log_use(1) [OF v1(4)] only_log_use(1) [OF v2(4)] k6 q(2) by (simp add: same_but_indexes_def s4_def)
  have rd: "exec_read_page r t = exec_read_page r s2" if "r \<noteq> 1" for r
    using v2(2) [of r] that exec_read_same [of s6 s2 r] k6 by (simp add: same_but_indexes_def s4_def)
  have keep: "exec_read_page r t = exec_read_page r s \<and> pages_in_use (x_pager t) r \<noteq> None" if "pages_in_use (x_pager s) r \<noteq> None" for r
  proof -
    have r: "r \<noteq> pid" "r \<noteq> 1" using that new by (auto simp: pages_in_use_def split: if_splits)
    then have "exec_read_page r t = exec_read_page r s1" using rd v1(2) [of r] by simp
    also have "\<dots> = exec_read_page r s"
      using read_alloc [OF assms(3) invq, of r] useq that r(1) by (simp add: exec_read_page_def q(2) split: option.split)
    finally show ?thesis using that r(1) by (simp add: use useq)
  qed
  have "index_pages s4 = index_pages s" using st1 by (simp add: same_tables_def index_pages_def s4_def q(2))
  then have ix: "set (index_pages t) \<subseteq> set (index_pages s)"
    using same_tables_pages [OF st2] k6 by (simp add: same_but_indexes_def)
  have dp: "map_of (x_data_pages t) = (map_of (x_data_pages s))(?n \<mapsto> [pid])"
    using st1 st2 k6 by (simp add: same_tables_def same_but_indexes_def s4_def q(2) update_conv')
  have cat: "x_catalog t = AList.update ?n ti (x_catalog s)"
    using st1 st2 k6 by (simp add: same_tables_def same_but_indexes_def s4_def q(2))
  have "b = page_image (empty_page pid)" using w1(1) to_bytes_image empty_page_plain(1) [of pid] by (simp add: plain_page_def)
  then have "from_bytes pid b = Inr (empty_page pid)"
    using from_bytes_image [of "empty_page pid"] empty_page_plain(1,2) [of pid] by (simp add: plain_page_def)
  then have at: "plain_at t pid (empty_page pid)"
    using rd [of pid] v1(2) [of pid] pid ix assms(5) empty_page_plain(1) by (auto simp: plain_at_def first)
  have "plain_table t ti [pid]" using dp at by (auto simp: plain_table_def ti_def use useq)
  moreover have "scan_table ti t = Inr []"
    using scan_plain_page [OF at, of ti] dp by (simp add: scan_table_def table_pages_def ti_def empty_page_plain(3))
  moreover have "need_table ?n t = Inr ti" by (simp add: need_table_def catalog_get_table_def cat)
  moreover have "ti_columns ti = map column_of (ct_columns stmt)" by (simp add: ti_def cols_def)
  moreover have "need_table n t = need_table n s" if "n \<noteq> ?n" for n
    using that by (simp add: need_table_def catalog_get_table_def cat update_conv')
  moreover have "plain_table t ti' pids \<and> scan_table ti' t = Inr rows"
    if "ti_name ti' \<noteq> ?n" "plain_table s ti' pids" "scan_table ti' s = Inr rows" for ti' pids rows
    by (rule plain_table_kept [OF that(2,3) _ keep ix]) (use that dp in \<open>simp add: plain_table_def\<close>)
  ultimately show ?thesis using new by blast
qed

end
