(* ===== verification/Update_Scan.thy ===== *)
theory Update_Scan
  imports Delete_Scan
begin

text \<open>
  UPDATE against the scan: in a table without long rows and without indexed columns, when
  the new rows fit where the old ones were, it replaces exactly the rows that match.
\<close>

section \<open>New rows\<close>

definition set_row :: "table_info \<Rightarrow> (pystr \<times> expr) list \<Rightarrow> pyval list \<Rightarrow> pyval list" where
  "set_row ti sets vals = apply_sets (schema_name_index (schema_v2 ti)) sets vals"

definition stored_row :: "table_info \<Rightarrow> pyval list \<Rightarrow> pyval list" where
  "stored_row ti vals = map2 stored_col vals (schema_v2 ti)"

definition set_bytes :: "table_info \<Rightarrow> (pystr \<times> expr) list \<Rightarrow> pyval list \<Rightarrow> byte list" where
  "set_bytes ti sets vals = (case encode_row (set_row ti sets vals) (schema_v2 ti) of Inl e \<Rightarrow> [] | Inr b \<Rightarrow> b)"

text \<open>The new rows of a page fit their old slots, and the free space holds all of them.\<close>

definition fits_slot :: "table_info \<Rightarrow> (pystr \<times> expr) list \<Rightarrow> slotted_page \<Rightarrow> int \<times> pyval list \<Rightarrow> bool" where
  "fits_slot ti sets p m \<longleftrightarrow>
     list_all2 readable_col (set_row ti sets (snd m)) (schema_v2 ti) \<and>
     encode_row (set_row ti sets (snd m)) (schema_v2 ti) = Inr (set_bytes ti sets (snd m)) \<and>
     (case page_rows p (fst m) of None \<Rightarrow> False | Some old \<Rightarrow> py_len (set_bytes ti sets (snd m)) \<le> py_len old)"

definition in_place :: "table_info \<Rightarrow> (pystr \<times> expr) list \<Rightarrow> slotted_page \<Rightarrow> (int \<times> pyval list) list \<Rightarrow> bool" where
  "in_place ti sets p ms \<longleftrightarrow>
     list_all (fits_slot ti sets p) ms \<and> sum_list (map (\<lambda>m. py_len (set_bytes ti sets (snd m))) ms) \<le> free_space p"

section \<open>One slot\<close>

lemma slice_inside: "0 \<le> a \<Longrightarrow> 0 \<le> l \<Longrightarrow> a + l \<le> py_len d \<Longrightarrow> py_len (slice d a (a + l)) = l"
  by (simp add: slice_nonneg nat_add_distrib min_def) linarith

lemma slot_of_row:
  assumes "page_ok p" and "page_rows p sid = Some old"
  obtains slot where "get_item (slots p) sid = Inr slot" and "\<not> tombstoned slot" and "s_length slot = py_len old"
    and "0 \<le> sid" and "sid < num_slots p"
proof -
  have n: "num_slots p = int (length (slots p))" using assms(1) by (simp add: page_ok_def)
  have r: "0 \<le> sid" "sid < num_slots p" "slot_row (data p) (slots p ! nat sid) = Some old"
    using assms(2) by (auto simp: page_rows_ok [OF assms(1)] split: if_splits)
  have "slot_ok (int (length (data p))) (slots p ! nat sid)" using assms(1) r(1,2) n by (simp add: page_ok_def list_all_length)
  moreover have live: "\<not> tombstoned (slots p ! nat sid)"
    and old: "old = slice (data p) (slot.s_offset (slots p ! nat sid)) (slot.s_offset (slots p ! nat sid) + s_length (slots p ! nat sid))"
    using r(3) by (auto simp: slot_row_def split: if_splits)
  ultimately have "s_length (slots p ! nat sid) = py_len old"
    unfolding old by (subst slice_inside) (auto simp: slot_ok_def)
  then show ?thesis using that [of "slots p ! nat sid"] live r(1,2) n by (simp add: get_item_nonneg)
qed

lemma update_plain:
  assumes "plain_page p" and "page_rows p sid = Some old" and "py_len row \<le> py_len old" and "py_len row \<le> free_space p"
  shows "\<exists>p'. update_row p sid row = Inr p' \<and> plain_page p' \<and> page_id p' = page_id p \<and> num_slots p' = num_slots p \<and>
    free_space p' = free_space p - py_len row \<and> page_rows p' = (page_rows p)(sid \<mapsto> row)"
proof -
  have p: "page_wf p" "page_ok p" "list_all (\<lambda>s. \<not> spilled s) (slots p)" using assms(1) by (simp_all add: plain_page_def)
  obtain slot where slot: "get_item (slots p) sid = Inr slot" "\<not> tombstoned slot" "s_length slot = py_len old" "0 \<le> sid" "sid < num_slots p"
    by (rule slot_of_row [OF p(2) assms(2)])
  define p' where "p' = p\<lparr>data := data p @ row, data_offset := data_offset p - py_len row,
      slots := (slots p)[nat sid := tail_slot (data p) row]\<rparr>"
  have up: "update_row p sid row = Inr p'"
    using slot assms(3) by (simp add: update_row_def append_into_data_simps p'_def)
  have "slot_fits (tail_slot (data p) row)" "\<not> spilled (tail_slot (data p) row)"
    using assms(4) page_wf_simps [OF p(1)] by (auto simp: tail_slot_def slot_fits_def spilled_def free_space_def)
  then have "page_wf p'" "list_all (\<lambda>s. \<not> spilled s) (slots p')" "free_space p' = free_space p - py_len row"
    using p(1,3) assms(4) by (simp_all add: p'_def page_wf_def free_space_def list_all_update Let_def)
  then show ?thesis using up update_row_refines [OF p(2) up] by (simp add: plain_page_def) (simp add: p'_def)
qed

text \<open>All matching rows of one page.\<close>

lemma apply_in_place:
  assumes "plain_page p" and "in_place ti sets p ms" and "distinct (map fst ms)" and "indexed_columns ti = []"
  shows "\<exists>p'. apply_page_updates ti pid (schema_name_index (schema_v2 ti)) sets p ms s = (Inr (p', []), s) \<and>
    plain_page p' \<and> page_id p' = page_id p \<and> num_slots p' = num_slots p \<and>
    page_rows p' = (\<lambda>sid. case map_of ms sid of None \<Rightarrow> page_rows p sid | Some vals \<Rightarrow> Some (set_bytes ti sets vals))"
  using assms
proof (induction ms arbitrary: p)
  case Nil
  then show ?case by simp
next
  case (Cons m ms)
  obtain sid vals where m: "m = (sid, vals)" by force
  let ?b = "set_bytes ti sets vals"
  obtain old where f: "encode_row (set_row ti sets vals) (schema_v2 ti) = Inr ?b" "page_rows p sid = Some old" "py_len ?b \<le> py_len old"
    using Cons.prems(2) by (auto simp: in_place_def fits_slot_def m split: option.splits)
  have sum: "py_len ?b + sum_list (map (\<lambda>m. py_len (set_bytes ti sets (snd m))) ms) \<le> free_space p"
    using Cons.prems(2) by (simp add: in_place_def m)
  have "0 \<le> sum_list (map (\<lambda>m. py_len (set_bytes ti sets (snd m))) ms)" by (rule sum_list_nonneg) auto
  then obtain p1 where p1: "update_row p sid ?b = Inr p1" "plain_page p1" "page_id p1 = page_id p" "num_slots p1 = num_slots p"
    "free_space p1 = free_space p - py_len ?b" "page_rows p1 = (page_rows p)(sid \<mapsto> ?b)"
    using update_plain [OF Cons.prems(1) f(2,3)] sum by auto
  obtain slot where slot: "get_item (slots p) sid = Inr slot" "s_length slot = py_len old"
    using slot_of_row [OF _ f(2)] Cons.prems(1) by (auto simp: plain_page_def)
  have one: "update_in_page ti pid (schema_name_index (schema_v2 ti)) sets p m s = (Inr (p1, []), s)"
    using f p1(1) slot Cons.prems(4)
    by (simp add: update_in_page_def m set_row_def [symmetric] Let_def bindS_def unless_full_def catchS_def update_index_for_row_def)
  have other: "fst m' \<noteq> sid" if "m' \<in> set ms" for m' using Cons.prems(3) that by (auto simp: m)
  have "list_all (fits_slot ti sets p) ms" using Cons.prems(2) by (simp add: in_place_def)
  then have "list_all (fits_slot ti sets p1) ms" using other by (auto simp: list_all_iff fits_slot_def p1(6))
  then have "in_place ti sets p1 ms" using sum by (simp add: in_place_def p1(5))
  from Cons.IH [OF p1(2) this _ Cons.prems(4)] Cons.prems(3) obtain p' where
    p': "apply_page_updates ti pid (schema_name_index (schema_v2 ti)) sets p1 ms s = (Inr (p', []), s)" "plain_page p'"
      "page_id p' = page_id p1" "num_slots p' = num_slots p1"
      "page_rows p' = (\<lambda>sid. case map_of ms sid of None \<Rightarrow> page_rows p1 sid | Some vals \<Rightarrow> Some (set_bytes ti sets vals))" by auto
  have "map_of ms sid = None" using Cons.prems(3) by (simp add: m map_of_eq_None_iff)
  then have "page_rows p' = (\<lambda>j. case map_of (m # ms) j of None \<Rightarrow> page_rows p j | Some vals \<Rightarrow> Some (set_bytes ti sets vals))"
    by (auto simp: p'(5) p1(6) m fun_eq_iff split: option.splits)
  then show ?case using one p' p1(3,4) by (simp add: bindS_def)
qed

section \<open>The scan of the page\<close>

lemma slot_hits_map:
  assumes "mapE (slot_hit ti pid p) sids = Inr parts"
    and "\<And>sid part. sid \<in> set sids \<Longrightarrow> slot_hit ti pid p sid = Inr part \<Longrightarrow> slot_hit ti pid p' sid = Inr (map f part)"
  shows "mapE (slot_hit ti pid p') sids = Inr (map (map f) parts)"
  using assms
proof (induction sids arbitrary: parts)
  case (Cons sid sids)
  then obtain part parts' where "slot_hit ti pid p sid = Inr part" "mapE (slot_hit ti pid p) sids = Inr parts'" "parts = part # parts'"
    by auto
  then show ?case using Cons.IH [of parts'] Cons.prems(2) by simp
qed simp

text \<open>A scanned row after the update of some rows.\<close>

definition set_if :: "table_info \<Rightarrow> (pystr \<times> expr) list \<Rightarrow> (scan_row \<Rightarrow> bool) \<Rightarrow> scan_row \<Rightarrow> scan_row" where
  "set_if ti sets hit r = (if hit r then (fst r, stored_row ti (set_row ti sets (row_vals r)), snd (snd r)) else r)"

lemma page_scan_update:
  assumes "page_scan ti pid p = Inr xs" and "in_place ti sets p ms" and "\<forall>m \<in> set ms. (fst m, snd m, pid) \<in> set xs"
    and "num_slots p' = num_slots p" and "distinct (map fst ms)"
    and "page_rows p' = (\<lambda>sid. case map_of ms sid of None \<Rightarrow> page_rows p sid | Some vals \<Rightarrow> Some (set_bytes ti sets vals))"
  shows "page_scan ti pid p' = Inr (map (set_if ti sets (\<lambda>r. fst r \<in> fst ` set ms)) xs)"
proof -
  obtain parts where parts: "mapE (slot_hit ti pid p) (range_int (num_slots p)) = Inr parts" "xs = concat parts"
    using assms(1) by (auto simp: page_scan_def)
  have "slot_hit ti pid p' sid = Inr (map (set_if ti sets (\<lambda>r. fst r \<in> fst ` set ms)) part)"
    if sid: "sid \<in> set (range_int (num_slots p))" and part: "slot_hit ti pid p sid = Inr part" for sid part
  proof (cases "map_of ms sid")
    case None
    then have "sid \<notin> fst ` set ms" by (simp add: map_of_eq_None_iff)
    moreover from this have "map (set_if ti sets (\<lambda>r. fst r \<in> fst ` set ms)) part = part"
      using slot_hit_ref [OF part] by (intro map_idI) (auto simp: set_if_def)
    ultimately show ?thesis using part None by (simp add: slot_hit_def assms(6))
  next
    case (Some vals)
    then have m: "(sid, vals) \<in> set ms" by (rule map_of_SomeD)
    obtain k where k: "k < length (range_int (num_slots p))" "range_int (num_slots p) ! k = sid"
      using sid by (auto simp: in_set_conv_nth)
    have "(sid, vals, pid) \<in> set xs" using assms(3) m by auto
    then obtain part' where part': "part' \<in> set parts" "(sid, vals, pid) \<in> set part'" using parts(2) by auto
    then obtain j where j: "j < length parts" "parts ! j = part'" by (auto simp: in_set_conv_nth)
    then have h: "slot_hit ti pid p (range_int (num_slots p) ! j) = Inr part'" "j < length (range_int (num_slots p))"
      using mapE_Inr_nth [OF parts(1), of j] mapE_Inr_length [OF parts(1)] by auto
    then have "range_int (num_slots p) ! j = sid" using slot_hit_ref [OF h(1) part'(2)] by simp
    then have "part' = part" using h(1) part by simp
    then have one: "part = [(sid, vals, pid)]" using part'(2) slot_hit_one [OF part] by (cases part) auto
    have fit: "fits_slot ti sets p (sid, vals)" using assms(2) m by (auto simp: in_place_def list_all_iff)
    then have "decode_row (set_bytes ti sets vals) (schema_v2 ti) = Inr (stored_row ti (set_row ti sets vals))"
      using decode_encode_row by (auto simp: fits_slot_def stored_row_def)
    then have "slot_hit ti pid p' sid = Inr [(sid, stored_row ti (set_row ti sets vals), pid)]"
      using Some by (simp add: slot_hit_def assms(6))
    moreover have "sid \<in> fst ` set ms" using m by force
    ultimately show ?thesis by (simp add: one set_if_def row_vals_def)
  qed
  then have "mapE (slot_hit ti pid p') (range_int (num_slots p)) = Inr (map (map (set_if ti sets (\<lambda>r. fst r \<in> fst ` set ms))) parts)"
    by (intro slot_hits_map [OF parts(1)])
  then show ?thesis by (simp add: page_scan_def assms(4) parts(2) map_concat)
qed

section \<open>Grouping by page\<close>

definition rows_of_page :: "int \<Rightarrow> scan_row list \<Rightarrow> (int \<times> pyval list) list" where
  "rows_of_page pid ms = map (\<lambda>r. (fst r, row_vals r)) (filter (\<lambda>r. snd (snd r) = pid) ms)"

lemma group_matches:
  "distinct (map fst (group_matches_by_page ms)) \<and>
   map_of (group_matches_by_page ms) pid = (if rows_of_page pid ms = [] then None else Some (rows_of_page pid ms))"
proof (induction ms rule: rev_induct)
  case Nil
  show ?case by (simp add: group_matches_by_page_def rows_of_page_def)
next
  case (snoc m ms)
  obtain sid vals q where m: "m = (sid, vals, q)" by (metis prod.collapse)
  have "group_matches_by_page (ms @ [m]) = AList.update q ((case map_of (group_matches_by_page ms) q of None \<Rightarrow> [] | Some l \<Rightarrow> l) @ [(sid, vals)])
      (group_matches_by_page ms)"
    by (simp add: group_matches_by_page_def m)
  moreover have "rows_of_page pid (ms @ [m]) = rows_of_page pid ms @ (if q = pid then [(sid, vals)] else [])"
    by (simp add: rows_of_page_def m row_vals_def)
  ultimately show ?case using snoc by (auto simp: update_conv' distinct_update)
qed

section \<open>The pages of the table\<close>

lemma map_set_if_cong: "(\<And>r. r \<in> set xs \<Longrightarrow> hit r = hit' r) \<Longrightarrow> map (set_if ti sets hit) xs = map (set_if ti sets hit') xs"
  by (simp add: set_if_def)

lemma map_set_if_none: "(\<And>r. r \<in> set xs \<Longrightarrow> \<not> hit r) \<Longrightarrow> map (set_if ti sets hit) xs = xs"
  by (simp add: set_if_def map_idI)

text \<open>The rows of one page.\<close>

lemma update_page_scan:
  assumes "update_page ti (schema_name_index (schema_v2 ti)) sets (pid, ms) s = (Inr (), t)"
    and "plain_table s ti pids" and "scan_table ti s = Inr rows" and "pid \<in> set pids" and "plain_at s pid p"
    and "in_place ti sets p ms" and "\<forall>m \<in> set ms. (fst m, snd m, pid) \<in> set rows" and "distinct (map fst ms)"
    and "indexed_columns ti = []" and "x_txn s \<noteq> None"
  shows "scan_table ti t = Inr (map (set_if ti sets (\<lambda>r. snd (snd r) = pid \<and> fst r \<in> fst ` set ms)) rows) \<and> plain_table t ti pids \<and>
    x_txn t \<noteq> None \<and> (\<forall>q pq. plain_at s q pq \<longrightarrow> q \<noteq> pid \<longrightarrow> plain_at t q pq)"
proof -
  have pl: "plain_page p" "page_id p = pid" using assms(5) from_bytes_id by (auto simp: plain_at_def)
  obtain p' where p': "apply_page_updates ti pid (schema_name_index (schema_v2 ti)) sets p ms s = (Inr (p', []), s)" "plain_page p'"
    "page_id p' = page_id p" "num_slots p' = num_slots p"
    "page_rows p' = (\<lambda>sid. case map_of ms sid of None \<Rightarrow> page_rows p sid | Some vals \<Rightarrow> Some (set_bytes ti sets vals))"
    using apply_in_place [OF pl(1) assms(6,8,9)] by blast
  obtain b where b: "to_bytes p' = Inr b" "exec_write_page pid b s = (Inr (), t)"
    using assms(1,5) p'(1) by (auto simp: update_page_def load_page_def store_page_def read_pageS_def liftE_def bindS_eq_Inr plain_at_def bindS_Inr)
  obtain xs where xs: "page_scan ti pid p = Inr xs" "\<forall>r \<in> set rows. snd (snd r) = pid \<longrightarrow> r \<in> set xs"
    using page_scanned [OF assms(2-5)] by blast
  define ys where "ys = map (set_if ti sets (\<lambda>r. fst r \<in> fst ` set ms)) xs"
  have "\<forall>m \<in> set ms. (fst m, snd m, pid) \<in> set xs" using xs(2) assms(7) by force
  then have ys: "page_scan ti pid p' = Inr ys"
    unfolding ys_def by (rule page_scan_update [OF xs(1) assms(6) _ p'(4) assms(8) p'(5)])
  obtain pre xs' post where r: "page_scan ti pid p = Inr xs'" "rows = pre @ xs' @ post" "scan_table ti t = Inr (pre @ ys @ post)"
    "\<forall>r \<in> set (pre @ post). snd (snd r) \<noteq> pid" "plain_table t ti pids" "x_txn t \<noteq> None"
    "\<And>q pq. plain_at s q pq \<Longrightarrow> q \<noteq> pid \<Longrightarrow> plain_at t q pq"
    by (rule page_rewritten [OF assms(2-5) p'(2) _ b assms(10) ys]) (simp_all add: p'(3) pl(2))
  let ?hit = "\<lambda>r. snd (snd r) = pid \<and> fst r \<in> fst ` set ms"
  have "map (set_if ti sets ?hit) xs = ys"
    unfolding ys_def using page_scan_refs(2) [OF xs(1)] by (intro map_set_if_cong) auto
  moreover have "map (set_if ti sets ?hit) pre = pre" "map (set_if ti sets ?hit) post = post"
    using r(4) by (auto intro!: map_set_if_none)
  ultimately have "map (set_if ti sets ?hit) rows = pre @ ys @ post" using r(1,2) xs(1) by simp
  then show ?thesis using r by auto
qed

definition in_group :: "(int \<times> (int \<times> pyval list) list) list \<Rightarrow> scan_row \<Rightarrow> bool" where
  "in_group gs r \<longleftrightarrow> (\<exists>(pid, ms) \<in> set gs. snd (snd r) = pid \<and> fst r \<in> fst ` set ms)"

definition group_ok :: "exec \<Rightarrow> table_info \<Rightarrow> (pystr \<times> expr) list \<Rightarrow> int list \<Rightarrow> scan_row list \<Rightarrow> int \<times> (int \<times> pyval list) list \<Rightarrow> bool" where
  "group_ok s ti sets pids rows g \<longleftrightarrow>
     fst g \<in> set pids \<and> (\<exists>p. plain_at s (fst g) p \<and> in_place ti sets p (snd g)) \<and>
     (\<forall>m \<in> set (snd g). (fst m, snd m, fst g) \<in> set rows) \<and> distinct (map fst (snd g))"

lemma set_if_compose:
  assumes "\<And>r. r \<in> set rows \<Longrightarrow> hit r \<Longrightarrow> \<not> hit' r" and "\<And>r v. hit' (fst r, v, snd (snd r)) = hit' r"
  shows "map (set_if ti sets hit') (map (set_if ti sets hit) rows) = map (set_if ti sets (\<lambda>r. hit r \<or> hit' r)) rows"
proof -
  have "set_if ti sets hit' (set_if ti sets hit r) = set_if ti sets (\<lambda>r. hit r \<or> hit' r) r" if "r \<in> set rows" for r
  proof (cases "hit r")
    case True
    then show ?thesis using assms(1) [OF that] assms(2) [of r] by (simp add: set_if_def)
  qed (simp add: set_if_def)
  then show ?thesis by simp
qed

lemma update_groups_scan:
  assumes "forS gs (update_page ti (schema_name_index (schema_v2 ti)) sets) s = (Inr (), t)"
    and "plain_table s ti pids" and "scan_table ti s = Inr rows" and "list_all (group_ok s ti sets pids rows) gs"
    and "distinct (map fst gs)" and "indexed_columns ti = []" and "x_txn s \<noteq> None"
  shows "scan_table ti t = Inr (map (set_if ti sets (in_group gs)) rows) \<and> plain_table t ti pids"
  using assms
proof (induction gs arbitrary: s rows)
  case Nil
  have "map (set_if ti sets (in_group [])) rows = rows" by (rule map_set_if_none) (simp add: in_group_def)
  then show ?case using Nil by simp
next
  case (Cons g gs)
  obtain pid ms where g: "g = (pid, ms)" by force
  obtain s1 where one: "update_page ti (schema_name_index (schema_v2 ti)) sets (pid, ms) s = (Inr (), s1)"
    and rest: "forS gs (update_page ti (schema_name_index (schema_v2 ti)) sets) s1 = (Inr (), t)"
    using Cons.prems(1) by (auto simp: bindS_eq_Inr g)
  obtain p where ok: "pid \<in> set pids" "plain_at s pid p" "in_place ti sets p ms" "\<forall>m \<in> set ms. (fst m, snd m, pid) \<in> set rows"
    "distinct (map fst ms)" using Cons.prems(4) by (auto simp: group_ok_def g)
  let ?hit = "\<lambda>r. snd (snd r) = pid \<and> fst r \<in> fst ` set ms" and ?rows = "map (set_if ti sets (\<lambda>r. snd (snd r) = pid \<and> fst r \<in> fst ` set ms)) rows"
  note u = update_page_scan [OF one Cons.prems(2,3) ok Cons.prems(6,7)]
  have "group_ok s1 ti sets pids ?rows g'" if "g' \<in> set gs" for g'
  proof -
    have ne: "fst g' \<noteq> pid" using Cons.prems(5) that by (auto simp: g)
    have o: "group_ok s ti sets pids rows g'" using Cons.prems(4) that by (simp add: list_all_iff)
    have "(fst m, snd m, fst g') \<in> set ?rows" if "m \<in> set (snd g')" for m
    proof -
      have "(fst m, snd m, fst g') \<in> set rows" using o that by (simp add: group_ok_def)
      moreover have "set_if ti sets ?hit (fst m, snd m, fst g') = (fst m, snd m, fst g')" using ne by (simp add: set_if_def)
      ultimately have "(fst m, snd m, fst g') \<in> set_if ti sets ?hit ` set rows" by (intro image_eqI [where x = "(fst m, snd m, fst g')"]) simp_all
      then show ?thesis by simp
    qed
    moreover have "\<exists>p. plain_at s1 (fst g') p \<and> in_place ti sets p (snd g')" using o u ne unfolding group_ok_def by blast
    ultimately show ?thesis using o by (simp add: group_ok_def)
  qed
  then have "list_all (group_ok s1 ti sets pids ?rows) gs" by (simp add: list_all_iff)
  from Cons.IH [OF rest _ _ this] u Cons.prems(5,6)
  have "scan_table ti t = Inr (map (set_if ti sets (in_group gs)) ?rows) \<and> plain_table t ti pids" by simp
  moreover have "map (set_if ti sets (in_group gs)) ?rows = map (set_if ti sets (\<lambda>r. ?hit r \<or> in_group gs r)) rows"
  proof (rule set_if_compose)
    show "\<not> in_group gs r" if "?hit r" for r using that Cons.prems(5) by (force simp: in_group_def g)
  qed (simp add: in_group_def)
  moreover have "(\<lambda>r. ?hit r \<or> in_group gs r) = in_group (g # gs)" by (auto simp: in_group_def g fun_eq_iff)
  ultimately show ?case by simp
qed

text \<open>
  C9. UPDATE replaces exactly the rows for which its condition holds, each by itself with the
  assignments of SET made and every value as the codec of its column stores it, in the same
  slot; the other rows stay. The table has no indexed column and no long row, the new rows of a page
  fit their slots, and its free space holds all of them (a row is rewritten behind the old data
  even when it is no longer).
\<close>

theorem update_sets_matching:
  assumes "exec_update stmt s = (Inr out, t)" and "need_table (u_table stmt) s = Inr ti" and "indexed_columns ti = []"
    and "plain_table s ti pids" and "scan_table ti s = Inr rows" and "x_txn s \<noteq> None"
    and "hit = (\<lambda>r. where_matches (u_where stmt) (schema_v2 ti) r = Inr True)"
    and "\<forall>pid \<in> set pids. \<forall>p. plain_at s pid p \<longrightarrow> in_place ti (u_sets stmt) p (rows_of_page pid (filter hit rows))"
  shows "scan_table ti t = Inr (map (set_if ti (u_sets stmt) hit) rows) \<and> plain_table t ti pids"
proof -
  obtain idx ds where v: "validate_update_sets stmt (schema_v2 ti) = Inr idx"
    and m: "filterE (where_matches (u_where stmt) (schema_v2 ti)) rows = Inr ds"
    and up: "forS (group_matches_by_page ds) (update_page ti idx (u_sets stmt)) s = (Inr (), t)"
    using assms(1,2,5) by (auto simp: exec_update_def matching_rows_def readS_def liftE_def bindS_eq_Inr)
  have idx: "idx = schema_name_index (schema_v2 ti)" using v by (auto simp: validate_update_sets_def bindE_eq_Inr)
  have ds: "ds = filter hit rows" using filterE_result [OF m] by (simp add: assms(7))
  let ?gs = "group_matches_by_page ds"
  have gs: "distinct (map fst ?gs)" using group_matches by blast
  have grp: "ms = rows_of_page pid ds \<and> ms \<noteq> []" if "(pid, ms) \<in> set ?gs" for pid ms
  proof -
    have "map_of ?gs pid = Some ms" by (rule map_of_is_SomeI [OF gs that])
    then show ?thesis using group_matches [of ds pid] by (simp split: if_splits)
  qed
  have refs: "inj_on row_ref (set rows)" "distinct rows"
    using scan_refs_distinct [OF assms(4,5)] by (simp_all add: distinct_map)
  have "group_ok s ti (u_sets stmt) pids rows g" if "g \<in> set ?gs" for g
  proof -
    obtain pid ms where g: "g = (pid, ms)" by force
    then have ms: "ms = rows_of_page pid (filter hit rows)" "ms \<noteq> []" using grp that ds by simp_all
    then obtain r where "r \<in> set rows" "snd (snd r) = pid" by (auto simp: rows_of_page_def filter_empty_conv)
    then have pid: "pid \<in> set pids" using scan_row_page [OF assms(4,5)] by blast
    then obtain p where p: "plain_at s pid p" using assms(4) by (auto simp: plain_table_def)
    have "inj_on fst (set (filter (\<lambda>r. snd (snd r) = pid) (filter hit rows)))"
      using refs(1) by (auto simp: inj_on_def row_ref_def)
    then have "distinct (map fst ms)" using refs(2) by (simp add: ms(1) rows_of_page_def distinct_map comp_def)
    moreover have "\<forall>m \<in> set ms. (fst m, snd m, pid) \<in> set rows" by (auto simp: ms(1) rows_of_page_def row_vals_def)
    ultimately show ?thesis using pid p assms(8) by (auto simp: group_ok_def g ms(1))
  qed
  then have "list_all (group_ok s ti (u_sets stmt) pids rows) ?gs" by (simp add: list_all_iff)
  from update_groups_scan [OF up [unfolded idx] assms(4,5) this gs assms(3,6)]
  have r: "scan_table ti t = Inr (map (set_if ti (u_sets stmt) (in_group ?gs)) rows)" "plain_table t ti pids" by simp_all
  have "in_group ?gs r \<longleftrightarrow> hit r" if "r \<in> set rows" for r
  proof -
    have "in_group ?gs r \<longleftrightarrow> (\<exists>ms. map_of ?gs (snd (snd r)) = Some ms \<and> fst r \<in> fst ` set ms)"
      by (auto simp: in_group_def map_of_eq_Some_iff [OF gs])
    also have "\<dots> \<longleftrightarrow> fst r \<in> fst ` set (rows_of_page (snd (snd r)) ds)"
      using group_matches [of ds "snd (snd r)"] by auto
    also have "fst ` set (rows_of_page (snd (snd r)) ds) = fst ` {r' \<in> set ds. snd (snd r') = snd (snd r)}"
      by (simp add: rows_of_page_def image_image)
    also have "fst r \<in> \<dots> \<longleftrightarrow> (\<exists>r' \<in> set ds. row_ref r' = row_ref r)" unfolding image_iff row_ref_def by fastforce
    also have "\<dots> \<longleftrightarrow> hit r" unfolding ds using refs(1) that by (metis (no_types, lifting) filter_set inj_onD mem_Collect_eq set_filter)
    finally show ?thesis .
  qed
  then have "map (set_if ti (u_sets stmt) (in_group ?gs)) rows = map (set_if ti (u_sets stmt) hit) rows" by (rule map_set_if_cong)
  with r show ?thesis by simp
qed

end
