(* ===== verification/Reopen.thy ===== *)
theory Reopen
  imports Exec_Atomic
begin

text \<open>
  A database just opened: the state of its session, and its indexes, which no row of the
  file has entered.
\<close>

section \<open>The indexes of a reopened database\<close>

definition empty_indexes :: "exec \<Rightarrow> bool" where
  "empty_indexes s \<longleftrightarrow> (\<forall>(k, ix) \<in> set (x_indexes s). ix_root ix = None)"

definition has_index :: "index_key \<Rightarrow> exec \<Rightarrow> bool" where
  "has_index k s \<longleftrightarrow> k \<in> fst ` set (x_indexes s)"

lemma set_index_result:
  "set_index k ix s = (Inr (), s\<lparr>x_indexes := AList.update k ix (x_indexes s)\<rparr>)"
  by (simp add: set_index_def)

lemma rebuild_result:
  assumes "forS cols (\<lambda>col. set_index (tn, c_name col) \<lparr>ix_root = None, ix_pager = None\<rparr>) s = (r, t)"
    and "empty_indexes s"
  shows "r = Inr () \<and> empty_indexes t \<and> (\<forall>k. has_index k s \<longrightarrow> has_index k t) \<and>
    (\<forall>col \<in> set cols. has_index (tn, c_name col) t) \<and> x_catalog t = x_catalog s"
  using assms
proof (induction cols arbitrary: s)
  case (Cons col cols)
  let ?s = "s\<lparr>x_indexes := AList.update (tn, c_name col) \<lparr>ix_root = None, ix_pager = None\<rparr> (x_indexes s)\<rparr>"
  have "empty_indexes ?s"
    using Cons.prems(2) set_update_subset [of "(tn, c_name col)" "\<lparr>ix_root = None, ix_pager = None\<rparr>" "x_indexes s"]
    by (fastforce simp: empty_indexes_def)
  moreover have "has_index (tn, c_name col) ?s" "has_index k s \<longrightarrow> has_index k ?s" for k
    by (simp_all add: has_index_def dom_map_of_conv_image_fst [symmetric] domIff)
  moreover have "forS cols (\<lambda>col. set_index (tn, c_name col) \<lparr>ix_root = None, ix_pager = None\<rparr>) ?s = (r, t)"
    using Cons.prems(1) by (simp only: forS.simps bindS_Inr [OF set_index_result])
  ultimately show ?case using Cons.IH [of ?s] by auto
qed simp

lemma install_result:
  assumes "forS ixs (\<lambda>(k, ix). if fst k \<noteq> tn then returnS () else new_wrapper k ix) s = (r, t)"
    and "empty_indexes s" and "\<forall>(k, ix) \<in> set ixs. ix_root ix = None"
  shows "r = Inr () \<and> empty_indexes t \<and> (\<forall>k. has_index k s \<longrightarrow> has_index k t) \<and> x_catalog t = x_catalog s"
  using assms
proof (induction ixs arbitrary: s)
  case (Cons p ixs)
  obtain k ix where p: "p = (k, ix)" by (cases p)
  define s' where "s' = (if fst k \<noteq> tn then s else snd (new_wrapper k ix s))"
  have step: "(case p of (k, ix) \<Rightarrow> if fst k \<noteq> tn then returnS () else new_wrapper k ix) s = (Inr (), s')"
    by (simp add: p s'_def new_wrapper_def)
  have "empty_indexes s'" "\<forall>k. has_index k s \<longrightarrow> has_index k s'" "x_catalog s' = x_catalog s"
    using Cons.prems(2,3) set_update_subset [of k "ix\<lparr>ix_pager := Some (length (x_wrappers s))\<rparr>" "x_indexes s"]
    by (fastforce simp: p s'_def new_wrapper_def empty_indexes_def has_index_def dom_map_of_conv_image_fst [symmetric] domIff)+
  moreover have "forS ixs (\<lambda>(k, ix). if fst k \<noteq> tn then returnS () else new_wrapper k ix) s' = (r, t)"
    using Cons.prems(1) by (simp only: forS.simps bindS_def step prod.case sum.case)
  ultimately show ?case using Cons.IH [of s'] Cons.prems(3) by auto
qed simp

lemma register_result:
  assumes "register_table ti s = (r, t)" and "empty_indexes s"
  shows "r = Inr () \<and> empty_indexes t \<and> (\<forall>k. has_index k s \<longrightarrow> has_index k t) \<and>
    (\<forall>col \<in> set (indexed_columns ti). has_index (ti_name ti, c_name col) t) \<and> x_catalog t = x_catalog s"
proof -
  obtain r1 s1 where 1: "rebuild_for_table ti s = (r1, s1)" by force
  note b = rebuild_result [OF 1 [unfolded rebuild_for_table_def] assms(2)]
  obtain r2 s2 where 2: "forS (x_indexes s1) (\<lambda>(k, ix). if fst k \<noteq> ti_name ti then returnS () else new_wrapper k ix) s1 = (r2, s2)" by force
  note c = install_result [OF 2 conjunct1 [OF conjunct2 [OF b]]]
  have "r = Inr ()" "x_catalog t = x_catalog s2" "x_indexes t = x_indexes s2"
    using assms(1) 1 2 b c by (auto simp: register_table_def install_index_pagers_def bindS_def empty_indexes_def)
  moreover from this(3) have "has_index k t = has_index k s2" for k by (simp add: has_index_def)
  ultimately show ?thesis using b c by (auto simp: empty_indexes_def)
qed

lemma register_all:
  "forS tis register_table s = (r, t) \<Longrightarrow> empty_indexes s \<Longrightarrow>
   r = Inr () \<and> empty_indexes t \<and> (\<forall>k. has_index k s \<longrightarrow> has_index k t) \<and>
   (\<forall>ti \<in> set tis. \<forall>col \<in> set (indexed_columns ti). has_index (ti_name ti, c_name col) t) \<and> x_catalog t = x_catalog s"
proof (induction tis arbitrary: s)
  case (Cons ti tis)
  obtain r1 s1 where 1: "register_table ti s = (r1, s1)" by force
  note b = register_result [OF 1 Cons.prems(2)]
  then have "forS tis register_table s1 = (r, t)" using Cons.prems(1) 1 by (simp add: bindS_Inr)
  from Cons.IH [OF this] b show ?case by auto
qed simp

lemma db_openE:
  assumes "db_open u p = Inr d"
  obtains cat r s where "forS (map snd cat) register_table (new_executor p cat) = (r, s)"
    and "d = \<lparr>d_exec = s, d_closed = False\<rparr>"
proof -
  obtain cat where m: "(case forS (map snd cat) register_table (new_executor p cat) of
       (Inl e, s) \<Rightarrow> Inl e | (Inr _, s) \<Rightarrow> Inr \<lparr>d_exec = s, d_closed = False\<rparr>) = Inr d"
    using assms unfolding db_open_def bindE_eq_Inr by blast
  obtain r s where f: "forS (map snd cat) register_table (new_executor p cat) = (r, s)" by force
  then show ?thesis using m that by (auto split: sum.splits)
qed

lemma open_result:
  assumes "db_open u p = Inr d"
  shows "empty_indexes (d_exec d)"
    and "\<And>n ti col. (n, ti) \<in> set (x_catalog (d_exec d)) \<Longrightarrow> col \<in> set (indexed_columns ti) \<Longrightarrow>
      has_index (ti_name ti, c_name col) (d_exec d)"
proof -
  obtain cat r s where f: "forS (map snd cat) register_table (new_executor p cat) = (r, s)"
    and d: "d = \<lparr>d_exec = s, d_closed = False\<rparr>" by (rule db_openE [OF assms])
  have "empty_indexes (new_executor p cat)" by (simp add: empty_indexes_def new_executor_def)
  note r = register_all [OF f this]
  then show "empty_indexes (d_exec d)" by (simp add: d)
  have "x_catalog s = cat" using r by (simp add: new_executor_def)
  then show "has_index (ti_name ti, c_name col) (d_exec d)"
    if "(n, ti) \<in> set (x_catalog (d_exec d))" "col \<in> set (indexed_columns ti)" for n ti col
    using r that by (force simp: d)
qed

text \<open>
  C24. After a database is reopened, a SELECT with one equality on a PRIMARY KEY or UNIQUE
  column finds nothing, whatever rows the file holds: the trees of a reopened database
  are empty, and the lookup does not fall back to the scan.
\<close>

theorem reopened_lookup_empty:
  assumes "db_open u p = Inr d" and "s_joins stmt = []"
    and "catalog_get_table (x_catalog (d_exec d)) (s_table stmt) = Some ti"
    and "validate_select stmt (schema_v2 ti) = Inr (proj, False)" and "s_where stmt = Some (EqualsExpr column v q)"
    and "find (\<lambda>c. c_name c = column) (ti_columns ti) = Some col" and "column.c_pk col \<or> column.c_unique col"
    and "key_for col v = Inr key"
  shows "exec_select u stmt (d_exec d) = Inr (Lists [])"
proof -
  let ?s = "d_exec d"
  have col: "col \<in> set (indexed_columns ti)" "c_name col = column"
    using assms(6,7) by (auto simp: find_Some_iff indexed_columns_def)
  have "(s_table stmt, ti) \<in> set (x_catalog ?s)" using assms(3) by (simp add: catalog_get_table_def map_of_SomeD)
  from open_result(2) [OF assms(1) this col(1)] obtain ix where ix: "get_btree (ti_name ti, column) ?s = Some ix"
    using col(2) by (auto simp: has_index_def get_btree_def simp flip: dom_map_of_conv_image_fst)
  then have "ix_root ix = None"
    using open_result(1) [OF assms(1)] map_of_SomeD [of "x_indexes ?s"] by (fastforce simp: empty_indexes_def get_btree_def)
  then have "lookup_key (ti_name ti, column) key ?s = Inr None" using ix by (simp add: lookup_key_def bt_search_def)
  then have "exec_indexed_select stmt ti proj ?s = Inr (Some [])"
    using assms(5,6,8) ix by (simp add: exec_indexed_select_def)
  then show ?thesis using assms(2-4) by (simp add: exec_select_def exec_table_select_def need_table_def)
qed

section \<open>Sessions\<close>

lemma register_books: "keeps same_books (register_table ti)"
  unfolding register_table_def rebuild_for_table_def install_index_pagers_def new_wrapper_def
  by (intro books.rules books.index) (simp_all add: same_books_def)

lemma open_session: "db_open u p = Inr d \<Longrightarrow> session_ok (d_exec d)"
proof -
  assume "db_open u p = Inr d"
  then obtain cat r s where f: "forS (map snd cat) register_table (new_executor p cat) = (r, s)"
    and d: "d = \<lparr>d_exec = s, d_closed = False\<rparr>" by (rule db_openE)
  have "same_books (new_executor p cat) s" by (rule keepsD [OF books.loop f]) (rule register_books)
  then show ?thesis using books_session by (simp add: d session_ok_def same_books_def new_executor_def)
qed

lemma db_execute_session: "db_execute u sql d = (r, d') \<Longrightarrow> session_ok (d_exec d) \<Longrightarrow> session_ok (d_exec d')"
  using script_session
  by (fastforce simp: db_execute_def on_executor_def readS_def bindS_def liftE_def
      split: if_splits sum.splits prod.splits)

text \<open>
  The session invariant. From the opening of a database on, after any sequence of
  scripts, whatever they raise: without an open transaction the page buffer is empty and
  no snapshot is kept, so reads go to the main file; inside one a snapshot is kept, so
  it can be undone.
\<close>

theorem session_invariant:
  assumes "db_open u p = Inr d" and "d' = foldl (\<lambda>d sql. snd (db_execute u sql d)) d sqls"
  shows "session_ok (d_exec d')"
proof -
  have "session_ok (d_exec (foldl (\<lambda>d sql. snd (db_execute u sql d)) d sqls))" if "session_ok (d_exec d)" for d
    using that
  proof (induction sqls arbitrary: d)
    case (Cons sql sqls)
    have "session_ok (d_exec (snd (db_execute u sql d)))" by (rule db_execute_session [OF prod.collapse [symmetric] Cons.prems])
    then show ?case using Cons.IH by simp
  qed simp
  then show ?thesis using open_session [OF assms(1)] assms(2) by blast
qed

end
