(* ===== verification/Overflow_Chain.thy ===== *)
theory Overflow_Chain
  imports Drop_Table
begin

text \<open>
  The overflow chain of a long row: what \<open>_insert_with_overflow\<close> writes and what
  \<open>_read_overflow_chain\<close> reads back inside the transaction.
\<close>

section \<open>One overflow page\<close>

lemma overflow_page_image:
  assumes "overflow_page chunk nxt = Inr b" and "length chunk \<le> 4072"
  shows "\<exists>f. length f = 2 \<and> 0 \<le> nxt \<and> nxt < 256 ^ 4 \<and>
    b = [2, 0] @ f @ be_bytes 4 nxt @ replicate 8 0 @ chunk @ replicate (4080 - length chunk) 0"
proof -
  obtain f n where f: "to_bytes_be 2 (4096 - py_len chunk) = Inr f" and n: "to_bytes_be 4 nxt = Inr n"
    and b: "b = set_slice (set_slice (set_slice ((replicate 4096 0)[0 := 2]) 2 4 f) 4 8 n) 16 (16 + py_len chunk) chunk"
    using assms(1) by (auto simp: overflow_page_def Let_def)
  have n': "0 \<le> nxt" "nxt < 256 ^ 4" "n = be_bytes 4 nxt" using to_bytes_range [OF n] by simp_all
  have len: "length f = 2" "length n = 4" using to_bytes_range [OF f] n'(3) by simp_all
  have 0: "(replicate 4096 0)[0 := 2] = [2 :: byte, 0] @ replicate 4094 0"
  proof -
    have "(4096 :: nat) = Suc (Suc 4094)" by simp
    then show ?thesis by (metis append_Cons append_Nil list_update_code(2) replicate_Suc)
  qed
  have 1: "set_slice ([2 :: byte, 0] @ replicate 4094 0) 2 4 f = ([2, 0] @ f) @ replicate 4092 0"
    using set_slice_zeros [of 2 "[2 :: byte, 0]" 4 f 4094] len by simp
  have 2: "set_slice (([2 :: byte, 0] @ f) @ replicate 4092 0) 4 8 n = ([2, 0] @ f @ n) @ replicate 4088 0"
    using set_slice_zeros [of 4 "[2 :: byte, 0] @ f" 8 n 4092] len by simp
  have 3: "([2 :: byte, 0] @ f @ n) @ replicate 4088 0 = ([2, 0] @ f @ n @ replicate 8 0) @ replicate 4080 0"
    using replicate_add [of 8 4080 "0 :: byte"] by simp
  have 4: "set_slice (([2 :: byte, 0] @ f @ n @ replicate 8 0) @ replicate 4080 0) 16 (16 + py_len chunk) chunk =
      ([2, 0] @ f @ n @ replicate 8 0) @ chunk @ replicate (4080 - length chunk) 0"
    using len assms(2) by (intro set_slice_zeros) simp_all
  have "b = ([2, 0] @ f @ n @ replicate 8 0) @ chunk @ replicate (4080 - length chunk) 0"
    unfolding b by (simp only: 0 1 2 3 4)
  then show ?thesis using len n' by (intro exI [of _ f]) simp
qed

lemma overflow_page_parts:
  assumes "overflow_page chunk nxt = Inr b" and "length chunk \<le> 4072"
  shows "length b = 4096" and "slice_from b 16 = chunk @ replicate (4080 - length chunk) 0" and "next_overflow b = nxt"
proof -
  obtain f where f: "length f = 2" "0 \<le> nxt" "nxt < 256 ^ 4"
    "b = [2, 0] @ f @ be_bytes 4 nxt @ replicate 8 0 @ chunk @ replicate (4080 - length chunk) 0"
    using overflow_page_image [OF assms] by blast
  show "length b = 4096" using f assms(2) by simp
  show "slice_from b 16 = chunk @ replicate (4080 - length chunk) 0"
    using f(1) by (simp add: slice_from_nonneg f(4) numeral_eq_Suc)
  have "slice b 4 8 = be_bytes 4 nxt"
    using slice_mid [of 4 "[2, 0] @ f" 8 "be_bytes 4 nxt" "replicate 8 0 @ chunk @ replicate (4080 - length chunk) 0"] f(1)
    by (simp add: f(4))
  then show "next_overflow b = nxt" using f(2,3) be_int_be_bytes [of nxt 4] by (simp add: next_overflow_def)
qed

lemma relinked:
  assumes "length buf = 4096" and "0 \<le> n" and "n < 256 ^ 4"
  shows "length (set_slice buf 4 8 (be_bytes 4 n)) = 4096" and "slice_from (set_slice buf 4 8 (be_bytes 4 n)) 16 = slice_from buf 16"
    and "next_overflow (set_slice buf 4 8 (be_bytes 4 n)) = n"
proof -
  show "length (set_slice buf 4 8 (be_bytes 4 n)) = 4096" using assms(1) by (simp add: length_set_slice)
  show "slice_from (set_slice buf 4 8 (be_bytes 4 n)) 16 = slice_from buf 16"
    using assms(1) by (simp add: set_slice_nonneg slice_from_nonneg)
  show "next_overflow (set_slice buf 4 8 (be_bytes 4 n)) = n"
    using assms slice_set_slice [of 4 8 buf "be_bytes 4 n"] by (simp add: next_overflow_def be_int_be_bytes)
qed

section \<open>The chain\<close>

text \<open>What the pages of a chain hold: each chunk of 4072 bytes is followed by zeros up to the end of its page.\<close>

function stored :: "byte list \<Rightarrow> byte list" where
  "stored rest =
     (if rest = [] then []
      else take 4072 rest @ replicate (4080 - length (take 4072 rest)) 0 @ stored (drop 4072 rest))"
  by pat_completeness auto
termination by (relation "measure length") auto

declare stored.simps [simp del]

function n_chunks :: "byte list \<Rightarrow> nat" where
  "n_chunks rest = (if rest = [] then 0 else Suc (n_chunks (drop 4072 rest)))"
  by pat_completeness auto
termination by (relation "measure length") auto

declare n_chunks.simps [simp del]

definition chain_written :: "byte list \<Rightarrow> int \<Rightarrow> byte list \<Rightarrow> exec \<Rightarrow> exec \<Rightarrow> int list \<Rightarrow> byte list \<Rightarrow> bool" where
  "chain_written rest pid buf s t ids buf' \<longleftrightarrow>
     length ids = n_chunks rest \<and> distinct ids \<and> set ids \<subseteq> {2..<next_page_id (x_pager t)} \<and>
     (\<forall>i \<in> set ids. pages_in_use (x_pager s) i = None) \<and>
     exec_read_page pid t = Inr buf' \<and> (rest = [] \<longrightarrow> buf' = buf) \<and> slice_from buf' 16 = slice_from buf 16 \<and>
     (rest \<noteq> [] \<longrightarrow> (\<forall>n \<ge> n_chunks rest. overflow_chunks n (next_overflow buf') t = Inr (stored rest))) \<and>
     (\<forall>q. pages_in_use (x_pager s) q \<noteq> None \<and> q \<noteq> pid \<longrightarrow> exec_read_page q t = exec_read_page q s)"

lemma writes_overflow:
  assumes "write_overflow rest pid buf s = (Inr (), t)" and "x_txn s \<noteq> None" and "pager_inv (x_pager s)"
    and "has_room (x_pager t)" and "pages_in_use (x_pager s) pid \<noteq> None" and "exec_read_page pid s = Inr buf"
    and "length buf = 4096"
  shows "\<exists>ids buf'. chain_written rest pid buf s t ids buf'"
  using assms
proof (induction "length rest" arbitrary: rest pid buf s rule: less_induct)
  case less
  show ?case
  proof (cases "rest = []")
    case True
    then have "t = s" "n_chunks rest = 0" using less.prems(1) by (simp_all add: write_overflow.simps [of "[]"] n_chunks.simps [of "[]"])
    then have "chain_written rest pid buf s t [] buf" using True less.prems(6) by (simp add: chain_written_def)
    then show ?thesis by blast
  next
    case False
    define rest' where "rest' = drop 4072 rest"
    define nxt where "nxt = (if rest' = [] then NULL_PAGE_ID else 0)"
    have sl: "slice_to rest 4072 = take 4072 rest" "slice_from rest 4072 = rest'"
      by (simp_all add: slice_to_nonneg slice_from_nonneg rest'_def)
    obtain ov b n s1 s2 s3 where a: "on_exec_pager alloc_page s = (Inr ov, s1)"
      and b: "overflow_page (take 4072 rest) nxt = Inr b" and w1: "exec_write_page ov b s1 = (Inr (), s2)"
      and n: "to_bytes_be 4 ov = Inr n" and w2: "exec_write_page pid (set_slice buf 4 8 n) s2 = (Inr (), s3)"
      and rec: "write_overflow rest' ov b s3 = (Inr (), t)"
      using less.prems(1) False by (auto simp: write_overflow.simps [of rest] Let_def sl nxt_def bindS_eq_Inr liftE_def)
    obtain p1 where p1: "alloc_page (x_pager s) = (Inr ov, p1)" "s1 = s\<lparr>x_pager := p1\<rparr>"
      using a by (auto simp: on_exec_pager_def split: prod.splits)
    have x1: "x_txn s1 \<noteq> None" using less.prems(2) p1(2) by simp
    note v2 = write_in_view [OF x1 w1]
    note v3 = write_in_view [OF v2(1) w2]
    have g: "next_grows (x_pager s) p1" by (rule keepsD [OF grows_pages(1) p1(1)])
    have g3: "next_page_id (x_pager s3) = next_page_id p1" "pages_in_use (x_pager s3) = pages_in_use p1"
      "pager_inv (x_pager s3) = pager_inv p1"
      using only_log_use [OF v2(4)] only_log_use [OF v3(4)] p1(2) by simp_all
    have "in_txn_use s3 t" by (rule keepsD [OF used.write_overflow rec])
    then have gt: "next_page_id p1 \<le> next_page_id (x_pager t)" using g3(1) by (simp add: in_txn_use_def next_grows_def)
    have room: "has_room (x_pager s)" using g gt less.prems(4) by (simp add: has_room_def next_grows_def)
    obtain i where "Inr ov = (Inr i :: int res)" and inv1: "pager_inv p1" and new: "pages_in_use (x_pager s) i = None"
      and use1: "pages_in_use p1 = (pages_in_use (x_pager s))(i \<mapsto> zero_page)"
      by (rule alloc_use [OF less.prems(3) room p1(1)])
    then have new: "pages_in_use (x_pager s) ov = None" and use1: "pages_in_use p1 = (pages_in_use (x_pager s))(ov \<mapsto> zero_page)"
      by simp_all
    have ne: "ov \<noteq> pid" using new less.prems(5) by auto
    have "pages_in_use p1 ov \<noteq> None" by (simp add: use1)
    then have ov: "2 \<le> ov" "ov < next_page_id p1" by (auto simp: pages_in_use_def split: if_splits)
    have ov4: "ov < 256 ^ 4" "ov \<noteq> NULL_PAGE_ID" "n = be_bytes 4 ov"
      using ov gt less.prems(4) to_bytes_range [OF n] by (simp_all add: has_room_def)
    note page = overflow_page_parts [OF b, simplified]
    note link = relinked [OF less.prems(7), of ov]
    have rd3: "exec_read_page ov s3 = Inr b" using v3(2) [of ov] v2(2) [of ov] ne by simp
    have shorter: "length rest' < length rest" using False by (cases rest) (simp_all add: rest'_def)
    have "\<exists>ids buf'. chain_written rest' ov b s3 t ids buf'"
      by (rule less.hyps [OF shorter rec v3(1) _ less.prems(4) _ rd3 page(1)]) (use g3 inv1 use1 in simp_all)
    then obtain ids b' where IH: "chain_written rest' ov b s3 t ids b'" by blast
    have ids: "length ids = n_chunks rest'" "distinct ids" "set ids \<subseteq> {2..<next_page_id (x_pager t)}"
      and fresh: "\<And>i. i \<in> set ids \<Longrightarrow> pages_in_use p1 i = None"
      and rdb: "exec_read_page ov t = Inr b'" "rest' = [] \<longrightarrow> b' = b" "slice_from b' 16 = slice_from b 16"
      and more: "\<And>m. rest' \<noteq> [] \<Longrightarrow> n_chunks rest' \<le> m \<Longrightarrow> overflow_chunks m (next_overflow b') t = Inr (stored rest')"
      and others: "\<And>q. pages_in_use p1 q \<noteq> None \<Longrightarrow> q \<noteq> ov \<Longrightarrow> exec_read_page q t = exec_read_page q s3"
      using IH g3(2) by (auto simp: chain_written_def)
    have n: "n_chunks rest = Suc (n_chunks rest')" using False by (simp add: n_chunks.simps [of rest] rest'_def)
    have tail: "overflow_chunks m (next_overflow b') t = Inr (stored rest')" if "n_chunks rest' \<le> m" for m
    proof (cases "rest' = []")
      case True
      then have "next_overflow b' = NULL_PAGE_ID" using rdb(2) page(3) by (simp add: nxt_def)
      then show ?thesis using True by (simp add: overflow_chunks.simps [of m] stored.simps [of "[]"])
    next
      case False
      then show ?thesis using more that by blast
    qed
    have body: "slice_from b' HEADER_SIZE @ stored rest' = stored rest"
      using rdb(3) page(2) False by (simp add: stored.simps [of rest] rest'_def)
    have chunks: "overflow_chunks m ov t = Inr (stored rest)" if le: "n_chunks rest \<le> m" for m
    proof -
      obtain k where m: "m = Suc k" "n_chunks rest' \<le> k" using le n by (cases m) auto
      show ?thesis using ov4(2) rdb(1) tail [OF m(2)] body by (simp add: m(1) overflow_chunks.simps [of "Suc k"])
    qed
    have rdp: "exec_read_page pid t = Inr (set_slice buf 4 8 n')" (is "_ = Inr ?buf'") if "n' = be_bytes 4 ov" for n'
    proof -
      have "exec_read_page pid t = exec_read_page pid s3" using others [of pid] use1 less.prems(5) ne by simp
      then show ?thesis using v3(2) [of pid] ov4(3) that by simp
    qed
    have "chain_written rest pid buf s t (ov # ids) (set_slice buf 4 8 (be_bytes 4 ov))"
      unfolding chain_written_def
    proof (intro conjI)
      show "length (ov # ids) = n_chunks rest" using n ids(1) by simp
      show "distinct (ov # ids)" using ids(2) fresh [of ov] use1 by auto
      show "set (ov # ids) \<subseteq> {2..<next_page_id (x_pager t)}" using ids(3) ov gt by auto
      show "\<forall>i \<in> set (ov # ids). pages_in_use (x_pager s) i = None"
      proof
        fix i assume "i \<in> set (ov # ids)"
        then show "pages_in_use (x_pager s) i = None" using new fresh [of i] use1 by (cases "i = ov") simp_all
      qed
      show "exec_read_page pid t = Inr (set_slice buf 4 8 (be_bytes 4 ov))" by (rule rdp) simp
      show "rest = [] \<longrightarrow> set_slice buf 4 8 (be_bytes 4 ov) = buf" using False by simp
      show "slice_from (set_slice buf 4 8 (be_bytes 4 ov)) 16 = slice_from buf 16" using link(2) ov ov4 by simp
      show "rest \<noteq> [] \<longrightarrow> (\<forall>n \<ge> n_chunks rest. overflow_chunks n (next_overflow (set_slice buf 4 8 (be_bytes 4 ov))) t = Inr (stored rest))"
        using link(3) ov ov4 chunks by simp
      show "\<forall>q. pages_in_use (x_pager s) q \<noteq> None \<and> q \<noteq> pid \<longrightarrow> exec_read_page q t = exec_read_page q s"
      proof (intro allI impI)
        fix q assume q: "pages_in_use (x_pager s) q \<noteq> None \<and> q \<noteq> pid"
        then have "q \<noteq> ov" using new by auto
        then have "exec_read_page q t = exec_read_page q s3" using others [of q] use1 q by simp
        then show "exec_read_page q t = exec_read_page q s" using v3(2) [of q] v2(2) [of q] q \<open>q \<noteq> ov\<close>
            read_alloc [OF less.prems(3) inv1, of q] use1 by (simp add: exec_read_page_def p1(2) split: option.splits)
      qed
    qed
    then show ?thesis by blast
  qed
qed

lemma card_pages: "distinct ids \<Longrightarrow> set ids \<subseteq> {2..<n} \<Longrightarrow> length ids \<le> nat n" for ids :: "int list"
  using card_mono [of "{2..<n}" "set ids"] by (simp add: distinct_card)

lemma stored_short: "rest \<noteq> [] \<Longrightarrow> length rest \<le> 4072 \<Longrightarrow> stored rest = rest @ replicate (4080 - length rest) 0"
  by (simp add: stored.simps [of rest] stored.simps [of "[]"])

lemma stored_long: "4072 < length rest \<Longrightarrow> stored rest = take 4072 rest @ replicate 8 0 @ stored (drop 4072 rest)"
  by (auto simp: stored.simps [of rest])

text \<open>
  C21. What a chain reads back. After the rest of a long row was written behind a page in
  use, reading the chain of that page returns each chunk of 4072 bytes followed by the
  zeros up to the end of its overflow page, and the other pages in use are untouched. So
  a rest of one chunk reads back as itself with zeros behind it, which decoding ignores; in
  a longer one eight zeros follow its first 4072 bytes, whatever the row has there.
\<close>

theorem overflow_chain_reads:
  assumes "write_overflow rest pid buf s = (Inr (), t)" and "rest \<noteq> []" and "x_txn s \<noteq> None" and "pager_inv (x_pager s)"
    and "has_room (x_pager t)" and "pages_in_use (x_pager s) pid \<noteq> None" and "exec_read_page pid s = Inr buf"
    and "length buf = 4096"
  shows "read_overflow_chain pid t = Inr (stored rest) \<and>
    (length rest \<le> 4072 \<longrightarrow> take (length rest) (stored rest) = rest) \<and>
    (4072 < length rest \<longrightarrow> take 8 (drop 4072 (stored rest)) = replicate 8 0) \<and>
    (\<forall>q. pages_in_use (x_pager s) q \<noteq> None \<and> q \<noteq> pid \<longrightarrow> exec_read_page q t = exec_read_page q s)"
proof -
  obtain ids buf' where w: "chain_written rest pid buf s t ids buf'"
    using writes_overflow [OF assms(1,3-8)] by blast
  have "n_chunks rest \<le> tree_fuel t"
    using w card_pages [of ids "next_page_id (x_pager t)"] by (simp add: chain_written_def tree_fuel_def)
  moreover have "take (length rest) (stored rest) = rest" if "length rest \<le> 4072"
    using stored_short [OF assms(2) that] by simp
  moreover have "take 8 (drop 4072 (stored rest)) = replicate 8 0" if "4072 < length rest"
    using stored_long [OF that] that by simp
  ultimately show ?thesis using w assms(2) by (simp add: chain_written_def read_overflow_chain_def)
qed

end
