(* ===== verification/Exec_Examples.thy ===== *)
theory Exec_Examples
  imports Create_Table Update_Scan Constraints Reopen Overflow_Chain
begin

text \<open>
  Sessions on a small table, at which the theorems about statements apply: a memory
  database with one table of one INT column, on page 2.
\<close>

section \<open>Pagers\<close>

lemma wal_has_step: "page_step p q \<Longrightarrow> wal_has q rs = wal_has p rs"
  by (simp add: wal_has_def page_step_def)

lemma memory_free_inv: "free_inv new_memory_pager []"
  using new_memory_pager_inv free_ids_inv
  by (simp add: pager_inv_def) (simp add: free_ids_def head_of_def img_def new_memory_pager_def
      file_header_free be_int_def numeral_2_eq_2)

lemma memory_log: "wal_has new_memory_pager []"
  using wal_repr_image [of "[]"] by (simp add: wal_has_def new_memory_pager_def wal_open_new)

text \<open>A data page written to the main file.\<close>

lemma one_page:
  assumes "length d = 4096"
  shows "\<exists>p. pager_inv p \<and> free_ids p = [] \<and> wal_has p [] \<and> next_page_id p = 3 \<and> pages_in_use p 2 = Some d"
proof -
  obtain p where a: "alloc_page new_memory_pager = (Inr 2, p)" "next_page_id p = 3" "free_inv p []"
    using alloc_page_fresh [OF memory_free_inv] by (auto simp: new_memory_pager_def)
  obtain i where "Inr 2 = (Inr i :: int res)" "pager_inv p" "pages_in_use p = (pages_in_use new_memory_pager)(i \<mapsto> zero_page)"
  proof (rule alloc_use [OF _ _ a(1)])
    show "pager_inv new_memory_pager" using new_memory_pager_inv by simp
    show "has_room new_memory_pager" by (simp add: has_room_def new_memory_pager_def)
  qed
  then have p: "pager_inv p" "pages_in_use p 2 \<noteq> None" by auto
  obtain q where w: "write_page 2 d p = (Inr (), q)" "pager_inv q" "pages_in_use q = (pages_in_use p)(2 \<mapsto> d)"
    using write_page_law [OF p assms] by blast
  have "eff p ((img p)(2 := d)) (write_page 2 d p)"
    using a(2,3) assms by (intro write_page_eff) (simp_all add: free_inv_def)
  then have q: "pager_wf q" "same_rest p q" "img q = (img p)(2 := d)" using w(1) by (simp_all add: eff_def)
  have "free_inv q []" using a(2,3) q by (simp add: free_inv_def same_rest_def head_of_def)
  then have "free_ids q = []" using pager_invI by blast
  moreover have "wal_has q []"
    using wal_has_step [OF keepsD [OF step_pages(1) a(1)]] wal_has_step [OF keepsD [OF step_pages(3) w(1)]] memory_log by blast
  ultimately show ?thesis using w a(2) q(2) by (auto simp: same_rest_def)
qed

section \<open>The table\<close>

definition sample_table :: table_info where
  "sample_table =
     \<lparr>ti_columns = [\<lparr>c_name = ustr ''a'', c_type = ''INT'', c_params = [], c_nullable = False, c_unique = False, c_pk = False\<rparr>],
      ti_root = 2, ti_next = 2, ti_name = ustr ''t''\<rparr>"

text \<open>The session of a database that holds the empty table.\<close>

definition sample_session :: "pager \<Rightarrow> exec" where
  "sample_session p = (new_executor p [(ustr ''t'', sample_table)])\<lparr>x_data_pages := [(ustr ''t'', [2])]\<rparr>"

definition sample_insert :: "pyval list list \<Rightarrow> insert_stmt" where
  "sample_insert vs = \<lparr>i_table = ustr ''t'', i_columns = [ustr ''a''], i_values = vs, i_line = 1, i_col = 1\<rparr>"

lemma sample_row: "encode_row [PInt 5] (schema_v2 sample_table) = Inr [0, 0, 0, 0, 5]"
  "list_all2 readable_col [PInt 5] (schema_v2 sample_table)" "map2 stored_col [PInt 5] (schema_v2 sample_table) = [PInt 5]"
  "indexed_columns sample_table = []"
  by code_simp+

lemma sample_pager:
  obtains p where "pager_inv p" and "free_ids p = []" and "wal_has p []" and "next_page_id p = 3"
    and "pages_in_use p 2 = Some (page_image (empty_page 2))"
proof -
  have "length (page_image (empty_page 2)) = 4096" by (simp add: page_image_def empty_page_def free_space_def)
  from one_page [OF this] show ?thesis using that by blast
qed

section \<open>INSERT\<close>

definition one_row :: slotted_page where
  "one_row = (empty_page 2)\<lparr>data := [0, 0, 0, 0, 5], data_offset := 4089, num_slots := 1, free_offset := 22,
     slots := [\<lparr>slot.s_offset = 0, s_length = 5, s_flags = 0\<rparr>]\<rparr>"

lemma sample_slot: "insert_row (empty_page 2) [0, 0, 0, 0, 5] = Inr (0, one_row)" "page_wf one_row" "page_wf (empty_page 2)"
  by (simp_all add: one_row_def insert_row_def append_into_data_def empty_page_def free_space_def Let_def page_wf_def slot_fits_def slice_to_nonneg)

text \<open>A row that the first page of the table takes.\<close>

lemma insert_first_page:
  assumes "map_of (x_data_pages s) (ti_name ti) = Some (pid # pids)" and "pid \<notin> set (index_pages s)"
    and "exec_read_page pid s = Inr raw" and "from_bytes pid raw = Inr p" and "insert_row p row = Inr (sid, p')"
    and "to_bytes p' = Inr b" and "exec_write_page pid b s = (Inr (), t)"
  shows "insert_inline_only ti row s = (Inr (pid, sid), t)"
proof -
  have same: "s\<lparr>x_data_pages := x_data_pages s\<rparr> = s" by simp
  have "try_pages (index_pages s) (pid # pids) row s = (Inr (Some (pid, sid)), t)"
    using assms(2-7) by (simp add: load_page_def read_pageS_def store_page_def bindS_def)
  then show ?thesis using assms(1) by (simp add: insert_inline_only_def dict_setdefault_def bindS_def same)
qed

lemma sample_begun:
  "x_txn (begun (sample_session p)) = Some (new_txn 1)" "x_pager (begun (sample_session p)) = p"
  "x_buffer (begun (sample_session p)) = []" "x_data_pages (begun (sample_session p)) = [(ustr ''t'', [2])]"
  "index_pages (begun (sample_session p)) = []" "x_catalog (begun (sample_session p)) = [(ustr ''t'', sample_table)]"
  "x_indexes (begun (sample_session p)) = []" "x_snapshot (begun (sample_session p)) = Some (snapshot_state (sample_session p))"
  by (simp_all add: begun_def sample_session_def new_executor_def open_txn_def index_pages_def)

lemma sample_insert_one:
  assumes "pager_inv p" and "wal_has p []" and "next_page_id p = 3" and "pages_in_use p 2 = Some (page_image (empty_page 2))"
  shows "\<exists>t q. insert_one sample_table [ustr ''a''] sess [PInt 5] (begun (sample_session p)) =
      (Inr sess, (begun (sample_session p))\<lparr>x_txn := Some t, x_pager := q, x_buffer := [(2, page_image one_row)]\<rparr>) \<and>
    in_txn 1 p [(2, page_image one_row)] (t, q)"
proof -
  let ?s = "begun (sample_session p)"
  have wf: "pager_wf p" using assms(1) by (simp add: pager_inv_def free_inv_def)
  note s = sample_begun [of p]
  have "length (page_image one_row) = 4096"
    by (simp add: page_image_def one_row_def empty_page_def free_space_def)
  then have "page_write_ok p (2, page_image one_row)" using assms(3) by (simp add: page_write_ok_def)
  from write_in_txn [of ?s _ 1 p "[]", OF s(1) _ _ _ this] in_txn_start [OF wf assms(2)]
  obtain t q where w: "exec_write_page 2 (page_image one_row) ?s = (Inr (), ?s\<lparr>x_txn := Some t, x_pager := q, x_buffer := [(2, page_image one_row)]\<rparr>)"
    and i: "in_txn 1 p [(2, page_image one_row)] (t, q)" by (auto simp: s)
  have rd: "exec_read_page 2 ?s = Inr (page_image (empty_page 2))"
    using pager_pages.read_law [OF assms(1,4)] by (simp add: exec_read_page_def s)
  have row: "check_row sample_table [PInt 5] = Inr ()" "normalize_row sample_table [ustr ''a''] [PInt 5] = [PInt 5]" by code_simp+
  have fb: "from_bytes 2 (page_image (empty_page 2)) = Inr (empty_page 2)"
    using from_bytes_image [OF sample_slot(3)] by (simp add: empty_page_def)
  have "ti_name sample_table = ustr ''t''" by (simp add: sample_table_def)
  then have "insert_inline_only sample_table [0, 0, 0, 0, 5] ?s = (Inr (2, 0), snd (exec_write_page 2 (page_image one_row) ?s))"
    using s(4,5) rd fb sample_slot(1) to_bytes_image [OF sample_slot(2)] w by (intro insert_first_page) simp_all
  then have "insert_one sample_table [ustr ''a''] sess [PInt 5] ?s = (Inr sess, snd (exec_write_page 2 (page_image one_row) ?s))"
    using row sample_row(1,4)
    by (simp add: insert_one_def Let_def readS_def bindS_def validate_unique_keys_def no_unique_groups insert_row_into_chain_def no_index_row)
  then show ?thesis using w i by auto
qed

lemma sample_check:
  "check_row sample_table (normalize_row sample_table [ustr ''a''] [PNone]) = Inl (ConstraintViolation ''null'' [ustr ''a''])"
  "map_of (ti_name_index sample_table) (ustr ''a'') = Some 0"
  by code_simp+

lemma sample_need: "x_catalog s = [(ustr ''t'', sample_table)] \<Longrightarrow> need_table (ustr ''t'') s = Inr sample_table"
  by (simp add: need_table_def catalog_get_table_def)

lemma sample_exec_insert:
  assumes "x_catalog s = [(ustr ''t'', sample_table)]"
  shows "exec_insert (sample_insert vs) s =
    bindS (insert_rows sample_table [ustr ''a''] [] vs) (\<lambda>_. returnS (Lists [])) s"
  using sample_need [OF assms] sample_check(2) by (simp add: exec_insert_def sample_insert_def readS_def bindS_def)

lemma sample_runs:
  obtains p t q where "pager_inv p" and "free_ids p = []" and "wal_has p []" and "next_page_id p = 3"
    and "pages_in_use p 2 = Some (page_image (empty_page 2))"
    and "in_txn 1 p [(2, page_image one_row)] (t, q)"
    and "exec_insert (sample_insert [[PInt 5]]) (begun (sample_session p)) =
      (Inr (Lists []), (begun (sample_session p))\<lparr>x_txn := Some t, x_pager := q, x_buffer := [(2, page_image one_row)]\<rparr>)"
    and "exec_insert (sample_insert [[PInt 5], [PNone]]) (begun (sample_session p)) =
      (Inl (ConstraintViolation ''null'' [ustr ''a'']),
       (begun (sample_session p))\<lparr>x_txn := Some t, x_pager := q, x_buffer := [(2, page_image one_row)]\<rparr>)"
proof -
  obtain p where p: "pager_inv p" "free_ids p = []" "wal_has p []" "next_page_id p = 3" "pages_in_use p 2 = Some (page_image (empty_page 2))"
    by (rule sample_pager)
  obtain t q where one: "insert_one sample_table [ustr ''a''] [] [PInt 5] (begun (sample_session p)) =
      (Inr [], (begun (sample_session p))\<lparr>x_txn := Some t, x_pager := q, x_buffer := [(2, page_image one_row)]\<rparr>)"
    and i: "in_txn 1 p [(2, page_image one_row)] (t, q)" using sample_insert_one [OF p(1,3-5)] by blast
  have two: "insert_one sample_table [ustr ''a''] [] [PNone] s = (Inl (ConstraintViolation ''null'' [ustr ''a'']), s)" for s
    using sample_check(1) by (simp add: insert_one_def Let_def bindS_def)
  show ?thesis
    by (rule that [OF p i]) (simp_all add: sample_exec_insert sample_begun(6) bindS_def one two)
qed

section \<open>Witnesses\<close>

lemma scan_empty_sample:
  assumes "pager_inv p" and "pages_in_use p 2 = Some (page_image (empty_page 2))"
  shows "plain_at (begun (sample_session p)) 2 (empty_page 2)" and "scan_table sample_table (begun (sample_session p)) = Inr []"
proof -
  have ok: "page_ok (empty_page 2)" by (simp add: page_ok_def empty_page_def)
  have fb: "from_bytes 2 (page_image (empty_page 2)) = Inr (empty_page 2)"
    using from_bytes_image [OF sample_slot(3)] by (simp add: empty_page_def)
  have rd: "exec_read_page 2 (begun (sample_session p)) = Inr (page_image (empty_page 2))"
    using pager_pages.read_law [OF assms] by (simp add: exec_read_page_def sample_begun)
  show at: "plain_at (begun (sample_session p)) 2 (empty_page 2)"
    using rd fb ok sample_slot(3) by (simp add: plain_at_def sample_begun(5) plain_page_def) (simp add: empty_page_def)
  show "scan_table sample_table (begun (sample_session p)) = Inr []"
    using scan_plain_page [OF at, of sample_table]
    by (simp add: scan_table_def table_pages_def sample_begun(4) page_scan_def range_int_def) (simp add: sample_table_def empty_page_def)
qed

lemma insert_adds_row_witness:
  "\<exists>s t ref. exec_insert (sample_insert [[PInt 5]]) s = (Inr (Lists []), t) \<and> row_added sample_table [PInt 5] ref [] t"
proof -
  obtain p t q where p: "pager_inv p" "free_ids p = []" "wal_has p []" "next_page_id p = 3"
      "pages_in_use p 2 = Some (page_image (empty_page 2))" "in_txn 1 p [(2, page_image one_row)] (t, q)"
    and run: "exec_insert (sample_insert [[PInt 5]]) (begun (sample_session p)) =
      (Inr (Lists []), (begun (sample_session p))\<lparr>x_txn := Some t, x_pager := q, x_buffer := [(2, page_image one_row)]\<rparr>)"
    by (rule sample_runs)
  let ?s = "begun (sample_session p)"
  note at = scan_empty_sample [OF p(1,5)]
  have tab: "plain_table ?s sample_table [2]"
    using at(1) p(5) by (simp add: plain_table_def sample_begun) (auto simp: sample_table_def)
  have room: "room_for pg [0, 0, 0, 0, 5]" if "pid \<in> set [2]" "plain_at ?s pid pg" for pid pg
  proof -
    have "pg = empty_page 2" using plain_at_unique [OF at(1)] that by simp
    then show ?thesis by (simp add: room_for_def empty_page_def free_space_def)
  qed
  have "next_page_id q = 3" using p(4,6) by (simp add: in_txn_def)
  then have q: "has_room (x_pager (?s\<lparr>x_txn := Some t, x_pager := q, x_buffer := [(2, page_image one_row)]\<rparr>))"
    by (simp add: has_room_def)
  have "\<exists>ref. row_added sample_table (map2 stored_col [PInt 5] (schema_v2 sample_table)) ref []
      (?s\<lparr>x_txn := Some t, x_pager := q, x_buffer := [(2, page_image one_row)]\<rparr>)"
  proof (rule insert_adds_row [OF run, where row = "[PInt 5]" and b = "[0, 0, 0, 0, 5]"])
    show "i_values (sample_insert [[PInt 5]]) = [[PInt 5]]" by (simp add: sample_insert_def)
    show "need_table (i_table (sample_insert [[PInt 5]])) ?s = Inr sample_table"
      using sample_need by (simp add: sample_insert_def sample_begun)
    show "[PInt 5] = normalize_row sample_table (i_columns (sample_insert [[PInt 5]])) [PInt 5]" by code_simp
    show "buffer_used ?s" by (simp add: buffer_used_def sample_begun)
    show "room_for pg [0, 0, 0, 0, 5]" if "pid \<in> set [2]" "plain_at ?s pid pg" for pid pg using room that by blast
  qed (use p at(2) tab q sample_row in \<open>simp_all add: sample_begun\<close>)
  then show ?thesis using run sample_row(3) by auto
qed

lemma insert_respects_constraints_witness:
  "\<exists>s t. exec_insert (sample_insert [[PInt 5]]) s = (Inr (Lists []), t) \<and> nulls_ok sample_table [PInt 5]"
proof -
  obtain p t where run: "exec_insert (sample_insert [[PInt 5]]) (begun (sample_session p)) = (Inr (Lists []), t)"
    by (rule sample_runs)
  have "normalize_row sample_table [ustr ''a''] [PInt 5] = [PInt 5]" by code_simp
  then have "nulls_ok sample_table [PInt 5]"
    using insert_respects_constraints [OF run _ refl, of sample_table] sample_need
    by (simp add: sample_insert_def sample_begun)
  then show ?thesis using run by blast
qed

lemma sample_execute:
  "i = sample_insert vs \<Longrightarrow> session_ok s \<Longrightarrow> begun s = s0 \<Longrightarrow> exec_insert i s0 = (Inl e, s1) \<Longrightarrow>
   \<exists>e' t. execute u (S_Insert i) s = (Inl e', t) \<and> x_pager t = x_pager (snd (on_txn rollback s1))"
  by (auto simp: execute_data exec_in_txn_def Let_def exec_stmt_def begun_def [symmetric] reset_txn_def restore_state_def bindS_def
      split: prod.splits sum.splits option.splits)

lemma sample_session_ok: "session_ok (sample_session p)"
  by (simp add: session_ok_def sample_session_def new_executor_def)

section \<open>UPDATE\<close>

text \<open>The table with its row, in the transaction.\<close>

definition with_row :: "pager \<Rightarrow> txn \<Rightarrow> pager \<Rightarrow> exec" where
  "with_row p t q = (begun (sample_session p))\<lparr>x_txn := Some t, x_pager := q, x_buffer := [(2, page_image one_row)]\<rparr>"

lemma one_row_plain: "plain_page one_row" "page_id one_row = 2" "page_rows one_row 0 = Some [0, 0, 0, 0, 5]" "num_slots one_row = 1"
proof -
  have ok: "page_ok one_row" by (simp add: page_ok_def one_row_def empty_page_def slot_ok_def)
  then show "plain_page one_row" using sample_slot(2) by (simp add: plain_page_def) (simp add: one_row_def empty_page_def spilled_def)
  show "page_rows one_row 0 = Some [0, 0, 0, 0, 5]"
    by (simp add: page_rows_ok [OF ok]) (simp add: one_row_def empty_page_def slot_row_def tombstoned_def slice_nonneg)
qed (simp_all add: one_row_def empty_page_def)

lemma with_row_state:
  obtains p t q where "in_txn 1 p [(2, page_image one_row)] (t, q)" and "next_page_id p = 3"
    and "plain_at (with_row p t q) 2 one_row" and "plain_table (with_row p t q) sample_table [2]"
    and "scan_table sample_table (with_row p t q) = Inr [(0, [PInt 5], 2)]"
    and "need_table (ustr ''t'') (with_row p t q) = Inr sample_table"
proof -
  obtain p t q where p: "pager_inv p" "next_page_id p = 3" "pages_in_use p 2 = Some (page_image (empty_page 2))"
      "in_txn 1 p [(2, page_image one_row)] (t, q)"
    and run: "exec_insert (sample_insert [[PInt 5]]) (begun (sample_session p)) = (Inr (Lists []), with_row p t q)"
    unfolding with_row_def by (rule sample_runs)
  have "index_pages (with_row p t q) = []" "exec_read_page 2 (with_row p t q) = Inr (page_image one_row)"
    using sample_begun(5) [of p] by (simp_all add: with_row_def index_pages_def exec_read_page_def)
  moreover have "from_bytes 2 (page_image one_row) = Inr one_row" using from_bytes_image [OF sample_slot(2)] one_row_plain(2) by simp
  ultimately have at: "plain_at (with_row p t q) 2 one_row" using one_row_plain(1) by (simp add: plain_at_def)
  have "in_txn_use (begun (sample_session p)) (with_row p t q)" by (rule keepsD [OF used.insert_stmt run])
  moreover have "has_room (x_pager (with_row p t q))" using p(2,4) by (simp add: with_row_def in_txn_def has_room_def)
  ultimately have "pages_in_use p \<subseteq>\<^sub>m pages_in_use q"
    using p(1) by (simp add: in_txn_use_def sample_begun with_row_def)
  then have "pages_in_use q 2 \<noteq> None" using p(3) by (metis domI map_le_def option.distinct(1))
  then have tab: "plain_table (with_row p t q) sample_table [2]"
    using at by (simp add: plain_table_def with_row_def sample_begun) (auto simp: sample_table_def)
  have "decode_row [0, 0, 0, 0, 5] (schema_v2 sample_table) = Inr [PInt 5]"
    using decode_encode_row [OF sample_row(1,2)] sample_row(3) by simp
  then have "scan_table sample_table (with_row p t q) = Inr [(0, [PInt 5], 2)]"
    using scan_plain_page [OF at, of sample_table]
    by (simp add: scan_table_def table_pages_def with_row_def sample_begun page_scan_def range_int_def slot_hit_def one_row_plain)
      (simp add: sample_table_def)
  moreover have "need_table (ustr ''t'') (with_row p t q) = Inr sample_table"
    by (rule sample_need) (simp add: with_row_def sample_begun)
  ultimately show ?thesis using that p(2,4) at tab by blast
qed

lemma store_with_row:
  assumes "in_txn 1 p [(2, page_image one_row)] (t, q)" and "next_page_id p = 3" and "plain_page pg"
  shows "\<exists>t'. store_page 2 pg (with_row p t q) = (Inr (), t')"
proof -
  have im: "to_bytes pg = Inr (page_image pg)" "length (page_image pg) = 4096"
    using assms(3) to_bytes_image length_page_image by (simp_all add: plain_page_def)
  then have "page_write_ok p (2, page_image pg)" using assms(2) by (simp add: page_write_ok_def)
  then show ?thesis
    using write_in_txn [of "with_row p t q" t 1 p "[(2, page_image one_row)]" 2 "page_image pg"] assms(1) im(1)
    by (auto simp: store_page_def bindS_def with_row_def)
qed

definition sample_update :: update_stmt where
  "sample_update = \<lparr>u_table = ustr ''t'', u_sets = [(ustr ''a'', EqualsExpr (ustr ''a'') (PInt 6) None)], u_where = None, u_line = 1, u_col = 1\<rparr>"

lemma update_sets_matching_witness:
  "\<exists>s t. exec_update sample_update s = (Inr (Lists []), t) \<and> scan_table sample_table s = Inr [(0, [PInt 5], 2)] \<and>
     scan_table sample_table t = Inr [(0, [PInt 6], 2)]"
proof -
  obtain p t q where i: "in_txn 1 p [(2, page_image one_row)] (t, q)" "next_page_id p = 3"
    and s: "plain_at (with_row p t q) 2 one_row" "plain_table (with_row p t q) sample_table [2]"
      "scan_table sample_table (with_row p t q) = Inr [(0, [PInt 5], 2)]" "need_table (ustr ''t'') (with_row p t q) = Inr sample_table"
    by (rule with_row_state)
  let ?s = "with_row p t q" and ?sets = "u_sets sample_update" and ?idx = "schema_name_index (schema_v2 sample_table)"
  have six: "set_bytes sample_table ?sets [PInt 5] = [0, 0, 0, 0, 6]" "encode_row (set_row sample_table ?sets [PInt 5]) (schema_v2 sample_table) = Inr [0, 0, 0, 0, 6]"
    "list_all2 readable_col (set_row sample_table ?sets [PInt 5]) (schema_v2 sample_table)"
    "stored_row sample_table (set_row sample_table ?sets [PInt 5]) = [PInt 6]"
    "validate_update_sets sample_update (schema_v2 sample_table) = Inr ?idx" by code_simp+
  have "in_place sample_table ?sets one_row [(0, [PInt 5])]"
    using six by (simp add: in_place_def fits_slot_def one_row_plain) (simp add: one_row_def empty_page_def free_space_def)
  then have pl: "in_place sample_table ?sets pg (rows_of_page pid (filter (\<lambda>r. True) [(0, [PInt 5], 2)]))"
    if "pid \<in> set [2]" "plain_at ?s pid pg" for pid pg
    using that plain_at_unique [OF s(1), of pg] by (simp add: rows_of_page_def row_vals_def)
  obtain pg where ap: "apply_page_updates sample_table 2 ?idx ?sets one_row [(0, [PInt 5])] ?s = (Inr (pg, []), ?s)" and pg: "plain_page pg"
    using apply_in_place [OF one_row_plain(1) \<open>in_place sample_table ?sets one_row _\<close> _ sample_row(4), of 2 ?s] by auto
  obtain t' where st: "store_page 2 pg ?s = (Inr (), t')" using store_with_row [OF i pg] by blast
  have "load_page 2 ?s = (Inr one_row, ?s)" using s(1) by (auto simp: load_page_def plain_at_def read_pageS_def bindS_def)
  then have "update_page sample_table ?idx ?sets (2, [(0, [PInt 5])]) ?s = (Inr (), t')"
    using ap st by (simp add: update_page_def bindS_def)
  moreover have "u_table sample_update = ustr ''t''" "u_where sample_update = None" by (simp_all add: sample_update_def)
  ultimately have run: "exec_update sample_update ?s = (Inr (Lists []), t')"
    using s(3,4) six(5) by (simp add: exec_update_def matching_rows_def where_matches_def readS_def bindS_def group_matches_by_page_def)
  have "scan_table sample_table t' = Inr (map (set_if sample_table ?sets (\<lambda>r. True)) [(0, [PInt 5], 2)]) \<and> plain_table t' sample_table [2]"
  proof (rule update_sets_matching [OF run _ sample_row(4) s(2,3)])
    show "\<forall>pid \<in> set [2]. \<forall>pg. plain_at ?s pid pg \<longrightarrow>
        in_place sample_table ?sets pg (rows_of_page pid (filter (\<lambda>r. True) [(0, [PInt 5], 2)]))" using pl by blast
  qed (use s(4) in \<open>simp_all add: sample_update_def with_row_def where_matches_def\<close>)
  then show ?thesis using run s(3) six(4) by (auto simp: set_if_def row_vals_def)
qed

lemma data_page_liveness_witness:
  "fst (alloc_data_page 5 [2] (new_executor new_memory_pager [])) = Inl FuelOut"
proof -
  have "next_alloc new_memory_pager = 2"
    using pager_invI [OF memory_free_inv] by (simp add: next_alloc_def) (simp add: new_memory_pager_def)
  moreover have "has_room new_memory_pager" by (simp add: has_room_def new_memory_pager_def)
  ultimately show ?thesis
    using data_page_liveness [of "new_executor new_memory_pager []" 4 "[2]"] new_memory_pager_inv
    by (simp add: new_executor_def)
qed

section \<open>CREATE TABLE\<close>

definition sample_create :: create_table where
  "sample_create =
     \<lparr>ct_name = ustr ''t'', ct_columns = [\<lparr>cd_name = ustr ''a'', cd_type = ''INT'', cd_params = [], cd_nullable = False,
        cd_unique = False, cd_pk = False\<rparr>], ct_line = 1, ct_col = 1\<rparr>"

lemma sample_catalog: "catalog_ok [(ustr ''t'', sample_table)]"
  "length (dumps (\<lambda>_. []) (tables_json (catalog_entries [(ustr ''t'', sample_table)]))) \<le> 4096"
proof -
  show "catalog_ok [(ustr ''t'', sample_table)]"
    by (simp add: sample_table_def catalog_ok_def table_ok_def column_ok_def ustr_text_ok)
  show "length (dumps (\<lambda>_. []) (tables_json (catalog_entries [(ustr ''t'', sample_table)]))) \<le> 4096" by code_simp
qed

lemma create_table_empty_witness:
  "\<exists>s t. exec_create_table sample_create s = (Inr (Lists []), t) \<and>
     (\<exists>ti pid. need_table (ustr ''t'') t = Inr ti \<and> plain_table t ti [pid] \<and> scan_table ti t = Inr [])"
proof -
  let ?p = new_memory_pager and ?s = "begun (new_executor new_memory_pager [])"
  have s: "x_txn ?s = Some (new_txn 1)" "x_pager ?s = ?p" "x_catalog ?s = []" "x_buffer ?s = []" "index_pages ?s = []" "x_indexes ?s = []"
    by (simp_all add: begun_def open_txn_def new_executor_def index_pages_def)
  obtain q where a: "alloc_page ?p = (Inr 2, q)" "next_page_id q = 3" "free_inv q []"
    using alloc_page_fresh [OF memory_free_inv] by (auto simp: new_memory_pager_def)
  have q: "pager_wf q" "wal_has q []"
    using a wal_has_step [OF keepsD [OF step_pages(1) a(1)]] memory_log by (simp_all add: free_inv_def)
  obtain raw where raw: "catalog_to_bytes [(ustr ''t'', sample_table)] = Inr raw" "length raw = 4096"
    using catalog_fits [OF sample_catalog] by blast
  let ?im = "page_image (empty_page 2)"
  have im: "to_bytes (empty_page 2) = Inr ?im" "length ?im = 4096"
    using to_bytes_image length_page_image sample_slot(3) by blast+
  have ok: "page_write_ok q (2, ?im)" "page_write_ok q (1, raw)" using a(2) raw(2) im(2) by (simp_all add: page_write_ok_def)
  let ?s1 = "?s\<lparr>x_pager := q\<rparr>"
  obtain t1 q1 where w1: "exec_write_page 2 ?im ?s1 = (Inr (), ?s1\<lparr>x_txn := Some t1, x_pager := q1, x_buffer := [(2, ?im)]\<rparr>)"
    and i1: "in_txn 1 q [(2, ?im)] (t1, q1)"
    using write_in_txn [of ?s1 "new_txn 1" 1 q "[]", OF _ _ _ _ ok(1)] in_txn_start [OF q] s by auto
  let ?s2 = "?s1\<lparr>x_txn := Some t1, x_pager := q1, x_buffer := [(2, ?im)]\<rparr>"
  let ?s3 = "?s2\<lparr>x_catalog := [(ustr ''t'', sample_table)], x_data_pages := [(ustr ''t'', [2])]\<rparr>"
  obtain t2 q2 where w2: "exec_write_page 1 raw ?s3 = (Inr (), ?s3\<lparr>x_txn := Some t2, x_pager := q2, x_buffer := [(2, ?im), (1, raw)]\<rparr>)" (is "_ = (_, ?t)")
    and i2: "in_txn 1 q [(2, ?im), (1, raw)] (t2, q2)"
    using write_in_txn [of ?s3 t1 1 q "[(2, ?im)]", OF _ _ _ _ ok(2)] i1 by auto
  have ti: "\<lparr>ti_columns = map column_of (ct_columns sample_create), ti_root = 2, ti_next = 2, ti_name = ustr ''t''\<rparr> = sample_table"
    "ct_name sample_create = ustr ''t''" "has_dup (map cd_name (ct_columns sample_create)) = False" by code_simp+
  have dp: "x_data_pages ?s = []" "x_wrappers ?s = []" by (simp_all add: begun_def open_txn_def new_executor_def)
  have "rebuild_for_table sample_table ?s3 = (Inr (), ?s3)" using sample_row(4) by (simp add: rebuild_for_table_def)
  moreover have "install_index_pagers (ustr ''t'') ?s3 = (Inr (), ?s3)"
    using s(6) dp(2) by (simp add: install_index_pagers_def)
  moreover have "need_table (ustr ''t'') ?s3 = Inr sample_table" by (rule sample_need) simp
  ultimately have run: "exec_create_table sample_create ?s = (Inr (Lists []), ?t)"
    using a(1) s w1 w2 raw(1) im(1) ti dp
    by (simp add: exec_create_table_def bindS_def on_exec_pager_def store_page_def catalog_get_table_def catalog_add_def
        catalog_create_table_def readS_def write_catalog_def)
  have "has_room (x_pager ?t)" using i2 a(2) by (simp add: in_txn_def has_room_def)
  moreover have "no_roots (ct_name sample_create) ?s" by (simp add: no_roots_def s(6))
  moreover have "pager_inv ?p" using new_memory_pager_inv by simp
  ultimately show ?thesis using create_table_empty [OF run] run s ti(2) by fastforce
qed

section \<open>Pages\<close>

text \<open>Page 2 in use, page 3 free.\<close>

lemma two_pages:
  obtains p where "pager_inv p" and "free_ids p = [3]" and "wal_has p []" and "next_page_id p = 4" and "pages_in_use p 2 \<noteq> None"
proof -
  obtain p0 where p0: "pager_inv p0" "free_ids p0 = []" "wal_has p0 []" "next_page_id p0 = 3"
    and u0: "pages_in_use p0 2 = Some (page_image (empty_page 2))" by (rule sample_pager)
  have inv: "free_inv p0 []" using p0(1,2) by (simp add: pager_inv_def)
  obtain p1 where a: "alloc_page p0 = (Inr 3, p1)" "next_page_id p1 = 4" "free_inv p1 []"
    using alloc_page_fresh [OF inv] p0(4) by auto
  obtain p2 where f: "free_page 3 p1 = (Inr (), p2)" "same_rest p1 p2" "free_inv p2 [3]"
    using free_page_eff [OF a(3), of 3] a(2) by auto
  have "pager_inv p2" "free_ids p2 = [3]" using pager_invI [OF f(3)] by simp_all
  moreover have "wal_has p2 []"
    using wal_has_step [OF keepsD [OF step_pages(1) a(1)]] wal_has_step [OF keepsD [OF step_pages(2) f(1)]] p0(3) by blast
  moreover have "next_page_id p2 = 4" using f(2) a(2) by (simp add: same_rest_def)
  ultimately show ?thesis using that by (auto simp: pages_in_use_def)
qed

lemma allocated_twice_witness:
  "\<exists>s s1 s2 s3 s4 s5. exec_free_page 2 s = (Inr (), s1) \<and> on_exec_pager alloc_page s1 = (Inr 3, s2) \<and>
    exec_commit s2 = (Inr (), s3) \<and> on_exec_pager alloc_page s3 = (Inr 2, s4) \<and> on_exec_pager alloc_page s4 = (Inr 3, s5)"
proof -
  obtain p where p: "pager_inv p" "free_ids p = [3]" "wal_has p []" "next_page_id p = 4" "pages_in_use p 2 \<noteq> None" by (rule two_pages)
  have "x_txn (begun (new_executor p [])) = Some (new_txn 1)" "x_buffer (begun (new_executor p [])) = []"
    by (simp_all add: begun_def open_txn_def new_executor_def)
  moreover have "x_pager (begun (new_executor p [])) = p" by (simp add: begun_simps new_executor_def)
  ultimately show ?thesis
    by (intro exI [of _ "begun (new_executor p [])"] allocated_twice [where i = 1 and fl = "[]"]) (simp_all add: p)
qed

text \<open>A rest of one byte behind page 2.\<close>

lemma overflow_chain_reads_witness:
  "\<exists>s t. write_overflow [7] 2 (page_image (empty_page 2)) s = (Inr (), t) \<and>
     read_overflow_chain 2 t = Inr (7 # replicate 4079 0)"
proof -
  obtain p where p: "pager_inv p" "free_ids p = []" "wal_has p []" "next_page_id p = 3"
    and u: "pages_in_use p 2 = Some (page_image (empty_page 2))" by (rule sample_pager)
  let ?s = "begun (sample_session p)" and ?im = "page_image (empty_page 2)"
  have len: "length ?im = 4096" by (simp add: page_image_def empty_page_def free_space_def)
  obtain q where a: "alloc_page p = (Inr 3, q)" "next_page_id q = 4" "free_inv q []"
    using alloc_page_fresh [of p] p by (auto simp: pager_inv_def)
  have wf: "pager_wf q" using a(3) by (simp add: free_inv_def)
  have log: "wal_has q []" using wal_has_step [OF keepsD [OF step_pages(1) a(1)]] p(3) by blast
  have over: "\<exists>b. overflow_page [7] NULL_PAGE_ID = Inr b" by (simp add: overflow_page_def to_bytes_be_def Let_def)
  then obtain b where b: "overflow_page [7] NULL_PAGE_ID = Inr b" by blast
  have lb: "length b = 4096" using overflow_page_parts(1) [OF b] by simp
  define d where "d = set_slice ?im 4 8 (be_bytes 4 3)"
  have ld: "length d = 4096" using len by (simp add: d_def length_set_slice)
  have ok: "page_write_ok q (3, b)" "page_write_ok q (2, d)" using a(2) lb ld by (simp_all add: page_write_ok_def)
  let ?s1 = "?s\<lparr>x_pager := q\<rparr>"
  obtain t1 q1 where w1: "exec_write_page 3 b ?s1 = (Inr (), ?s1\<lparr>x_txn := Some t1, x_pager := q1, x_buffer := [(3, b)]\<rparr>)"
    and i1: "in_txn 1 q [(3, b)] (t1, q1)"
    using write_in_txn [of ?s1 "new_txn 1" 1 q "[]", OF _ _ _ _ ok(1)] in_txn_start [OF wf log] by (auto simp: sample_begun)
  let ?s2 = "?s1\<lparr>x_txn := Some t1, x_pager := q1, x_buffer := [(3, b)]\<rparr>"
  obtain t2 q2 where w2: "exec_write_page 2 d ?s2 = (Inr (), ?s2\<lparr>x_txn := Some t2, x_pager := q2, x_buffer := [(3, b), (2, d)]\<rparr>)"
    and i2: "in_txn 1 q [(3, b), (2, d)] (t2, q2)"
    using write_in_txn [of ?s2 t1 1 q "[(3, b)]", OF _ _ _ _ ok(2)] i1 by auto
  let ?t = "?s2\<lparr>x_txn := Some t2, x_pager := q2, x_buffer := [(3, b), (2, d)]\<rparr>"
  have run: "write_overflow [7] 2 ?im ?s = (Inr (), ?t)"
    using a(1) b w1 w2 by (simp add: write_overflow.simps [of "[7]"] write_overflow.simps [of "[]"] bindS_def on_exec_pager_def
        sample_begun to_bytes_be_def d_def slice_to_nonneg slice_from_nonneg)
  have "has_room (x_pager ?t)" using i2 a(2) by (simp add: in_txn_def has_room_def)
  moreover have "exec_read_page 2 ?s = Inr ?im"
    using pager_pages.read_law [OF p(1) u] by (simp add: exec_read_page_def sample_begun)
  ultimately have "read_overflow_chain 2 ?t = Inr (stored [7])"
    using overflow_chain_reads [OF run] p(1) u len by (simp add: sample_begun)
  then show ?thesis using run by (auto simp: stored_short)
qed

section \<open>Opening\<close>

lemma db_open_success: "read_page 1 p = Inr raw \<Longrightarrow> catalog_from_bytes u raw = Inr cat \<Longrightarrow> \<exists>d. db_open u p = Inr d \<and> x_catalog (d_exec d) = cat"
proof -
  assume "read_page 1 p = Inr raw" "catalog_from_bytes u raw = Inr cat"
  moreover obtain r s where f: "forS (map snd cat) register_table (new_executor p cat) = (r, s)" by force
  moreover have "empty_indexes (new_executor p cat)" by (simp add: empty_indexes_def new_executor_def)
  ultimately show ?thesis using register_all [OF f] by (auto simp: db_open_def new_executor_def)
qed

lemma session_invariant_witness:
  "\<exists>d. db_open_memory latin1 = Inr d \<and>
     session_ok (d_exec (foldl (\<lambda>d sql. snd (db_execute latin1 sql d)) d [ustr ''BEGIN'', ustr ''SELECT'']))"
proof -
  have "read_page 1 new_memory_pager = Inr zero_page" by (simp add: read_page_def new_memory_pager_def)
  moreover have "catalog_from_bytes latin1 zero_page = Inr []"
    using rstrip0_pad [of "[]" 4096] by (simp add: catalog_from_bytes_def zero_page_def utf8_decode_ascii [of "[]", simplified])
  ultimately obtain d where "db_open latin1 new_memory_pager = Inr d" using db_open_success by blast
  then show ?thesis using session_invariant [OF _ refl] unfolding db_open_memory_def by blast
qed

definition sample_select :: select_stmt where
  "sample_select =
     \<lparr>s_table = ustr ''t'', s_columns = [ustr ''*''], s_where = Some (EqualsExpr (ustr ''id'') (PInt 7) None), s_order_by = [],
      s_limit = None, s_offset = None, s_items = [], s_group_by = [], s_having = None, s_agg_aliases = [],
      s_from = \<lparr>tr_name = ustr ''t'', tr_alias = None, tr_line = 1, tr_col = 1\<rparr>, s_joins = [], s_line = 1, s_col = 1\<rparr>"

lemma reopened_lookup_empty_witness:
  "\<exists>p d. db_open latin1 p = Inr d \<and> exec_select latin1 sample_select (d_exec d) = Inr (Lists [])"
proof -
  obtain raw where raw: "catalog_from_bytes latin1 raw = Inr example_catalog"
    using catalog_fits [OF example_catalog_ok] example_catalog_small by force
  let ?p = "new_memory_pager\<lparr>mem_pages := [(0, file_header), (1, raw)]\<rparr>"
  have "read_page 1 ?p = Inr raw" by (simp add: read_page_def new_memory_pager_def)
  then obtain d where d: "db_open latin1 ?p = Inr d" "x_catalog (d_exec d) = example_catalog"
    using db_open_success raw by blast
  have "exec_select latin1 sample_select (d_exec d) = Inr (Lists [])"
  proof (rule reopened_lookup_empty [OF d(1)])
    let ?col = "\<lparr>c_name = ustr ''id'', c_type = ''INT'', c_params = [], c_nullable = False, c_unique = False, c_pk = True\<rparr>"
    show "key_for ?col (PInt 7) = Inr [0, 0, 0, 7]" by code_simp
    show "column.c_pk ?col \<or> column.c_unique ?col" by simp
    show "find (\<lambda>c. c_name c = ustr ''id'') (ti_columns (snd (hd example_catalog))) = Some ?col" by (simp add: example_catalog_def)
  qed (simp_all add: sample_select_def d(2) example_catalog_def catalog_get_table_def validate_select_def Let_def)
  then show ?thesis using d(1) by blast
qed

section \<open>DROP TABLE\<close>

lemma sample_collect:
  assumes "pager_inv p" and "pages_in_use p 2 = Some (page_image (empty_page 2))"
  shows "collect_table_data_pages sample_table (begun (sample_session p)) = Inr [2]"
proof -
  have rd: "exec_read_page 2 (begun (sample_session p)) = Inr (page_image (empty_page 2))"
    using pager_pages.read_law [OF assms] by (simp add: exec_read_page_def sample_begun)
  have "from_bytes 2 (page_image (empty_page 2)) = Inr (empty_page 2)"
    using from_bytes_image [OF sample_slot(3)] by (simp add: empty_page_def)
  then have "overflow_next (empty_page 2) = next_overflow (page_image (empty_page 2))"
    by (auto simp: from_bytes_def Let_def next_overflow_def bindE_eq_Inr dest: arg_cong [where f = overflow_next] split: if_splits)
  then have "next_overflow (page_image (empty_page 2)) = NULL_PAGE_ID" by (simp add: empty_page_def)
  then show ?thesis
    using rd by (simp add: collect_table_data_pages_def page_range_def collect_step_def sample_begun collect_chain.simps)
      (simp add: sample_table_def collect_step_def sample_begun collect_chain.simps)
qed

lemma drop_frees_range_witness:
  "\<exists>s t out. exec_drop_table (ustr ''t'') s = (Inr out, t) \<and> chain (view t) (head_of (view t)) [2]"
proof -
  obtain p where p: "pager_inv p" "free_ids p = []" "wal_has p []" "next_page_id p = 3"
    and u: "pages_in_use p 2 = Some (page_image (empty_page 2))" by (rule sample_pager)
  let ?s = "begun (sample_session p)"
  have inv: "free_inv p []" using p(1,2) by (simp add: pager_inv_def)
  then have wf: "pager_wf p" and hd: "head_of (img p) = 0" by (simp_all add: free_inv_def)
  let ?s1 = "?s\<lparr>x_catalog := [], x_data_pages := []\<rparr>"
  obtain t q b where f: "exec_free_page 2 ?s1 = (Inr (), ?s1\<lparr>x_txn := Some t, x_pager := q, x_buffer := b\<rparr>)" (is "_ = (_, ?s2)")
    and i: "in_txn 1 p [(0, put_head 2 (img p) 0), (2, put_next 2 (head_of (img p)) (img p) 2)] (t, q)"
    using free_page_in_txn [of ?s1 1 "[]" 2 "head_of (img p)" "put_head 2 (img p) 0" "put_next 2 (head_of (img p)) (img p) 2"]
      inv p by (simp add: sample_begun) blast
  have ok: "catalog_ok []" by (simp add: catalog_ok_def)
  have "length (dumps (\<lambda>_. []) (tables_json (catalog_entries []))) \<le> 4096" by code_simp
  from catalog_fits [OF ok this] obtain raw where raw: "catalog_to_bytes [] = Inr raw" "length raw = 4096" by blast
  then have "page_write_ok p (1, raw)" using p(4) by (simp add: page_write_ok_def)
  then have "\<exists>t' q'. exec_write_page 1 raw ?s2 = (Inr (), ?s2\<lparr>x_txn := Some t', x_pager := q', x_buffer := AList.update 1 raw b\<rparr>)"
    using write_in_txn [of ?s2 t 1 p _ 1 raw] i by simp blast
  then obtain t' q' where w: "exec_write_page 1 raw ?s2 = (Inr (), ?s2\<lparr>x_txn := Some t', x_pager := q', x_buffer := AList.update 1 raw b\<rparr>)"
    (is "_ = (_, ?t)") by blast
  have un: "indexed_columns sample_table = []" by code_simp
  have forget: "forget_table (ustr ''t'') ?s2 = (Inr (), ?s2)"
    by (simp add: forget_table_def begun_def sample_session_def new_executor_def open_txn_def)
  have cat: "catalog_get_table [(ustr ''t'', sample_table)] (ustr ''t'') = Some sample_table" by (simp add: catalog_get_table_def)
  have drop: "drop_entry (ustr ''t'') ?s = (Inr (), ?s1)"
    by (simp add: drop_entry_def sample_begun catalog_drop_table_def)
  have run: "exec_drop_table (ustr ''t'') ?s = (Inr (Lists []), ?t)"
    using sample_need [of ?s] sample_collect [OF p(1) u] f forget w raw(1) drop
    by (simp add: exec_drop_table_def readS_def bindS_def sample_begun collect_index_pages_def un write_catalog_def)
  have vs: "view ?s i = img p i" if "0 \<le> i" for i
    using read_page_img [OF wf that] by (simp add: view_def exec_read_page_def sample_begun)
  have len: "\<forall>q \<in> insert 0 (set [2]). length (view ?s q) = 4096"
    using vs length_img [OF wf] in_range_next [OF wf] p(4) by simp
  have "chain (view ?s) (head_of (view ?s)) []" using vs hd by (simp add: head_of_def)
  then have "chain (view ?t) (head_of (view ?t)) (rev [2] @ []) \<and>
      (\<forall>pid. ti_root sample_table \<le> pid \<and> pid \<le> ti_next sample_table \<and> pid \<notin> set (index_pages ?s) \<longrightarrow> pid \<in> set [2])"
    using sample_collect [OF p(1) u] len run un cat
    by (intro drop_frees_range) (simp_all add: sample_begun, simp add: sample_table_def)
  then show ?thesis using run by auto
qed

end
