(* ===== verification/Index_Examples.thy ===== *)
theory Index_Examples
  imports Index_Delete Exec_Examples
begin

text \<open>
  A table with one PRIMARY KEY column and its index, at which the theorems about indexes and those
  about statements undone apply: before and after its first row.
\<close>

definition keyed_column :: column where
  "keyed_column = \<lparr>c_name = ustr ''a'', c_type = ''INT'', c_params = [], c_nullable = False, c_unique = False, c_pk = True\<rparr>"

definition keyed_table :: table_info where
  "keyed_table = sample_table\<lparr>ti_columns := [keyed_column]\<rparr>"

definition keyed_session :: "pager \<Rightarrow> exec" where
  "keyed_session p = (new_executor p [(ustr ''t'', keyed_table)])\<lparr>x_data_pages := [(ustr ''t'', [2])],
     x_indexes := [((ustr ''t'', ustr ''a''), \<lparr>ix_root = None, ix_pager = Some 0\<rparr>)], x_wrappers := [[]]\<rparr>"

definition keyed_state :: "pager \<Rightarrow> exec" where
  "keyed_state p = begun (keyed_session p)"

definition by_key :: "int \<Rightarrow> select_stmt" where
  "by_key i = sample_select\<lparr>s_where := Some (EqualsExpr (ustr ''a'') (PInt i) None)\<rparr>"

abbreviation no_keys :: "column \<Rightarrow> key \<Rightarrow> (int \<times> int) option" where
  "no_keys \<equiv> \<lambda>c key. None"

lemma keyed_facts:
  "ti_name keyed_table = ustr ''t''" "c_name keyed_column = ustr ''a''" "indexed_columns keyed_table = [keyed_column]"
  "encode_row [PInt 5] (schema_v2 keyed_table) = Inr [0, 0, 0, 0, 5]" "list_all2 readable_col [PInt 5] (schema_v2 keyed_table)"
  "map2 stored_col [PInt 5] (schema_v2 keyed_table) = [PInt 5]" "normalize_row keyed_table [ustr ''a''] [PInt 5] = [PInt 5]"
  "check_row keyed_table [PInt 5] = Inr ()" "map_of (ti_name_index keyed_table) (ustr ''a'') = Some 0"
  "row_cell keyed_table [PInt 5] keyed_column = Inr (PInt 5)" "key_for keyed_column (PInt 5) = Inr [0, 0, 0, 5]"
  "cell_key keyed_table [PInt 5] keyed_column = Some [0, 0, 0, 5]" "key_width keyed_column = Some 4"
  "unique_groups keyed_table = [([ustr ''a''], ''duplicate_pk'')]"
  by code_simp+

lemma keyed_simple: "simple_keys keyed_table"
  unfolding simple_keys_def keyed_facts(3)
proof (intro conjI)
  show "\<forall>c \<in> set [keyed_column]. exact_column c" by code_simp
qed (simp_all add: keyed_table_def keyed_column_def)

lemma keyed_fields:
  "x_txn (keyed_state p) = Some (new_txn 1)" "x_pager (keyed_state p) = p" "x_buffer (keyed_state p) = []"
  "x_data_pages (keyed_state p) = [(ustr ''t'', [2])]" "index_pages (keyed_state p) = []"
  "get_btree (ustr ''t'', ustr ''a'') (keyed_state p) = Some \<lparr>ix_root = None, ix_pager = Some 0\<rparr>"
  "x_catalog (keyed_state p) = [(ustr ''t'', keyed_table)]"
  by (simp_all add: keyed_state_def keyed_session_def begun_def open_txn_def new_executor_def index_pages_def get_btree_def)

lemma keyed_session_ok: "session_ok (keyed_session p)"
  by (simp add: session_ok_def keyed_session_def new_executor_def)

lemma keyed_undo:
  "undo_point (keyed_session p) = snapshot_state (keyed_session p)"
  "restored (snapshot_state (keyed_session p)) t \<Longrightarrow> get_btree (ustr ''t'', ustr ''a'') t = Some \<lparr>ix_root = None, ix_pager = Some 0\<rparr>"
  by (simp_all add: undo_point_def restored_def get_btree_def snapshot_state_def keyed_session_def new_executor_def)

text \<open>An index without a root is empty.\<close>

lemma index_in_empty:
  assumes "txn_ready s" and "get_btree k s = Some ix" and "ix_root ix = None"
  shows "index_in {} w k s Map.empty"
  using assms by (auto simp: index_in_def index_is_def index_tree.is_map_def txn_kept_def map_le_def)

lemma index_exact_empty: "index_exact ti [] no_keys"
  by (simp add: index_exact_def)

lemma keyed_ready:
  assumes "pager_inv p" and "wal_has p []" and "pages_in_use p 2 = Some (page_image (empty_page 2))"
  shows "txn_ready (keyed_state p)" and "plain_at (keyed_state p) 2 (empty_page 2)" and "plain_table (keyed_state p) keyed_table [2]"
    and "scan_table keyed_table (keyed_state p) = Inr []" and "table_indexes keyed_table {2} (\<lambda>c. {}) (keyed_state p) no_keys"
proof -
  let ?s = "keyed_state p"
  have "in_txn 1 p [] (new_txn 1, p)" using assms(1,2) by (intro in_txn_start) (simp_all add: pager_inv_def free_inv_def)
  then show ready: "txn_ready ?s"
    using assms(1) by (auto simp: txn_ready_def buffer_used_def keyed_fields intro!: exI [of _ 1])
  have fb: "from_bytes 2 (page_image (empty_page 2)) = Inr (empty_page 2)"
    using from_bytes_image [OF sample_slot(3)] by (simp add: empty_page_def)
  have rd: "exec_read_page 2 ?s = Inr (page_image (empty_page 2))"
    using pager_pages.read_law [OF assms(1,3)] by (simp add: exec_read_page_def keyed_fields)
  have "page_ok (empty_page 2)" by (simp add: page_ok_def empty_page_def)
  then show at: "plain_at ?s 2 (empty_page 2)"
    using rd fb sample_slot(3) by (simp add: plain_at_def keyed_fields(5) plain_page_def) (simp add: empty_page_def)
  show "plain_table ?s keyed_table [2]" using at assms(3) by (auto simp: plain_table_def keyed_fields keyed_facts(1))
  show "scan_table keyed_table ?s = Inr []"
    using scan_plain_page [OF at, of keyed_table]
    by (simp add: scan_table_pages [where pids = "[2]"] keyed_fields keyed_facts(1) page_scan_def range_int_def) (simp add: empty_page_def)
  have "index_in {} 4 (ustr ''t'', ustr ''a'') ?s Map.empty" by (rule index_in_empty [OF ready keyed_fields(6)]) simp
  moreover have "txn_pages ?s 2 \<noteq> None" using txn_pages_use [of ?s 2] assms(1,3) by (simp add: keyed_fields)
  ultimately show "table_indexes keyed_table {2} (\<lambda>c. {}) ?s no_keys"
    using ready fixed_widths_safe [of 4] by (auto simp: table_indexes_def keyed_facts keyed_fields)
qed

lemma keyed_room:
  assumes "plain_at s 2 (empty_page 2)" and "pid \<in> set [2]" and "plain_at s pid pg"
  shows "room_for pg [0, 0, 0, 0, 5]"
proof -
  have "pg = empty_page 2" using plain_at_unique [OF assms(1)] assms(2,3) by simp
  then show ?thesis by (simp add: room_for_def empty_page_def free_space_def)
qed

text \<open>The first row, and the statement that inserts it.\<close>

lemma keyed_insert:
  obtains p s1 t where "pager_inv p" and "wal_has p []" and "next_page_id p = 3" and "pages_in_use p 2 = Some (page_image (empty_page 2))"
    and "insert_inline_only keyed_table [0, 0, 0, 0, 5] (keyed_state p) = (Inr (2, 0), s1)"
    and "index_row keyed_table [PInt 5] (2, 0) s1 = (Inr (), t)"
    and "validate_unique_keys [PInt 5] keyed_table (keyed_state p) [] = Inr [(([ustr ''a''], ''duplicate_pk''), [[PInt 5]])]"
    and "exec_insert (sample_insert [[PInt 5]]) (keyed_state p) = (Inr (Lists []), t)" and "has_room (x_pager t)"
    and "exec_insert (sample_insert [[PInt 5], [PNone]]) (keyed_state p) = (Inl (ConstraintViolation ''null'' [ustr ''a'']), t)"
    and "txn_ready t" and "x_catalog t = [(ustr ''t'', keyed_table)]" and "get_btree (ustr ''t'', ustr ''a'') t \<noteq> get_btree (ustr ''t'', ustr ''a'') (keyed_state p)"
proof -
  obtain p where p: "pager_inv p" "free_ids p = []" "wal_has p []" "next_page_id p = 3" "pages_in_use p 2 = Some (page_image (empty_page 2))"
    by (rule sample_pager)
  let ?s = "keyed_state p"
  note k = keyed_ready [OF p(1,3,5)]
  have len: "length (page_image one_row) = 4096" using length_page_image [OF sample_slot(2)] .
  have "txn_pages ?s 2 \<noteq> None" using k(5) by (auto simp: table_indexes_def)
  from txn_write [OF k(1) disjI2 [OF this] len] obtain s1 where
    s1: "exec_write_page 2 (page_image one_row) ?s = (Inr (), s1)" "txn_ready s1" "same_tables ?s s1" "next_page_id (x_pager s1) = 3"
    using p(4) by (auto simp: keyed_fields)
  obtain raw where raw: "exec_read_page 2 ?s = Inr raw" "from_bytes 2 raw = Inr (empty_page 2)" using k(2) by (auto simp: plain_at_def)
  have ins: "insert_inline_only keyed_table [0, 0, 0, 0, 5] ?s = (Inr (2, 0), s1)"
    by (rule insert_first_page [OF _ _ raw sample_slot(1) to_bytes_image [OF sample_slot(2)] s1(1)]) (simp_all add: keyed_fields keyed_facts(1))
  have "get_btree (ustr ''t'', ustr ''a'') s1 = Some \<lparr>ix_root = None, ix_pager = Some 0\<rparr>"
    using s1(3) keyed_fields(6) [of p] by (simp add: same_tables_def get_btree_def)
  from index_in_empty [OF s1(2) this] have ix: "index_in {} 4 (ustr ''t'', ustr ''a'') s1 Map.empty" by simp
  have room: "txn_room (1 + (card ({} :: int set) + 2)) s1" "txn_room (card ({} :: int set) + 2) s1"
    using s1(4) by (simp_all add: txn_room_def page_room_def)
  have "safe_width 4" "length [0, 0, 0, 5 :: byte] = 4" "u32 (fst (2, 0 :: int))" "u32 (snd (2 :: int, 0))"
    using fixed_widths_safe by (simp_all add: u32_def)
  from index_insert_in [OF ix this room(2)] room(1) obtain t Q where
    t: "index_insert (ustr ''t'', ustr ''a'') [0, 0, 0, 5] (2, 0) s1 = (Inr (), t)" "txn_room 1 t"
      "index_in Q 4 (ustr ''t'', ustr ''a'') t (Map.empty([0, 0, 0, 5] \<mapsto> (2, 0)))" "x_catalog t = x_catalog s1" by (auto simp: tree_step_def index_only_def)
  then have row: "index_row keyed_table [PInt 5] (2, 0) s1 = (Inr (), t)"
    by (simp add: index_row_def keyed_facts liftE_def bindS_def)
  have check: "validate_unique_keys [PInt 5] keyed_table ?s [] = Inr [(([ustr ''a''], ''duplicate_pk''), [[PInt 5]])]"
    by (simp add: validate_unique_keys_def keyed_facts check_group_def col_idx_def row_at_def scan_unique_keys_def k(4) key_in_def session_keys_def)
  have "need_table (ustr ''t'') ?s = Inr keyed_table" by (simp add: need_table_def catalog_get_table_def keyed_fields)
  then have run: "exec_insert (sample_insert [[PInt 5]]) ?s = (Inr (Lists []), t)"
    using ins row check
    by (simp add: exec_insert_def sample_insert_def insert_one_def insert_row_into_chain_def readS_def liftE_def bindS_def Let_def keyed_facts)
  have null: "check_row keyed_table (normalize_row keyed_table [ustr ''a''] [PNone]) = Inl (ConstraintViolation ''null'' [ustr ''a''])" by code_simp
  have two: "exec_insert (sample_insert [[PInt 5], [PNone]]) ?s = (Inl (ConstraintViolation ''null'' [ustr ''a'']), t)"
    using ins row check null \<open>need_table (ustr ''t'') ?s = _\<close>
    by (simp add: exec_insert_def sample_insert_def insert_one_def insert_row_into_chain_def readS_def liftE_def bindS_def Let_def keyed_facts)
  have "has_room (x_pager t)" using t(2) by (simp add: txn_room_def page_room_def has_room_def)
  moreover have "get_btree (ustr ''t'', ustr ''a'') t \<noteq> get_btree (ustr ''t'', ustr ''a'') ?s"
    using t(3) by (auto simp: index_in_def index_is_def index_tree.is_map_def keyed_fields(6) dest: fun_cong [of _ _ "[0, 0, 0, 5]"])
  ultimately show ?thesis using that [OF p(1,3-5) ins row check run] two index_in_ready [OF t(3)] t(4) s1(3) by (simp add: same_tables_def keyed_fields)
qed

text \<open>The table with that row.\<close>

lemma keyed_row:
  obtains t dps Q where "plain_table t keyed_table dps" and "table_indexes keyed_table (set dps) Q t (put_row keyed_table [PInt 5] (2, 0) no_keys)"
    and "scan_table keyed_table t = Inr [(0, [PInt 5], 2)]"
    and "index_exact keyed_table [(0, [PInt 5], 2)] (put_row keyed_table [PInt 5] (2, 0) no_keys)"
    and "need_table (ustr ''t'') t = Inr keyed_table"
proof -
  obtain p s1 t where p: "pager_inv p" "wal_has p []" "next_page_id p = 3" "pages_in_use p 2 = Some (page_image (empty_page 2))"
    and ins: "insert_inline_only keyed_table [0, 0, 0, 0, 5] (keyed_state p) = (Inr (2, 0), s1)"
      "index_row keyed_table [PInt 5] (2, 0) s1 = (Inr (), t)"
      "validate_unique_keys [PInt 5] keyed_table (keyed_state p) [] = Inr [(([ustr ''a''], ''duplicate_pk''), [[PInt 5]])]"
    and cat: "x_catalog t = [(ustr ''t'', keyed_table)]" and room: "has_room (x_pager t)" by (rule keyed_insert)
  note k = keyed_ready [OF p(1,2,4)]
  have "\<exists>dps' Q rows'. plain_table t keyed_table dps' \<and> table_indexes keyed_table (set dps') Q t (put_row keyed_table [PInt 5] (2, 0) no_keys) \<and>
    scan_table keyed_table t = Inr rows' \<and> index_exact keyed_table rows' (put_row keyed_table [PInt 5] (2, 0) no_keys) \<and>
    mset rows' = mset [] + {#(snd (2 :: int, 0 :: int), [PInt 5], fst (2 :: int, 0 :: int))#}"
  proof (rule insert_row_exact [OF ins k(3,4) _ room])
    show "table_indexes keyed_table (set [2]) (\<lambda>c. {}) (keyed_state p) no_keys" using k(5) by simp
    show "decode_row [0, 0, 0, 0, 5] (schema_v2 keyed_table) = Inr [PInt 5]" by code_simp
    show "room_for pg [0, 0, 0, 0, 5]" if "pid \<in> set [2]" "plain_at (keyed_state p) pid pg" for pid pg by (rule keyed_room [OF k(2) that])
    show "length [PInt 5] = length (ti_columns keyed_table)" by (simp add: keyed_table_def)
  qed (simp_all add: keyed_facts keyed_fields p(3) keyed_simple index_exact_empty)
  moreover have "need_table (ustr ''t'') t = Inr keyed_table"
    by (simp add: need_table_def catalog_get_table_def cat)
  ultimately show ?thesis using that by auto
qed

section \<open>Witnesses\<close>

lemma insert_found_by_key_witness:
  "\<exists>s t. exec_insert (sample_insert [[PInt 5]]) s = (Inr (Lists []), t) \<and>
    exec_indexed_select (by_key 5) keyed_table [0] t = Inr (Some [[PInt 5]])"
proof -
  obtain p s1 t where p: "pager_inv p" "wal_has p []" "next_page_id p = 3" "pages_in_use p 2 = Some (page_image (empty_page 2))"
    and run: "exec_insert (sample_insert [[PInt 5]]) (keyed_state p) = (Inr (Lists []), t)" and room: "has_room (x_pager t)"
    by (rule keyed_insert)
  note k = keyed_ready [OF p(1,2,4)]
  have "\<exists>ref dps' Q. let row' = map2 stored_col [PInt 5] (schema_v2 keyed_table) in
    row_added keyed_table row' ref [] t \<and> plain_table t keyed_table dps' \<and>
    table_indexes keyed_table (set dps') Q t (put_row keyed_table [PInt 5] ref no_keys) \<and>
    (\<forall>c sel v q proj. c \<in> set (indexed_columns keyed_table) \<and> s_where sel = Some (EqualsExpr (c_name c) v q) \<and>
        cell_key keyed_table [PInt 5] c \<noteq> None \<and> key_for c v = Inr (the (cell_key keyed_table [PInt 5] c)) \<longrightarrow>
      exec_indexed_select sel keyed_table proj t = bindE (slice_and_project sel [(snd ref, row', fst ref)] proj) (\<lambda>out. Inr (Some out)))"
  proof (rule insert_found_by_key [OF run _ _ k(3,4) _ room])
    show "table_indexes keyed_table (set [2]) (\<lambda>c. {}) (keyed_state p) no_keys" using k(5) by simp
    show "need_table (i_table (sample_insert [[PInt 5]])) (keyed_state p) = Inr keyed_table"
      by (simp add: need_table_def catalog_get_table_def keyed_fields sample_insert_def)
    show "[PInt 5] = normalize_row keyed_table (i_columns (sample_insert [[PInt 5]])) [PInt 5]" by (simp add: sample_insert_def keyed_facts)
    show "room_for pg [0, 0, 0, 0, 5]" if "pid \<in> set [2]" "plain_at (keyed_state p) pid pg" for pid pg by (rule keyed_room [OF k(2) that])
    show "distinct (map c_name (ti_columns keyed_table))" using keyed_simple by (simp add: simple_keys_def)
  qed (simp_all add: sample_insert_def keyed_facts keyed_fields p(3))
  then obtain ref where "exec_indexed_select (by_key 5) keyed_table [0] t = bindE (slice_and_project (by_key 5) [(snd ref, [PInt 5], fst ref)] [0]) (\<lambda>out. Inr (Some out))"
    using keyed_facts by (fastforce simp: Let_def by_key_def)
  then show ?thesis
    using run by (auto simp: slice_and_project_def by_key_def sample_select_def apply_limit_offset_def project_legacy_row_def row_vals_def)
qed

lemma insert_keeps_indexes_witness:
  "\<exists>s t dps Q rows m. exec_insert (sample_insert [[PInt 5]]) s = (Inr (Lists []), t) \<and> table_indexes keyed_table (set dps) Q t m \<and>
    scan_table keyed_table t = Inr rows \<and> map row_vals rows = [[PInt 5]] \<and> index_exact keyed_table rows m"
proof -
  obtain p s1 t where p: "pager_inv p" "wal_has p []" "next_page_id p = 3" "pages_in_use p 2 = Some (page_image (empty_page 2))"
    and run: "exec_insert (sample_insert [[PInt 5]]) (keyed_state p) = (Inr (Lists []), t)" and room: "has_room (x_pager t)"
    by (rule keyed_insert)
  note k = keyed_ready [OF p(1,2,4)]
  have "\<exists>dps' Q rows' m'. plain_table t keyed_table dps' \<and> table_indexes keyed_table (set dps') Q t m' \<and> scan_table keyed_table t = Inr rows' \<and>
    index_exact keyed_table rows' m' \<and> (\<exists>ref. mset rows' = mset [] + {#(snd ref, map2 stored_col [PInt 5] (schema_v2 keyed_table), fst ref)#})"
  proof (rule insert_keeps_indexes [OF run _ _ k(3,4) _ room])
    show "table_indexes keyed_table (set [2]) (\<lambda>c. {}) (keyed_state p) no_keys" using k(5) by simp
    show "need_table (i_table (sample_insert [[PInt 5]])) (keyed_state p) = Inr keyed_table"
      by (simp add: need_table_def catalog_get_table_def keyed_fields sample_insert_def)
    show "[PInt 5] = normalize_row keyed_table (i_columns (sample_insert [[PInt 5]])) [PInt 5]" by (simp add: sample_insert_def keyed_facts)
    show "room_for pg [0, 0, 0, 0, 5]" if "pid \<in> set [2]" "plain_at (keyed_state p) pid pg" for pid pg by (rule keyed_room [OF k(2) that])
  qed (simp_all add: sample_insert_def keyed_facts keyed_fields p(3) keyed_simple index_exact_empty)
  then show ?thesis using run keyed_facts(6) by (fastforce simp: row_vals_def)
qed

lemma indexed_select_scans_witness:
  "\<exists>t. exec_indexed_select (by_key 5) keyed_table [0] t = Inr (Some [[PInt 5]])"
proof -
  obtain t dps Q where t: "plain_table t keyed_table dps" "scan_table keyed_table t = Inr [(0, [PInt 5], 2)]"
    "table_indexes keyed_table (set dps) Q t (put_row keyed_table [PInt 5] (2, 0) no_keys)"
    "index_exact keyed_table [(0, [PInt 5], 2)] (put_row keyed_table [PInt 5] (2, 0) no_keys)" by (rule keyed_row)
  have "exec_scan_select (by_key 5) (schema_v2 keyed_table) [0] [(0, [PInt 5], 2)] = Inr [[PInt 5]]" by code_simp
  from indexed_select_scans [OF t(1,2,3) keyed_simple t(4), of keyed_column "by_key 5" "PInt 5" None "[0, 0, 0, 5]" "[0]", OF _ _ _ this]
  show ?thesis using keyed_facts by (auto simp: by_key_def)
qed

text \<open>DELETE of that row: it is gone from the scan, and its key from the index.\<close>

lemma delete_removes_matching_witness:
  "\<exists>s t. exec_delete (ustr ''t'') (s_where (by_key 5)) s = (Inr (Lists []), t) \<and>
     scan_table keyed_table s = Inr [(0, [PInt 5], 2)] \<and> lookup_key (ustr ''t'', ustr ''a'') [0, 0, 0, 5] s = Inr (Some (2, 0)) \<and>
     scan_table keyed_table t = Inr [] \<and> lookup_key (ustr ''t'', ustr ''a'') [0, 0, 0, 5] t = Inr None"
proof -
  obtain s dps P where s: "plain_table s keyed_table dps" "scan_table keyed_table s = Inr [(0, [PInt 5], 2)]"
    "table_indexes keyed_table (set dps) P s (put_row keyed_table [PInt 5] (2, 0) no_keys)"
    "index_exact keyed_table [(0, [PInt 5], 2)] (put_row keyed_table [PInt 5] (2, 0) no_keys)"
    "need_table (ustr ''t'') s = Inr keyed_table" by (rule keyed_row)
  have w: "where_matches (s_where (by_key 5)) (schema_v2 keyed_table) (0, [PInt 5], 2) = Inr True" by code_simp
  then have "\<forall>r \<in> set [(0, [PInt 5], 2)]. \<exists>b. where_matches (s_where (by_key 5)) (schema_v2 keyed_table) r = Inr b" by auto
  from delete_removes_matching [OF s(5,1-4) this] obtain t rows' Q m where
    del: "exec_delete (ustr ''t'') (s_where (by_key 5)) s = (Inr (Lists []), t)"
      "rows' = filter (\<lambda>r. where_matches (s_where (by_key 5)) (schema_v2 keyed_table) r = Inr False) [(0, [PInt 5], 2)]"
      "scan_table keyed_table t = Inr rows'" "table_indexes keyed_table (set dps) Q t m" "index_exact keyed_table rows' m" by blast
  have "rows' = []" using del(2) w by simp
  then have t: "exec_delete (ustr ''t'') (s_where (by_key 5)) s = (Inr (Lists []), t)" "scan_table keyed_table t = Inr []"
    "table_indexes keyed_table (set dps) Q t m" "index_exact keyed_table [] m" using del by simp_all
  have m: "put_row keyed_table [PInt 5] (2, 0) no_keys keyed_column [0, 0, 0, 5] = Some (2, 0)" "m keyed_column [0, 0, 0, 5] = None"
    using t(4) by (simp_all add: put_row_def index_exact_def keyed_facts option.distinct not_Some_eq [symmetric] del: not_Some_eq)
  obtain w w' where "index_in (P keyed_column) w (ustr ''t'', ustr ''a'') s (put_row keyed_table [PInt 5] (2, 0) no_keys keyed_column)"
    "index_in (Q keyed_column) w' (ustr ''t'', ustr ''a'') t (m keyed_column)"
    using s(3) t(3) by (auto simp: table_indexes_def keyed_facts)
  from lookup_in [OF this(1), of "[0, 0, 0, 5]"] lookup_in [OF this(2), of "[0, 0, 0, 5]"] m
  have "lookup_key (ustr ''t'', ustr ''a'') [0, 0, 0, 5] s = Inr (Some (2, 0))" "lookup_key (ustr ''t'', ustr ''a'') [0, 0, 0, 5] t = Inr None"
    by simp_all
  then show ?thesis using s(2) t(1,2) by blast
qed

section \<open>Statements undone\<close>

text \<open>An INSERT of two rows whose second is NULL in the key: the first is gone too, from the table and from its index.\<close>

lemma failed_statement_atomic_witness:
  "\<exists>p e t. execute latin1 (S_Insert (sample_insert [[PInt 5], [PNone]])) (keyed_session p) = (Inl e, t) \<and>
     restored (snapshot_state (keyed_session p)) t \<and> same_contents (keyed_session p) t \<and>
     get_btree (ustr ''t'', ustr ''a'') t = Some \<lparr>ix_root = None, ix_pager = Some 0\<rparr>"
proof -
  obtain p s1 where p: "pager_inv p" and room: "has_room (x_pager s1)"
    and run: "exec_insert (sample_insert [[PInt 5], [PNone]]) (keyed_state p) = (Inl (ConstraintViolation ''null'' [ustr ''a'']), s1)"
    by (rule keyed_insert)
  let ?st = "S_Insert (sample_insert [[PInt 5], [PNone]])"
  obtain e t where ex: "execute latin1 ?st (keyed_session p) = (Inl e, t)" and t: "x_pager t = x_pager (snd (on_txn rollback s1))"
    using sample_execute [OF refl keyed_session_ok keyed_state_def [symmetric] run] by blast
  have "only_log (x_pager s1) (x_pager t)"
    using use_log [OF txn_log_rollback prod.collapse [symmetric], of s1] by (simp add: t)
  then have "has_room (x_pager t)" using room by (simp add: only_log_def has_room_def)
  from failed_statement_atomic [OF keyed_session_ok _ _ ex _ this, of "ConstraintViolation ''null'' [ustr ''a'']"] run p
  have "restored (undo_point (keyed_session p)) t \<and> same_contents (keyed_session p) t"
    by (simp add: exec_stmt_def keyed_state_def [symmetric]) (simp add: keyed_session_def new_executor_def)
  then show ?thesis using ex keyed_undo by metis
qed

text \<open>BEGIN, an INSERT, ROLLBACK.\<close>

lemma rollback_undoes_witness:
  "\<exists>p s1 s2 o2 o3 t.
     execute latin1 (S_Begin 1 1) (keyed_session p) = (Inr (Lists []), s1) \<and>
     execute latin1 (S_Insert (sample_insert [[PInt 5]])) s1 = (Inr o2, s2) \<and>
     get_btree (ustr ''t'', ustr ''a'') s2 \<noteq> get_btree (ustr ''t'', ustr ''a'') s1 \<and>
     execute latin1 (S_Rollback 1 1) s2 = (Inr o3, t) \<and>
     restored (snapshot_state (keyed_session p)) t \<and> same_contents (keyed_session p) t \<and>
     get_btree (ustr ''t'', ustr ''a'') t = Some \<lparr>ix_root = None, ix_pager = Some 0\<rparr>"
proof -
  obtain p s2 where p: "pager_inv p" and run: "exec_insert (sample_insert [[PInt 5]]) (keyed_state p) = (Inr (Lists []), s2)"
    and room: "has_room (x_pager s2)" and ready: "txn_ready s2"
    and ix: "get_btree (ustr ''t'', ustr ''a'') s2 \<noteq> get_btree (ustr ''t'', ustr ''a'') (keyed_state p)"
    by (rule keyed_insert)
  have b: "execute latin1 (S_Begin 1 1) (keyed_session p) = (Inr (Lists []), keyed_state p)"
    by (simp add: execute_def exec_begin_def bindS_def keyed_state_def begun_def keyed_session_def new_executor_def open_txn_def)
  have e: "execute latin1 (S_Insert (sample_insert [[PInt 5]])) (keyed_state p) = (Inr (Lists []), s2)"
    using run by (simp add: execute_data exec_in_txn_def Let_def exec_stmt_def keyed_fields)
  obtain i t0 ws where i: "0 \<le> i" "i < 256 ^ 8" "x_txn s2 = Some t0" "in_txn i (x_pager s2) ws (t0, x_pager s2)"
    using ready by (auto simp: txn_ready_def)
  obtain t' q' where r: "rollback (t0, x_pager s2) = (Inr (), (t', q'))" and q': "settled i (x_pager s2) q'"
    using rollback_in_txn [OF i(4,1,2)] by auto
  let ?t = "snd (reset_txn (s2\<lparr>x_txn := Some t', x_pager := q'\<rparr>))"
  have "same_books (keyed_state p) s2" by (rule keepsD [OF books.insert_stmt run])
  then have sn: "x_snapshot s2 = Some (snapshot_state (keyed_session p))"
    using begun_simps(3) [OF keyed_session_ok, of p] keyed_undo(1) by (simp add: same_books_def keyed_state_def)
  have rb: "execute latin1 (S_Rollback 1 1) s2 = (Inr (Lists []), ?t)"
    using r i(3) sn by (simp add: execute_def exec_rollback_def bindS_def on_txn_def reset_txn_def restore_state_def)
  have "x_pager ?t = q'" using sn by (simp add: reset_txn_def bindS_def restore_state_def)
  then have room': "has_room (x_pager ?t)" using q' room by (simp add: has_room_def settled_def)
  have all: "execute_all latin1 [S_Insert (sample_insert [[PInt 5]])] (Lists []) (keyed_state p) = (Inr (Lists []), s2)"
    using e by (simp add: bindS_def)
  have pg: "pager_inv (x_pager (keyed_session p))" using p by (simp add: keyed_session_def new_executor_def)
  have "restored (snapshot_state (keyed_session p)) ?t \<and> same_contents (keyed_session p) ?t"
    by (rule rollback_undoes [OF keyed_session_ok b _ all rb pg room']) simp
  then show ?thesis using b e ix rb keyed_undo(2) by blast
qed

text \<open>A CHAR(3) key that is in the table, padded, and is accepted again.\<close>

definition char_column :: column where
  "char_column = \<lparr>c_name = ustr ''a'', c_type = ''CHAR'', c_params = [3], c_nullable = False, c_unique = False, c_pk = True\<rparr>"

definition char_table :: table_info where
  "char_table = sample_table\<lparr>ti_columns := [char_column]\<rparr>"

definition char_row :: slotted_page where
  "char_row = (empty_page 2)\<lparr>data := [0, 0, 3, 97, 98, 32], data_offset := 4088, num_slots := 1, free_offset := 22,
     slots := [\<lparr>slot.s_offset = 0, s_length = 6, s_flags = 0\<rparr>]\<rparr>"

definition char_state :: exec where
  "char_state = (new_executor (new_memory_pager\<lparr>mem_pages := [(0, file_header), (1, zero_page), (2, page_image char_row)], next_page_id := 3\<rparr>)
     [(ustr ''t'', char_table)])\<lparr>x_data_pages := [(ustr ''t'', [2])]\<rparr>"

lemma char_scan: "scan_table char_table char_state = Inr [(0, [PStr [97, 98, 32]], 2)]"
proof -
  have wf: "page_wf char_row" by (simp add: char_row_def empty_page_def page_wf_def slot_fits_def free_space_def)
  have ok: "page_ok char_row" by (simp add: char_row_def empty_page_def page_ok_def slot_ok_def)
  have "from_bytes 2 (page_image char_row) = Inr char_row" using from_bytes_image [OF wf] by (simp add: char_row_def empty_page_def)
  moreover have "exec_read_page 2 char_state = Inr (page_image char_row)"
    by (simp add: char_state_def exec_read_page_def new_executor_def read_page_def new_memory_pager_def)
  ultimately have at: "plain_at char_state 2 char_row"
    using wf ok by (simp add: plain_at_def plain_page_def char_state_def new_executor_def index_pages_def)
      (simp add: char_row_def spilled_def)
  have slot: "page_rows char_row 0 = Some [0, 0, 3, 97, 98, 32]"
    unfolding page_rows_ok [OF ok] by (simp add: char_row_def slot_row_def tombstoned_def slice_nonneg empty_page_def)
  have "decode_row [0, 0, 3, 97, 98, 32] (schema_v2 char_table) = Inr [PStr [97, 98, 32]]" by code_simp
  then have "page_scan char_table 2 char_row = Inr [(0, [PStr [97, 98, 32]], 2)]"
    using slot by (simp add: page_scan_def slot_hit_def range_int_def) (simp add: char_row_def slot_hit_def slot)
  then show ?thesis
    using scan_plain_page [OF at, of char_table]
    by (simp add: scan_table_pages [where pids = "[2]"] char_state_def char_table_def sample_table_def)
qed

lemma padded_key_accepted_witness:
  "\<exists>sess. scan_table char_table char_state = Inr [(0, [PStr [97, 98, 32]], 2)] \<and>
    check_group [PStr [97, 98]] char_table char_state [] ([ustr ''a''], ''duplicate_pk'') = Inr sess"
proof -
  have c: "c_name char_column = ustr ''a''" "row_cell char_table [PStr [97, 98]] char_column = Inr (PStr [97, 98])"
    "row_cell char_table [PStr [97, 98, 32]] char_column = Inr (PStr [97, 98, 32])"
    "utf8_encode [97, 98] = Inr [97, 98]" "utf8_encode [97, 98, 32] = Inr [97, 98, 32]" by code_simp+
  have "\<exists>sess'. check_group [PStr [97, 98]] char_table char_state [] ([c_name char_column], ''duplicate_pk'') = Inr sess'"
    by (rule padded_key_accepted [OF char_scan c(2,4), where n = 3]) (simp_all add: c row_vals_def session_keys_def)
  then show ?thesis using char_scan c(1) by simp
qed

end
