(* ===== verification/Parser_Total.thy ===== *)
theory Parser_Total
  imports Parser
begin

text \<open>
  The parser on a token list that ends in its only EOF token, as the lexer makes
  them: it always comes back, either with statements or with a \<open>ParseError\<close>. The
  judgement \<open>good m h k p\<close> says so of a parsing command on at most \<open>m\<close> tokens, with \<open>k\<close> consumed at
  least when it succeeds and \<open>h\<close> the next token where it is already known; its
  rules follow the combinators, so each method of the parser is one line.
\<close>

named_theorems good_intros \<open>rules of the judgement on parsing commands\<close>

definition eof_ended :: "token list \<Rightarrow> bool" where
  "eof_ended ts \<longleftrightarrow> ts \<noteq> [] \<and> t_type (last ts) = T_EOF \<and> list_all (\<lambda>t. t_type t \<noteq> T_EOF) (butlast ts)"

lemma eof_ended_Cons: "eof_ended (t # ts) \<longleftrightarrow> (if t_type t = T_EOF then ts = [] else eof_ended ts)"
  by (auto simp: eof_ended_def)

definition good :: "nat \<Rightarrow> token option \<Rightarrow> nat \<Rightarrow> 'a parser \<Rightarrow> bool" where
  "good m h k p \<longleftrightarrow>
     (\<forall>ts. eof_ended ts \<and> length ts \<le> m \<and> (case h of None \<Rightarrow> True | Some t \<Rightarrow> hd ts = t) \<longrightarrow>
       (case p ts of
          (Inl e, _) \<Rightarrow> \<exists>l c. e = ParseError l c
        | (Inr a, ts') \<Rightarrow> eof_ended ts' \<and> length ts' + k \<le> length ts))"

definition fails :: "'a parser \<Rightarrow> bool" where
  "fails p \<longleftrightarrow> (\<forall>ts. \<exists>l c ts'. p ts = (Inl (ParseError l c), ts'))"

lemma goodI:
  assumes "\<And>t ts. eof_ended (t # ts) \<Longrightarrow> h = None \<or> h = Some t \<Longrightarrow> Suc (length ts) \<le> m \<Longrightarrow>
    (\<exists>l c ts'. p (t # ts) = (Inl (ParseError l c), ts')) \<or>
    (\<exists>a ts'. p (t # ts) = (Inr a, ts') \<and> eof_ended ts' \<and> length ts' + k \<le> Suc (length ts))"
  shows "good m h k p"
  unfolding good_def
proof (intro allI impI)
  fix ts assume "eof_ended ts \<and> length ts \<le> m \<and> (case h of None \<Rightarrow> True | Some t \<Rightarrow> hd ts = t)"
  moreover from this obtain t r where "ts = t # r" by (cases ts) (auto simp: eof_ended_def)
  ultimately show "case p ts of (Inl e, _) \<Rightarrow> \<exists>l c. e = ParseError l c
      | (Inr a, ts') \<Rightarrow> eof_ended ts' \<and> length ts' + k \<le> length ts"
    using assms [of t r] by (auto split: option.splits)
qed

lemma goodD:
  assumes "good m h k p" and "eof_ended ts" and "length ts \<le> m" and "h = None \<or> h = Some (hd ts)"
  obtains (err) l c ts' where "p ts = (Inl (ParseError l c), ts')"
    | (ok) a ts' where "p ts = (Inr a, ts')" "eof_ended ts'" "length ts' + k \<le> length ts"
proof -
  have "case p ts of (Inl e, _) \<Rightarrow> \<exists>l c. e = ParseError l c
      | (Inr a, ts') \<Rightarrow> eof_ended ts' \<and> length ts' + k \<le> length ts"
    using assms unfolding good_def by auto
  then show thesis using err ok by (cases "p ts"; cases "fst (p ts)") auto
qed

lemma good_head: "good m None k p \<Longrightarrow> good m h k p"
  by (auto simp: good_def)

lemma good_weaken: "good m h j p \<Longrightarrow> k \<le> j \<Longrightarrow> good m h k p"
  unfolding good_def by (fastforce split: prod.splits sum.splits)

lemma good_return [good_intros]: "k = 0 \<Longrightarrow> good m h k (returnS a)"
  by (auto simp: good_def)

lemma good_error [good_intros]: "good m h k (error_at t)" "good m h k (raiseS (ParseError l c))"
  by (auto simp: good_def error_at_def)

lemma fails_error [simp]: "fails (error_at t)"
  by (simp add: fails_def error_at_def)

lemma good_if [good_intros]:
  "(b \<Longrightarrow> good m h k p) \<Longrightarrow> (\<not> b \<Longrightarrow> good m h k q) \<Longrightarrow> good m h k (if b then p else q)"
  by simp

lemma good_bind:
  assumes p: "good m h j p" and f: "\<And>a. good (m - j) None (k - j) (f a)"
  shows "good m h k (bindS p f)"
proof (rule goodI)
  fix t ts assume e: "eof_ended (t # ts)" and h: "h = None \<or> h = Some t"
    and m: "Suc (length ts) \<le> m"
  have len: "length (t # ts) \<le> m" using m by simp
  have h': "h = None \<or> h = Some (hd (t # ts))" using h by simp
  show "(\<exists>l c ts'. bindS p f (t # ts) = (Inl (ParseError l c), ts')) \<or>
    (\<exists>a ts'. bindS p f (t # ts) = (Inr a, ts') \<and> eof_ended ts' \<and> length ts' + k \<le> Suc (length ts))"
  proof (rule goodD [OF p e len h'])
    fix l c ts' assume "p (t # ts) = (Inl (ParseError l c), ts')"
    then show ?thesis by (auto simp: bindS_def)
  next
    fix a ts' assume ok: "p (t # ts) = (Inr a, ts')" "eof_ended ts'" "length ts' + j \<le> length (t # ts)"
    have len': "length ts' \<le> m - j" using ok(3) len by simp
    show ?thesis
    proof (rule goodD [OF f [of a] ok(2) len'])
      fix l c r assume "f a ts' = (Inl (ParseError l c), r)"
      then show ?thesis using ok(1) by (auto simp: bindS_def)
    next
      fix b r assume "f a ts' = (Inr b, r)" "eof_ended r" "length r + (k - j) \<le> length ts'"
      then show ?thesis using ok by (auto simp: bindS_def)
    qed simp
  qed
qed

lemma good_peek [good_intros]:
  "(\<And>t. good m (Some t) k (f t)) \<Longrightarrow> good m None k (bindS peek f)"
  "good m (Some t) k (f t) \<Longrightarrow> good m (Some t) k (bindS peek f)"
proof -
  have step: "good m h k (bindS peek f)" if "\<And>t. h = None \<or> h = Some t \<Longrightarrow> good m (Some t) k (f t)" for h
  proof (rule goodI)
    fix t ts assume e: "eof_ended (t # ts)" and h: "h = None \<or> h = Some t"
    and m: "Suc (length ts) \<le> m"
    have len: "length (t # ts) \<le> m" using m by simp
    have h': "Some t = None \<or> Some t = Some (hd (t # ts))" by simp
    show "(\<exists>l c ts'. bindS peek f (t # ts) = (Inl (ParseError l c), ts')) \<or>
      (\<exists>a ts'. bindS peek f (t # ts) = (Inr a, ts') \<and> eof_ended ts' \<and> length ts' + k \<le> Suc (length ts))"
      by (rule goodD [OF that [OF h] e len h']) (auto simp: bindS_def peek_def)
  qed
  show "(\<And>t. good m (Some t) k (f t)) \<Longrightarrow> good m None k (bindS peek f)" by (rule step)
  show "good m (Some t) k (f t) \<Longrightarrow> good m (Some t) k (bindS peek f)" by (rule step) auto
qed

lemma good_advance [good_intros]:
  assumes "\<And>t. h = None \<or> h = Some t \<Longrightarrow> t_type t \<noteq> T_EOF \<Longrightarrow> good (m - 1) None (k - 1) (f t)"
    and "\<And>t. h = None \<or> h = Some t \<Longrightarrow> t_type t = T_EOF \<Longrightarrow> fails (f t)"
  shows "good m h k (bindS advance f)"
proof (rule goodI)
  fix t ts assume e: "eof_ended (t # ts)" and h: "h = None \<or> h = Some t"
    and m: "Suc (length ts) \<le> m"
  show "(\<exists>l c ts'. bindS advance f (t # ts) = (Inl (ParseError l c), ts')) \<or>
    (\<exists>a ts'. bindS advance f (t # ts) = (Inr a, ts') \<and> eof_ended ts' \<and> length ts' + k \<le> Suc (length ts))"
  proof (cases "t_type t = T_EOF")
    case True
    then have "fails (f t)" by (rule assms(2) [OF h])
    then show ?thesis by (auto simp: fails_def bindS_def advance_def)
  next
    case False
    then have "good (m - 1) None (k - 1) (f t)" "eof_ended ts" "length ts \<le> m - 1"
      using assms(1) [OF h] e m by (simp_all add: eof_ended_Cons)
    then show ?thesis by (rule goodD) (auto simp: bindS_def advance_def)
  qed
qed

lemma good_advance_last [good_intros]:
  "t_type t \<noteq> T_EOF \<Longrightarrow> k \<le> 1 \<Longrightarrow> good m (Some t) k advance"
  by (rule goodI) (auto simp: advance_def eof_ended_Cons)

lemma is_tok_type [dest]: "is_tok ty s t \<Longrightarrow> t_type t = ty"
  by (simp add: is_tok_def)

lemma good_peek_kw [good_intros]:
  "(\<And>t. is_tok T_KEYWORD s t \<Longrightarrow> good m (Some t) k (f True)) \<Longrightarrow>
   (\<And>t. \<not> is_tok T_KEYWORD s t \<Longrightarrow> good m (Some t) k (f False)) \<Longrightarrow> good m None k (bindS (peek_kw s) f)"
  "(is_tok T_KEYWORD s t \<Longrightarrow> good m (Some t) k (f True)) \<Longrightarrow>
   (\<not> is_tok T_KEYWORD s t \<Longrightarrow> good m (Some t) k (f False)) \<Longrightarrow> good m (Some t) k (bindS (peek_kw s) f)"
  unfolding peek_kw_def bindS_assoc
  by (rule good_peek; simp add: bindS_def; case_tac "is_tok T_KEYWORD s t"; simp)+

lemma good_peek_punct [good_intros]:
  "(\<And>t. is_tok T_PUNCT s t \<Longrightarrow> good m (Some t) k (f True)) \<Longrightarrow>
   (\<And>t. \<not> is_tok T_PUNCT s t \<Longrightarrow> good m (Some t) k (f False)) \<Longrightarrow> good m None k (bindS (peek_punct s) f)"
  "(is_tok T_PUNCT s t \<Longrightarrow> good m (Some t) k (f True)) \<Longrightarrow>
   (\<not> is_tok T_PUNCT s t \<Longrightarrow> good m (Some t) k (f False)) \<Longrightarrow> good m (Some t) k (bindS (peek_punct s) f)"
  unfolding peek_punct_def bindS_assoc
  by (rule good_peek; simp add: bindS_def; case_tac "is_tok T_PUNCT s t"; simp)+

section \<open>Loops\<close>

lemma comma_loop_ok:
  assumes body: "\<And>s. good m None 1 (body s)"
  shows "eof_ended ts \<Longrightarrow> length ts \<le> m \<Longrightarrow> length ts < n \<Longrightarrow>
    (\<exists>l c r. comma_loop n body s ts = (Inl (ParseError l c), r)) \<or>
    (\<exists>a r. comma_loop n body s ts = (Inr a, r) \<and> eof_ended r \<and> length r + 1 \<le> length ts)"
proof (induction n arbitrary: s ts)
  case 0
  then show ?case by simp
next
  case (Suc n)
  show ?case
  proof (rule goodD [OF body [of s] Suc.prems(1,2)])
    fix l c r assume "body s ts = (Inl (ParseError l c), r)"
    then show ?thesis by (auto simp: bindS_def)
  next
    fix s' r assume b: "body s ts = (Inr s', r)" "eof_ended r" "length r + 1 \<le> length ts"
    then obtain t r' where r: "r = t # r'" by (cases r) (auto simp: eof_ended_def)
    show ?thesis
    proof (cases "is_tok T_PUNCT '','' t")
      case True
      then have "eof_ended r'" using b(2) r by (auto simp: eof_ended_Cons is_tok_def)
      moreover have "length r' \<le> m" "length r' < n" using b(3) r Suc.prems(2,3) by simp_all
      ultimately show ?thesis using Suc.IH [of r' s'] b(1,3) r True
        by (auto simp: bindS_def peek_punct_def peek_def advance_def)
    next
      case False
      then show ?thesis using b r by (auto simp: bindS_def peek_punct_def peek_def)
    qed
  qed simp
qed

lemma good_comma_list [good_intros]:
  assumes "\<And>s. good m None 1 (body s)" and "k \<le> 1"
  shows "good m h k (comma_list body s)"
proof (rule goodI)
  fix t ts assume e: "eof_ended (t # ts)" and "Suc (length ts) \<le> m"
  then have len: "length (t # ts) \<le> m" by simp
  from comma_loop_ok [where body = body and s = s and n = "Suc (length (t # ts))", OF assms(1) e len] assms(2)
  show "(\<exists>l c ts'. comma_list body s (t # ts) = (Inl (ParseError l c), ts')) \<or>
    (\<exists>a ts'. comma_list body s (t # ts) = (Inr a, ts') \<and> eof_ended ts' \<and> length ts' + k \<le> Suc (length ts))"
    unfolding comma_list_def by fastforce
qed

lemma while_loop_ok:
  assumes body: "\<And>t s. C t \<Longrightarrow> good m (Some t) 1 (body s)"
  shows "eof_ended ts \<Longrightarrow> length ts \<le> m \<Longrightarrow> length ts < n \<Longrightarrow>
    (\<exists>l c r. while_loop n (bindS peek (\<lambda>t. returnS (C t))) body s ts = (Inl (ParseError l c), r)) \<or>
    (\<exists>a r. while_loop n (bindS peek (\<lambda>t. returnS (C t))) body s ts = (Inr a, r) \<and> eof_ended r \<and> length r \<le> length ts)"
proof (induction n arbitrary: s ts)
  case 0
  then show ?case by simp
next
  case (Suc n)
  obtain t r' where ts: "ts = t # r'" using Suc.prems(1) by (cases ts) (auto simp: eof_ended_def)
  show ?case
  proof (cases "C t")
    case True
    have h: "Some t = None \<or> Some t = Some (hd ts)" by (simp add: ts)
    show ?thesis
    proof (rule goodD [OF body [OF True, of s] Suc.prems(1,2) h])
      fix l c r assume "body s ts = (Inl (ParseError l c), r)"
      then show ?thesis using True by (auto simp: bindS_def peek_def ts)
    next
      fix s' r assume b: "body s ts = (Inr s', r)" "eof_ended r" "length r + 1 \<le> length ts"
      have "length r \<le> m" "length r < n" using b(3) Suc.prems(2,3) by simp_all
      from Suc.IH [OF b(2) this, of s'] b True show ?thesis by (auto simp: bindS_def peek_def ts)
    qed
  next
    case False
    then show ?thesis using Suc.prems(1) by (auto simp: bindS_def peek_def ts)
  qed
qed

lemma good_while [good_intros]:
  assumes "\<And>t s. C t \<Longrightarrow> good m (Some t) 1 (body s)"
  shows "good m h 0 (while_tokens (bindS peek (\<lambda>t. returnS (C t))) body s)"
proof (rule goodI)
  fix t ts assume e: "eof_ended (t # ts)" and "Suc (length ts) \<le> m"
  then have len: "length (t # ts) \<le> m" by simp
  from while_loop_ok [where C = C and body = body and s = s and n = "Suc (length (t # ts))", OF assms e len]
  show "(\<exists>l c ts'. while_tokens (bindS peek (\<lambda>t. returnS (C t))) body s (t # ts) = (Inl (ParseError l c), ts')) \<or>
    (\<exists>a ts'. while_tokens (bindS peek (\<lambda>t. returnS (C t))) body s (t # ts) = (Inr a, ts') \<and> eof_ended ts' \<and>
       length ts' + 0 \<le> Suc (length ts))"
    unfolding while_tokens_def by simp
qed

section \<open>The methods\<close>

lemma good_sub:
  assumes "good m None 1 p" and "\<And>a. good (m - 1) None 0 (f a)" and "k \<le> 1"
  shows "good m h k (bindS p f)"
  by (rule good_bind [OF good_head [OF assms(1)]]) (use assms(2,3) in \<open>auto intro: good_weaken\<close>)

lemma good_opt:
  assumes "good m None 0 p" and "\<And>a. good m None k (f a)"
  shows "good m h k (bindS p f)"
  by (rule good_bind [OF good_head [OF assms(1)]]) (use assms(2) in simp)

text \<open>Commands under a conditional take the continuation into both branches.\<close>

lemma bind_norm:
  "bindS (if b then p else q) f = (if b then bindS p f else bindS q f)"
  "bindS (returnS a) g = g a"
  "bindS (bindS r g') f' = bindS r (\<lambda>a. bindS (g' a) f')"
  "bindS (error_at t) h = error_at t"
  by (auto simp: bindS_def error_at_def fun_eq_iff split: prod.splits sum.splits)

lemma good_expect: "ty \<noteq> T_EOF \<Longrightarrow> good m None 1 (expect ty s)"
  unfolding expect_def by (intro good_intros) auto

lemma good_expect_keyword: "good m None 1 (expect_keyword s)"
  unfolding expect_keyword_def by (intro good_intros) auto

lemma good_ident: "good m None 1 ident"
  unfolding ident_def by (intro good_intros) auto

lemma good_ident_str: "good m None 1 ident_str"
  unfolding ident_str_def by (intro good_sub [OF good_ident] good_intros) auto

lemma good_snoc: "good m None 1 p \<Longrightarrow> good m None 1 (snoc_of p xs)"
  unfolding snoc_of_def by (rule good_sub) (auto intro: good_intros)

lemmas good_subs = good_sub [OF good_ident] good_sub [OF good_ident_str] good_sub [OF good_expect]
  good_sub [OF good_expect_keyword]

lemma good_qualified: "good m None 1 parse_qualified_column_ref"
  unfolding parse_qualified_column_ref_def by (intro good_subs good_intros) auto

lemma good_case_option [good_intros]:
  "(x = None \<Longrightarrow> good m h k p) \<Longrightarrow> (\<And>v. x = Some v \<Longrightarrow> good m h k (q v)) \<Longrightarrow>
   good m h k (case x of None \<Rightarrow> p | Some v \<Rightarrow> q v)"
  by (cases x) auto

lemma good_datetime: "good m None 1 (parse_datetime_literal u)"
  unfolding parse_datetime_literal_def bind_norm Let_def
  by (intro good_subs good_intros) auto

lemma py_float_error: "py_float u s = Inl e \<Longrightarrow> e = ValueError"
  by (auto simp: py_float_def Let_def split: prod.splits option.splits)

lemma good_decimal: "good m None 1 (parse_decimal_literal u)"
  unfolding parse_decimal_literal_def bind_norm
  by (intro good_subs good_intros)
    (auto split: sum.splits intro!: good_intros dest: py_float_error simp: is_value_error_def)

lemma good_literal: "good m h 1 (parse_literal_value u)"
  unfolding parse_literal_value_def
  by (rule good_head, intro good_head [OF good_datetime] good_head [OF good_decimal] good_intros)
    (auto simp: literal_types_def)

lemma good_comparison: "good m h 1 (parse_comparison u)"
  unfolding parse_comparison_def
  by (rule good_head, intro good_sub [OF good_qualified] good_sub [OF good_literal] good_intros) auto

text \<open>The fuel of the expression parser covers every level of every parenthesis.\<close>

lemma good_0: "good 0 h k p"
  by (auto simp: good_def eof_ended_def)

lemma good_expr_levels:
  "(4 * m + 4 \<le> n \<longrightarrow> (\<forall>h. good m h 1 (parse_or n u))) \<and>
   (4 * m + 1 \<le> n \<longrightarrow> (\<forall>h e. good m h 0 (or_rest n u e))) \<and>
   (4 * m + 3 \<le> n \<longrightarrow> (\<forall>h. good m h 1 (parse_and n u))) \<and>
   (4 * m + 1 \<le> n \<longrightarrow> (\<forall>h e. good m h 0 (and_rest n u e))) \<and>
   (4 * m + 2 \<le> n \<longrightarrow> (\<forall>h. good m h 1 (parse_not n u))) \<and>
   (4 * m + 1 \<le> n \<longrightarrow> (\<forall>h. good m h 1 (parse_primary n u)))"
proof (induction n arbitrary: m)
  case 0
  then show ?case by simp
next
  case (Suc n)
  have IH: "4 * m + 4 \<le> n \<Longrightarrow> good m h 1 (parse_or n u)"
      "4 * m + 1 \<le> n \<Longrightarrow> good m h 0 (or_rest n u e)"
      "4 * m + 3 \<le> n \<Longrightarrow> good m h 1 (parse_and n u)"
      "4 * m + 1 \<le> n \<Longrightarrow> good m h 0 (and_rest n u e)"
      "4 * m + 2 \<le> n \<Longrightarrow> good m h 1 (parse_not n u)"
      "4 * m + 1 \<le> n \<Longrightarrow> good m h 1 (parse_primary n u)" for m h e
    using Suc.IH [of m] by blast+
  show ?case
  proof (cases "m = 0")
    case True
    then show ?thesis by (simp add: good_0)
  next
    case m: False
  have "good m h 1 (parse_or (Suc n) u)" if "4 * m + 4 \<le> Suc n" for h
    unfolding parse_or.simps by (rule good_sub) (use that m in \<open>auto simp del: One_nat_def intro!: IH\<close>)
  moreover have "good m h 1 (parse_and (Suc n) u)" if "4 * m + 3 \<le> Suc n" for h
    unfolding parse_and.simps by (rule good_sub) (use that m in \<open>auto simp del: One_nat_def intro!: IH\<close>)
  moreover have "good m h 0 (or_rest (Suc n) u e)" if "4 * m + 1 \<le> Suc n" for h e
    unfolding or_rest.simps
    by (rule good_head, intro good_intros good_sub) (use that m in \<open>auto simp del: One_nat_def intro!: IH\<close>)
  moreover have "good m h 0 (and_rest (Suc n) u e)" if "4 * m + 1 \<le> Suc n" for h e
    unfolding and_rest.simps
    by (rule good_head, intro good_intros good_sub) (use that m in \<open>auto simp del: One_nat_def intro!: IH\<close>)
  moreover have "good m h 1 (parse_not (Suc n) u)" if "4 * m + 2 \<le> Suc n" for h
    unfolding parse_not.simps
    by (rule good_head, intro good_intros good_sub) (use that m in \<open>auto simp del: One_nat_def intro!: IH\<close>)
  moreover have "good m h 1 (parse_primary (Suc n) u)" if "4 * m + 1 \<le> Suc n" for h
    unfolding parse_primary.simps
    by (rule good_head, intro good_intros good_sub [of _ "parse_or n u"] good_subs)
      (use that m in \<open>auto simp del: One_nat_def intro!: IH good_comparison good_intros\<close>)
  ultimately show ?thesis by blast
  qed
qed

lemma good_parse_expr: "good m h 1 (parse_expr u)"
proof (rule goodI)
  fix t ts assume e: "eof_ended (t # ts)"
  let ?m = "length (t # ts)"
  have g: "good ?m None 1 (parse_or (expr_fuel (t # ts)) u)"
    using good_expr_levels [of ?m "expr_fuel (t # ts)" u] by (simp add: expr_fuel_def)
  show "(\<exists>l c ts'. parse_expr u (t # ts) = (Inl (ParseError l c), ts')) \<or>
    (\<exists>a ts'. parse_expr u (t # ts) = (Inr a, ts') \<and> eof_ended ts' \<and> length ts' + 1 \<le> Suc (length ts))"
    unfolding parse_expr_def by (rule goodD [OF g e order_refl]) auto
qed

lemma good_where: "good m None 0 (parse_where u)"
  unfolding parse_where_def
  by (intro good_intros good_sub [OF good_parse_expr]) auto

section \<open>CREATE TABLE and DROP TABLE\<close>

lemma good_int_param: "good m None 1 int_param"
  unfolding int_param_def by (intro good_intros) auto

lemma codec_for_supported:
  "ty \<in> set supported_types \<Longrightarrow> parametric_arity ty = Some n \<Longrightarrow> length params = n \<Longrightarrow>
   codec_for ty params = Inl e \<Longrightarrow> e = ValueError"
  by (auto simp: supported_types_def parametric_arity_def codec_for_def is_type_name_def parametric_types_def
      new_char_def new_varchar_def new_decimal_def split: if_splits list.splits)

lemma good_check_type_params:
  assumes "ty \<in> set supported_types"
  shows "good m None 0 (check_type_params ty tok params)"
  unfolding check_type_params_def
  by (intro good_intros)
    (auto split: sum.splits intro!: good_intros dest: codec_for_supported [OF assms] simp: is_value_error_def)

lemma good_type_params:
  assumes "ty \<in> set supported_types"
  shows "good m None 0 (parse_type_params ty tok)"
  unfolding parse_type_params_def bind_norm
  by (intro good_intros good_sub [OF good_int_param] good_subs)
    (auto intro: good_check_type_params [OF assms])

lemma is_one_of_type [dest]: "is_one_of ty ss t \<Longrightarrow> t_type t = ty"
  by (auto simp: is_one_of_def list_ex_iff)

lemma good_constraints: "good m None 0 parse_column_constraints"
  unfolding parse_column_constraints_def
proof (rule good_while)
  fix t :: token and c :: constraints assume "is_one_of T_KEYWORD constraint_keywords t"
  then show "good m (Some t) 1 (parse_constraint c)"
    unfolding parse_constraint_def by (intro good_intros) auto
qed

lemma find_mem: "find P xs = Some x \<Longrightarrow> x \<in> set xs"
  by (auto simp: find_Some_iff)

lemma good_column_definition: "good m None 1 (parse_column_definition u)"
  unfolding parse_column_definition_def
  by (intro good_subs good_intros good_opt [OF good_type_params] good_opt [OF good_constraints])
    (auto dest: find_mem)

lemma good_column_list: "good m None 1 (parse_column_list u)"
  unfolding parse_column_list_def
  by (intro good_intros good_sub [OF good_column_definition]) (auto intro!: good_intros)

lemma good_create: "good m None 1 (parse_create_table u)"
  unfolding parse_create_table_def
  by (intro good_subs good_sub [OF good_column_list] good_intros) auto

lemma good_drop: "good m None 1 parse_drop_table"
  unfolding parse_drop_table_def by (intro good_subs good_intros) auto

section \<open>INSERT, DELETE, UPDATE\<close>

lemma good_insert_value: "good m None 1 (parse_insert_value u)"
  unfolding parse_insert_value_def
  by (intro good_head [OF good_datetime] good_head [OF good_decimal] good_intros)
    (auto simp: literal_types_def)

lemma good_insert_row: "good m None 1 (parse_insert_row u kw n)"
  unfolding parse_insert_row_def
  by (intro good_subs good_intros good_sub [OF good_comma_list [OF good_snoc [OF good_insert_value]]]) auto

lemma good_insert: "good m None 1 (parse_insert u)"
  unfolding parse_insert_def
  by (intro good_subs good_sub [OF good_comma_list [OF good_snoc [OF good_ident_str]]]
      good_sub [OF good_comma_list [OF good_snoc [OF good_insert_row]]] good_intros) auto

lemma good_delete: "good m None 1 (parse_delete u)"
  unfolding parse_delete_def by (intro good_subs good_opt [OF good_where] good_intros) auto

lemma good_assignment: "good m None 1 (parse_assignment u)"
  unfolding parse_assignment_def by (intro good_subs good_sub [OF good_literal] good_intros) auto

lemma good_update: "good m None 1 (parse_update u)"
  unfolding parse_update_def
  by (intro good_subs good_sub [OF good_comma_list [OF good_snoc [OF good_assignment]]]
      good_opt [OF good_where] good_intros) auto

section \<open>SELECT\<close>

lemma good_alias: "good m None 0 (parse_alias u)"
  unfolding parse_alias_def is_keyword_def
  by (intro good_subs good_intros) auto

lemma is_keyword_type: "is_keyword u ns t \<Longrightarrow> t_type t \<noteq> T_EOF"
  by (auto simp: is_keyword_def list_ex_iff)

lemma good_aggregate: "is_keyword u ns t \<Longrightarrow> good m (Some t) 1 parse_aggregate_call"
  unfolding parse_aggregate_call_def bind_norm
  by (intro good_subs good_sub [OF good_qualified] good_intros) (auto dest: is_keyword_type)

lemma good_bind_head:
  assumes "good m (Some t) 1 p" and "\<And>a. good (m - 1) None 0 (f a)" and "k \<le> 1"
  shows "good m (Some t) k (bindS p f)"
  by (rule good_bind [OF assms(1)]) (use assms(2,3) in \<open>auto intro: good_weaken\<close>)

lemma good_select_item: "good m None 1 (parse_select_item u)"
  unfolding parse_select_item_def
  by (intro good_intros good_bind_head [OF good_aggregate] good_sub [OF good_qualified] good_opt [OF good_alias])
    auto

lemma good_select_items: "good m None 1 (parse_select_items u)"
  unfolding parse_select_items_def
  by (intro good_intros good_sub [OF good_select_item]) auto

lemma good_table_ref: "good m None 1 parse_table_ref"
  unfolding parse_table_ref_def bind_norm by (intro good_subs good_intros) auto

lemma good_join_predicate: "good m None 1 parse_join_predicate"
  unfolding parse_join_predicate_def by (intro good_sub [OF good_qualified] good_intros) auto

lemma join_kind_type: "join_kind_of t = Some k \<Longrightarrow> t_type t = T_KEYWORD"
  by (auto simp: join_kind_of_def find_Some_iff join_keywords_def split: if_splits)

lemma good_join_kind: "good m (Some k) 1 (parse_join_kind first k)"
  unfolding parse_join_kind_def bind_norm by (intro good_intros) (auto dest: join_kind_type)

lemma good_join_clause: "good m None 1 parse_join_clause"
  unfolding parse_join_clause_def bind_norm Let_def
  apply (intro good_intros good_bind_head [OF good_join_kind] good_sub [OF good_table_ref] good_subs
      good_sub [OF good_comma_list [OF good_snoc [OF good_ident_str]]] good_sub [OF good_join_predicate])
  apply (auto intro!: good_intros)
  done

lemma good_join_chain: "good m None 0 parse_join_chain"
  unfolding parse_join_chain_def peek_join_start_def
  by (intro good_while good_head [OF good_snoc [OF good_join_clause]])

lemma good_col_list: "good m None 1 parse_col_list"
  unfolding parse_col_list_def
  by (intro good_comma_list good_snoc good_sub [OF good_qualified] good_intros) auto

lemma good_having: "good m None 1 (parse_having_expr u)"
  unfolding parse_having_expr_def bind_norm
  by (intro good_intros good_bind_head [OF good_aggregate] good_subs) (auto simp: literal_types_def)

lemma good_order_item: "good m None 1 parse_order_item"
  unfolding parse_order_item_def bind_norm by (intro good_sub [OF good_qualified] good_intros) auto

lemma good_order_by: "good m None 0 parse_order_by"
  unfolding parse_order_by_def by (intro good_intros good_subs good_snoc good_order_item) auto

lemma good_int_clause: "good m None 0 (parse_int_kw_clause kw nn)"
  unfolding parse_int_kw_clause_def by (intro good_intros) auto

lemma good_select: "good m None 1 (parse_select u)"
  unfolding parse_select_def bind_norm
  by (intro good_subs good_sub [OF good_select_items] good_sub [OF good_table_ref] good_opt [OF good_join_chain]
      good_opt [OF good_where] good_sub [OF good_col_list] good_sub [OF good_having] good_opt [OF good_order_by]
      good_opt [OF good_int_clause] good_intros) auto

section \<open>Statements\<close>

lemma good_statement: "good m None 1 (parse_statement u)"
  unfolding parse_statement_def
  by (intro good_intros good_head [OF good_create] good_head [OF good_drop] good_head [OF good_insert]
      good_head [OF good_select] good_head [OF good_delete] good_head [OF good_update]) auto

lemma good_statement_list: "good m None 0 (parse_statement_list u)"
proof -
  have cond: "bindS at_end (\<lambda>e. returnS (\<not> e)) = bindS peek (\<lambda>t. returnS (t_type t \<noteq> T_EOF))"
    by (simp only: at_end_def bind_norm)
  have body: "good m None 1 (bindS (parse_statement u) (\<lambda>s. bindS (peek_punct '';'') (\<lambda>c.
      bindS (if c then bindS advance (\<lambda>_. returnS ()) else returnS ()) (\<lambda>_. returnS (stmts @ [s])))))" for m stmts
    unfolding bind_norm by (intro good_sub [OF good_statement] good_intros) auto
  show ?thesis
    unfolding parse_statement_list_def cond by (rule good_while) (rule good_head [OF body])
qed

lemma parse_tokens_good:
  assumes "eof_ended ts"
  shows "(\<exists>stmts. parse_tokens u ts = Inr stmts) \<or> (\<exists>l c. parse_tokens u ts = Inl (ParseError l c))"
  by (rule goodD [OF good_statement_list [of "length ts" u] assms]) (auto simp: parse_tokens_def)

lemma tokens_ok_eof_ended: "tokens_ok ts \<Longrightarrow> eof_ended ts"
  by (auto simp: tokens_ok_def eof_ended_def plain_token_def list_all_iff)

section \<open>Comparison operators of HAVING and JOIN ON\<close>

text \<open>Commands that only move forward over the tokens.\<close>

definition forward :: "'a parser \<Rightarrow> bool" where
  "forward p \<longleftrightarrow> (\<forall>ts. set (snd (p ts)) \<subseteq> set ts)"

lemma forward_bind: "forward p \<Longrightarrow> (\<And>a. forward (f a)) \<Longrightarrow> forward (bindS p f)"
proof -
  assume p: "forward p" and f: "\<And>a. forward (f a)"
  have "set (snd (bindS p f ts)) \<subseteq> set ts" for ts
  proof (cases "p ts")
    case (Pair r ts')
    then have "set ts' \<subseteq> set ts" using p by (metis forward_def snd_conv)
    then show ?thesis using f Pair by (cases r) (fastforce simp: forward_def bindS_def)+
  qed
  then show ?thesis by (simp add: forward_def)
qed

lemma forward_basic:
  "forward peek" "forward advance" "forward (returnS a)" "forward (error_at t)"
  by (auto simp: forward_def peek_def advance_def error_at_def split: list.splits)

lemma forward_if: "forward p \<Longrightarrow> forward q \<Longrightarrow> forward (if b then p else q)"
  by simp

lemmas forward_intros = forward_bind forward_basic forward_if

lemma forward_ident: "forward ident" "forward ident_str"
  unfolding ident_def ident_str_def by (intro forward_intros)+

lemma forward_peeks: "forward (peek_kw s)" "forward (peek_punct s)" "forward (expect ty s)"
  unfolding peek_kw_def peek_punct_def expect_def by (intro forward_intros)+

lemma forward_column_ref: "forward parse_qualified_column_ref"
  unfolding parse_qualified_column_ref_def by (intro forward_intros forward_ident forward_peeks)

lemma forward_aggregate_call: "forward parse_aggregate_call"
  unfolding parse_aggregate_call_def Let_def
  by (intro forward_intros forward_ident forward_peeks forward_column_ref)

definition yields :: "token set \<Rightarrow> ('a \<Rightarrow> bool) \<Rightarrow> 'a parser \<Rightarrow> bool" where
  "yields A Q p \<longleftrightarrow> (\<forall>ts a r. set ts \<subseteq> A \<longrightarrow> p ts = (Inr a, r) \<longrightarrow> Q a)"

lemma yieldsD: "yields A Q p \<Longrightarrow> set ts \<subseteq> A \<Longrightarrow> p ts = (Inr a, r) \<Longrightarrow> Q a"
  unfolding yields_def by blast

lemma yields_bind:
  assumes "forward p" and "\<And>a. yields A Q (f a)"
  shows "yields A Q (bindS p f)"
  unfolding yields_def
proof (intro allI impI)
  fix ts a r assume ts: "set ts \<subseteq> A" and run: "bindS p f ts = (Inr a, r)"
  obtain b ts' where b: "p ts = (Inr b, ts')" "f b ts' = (Inr a, r)"
    using run by (auto simp: bindS_def split: prod.splits sum.splits)
  have "set ts' \<subseteq> A" using assms(1) b(1) ts by (metis forward_def snd_conv subset_trans)
  then show "Q a" using yieldsD [OF assms(2) _ b(2)] by simp
qed

lemma yields_peek: "(\<And>t. t \<in> A \<Longrightarrow> yields A Q (f t)) \<Longrightarrow> yields A Q (bindS peek f)"
  unfolding yields_def bindS_def peek_def
  by (auto split: list.splits) (metis insert_subset list.simps(15))

lemma yields_advance: "(\<And>t. t \<in> A \<Longrightarrow> yields A Q (f t)) \<Longrightarrow> yields A Q (bindS advance f)"
  unfolding yields_def bindS_def advance_def
  by (auto split: list.splits)

lemma yields_basic: "Q a \<Longrightarrow> yields A Q (returnS a)" "yields A Q (error_at t)"
  by (simp_all add: yields_def error_at_def)

lemma yields_if:
  "(b \<Longrightarrow> yields A Q p) \<Longrightarrow> (\<not> b \<Longrightarrow> yields A Q q) \<Longrightarrow> yields A Q (if b then p else q)"
  by simp

lemma single_char_op:
  assumes "tokens_ok all" and "t \<in> set all" and "t_type t = T_PUNCT" and "tok_str t \<in> set comparison_ops"
  shows "tok_str t \<in> {ustr ''='', ustr ''<'', ustr ''>''}"
proof -
  have "t \<noteq> last all" using assms(1,3) by (auto simp: tokens_ok_def)
  then have "t \<in> set (butlast all)" using assms(1,2) by (metis append_butlast_last_id in_set_butlast_appendI
    UnE set_append set_ConsD empty_iff list.set(1) tokens_ok_def)
  then obtain c where "tok_str t = [c]" using assms(1,3) by (auto simp: tokens_ok_def list_all_iff plain_token_def tok_str_def)
  then show ?thesis using assms(4) by (auto simp: comparison_ops_def ustr_def)
qed

lemma yields_having:
  assumes "tokens_ok all"
  shows "yields (set all) (\<lambda>(l, op, v). op \<in> {ustr ''='', ustr ''<'', ustr ''>''}) (parse_having_expr u)"
  unfolding parse_having_expr_def
  by (rule yields_peek, rule yields_bind, intro forward_intros forward_aggregate_call forward_ident)
    (intro yields_advance yields_if yields_basic, auto dest: single_char_op [OF assms])

lemma yields_join:
  assumes "tokens_ok all"
  shows "yields (set all) (\<lambda>p. jp_op p \<in> {ustr ''='', ustr ''<'', ustr ''>''}) parse_join_predicate"
  unfolding parse_join_predicate_def
  by (rule yields_bind, rule forward_column_ref, rule yields_peek)
    (intro yields_if yields_basic yields_bind forward_column_ref forward_basic, auto dest: single_char_op [OF assms])

section \<open>Properties\<close>

text \<open>
  C31. On the tokens of any statement text the parser comes back, with a list of statements or with a
  \<open>ParseError\<close>: it never runs past the EOF token, loops, or lets another exception escape.
\<close>

theorem parse_total:
  assumes "tokenize u sql = Inr ts"
  shows "(\<exists>stmts. parse_tokens u ts = Inr stmts) \<or> (\<exists>line col. parse_tokens u ts = Inl (ParseError line col))"
  using parse_tokens_good tokens_ok_eof_ended tokenize_from_ok [of u "(1, 1)" sql ts] assms
  by (simp add: tokenize_def)

lemma parse_total_witness:
  "\<exists>ts. tokenize latin1 (ustr ''COMMIT'') = Inr ts \<and>
     ((\<exists>stmts. parse_tokens latin1 ts = Inr stmts) \<or> (\<exists>line col. parse_tokens latin1 ts = Inl (ParseError line col)))"
proof -
  have "tokenize latin1 (ustr ''COMMIT'') = Inr [token T_KEYWORD (PStr (ustr ''COMMIT'')) 1 1, token T_EOF PNone 1 7]"
    by code_simp
  from this parse_total [OF this] show ?thesis by blast
qed

text \<open>
  The comparison operators of two characters are never accepted: from the tokens of any statement,
  HAVING and JOIN ... ON conditions are parsed with \<open>=\<close>, \<open><\<close> or \<open>>\<close> only, because the tokenizer
  cuts punctuation into single characters, while the parser lists \<open>>=\<close>, \<open><=\<close> and \<open>!=\<close> as well.
\<close>

theorem two_char_ops_rejected:
  assumes "tokenize u sql = Inr all" and "set ts \<subseteq> set all"
  shows "(parse_having_expr u ts = (Inr (l, op, v), r) \<longrightarrow> op \<in> {ustr ''='', ustr ''<'', ustr ''>''}) \<and>
    (parse_join_predicate ts = (Inr p, r) \<longrightarrow> jp_op p \<in> {ustr ''='', ustr ''<'', ustr ''>''})"
proof -
  have ok: "tokens_ok all" using tokenize_from_ok [of u "(1, 1)" sql all] assms(1) by (simp add: tokenize_def)
  show ?thesis
    using yieldsD [OF yields_having [OF ok] assms(2)] yieldsD [OF yields_join [OF ok] assms(2)] by fastforce
qed

lemma two_char_ops_rejected_witness:
  "\<exists>all op r. tokenize latin1 (ustr ''a > 1'') = Inr all \<and> parse_having_expr latin1 all = (Inr (H_col (ustr ''a''), op, PInt 1), r) \<and>
     op \<in> {ustr ''='', ustr ''<'', ustr ''>''}"
proof -
  have t: "tokenize latin1 (ustr ''a > 1'') = Inr [token T_IDENT (PStr (ustr ''a'')) 1 1,
      token T_PUNCT (PStr (ustr ''>'')) 1 3, token T_INT (PInt 1) 1 5, token T_EOF PNone 1 6]" (is "_ = Inr ?all")
    by code_simp
  have p: "parse_having_expr latin1 ?all = (Inr (H_col (ustr ''a''), ustr ''>'', PInt 1), [token T_EOF PNone 1 6])"
    by code_simp
  from two_char_ops_rejected [OF t order_refl, THEN conjunct1, rule_format, OF p] t p show ?thesis by blast
qed

end
