(* ===== verification/Parser_Print.thy ===== *)
theory Parser_Print
  imports Parser_Total
begin

text \<open>
  Printing WHERE expressions with the fewest parentheses, and the proof that the
  parser reads them back: precedence and associativity are those of the grammar
  OR < AND < NOT < comparison. A token is compared by kind and value only, so
  the statement holds wherever the tokens stand.
\<close>

type_synonym shape = "tok_type \<times> pyval"

definition shape :: "token \<Rightarrow> shape" where
  "shape t = (t_type t, t_val t)"

definition kw :: "string \<Rightarrow> shape" where
  "kw s = (T_KEYWORD, PStr (ustr s))"

definition punct :: "string \<Rightarrow> shape" where
  "punct s = (T_PUNCT, PStr (ustr s))"

fun literal_shape :: "pyval \<Rightarrow> shape" where
  "literal_shape (PInt i) = (T_INT, PInt i)"
| "literal_shape (PFloat f) = (T_FLOAT, PFloat f)"
| "literal_shape (PBool b) = (T_BOOL, PBool b)"
| "literal_shape v = (T_TEXT, v)"

text \<open>The values a single literal token carries.\<close>

fun plain_literal :: "pyval \<Rightarrow> bool" where
  "plain_literal (PInt i) = True"
| "plain_literal (PFloat f) = True"
| "plain_literal (PBool b) = True"
| "plain_literal (PStr s) = True"
| "plain_literal _ = False"

definition paren :: "bool \<Rightarrow> shape list \<Rightarrow> shape list" where
  "paren b s = (if b then punct ''('' # s @ [punct '')''] else s)"

fun print_expr :: "nat \<Rightarrow> expr \<Rightarrow> shape list" where
  "print_expr l (EqualsExpr c v q) =
     (case q of None \<Rightarrow> [] | Some q \<Rightarrow> [(T_IDENT, PStr q), punct ''.'']) @
     [(T_IDENT, PStr c), punct ''='', literal_shape v]"
| "print_expr l (OrExpr a b) = paren (0 < l) (print_expr 0 a @ kw ''OR'' # print_expr 1 b)"
| "print_expr l (AndExpr a b) = paren (1 < l) (print_expr 1 a @ kw ''AND'' # print_expr 2 b)"
| "print_expr l (NotExpr e) = kw ''NOT'' # print_expr 2 e"

fun plain_expr :: "expr \<Rightarrow> bool" where
  "plain_expr (EqualsExpr c v q) = plain_literal v"
| "plain_expr (OrExpr a b) = (plain_expr a \<and> plain_expr b)"
| "plain_expr (AndExpr a b) = (plain_expr a \<and> plain_expr b)"
| "plain_expr (NotExpr e) = plain_expr e"

section \<open>More fuel changes nothing\<close>

definition agree :: "'a parser \<Rightarrow> 'a parser \<Rightarrow> bool" where
  "agree p q \<longleftrightarrow> (\<forall>ts. fst (p ts) = Inl FuelOut \<or> q ts = p ts)"

lemma agree_refl: "agree p p"
  by (simp add: agree_def)

lemma agree_fuel: "agree (raiseS FuelOut) q"
  by (simp add: agree_def)

lemma agree_bind: "agree p p' \<Longrightarrow> (\<And>a. agree (f a) (f' a)) \<Longrightarrow> agree (bindS p f) (bindS p' f')"
proof -
  assume p: "agree p p'" and f: "\<And>a. agree (f a) (f' a)"
  show ?thesis unfolding agree_def
  proof
    fix ts
    obtain r ts' where pr: "p ts = (r, ts')" by force
    show "fst (bindS p f ts) = Inl FuelOut \<or> bindS p' f' ts = bindS p f ts"
    proof (cases r)
      case (Inl e)
      then show ?thesis using p pr by (auto simp: agree_def bindS_def dest: spec [of _ ts])
    next
      case (Inr a)
      then have "p' ts = p ts" using p pr by (auto simp: agree_def dest: spec [of _ ts])
      then show ?thesis using f [of a] pr Inr by (auto simp: agree_def bindS_def)
    qed
  qed
qed

lemma agree_if: "agree p p' \<Longrightarrow> agree q q' \<Longrightarrow> agree (if b then p else q) (if b then p' else q')"
  by simp

lemma more_fuel:
  "agree (parse_or n u) (parse_or (Suc n) u) \<and>
   (\<forall>e. agree (or_rest n u e) (or_rest (Suc n) u e)) \<and>
   agree (parse_and n u) (parse_and (Suc n) u) \<and>
   (\<forall>e. agree (and_rest n u e) (and_rest (Suc n) u e)) \<and>
   agree (parse_not n u) (parse_not (Suc n) u) \<and>
   agree (parse_primary n u) (parse_primary (Suc n) u)"
proof (induction n)
  case 0
  then show ?case by (simp add: agree_def)
next
  case (Suc n)
  note IH = Suc.IH [THEN conjunct1] Suc.IH [THEN conjunct2, THEN conjunct1, rule_format]
    Suc.IH [THEN conjunct2, THEN conjunct2, THEN conjunct1]
    Suc.IH [THEN conjunct2, THEN conjunct2, THEN conjunct2, THEN conjunct1, rule_format]
    Suc.IH [THEN conjunct2, THEN conjunct2, THEN conjunct2, THEN conjunct2, THEN conjunct1]
    Suc.IH [THEN conjunct2, THEN conjunct2, THEN conjunct2, THEN conjunct2, THEN conjunct2]
  have "agree (parse_or (Suc n) u) (parse_or (Suc (Suc n)) u)"
    by (subst parse_or.simps(2), subst parse_or.simps(2), intro agree_bind agree_if agree_refl IH)
  moreover have "agree (or_rest (Suc n) u e) (or_rest (Suc (Suc n)) u e)" for e
    by (subst or_rest.simps(2), subst or_rest.simps(2), intro agree_bind agree_if agree_refl IH)
  moreover have "agree (parse_and (Suc n) u) (parse_and (Suc (Suc n)) u)"
    by (subst parse_and.simps(2), subst parse_and.simps(2), intro agree_bind agree_if agree_refl IH)
  moreover have "agree (and_rest (Suc n) u e) (and_rest (Suc (Suc n)) u e)" for e
    by (subst and_rest.simps(2), subst and_rest.simps(2), intro agree_bind agree_if agree_refl IH)
  moreover have "agree (parse_not (Suc n) u) (parse_not (Suc (Suc n)) u)"
    by (subst parse_not.simps(2), subst parse_not.simps(2), intro agree_bind agree_if agree_refl IH)
  moreover have "agree (parse_primary (Suc n) u) (parse_primary (Suc (Suc n)) u)"
    by (subst parse_primary.simps(2), subst parse_primary.simps(2), intro agree_bind agree_if agree_refl IH)
  ultimately show ?case by blast
qed

section \<open>Results with enough fuel\<close>

definition ev :: "(nat \<Rightarrow> 'a parser) \<Rightarrow> token list \<Rightarrow> 'a \<Rightarrow> token list \<Rightarrow> bool" where
  "ev p ts a ts' \<longleftrightarrow> (\<exists>n0. \<forall>n \<ge> n0. p n ts = (Inr a, ts'))"

lemma evI: "(\<And>n. p n ts = (Inr a, ts')) \<Longrightarrow> ev p ts a ts'"
  by (auto simp: ev_def)

lemma ev_Suc:
  assumes "\<And>n. p (Suc n) = q n" and "ev q ts a ts'"
  shows "ev p ts a ts'"
proof -
  obtain n0 where n0: "\<And>n. n0 \<le> n \<Longrightarrow> q n ts = (Inr a, ts')" using assms(2) by (auto simp: ev_def)
  have "p n ts = (Inr a, ts')" if "Suc n0 \<le> n" for n
    using assms(1) [of "n - 1"] n0 [of "n - 1"] that by (cases n) auto
  then show ?thesis by (auto simp: ev_def)
qed

lemma ev_bind:
  assumes "ev p ts a ts'" and "ev (\<lambda>n. f n a) ts' b ts''"
  shows "ev (\<lambda>n. bindS (p n) (f n)) ts b ts''"
proof -
  obtain n0 where n0: "\<And>n. n0 \<le> n \<Longrightarrow> p n ts = (Inr a, ts')" using assms(1) by (auto simp: ev_def)
  obtain n1 where n1: "\<And>n. n1 \<le> n \<Longrightarrow> f n a ts' = (Inr b, ts'')" using assms(2) by (auto simp: ev_def)
  have "bindS (p n) (f n) ts = (Inr b, ts'')" if "max n0 n1 \<le> n" for n
    using n0 n1 that by (simp add: bindS_def)
  then show ?thesis unfolding ev_def by blast
qed

lemma ev_const: "p ts = (Inr a, ts') \<Longrightarrow> ev (\<lambda>_. p) ts a ts'"
  by (rule evI)

abbreviation "head_is t s ts \<equiv> ts \<noteq> [] \<and> shape (hd ts) = (t, PStr (ustr s))"

lemma shape_is_tok: "is_tok ty s t \<longleftrightarrow> shape t = (ty, PStr (ustr s))"
  by (simp add: is_tok_def shape_def)

lemma peek_kw_run: "ts \<noteq> [] \<Longrightarrow> peek_kw s ts = (Inr (shape (hd ts) = kw s), ts)"
  by (cases ts) (simp_all add: peek_kw_def bindS_def peek_def shape_is_tok kw_def)

lemma peek_punct_run: "ts \<noteq> [] \<Longrightarrow> peek_punct s ts = (Inr (shape (hd ts) = punct s), ts)"
  by (cases ts) (simp_all add: peek_punct_def bindS_def peek_def shape_is_tok punct_def)

lemma advance_run: "advance (t # ts) = (Inr t, ts)"
  by (simp add: advance_def)

lemma bind_runs:
  "ts \<noteq> [] \<Longrightarrow> bindS (peek_kw s) f ts = f (shape (hd ts) = kw s) ts"
  "ts \<noteq> [] \<Longrightarrow> bindS (peek_punct s) f ts = f (shape (hd ts) = punct s) ts"
  "bindS advance g (t # ts) = g t ts"
  by (simp_all add: bindS_def peek_kw_run peek_punct_run advance_run)

text \<open>The clauses of the grammar.\<close>

lemma ev_or:
  assumes "ev (\<lambda>n. parse_and n u) ts a ts'" and "ev (\<lambda>n. or_rest n u a) ts' e r"
  shows "ev (\<lambda>n. parse_or n u) ts e r"
  by (rule ev_Suc, rule parse_or.simps(2), rule ev_bind [OF assms(1), of "\<lambda>n a. or_rest n u a"]) (rule assms(2))

lemma ev_and:
  assumes "ev (\<lambda>n. parse_not n u) ts a ts'" and "ev (\<lambda>n. and_rest n u a) ts' e r"
  shows "ev (\<lambda>n. parse_and n u) ts e r"
  by (rule ev_Suc, rule parse_and.simps(2), rule ev_bind [OF assms(1), of "\<lambda>n a. and_rest n u a"]) (rule assms(2))

lemma ev_or_stop:
  assumes "ts \<noteq> []" and "shape (hd ts) \<noteq> kw ''OR''"
  shows "ev (\<lambda>n. or_rest n u a) ts a ts"
  by (rule ev_Suc, rule or_rest.simps(2), rule evI) (simp add: bindS_def peek_kw_run [OF assms(1)] assms(2))

lemma ev_and_stop:
  assumes "ts \<noteq> []" and "shape (hd ts) \<noteq> kw ''AND''"
  shows "ev (\<lambda>n. and_rest n u a) ts a ts"
  by (rule ev_Suc, rule and_rest.simps(2), rule evI) (simp add: bindS_def peek_kw_run [OF assms(1)] assms(2))

lemma ev_or_more:
  assumes "shape t = kw ''OR''" and "ev (\<lambda>n. parse_and n u) ts b ts'" and "ev (\<lambda>n. or_rest n u (OrExpr a b)) ts' e r"
  shows "ev (\<lambda>n. or_rest n u a) (t # ts) e r"
proof (rule ev_Suc, rule or_rest.simps(2))
  have "ev (\<lambda>n. bindS (parse_and n u) (\<lambda>b. or_rest n u (OrExpr a b))) ts e r"
    by (rule ev_bind [OF assms(2), of "\<lambda>n b. or_rest n u (OrExpr a b)"]) (rule assms(3))
  then show "ev (\<lambda>n. bindS (peek_kw ''OR'') (\<lambda>b. if b then bindS advance (\<lambda>_. bindS (parse_and n u)
      (\<lambda>right. or_rest n u (OrExpr a right))) else returnS a)) (t # ts) e r"
    by (simp add: ev_def bind_runs assms(1))
qed

lemma ev_and_more:
  assumes "shape t = kw ''AND''" and "ev (\<lambda>n. parse_not n u) ts b ts'" and "ev (\<lambda>n. and_rest n u (AndExpr a b)) ts' e r"
  shows "ev (\<lambda>n. and_rest n u a) (t # ts) e r"
proof (rule ev_Suc, rule and_rest.simps(2))
  have "ev (\<lambda>n. bindS (parse_not n u) (\<lambda>b. and_rest n u (AndExpr a b))) ts e r"
    by (rule ev_bind [OF assms(2), of "\<lambda>n b. and_rest n u (AndExpr a b)"]) (rule assms(3))
  then show "ev (\<lambda>n. bindS (peek_kw ''AND'') (\<lambda>b. if b then bindS advance (\<lambda>_. bindS (parse_not n u)
      (\<lambda>right. and_rest n u (AndExpr a right))) else returnS a)) (t # ts) e r"
    by (simp add: ev_def bind_runs assms(1))
qed

lemma ev_not:
  assumes "shape t = kw ''NOT''" and "ev (\<lambda>n. parse_not n u) ts e ts'"
  shows "ev (\<lambda>n. parse_not n u) (t # ts) (NotExpr e) ts'"
proof (rule ev_Suc, rule parse_not.simps(2))
  have "ev (\<lambda>n. bindS (parse_not n u) (\<lambda>e. returnS (NotExpr e))) ts (NotExpr e) ts'"
    by (rule ev_bind [OF assms(2), of "\<lambda>n e. returnS (NotExpr e)"]) (simp add: ev_def)
  then show "ev (\<lambda>n. bindS (peek_kw ''NOT'') (\<lambda>b. if b then bindS advance (\<lambda>_. bindS (parse_not n u)
      (\<lambda>e. returnS (NotExpr e))) else parse_primary n u)) (t # ts) (NotExpr e) ts'"
    by (simp add: ev_def bind_runs assms(1))
qed

lemma ev_primary:
  assumes "ts \<noteq> []" and "shape (hd ts) \<noteq> kw ''NOT''" and "ev (\<lambda>n. parse_primary n u) ts e ts'"
  shows "ev (\<lambda>n. parse_not n u) ts e ts'"
  by (rule ev_Suc, rule parse_not.simps(2)) (use assms in \<open>simp add: ev_def bind_runs\<close>)

lemma ev_paren:
  assumes "shape t = punct ''(''" and "ev (\<lambda>n. parse_or n u) ts e (t' # r)" and "shape t' = punct '')''"
  shows "ev (\<lambda>n. parse_primary n u) (t # ts) e r"
proof (rule ev_Suc, rule parse_primary.simps(2))
  have "is_tok T_PUNCT '')'' t'" using assms(3) by (simp add: shape_is_tok punct_def)
  then have "expect T_PUNCT '')'' (t' # r) = (Inr t', r)" by (simp add: expect_def bindS_def peek_def advance_def)
  then have "ev (\<lambda>n. bindS (parse_or n u) (\<lambda>i. bindS (expect T_PUNCT '')'') (\<lambda>_. returnS i))) ts e r"
    by (intro ev_bind [OF assms(2), of "\<lambda>n i. bindS (expect T_PUNCT '')'') (\<lambda>_. returnS i)"] evI) (simp add: bindS_def)
  then show "ev (\<lambda>n. bindS (peek_punct ''('') (\<lambda>b. if b then bindS advance (\<lambda>_. bindS (parse_or n u)
      (\<lambda>inner. bindS (expect T_PUNCT '')'') (\<lambda>_. returnS inner))) else parse_comparison u)) (t # ts) e r"
    by (simp add: ev_def bind_runs assms(1))
qed

lemma ev_comparison:
  assumes "ts \<noteq> []" and "shape (hd ts) \<noteq> punct ''(''" and "parse_comparison u ts = (Inr e, r)"
  shows "ev (\<lambda>n. parse_primary n u) ts e r"
  by (rule ev_Suc, rule parse_primary.simps(2), rule evI)
    (simp add: bind_runs assms(1) assms(2,3))

section \<open>Reading a printed expression back\<close>

lemma shape_eq: "shape t = (a, b) \<longleftrightarrow> t_type t = a \<and> t_val t = b"
  by (auto simp: shape_def)

lemma literal_run:
  assumes "shape t = literal_shape v" and "plain_literal v"
  shows "parse_literal_value u (t # r) = (Inr v, r)"
proof -
  have "t_type t \<in> set literal_types \<and> t_val t = v"
    using assms by (cases v) (auto simp: shape_def literal_types_def)
  moreover from this have "t_type t \<noteq> T_KEYWORD" by (auto simp: literal_types_def)
  ultimately show ?thesis
    by (simp add: parse_literal_value_def bindS_def peek_def advance_run is_one_of_def is_tok_def datetime_keywords_def)
qed

lemma dot_eq: "(punct ''='' = punct ''.'') = False"
  by (simp add: punct_def ustr_def)

lemma equals_op:
  assumes "shape o' = punct ''=''" and "shape t = literal_shape v" and "plain_literal v"
  shows "bindS advance (\<lambda>op. if \<not> is_tok T_PUNCT ''='' op then error_at op
    else bindS (parse_literal_value u) (\<lambda>v. returnS (EqualsExpr c v q))) (o' # t # r) = (Inr (EqualsExpr c v q), r)"
  using assms(1) by (simp add: bindS_def advance_run shape_is_tok punct_def literal_run [OF assms(2,3)])

lemma ident_run: "t_type t = T_IDENT \<Longrightarrow> bindS ident f (t # r) = f t r"
  by (simp add: ident_def bindS_def peek_def advance_run)

lemma bind_ok: "p ts = (Inr a, ts') \<Longrightarrow> bindS p f ts = f a ts'"
  by (simp add: bindS_def)

lemma comparison_run:
  assumes "map shape ts = print_expr l (EqualsExpr c v q)" and "plain_literal v"
  shows "parse_comparison u (ts @ r) = (Inr (EqualsExpr c v q), r)"
proof (cases q)
  case None
  then obtain t1 t2 t3 where ts: "ts = [t1, t2, t3]" and t1: "shape t1 = (T_IDENT, PStr c)"
    and t2: "shape t2 = punct ''=''" and t3: "shape t3 = literal_shape v"
    using assms(1) by (auto simp: map_eq_Cons_conv)
  have "parse_qualified_column_ref (t1 # t2 # t3 # r) =
      (Inr \<lparr>cr_qualifier = None, cr_name = c, cr_line = t_line t1, cr_col = t_col t1\<rparr>, t2 # t3 # r)"
    using t1 by (simp add: parse_qualified_column_ref_def shape_eq ident_run bind_runs t2 dot_eq tok_str_def)
  note run = bind_ok [of parse_qualified_column_ref, OF this]
  show ?thesis
    using equals_op [OF t2 t3 assms(2), of u c None r]
    by (simp only: run parse_comparison_def ts None append.simps column_ref.simps)
next
  case (Some x)
  then obtain t1 t2 t3 t4 t5 where ts: "ts = [t1, t2, t3, t4, t5]" and t1: "shape t1 = (T_IDENT, PStr x)"
    and t2: "shape t2 = punct ''.''" and t3: "shape t3 = (T_IDENT, PStr c)"
    and t4: "shape t4 = punct ''=''" and t5: "shape t5 = literal_shape v"
    using assms(1) by (auto simp: map_eq_Cons_conv)
  have "parse_qualified_column_ref (t1 # t2 # t3 # t4 # t5 # r) =
      (Inr \<lparr>cr_qualifier = Some x, cr_name = c, cr_line = t_line t1, cr_col = t_col t1\<rparr>, t4 # t5 # r)"
    using t1 t3 by (simp add: parse_qualified_column_ref_def shape_eq ident_run bind_runs t2 tok_str_def)
  note run = bind_ok [of parse_qualified_column_ref, OF this]
  show ?thesis
    using equals_op [OF t4 t5 assms(2), of u c "Some x" r]
    by (simp only: run parse_comparison_def ts Some append.simps column_ref.simps)
qed

text \<open>
  One step of the induction: how an expression is read at each of the three levels of the
  grammar, from how it is read at the tightest one.
\<close>

definition reads :: "uni \<Rightarrow> nat \<Rightarrow> expr \<Rightarrow> bool" where
  "reads u l e \<longleftrightarrow> (\<forall>ts rest. map shape ts = print_expr l e \<longrightarrow> rest \<noteq> [] \<longrightarrow>
     (l = 0 \<longrightarrow> shape (hd rest) \<noteq> kw ''AND'' \<longrightarrow>
        (\<forall>e' r. ev (\<lambda>n. or_rest n u e) rest e' r \<longrightarrow> ev (\<lambda>n. parse_or n u) (ts @ rest) e' r)) \<and>
     (l = 1 \<longrightarrow>
        (\<forall>e' r. ev (\<lambda>n. and_rest n u e) rest e' r \<longrightarrow> ev (\<lambda>n. parse_and n u) (ts @ rest) e' r)) \<and>
     (l = 2 \<longrightarrow> ev (\<lambda>n. parse_not n u) (ts @ rest) e rest))"

lemma readsI:
  assumes "\<And>ts rest e' r. l = 0 \<Longrightarrow> map shape ts = print_expr l e \<Longrightarrow> rest \<noteq> [] \<Longrightarrow> shape (hd rest) \<noteq> kw ''AND'' \<Longrightarrow>
      ev (\<lambda>n. or_rest n u e) rest e' r \<Longrightarrow> ev (\<lambda>n. parse_or n u) (ts @ rest) e' r"
    and "\<And>ts rest e' r. l = 1 \<Longrightarrow> map shape ts = print_expr l e \<Longrightarrow> rest \<noteq> [] \<Longrightarrow>
      ev (\<lambda>n. and_rest n u e) rest e' r \<Longrightarrow> ev (\<lambda>n. parse_and n u) (ts @ rest) e' r"
    and "\<And>ts rest. l = 2 \<Longrightarrow> map shape ts = print_expr l e \<Longrightarrow> rest \<noteq> [] \<Longrightarrow> ev (\<lambda>n. parse_not n u) (ts @ rest) e rest"
  shows "reads u l e"
  using assms unfolding reads_def by blast

lemma readsD:
  "reads u 0 e \<Longrightarrow> map shape ts = print_expr 0 e \<Longrightarrow> rest \<noteq> [] \<Longrightarrow> shape (hd rest) \<noteq> kw ''AND'' \<Longrightarrow>
     ev (\<lambda>n. or_rest n u e) rest e' r \<Longrightarrow> ev (\<lambda>n. parse_or n u) (ts @ rest) e' r"
  "reads u 1 e \<Longrightarrow> map shape ts = print_expr 1 e \<Longrightarrow> rest \<noteq> [] \<Longrightarrow>
     ev (\<lambda>n. and_rest n u e) rest e' r \<Longrightarrow> ev (\<lambda>n. parse_and n u) (ts @ rest) e' r"
  "reads u 2 e \<Longrightarrow> map shape ts = print_expr 2 e \<Longrightarrow> rest \<noteq> [] \<Longrightarrow> ev (\<lambda>n. parse_not n u) (ts @ rest) e rest"
  by (simp_all add: reads_def)

lemma reads_1:
  assumes "reads u 2 e" and "print_expr 1 e = print_expr 2 e"
  shows "reads u 1 e"
  by (rule readsI) (use assms in \<open>auto intro!: ev_and [OF readsD(3)]\<close>)

lemma reads_0:
  assumes "reads u 1 e" and "print_expr 0 e = print_expr 1 e"
  shows "reads u 0 e"
  by (rule readsI) (use assms in \<open>auto intro!: ev_or [OF readsD(2)] ev_and_stop\<close>)

lemma kw_neq:
  "kw ''OR'' \<noteq> kw ''AND''" "punct '')'' \<noteq> kw ''AND''" "punct '')'' \<noteq> kw ''OR''" "punct ''('' \<noteq> kw ''NOT''"
  "(T_IDENT, v) \<noteq> kw ''NOT''" "(T_IDENT, v) \<noteq> punct ''(''"
  by (simp_all add: kw_def punct_def ustr_def)

lemma reads_paren:
  assumes "reads u 0 e" and "print_expr 2 e = paren True (print_expr 0 e)"
  shows "reads u 2 e"
proof (rule readsI)
  fix ts rest :: "token list" assume "map shape ts = print_expr 2 e" and rest: "rest \<noteq> []"
  then obtain t ts' t' where ts: "ts = t # ts' @ [t']" and t: "shape t = punct ''(''"
    and t': "shape t' = punct '')''" and ts': "map shape ts' = print_expr 0 e"
    using assms(2) by (auto simp: paren_def map_eq_Cons_conv map_eq_append_conv)
  have "ev (\<lambda>n. parse_or n u) (ts' @ t' # rest) e (t' # rest)"
    by (rule readsD(1) [OF assms(1) ts']) (auto simp: t' kw_neq intro!: ev_or_stop)
  from ev_paren [OF t this t'] show "ev (\<lambda>n. parse_not n u) (ts @ rest) e rest"
    by (intro ev_primary) (auto simp: ts t kw_neq)
qed auto

lemma reads_all:
  assumes "plain_expr e"
  shows "reads u 0 e \<and> reads u 1 e \<and> reads u 2 e"
  using assms
proof (induction e)
  case (EqualsExpr c v q)
  have "reads u 2 (EqualsExpr c v q)"
  proof (rule readsI)
    fix ts rest :: "token list" assume ts: "map shape ts = print_expr 2 (EqualsExpr c v q)" and "rest \<noteq> []"
    then have "ts \<noteq> [] \<and> (\<exists>x. shape (hd (ts @ rest)) = (T_IDENT, x))" by (cases ts; cases q) auto
    moreover have "parse_comparison u (ts @ rest) = (Inr (EqualsExpr c v q), rest)"
      using comparison_run [OF ts] EqualsExpr by simp
    ultimately show "ev (\<lambda>n. parse_not n u) (ts @ rest) (EqualsExpr c v q) rest"
      by (intro ev_primary ev_comparison) (auto simp: kw_neq kw_neq(5,6) [symmetric])
  qed auto
  then show ?case using reads_1 [of u "EqualsExpr c v q"] reads_0 [of u "EqualsExpr c v q"] by simp
next
  case (NotExpr e)
  have IH: "reads u 2 e" using NotExpr by simp
  have "reads u 2 (NotExpr e)"
  proof (rule readsI)
    fix ts rest :: "token list" assume "map shape ts = print_expr 2 (NotExpr e)" and rest: "rest \<noteq> []"
    then obtain t ts' where ts: "ts = t # ts'" "shape t = kw ''NOT''" "map shape ts' = print_expr 2 e"
      by (auto simp: map_eq_Cons_conv)
    then show "ev (\<lambda>n. parse_not n u) (ts @ rest) (NotExpr e) rest"
      using ev_not [OF ts(2) readsD(3) [OF IH ts(3) rest]] by simp
  qed auto
  then show ?case using reads_1 [of u "NotExpr e"] reads_0 [of u "NotExpr e"] by simp
next
  case (AndExpr a b)
  have IH: "reads u 1 a" "reads u 2 b" using AndExpr by simp_all
  have one: "reads u 1 (AndExpr a b)"
  proof (rule readsI)
    fix ts rest :: "token list" and e' r assume "map shape ts = print_expr 1 (AndExpr a b)" and rest: "rest \<noteq> []"
      and e': "ev (\<lambda>n. and_rest n u (AndExpr a b)) rest e' r"
    then obtain ta t tb where ts: "ts = ta @ t # tb" and a: "map shape ta = print_expr 1 a"
      and t: "shape t = kw ''AND''" and b: "map shape tb = print_expr 2 b"
      by (auto simp: paren_def map_eq_append_conv map_eq_Cons_conv)
    show "ev (\<lambda>n. parse_and n u) (ts @ rest) e' r"
      using readsD(2) [OF IH(1) a, of "t # tb @ rest"] ev_and_more [OF t readsD(3) [OF IH(2) b rest] e'] ts by simp
  qed auto
  have zero: "reads u 0 (AndExpr a b)" by (rule reads_0 [OF one]) (simp add: paren_def)
  show ?case using one zero reads_paren [OF zero] by (simp add: paren_def)
next
  case (OrExpr a b)
  have IH: "reads u 0 a" "reads u 1 b" using OrExpr by simp_all
  have zero: "reads u 0 (OrExpr a b)"
  proof (rule readsI)
    fix ts rest :: "token list" and e' r assume "map shape ts = print_expr 0 (OrExpr a b)" and rest: "rest \<noteq> []" "shape (hd rest) \<noteq> kw ''AND''"
      and e': "ev (\<lambda>n. or_rest n u (OrExpr a b)) rest e' r"
    then obtain ta t tb where ts: "ts = ta @ t # tb" and a: "map shape ta = print_expr 0 a"
      and t: "shape t = kw ''OR''" and b: "map shape tb = print_expr 1 b"
      by (auto simp: paren_def map_eq_append_conv map_eq_Cons_conv)
    have "ev (\<lambda>n. parse_and n u) (tb @ rest) b rest"
      by (rule readsD(2) [OF IH(2) b rest(1)]) (rule ev_and_stop [OF rest])
    from ev_or_more [OF t this e'] show "ev (\<lambda>n. parse_or n u) (ts @ rest) e' r"
      using readsD(1) [OF IH(1) a, of "t # tb @ rest"] ts t by (simp add: kw_neq)
  qed auto
  have two: "reads u 2 (OrExpr a b)" by (rule reads_paren [OF zero]) (simp add: paren_def)
  show ?case using zero two reads_1 [OF two] by (simp add: paren_def)
qed

section \<open>Properties\<close>

lemma parse_or_decided:
  assumes "ev (\<lambda>n. parse_or n u) ts e r" and "eof_ended ts"
  shows "parse_expr u ts = (Inr e, r)"
proof -
  have "fst (parse_or (expr_fuel ts) u ts) \<noteq> Inl FuelOut"
    using goodD [OF good_parse_expr [of "length ts" None u] assms(2) order_refl]
    unfolding parse_expr_def by fastforce
  then have "parse_or (expr_fuel ts + k) u ts = parse_or (expr_fuel ts) u ts" for k
  proof (induction k)
    case (Suc k)
    then show ?case
      using more_fuel [of "expr_fuel ts + k" u, THEN conjunct1] by (auto simp: agree_def simp del: parse_or.simps dest!: spec [of _ ts])
  qed simp
  moreover obtain n0 where "\<And>n. n0 \<le> n \<Longrightarrow> parse_or n u ts = (Inr e, r)" using assms(1) by (auto simp: ev_def)
  ultimately show ?thesis unfolding parse_expr_def by (metis le_add2)
qed

text \<open>
  C32. A WHERE expression printed with the fewest parentheses that keep its meaning (OR loosest, then AND,
  then NOT, binary operators to the left) is parsed back to itself, and the tokens after it are left alone.
\<close>

theorem expr_roundtrip:
  assumes "plain_expr e" and "map shape ts = print_expr 0 e" and "eof_ended (ts @ rest)" and "rest \<noteq> []"
    and "shape (hd rest) \<noteq> kw ''AND''" and "shape (hd rest) \<noteq> kw ''OR''"
  shows "parse_expr u (ts @ rest) = (Inr e, rest)"
proof -
  have "ev (\<lambda>n. parse_or n u) (ts @ rest) e rest"
    using reads_all [OF assms(1), of u] readsD(1) [of u e ts rest e rest] ev_or_stop [OF assms(4,6)] assms by blast
  then show ?thesis by (rule parse_or_decided) (rule assms(3))
qed

text \<open>\<open>(a = 1 OR b = 2) AND NOT t.c = 3\<close>.\<close>

definition example_expr :: expr where
  "example_expr = AndExpr (OrExpr (EqualsExpr (ustr ''a'') (PInt 1) None) (EqualsExpr (ustr ''b'') (PInt 2) None))
     (NotExpr (EqualsExpr (ustr ''c'') (PInt 3) (Some (ustr ''t''))))"

lemma expr_roundtrip_witness:
  "parse_expr latin1 (map (\<lambda>(ty, v). token ty v 1 1) (print_expr 0 example_expr) @ [token T_EOF PNone 1 9]) =
     (Inr example_expr, [token T_EOF PNone 1 9])"
proof (rule expr_roundtrip)
  show "plain_expr example_expr" by (simp add: example_expr_def)
  show "map shape (map (\<lambda>(ty, v). token ty v 1 1) (print_expr 0 example_expr)) = print_expr 0 example_expr"
    by (simp add: shape_def comp_def case_prod_beta token_def)
  show "eof_ended (map (\<lambda>(ty, v). token ty v 1 1) (print_expr 0 example_expr) @ [token T_EOF PNone 1 9])"
    by code_simp
qed (simp_all add: shape_def kw_def token_def)

end
