(* ===== verification/Join_Spec.thy ===== *)
theory Join_Spec
  imports Join_Exec
begin

text \<open>
  The nested loops of \<open>_join_executor.py\<close> against joins of relations: when the test of a
  pair and the row built from it do not raise, the loops with their bookkeeping of
  matched rows compute the relational join of every kind.
\<close>

section \<open>Nested loops as relational operators\<close>

lemma foldE_concat:
  assumes "\<And>x out. x \<in> set xs \<Longrightarrow> f out x = Inr (out @ g x)"
  shows "foldE f out xs = Inr (out @ concat (map g xs))"
  using assms by (induction xs arbitrary: out) auto

lemma inner_loop_result:
  assumes "\<And>x. x \<in> set xs \<Longrightarrow> test x = Inr (t x)" and "\<And>x. x \<in> set xs \<Longrightarrow> t x \<Longrightarrow> comb x = Inr (c x)"
  shows "inner_loop test comb xs out = Inr (out @ map c (filter t xs), \<exists>x \<in> set xs. t x)"
proof -
  have "foldE (\<lambda>(out, matched) x.
       bindE (test x) (\<lambda>b. if b then bindE (comb x) (\<lambda>r. Inr (out @ [r], True)) else Inr (out, matched))) (out, m) xs =
    Inr (out @ map c (filter t xs), m \<or> (\<exists>x \<in> set xs. t x))" for m
    using assms by (induction xs arbitrary: out m) auto
  then show ?thesis by (simp add: inner_loop_def)
qed

text \<open>
  What the loops need of the test of a pair and of the rows they build: on rows of the
  two sides they are the functions \<open>t\<close>, \<open>c\<close> and \<open>p\<close>.
\<close>

locale join_sides =
  fixes A B :: "row set"
    and test :: "row \<Rightarrow> row \<Rightarrow> bool res" and comb :: "row \<Rightarrow> row \<Rightarrow> row res" and pad :: "row \<Rightarrow> row res"
    and t :: "row \<Rightarrow> row \<Rightarrow> bool" and c :: "row \<Rightarrow> row \<Rightarrow> row" and p :: "row \<Rightarrow> row"
  assumes test_total: "l \<in> A \<Longrightarrow> r \<in> B \<Longrightarrow> test l r = Inr (t l r)"
    and comb_total: "l \<in> A \<Longrightarrow> r \<in> B \<Longrightarrow> t l r \<Longrightarrow> comb l r = Inr (c l r)"
    and pad_total: "r \<in> B \<Longrightarrow> pad r = Inr (p r)"
begin

lemma inner_right:
  assumes "l \<in> A" and "set rs \<subseteq> B"
  shows "inner_loop (test l) (comb l) rs out = Inr (out @ map (c l) (filter (t l) rs), \<exists>r \<in> set rs. t l r)"
  using assms test_total comb_total by (intro inner_loop_result) auto

lemma inner_left:
  assumes "r \<in> B" and "set ls \<subseteq> A"
  shows "inner_loop (\<lambda>l. test l r) (\<lambda>l. comb l r) ls out =
    Inr (out @ map (\<lambda>l. c l r) (filter (\<lambda>l. t l r) ls), \<exists>l \<in> set ls. t l r)"
  using assms test_total comb_total by (intro inner_loop_result) auto

lemma inner_join:
  assumes "set ls \<subseteq> A" and "set rs \<subseteq> B"
  shows "nested_loop_inner test comb ls rs = Inr (concat (map (\<lambda>l. map (c l) (filter (t l) rs)) ls))"
proof -
  have "foldE (\<lambda>out lr. bindE (inner_loop (test lr) (comb lr) rs out) (\<lambda>(out, matched). Inr out)) [] ls =
      Inr ([] @ concat (map (\<lambda>l. map (c l) (filter (t l) rs)) ls))"
    by (intro foldE_concat) (simp add: inner_right [OF subsetD [OF assms(1)] assms(2)])
  then show ?thesis by (simp add: nested_loop_inner_def)
qed

lemma left_join:
  assumes "set ls \<subseteq> A" and "set rs \<subseteq> B"
  shows "nested_loop_left test comb q ls rs = Inr (concat (map (\<lambda>l.
    if \<exists>r \<in> set rs. t l r then map (c l) (filter (t l) rs) else [q l]) ls))"
proof -
  have "foldE (\<lambda>out lr. bindE (inner_loop (test lr) (comb lr) rs out) (\<lambda>(out, matched).
       Inr (if \<not> matched then out @ [q lr] else out))) [] ls =
      Inr ([] @ concat (map (\<lambda>l. if \<exists>r \<in> set rs. t l r then map (c l) (filter (t l) rs) else [q l]) ls))"
    by (intro foldE_concat) (simp add: inner_right [OF subsetD [OF assms(1)] assms(2)])
  then show ?thesis by (simp add: nested_loop_left_def)
qed

lemma right_join:
  assumes "set ls \<subseteq> A" and "set rs \<subseteq> B"
  shows "nested_loop_right test comb pad ls rs = Inr (concat (map (\<lambda>r.
    if \<exists>l \<in> set ls. t l r then map (\<lambda>l. c l r) (filter (\<lambda>l. t l r) ls) else [p r]) rs))"
proof -
  have "foldE (\<lambda>out rr. bindE (inner_loop (\<lambda>lr. test lr rr) (\<lambda>lr. comb lr rr) ls out) (\<lambda>(out, matched).
       if \<not> matched then bindE (pad rr) (\<lambda>r. Inr (out @ [r])) else Inr out)) [] rs =
      Inr ([] @ concat (map (\<lambda>r. if \<exists>l \<in> set ls. t l r then map (\<lambda>l. c l r) (filter (\<lambda>l. t l r) ls) else [p r]) rs))"
    by (intro foldE_concat) (simp add: inner_left [OF subsetD [OF assms(2)] assms(1)] pad_total [OF subsetD [OF assms(2)]])
  then show ?thesis by (simp add: nested_loop_right_def)
qed

lemma full_left_row:
  assumes "l \<in> A" and "snd ` set ps \<subseteq> B"
  shows "foldE (\<lambda>(out, seen, matched) (ri, rr).
      bindE (test l rr) (\<lambda>b.
      if b then bindE (comb l rr) (\<lambda>r. Inr (out @ [r], insert ri seen, True)) else Inr (out, seen, matched)))
    (out, seen, m) ps =
    Inr (out @ map (c l) (filter (t l) (map snd ps)), seen \<union> {i. \<exists>r. (i, r) \<in> set ps \<and> t l r},
      m \<or> (\<exists>r \<in> snd ` set ps. t l r))"
  using assms(2)
proof (induction ps arbitrary: out seen m)
  case Nil
  then show ?case by simp
next
  case (Cons q ps)
  obtain i r where q: "q = (i, r)" by force
  have "r \<in> B" "snd ` set ps \<subseteq> B" using Cons.prems q by auto
  then show ?case
    using test_total [OF assms(1), of r] comb_total [OF assms(1), of r] by (auto simp: q Cons.IH)
qed

lemma full_left:
  assumes "set ls \<subseteq> A" and "set rs \<subseteq> B"
  shows "foldE (full_left_step test comb q rs) (out, seen) ls =
    Inr (out @ concat (map (\<lambda>l. if \<exists>r \<in> set rs. t l r then map (c l) (filter (t l) rs) else [q l]) ls),
      seen \<union> {i. i < length rs \<and> (\<exists>l \<in> set ls. t l (rs ! i))})"
  using assms(1)
proof (induction ls arbitrary: out seen)
  case Nil
  then show ?case by simp
next
  case (Cons l ls)
  have l: "l \<in> A" "set ls \<subseteq> A" using Cons.prems by auto
  have snd: "snd ` set (zip [0..<length rs] rs) = set rs" "map snd (zip [0..<length rs] rs) = rs"
    by (simp_all flip: set_map)
  have index: "{i. \<exists>r. (i, r) \<in> set (zip [0..<length rs] rs) \<and> t l r} = {i. i < length rs \<and> t l (rs ! i)}"
    by (force simp: in_set_zip)
  have "full_left_step test comb q rs (out, seen) l =
    Inr (out @ (if \<exists>r \<in> set rs. t l r then map (c l) (filter (t l) rs) else [q l]),
      seen \<union> {i. i < length rs \<and> t l (rs ! i)})"
    using full_left_row [OF l(1), of "zip [0..<length rs] rs" out seen False] assms(2)
    by (simp add: full_left_step_def snd index)
  then show ?case using Cons.IH [OF l(2)] by (auto intro: arg_cong2 [where f = Pair])
qed

lemma full_join:
  assumes "set ls \<subseteq> A" and "set rs \<subseteq> B"
  shows "nested_loop_full test comb q pad ls rs = Inr (concat (map (\<lambda>l.
      if \<exists>r \<in> set rs. t l r then map (c l) (filter (t l) rs) else [q l]) ls) @
    map p (filter (\<lambda>r. \<forall>l \<in> set ls. \<not> t l r) rs))"
proof -
  let ?seen = "{i. i < length rs \<and> (\<exists>l \<in> set ls. t l (rs ! i))}"
  have tail: "foldE (\<lambda>out (ri, rr). if ri \<notin> ?seen then bindE (pad rr) (\<lambda>r. Inr (out @ [r])) else Inr out) out ps =
      Inr (out @ concat (map (\<lambda>(i, r). if i \<notin> ?seen then [p r] else []) ps))"
    if "set ps \<subseteq> set (zip [0..<length rs] rs)" for out ps
    using that assms(2) by (induction ps arbitrary: out) (auto simp: pad_total dest!: set_zip_rightD)
  have "concat (map (\<lambda>(i, r). if i \<notin> ?seen then [p r] else []) (zip [0..<length rs] rs)) =
      concat (map (\<lambda>(i, r). if \<forall>l \<in> set ls. \<not> t l r then [p r] else []) (zip [0..<length rs] rs))"
    by (intro arg_cong [where f = concat] map_cong) (auto simp: in_set_zip)
  also have "\<dots> = concat (map ((\<lambda>r. if \<forall>l \<in> set ls. \<not> t l r then [p r] else []) \<circ> snd) (zip [0..<length rs] rs))"
    by (intro arg_cong [where f = concat] map_cong) auto
  also have "\<dots> = concat (map (\<lambda>r. if \<forall>l \<in> set ls. \<not> t l r then [p r] else []) (map snd (zip [0..<length rs] rs)))"
    by (simp only: map_map)
  also have "\<dots> = concat (map (\<lambda>r. if \<forall>l \<in> set ls. \<not> t l r then [p r] else []) rs)" by simp
  also have "\<dots> = map p (filter (\<lambda>r. \<forall>l \<in> set ls. \<not> t l r) rs)" by (induction rs) auto
  finally show ?thesis
    using full_left [OF assms, of q "[]" "{}"] tail [OF subset_refl] by (simp add: nested_loop_full_def)
qed

end

section \<open>The rows of a join on keys\<close>

text \<open>Key positions lie within the rows and pair the columns of the two sides one to one.\<close>

definition keys_fit :: "join_key list \<Rightarrow> nat \<Rightarrow> nat \<Rightarrow> bool" where
  "keys_fit keys n m \<longleftrightarrow>
     (\<forall>k \<in> set keys. jk_left k < n \<and> jk_right k < m) \<and>
     (\<forall>k \<in> set keys. \<forall>k' \<in> set keys. jk_left k = jk_left k' \<longleftrightarrow> jk_right k = jk_right k')"

definition key_match :: "join_key list \<Rightarrow> row \<Rightarrow> row \<Rightarrow> bool" where
  "key_match keys l r \<longleftrightarrow>
     (\<forall>k \<in> set keys. l ! jk_left k \<noteq> PNone \<and> r ! jk_right k \<noteq> PNone \<and> py_eq (l ! jk_left k) (r ! jk_right k))"

text \<open>The columns of the right side that stay, and the left part of an unmatched right row.\<close>

definition rest_idxs :: "join_key list \<Rightarrow> nat \<Rightarrow> nat list" where
  "rest_idxs keys m = filter (\<lambda>i. i \<notin> jk_right ` set keys) [0..<m]"

definition rest_cells :: "join_key list \<Rightarrow> row \<Rightarrow> row" where
  "rest_cells keys r = map ((!) r) (rest_idxs keys (length r))"

definition left_cells :: "join_key list \<Rightarrow> nat \<Rightarrow> row \<Rightarrow> row" where
  "left_cells keys n r =
     map (\<lambda>j. case find (\<lambda>k. jk_left k = j) keys of Some k \<Rightarrow> r ! jk_right k | None \<Rightarrow> PNone) [0..<n]"

lemma right_to_left_snoc:
  "map_of (right_to_left (ks @ [k])) = (map_of (right_to_left ks))(jk_right k \<mapsto> jk_left k)"
  by (simp add: right_to_left_def)

lemma right_to_left_None: "map_of (right_to_left keys) i = None \<longleftrightarrow> i \<notin> jk_right ` set keys"
  by (induction keys rule: rev_induct) (auto simp: right_to_left_snoc right_to_left_def [of "[]"])

lemma right_to_left_Some: "map_of (right_to_left keys) i = Some j \<Longrightarrow> \<exists>k \<in> set keys. jk_right k = i \<and> jk_left k = j"
  by (induction keys rule: rev_induct)
    (auto simp: right_to_left_snoc right_to_left_def [of "[]"] split: if_splits)

lemma key_test_total:
  assumes "\<forall>k \<in> set keys. jk_left k < length l \<and> jk_right k < length r"
  shows "all_true (key_matches l r) keys = Inr (key_match keys l r)"
  using assms by (induction keys) (auto simp: key_match_def key_matches_def row_at_def)

lemma coalesce_steps:
  assumes "set is \<subseteq> {..<length r}" and "\<forall>k \<in> set keys. jk_left k < length out \<and> out ! jk_left k \<noteq> PNone"
  shows "foldE (coalesce_step keys r) out is = Inr (out @ map ((!) r) (filter (\<lambda>i. i \<notin> jk_right ` set keys) is))"
  using assms
proof (induction "is" arbitrary: out)
  case Nil
  then show ?case by simp
next
  case (Cons i "is")
  show ?case
  proof (cases "map_of (right_to_left keys) i")
    case None
    then have "i \<notin> jk_right ` set keys" by (simp add: right_to_left_None)
    moreover have "coalesce_step keys r out i = Inr (out @ [r ! i])"
      using None Cons.prems(1) by (simp add: coalesce_step_def row_at_def)
    moreover have "\<forall>k \<in> set keys. jk_left k < length (out @ [r ! i]) \<and> (out @ [r ! i]) ! jk_left k \<noteq> PNone"
      using Cons.prems(2) by (auto simp: nth_append less_SucI)
    ultimately show ?thesis using Cons.IH [of "out @ [r ! i]"] Cons.prems(1) by simp
  next
    case (Some j)
    from right_to_left_Some [OF this] obtain k where k: "k \<in> set keys" "jk_right k = i" "jk_left k = j" by blast
    then have "coalesce_step keys r out i = Inr out"
      using Some Cons.prems(2) by (auto simp: coalesce_step_def row_at_def)
    moreover have "i \<in> jk_right ` set keys" using k by auto
    ultimately show ?thesis using Cons by simp
  qed
qed

lemma coalesce_matched:
  assumes "length r = length rs" and "\<forall>k \<in> set keys. jk_left k < length l \<and> l ! jk_left k \<noteq> PNone"
  shows "coalesce_row keys rs l r = Inr (l @ rest_cells keys r)"
  using coalesce_steps [of "[0..<length r]" r keys l] assms
  by (simp add: lessThan_atLeast0 coalesce_row_def rest_cells_def rest_idxs_def)

text \<open>A left cell when the right columns in \<open>S\<close> have been visited.\<close>

definition cell_at :: "join_key list \<Rightarrow> row \<Rightarrow> nat set \<Rightarrow> nat \<Rightarrow> pyval" where
  "cell_at keys r S j =
     (case find (\<lambda>k. jk_left k = j) keys of
        Some k \<Rightarrow> if jk_right k \<in> S then r ! jk_right k else PNone | None \<Rightarrow> PNone)"

lemma find_left: "find (\<lambda>k. jk_left k = j) keys = Some k \<Longrightarrow> k \<in> set keys \<and> jk_left k = j"
  by (auto simp: find_Some_iff)

lemma cell_at_cong: "(\<And>k. k \<in> set keys \<Longrightarrow> jk_right k \<in> S \<longleftrightarrow> jk_right k \<in> T) \<Longrightarrow> cell_at keys r S j = cell_at keys r T j"
  by (auto simp: cell_at_def dest!: find_left split: option.split)

lemma pad_left_steps:
  assumes "set is \<subseteq> {..<length r}" and fit: "keys_fit keys n m"
  shows "foldE (pad_left_step keys r) (map (cell_at keys r S) [0..<n] @ xs) is =
    Inr (map (cell_at keys r (S \<union> set is)) [0..<n] @ xs @ map ((!) r) (filter (\<lambda>i. i \<notin> jk_right ` set keys) is))"
  using assms(1)
proof (induction "is" arbitrary: S xs)
  case Nil
  then show ?case by simp
next
  case (Cons i "is")
  have i: "i < length r" "set is \<subseteq> {..<length r}" using Cons.prems by auto
  show ?case
  proof (cases "map_of (right_to_left keys) i")
    case None
    then have none: "i \<notin> jk_right ` set keys" by (simp add: right_to_left_None)
    have "cell_at keys r (insert i S) j = cell_at keys r S j" for j
      by (rule cell_at_cong) (use none in auto)
    then have "map (cell_at keys r (insert i S)) = map (cell_at keys r S)" by (auto simp: fun_eq_iff)
    then show ?thesis using Cons.IH [OF i(2), of "insert i S" "xs @ [r ! i]"] None none i(1)
      by (simp add: pad_left_step_def row_at_def)
  next
    case (Some j)
    from right_to_left_Some [OF this] obtain k where k: "k \<in> set keys" "jk_right k = i" "jk_left k = j" by blast
    have j: "j < n" using fit k by (auto simp: keys_fit_def)
    have pair: "jk_left k' = j \<longleftrightarrow> jk_right k' = i" if "k' \<in> set keys" for k'
      using fit k that by (auto simp: keys_fit_def)
    have "(map (cell_at keys r S) [0..<n])[j := r ! i] = map (cell_at keys r (insert i S)) [0..<n]"
    proof (rule nth_equalityI)
      fix j' assume "j' < length ((map (cell_at keys r S) [0..<n])[j := r ! i])"
      then have j': "j' < n" by simp
      show "(map (cell_at keys r S) [0..<n])[j := r ! i] ! j' = map (cell_at keys r (insert i S)) [0..<n] ! j'"
      proof (cases "find (\<lambda>k. jk_left k = j') keys")
        case None
        then have "j' \<noteq> j" using k by (auto simp: find_None_iff)
        then show ?thesis using None j' by (simp add: cell_at_def)
      next
        case (Some k')
        from find_left [OF this] pair have "j' = j \<longleftrightarrow> jk_right k' = i" by auto
        then show ?thesis using Some j' by (auto simp: cell_at_def)
      qed
    qed simp
    then have "pad_left_step keys r (map (cell_at keys r S) [0..<n] @ xs) i = Inr (map (cell_at keys r (insert i S)) [0..<n] @ xs)"
      using Some i(1) j by (simp add: pad_left_step_def row_at_def list_update_append)
    moreover have "i \<in> jk_right ` set keys" using k by auto
    ultimately show ?thesis using Cons.IH [OF i(2), of "insert i S" xs] by simp
  qed
qed

lemma pad_left_cells:
  assumes "keys_fit keys (length ls) (length rs)" and "length r = length rs"
  shows "null_pad_left keys ls rs r = Inr (left_cells keys (length ls) r @ rest_cells keys r)"
proof (cases "keys = []")
  case True
  then show ?thesis
    by (simp add: null_pad_left_def left_cells_def rest_cells_def rest_idxs_def map_nth map_replicate_const)
next
  case False
  have "map (cell_at keys r {}) [0..<length ls] = replicate (length ls) PNone"
    by (rule nth_equalityI) (auto simp: cell_at_def split: option.splits)
  moreover have "map (cell_at keys r {..<length r}) [0..<length ls] = left_cells keys (length ls) r"
    using assms by (auto simp: cell_at_def left_cells_def keys_fit_def dest!: find_left split: option.split)
  ultimately show ?thesis
    using pad_left_steps [of "[0..<length r]" r keys "length ls" "length rs" "{}" "[]"] assms False
    by (simp add: null_pad_left_def rest_cells_def rest_idxs_def lessThan_atLeast0)
qed

lemma pad_right_cells: "null_pad_right keys rs = (\<lambda>l. l @ map (\<lambda>i. PNone) (rest_idxs keys (length rs)))"
  by (simp add: fun_eq_iff null_pad_right_def rest_idxs_def map_replicate_const)

interpretation key_join: join_sides
  "{l. length l = length ls \<and> keys \<noteq> [] \<and> keys_fit keys (length ls) (length rs)}"
  "{r. length r = length rs \<and> keys_fit keys (length ls) (length rs)}"
  "matches keys on_expr lm rm" "coalesce_row keys rs" "null_pad_left keys ls rs"
  "key_match keys" "\<lambda>l r. l @ rest_cells keys r" "\<lambda>r. left_cells keys (length ls) r @ rest_cells keys r"
  for keys on_expr lm rm ls rs
  by unfold_locales
    (auto simp: matches_def key_test_total keys_fit_def key_match_def intro!: coalesce_matched pad_left_cells)

interpretation on_join: join_sides
  "{l \<in> L. length l = length ls}"
  "{r. length r = length rs \<and> (\<forall>l \<in> L. \<exists>b. matches [] on_expr lm rm l r = Inr b)}"
  "matches [] on_expr lm rm" "coalesce_row [] rs" "null_pad_left [] ls rs"
  "\<lambda>l r. matches [] on_expr lm rm l r = Inr True" "\<lambda>l r. l @ r" "\<lambda>r. replicate (length ls) PNone @ r"
  for L on_expr lm rm ls rs
proof unfold_locales
  fix l r assume "l \<in> {l \<in> L. length l = length ls}"
    and "r \<in> {r. length r = length rs \<and> (\<forall>l \<in> L. \<exists>b. matches [] on_expr lm rm l r = Inr b)}"
  then show "matches [] on_expr lm rm l r = Inr (matches [] on_expr lm rm l r = Inr True)" by auto
next
  fix l r assume "r \<in> {r. length r = length rs \<and> (\<forall>l \<in> L. \<exists>b. matches [] on_expr lm rm l r = Inr b)}"
  then show "coalesce_row [] rs l r = Inr (l @ r)"
    using coalesce_matched [of r rs "[]" l] by (simp add: rest_cells_def rest_idxs_def) (metis map_nth)
qed (simp add: null_pad_left_def)

section \<open>Joins\<close>

text \<open>The joins as operators on row lists: \<open>t\<close> matches, \<open>c\<close> joins a pair, \<open>q\<close> and \<open>p\<close> pad.\<close>

definition left_outer :: "(row \<Rightarrow> row \<Rightarrow> bool) \<Rightarrow> (row \<Rightarrow> row \<Rightarrow> row) \<Rightarrow> (row \<Rightarrow> row) \<Rightarrow> row list \<Rightarrow> row list \<Rightarrow> row list" where
  "left_outer t c q ls rs =
     concat (map (\<lambda>l. if \<exists>r \<in> set rs. t l r then map (c l) (filter (t l) rs) else [q l]) ls)"

fun relational ::
    "join_kind \<Rightarrow> (row \<Rightarrow> row \<Rightarrow> bool) \<Rightarrow> (row \<Rightarrow> row \<Rightarrow> row) \<Rightarrow> (row \<Rightarrow> row) \<Rightarrow> (row \<Rightarrow> row) \<Rightarrow>
     row list \<Rightarrow> row list \<Rightarrow> row list" where
  "relational J_CROSS t c q p ls rs = concat (map (\<lambda>l. map (c l) rs) ls)"
| "relational J_INNER t c q p ls rs = concat (map (\<lambda>l. map (c l) (filter (t l) rs)) ls)"
| "relational J_LEFT t c q p ls rs = left_outer t c q ls rs"
| "relational J_RIGHT t c q p ls rs =
     concat (map (\<lambda>r. if \<exists>l \<in> set ls. t l r then map (\<lambda>l. c l r) (filter (\<lambda>l. t l r) ls) else [p r]) rs)"
| "relational J_FULL t c q p ls rs =
     left_outer t c q ls rs @ map p (filter (\<lambda>r. \<forall>l \<in> set ls. \<not> t l r) rs)"

lemmas key_loops = key_join.inner_join key_join.left_join key_join.right_join key_join.full_join
lemmas on_loops = on_join.inner_join on_join.left_join on_join.right_join on_join.full_join

text \<open>
  C36. A join with USING or NATURAL keys never raises on rows as wide as their schemas, and
  it is the relational join on non-NULL equal keys: each kind but CROSS keeps the rows SQL
  says it keeps, in scan order, the key columns once; an unmatched left row is
  filled with NULLs, an unmatched right row puts its keys into the left columns.
\<close>

theorem using_join_relational:
  assumes "keys \<noteq> []" and "kind \<noteq> J_CROSS" and "keys_fit keys (length ls) (length rs)"
    and "\<forall>l \<in> set lrows. length l = length ls" and "\<forall>r \<in> set rrows. length r = length rs"
  shows "join_rows kind lp rp keys on_expr (lrows, ls) (rrows, rs) =
    Inr (relational kind (key_match keys) (\<lambda>l r. l @ rest_cells keys r)
      (\<lambda>l. l @ map (\<lambda>i. PNone) (rest_idxs keys (length rs)))
      (\<lambda>r. left_cells keys (length ls) r @ rest_cells keys r) lrows rrows, merged_schema keys ls rs)"
proof -
  have s: "set lrows \<subseteq> {l. length l = length ls \<and> keys \<noteq> [] \<and> keys_fit keys (length ls) (length rs)}"
    "set rrows \<subseteq> {r. length r = length rs \<and> keys_fit keys (length ls) (length rs)}"
    using assms by auto
  show ?thesis
    using assms(2) by (cases kind) (simp_all add: join_rows_def left_outer_def pad_right_cells key_loops [OF s])
qed

definition ex_scan :: "string \<Rightarrow> plan" where
  "ex_scan t = Scan (ustr t) None [ustr ''x''] (ustr t)"

definition ex_key :: join_key where
  "ex_key = \<lparr>jk_left = 0, jk_right = 0, jk_label = ustr ''k'', jk_source_left = ustr ''a'', jk_source_right = ustr ''b''\<rparr>"

theorem using_join_relational_witness:
  "join_rows J_FULL (ex_scan ''a'') (ex_scan ''b'') [ex_key] []
     ([[PInt 1, PInt 10], [PNone, PInt 20]], [ustr ''a.k'', ustr ''a.x'']) ([[PInt 1, PInt 5], [PInt 2, PInt 6]], [ustr ''b.k'', ustr ''b.y'']) =
   Inr ([[PInt 1, PInt 10, PInt 5], [PNone, PInt 20, PNone], [PInt 2, PNone, PInt 6]], [ustr ''k'', ustr ''a.x'', ustr ''b.y''])"
  using using_join_relational [of "[ex_key]" J_FULL "[ustr ''a.k'', ustr ''a.x'']" "[ustr ''b.k'', ustr ''b.y'']"
      "[[PInt 1, PInt 10], [PNone, PInt 20]]" "[[PInt 1, PInt 5], [PInt 2, PInt 6]]" "ex_scan ''a''" "ex_scan ''b''" "[]"]
  by (simp add: ex_key_def keys_fit_def left_outer_def key_match_def py_eq_def rest_cells_def rest_idxs_def left_cells_def
      merged_schema_def ustr_def)

text \<open>
  C37. A join with an ON condition that does not raise on the rows at hand is the
  relational join on that condition, for every kind but CROSS: INNER keeps the matching pairs, LEFT and RIGHT
  also every unmatched row of their side once, padded with NULLs, FULL both.
\<close>

theorem on_join_relational:
  assumes "kind \<noteq> J_CROSS" and "\<forall>l \<in> set lrows. length l = length ls" and "\<forall>r \<in> set rrows. length r = length rs"
    and "\<forall>l \<in> set lrows. \<forall>r \<in> set rrows. \<exists>b. matches [] on_expr (source_position_map lp) (source_position_map rp) l r = Inr b"
  shows "join_rows kind lp rp [] on_expr (lrows, ls) (rrows, rs) =
    Inr (relational kind (\<lambda>l r. matches [] on_expr (source_position_map lp) (source_position_map rp) l r = Inr True)
      (\<lambda>l r. l @ r) (\<lambda>l. l @ replicate (length rs) PNone) (\<lambda>r. replicate (length ls) PNone @ r) lrows rrows,
      merged_schema [] ls rs)"
proof -
  have s: "set lrows \<subseteq> {l \<in> set lrows. length l = length ls}"
    "set rrows \<subseteq> {r. length r = length rs \<and>
       (\<forall>l \<in> set lrows. \<exists>b. matches [] on_expr (source_position_map lp) (source_position_map rp) l r = Inr b)}"
    using assms by auto
  show ?thesis
    using assms(1) by (cases kind) (simp_all add: join_rows_def left_outer_def pad_right_cells rest_idxs_def map_replicate_const on_loops [OF s])
qed

text \<open>Reading a cell of the left and one of the right row.\<close>

definition ex_on :: folded where
  "ex_on = F_on (ustr ''<'') 0 0 (ustr ''a'') (ustr ''b'')"

theorem on_join_relational_witness:
  "join_rows J_LEFT (ex_scan ''a'') (ex_scan ''b'') [] [ex_on]
     ([[PInt 1], [PInt 3]], [ustr ''a.x'']) ([[PInt 2], [PInt 3]], [ustr ''b.x'']) =
   Inr ([[PInt 1, PInt 2], [PInt 1, PInt 3], [PInt 3, PNone]], [ustr ''a.x'', ustr ''b.x''])"
proof -
  have m: "matches [] [ex_on] (source_position_map (ex_scan ''a'')) (source_position_map (ex_scan ''b'')) [PInt i] [PInt j] = Inr (i < j)"
    for i j
    by (simp add: matches_def ex_on_def ex_scan_def source_position_map_def remap_position_def row_at_def compare_ops_def
        ustr_def py_lt_def)
  show ?thesis
    using on_join_relational [of J_LEFT "[[PInt 1], [PInt 3]]" "[ustr ''a.x'']" "[[PInt 2], [PInt 3]]" "[ustr ''b.x'']"
        "[ex_on]" "ex_scan ''a''" "ex_scan ''b''"]
    by (simp add: m ex_bool_eq left_outer_def merged_schema_def ustr_def)
qed

end
