(* ===== verification/Join_Layout.thy ===== *)
theory Join_Layout
  imports Join_Spec
begin

text \<open>
  The shape of the rows a plan yields: their width, and that the row has the cell of a scanned row
  at the position where the resolver looks for its column.
\<close>

section \<open>Widths\<close>

lemma filterE_subset: "filterE p xs = Inr ys \<Longrightarrow> set ys \<subseteq> set xs"
  by (induction xs arbitrary: ys) (auto split: if_splits)

lemma insort_res_set: "insort_res lt x ys = Inr zs \<Longrightarrow> set zs = insert x (set ys)"
  by (induction ys arbitrary: zs) (auto split: if_splits)

lemma py_sorted_set: "py_sorted lt xs = Inr ys \<Longrightarrow> set ys = set xs"
proof -
  have "foldE (\<lambda>acc x. insort_res lt x acc) acc xs = Inr ys \<Longrightarrow> set ys = set acc \<union> set xs" for acc
    by (induction xs arbitrary: acc) (auto dest: insort_res_set)
  then show "py_sorted lt xs = Inr ys \<Longrightarrow> set ys = set xs" by (simp add: py_sorted_def)
qed

lemma coalesce_length:
  "foldE (coalesce_step keys r) out is = Inr out' \<Longrightarrow>
   length out' = length out + length (filter (\<lambda>i. i \<notin> jk_right ` set keys) is)"
  by (induction "is" arbitrary: out)
    (fastforce simp: coalesce_step_def right_to_left_None [symmetric] split: option.splits if_splits)+

lemma pad_left_length:
  "foldE (pad_left_step keys r) out is = Inr out' \<Longrightarrow>
   length out' = length out + length (filter (\<lambda>i. i \<notin> jk_right ` set keys) is)"
  by (induction "is" arbitrary: out)
    (fastforce simp: pad_left_step_def right_to_left_None [symmetric] split: option.splits if_splits)+

lemma kept_length:
  "length (map snd (filter (\<lambda>(i, c). i \<notin> X) (zip [0..<length xs] xs))) = length (filter (\<lambda>i. i \<notin> X) [0..<length xs])"
  using arg_cong [where f = length, OF filter_map [of "\<lambda>i. i \<notin> X" fst "zip [0..<length xs] xs"]]
  by (simp add: comp_def case_prod_beta')

lemma merged_schema_length: "length (merged_schema keys ls rs) = length ls + length (rest_idxs keys (length rs))"
  using kept_length [of "jk_right ` set keys" rs] by (simp add: merged_schema_def Let_def rest_idxs_def)

text \<open>What holds of every row that a loop builds holds of its result.\<close>

lemma inner_loop_rows:
  assumes "inner_loop test comb xs out = Inr (out', m)" and "\<forall>r \<in> set out. P r"
    and "\<And>x r. x \<in> set xs \<Longrightarrow> comb x = Inr r \<Longrightarrow> P r"
  shows "\<forall>r \<in> set out'. P r"
  using foldE_invariant [OF assms(1) [unfolded inner_loop_def], of "\<lambda>(out, m). \<forall>r \<in> set out. P r"] assms(2,3)
  by (fastforce split: prod.splits if_splits)

lemma loop_inner_rows:
  assumes "nested_loop_inner test comb ls rs = Inr out"
    and comb: "\<And>l r x. l \<in> set ls \<Longrightarrow> r \<in> set rs \<Longrightarrow> comb l r = Inr x \<Longrightarrow> P x"
  shows "\<forall>x \<in> set out. P x"
proof (rule foldE_invariant [OF assms(1) [unfolded nested_loop_inner_def]])
  fix s l t assume l: "l \<in> set ls" and s: "\<forall>x \<in> set s. P x"
    and "bindE (inner_loop (test l) (comb l) rs s) (\<lambda>(out, matched). Inr out) = Inr t"
  then obtain m where "inner_loop (test l) (comb l) rs s = Inr (t, m)" by (auto split: prod.splits)
  then show "\<forall>x \<in> set t. P x" using s comb [OF l] by (rule inner_loop_rows)
qed simp

lemma loop_left_rows:
  assumes "nested_loop_left test comb q ls rs = Inr out"
    and comb: "\<And>l r x. l \<in> set ls \<Longrightarrow> r \<in> set rs \<Longrightarrow> comb l r = Inr x \<Longrightarrow> P x"
    and pad: "\<And>l. l \<in> set ls \<Longrightarrow> P (q l)"
  shows "\<forall>x \<in> set out. P x"
proof (rule foldE_invariant [OF assms(1) [unfolded nested_loop_left_def]])
  fix s l t assume l: "l \<in> set ls" and s: "\<forall>x \<in> set s. P x"
    and "bindE (inner_loop (test l) (comb l) rs s) (\<lambda>(out, matched). Inr (if \<not> matched then out @ [q l] else out)) = Inr t"
  then obtain u m where u: "inner_loop (test l) (comb l) rs s = Inr (u, m)" and t: "t = (if m then u else u @ [q l])"
    by (auto split: prod.splits)
  have "\<forall>x \<in> set u. P x" using u s comb [OF l] by (rule inner_loop_rows)
  then show "\<forall>x \<in> set t. P x" using t pad [OF l] by auto
qed simp

lemma loop_right_rows:
  assumes "nested_loop_right test comb pad ls rs = Inr out"
    and comb: "\<And>l r x. l \<in> set ls \<Longrightarrow> r \<in> set rs \<Longrightarrow> comb l r = Inr x \<Longrightarrow> P x"
    and pad: "\<And>r x. r \<in> set rs \<Longrightarrow> pad r = Inr x \<Longrightarrow> P x"
  shows "\<forall>x \<in> set out. P x"
proof (rule foldE_invariant [OF assms(1) [unfolded nested_loop_right_def]])
  fix s r t assume r: "r \<in> set rs" and s: "\<forall>x \<in> set s. P x"
    and "bindE (inner_loop (\<lambda>l. test l r) (\<lambda>l. comb l r) ls s) (\<lambda>(out, matched).
       if \<not> matched then bindE (pad r) (\<lambda>y. Inr (out @ [y])) else Inr out) = Inr t"
  then obtain u m where u: "inner_loop (\<lambda>l. test l r) (\<lambda>l. comb l r) ls s = Inr (u, m)"
    and t: "m \<and> t = u \<or> (\<exists>y. pad r = Inr y \<and> t = u @ [y])"
    by (auto split: prod.splits if_splits)
  have "\<forall>x \<in> set u. P x" using u s comb [OF _ r] by (rule inner_loop_rows)
  then show "\<forall>x \<in> set t. P x" using t pad [OF r] by auto
qed simp

lemma full_left_step_rows:
  assumes "full_left_step test comb q rs (out, seen) l = Inr (out', seen')" and "\<forall>x \<in> set out. P x"
    and comb: "\<And>r x. r \<in> set rs \<Longrightarrow> comb l r = Inr x \<Longrightarrow> P x" and "P (q l)"
  shows "\<forall>x \<in> set out'. P x"
proof -
  from assms(1) obtain u m where "out' = (if m then u else u @ [q l])" and
    u: "foldE (\<lambda>(out, seen, matched) (ri, rr).
         bindE (test l rr) (\<lambda>b.
         if b then bindE (comb l rr) (\<lambda>r. Inr (out @ [r], insert ri seen, True)) else Inr (out, seen, matched)))
       (out, seen, False) (zip [0..<length rs] rs) = Inr (u, seen', m)"
    by (auto simp: full_left_step_def split: prod.splits)
  moreover have "\<forall>x \<in> set u. P x"
    using foldE_invariant [OF u, of "\<lambda>(out, seen, m). \<forall>x \<in> set out. P x"] assms(2) comb
    by (fastforce split: prod.splits if_splits dest: set_zip_rightD)
  ultimately show ?thesis using assms(4) by auto
qed

lemma loop_full_rows:
  assumes "nested_loop_full test comb q pad ls rs = Inr out"
    and comb: "\<And>l r x. l \<in> set ls \<Longrightarrow> r \<in> set rs \<Longrightarrow> comb l r = Inr x \<Longrightarrow> P x"
    and q: "\<And>l. l \<in> set ls \<Longrightarrow> P (q l)" and pad: "\<And>r x. r \<in> set rs \<Longrightarrow> pad r = Inr x \<Longrightarrow> P x"
  shows "\<forall>x \<in> set out. P x"
proof -
  from assms(1) obtain mid seen where mid: "foldE (full_left_step test comb q rs) ([], {}) ls = Inr (mid, seen)"
    and out: "foldE (\<lambda>out (ri, rr). if ri \<notin> seen then bindE (pad rr) (\<lambda>r. Inr (out @ [r])) else Inr out) mid
      (zip [0..<length rs] rs) = Inr out"
    by (auto simp: nested_loop_full_def)
  have "case (mid, seen) of (out, seen) \<Rightarrow> \<forall>x \<in> set out. P x"
  proof (rule foldE_invariant [OF mid])
    fix st l st' assume l: "l \<in> set ls" and st: "case st of (out, seen) \<Rightarrow> \<forall>x \<in> set out. P x"
      and "full_left_step test comb q rs st l = Inr st'"
    then show "case st' of (out, seen) \<Rightarrow> \<forall>x \<in> set out. P x"
      using full_left_step_rows [of test comb q rs "fst st" "snd st" l "fst st'" "snd st'" P] comb [OF l] q [OF l]
      by (auto simp: case_prod_beta)
  qed simp
  then have mid_rows: "\<forall>x \<in> set mid. P x" by simp
  show ?thesis
  proof (rule foldE_invariant [OF out])
    show "\<forall>x \<in> set mid. P x" by (rule mid_rows)
  next
    fix s p t assume p: "p \<in> set (zip [0..<length rs] rs)" and s: "\<forall>x \<in> set s. P x"
      and step: "(case p of (ri, rr) \<Rightarrow> if ri \<notin> seen then bindE (pad rr) (\<lambda>r. Inr (s @ [r])) else Inr s) = Inr t"
    obtain i r where ir: "p = (i, r)" by force
    have "r \<in> set rs" using p ir by (auto dest: set_zip_rightD)
    then show "\<forall>x \<in> set t. P x" using step s pad [of r] ir by (auto split: if_splits)
  qed
qed

lemma join_rows_width:
  assumes "join_rows kind lp rp keys on_expr (lrows, ls) (rrows, rs) = Inr (out, schema)"
    and l: "\<forall>r \<in> set lrows. length r = length ls" and r: "\<forall>r \<in> set rrows. length r = length rs"
  shows "\<forall>r \<in> set out. length r = length schema"
proof -
  let ?P = "\<lambda>x :: row. length x = length ls + length (rest_idxs keys (length rs))"
  let ?test = "matches keys on_expr (source_position_map lp) (source_position_map rp)"
  have comb: "x \<in> set lrows \<Longrightarrow> y \<in> set rrows \<Longrightarrow> coalesce_row keys rs x y = Inr z \<Longrightarrow> ?P z" for x y z
    using l coalesce_length [of keys y x "[0..<length rs]" z] by (simp add: coalesce_row_def rest_idxs_def)
  have padr: "x \<in> set lrows \<Longrightarrow> ?P (null_pad_right keys rs x)" for x
    using l by (simp add: pad_right_cells)
  have padl: "?P z" if x: "x \<in> set rrows" and z: "null_pad_left keys ls rs x = Inr z" for x z
  proof (cases "keys = []")
    case True
    then show ?thesis using r x z by (auto simp: null_pad_left_def rest_idxs_def)
  next
    case False
    then have "foldE (pad_left_step keys x) (replicate (length ls) PNone) [0..<length rs] = Inr z"
      using z by (simp add: null_pad_left_def)
    from pad_left_length [OF this] show ?thesis by (simp add: rest_idxs_def)
  qed
  show ?thesis
  proof (cases kind)
    case J_CROSS
    then show ?thesis using assms by (auto simp: join_rows_def nested_loop_cross_def)
  next
    case J_INNER
    have run: "nested_loop_inner ?test (coalesce_row keys rs) lrows rrows = Inr out"
      using assms(1) J_INNER by (simp add: join_rows_def)
    have "\<forall>x \<in> set out. ?P x" by (rule loop_inner_rows [OF run]) (fact comb)+
    moreover have "schema = merged_schema keys ls rs" using assms(1) J_INNER by (simp add: join_rows_def)
    ultimately show ?thesis by (simp add: merged_schema_length)
  next
    case J_LEFT
    have run: "nested_loop_left ?test (coalesce_row keys rs) (null_pad_right keys rs) lrows rrows = Inr out"
      using assms(1) J_LEFT by (simp add: join_rows_def)
    have "\<forall>x \<in> set out. ?P x" by (rule loop_left_rows [OF run]) (fact comb padr)+
    moreover have "schema = merged_schema keys ls rs" using assms(1) J_LEFT by (simp add: join_rows_def)
    ultimately show ?thesis by (simp add: merged_schema_length)
  next
    case J_RIGHT
    have run: "nested_loop_right ?test (coalesce_row keys rs) (null_pad_left keys ls rs) lrows rrows = Inr out"
      using assms(1) J_RIGHT by (simp add: join_rows_def)
    have "\<forall>x \<in> set out. ?P x" by (rule loop_right_rows [OF run]) (fact comb padl)+
    moreover have "schema = merged_schema keys ls rs" using assms(1) J_RIGHT by (simp add: join_rows_def)
    ultimately show ?thesis by (simp add: merged_schema_length)
  next
    case J_FULL
    have run: "nested_loop_full ?test (coalesce_row keys rs) (null_pad_right keys rs) (null_pad_left keys ls rs) lrows rrows = Inr out"
      using assms(1) J_FULL by (simp add: join_rows_def)
    have "\<forall>x \<in> set out. ?P x" by (rule loop_full_rows [OF run]) (fact comb padr padl)+
    moreover have "schema = merged_schema keys ls rs" using assms(1) J_FULL by (simp add: join_rows_def)
    ultimately show ?thesis by (simp add: merged_schema_length)
  qed
qed

definition fits :: "rows \<Rightarrow> bool" where
  "fits rs \<longleftrightarrow> (\<forall>r \<in> set (fst rs). length r = length (snd rs))"

lemma eval_filter_fits: "eval_filter pred rs = Inr rs' \<Longrightarrow> fits rs \<Longrightarrow> fits rs'"
  by (cases rs; cases pred) (auto simp: eval_filter_def fits_def dest!: filterE_subset)

lemma slice_subset: "set (slice_from xs n) \<subseteq> set xs" "set (slice_to xs n) \<subseteq> set xs"
  by (auto simp: slice_from_def slice_to_def dest: in_set_dropD in_set_takeD)

lemma eval_limit_fits: "fits rs \<Longrightarrow> fits (eval_limit limit offset rs)"
  using slice_subset by (cases rs) (fastforce simp: eval_limit_def fits_def Let_def split: option.splits)

lemma mapE_keyed: "mapE (\<lambda>r. bindE (f r) (\<lambda>v. Inr (v, r))) xs = Inr ys \<Longrightarrow> map snd ys = xs"
  by (induction xs arbitrary: ys) auto

lemma sort_rows_set:
  assumes "sort_rows idx desc rows = Inr out"
  shows "set out = set rows"
proof -
  obtain keyed sorted where k: "mapE (\<lambda>r. bindE (row_at r idx) (\<lambda>v. Inr (v, r))) rows = Inr keyed"
    and s: "py_sorted (\<lambda>x y. sort_key_less (fst x) (fst y)) (if desc then rev keyed else keyed) = Inr sorted"
    and out: "out = map snd (if desc then rev sorted else sorted)"
    using assms by (auto simp: sort_rows_def)
  have "map snd keyed = rows" by (rule mapE_keyed [OF k])
  then have "snd ` set keyed = set rows" by (metis set_map)
  then show ?thesis using py_sorted_set [OF s] out by (cases desc) simp_all
qed

lemma eval_sort_fits:
  assumes "eval_sort keys rs = Inr rs'" and "fits rs"
  shows "fits rs'"
proof -
  obtain rows schema where rs: "rs = (rows, schema)" by force
  then obtain out where f: "foldE (\<lambda>rows (idx, desc). sort_rows idx desc rows) rows (rev keys) = Inr out" and "rs' = (out, schema)"
    using assms(1) by (auto simp: eval_sort_def)
  moreover have "set out = set rows"
    by (rule foldE_invariant [OF f]) (auto dest: sort_rows_set)
  ultimately show ?thesis using assms(2) rs by (simp add: fits_def)
qed

lemma eval_project_fits:
  assumes "eval_project u items star rs = Inr rs'" and "fits rs"
  shows "fits rs'"
proof (cases star)
  case True
  then show ?thesis using assms by (cases rs) (simp add: eval_project_def)
next
  case False
  obtain rows schema where rs: "rs = (rows, schema)" by force
  then obtain out where f: "mapE (\<lambda>r. mapE (\<lambda>(label, e). project_expr u e r schema) items) rows = Inr out"
    and rs': "rs' = (out, map fst items)"
    using assms(1) False by (auto simp: eval_project_def)
  have "length r = length items" if r: "r \<in> set out" for r
  proof -
    obtain i where i: "i < length out" "r = out ! i" using r by (auto simp: in_set_conv_nth)
    have "mapE (\<lambda>(label, e). project_expr u e (rows ! i) schema) items = Inr r"
      using mapE_Inr_nth [OF f, of i] mapE_Inr_length [OF f] i by simp
    then show ?thesis by (rule mapE_Inr_length)
  qed
  then show ?thesis using rs' by (simp add: fits_def)
qed

lemma group_add_keys: "fst ` set (group_add k r gs) \<subseteq> insert k (fst ` set gs)"
  by (induction k r gs rule: group_add.induct) auto

lemma group_rows_keys:
  assumes "group_rows idxs rows = Inr gs" and "g \<in> set gs"
  shows "length (fst g) = length idxs"
proof -
  have "\<forall>g \<in> set gs. length (fst g) = length idxs"
  proof (rule foldE_invariant [OF assms(1) [unfolded group_rows_def]])
    fix s row t assume s: "\<forall>g \<in> set s. length (fst g) = length idxs"
      and "bindE (mapE (row_at row) idxs) (\<lambda>k. Inr (group_add k row s)) = Inr t"
    then obtain k where "mapE (row_at row) idxs = Inr k" and t: "t = group_add k row s" by auto
    then have "length k = length idxs" by (simp add: mapE_Inr_length)
    then show "\<forall>g \<in> set t. length (fst g) = length idxs"
      using s group_add_keys [of k row s] by (fastforce simp: t)
  qed simp
  then show ?thesis using assms(2) by blast
qed

lemma aggregate_fits:
  assumes "eval_aggregate u group_keys aggs having rs = Inr rs'"
  shows "fits rs'"
proof -
  obtain out schema where o: "(if group_keys \<noteq> [] then aggregate_grouped u group_keys aggs rs
      else aggregate_single u aggs (fst rs)) = Inr (out, schema)"
    using assms by (auto simp: eval_aggregate_def)
  have "fits (out, schema)"
  proof (cases "group_keys = []")
    case True
    then show ?thesis using o by (auto simp: aggregate_single_def fits_def mapE_Inr_length)
  next
    case False
    obtain rows sch where rs: "rs = (rows, sch)" by force
    obtain groups labels where g: "group_rows group_keys rows = Inr groups"
      and m: "mapE (\<lambda>(key, group). bindE (mapE (\<lambda>a. compute_aggregate a group) aggs) (\<lambda>vs. Inr (key @ vs))) groups = Inr out"
      and l: "mapE (\<lambda>p. if p < length sch then Inr (sch ! p) else Inl IndexError) group_keys = Inr labels"
      and sch: "schema = labels @ map (agg_pos_label u) aggs"
      using o False rs by (auto simp: aggregate_grouped_def)
    have "length r = length group_keys + length aggs" if r: "r \<in> set out" for r
    proof -
      obtain i where i: "i < length out" "r = out ! i" using r by (auto simp: in_set_conv_nth)
      obtain key group where kg: "groups ! i = (key, group)" by force
      have len: "length out = length groups" using mapE_Inr_length [OF m] .
      then obtain vs where "mapE (\<lambda>a. compute_aggregate a group) aggs = Inr vs" "r = key @ vs"
        using mapE_Inr_nth [OF m, of i] i kg by auto
      moreover have "length key = length group_keys"
        using group_rows_keys [OF g nth_mem, of i] i len kg by simp
      ultimately show ?thesis by (simp add: mapE_Inr_length)
    qed
    then show ?thesis using sch mapE_Inr_length [OF l] by (simp add: fits_def)
  qed
  then show ?thesis using assms o
    by (cases having) (auto simp: eval_aggregate_def fits_def dest!: filterE_subset, blast)
qed

fun plan_scans :: "plan \<Rightarrow> (pystr \<times> pystr list) list" where
  "plan_scans (Scan table alias schema sid) = [(table, schema)]"
| "plan_scans (Join kind l r keys on_expr natural) = plan_scans l @ plan_scans r"
| "plan_scans (Filter p pred) = plan_scans p"
| "plan_scans (Aggregate p g a h) = plan_scans p"
| "plan_scans (Sort p ks) = plan_scans p"
| "plan_scans (Project p items star) = plan_scans p"
| "plan_scans (Limit p l off) = plan_scans p"

text \<open>Every scan is of a table of the catalog and lists its columns.\<close>

definition scans_ok :: "catalog \<Rightarrow> plan \<Rightarrow> bool" where
  "scans_ok cat p \<longleftrightarrow>
     (\<forall>(t, sch) \<in> set (plan_scans p). \<exists>ti. catalog_get_table cat t = Some ti \<and> length (ti_columns ti) = length sch)"

definition scan_widths :: "(table_info \<Rightarrow> row list res) \<Rightarrow> bool" where
  "scan_widths scan \<longleftrightarrow> (\<forall>ti rows r. scan ti = Inr rows \<longrightarrow> r \<in> set rows \<longrightarrow> length r = length (ti_columns ti))"

lemma plan_rows_fit:
  assumes "eval_plan u cat scan p = Inr rs" and "scans_ok cat p" and "scan_widths scan"
  shows "fits rs"
  using assms(1,2)
proof (induction p arbitrary: rs)
  case (Scan table al schema sid)
  then show ?case using assms(3)
    by (auto simp: eval_scan_def get_table_def scans_ok_def fits_def scan_widths_def split: option.splits)
next
  case (Join kind l r keys on_expr natural)
  from Join.prems(1) obtain lrs rrs where l: "eval_plan u cat scan l = Inr lrs" and r: "eval_plan u cat scan r = Inr rrs"
    and j: "join_rows kind l r keys on_expr lrs rrs = Inr rs"
    by auto
  have "fits lrs" "fits rrs" using Join.IH l r Join.prems(2) by (auto simp: scans_ok_def)
  then show ?case
    using join_rows_width [of kind l r keys on_expr "fst lrs" "snd lrs" "fst rrs" "snd rrs" "fst rs" "snd rs"] j
    by (simp add: fits_def)
next
  case (Limit p limit offset)
  then obtain rs0 where "eval_plan u cat scan p = Inr rs0" "rs = eval_limit limit offset rs0" by auto
  then show ?case using Limit eval_limit_fits by (simp add: scans_ok_def)
qed (auto simp: scans_ok_def intro: eval_filter_fits eval_sort_fits eval_project_fits aggregate_fits)

section \<open>The sources of a plan\<close>

definition ref_id :: "table_ref \<Rightarrow> pystr" where
  "ref_id ref = source_id_for (tr_name ref) (tr_alias ref)"

definition source_ok :: "catalog \<Rightarrow> source \<Rightarrow> bool" where
  "source_ok cat s \<longleftrightarrow>
     (\<exists>ti. catalog_get_table cat (so_table s) = Some ti \<and> so_schema s = map c_name (ti_columns ti)) \<and>
     so_pos s = index_dict (so_schema s)"

lemma register_sources:
  assumes "foldE (register_source cat) ss refs = Inr ss'" and "list_all (source_ok cat) ss" and "distinct (map so_id ss)"
  shows "list_all (source_ok cat) ss' \<and> distinct (map so_id ss') \<and> map so_id ss' = map so_id ss @ map ref_id refs"
  using assms
proof (induction refs arbitrary: ss)
  case Nil
  then show ?case by simp
next
  case (Cons ref refs)
  obtain s1 where s1: "register_source cat ss ref = Inr s1" and rest: "foldE (register_source cat) s1 refs = Inr ss'"
    using Cons.prems(1) by auto
  obtain ti where ti: "catalog_get_table cat (tr_name ref) = Some ti" "ref_id ref \<notin> so_id ` set ss"
    "s1 = ss @ [\<lparr>so_id = ref_id ref, so_table = tr_name ref, so_alias = tr_alias ref,
      so_schema = map c_name (ti_columns ti), so_pos = index_dict (map c_name (ti_columns ti))\<rparr>]"
    using s1 by (auto simp: register_source_def ref_id_def Let_def split: option.splits if_splits)
  have "list_all (source_ok cat) s1" "distinct (map so_id s1)"
    using ti Cons.prems(2,3) by (simp_all add: source_ok_def [of _ "\<lparr>so_id = _, so_table = _, so_alias = _, so_schema = _, so_pos = _\<rparr>"])
  note res = Cons.IH [OF rest this]
  have "map so_id s1 @ map ref_id refs = map so_id ss @ map ref_id (ref # refs)" using ti(3) by simp
  then show ?case using res by metis
qed

lemma build_source_map_ok:
  assumes "build_source_map from_ref joins cat = Inr ss"
  shows "list_all (source_ok cat) ss" and "distinct (map so_id ss)" and "map so_id ss = ref_id from_ref # map (ref_id \<circ> jc_right) joins"
proof -
  have res: "list_all (source_ok cat) ss \<and> distinct (map so_id ss) \<and>
      map so_id ss = map so_id ([] :: source list) @ map ref_id (from_ref # map jc_right joins)"
    by (rule register_sources [OF assms [unfolded build_source_map_def]]) simp_all
  show "list_all (source_ok cat) ss" and "distinct (map so_id ss)" using res by blast+
  show "map so_id ss = ref_id from_ref # map (ref_id \<circ> jc_right) joins" using res by simp
qed

lemma resolve_sources:
  assumes "resolve u ast cat = Inr rp"
  shows "build_source_map (s_from ast) (s_joins ast) cat = Inr (rp_sources rp)"
  using assms by (auto simp: resolve_def Let_def split: prod.splits)

lemma plan_scans_foldl:
  "plan_scans (foldl (plan_join rp) p xs) = plan_scans p @ concat (map (\<lambda>(i, j, s). plan_scans s) xs)"
  by (induction xs arbitrary: p) (auto simp: plan_join_def Let_def)

lemma join_tree_scans:
  assumes "rp_sources rp \<noteq> []" and "length (rp_sources rp) = Suc (length joins)"
  shows "plan_scans (join_tree rp joins) = map (\<lambda>s. (so_table s, so_schema s)) (rp_sources rp)"
proof -
  obtain s ss where ss: "rp_sources rp = s # ss" using assms(1) by (cases "rp_sources rp") auto
  have "concat (map (\<lambda>(i, j, s). plan_scans s) (zip [a..<a + length joins] (zip joins (map scan_of ss)))) =
      map (\<lambda>s. (so_table s, so_schema s)) ss" for a
    using assms(2) unfolding ss
  proof (induction joins arbitrary: ss a)
    case Nil
    then show ?case by simp
  next
    case (Cons j joins)
    then obtain t ts where ts: "ss = t # ts" by (cases ss) auto
    show ?case using Cons.IH [of ts "Suc a"] Cons.prems by (simp add: ts upt_conv_Cons scan_of_def del: upt_Suc)
  qed
  from this [of 0] show ?thesis by (simp add: join_tree_def ss plan_scans_foldl scan_of_def)
qed

lemma build_plan_scans:
  assumes "build_plan u ast cat = Inr p"
  shows "scans_ok cat p"
proof -
  obtain rp where rp: "resolve u ast cat = Inr rp" and p: "plan_scans p = plan_scans (join_tree rp (s_joins ast))"
    using assms by (auto simp: build_plan_def Let_def split: option.splits)
  note map = build_source_map_ok [OF resolve_sources [OF rp]]
  from arg_cong [OF map(3), of length] have "length (rp_sources rp) = Suc (length (s_joins ast))" by simp
  then have "plan_scans p = map (\<lambda>s. (so_table s, so_schema s)) (rp_sources rp)"
    using join_tree_scans [of rp "s_joins ast"] p by (metis length_0_conv nat.distinct(1))
  then show ?thesis using map(1) by (fastforce simp: scans_ok_def list_all_iff source_ok_def)
qed

lemma new_rows_fit:
  "\<forall>r \<in> set rows. length r = length schema \<Longrightarrow>
   mapE (\<lambda>r. new_row r schema) rows = Inr (map (\<lambda>r. \<lparr>rr_values = r, rr_columns = schema\<rparr>) rows)"
  by (rule mapE_all_Inr) (simp add: new_row_def)

text \<open>
  C39. A SELECT with joins whose plan runs returns every row of the plan: each has one
  value for each column name, so building the result rows never raises, whatever the
  joins, conditions, grouping and projection, as long as the stored rows have the width
  of their tables.
\<close>

theorem join_select_width:
  assumes "build_plan u stmt cat = Inr p" and "eval_plan u cat scan p = Inr (rows, schema)" and "scan_widths scan"
  shows "exec_join_select u cat scan stmt = Inr (map (\<lambda>r. \<lparr>rr_values = r, rr_columns = schema\<rparr>) rows)"
proof -
  have "fits (rows, schema)" by (rule plan_rows_fit [OF assms(2) build_plan_scans [OF assms(1)] assms(3)])
  then have "\<forall>r \<in> set rows. length r = length schema" by (simp add: fits_def)
  from new_rows_fit [OF this] show ?thesis using assms(1,2) by (simp add: exec_join_select_def)
qed

section \<open>Where a merged column is\<close>


























section \<open>The cells of a row\<close>

text \<open>
  A row holds the cells \<open>base\<close>, outside the positions \<open>L\<close> of merged columns; with \<open>b\<close> at these
  too, where \<open>base\<close> is not NULL.
\<close>

definition cells :: "bool \<Rightarrow> nat set \<Rightarrow> row \<Rightarrow> row \<Rightarrow> bool" where
  "cells b L base r \<longleftrightarrow> length r = length base \<and> (\<forall>p < length base. p \<notin> L \<or> b \<and> base ! p \<noteq> PNone \<longrightarrow> r ! p = base ! p)"



lemma cells_mono: "cells b L base r \<Longrightarrow> L \<subseteq> L' \<Longrightarrow> cells b L' base r"
  by (auto simp: cells_def)


























section \<open>Where a qualified column is\<close>


section \<open>ON conditions the executor misplaces\<close>

lemma source_position_map_foldl:
  "map_of (fst (foldl (\<lambda>(m, offset) (sid, sch). (AList.update sid (offset, length sch) m, offset + length sch)) (m, off) xs)) s = None \<longleftrightarrow>
   map_of m s = None \<and> s \<notin> fst ` set xs"
  by (induction xs arbitrary: m off) (auto split: if_splits)

lemma source_position_map_None: "map_of (source_position_map p) s = None \<longleftrightarrow> s \<notin> fst ` set (collect_sources p)"
  by (simp add: source_position_map_def source_position_map_foldl)

lemma foldE_raises: "xs \<noteq> [] \<Longrightarrow> f s (hd xs) = Inl e \<Longrightarrow> foldE f s xs = Inl e"
  by (cases xs) auto

lemma foldE_const: "xs \<noteq> [] \<Longrightarrow> foldE (\<lambda>s x. Inl e) s xs = Inl e"
  by (cases xs) auto

text \<open>
  An ON condition whose left column belongs to the table being joined
  (\<open>a JOIN b ON b.y = a.x\<close>) raises KeyError in every kind of join as soon as both
  sides have a row: the executor looks the first column up on the left side only.
\<close>

theorem reversed_on_raises:
  assumes "kind \<noteq> J_CROSS" and "lrows \<noteq> []" and "rrows \<noteq> []" and "op \<in> fst ` set compare_ops"
    and "lsrc \<notin> fst ` set (collect_sources l)"
  shows "join_rows kind l r [] [F_on op lpos rpos lsrc rsrc] (lrows, ls) (rrows, rs) = Inl KeyError"
proof -
  let ?test = "matches [] [F_on op lpos rpos lsrc rsrc] (source_position_map l) (source_position_map r)"
  obtain f where f: "map_of compare_ops op = Some f" using assms(4) by (metis weak_map_of_SomeI imageE prod.collapse)
  have "map_of (source_position_map l) lsrc = None" using assms(5) by (simp add: source_position_map_None)
  then have test: "?test x y = Inl KeyError" for x y
    by (simp add: matches_def f remap_position_def)
  have "inner_loop (?test x) c rrows out = Inl KeyError" and "inner_loop (\<lambda>x. ?test x y) c lrows out = Inl KeyError" for x y c out
    unfolding inner_loop_def using assms(2,3) by (auto intro!: foldE_raises simp: test)
  moreover have ne: "zip [0..<length rrows] rrows \<noteq> []" using assms(3) by auto
  have "full_left_step ?test c q rrows st x = Inl KeyError" for c q st x
    unfolding full_left_step_def by (cases st) (simp add: test case_prod_beta' foldE_const [OF ne])
  ultimately show ?thesis
    using assms(1-3) unfolding join_rows_def Let_def
    by (cases kind)
      (simp_all add: nested_loop_inner_def nested_loop_left_def nested_loop_right_def nested_loop_full_def foldE_raises)
qed

text \<open>
  After a USING or NATURAL join of two tables, an ON condition of a later join on the
  last column of the second table raises IndexError on every row: the executor counts
  the columns of both tables in full, although the merged ones are dropped.
\<close>

theorem on_after_using_raises:
  assumes "l = Join kind (Scan ta aa sa ida) (Scan tb ab sb idb) keys on_expr natural" and "ida \<noteq> idb"
    and "keys \<noteq> []" and "\<forall>k \<in> set keys. jk_right k < length sb"
    and "length row = length (merged_schema keys (map (dotted ida) sa) (map (dotted idb) sb))"
    and "op \<in> fst ` set compare_ops" and "remap_position rsrc rpos rm = Inr ri"
  shows "eval_fold_expr (F_on op (length sb - 1) rpos idb rsrc) row (Some rrow) (source_position_map l) rm = Inl IndexError"
proof -
  obtain f where f: "map_of compare_ops op = Some f" using assms(6) by (metis weak_map_of_SomeI imageE prod.collapse)
  have m: "map_of (source_position_map l) idb = Some (length sa, length sb)"
    using assms(2) by (simp add: assms(1) source_position_map_def)
  obtain k where k: "k \<in> set keys" using assms(3) by (cases keys) auto
  have "length (rest_idxs keys (length sb)) < length [0..<length sb]"
    unfolding rest_idxs_def by (rule length_filter_less [of "jk_right k"]) (use k assms(4) in auto)
  then have "length row \<le> length sa + (length sb - 1)" using assms(5) by (simp add: merged_schema_length)
  then show ?thesis by (simp add: f m remap_position_def [of idb] assms(7) row_at_def)
qed

section \<open>Aggregates without AS\<close>

lemma default_alias_longer: "ag_arg agg \<noteq> A_star \<Longrightarrow> default_alias u agg \<noteq> py_lower u (ag_func agg)"
  by (cases "ag_arg agg") (auto simp: default_alias_def)

text \<open>
  In a SELECT with joins an aggregate of a column without AS never succeeds: the
  aggregate is labelled \<open>sum_x\<close> after the parser's naming, and the projection looks for
  the executor's own default \<open>sum\<close>.
\<close>

theorem join_aggregate_needs_as:
  assumes "s_items stmt = [I_aggregate agg None]" and "ag_alias agg = None" and "ag_arg agg \<noteq> A_star"
    and "s_group_by stmt = []" and "s_having stmt = None" and "s_order_by stmt = []"
    and "s_limit stmt = None" and "select_stmt.s_offset stmt = None"
  shows "\<exists>e. exec_join_select u cat scan stmt = Inl e"
proof -
  have "exec_join_select u cat scan stmt \<noteq> Inr out" for out
  proof
    assume "exec_join_select u cat scan stmt = Inr out"
    then obtain p rs where p: "build_plan u stmt cat = Inr p" and e: "eval_plan u cat scan p = Inr rs"
      by (auto simp: exec_join_select_def)
    obtain rp where rp: "resolve u stmt cat = Inr rp" using p by (auto simp: build_plan_def)
    have "aggregates_of stmt = [(agg, None)]" using assms(1) by (simp add: aggregates_of_def map_filter_simps)
    then obtain g where parts: "rp_aggregates rp = [g]" "ap_alias g = default_alias u agg" "rp_group rp = []" "rp_order rp = []"
      "rp_having rp = None"
      using rp assms by (auto simp: resolve_def Let_def resolve_aggregate_def fold_group_by_def fold_order_by_def agg_label_def split: prod.splits)
    obtain q where "p = Project (Aggregate q [] [g] None) [(default_alias u agg, Pj_agg agg)] False"
      using p rp parts assms by (auto simp: build_plan_def Let_def plan_item_def agg_label_def)
    then obtain qs as where a: "eval_aggregate u [] [g] None qs = Inr as"
      and pr: "eval_project u [(default_alias u agg, Pj_agg agg)] False as = Inr rs"
      using e by auto
    have "default_alias u agg \<noteq> []" using assms(3) by (cases "ag_arg agg") (auto simp: default_alias_def)
    then obtain v where "as = ([[v]], [default_alias u agg])"
      using a parts(2) by (auto simp: eval_aggregate_def aggregate_single_def agg_pos_label_def join_agg_label_def)
    then show False
      using pr assms(2,3) default_alias_longer [of agg u]
      by (auto simp: eval_project_def project_expr_def index_of_def join_agg_label_def join_default_alias_def)
  qed
  then show ?thesis by (cases "exec_join_select u cat scan stmt") auto
qed

section \<open>Examples\<close>

text \<open>Tables \<open>a(id, x)\<close> and \<open>b(id, y)\<close>; \<open>SELECT \<dots> FROM a JOIN b USING (id)\<close>.\<close>

definition demo_table :: "string \<Rightarrow> string list \<Rightarrow> pystr \<times> table_info" where
  "demo_table t cs = (ustr t, \<lparr>ti_columns = map (\<lambda>c. \<lparr>c_name = ustr c, c_type = ''INT'', c_params = [], c_nullable = True,
      c_unique = False, c_pk = False\<rparr>) cs, ti_root = 2, ti_next = 0, ti_name = ustr t\<rparr>)"

definition demo_cat :: catalog where
  "demo_cat = [demo_table ''a'' [''id'', ''x''], demo_table ''b'' [''id'', ''y'']]"

definition demo_ref :: "string \<Rightarrow> table_ref" where
  "demo_ref t = \<lparr>tr_name = ustr t, tr_alias = None, tr_line = 1, tr_col = 1\<rparr>"

definition demo_stmt :: "select_item list \<Rightarrow> select_stmt" where
  "demo_stmt items = \<lparr>s_table = ustr ''a'', s_columns = [], s_where = None, s_order_by = [], s_limit = None, s_offset = None,
     s_items = items, s_group_by = [], s_having = None, s_agg_aliases = [], s_from = demo_ref ''a'',
     s_joins = [\<lparr>jc_kind = J_INNER, jc_right = demo_ref ''b'', jc_on = None, jc_using = [ustr ''id''], jc_natural = False,
       jc_line = 1, jc_col = 1\<rparr>], s_line = 1, s_col = 1\<rparr>"

definition demo_rows :: "table_info \<Rightarrow> row list res" where
  "demo_rows ti = Inr (if length (ti_columns ti) = 2 then [[PInt 1, PInt 5], [PInt 2, PInt 7]] else [])"

lemma demo_widths: "scan_widths demo_rows"
  by (auto simp: scan_widths_def demo_rows_def split: if_splits)





definition demo_out :: "result_row list" where
  "demo_out = map (\<lambda>vs. \<lparr>rr_values = vs, rr_columns = [ustr ''id'', ustr ''a.x'', ustr ''b.y'']\<rparr>)
     [[PInt 1, PInt 5, PInt 5], [PInt 2, PInt 7, PInt 7]]"

lemma demo_join: "bindE (build_plan latin1 (demo_stmt [I_star]) demo_cat) (eval_plan latin1 demo_cat demo_rows) =
    Inr ([[PInt 1, PInt 5, PInt 5], [PInt 2, PInt 7, PInt 7]], [ustr ''id'', ustr ''a.x'', ustr ''b.y''])"
  by code_simp

theorem join_select_width_witness:
  "exec_join_select latin1 demo_cat demo_rows (demo_stmt [I_star]) = Inr demo_out"
proof -
  obtain p where "build_plan latin1 (demo_stmt [I_star]) demo_cat = Inr p"
    and "eval_plan latin1 demo_cat demo_rows p =
      Inr ([[PInt 1, PInt 5, PInt 5], [PInt 2, PInt 7, PInt 7]], [ustr ''id'', ustr ''a.x'', ustr ''b.y''])"
    using demo_join by auto
  from join_select_width [OF this demo_widths] show ?thesis by (simp add: demo_out_def)
qed



theorem reversed_on_raises_witness:
  "join_rows J_LEFT (ex_scan ''a'') (ex_scan ''b'') [] [F_on (ustr ''='') 0 0 (ustr ''b'') (ustr ''a'')]
     ([[PInt 1]], [ustr ''a.x'']) ([[PInt 1]], [ustr ''b.x'']) = Inl KeyError"
  by (rule reversed_on_raises) (simp_all add: ex_scan_def compare_ops_def ustr_def)

theorem on_after_using_raises_witness:
  "eval_fold_expr (F_on (ustr ''='') (length [ustr ''k'', ustr ''y''] - 1) 0 (ustr ''b'') (ustr ''c'')) [PInt 1, PInt 5, PInt 9] (Some [PInt 9])
     (source_position_map (Join J_INNER (Scan (ustr ''a'') None [ustr ''k'', ustr ''x''] (ustr ''a''))
        (Scan (ustr ''b'') None [ustr ''k'', ustr ''y''] (ustr ''b'')) [ex_key] [] False))
     (source_position_map (ex_scan ''c'')) = Inl IndexError"
  by (rule on_after_using_raises [where ida = "ustr ''a''" and ri = 0, OF refl])
    (simp_all add: ex_key_def merged_schema_def ustr_def compare_ops_def remap_position_def source_position_map_def ex_scan_def)

theorem join_aggregate_needs_as_witness:
  "\<exists>e. exec_join_select latin1 demo_cat demo_rows (demo_stmt [I_aggregate
     \<lparr>ag_func = ustr ''SUM'', ag_arg = A_col (ustr ''x''), ag_alias = None, ag_line = 1, ag_col = 8\<rparr> None]) = Inl e"
  by (rule join_aggregate_needs_as [where agg = "\<lparr>ag_func = ustr ''SUM'', ag_arg = A_col (ustr ''x''), ag_alias = None,
      ag_line = 1, ag_col = 8\<rparr>"]) (simp_all add: demo_stmt_def)

end
