(* ===== verification/Plan_Text.thy ===== *)
theory Plan_Text
  imports Plan Json
begin

text \<open>
  The text of a plan (\<open>format_plan\<close> of \<open>src/tinydb/plan.py\<close>), which the shell prints for
  \<open>.explain\<close>. The \<open>repr\<close> of a text is a parameter. Lemma: one line per node, in preorder,
  indented by its depth.
\<close>

definition join_with :: "pystr \<Rightarrow> pystr list \<Rightarrow> pystr" where
  "join_with sep parts = (case parts of [] \<Rightarrow> [] | p # ps \<Rightarrow> p @ concat (map (\<lambda>q. sep @ q) ps))"

text \<open>\<open>repr\<close> of a tuple whose items have the given texts.\<close>

definition tuple_repr :: "pystr list \<Rightarrow> pystr" where
  "tuple_repr items =
     (case items of [x] \<Rightarrow> ustr ''('' @ x @ ustr '',)'' | _ \<Rightarrow> ustr ''('' @ join_with (ustr '', '') items @ ustr '')'')"

definition bool_repr :: "bool \<Rightarrow> pystr" where
  "bool_repr b = (if b then ustr ''True'' else ustr ''False'')"

definition nat_repr :: "nat \<Rightarrow> pystr" where
  "nat_repr n = int_str (int n)"

definition option_repr :: "int option \<Rightarrow> pystr" where
  "option_repr v = (case v of None \<Rightarrow> ustr ''None'' | Some i \<Rightarrow> int_str i)"

fun kind_text :: "join_kind \<Rightarrow> pystr" where
  "kind_text J_INNER = ustr ''INNER''"
| "kind_text J_LEFT = ustr ''LEFT''"
| "kind_text J_RIGHT = ustr ''RIGHT''"
| "kind_text J_FULL = ustr ''FULL''"
| "kind_text J_CROSS = ustr ''CROSS''"

definition plan_pad :: "nat \<Rightarrow> pystr" where
  "plan_pad depth = concat (replicate depth (ustr ''   ''))"

text \<open>The first line of a node, without its indentation.\<close>

fun plan_head :: "(pystr \<Rightarrow> pystr) \<Rightarrow> plan \<Rightarrow> pystr" where
  "plan_head repr (Scan table alias schema i) =
     ustr ''Scan('' @ table @ (case alias of Some a \<Rightarrow> if a \<noteq> [] then ustr '' AS '' @ a else [] | None \<Rightarrow> []) @
     ustr '', schema='' @ tuple_repr (map repr schema) @ ustr '')''"
| "plan_head repr (Join kind l r keys on_expr natural) =
     ustr ''Join('' @ kind_text kind @ ustr '', keys='' @ nat_repr (length keys) @
     (if natural then ustr '', natural'' else []) @ ustr '')''"
| "plan_head repr (Filter p e) = ustr ''Filter''"
| "plan_head repr (Aggregate p groups aggs having) =
     ustr ''Aggregate(groups='' @ nat_repr (length groups) @ ustr '', funcs='' @ nat_repr (length aggs) @ ustr '')''"
| "plan_head repr (Sort p keys) =
     ustr ''Sort(keys='' @ tuple_repr (map (\<lambda>(i, desc). tuple_repr [nat_repr i, bool_repr desc]) keys) @ ustr '')''"
| "plan_head repr (Project p items star) =
     ustr ''Project(items='' @ nat_repr (length items) @ (if star then ustr '', star'' else []) @ ustr '')''"
| "plan_head repr (Limit p limit skip) =
     ustr ''Limit(limit='' @ option_repr limit @ ustr '', offset='' @ option_repr skip @ ustr '')''"

fun format_node :: "(pystr \<Rightarrow> pystr) \<Rightarrow> nat \<Rightarrow> plan \<Rightarrow> pystr" where
  "format_node repr depth (Join kind l r keys on_expr natural) =
     plan_pad depth @ plan_head repr (Join kind l r keys on_expr natural) @ [10] @
     format_node repr (depth + 1) l @ [10] @ format_node repr (depth + 1) r"
| "format_node repr depth (Scan table alias schema i) = plan_pad depth @ plan_head repr (Scan table alias schema i)"
| "format_node repr depth (Filter p e) = plan_pad depth @ plan_head repr (Filter p e) @ [10] @ format_node repr (depth + 1) p"
| "format_node repr depth (Aggregate p groups aggs having) =
     plan_pad depth @ plan_head repr (Aggregate p groups aggs having) @ [10] @ format_node repr (depth + 1) p"
| "format_node repr depth (Sort p keys) = plan_pad depth @ plan_head repr (Sort p keys) @ [10] @ format_node repr (depth + 1) p"
| "format_node repr depth (Project p items star) =
     plan_pad depth @ plan_head repr (Project p items star) @ [10] @ format_node repr (depth + 1) p"
| "format_node repr depth (Limit p limit skip) =
     plan_pad depth @ plan_head repr (Limit p limit skip) @ [10] @ format_node repr (depth + 1) p"

definition format_plan :: "(pystr \<Rightarrow> pystr) \<Rightarrow> plan \<Rightarrow> pystr" where
  "format_plan repr p = format_node repr 0 p"

section \<open>Lemmas\<close>

fun outline :: "nat \<Rightarrow> plan \<Rightarrow> (nat \<times> plan) list" where
  "outline depth (Join kind l r keys on_expr natural) =
     (depth, Join kind l r keys on_expr natural) # outline (depth + 1) l @ outline (depth + 1) r"
| "outline depth (Scan table alias schema i) = [(depth, Scan table alias schema i)]"
| "outline depth (Filter p e) = (depth, Filter p e) # outline (depth + 1) p"
| "outline depth (Aggregate p groups aggs having) = (depth, Aggregate p groups aggs having) # outline (depth + 1) p"
| "outline depth (Sort p keys) = (depth, Sort p keys) # outline (depth + 1) p"
| "outline depth (Project p items star) = (depth, Project p items star) # outline (depth + 1) p"
| "outline depth (Limit p limit skip) = (depth, Limit p limit skip) # outline (depth + 1) p"

lemma join_with_append:
  "xs \<noteq> [] \<Longrightarrow> ys \<noteq> [] \<Longrightarrow> join_with sep (xs @ ys) = join_with sep xs @ sep @ join_with sep ys"
  by (cases xs; cases ys) (simp_all add: join_with_def)

lemma join_with_Cons: "ys \<noteq> [] \<Longrightarrow> join_with sep (x # ys) = x @ sep @ join_with sep ys"
  using join_with_append [of "[x]" ys] by (simp add: join_with_def)

lemma join_with_single: "join_with sep [x] = x"
  by (simp add: join_with_def)

lemma outline_nonempty [simp]: "outline depth p \<noteq> []"
  by (cases p) simp_all

lemma plan_text_lines:
  "format_node repr depth p = join_with [10] (map (\<lambda>(d, q). plan_pad d @ plan_head repr q) (outline depth p))"
  by (induction repr depth p rule: format_node.induct)
    (simp_all add: join_with_append join_with_Cons join_with_single)

end
