(* ===== verification/Repl_Input.thy ===== *)
theory Repl_Input
  imports Tokenizer
begin

text \<open>
  The input side of the shell (\<open>src/tinydb/_repl_io.py\<close> and the script loop of \<open>.read\<close> in
  \<open>_repl_meta.py\<close>): when typed text or a script is cut into statements. Typed lines, end of file and
  Ctrl-C are the events of \<open>input\<close>. Lemmas: the pieces of a script are the script, each ends
  in the first semicolon at which nothing is open, and quoted text opens nothing.
\<close>

section \<open>White space\<close>

definition lstrip :: "uni \<Rightarrow> pystr \<Rightarrow> pystr" where
  "lstrip u s = dropWhile (py_isspace u) s"

definition str_strip :: "uni \<Rightarrow> pystr \<Rightarrow> pystr" where
  "str_strip u s = rev (lstrip u (rev (lstrip u s)))"

definition rstrip_newlines :: "pystr \<Rightarrow> pystr" where
  "rstrip_newlines s = rev (dropWhile (\<lambda>c. c = 10) (rev s))"

section \<open>Unterminated text\<close>

text \<open>Where the loop of \<open>_is_unterminated\<close> is: at most one of its four flags is set.\<close>

datatype place = Code | In_sq | In_dq | In_lc | In_bc

text \<open>One turn of the loop on the rest of the text, of which it takes one or two characters.\<close>

fun scan_step :: "place \<times> int \<Rightarrow> nat \<Rightarrow> pystr \<Rightarrow> (place \<times> int) \<times> pystr" where
  "scan_step (In_lc, n) c cs = ((if c \<noteq> 10 then In_lc else Code, n), cs)"
| "scan_step (In_bc, n) c cs = (if c = 42 \<and> take 1 cs = [47] then ((Code, n), tl cs) else ((In_bc, n), cs))"
| "scan_step (In_sq, n) c cs =
     (if c = 39 \<and> take 1 cs = [39] then ((In_sq, n), tl cs) else if c = 39 then ((Code, n), cs) else ((In_sq, n), cs))"
| "scan_step (In_dq, n) c cs =
     (if c = 34 \<and> take 1 cs = [34] then ((In_dq, n), tl cs) else if c = 34 then ((Code, n), cs) else ((In_dq, n), cs))"
| "scan_step (Code, n) c cs =
     (if c = 45 \<and> take 1 cs = [45] then ((In_lc, n), tl cs)
      else if c = 47 \<and> take 1 cs = [42] then ((In_bc, n), tl cs)
      else if c = 39 then ((In_sq, n), cs)
      else if c = 34 then ((In_dq, n), cs)
      else if c = 40 then ((Code, n + 1), cs)
      else if c = 41 then ((Code, n - 1), cs)
      else ((Code, n), cs))"

lemma scan_step_shorter: "length (snd (scan_step st c cs)) \<le> length cs"
  by (cases "(st, c, cs)" rule: scan_step.cases) auto

function scan_sql :: "place \<times> int \<Rightarrow> pystr \<Rightarrow> place \<times> int" where
  "scan_sql st [] = st"
| "scan_sql st (c # cs) = (case scan_step st c cs of (st', rest) \<Rightarrow> scan_sql st' rest)"
  by pat_completeness auto
termination
  by (relation "measure (length \<circ> snd)") (auto simp: le_imp_less_Suc dest: arg_cong [where f = "length \<circ> snd"], metis le_imp_less_Suc scan_step_shorter snd_conv)

definition is_unterminated :: "pystr \<Rightarrow> bool" where
  "is_unterminated buf = (case scan_sql (Code, 0) buf of (place, parens) \<Rightarrow> place \<noteq> Code \<or> parens > 0)"

section \<open>Typed statements\<close>

datatype input_event = Eof | Interrupt | Typed pystr

record fallback_io =
  fb_history :: "pystr list"
  fb_buf :: pystr

definition new_fallback :: fallback_io where
  "new_fallback = \<lparr>fb_history = [], fb_buf = []\<rparr>"

text \<open>\<open>None\<close> at the end of file, the empty text when there is no statement yet.\<close>

definition read_statement :: "uni \<Rightarrow> input_event \<Rightarrow> fallback_io \<Rightarrow> pystr option \<times> fallback_io" where
  "read_statement u ev io =
     (case ev of
        Eof \<Rightarrow> (None, io)
      | Interrupt \<Rightarrow> (Some [], io\<lparr>fb_buf := []\<rparr>)
      | Typed line \<Rightarrow>
          if str_strip u line = [] \<and> fb_buf io = [] then (Some [], io)
          else if take 1 (lstrip u line) = [46] then (Some line, io\<lparr>fb_buf := []\<rparr>)
          else
            let buf = fb_buf io @ line @ [10] in
            if is_unterminated buf \<or> 59 \<notin> set buf then (Some [], io\<lparr>fb_buf := buf\<rparr>)
            else (Some (rstrip_newlines buf), io\<lparr>fb_buf := []\<rparr>))"

definition add_history :: "uni \<Rightarrow> pystr \<Rightarrow> fallback_io \<Rightarrow> fallback_io" where
  "add_history u statement io = (if str_strip u statement \<noteq> [] then io\<lparr>fb_history := fb_history io @ [statement]\<rparr> else io)"

section \<open>Scripts\<close>

text \<open>The loop of \<open>.read\<close>: the statements to run, and the text left at the end of the file.\<close>

fun split_script :: "pystr \<Rightarrow> pystr \<Rightarrow> pystr list \<times> pystr" where
  "split_script buf [] = ([], buf)"
| "split_script buf (c # cs) =
     (let buf' = buf @ [c] in
      if c = 59 \<and> \<not> is_unterminated buf' then (case split_script [] cs of (ps, rest) \<Rightarrow> (buf' # ps, rest))
      else split_script buf' cs)"

section \<open>Lemmas\<close>

text \<open>A text at which a script would be cut, when no earlier part of it is one.\<close>

definition cut_here :: "pystr \<Rightarrow> bool" where
  "cut_here p \<longleftrightarrow> p \<noteq> [] \<and> last p = 59 \<and> \<not> is_unterminated p"

definition no_cut :: "pystr \<Rightarrow> bool" where
  "no_cut p \<longleftrightarrow> (\<forall>pre post. p = pre @ post \<longrightarrow> \<not> cut_here pre)"

definition first_cut :: "pystr \<Rightarrow> bool" where
  "first_cut p \<longleftrightarrow> cut_here p \<and> no_cut (butlast p)"

lemma no_cut_snoc: "no_cut p \<Longrightarrow> \<not> cut_here (p @ [c]) \<Longrightarrow> no_cut (p @ [c])"
  by (auto simp: no_cut_def append_eq_append_conv2 append_eq_Cons_conv Cons_eq_append_conv)

lemma split_script_pieces:
  "split_script buf script = (ps, rest) \<Longrightarrow> no_cut buf \<Longrightarrow>
   concat ps @ rest = buf @ script \<and> (\<forall>p \<in> set ps. first_cut p) \<and> no_cut rest"
proof (induction buf script arbitrary: ps rule: split_script.induct)
  case (2 buf c cs)
  show ?case
  proof (cases "c = 59 \<and> \<not> is_unterminated (buf @ [c])")
    case True
    then obtain ps' where s: "split_script [] cs = (ps', rest)" "ps = (buf @ [c]) # ps'"
      using 2(3) by (auto simp: Let_def split: prod.splits)
    have "no_cut []" by (simp add: no_cut_def cut_here_def)
    with 2(1) [OF refl True s(1)] have ih: "concat ps' @ rest = cs \<and> (\<forall>p \<in> set ps'. first_cut p) \<and> no_cut rest" by simp
    have "first_cut (buf @ [c])" using True 2(4) by (auto simp: first_cut_def cut_here_def)
    then show ?thesis using ih s(2) by auto
  next
    case False
    then have "no_cut (buf @ [c])" using 2(4) by (intro no_cut_snoc) (auto simp: cut_here_def)
    then show ?thesis using 2(2) [OF refl False] 2(3) False by (auto simp: Let_def split: if_splits)
  qed
qed simp

text \<open>
  \<open>.read\<close> runs a script piece by piece: the pieces and the text left over are the script, in
  order and without loss; each piece ends in the first semicolon at which no quote, comment
  or parenthesis is open, and the text left over holds no such semicolon.
\<close>

theorem script_pieces:
  assumes "split_script [] script = (ps, rest)"
  shows "concat ps @ rest = script \<and> (\<forall>p \<in> set ps. first_cut p) \<and> no_cut rest"
  using split_script_pieces [OF assms] by (simp add: no_cut_def cut_here_def)

lemma script_pieces_witness:
  "split_script [] (ustr ''a ';' b; -- c;'') = ([ustr ''a ';' b;''], ustr '' -- c;'') \<and>
   first_cut (ustr ''a ';' b;'') \<and> no_cut (ustr '' -- c;'')"
proof -
  have "split_script [] (ustr ''a ';' b; -- c;'') = ([ustr ''a ';' b;''], ustr '' -- c;'')" by code_simp
  from script_pieces [OF this] this show ?thesis by simp
qed

text \<open>A quoted text leaves the loop where it was, whatever it holds.\<close>

lemma scan_quoted_body:
  "rest = [] \<or> hd rest \<noteq> 39 \<Longrightarrow> scan_sql (In_sq, n) (escape s @ 39 # rest) = scan_sql (Code, n) rest"
proof (induction s)
  case Nil
  then show ?case by (cases rest) auto
next
  case (Cons c s)
  then show ?case by simp
qed

lemma scan_quoted_literal: "rest = [] \<or> hd rest \<noteq> 39 \<Longrightarrow> scan_sql (Code, n) (quote s @ rest) = scan_sql (Code, n) rest"
  using scan_quoted_body [of rest n s] by (simp add: quote_def)

end
