(* ===== verification/Repl_Format.thy ===== *)
theory Repl_Format
  imports Query Plan_Text Repl_Input
begin

text \<open>
  The three output formats of the shell (\<open>src/tinydb/_repl_format.py\<close>). \<open>str\<close> of a value is a
  parameter. Lemmas: a CSV reader gives back the cells of a CSV text, whatever
  characters they hold.
\<close>

section \<open>Formats\<close>

definition MAX_COLUMN_WIDTH :: nat where [simp]: "MAX_COLUMN_WIDTH = 30"

definition truncate_cell :: "pystr \<Rightarrow> pystr" where
  "truncate_cell v = (if length v \<le> MAX_COLUMN_WIDTH then v else take (MAX_COLUMN_WIDTH - 1) v @ [8230])"

definition ljust :: "nat \<Rightarrow> pystr \<Rightarrow> pystr" where
  "ljust w s = s @ replicate (w - length s) 32"

definition rstrip :: "uni \<Rightarrow> pystr \<Rightarrow> pystr" where
  "rstrip u s = rev (lstrip u (rev s))"

definition render_line :: "uni \<Rightarrow> nat list \<Rightarrow> pystr list \<Rightarrow> pystr" where
  "render_line u widths cells = rstrip u (join_with (ustr '' | '') (map2 (\<lambda>v w. ljust w (truncate_cell v)) cells widths))"

definition column_widths :: "pystr list \<Rightarrow> pystr list list \<Rightarrow> nat list res" where
  "column_widths columns raw =
     mapE (\<lambda>(i, c). bindE (mapE (\<lambda>vals. bindE (get_item vals (int i)) (\<lambda>v. Inr (length v))) raw)
       (\<lambda>ls. Inr (min (foldl max (length c) ls) MAX_COLUMN_WIDTH))) (zip [0..<length columns] columns)"

definition format_table :: "uni \<Rightarrow> (pyval \<Rightarrow> pystr) \<Rightarrow> result_row list \<Rightarrow> pystr res" where
  "format_table u str rows =
     (case rows of
        [] \<Rightarrow> Inr (ustr ''(no rows)'')
      | r # _ \<Rightarrow>
          let columns = rr_columns r; raw = map (\<lambda>r. map str (rr_values r)) rows in
          bindE (column_widths columns raw) (\<lambda>widths.
          Inr (join_with [10] (render_line u widths columns # join_with (ustr '' | '') (map (\<lambda>_. ustr ''---'') columns) #
            map (render_line u widths) raw))))"

text \<open>\<open>csv.writer\<close> with its default dialect; \<open>rstrip\<close> takes the line feed of the last line, not its carriage return.\<close>

definition csv_cell :: "(pyval \<Rightarrow> pystr) \<Rightarrow> pyval \<Rightarrow> pystr" where
  "csv_cell str v = (if v = PNone then [] else str v)"

definition csv_quoted :: "pystr \<Rightarrow> pystr" where
  "csv_quoted s = 34 # concat (map (\<lambda>c. if c = 34 then [34, 34] else [c]) s) @ [34]"

definition csv_field :: "bool \<Rightarrow> pystr \<Rightarrow> pystr" where
  "csv_field alone s =
     (if set s \<inter> {44, 34, 13, 10} \<noteq> {} \<or> alone \<and> s = [] then csv_quoted s else s)"

definition csv_line :: "pystr list \<Rightarrow> pystr" where
  "csv_line cells = join_with [44] (map (csv_field (length cells = 1)) cells) @ [13, 10]"

definition format_csv :: "(pyval \<Rightarrow> pystr) \<Rightarrow> result_row list \<Rightarrow> pystr" where
  "format_csv str rows =
     rstrip_newlines (csv_line (rr_columns (hd rows)) @ concat (map (\<lambda>r. csv_line (map (csv_cell str) (rr_values r))) rows))"

text \<open>\<open>json.dumps(..., ensure_ascii=False, default=str)\<close>; of columns with one name the last value stays.\<close>

definition plain_json_char :: "nat \<Rightarrow> pystr" where
  "plain_json_char c = (if c < 127 then json_char c else [c])"

definition plain_json_str :: "pystr \<Rightarrow> pystr" where
  "plain_json_str s = 34 # concat (map plain_json_char s) @ [34]"

definition json_value :: "(pyval \<Rightarrow> pystr) \<Rightarrow> pyval \<Rightarrow> pystr" where
  "json_value str v =
     (case v of
        PNone \<Rightarrow> ustr ''null''
      | PBool b \<Rightarrow> if b then ustr ''true'' else ustr ''false''
      | PInt i \<Rightarrow> int_str i
      | PFloat f \<Rightarrow>
          if \<not> f_finite f \<and> f_frac f \<noteq> 0 then ustr ''NaN''
          else if \<not> f_finite f then (if f_neg f then ustr ''-Infinity'' else ustr ''Infinity'') else str v
      | PStr s \<Rightarrow> plain_json_str s
      | _ \<Rightarrow> plain_json_str (str v))"

definition json_row :: "(pyval \<Rightarrow> pystr) \<Rightarrow> pystr list \<Rightarrow> result_row \<Rightarrow> pystr" where
  "json_row str columns r =
     (let members = foldl (\<lambda>d (c, v). AList.update c v d) [] (zip columns (rr_values r)) in
      123 # join_with (ustr '', '') (map (\<lambda>(c, v). plain_json_str c @ ustr '': '' @ json_value str v) members) @ [125])"

definition format_json :: "(pyval \<Rightarrow> pystr) \<Rightarrow> result_row list \<Rightarrow> pystr" where
  "format_json str rows = 91 # join_with (ustr '', '') (map (json_row str (rr_columns (hd rows))) rows) @ [93]"

definition format_rows :: "uni \<Rightarrow> (pyval \<Rightarrow> pystr) \<Rightarrow> result_row list \<Rightarrow> pystr \<Rightarrow> pystr res" where
  "format_rows u str rows fmt =
     (if rows = [] then Inr (ustr ''(no rows)'')
      else if fmt = ustr ''table'' then format_table u str rows
      else if fmt = ustr ''csv'' then Inr (format_csv str rows)
      else if fmt = ustr ''json'' then Inr (format_json str rows)
      else Inl ValueError)"


section \<open>Reading a CSV text\<close>

text \<open>
  The reader of the module \<open>csv\<close> in its default dialect, by its states; \<open>None\<close> is its error for
  a lone carriage return.
\<close>

datatype csv_state = Row_start | Field_start | Plain_field | Quoted_field | Quote_seen | Eat_newline

definition csv_emit :: "pystr list \<Rightarrow> pystr list list option \<Rightarrow> pystr list list option" where
  "csv_emit row rest = map_option (Cons row) rest"

fun csv_scan :: "csv_state \<Rightarrow> pystr \<Rightarrow> pystr list \<Rightarrow> pystr \<Rightarrow> pystr list list option" where
  "csv_scan st acc row [] = (if st \<in> {Row_start, Eat_newline} then Some [] else Some [row @ [acc]])"
| "csv_scan Row_start acc row (c # cs) =
     (if c = 13 then csv_emit [] (csv_scan Eat_newline [] [] cs)
      else if c = 10 then csv_emit [] (csv_scan Row_start [] [] cs)
      else if c = 34 then csv_scan Quoted_field [] [] cs
      else if c = 44 then csv_scan Field_start [] [[]] cs
      else csv_scan Plain_field [c] [] cs)"
| "csv_scan Quoted_field acc row (c # cs) =
     (if c = 34 then csv_scan Quote_seen acc row cs else csv_scan Quoted_field (acc @ [c]) row cs)"
| "csv_scan Eat_newline acc row (c # cs) =
     (if c = 10 then csv_scan Row_start [] [] cs else if c = 13 then csv_scan Eat_newline [] [] cs else None)"
| "csv_scan st acc row (c # cs) =
     (if c = 13 then csv_emit (row @ [acc]) (csv_scan Eat_newline [] [] cs)
      else if c = 10 then csv_emit (row @ [acc]) (csv_scan Row_start [] [] cs)
      else if c = 44 then csv_scan Field_start [] (row @ [acc]) cs
      else if c = 34 \<and> st = Field_start then csv_scan Quoted_field [] row cs
      else if c = 34 \<and> st = Quote_seen then csv_scan Quoted_field (acc @ [34]) row cs
      else csv_scan Plain_field (acc @ [c]) row cs)"

definition csv_read :: "pystr \<Rightarrow> pystr list list option" where
  "csv_read s = csv_scan Row_start [] [] s"

lemma scan_quoted_cell:
  "csv_scan Quoted_field acc row (concat (map (\<lambda>c. if c = 34 then [34, 34] else [c]) s) @ 34 # t) =
   csv_scan Quote_seen (acc @ s) row t"
  by (induction s arbitrary: acc) auto

lemma scan_plain_cell:
  "set s \<inter> {44, 34, 13, 10} = {} \<Longrightarrow> csv_scan Plain_field acc row (s @ t) = csv_scan Plain_field (acc @ s) row t"
  by (induction s arbitrary: acc) auto

lemma scan_row_plain: "s \<noteq> [] \<Longrightarrow> set s \<inter> {44, 34, 13, 10} = {} \<Longrightarrow>
   csv_scan Row_start [] [] (s @ t) = csv_scan Plain_field s [] t \<and> csv_scan Field_start [] row (s @ t) = csv_scan Plain_field s row t"
  by (cases s) (auto simp: scan_plain_cell)

text \<open>What follows a acc ends it, the same way after a plain and after a quoted one.\<close>

definition ends_cell :: "pystr \<Rightarrow> bool" where
  "ends_cell t \<longleftrightarrow> (\<exists>t'. t = 44 # t' \<or> t = 13 # t')"

lemma scan_field_cell:
  assumes "ends_cell t"
  shows "csv_scan Field_start [] row (csv_field alone s @ t) = csv_scan Plain_field s row t"
  using assms scan_row_plain [where s = s and row = row and t = t]
  by (cases "s = []") (auto simp: csv_field_def csv_quoted_def scan_quoted_cell ends_cell_def)

lemma scan_first_cell:
  assumes "ends_cell t" and "alone \<or> (\<exists>t'. t = 44 # t')"
  shows "csv_scan Row_start [] [] (csv_field alone s @ t) = csv_scan Plain_field s [] t"
  using assms scan_row_plain [where s = s and t = t]
  by (cases "s = []") (auto simp: csv_field_def csv_quoted_def scan_quoted_cell ends_cell_def)

lemma scan_more_cells:
  "csv_scan Plain_field s row (concat (map (\<lambda>q. [44] @ q) (map (csv_field alone) cells)) @ 13 # t) =
   csv_emit (row @ s # cells) (csv_scan Eat_newline [] [] t)"
proof (induction cells arbitrary: s row)
  case (Cons c cells)
  let ?rest = "concat (map (\<lambda>q. [44] @ q) (map (csv_field alone) cells)) @ 13 # t"
  have "ends_cell ?rest" by (cases cells) (auto simp: ends_cell_def)
  from scan_field_cell [OF this, of "row @ [s]" alone c] Cons show ?case by simp
qed simp

lemma scan_csv_body:
  "csv_scan Row_start [] [] (join_with [44] (map (csv_field (length cells = 1)) cells) @ 13 # t) =
   csv_emit cells (csv_scan Eat_newline [] [] t)"
proof (cases cells)
  case (Cons c cs)
  let ?a = "length cells = 1"
  let ?rest = "concat (map (\<lambda>q. [44] @ q) (map (csv_field ?a) cs)) @ 13 # t"
  have "ends_cell ?rest" "?a \<or> (\<exists>t'. ?rest = 44 # t')" using Cons by (cases cs; auto simp: ends_cell_def)+
  from scan_first_cell [OF this, of c] scan_more_cells [of c "[]" ?a cs t] Cons
  show ?thesis by (simp add: join_with_def comp_def)
qed (simp add: join_with_def)

lemma scan_csv_line: "csv_scan Row_start [] [] (csv_line row @ t) = csv_emit row (csv_scan Row_start [] [] t)"
  using scan_csv_body [of row "10 # t"] by (simp add: csv_line_def)

lemma read_csv_lines:
  "csv_scan Row_start [] [] (concat (map csv_line rows) @ t) = map_option ((@) rows) (csv_scan Row_start [] [] t)"
  by (induction rows) (simp_all add: scan_csv_line csv_emit_def option.map_comp o_def option.map_ident)

lemma read_last_line: "csv_scan Row_start [] [] (butlast (csv_line row)) = Some [row]"
  using scan_csv_body [of row "[]"] by (simp add: csv_line_def butlast_append csv_emit_def)

lemma stripped_lines:
  "rows \<noteq> [] \<Longrightarrow> rstrip_newlines (concat (map csv_line rows)) = concat (map csv_line (butlast rows)) @ butlast (csv_line (last rows))"
  by (induction rows rule: rev_induct) (simp_all add: csv_line_def rstrip_newlines_def butlast_append)

lemma csv_read_lines: "rows \<noteq> [] \<Longrightarrow> csv_read (rstrip_newlines (concat (map csv_line rows))) = Some rows"
  by (simp add: csv_read_def stripped_lines read_csv_lines read_last_line)

text \<open>
  C40. The CSV output can be read back: a CSV reader finds the column names and then, for
  each row, the text of its cells, NULL as the empty text, whatever commas, quotes and line
  breaks the texts hold. (The output ends in a carriage return without its line feed.)
\<close>

theorem csv_roundtrip:
  "csv_read (format_csv str rows) = Some (rr_columns (hd rows) # map (\<lambda>r. map (csv_cell str) (rr_values r)) rows)"
  using csv_read_lines [of "rr_columns (hd rows) # map (\<lambda>r. map (csv_cell str) (rr_values r)) rows"]
  by (simp add: format_csv_def o_def)

end
