(* ===== verification/Repl.thy ===== *)
theory Repl
  imports Repl_Format Reopen
begin

text \<open>
  The shell (\<open>src/tinydb/repl.py\<close>, \<open>_repl_meta.py\<close>): running typed statements, the meta commands,
  the loop and the command line. What it prints is the list \<open>r_out\<close>, on both streams in order;
  \<open>Elapsed\<close> is the line with the time. Parameters are \<open>str\<close> of values and \<open>repr\<close> of texts, the
  class names and messages of exceptions, and the files \<open>.read\<close> can open. The input adapter is \<open>FallbackReplIO\<close>.
  The lemmas are in \<open>Repl_Session\<close>.
\<close>

section \<open>State\<close>

datatype shell_line = Out pystr | Err pystr | Elapsed

record shell_env =
  e_uni :: uni
  e_str :: "pyval \<Rightarrow> pystr"
  e_repr :: "pystr \<Rightarrow> pystr"
  e_files :: "pystr \<Rightarrow> byte list option"
  e_name :: "py_error \<Rightarrow> pystr"
  e_message :: "py_error \<Rightarrow> pystr"

record repl =
  r_db :: db
  r_timer :: bool
  r_format :: pystr
  r_color :: bool
  r_io :: fallback_io
  r_out :: "shell_line list"

definition say :: "shell_line \<Rightarrow> (repl, unit) cmd" where
  "say l = modifyS (\<lambda>r. r\<lparr>r_out := r_out r @ [l]\<rparr>)"

definition on_db :: "(db, 'a) cmd \<Rightarrow> (repl, 'a) cmd" where
  "on_db c = (\<lambda>r. case c (r_db r) of (res, d) \<Rightarrow> (res, r\<lparr>r_db := d\<rparr>))"

section \<open>Statements\<close>

definition is_select :: "stmt \<Rightarrow> bool" where
  "is_select st = (case st of S_Select q \<Rightarrow> True | _ \<Rightarrow> False)"

definition last_is_select :: "uni \<Rightarrow> pystr \<Rightarrow> bool" where
  "last_is_select u sql =
     (case bindE (tokenize u sql) (parse_tokens u) of
        Inl e \<Rightarrow> False
      | Inr sts \<Rightarrow> sts \<noteq> [] \<and> is_select (last sts))"

definition output_formats :: "pystr list" where
  "output_formats = [ustr ''table'', ustr ''csv'', ustr ''json'']"

text \<open>Only \<open>Row\<close> objects have columns.\<close>

definition rows_text :: "shell_env \<Rightarrow> outcome \<Rightarrow> pystr \<Rightarrow> pystr res" where
  "rows_text env out fmt =
     (if fmt \<notin> set output_formats then Inl ValueError
      else case out of Lists ls \<Rightarrow> Inl AttributeErr | Rows rs \<Rightarrow> format_rows (e_uni env) (e_str env) rs fmt)"

definition print_result :: "shell_env \<Rightarrow> pystr \<Rightarrow> (repl, unit) cmd" where
  "print_result env sql =
     bindS (on_db (db_execute (e_uni env) sql)) (\<lambda>out.
     if \<not> last_is_select (e_uni env) sql then say (Out (ustr ''OK''))
     else if tuples_of out = [] then say (Out (ustr ''(no rows)''))
     else
       bindS (getS r_format) (\<lambda>fmt.
       bindS (liftE (rows_text env out fmt)) (\<lambda>text. say (Out text))))"

definition format_exception :: "shell_env \<Rightarrow> py_error \<Rightarrow> pystr" where
  "format_exception env e =
     (let detail = map (\<lambda>c. if c = 13 \<or> c = 10 then 32 else c) (e_message env e) in
      case e of
        ConstraintViolation kind columns \<Rightarrow> ustr ''ERROR: '' @ detail
      | _ \<Rightarrow> ustr ''ERROR: '' @ e_name env e @ ustr '': '' @ detail)"

definition run_sql :: "shell_env \<Rightarrow> pystr \<Rightarrow> (repl, unit) cmd" where
  "run_sql env sql =
     bindS (getS r_timer) (\<lambda>timed.
     catchS (bindS (print_result env sql) (\<lambda>_. if timed then say Elapsed else returnS ())) (\<lambda>e. say (Err (format_exception env e))))"

section \<open>Meta commands\<close>

function split_words :: "uni \<Rightarrow> pystr \<Rightarrow> pystr list" where
  "split_words u s =
     (case lstrip u s of
        [] \<Rightarrow> []
      | c # cs \<Rightarrow> takeWhile (\<lambda>x. \<not> py_isspace u x) (c # cs) # split_words u (dropWhile (\<lambda>x. \<not> py_isspace u x) cs))"
  by pat_completeness auto
termination
proof (relation "measure (length \<circ> snd)")
  fix u s c cs assume s: "lstrip u s = c # cs"
  have "length (dropWhile (\<lambda>x. \<not> py_isspace u x) cs) \<le> length cs" "length (lstrip u s) \<le> length s"
    by (simp_all add: length_dropWhile_le lstrip_def)
  then show "((u, dropWhile (\<lambda>x. \<not> py_isspace u x) cs), (u, s)) \<in> measure (length \<circ> snd)" using s by simp
qed simp

declare split_words.simps [simp del]

datatype meta_result = Not_meta | Handled | Exit_signal

definition META_COMMANDS :: "(pystr \<times> pystr \<times> bool) list" where
  "META_COMMANDS =
     [(ustr ''exit'', ustr ''exit the REPL'', False), (ustr ''quit'', ustr ''exit the REPL'', False),
      (ustr ''help'', ustr ''show this help'', False), (ustr ''tables'', ustr ''list tables'', False),
      (ustr ''schema'', ustr ''show CREATE TABLE <name>'', True), (ustr ''read'', ustr ''execute a SQL file <path>'', True),
      (ustr ''explain'', ustr ''show query plan for <sql>'', True), (ustr ''indexes'', ustr ''list indexes [table]'', False),
      (ustr ''stats'', ustr ''show database statistics'', False), (ustr ''timer'', ustr ''toggle execution timing: .timer on|off'', False),
      (ustr ''format'', ustr ''switch output format: .format table|csv|json'', False),
      (ustr ''color'', ustr ''toggle color output: .color on|off'', False)]"

definition missing_argument :: "pystr \<Rightarrow> (repl, unit) cmd" where
  "missing_argument name = say (Err (ustr ''ERROR: missing argument for .'' @ name))"

definition cmd_help :: "(repl, unit) cmd" where
  "cmd_help =
     bindS (say (Out (ustr ''Meta commands:''))) (\<lambda>_.
     bindS (forS (filter (\<lambda>(name, help, arg). name \<notin> {ustr ''exit'', ustr ''quit''}) META_COMMANDS)
       (\<lambda>(name, help, arg). say (Out (ustr ''  .'' @ ljust 10 name @ ustr '' '' @ help)))) (\<lambda>_.
     bindS (say (Out (ustr ''  .exit | .quit    exit the REPL''))) (\<lambda>_.
     say (Out (ustr ''Shortcuts: Ctrl-D exits; Ctrl-C clears the current buffer.'')))))"

definition shell_catalog :: "repl \<Rightarrow> catalog" where
  "shell_catalog r = x_catalog (d_exec (r_db r))"

definition cmd_tables :: "(repl, unit) cmd" where
  "cmd_tables = bindS (getS shell_catalog) (\<lambda>cat. forS (sort (map fst cat)) (\<lambda>name. say (Out name)))"

definition cmd_schema :: "pystr list \<Rightarrow> (repl, unit) cmd" where
  "cmd_schema args =
     (if args = [] then missing_argument (ustr ''schema'')
      else
        let name = hd args in
        bindS (getS shell_catalog) (\<lambda>cat.
        case catalog_get_table cat name of
          None \<Rightarrow> say (Err (ustr ''ERROR: no such table: '' @ name))
        | Some ti \<Rightarrow>
            say (Out (ustr ''CREATE TABLE '' @ name @ ustr ''('' @
              join_with (ustr '', '') (map (\<lambda>(col, type_name). col @ ustr '' '' @ ustr type_name) (ti_schema ti)) @ ustr '');''))))"

definition MAX_READ_FILE_BYTES :: nat where
  "MAX_READ_FILE_BYTES = 16 * 1024 * 1024"

text \<open>The text of a script file, or the line that is printed instead; a path with a NUL is a \<open>ValueError\<close>.\<close>

definition read_script :: "shell_env \<Rightarrow> pystr \<Rightarrow> (pystr + pystr) res" where
  "read_script env path =
     (if 0 \<in> set path then Inl ValueError
      else Inr (case e_files env path of
          None \<Rightarrow> Inl (ustr ''ERROR: cannot read file: '' @ path)
        | Some content \<Rightarrow>
            let raw = take (MAX_READ_FILE_BYTES + 1) content in
            if length raw > MAX_READ_FILE_BYTES then Inl (ustr ''ERROR: file too large: '' @ path)
            else case utf8_decode raw of
              Inl e \<Rightarrow> Inl (ustr ''ERROR: cannot read file: '' @ path)
            | Inr text \<Rightarrow> Inr text))"

definition cmd_read :: "shell_env \<Rightarrow> pystr list \<Rightarrow> (repl, unit) cmd" where
  "cmd_read env args =
     (if args = [] then missing_argument (ustr ''read'')
      else
        bindS (liftE (read_script env (hd args))) (\<lambda>content.
        case content of
          Inl message \<Rightarrow> say (Err message)
        | Inr text \<Rightarrow>
            (case split_script [] text of (pieces, rest) \<Rightarrow>
               bindS (forS pieces (\<lambda>buf. run_sql env (str_strip (e_uni env) buf))) (\<lambda>_.
               if str_strip (e_uni env) rest \<noteq> []
               then say (Err (ustr ''ERROR: unterminated statement at EOF in '' @ hd args))
               else returnS ()))))"

definition cmd_explain :: "shell_env \<Rightarrow> pystr list \<Rightarrow> (repl, unit) cmd" where
  "cmd_explain env args =
     (if args = [] then missing_argument (ustr ''explain'')
      else
        bindS (getS (\<lambda>r. explain_plan (e_uni env) (join_with (ustr '' '') args) (r_db r))) (\<lambda>res.
        case res of
          Inl e \<Rightarrow> say (Err (ustr ''ERROR: '' @ e_name env e @ ustr '': '' @ e_message env e))
        | Inr p \<Rightarrow> bindS (say (Out (ustr ''Plan:''))) (\<lambda>_. say (Out (format_plan (e_repr env) p)))))"

definition index_line :: "index_key \<Rightarrow> index \<Rightarrow> pystr" where
  "index_line k ix =
     (case k of (table, column) \<Rightarrow>
        table @ ustr ''.'' @ ljust 24 column @ ustr '' root_page='' @ option_repr (ix_root ix) @ ustr ''  keys'' @ [8776] @ ustr ''?'')"

definition cmd_indexes :: "pystr list \<Rightarrow> (repl, unit) cmd" where
  "cmd_indexes args =
     bindS (getS (\<lambda>r. x_indexes (d_exec (r_db r)))) (\<lambda>ixs.
     forS ixs (\<lambda>(k, ix).
       if args \<noteq> [] \<and> hd args \<noteq> [] \<and> fst k \<noteq> hd args then returnS () else say (Out (index_line k ix))))"

section \<open>Statistics\<close>

text \<open>\<open>len(seen)\<close> at the end of the walk along the free list.\<close>

function free_walk :: "pager \<Rightarrow> nat \<Rightarrow> int list \<Rightarrow> int \<Rightarrow> nat res" where
  "free_walk p page_cap seen current =
     (if current \<noteq> 0 \<and> current \<notin> set seen \<and> length seen < page_cap
      then
        case read_page current p of
          Inl e \<Rightarrow> Inl e
        | Inr d \<Rightarrow> free_walk p page_cap (current # seen) (be_int (slice d 0 4))
      else Inr (length seen))"
  by pat_completeness auto
termination
  by (relation "measure (\<lambda>(p, page_cap, seen, current). page_cap - length seen)") auto

declare free_walk.simps [simp del]

definition free_list_length :: "pager \<Rightarrow> nat res" where
  "free_list_length p =
     bindE (read_page 0 p) (\<lambda>page0. free_walk p (nat (max (page_count p) 1)) [] (be_int (slice page0 9 13)))"

definition wal_size :: "pager \<Rightarrow> nat" where
  "wal_size p = (if is_memory p then 0 else case wal_bytes p of None \<Rightarrow> 0 | Some b \<Rightarrow> length b)"

text \<open>\<open>rows[0].values[0]\<close>, added to an integer.\<close>

definition counted :: "outcome \<Rightarrow> int res" where
  "counted out =
     (case out of
        Lists ls \<Rightarrow> if ls = [] then Inr 0 else Inl AttributeErr
      | Rows rs \<Rightarrow>
          if rs = [] then Inr 0
          else bindE (get_item (rr_values (hd rs)) 0) (\<lambda>v. case v of PInt n \<Rightarrow> Inr n | PBool b \<Rightarrow> Inr (of_bool b) | _ \<Rightarrow> Inl TypeErr))"

definition count_query :: "pystr \<Rightarrow> pystr" where
  "count_query table = ustr ''SELECT COUNT(*) FROM '' @ table"

definition count_table :: "shell_env \<Rightarrow> pystr \<Rightarrow> int \<times> nat \<Rightarrow> (repl, int \<times> nat) cmd" where
  "count_table env table = (\<lambda>(n_rows, n_failed).
     catchS (bindS (on_db (db_execute (e_uni env) (count_query table))) (\<lambda>out.
         bindS (liftE (counted out)) (\<lambda>n. returnS (n_rows + n, n_failed))))
       (\<lambda>e. bindS (say (Err (ustr ''WARNING: COUNT(*) on '' @ table @ ustr '' failed: '' @ e_message env e))) (\<lambda>_. returnS (n_rows, n_failed + 1))))"

fun count_tables :: "shell_env \<Rightarrow> pystr list \<Rightarrow> int \<times> nat \<Rightarrow> (repl, int \<times> nat) cmd" where
  "count_tables env [] totals = returnS totals"
| "count_tables env (table # tables) totals = bindS (count_table env table totals) (\<lambda>t. count_tables env tables t)"

definition cmd_stats :: "shell_env \<Rightarrow> (repl, unit) cmd" where
  "cmd_stats env =
     bindS (getS shell_catalog) (\<lambda>cat.
     bindS (count_tables env (map fst cat) (0, 0)) (\<lambda>(n_rows, n_failed).
     bindS (getS (\<lambda>r. x_pager (d_exec (r_db r)))) (\<lambda>p.
     bindS (liftE (free_list_length p)) (\<lambda>n_free.
     bindS (say (Out (ustr ''Tables:     '' @ nat_repr (length cat)))) (\<lambda>_.
     bindS (say (Out (ustr ''Rows:       '' @ int_str n_rows))) (\<lambda>_.
     bindS (if n_failed \<noteq> 0
       then say (Err (ustr ''(warning: '' @ nat_repr n_failed @ ustr '' table(s) failed to count '' @ [8212] @ ustr '' see stderr)''))
       else returnS ()) (\<lambda>_.
     bindS (say (Out (ustr ''Pages:      '' @ int_str (page_count p)))) (\<lambda>_.
     bindS (say (Out (ustr ''Free pages: '' @ nat_repr n_free))) (\<lambda>_.
     say (Out (ustr ''WAL:        '' @ nat_repr (wal_size p) @ ustr '' bytes'')))))))))))"

section \<open>Settings\<close>

definition on_off :: "pystr list \<Rightarrow> bool" where
  "on_off args \<longleftrightarrow> args \<noteq> [] \<and> hd args \<in> {ustr ''on'', ustr ''off''}"

definition cmd_timer :: "pystr list \<Rightarrow> (repl, unit) cmd" where
  "cmd_timer args =
     (if \<not> on_off args then say (Err (ustr ''ERROR: .timer on|off''))
      else
        bindS (modifyS (\<lambda>r. r\<lparr>r_timer := hd args = ustr ''on''\<rparr>)) (\<lambda>_.
        bindS (getS r_timer) (\<lambda>b. say (Out (ustr ''Timer: '' @ (if b then ustr ''on'' else ustr ''off''))))))"

definition cmd_format :: "pystr list \<Rightarrow> (repl, unit) cmd" where
  "cmd_format args =
     (if args = [] \<or> hd args \<notin> set output_formats
      then say (Err (ustr ''ERROR: .format '' @ join_with (ustr ''|'') output_formats))
      else
        bindS (modifyS (\<lambda>r. r\<lparr>r_format := hd args\<rparr>)) (\<lambda>_.
        bindS (getS r_format) (\<lambda>f. say (Out (ustr ''Format: '' @ f)))))"

definition cmd_color :: "pystr list \<Rightarrow> (repl, unit) cmd" where
  "cmd_color args =
     (if \<not> on_off args then say (Err (ustr ''ERROR: .color on|off''))
      else
        bindS (modifyS (\<lambda>r. r\<lparr>r_color := hd args = ustr ''on''\<rparr>)) (\<lambda>_.
        bindS (getS r_color) (\<lambda>b. say (Out (ustr ''Color: '' @ (if b then ustr ''on'' else ustr ''off''))))))"

definition dispatch :: "shell_env \<Rightarrow> pystr \<Rightarrow> pystr list \<Rightarrow> (repl, unit) cmd" where
  "dispatch env cmd args =
     (if cmd = ustr ''help'' then cmd_help
      else if cmd = ustr ''tables'' then cmd_tables
      else if cmd = ustr ''schema'' then cmd_schema args
      else if cmd = ustr ''read'' then cmd_read env args
      else if cmd = ustr ''explain'' then cmd_explain env args
      else if cmd = ustr ''indexes'' then cmd_indexes args
      else if cmd = ustr ''stats'' then cmd_stats env
      else if cmd = ustr ''timer'' then cmd_timer args
      else if cmd = ustr ''format'' then cmd_format args
      else cmd_color args)"

text \<open>The first word of a line, with its dot, and the words after it.\<close>

definition meta_words :: "uni \<Rightarrow> pystr \<Rightarrow> pystr \<times> pystr list" where
  "meta_words u line =
     (let stripped = lstrip u line in
      (takeWhile (\<lambda>x. \<not> py_isspace u x) stripped, split_words u (dropWhile (\<lambda>x. \<not> py_isspace u x) stripped)))"

definition handle_meta :: "shell_env \<Rightarrow> pystr \<Rightarrow> (repl, meta_result) cmd" where
  "handle_meta env line =
     (if take 1 (lstrip (e_uni env) line) \<noteq> [46] then returnS Not_meta
      else
        case meta_words (e_uni env) line of
          (w, args) \<Rightarrow>
            let cmd = tl w in
            if cmd = [] \<or> hd cmd = 46
            then bindS (say (Err (ustr ''ERROR: unknown command: '' @ w))) (\<lambda>_. returnS Handled)
            else case map_of META_COMMANDS cmd of
              None \<Rightarrow> bindS (say (Err (ustr ''ERROR: unknown command: .'' @ cmd))) (\<lambda>_. returnS Handled)
            | Some (help, takes_arg) \<Rightarrow>
                if takes_arg \<and> args = [] then bindS (missing_argument cmd) (\<lambda>_. returnS Handled)
                else if cmd \<in> {ustr ''exit'', ustr ''quit''} then returnS Exit_signal
                else bindS (dispatch env cmd args) (\<lambda>_. returnS Handled))"

section \<open>The loop\<close>

definition next_text :: "shell_env \<Rightarrow> input_event \<Rightarrow> (repl, pystr option) cmd" where
  "next_text env ev =
     bindS (if ev = Interrupt then say (Out (10 # ustr ''(Use .exit or Ctrl-D to exit)'')) else returnS ()) (\<lambda>_.
     (\<lambda>r. case read_statement (e_uni env) ev (r_io r) of (text, io) \<Rightarrow> (Inr text, r\<lparr>r_io := io\<rparr>)))"

text \<open>The exit status, or \<open>None\<close> when the loop waits for more input.\<close>

fun interactive_loop :: "shell_env \<Rightarrow> input_event list \<Rightarrow> (repl, nat option) cmd" where
  "interactive_loop env [] = returnS None"
| "interactive_loop env (ev # evs) =
     bindS (next_text env ev) (\<lambda>text.
     case text of
       None \<Rightarrow> returnS (Some 0)
     | Some s \<Rightarrow>
         if str_strip (e_uni env) s = [] then interactive_loop env evs
         else if take 1 (lstrip (e_uni env) s) = [46] then
           bindS (handle_meta env s) (\<lambda>res.
           if res = Exit_signal then returnS (Some 0) else interactive_loop env evs)
         else
           bindS (modifyS (\<lambda>r. r\<lparr>r_io := add_history (e_uni env) s (r_io r)\<rparr>)) (\<lambda>_.
           bindS (run_sql env s) (\<lambda>_.
           interactive_loop env evs)))"

section \<open>The command line\<close>

definition color_enabled :: "pystr option \<Rightarrow> pystr option \<Rightarrow> bool" where
  "color_enabled no_color term = (\<not> (no_color \<noteq> None \<and> no_color \<noteq> Some []) \<and> term \<noteq> Some (ustr ''dumb''))"

datatype start = Usage | Session pystr | Bad_argument pystr

text \<open>The database path before \<open>os.path.expanduser\<close>.\<close>

definition parse_argv :: "pystr list \<Rightarrow> start" where
  "parse_argv args =
     (if args \<in> {[ustr ''--help''], [ustr ''-h'']} then Usage
      else if args = [] then Session (ustr '':memory:'')
      else if length args = 2 \<and> hd args = ustr ''--database'' then Session (args ! 1)
      else Bad_argument (hd args))"

definition start_repl :: "db \<Rightarrow> bool \<Rightarrow> repl" where
  "start_repl d color =
     \<lparr>r_db = d, r_timer = False, r_format = ustr ''table'', r_color = color, r_io = new_fallback,
      r_out = [Out (ustr ''.help for commands, .timer on for timing'')]\<rparr>"

text \<open>The session of \<open>main\<close>: the database is closed however the loop ends.\<close>

definition repl_session :: "shell_env \<Rightarrow> db \<Rightarrow> bool \<Rightarrow> input_event list \<Rightarrow> nat option res \<times> repl" where
  "repl_session env d color evs =
     (case interactive_loop env evs (start_repl d color) of
        (res, r) \<Rightarrow> (res, if res = Inr None then r else snd (on_db db_close r)))"

end
