(* ===== verification/Repl_Session.thy ===== *)
theory Repl_Session
  imports Repl
begin

text \<open>
  Whole sessions of the shell: which scripts reach the database, the session invariant, and
  what \<open>.stats\<close> reports as free pages.
\<close>

section \<open>Free pages\<close>

lemma read_page_nonneg: "0 \<le> pid \<Longrightarrow> \<exists>d. read_page pid p = Inr d"
  by (simp add: read_page_def)

lemma free_walk_returns: "0 \<le> current \<Longrightarrow> \<exists>n. free_walk p page_cap seen current = Inr n"
proof (induction p page_cap seen current rule: free_walk.induct)
  case (1 p page_cap seen current)
  then show ?case
    using read_page_nonneg [of current p] be_int_nonneg by (subst free_walk.simps) (auto split: sum.splits)
qed

lemma free_list_length_returns: "\<exists>n. free_list_length p = Inr n"
  using read_page_nonneg [of 0 p] free_walk_returns by (auto simp: free_list_length_def)

lemma free_walk_chain:
  assumes "pager_wf p" and "chain (img p) h xs" and "distinct xs" and "set xs \<inter> set seen = {}" and "\<forall>x \<in> set xs. 0 < x"
    and "length seen + length xs \<le> page_cap"
  shows "free_walk p page_cap seen h = Inr (length seen + length xs)"
  using assms
proof (induction xs arbitrary: seen h)
  case Nil
  then show ?case by (simp add: free_walk.simps)
next
  case (Cons x xs)
  have "read_page x p = Inr (img p x)" using Cons.prems(1,5) by (intro read_page_img) auto
  moreover have "free_walk p page_cap (x # seen) (next_of (img p) x) = Inr (length (x # seen) + length xs)"
    using Cons.prems by (intro Cons.IH) auto
  ultimately show ?case using Cons.prems by (subst free_walk.simps) (auto simp: next_of_def)
qed

text \<open>The store has a page for every id but that of the catalog.\<close>

lemma page_count_bound:
  assumes "pager_wf p"
  shows "next_page_id p - 1 \<le> page_count p"
proof (cases "is_memory p")
  case True
  then have "{0} \<union> {2..<next_page_id p} \<subseteq> fst ` set (mem_pages p)"
    using assms by (auto simp: pager_wf_def dom_map_of_conv_image_fst [symmetric])
  then have "card ({0} \<union> {2..<next_page_id p}) \<le> length (mem_pages p)"
    by (meson List.finite_set card_image_le card_length card_mono finite_imageI le_trans)
  then show ?thesis using assms True by (simp add: pager_wf_def page_count_def py_len_def card_insert_if)
next
  case False
  then show ?thesis using assms by (simp add: pager_wf_def page_count_def)
qed

text \<open>
  What \<open>.stats\<close> prints as free pages is the length of the free list: its walk is not cut
  off by its own limit, the number of pages, in either storage mode.
\<close>

theorem stats_counts_free_list:
  assumes "pager_inv p"
  shows "free_list_length p = Inr (length (free_ids p))"
proof -
  have inv: "pager_wf p" "chain (img p) (head_of (img p)) (free_ids p)" "distinct (free_ids p)"
    "set (free_ids p) \<subseteq> {2..<next_page_id p}"
    using assms by (simp_all add: pager_inv_def free_inv_def)
  have "length (free_ids p) \<le> card {2..<next_page_id p}"
    using card_mono [OF _ inv(4)] inv(3) by (simp add: distinct_card)
  then have "length ([] :: int list) + length (free_ids p) \<le> nat (max (page_count p) 1)"
    using page_count_bound [OF inv(1)] by simp
  then have "free_walk p (nat (max (page_count p) 1)) [] (head_of (img p)) = Inr (length (free_ids p))"
    using free_walk_chain [OF inv(1,2,3), of "[]"] inv(4) by fastforce
  then show ?thesis using read_page_img [OF inv(1), of 0] by (simp add: free_list_length_def head_of_def)
qed

section \<open>Commands that run no script\<close>

definition quiet :: "(repl, unit) cmd \<Rightarrow> bool" where
  "quiet c \<longleftrightarrow> (\<forall>r. \<exists>t. c r = (Inr (), t) \<and> r_db t = r_db r \<and> r_io t = r_io r)"

lemma quiet_return: "quiet (returnS ())"
  by (simp add: quiet_def returnS_def)

lemma quiet_say: "quiet (say l)"
  by (simp add: quiet_def say_def modifyS_def)

lemma quiet_modify: "(\<And>r. r_db (f r) = r_db r \<and> r_io (f r) = r_io r) \<Longrightarrow> quiet (modifyS f)"
  by (simp add: quiet_def modifyS_def)

lemma quiet_bind: "quiet c \<Longrightarrow> quiet (f ()) \<Longrightarrow> quiet (bindS c f)"
  unfolding quiet_def by (metis bindS_Inr)

lemma quiet_get: "(\<And>x. quiet (f x)) \<Longrightarrow> quiet (bindS (getS g) f)"
  by (simp add: quiet_def)

lemma quiet_loop: "(\<And>x. quiet (f x)) \<Longrightarrow> quiet (forS xs f)"
  by (induction xs) (auto intro: quiet_bind quiet_return)

lemma quiet_cond: "quiet c \<Longrightarrow> quiet d \<Longrightarrow> quiet (if b then c else d)"
  by simp

lemma quiet_pair: "(\<And>a b. quiet (f a b)) \<Longrightarrow> quiet (case p of (a, b) \<Rightarrow> f a b)"
  by (cases p) simp

lemma quiet_opt: "quiet c \<Longrightarrow> (\<And>a. quiet (f a)) \<Longrightarrow> quiet (case x of None \<Rightarrow> c | Some a \<Rightarrow> f a)"
  by (cases x) simp_all

lemma quiet_res: "(\<And>e. quiet (g e)) \<Longrightarrow> (\<And>a. quiet (f a)) \<Longrightarrow> quiet (case x of Inl e \<Rightarrow> g e | Inr a \<Rightarrow> f a)"
  by (cases x) simp_all

lemmas quiet_rules = quiet_return quiet_say quiet_modify quiet_get quiet_loop quiet_cond quiet_pair quiet_opt quiet_res quiet_bind

lemma quiet_commands:
  "quiet cmd_help" "quiet cmd_tables" "quiet (cmd_schema args)" "quiet (cmd_explain env args)" "quiet (cmd_indexes args)"
  "quiet (cmd_timer args)" "quiet (cmd_format args)" "quiet (cmd_color args)" "quiet (missing_argument name)"
  unfolding cmd_help_def cmd_tables_def cmd_schema_def cmd_explain_def cmd_indexes_def cmd_timer_def cmd_format_def
    cmd_color_def missing_argument_def Let_def
  by (intro quiet_rules; simp)+

lemma quietE:
  assumes "quiet c"
  obtains t where "c r = (Inr (), t)" and "r_db t = r_db r" and "r_io t = r_io r"
  using assms unfolding quiet_def by blast

section \<open>Commands that run scripts\<close>

definition run_scripts :: "uni \<Rightarrow> pystr list \<Rightarrow> db \<Rightarrow> db" where
  "run_scripts u sqls d = foldl (\<lambda>d sql. snd (db_execute u sql d)) d sqls"

lemma run_scripts_simps [simp]:
  "run_scripts u [] d = d"
  "run_scripts u (sql # sqls) d = run_scripts u sqls (snd (db_execute u sql d))"
  "run_scripts u (xs @ ys) d = run_scripts u ys (run_scripts u xs d)"
  by (simp_all add: run_scripts_def)

definition runs :: "uni \<Rightarrow> pystr list \<Rightarrow> (repl, unit) cmd \<Rightarrow> bool" where
  "runs u sqls c \<longleftrightarrow> (\<forall>r. \<exists>t. c r = (Inr (), t) \<and> r_db t = run_scripts u sqls (r_db r) \<and> r_io t = r_io r)"

lemma quiet_runs: "quiet c \<longleftrightarrow> runs u [] c"
  by (simp add: quiet_def runs_def)

lemma runs_bind: "runs u xs c \<Longrightarrow> runs u ys (f ()) \<Longrightarrow> runs u (xs @ ys) (bindS c f)"
  unfolding runs_def run_scripts_simps by (metis bindS_Inr)

lemma runs_loop: "(\<And>x. runs u [g x] (f x)) \<Longrightarrow> runs u (map g xs) (forS xs f)"
proof (induction xs)
  case (Cons x xs)
  then show ?case using runs_bind [of u "[g x]" "f x" "map g xs"] by simp
qed (simp add: runs_def returnS_def)

text \<open>A typed statement is run once, whatever it raises and however it is shown.\<close>

lemma run_sql_runs: "runs (e_uni env) [sql] (run_sql env sql)"
  unfolding runs_def
proof
  fix r :: repl
  obtain res d where e: "db_execute (e_uni env) sql (r_db r) = (res, d)" by fastforce
  show "\<exists>t. run_sql env sql r = (Inr (), t) \<and> r_db t = run_scripts (e_uni env) [sql] (r_db r) \<and> r_io t = r_io r"
    by (cases res; cases "rows_text env (projr res) (r_format r)")
      (auto simp: run_sql_def print_result_def catchS_def bindS_def getS_def on_db_def say_def modifyS_def liftE_def
        returnS_def raiseS_def e split: sum.splits)
qed

definition file_scripts :: "shell_env \<Rightarrow> pystr \<Rightarrow> pystr list" where
  "file_scripts env path =
     (case read_script env path of
        Inr (Inr text) \<Rightarrow> map (str_strip (e_uni env)) (fst (split_script [] text))
      | _ \<Rightarrow> [])"

lemma cmd_read_runs:
  assumes "args \<noteq> []" and "0 \<notin> set (hd args)"
  shows "runs (e_uni env) (file_scripts env (hd args)) (cmd_read env args)"
proof -
  obtain content where c: "read_script env (hd args) = Inr content" using assms(2) by (simp add: read_script_def)
  show ?thesis
  proof (cases content)
    case (Inl message)
    then show ?thesis using assms(1) c quiet_say by (auto simp: cmd_read_def file_scripts_def quiet_runs [symmetric] quiet_def)
  next
    case (Inr script)
    obtain pieces rest where s: "split_script [] script = (pieces, rest)" by fastforce
    let ?run = "forS pieces (\<lambda>buf. run_sql env (str_strip (e_uni env) buf))"
    let ?leftover = "if str_strip (e_uni env) rest \<noteq> [] then say (Err (ustr ''ERROR: unterminated statement at EOF in '' @ hd args)) else returnS ()"
    have "runs (e_uni env) (map (str_strip (e_uni env)) pieces) ?run" by (rule runs_loop) (rule run_sql_runs)
    moreover have "runs (e_uni env) [] ?leftover" unfolding quiet_runs [symmetric] by (intro quiet_cond quiet_say quiet_return)
    ultimately have "runs (e_uni env) (map (str_strip (e_uni env)) pieces @ []) (bindS ?run (\<lambda>_. ?leftover))" by (rule runs_bind)
    moreover have "cmd_read env args = bindS ?run (\<lambda>_. ?leftover)"
      using assms(1) by (intro ext) (simp add: cmd_read_def c Inr s)
    ultimately show ?thesis by (simp add: file_scripts_def c Inr s)
  qed
qed

lemma cmd_read_nul: "args \<noteq> [] \<Longrightarrow> 0 \<in> set (hd args) \<Longrightarrow> cmd_read env args r = (Inl ValueError, r)"
  by (simp add: cmd_read_def read_script_def)

lemma count_table_runs:
  "\<exists>n t. count_table env table totals r = (Inr n, t) \<and>
     r_db t = snd (db_execute (e_uni env) (count_query table) (r_db r)) \<and> r_io t = r_io r"
proof -
  obtain res d where e: "db_execute (e_uni env) (count_query table) (r_db r) = (res, d)" by fastforce
  show ?thesis
    by (cases res; cases "counted (projr res)"; cases totals)
      (auto simp: count_table_def catchS_def bindS_def on_db_def say_def modifyS_def liftE_def returnS_def raiseS_def e)
qed

lemma count_tables_runs:
  "\<exists>n t. count_tables env tables totals r = (Inr n, t) \<and>
     r_db t = run_scripts (e_uni env) (map count_query tables) (r_db r) \<and> r_io t = r_io r"
proof (induction tables arbitrary: totals r)
  case Nil
  then show ?case by (simp add: returnS_def)
next
  case (Cons table tables)
  obtain n t where t: "count_table env table totals r = (Inr n, t)"
    "r_db t = snd (db_execute (e_uni env) (count_query table) (r_db r))" "r_io t = r_io r"
    using count_table_runs by blast
  show ?case
    using Cons.IH [of n t] t(2,3) by (simp add: bindS_Inr [where m = "count_table env table totals", OF t(1)])
qed

lemma cmd_stats_runs:
  "\<exists>t. cmd_stats env r = (Inr (), t) \<and>
     r_db t = run_scripts (e_uni env) (map count_query (map fst (shell_catalog r))) (r_db r) \<and> r_io t = r_io r"
proof -
  let ?names = "map fst (shell_catalog r)"
  obtain n_rows n_failed s where s: "count_tables env ?names (0, 0) r = (Inr (n_rows, n_failed), s)"
    "r_db s = run_scripts (e_uni env) (map count_query ?names) (r_db r)" "r_io s = r_io r"
    using count_tables_runs [of env ?names "(0, 0)" r] by auto
  obtain n where n: "free_list_length (x_pager (d_exec (r_db s))) = Inr n" using free_list_length_returns by blast
  show ?thesis
    by (simp add: cmd_stats_def bindS_Inr [where m = "count_tables env ?names (0, 0)", OF s(1)] n)
      (simp add: say_def bindS_def modifyS_def returnS_def s(2,3))
qed

section \<open>Sessions\<close>

text \<open>The scripts a meta command runs, and whether it ends the session.\<close>

definition meta_scripts :: "shell_env \<Rightarrow> pystr \<Rightarrow> db \<Rightarrow> pystr list" where
  "meta_scripts env line d =
     (case meta_words (e_uni env) line of
        (w, args) \<Rightarrow>
          if tl w = ustr ''stats'' then map count_query (map fst (x_catalog (d_exec d)))
          else if tl w = ustr ''read'' \<and> args \<noteq> [] then file_scripts env (hd args)
          else [])"

definition meta_ends :: "shell_env \<Rightarrow> pystr \<Rightarrow> bool" where
  "meta_ends env line =
     (case meta_words (e_uni env) line of
        (w, args) \<Rightarrow> tl w \<in> {ustr ''exit'', ustr ''quit''} \<or> tl w = ustr ''read'' \<and> args \<noteq> [] \<and> 0 \<in> set (hd args))"

text \<open>What a session submits: the typed statements and the scripts of its meta commands, in order.\<close>

fun submitted :: "shell_env \<Rightarrow> input_event list \<Rightarrow> fallback_io \<Rightarrow> db \<Rightarrow> pystr list" where
  "submitted env [] io d = []"
| "submitted env (ev # evs) io d =
     (case read_statement (e_uni env) ev io of
        (None, io') \<Rightarrow> []
      | (Some s, io') \<Rightarrow>
          if str_strip (e_uni env) s = [] then submitted env evs io' d
          else if take 1 (lstrip (e_uni env) s) = [46] then
            if meta_ends env s then []
            else meta_scripts env s d @ submitted env evs io' (run_scripts (e_uni env) (meta_scripts env s d) d)
          else s # submitted env evs (add_history (e_uni env) s io') (snd (db_execute (e_uni env) s d)))"

lemma quiet_dispatch: "cmd \<notin> {ustr ''read'', ustr ''stats''} \<Longrightarrow> quiet (dispatch env cmd args)"
  unfolding dispatch_def using quiet_commands by simp

lemma dispatch_runs:
  assumes "\<not> (cmd = ustr ''read'' \<and> args \<noteq> [] \<and> 0 \<in> set (hd args))"
  shows "\<exists>t. dispatch env cmd args r = (Inr (), t) \<and> r_io t = r_io r \<and>
    r_db t = run_scripts (e_uni env)
      (if cmd = ustr ''stats'' then map count_query (map fst (x_catalog (d_exec (r_db r))))
       else if cmd = ustr ''read'' \<and> args \<noteq> [] then file_scripts env (hd args) else []) (r_db r)"
proof -
  consider "cmd = ustr ''stats''" | "cmd = ustr ''read''" "args \<noteq> []" | "cmd = ustr ''read''" "args = []"
    | "cmd \<notin> {ustr ''read'', ustr ''stats''}" by blast
  then show ?thesis
  proof cases
    case 1
    then show ?thesis using cmd_stats_runs [of env r] by (auto simp: dispatch_def ustr_def shell_catalog_def)
  next
    case 2
    then show ?thesis using cmd_read_runs [of args env] assms by (auto simp: dispatch_def ustr_def runs_def)
  next
    case 3
    then show ?thesis using quiet_commands(9) [of "ustr ''read''"] by (auto simp: dispatch_def ustr_def cmd_read_def quiet_def)
  next
    case 4
    then show ?thesis using quiet_dispatch [OF 4, of env args] by (auto simp: quiet_def)
  qed
qed

lemma meta_names:
  "map_of META_COMMANDS (ustr ''stats'') \<noteq> None \<and> map_of META_COMMANDS (ustr ''read'') \<noteq> None \<and>
   map_of META_COMMANDS (ustr ''exit'') \<noteq> None \<and> map_of META_COMMANDS (ustr ''quit'') \<noteq> None \<and>
   map_of META_COMMANDS [] = None \<and> (map_of META_COMMANDS (46 # cmd) = None)"
  by (simp add: META_COMMANDS_def ustr_def)

lemma meta_takes_arg:
  "map_of META_COMMANDS cmd = Some (help, takes_arg) \<Longrightarrow>
   (takes_arg \<longrightarrow> cmd \<in> {ustr ''schema'', ustr ''read'', ustr ''explain''})"
  by (auto simp: META_COMMANDS_def ustr_def split: if_splits)

lemma handle_meta_effect:
  assumes "take 1 (lstrip (e_uni env) line) = [46]"
  shows "\<exists>res t. handle_meta env line r = (res, t) \<and> r_io t = r_io r \<and>
    r_db t = run_scripts (e_uni env) (meta_scripts env line (r_db r)) (r_db r) \<and>
    (if meta_ends env line then r_db t = r_db r \<and> res \<in> {Inl ValueError, Inr Exit_signal} else res = Inr Handled)"
proof -
  obtain w args where w: "meta_words (e_uni env) line = (w, args)" by fastforce
  show ?thesis
  proof (cases "map_of META_COMMANDS (tl w)")
    case None
    then have "tl w \<notin> {ustr ''stats'', ustr ''read'', ustr ''exit'', ustr ''quit''}" using meta_names by auto
    then show ?thesis
      using assms w None
      by (simp add: handle_meta_def meta_scripts_def meta_ends_def Let_def say_def bindS_def modifyS_def returnS_def)
  next
    case (Some entry)
    obtain descr takes_arg where entry: "entry = (descr, takes_arg)" by fastforce
    have named: "\<not> (tl w = [] \<or> hd (tl w) = 46)"
      using Some meta_names [of "tl (tl w)"] by (cases "tl w") auto
    have arg: "takes_arg \<Longrightarrow> tl w \<in> {ustr ''schema'', ustr ''read'', ustr ''explain''}"
      using meta_takes_arg Some entry by blast
    consider "takes_arg \<and> args = []" | "tl w \<in> {ustr ''exit'', ustr ''quit''}" "\<not> (takes_arg \<and> args = [])"
      | "tl w = ustr ''read''" "args \<noteq> []" "0 \<in> set (hd args)"
      | "tl w \<notin> {ustr ''exit'', ustr ''quit''}" "\<not> (takes_arg \<and> args = [])" "\<not> (tl w = ustr ''read'' \<and> args \<noteq> [] \<and> 0 \<in> set (hd args))"
      by blast
    then show ?thesis
    proof cases
      case 1
      then show ?thesis
        using assms w Some entry named arg
        by (auto simp: handle_meta_def meta_scripts_def meta_ends_def missing_argument_def ustr_def Let_def say_def
          bindS_def modifyS_def returnS_def)
    next
      case 2
      then show ?thesis
        using assms w Some entry named
        by (auto simp: handle_meta_def meta_scripts_def meta_ends_def returnS_def ustr_def Let_def)
    next
      case 3
      have "dispatch env (tl w) args r = (Inl ValueError, r)"
        using 3 cmd_read_nul by (simp add: dispatch_def ustr_def)
      then show ?thesis
        using assms w Some entry named 3
        by (auto simp: handle_meta_def meta_scripts_def meta_ends_def ustr_def Let_def bindS_def file_scripts_def read_script_def)
    next
      case 4
      obtain t where t: "dispatch env (tl w) args r = (Inr (), t)" "r_io t = r_io r"
        "r_db t = run_scripts (e_uni env)
          (if tl w = ustr ''stats'' then map count_query (map fst (x_catalog (d_exec (r_db r))))
           else if tl w = ustr ''read'' \<and> args \<noteq> [] then file_scripts env (hd args) else []) (r_db r)"
        using dispatch_runs [OF 4(3)] by blast
      have "handle_meta env line r = (Inr Handled, t)"
        using assms w Some entry named 4(1,2) t(1) by (auto simp: handle_meta_def bindS_def returnS_def Let_def)
      then show ?thesis using t(2,3) w 4(1,3) by (auto simp: meta_scripts_def meta_ends_def)
    qed
  qed
qed

lemma next_text_effect:
  "\<exists>t. next_text env ev r = (Inr (fst (read_statement (e_uni env) ev (r_io r))), t) \<and> r_db t = r_db r \<and>
     r_io t = snd (read_statement (e_uni env) ev (r_io r))"
  by (auto simp: next_text_def say_def modifyS_def bindS_def returnS_def split: prod.splits)

text \<open>
  C13. The database of a shell session is the database after exactly the submitted scripts,
  run in order through \<open>Database.execute\<close>: each typed statement once, the pieces of a file for
  \<open>.read\<close>, one count per table for \<open>.stats\<close>, nothing for any other command; whatever the scripts
  raise, and however results are shown. Nothing after \<open>.exit\<close> or the end of file is run.
\<close>

theorem shell_runs_submitted:
  "r_db (snd (interactive_loop env evs r)) = run_scripts (e_uni env) (submitted env evs (r_io r) (r_db r)) (r_db r)"
proof (induction evs arbitrary: r)
  case Nil
  then show ?case by (simp add: returnS_def)
next
  case (Cons ev evs)
  let ?u = "e_uni env"
  obtain out io where read: "read_statement ?u ev (r_io r) = (out, io)" by fastforce
  obtain s where s: "next_text env ev r = (Inr out, s)" "r_db s = r_db r" "r_io s = io"
    using next_text_effect [of env ev r] read by auto
  note step = bindS_Inr [where m = "next_text env ev", OF s(1)]
  show ?case
  proof (cases out)
    case None
    then show ?thesis using read s by (simp add: step returnS_def)
  next
    case (Some stmt)
    consider "str_strip ?u stmt = []" | "str_strip ?u stmt \<noteq> []" "take 1 (lstrip ?u stmt) = [46]"
      | "str_strip ?u stmt \<noteq> []" "take 1 (lstrip ?u stmt) \<noteq> [46]" by blast
    then show ?thesis
    proof cases
      case 1
      then show ?thesis using Cons.IH [of s] read s Some by (simp add: step)
    next
      case 2
      obtain res t where m: "handle_meta env stmt s = (res, t)" "r_io t = io"
        "r_db t = run_scripts ?u (meta_scripts env stmt (r_db r)) (r_db r)"
        "if meta_ends env stmt then r_db t = r_db s \<and> res \<in> {Inl ValueError, Inr Exit_signal} else res = Inr Handled"
        using handle_meta_effect [OF 2(2), of s] unfolding s(2,3) by blast
      have then_res: "bindS (handle_meta env stmt) f s = (case res of Inl e \<Rightarrow> (Inl e, t) | Inr a \<Rightarrow> f a t)"
        for f :: "meta_result \<Rightarrow> (repl, nat option) cmd"
        by (simp add: bindS_def m(1) split: sum.splits)
      show ?thesis
        using Cons.IH [of t] read s(2,3) Some 2 m(2,3,4)
        by (cases "meta_ends env stmt") (auto simp: step then_res returnS_def)
    next
      case 3
      let ?s = "s\<lparr>r_io := add_history ?u stmt io\<rparr>"
      obtain t where t: "run_sql env stmt ?s = (Inr (), t)" "r_db t = snd (db_execute ?u stmt (r_db r))"
        "r_io t = add_history ?u stmt io"
        using run_sql_runs [of env stmt] s by (fastforce simp: runs_def)
      show ?thesis
        using Cons.IH [of t] read s(2,3) Some 3 t(2,3)
        by (simp add: step bindS_Inr [where m = "run_sql env stmt", OF t(1)])
    qed
  qed
qed

lemma run_scripts_session: "session_ok (d_exec d) \<Longrightarrow> session_ok (d_exec (run_scripts u sqls d))"
proof (induction sqls arbitrary: d)
  case (Cons sql sqls)
  then show ?case using db_execute_session [OF prod.collapse [symmetric] Cons.prems] by simp
qed simp

lemma db_execute_open: "d_closed (snd (db_execute u sql d)) = d_closed d"
  by (auto simp: db_execute_def on_executor_def bindS_def getS_def raiseS_def liftE_def split: prod.splits sum.splits)

lemma run_scripts_open: "d_closed (run_scripts u sqls d) = d_closed d"
  by (induction sqls arbitrary: d) (simp_all add: db_execute_open)

text \<open>
  C14. The session invariant holds for the shell: whatever is typed, read or raised, without an
  open transaction there is no page buffer and no snapshot, inside one there is a
  snapshot. The database is closed exactly when the session has ended, by the end of
  file, by \<open>.exit\<close> or by an exception.
\<close>

theorem shell_session:
  assumes "db_open u p = Inr d" and "repl_session env d color evs = (res, r)"
  shows "session_ok (d_exec (r_db r)) \<and> (d_closed (r_db r) \<longleftrightarrow> res \<noteq> Inr None)"
proof -
  obtain res' t where t: "interactive_loop env evs (start_repl d color) = (res', t)" by fastforce
  have db: "r_db t = run_scripts (e_uni env) (submitted env evs new_fallback d) d"
    using shell_runs_submitted [of env evs "start_repl d color"] t by (simp add: start_repl_def)
  have "\<not> d_closed d" using db_openE [OF assms(1)] by force
  then have "session_ok (d_exec (r_db t))" "\<not> d_closed (r_db t)"
    using run_scripts_session [OF open_session [OF assms(1)]] by (simp_all add: db run_scripts_open)
  moreover have "session_ok (s\<lparr>x_pager := q\<rparr>)" if "session_ok s" for s q
    using that by (simp add: session_ok_def)
  ultimately show ?thesis
    using assms(2) t by (auto simp: repl_session_def on_db_def db_close_def bindS_def getS_def modifyS_def split: if_splits)
qed

end
