(* ===== verification/Repl_Examples.thy ===== *)
theory Repl_Examples
  imports Repl_Session Exec_Examples
begin

text \<open>The shell on concrete input: outputs in each format, and the witnesses of its properties.\<close>

definition sample_str :: "pyval \<Rightarrow> pystr" where
  "sample_str v = (case v of PNone \<Rightarrow> ustr ''None'' | PInt i \<Rightarrow> int_str i | PStr s \<Rightarrow> s | _ \<Rightarrow> [])"

definition sample_env :: shell_env where
  "sample_env =
     \<lparr>e_uni = latin1, e_str = sample_str, e_repr = (\<lambda>s. 39 # s @ [39]),
      e_files = (\<lambda>path. if path = ustr ''a.sql'' then Some (map of_nat (ustr ''BEGIN; COMMIT; SEL'')) else None),
      e_name = (\<lambda>e. ustr ''Error''), e_message = (\<lambda>e. [])\<rparr>"

definition sample_rows :: "result_row list" where
  "sample_rows =
     [\<lparr>rr_values = [PInt 1, PStr (ustr ''a,b'')], rr_columns = [ustr ''id'', ustr ''name'']\<rparr>,
      \<lparr>rr_values = [PInt 20, PNone], rr_columns = [ustr ''id'', ustr ''name'']\<rparr>]"

lemma sample_table:
  "format_rows latin1 sample_str sample_rows (ustr ''table'') =
   Inr (ustr ''id | name'' @ [10] @ ustr ''--- | ---'' @ [10] @ ustr ''1  | a,b'' @ [10] @ ustr ''20 | None'')"
  by code_simp

lemma sample_csv:
  "format_rows latin1 sample_str sample_rows (ustr ''csv'') =
   Inr (ustr ''id,name'' @ [13, 10] @ ustr ''1,'' @ [34] @ ustr ''a,b'' @ [34, 13, 10] @ ustr ''20,'' @ [13])"
  by code_simp

lemma sample_json:
  "format_rows latin1 sample_str sample_rows (ustr ''json'') =
   Inr (ustr ''[{'' @ [34] @ ustr ''id'' @ [34] @ ustr '': 1, '' @ [34] @ ustr ''name'' @ [34] @ ustr '': '' @ [34] @ ustr ''a,b'' @
     [34] @ ustr ''}, {'' @ [34] @ ustr ''id'' @ [34] @ ustr '': 20, '' @ [34] @ ustr ''name'' @ [34] @ ustr '': null}]'')"
  by code_simp

lemma sample_plan:
  "format_plan (e_repr sample_env) (Project (Sort (Scan (ustr ''t'') None [ustr ''id''] (ustr ''t'')) [(0, True)]) [] True) =
   ustr ''Project(items=0, star)'' @ [10] @ ustr ''   Sort(keys=((0, True),))'' @ [10] @ ustr ''      Scan(t, schema=('' @
   [39] @ ustr ''id'' @ [39] @ ustr '',))''"
  by code_simp

lemma sample_words: "meta_words latin1 (ustr ''  .read  a.sql b '') = (ustr ''.read'', [ustr ''a.sql'', ustr ''b''])"
  by code_simp

definition sample_stmt :: pystr where
  "sample_stmt = ustr ''SELECT ('' @ [10] @ ustr ''1);''"

definition sample_file :: pystr where
  "sample_file = ustr ''BEGIN; COMMIT; SEL''"

definition sample_typing :: "input_event list" where
  "sample_typing = [Typed (ustr ''SELECT (''), Typed (ustr ''1);''), Typed (ustr '' .read a.sql''), Typed (ustr ''.exit''), Typed (ustr ''x;'')]"

lemma sample_script: "read_script sample_env (ustr ''a.sql'') = Inr (Inr sample_file)"
proof -
  have "0 \<notin> set (ustr ''a.sql'')" "length sample_file = 18" by code_simp+
  moreover have "utf8_decode (map of_nat sample_file) = Inr sample_file"
    by (rule utf8_decode_ascii) (simp add: sample_file_def ustr_def)
  ultimately show ?thesis
    by (simp add: read_script_def MAX_READ_FILE_BYTES_def Let_def) (simp add: sample_env_def sample_file_def MAX_READ_FILE_BYTES_def)
qed

lemma sample_pieces:
  "map (str_strip latin1) (fst (split_script [] sample_file)) = [ustr ''BEGIN;'', ustr ''COMMIT;'']"
  by code_simp

lemma sample_reads:
  "read_statement latin1 (Typed (ustr ''SELECT ('')) new_fallback = (Some [], new_fallback\<lparr>fb_buf := ustr ''SELECT ('' @ [10]\<rparr>)"
  "read_statement latin1 (Typed (ustr ''1);'')) (new_fallback\<lparr>fb_buf := ustr ''SELECT ('' @ [10]\<rparr>) =
     (Some (sample_stmt), new_fallback)"
  "read_statement latin1 (Typed (ustr '' .read a.sql'')) (new_fallback\<lparr>fb_history := [sample_stmt]\<rparr>) =
     (Some (ustr '' .read a.sql''), new_fallback\<lparr>fb_history := [sample_stmt]\<rparr>)"
  "read_statement latin1 (Typed (ustr ''.exit'')) (new_fallback\<lparr>fb_history := [sample_stmt]\<rparr>) =
     (Some (ustr ''.exit''), new_fallback\<lparr>fb_history := [sample_stmt]\<rparr>)"
  "add_history latin1 (sample_stmt) new_fallback = new_fallback\<lparr>fb_history := [sample_stmt]\<rparr>"
  by code_simp+

lemma sample_kinds:
  "str_strip latin1 [] = []" "str_strip latin1 (sample_stmt) \<noteq> []"
  "take 1 (lstrip latin1 (sample_stmt)) \<noteq> [46]"
  "str_strip latin1 (ustr '' .read a.sql'') \<noteq> []" "take 1 (lstrip latin1 (ustr '' .read a.sql'')) = [46]"
  "str_strip latin1 (ustr ''.exit'') \<noteq> []" "take 1 (lstrip latin1 (ustr ''.exit'')) = [46]"
  "meta_ends sample_env (ustr ''.exit'')" "\<not> meta_ends sample_env (ustr '' .read a.sql'')"
  "meta_words latin1 (ustr '' .read a.sql'') = (ustr ''.read'', [ustr ''a.sql''])"
  by code_simp+

lemma sample_submitted:
  "submitted sample_env sample_typing new_fallback d = [sample_stmt, ustr ''BEGIN;'', ustr ''COMMIT;'']"
proof -
  have u: "e_uni sample_env = latin1" by (simp add: sample_env_def)
  have m: "meta_scripts sample_env (ustr '' .read a.sql'') d = [ustr ''BEGIN;'', ustr ''COMMIT;'']" for d
    using sample_pieces by (simp add: meta_scripts_def file_scripts_def u sample_kinds(10) sample_script) (simp add: ustr_def)
  show ?thesis
    by (simp only: submitted.simps sample_typing_def u sample_reads sample_kinds m split simp_thms if_True if_False
        append.simps option.case prod.case Let_def)
qed

lemma stats_counts_free_list_witness: "\<exists>p. free_ids p = [3] \<and> free_list_length p = Inr 1"
proof -
  obtain p where p: "pager_inv p" "free_ids p = [3]" by (rule two_pages)
  then show ?thesis using stats_counts_free_list [OF p(1)] by auto
qed

lemma shell_session_witness:
  "\<exists>d. db_open latin1 new_memory_pager = Inr d \<and>
     fst (repl_session sample_env d True [Typed (ustr ''SELECT (''), Interrupt, Eof]) = Inr (Some 0) \<and>
     session_ok (d_exec (r_db (snd (repl_session sample_env d True [Typed (ustr ''SELECT (''), Interrupt, Eof])))) \<and>
     d_closed (r_db (snd (repl_session sample_env d True [Typed (ustr ''SELECT (''), Interrupt, Eof])))"
proof -
  let ?evs = "[Typed (ustr ''SELECT (''), Interrupt, Eof]"
  have "read_page 1 new_memory_pager = Inr zero_page" by (simp add: read_page_def new_memory_pager_def)
  moreover have "catalog_from_bytes latin1 zero_page = Inr []"
    using rstrip0_pad [of "[]" 4096] by (simp add: catalog_from_bytes_def zero_page_def utf8_decode_ascii [of "[]", simplified])
  ultimately obtain d where d: "db_open latin1 new_memory_pager = Inr d" using db_open_success by blast
  have u: "e_uni sample_env = latin1" by (simp add: sample_env_def)
  have "fst (interactive_loop sample_env ?evs (start_repl d True)) = Inr (Some 0)"
    by (simp add: u next_text_def say_def bindS_def modifyS_def returnS_def start_repl_def sample_reads(1) sample_kinds(1))
      (simp add: read_statement_def sample_kinds(1) next_text_def u bindS_def returnS_def)
  then have end_of: "fst (repl_session sample_env d True ?evs) = Inr (Some 0)"
    by (auto simp: repl_session_def split: prod.splits)
  show ?thesis
    using d end_of shell_session [OF d prod.collapse [symmetric], of sample_env True ?evs] by auto
qed

end
