(* ===== verification/Spec2Isabelle.thy ===== *)
theory Spec2Isabelle
  imports Type_Literal Index_Examples Parser_Print Join_Layout Repl_Examples
begin

text \<open>
  Verification of TinyDB, a relational database in one file with a write-ahead log
  (\<open>src/tinydb/\<close>). This theory imports the whole library; the properties stand in the
  theories of their components, each after a text that starts with its number.

  \<^bold>\<open>The program.\<close> \<open>Database.execute\<close> tokenizes a script, parses it and hands each statement to
  the \<open>Executor\<close>. The executor keeps the catalog, the list of data pages of each table, the B+
  trees of PRIMARY KEY and UNIQUE columns, the open transaction and the pages it has written.
  Rows are encoded with the codecs of their column types and stored in slotted pages; a row
  longer than a page continues in a chain of overflow pages. Inside a transaction pages are
  logged and buffered; COMMIT writes them to the main file; opening a file replays its log.
  A SELECT with joins is resolved, planned and evaluated by nested loops.

  \<^bold>\<open>Theories and sources.\<close>
  \<^item> \<open>Prelude\<close>, \<open>Py_Bytes\<close>, \<open>Py_Values\<close>, \<open>Py_Text\<close>, \<open>Py_Ops\<close>, \<open>Json\<close>: what the program takes from Python.
    Exceptions are the constructors of \<open>py_error\<close>, results \<open>'a res\<close> (\<open>Inl\<close> the exception), methods
    with state commands \<open>('s, 'a) cmd\<close> that return the state reached also when they raise. Integers
    are \<open>int\<close>, bytes 8-bit words, strings lists of code points, dictionaries association lists in
    insertion order, floats their 64 bits.
  \<^item> \<open>Slotted_Page\<close> (\<open>slotted_page.py\<close>), \<open>Wal\<close> (\<open>wal.py\<close>), \<open>Pager\<close> (\<open>pager.py\<close>), \<open>Transaction\<close>
    (\<open>transaction.py\<close>), \<open>Recovery\<close> (\<open>recovery.py\<close>): storage. A page refines a store of rows, the log a
    list of records, the pager an array of pages with a free list. \<open>crashed n\<close> is what the code of a
    transaction leaves of the two files when it ends after \<open>n\<close> bytes of writes; what the next open
    finds is stated for every \<open>n\<close>: all pages or none, but for a cut header of the emptied log, where
    the pages are there and every open raises.
  \<^item> \<open>Type_System\<close>, \<open>Type_Literal\<close>, \<open>Row_Codec\<close> (\<open>type_system.py\<close>, \<open>row_codec.py\<close>, \<open>_schema.py\<close>): every codec and every
    row reads back as stored.
  \<^item> \<open>Btree\<close> (\<open>btree.py\<close>): the two kinds of nodes, their page images and the operations over any page
    store. \<open>Btree_Node\<close>, \<open>Btree_Tree\<close>, \<open>Btree_Leaves\<close>, \<open>Btree_Split\<close>, \<open>Btree_Map\<close>, \<open>Btree_Range\<close>, \<open>Btree_Refine\<close>: the
    tree behind the pages, what a split does to it and its parents (locale \<open>tree_store\<close>), and that
    on the pager any sequence of updates acts as on a map. Fuel is the number of updates.
  \<^item> \<open>Tokenizer\<close>, \<open>Parser\<close>, \<open>Parser_Total\<close>, \<open>Parser_Print\<close> (\<open>tokenizer.py\<close>, \<open>parser.py\<close>): the parser returns
    on every input, and reads printed WHERE expressions back.
  \<^item> \<open>Catalog\<close> (\<open>catalog.py\<close> and the catalog chain of \<open>pager.py\<close>): catalogs read back as written.
  \<^item> \<open>Query\<close> (the part of \<open>executor.py\<close> on rows already read, \<open>_executor_sort.py\<close>): WHERE, aggregates,
    GROUP BY, HAVING, ORDER BY, LIMIT.
  \<^item> \<open>Resolver\<close>, \<open>Plan\<close>, \<open>Join_Exec\<close> (\<open>resolver.py\<close>, \<open>plan.py\<close>, \<open>_join_executor.py\<close>) with \<open>Join_Spec\<close> and
    \<open>Join_Layout\<close>: the loops are relational joins, rows have their width, and the joined rows hold
    the cells of the scanned rows where the resolver looks for their columns.
  \<^item> \<open>Exec_State\<close>, \<open>Table_Store\<close>, \<open>Executor\<close> (\<open>executor.py\<close>, \<open>_executor_drop.py\<close>, \<open>_executor_snapshot.py\<close>,
    \<open>_index_pager.py\<close>, \<open>index_manager.py\<close>), \<open>Database\<close> (\<open>database.py\<close>): the record \<open>exec\<close> and every statement
    on it, from the page routing of a transaction to the dispatch of \<open>execute\<close>. The page wrappers
    (\<open>IndexPager\<close>) are objects that trees share: a tree holds its place in \<open>x_wrappers\<close>, a wrapper the
    pages it has allocated. A snapshot holds the trees with the same places, as \<open>BTree.__deepcopy__\<close> does, so
    a rollback gives the roots back and leaves what the wrappers have recorded.
  \<^item> \<open>Frame\<close>, \<open>Exec_Frame\<close>, \<open>Exec_Atomic\<close>, \<open>Reopen\<close>: a relation that the primitive operations keep is kept by
    every statement (locales \<open>frame\<close>, \<open>tree_frame\<close>, \<open>exec_frame\<close>); hence a failed statement and a
    ROLLBACK undo everything, and the session invariant holds after any scripts.
  \<^item> \<open>Exec_Pages\<close>, \<open>Drop_Table\<close>, \<open>Overflow_Chain\<close>: allocation, freeing and overflow chains inside a
    transaction, in the view of the page buffer over the main file.
  \<^item> \<open>Table_Scan\<close>, \<open>Create_Table\<close>, \<open>Insert_Scan\<close>, \<open>Delete_Scan\<close>, \<open>Update_Scan\<close>, \<open>Constraints\<close>: each statement
    against what a scan of the table finds. They speak of tables whose pages hold no long row,
    UPDATE of tables without indexed columns whose new rows fit their slots.
  \<^item> \<open>Index_Map\<close>, \<open>Indexed_Rows\<close>, \<open>Index_Scan\<close>, \<open>Index_Delete\<close>: the indexes of a table inside a transaction. The store of
    one index (locale \<open>tree_store\<close> on the page wrapper, the log and the buffer) leaves the pages of
    everything else alone; a tree has no more levels than pages, so the fuel of the program's descents
    is enough. INSERT enters a row in every index and DELETE takes it out of every index (keys of fixed
    width). For key columns whose values their keys determine (\<open>simple_keys\<close>) INSERT keeps the indexes exact, and
    then a SELECT by key through an index answers as the scan does.
  \<^item> \<open>Plan_Text\<close> (the text of a plan), \<open>Repl_Input\<close> (\<open>_repl_io.py\<close>), \<open>Repl_Format\<close> (\<open>_repl_format.py\<close>), \<open>Repl\<close>
    (\<open>repl.py\<close>, \<open>_repl_meta.py\<close>), \<open>Repl_Session\<close>: the shell around \<open>Database.execute\<close>. A session is equal to
    running the scripts it submits, in order; scripts of files are cut without loss; CSV output
    reads back; the walk of \<open>.stats\<close> finds the whole free list.
  \<^item> \<open>Exec_Examples\<close>, \<open>Index_Examples\<close>, \<open>Repl_Examples\<close>: concrete sessions at which the theorems apply.

  \<^bold>\<open>Bounds and fuel.\<close> A loop that may not end has fuel, and running out is the exception \<open>FuelOut\<close>, which
  the program does not have. Descents of a tree and walks over chains of pages have the number of
  pages plus two (no page is visited twice on a chain without a cycle), the catalog chain the page
  count plus four; the parser \<open>4 n + 4\<close> for \<open>n\<close> tokens, enough by \<open>parse_total\<close>; JSON \<open>2 n + 2\<close> for
  \<open>n\<close> characters. The search for a data page ends in its first turn or never, by \<open>data_page_liveness\<close>.
  Page ids are below \<open>2 ^ 32\<close> (\<open>has_room\<close>), as their four bytes require.

  \<^bold>\<open>Parameters.\<close> The record \<open>uni\<close> stands for Python's Unicode database and its ISO date parsers, which return
  times and datetimes with a time zone for a text with an offset (\<open>PTimeZ\<close>, \<open>PDateTimeZ\<close>). \<open>latin1\<close> is an
  instance for examples. The shell takes \<open>str\<close> and \<open>repr\<close>, the names and messages of exceptions, and the
  files it can open from the record \<open>shell_env\<close>.

  \<^bold>\<open>Choices.\<close> \<open>sorted\<close> is insertion sort, which is stable as Python's is; \<open>sum\<close> adds from the left; the
  pages of an index are freed in the order they were allocated, where the program iterates over a
  set.

  \<^bold>\<open>Not modelled.\<close> The \<open>prompt_toolkit\<close> editor of the shell; file and thread locks, file handles, \<open>flush\<close>
  and \<open>fsync\<close>, which change no contents; the texts of exceptions; the identity of NaN objects; catalog JSON with fields of other types than the
  program writes.
\<close>

end
